(* ===== verification/Prelude.thy ===== *)
theory Prelude
  imports Main "HOL-Library.Word"
begin

text \<open>
  The shared base of the development: fallible computations as a sum type, the vector
  operations of the C++ standard library the sources use (resize, swap-and-pop), decimal
  printing, and the generic facts on lists and relations that the component proofs rest on.
\<close>

named_theorems result_simps \<open>rewriting of fallible computations\<close>
named_theorems vec_simps \<open>rewriting of vector operations\<close>

section \<open>Fallible computations\<close>

text \<open>
  A C++ function that may throw returns a value of the sum type: the left injection is the
  exception, the right one the result. \<open>bind_result\<close> is sequencing: the first exception
  wins and everything after it is skipped.
\<close>

definition bind_result :: "'e + 'a \<Rightarrow> ('a \<Rightarrow> 'e + 'b) \<Rightarrow> 'e + 'b" where
  "bind_result r f = (case r of Inl e \<Rightarrow> Inl e | Inr a \<Rightarrow> f a)"

definition map_result :: "('a \<Rightarrow> 'b) \<Rightarrow> 'e + 'a \<Rightarrow> 'e + 'b" where
  "map_result f r = bind_result r (\<lambda>a. Inr (f a))"

text \<open>A loop over a vector whose body may throw.\<close>

fun fold_result :: "('a \<Rightarrow> 's \<Rightarrow> 'e + 's) \<Rightarrow> 'a list \<Rightarrow> 's \<Rightarrow> 'e + 's" where
  "fold_result f [] s = Inr s"
| "fold_result f (x # xs) s = bind_result (f x s) (fold_result f xs)"

text \<open>Element-wise loops whose test or body may throw; the first exception wins.\<close>

fun traverse_result :: "('a \<Rightarrow> 'e + 'b) \<Rightarrow> 'a list \<Rightarrow> 'e + 'b list" where
  "traverse_result f [] = Inr []"
| "traverse_result f (x # xs) = bind_result (f x) (\<lambda>y. map_result (Cons y) (traverse_result f xs))"

fun filter_result :: "('a \<Rightarrow> 'e + bool) \<Rightarrow> 'a list \<Rightarrow> 'e + 'a list" where
  "filter_result p [] = Inr []"
| "filter_result p (x # xs) =
     bind_result (p x) (\<lambda>b. map_result (\<lambda>ys. if b then x # ys else ys) (filter_result p xs))"

section \<open>Vector operations\<close>

text \<open>\<^verbatim>\<open>std::vector::resize(n, d)\<close>: truncate, or pad with the default.\<close>

definition resize :: "nat \<Rightarrow> 'a \<Rightarrow> 'a list \<Rightarrow> 'a list" where
  "resize n d xs = take n xs @ replicate (n - length xs) d"

text \<open>The idiom \<^verbatim>\<open>if (i >= v.size()) v.resize(i + 1, d)\<close>.\<close>

definition grow_to :: "nat \<Rightarrow> 'a \<Rightarrow> 'a list \<Rightarrow> 'a list" where
  "grow_to i d xs = (if i \<ge> length xs then resize (i + 1) d xs else xs)"

text \<open>
  The idiom \<^verbatim>\<open>*it = v.back(); v.pop_back();\<close> with \<open>it\<close> the result of \<^verbatim>\<open>std::find\<close>:
  the first occurrence is overwritten by the last element, which is then dropped.
\<close>

fun overwrite_first :: "'a \<Rightarrow> 'a \<Rightarrow> 'a list \<Rightarrow> 'a list" where
  "overwrite_first x y [] = []"
| "overwrite_first x y (z # zs) = (if z = x then y # zs else z # overwrite_first x y zs)"

definition swap_remove :: "'a \<Rightarrow> 'a list \<Rightarrow> 'a list" where
  "swap_remove x xs = butlast (overwrite_first x (last xs) xs)"

text \<open>Reading a vector entry that is the default beyond the end.\<close>

definition nth_or :: "'a \<Rightarrow> 'a list \<Rightarrow> nat \<Rightarrow> 'a" where
  "nth_or d xs i = (if i < length xs then xs ! i else d)"

section \<open>Decimal printing\<close>

text \<open>\<^verbatim>\<open>std::to_string\<close> on unsigned integers.\<close>

definition digit_char :: "nat \<Rightarrow> char" where
  "digit_char d = char_of (48 + d)"

fun nat_to_string :: "nat \<Rightarrow> string" where
  "nat_to_string n =
     (if n < 10 then [digit_char n] else nat_to_string (n div 10) @ [digit_char (n mod 10)])"

declare nat_to_string.simps [simp del]

section \<open>Lemmas on fallible computations\<close>

lemma bind_result_Inl [simp, result_simps]: "bind_result (Inl e) f = Inl e"
  by (simp add: bind_result_def)

lemma bind_result_Inr [simp, result_simps]: "bind_result (Inr a) f = f a"
  by (simp add: bind_result_def)

lemma bind_result_eq_Inr [simp, result_simps]:
  "bind_result r f = Inr b \<longleftrightarrow> (\<exists>a. r = Inr a \<and> f a = Inr b)"
  by (cases r) auto

lemma bind_result_eq_Inl:
  "bind_result r f = Inl e \<longleftrightarrow> r = Inl e \<or> (\<exists>a. r = Inr a \<and> f a = Inl e)"
  by (cases r) auto

lemma bind_result_assoc:
  "bind_result (bind_result r f) g = bind_result r (\<lambda>a. bind_result (f a) g)"
  by (cases r) auto

lemma map_result_simps [simp, result_simps]:
  "map_result f (Inl e) = Inl e" "map_result f (Inr a) = Inr (f a)"
  by (simp_all add: map_result_def)

lemma map_result_eq_Inr [simp]: "map_result f r = Inr b \<longleftrightarrow> (\<exists>a. r = Inr a \<and> f a = b)"
  by (cases r) auto

lemma fold_result_append:
  "fold_result f (xs @ ys) s = bind_result (fold_result f xs s) (fold_result f ys)"
proof (induction xs arbitrary: s)
  case (Cons x xs)
  then have "fold_result f (xs @ ys) = (\<lambda>s. bind_result (fold_result f xs s) (fold_result f ys))"
    by blast
  then show ?case by (simp add: bind_result_assoc)
qed simp

text \<open>The loop rule: an invariant indexed by the processed prefix.\<close>

lemma fold_result_rule:
  assumes "I [] s"
    and "\<And>ys x zs s. xs = ys @ x # zs \<Longrightarrow> I ys s \<Longrightarrow> \<exists>s'. f x s = Inr s' \<and> I (ys @ [x]) s'"
  shows "\<exists>s'. fold_result f xs s = Inr s' \<and> I xs s'"
proof -
  have "\<exists>s'. fold_result f ys s = Inr s' \<and> I ys s'" if "\<exists>zs. xs = ys @ zs" for ys
    using that
  proof (induction ys rule: rev_induct)
    case Nil
    with assms(1) show ?case by simp
  next
    case (snoc x ys)
    then obtain zs where xs: "xs = ys @ x # zs" by auto
    with snoc.IH obtain s1 where s1: "fold_result f ys s = Inr s1" "I ys s1" by auto
    from assms(2) [OF xs s1(2)] obtain s2 where "f x s1 = Inr s2" "I (ys @ [x]) s2" by blast
    with s1 show ?case by (simp add: fold_result_append)
  qed
  from this [of xs] show ?thesis by simp
qed

lemma fold_result_pure:
  "(\<And>x s. x \<in> set xs \<Longrightarrow> f x s = Inr (g x s)) \<Longrightarrow> fold_result f xs s = Inr (fold g xs s)"
  by (induction xs arbitrary: s) auto

lemma traverse_result_pure:
  "(\<And>x. x \<in> set xs \<Longrightarrow> f x = Inr (g x)) \<Longrightarrow> traverse_result f xs = Inr (map g xs)"
  by (induction xs) auto

lemma filter_result_pure:
  "(\<And>x. x \<in> set xs \<Longrightarrow> p x = Inr (q x)) \<Longrightarrow> filter_result p xs = Inr (filter q xs)"
  by (induction xs) auto

lemma filter_result_Inr: "filter_result p xs = Inr ys \<Longrightarrow> set ys \<subseteq> {x \<in> set xs. p x = Inr True}"
proof (induction xs arbitrary: ys)
  case (Cons x xs)
  then obtain b zs where "p x = Inr b" "filter_result p xs = Inr zs" "ys = (if b then x # zs else zs)" by auto
  with Cons.IH [of zs] show ?case by (cases b) auto
qed simp

section \<open>Lemmas on vectors\<close>

lemma length_resize [simp, vec_simps]: "length (resize n d xs) = n"
  by (simp add: resize_def)

lemma nth_resize [simp, vec_simps]:
  "i < n \<Longrightarrow> resize n d xs ! i = (if i < length xs then xs ! i else d)"
  by (auto simp: resize_def nth_append)

lemma resize_self [simp]: "resize (length xs) d xs = xs"
  by (simp add: resize_def)

lemma resize_Suc_length: "n = Suc (length xs) \<Longrightarrow> resize n d xs = xs @ [d]"
  by (simp add: resize_def)

lemma length_grow_to [simp, vec_simps]: "length (grow_to i d xs) = max (length xs) (i + 1)"
  by (simp add: grow_to_def)

lemma nth_grow_to [simp, vec_simps]:
  "j < max (length xs) (i + 1) \<Longrightarrow> grow_to i d xs ! j = (if j < length xs then xs ! j else d)"
  by (auto simp: grow_to_def)

lemma grow_to_id [simp]: "i < length xs \<Longrightarrow> grow_to i d xs = xs"
  by (simp add: grow_to_def)

lemma length_overwrite_first [simp]: "length (overwrite_first x y xs) = length xs"
  by (induction xs) auto

lemma overwrite_first_self: "overwrite_first x x xs = xs"
  by (induction xs) auto

lemma overwrite_first_append:
  "x \<in> set xs \<Longrightarrow> overwrite_first x y (xs @ ys) = overwrite_first x y xs @ ys"
  by (induction xs) auto

lemma overwrite_first_append_notin:
  "x \<notin> set xs \<Longrightarrow> overwrite_first x y (xs @ ys) = xs @ overwrite_first x y ys"
  by (induction xs) auto

lemma set_overwrite_first:
  "x \<in> set xs \<Longrightarrow> distinct xs \<Longrightarrow> set (overwrite_first x y xs) = insert y (set xs - {x})"
  by (induction xs) auto

lemma distinct_overwrite_first:
  "distinct xs \<Longrightarrow> y \<notin> set xs \<Longrightarrow> distinct (overwrite_first x y xs)"
proof (induction xs)
  case (Cons z zs)
  then show ?case
    using set_overwrite_first [of x zs y]
    by (cases "x \<in> set zs") (auto simp: overwrite_first_append_notin [of x zs y "[]", simplified])
qed simp

lemma swap_remove_set_distinct:
  assumes "x \<in> set xs" "distinct xs"
  shows "set (swap_remove x xs) = set xs - {x}" "distinct (swap_remove x xs)"
proof -
  from assms obtain ys y where xs: "xs = ys @ [y]"
    by (metis append_butlast_last_id in_set_conv_decomp_last list.distinct(1) append_is_Nil_conv)
  have *: "set (swap_remove x xs) = set xs - {x} \<and> distinct (swap_remove x xs)"
  proof (cases "x = y")
    case True
    with assms xs show ?thesis
      by (auto simp: swap_remove_def overwrite_first_append_notin)
  next
    case False
    with assms xs have "x \<in> set ys" "distinct ys" "y \<notin> set ys" by auto
    with False xs show ?thesis
      using set_overwrite_first [of x ys y] distinct_overwrite_first [of ys y x]
      by (auto simp: swap_remove_def overwrite_first_append)
  qed
  then show "set (swap_remove x xs) = set xs - {x}" "distinct (swap_remove x xs)" by auto
qed

lemma nth_or_simps [simp]:
  "i < length xs \<Longrightarrow> nth_or d xs i = xs ! i" "\<not> i < length xs \<Longrightarrow> nth_or d xs i = d"
  by (simp_all add: nth_or_def)

lemma nth_or_grow_to [simp]: "nth_or d (grow_to i d xs) j = nth_or d xs j"
  by (auto simp: nth_or_def grow_to_def)

lemma nth_or_update: "i < length xs \<Longrightarrow> nth_or d (xs[i := v]) j = (if j = i then v else nth_or d xs j)"
  by (auto simp: nth_or_def)

end
