(* ===== verification/Errors.thy ===== *)
theory Errors
  imports Prelude
begin

text \<open>
  The exception taxonomy of \<^verbatim>\<open>include/dpor/errors.hpp\<close>. Every function of the model that may
  throw returns \<open>exn + 'a\<close>. Exceptions of the standard library that escape user callbacks
  are the two last constructors: one carries the text of \<^verbatim>\<open>what()\<close>, the other is a payload
  that is not a \<^verbatim>\<open>std::exception\<close>.
\<close>

datatype UserCallbackKind =
    ThreadFunction
  | ReceiveMatcher
  | TerminalObserver
  | ProgressObserver

definition callback_to_string :: "UserCallbackKind \<Rightarrow> string" where
  "callback_to_string kind =
     (case kind of
        ThreadFunction \<Rightarrow> ''thread function''
      | ReceiveMatcher \<Rightarrow> ''receive matcher''
      | TerminalObserver \<Rightarrow> ''terminal execution observer''
      | ProgressObserver \<Rightarrow> ''progress observer'')"

datatype exn =
    internal_error string
  | precondition_error string
  | user_code_error UserCallbackKind "nat option" "exn option" string
  | std_exception string
  | non_std_exception

type_synonym 'a result = "exn + 'a"

text \<open>
  The text of an exception, \<^verbatim>\<open>what()\<close>. A \<^verbatim>\<open>user_code_error\<close> composes its message from the
  callback kind, the thread, the detail and the text of the original exception, in this order
  (\<^verbatim>\<open>compose_user_code_message\<close>).
\<close>

primrec exn_what :: "exn \<Rightarrow> string" where
  "exn_what (internal_error m) = m"
| "exn_what (precondition_error m) = m"
| "exn_what (user_code_error kind tid original detail) =
     ''exception escaped user '' @ callback_to_string kind
     @ (case tid of Some t \<Rightarrow> '' (thread '' @ nat_to_string t @ '')'' | None \<Rightarrow> [])
     @ (if detail \<noteq> [] then '': '' @ detail else [])
     @ (case map_option (\<lambda>e. (e, exn_what e)) original of
          None \<Rightarrow> []
        | Some (e, w) \<Rightarrow>
            (if e = non_std_exception then '': non-std::exception payload'' else '': '' @ w))"
| "exn_what (std_exception m) = m"
| "exn_what non_std_exception = []"

definition has_original :: "exn \<Rightarrow> bool" where
  "has_original e = (case e of user_code_error _ _ (Some _) _ \<Rightarrow> True | _ \<Rightarrow> False)"

text \<open>Rethrowing the original always throws: the original, or a precondition error.\<close>

definition rethrow_original :: "exn option \<Rightarrow> exn" where
  "rethrow_original original =
     (case original of
        None \<Rightarrow> precondition_error ''user_code_error carries no original exception''
      | Some e \<Rightarrow> e)"

text \<open>
  \<^verbatim>\<open>invoke_user_code\<close> of \<^verbatim>\<open>include/dpor/algo/dpor.hpp\<close>: whatever a callback throws surfaces
  as a \<^verbatim>\<open>user_code_error\<close> tagged with the callback surface, and an escaping
  \<^verbatim>\<open>user_code_error\<close> passes through unchanged.
\<close>

definition invoke_user_code :: "UserCallbackKind \<Rightarrow> nat option \<Rightarrow> 'a result \<Rightarrow> 'a result" where
  "invoke_user_code kind tid r =
     (case r of
        Inr a \<Rightarrow> Inr a
      | Inl (user_code_error k t orig d) \<Rightarrow> Inl (user_code_error k t orig d)
      | Inl e \<Rightarrow> Inl (user_code_error kind tid (Some e) []))"

lemma invoke_user_code_Inr [simp]: "invoke_user_code kind tid (Inr a) = Inr a"
  by (simp add: invoke_user_code_def)

lemma invoke_user_code_eq_Inr [simp]: "invoke_user_code kind tid r = Inr a \<longleftrightarrow> r = Inr a"
  by (auto simp: invoke_user_code_def split: sum.splits exn.splits)

lemma invoke_user_code_Inl:
  "invoke_user_code kind tid r = Inl e \<Longrightarrow> \<exists>k t orig d. e = user_code_error k t orig d"
  by (auto simp: invoke_user_code_def split: sum.splits exn.splits)

end
