(* ===== verification/Events.thy ===== *)
theory Events
  imports Errors
begin

text \<open>
  The event layer, \<^verbatim>\<open>include/dpor/model/event.hpp\<close>: thread and event identifiers, event
  labels and the classification of events. A thread id is a natural number (the sources only
  compare it and use it as a vector index; the graph layer caps it at \<open>kMaxThreadId\<close>), a
  per-thread event index keeps its width of 32 bits because the index bookkeeping saturates at
  the largest value. A receive matcher is a user callback: a function of the payload that may throw,
  and \<open>accepts\<close> is the one place that invokes it.
\<close>

type_synonym ThreadId = nat
type_synonym EventIndex = "32 word"
type_synonym EventId = nat

definition kMaxThreadId :: ThreadId where
  "kMaxThreadId = 2 ^ 20 - 1"

datatype CommunicationModel = Async | FifoP2P

datatype ReceiveMode = Blocking | NonBlocking

datatype 'v ObservedValue = Observed 'v | BottomValue

definition is_bottom_value :: "'v ObservedValue \<Rightarrow> bool" where
  "is_bottom_value o' = (case o' of Observed _ \<Rightarrow> False | BottomValue \<Rightarrow> True)"

definition as_value :: "'v ObservedValue \<Rightarrow> 'v option" where
  "as_value o' = (case o' of Observed v \<Rightarrow> Some v | BottomValue \<Rightarrow> None)"

definition observed_value :: "'v ObservedValue \<Rightarrow> 'v result" where
  "observed_value o' =
     (case as_value o' of
        None \<Rightarrow> Inl (precondition_error ''observed value is bottom'')
      | Some v \<Rightarrow> Inr v)"

record 'v ReceiveLabel =
  mode :: ReceiveMode
  matches :: "'v \<Rightarrow> bool result"

definition is_blocking :: "'v ReceiveLabel \<Rightarrow> bool" where
  "is_blocking r = (mode r = Blocking)"

definition is_nonblocking :: "'v ReceiveLabel \<Rightarrow> bool" where
  "is_nonblocking r = (mode r = NonBlocking)"

definition accepts :: "'v ReceiveLabel \<Rightarrow> 'v \<Rightarrow> bool result" where
  "accepts r v = invoke_user_code ReceiveMatcher None (matches r v)"

record 'v SendLabel =
  destination :: ThreadId
  send_value :: 'v

record 'v NondeterministicChoiceLabel =
  nd_value :: 'v
  choices :: "'v list"

record ErrorLabel =
  message :: string

datatype 'v EventLabel =
    Receive "'v ReceiveLabel"
  | Send "'v SendLabel"
  | NondeterministicChoice "'v NondeterministicChoiceLabel"
  | Block
  | Error ErrorLabel

record 'v event =
  thread :: ThreadId
  index :: EventIndex
  label :: "'v EventLabel"

definition match_any_value :: "'v \<Rightarrow> bool result" where
  "match_any_value v = Inr True"

definition make_receive_label :: "('v \<Rightarrow> bool result) \<Rightarrow> ReceiveMode \<Rightarrow> 'v ReceiveLabel" where
  "make_receive_label matcher m = \<lparr>mode = m, matches = matcher\<rparr>"

definition make_nonblocking_receive_label :: "('v \<Rightarrow> bool result) \<Rightarrow> 'v ReceiveLabel" where
  "make_nonblocking_receive_label matcher = make_receive_label matcher NonBlocking"

definition make_receive_label_from_values :: "'v list \<Rightarrow> ReceiveMode \<Rightarrow> 'v ReceiveLabel" where
  "make_receive_label_from_values accepted_values m =
     make_receive_label (\<lambda>candidate. Inr (List.member accepted_values candidate)) m"

definition as_receive :: "'v event \<Rightarrow> 'v ReceiveLabel option" where
  "as_receive e = (case label e of Receive r \<Rightarrow> Some r | _ \<Rightarrow> None)"

definition as_send :: "'v event \<Rightarrow> 'v SendLabel option" where
  "as_send e = (case label e of Send s \<Rightarrow> Some s | _ \<Rightarrow> None)"

definition as_nondeterministic_choice ::
    "'v event \<Rightarrow> 'v NondeterministicChoiceLabel option" where
  "as_nondeterministic_choice e =
     (case label e of NondeterministicChoice n \<Rightarrow> Some n | _ \<Rightarrow> None)"

definition as_error :: "'v event \<Rightarrow> ErrorLabel option" where
  "as_error e = (case label e of Error x \<Rightarrow> Some x | _ \<Rightarrow> None)"

definition is_receive :: "'v event \<Rightarrow> bool" where
  "is_receive e = (case label e of Receive _ \<Rightarrow> True | _ \<Rightarrow> False)"

definition is_send :: "'v event \<Rightarrow> bool" where
  "is_send e = (case label e of Send _ \<Rightarrow> True | _ \<Rightarrow> False)"

definition is_nondeterministic_choice :: "'v event \<Rightarrow> bool" where
  "is_nondeterministic_choice e = (case label e of NondeterministicChoice _ \<Rightarrow> True | _ \<Rightarrow> False)"

definition is_block :: "'v event \<Rightarrow> bool" where
  "is_block e = (case label e of Block \<Rightarrow> True | _ \<Rightarrow> False)"

definition is_error :: "'v event \<Rightarrow> bool" where
  "is_error e = (case label e of Error _ \<Rightarrow> True | _ \<Rightarrow> False)"

lemmas event_kind_defs =
  as_receive_def as_send_def as_nondeterministic_choice_def as_error_def
  is_receive_def is_send_def is_nondeterministic_choice_def is_block_def is_error_def

lemma is_receive_as_receive: "is_receive e \<longleftrightarrow> as_receive e \<noteq> None"
  by (auto simp: event_kind_defs split: EventLabel.splits)

lemma is_send_as_send: "is_send e \<longleftrightarrow> as_send e \<noteq> None"
  by (auto simp: event_kind_defs split: EventLabel.splits)

lemma as_receive_SomeD: "as_receive e = Some r \<Longrightarrow> is_receive e"
  by (auto simp: is_receive_as_receive)

lemma as_send_SomeD: "as_send e = Some s \<Longrightarrow> is_send e"
  by (auto simp: is_send_as_send)

lemma is_receiveE: "is_receive e \<Longrightarrow> (\<And>r. as_receive e = Some r \<Longrightarrow> P) \<Longrightarrow> P"
  by (auto simp: is_receive_as_receive)

lemma is_sendE: "is_send e \<Longrightarrow> (\<And>s. as_send e = Some s \<Longrightarrow> P) \<Longrightarrow> P"
  by (auto simp: is_send_as_send)

lemma as_receive_None [simp]: "as_receive e = None \<longleftrightarrow> \<not> is_receive e"
  by (auto simp: is_receive_as_receive)

lemma as_send_None [simp]: "as_send e = None \<longleftrightarrow> \<not> is_send e"
  by (auto simp: is_send_as_send)

lemma send_not_receive: "is_send e \<Longrightarrow> \<not> is_receive e"
  by (auto simp: event_kind_defs split: EventLabel.splits)

lemma receive_not_send: "is_receive e \<Longrightarrow> \<not> is_send e"
  by (auto simp: event_kind_defs split: EventLabel.splits)

lemma block_not_send_receive: "is_block e \<Longrightarrow> \<not> is_send e \<and> \<not> is_receive e"
  by (auto simp: event_kind_defs split: EventLabel.splits)

lemma nonblocking_iff: "is_nonblocking r \<longleftrightarrow> \<not> is_blocking r"
  by (cases "mode r") (auto simp: is_blocking_def is_nonblocking_def)

lemma accepts_from_values:
  "accepts (make_receive_label_from_values vs m) v = Inr (v \<in> set vs)"
  by (simp add: accepts_def make_receive_label_from_values_def make_receive_label_def)

lemma accepts_eq_Inr [simp]: "accepts r v = Inr b \<longleftrightarrow> matches r v = Inr b"
  by (simp add: accepts_def)

text \<open>Kinds depend on the label only.\<close>

lemma kinds_label_cong:
  assumes "label e = label e'"
  shows "is_receive e = is_receive e'" "is_send e = is_send e'" "as_receive e = as_receive e'"
    "as_send e = as_send e'" "is_block e = is_block e'" "is_error e = is_error e'"
    "as_nondeterministic_choice e = as_nondeterministic_choice e'"
  using assms by (simp_all add: event_kind_defs)

end
