(* ===== verification/Relations.thy ===== *)
theory Relations
  imports Events
begin

text \<open>
  The relation layer, \<^verbatim>\<open>include/dpor/model/relation.hpp\<close>. The C++ concept \<^verbatim>\<open>Relation\<close> is the
  locale \<open>Relation\<close>: what a client may ask of a relation (node count, membership, enumeration of
  successors) and what every model of the concept promises about the set of edges it stands
  for. \<open>ExplicitRelation\<close> and \<open>ProgramOrderRelation\<close> interpret it; the view templates
  \<open>ComposeRelation\<close>, \<open>UnionRelation\<close> and \<open>TransitiveClosureRelation\<close> take the operations of
  their operands as arguments and are proved, inside the locales, to be relations again:
  composition, union and transitive closure of the operands' edges, each successor emitted
  exactly once. \<^verbatim>\<open>for_each_successor\<close> is modelled by the list of nodes its callback receives.
\<close>

type_synonym NodeId = nat

definition out_of_bounds :: "'a result" where
  "out_of_bounds = Inl (precondition_error ''relation node id is out of bounds'')"

section \<open>Explicit adjacency lists\<close>

record ExplicitRelation =
  successors :: "NodeId list list"

definition explicit_relation :: "nat \<Rightarrow> ExplicitRelation" where
  "explicit_relation n = \<lparr>successors = replicate n []\<rparr>"

definition explicit_node_count :: "ExplicitRelation \<Rightarrow> nat" where
  "explicit_node_count r = length (successors r)"

definition explicit_set_node_count :: "nat \<Rightarrow> ExplicitRelation \<Rightarrow> ExplicitRelation" where
  "explicit_set_node_count n r = r\<lparr>successors := replicate n []\<rparr>"

definition explicit_validate_node :: "ExplicitRelation \<Rightarrow> NodeId \<Rightarrow> unit result" where
  "explicit_validate_node r node = (if node < length (successors r) then Inr () else out_of_bounds)"

definition add_edge :: "NodeId \<Rightarrow> NodeId \<Rightarrow> ExplicitRelation \<Rightarrow> ExplicitRelation result" where
  "add_edge a b r =
     bind_result (explicit_validate_node r a) (\<lambda>_.
     bind_result (explicit_validate_node r b) (\<lambda>_.
       if List.member (successors r ! a) b then Inr r
       else Inr (r\<lparr>successors := (successors r)[a := successors r ! a @ [b]]\<rparr>)))"

definition explicit_contains :: "ExplicitRelation \<Rightarrow> NodeId \<Rightarrow> NodeId \<Rightarrow> bool result" where
  "explicit_contains r a b =
     (if \<not> a < length (successors r) \<or> \<not> b < length (successors r) then Inr False
      else Inr (List.member (successors r ! a) b))"

definition explicit_for_each_successor :: "ExplicitRelation \<Rightarrow> NodeId \<Rightarrow> NodeId list result" where
  "explicit_for_each_successor r a =
     bind_result (explicit_validate_node r a) (\<lambda>_. Inr (successors r ! a))"

section \<open>Program order from per-thread sequences\<close>

text \<open>The sentinel \<^verbatim>\<open>kNoThread\<close> is \<open>None\<close>.\<close>

record ProgramOrderRelation =
  po_nodes :: nat
  thread_events :: "NodeId list list"
  thread_of :: "nat option list"
  position_in_thread :: "nat list"

definition po_validate_node :: "ProgramOrderRelation \<Rightarrow> NodeId \<Rightarrow> unit result" where
  "po_validate_node r node = (if node < po_nodes r then Inr () else out_of_bounds)"

definition po_empty :: "nat \<Rightarrow> ProgramOrderRelation" where
  "po_empty n =
     \<lparr>po_nodes = n, thread_events = [], thread_of = replicate n None,
      position_in_thread = replicate n 0\<rparr>"

definition po_set_node_count :: "nat \<Rightarrow> ProgramOrderRelation \<Rightarrow> ProgramOrderRelation" where
  "po_set_node_count n r =
     r\<lparr>po_nodes := n, thread_events := [], thread_of := replicate n None,
       position_in_thread := replicate n 0\<rparr>"

text \<open>One iteration of the inner loop of \<^verbatim>\<open>rebuild_index\<close>: the event at a position of a thread.\<close>

definition po_index_event ::
    "nat \<Rightarrow> nat \<times> NodeId \<Rightarrow> ProgramOrderRelation \<Rightarrow> ProgramOrderRelation result" where
  "po_index_event t pe r =
     bind_result (po_validate_node r (snd pe)) (\<lambda>_.
       if thread_of r ! snd pe \<noteq> None
       then Inl (precondition_error ''event appears in more than one thread sequence'')
       else Inr (r\<lparr>thread_of := (thread_of r)[snd pe := Some t],
                   position_in_thread := (position_in_thread r)[snd pe := fst pe]\<rparr>))"

definition po_index_thread ::
    "nat \<times> NodeId list \<Rightarrow> ProgramOrderRelation \<Rightarrow> ProgramOrderRelation result" where
  "po_index_thread te r = fold_result (po_index_event (fst te)) (enumerate 0 (snd te)) r"

definition po_rebuild_index :: "ProgramOrderRelation \<Rightarrow> ProgramOrderRelation result" where
  "po_rebuild_index r =
     fold_result po_index_thread (enumerate 0 (thread_events r))
       (r\<lparr>thread_of := replicate (po_nodes r) None,
          position_in_thread := replicate (po_nodes r) 0\<rparr>)"

definition po_set_thread_events ::
    "NodeId list list \<Rightarrow> ProgramOrderRelation \<Rightarrow> ProgramOrderRelation result" where
  "po_set_thread_events tes r = po_rebuild_index (r\<lparr>thread_events := tes\<rparr>)"

definition program_order_relation ::
    "nat \<Rightarrow> NodeId list list \<Rightarrow> ProgramOrderRelation result" where
  "program_order_relation n tes = po_set_thread_events tes (po_empty n)"

definition po_contains :: "ProgramOrderRelation \<Rightarrow> NodeId \<Rightarrow> NodeId \<Rightarrow> bool result" where
  "po_contains r a b =
     (if \<not> a < po_nodes r \<or> \<not> b < po_nodes r then Inr False
      else if thread_of r ! a = None \<or> thread_of r ! a \<noteq> thread_of r ! b then Inr False
      else Inr (position_in_thread r ! a < position_in_thread r ! b))"

definition po_for_each_successor :: "ProgramOrderRelation \<Rightarrow> NodeId \<Rightarrow> NodeId list result" where
  "po_for_each_successor r a =
     bind_result (po_validate_node r a) (\<lambda>_.
       case thread_of r ! a of
         None \<Rightarrow> Inr []
       | Some t \<Rightarrow> Inr (drop (position_in_thread r ! a + 1) (thread_events r ! t)))"

section \<open>Views\<close>

definition view_validate_node :: "nat \<Rightarrow> NodeId \<Rightarrow> unit result" where
  "view_validate_node n node = (if node \<ge> n then out_of_bounds else Inr ())"

text \<open>The emitted-vector idiom of the views: pass a successor on unless it was passed before.\<close>

definition emit_once :: "NodeId \<Rightarrow> bool list \<times> NodeId list \<Rightarrow> bool list \<times> NodeId list" where
  "emit_once w s =
     (case s of (emitted, out) \<Rightarrow>
        if emitted ! w then (emitted, out) else (emitted[w := True], out @ [w]))"

definition make_compose_relation ::
    "('l \<Rightarrow> nat) \<Rightarrow> ('r \<Rightarrow> nat) \<Rightarrow> 'l \<Rightarrow> 'r \<Rightarrow> ('l \<times> 'r) result" where
  "make_compose_relation nc1 nc2 l r =
     (if nc1 l \<noteq> nc2 r
      then Inl (precondition_error ''cannot compose relations with different node counts'')
      else Inr (l, r))"

definition compose_contains ::
    "('l \<Rightarrow> nat) \<Rightarrow> ('l \<Rightarrow> NodeId \<Rightarrow> NodeId list result) \<Rightarrow> ('r \<Rightarrow> NodeId \<Rightarrow> NodeId \<Rightarrow> bool result)
     \<Rightarrow> 'l \<times> 'r \<Rightarrow> NodeId \<Rightarrow> NodeId \<Rightarrow> bool result" where
  "compose_contains nc1 succ1 cont2 lr a b =
     bind_result (view_validate_node (nc1 (fst lr)) a) (\<lambda>_.
     bind_result (view_validate_node (nc1 (fst lr)) b) (\<lambda>_.
     bind_result (succ1 (fst lr) a) (\<lambda>mids.
       fold_result (\<lambda>m found. if found then Inr True else cont2 (snd lr) m b) mids False)))"

definition compose_for_each_successor ::
    "('l \<Rightarrow> nat) \<Rightarrow> ('l \<Rightarrow> NodeId \<Rightarrow> NodeId list result) \<Rightarrow> ('r \<Rightarrow> NodeId \<Rightarrow> NodeId list result)
     \<Rightarrow> 'l \<times> 'r \<Rightarrow> NodeId \<Rightarrow> NodeId list result" where
  "compose_for_each_successor nc1 succ1 succ2 lr a =
     bind_result (view_validate_node (nc1 (fst lr)) a) (\<lambda>_.
     bind_result (succ1 (fst lr) a) (\<lambda>mids.
     map_result snd
       (fold_result (\<lambda>m s. map_result (\<lambda>ws. fold emit_once ws s) (succ2 (snd lr) m)) mids
          (replicate (nc1 (fst lr)) False, []))))"

definition make_union_relation ::
    "('l \<Rightarrow> nat) \<Rightarrow> ('r \<Rightarrow> nat) \<Rightarrow> 'l \<Rightarrow> 'r \<Rightarrow> ('l \<times> 'r) result" where
  "make_union_relation nc1 nc2 l r =
     (if nc1 l \<noteq> nc2 r
      then Inl (precondition_error ''cannot union relations with different node counts'')
      else Inr (l, r))"

definition union_contains ::
    "('l \<Rightarrow> nat) \<Rightarrow> ('l \<Rightarrow> NodeId \<Rightarrow> NodeId \<Rightarrow> bool result)
     \<Rightarrow> ('r \<Rightarrow> NodeId \<Rightarrow> NodeId \<Rightarrow> bool result) \<Rightarrow> 'l \<times> 'r \<Rightarrow> NodeId \<Rightarrow> NodeId \<Rightarrow> bool result" where
  "union_contains nc1 cont1 cont2 lr a b =
     bind_result (view_validate_node (nc1 (fst lr)) a) (\<lambda>_.
     bind_result (view_validate_node (nc1 (fst lr)) b) (\<lambda>_.
     bind_result (cont1 (fst lr) a b) (\<lambda>found.
       if found then Inr True else cont2 (snd lr) a b)))"

definition union_for_each_successor ::
    "('l \<Rightarrow> nat) \<Rightarrow> ('l \<Rightarrow> NodeId \<Rightarrow> NodeId list result) \<Rightarrow> ('r \<Rightarrow> NodeId \<Rightarrow> NodeId list result)
     \<Rightarrow> 'l \<times> 'r \<Rightarrow> NodeId \<Rightarrow> NodeId list result" where
  "union_for_each_successor nc1 succ1 succ2 lr a =
     bind_result (view_validate_node (nc1 (fst lr)) a) (\<lambda>_.
     bind_result (succ1 (fst lr) a) (\<lambda>ws1.
     bind_result (succ2 (snd lr) a) (\<lambda>ws2.
       Inr (snd (fold emit_once (ws1 @ ws2) (replicate (nc1 (fst lr)) False, []))))))"

text \<open>
  The worklist of \<^verbatim>\<open>TransitiveClosureRelation::for_each_successor\<close>: the vector \<^verbatim>\<open>pending\<close> is only
  appended to and its prefix before \<^verbatim>\<open>cursor\<close> is never read again, so the list is the part from
  the cursor on. A node outside the vector \<^verbatim>\<open>visited\<close> is skipped (the sources read it unchecked;
  the bounds law of the concept excludes it).
\<close>

lemma bind_result_cong [fundef_cong]:
  assumes "r = r'" "\<And>a. r' = Inr a \<Longrightarrow> f a = f' a"
  shows "bind_result r f = bind_result r' f'"
  using assms by (cases r') auto

lemma count_False_update:
  "i < length v \<Longrightarrow> \<not> v ! i \<Longrightarrow> count_list (v[i := True]) False < count_list v False"
proof (induction v arbitrary: i)
  case (Cons x v)
  then show ?case by (cases i) auto
qed simp

function closure_loop ::
    "(NodeId \<Rightarrow> NodeId list result) \<Rightarrow> NodeId list \<Rightarrow> bool list \<Rightarrow> NodeId list \<Rightarrow> NodeId list result"
where
  "closure_loop succ [] visited out = Inr out"
| "closure_loop succ (current # pending) visited out =
     (if current < length visited \<and> \<not> visited ! current
      then bind_result (succ current) (\<lambda>ws.
             closure_loop succ
               (pending @ filter (\<lambda>w. \<not> nth_or True (visited[current := True]) w) ws)
               (visited[current := True]) (out @ [current]))
      else closure_loop succ pending visited out)"
  by pat_completeness auto
termination
  by (relation "measures [\<lambda>(succ, ps, v, out). count_list v False, \<lambda>(succ, ps, v, out). length ps]")
    (auto simp: count_False_update)

definition closure_for_each_successor ::
    "('r \<Rightarrow> nat) \<Rightarrow> ('r \<Rightarrow> NodeId \<Rightarrow> NodeId list result) \<Rightarrow> 'r \<Rightarrow> NodeId \<Rightarrow> NodeId list result" where
  "closure_for_each_successor nc succ r a =
     bind_result (view_validate_node (nc r) a) (\<lambda>_.
     bind_result (succ r a) (\<lambda>ws.
       closure_loop (succ r) ws (replicate (nc r) False) []))"

definition closure_contains ::
    "('r \<Rightarrow> nat) \<Rightarrow> ('r \<Rightarrow> NodeId \<Rightarrow> NodeId list result) \<Rightarrow> 'r \<Rightarrow> NodeId \<Rightarrow> NodeId \<Rightarrow> bool result" where
  "closure_contains nc succ r a b =
     bind_result (view_validate_node (nc r) a) (\<lambda>_.
     bind_result (view_validate_node (nc r) b) (\<lambda>_.
       map_result (\<lambda>ws. List.member ws b) (closure_for_each_successor nc succ r a)))"

section \<open>The concept and its laws\<close>

locale Relation =
  fixes inv :: "'r \<Rightarrow> bool"
    and node_count :: "'r \<Rightarrow> nat"
    and contains :: "'r \<Rightarrow> NodeId \<Rightarrow> NodeId \<Rightarrow> bool result"
    and for_each_successor :: "'r \<Rightarrow> NodeId \<Rightarrow> NodeId list result"
    and edges :: "'r \<Rightarrow> (NodeId \<times> NodeId) set"
  assumes edges_bounded: "inv r \<Longrightarrow> edges r \<subseteq> {..<node_count r} \<times> {..<node_count r}"
    and contains_edges: "inv r \<Longrightarrow> a < node_count r \<Longrightarrow> b < node_count r \<Longrightarrow>
      contains r a b = Inr ((a, b) \<in> edges r)"
    and successors_edges: "inv r \<Longrightarrow> a < node_count r \<Longrightarrow>
      \<exists>ws. for_each_successor r a = Inr ws \<and> distinct ws \<and> set ws = edges r `` {a}"

text \<open>Emitting once: the vector marks exactly the nodes already passed on.\<close>

lemma fold_emit_once:
  assumes "\<forall>w\<in>set ws. w < n" "length emitted = n" "distinct out"
    and "\<forall>i<n. emitted ! i \<longleftrightarrow> i \<in> set out"
  shows "\<exists>emitted' out'. fold emit_once ws (emitted, out) = (emitted', out') \<and> length emitted' = n
    \<and> distinct out' \<and> set out' = set out \<union> set ws \<and> (\<forall>i<n. emitted' ! i \<longleftrightarrow> i \<in> set out')"
  using assms
proof (induction ws arbitrary: emitted out)
  case (Cons w ws)
  let ?s = "emit_once w (emitted, out)"
  from Cons.prems have "length (fst ?s) = n" "distinct (snd ?s)"
    "\<forall>i<n. fst ?s ! i \<longleftrightarrow> i \<in> set (snd ?s)" "set (snd ?s) = insert w (set out)"
    by (auto simp: emit_once_def nth_list_update)
  with Cons.IH [of "fst ?s" "snd ?s"] Cons.prems(1) show ?case by auto
qed simp

text \<open>A set closed up to a worklist reaches nothing but itself and what the worklist reaches.\<close>

lemma rtrancl_Image_closed_upto:
  assumes "E `` V \<subseteq> V \<union> P"
  shows "E\<^sup>* `` V \<subseteq> V \<union> E\<^sup>* `` P"
proof
  fix y assume "y \<in> E\<^sup>* `` V"
  then obtain x where "(x, y) \<in> E\<^sup>*" "x \<in> V" by blast
  then show "y \<in> V \<union> E\<^sup>* `` P"
  proof (induction rule: rtrancl_induct)
    case (step y z)
    from step.IH [OF step.prems] show ?case
    proof
      assume "y \<in> V"
      with step.hyps assms show ?thesis by blast
    next
      assume "y \<in> E\<^sup>* `` P"
      with step.hyps show ?thesis by (auto intro: rtrancl_into_rtrancl)
    qed
  qed blast
qed

context Relation
begin

lemma closure_loop_correct:
  assumes "inv r" "length visited = node_count r" "set pending \<subseteq> {..<node_count r}"
    and "\<forall>i<node_count r. visited ! i \<longleftrightarrow> i \<in> set out" "set out \<subseteq> {..<node_count r}"
    and "distinct out" "edges r `` set out \<subseteq> set out \<union> set pending"
  shows "\<exists>out'. closure_loop (for_each_successor r) pending visited out = Inr out'
    \<and> distinct out' \<and> set out' = set out \<union> (edges r)\<^sup>* `` set pending"
  using assms
proof (induction "for_each_successor r" pending visited out rule: closure_loop.induct)
  case (2 c pending visited out)
  let ?E = "edges r"
  show ?case
  proof (cases "visited ! c")
    case True
    with "2.prems" have c: "c < length visited" "c \<in> set out" by auto
    with True "2.prems" have closed: "?E `` set out \<subseteq> set out \<union> set pending" by auto
    with "2.hyps"(2) "2.prems" True c obtain out' where
      out': "closure_loop (for_each_successor r) pending visited out = Inr out'" "distinct out'"
        "set out' = set out \<union> ?E\<^sup>* `` set pending"
      by auto
    have "?E\<^sup>* `` {c} \<subseteq> set out \<union> ?E\<^sup>* `` set pending"
      using rtrancl_Image_closed_upto [OF closed] c(2) by blast
    then have "set out \<union> ?E\<^sup>* `` set pending = set out \<union> ?E\<^sup>* `` set (c # pending)" by auto
    with out' True c show ?thesis by simp
  next
    case False
    from "2.prems" have c: "c < node_count r" "c < length visited" by auto
    from successors_edges [OF "2.prems"(1) c(1)] obtain ws where
      ws: "for_each_successor r c = Inr ws" "set ws = ?E `` {c}" by blast
    with edges_bounded [OF "2.prems"(1)] have wsn: "\<forall>w\<in>set ws. w < node_count r" by auto
    let ?v = "visited[c := True]"
    let ?p = "pending @ filter (\<lambda>w. \<not> nth_or True ?v w) ws"
    have vis: "\<forall>i<node_count r. ?v ! i \<longleftrightarrow> i \<in> set (out @ [c])"
      using "2.prems" c by (auto simp: nth_list_update)
    have new: "set ws \<subseteq> set (out @ [c]) \<union> set ?p"
      using vis wsn "2.prems"(2) by auto
    then have closed: "?E `` set (out @ [c]) \<subseteq> set (out @ [c]) \<union> set ?p"
      using "2.prems"(7) ws(2) by auto
    have cno: "c \<notin> set out" using "2.prems"(4) c False by auto
    have "\<exists>out'. closure_loop (for_each_successor r) ?p ?v (out @ [c]) = Inr out' \<and> distinct out'
      \<and> set out' = set (out @ [c]) \<union> ?E\<^sup>* `` set ?p"
      by (rule "2.hyps"(1)) (use ws(1) False c "2.prems" wsn vis closed cno in auto)
    then obtain out' where out': "closure_loop (for_each_successor r) ?p ?v (out @ [c]) = Inr out'"
      "distinct out'" "set out' = set (out @ [c]) \<union> ?E\<^sup>* `` set ?p" by blast
    have "?E\<^sup>* `` {c} \<subseteq> set (out @ [c]) \<union> ?E\<^sup>* `` set ?p"
      using rtrancl_Image_closed_upto [OF closed] by auto
    moreover have "set ?p \<subseteq> ?E\<^sup>* `` set (c # pending)" using ws(2) by auto
    then have "?E\<^sup>* `` set ?p \<subseteq> ?E\<^sup>* `` set (c # pending)"
      by (blast intro: rtrancl_trans)
    moreover have "?E\<^sup>* `` set (c # pending) = ?E\<^sup>* `` {c} \<union> ?E\<^sup>* `` set pending" by auto
    moreover have "?E\<^sup>* `` set pending \<subseteq> ?E\<^sup>* `` set ?p" by auto
    ultimately have "set (out @ [c]) \<union> ?E\<^sup>* `` set ?p = set out \<union> ?E\<^sup>* `` set (c # pending)"
      by auto
    with out' ws False c show ?thesis by simp
  qed
qed simp

lemma closure_successors:
  assumes "inv r" "a < node_count r"
  shows "\<exists>ws. closure_for_each_successor node_count for_each_successor r a = Inr ws
    \<and> distinct ws \<and> set ws = (edges r)\<^sup>+ `` {a}"
proof -
  from successors_edges [OF assms] obtain ws where
    ws: "for_each_successor r a = Inr ws" "set ws = edges r `` {a}" by blast
  with edges_bounded [OF assms(1)] have "set ws \<subseteq> {..<node_count r}" by auto
  with closure_loop_correct [OF assms(1), of "replicate (node_count r) False" ws "[]"] obtain out
    where "closure_loop (for_each_successor r) ws (replicate (node_count r) False) [] = Inr out"
      "distinct out" "set out = (edges r)\<^sup>* `` set ws" by auto
  moreover have "(edges r)\<^sup>* `` (edges r `` {a}) = (edges r)\<^sup>+ `` {a}"
    by (auto simp: trancl_unfold_left)
  ultimately show ?thesis
    using ws assms(2) by (auto simp: closure_for_each_successor_def view_validate_node_def)
qed

lemma closure_Relation:
  "Relation inv node_count (closure_contains node_count for_each_successor)
     (closure_for_each_successor node_count for_each_successor) (\<lambda>r. (edges r)\<^sup>+)"
proof (unfold_locales, goal_cases)
  case (1 r)
  then show ?case by (intro trancl_subset_Sigma edges_bounded)
next
  case (2 r a b)
  with closure_successors [OF 2(1,2)] show ?case
    by (auto simp: closure_contains_def view_validate_node_def)
next
  case (3 r a)
  then show ?case by (rule closure_successors)
qed

end

text \<open>Two relations over the same nodes: their composition and their union are relations.\<close>

locale Relation_pair =
  L: Relation inv1 node_count1 contains1 for_each_successor1 edges1 +
  R: Relation inv2 node_count2 contains2 for_each_successor2 edges2
  for inv1 :: "'l \<Rightarrow> bool" and node_count1 contains1 for_each_successor1 edges1
    and inv2 :: "'r \<Rightarrow> bool" and node_count2 contains2 for_each_successor2 edges2
begin

definition pair_inv :: "'l \<times> 'r \<Rightarrow> bool" where
  "pair_inv lr \<longleftrightarrow> inv1 (fst lr) \<and> inv2 (snd lr) \<and> node_count1 (fst lr) = node_count2 (snd lr)"

lemma compose_contains_fold:
  assumes "inv2 r" "b < node_count2 r" "set mids \<subseteq> {..<node_count2 r}"
  shows "fold_result (\<lambda>m found. if found then Inr True else contains2 r m b) mids x =
    Inr (x \<or> (\<exists>m\<in>set mids. (m, b) \<in> edges2 r))"
  using assms by (induction mids arbitrary: x) (auto simp: R.contains_edges)

lemma compose_successors_fold:
  assumes "inv2 r" "n = node_count2 r" "set mids \<subseteq> {..<n}" "length emitted = n" "distinct out"
    and "\<forall>i<n. emitted ! i \<longleftrightarrow> i \<in> set out"
  shows "\<exists>emitted' out'.
    fold_result (\<lambda>m s. map_result (\<lambda>ws. fold emit_once ws s) (for_each_successor2 r m)) mids
      (emitted, out) = Inr (emitted', out')
    \<and> distinct out' \<and> set out' = set out \<union> edges2 r `` set mids"
  using assms
proof (induction mids arbitrary: emitted out)
  case (Cons m mids)
  from Cons.prems R.successors_edges [of r m] obtain ws where
    ws: "for_each_successor2 r m = Inr ws" "set ws = edges2 r `` {m}" by auto
  with R.edges_bounded [OF Cons.prems(1)] Cons.prems(2) have "\<forall>w\<in>set ws. w < n" by auto
  with fold_emit_once [of ws n emitted out] Cons.prems obtain e o1 where
    e: "fold emit_once ws (emitted, out) = (e, o1)" "length e = n" "distinct o1"
      "set o1 = set out \<union> set ws" "\<forall>i<n. e ! i \<longleftrightarrow> i \<in> set o1" by blast
  with Cons.IH [of e o1] Cons.prems obtain e' o2 where
    "fold_result (\<lambda>m s. map_result (\<lambda>ws. fold emit_once ws s) (for_each_successor2 r m)) mids
       (e, o1) = Inr (e', o2)" "distinct o2" "set o2 = set o1 \<union> edges2 r `` set mids" by auto
  with e ws show ?case by auto
qed simp

sublocale compose: Relation pair_inv "\<lambda>lr. node_count1 (fst lr)"
  "compose_contains node_count1 for_each_successor1 contains2"
  "compose_for_each_successor node_count1 for_each_successor1 for_each_successor2"
  "\<lambda>lr. edges1 (fst lr) O edges2 (snd lr)"
proof (unfold_locales, goal_cases)
  case (1 lr)
  then show ?case
    using L.edges_bounded [of "fst lr"] R.edges_bounded [of "snd lr"]
    by (fastforce simp: pair_inv_def)
next
  case (2 lr a b)
  then have i: "inv1 (fst lr)" "inv2 (snd lr)" "node_count1 (fst lr) = node_count2 (snd lr)"
    by (auto simp: pair_inv_def)
  from L.successors_edges [OF i(1) 2(2)] obtain ws where
    ws: "for_each_successor1 (fst lr) a = Inr ws" "set ws = edges1 (fst lr) `` {a}" by blast
  with L.edges_bounded [OF i(1)] i(3) have "set ws \<subseteq> {..<node_count2 (snd lr)}" by auto
  from compose_contains_fold [OF i(2) _ this, of b False] 2 i ws show ?case
    by (auto simp: compose_contains_def view_validate_node_def)
next
  case (3 lr a)
  then have i: "inv1 (fst lr)" "inv2 (snd lr)" "node_count1 (fst lr) = node_count2 (snd lr)"
    by (auto simp: pair_inv_def)
  from L.successors_edges [OF i(1) 3(2)] obtain ws where
    ws: "for_each_successor1 (fst lr) a = Inr ws" "set ws = edges1 (fst lr) `` {a}" by blast
  with L.edges_bounded [OF i(1)] i(3) have "set ws \<subseteq> {..<node_count2 (snd lr)}" by auto
  from compose_successors_fold [OF i(2) refl this, of "replicate (node_count2 (snd lr)) False" "[]"]
  show ?case
    using 3 i ws by (auto simp: compose_for_each_successor_def view_validate_node_def)
qed

sublocale union: Relation pair_inv "\<lambda>lr. node_count1 (fst lr)"
  "union_contains node_count1 contains1 contains2"
  "union_for_each_successor node_count1 for_each_successor1 for_each_successor2"
  "\<lambda>lr. edges1 (fst lr) \<union> edges2 (snd lr)"
proof (unfold_locales, goal_cases)
  case (1 lr)
  then show ?case
    using L.edges_bounded [of "fst lr"] R.edges_bounded [of "snd lr"]
    by (fastforce simp: pair_inv_def)
next
  case (2 lr a b)
  then show ?case
    by (auto simp: pair_inv_def union_contains_def view_validate_node_def
        L.contains_edges R.contains_edges)
next
  case (3 lr a)
  then have i: "inv1 (fst lr)" "inv2 (snd lr)" "node_count1 (fst lr) = node_count2 (snd lr)"
    by (auto simp: pair_inv_def)
  let ?n = "node_count2 (snd lr)"
  from L.successors_edges [OF i(1) 3(2)] obtain ws1 where
    ws1: "for_each_successor1 (fst lr) a = Inr ws1" "set ws1 = edges1 (fst lr) `` {a}" by blast
  from R.successors_edges [OF i(2), of a] 3 i obtain ws2 where
    ws2: "for_each_successor2 (snd lr) a = Inr ws2" "set ws2 = edges2 (snd lr) `` {a}" by auto
  have "\<forall>w\<in>set (ws1 @ ws2). w < ?n"
    using L.edges_bounded [OF i(1)] R.edges_bounded [OF i(2)] ws1 ws2 i(3) by auto
  from fold_emit_once [OF this, of "replicate ?n False" "[]"] show ?case
    using 3 i ws1 ws2 by (auto simp: union_for_each_successor_def view_validate_node_def)
qed

end

section \<open>The two stored relations satisfy the laws\<close>

definition wf_explicit :: "ExplicitRelation \<Rightarrow> bool" where
  "wf_explicit r \<longleftrightarrow>
     (\<forall>ws\<in>set (successors r). distinct ws \<and> (\<forall>w\<in>set ws. w < length (successors r)))"

definition explicit_edges :: "ExplicitRelation \<Rightarrow> (NodeId \<times> NodeId) set" where
  "explicit_edges r = {(a, b). a < length (successors r) \<and> b \<in> set (successors r ! a)}"

interpretation explicit: Relation wf_explicit explicit_node_count explicit_contains
  explicit_for_each_successor explicit_edges
  by unfold_locales
    (auto simp: wf_explicit_def explicit_node_count_def explicit_contains_def explicit_edges_def
      explicit_for_each_successor_def explicit_validate_node_def)

lemma wf_explicit_relation [simp]: "wf_explicit (explicit_relation n)"
  by (auto simp: wf_explicit_def explicit_relation_def)

lemma explicit_relation_edges [simp]: "explicit_edges (explicit_relation n) = {}"
  by (auto simp: explicit_edges_def explicit_relation_def)

lemma explicit_node_count_make [simp]: "explicit_node_count (explicit_relation n) = n"
  by (simp add: explicit_node_count_def explicit_relation_def)

lemma add_edge_correct:
  assumes "wf_explicit r" "a < explicit_node_count r" "b < explicit_node_count r"
  shows "\<exists>r'. add_edge a b r = Inr r' \<and> wf_explicit r' \<and> explicit_node_count r' = explicit_node_count r
    \<and> explicit_edges r' = insert (a, b) (explicit_edges r)"
proof (cases "b \<in> set (successors r ! a)")
  case True
  with assms show ?thesis
    by (auto simp: add_edge_def explicit_validate_node_def explicit_node_count_def explicit_edges_def)
next
  case False
  let ?r = "r\<lparr>successors := (successors r)[a := successors r ! a @ [b]]\<rparr>"
  from False assms have "add_edge a b r = Inr ?r"
    by (simp add: add_edge_def explicit_validate_node_def explicit_node_count_def)
  moreover have "wf_explicit ?r"
  proof -
    from assms have "successors r ! a \<in> set (successors r)" by (simp add: explicit_node_count_def)
    with assms False
    have "distinct (successors r ! a @ [b])" "\<forall>w\<in>set (successors r ! a @ [b]). w < length (successors r)"
      by (auto simp: wf_explicit_def explicit_node_count_def)
    with assms(1) show ?thesis
      unfolding wf_explicit_def by (auto dest!: set_update_subset_insert [THEN subsetD])
  qed
  moreover have "explicit_edges ?r = insert (a, b) (explicit_edges r)"
    using assms by (auto simp: explicit_edges_def explicit_node_count_def nth_list_update
        split: if_splits)
  ultimately show ?thesis by (simp add: explicit_node_count_def)
qed

text \<open>
  The index of \<^verbatim>\<open>rebuild_index\<close>. An index is \<open>sized\<close> when its two vectors have one entry per node;
  \<open>po_indexed k tes r0 r\<close> says that \<open>r\<close> is \<open>r0\<close> with the sequences \<open>tes\<close>, numbered from \<open>k\<close>, entered.
\<close>

lemma if_Some_eq_None [simp]: "(if c then Some x else y) = None \<longleftrightarrow> \<not> c \<and> y = None"
  by simp

definition po_sized :: "ProgramOrderRelation \<Rightarrow> bool" where
  "po_sized r \<longleftrightarrow> length (thread_of r) = po_nodes r \<and> length (position_in_thread r) = po_nodes r"

lemma po_index_event_eq:
  assumes "po_sized r"
  shows "(\<exists>r'. po_index_event t (p, e) r = Inr r') \<longleftrightarrow> e < po_nodes r \<and> thread_of r ! e = None"
    and "po_index_event t (p, e) r = Inr r' \<Longrightarrow> po_sized r' \<and> po_nodes r' = po_nodes r
      \<and> thread_events r' = thread_events r \<and> thread_of r' = (thread_of r)[e := Some t]
      \<and> position_in_thread r' = (position_in_thread r)[e := p]"
  using assms by (auto simp: po_index_event_def po_validate_node_def po_sized_def out_of_bounds_def
      split: if_splits)

lemma po_index_events:
  assumes "po_sized r"
  shows "(\<exists>r'. fold_result (po_index_event t) (enumerate k es) r = Inr r') \<longleftrightarrow>
      distinct es \<and> (\<forall>e\<in>set es. e < po_nodes r \<and> thread_of r ! e = None)" (is "?ok r k es")
    and "fold_result (po_index_event t) (enumerate k es) r = Inr r' \<Longrightarrow>
      po_sized r' \<and> po_nodes r' = po_nodes r \<and> thread_events r' = thread_events r
      \<and> (\<forall>e<po_nodes r. thread_of r' ! e = (if e \<in> set es then Some t else thread_of r ! e))
      \<and> (\<forall>p<length es. position_in_thread r' ! (es ! p) = k + p)
      \<and> (\<forall>e. e \<notin> set es \<longrightarrow> position_in_thread r' ! e = position_in_thread r ! e)"
    (is "_ \<Longrightarrow> ?res r k es r'")
proof -
  have "?ok r k es \<and> (\<forall>r'. fold_result (po_index_event t) (enumerate k es) r = Inr r' \<longrightarrow> ?res r k es r')"
    using assms
  proof (induction es arbitrary: r k)
    case (Cons e es)
    show ?case
    proof (cases "e < po_nodes r \<and> thread_of r ! e = None")
      case True
      then obtain r1 where r1: "po_index_event t (k, e) r = Inr r1"
        using po_index_event_eq(1) [OF Cons.prems] by blast
      note f = po_index_event_eq(2) [OF Cons.prems r1]
      from f have nth: "i < po_nodes r \<Longrightarrow> thread_of r1 ! i = (if i = e then Some t else thread_of r ! i)"
        for i using Cons.prems by (simp add: po_sized_def nth_list_update)
      have IH: "?ok r1 (Suc k) es" "\<And>r'. fold_result (po_index_event t) (enumerate (Suc k) es) r1 = Inr r'
          \<Longrightarrow> ?res r1 (Suc k) es r'" using Cons.IH [of r1 "Suc k"] f by blast+
      have "?ok r k (e # es)" using IH(1) r1 True f nth by auto
      moreover have "?res r k (e # es) r'"
        if "fold_result (po_index_event t) (enumerate k (e # es)) r = Inr r'" for r'
      proof -
        from that r1 have r': "fold_result (po_index_event t) (enumerate (Suc k) es) r1 = Inr r'" by simp
        with IH(1) nth True f have "e \<notin> set es" by auto
        with IH(2) [OF r'] f nth True Cons.prems show ?thesis
          by (auto simp: po_sized_def nth_Cons split: nat.splits)
      qed
      ultimately show ?thesis by blast
    next
      case False
      with po_index_event_eq(1) [OF Cons.prems, of t k e] show ?thesis by auto
    qed
  qed simp
  then show "?ok r k es" "fold_result (po_index_event t) (enumerate k es) r = Inr r' \<Longrightarrow> ?res r k es r'"
    by blast+
qed

lemma po_index_threads:
  assumes "po_sized r"
  shows "(\<exists>r'. fold_result po_index_thread (enumerate k tes) r = Inr r') \<longleftrightarrow>
      distinct (concat tes) \<and> (\<forall>e\<in>set (concat tes). e < po_nodes r \<and> thread_of r ! e = None)"
      (is "?ok r k tes")
    and "fold_result po_index_thread (enumerate k tes) r = Inr r' \<Longrightarrow>
      po_sized r' \<and> po_nodes r' = po_nodes r \<and> thread_events r' = thread_events r
      \<and> (\<forall>t<length tes. \<forall>p<length (tes ! t). thread_of r' ! (tes ! t ! p) = Some (k + t)
           \<and> position_in_thread r' ! (tes ! t ! p) = p)
      \<and> (\<forall>e<po_nodes r. e \<notin> set (concat tes) \<longrightarrow> thread_of r' ! e = thread_of r ! e)
      \<and> (\<forall>e. e \<notin> set (concat tes) \<longrightarrow> position_in_thread r' ! e = position_in_thread r ! e)"
    (is "_ \<Longrightarrow> ?res r k tes r'")
proof -
  have "?ok r k tes \<and> (\<forall>r'. fold_result po_index_thread (enumerate k tes) r = Inr r' \<longrightarrow> ?res r k tes r')"
    using assms
  proof (induction tes arbitrary: r k)
    case (Cons es tes)
    note ev = po_index_events [OF Cons.prems, of k 0 es]
    show ?case
    proof (cases "\<exists>r1. po_index_thread (k, es) r = Inr r1")
      case True
      then obtain r1 where r1: "po_index_thread (k, es) r = Inr r1" by blast
      then have fr: "fold_result (po_index_event k) (enumerate 0 es) r = Inr r1"
        by (simp add: po_index_thread_def)
      then have es: "distinct es" "\<forall>e\<in>set es. e < po_nodes r \<and> thread_of r ! e = None"
        and f: "po_sized r1" "po_nodes r1 = po_nodes r" "thread_events r1 = thread_events r"
          "\<forall>e<po_nodes r. thread_of r1 ! e = (if e \<in> set es then Some k else thread_of r ! e)"
          "\<forall>p<length es. position_in_thread r1 ! (es ! p) = p"
          "\<forall>e. e \<notin> set es \<longrightarrow> position_in_thread r1 ! e = position_in_thread r ! e"
        using ev(1) ev(2) [OF fr] by (simp_all only: add_0) blast+
      have IH: "?ok r1 (Suc k) tes" "\<And>r'. fold_result po_index_thread (enumerate (Suc k) tes) r1 = Inr r'
          \<Longrightarrow> ?res r1 (Suc k) tes r'" using Cons.IH [of r1 "Suc k"] f by blast+
      have "?ok r k (es # tes)"
      proof -
        have "(\<forall>e\<in>set (concat tes). e < po_nodes r1 \<and> thread_of r1 ! e = None) \<longleftrightarrow>
          (\<forall>e\<in>set (concat tes). e < po_nodes r \<and> thread_of r ! e = None \<and> e \<notin> set es)"
          using f(2,4) by (intro ball_cong refl) auto
        then have "distinct (concat (es # tes)) \<and> (\<forall>e\<in>set (concat (es # tes)). e < po_nodes r
            \<and> thread_of r ! e = None) \<longleftrightarrow> distinct (concat tes)
            \<and> (\<forall>e\<in>set (concat tes). e < po_nodes r1 \<and> thread_of r1 ! e = None)"
          using es by (simp only: concat.simps distinct_append set_append) blast
        with IH(1) r1 show ?thesis by simp
      qed
      moreover have "?res r k (es # tes) r'"
        if "fold_result po_index_thread (enumerate k (es # tes)) r = Inr r'" for r'
      proof -
        from that r1 have r': "fold_result po_index_thread (enumerate (Suc k) tes) r1 = Inr r'" by simp
        with IH(1) have "\<forall>e\<in>set (concat tes). e < po_nodes r1 \<and> thread_of r1 ! e = None" by blast
        with f(2,4) have "\<forall>e\<in>set (concat tes). e \<notin> set es" by fastforce
        then have disj: "es ! p \<notin> set (concat tes)" if "p < length es" for p
          using that nth_mem by blast
        note r'f = IH(2) [OF r']
        have "thread_of r' ! ((es # tes) ! t ! p) = Some (k + t)
          \<and> position_in_thread r' ! ((es # tes) ! t ! p) = p"
          if "t < length (es # tes)" "p < length ((es # tes) ! t)" for t p
        proof (cases t)
          case 0
          with that disj [of p] r'f f(2,4,5) es(2) show ?thesis by simp
        next
          case (Suc u)
          with that r'f show ?thesis by simp
        qed
        moreover have "\<forall>e<po_nodes r. e \<notin> set (concat (es # tes)) \<longrightarrow> thread_of r' ! e = thread_of r ! e"
          using r'f f(2,4) by simp
        moreover have "\<forall>e. e \<notin> set (concat (es # tes)) \<longrightarrow>
            position_in_thread r' ! e = position_in_thread r ! e"
          using r'f f(6) by simp
        moreover have "po_sized r' \<and> po_nodes r' = po_nodes r \<and> thread_events r' = thread_events r"
          using r'f f(2,3) by simp
        ultimately show ?thesis by blast
      qed
      ultimately show ?thesis by blast
    next
      case False
      then have "\<not> (\<exists>r1. fold_result (po_index_event k) (enumerate 0 es) r = Inr r1)"
        by (simp add: po_index_thread_def)
      with ev(1) have "\<not> (distinct (concat (es # tes)) \<and> (\<forall>e\<in>set (concat (es # tes)).
          e < po_nodes r \<and> thread_of r ! e = None))" by auto
      with False show ?thesis by simp
    qed
  qed simp
  then show "?ok r k tes" "fold_result po_index_thread (enumerate k tes) r = Inr r' \<Longrightarrow> ?res r k tes r'"
    by blast+
qed

definition wf_po :: "ProgramOrderRelation \<Rightarrow> bool" where
  "wf_po r \<longleftrightarrow> po_sized r \<and> distinct (concat (thread_events r))
     \<and> (\<forall>e\<in>set (concat (thread_events r)). e < po_nodes r)
     \<and> (\<forall>t<length (thread_events r). \<forall>p<length (thread_events r ! t).
          thread_of r ! (thread_events r ! t ! p) = Some t
          \<and> position_in_thread r ! (thread_events r ! t ! p) = p)
     \<and> (\<forall>e<po_nodes r. e \<notin> set (concat (thread_events r)) \<longrightarrow> thread_of r ! e = None)"

definition po_edges_of :: "NodeId list list \<Rightarrow> (NodeId \<times> NodeId) set" where
  "po_edges_of tes = {(a, b). \<exists>t p q. t < length tes \<and> p < q \<and> q < length (tes ! t)
     \<and> a = tes ! t ! p \<and> b = tes ! t ! q}"

lemma program_order_relation_correct:
  "(\<exists>r. program_order_relation n tes = Inr r) \<longleftrightarrow> distinct (concat tes) \<and> (\<forall>e\<in>set (concat tes). e < n)"
  "program_order_relation n tes = Inr r \<Longrightarrow> wf_po r \<and> po_nodes r = n \<and> thread_events r = tes"
proof -
  let ?r = "\<lparr>po_nodes = n, thread_events = tes, thread_of = replicate n None,
    position_in_thread = replicate n 0\<rparr>"
  have eq: "program_order_relation n tes = fold_result po_index_thread (enumerate 0 tes) ?r"
    by (simp add: program_order_relation_def po_set_thread_events_def po_empty_def po_rebuild_index_def)
  have "po_sized ?r" by (simp add: po_sized_def)
  note it = po_index_threads [OF this, of 0 tes]
  show ok: "(\<exists>r. program_order_relation n tes = Inr r) \<longleftrightarrow> distinct (concat tes) \<and> (\<forall>e\<in>set (concat tes). e < n)"
    unfolding eq it(1) by auto
  assume r: "program_order_relation n tes = Inr r"
  with ok have "distinct (concat tes)" "\<forall>e\<in>set (concat tes). e < n" by blast+
  with it(2) [OF r [unfolded eq]] show "wf_po r \<and> po_nodes r = n \<and> thread_events r = tes"
    by (simp add: wf_po_def)
qed

text \<open>Entries of a well-formed index point back into the sequences.\<close>

lemma wf_po_thread_of:
  assumes "wf_po r" "a < po_nodes r" "thread_of r ! a = Some t"
  shows "t < length (thread_events r) \<and> position_in_thread r ! a < length (thread_events r ! t)
    \<and> thread_events r ! t ! (position_in_thread r ! a) = a"
proof -
  from assms have "a \<in> set (concat (thread_events r))" unfolding wf_po_def by fastforce
  then obtain u p where u: "u < length (thread_events r)" "p < length (thread_events r ! u)"
    "a = thread_events r ! u ! p" by (auto simp: in_set_conv_nth)
  with assms(1) have "thread_of r ! a = Some u" "position_in_thread r ! a = p"
    unfolding wf_po_def by blast+
  with u assms(3) show ?thesis by simp
qed

definition po_edges :: "ProgramOrderRelation \<Rightarrow> (NodeId \<times> NodeId) set" where
  "po_edges r = po_edges_of (thread_events r)"

lemma po_edges_iff:
  assumes "wf_po r" "a < po_nodes r" "b < po_nodes r"
  shows "(a, b) \<in> po_edges r \<longleftrightarrow> thread_of r ! a \<noteq> None \<and> thread_of r ! a = thread_of r ! b
    \<and> position_in_thread r ! a < position_in_thread r ! b" (is "_ \<longleftrightarrow> ?rhs")
proof
  assume "(a, b) \<in> po_edges r"
  then obtain t p q where "t < length (thread_events r)" "p < q" "q < length (thread_events r ! t)"
    "a = thread_events r ! t ! p" "b = thread_events r ! t ! q"
    by (auto simp: po_edges_def po_edges_of_def)
  with assms(1) show ?rhs unfolding wf_po_def by simp
next
  assume ?rhs
  then obtain t where t: "thread_of r ! a = Some t" "thread_of r ! b = Some t"
    "position_in_thread r ! a < position_in_thread r ! b" by auto
  with wf_po_thread_of [OF assms(1,2) t(1)] wf_po_thread_of [OF assms(1,3) t(2)]
  show "(a, b) \<in> po_edges r" unfolding po_edges_def po_edges_of_def by force
qed

lemma po_edges_bounded: "wf_po r \<Longrightarrow> po_edges r \<subseteq> {..<po_nodes r} \<times> {..<po_nodes r}"
proof clarify
  fix a b assume wf: "wf_po r" and "(a, b) \<in> po_edges r"
  then obtain t p q where t: "t < length (thread_events r)" "p < q" "q < length (thread_events r ! t)"
    "a = thread_events r ! t ! p" "b = thread_events r ! t ! q"
    by (auto simp: po_edges_def po_edges_of_def)
  then have "thread_events r ! t ! p \<in> set (thread_events r ! t)"
    "thread_events r ! t ! q \<in> set (thread_events r ! t)" by auto
  with t have "a \<in> set (concat (thread_events r))" "b \<in> set (concat (thread_events r))"
    using nth_mem by (force simp del: nth_mem)+
  with wf show "a \<in> {..<po_nodes r} \<and> b \<in> {..<po_nodes r}" unfolding wf_po_def by blast
qed

lemma po_successors:
  assumes "wf_po r" "a < po_nodes r"
  shows "\<exists>ws. po_for_each_successor r a = Inr ws \<and> distinct ws \<and> set ws = po_edges r `` {a}"
proof (cases "thread_of r ! a")
  case None
  then have "po_edges r `` {a} = {}"
    using po_edges_iff [OF assms] po_edges_bounded [OF assms(1)] by auto
  with None assms show ?thesis by (simp add: po_for_each_successor_def po_validate_node_def)
next
  case (Some t)
  let ?es = "thread_events r ! t" and ?p = "position_in_thread r ! a"
  note a = wf_po_thread_of [OF assms Some]
  have d: "distinct ?es" using a assms(1) by (auto simp: wf_po_def distinct_concat_iff)
  have "b \<in> set (drop (?p + 1) ?es) \<longleftrightarrow> (a, b) \<in> po_edges r" for b
  proof
    assume "b \<in> set (drop (?p + 1) ?es)"
    then obtain i where "i < length ?es - (?p + 1)" "b = ?es ! (?p + 1 + i)"
      by (auto simp: in_set_conv_nth)
    with a have "t < length (thread_events r) \<and> ?p < ?p + 1 + i \<and> ?p + 1 + i < length ?es
        \<and> a = ?es ! ?p \<and> b = ?es ! (?p + 1 + i)" by auto
    then show "(a, b) \<in> po_edges r" unfolding po_edges_def po_edges_of_def by blast
  next
    assume e: "(a, b) \<in> po_edges r"
    with po_edges_bounded [OF assms(1)] have b: "b < po_nodes r" by auto
    with e po_edges_iff [OF assms b] Some have "thread_of r ! b = Some t"
      "?p < position_in_thread r ! b" by auto
    with wf_po_thread_of [OF assms(1) b] show "b \<in> set (drop (?p + 1) ?es)"
      by (auto simp: in_set_conv_nth intro!: exI [of _ "position_in_thread r ! b - (?p + 1)"])
  qed
  with Some d assms show ?thesis by (auto simp: po_for_each_successor_def po_validate_node_def)
qed

interpretation program_order: Relation wf_po po_nodes po_contains po_for_each_successor po_edges
proof (unfold_locales, goal_cases)
  case (1 r)
  then show ?case by (rule po_edges_bounded)
next
  case (2 r a b)
  then show ?case by (cases "thread_of r ! a") (auto simp: po_contains_def po_edges_iff)
next
  case (3 r a)
  then show ?case by (rule po_successors)
qed

text \<open>The pair the checkers use, program order and an explicit reads-from relation.\<close>

interpretation po_rf: Relation_pair wf_po po_nodes po_contains po_for_each_successor po_edges
  wf_explicit explicit_node_count explicit_contains explicit_for_each_successor explicit_edges
  by unfold_locales

interpretation porf_closure: Relation po_rf.pair_inv "\<lambda>lr. po_nodes (fst lr)"
  "closure_contains (\<lambda>lr. po_nodes (fst lr))
     (union_for_each_successor po_nodes po_for_each_successor explicit_for_each_successor)"
  "closure_for_each_successor (\<lambda>lr. po_nodes (fst lr))
     (union_for_each_successor po_nodes po_for_each_successor explicit_for_each_successor)"
  "\<lambda>lr. (po_edges (fst lr) \<union> explicit_edges (snd lr))\<^sup>+"
  by (rule po_rf.union.closure_Relation)

end
