(* ===== verification/Used_Index_Set.thy ===== *)
theory Used_Index_Set
  imports Events
begin

text \<open>
  \<^verbatim>\<open>UsedEventIndexSet\<close> of \<^verbatim>\<open>include/dpor/model/execution_graph.hpp\<close>: the 32-bit event indices a thread
  has used, stored as a dense prefix \<open>{0, ..., dense_end - 1}\<close> and an unordered vector of the
  others. The locale \<open>Index_Set\<close> is the contract the graph relies on (a finite set of indices
  under membership, insertion of a new index, and counted removal); the interpretation at the
  end shows that the dense/sparse representation refines it, saturation at the largest index
  included.
\<close>

record UsedEventIndexSet =
  dense_end :: EventIndex
  sparse :: "EventIndex list"

definition empty_index_set :: UsedEventIndexSet where
  "empty_index_set = \<lparr>dense_end = 0, sparse = []\<rparr>"

definition max_index :: EventIndex where
  "max_index = - 1"

lemma max_index_order [simp]:
  "j \<le> max_index" "\<not> max_index < j" "max_index \<le> j \<longleftrightarrow> j = max_index" "j < max_index \<longleftrightarrow> j \<noteq> max_index"
proof -
  show le: "j \<le> max_index" for j by (simp add: max_index_def)
  from le show "\<not> max_index < j" "max_index \<le> j \<longleftrightarrow> j = max_index" "j < max_index \<longleftrightarrow> j \<noteq> max_index"
    by (auto simp: not_less order.strict_iff_order intro: order.antisym)
qed

lemma less_not_max_index: "k < dense \<Longrightarrow> k \<noteq> max_index"
  by auto

lemma word_less_Suc:
  fixes a :: EventIndex
  assumes "a \<noteq> max_index"
  shows "a < a + 1" "i < a + 1 \<longleftrightarrow> i \<le> a" "unat (a + 1) = Suc (unat a)"
proof -
  from assms have "1 + a \<noteq> 0" by (metis add_eq_0_iff max_index_def)
  then show "unat (a + 1) = Suc (unat a)" by (metis unatSuc add.commute)
  then show "a < a + 1" "i < a + 1 \<longleftrightarrow> i \<le> a"
    by (auto simp: word_less_nat_alt word_le_nat_alt)
qed

definition used_contains :: "UsedEventIndexSet \<Rightarrow> EventIndex \<Rightarrow> bool" where
  "used_contains s i \<longleftrightarrow> i < dense_end s \<or> List.member (sparse s) i"

text \<open>The loop moves indices that became adjacent to the dense prefix into it.\<close>

lemma length_swap_remove: "xs \<noteq> [] \<Longrightarrow> length (swap_remove x xs) = length xs - 1"
  by (simp add: swap_remove_def)

function absorb_sparse :: "UsedEventIndexSet \<Rightarrow> UsedEventIndexSet" where
  "absorb_sparse s =
     (if sparse s \<noteq> [] \<and> List.member (sparse s) (dense_end s) \<and> dense_end s \<noteq> max_index
      then absorb_sparse (s\<lparr>dense_end := dense_end s + 1, sparse := swap_remove (dense_end s) (sparse s)\<rparr>)
      else s)"
  by pat_completeness auto
termination
  by (relation "measure (\<lambda>s. length (sparse s))") (auto simp: length_swap_remove)

declare absorb_sparse.simps [simp del]

definition used_insert :: "EventIndex \<Rightarrow> UsedEventIndexSet \<Rightarrow> UsedEventIndexSet" where
  "used_insert i s =
     (if i = dense_end s \<and> i \<noteq> max_index
      then absorb_sparse (s\<lparr>dense_end := dense_end s + 1\<rparr>)
      else s\<lparr>sparse := sparse s @ [i]\<rparr>)"

text \<open>The loop that demotes the dense indices above an erased one.\<close>

function demote_above :: "EventIndex \<Rightarrow> EventIndex \<Rightarrow> EventIndex list \<Rightarrow> EventIndex list" where
  "demote_above k dense xs =
     (if k < dense then demote_above (k + 1) dense (xs @ [k]) else xs)"
  by pat_completeness auto
termination
proof (relation "measure (\<lambda>(k, dense, xs). unat dense - unat k)", goal_cases)
  case (2 k dense xs)
  then have "unat k < unat dense" "k \<noteq> max_index"
    using less_not_max_index [of k dense] by (simp_all add: word_less_nat_alt)
  with word_less_Suc(3) [of k] show ?case by simp
qed simp

declare demote_above.simps [simp del]

definition used_erase :: "EventIndex \<Rightarrow> UsedEventIndexSet \<Rightarrow> nat \<times> UsedEventIndexSet" where
  "used_erase i s =
     (if List.member (sparse s) i then (1, s\<lparr>sparse := swap_remove i (sparse s)\<rparr>)
      else if i \<ge> dense_end s then (0, s)
      else (1, s\<lparr>dense_end := i, sparse := demote_above (i + 1) (dense_end s) (sparse s)\<rparr>))"

section \<open>The contract\<close>

locale Index_Set =
  fixes inv :: "'s \<Rightarrow> bool"
    and empty :: 's
    and contains :: "'s \<Rightarrow> EventIndex \<Rightarrow> bool"
    and insert_index :: "EventIndex \<Rightarrow> 's \<Rightarrow> 's"
    and erase_index :: "EventIndex \<Rightarrow> 's \<Rightarrow> nat \<times> 's"
    and indices :: "'s \<Rightarrow> EventIndex set"
  assumes empty_law: "inv empty \<and> indices empty = {}"
    and contains_law: "inv s \<Longrightarrow> contains s i \<longleftrightarrow> i \<in> indices s"
    and insert_law: "inv s \<Longrightarrow> i \<notin> indices s \<Longrightarrow>
      inv (insert_index i s) \<and> indices (insert_index i s) = insert i (indices s)"
    and erase_law: "inv s \<Longrightarrow> inv (snd (erase_index i s)) \<and> indices (snd (erase_index i s)) = indices s - {i}
      \<and> fst (erase_index i s) = (if i \<in> indices s then 1 else 0)"
begin

lemma erase_insert:
  assumes "inv s" "i \<notin> indices s"
  shows "inv (snd (erase_index i (insert_index i s)))"
    and "indices (snd (erase_index i (insert_index i s))) = indices s"
    and "fst (erase_index i (insert_index i s)) = 1"
  using insert_law [OF assms] erase_law [of "insert_index i s" i] assms(2) by auto

end

section \<open>Refinement\<close>

definition used_indices :: "UsedEventIndexSet \<Rightarrow> EventIndex set" where
  "used_indices s = {i. i < dense_end s} \<union> set (sparse s)"

definition wf_index_set :: "UsedEventIndexSet \<Rightarrow> bool" where
  "wf_index_set s \<longleftrightarrow> distinct (sparse s) \<and> (\<forall>i\<in>set (sparse s). dense_end s \<le> i)"

lemma absorb_sparse_correct:
  "wf_index_set s \<Longrightarrow> wf_index_set (absorb_sparse s) \<and> used_indices (absorb_sparse s) = used_indices s"
proof (induction s rule: absorb_sparse.induct)
  case (1 s)
  show ?case
  proof (cases "List.member (sparse s) (dense_end s) \<and> dense_end s \<noteq> max_index")
    case True
    then have ne: "sparse s \<noteq> []" by auto
    let ?s = "s\<lparr>dense_end := dense_end s + 1, sparse := swap_remove (dense_end s) (sparse s)\<rparr>"
    note sr = swap_remove_set_distinct [of "dense_end s" "sparse s"]
    have "wf_index_set ?s"
      using "1.prems" True sr word_less_Suc [of "dense_end s"]
      by (auto simp: wf_index_set_def not_less [symmetric])
    moreover have "used_indices ?s = used_indices s"
      using "1.prems" True sr word_less_Suc [of "dense_end s"]
      by (auto simp: wf_index_set_def used_indices_def)
    ultimately show ?thesis
      using "1.IH" True ne by (subst (1 2) absorb_sparse.simps) simp
  next
    case False
    with "1.prems" show ?thesis by (subst (1 2) absorb_sparse.simps) auto
  qed
qed

lemma used_insert_correct:
  assumes "wf_index_set s" "i \<notin> used_indices s"
  shows "wf_index_set (used_insert i s) \<and> used_indices (used_insert i s) = insert i (used_indices s)"
proof (cases "i = dense_end s \<and> i \<noteq> max_index")
  case True
  let ?s = "s\<lparr>dense_end := dense_end s + 1\<rparr>"
  from True have i: "i = dense_end s" and ne: "dense_end s \<noteq> max_index" by auto
  note w = word_less_Suc [OF ne]
  have "dense_end s + 1 \<le> j" if "j \<in> set (sparse s)" for j
  proof -
    from that i assms have "dense_end s < j"
      by (auto simp: wf_index_set_def used_indices_def order.order_iff_strict)
    then show ?thesis using w(2) [of j] by (simp add: not_less [symmetric])
  qed
  with assms have "wf_index_set ?s" by (simp add: wf_index_set_def)
  moreover have "used_indices ?s = insert i (used_indices s)"
    using w(2) i by (auto simp: used_indices_def order.order_iff_strict)
  ultimately show ?thesis
    using i ne absorb_sparse_correct [of ?s] by (simp add: used_insert_def)
next
  case False
  with assms show ?thesis
    by (auto simp: used_insert_def wf_index_set_def used_indices_def)
qed

lemma demote_above_correct:
  "distinct xs \<Longrightarrow> (\<forall>i\<in>set xs. i < k \<or> dense \<le> i) \<Longrightarrow>
     distinct (demote_above k dense xs)
     \<and> set (demote_above k dense xs) = set xs \<union> {i. k \<le> i \<and> i < dense}"
proof (induction k dense xs rule: demote_above.induct)
  case (1 k dense xs)
  show ?case
  proof (cases "k < dense")
    case True
    then have "k \<noteq> max_index" by (rule less_not_max_index)
    note w = word_less_Suc [OF this]
    have "distinct (xs @ [k])" "\<forall>i\<in>set (xs @ [k]). i < k + 1 \<or> dense \<le> i"
      using "1.prems" True w by auto
    note IH = "1.IH" [OF True this]
    have "k \<le> i \<longleftrightarrow> i = k \<or> k + 1 \<le> i" for i
      using w(2) [of i] by (auto simp: not_less [symmetric] order.order_iff_strict)
    then have "{i. k \<le> i \<and> i < dense} = insert k {i. k + 1 \<le> i \<and> i < dense}"
      using True by blast
    with IH True show ?thesis by (subst (1 2) demote_above.simps) auto
  next
    case False
    with "1.prems" show ?thesis by (subst (1 2) demote_above.simps) auto
  qed
qed

lemma used_erase_correct:
  assumes "wf_index_set s"
  shows "wf_index_set (snd (used_erase i s)) \<and> used_indices (snd (used_erase i s)) = used_indices s - {i}
    \<and> fst (used_erase i s) = (if i \<in> used_indices s then 1 else 0)"
proof (cases "i \<in> set (sparse s)")
  case True
  with assms have "\<not> i < dense_end s" by (auto simp: wf_index_set_def not_less)
  with True assms swap_remove_set_distinct [OF True] show ?thesis
    by (auto simp: used_erase_def wf_index_set_def used_indices_def)
next
  case out: False
  show ?thesis
  proof (cases "i < dense_end s")
    case True
    then have "i \<noteq> max_index" by (rule less_not_max_index)
    note w = word_less_Suc [OF this]
    have "distinct (demote_above (i + 1) (dense_end s) (sparse s))"
      "set (demote_above (i + 1) (dense_end s) (sparse s)) =
         set (sparse s) \<union> {j. i + 1 \<le> j \<and> j < dense_end s}"
      using demote_above_correct [of "sparse s" "i + 1" "dense_end s"] assms
      by (auto simp: wf_index_set_def)
    moreover have "i + 1 \<le> j \<longleftrightarrow> i < j" for j using w(2) [of j] by (auto simp: not_less [symmetric])
    ultimately show ?thesis
      using out True assms
      by (auto simp: used_erase_def wf_index_set_def used_indices_def not_less [symmetric])
  next
    case False
    with out assms show ?thesis by (auto simp: used_erase_def used_indices_def)
  qed
qed

interpretation used: Index_Set wf_index_set empty_index_set used_contains used_insert used_erase
  used_indices
proof (unfold_locales, goal_cases)
  case 1
  show ?case by (simp add: wf_index_set_def empty_index_set_def used_indices_def)
next
  case (2 s i)
  show ?case by (simp add: used_contains_def used_indices_def)
next
  case (3 s i)
  then show ?case by (rule used_insert_correct)
next
  case (4 s i)
  then show ?case by (rule used_erase_correct)
qed

section \<open>Properties\<close>

text \<open>C25. The dense/sparse index set refines a set of 32-bit indices, the largest one included. It starts
  empty; inserting an index that is not in it adds exactly that index; erasing any index, present or not, removes
  exactly that index, keeps all others and returns how many were removed, one or none. Both operations keep the
  representation well-formed, so this holds along every sequence of them.\<close>

theorem used_index_set_refines:
  assumes "wf_index_set s"
  shows "wf_index_set empty_index_set \<and> (\<forall>j. \<not> used_contains empty_index_set j)
    \<and> (\<not> used_contains s i \<longrightarrow> wf_index_set (used_insert i s)
         \<and> (\<forall>j. used_contains (used_insert i s) j \<longleftrightarrow> j = i \<or> used_contains s j))
    \<and> wf_index_set (snd (used_erase i s))
    \<and> (\<forall>j. used_contains (snd (used_erase i s)) j \<longleftrightarrow> j \<noteq> i \<and> used_contains s j)
    \<and> fst (used_erase i s) = (if used_contains s i then 1 else 0)"
proof -
  note c = used.contains_law
  have "wf_index_set (used_insert i s) \<and> (\<forall>j. used_contains (used_insert i s) j \<longleftrightarrow> j = i \<or> used_contains s j)"
    if "\<not> used_contains s i"
    using used.insert_law [OF assms, of i] c [of "used_insert i s"] c [OF assms] that by auto
  then show ?thesis
    using used.empty_law c [of empty_index_set] used.erase_law [OF assms, of i] c [of "snd (used_erase i s)"] c [OF assms] by auto
qed

text \<open>Erasing inside the dense prefix keeps the indices above the hole, and erasing an absent index changes nothing.\<close>

theorem used_index_set_refines_witness:
  "fst (used_erase 1 \<lparr>dense_end = 3, sparse = [max_index]\<rparr>) = 1
   \<and> \<not> used_contains (snd (used_erase 1 \<lparr>dense_end = 3, sparse = [max_index]\<rparr>)) 1
   \<and> used_contains (snd (used_erase 1 \<lparr>dense_end = 3, sparse = [max_index]\<rparr>)) 2
   \<and> used_contains (snd (used_erase 1 \<lparr>dense_end = 3, sparse = [max_index]\<rparr>)) max_index
   \<and> fst (used_erase 7 \<lparr>dense_end = 3, sparse = [max_index]\<rparr>) = 0"
proof -
  let ?s = "\<lparr>dense_end = 3, sparse = [max_index]\<rparr>"
  have wf: "wf_index_set ?s" by (simp add: wf_index_set_def)
  have c: "used_contains ?s 1" "used_contains ?s 2" "used_contains ?s max_index" "\<not> used_contains ?s 7"
    by (simp_all add: used_contains_def) (simp add: max_index_def)
  have "max_index \<noteq> 1" by (simp add: max_index_def)
  with used_index_set_refines [OF wf, of 1] used_index_set_refines [OF wf, of 7] c show ?thesis by simp
qed

end
