(* ===== verification/Reads_From.thy ===== *)
theory Reads_From
  imports Events
begin

text \<open>
  \<^verbatim>\<open>ReadsFromSourceT\<close> and \<^verbatim>\<open>ReadsFromRelationT\<close> of \<^verbatim>\<open>include/dpor/model/execution_graph.hpp\<close>: the
  partial map from receives to their sources, a vector of optional entries with a separate
  count. The iterator skips absent entries; \<open>rf_entries\<close> is the sequence of pairs a range-based
  loop visits. The locale \<open>Partial_Map\<close> is the map contract the graphs rely on.
\<close>

datatype ReadsFromSource = from_send EventId | bottom

definition source_is_send :: "ReadsFromSource \<Rightarrow> bool" where
  "source_is_send s = (case s of from_send _ \<Rightarrow> True | bottom \<Rightarrow> False)"

definition source_is_bottom :: "ReadsFromSource \<Rightarrow> bool" where
  "source_is_bottom s = (case s of from_send _ \<Rightarrow> False | bottom \<Rightarrow> True)"

definition source_send_id :: "ReadsFromSource \<Rightarrow> EventId result" where
  "source_send_id s =
     (case s of
        from_send x \<Rightarrow> Inr x
      | bottom \<Rightarrow> Inl (precondition_error ''reads-from source is bottom''))"

record ReadsFromRelation =
  entries :: "ReadsFromSource option list"
  rf_size :: nat

definition rf_empty :: ReadsFromRelation where
  "rf_empty = \<lparr>entries = [], rf_size = 0\<rparr>"

definition rf_find :: "ReadsFromRelation \<Rightarrow> EventId \<Rightarrow> ReadsFromSource option" where
  "rf_find r i = (if i \<ge> length (entries r) \<or> entries r ! i = None then None else entries r ! i)"

definition rf_at :: "ReadsFromRelation \<Rightarrow> EventId \<Rightarrow> ReadsFromSource result" where
  "rf_at r i =
     (if i \<ge> length (entries r) then Inl (precondition_error ''reads-from entry not found'')
      else case entries r ! i of
        None \<Rightarrow> Inl (precondition_error ''reads-from entry not found'')
      | Some s \<Rightarrow> Inr s)"

definition rf_set :: "EventId \<Rightarrow> ReadsFromSource \<Rightarrow> ReadsFromRelation \<Rightarrow> ReadsFromRelation" where
  "rf_set i s r =
     (let es = grow_to i None (entries r);
          n = (if es ! i = None then rf_size r + 1 else rf_size r)
      in r\<lparr>entries := es[i := Some s], rf_size := n\<rparr>)"

definition rf_clear :: "EventId \<Rightarrow> ReadsFromRelation \<Rightarrow> ReadsFromRelation" where
  "rf_clear i r =
     (if i \<ge> length (entries r) \<or> entries r ! i = None then r
      else r\<lparr>entries := (entries r)[i := None], rf_size := rf_size r - 1\<rparr>)"

text \<open>The iterator: its position after skipping absent entries, and the pairs it visits.\<close>

function advance_to_present :: "ReadsFromSource option list \<Rightarrow> nat \<Rightarrow> nat" where
  "advance_to_present es i =
     (if i < length es \<and> es ! i = None then advance_to_present es (i + 1) else i)"
  by pat_completeness auto
termination
  by (relation "measure (\<lambda>(es, i). length es - i)") auto

declare advance_to_present.simps [simp del]

lemma advance_to_present_ge: "i \<le> advance_to_present es i"
proof (induction es i rule: advance_to_present.induct)
  case (1 es i)
  then show ?case by (auto simp: advance_to_present.simps [of es i])
qed

function rf_iterate :: "ReadsFromSource option list \<Rightarrow> nat \<Rightarrow> (EventId \<times> ReadsFromSource) list" where
  "rf_iterate es i =
     (let j = advance_to_present es i
      in if j < length es
         then (case es ! j of
                 Some s \<Rightarrow> (j, s) # rf_iterate es (j + 1)
               | None \<Rightarrow> [])
         else [])"
  by pat_completeness auto
termination
  by (relation "measure (\<lambda>(es, i). length es - i)")
    (auto intro!: diff_less_mono2 intro: le_less_trans [OF advance_to_present_ge])

declare rf_iterate.simps [simp del]

definition rf_entries :: "ReadsFromRelation \<Rightarrow> (EventId \<times> ReadsFromSource) list" where
  "rf_entries r = rf_iterate (entries r) 0"

section \<open>The map contract\<close>

locale Partial_Map =
  fixes inv :: "'m \<Rightarrow> bool"
    and empty :: 'm
    and find :: "'m \<Rightarrow> nat \<Rightarrow> 'a option"
    and set_entry :: "nat \<Rightarrow> 'a \<Rightarrow> 'm \<Rightarrow> 'm"
    and clear_entry :: "nat \<Rightarrow> 'm \<Rightarrow> 'm"
    and visit :: "'m \<Rightarrow> (nat \<times> 'a) list"
    and size_of :: "'m \<Rightarrow> nat"
  assumes empty_law: "inv empty \<and> find empty = Map.empty"
    and set_law: "inv m \<Longrightarrow> inv (set_entry k a m) \<and> find (set_entry k a m) = (find m)(k \<mapsto> a)"
    and clear_law: "inv m \<Longrightarrow> inv (clear_entry k m) \<and> find (clear_entry k m) = (find m)(k := None)"
    and visit_law: "inv m \<Longrightarrow> set (visit m) = {(k, a). find m k = Some a}"
    and visit_sorted: "inv m \<Longrightarrow> sorted_wrt (<) (map fst (visit m))"
    and size_law: "inv m \<Longrightarrow> size_of m = card (dom (find m))"
begin

text \<open>Undoing an assignment: writing back what was there before, or clearing a fresh entry.\<close>

lemma undo_set:
  assumes "inv m"
  shows "find (case find m k of Some b \<Rightarrow> set_entry k b (set_entry k a m)
                              | None \<Rightarrow> clear_entry k (set_entry k a m)) = find m"
  using assms set_law [OF assms, of k a] set_law [of "set_entry k a m" k]
    clear_law [of "set_entry k a m" k]
  by (auto split: option.splits)

lemma distinct_visit: "inv m \<Longrightarrow> distinct (map fst (visit m))"
  using visit_sorted strict_sorted_iff by blast

end

section \<open>Refinement\<close>

definition wf_rf :: "ReadsFromRelation \<Rightarrow> bool" where
  "wf_rf r \<longleftrightarrow> rf_size r = card {i. i < length (entries r) \<and> entries r ! i \<noteq> None}"

lemma rf_find_eq: "rf_find r i = nth_or None (entries r) i"
  by (auto simp: rf_find_def nth_or_def)

lemma rf_find_set [simp]: "rf_find (rf_set i s r) = (rf_find r)(i \<mapsto> s)"
  by (rule ext) (auto simp: rf_find_eq rf_set_def Let_def nth_or_def)

lemma rf_find_clear [simp]: "rf_find (rf_clear i r) = (rf_find r)(i := None)"
  by (rule ext) (auto simp: rf_find_eq rf_clear_def nth_or_def)

lemma rf_find_empty [simp]: "rf_find rf_empty = Map.empty"
  by (rule ext) (simp add: rf_find_eq rf_empty_def)

lemma dom_rf_find: "dom (rf_find r) = {i. i < length (entries r) \<and> entries r ! i \<noteq> None}"
  by (auto simp: rf_find_eq nth_or_def dom_def)

lemma finite_dom_rf_find [simp]: "finite (dom (rf_find r))"
  by (simp add: dom_rf_find)

lemma wf_rf_size: "wf_rf r \<longleftrightarrow> rf_size r = card (dom (rf_find r))"
  by (simp add: wf_rf_def dom_rf_find)

lemma rf_size_set: "rf_size (rf_set i s r) = (if rf_find r i = None then rf_size r + 1 else rf_size r)"
  by (auto simp: rf_set_def Let_def rf_find_eq nth_or_def)

lemma wf_rf_set: "wf_rf r \<Longrightarrow> wf_rf (rf_set i s r)"
  by (auto simp: wf_rf_size rf_size_set insert_absorb domIff card_insert_if)

lemma wf_rf_clear: "wf_rf r \<Longrightarrow> wf_rf (rf_clear i r)"
proof (cases "rf_find r i")
  case None
  then have "rf_clear i r = r" by (auto simp: rf_clear_def rf_find_eq nth_or_def split: if_splits)
  then show "wf_rf r \<Longrightarrow> wf_rf (rf_clear i r)" by simp
next
  case (Some s)
  then have "rf_size (rf_clear i r) = rf_size r - 1" "i \<in> dom (rf_find r)"
    by (auto simp: rf_clear_def rf_find_eq nth_or_def split: if_splits)
  then show "wf_rf r \<Longrightarrow> wf_rf (rf_clear i r)" by (simp add: wf_rf_size)
qed

lemma advance_to_present_next:
  "advance_to_present es i < length es \<Longrightarrow> es ! advance_to_present es i \<noteq> None"
  "i \<le> k \<Longrightarrow> k < advance_to_present es i \<Longrightarrow> k < length es \<Longrightarrow> es ! k = None"
proof (induction es i rule: advance_to_present.induct)
  case (1 es i)
  { case 1
    with "1.IH"(1) show ?case by (auto simp: advance_to_present.simps [of es i] split: if_splits)
  next
    case 2
    with "1.IH"(2) show ?case
      by (cases "k = i") (auto simp: advance_to_present.simps [of es i] split: if_splits) }
qed

lemma rf_iterate_correct:
  "set (rf_iterate es i) = {(k, a). i \<le> k \<and> nth_or None es k = Some a}
   \<and> sorted_wrt (<) (map fst (rf_iterate es i))"
proof (induction es i rule: rf_iterate.induct)
  case (1 es i)
  let ?j = "advance_to_present es i"
  note ge = advance_to_present_ge [of i es] and nx = advance_to_present_next(1) [of es i] advance_to_present_next(2) [where es = es and i = i]
  show ?case
  proof (cases "?j < length es")
    case True
    with nx(1) obtain s where s: "es ! ?j = Some s" by blast
    note IH = "1.IH" [OF refl True s]
    have eq: "rf_iterate es i = (?j, s) # rf_iterate es (?j + 1)"
      using True s by (subst rf_iterate.simps) (simp add: Let_def)
    have "i \<le> k \<and> nth_or None es k = Some a \<longleftrightarrow>
        k = ?j \<and> a = s \<or> ?j + 1 \<le> k \<and> nth_or None es k = Some a" for k a
    proof (cases k "?j" rule: linorder_cases)
      case less
      with nx(2) [of k] True show ?thesis by auto
    next
      case equal
      with s True ge show ?thesis by auto
    next
      case greater
      with ge show ?thesis by auto
    qed
    then have "{(k, a). i \<le> k \<and> nth_or None es k = Some a} =
        insert (?j, s) {(k, a). ?j + 1 \<le> k \<and> nth_or None es k = Some a}" by blast
    with eq IH show ?thesis by fastforce
  next
    case False
    then have "{(k, a). i \<le> k \<and> nth_or None es k = Some a} = {}"
      using nx(2) by (fastforce simp: nth_or_def split: if_splits)
    moreover have "rf_iterate es i = []" using False by (subst rf_iterate.simps) (simp add: Let_def)
    ultimately show ?thesis by simp
  qed
qed

interpretation reads_from_map: Partial_Map wf_rf rf_empty rf_find rf_set rf_clear rf_entries rf_size
proof (unfold_locales, goal_cases)
  case 1
  show ?case by (simp add: wf_rf_size) (simp add: rf_empty_def)
next
  case (2 m k a)
  then show ?case by (simp add: wf_rf_set)
next
  case (3 m k)
  then show ?case by (simp add: wf_rf_clear)
next
  case (4 m)
  show ?case using rf_iterate_correct [of "entries m" 0] by (simp add: rf_entries_def rf_find_eq)
next
  case (5 m)
  show ?case using rf_iterate_correct [of "entries m" 0] by (simp add: rf_entries_def)
next
  case (6 m)
  then show ?case by (simp add: wf_rf_size)
qed

lemma set_rf_entries: "set (rf_entries r) = {(k, a). rf_find r k = Some a}"
  using rf_iterate_correct [of "entries r" 0] by (simp add: rf_entries_def rf_find_eq)

lemma sorted_rf_entries: "sorted_wrt (<) (map fst (rf_entries r))"
  using rf_iterate_correct [of "entries r" 0] by (simp add: rf_entries_def)

lemma rf_at_eq: "rf_at r i = (case rf_find r i of
    None \<Rightarrow> Inl (precondition_error ''reads-from entry not found'') | Some s \<Rightarrow> Inr s)"
  by (auto simp: rf_at_def rf_find_eq nth_or_def)

section \<open>Properties\<close>

text \<open>C26. The vector-backed reads-from relation refines a finite map: an assignment is found again and leaves
  the other receives alone, iteration visits the assigned receives once each in ascending order, the
  size counts them, and writing back the previous source undoes an assignment.\<close>

theorem reads_from_refines_map:
  assumes "wf_rf m"
  shows "wf_rf (rf_set k s m) \<and> rf_find (rf_set k s m) = (rf_find m)(k \<mapsto> s)
    \<and> set (rf_entries (rf_set k s m)) = {(r, t). ((rf_find m)(k \<mapsto> s)) r = Some t}
    \<and> sorted_wrt (<) (map fst (rf_entries (rf_set k s m)))
    \<and> rf_size (rf_set k s m) = card (insert k (dom (rf_find m)))
    \<and> rf_find (case rf_find m k of Some t \<Rightarrow> rf_set k t (rf_set k s m) | None \<Rightarrow> rf_clear k (rf_set k s m)) = rf_find m"
  using reads_from_map.set_law [OF assms, of k s] reads_from_map.size_law [of "rf_set k s m"]
    reads_from_map.undo_set [OF assms, of k s] set_rf_entries [of "rf_set k s m"] sorted_rf_entries
  by auto

theorem reads_from_refines_map_witness:
  "wf_rf (rf_set 2 bottom rf_empty) \<and> rf_find (rf_set 5 (from_send 0) (rf_set 2 bottom rf_empty)) 5 = Some (from_send 0)
   \<and> rf_size (rf_set 5 (from_send 0) (rf_set 2 bottom rf_empty)) = 2"
proof -
  have e: "wf_rf rf_empty" "rf_find rf_empty = Map.empty" using reads_from_map.empty_law by auto
  note w = reads_from_map.set_law [OF e(1), of 2 bottom]
  with reads_from_refines_map [of "rf_set 2 bottom rf_empty" 5 "from_send 0"] e show ?thesis by auto
qed

end
