(* ===== verification/Execution_Graph.thy ===== *)
theory Execution_Graph
  imports Relations Used_Index_Set Reads_From
begin

text \<open>
  \<^verbatim>\<open>ExecutionGraphT\<close> of \<^verbatim>\<open>include/dpor/model/execution_graph.hpp\<close>: the append-only event vector, the
  reads-from map and the per-thread index bookkeeping. Public insertions keep the invariant
  \<open>wf_eg\<close> (indices strictly increase along each thread and the bookkeeping agrees with the
  events), under which program order is derived without an exception and is exactly insertion
  order per thread.
\<close>

record 'v ExecutionGraph =
  events :: "'v event list"
  reads_from :: ReadsFromRelation
  next_event_index_by_thread :: "EventIndex list"
  used_event_indices_by_thread :: "UsedEventIndexSet list"

definition empty_eg :: "'v ExecutionGraph" where
  "empty_eg = \<lparr>events = [], reads_from = rf_empty, next_event_index_by_thread = [],
     used_event_indices_by_thread = []\<rparr>"

definition is_valid_event_id :: "'v ExecutionGraph \<Rightarrow> EventId \<Rightarrow> bool" where
  "is_valid_event_id g i \<longleftrightarrow> i < length (events g)"

definition eg_event :: "'v ExecutionGraph \<Rightarrow> EventId \<Rightarrow> 'v event result" where
  "eg_event g i =
     (if \<not> is_valid_event_id g i
      then Inl (precondition_error ''event id not found in execution graph'')
      else Inr (events g ! i))"

definition ensure_thread_storage :: "ThreadId \<Rightarrow> 'v ExecutionGraph \<Rightarrow> 'v ExecutionGraph result" where
  "ensure_thread_storage t g =
     (if t \<ge> length (next_event_index_by_thread g)
      then if t > kMaxThreadId
           then Inl (precondition_error ''thread id exceeds the maximum supported thread id'')
           else Inr (g\<lparr>next_event_index_by_thread := resize (t + 1) 0 (next_event_index_by_thread g),
                       used_event_indices_by_thread :=
                         resize (t + 1) empty_index_set (used_event_indices_by_thread g)\<rparr>)
      else Inr g)"

definition append_event_unchecked ::
    "ThreadId \<Rightarrow> EventIndex \<Rightarrow> 'v EventLabel \<Rightarrow> 'v ExecutionGraph \<Rightarrow> EventId \<times> 'v ExecutionGraph" where
  "append_event_unchecked t i l g =
     (let g' = g\<lparr>used_event_indices_by_thread :=
                    (used_event_indices_by_thread g)[t := used_insert i (used_event_indices_by_thread g ! t)],
                 next_event_index_by_thread :=
                    (next_event_index_by_thread g)[t := (if i = max_index then i else i + 1)],
                 events := events g @ [\<lparr>thread = t, index = i, label = l\<rparr>]\<rparr>
      in (length (events g') - 1, g'))"

text \<open>The search loop of \<^verbatim>\<open>next_event_index\<close>.\<close>

function first_unused_index :: "UsedEventIndexSet \<Rightarrow> EventIndex \<Rightarrow> EventIndex result" where
  "first_unused_index used i =
     (if used_contains used i
      then if i = max_index then Inl (precondition_error ''no available event index for thread'')
           else first_unused_index used (i + 1)
      else Inr i)"
  by pat_completeness auto
termination
proof (relation "measure (\<lambda>(used, i). 2 ^ 32 - unat i)", goal_cases)
  case (2 used i)
  then have "unat (i + 1) = Suc (unat i)" by (intro word_less_Suc(3))
  moreover have "unat (i + 1) < 2 ^ 32" using unsigned_less [of "i + 1"] by simp
  ultimately show ?case by simp
qed simp

declare first_unused_index.simps [simp del]

definition next_event_index :: "ThreadId \<Rightarrow> 'v ExecutionGraph \<Rightarrow> (EventIndex \<times> 'v ExecutionGraph) result" where
  "next_event_index t g =
     bind_result (ensure_thread_storage t g) (\<lambda>g1.
     bind_result (first_unused_index (used_event_indices_by_thread g1 ! t) (next_event_index_by_thread g1 ! t))
       (\<lambda>i. Inr (i, g1\<lparr>next_event_index_by_thread := (next_event_index_by_thread g1)[t := i]\<rparr>)))"

definition eg_add_event ::
    "ThreadId \<Rightarrow> 'v EventLabel \<Rightarrow> 'v ExecutionGraph \<Rightarrow> (EventId \<times> 'v ExecutionGraph) result" where
  "eg_add_event t l g =
     bind_result (next_event_index t g) (\<lambda>ig. Inr (append_event_unchecked t (fst ig) l (snd ig)))"

definition add_event_with_index ::
    "ThreadId \<Rightarrow> EventIndex \<Rightarrow> 'v EventLabel \<Rightarrow> 'v ExecutionGraph \<Rightarrow> (EventId \<times> 'v ExecutionGraph) result"
where
  "add_event_with_index t i l g =
     bind_result (ensure_thread_storage t g) (\<lambda>g1.
       if used_contains (used_event_indices_by_thread g1 ! t) i
       then Inl (precondition_error ''event index already used in this thread'')
       else if i < next_event_index_by_thread g1 ! t
       then Inl (precondition_error
                   ''event indices must be inserted in increasing order within each thread'')
       else Inr (append_event_unchecked t i l g1))"

definition eg_set_reads_from_source ::
    "EventId \<Rightarrow> ReadsFromSource \<Rightarrow> 'v ExecutionGraph \<Rightarrow> 'v ExecutionGraph" where
  "eg_set_reads_from_source r s g = g\<lparr>reads_from := rf_set r s (reads_from g)\<rparr>"

definition eg_set_reads_from :: "EventId \<Rightarrow> EventId \<Rightarrow> 'v ExecutionGraph \<Rightarrow> 'v ExecutionGraph" where
  "eg_set_reads_from r s = eg_set_reads_from_source r (from_send s)"

definition eg_set_reads_from_bottom :: "EventId \<Rightarrow> 'v ExecutionGraph \<Rightarrow> 'v ExecutionGraph" where
  "eg_set_reads_from_bottom r = eg_set_reads_from_source r bottom"

text \<open>Distribution of the event ids over the threads, then the order check per thread.\<close>

definition push_thread_event :: "'v event list \<Rightarrow> EventId \<Rightarrow> EventId list list \<Rightarrow> EventId list list" where
  "push_thread_event evs i by_thread =
     (let t = thread (evs ! i); bt = grow_to t [] by_thread in bt[t := bt ! t @ [i]])"

fun check_increasing :: "'v event list \<Rightarrow> EventId list \<Rightarrow> unit result" where
  "check_increasing evs (a # b # ids) =
     (if index (evs ! a) = index (evs ! b)
      then Inl (internal_error
             (''two events in the same thread have the same event index; program order is '' @ ''ambiguous''))
      else if index (evs ! b) < index (evs ! a)
      then Inl (internal_error
             (''events in the same thread are not in increasing event index order; program '' @
              ''order is ambiguous''))
      else check_increasing evs (b # ids))"
| "check_increasing evs _ = Inr ()"

definition derive_thread_event_sequences :: "'v ExecutionGraph \<Rightarrow> NodeId list list result" where
  "derive_thread_event_sequences g =
     fold_result
       (\<lambda>ids seqs. if ids = [] then Inr seqs
                   else bind_result (check_increasing (events g) ids) (\<lambda>_. Inr (seqs @ [ids])))
       (fold (push_thread_event (events g)) [0..<length (events g)] []) []"

definition po_relation :: "'v ExecutionGraph \<Rightarrow> ProgramOrderRelation result" where
  "po_relation g =
     bind_result (derive_thread_event_sequences g) (program_order_relation (length (events g)))"

text \<open>Validation of one reads-from entry before its edge is passed on.\<close>

definition validate_rf_entry ::
    "'v ExecutionGraph \<Rightarrow> EventId \<times> ReadsFromSource \<Rightarrow> (EventId \<times> EventId) option result" where
  "validate_rf_entry g rs =
     (if \<not> is_valid_event_id g (fst rs)
      then Inl (precondition_error ''reads-from relation refers to an unknown receive event id'')
      else if \<not> is_receive (events g ! fst rs)
      then Inl (precondition_error ''reads-from relation target event is not a receive'')
      else case snd rs of
        bottom \<Rightarrow> Inr None
      | from_send s \<Rightarrow>
          if \<not> is_valid_event_id g s
          then Inl (precondition_error ''reads-from relation source refers to an unknown send event id'')
          else if \<not> is_send (events g ! s)
          then Inl (precondition_error ''reads-from relation source event is not a send'')
          else Inr (Some (s, fst rs)))"

definition for_each_validated_rf_edge ::
    "(EventId \<Rightarrow> EventId \<Rightarrow> 's \<Rightarrow> 's result) \<Rightarrow> 'v ExecutionGraph \<Rightarrow> 's \<Rightarrow> 's result" where
  "for_each_validated_rf_edge callback g s =
     fold_result (\<lambda>entry s. bind_result (validate_rf_entry g entry) (\<lambda>edge.
         case edge of None \<Rightarrow> Inr s | Some (source, receive) \<Rightarrow> callback source receive s))
       (rf_entries (reads_from g)) s"

definition rf_relation :: "'v ExecutionGraph \<Rightarrow> ExplicitRelation result" where
  "rf_relation g = for_each_validated_rf_edge add_edge g (explicit_relation (length (events g)))"

definition eg_receive_event_ids :: "'v ExecutionGraph \<Rightarrow> EventId list" where
  "eg_receive_event_ids g = filter (\<lambda>i. is_receive (events g ! i)) [0..<length (events g)]"

definition eg_send_event_ids :: "'v ExecutionGraph \<Rightarrow> EventId list" where
  "eg_send_event_ids g = filter (\<lambda>i. is_send (events g ! i)) [0..<length (events g)]"

definition eg_unread_send_event_ids :: "'v ExecutionGraph \<Rightarrow> EventId list" where
  "eg_unread_send_event_ids g =
     (let consumed = concat (map (\<lambda>(_, s). case s of from_send x \<Rightarrow> [x] | bottom \<Rightarrow> [])
                                 (rf_entries (reads_from g)))
      in filter (\<lambda>i. \<not> List.member consumed i) (eg_send_event_ids g))"

definition rollback_last_event ::
    "EventId \<Rightarrow> ThreadId \<Rightarrow> EventIndex \<Rightarrow> EventIndex \<Rightarrow> 'v ExecutionGraph \<Rightarrow> 'v ExecutionGraph result" where
  "rollback_last_event expected_id expected_thread expected_index previous_next g =
     (if events g = [] \<or> expected_id \<noteq> length (events g) - 1
      then Inl (internal_error ''rollback_last_event requires undoing the current tail event'')
      else if thread (last (events g)) \<noteq> expected_thread \<or> index (last (events g)) \<noteq> expected_index
      then Inl (internal_error ''rollback_last_event metadata does not match the current tail event'')
      else if expected_thread \<ge> length (next_event_index_by_thread g)
              \<or> expected_thread \<ge> length (used_event_indices_by_thread g)
      then Inl (internal_error ''rollback_last_event thread storage missing'')
      else case used_erase expected_index (used_event_indices_by_thread g ! expected_thread) of
        (n, used') \<Rightarrow>
          if n \<noteq> 1 then Inl (internal_error ''rollback_last_event missing used event index'')
          else Inr (g\<lparr>events := butlast (events g),
                      used_event_indices_by_thread :=
                        (used_event_indices_by_thread g)[expected_thread := used'],
                      next_event_index_by_thread :=
                        (next_event_index_by_thread g)[expected_thread := previous_next]\<rparr>))"

definition rollback_reads_from ::
    "EventId \<Rightarrow> ReadsFromSource option \<Rightarrow> 'v ExecutionGraph \<Rightarrow> 'v ExecutionGraph" where
  "rollback_reads_from r previous g =
     (case previous of
        Some s \<Rightarrow> g\<lparr>reads_from := rf_set r s (reads_from g)\<rparr>
      | None \<Rightarrow> g\<lparr>reads_from := rf_clear r (reads_from g)\<rparr>)"

section \<open>The invariant of the index bookkeeping\<close>

definition thread_indices :: "'v event list \<Rightarrow> ThreadId \<Rightarrow> EventIndex set" where
  "thread_indices evs t = {index e | e. e \<in> set evs \<and> thread e = t}"

definition increasing_indices :: "'v event list \<Rightarrow> bool" where
  "increasing_indices evs \<longleftrightarrow>
     (\<forall>j<length evs. \<forall>i<j. thread (evs ! i) = thread (evs ! j) \<longrightarrow> index (evs ! i) < index (evs ! j))"

definition storage_ok :: "'v event list \<Rightarrow> ThreadId \<Rightarrow> EventIndex \<Rightarrow> UsedEventIndexSet \<Rightarrow> bool" where
  "storage_ok evs t nxt used \<longleftrightarrow> wf_index_set used \<and> used_indices used = thread_indices evs t
     \<and> (\<forall>i\<in>used_indices used. i < nxt \<or> i = max_index \<and> nxt = max_index)"

definition wf_eg :: "'v ExecutionGraph \<Rightarrow> bool" where
  "wf_eg g \<longleftrightarrow> length (used_event_indices_by_thread g) = length (next_event_index_by_thread g)
     \<and> length (next_event_index_by_thread g) \<le> kMaxThreadId + 1
     \<and> (\<forall>e\<in>set (events g). thread e < length (next_event_index_by_thread g))
     \<and> (\<forall>t<length (next_event_index_by_thread g).
          storage_ok (events g) t (next_event_index_by_thread g ! t) (used_event_indices_by_thread g ! t))
     \<and> increasing_indices (events g) \<and> wf_rf (reads_from g)"

lemma wf_egD:
  assumes "wf_eg g"
  shows "increasing_indices (events g)" "wf_rf (reads_from g)"
    "e \<in> set (events g) \<Longrightarrow> thread e < length (next_event_index_by_thread g)"
    "length (used_event_indices_by_thread g) = length (next_event_index_by_thread g)"
    "t < length (next_event_index_by_thread g) \<Longrightarrow>
       storage_ok (events g) t (next_event_index_by_thread g ! t) (used_event_indices_by_thread g ! t)"
  using assms by (auto simp: wf_eg_def)

lemma wf_empty_eg: "wf_eg empty_eg"
  using reads_from_map.empty_law by (simp add: wf_eg_def empty_eg_def increasing_indices_def)

lemma thread_indices_append [simp]:
  "thread_indices (evs @ [e]) t =
     (if thread e = t then insert (index e) (thread_indices evs t) else thread_indices evs t)"
  by (auto simp: thread_indices_def)

lemma storage_ok_new [simp]: "thread_indices evs t = {} \<Longrightarrow> storage_ok evs t 0 empty_index_set"
  using used.empty_law by (simp add: storage_ok_def)

text \<open>Growing the storage: fails exactly for a thread id beyond the limit.\<close>

lemma ensure_thread_storage_wf:
  assumes "wf_eg g" "t \<le> kMaxThreadId"
  shows "\<exists>g'. ensure_thread_storage t g = Inr g' \<and> wf_eg g' \<and> t < length (next_event_index_by_thread g')
    \<and> events g' = events g \<and> reads_from g' = reads_from g
    \<and> (\<forall>u. nth_or 0 (next_event_index_by_thread g') u = nth_or 0 (next_event_index_by_thread g) u)"
proof (cases "t < length (next_event_index_by_thread g)")
  case True
  with assms(1) show ?thesis by (simp add: ensure_thread_storage_def)
next
  case False
  let ?g = "g\<lparr>next_event_index_by_thread := resize (t + 1) 0 (next_event_index_by_thread g),
    used_event_indices_by_thread := resize (t + 1) empty_index_set (used_event_indices_by_thread g)\<rparr>"
  have new: "thread_indices (events g) u = {}" if "\<not> u < length (next_event_index_by_thread g)" for u
    using assms(1) that by (auto simp: wf_eg_def thread_indices_def)
  have "wf_eg ?g"
    using assms False new by (auto simp: wf_eg_def)
  with False assms show ?thesis
    by (auto simp: ensure_thread_storage_def nth_or_def)
qed

lemma ensure_thread_storage_error:
  assumes "wf_eg g" "t > kMaxThreadId"
  shows "ensure_thread_storage t g =
    Inl (precondition_error ''thread id exceeds the maximum supported thread id'')"
  using assms by (auto simp: ensure_thread_storage_def wf_eg_def)

lemma increasing_indices_append:
  "increasing_indices (evs @ [e]) \<longleftrightarrow>
     increasing_indices evs \<and> (\<forall>i\<in>thread_indices evs (thread e). i < index e)"
proof -
  have "(\<forall>i\<in>thread_indices evs (thread e). i < index e) \<longleftrightarrow>
      (\<forall>i<length evs. thread (evs ! i) = thread e \<longrightarrow> index (evs ! i) < index e)"
    unfolding thread_indices_def by (auto simp: in_set_conv_nth)
  then show ?thesis by (auto simp: increasing_indices_def nth_append less_Suc_eq)
qed

lemma append_event_unchecked_wf:
  assumes "wf_eg g" "t < length (next_event_index_by_thread g)"
    and "i \<notin> thread_indices (events g) t" "next_event_index_by_thread g ! t \<le> i"
  shows "wf_eg (snd (append_event_unchecked t i l g))"
proof -
  let ?nx = "next_event_index_by_thread g ! t" and ?u = "used_event_indices_by_thread g ! t"
  from assms have ok: "storage_ok (events g) t ?nx ?u" by (simp add: wf_eg_def)
  with assms(3) have i: "i \<notin> used_indices ?u" by (simp add: storage_ok_def)
  have less: "j < i" if "j \<in> used_indices ?u" for j
  proof -
    from ok that have "j < ?nx \<or> j = max_index \<and> ?nx = max_index" by (simp add: storage_ok_def)
    moreover have "i \<noteq> j" using that i by blast
    ultimately show ?thesis
      using assms(4) by auto
  qed
  have nxt: "j < (if i = max_index then i else i + 1)
      \<or> j = max_index \<and> (if i = max_index then i else i + 1) = max_index"
    if "j \<in> insert i (used_indices ?u)" for j
    using that less [of j] word_less_Suc(2) [of i j] by auto
  have "storage_ok (events g @ [\<lparr>thread = t, index = i, label = l\<rparr>]) t
      (if i = max_index then i else i + 1) (used_insert i ?u)"
    using used.insert_law [of ?u i] ok i nxt by (auto simp: storage_ok_def)
  moreover have "increasing_indices (events g @ [\<lparr>thread = t, index = i, label = l\<rparr>])"
    using assms(1) less ok by (simp add: increasing_indices_append wf_eg_def storage_ok_def)
  ultimately show ?thesis
    using assms(1,2)
    by (auto simp: wf_eg_def append_event_unchecked_def Let_def nth_list_update storage_ok_def)
qed

text \<open>The search returns the least unused index from the start on.\<close>

lemma first_unused_index_Inr:
  "first_unused_index used i = Inr j \<Longrightarrow>
     i \<le> j \<and> \<not> used_contains used j \<and> (\<forall>k. i \<le> k \<and> k < j \<longrightarrow> used_contains used k)"
proof (induction used i rule: first_unused_index.induct)
  case (1 used i)
  show ?case
  proof (cases "used_contains used i")
    case True
    with "1.prems" have ne: "i \<noteq> max_index" and "first_unused_index used (i + 1) = Inr j"
      by (auto simp: first_unused_index.simps [of used i] split: if_splits)
    with "1.IH" True have IH: "i + 1 \<le> j" "\<not> used_contains used j"
      "\<forall>k. i + 1 \<le> k \<and> k < j \<longrightarrow> used_contains used k" by auto
    note w = word_less_Suc [OF ne]
    have "k = i \<or> i + 1 \<le> k" if "i \<le> k" for k
      using w(2) [of k] that by (auto simp: not_less [symmetric])
    with IH True have "\<forall>k. i \<le> k \<and> k < j \<longrightarrow> used_contains used k" by blast
    with IH w(1) show ?thesis by auto
  next
    case False
    with "1.prems" show ?thesis by (auto simp: first_unused_index.simps [of used i])
  qed
qed

lemma next_event_index_wf:
  assumes "wf_eg g" "t \<le> kMaxThreadId"
  shows "if max_index \<in> thread_indices (events g) t
    then next_event_index t g = Inl (precondition_error ''no available event index for thread'')
    else \<exists>g'. next_event_index t g = Inr (nth_or 0 (next_event_index_by_thread g) t, g') \<and> wf_eg g'
      \<and> events g' = events g \<and> reads_from g' = reads_from g \<and> t < length (next_event_index_by_thread g')
      \<and> (\<forall>u. nth_or 0 (next_event_index_by_thread g') u = nth_or 0 (next_event_index_by_thread g) u)
      \<and> nth_or 0 (next_event_index_by_thread g) t \<notin> thread_indices (events g) t"
proof -
  from ensure_thread_storage_wf [OF assms] obtain g1 where
    g1: "ensure_thread_storage t g = Inr g1" "wf_eg g1" "t < length (next_event_index_by_thread g1)"
      "events g1 = events g" "reads_from g1 = reads_from g"
      "\<forall>u. nth_or 0 (next_event_index_by_thread g1) u = nth_or 0 (next_event_index_by_thread g) u" by blast
  let ?nx = "next_event_index_by_thread g1 ! t" and ?u = "used_event_indices_by_thread g1 ! t"
  from g1(2,3) have ok: "storage_ok (events g) t ?nx ?u" unfolding wf_eg_def g1(4) by blast
  then have cont: "used_contains ?u j \<longleftrightarrow> j \<in> thread_indices (events g) t" for j
    using used.contains_law by (simp add: storage_ok_def)
  have full: "?nx \<in> thread_indices (events g) t \<longleftrightarrow> max_index \<in> thread_indices (events g) t"
    "?nx \<in> thread_indices (events g) t \<Longrightarrow> ?nx = max_index"
    using ok unfolding storage_ok_def by (metis max_index_order(2) order_less_irrefl)+
  have nx: "nth_or 0 (next_event_index_by_thread g) t = ?nx" using g1(3,6) by (metis nth_or_simps(1))
  show ?thesis
  proof (cases "max_index \<in> thread_indices (events g) t")
    case True
    with full have "?nx = max_index" "?nx \<in> thread_indices (events g) t" by blast+
    then have "first_unused_index ?u ?nx = Inl (precondition_error ''no available event index for thread'')"
      using cont by (simp add: first_unused_index.simps [of ?u max_index])
    with True g1(1) show ?thesis by (simp add: next_event_index_def)
  next
    case False
    with full(1) have nin: "?nx \<notin> thread_indices (events g) t" by blast
    then have "first_unused_index ?u ?nx = Inr ?nx"
      using cont by (simp add: first_unused_index.simps [of ?u ?nx])
    then have "next_event_index t g = Inr (?nx, g1)" using g1(1) by (simp add: next_event_index_def)
    with False nin g1(2-6) show ?thesis unfolding nx by auto
  qed
qed

lemma eg_add_event_wf:
  assumes "wf_eg g" "t \<le> kMaxThreadId"
  shows "if max_index \<in> thread_indices (events g) t
    then eg_add_event t l g = Inl (precondition_error ''no available event index for thread'')
    else \<exists>g'. eg_add_event t l g = Inr (length (events g), g') \<and> wf_eg g' \<and> reads_from g' = reads_from g
      \<and> events g' = events g @ [\<lparr>thread = t, index = nth_or 0 (next_event_index_by_thread g) t, label = l\<rparr>]
      \<and> (\<forall>u. nth_or 0 (next_event_index_by_thread g') u =
            (let i = nth_or 0 (next_event_index_by_thread g) u
             in if u \<noteq> t \<or> i = max_index then i else i + 1))"
proof (cases "max_index \<in> thread_indices (events g) t")
  case True
  with next_event_index_wf [OF assms] show ?thesis by (simp add: eg_add_event_def)
next
  case False
  with next_event_index_wf [OF assms] obtain g1 where
    g1: "next_event_index t g = Inr (nth_or 0 (next_event_index_by_thread g) t, g1)" "wf_eg g1"
      "events g1 = events g" "reads_from g1 = reads_from g" "t < length (next_event_index_by_thread g1)"
      "\<forall>u. nth_or 0 (next_event_index_by_thread g1) u = nth_or 0 (next_event_index_by_thread g) u"
      "nth_or 0 (next_event_index_by_thread g) t \<notin> thread_indices (events g) t" by auto
  let ?g = "snd (append_event_unchecked t (nth_or 0 (next_event_index_by_thread g) t) l g1)"
  have nx: "next_event_index_by_thread g1 ! t = nth_or 0 (next_event_index_by_thread g) t"
    using g1(5,6) by (metis nth_or_simps(1))
  have "wf_eg ?g" by (rule append_event_unchecked_wf) (use g1 nx in simp_all)
  moreover have "nth_or 0 (next_event_index_by_thread ?g) u =
      (let i = nth_or 0 (next_event_index_by_thread g) u in if u \<noteq> t \<or> i = max_index then i else i + 1)" for u
    using g1(5) g1(6) [THEN spec, of u]
    by (cases "u = t") (auto simp: append_event_unchecked_def Let_def nth_or_def)
  moreover have "eg_add_event t l g = Inr (length (events g), ?g)" "reads_from ?g = reads_from g"
    "events ?g = events g @ [\<lparr>thread = t, index = nth_or 0 (next_event_index_by_thread g) t, label = l\<rparr>]"
    using g1 by (simp_all add: eg_add_event_def append_event_unchecked_def Let_def)
  ultimately show ?thesis using False by auto
qed

lemma add_event_with_index_wf:
  assumes "wf_eg g" "t \<le> kMaxThreadId"
  shows "if i \<in> thread_indices (events g) t
    then add_event_with_index t i l g = Inl (precondition_error ''event index already used in this thread'')
    else if i < nth_or 0 (next_event_index_by_thread g) t
    then add_event_with_index t i l g =
      Inl (precondition_error ''event indices must be inserted in increasing order within each thread'')
    else \<exists>g'. add_event_with_index t i l g = Inr (length (events g), g') \<and> wf_eg g'
      \<and> reads_from g' = reads_from g \<and> events g' = events g @ [\<lparr>thread = t, index = i, label = l\<rparr>]"
proof -
  from ensure_thread_storage_wf [OF assms] obtain g1 where
    g1: "ensure_thread_storage t g = Inr g1" "wf_eg g1" "t < length (next_event_index_by_thread g1)"
      "events g1 = events g" "reads_from g1 = reads_from g"
      "nth_or 0 (next_event_index_by_thread g1) t = nth_or 0 (next_event_index_by_thread g) t" by blast
  let ?nx = "next_event_index_by_thread g1 ! t" and ?u = "used_event_indices_by_thread g1 ! t"
  from g1(2,3) have ok: "storage_ok (events g) t ?nx ?u" unfolding wf_eg_def g1(4) by blast
  then have cont: "used_contains ?u j \<longleftrightarrow> j \<in> thread_indices (events g) t" for j
    using used.contains_law by (simp add: storage_ok_def)
  let ?g = "snd (append_event_unchecked t i l g1)"
  have "wf_eg ?g" if "i \<notin> thread_indices (events g) t" "\<not> i < ?nx"
    by (rule append_event_unchecked_wf) (use g1 that in auto)
  moreover have "reads_from ?g = reads_from g" "append_event_unchecked t i l g1 = (length (events g), ?g)"
    "events ?g = events g @ [\<lparr>thread = t, index = i, label = l\<rparr>]"
    using g1 by (simp_all add: append_event_unchecked_def Let_def)
  ultimately show ?thesis using g1(1,3,6) cont by (auto simp: add_event_with_index_def)
qed

lemma eg_set_reads_from_source_wf: "wf_eg g \<Longrightarrow> wf_eg (eg_set_reads_from_source r s g)"
  using reads_from_map.set_law by (simp add: wf_eg_def eg_set_reads_from_source_def)

section \<open>Program order\<close>

definition thread_ids :: "'v event list \<Rightarrow> ThreadId \<Rightarrow> EventId list" where
  "thread_ids evs t = filter (\<lambda>i. thread (evs ! i) = t) [0..<length evs]"

definition po_of :: "'v event list \<Rightarrow> (EventId \<times> EventId) set" where
  "po_of evs = {(i, j). i < j \<and> j < length evs \<and> thread (evs ! i) = thread (evs ! j)}"

lemma set_thread_ids: "set (thread_ids evs t) = {i. i < length evs \<and> thread (evs ! i) = t}"
  by (auto simp: thread_ids_def)

lemma sorted_thread_ids: "sorted_wrt (<) (thread_ids evs t)"
  unfolding thread_ids_def by (intro sorted_wrt_filter) simp

lemma fold_push_thread_event:
  "n \<le> length evs \<Longrightarrow>
     (\<forall>t<length (fold (push_thread_event evs) [0..<n] []).
        fold (push_thread_event evs) [0..<n] [] ! t = filter (\<lambda>i. thread (evs ! i) = t) [0..<n])
     \<and> (\<forall>i<n. thread (evs ! i) < length (fold (push_thread_event evs) [0..<n] []))"
proof (induction n)
  case (Suc n)
  let ?bt = "fold (push_thread_event evs) [0..<n] []" and ?t = "thread (evs ! n)"
  from Suc have IH: "\<forall>t<length ?bt. ?bt ! t = filter (\<lambda>i. thread (evs ! i) = t) [0..<n]"
    "\<forall>i<n. thread (evs ! i) < length ?bt" by auto
  have out: "filter (\<lambda>i. thread (evs ! i) = t) [0..<n] = []" if "\<not> t < length ?bt" for t
    using IH(2) that by (auto simp: filter_empty_conv)
  have step: "fold (push_thread_event evs) [0..<Suc n] [] = (grow_to ?t [] ?bt)[?t := grow_to ?t [] ?bt ! ?t @ [n]]"
    by (simp add: push_thread_event_def Let_def)
  show ?case
    unfolding step using IH out by (auto simp: nth_list_update less_Suc_eq less_max_iff_disj)
qed simp

lemma by_thread_eq:
  assumes "bt = fold (push_thread_event evs) [0..<length evs] []"
  shows "t < length bt \<Longrightarrow> bt ! t = thread_ids evs t" "\<not> t < length bt \<Longrightarrow> thread_ids evs t = []"
  using fold_push_thread_event [of "length evs" evs] assms
  by (auto simp: thread_ids_def filter_empty_conv)

lemma check_increasing_ok:
  "sorted_wrt (\<lambda>a b. index (evs ! a) < index (evs ! b)) ids \<Longrightarrow> check_increasing evs ids = Inr ()"
  by (induction evs ids rule: check_increasing.induct) auto

lemma thread_ids_increasing:
  assumes "increasing_indices evs"
  shows "sorted_wrt (\<lambda>a b. index (evs ! a) < index (evs ! b)) (thread_ids evs t)"
proof (rule sorted_wrt_mono_rel [OF _ sorted_thread_ids])
  fix i j assume "i \<in> set (thread_ids evs t)" "j \<in> set (thread_ids evs t)" "i < j"
  with assms show "index (evs ! i) < index (evs ! j)"
    unfolding increasing_indices_def set_thread_ids by auto
qed

lemma derive_thread_event_sequences_eq:
  assumes "increasing_indices (events g)"
  shows "derive_thread_event_sequences g =
    Inr (filter (\<lambda>ids. ids \<noteq> []) (fold (push_thread_event (events g)) [0..<length (events g)] []))"
proof -
  define bt where "bt = fold (push_thread_event (events g)) [0..<length (events g)] []"
  let ?f = "\<lambda>ids seqs. if ids = [] then Inr seqs
    else bind_result (check_increasing (events g) ids) (\<lambda>_. Inr (seqs @ [ids]))"
  have "\<forall>ids\<in>set bt. check_increasing (events g) ids = Inr ()"
  proof
    fix ids assume "ids \<in> set bt"
    then obtain t where "t < length bt" "ids = bt ! t" by (auto simp: in_set_conv_nth)
    with by_thread_eq(1) [OF bt_def] show "check_increasing (events g) ids = Inr ()"
      using check_increasing_ok [OF thread_ids_increasing [OF assms]] by simp
  qed
  moreover have "\<forall>ids\<in>set ids_list. check_increasing (events g) ids = Inr () \<Longrightarrow>
      fold_result ?f ids_list acc = Inr (acc @ filter (\<lambda>ids. ids \<noteq> []) ids_list)" for ids_list acc
    by (induction ids_list arbitrary: acc) auto
  ultimately show ?thesis by (simp add: derive_thread_event_sequences_def bt_def)
qed

text \<open>Positions in strictly increasing sequences are the order of the elements.\<close>

lemma po_edges_of_sorted:
  assumes "\<forall>ids\<in>set tes. sorted_wrt (<) ids"
  shows "po_edges_of tes = {(a, b). a < b \<and> (\<exists>ids\<in>set tes. a \<in> set ids \<and> b \<in> set ids)}" (is "?L = ?R")
proof (intro set_eqI iffI; clarify)
  fix a b assume "(a, b) \<in> ?L"
  then obtain t p q where t: "t < length tes" "p < q" "q < length (tes ! t)"
    "a = tes ! t ! p" "b = tes ! t ! q" by (auto simp: po_edges_of_def)
  moreover from assms t have "sorted_wrt (<) (tes ! t)" by simp
  ultimately show "a < b \<and> (\<exists>ids\<in>set tes. a \<in> set ids \<and> b \<in> set ids)"
    by (auto simp: sorted_wrt_iff_nth_less intro!: bexI [of _ "tes ! t"])
next
  fix a b ids assume "a < b" "ids \<in> set tes" "a \<in> set ids" "b \<in> set ids"
  then obtain t p q where t: "t < length tes" "p < length (tes ! t)" "q < length (tes ! t)"
    "a = tes ! t ! p" "b = tes ! t ! q" "tes ! t = ids" by (metis in_set_conv_nth)
  moreover from assms \<open>ids \<in> set tes\<close> have "sorted_wrt (<) ids" by blast
  ultimately have "p < q" using \<open>a < b\<close>
    by (metis linorder_cases order_less_asym sorted_wrt_iff_nth_less)
  with t show "(a, b) \<in> ?L" by (auto simp: po_edges_of_def)
qed

lemma distinct_concat_thread_ids: "distinct (concat (map (thread_ids evs) [0..<n]))"
proof (induction n)
  case (Suc n)
  have "distinct (thread_ids evs n)" using sorted_thread_ids [of evs n] by (simp add: strict_sorted_iff)
  with Suc show ?case by (auto simp: set_thread_ids)
qed simp

lemma concat_filter_nonempty: "concat (filter (\<lambda>ids. ids \<noteq> []) tes) = concat tes"
  by (induction tes) auto

lemma po_relation_wf:
  assumes "wf_eg g"
  shows "\<exists>r. po_relation g = Inr r \<and> wf_po r \<and> po_nodes r = length (events g) \<and> po_edges r = po_of (events g)"
proof -
  define bt where "bt = fold (push_thread_event (events g)) [0..<length (events g)] []"
  let ?tes = "filter (\<lambda>ids. ids \<noteq> []) bt"
  have bt: "bt = map (thread_ids (events g)) [0..<length bt]"
    using by_thread_eq(1) [OF bt_def] by (intro nth_equalityI) auto
  have dist: "distinct (concat ?tes)"
    by (subst bt) (simp only: concat_filter_nonempty distinct_concat_thread_ids)
  have "\<forall>e\<in>set (concat ?tes). e < length (events g)"
    unfolding concat_filter_nonempty by (subst bt) (auto simp: set_thread_ids)
  with dist program_order_relation_correct(1) [of "length (events g)" ?tes] obtain r where
    r: "program_order_relation (length (events g)) ?tes = Inr r" by blast
  note rf = program_order_relation_correct(2) [OF r]
  have "derive_thread_event_sequences g = Inr ?tes"
    using derive_thread_event_sequences_eq [OF wf_egD(1) [OF assms]] by (simp add: bt_def)
  with r have "po_relation g = Inr r" by (simp add: po_relation_def)
  moreover have "po_edges r = po_of (events g)"
  proof -
    have ids: "ids \<in> set ?tes \<longleftrightarrow> (\<exists>t. ids = thread_ids (events g) t \<and> ids \<noteq> [])" for ids
      using by_thread_eq [OF bt_def] by (auto simp: in_set_conv_nth)
    then have "\<forall>ids\<in>set ?tes. sorted_wrt (<) ids" using sorted_thread_ids by metis
    then have "po_edges_of ?tes =
        {(a, b). a < b \<and> (\<exists>ids\<in>set ?tes. a \<in> set ids \<and> b \<in> set ids)}"
      by (rule po_edges_of_sorted)
    also have "\<dots> = {(a, b). a < b \<and> (\<exists>t. a \<in> set (thread_ids (events g) t) \<and> b \<in> set (thread_ids (events g) t))}"
      by (force simp: Bex_def ids simp del: set_filter)
    also have "\<dots> = po_of (events g)"
      unfolding po_of_def by (auto simp: set_thread_ids)
    finally show ?thesis using rf by (simp add: po_edges_def)
  qed
  ultimately show ?thesis using rf by blast
qed

section \<open>Reads-from edges\<close>

definition rf_valid :: "'v event list \<Rightarrow> (EventId \<rightharpoonup> ReadsFromSource) \<Rightarrow> bool" where
  "rf_valid evs m \<longleftrightarrow> (\<forall>r s. m r = Some s \<longrightarrow> r < length evs \<and> is_receive (evs ! r)
     \<and> (\<forall>x. s = from_send x \<longrightarrow> x < length evs \<and> is_send (evs ! x)))"

definition rf_of :: "(EventId \<rightharpoonup> ReadsFromSource) \<Rightarrow> (EventId \<times> EventId) set" where
  "rf_of m = {(s, r). m r = Some (from_send s)}"

definition entry_ok :: "'v event list \<Rightarrow> EventId \<times> ReadsFromSource \<Rightarrow> bool" where
  "entry_ok evs rs \<longleftrightarrow> fst rs < length evs \<and> is_receive (evs ! fst rs)
     \<and> (\<forall>x. snd rs = from_send x \<longrightarrow> x < length evs \<and> is_send (evs ! x))"

lemma rf_valid_entries:
  "rf_valid (events g) (rf_find (reads_from g)) \<longleftrightarrow> (\<forall>rs\<in>set (rf_entries (reads_from g)). entry_ok (events g) rs)"
  by (auto simp: rf_valid_def entry_ok_def set_rf_entries)

lemma validate_rf_entry_eq:
  "entry_ok (events g) rs \<Longrightarrow> validate_rf_entry g rs =
     Inr (case snd rs of bottom \<Rightarrow> None | from_send s \<Rightarrow> Some (s, fst rs))"
  "\<not> entry_ok (events g) rs \<Longrightarrow> \<exists>m. validate_rf_entry g rs = Inl (precondition_error m)"
  by (auto simp: entry_ok_def validate_rf_entry_def is_valid_event_id_def split: ReadsFromSource.splits)

lemma rf_relation_fold:
  assumes "\<forall>rs\<in>set es. entry_ok (events g) rs" "wf_explicit r" "explicit_node_count r = length (events g)"
  shows "\<exists>r'. fold_result (\<lambda>entry s. bind_result (validate_rf_entry g entry) (\<lambda>edge.
         case edge of None \<Rightarrow> Inr s | Some (source, receive) \<Rightarrow> add_edge source receive s)) es r = Inr r'
    \<and> wf_explicit r' \<and> explicit_node_count r' = length (events g)
    \<and> explicit_edges r' = explicit_edges r \<union> {(s, x). (x, from_send s) \<in> set es}"
  using assms
proof (induction es arbitrary: r)
  case (Cons e es)
  obtain x src where e: "e = (x, src)" by force
  show ?case
  proof (cases src)
    case (from_send s)
    with Cons.prems e have "x < length (events g)" "s < length (events g)" by (auto simp: entry_ok_def)
    with add_edge_correct [of r s x] Cons.prems obtain r1 where
      r1: "add_edge s x r = Inr r1" "wf_explicit r1" "explicit_node_count r1 = length (events g)"
        "explicit_edges r1 = insert (s, x) (explicit_edges r)" by auto
    with Cons.IH [of r1] Cons.prems from_send e show ?thesis
      by (auto simp: validate_rf_entry_eq(1))
  next
    case bottom
    with Cons e show ?thesis by (auto simp: validate_rf_entry_eq(1))
  qed
qed simp

lemma rf_relation_correct:
  assumes "rf_valid (events g) (rf_find (reads_from g))"
  shows "\<exists>r. rf_relation g = Inr r \<and> wf_explicit r \<and> explicit_node_count r = length (events g)
    \<and> explicit_edges r = rf_of (rf_find (reads_from g))"
  using rf_relation_fold [of "rf_entries (reads_from g)" g "explicit_relation (length (events g))"] assms
  by (auto simp: rf_valid_entries rf_relation_def for_each_validated_rf_edge_def rf_of_def set_rf_entries)

section \<open>Undoing the last insertion\<close>

lemma rollback_last_event_wf:
  assumes wf: "wf_eg g" and t: "t \<le> kMaxThreadId" and add: "eg_add_event t l g = Inr (i, g')"
  shows "\<exists>g''. rollback_last_event i t (index (last (events g'))) (nth_or 0 (next_event_index_by_thread g) t) g' = Inr g''
    \<and> events g'' = events g \<and> reads_from g'' = reads_from g
    \<and> (\<forall>u. nth_or 0 (next_event_index_by_thread g'') u = nth_or 0 (next_event_index_by_thread g) u) \<and> wf_eg g''"
proof -
  from add obtain g1 j where g1: "next_event_index t g = Inr (j, g1)"
    "(i, g') = append_event_unchecked t j l g1" by (auto simp: eg_add_event_def)
  obtain g0 where g0: "ensure_thread_storage t g = Inr g0" "wf_eg g0" "t < length (next_event_index_by_thread g0)"
    "events g0 = events g" "reads_from g0 = reads_from g"
    "\<forall>u. nth_or 0 (next_event_index_by_thread g0) u = nth_or 0 (next_event_index_by_thread g) u"
    using ensure_thread_storage_wf [OF wf t] by blast
  let ?nx = "nth_or 0 (next_event_index_by_thread g) t" and ?u = "used_event_indices_by_thread g0 ! t"
  have nx: "next_event_index_by_thread g0 ! t = ?nx" using g0(3,6) by (metis nth_or_simps(1))
  have "max_index \<notin> thread_indices (events g) t"
    using next_event_index_wf [OF wf t] g1(1) by (auto split: if_splits)
  with next_event_index_wf [OF wf t] g1(1) have j: "j = ?nx" "?nx \<notin> thread_indices (events g) t" by auto
  have nx': "(next_event_index_by_thread g0)[t := ?nx] = next_event_index_by_thread g0"
    using nx by (metis list_update_id)
  have g1': "g1 = g0" using g1(1) g0(1) j nx' by (auto simp: nx next_event_index_def)
  have u: "wf_index_set ?u" "?nx \<notin> used_indices ?u" "t < length (used_event_indices_by_thread g0)"
    "used_indices ?u = thread_indices (events g) t"
    using wf_egD(5) [OF g0(2,3)] j(2) g0(3,4) wf_egD(4) [OF g0(2)] by (auto simp: storage_ok_def)
  note er = used.erase_insert [OF u(1,2)]
  obtain u' where u': "used_erase ?nx (used_insert ?nx ?u) = (1, u')" using er(3) by (metis prod.collapse)
  let ?g = "g0\<lparr>used_event_indices_by_thread := (used_event_indices_by_thread g0)[t := u']\<rparr>"
  have "rollback_last_event i t (index (last (events g'))) ?nx g' = Inr ?g"
    using g1(2) g0(3) u(3) u' nx'
    by (simp add: g1' j g0(4) [symmetric] append_event_unchecked_def Let_def rollback_last_event_def)
  moreover have "wf_eg ?g"
    using g0(2,3) er(1,2) u u' by (auto simp: wf_eg_def nth_list_update storage_ok_def)
  ultimately show ?thesis using g0(4-6) by auto
qed

lemma rollback_reads_from_undo:
  assumes "wf_eg g"
  shows "rf_find (reads_from (rollback_reads_from r (rf_find (reads_from g) r) (eg_set_reads_from_source r s g)))
    = rf_find (reads_from g)"
  using reads_from_map.undo_set [OF wf_egD(2) [OF assms], of r s]
  by (auto simp: rollback_reads_from_def eg_set_reads_from_source_def split: option.splits)

end
