(* ===== verification/Exploration_Graph.thy ===== *)
theory Exploration_Graph
  imports Execution_Graph
begin

text \<open>
  \<^verbatim>\<open>ExplorationGraphT\<close> of \<^verbatim>\<open>include/dpor/model/exploration_graph.hpp\<close>: an execution graph with the
  caches the search maintains incrementally (per-thread event lists, receive lists, send reader
  counts, the unread mask), the acyclicity flag with its fresh-receive fast path, and the undo
  logs. This theory holds the state and every operation that changes it; the causal-order cache is
  filled in theory \<open>Porf\<close>, the invariants are in \<open>Exploration_Invariant\<close> and the undo logs in
  \<open>Rollback\<close>. The sentinel \<^verbatim>\<open>kNoSource\<close> is \<open>None\<close>; assertions that are compiled out of release
  builds are not part of the model.
\<close>

record ThreadState =
  event_count :: nat
  ts_last_event_id :: "EventId option"

definition initial_thread_state :: ThreadState where
  "initial_thread_state = \<lparr>event_count = 0, ts_last_event_id = None\<rparr>"

record PorfCache =
  clocks :: "nat list"
  pc_position_in_thread :: "nat list"
  thread_clock_index :: "nat option list"
  num_threads :: nat
  has_cycle :: bool

record EventUndo =
  undo_event_id :: EventId
  undo_thread :: ThreadId
  undo_event_index :: EventIndex
  previous_thread_state :: ThreadState
  previous_next_event_index :: EventIndex

record ReadsFromUndo =
  undo_receive_id :: EventId
  previous_source :: "ReadsFromSource option"

record 'v ExplorationGraph =
  graph :: "'v ExecutionGraph"
  thread_state :: "ThreadState list"
  thread_event_ids :: "EventId list list"
  receive_event_ids_by_thread :: "EventId list list"
  send_event_ids :: "EventId list"
  send_reader_counts :: "nat list"
  unread_send_mask :: "bool list"
  known_acyclic :: bool
  pending_fresh_receive_id :: "EventId option"
  porf_cache :: "PorfCache option"
  event_undo_log :: "EventUndo list"
  rf_undo_log :: "ReadsFromUndo list"

definition empty_xg :: "'v ExplorationGraph" where
  "empty_xg = \<lparr>graph = empty_eg, thread_state = [], thread_event_ids = [],
     receive_event_ids_by_thread = [], send_event_ids = [], send_reader_counts = [],
     unread_send_mask = [], known_acyclic = True, pending_fresh_receive_id = None,
     porf_cache = None, event_undo_log = [], rf_undo_log = []\<rparr>"

abbreviation xg_events :: "'v ExplorationGraph \<Rightarrow> 'v event list" where
  "xg_events x \<equiv> events (graph x)"

abbreviation xg_rf :: "'v ExplorationGraph \<Rightarrow> EventId \<rightharpoonup> ReadsFromSource" where
  "xg_rf x \<equiv> rf_find (reads_from (graph x))"

text \<open>Copying a graph drops the undo logs.\<close>

definition clear_worker_local_history :: "'v ExplorationGraph \<Rightarrow> 'v ExplorationGraph" where
  "clear_worker_local_history x = x\<lparr>event_undo_log := [], rf_undo_log := []\<rparr>"

definition copy_graph :: "'v ExplorationGraph \<Rightarrow> 'v ExplorationGraph" where
  "copy_graph x = clear_worker_local_history x"

definition xg_event :: "'v ExplorationGraph \<Rightarrow> EventId \<Rightarrow> 'v event result" where
  "xg_event x i = eg_event (graph x) i"

definition xg_event_count :: "'v ExplorationGraph \<Rightarrow> nat" where
  "xg_event_count x = length (xg_events x)"

definition insertion_order :: "'v ExplorationGraph \<Rightarrow> EventId list" where
  "insertion_order x = [0..<xg_event_count x]"

definition inserted_before_or_equal :: "'v ExplorationGraph \<Rightarrow> EventId \<Rightarrow> EventId \<Rightarrow> bool result" where
  "inserted_before_or_equal x a b =
     (if a \<ge> xg_event_count x \<or> b \<ge> xg_event_count x
      then Inl (precondition_error ''event id not found in insertion order'')
      else Inr (a \<le> b))"

section \<open>Acyclicity flag\<close>

definition mark_known_acyclic :: "'v ExplorationGraph \<Rightarrow> 'v ExplorationGraph" where
  "mark_known_acyclic x = x\<lparr>known_acyclic := True, pending_fresh_receive_id := None\<rparr>"

definition invalidate_known_acyclicity :: "'v ExplorationGraph \<Rightarrow> 'v ExplorationGraph" where
  "invalidate_known_acyclicity x = x\<lparr>known_acyclic := False, pending_fresh_receive_id := None\<rparr>"

definition update_acyclicity_after_add_event :: "EventId \<Rightarrow> 'v ExplorationGraph \<Rightarrow> 'v ExplorationGraph" where
  "update_acyclicity_after_add_event i x =
     x\<lparr>pending_fresh_receive_id :=
         (if known_acyclic x \<and> is_receive (xg_events x ! i) then Some i else None)\<rparr>"

definition update_acyclicity_after_rf_assignment ::
    "EventId \<Rightarrow> ReadsFromSource \<Rightarrow> 'v ExplorationGraph \<Rightarrow> 'v ExplorationGraph" where
  "update_acyclicity_after_rf_assignment r s x =
     (if \<not> known_acyclic x \<or> pending_fresh_receive_id x = None \<or> pending_fresh_receive_id x \<noteq> Some r
         \<or> \<not> is_valid_event_id (graph x) r \<or> \<not> is_receive (xg_events x ! r)
      then invalidate_known_acyclicity x
      else case s of
        bottom \<Rightarrow> x\<lparr>pending_fresh_receive_id := None\<rparr>
      | from_send i \<Rightarrow>
          if \<not> is_valid_event_id (graph x) i \<or> \<not> is_send (xg_events x ! i)
          then invalidate_known_acyclicity x
          else x\<lparr>pending_fresh_receive_id := None\<rparr>)"

section \<open>Insertion\<close>

text \<open>The cache updates that follow an append, shared by the two insertion paths.\<close>

definition record_event_kind :: "EventId \<Rightarrow> ThreadId \<Rightarrow> 'v ExplorationGraph \<Rightarrow> 'v ExplorationGraph" where
  "record_event_kind i t x =
     (let e = xg_events x ! i;
          x1 = x\<lparr>send_reader_counts := resize (i + 1) 0 (send_reader_counts x),
                 unread_send_mask := resize (i + 1) False (unread_send_mask x)\<rparr>;
          x2 = (if is_receive e
                then x1\<lparr>receive_event_ids_by_thread :=
                       (receive_event_ids_by_thread x1)[t := receive_event_ids_by_thread x1 ! t @ [i]]\<rparr>
                else x1);
          x3 = (if is_send e
                then x2\<lparr>send_event_ids := send_event_ids x2 @ [i],
                        unread_send_mask := (unread_send_mask x2)[i := True]\<rparr>
                else x2)
      in update_acyclicity_after_add_event i x3)"

definition bump_thread_state :: "EventId \<Rightarrow> ThreadState \<Rightarrow> ThreadState" where
  "bump_thread_state i ts = ts\<lparr>event_count := event_count ts + 1, ts_last_event_id := Some i\<rparr>"

definition add_event ::
    "ThreadId \<Rightarrow> 'v EventLabel \<Rightarrow> 'v ExplorationGraph \<Rightarrow> (EventId \<times> 'v ExplorationGraph) result" where
  "add_event t l x =
     (let prev_ts = (if t < length (thread_state x) then thread_state x ! t else initial_thread_state);
          prev_next = (if t < length (next_event_index_by_thread (graph x))
                       then next_event_index_by_thread (graph x) ! t else 0)
      in bind_result (eg_add_event t l (graph x)) (\<lambda>(i, g).
           let x1 = x\<lparr>graph := g, porf_cache := None,
                      event_undo_log := event_undo_log x @
                        [\<lparr>undo_event_id = i, undo_thread = t, undo_event_index = index (events g ! i),
                          previous_thread_state = prev_ts, previous_next_event_index = prev_next\<rparr>]\<rparr>;
               tss = grow_to t initial_thread_state (thread_state x1);
               tes = grow_to t [] (thread_event_ids x1);
               x2 = x1\<lparr>thread_state := tss[t := bump_thread_state i (tss ! t)],
                       thread_event_ids := tes[t := tes ! t @ [i]],
                       receive_event_ids_by_thread := grow_to t [] (receive_event_ids_by_thread x1)\<rparr>
           in Inr (i, record_event_kind i t x2)))"

definition reserve_for_bulk_build :: "nat \<Rightarrow> 'v ExplorationGraph \<Rightarrow> 'v ExplorationGraph" where
  "reserve_for_bulk_build thread_capacity x =
     x\<lparr>thread_state := resize thread_capacity initial_thread_state (thread_state x),
       thread_event_ids := resize thread_capacity [] (thread_event_ids x),
       receive_event_ids_by_thread := resize thread_capacity [] (receive_event_ids_by_thread x)\<rparr>"

definition append_event_for_bulk_build ::
    "ThreadId \<Rightarrow> 'v EventLabel \<Rightarrow> 'v ExplorationGraph \<Rightarrow> 'v ExplorationGraph result" where
  "append_event_for_bulk_build t l x =
     bind_result (eg_add_event t l (graph x)) (\<lambda>(i, g).
       let x1 = x\<lparr>graph := g\<rparr>;
           x2 = (if t \<ge> length (thread_state x1)
                 then x1\<lparr>thread_state := resize (t + 1) initial_thread_state (thread_state x1),
                         thread_event_ids := resize (t + 1) [] (thread_event_ids x1),
                         receive_event_ids_by_thread := resize (t + 1) [] (receive_event_ids_by_thread x1)\<rparr>
                 else x1);
           x3 = x2\<lparr>thread_state := (thread_state x2)[t := bump_thread_state i (thread_state x2 ! t)],
                   thread_event_ids := (thread_event_ids x2)[t := thread_event_ids x2 ! t @ [i]]\<rparr>
       in Inr (record_event_kind i t x3))"

section \<open>Reads-from assignment\<close>

definition current_reads_from_source :: "'v ExplorationGraph \<Rightarrow> EventId \<Rightarrow> ReadsFromSource option" where
  "current_reads_from_source x r = rf_find (reads_from (graph x)) r"

text \<open>The reader count of a send changes by one, up (\<open>True\<close>) or down (\<open>False\<close>).\<close>

definition adjust_send_reader_count ::
    "ReadsFromSource option \<Rightarrow> bool \<Rightarrow> 'v ExplorationGraph \<Rightarrow> 'v ExplorationGraph result" where
  "adjust_send_reader_count source up x =
     (case source of
        Some (from_send i) \<Rightarrow>
          if \<not> is_valid_event_id (graph x) i \<or> \<not> is_send (xg_events x ! i)
             \<or> i \<ge> length (send_reader_counts x) \<or> i \<ge> length (unread_send_mask x)
          then Inr x
          else if \<not> up \<and> send_reader_counts x ! i < 1
          then Inl (internal_error ''send reader count underflow'')
          else let c = (if up then send_reader_counts x ! i + 1 else send_reader_counts x ! i - 1)
               in Inr (x\<lparr>send_reader_counts := (send_reader_counts x)[i := c],
                         unread_send_mask := (unread_send_mask x)[i := (c = 0)]\<rparr>)
      | _ \<Rightarrow> Inr x)"

definition update_send_reader_state ::
    "ReadsFromSource option \<Rightarrow> ReadsFromSource option \<Rightarrow> 'v ExplorationGraph \<Rightarrow> 'v ExplorationGraph result"
where
  "update_send_reader_state previous nxt x =
     bind_result (adjust_send_reader_count previous False x) (adjust_send_reader_count nxt True)"

definition set_reads_from_source ::
    "EventId \<Rightarrow> ReadsFromSource \<Rightarrow> 'v ExplorationGraph \<Rightarrow> 'v ExplorationGraph result" where
  "set_reads_from_source r s x =
     (let previous = current_reads_from_source x r;
          x1 = x\<lparr>graph := eg_set_reads_from_source r s (graph x),
                 rf_undo_log := rf_undo_log x @ [\<lparr>undo_receive_id = r, previous_source = previous\<rparr>],
                 porf_cache := None\<rparr>
      in map_result (update_acyclicity_after_rf_assignment r s)
           (update_send_reader_state previous (Some s) x1))"

definition set_reads_from :: "EventId \<Rightarrow> EventId \<Rightarrow> 'v ExplorationGraph \<Rightarrow> 'v ExplorationGraph result" where
  "set_reads_from r i = set_reads_from_source r (from_send i)"

definition set_reads_from_bottom :: "EventId \<Rightarrow> 'v ExplorationGraph \<Rightarrow> 'v ExplorationGraph result" where
  "set_reads_from_bottom r = set_reads_from_source r bottom"

definition copy_with_rf_source ::
    "EventId \<Rightarrow> ReadsFromSource \<Rightarrow> bool \<Rightarrow> 'v ExplorationGraph \<Rightarrow> 'v ExplorationGraph result" where
  "copy_with_rf_source r s preserve x =
     map_result
       (\<lambda>y. clear_worker_local_history
              (if preserve then mark_known_acyclic y else invalidate_known_acyclicity y))
       (set_reads_from_source r s (copy_graph x))"

definition is_receive_id :: "'v ExplorationGraph \<Rightarrow> EventId \<Rightarrow> bool" where
  "is_receive_id x r \<longleftrightarrow> is_valid_event_id (graph x) r \<and> is_receive (xg_events x ! r)"

definition is_send_id :: "'v ExplorationGraph \<Rightarrow> EventId \<Rightarrow> bool" where
  "is_send_id x i \<longleftrightarrow> is_valid_event_id (graph x) i \<and> is_send (xg_events x ! i)"

definition with_rf :: "EventId \<Rightarrow> EventId \<Rightarrow> 'v ExplorationGraph \<Rightarrow> 'v ExplorationGraph result" where
  "with_rf r i x = copy_with_rf_source r (from_send i) False x"

definition with_rf_preserving_known_acyclicity ::
    "EventId \<Rightarrow> EventId \<Rightarrow> 'v ExplorationGraph \<Rightarrow> 'v ExplorationGraph result" where
  "with_rf_preserving_known_acyclicity r i x =
     copy_with_rf_source r (from_send i) (known_acyclic x \<and> is_receive_id x r \<and> is_send_id x i) x"

definition with_rf_source ::
    "EventId \<Rightarrow> ReadsFromSource \<Rightarrow> 'v ExplorationGraph \<Rightarrow> 'v ExplorationGraph result" where
  "with_rf_source r s x = copy_with_rf_source r s False x"

definition with_bottom_rf :: "EventId \<Rightarrow> 'v ExplorationGraph \<Rightarrow> 'v ExplorationGraph result" where
  "with_bottom_rf r x = copy_with_rf_source r bottom (known_acyclic x \<and> is_receive_id x r) x"

definition rebind_rf :: "EventId \<Rightarrow> EventId \<Rightarrow> bool \<Rightarrow> 'v ExplorationGraph \<Rightarrow> 'v ExplorationGraph result" where
  "rebind_rf r i preserve x =
     (if event_undo_log x \<noteq> [] \<or> rf_undo_log x \<noteq> []
      then Inl (precondition_error
                  ''rebind_rf_preserving_known_acyclicity requires clean rollback history'')
      else let previous = current_reads_from_source x r;
               x1 = x\<lparr>graph := eg_set_reads_from_source r (from_send i) (graph x)\<rparr>
           in map_result
                (\<lambda>y. let z = y\<lparr>porf_cache := None\<rparr>
                     in if preserve then mark_known_acyclic z else invalidate_known_acyclicity z)
                (update_send_reader_state previous (Some (from_send i)) x1))"

definition rebind_rf_preserving_known_acyclicity ::
    "EventId \<Rightarrow> EventId \<Rightarrow> 'v ExplorationGraph \<Rightarrow> 'v ExplorationGraph result" where
  "rebind_rf_preserving_known_acyclicity r i x =
     rebind_rf r i (known_acyclic x \<and> is_receive_id x r \<and> is_send_id x i) x"

definition with_nd_value :: "EventId \<Rightarrow> 'v \<Rightarrow> 'v ExplorationGraph \<Rightarrow> 'v ExplorationGraph result" where
  "with_nd_value i v x =
     (if \<not> is_valid_event_id (graph x) i
      then Inl (precondition_error ''event id not found in exploration graph'')
      else let y = copy_graph x; e = xg_events y ! i
           in case label e of
                NondeterministicChoice nd \<Rightarrow>
                  Inr (y\<lparr>graph := (graph y)\<lparr>events := (events (graph y))
                         [i := e\<lparr>label := NondeterministicChoice (nd\<lparr>nd_value := v\<rparr>)\<rparr>]\<rparr>\<rparr>)
              | _ \<Rightarrow> Inl (precondition_error ''event is not a nondeterministic choice''))"

section \<open>Queries\<close>

text \<open>The unread sends in the order of the send list.\<close>

definition unread_send_event_ids :: "'v ExplorationGraph \<Rightarrow> EventId list" where
  "unread_send_event_ids x = filter (\<lambda>i. nth_or False (unread_send_mask x) i) (send_event_ids x)"

fun any_result :: "('a \<Rightarrow> bool result) \<Rightarrow> 'a list \<Rightarrow> bool result" where
  "any_result p [] = Inr False"
| "any_result p (a # as) = bind_result (p a) (\<lambda>b. if b then Inr True else any_result p as)"

definition any_unread_send :: "'v ExplorationGraph \<Rightarrow> (EventId \<Rightarrow> bool result) \<Rightarrow> bool result" where
  "any_unread_send x p = any_result p (unread_send_event_ids x)"

definition thread_event_count :: "'v ExplorationGraph \<Rightarrow> ThreadId \<Rightarrow> nat" where
  "thread_event_count x t =
     (if t \<ge> length (thread_state x) then 0 else event_count (thread_state x ! t))"

definition last_event_id :: "'v ExplorationGraph \<Rightarrow> ThreadId \<Rightarrow> EventId option" where
  "last_event_id x t =
     (if t \<ge> length (thread_state x) \<or> event_count (thread_state x ! t) = 0 then None
      else ts_last_event_id (thread_state x ! t))"

text \<open>An event looked up through a stored id; the sentinel is not a valid id.\<close>

definition event_of_id :: "'v ExplorationGraph \<Rightarrow> EventId option \<Rightarrow> 'v event result" where
  "event_of_id x i =
     (case i of
        None \<Rightarrow> Inl (precondition_error ''event id not found in execution graph'')
      | Some k \<Rightarrow> xg_event x k)"

definition thread_is_terminated :: "'v ExplorationGraph \<Rightarrow> ThreadId \<Rightarrow> bool result" where
  "thread_is_terminated x t =
     (if t \<ge> length (thread_state x) \<or> event_count (thread_state x ! t) = 0 then Inr False
      else map_result (\<lambda>e. is_block e \<or> is_error e) (event_of_id x (ts_last_event_id (thread_state x ! t))))"

definition has_blocked_thread :: "'v ExplorationGraph \<Rightarrow> bool result" where
  "has_blocked_thread x =
     any_result (\<lambda>ts. if event_count ts = 0 then Inr False
                      else map_result is_block (event_of_id x (ts_last_event_id ts)))
       (thread_state x)"

definition receives_in_destination :: "'v ExplorationGraph \<Rightarrow> EventId \<Rightarrow> EventId list result" where
  "receives_in_destination x i =
     bind_result (xg_event x i) (\<lambda>e.
       case as_send e of
         None \<Rightarrow> Inl (precondition_error ''event is not a send'')
       | Some s \<Rightarrow> Inr (nth_or [] (receive_event_ids_by_thread x) (destination s)))"

text \<open>The trace of a thread, written over a reused buffer.\<close>

definition emit_trace :: "'a \<Rightarrow> 'a list \<times> nat \<Rightarrow> 'a list \<times> nat" where
  "emit_trace v s =
     (case s of (trace, written) \<Rightarrow>
        (if written < length trace
         then (if trace ! written = v then trace else trace[written := v])
         else trace @ [v], written + 1))"

definition trace_step ::
    "'v ExplorationGraph \<Rightarrow> EventId \<Rightarrow> 'v ObservedValue list \<times> nat \<Rightarrow> ('v ObservedValue list \<times> nat) result"
where
  "trace_step x i s =
     bind_result (xg_event x i) (\<lambda>e.
       if as_receive e \<noteq> None
       then (case rf_find (reads_from (graph x)) i of
               None \<Rightarrow> Inr s
             | Some bottom \<Rightarrow> Inr (emit_trace BottomValue s)
             | Some (from_send k) \<Rightarrow>
                 bind_result (xg_event x k) (\<lambda>se.
                   case as_send se of
                     Some send \<Rightarrow> Inr (emit_trace (Observed (send_value send)) s)
                   | None \<Rightarrow> Inr s))
       else case as_nondeterministic_choice e of
               Some nd \<Rightarrow> Inr (emit_trace (Observed (nd_value nd)) s)
             | None \<Rightarrow> Inr s)"

definition thread_trace_into ::
    "ThreadId \<Rightarrow> 'v ObservedValue list \<Rightarrow> 'v ExplorationGraph \<Rightarrow> 'v ObservedValue list result" where
  "thread_trace_into t buffer x =
     map_result (\<lambda>(trace, written). resize written BottomValue trace)
       (fold_result (trace_step x) (nth_or [] (thread_event_ids x) t) (buffer, 0))"

definition thread_trace :: "ThreadId \<Rightarrow> 'v ExplorationGraph \<Rightarrow> 'v ObservedValue list result" where
  "thread_trace t x = thread_trace_into t [] x"

section \<open>Restriction\<close>

text \<open>The kept ids and the map from old to new ids.\<close>

definition id_map_step :: "bool list \<Rightarrow> EventId \<Rightarrow> EventId list \<times> EventId option list \<Rightarrow>
    EventId list \<times> EventId option list" where
  "id_map_step keep_mask i s =
     (case s of (kept, id_map) \<Rightarrow>
        if keep_mask ! i then (kept @ [i], id_map[i := Some (length kept)]) else (kept, id_map))"

definition remap_rf_entry ::
    "EventId option list \<Rightarrow> EventId \<times> ReadsFromSource \<Rightarrow> 'v ExplorationGraph \<Rightarrow> 'v ExplorationGraph result"
where
  "remap_rf_entry id_map rs x =
     (case id_map ! fst rs of
        None \<Rightarrow> Inr x
      | Some r \<Rightarrow>
          (case snd rs of
             bottom \<Rightarrow> set_reads_from_bottom r x
           | from_send i \<Rightarrow>
               (case id_map ! i of None \<Rightarrow> Inr x | Some k \<Rightarrow> set_reads_from r k x)))"

definition restrict_from_keep_mask :: "bool list \<Rightarrow> 'v ExplorationGraph \<Rightarrow> 'v ExplorationGraph result" where
  "restrict_from_keep_mask keep_mask x =
     (if length keep_mask \<noteq> xg_event_count x
      then Inl (internal_error ''keep mask size must match event count'')
      else case fold (id_map_step keep_mask) [0..<xg_event_count x] ([], replicate (xg_event_count x) None) of
        (kept, id_map) \<Rightarrow>
          bind_result
            (fold_result
               (\<lambda>i y. bind_result (xg_event x i) (\<lambda>e. append_event_for_bulk_build (thread e) (label e) y))
               kept (reserve_for_bulk_build (length (thread_state x)) empty_xg)) (\<lambda>y.
          bind_result (fold_result (remap_rf_entry id_map) (rf_entries (reads_from (graph x))) y) (\<lambda>z.
            Inr (clear_worker_local_history
                   (if known_acyclic x then mark_known_acyclic z else invalidate_known_acyclicity z)))))"

definition restrict_graph :: "EventId list \<Rightarrow> 'v ExplorationGraph \<Rightarrow> 'v ExplorationGraph result" where
  "restrict_graph keep x =
     restrict_from_keep_mask
       (fold (\<lambda>i km. if i < length km then km[i := True] else km) keep
          (replicate (xg_event_count x) False)) x"

section \<open>Checkpoints\<close>

record Checkpoint =
  event_undo_size :: nat
  rf_undo_size :: nat
  cp_known_acyclic :: bool
  cp_pending_fresh_receive_id :: "EventId option"

definition checkpoint :: "'v ExplorationGraph \<Rightarrow> Checkpoint" where
  "checkpoint x = \<lparr>event_undo_size = length (event_undo_log x), rf_undo_size = length (rf_undo_log x),
     cp_known_acyclic = known_acyclic x, cp_pending_fresh_receive_id = pending_fresh_receive_id x\<rparr>"

definition undo_last_rf_assignment :: "'v ExplorationGraph \<Rightarrow> 'v ExplorationGraph result" where
  "undo_last_rf_assignment x =
     (if rf_undo_log x = [] then Inl (internal_error ''rf undo log is empty'')
      else let undo = last (rf_undo_log x);
               x1 = x\<lparr>rf_undo_log := butlast (rf_undo_log x)\<rparr>;
               current = current_reads_from_source x1 (undo_receive_id undo);
               x2 = x1\<lparr>graph := rollback_reads_from (undo_receive_id undo) (previous_source undo) (graph x1),
                       porf_cache := None\<rparr>
           in update_send_reader_state current (previous_source undo) x2)"

text \<open>The cache checks of \<^verbatim>\<open>undo_last_event_append\<close>, after the graph itself was rolled back.\<close>

definition undo_thread_caches :: "EventUndo \<Rightarrow> bool \<Rightarrow> 'v ExplorationGraph \<Rightarrow> 'v ExplorationGraph result" where
  "undo_thread_caches undo removed_receive x =
     (let t = undo_thread undo; i = undo_event_id undo
      in if t \<ge> length (thread_state x)
         then Inl (internal_error ''event undo log thread state missing'')
         else let x1 = x\<lparr>thread_state := (thread_state x)[t := previous_thread_state undo]\<rparr>
         in if t \<ge> length (thread_event_ids x1) \<or> thread_event_ids x1 ! t = []
               \<or> last (thread_event_ids x1 ! t) \<noteq> i
            then Inl (internal_error ''thread event cache does not match rolled back tail event'')
            else let x2 = x1\<lparr>thread_event_ids := (thread_event_ids x1)[t := butlast (thread_event_ids x1 ! t)]\<rparr>
            in if removed_receive
               then if t \<ge> length (receive_event_ids_by_thread x2) \<or> receive_event_ids_by_thread x2 ! t = []
                       \<or> last (receive_event_ids_by_thread x2 ! t) \<noteq> i
                    then Inl (internal_error ''receive-event cache does not match rolled back tail event'')
                    else Inr (x2\<lparr>receive_event_ids_by_thread :=
                           (receive_event_ids_by_thread x2)[t := butlast (receive_event_ids_by_thread x2 ! t)]\<rparr>)
               else Inr x2)"

definition undo_send_caches :: "EventUndo \<Rightarrow> bool \<Rightarrow> 'v ExplorationGraph \<Rightarrow> 'v ExplorationGraph result" where
  "undo_send_caches undo removed_send x =
     (if send_reader_counts x = [] \<or> unread_send_mask x = []
      then Inl (internal_error ''send caches missing for rolled back tail event'')
      else bind_result
        (if removed_send
         then if send_event_ids x = [] \<or> last (send_event_ids x) \<noteq> undo_event_id undo
              then Inl (internal_error ''send-event cache does not match rolled back tail event'')
              else if last (send_reader_counts x) \<noteq> 0
              then Inl (internal_error ''rolled back send still appears to have readers'')
              else Inr (x\<lparr>send_event_ids := butlast (send_event_ids x)\<rparr>)
         else Inr x) (\<lambda>y.
        Inr (y\<lparr>send_reader_counts := butlast (send_reader_counts y),
               unread_send_mask := butlast (unread_send_mask y), porf_cache := None\<rparr>)))"

definition undo_last_event_append :: "'v ExplorationGraph \<Rightarrow> 'v ExplorationGraph result" where
  "undo_last_event_append x =
     (if event_undo_log x = [] then Inl (internal_error ''event undo log is empty'')
      else let undo = last (event_undo_log x);
               x1 = x\<lparr>event_undo_log := butlast (event_undo_log x)\<rparr>
           in bind_result (xg_event x1 (undo_event_id undo)) (\<lambda>tail_event.
              if xg_events x1 = [] \<or> length (xg_events x1) - 1 \<noteq> undo_event_id undo
              then Inl (internal_error ''event undo log does not match insertion order tail'')
              else bind_result
                (rollback_last_event (undo_event_id undo) (undo_thread undo) (undo_event_index undo)
                   (previous_next_event_index undo) (graph x1)) (\<lambda>g.
                bind_result (undo_thread_caches undo (is_receive tail_event) (x1\<lparr>graph := g\<rparr>))
                  (undo_send_caches undo (is_send tail_event)))))"

text \<open>The two undo loops; each iteration shortens its log, so \<open>n\<close> counts the iterations left.\<close>

fun undo_n :: "('s \<Rightarrow> 's result) \<Rightarrow> nat \<Rightarrow> 's \<Rightarrow> 's result" where
  "undo_n f 0 x = Inr x"
| "undo_n f (Suc n) x = bind_result (f x) (undo_n f n)"

definition rollback :: "Checkpoint \<Rightarrow> 'v ExplorationGraph \<Rightarrow> 'v ExplorationGraph result" where
  "rollback cp x =
     (if event_undo_size cp > length (event_undo_log x) \<or> rf_undo_size cp > length (rf_undo_log x)
      then Inl (precondition_error ''checkpoint does not belong to the current graph state'')
      else bind_result (undo_n undo_last_rf_assignment (length (rf_undo_log x) - rf_undo_size cp) x) (\<lambda>y.
           bind_result (undo_n undo_last_event_append (length (event_undo_log y) - event_undo_size cp) y) (\<lambda>z.
             Inr (z\<lparr>known_acyclic := cp_known_acyclic cp,
                    pending_fresh_receive_id := cp_pending_fresh_receive_id cp,
                    porf_cache := None\<rparr>))))"

end
