(* ===== verification/Exploration_Invariant.thy ===== *)
theory Exploration_Invariant
  imports Exploration_Graph
begin

text \<open>
  What the caches of an exploration graph mean. Every cache is a function of the event list and
  the reads-from map; \<open>wf_core\<close> says that the stored caches are these functions and that indices
  are assigned densely per thread, \<open>flags_ok\<close> that the acyclicity flag and the fresh-receive marker
  are sound. Each operation is shown to succeed exactly when it should and to keep the invariant.
\<close>

section \<open>Caches as functions of events and reads-from\<close>

definition recv_ids :: "'v event list \<Rightarrow> ThreadId \<Rightarrow> EventId list" where
  "recv_ids evs t = filter (\<lambda>i. is_receive (evs ! i)) (thread_ids evs t)"

definition send_ids :: "'v event list \<Rightarrow> EventId list" where
  "send_ids evs = filter (\<lambda>i. is_send (evs ! i)) [0..<length evs]"

definition ts_of :: "'v event list \<Rightarrow> ThreadId \<Rightarrow> ThreadState" where
  "ts_of evs t = \<lparr>event_count = length (thread_ids evs t),
     ts_last_event_id = (if thread_ids evs t = [] then None else Some (last (thread_ids evs t)))\<rparr>"

definition readers :: "(EventId \<rightharpoonup> ReadsFromSource) \<Rightarrow> EventId \<Rightarrow> EventId set" where
  "readers m i = {r. m r = Some (from_send i)}"

definition reader_counts :: "'v event list \<Rightarrow> (EventId \<rightharpoonup> ReadsFromSource) \<Rightarrow> nat list" where
  "reader_counts evs m = map (\<lambda>i. card (readers m i)) [0..<length evs]"

definition unread_mask :: "'v event list \<Rightarrow> (EventId \<rightharpoonup> ReadsFromSource) \<Rightarrow> bool list" where
  "unread_mask evs m = map (\<lambda>i. is_send (evs ! i) \<and> readers m i = {}) [0..<length evs]"

definition next_of :: "'v event list \<Rightarrow> ThreadId \<Rightarrow> EventIndex" where
  "next_of evs t = word_of_nat (min (length (thread_ids evs t)) (2 ^ 32 - 1))"

definition dense_indices :: "'v event list \<Rightarrow> bool" where
  "dense_indices evs \<longleftrightarrow>
     (\<forall>i<length evs. unat (index (evs ! i)) = length (thread_ids (take i evs) (thread (evs ! i))))"

definition caches_ok :: "'v ExplorationGraph \<Rightarrow> bool" where
  "caches_ok x \<longleftrightarrow>
     length (thread_event_ids x) = length (thread_state x)
     \<and> length (receive_event_ids_by_thread x) = length (thread_state x)
     \<and> (\<forall>e\<in>set (xg_events x). thread e < length (thread_state x))
     \<and> (\<forall>t<length (thread_state x). thread_state x ! t = ts_of (xg_events x) t
          \<and> thread_event_ids x ! t = thread_ids (xg_events x) t
          \<and> receive_event_ids_by_thread x ! t = recv_ids (xg_events x) t)
     \<and> send_event_ids x = send_ids (xg_events x)
     \<and> send_reader_counts x = reader_counts (xg_events x) (xg_rf x)
     \<and> unread_send_mask x = unread_mask (xg_events x) (xg_rf x)"

definition wf_core :: "'v ExplorationGraph \<Rightarrow> bool" where
  "wf_core x \<longleftrightarrow> wf_eg (graph x) \<and> rf_valid (xg_events x) (xg_rf x) \<and> caches_ok x
     \<and> dense_indices (xg_events x)
     \<and> (\<forall>t. nth_or 0 (next_event_index_by_thread (graph x)) t = next_of (xg_events x) t)"

definition causal :: "'v event list \<Rightarrow> (EventId \<rightharpoonup> ReadsFromSource) \<Rightarrow> (EventId \<times> EventId) set" where
  "causal evs m = po_of evs \<union> rf_of m"

abbreviation porf :: "'v ExplorationGraph \<Rightarrow> (EventId \<times> EventId) set" where
  "porf x \<equiv> causal (xg_events x) (xg_rf x)"

definition flags_ok :: "'v ExplorationGraph \<Rightarrow> bool" where
  "flags_ok x \<longleftrightarrow> (known_acyclic x \<longrightarrow> acyclic (porf x))
     \<and> (\<forall>r. pending_fresh_receive_id x = Some r \<longrightarrow> known_acyclic x
          \<and> Suc r = length (xg_events x) \<and> is_receive (xg_events x ! r))"

definition wf_xg :: "'v ExplorationGraph \<Rightarrow> bool" where
  "wf_xg x \<longleftrightarrow> wf_core x \<and> flags_ok x"

lemma wf_coreD:
  assumes "wf_core x"
  shows "wf_eg (graph x)" "rf_valid (xg_events x) (xg_rf x)" "caches_ok x" "dense_indices (xg_events x)"
    "nth_or 0 (next_event_index_by_thread (graph x)) t = next_of (xg_events x) t"
  using assms by (auto simp: wf_core_def)

lemma caches_okD:
  assumes "caches_ok x"
  shows "length (thread_event_ids x) = length (thread_state x)"
    "length (receive_event_ids_by_thread x) = length (thread_state x)"
    "e \<in> set (xg_events x) \<Longrightarrow> thread e < length (thread_state x)"
    "t < length (thread_state x) \<Longrightarrow> thread_state x ! t = ts_of (xg_events x) t"
    "t < length (thread_state x) \<Longrightarrow> thread_event_ids x ! t = thread_ids (xg_events x) t"
    "t < length (thread_state x) \<Longrightarrow> receive_event_ids_by_thread x ! t = recv_ids (xg_events x) t"
    "send_event_ids x = send_ids (xg_events x)"
    "send_reader_counts x = reader_counts (xg_events x) (xg_rf x)"
    "unread_send_mask x = unread_mask (xg_events x) (xg_rf x)"
  using assms by (auto simp: caches_ok_def)

section \<open>How the caches grow\<close>

lemma thread_ids_append:
  "thread_ids (evs @ [e]) t = thread_ids evs t @ (if thread e = t then [length evs] else [])"
  by (auto simp: thread_ids_def nth_append intro!: filter_cong)

lemma recv_ids_append:
  "recv_ids (evs @ [e]) t = recv_ids evs t @ (if thread e = t \<and> is_receive e then [length evs] else [])"
proof -
  have "filter (\<lambda>i. is_receive ((evs @ [e]) ! i)) (thread_ids evs t) = recv_ids evs t"
    unfolding recv_ids_def by (intro filter_cong) (auto simp: set_thread_ids nth_append)
  then show ?thesis by (simp add: recv_ids_def thread_ids_append)
qed

lemma send_ids_append:
  "send_ids (evs @ [e]) = send_ids evs @ (if is_send e then [length evs] else [])"
  by (auto simp: send_ids_def nth_append intro!: filter_cong)

lemma thread_ids_Nil [simp]: "thread_ids [] t = []"
  by (simp add: thread_ids_def)

lemma thread_ids_empty: "(\<And>e. e \<in> set evs \<Longrightarrow> thread e \<noteq> t) \<Longrightarrow> thread_ids evs t = []"
  by (auto simp: thread_ids_def filter_empty_conv)

lemma ts_of_append: "ts_of (evs @ [e]) t =
  (if thread e = t then bump_thread_state (length evs) (ts_of evs t) else ts_of evs t)"
  by (auto simp: ts_of_def bump_thread_state_def thread_ids_append)

lemma ts_of_empty: "thread_ids evs t = [] \<Longrightarrow> ts_of evs t = initial_thread_state"
  by (simp add: ts_of_def initial_thread_state_def)

lemma readers_new: "rf_valid evs m \<Longrightarrow> readers m (length evs) = {}"
  by (auto simp: rf_valid_def readers_def)

lemma reader_counts_append: "rf_valid evs m \<Longrightarrow> reader_counts (evs @ [e]) m = reader_counts evs m @ [0]"
  by (simp add: reader_counts_def readers_new)

lemma unread_mask_append:
  "rf_valid evs m \<Longrightarrow> unread_mask (evs @ [e]) m = unread_mask evs m @ [is_send e]"
  by (auto simp: unread_mask_def readers_new nth_append)

lemma length_caches [simp]:
  "length (reader_counts evs m) = length evs" "length (unread_mask evs m) = length evs"
  by (simp_all add: reader_counts_def unread_mask_def)

lemma rf_valid_append: "rf_valid evs m \<Longrightarrow> rf_valid (evs @ evs') m"
  by (fastforce simp: rf_valid_def nth_append)

lemma dense_indices_append:
  "dense_indices (evs @ [e]) \<longleftrightarrow> dense_indices evs \<and> unat (index e) = length (thread_ids evs (thread e))"
  by (auto simp: dense_indices_def nth_append less_Suc_eq)

lemma length_thread_ids_take:
  "i < length evs \<Longrightarrow> length (thread_ids (take i evs) (thread (evs ! i))) < length (thread_ids evs (thread (evs ! i)))"
proof (induction evs rule: rev_induct)
  case (snoc e evs)
  then show ?case by (auto simp: thread_ids_append nth_append less_Suc_eq)
qed simp

lemma thread_ids_take: "n \<le> length evs \<Longrightarrow> thread_ids (take n evs) t = filter (\<lambda>j. j < n) (thread_ids evs t)"
proof -
  assume n: "n \<le> length evs"
  have upt: "filter (\<lambda>j. j < n) [0..<length evs] = [0..<n]"
    using n by (induction evs rule: rev_induct) (auto simp: le_Suc_eq filter_id_conv)
  moreover have "thread_ids (take n evs) t = filter (\<lambda>i. thread (evs ! i) = t) [0..<n]"
    using n unfolding thread_ids_def by (intro filter_cong) auto
  ultimately show ?thesis
    unfolding thread_ids_def by (simp add: filter_filter conj_commute flip: upt)
qed

lemma length_filter_less_nth:
  fixes xs :: "nat list"
  shows "sorted_wrt (<) xs \<Longrightarrow> k < length xs \<Longrightarrow> length (filter (\<lambda>j. j < xs ! k) xs) = k"
proof (induction xs arbitrary: k)
  case (Cons a xs)
  show ?case
  proof (cases k)
    case 0
    with Cons.prems show ?thesis by (auto simp: filter_empty_conv)
  next
    case (Suc m)
    with Cons show ?thesis by simp
  qed
qed simp

lemma unat_max_index: "unat max_index = 2 ^ 32 - 1"
  by (simp add: max_index_def unsigned_minus_1_eq_mask mask_eq_exp_minus_1)

lemma max_index_unused:
  assumes "dense_indices evs" "length (thread_ids evs t) < 2 ^ 32"
  shows "max_index \<notin> thread_indices evs t"
proof
  assume "max_index \<in> thread_indices evs t"
  then obtain i where i: "i < length evs" "thread (evs ! i) = t" "index (evs ! i) = max_index"
    by (auto simp: thread_indices_def in_set_conv_nth)
  with assms(1) have "unat max_index = length (thread_ids (take i evs) t)"
    by (metis dense_indices_def)
  then show False using unat_max_index length_thread_ids_take [OF i(1)] i(2) assms(2) by simp
qed

lemma max_index_used:
  assumes "dense_indices evs" "length (thread_ids evs t) \<ge> 2 ^ 32"
  shows "max_index \<in> thread_indices evs t"
proof -
  let ?i = "thread_ids evs t ! (2 ^ 32 - 1)"
  have i: "?i < length evs" "thread (evs ! ?i) = t"
    using assms(2) nth_mem [of "2 ^ 32 - 1" "thread_ids evs t"] by (auto simp: set_thread_ids)
  have "thread_ids (take ?i evs) t = filter (\<lambda>j. j < ?i) (thread_ids evs t)"
    using i(1) by (simp add: thread_ids_take)
  also have "length \<dots> = 2 ^ 32 - 1"
    using assms(2) by (intro length_filter_less_nth sorted_thread_ids) simp
  finally have "unat (index (evs ! ?i)) = unat max_index"
    using assms(1) i unat_max_index by (simp add: dense_indices_def)
  then show ?thesis using i by (auto simp: thread_indices_def word_unat_eq_iff intro!: exI [of _ "evs ! ?i"])
qed

lemma unat_next_of: "unat (next_of evs t) = min (length (thread_ids evs t)) (2 ^ 32 - 1)"
  by (simp add: next_of_def unsigned_of_nat take_bit_nat_eq_self min_less_iff_disj)

lemma next_of_append:
  assumes "length (thread_ids evs (thread e)) < 2 ^ 32"
  shows "next_of (evs @ [e]) t = (let i = next_of evs t in if t \<noteq> thread e \<or> i = max_index then i else i + 1)"
proof (cases "t = thread e")
  case True
  let ?n = "length (thread_ids evs t)"
  note max = unat_max_index
  show ?thesis
  proof (cases "?n = 2 ^ 32 - 1")
    case m: True
    have "next_of evs t = max_index" "next_of (evs @ [e]) t = max_index"
      using m True max by (auto intro!: word_unat_eq_iff [THEN iffD2] simp: unat_next_of thread_ids_append)
    then show ?thesis by simp
  next
    case False
    with assms True have lt: "?n < 2 ^ 32 - 1" by simp
    then have ne: "next_of evs t \<noteq> max_index" using max unat_next_of [of evs t] by auto
    have "unat (next_of (evs @ [e]) t) = unat (next_of evs t + 1)"
      using lt True word_less_Suc(3) [OF ne] by (simp add: unat_next_of thread_ids_append)
    then show ?thesis using ne True by (simp add: word_unat_eq_iff)
  qed
qed (simp add: next_of_def thread_ids_append)

section \<open>Insertion keeps the invariant\<close>

lemma record_event_kind_fields [simp]:
  "graph (record_event_kind i t x) = graph x"
  "thread_state (record_event_kind i t x) = thread_state x"
  "thread_event_ids (record_event_kind i t x) = thread_event_ids x"
  "known_acyclic (record_event_kind i t x) = known_acyclic x"
  "porf_cache (record_event_kind i t x) = porf_cache x"
  "event_undo_log (record_event_kind i t x) = event_undo_log x"
  "rf_undo_log (record_event_kind i t x) = rf_undo_log x"
  "receive_event_ids_by_thread (record_event_kind i t x) =
     (if is_receive (xg_events x ! i)
      then (receive_event_ids_by_thread x)[t := receive_event_ids_by_thread x ! t @ [i]]
      else receive_event_ids_by_thread x)"
  "send_event_ids (record_event_kind i t x) =
     send_event_ids x @ (if is_send (xg_events x ! i) then [i] else [])"
  "send_reader_counts (record_event_kind i t x) = resize (i + 1) 0 (send_reader_counts x)"
  "unread_send_mask (record_event_kind i t x) =
     (if is_send (xg_events x ! i) then (resize (i + 1) False (unread_send_mask x))[i := True]
      else resize (i + 1) False (unread_send_mask x))"
  "pending_fresh_receive_id (record_event_kind i t x) =
     (if known_acyclic x \<and> is_receive (xg_events x ! i) then Some i else None)"
  by (simp_all add: record_event_kind_def Let_def update_acyclicity_after_add_event_def)

lemma caches_ok_beyond:
  assumes "caches_ok x" "\<not> t < length (thread_state x)"
  shows "thread_ids (xg_events x) t = []" "recv_ids (xg_events x) t = []"
proof -
  show "thread_ids (xg_events x) t = []"
    using caches_okD(3) [OF assms(1)] assms(2) by (intro thread_ids_empty) auto
  then show "recv_ids (xg_events x) t = []" by (simp add: recv_ids_def)
qed

lemma record_event_kind_caches:
  assumes ok: "caches_ok x" and rf: "rf_valid (xg_events x) (xg_rf x)"
    and y: "xg_events y = xg_events x @ [e]" "xg_rf y = xg_rf x" "i = length (xg_events x)" "t = thread e"
      "thread_state y = (grow_to t initial_thread_state (thread_state x))
         [t := bump_thread_state i (grow_to t initial_thread_state (thread_state x) ! t)]"
      "thread_event_ids y = (grow_to t [] (thread_event_ids x))[t := grow_to t [] (thread_event_ids x) ! t @ [i]]"
      "receive_event_ids_by_thread y = grow_to t [] (receive_event_ids_by_thread x)"
      "send_event_ids y = send_event_ids x" "send_reader_counts y = send_reader_counts x"
      "unread_send_mask y = unread_send_mask x"
  shows "caches_ok (record_event_kind i t y)"
proof -
  note c = caches_okD [OF ok]
  let ?N = "max (length (thread_state x)) (t + 1)"
  have len: "length (thread_state y) = ?N" "length (thread_event_ids y) = ?N"
    "length (receive_event_ids_by_thread y) = ?N" using c(1,2) y by simp_all
  have beyond: "ts_of (xg_events x) u = initial_thread_state" "thread_ids (xg_events x) u = []"
    "recv_ids (xg_events x) u = []" if "\<not> u < length (thread_state x)" for u
    using caches_ok_beyond [OF ok that] by (simp_all add: ts_of_empty)
  have ts: "thread_state y ! u = ts_of (xg_events y) u" if "u < ?N" for u
    using that y c(4) beyond by (cases "u = t") (auto simp: ts_of_append)
  have te: "thread_event_ids y ! u = thread_ids (xg_events y) u" if "u < ?N" for u
    using that y c(1,5) beyond by (cases "u = t") (auto simp: thread_ids_append)
  have re: "receive_event_ids_by_thread (record_event_kind i t y) ! u = recv_ids (xg_events y) u" if "u < ?N" for u
    using that y c(2,6) beyond by (cases "u = t") (auto simp: recv_ids_append)
  have "thread e' < ?N" if "e' \<in> set (xg_events y)" for e'
    using that y c(3) [of e'] by auto
  moreover have "send_event_ids (record_event_kind i t y) = send_ids (xg_events y)"
    using y c(7) by (simp add: send_ids_append)
  moreover have "send_reader_counts (record_event_kind i t y) = reader_counts (xg_events y) (xg_rf y)"
    using y c(8) rf by (simp add: reader_counts_append resize_Suc_length)
  moreover have "unread_send_mask (record_event_kind i t y) = unread_mask (xg_events y) (xg_rf y)"
    using y c(9) rf list_update_length [of "unread_mask (xg_events x) (xg_rf x)" False "[]" True]
    by (simp add: unread_mask_append resize_Suc_length)
  ultimately show ?thesis
    using ts te re len by (simp add: caches_ok_def)
qed

lemma add_event_core:
  assumes wf: "wf_core x" and t: "t \<le> kMaxThreadId" and room: "length (thread_ids (xg_events x) t) < 2 ^ 32"
  shows "\<exists>x'. add_event t l x = Inr (length (xg_events x), x') \<and> wf_core x' \<and> xg_rf x' = xg_rf x
    \<and> xg_events x' = xg_events x @ [\<lparr>thread = t, index = next_of (xg_events x) t, label = l\<rparr>]
    \<and> known_acyclic x' = known_acyclic x \<and> porf_cache x' = None \<and> rf_undo_log x' = rf_undo_log x
    \<and> pending_fresh_receive_id x' = (if known_acyclic x \<and> is_receive (last (xg_events x'))
         then Some (length (xg_events x)) else None)
    \<and> event_undo_log x' = event_undo_log x @
        [\<lparr>undo_event_id = length (xg_events x), undo_thread = t,
          undo_event_index = next_of (xg_events x) t, previous_thread_state = ts_of (xg_events x) t,
          previous_next_event_index = next_of (xg_events x) t\<rparr>]"
proof -
  note w = wf_coreD [OF wf] and c = caches_okD [OF wf_coreD(3) [OF wf]]
  let ?evs = "xg_events x" and ?e = "\<lparr>thread = t, index = next_of (xg_events x) t, label = l\<rparr>"
  from eg_add_event_wf [OF w(1) t, of l] max_index_unused [OF w(4) room] obtain g where
    g: "eg_add_event t l (graph x) = Inr (length ?evs, g)" "wf_eg g" "reads_from g = reads_from (graph x)"
      "events g = ?evs @ [?e]"
      "\<forall>u. nth_or 0 (next_event_index_by_thread g) u =
         (let i = next_of ?evs u in if u \<noteq> t \<or> i = max_index then i else i + 1)"
    by (auto simp: w(5))
  have pts: "(if t < length (thread_state x) then thread_state x ! t else initial_thread_state) = ts_of ?evs t"
    using c(4) caches_ok_beyond(1) [OF w(3), of t] by (simp add: ts_of_empty)
  have pnx: "(if t < length (next_event_index_by_thread (graph x)) then next_event_index_by_thread (graph x) ! t else 0)
      = next_of ?evs t" using w(5) [of t] by (simp add: nth_or_def)
  define y where "y = (let x1 = x\<lparr>graph := g, porf_cache := None,
                      event_undo_log := event_undo_log x @
                        [\<lparr>undo_event_id = length ?evs, undo_thread = t, undo_event_index = next_of ?evs t,
                          previous_thread_state = ts_of ?evs t, previous_next_event_index = next_of ?evs t\<rparr>]\<rparr>;
               tss = grow_to t initial_thread_state (thread_state x1);
               tes = grow_to t [] (thread_event_ids x1)
           in x1\<lparr>thread_state := tss[t := bump_thread_state (length ?evs) (tss ! t)],
                       thread_event_ids := tes[t := tes ! t @ [length ?evs]],
                       receive_event_ids_by_thread := grow_to t [] (receive_event_ids_by_thread x1)\<rparr>)"
  have add: "add_event t l x = Inr (length ?evs, record_event_kind (length ?evs) t y)"
    unfolding add_event_def g(1) pts pnx by (simp add: y_def Let_def g(4))
  have "caches_ok (record_event_kind (length ?evs) t y)"
    by (rule record_event_kind_caches [OF w(3,2), where e = ?e]) (simp_all add: y_def Let_def g)
  moreover have "dense_indices (?evs @ [?e])"
    using w(4) room by (simp add: dense_indices_append unat_next_of)
  moreover have "nth_or 0 (next_event_index_by_thread g) u = next_of (?evs @ [?e]) u" for u
    using g(5) next_of_append [of ?evs ?e] room by simp
  ultimately have "wf_core (record_event_kind (length ?evs) t y)"
    using g(2,3,4) rf_valid_append [OF w(2)] by (simp add: wf_core_def y_def Let_def)
  with add show ?thesis by (simp add: y_def Let_def g)
qed

text \<open>The two error branches of insertion.\<close>

lemma add_event_errors:
  assumes "wf_core x"
  shows "t > kMaxThreadId \<Longrightarrow>
      add_event t l x = Inl (precondition_error ''thread id exceeds the maximum supported thread id'')"
    and "t \<le> kMaxThreadId \<Longrightarrow> length (thread_ids (xg_events x) t) = 2 ^ 32 \<Longrightarrow>
      add_event t l x = Inl (precondition_error ''no available event index for thread'')"
proof -
  note w = wf_coreD [OF assms]
  show "add_event t l x = Inl (precondition_error ''thread id exceeds the maximum supported thread id'')"
    if "t > kMaxThreadId"
    using ensure_thread_storage_error [OF w(1) that]
    by (simp add: add_event_def eg_add_event_def next_event_index_def)
  show "add_event t l x = Inl (precondition_error ''no available event index for thread'')"
    if "t \<le> kMaxThreadId" "length (thread_ids (xg_events x) t) = 2 ^ 32"
    using eg_add_event_wf [OF w(1) that(1)] max_index_used [OF w(4)] that(2)
    by (simp add: add_event_def)
qed

section \<open>Reads-from assignment keeps the invariant\<close>

lemma finite_readers: "finite (dom m) \<Longrightarrow> finite (readers m i)"
  by (rule finite_subset [of _ "dom m"]) (auto simp: readers_def)

definition source_ok :: "'v event list \<Rightarrow> ReadsFromSource option \<Rightarrow> bool" where
  "source_ok evs s \<longleftrightarrow> (\<forall>i. s = Some (from_send i) \<longrightarrow> i < length evs \<and> is_send (evs ! i))"

lemma reader_counts_upd:
  assumes "finite (dom m)" "m r = None" "i < length evs"
  shows "reader_counts evs (m(r \<mapsto> from_send i)) = (reader_counts evs m)[i := Suc (reader_counts evs m ! i)]"
    and "is_send (evs ! i) \<Longrightarrow> unread_mask evs (m(r \<mapsto> from_send i)) = (unread_mask evs m)[i := False]"
proof -
  have rd: "readers (m(r \<mapsto> from_send i)) j = (if j = i then insert r (readers m i) else readers m j)" for j
    using assms(2) by (auto simp: readers_def)
  have r: "r \<notin> readers m i" using assms(2) by (simp add: readers_def)
  show "reader_counts evs (m(r \<mapsto> from_send i)) = (reader_counts evs m)[i := Suc (reader_counts evs m ! i)]"
    using assms(3) r finite_readers [OF assms(1), of i]
    by (intro nth_equalityI) (auto simp: reader_counts_def rd nth_list_update)
  show "unread_mask evs (m(r \<mapsto> from_send i)) = (unread_mask evs m)[i := False]"
    using assms(3) by (intro nth_equalityI) (auto simp: unread_mask_def rd nth_list_update)
qed

lemma reader_counts_other:
  assumes "\<forall>i. m r \<noteq> Some (from_send i)" "\<forall>i. s \<noteq> Some (from_send i)"
  shows "reader_counts evs (m(r := s)) = reader_counts evs m" "unread_mask evs (m(r := s)) = unread_mask evs m"
proof -
  have "readers (m(r := s)) = readers m" using assms by (auto simp: readers_def fun_eq_iff)
  then show "reader_counts evs (m(r := s)) = reader_counts evs m" "unread_mask evs (m(r := s)) = unread_mask evs m"
    by (simp_all add: reader_counts_def unread_mask_def)
qed

lemma adjust_down:
  assumes "finite (dom m)" "source_ok evs (m r)" "xg_events x = evs"
    and "send_reader_counts x = reader_counts evs m" "unread_send_mask x = unread_mask evs m"
  shows "adjust_send_reader_count (m r) False x =
    Inr (x\<lparr>send_reader_counts := reader_counts evs (m(r := None)),
           unread_send_mask := unread_mask evs (m(r := None))\<rparr>)"
proof (cases "\<exists>i. m r = Some (from_send i)")
  case True
  then obtain i where i: "m r = Some (from_send i)" by blast
  let ?m = "m(r := None)"
  have m: "m = ?m(r \<mapsto> from_send i)" using i by (auto simp: fun_eq_iff)
  from assms(2) i have s: "i < length evs" "is_send (evs ! i)" by (auto simp: source_ok_def)
  have up: "reader_counts evs m = (reader_counts evs ?m)[i := Suc (reader_counts evs ?m ! i)]"
    "unread_mask evs m = (unread_mask evs ?m)[i := False]"
    using reader_counts_upd [of ?m r i evs] assms(1) s m by auto
  have "unread_mask evs ?m ! i = (reader_counts evs ?m ! i = 0)"
    using s finite_readers [of ?m i] assms(1) by (simp add: unread_mask_def reader_counts_def)
  then have "(unread_mask evs m)[i := (reader_counts evs ?m ! i = 0)] = unread_mask evs ?m"
    using up(2) by (metis list_update_id list_update_overwrite)
  moreover have "(reader_counts evs m)[i := reader_counts evs ?m ! i] = reader_counts evs ?m"
    "reader_counts evs m ! i = Suc (reader_counts evs ?m ! i)"
    using up(1) s(1) by simp_all
  ultimately show ?thesis
    using i s assms(3-5) by (simp add: adjust_send_reader_count_def is_valid_event_id_def)
next
  case False
  then have "adjust_send_reader_count (m r) False x = Inr x"
    by (auto simp: adjust_send_reader_count_def split: option.splits ReadsFromSource.splits)
  with False reader_counts_other [of m r None evs] assms(4,5) show ?thesis by simp
qed

lemma adjust_up:
  assumes "finite (dom m)" "m r = None" "source_ok evs s" "xg_events x = evs"
    and "send_reader_counts x = reader_counts evs m" "unread_send_mask x = unread_mask evs m"
  shows "adjust_send_reader_count s True x =
    Inr (x\<lparr>send_reader_counts := reader_counts evs (m(r := s)), unread_send_mask := unread_mask evs (m(r := s))\<rparr>)"
proof (cases "\<exists>i. s = Some (from_send i)")
  case True
  then obtain i where i: "s = Some (from_send i)" by blast
  with assms(3) have s: "i < length evs" "is_send (evs ! i)" by (auto simp: source_ok_def)
  with reader_counts_upd [OF assms(1,2) s(1)] i assms(4-6) show ?thesis
    by (simp add: adjust_send_reader_count_def is_valid_event_id_def)
next
  case False
  then have "adjust_send_reader_count s True x = Inr x"
    by (auto simp: adjust_send_reader_count_def split: option.splits ReadsFromSource.splits)
  with False reader_counts_other [of m r s evs] assms(2,5,6) show ?thesis by simp
qed

lemma update_send_reader_state_ok:
  assumes "finite (dom m)" "source_ok evs (m r)" "source_ok evs s" "xg_events x = evs"
    and "send_reader_counts x = reader_counts evs m" "unread_send_mask x = unread_mask evs m"
  shows "update_send_reader_state (m r) s x =
    Inr (x\<lparr>send_reader_counts := reader_counts evs (m(r := s)), unread_send_mask := unread_mask evs (m(r := s))\<rparr>)"
proof -
  let ?m = "m(r := None)"
  have "finite (dom ?m)" using assms(1) by simp
  from adjust_up [OF this _ assms(3), of r] adjust_down [OF assms(1,2,4,5,6)] assms(4)
  show ?thesis by (simp add: update_send_reader_state_def)
qed

lemma rf_valid_source_ok: "rf_valid evs m \<Longrightarrow> source_ok evs (m r)"
  by (auto simp: rf_valid_def source_ok_def)

lemma rf_valid_upd:
  "rf_valid evs m \<Longrightarrow> r < length evs \<Longrightarrow> is_receive (evs ! r) \<Longrightarrow> source_ok evs (Some s) \<Longrightarrow> rf_valid evs (m(r \<mapsto> s))"
  by (auto simp: rf_valid_def source_ok_def)

lemma set_reads_from_source_core:
  assumes wf: "wf_core x" and r: "r < length (xg_events x)" "is_receive (xg_events x ! r)"
    and s: "source_ok (xg_events x) (Some s)"
  shows "\<exists>x'. set_reads_from_source r s x = Inr x' \<and> wf_core x' \<and> xg_events x' = xg_events x
    \<and> xg_rf x' = (xg_rf x)(r \<mapsto> s) \<and> event_undo_log x' = event_undo_log x \<and> porf_cache x' = None
    \<and> rf_undo_log x' = rf_undo_log x @ [\<lparr>undo_receive_id = r, previous_source = xg_rf x r\<rparr>]
    \<and> known_acyclic x' = (known_acyclic x \<and> pending_fresh_receive_id x = Some r)
    \<and> pending_fresh_receive_id x' = None"
proof -
  note w = wf_coreD [OF wf] and c = caches_okD [OF wf_coreD(3) [OF wf]]
  let ?evs = "xg_events x" and ?m = "xg_rf x"
  let ?x = "x\<lparr>graph := eg_set_reads_from_source r s (graph x),
    rf_undo_log := rf_undo_log x @ [\<lparr>undo_receive_id = r, previous_source = ?m r\<rparr>], porf_cache := None,
    send_reader_counts := reader_counts ?evs (?m(r \<mapsto> s)), unread_send_mask := unread_mask ?evs (?m(r \<mapsto> s))\<rparr>"
  have set: "set_reads_from_source r s x = Inr (update_acyclicity_after_rf_assignment r s ?x)"
    using update_send_reader_state_ok [of ?m ?evs r "Some s"
        "x\<lparr>graph := eg_set_reads_from_source r s (graph x),
           rf_undo_log := rf_undo_log x @ [\<lparr>undo_receive_id = r, previous_source = ?m r\<rparr>], porf_cache := None\<rparr>"]
      rf_valid_source_ok [OF w(2), of r] s c(8,9)
    by (simp add: set_reads_from_source_def Let_def current_reads_from_source_def eg_set_reads_from_source_def)
  have x: "xg_events ?x = ?evs" "xg_rf ?x = ?m(r \<mapsto> s)" by (simp_all add: eg_set_reads_from_source_def)
  have "rf_valid ?evs (?m(r \<mapsto> s))" by (rule rf_valid_upd [OF w(2) r s])
  then have core: "wf_core ?x"
    using w(1,4,5) c x eg_set_reads_from_source_wf [OF w(1), of r s]
    by (simp add: wf_core_def caches_ok_def) (simp add: eg_set_reads_from_source_def)
  have upd: "update_acyclicity_after_rf_assignment r s ?x =
      (if known_acyclic x \<and> pending_fresh_receive_id x = Some r
       then ?x\<lparr>pending_fresh_receive_id := None\<rparr> else invalidate_known_acyclicity ?x)"
    using r s x by (auto simp: update_acyclicity_after_rf_assignment_def is_valid_event_id_def source_ok_def
        split: ReadsFromSource.splits)
  have flag: "wf_core (x\<lparr>known_acyclic := a, pending_fresh_receive_id := b\<rparr>) = wf_core x" for x :: "'a ExplorationGraph" and a b
    by (simp add: wf_core_def caches_ok_def)
  have flag': "wf_core (x\<lparr>pending_fresh_receive_id := b\<rparr>) = wf_core x" for x :: "'a ExplorationGraph" and b
    by (simp add: wf_core_def caches_ok_def)
  from core flag flag' have "wf_core (update_acyclicity_after_rf_assignment r s ?x)"
    unfolding upd by (simp add: invalidate_known_acyclicity_def)
  with set x upd show ?thesis by (simp add: invalidate_known_acyclicity_def)
qed

section \<open>The acyclicity flag\<close>

lemma acyclic_inv_image:
  assumes "acyclic R"
  shows "acyclic (inv_image R f)"
proof -
  have "(f a, f b) \<in> R\<^sup>+" if "(a, b) \<in> (inv_image R f)\<^sup>+" for a b
    using that by (induction rule: trancl_induct) (auto intro: trancl_into_trancl)
  with assms show ?thesis by (auto simp: acyclic_def)
qed

text \<open>Edges into a node without successors close no cycle.\<close>

lemma acyclic_into_sink:
  assumes "acyclic E" "n \<notin> Domain E" "n \<notin> Domain F" "F \<subseteq> UNIV \<times> {n}"
  shows "acyclic (E \<union> F)"
proof (rule acyclicI, rule allI, rule notI)
  fix x assume cyc: "(x, x) \<in> (E \<union> F)\<^sup>+"
  have "(a, b) \<in> E\<^sup>+ \<or> b = n" if "(a, b) \<in> (E \<union> F)\<^sup>+" for a b
    using that
  proof (induction rule: trancl_induct)
    case (base b)
    with assms(4) show ?case by auto
  next
    case (step b c)
    with assms(2,3) have "b \<noteq> n" by (auto simp: Domain_iff)
    with step assms(4) show ?case by (auto intro: trancl_into_trancl)
  qed
  from this [OF cyc] assms(1) have "x = n" by (auto simp: acyclic_def)
  with cyc have "n \<in> Domain (E \<union> F)" by (auto dest: tranclD)
  with assms(2,3) show False by auto
qed

lemma po_of_append:
  "po_of (evs @ [e]) = po_of evs \<union> {i. i < length evs \<and> thread (evs ! i) = thread e} \<times> {length evs}"
  by (auto simp: po_of_def nth_append less_Suc_eq)

lemma causal_bounded: "rf_valid evs m \<Longrightarrow> causal evs m \<subseteq> {..<length evs} \<times> {..<length evs}"
  by (auto simp: causal_def po_of_def rf_of_def rf_valid_def)

lemma acyclic_append:
  assumes "rf_valid evs m" "acyclic (causal evs m)"
  shows "acyclic (causal (evs @ [e]) m)"
proof -
  let ?F = "{i. i < length evs \<and> thread (evs ! i) = thread e} \<times> {length evs}"
  have "causal (evs @ [e]) m = causal evs m \<union> ?F" by (auto simp: causal_def po_of_append)
  moreover have "acyclic (causal evs m \<union> ?F)"
    using causal_bounded [OF assms(1)] by (intro acyclic_into_sink [OF assms(2)]) auto
  ultimately show ?thesis by simp
qed

text \<open>The fresh-receive fast path: a just-added receive has no causal successors.\<close>

lemma acyclic_fresh_receive:
  assumes "rf_valid evs m" "acyclic (causal evs m)" "Suc r = length evs" "is_receive (evs ! r)"
    and "source_ok evs (Some s)"
  shows "acyclic (causal evs (m(r \<mapsto> s)))"
proof -
  let ?F = "{i. s = from_send i} \<times> {r}"
  have sub: "causal evs (m(r \<mapsto> s)) \<subseteq> causal evs m \<union> ?F" by (auto simp: causal_def rf_of_def split: if_splits)
  have "r \<notin> Domain (causal evs m)"
    using assms(1,3,4) send_not_receive by (fastforce simp: causal_def po_of_def rf_of_def rf_valid_def)
  moreover have "r \<notin> Domain ?F"
    using assms(4,5) send_not_receive by (auto simp: source_ok_def)
  ultimately have "acyclic (causal evs m \<union> ?F)" by (intro acyclic_into_sink [OF assms(2)]) auto
  then show ?thesis using sub by (rule acyclic_subset)
qed

lemma flags_ok_after_add:
  assumes "wf_core x" "flags_ok x" "xg_events x' = xg_events x @ [e]" "xg_rf x' = xg_rf x"
    and "known_acyclic x' = known_acyclic x"
    and "pending_fresh_receive_id x' = (if known_acyclic x \<and> is_receive (last (xg_events x'))
         then Some (length (xg_events x)) else None)"
  shows "flags_ok x'"
  using acyclic_append [OF wf_coreD(2) [OF assms(1)], of e] assms(2-)
  by (auto simp: flags_ok_def split: if_splits)

lemma flags_ok_after_set:
  assumes "wf_core x" "flags_ok x" "xg_events x' = xg_events x" "xg_rf x' = (xg_rf x)(r \<mapsto> s)"
    and "known_acyclic x' = (known_acyclic x \<and> pending_fresh_receive_id x = Some r)"
    and "pending_fresh_receive_id x' = None" "source_ok (xg_events x) (Some s)"
  shows "flags_ok x'"
  using acyclic_fresh_receive [OF wf_coreD(2) [OF assms(1)], of r s] assms(2-) by (auto simp: flags_ok_def)

lemma causal_empty [simp]: "rf_of Map.empty = {}" "po_of [] = {}"
  by (auto simp: rf_of_def po_of_def)

lemma wf_empty_xg: "wf_xg empty_xg"
  using wf_empty_eg [unfolded empty_eg_def]
  by (simp add: wf_xg_def wf_core_def flags_ok_def caches_ok_def empty_xg_def empty_eg_def rf_valid_def
      send_ids_def reader_counts_def unread_mask_def dense_indices_def next_of_def causal_def acyclic_def)

lemma add_event_wf:
  assumes "wf_xg x" "t \<le> kMaxThreadId" "length (thread_ids (xg_events x) t) < 2 ^ 32"
  shows "\<exists>x'. add_event t l x = Inr (length (xg_events x), x') \<and> wf_xg x' \<and> xg_rf x' = xg_rf x
    \<and> xg_events x' = xg_events x @ [\<lparr>thread = t, index = next_of (xg_events x) t, label = l\<rparr>]
    \<and> known_acyclic x' = known_acyclic x
    \<and> pending_fresh_receive_id x' = (if known_acyclic x \<and> is_receive (last (xg_events x'))
         then Some (length (xg_events x)) else None)"
proof -
  from assms(1) have c: "wf_core x" "flags_ok x" by (auto simp: wf_xg_def)
  from add_event_core [OF c(1) assms(2,3), of l] obtain x' where
    x': "add_event t l x = Inr (length (xg_events x), x')" "wf_core x'" "xg_rf x' = xg_rf x"
      "xg_events x' = xg_events x @ [\<lparr>thread = t, index = next_of (xg_events x) t, label = l\<rparr>]"
      "known_acyclic x' = known_acyclic x"
      "pending_fresh_receive_id x' = (if known_acyclic x \<and> is_receive (last (xg_events x'))
         then Some (length (xg_events x)) else None)" by blast
  moreover have "flags_ok x'" by (rule flags_ok_after_add [OF c x'(4,3,5,6)])
  ultimately show ?thesis by (auto simp: wf_xg_def)
qed

lemma set_reads_from_source_wf:
  assumes "wf_xg x" "r < length (xg_events x)" "is_receive (xg_events x ! r)" "source_ok (xg_events x) (Some s)"
  shows "\<exists>x'. set_reads_from_source r s x = Inr x' \<and> wf_xg x' \<and> xg_events x' = xg_events x
    \<and> xg_rf x' = (xg_rf x)(r \<mapsto> s)
    \<and> known_acyclic x' = (known_acyclic x \<and> pending_fresh_receive_id x = Some r)
    \<and> pending_fresh_receive_id x' = None"
proof -
  from assms(1) have c: "wf_core x" "flags_ok x" by (auto simp: wf_xg_def)
  from set_reads_from_source_core [OF c(1) assms(2-4)] obtain x' where
    x': "set_reads_from_source r s x = Inr x'" "wf_core x'" "xg_events x' = xg_events x"
      "xg_rf x' = (xg_rf x)(r \<mapsto> s)"
      "known_acyclic x' = (known_acyclic x \<and> pending_fresh_receive_id x = Some r)"
      "pending_fresh_receive_id x' = None" by blast
  moreover have "flags_ok x'" by (rule flags_ok_after_set [OF c x'(3-6) assms(4)])
  ultimately show ?thesis by (auto simp: wf_xg_def)
qed

lemma wf_core_flags [simp]:
  "wf_core (x\<lparr>known_acyclic := a, pending_fresh_receive_id := b\<rparr>) = wf_core x"
  "wf_core (x\<lparr>event_undo_log := l, rf_undo_log := l'\<rparr>) = wf_core x"
  "wf_core (x\<lparr>porf_cache := c\<rparr>) = wf_core x"
  by (simp_all add: wf_core_def caches_ok_def)

lemma copy_with_rf_source_wf:
  assumes "wf_xg x" "r < length (xg_events x)" "is_receive (xg_events x ! r)" "source_ok (xg_events x) (Some s)"
    and "preserve \<Longrightarrow> acyclic (causal (xg_events x) ((xg_rf x)(r \<mapsto> s)))"
  shows "\<exists>x'. copy_with_rf_source r s preserve x = Inr x' \<and> wf_xg x' \<and> xg_events x' = xg_events x
    \<and> xg_rf x' = (xg_rf x)(r \<mapsto> s) \<and> known_acyclic x' = preserve
    \<and> event_undo_log x' = [] \<and> rf_undo_log x' = []"
proof -
  have "wf_core (copy_graph x)" using assms(1) by (simp add: wf_xg_def copy_graph_def clear_worker_local_history_def)
  from set_reads_from_source_core [OF this, of r s] assms(2-4) obtain y where
    y: "set_reads_from_source r s (copy_graph x) = Inr y" "wf_core y" "xg_events y = xg_events x"
      "xg_rf y = (xg_rf x)(r \<mapsto> s)"
    by (auto simp: copy_graph_def clear_worker_local_history_def)
  with assms(5) show ?thesis
    by (auto simp: copy_with_rf_source_def wf_xg_def flags_ok_def clear_worker_local_history_def
        mark_known_acyclic_def invalidate_known_acyclicity_def)
qed

lemma rebind_rf_wf:
  assumes "wf_xg x" "r < length (xg_events x)" "is_receive (xg_events x ! r)" "source_ok (xg_events x) (Some (from_send i))"
    and "preserve \<Longrightarrow> acyclic (causal (xg_events x) ((xg_rf x)(r \<mapsto> from_send i)))"
    and clean: "event_undo_log x = []" "rf_undo_log x = []"
  shows "\<exists>x'. rebind_rf r i preserve x = Inr x' \<and> wf_xg x' \<and> xg_events x' = xg_events x
    \<and> xg_rf x' = (xg_rf x)(r \<mapsto> from_send i) \<and> known_acyclic x' = preserve
    \<and> event_undo_log x' = [] \<and> rf_undo_log x' = []"
proof -
  from assms(1) have wf: "wf_core x" by (simp add: wf_xg_def)
  note w = wf_coreD [OF wf] and c = caches_okD [OF wf_coreD(3) [OF wf]]
  let ?m = "(xg_rf x)(r \<mapsto> from_send i)"
  let ?x = "x\<lparr>graph := eg_set_reads_from_source r (from_send i) (graph x),
    send_reader_counts := reader_counts (xg_events x) ?m, unread_send_mask := unread_mask (xg_events x) ?m\<rparr>"
  have x: "xg_events ?x = xg_events x" "xg_rf ?x = ?m" by (simp_all add: eg_set_reads_from_source_def)
  have "rf_valid (xg_events x) ?m" by (rule rf_valid_upd [OF w(2) assms(2-4)])
  then have core: "wf_core ?x"
    using w(4,5) c x eg_set_reads_from_source_wf [OF w(1), of r "from_send i"]
    by (simp add: wf_core_def caches_ok_def) (simp add: eg_set_reads_from_source_def)
  have "rebind_rf r i preserve x = Inr (if preserve then mark_known_acyclic (?x\<lparr>porf_cache := None\<rparr>)
      else invalidate_known_acyclicity (?x\<lparr>porf_cache := None\<rparr>))"
    using clean update_send_reader_state_ok [of "xg_rf x" "xg_events x" r "Some (from_send i)"
        "x\<lparr>graph := eg_set_reads_from_source r (from_send i) (graph x)\<rparr>"]
      rf_valid_source_ok [OF w(2), of r] assms(4) c(8,9)
    by (simp add: rebind_rf_def Let_def current_reads_from_source_def eg_set_reads_from_source_def)
  moreover have "wf_core (?x\<lparr>porf_cache := None\<rparr>)" using core by (simp only: wf_core_flags)
  ultimately show ?thesis
    using x assms(5) clean
    by (auto simp: wf_xg_def flags_ok_def mark_known_acyclic_def invalidate_known_acyclicity_def)
qed

section \<open>Mutators drop the causal-order cache\<close>

lemma adjust_send_reader_count_cache:
  "adjust_send_reader_count source up x = Inr y \<Longrightarrow> porf_cache y = porf_cache x"
  by (auto simp: adjust_send_reader_count_def Let_def split: option.splits ReadsFromSource.splits if_splits)

lemma update_send_reader_state_cache:
  "update_send_reader_state previous nxt x = Inr y \<Longrightarrow> porf_cache y = porf_cache x"
  by (auto simp: update_send_reader_state_def dest!: adjust_send_reader_count_cache)

lemma update_acyclicity_cache [simp]:
  "porf_cache (update_acyclicity_after_rf_assignment r s x) = porf_cache x"
  "porf_cache (update_acyclicity_after_add_event i x) = porf_cache x"
  "porf_cache (mark_known_acyclic x) = porf_cache x" "porf_cache (invalidate_known_acyclicity x) = porf_cache x"
  by (auto simp: update_acyclicity_after_rf_assignment_def update_acyclicity_after_add_event_def
      invalidate_known_acyclicity_def mark_known_acyclic_def split: ReadsFromSource.split)

lemma set_reads_from_source_cache: "set_reads_from_source r s x = Inr y \<Longrightarrow> porf_cache y = None"
  by (auto simp: set_reads_from_source_def Let_def dest!: update_send_reader_state_cache)

lemma copy_with_rf_source_cache: "copy_with_rf_source r s preserve x = Inr y \<Longrightarrow> porf_cache y = None"
  by (auto simp: copy_with_rf_source_def clear_worker_local_history_def dest!: set_reads_from_source_cache)

lemma rebind_rf_cache: "rebind_rf r i preserve x = Inr y \<Longrightarrow> porf_cache y = None"
  by (auto simp: rebind_rf_def Let_def split: if_splits)

section \<open>A small graph\<close>

text \<open>A send, its receive and the edge between them: the input at which the properties are exercised.\<close>

definition sample_xg :: "nat ExplorationGraph" where
  "sample_xg = projr
     (bind_result (add_event 0 (Send \<lparr>destination = 1, send_value = 7\<rparr>) empty_xg) (\<lambda>(_, x).
      bind_result (add_event 1 (Receive (make_receive_label match_any_value Blocking)) x) (\<lambda>(_, y).
        set_reads_from 1 0 y)))"

definition sample_events :: "nat event list" where
  "sample_events =
     [\<lparr>thread = 0, index = 0, label = Send \<lparr>destination = 1, send_value = 7\<rparr>\<rparr>,
      \<lparr>thread = 1, index = 0, label = Receive (make_receive_label match_any_value Blocking)\<rparr>]"

lemma empty_xg_simps [simp]:
  "xg_events empty_xg = []" "xg_rf empty_xg = Map.empty" "known_acyclic empty_xg"
  "event_undo_log empty_xg = []" "rf_undo_log empty_xg = []" "porf_cache empty_xg = None"
  by (simp_all add: empty_xg_def empty_eg_def)

lemma sample_xg_wf:
  "wf_xg sample_xg \<and> xg_events sample_xg = sample_events \<and> xg_rf sample_xg = [1 \<mapsto> from_send 0]
   \<and> known_acyclic sample_xg \<and> porf_cache sample_xg = None"
proof -
  obtain x where x: "add_event 0 (Send \<lparr>destination = 1, send_value = 7 :: nat\<rparr>) empty_xg = Inr (0, x)" "wf_xg x"
    "xg_rf x = Map.empty" "xg_events x = [sample_events ! 0]" "known_acyclic x"
    using add_event_wf [OF wf_empty_xg, of 0 "Send \<lparr>destination = 1, send_value = 7 :: nat\<rparr>"]
    by (auto simp: sample_events_def next_of_def)
  obtain y where y: "add_event 1 (Receive (make_receive_label match_any_value Blocking)) x = Inr (1, y)" "wf_xg y"
    "xg_rf y = Map.empty" "xg_events y = sample_events" "known_acyclic y" "pending_fresh_receive_id y = Some 1"
    using add_event_wf [OF x(2), of 1 "Receive (make_receive_label match_any_value Blocking)"] x(3-5)
    by (auto simp: sample_events_def next_of_def kMaxThreadId_def thread_ids_def is_receive_def)
  obtain z where z: "set_reads_from 1 0 y = Inr z" "wf_xg z" "xg_events z = sample_events"
    "xg_rf z = [1 \<mapsto> from_send 0]" "known_acyclic z"
    using set_reads_from_source_wf [OF y(2), of 1 "from_send 0"] y(3-6)
    by (auto simp: set_reads_from_def source_ok_def sample_events_def is_receive_def is_send_def)
  moreover have "sample_xg = z" using x(1) y(1) z(1) by (simp add: sample_xg_def)
  moreover have "porf_cache z = None" using z(1) set_reads_from_source_cache by (auto simp: set_reads_from_def)
  ultimately show ?thesis by simp
qed

lemma sample_xg_simps [simp]:
  "wf_xg sample_xg" "wf_core sample_xg" "xg_events sample_xg = sample_events"
  "xg_rf sample_xg = [Suc 0 \<mapsto> from_send 0]" "known_acyclic sample_xg" "porf_cache sample_xg = None"
  "acyclic (causal sample_events [Suc 0 \<mapsto> from_send 0])"
proof -
  show wf: "wf_xg sample_xg" and ev: "xg_events sample_xg = sample_events" and
    rf: "xg_rf sample_xg = [Suc 0 \<mapsto> from_send 0]" and ka: "known_acyclic sample_xg" "porf_cache sample_xg = None"
    using sample_xg_wf by auto
  from wf show "wf_core sample_xg" by (simp add: wf_xg_def)
  from wf have "flags_ok sample_xg" by (simp add: wf_xg_def)
  with ka(1) show "acyclic (causal sample_events [Suc 0 \<mapsto> from_send 0])" by (simp add: flags_ok_def ev rf)
qed

end
