(* ===== verification/Graph_Queries.thy ===== *)
theory Graph_Queries
  imports Exploration_Invariant
begin

text \<open>
  The queries of \<^verbatim>\<open>include/dpor/model/exploration_graph.hpp\<close> on a well-formed graph: the cached
  answers are the ones a scan of the events would give, no query throws, and a thread's trace
  does not depend on what the reused buffer held before.
\<close>

lemma xg_event_Inr [simp]: "xg_event x i = Inr e \<longleftrightarrow> i < length (xg_events x) \<and> e = xg_events x ! i"
  by (auto simp: xg_event_def eg_event_def is_valid_event_id_def)

lemma xg_event_eq: "i < length (xg_events x) \<Longrightarrow> xg_event x i = Inr (xg_events x ! i)"
  by simp

lemma thread_event_count_eq:
  assumes "wf_core x"
  shows "thread_event_count x t = length (thread_ids (xg_events x) t)"
  using caches_okD(4) [OF wf_coreD(3) [OF assms], of t] caches_ok_beyond(1) [OF wf_coreD(3) [OF assms], of t]
  by (simp add: thread_event_count_def ts_of_def)

lemma last_event_id_eq:
  assumes "wf_core x"
  shows "last_event_id x t =
    (if thread_ids (xg_events x) t = [] then None else Some (last (thread_ids (xg_events x) t)))"
  using caches_okD(4) [OF wf_coreD(3) [OF assms], of t] caches_ok_beyond(1) [OF wf_coreD(3) [OF assms], of t]
  by (cases "t < length (thread_state x)") (auto simp: last_event_id_def ts_of_def)

definition last_event :: "'v event list \<Rightarrow> ThreadId \<Rightarrow> 'v event option" where
  "last_event evs t = (if thread_ids evs t = [] then None else Some (evs ! last (thread_ids evs t)))"

lemma last_thread_id: "thread_ids evs t \<noteq> [] \<Longrightarrow>
    last (thread_ids evs t) < length evs \<and> thread (evs ! last (thread_ids evs t)) = t"
  using last_in_set [of "thread_ids evs t"] by (auto simp: set_thread_ids)

lemma event_of_last:
  assumes "thread_ids (xg_events x) t \<noteq> []"
  shows "event_of_id x (ts_last_event_id (ts_of (xg_events x) t)) = Inr (xg_events x ! last (thread_ids (xg_events x) t))"
  using last_thread_id [OF assms] assms by (simp add: event_of_id_def ts_of_def)

lemma thread_is_terminated_eq:
  assumes "wf_core x"
  shows "thread_is_terminated x t =
    Inr (case last_event (xg_events x) t of None \<Rightarrow> False | Some e \<Rightarrow> is_block e \<or> is_error e)"
proof (cases "t < length (thread_state x)")
  case True
  note ts = caches_okD(4) [OF wf_coreD(3) [OF assms] True]
  show ?thesis
  proof (cases "thread_ids (xg_events x) t = []")
    case empty: True
    then show ?thesis using True ts by (simp add: thread_is_terminated_def last_event_def ts_of_def)
  next
    case False
    then show ?thesis
      using True ts event_of_last [OF False]
      by (simp add: thread_is_terminated_def last_event_def) (simp add: ts_of_def)
  qed
next
  case False
  with caches_ok_beyond(1) [OF wf_coreD(3) [OF assms], of t] show ?thesis
    by (simp add: thread_is_terminated_def last_event_def)
qed

lemma any_result_pure:
  "(\<And>a. a \<in> set as \<Longrightarrow> p a = Inr (q a)) \<Longrightarrow> any_result p as = Inr (\<exists>a\<in>set as. q a)"
  by (induction as) auto

lemma any_result_map: "any_result p (map f as) = any_result (\<lambda>a. p (f a)) as"
  by (induction as) (auto intro!: bind_result_cong)

lemma has_blocked_thread_eq:
  assumes "wf_core x"
  shows "has_blocked_thread x = Inr (\<exists>t. \<exists>e. last_event (xg_events x) t = Some e \<and> is_block e)"
proof -
  let ?evs = "xg_events x" and ?N = "length (thread_state x)"
  note ts = caches_okD(4) [OF wf_coreD(3) [OF assms]]
  have all: "thread_state x = map (ts_of ?evs) [0..<?N]" using ts by (intro nth_equalityI) auto
  have step: "(if event_count (ts_of ?evs t) = 0 then Inr False
      else map_result is_block (event_of_id x (ts_last_event_id (ts_of ?evs t)))) =
      Inr (\<exists>e. last_event ?evs t = Some e \<and> is_block e)" for t
  proof (cases "thread_ids ?evs t = []")
    case True
    then show ?thesis by (simp add: ts_of_def last_event_def)
  next
    case False
    with event_of_last [OF False] show ?thesis by (simp add: last_event_def) (simp add: ts_of_def)
  qed
  have "has_blocked_thread x = Inr (\<exists>t\<in>set [0..<?N]. \<exists>e. last_event ?evs t = Some e \<and> is_block e)"
    unfolding has_blocked_thread_def by (subst all) (simp only: any_result_map step any_result_pure)
  moreover have "last_event ?evs t = None" if "\<not> t < ?N" for t
    using caches_ok_beyond(1) [OF wf_coreD(3) [OF assms] that] by (simp add: last_event_def)
  ultimately show ?thesis by (auto simp del: upt_Suc) (metis option.distinct(1) atLeastLessThan_iff le0)
qed

lemma unread_send_event_ids_eq:
  assumes "wf_core x"
  shows "unread_send_event_ids x =
    filter (\<lambda>i. is_send (xg_events x ! i) \<and> (\<forall>r. xg_rf x r \<noteq> Some (from_send i))) [0..<length (xg_events x)]"
proof -
  note c = caches_okD [OF wf_coreD(3) [OF assms]]
  show ?thesis
    unfolding unread_send_event_ids_def c(7,9) send_ids_def filter_filter
    by (intro filter_cong) (auto simp: unread_mask_def readers_def)
qed

text \<open>The incremental unread list is the one the execution graph computes by a scan.\<close>

lemma unread_send_event_ids_scan:
  assumes "wf_core x"
  shows "unread_send_event_ids x = eg_unread_send_event_ids (graph x)"
proof -
  have "List.member (concat (map (\<lambda>(_, s). case s of from_send x \<Rightarrow> [x] | bottom \<Rightarrow> []) (rf_entries (reads_from (graph x))))) i
      \<longleftrightarrow> (\<exists>r. xg_rf x r = Some (from_send i))" for i
    using set_rf_entries [of "reads_from (graph x)"]
    by (force split: ReadsFromSource.splits prod.splits)
  then show ?thesis
    unfolding unread_send_event_ids_eq [OF assms] eg_unread_send_event_ids_def eg_send_event_ids_def Let_def filter_filter
    by (intro filter_cong) auto
qed

lemma receives_in_destination_eq:
  assumes "wf_core x" "i < length (xg_events x)" "as_send (xg_events x ! i) = Some s"
  shows "receives_in_destination x i = Inr (recv_ids (xg_events x) (destination s))"
  using assms(2,3) caches_okD(2,6) [OF wf_coreD(3) [OF assms(1)]]
    caches_ok_beyond(2) [OF wf_coreD(3) [OF assms(1)], of "destination s"]
  by (auto simp: receives_in_destination_def nth_or_def)

section \<open>Traces\<close>

definition observed :: "'v event list \<Rightarrow> (EventId \<rightharpoonup> ReadsFromSource) \<Rightarrow> EventId \<Rightarrow> 'v ObservedValue list" where
  "observed evs m i =
     (if is_receive (evs ! i)
      then (case m i of
              None \<Rightarrow> []
            | Some bottom \<Rightarrow> [BottomValue]
            | Some (from_send k) \<Rightarrow>
                (case as_send (evs ! k) of Some s \<Rightarrow> [Observed (send_value s)] | None \<Rightarrow> []))
      else case as_nondeterministic_choice (evs ! i) of
              Some nd \<Rightarrow> [Observed (nd_value nd)]
            | None \<Rightarrow> [])"

definition trace_of :: "'v event list \<Rightarrow> (EventId \<rightharpoonup> ReadsFromSource) \<Rightarrow> ThreadId \<Rightarrow> 'v ObservedValue list" where
  "trace_of evs m t = concat (map (observed evs m) (thread_ids evs t))"

lemma fold_emit_trace_take:
  "take (snd s) (fst s) = out \<Longrightarrow> length out = snd s \<Longrightarrow>
     take (snd (fold emit_trace vs s)) (fst (fold emit_trace vs s)) = out @ vs
     \<and> snd (fold emit_trace vs s) = length (out @ vs)"
proof (induction vs arbitrary: s out)
  case (Cons v vs)
  have "take (snd (emit_trace v s)) (fst (emit_trace v s)) = out @ [v]" "length (out @ [v]) = snd (emit_trace v s)"
    using Cons.prems by (cases s; auto simp: emit_trace_def take_Suc_conv_app_nth)+
  from Cons.IH [OF this] show ?case by auto
qed simp

lemma trace_step_eq:
  assumes "rf_valid (xg_events x) (xg_rf x)" "i < length (xg_events x)"
  shows "trace_step x i s = Inr (fold emit_trace (observed (xg_events x) (xg_rf x) i) s)"
proof -
  have src: "k < length (xg_events x) \<and> is_send (xg_events x ! k)" if "xg_rf x i = Some (from_send k)" for k
    using assms(1) that by (auto simp: rf_valid_def)
  show ?thesis
    using src assms(2)
    by (auto simp: trace_step_def observed_def xg_event_eq split: option.splits ReadsFromSource.splits)
qed

lemma thread_trace_into_eq:
  assumes "wf_core x"
  shows "thread_trace_into t buffer x = Inr (trace_of (xg_events x) (xg_rf x) t)"
proof -
  note w = wf_coreD [OF assms]
  have ids: "nth_or [] (thread_event_ids x) t = thread_ids (xg_events x) t"
    using caches_okD(1,5) [OF w(3)] caches_ok_beyond(1) [OF w(3), of t] by (auto simp: nth_or_def)
  let ?I = "\<lambda>is s. take (snd s) (fst s) = concat (map (observed (xg_events x) (xg_rf x)) is)
    \<and> length (concat (map (observed (xg_events x) (xg_rf x)) is)) = snd s"
  have "\<exists>s'. fold_result (trace_step x) (thread_ids (xg_events x) t) (buffer, 0) = Inr s'
      \<and> ?I (thread_ids (xg_events x) t) s'"
  proof (rule fold_result_rule, goal_cases)
    case 1
    show ?case by simp
  next
    case (2 ys i zs s)
    have "i < length (xg_events x)" using 2(1) set_thread_ids [of "xg_events x" t] by auto
    with 2(2) fold_emit_trace_take [of s "concat (map (observed (xg_events x) (xg_rf x)) ys)"
        "observed (xg_events x) (xg_rf x) i"] show ?case
      by (auto simp: trace_step_eq [OF w(2)])
  qed
  then obtain s' where s': "fold_result (trace_step x) (thread_ids (xg_events x) t) (buffer, 0) = Inr s'"
    "?I (thread_ids (xg_events x) t) s'" by blast
  have "snd s' \<le> length (fst s')" using s'(2) by (metis length_take min.absorb_iff2)
  with s' ids show ?thesis
    by (cases s') (auto simp: thread_trace_into_def trace_of_def resize_def)
qed

section \<open>Changing a nondeterministic choice\<close>

lemma thread_indices_nth:
  "thread_indices es t = (\<lambda>j. index (es ! j)) ` {j. j < length es \<and> thread (es ! j) = t}"
  by (auto simp: thread_indices_def in_set_conv_nth)

lemma same_shape:
  assumes "length evs' = length evs"
    and "\<And>j. j < length evs \<Longrightarrow> thread (evs' ! j) = thread (evs ! j) \<and> index (evs' ! j) = index (evs ! j)
      \<and> is_receive (evs' ! j) = is_receive (evs ! j) \<and> is_send (evs' ! j) = is_send (evs ! j)"
  shows "thread_ids evs' = thread_ids evs" "recv_ids evs' = recv_ids evs" "send_ids evs' = send_ids evs"
    "ts_of evs' = ts_of evs" "reader_counts evs' = reader_counts evs" "unread_mask evs' = unread_mask evs"
    "next_of evs' = next_of evs" "dense_indices evs' = dense_indices evs" "po_of evs' = po_of evs"
    "rf_valid evs' = rf_valid evs" "increasing_indices evs' = increasing_indices evs"
    "thread_indices evs' = thread_indices evs" "(\<forall>e\<in>set evs'. P (thread e)) = (\<forall>e\<in>set evs. P (thread e))"
proof -
  show ids: "thread_ids evs' = thread_ids evs"
    using assms by (auto simp: fun_eq_iff thread_ids_def intro!: filter_cong)
  have take: "thread_ids (take j evs') t = thread_ids (take j evs) t" for j t
    using assms by (auto simp: thread_ids_def intro!: filter_cong)
  show "recv_ids evs' = recv_ids evs" "send_ids evs' = send_ids evs"
    using assms by (auto simp: fun_eq_iff recv_ids_def send_ids_def ids set_thread_ids intro!: filter_cong)
  show "ts_of evs' = ts_of evs" "next_of evs' = next_of evs" "reader_counts evs' = reader_counts evs"
    "unread_mask evs' = unread_mask evs"
    using assms by (auto simp: fun_eq_iff ts_of_def next_of_def reader_counts_def unread_mask_def ids)
  show "dense_indices evs' = dense_indices evs" "po_of evs' = po_of evs" "rf_valid evs' = rf_valid evs"
    "increasing_indices evs' = increasing_indices evs"
    using assms by (auto simp: fun_eq_iff dense_indices_def po_of_def rf_valid_def increasing_indices_def take)
  show "(\<forall>e\<in>set evs'. P (thread e)) = (\<forall>e\<in>set evs. P (thread e))"
    using assms by (simp add: all_set_conv_all_nth)
  have "{j. j < length evs' \<and> thread (evs' ! j) = t} = {j. j < length evs \<and> thread (evs ! j) = t}" for t
    using assms by auto
  then show "thread_indices evs' = thread_indices evs"
    using assms by (auto simp: fun_eq_iff thread_indices_nth intro!: image_cong)
qed

lemma wf_xg_same_shape:
  fixes x x' :: "'v ExplorationGraph"
  assumes wf: "wf_xg x" and len: "length evs' = length (xg_events x)"
    and kind: "\<And>j. j < length (xg_events x) \<Longrightarrow> thread (evs' ! j) = thread (xg_events x ! j)
      \<and> index (evs' ! j) = index (xg_events x ! j)
      \<and> is_receive (evs' ! j) = is_receive (xg_events x ! j) \<and> is_send (evs' ! j) = is_send (xg_events x ! j)"
    and x': "x' = x\<lparr>graph := (graph x)\<lparr>events := evs'\<rparr>, event_undo_log := l, rf_undo_log := l'\<rparr>"
  shows "wf_xg x'"
proof -
  note sh = same_shape [OF len kind, simplified]
  have all: "(\<forall>e\<in>set evs'. thread e < n) = (\<forall>e\<in>set (xg_events x). thread e < n)" for n
    using len kind by (simp add: all_set_conv_all_nth)
  have eg: "wf_eg ((graph x)\<lparr>events := evs'\<rparr>)"
    using wf by (simp add: wf_xg_def wf_core_def wf_eg_def storage_ok_def sh all)
  have caches: "caches_ok x'" using wf x' by (simp add: wf_xg_def wf_core_def caches_ok_def sh all)
  have "flags_ok x'" using wf x' len kind by (auto simp: wf_xg_def flags_ok_def causal_def sh)
  with eg caches wf x' show ?thesis by (simp add: wf_xg_def wf_core_def sh)
qed

lemma with_nd_value_wf:
  assumes wf: "wf_xg x" and i: "i < length (xg_events x)" "label (xg_events x ! i) = NondeterministicChoice nd"
  shows "\<exists>x'. with_nd_value i v x = Inr x' \<and> wf_xg x' \<and> xg_rf x' = xg_rf x
    \<and> xg_events x' = (xg_events x)[i := (xg_events x ! i)\<lparr>label := NondeterministicChoice (nd\<lparr>nd_value := v\<rparr>)\<rparr>]"
proof -
  let ?evs = "xg_events x" and ?e = "(xg_events x ! i)\<lparr>label := NondeterministicChoice (nd\<lparr>nd_value := v\<rparr>)\<rparr>"
  let ?evs' = "?evs[i := ?e]"
  let ?x = "(copy_graph x)\<lparr>graph := (graph x)\<lparr>events := ?evs'\<rparr>\<rparr>"
  have "thread (?evs' ! j) = thread (?evs ! j) \<and> index (?evs' ! j) = index (?evs ! j)
      \<and> is_receive (?evs' ! j) = is_receive (?evs ! j) \<and> is_send (?evs' ! j) = is_send (?evs ! j)" for j
    using i by (cases "i = j") (simp_all add: event_kind_defs)
  note kind = this
  have "with_nd_value i v x = Inr ?x"
    using i by (simp add: with_nd_value_def is_valid_event_id_def copy_graph_def clear_worker_local_history_def Let_def)
  moreover have "wf_xg ?x"
    by (rule wf_xg_same_shape [OF wf _ kind, where l = "[]" and l' = "[]"]) (simp_all add: copy_graph_def clear_worker_local_history_def)
  ultimately show ?thesis by simp
qed

section \<open>Properties\<close>

text \<open>C24. The trace of a thread is the list of values its receives and choices observed, in program order, and
  does not depend on what the reused buffer held before.\<close>

theorem thread_trace_buffer_independent:
  assumes "wf_core x"
  shows "thread_trace_into t buffer x = Inr (trace_of (xg_events x) (xg_rf x) t)"
  by (rule thread_trace_into_eq [OF assms])

theorem thread_trace_buffer_independent_witness:
  "thread_trace_into 1 [BottomValue, Observed 3, Observed 4] sample_xg = Inr [Observed 7]"
  using thread_trace_buffer_independent [of sample_xg 1 "[BottomValue, Observed 3, Observed 4]"]
  by (simp add: trace_of_def thread_ids_def sample_events_def observed_def is_receive_def as_send_def)

end
