(* ===== verification/Csr_Kahn.thy ===== *)
theory Csr_Kahn
  imports Execution_Graph
begin

text \<open>
  The two list algorithms inside \<^verbatim>\<open>build_porf_adjacency_and_order\<close> of
  \<^verbatim>\<open>include/dpor/model/exploration_graph.hpp\<close>: the compressed-sparse-row adjacency (count, prefix
  sum, fill) and Kahn's algorithm with a stack. The first is proved to store, per node, its
  successors in edge order, whatever the reused successor buffer held; the second to list every
  node exactly when the edges are acyclic, each node after its predecessors.
\<close>

type_synonym edges = "(NodeId \<times> NodeId) list"

section \<open>Compressed sparse rows\<close>

definition bump :: "nat \<Rightarrow> nat list \<Rightarrow> nat list" where
  "bump i v = v[i := v ! i + 1]"

text \<open>Pass 1: out-degrees, shifted by one, and in-degrees.\<close>

definition count_edge :: "NodeId \<times> NodeId \<Rightarrow> nat list \<times> nat list \<Rightarrow> nat list \<times> nat list" where
  "count_edge e s = (case s of (offsets, in_degree) \<Rightarrow> (bump (fst e + 1) offsets, bump (snd e) in_degree))"

definition prefix_sum :: "nat \<Rightarrow> nat list \<Rightarrow> nat list" where
  "prefix_sum n offsets = fold (\<lambda>i v. v[i + 1 := v ! (i + 1) + v ! i]) [0..<n] offsets"

text \<open>Pass 2: fill through the cursors.\<close>

definition fill_edge :: "NodeId \<times> NodeId \<Rightarrow> NodeId list \<times> nat list \<Rightarrow> NodeId list \<times> nat list" where
  "fill_edge e s = (case s of (succs, cursor) \<Rightarrow>
     (succs[cursor ! fst e := snd e], bump (fst e) cursor))"

lemma edge_steps [simp]:
  "count_edge e (offsets, in_degree) = (bump (fst e + 1) offsets, bump (snd e) in_degree)"
  "fill_edge e (succs, cursor) = (succs[cursor ! fst e := snd e], bump (fst e) cursor)"
  by (simp_all add: count_edge_def fill_edge_def)

definition out_edges :: "nat list \<Rightarrow> NodeId list \<Rightarrow> NodeId \<Rightarrow> NodeId list" where
  "out_edges offsets succs node = map (\<lambda>k. succs ! k) [offsets ! node..<offsets ! (node + 1)]"

section \<open>Kahn's algorithm\<close>

text \<open>
  Decrement the in-degree of a successor and push it when it reaches zero. The model leaves a
  zero degree alone where the unsigned decrement would wrap; degrees count the remaining edges, so
  this does not happen on a counted adjacency.
\<close>

definition relax :: "NodeId \<Rightarrow> nat list \<times> NodeId list \<Rightarrow> nat list \<times> NodeId list" where
  "relax succ s = (case s of (in_degree, ready) \<Rightarrow>
     (in_degree[succ := in_degree ! succ - 1],
      if succ < length in_degree \<and> in_degree ! succ = 1 then ready @ [succ] else ready))"

lemma relax_weight:
  "sum_list (fst (relax v s)) + length (snd (relax v s)) \<le> sum_list (fst s) + length (snd s)"
proof -
  obtain d r where s: "s = (d, r)" by force
  show ?thesis
  proof (cases "v < length d")
    case True
    have "d ! v \<le> sum_list d" using True by (simp add: member_le_sum_list)
    then have "sum_list (d[v := d ! v - 1]) = sum_list d - (if d ! v = 0 then 0 else 1)"
      using True by (auto simp: sum_list_update)
    moreover have "d ! v = 1 \<Longrightarrow> 0 < sum_list d" using \<open>d ! v \<le> _\<close> by simp
    ultimately show ?thesis using s True by (auto simp: relax_def)
  qed (simp add: s relax_def list_update_beyond)
qed

lemma fold_relax_weight:
  "sum_list (fst (fold relax vs s)) + length (snd (fold relax vs s)) \<le> sum_list (fst s) + length (snd s)"
proof (induction vs arbitrary: s)
  case (Cons v vs)
  from Cons [of "relax v s"] relax_weight [of v s] show ?case by simp
qed simp

function kahn_loop :: "(NodeId \<Rightarrow> NodeId list) \<Rightarrow> nat list \<Rightarrow> NodeId list \<Rightarrow> NodeId list \<Rightarrow> NodeId list" where
  "kahn_loop succs in_degree ready topo =
     (if ready = [] then topo
      else let node = last ready;
               s = fold relax (succs node) (in_degree, butlast ready)
           in kahn_loop succs (fst s) (snd s) (topo @ [node]))"
  by pat_completeness auto
termination
proof (relation "measure (\<lambda>(succs, d, r, topo). sum_list d + length r)", goal_cases)
  case (2 succs d r topo node s)
  with fold_relax_weight [of "succs (last r)" "(d, butlast r)"] show ?case
    by (cases r) auto
qed simp

declare kahn_loop.simps [simp del]

definition kahn :: "nat \<Rightarrow> (NodeId \<Rightarrow> NodeId list) \<Rightarrow> nat list \<Rightarrow> NodeId list" where
  "kahn n succs in_degree = kahn_loop succs in_degree (filter (\<lambda>i. in_degree ! i = 0) [0..<n]) []"

section \<open>Correctness of the rows\<close>

definition out_deg :: "edges \<Rightarrow> NodeId \<Rightarrow> nat" where
  "out_deg es a = length (filter (\<lambda>e. fst e = a) es)"

definition in_deg :: "edges \<Rightarrow> NodeId \<Rightarrow> nat" where
  "in_deg es b = length (filter (\<lambda>e. snd e = b) es)"

definition row_start :: "edges \<Rightarrow> NodeId \<Rightarrow> nat" where
  "row_start es a = length (filter (\<lambda>e. fst e < a) es)"

definition targets :: "edges \<Rightarrow> NodeId \<Rightarrow> NodeId list" where
  "targets es a = map snd (filter (\<lambda>e. fst e = a) es)"

definition in_bounds :: "nat \<Rightarrow> edges \<Rightarrow> bool" where
  "in_bounds n es \<longleftrightarrow> (\<forall>e\<in>set es. fst e < n \<and> snd e < n)"

lemma row_start_Suc: "row_start es (Suc a) = row_start es a + out_deg es a"
  by (induction es) (auto simp: row_start_def out_deg_def less_Suc_eq)

lemma row_start_mono: "a \<le> b \<Longrightarrow> row_start es a \<le> row_start es b"
  by (induction b rule: nat_induct_at_least [of a]) (auto simp: row_start_Suc)

lemma row_start_bounds: "in_bounds n es \<Longrightarrow> row_start es n = length es"
  by (simp add: row_start_def in_bounds_def filter_id_conv)

lemma row_start_0 [simp]: "row_start es 0 = 0"
  by (simp add: row_start_def)

lemma bump_map: "a < n \<Longrightarrow> bump a (map f [0..<n]) = map (\<lambda>i. if i = a then f i + 1 else f i) [0..<n]"
  by (auto simp: bump_def nth_list_update intro!: nth_equalityI)

lemma count_edges:
  assumes "in_bounds n es"
  shows "fold count_edge es (replicate (n + 1) 0, replicate n 0) =
    (0 # map (out_deg es) [0..<n], map (in_deg es) [0..<n])"
  using assms
proof (induction es rule: rev_induct)
  case Nil
  show ?case by (simp add: out_deg_def in_deg_def map_replicate_const)
next
  case (snoc e es)
  then have e: "fst e < n" "snd e < n" "in_bounds n es" by (auto simp: in_bounds_def)
  have "bump (fst e + 1) (0 # map (out_deg es) [0..<n]) = 0 # bump (fst e) (map (out_deg es) [0..<n])"
    by (simp add: bump_def)
  with snoc.IH e show ?case
    by (simp add: bump_map) (auto simp: out_deg_def in_deg_def)
qed

lemma prefix_sum_rows:
  "m \<le> n \<Longrightarrow> fold (\<lambda>i v. v[i + 1 := v ! (i + 1) + v ! i]) [0..<m] (0 # map (out_deg es) [0..<n]) =
     map (row_start es) [0..<Suc m] @ map (out_deg es) [m..<n]"
proof (induction m)
  case (Suc m)
  let ?v = "map (row_start es) [0..<Suc m] @ map (out_deg es) [m..<n]"
  have v: "?v = map (row_start es) [0..<Suc m] @ out_deg es m # map (out_deg es) [Suc m..<n]"
    using Suc.prems by (simp add: upt_conv_Cons)
  have l: "length (map (row_start es) [0..<Suc m]) = Suc m" by simp
  have "?v ! (m + 1) = out_deg es m" unfolding v by (metis l nth_append_length Suc_eq_plus1)
  moreover have "?v ! m = row_start es m" unfolding v by (subst nth_append) (simp del: upt_Suc)
  moreover have "?v[m + 1 := c] = map (row_start es) [0..<Suc m] @ c # map (out_deg es) [Suc m..<n]" for c
    unfolding v by (metis l list_update_length Suc_eq_plus1)
  ultimately show ?case
    using Suc by (simp add: row_start_Suc add.commute)
qed simp

lemma rows_disjoint:
  assumes "a \<noteq> b" "row_start es a \<le> i" "i < row_start es (Suc a)" "row_start es b \<le> j" "j < row_start es (Suc b)"
  shows "i \<noteq> j"
proof (cases "a < b")
  case True
  then have "row_start es (Suc a) \<le> row_start es b" by (intro row_start_mono) simp
  with assms show ?thesis by linarith
next
  case False
  with assms(1) have "row_start es (Suc b) \<le> row_start es a" by (intro row_start_mono) simp
  with assms show ?thesis by linarith
qed

lemma fill_edges:
  assumes "in_bounds n es" "es = ds @ rest" "length succs = length es"
  shows "\<exists>succs' cursor. fold fill_edge ds (succs, map (row_start es) [0..<n]) = (succs', cursor)
    \<and> length succs' = length es \<and> cursor = map (\<lambda>a. row_start es a + out_deg ds a) [0..<n]
    \<and> (\<forall>a<n. \<forall>k<out_deg ds a. succs' ! (row_start es a + k) = targets ds a ! k)"
  using assms(2)
proof (induction ds arbitrary: rest rule: rev_induct)
  case Nil
  with assms(3) show ?case by (simp add: out_deg_def)
next
  case (snoc e ds)
  from snoc.IH [of "e # rest"] snoc.prems obtain s c where
    s: "fold fill_edge ds (succs, map (row_start es) [0..<n]) = (s, c)" "length s = length es"
      "c = map (\<lambda>a. row_start es a + out_deg ds a) [0..<n]"
      "\<forall>a<n. \<forall>k<out_deg ds a. s ! (row_start es a + k) = targets ds a ! k" by auto
  let ?a = "fst e"
  have a: "?a < n" using assms(1) snoc.prems by (auto simp: in_bounds_def)
  have deg: "out_deg ds b + out_deg (e # rest) b = out_deg es b" for b
    using snoc.prems by (simp add: out_deg_def)
  have lt: "row_start es b + k < row_start es (Suc b)" if "k < out_deg ds b \<or> b = ?a \<and> k \<le> out_deg ds b" for b k
    using that deg [of b] by (auto simp: row_start_Suc out_deg_def)
  have len: "row_start es ?a + out_deg ds ?a < length es"
    using lt [of "out_deg ds ?a" ?a] row_start_mono [of "Suc ?a" n es] a row_start_bounds [OF assms(1)] by simp
  have "s[c ! ?a := snd e] ! (row_start es b + k) = targets (ds @ [e]) b ! k"
    if b: "b < n" "k < out_deg (ds @ [e]) b" for b k
  proof (cases "b = ?a")
    case True
    with b a s len show ?thesis
      by (auto simp: out_deg_def targets_def nth_append nth_list_update)
  next
    case False
    then have k: "k < out_deg ds b" using b by (simp add: out_deg_def)
    have "row_start es b + k \<noteq> row_start es ?a + out_deg ds ?a"
      using rows_disjoint [OF False, of es "row_start es b + k"] lt [of k b] lt [of "out_deg ds ?a" ?a] k by auto
    with False k b s a show ?thesis by (simp add: targets_def)
  qed
  moreover have "bump ?a c = map (\<lambda>b. row_start es b + out_deg (ds @ [e]) b) [0..<n]"
    using a s(3) by (auto simp: bump_def out_deg_def nth_list_update intro!: nth_equalityI)
  ultimately show ?case using s by simp
qed

theorem csr_rows:
  assumes "in_bounds n es" "length stale = length es"
    and "offsets = prefix_sum n (fst (fold count_edge es (replicate (n + 1) 0, replicate n 0)))"
    and "succs = fst (fold fill_edge es (stale, take n offsets))"
    and "a < n"
  shows "out_edges offsets succs a = targets es a" "offsets ! n = length es"
proof -
  have off: "offsets = map (row_start es) [0..<n + 1]"
    using assms(3) prefix_sum_rows [of n n es] count_edges [OF assms(1)] by (simp add: prefix_sum_def)
  then show "offsets ! n = length es" using row_start_bounds [OF assms(1)] by (simp del: upt_Suc)
  have "take n offsets = map (row_start es) [0..<n]" by (simp add: off take_map)
  with fill_edges [of n es es "[]" stale] assms have
    fill: "\<forall>a<n. \<forall>k<out_deg es a. succs ! (row_start es a + k) = targets es a ! k" by fastforce
  have "length (targets es a) = out_deg es a" by (simp add: targets_def out_deg_def)
  with fill off assms(5) show "out_edges offsets succs a = targets es a"
    by (auto simp: out_edges_def row_start_Suc simp del: upt_Suc intro!: nth_equalityI)
qed

section \<open>Correctness of the order\<close>

text \<open>The degree left: edges into a node from nodes not yet listed, some of which may be relaxed.\<close>

definition left_deg :: "edges \<Rightarrow> NodeId set \<Rightarrow> NodeId \<Rightarrow> nat" where
  "left_deg es done v = length (filter (\<lambda>e. snd e = v \<and> fst e \<notin> done) es)"

lemma relax_pair [simp]:
  "relax v (d, r) = (d[v := d ! v - 1], if v < length d \<and> d ! v = 1 then r @ [v] else r)"
  by (simp add: relax_def)

lemma fold_relax:
  assumes "\<forall>v\<in>set vs. v < n" "length d = n" "\<forall>v<n. count_list vs v \<le> d ! v"
  shows "\<exists>d' r'. fold relax vs (d, r) = (d', r @ r') \<and> length d' = n \<and> (\<forall>v<n. d' ! v = d ! v - count_list vs v)
    \<and> distinct r' \<and> set r' = {v. v < n \<and> 0 < d ! v \<and> d ! v = count_list vs v}"
  using assms
proof (induction vs arbitrary: d r)
  case (Cons v vs)
  let ?d = "d[v := d ! v - 1]" and ?r = "if d ! v = 1 then r @ [v] else r"
  from Cons.prems have v: "v < n" "0 < d ! v" by (auto dest: spec [of _ v])
  have "\<forall>u<n. count_list vs u \<le> ?d ! u"
    using Cons.prems v by (auto simp: nth_list_update dest: spec [of _ v])
  with Cons.IH [of ?d ?r] Cons.prems obtain d' r' where
    IH: "fold relax vs (?d, ?r) = (d', ?r @ r')" "length d' = n" "\<forall>u<n. d' ! u = ?d ! u - count_list vs u"
      "distinct r'" "set r' = {u. u < n \<and> 0 < ?d ! u \<and> ?d ! u = count_list vs u}" by auto
  have "\<forall>u<n. d' ! u = d ! u - count_list (v # vs) u"
    using IH(3) Cons.prems(2) v by (auto simp: nth_list_update)
  moreover have "fold relax (v # vs) (d, r) = (d', r @ ((if d ! v = 1 then [v] else []) @ r'))"
    using IH(1) v Cons.prems(2) by simp
  moreover have "distinct ((if d ! v = 1 then [v] else []) @ r')"
    using IH(4,5) v Cons.prems(2) by auto
  moreover have "set ((if d ! v = 1 then [v] else []) @ r') = {u. u < n \<and> 0 < d ! u \<and> d ! u = count_list (v # vs) u}"
  proof -
    have "count_list vs v \<le> d ! v - 1" using Cons.prems(3) v by (auto dest: spec [of _ v])
    then have "u \<in> set ((if d ! v = 1 then [v] else []) @ r') \<longleftrightarrow> u < n \<and> 0 < d ! u \<and> d ! u = count_list (v # vs) u" for u
    proof (cases "u = v")
      case True
      with IH(5) v Cons.prems(2) have "u \<in> set r' \<longleftrightarrow> 0 < d ! v - 1 \<and> d ! v - 1 = count_list vs v" by simp
      with True v \<open>count_list vs v \<le> _\<close> show ?thesis by (simp split: if_split) linarith
    next
      case False
      with IH(5) v Cons.prems(2) show ?thesis by auto
    qed
    then show ?thesis by blast
  qed
  ultimately show ?case using IH(2) by blast
qed auto

lemma left_deg_insert:
  assumes "a \<notin> done"
  shows "left_deg es done v = left_deg es (insert a done) v + count_list (targets es a) v"
  using assms by (induction es) (auto simp: left_deg_def targets_def)

definition topo_inv :: "nat \<Rightarrow> edges \<Rightarrow> nat list \<Rightarrow> NodeId list \<Rightarrow> NodeId list \<Rightarrow> bool" where
  "topo_inv n es d r topo \<longleftrightarrow> length d = n \<and> (\<forall>v<n. d ! v = left_deg es (set topo) v) \<and> distinct (topo @ r)
     \<and> set r = {v. v < n \<and> v \<notin> set topo \<and> d ! v = 0} \<and> set topo \<subseteq> {..<n}
     \<and> (\<forall>ys v zs. topo = ys @ v # zs \<longrightarrow> (\<forall>u. (u, v) \<in> set es \<longrightarrow> u \<in> set ys))"

lemma left_deg_0: "left_deg es done v = 0 \<longleftrightarrow> (\<forall>u. (u, v) \<in> set es \<longrightarrow> u \<in> done)"
  by (auto simp: left_deg_def filter_empty_conv)

lemma topo_inv_listed:
  assumes "topo_inv n es d r topo" "v \<in> set topo"
  shows "d ! v = 0"
proof -
  from assms(2) obtain ys zs where "topo = ys @ v # zs" by (meson split_list)
  with assms have "\<forall>u. (u, v) \<in> set es \<longrightarrow> u \<in> set topo" by (auto simp: topo_inv_def)
  with assms show ?thesis by (auto simp: topo_inv_def left_deg_0)
qed

lemma kahn_step:
  assumes b: "in_bounds n es" and inv: "topo_inv n es d r topo" and r: "r = r0 @ [a]"
    and s: "fold relax (targets es a) (d, r0) = (d', r')"
  shows "topo_inv n es d' r' (topo @ [a])"
proof -
  from inv r have a: "a < n" "a \<notin> set topo" "d ! a = 0" "distinct (topo @ a # r0)"
    and d: "length d = n" "\<forall>v<n. d ! v = left_deg es (set topo) v"
    and mem: "v \<in> set r0 \<longleftrightarrow> v < n \<and> v \<notin> set topo \<and> d ! v = 0 \<and> v \<noteq> a" for v
    by (auto simp: topo_inv_def)
  have deg: "d ! v = left_deg es (set (topo @ [a])) v + count_list (targets es a) v" if "v < n" for v
    using d(2) that left_deg_insert [OF a(2), of es v] by simp
  have "\<forall>v\<in>set (targets es a). v < n" using b by (auto simp: targets_def in_bounds_def)
  with fold_relax [of "targets es a" n d r0] d(1) deg s obtain rr where
    rr: "r' = r0 @ rr" "length d' = n" "\<forall>v<n. d' ! v = left_deg es (set (topo @ [a])) v" "distinct rr"
      "set rr = {v. v < n \<and> 0 < d ! v \<and> d ! v = count_list (targets es a) v}" by auto
  have new: "v \<in> set rr \<longleftrightarrow> v < n \<and> 0 < d ! v \<and> d' ! v = 0" for v
  proof (cases "v < n")
    case True
    then have "d' ! v = 0 \<longleftrightarrow> d ! v = count_list (targets es a) v" using rr(3) deg [OF True] by simp
    with True rr(5) show ?thesis by simp
  qed (simp add: rr(5))
  have old: "d' ! v = 0" if "v \<in> set r0" for v using that mem rr(3) deg [of v] by auto
  have "set r' = {v. v < n \<and> v \<notin> set (topo @ [a]) \<and> d' ! v = 0}"
    using rr(1) new mem old topo_inv_listed [OF inv] a(3) by auto
  moreover have "distinct ((topo @ [a]) @ r')"
    using rr(1,4) a(3,4) mem new topo_inv_listed [OF inv] by auto
  moreover have "u \<in> set ys" if "topo @ [a] = ys @ v # zs" "(u, v) \<in> set es" for ys v zs u
  proof (cases zs rule: rev_cases)
    case Nil
    with that have "v = a" "ys = topo" by auto
    with that(2) d(2) a(1,3) show ?thesis by (auto simp: left_deg_0)
  next
    case (snoc zs' z)
    with that(1) have "topo = ys @ v # zs'" by auto
    with inv that(2) show ?thesis by (auto simp: topo_inv_def)
  qed
  ultimately show ?thesis
    using rr(2,3) inv a(1) unfolding topo_inv_def by auto
qed

lemma kahn_loop_correct:
  assumes "in_bounds n es" "topo_inv n es d r topo" "\<And>a. a < n \<Longrightarrow> succs a = targets es a"
  shows "\<exists>d'. topo_inv n es d' [] (kahn_loop succs d r topo)"
  using assms(2,3)
proof (induction succs d r topo rule: kahn_loop.induct)
  case (1 succs d r topo)
  show ?case
  proof (cases r rule: rev_cases)
    case Nil
    with "1.prems" show ?thesis by (subst kahn_loop.simps) auto
  next
    case (snoc r0 a)
    obtain d' r' where s: "fold relax (succs a) (d, r0) = (d', r')" by force
    have "a < n" using "1.prems"(1) snoc by (auto simp: topo_inv_def)
    with "1.prems"(2) s have "topo_inv n es d' r' (topo @ [a])"
      using kahn_step [OF assms(1) "1.prems"(1) snoc] by auto
    with "1.IH" [OF _ refl refl] "1.prems"(2) snoc s show ?thesis
      by (subst kahn_loop.simps) (simp add: Let_def)
  qed
qed

lemma kahn_inv:
  assumes "in_bounds n es" "\<And>a. a < n \<Longrightarrow> succs a = targets es a"
  shows "\<exists>d'. topo_inv n es d' [] (kahn n succs (map (in_deg es) [0..<n]))"
proof -
  have "left_deg es {} v = in_deg es v" for v by (simp add: left_deg_def in_deg_def)
  then have "topo_inv n es (map (in_deg es) [0..<n]) (filter (\<lambda>i. map (in_deg es) [0..<n] ! i = 0) [0..<n]) []"
    by (auto simp: topo_inv_def)
  from kahn_loop_correct [OF assms(1) this assms(2)] show ?thesis by (simp add: kahn_def)
qed

text \<open>A finite set each of whose nodes has a predecessor inside contains a cycle.\<close>

lemma acyclic_has_source:
  assumes "finite V" "V \<noteq> {}" "acyclic E"
  shows "\<exists>v\<in>V. \<forall>u\<in>V. (u, v) \<notin> E"
proof -
  have "finite (E \<inter> V \<times> V)" using assms(1) by simp
  moreover have "acyclic (E \<inter> V \<times> V)" using assms(3) by (rule acyclic_subset) auto
  ultimately have "wf (E \<inter> V \<times> V)" by (rule finite_acyclic_wf)
  with assms(2) obtain v where "v \<in> V" "\<forall>u. (u, v) \<in> E \<inter> V \<times> V \<longrightarrow> u \<notin> V" by (metis wfE_min ex_in_conv)
  then show ?thesis by blast
qed

theorem kahn_correct:
  assumes "in_bounds n es" "\<And>a. a < n \<Longrightarrow> succs a = targets es a"
    and "topo = kahn n succs (map (in_deg es) [0..<n])"
  shows "length topo = n \<longleftrightarrow> acyclic (set es)" "distinct topo" "set topo \<subseteq> {..<n}"
    "topo = ys @ v # zs \<Longrightarrow> (u, v) \<in> set es \<Longrightarrow> u \<in> set ys"
proof -
  from kahn_inv [OF assms(1,2)] assms(3) obtain d where inv: "topo_inv n es d [] topo" by blast
  then show dist: "distinct topo" and sub: "set topo \<subseteq> {..<n}"
    and ord: "\<And>ys v zs u. topo = ys @ v # zs \<Longrightarrow> (u, v) \<in> set es \<Longrightarrow> u \<in> set ys"
    by (auto simp: topo_inv_def)
  have len: "length topo = n \<longleftrightarrow> set topo = {..<n}"
    using dist sub by (metis card_lessThan card_subset_eq distinct_card finite_lessThan)
  show "length topo = n \<longleftrightarrow> acyclic (set es)"
  proof
    assume "length topo = n"
    with len have all: "set topo = {..<n}" by simp
    let ?pos = "\<lambda>v. THE k. k < length topo \<and> topo ! k = v"
    have pos: "?pos (topo ! k) = k" if "k < length topo" for k
      using that dist by (auto simp: nth_eq_iff_index_eq)
    have "?pos u < ?pos v" if e: "(u, v) \<in> set es" for u v
    proof -
      from e assms(1) all obtain k where k: "k < length topo" "topo ! k = v"
        by (metis in_bounds_def in_set_conv_nth lessThan_iff snd_conv)
      then have "topo = take k topo @ v # drop (Suc k) topo" by (metis id_take_nth_drop)
      from ord [OF this e] obtain j where "j < k" "topo ! j = u" using k by (auto simp: in_set_conv_nth)
      with k pos [of j] pos [of k] show ?thesis by auto
    qed
    then have "set es \<subseteq> measure ?pos" by auto
    then have "wf (set es)" by (rule wf_subset [OF wf_measure])
    then show "acyclic (set es)" by (rule wf_acyclic)
  next
    assume acyc: "acyclic (set es)"
    show "length topo = n"
    proof (rule ccontr)
      assume "length topo \<noteq> n"
      with len sub have "{..<n} - set topo \<noteq> {}" by auto
      from acyclic_has_source [OF _ this acyc] obtain v where
        v: "v < n" "v \<notin> set topo" "\<forall>u\<in>{..<n} - set topo. (u, v) \<notin> set es" by auto
      with assms(1) have "\<forall>u. (u, v) \<in> set es \<longrightarrow> u \<in> set topo" by (force simp: in_bounds_def)
      then have "left_deg es (set topo) v = 0" by (simp add: left_deg_0)
      with v(1,2) inv show False by (auto simp: topo_inv_def)
    qed
  qed
qed

end
