(* ===== verification/Porf.thy ===== *)
theory Porf
  imports Graph_Queries Csr_Kahn
begin

text \<open>
  The causal-order cache of \<^verbatim>\<open>include/dpor/model/exploration_graph.hpp\<close>: the adjacency of
  immediate program order and reads-from, the cycle check, the vector clocks computed in
  topological order, and the query \<^verbatim>\<open>porf_contains\<close>. The query mutates the cache in the sources
  (a mutable member); the model returns the graph with the cache filled. The per-thread scratch
  buffers are local values, except the successor buffer, whose stale contents are a parameter.
\<close>

section \<open>Adjacency and topological order\<close>

record PorfBuildScratch =
  offsets :: "nat list"
  adj_successors :: "EventId list"
  topo_order :: "EventId list"
  po_pred :: "EventId option list"

definition po_pairs :: "EventId list \<Rightarrow> (EventId \<times> EventId) list" where
  "po_pairs ids = zip ids (tl ids)"

definition build_porf_adjacency_and_order ::
    "EventId list \<Rightarrow> 'v ExplorationGraph \<Rightarrow> (bool \<times> PorfBuildScratch) result" where
  "build_porf_adjacency_and_order stale x =
     (let n = xg_event_count x;
          po = concat (map po_pairs (thread_event_ids x));
          counts = fold count_edge po (replicate (n + 1) 0, replicate n 0);
          preds = fold (\<lambda>(a, b) v. v[b := Some a]) po (replicate n None)
      in bind_result (for_each_validated_rf_edge (\<lambda>s r c. Inr (count_edge (s, r) c)) (graph x) counts) (\<lambda>counts.
         let offs = prefix_sum n (fst counts);
             filled = fold fill_edge po (resize (offs ! n) 0 stale, take n offs)
         in bind_result (for_each_validated_rf_edge (\<lambda>s r f. Inr (fill_edge (s, r) f)) (graph x) filled) (\<lambda>filled.
            let topo = kahn n (out_edges offs (fst filled)) (snd counts)
            in Inr (length topo = n,
                    \<lparr>offsets = offs, adj_successors = fst filled, topo_order = topo,
                     po_pred = preds\<rparr>))))"

definition has_causal_cycle_without_cache :: "EventId list \<Rightarrow> 'v ExplorationGraph \<Rightarrow> bool result" where
  "has_causal_cycle_without_cache stale x = map_result (\<lambda>r. \<not> fst r) (build_porf_adjacency_and_order stale x)"

section \<open>Vector clocks\<close>

definition clock_row :: "nat \<Rightarrow> nat list \<Rightarrow> EventId \<Rightarrow> nat list" where
  "clock_row width cs i = take width (drop (i * width) cs)"

definition set_clock_row :: "nat \<Rightarrow> EventId \<Rightarrow> nat list \<Rightarrow> nat list \<Rightarrow> nat list" where
  "set_clock_row width i row cs = take (i * width) cs @ row @ drop (i * width + width) cs"

definition assign_clock_index :: "EventId list \<Rightarrow> nat option list \<times> nat \<Rightarrow> nat option list \<times> nat" where
  "assign_clock_index ids s = (case s of (idx, k) \<Rightarrow>
     if ids = [] then (idx @ [None], k) else (idx @ [Some k], k + 1))"

definition assign_positions :: "EventId list \<Rightarrow> nat list \<Rightarrow> nat list" where
  "assign_positions ids pos = fold (\<lambda>(p, i) v. v[i := p]) (enumerate 0 ids) pos"

definition clock_step ::
    "'v event list \<Rightarrow> nat \<Rightarrow> EventId option list \<Rightarrow> EventId option list \<Rightarrow> nat option list \<Rightarrow> nat list
     \<Rightarrow> EventId \<Rightarrow> nat list \<Rightarrow> nat list" where
  "clock_step evs width preds sources clock_index pos i cs =
     (let row = clock_row width cs i;
          row1 = (case preds ! i of Some p \<Rightarrow> clock_row width cs p | None \<Rightarrow> row);
          row2 = (case sources ! i of Some s \<Rightarrow> map2 max row1 (clock_row width cs s) | None \<Rightarrow> row1)
      in case clock_index ! thread (evs ! i) of
           Some ci \<Rightarrow> set_clock_row width i (row2[ci := pos ! i + 1]) cs
         | None \<Rightarrow> cs)"

definition empty_porf_cache :: PorfCache where
  "empty_porf_cache = \<lparr>clocks = [], pc_position_in_thread = [], thread_clock_index = [], num_threads = 0,
     has_cycle = False\<rparr>"

definition compute_porf_cache :: "EventId list \<Rightarrow> 'v ExplorationGraph \<Rightarrow> PorfCache result" where
  "compute_porf_cache stale x =
     (let n = xg_event_count x
      in if n = 0 then Inr empty_porf_cache
         else bind_result (build_porf_adjacency_and_order stale x) (\<lambda>(acyc, scratch).
           case fold assign_clock_index (thread_event_ids x) ([], 0) of
             (clock_index, width) \<Rightarrow>
               (let pos = fold assign_positions (thread_event_ids x) (replicate n 0);
                    cache = \<lparr>clocks = [], pc_position_in_thread = pos, thread_clock_index = clock_index,
                             num_threads = width, has_cycle = False\<rparr>
                in if \<not> acyc then Inr (cache\<lparr>has_cycle := True\<rparr>)
                   else let sources = fold (\<lambda>(r, s) v. case s of from_send i \<Rightarrow> v[r := Some i] | bottom \<Rightarrow> v)
                                        (rf_entries (reads_from (graph x))) (replicate n None)
                        in Inr (cache\<lparr>clocks :=
                             fold (clock_step (xg_events x) width (po_pred scratch) sources clock_index pos)
                               (topo_order scratch) (replicate (n * width) 0)\<rparr>))))"

definition ensure_porf_cache :: "EventId list \<Rightarrow> 'v ExplorationGraph \<Rightarrow> (PorfCache \<times> 'v ExplorationGraph) result" where
  "ensure_porf_cache stale x =
     (case porf_cache x of
        Some c \<Rightarrow> Inr (c, x)
      | None \<Rightarrow> map_result (\<lambda>c. (c, x\<lparr>porf_cache := Some c\<rparr>)) (compute_porf_cache stale x))"

definition cache_lookup :: "'v ExplorationGraph \<Rightarrow> PorfCache \<Rightarrow> EventId \<Rightarrow> EventId \<Rightarrow> bool" where
  "cache_lookup x c a b =
     (case nth_or None (thread_clock_index c) (thread (xg_events x ! a)) of
        None \<Rightarrow> False
      | Some ci \<Rightarrow> clock_row (num_threads c) (clocks c) b ! ci \<ge> pc_position_in_thread c ! a + 1)"

definition porf_contains ::
    "EventId list \<Rightarrow> EventId \<Rightarrow> EventId \<Rightarrow> 'v ExplorationGraph \<Rightarrow> (bool \<times> 'v ExplorationGraph) result" where
  "porf_contains stale a b x =
     (if \<not> is_valid_event_id (graph x) a \<or> \<not> is_valid_event_id (graph x) b
      then Inl (precondition_error ''event id not found in exploration graph'')
      else bind_result (ensure_porf_cache stale x) (\<lambda>(c, y).
             if has_cycle c
             then Inl (precondition_error ''porf_contains called on a graph with a causal cycle'')
             else if a = b then Inr (False, y)
             else Inr (cache_lookup y c a b, y)))"

definition has_causal_cycle :: "EventId list \<Rightarrow> 'v ExplorationGraph \<Rightarrow> (bool \<times> 'v ExplorationGraph) result" where
  "has_causal_cycle stale x = map_result (\<lambda>(c, y). (has_cycle c, y)) (ensure_porf_cache stale x)"

section \<open>The edges of the adjacency\<close>

definition rf_edges_of :: "EventId \<times> ReadsFromSource \<Rightarrow> (EventId \<times> EventId) list" where
  "rf_edges_of e = (case snd e of from_send i \<Rightarrow> [(i, fst e)] | bottom \<Rightarrow> [])"

lemma rf_edges_of_simps [simp]: "rf_edges_of (r, from_send i) = [(i, r)]" "rf_edges_of (r, bottom) = []"
  by (simp_all add: rf_edges_of_def)

lemma in_rf_edges_of: "(i, r) \<in> set (rf_edges_of e) \<longleftrightarrow> e = (r, from_send i)"
  by (cases e) (auto simp: rf_edges_of_def split: ReadsFromSource.splits)

definition rf_edge_list :: "ReadsFromRelation \<Rightarrow> (EventId \<times> EventId) list" where
  "rf_edge_list m = concat (map rf_edges_of (rf_entries m))"

lemma set_rf_edge_list: "set (rf_edge_list m) = rf_of (rf_find m)"
proof -
  have "(i, r) \<in> set (rf_edge_list m) \<longleftrightarrow> (r, from_send i) \<in> set (rf_entries m)" for i r
    by (simp add: rf_edge_list_def in_rf_edges_of)
  then show ?thesis by (auto simp: rf_of_def set_rf_entries)
qed

lemma for_each_validated_pure:
  assumes "rf_valid (events g) (rf_find (reads_from g))"
  shows "for_each_validated_rf_edge (\<lambda>s r c. Inr (f (s, r) c)) g c = Inr (fold f (rf_edge_list (reads_from g)) c)"
proof -
  let ?step = "\<lambda>entry s. bind_result (validate_rf_entry g entry) (\<lambda>edge.
         case edge of None \<Rightarrow> Inr s | Some (source, receive) \<Rightarrow> Inr (f (source, receive) s))"
  have "fold_result ?step es c = Inr (fold f (concat (map rf_edges_of es)) c)"
    if "\<forall>rs\<in>set es. entry_ok (events g) rs" for es
    using that
  proof (induction es arbitrary: c)
    case (Cons e es)
    then show ?case by (cases e; cases "snd e") (auto simp: validate_rf_entry_eq(1))
  qed simp
  from this [of "rf_entries (reads_from g)"] assms show ?thesis
    by (simp add: for_each_validated_rf_edge_def rf_edge_list_def rf_valid_entries)
qed

definition porf_edges :: "'v ExplorationGraph \<Rightarrow> (EventId \<times> EventId) list" where
  "porf_edges x = concat (map po_pairs (thread_event_ids x)) @ rf_edge_list (reads_from (graph x))"

lemma po_pairs_nth: "set (po_pairs ids) = {(ids ! p, ids ! Suc p) | p. Suc p < length ids}"
proof -
  have "(ids ! p, ids ! Suc p) \<in> set (po_pairs ids)" if "Suc p < length ids" for p
    unfolding po_pairs_def in_set_zip using that by (intro exI [of _ p]) (simp add: nth_tl)
  moreover have "\<exists>p. e = (ids ! p, ids ! Suc p) \<and> Suc p < length ids" if "e \<in> set (po_pairs ids)" for e
  proof -
    from that obtain p where "ids ! p = fst e" "tl ids ! p = snd e" "p < length ids - 1"
      unfolding po_pairs_def in_set_zip by auto
    then show ?thesis by (intro exI [of _ p]) (simp add: nth_tl prod_eq_iff)
  qed
  ultimately show ?thesis by blast
qed

lemma po_pairs_trancl:
  "p < q \<Longrightarrow> q < length ids \<Longrightarrow> (ids ! p, ids ! q) \<in> (set (po_pairs ids))\<^sup>+"
proof (induction q)
  case (Suc q)
  have e: "(ids ! q, ids ! Suc q) \<in> set (po_pairs ids)" using Suc.prems by (auto simp: po_pairs_nth)
  show ?case
  proof (cases "p = q")
    case False
    with Suc have "(ids ! p, ids ! q) \<in> (set (po_pairs ids))\<^sup>+" by simp
    with e show ?thesis by (rule trancl_into_trancl [rotated])
  qed (use e in auto)
qed simp

lemma set_thread_event_ids:
  assumes "wf_core x"
  shows "set (concat (map po_pairs (thread_event_ids x))) = (\<Union>t. set (po_pairs (thread_ids (xg_events x) t)))"
proof -
  note c = wf_coreD(3) [OF assms]
  have "set (thread_event_ids x) = (\<lambda>t. thread_ids (xg_events x) t) ` {..<length (thread_state x)}"
    using caches_okD(1,5) [OF c] by (auto simp: set_conv_nth image_iff) metis
  moreover have "set (po_pairs (thread_ids (xg_events x) t)) = {}" if "\<not> t < length (thread_state x)" for t
    using caches_ok_beyond(1) [OF c that] by (simp add: po_pairs_def)
  then have "(\<Union>t. set (po_pairs (thread_ids (xg_events x) t))) =
      (\<Union>t\<in>{..<length (thread_state x)}. set (po_pairs (thread_ids (xg_events x) t)))" by fastforce
  ultimately show ?thesis by simp
qed

lemma imm_po:
  "(\<Union>t. set (po_pairs (thread_ids evs t))) \<subseteq> po_of evs" "po_of evs \<subseteq> (\<Union>t. set (po_pairs (thread_ids evs t)))\<^sup>+"
proof -
  show "(\<Union>t. set (po_pairs (thread_ids evs t))) \<subseteq> po_of evs"
  proof clarify
    fix a b t assume "(a, b) \<in> set (po_pairs (thread_ids evs t))"
    then obtain p where p: "Suc p < length (thread_ids evs t)" "a = thread_ids evs t ! p" "b = thread_ids evs t ! Suc p"
      by (auto simp: po_pairs_nth)
    with sorted_thread_ids [of evs t] have "a < b" by (simp add: sorted_wrt_iff_nth_less)
    moreover have "a \<in> set (thread_ids evs t)" "b \<in> set (thread_ids evs t)" using p by auto
    ultimately show "(a, b) \<in> po_of evs" by (simp add: po_of_def set_thread_ids)
  qed
  show "po_of evs \<subseteq> (\<Union>t. set (po_pairs (thread_ids evs t)))\<^sup>+"
  proof clarify
    fix a b assume ab: "(a, b) \<in> po_of evs"
    let ?ids = "thread_ids evs (thread (evs ! b))"
    from ab have "a \<in> set ?ids" "b \<in> set ?ids" "a < b" by (auto simp: po_of_def set_thread_ids)
    then obtain p q where pq: "p < length ?ids" "a = ?ids ! p" "q < length ?ids" "b = ?ids ! q"
      by (metis in_set_conv_nth)
    with \<open>a < b\<close> sorted_thread_ids [of evs "thread (evs ! b)"] have "p < q"
      by (metis linorder_cases order_less_asym sorted_wrt_iff_nth_less)
    from po_pairs_trancl [OF this pq(3)] have "(a, b) \<in> (set (po_pairs ?ids))\<^sup>+"
      unfolding pq(2) [symmetric] pq(4) [symmetric] .
    then show "(a, b) \<in> (\<Union>t. set (po_pairs (thread_ids evs t)))\<^sup>+" by (rule trancl_mono) blast
  qed
qed

lemma trancl_between: "A \<subseteq> B \<Longrightarrow> B \<subseteq> A\<^sup>+ \<Longrightarrow> A\<^sup>+ = B\<^sup>+"
proof
  assume "A \<subseteq> B"
  then show "A\<^sup>+ \<subseteq> B\<^sup>+" by (auto intro: trancl_mono)
  assume B: "B \<subseteq> A\<^sup>+"
  show "B\<^sup>+ \<subseteq> A\<^sup>+"
  proof clarify
    fix a b assume "(a, b) \<in> B\<^sup>+"
    then show "(a, b) \<in> A\<^sup>+" by (induction rule: trancl_induct) (use B in \<open>auto intro: trancl_trans\<close>)
  qed
qed

lemma porf_edges_set:
  assumes "wf_core x"
  shows "set (porf_edges x) \<subseteq> porf x" "(set (porf_edges x))\<^sup>+ = (porf x)\<^sup>+"
proof -
  let ?I = "\<Union>t. set (po_pairs (thread_ids (xg_events x) t))"
  have eq: "set (porf_edges x) = ?I \<union> rf_of (xg_rf x)"
    using set_thread_event_ids [OF assms] by (simp add: porf_edges_def set_rf_edge_list)
  with imm_po(1) show sub: "set (porf_edges x) \<subseteq> porf x" by (auto simp: causal_def)
  have "po_of (xg_events x) \<subseteq> (set (porf_edges x))\<^sup>+"
    using imm_po(2) [of "xg_events x"] trancl_mono [of _ ?I "set (porf_edges x)"] unfolding eq by blast
  moreover have "rf_of (xg_rf x) \<subseteq> (set (porf_edges x))\<^sup>+" unfolding eq by auto
  ultimately have "porf x \<subseteq> (set (porf_edges x))\<^sup>+" by (simp add: causal_def)
  with sub show "(set (porf_edges x))\<^sup>+ = (porf x)\<^sup>+" by (rule trancl_between)
qed

lemma porf_edges_acyclic: "wf_core x \<Longrightarrow> acyclic (set (porf_edges x)) \<longleftrightarrow> acyclic (porf x)"
  by (simp add: acyclic_def porf_edges_set(2))

lemma porf_edges_bounds:
  assumes "wf_core x"
  shows "in_bounds (length (xg_events x)) (porf_edges x)"
  using porf_edges_set(1) [OF assms] causal_bounded [OF wf_coreD(2) [OF assms]]
  by (fastforce simp: in_bounds_def)

section \<open>The cycle check\<close>

lemma fold_preds:
  assumes "distinct (map snd es)" "in_bounds n es"
  shows "b < n \<Longrightarrow> fold (\<lambda>(a, b) v. v[b := Some a]) es (replicate n None) ! b = Some a \<longleftrightarrow> (a, b) \<in> set es"
    and "length (fold (\<lambda>(a, b) v. v[b := Some a]) es (replicate n None)) = n"
proof -
  have "length (fold (\<lambda>(a, b) v. v[b := Some a]) es (replicate n None)) = n \<and>
      (\<forall>b<n. \<forall>a. fold (\<lambda>(a, b) v. v[b := Some a]) es (replicate n None) ! b = Some a \<longleftrightarrow> (a, b) \<in> set es)"
    using assms
  proof (induction es rule: rev_induct)
    case (snoc e es)
    obtain a b where e: "e = (a, b)" by force
    from snoc.prems e have "in_bounds n es" "distinct (map snd es)" "\<forall>a'. (a', b) \<notin> set es" "b < n"
      by (auto simp: in_bounds_def image_iff)
    with snoc.IH e show ?case by (auto simp: nth_list_update)
  qed simp
  then show "b < n \<Longrightarrow> fold (\<lambda>(a, b) v. v[b := Some a]) es (replicate n None) ! b = Some a \<longleftrightarrow> (a, b) \<in> set es"
    "length (fold (\<lambda>(a, b) v. v[b := Some a]) es (replicate n None)) = n" by blast+
qed

text \<open>Each event has at most one immediate program-order predecessor.\<close>

lemma distinct_snd_po_pairs: "distinct ids \<Longrightarrow> distinct (map snd (po_pairs ids))"
  by (simp add: po_pairs_def map_snd_zip_take distinct_tl)

lemma distinct_snd_po:
  assumes "wf_core x"
  shows "distinct (map snd (concat (map po_pairs (thread_event_ids x))))"
proof -
  note c = wf_coreD(3) [OF assms]
  let ?N = "length (thread_state x)"
  have tes: "thread_event_ids x = map (thread_ids (xg_events x)) [0..<?N]"
    using caches_okD(1,5) [OF c] by (intro nth_equalityI) auto
  have "distinct (map snd (concat (map po_pairs (map (thread_ids evs) [0..<k]))))" for k and evs :: "'a event list"
  proof (induction k)
    case (Suc k)
    have sub: "snd ` set (po_pairs ids) \<subseteq> set ids" for ids :: "nat list" by (auto simp: po_pairs_nth)
    have "distinct (thread_ids evs k)" using sorted_thread_ids [of evs k] by (simp add: strict_sorted_iff)
    then have d: "distinct (map snd (po_pairs (thread_ids evs k)))" by (rule distinct_snd_po_pairs)
    have "snd e \<in> {i. thread (evs ! i) = t}" if "e \<in> set (po_pairs (thread_ids evs t))" for e t
      using sub [of "thread_ids evs t"] that by (auto simp: set_thread_ids)
    then have "snd ` set (po_pairs (thread_ids evs k)) \<subseteq> {i. thread (evs ! i) = k}"
      "snd ` set (concat (map po_pairs (map (thread_ids evs) [0..<k]))) \<subseteq> {i. thread (evs ! i) < k}"
      by fastforce+
    with Suc d show ?case by (simp add: disjoint_iff) blast
  qed simp
  then show ?thesis by (simp add: tes)
qed

lemma csr_total:
  assumes "in_bounds n es"
  shows "prefix_sum n (fst (fold count_edge es (replicate (n + 1) 0, replicate n 0))) ! n = length es"
  using prefix_sum_rows [of n n es] count_edges [OF assms] row_start_bounds [OF assms]
  by (simp add: prefix_sum_def nth_append)

lemma build_porf_correct:
  assumes wf: "wf_core x"
  shows "\<exists>sc. build_porf_adjacency_and_order stale x = Inr (acyclic (porf x), sc)
    \<and> po_pred sc = fold (\<lambda>(a, b) v. v[b := Some a]) (concat (map po_pairs (thread_event_ids x)))
        (replicate (length (xg_events x)) None)
    \<and> distinct (topo_order sc) \<and> set (topo_order sc) \<subseteq> {..<length (xg_events x)}
    \<and> (acyclic (porf x) \<longrightarrow> set (topo_order sc) = {..<length (xg_events x)})
    \<and> (\<forall>ys v zs u. topo_order sc = ys @ v # zs \<longrightarrow> (u, v) \<in> set (porf_edges x) \<longrightarrow> u \<in> set ys)"
proof -
  let ?n = "length (xg_events x)" and ?es = "porf_edges x"
  let ?c = "fold count_edge ?es (replicate (?n + 1) 0, replicate ?n 0)"
  let ?offs = "prefix_sum ?n (fst ?c)"
  let ?f = "fold fill_edge ?es (resize (length ?es) 0 stale, take ?n ?offs)"
  let ?topo = "kahn ?n (out_edges ?offs (fst ?f)) (snd ?c)"
  note b = porf_edges_bounds [OF wf] and pure = for_each_validated_pure [OF wf_coreD(2) [OF wf]]
  have tot: "?offs ! ?n = length ?es" by (rule csr_total [OF b])
  have deg: "snd ?c = map (in_deg ?es) [0..<?n]" by (simp only: count_edges [OF b] snd_conv)
  have rows: "out_edges ?offs (fst ?f) a = targets ?es a" if "a < ?n" for a
    by (rule csr_rows(1) [OF b _ refl refl that]) simp
  note k = kahn_correct [OF b rows, of ?topo, unfolded deg, OF _ refl, folded deg]
  let ?sc = "\<lparr>offsets = ?offs, adj_successors = fst ?f, topo_order = ?topo,
    po_pred = fold (\<lambda>(a, b) v. v[b := Some a]) (concat (map po_pairs (thread_event_ids x))) (replicate ?n None)\<rparr>"
  have "build_porf_adjacency_and_order stale x = Inr (length ?topo = ?n, ?sc)"
    using tot by (simp add: build_porf_adjacency_and_order_def Let_def xg_event_count_def pure porf_edges_def
        del: replicate_Suc)
  moreover have "length ?topo = ?n \<longleftrightarrow> acyclic (porf x)" using k(1) porf_edges_acyclic [OF wf] by simp
  moreover have "set ?topo = {..<?n}" if "acyclic (porf x)"
    using that calculation(2) k(2,3) by (metis card_lessThan card_subset_eq distinct_card finite_lessThan)
  ultimately show ?thesis using k(2,3,4) by auto
qed

section \<open>Rows, positions and clock indices\<close>

lemma row_bound: "i < n \<Longrightarrow> k < w \<Longrightarrow> i * w + k < n * (w :: nat)"
proof -
  assume "i < n" "k < w"
  then have "i * w + k < i * w + w" "(i + 1) * w \<le> n * w" by (simp, intro mult_le_mono1) simp
  then show ?thesis by simp
qed

lemma clock_row_nth:
  assumes "length cs = n * w" "i < n" "k < w"
  shows "clock_row w cs i ! k = cs ! (i * w + k)"
  using assms row_bound [OF assms(2,3)] by (simp add: clock_row_def)

lemma length_clock_row:
  assumes "length cs = n * w" "i < n"
  shows "length (clock_row w cs i) = w"
proof -
  have "(i + 1) * w \<le> n * w" using assms(2) by (intro mult_le_mono1) simp
  then show ?thesis using assms(1) by (simp add: clock_row_def)
qed

lemma length_set_clock_row:
  assumes "length cs = n * w" "i < n" "length row = w"
  shows "length (set_clock_row w i row cs) = n * w"
proof -
  have "(i + 1) * w \<le> n * w" using assms(2) by (intro mult_le_mono1) simp
  then show ?thesis using assms by (simp add: set_clock_row_def)
qed

lemma clock_row_set:
  assumes "length cs = n * w" "i < n" "length row = w" "j < n"
  shows "clock_row w (set_clock_row w i row cs) j = (if j = i then row else clock_row w cs j)"
proof (rule nth_equalityI)
  note len = length_set_clock_row [OF assms(1-3)]
  have iw: "i * w + w \<le> n * w" using mult_le_mono1 [of "i + 1" n w] assms(2) by simp
  then have m: "min (n * w) (i * w) = i * w" by simp
  show "length (clock_row w (set_clock_row w i row cs) j) = length (if j = i then row else clock_row w cs j)"
    using length_clock_row [OF len assms(4)] length_clock_row [OF assms(1,4)] assms(3) by simp
  fix k assume "k < length (clock_row w (set_clock_row w i row cs) j)"
  then have k: "k < w" using length_clock_row [OF len assms(4)] by simp
  have "set_clock_row w i row cs ! (j * w + k) = (if j = i then row ! k else cs ! (j * w + k))"
  proof (cases j i rule: linorder_cases)
    case less
    then have "j * w + k < i * w" using row_bound [of j i k w] k by simp
    then show ?thesis using less iw assms(1) by (simp add: set_clock_row_def nth_append)
  next
    case equal
    then show ?thesis using iw assms(1,3) k by (simp add: set_clock_row_def nth_append m)
  next
    case greater
    then have "i * w + w \<le> j * w" using mult_le_mono1 [of "i + 1" j w] by simp
    then have "\<not> j * w + k - i * w < w" by linarith
    with \<open>i * w + w \<le> j * w\<close> show ?thesis using greater iw assms(1,3) k row_bound [OF assms(4) k]
      by (simp add: set_clock_row_def nth_append m)
  qed
  then show "clock_row w (set_clock_row w i row cs) j ! k = (if j = i then row else clock_row w cs j) ! k"
    using clock_row_nth [OF len assms(4) k] clock_row_nth [OF assms(1,4) k] by simp
qed

definition pos_of :: "'v event list \<Rightarrow> EventId \<Rightarrow> nat" where
  "pos_of evs i = length (thread_ids (take i evs) (thread (evs ! i)))"

lemma pos_of_nth: "p < length (thread_ids evs t) \<Longrightarrow> pos_of evs (thread_ids evs t ! p) = p"
proof -
  assume p: "p < length (thread_ids evs t)"
  let ?i = "thread_ids evs t ! p"
  have i: "?i < length evs" "thread (evs ! ?i) = t" using nth_mem [OF p] by (auto simp: set_thread_ids)
  then show ?thesis
    using length_filter_less_nth [OF sorted_thread_ids p] by (simp add: pos_of_def thread_ids_take)
qed

lemma assign_positions_correct:
  assumes "distinct ids" "\<forall>i\<in>set ids. i < length v"
  shows "length (assign_positions ids v) = length v"
    "\<And>p. p < length ids \<Longrightarrow> assign_positions ids v ! (ids ! p) = p"
    "\<And>i. i \<notin> set ids \<Longrightarrow> assign_positions ids v ! i = v ! i"
proof -
  have "length (fold (\<lambda>(p, i) v. v[i := p]) (enumerate k ids) v) = length v
      \<and> (\<forall>p<length ids. fold (\<lambda>(p, i) v. v[i := p]) (enumerate k ids) v ! (ids ! p) = k + p)
      \<and> (\<forall>i. i \<notin> set ids \<longrightarrow> fold (\<lambda>(p, i) v. v[i := p]) (enumerate k ids) v ! i = v ! i)" for k
    using assms
  proof (induction ids arbitrary: k v)
    case (Cons i ids)
    have IH: "length (fold (\<lambda>(p, i) v. v[i := p]) (enumerate (Suc k) ids) (v[i := k])) = length v"
      "\<forall>p<length ids. fold (\<lambda>(p, i) v. v[i := p]) (enumerate (Suc k) ids) (v[i := k]) ! (ids ! p) = Suc k + p"
      "\<forall>j. j \<notin> set ids \<longrightarrow> fold (\<lambda>(p, i) v. v[i := p]) (enumerate (Suc k) ids) (v[i := k]) ! j = v[i := k] ! j"
      using Cons.IH [of "v[i := k]" "Suc k"] Cons.prems by auto
    have i: "i \<notin> set ids" "i < length v" using Cons.prems by auto
    have "fold (\<lambda>(p, i) v. v[i := p]) (enumerate k (i # ids)) v ! ((i # ids) ! p) = k + p"
      if "p < length (i # ids)" for p
      using that IH(2,3) i by (cases p) auto
    with IH(1,3) i show ?case by auto
  qed simp
  from this [of 0] show "length (assign_positions ids v) = length v"
    "\<And>p. p < length ids \<Longrightarrow> assign_positions ids v ! (ids ! p) = p"
    "\<And>i. i \<notin> set ids \<Longrightarrow> assign_positions ids v ! i = v ! i"
    by (simp_all add: assign_positions_def)
qed

lemma assign_positions_threads:
  "length (fold assign_positions (map (thread_ids evs) [0..<k]) (replicate (length evs) 0)) = length evs
   \<and> (\<forall>i<length evs. thread (evs ! i) < k \<longrightarrow>
        fold assign_positions (map (thread_ids evs) [0..<k]) (replicate (length evs) 0) ! i = pos_of evs i)"
proof (induction k)
  case (Suc k)
  let ?v = "fold assign_positions (map (thread_ids evs) [0..<k]) (replicate (length evs) 0)"
  have d: "distinct (thread_ids evs k)" using sorted_thread_ids [of evs k] by (simp add: strict_sorted_iff)
  have lt: "\<forall>i\<in>set (thread_ids evs k). i < length ?v" using Suc by (simp add: set_thread_ids)
  note a = assign_positions_correct [OF d lt]
  have "assign_positions (thread_ids evs k) ?v ! i = pos_of evs i" if i: "i < length evs" "thread (evs ! i) < Suc k" for i
  proof (cases "thread (evs ! i) = k")
    case True
    with i obtain p where "p < length (thread_ids evs k)" "thread_ids evs k ! p = i"
      by (metis (mono_tags, lifting) in_set_conv_nth mem_Collect_eq set_thread_ids)
    with a(2) [of p] pos_of_nth [of p evs k] show ?thesis by simp
  next
    case False
    with i a(3) [of i] Suc show ?thesis by (simp add: set_thread_ids)
  qed
  with a(1) Suc show ?case by simp
qed simp

lemma assign_clock_index_pair:
  "assign_clock_index ids (idx, k) = (if ids = [] then (idx @ [None], k) else (idx @ [Some k], k + 1))"
  by (simp add: assign_clock_index_def)

lemma assign_clock_index_correct:
  "\<exists>idx w. fold assign_clock_index tes ([], 0) = (idx, w) \<and> length idx = length tes
    \<and> (\<forall>t<length tes. if tes ! t = [] then idx ! t = None else \<exists>k<w. idx ! t = Some k)
    \<and> (\<forall>t<length tes. \<forall>u<length tes. \<forall>k. idx ! t = Some k \<and> idx ! u = Some k \<longrightarrow> t = u)"
proof (induction tes rule: rev_induct)
  case (snoc ids tes)
  then obtain idx w where IH: "fold assign_clock_index tes ([], 0) = (idx, w)" "length idx = length tes"
    "\<forall>t<length tes. if tes ! t = [] then idx ! t = None else \<exists>k<w. idx ! t = Some k"
    "\<forall>t<length tes. \<forall>u<length tes. \<forall>k. idx ! t = Some k \<and> idx ! u = Some k \<longrightarrow> t = u" by auto
  have old: "k < w" if "t < length tes" "idx ! t = Some k" for t k
    using IH(3) that by (auto split: if_splits dest: spec [of _ t])
  show ?case
  proof (cases "ids = []")
    case True
    have "if (tes @ [ids]) ! t = [] then (idx @ [None]) ! t = None else \<exists>k<w. (idx @ [None]) ! t = Some k"
      if "t < length (tes @ [ids])" for t
      using that IH(2,3) True by (cases "t < length tes") (auto simp: nth_append less_Suc_eq split: if_splits)
    moreover have "t = u" if "t < length (tes @ [ids])" "u < length (tes @ [ids])"
        "(idx @ [None]) ! t = Some k" "(idx @ [None]) ! u = Some k" for t u k
      using that IH(2,4) by (cases "t < length tes"; cases "u < length tes") (auto simp: nth_append split: if_splits)
    moreover have "fold assign_clock_index (tes @ [ids]) ([], 0) = (idx @ [None], w)"
      using IH(1) True by (simp add: assign_clock_index_pair)
    ultimately show ?thesis using IH(2) by (intro exI [of _ "idx @ [None]"] exI [of _ w]) auto
  next
    case False
    let ?idx = "idx @ [Some w]"
    have "fold assign_clock_index (tes @ [ids]) ([], 0) = (?idx, Suc w)"
      using IH(1) False by (simp add: assign_clock_index_pair)
    moreover have "if (tes @ [ids]) ! t = [] then ?idx ! t = None else \<exists>k<Suc w. ?idx ! t = Some k"
      if "t < length (tes @ [ids])" for t
      using that IH(2,3) False by (cases "t < length tes") (auto simp: nth_append less_Suc_eq split: if_splits)
    moreover have "t = u" if "t < length (tes @ [ids])" "u < length (tes @ [ids])" "?idx ! t = Some k" "?idx ! u = Some k"
      for t u k
      using that IH(2,4) old [of t k] old [of u k]
      by (cases "t < length tes"; cases "u < length tes") (auto simp: nth_append split: if_splits)
    ultimately show ?thesis using IH(2) by (intro exI [of _ ?idx] exI [of _ "Suc w"]) auto
  qed
qed simp

section \<open>Clocks count causal predecessors\<close>

definition causes :: "'v ExplorationGraph \<Rightarrow> EventId \<Rightarrow> ThreadId \<Rightarrow> EventId set" where
  "causes x i t = {e. e < length (xg_events x) \<and> thread (xg_events x ! e) = t \<and> (e, i) \<in> (porf x)\<^sup>*}"

lemma finite_causes [simp]: "finite (causes x i t)"
  by (simp add: causes_def)

lemma causes_prefix:
  assumes "e \<in> causes x i t" "e' < e" "thread (xg_events x ! e') = t"
  shows "e' \<in> causes x i t"
proof -
  from assms have "(e', e) \<in> porf x" by (auto simp: causes_def causal_def po_of_def)
  with assms show ?thesis by (auto simp: causes_def intro: converse_rtrancl_into_rtrancl)
qed

lemma causes_nested: "causes x i t \<subseteq> causes x j t \<or> causes x j t \<subseteq> causes x i t"
proof (rule ccontr)
  assume "\<not> ?thesis"
  then obtain a b where ab: "a \<in> causes x i t" "a \<notin> causes x j t" "b \<in> causes x j t" "b \<notin> causes x i t" by blast
  then have "thread (xg_events x ! a) = t" "thread (xg_events x ! b) = t" "a \<noteq> b" by (auto simp: causes_def)
  with ab causes_prefix [of a x i t b] causes_prefix [of b x j t a] show False by (meson linorder_neqE_nat)
qed

lemma card_causes_Un: "card (causes x i t \<union> causes x j t) = max (card (causes x i t)) (card (causes x j t))"
  using causes_nested [of x i t j] by (auto simp: Un_absorb1 Un_absorb2 max_def dest: card_mono [rotated])
    (meson card_mono finite_causes le_antisym)+

lemma pos_of_card: "i < length evs \<Longrightarrow> pos_of evs i = card {e. e < i \<and> thread (evs ! e) = thread (evs ! i)}"
proof -
  assume i: "i < length evs"
  have "distinct (thread_ids (take i evs) (thread (evs ! i)))"
    using sorted_thread_ids by (metis strict_sorted_iff)
  then have "pos_of evs i = card (set (thread_ids (take i evs) (thread (evs ! i))))"
    by (simp add: pos_of_def distinct_card)
  also have "set (thread_ids (take i evs) (thread (evs ! i))) = {e. e < i \<and> thread (evs ! e) = thread (evs ! i)}"
    using i by (auto simp: set_thread_ids)
  finally show ?thesis .
qed

lemma causes_own:
  assumes "acyclic (porf x)" "i < length (xg_events x)"
  shows "causes x i (thread (xg_events x ! i)) = insert i {e. e < i \<and> thread (xg_events x ! e) = thread (xg_events x ! i)}"
proof -
  have "e \<le> i" if "e \<in> causes x i (thread (xg_events x ! i))" for e
  proof (rule ccontr)
    assume "\<not> e \<le> i"
    with that have "(i, e) \<in> porf x" "(e, i) \<in> (porf x)\<^sup>*"
      using assms(2) by (auto simp: causes_def causal_def po_of_def)
    then have "(i, i) \<in> (porf x)\<^sup>+" by (rule rtrancl_into_trancl2)
    with assms(1) show False by (auto simp: acyclic_def)
  qed
  moreover have "e \<in> causes x i (thread (xg_events x ! i))" if "e < i" "thread (xg_events x ! e) = thread (xg_events x ! i)" for e
    using that assms(2) by (auto simp: causes_def causal_def po_of_def)
  ultimately show ?thesis using assms(2) by (auto simp: causes_def order.order_iff_strict)
qed

lemma card_causes_own:
  assumes "acyclic (porf x)" "i < length (xg_events x)"
  shows "card (causes x i (thread (xg_events x ! i))) = pos_of (xg_events x) i + 1"
  by (simp add: causes_own [OF assms] pos_of_card [OF assms(2)])

text \<open>The causes of an event are those of its two immediate predecessors.\<close>

lemma causes_step:
  assumes "wf_core x" "t \<noteq> thread (xg_events x ! i)"
    and p: "\<And>a. p = Some a \<longleftrightarrow> (a, i) \<in> set (concat (map po_pairs (thread_event_ids x)))"
    and s: "\<And>a. s = Some a \<longleftrightarrow> (a, i) \<in> rf_of (xg_rf x)"
  shows "causes x i t = (case p of None \<Rightarrow> {} | Some a \<Rightarrow> causes x a t) \<union> (case s of None \<Rightarrow> {} | Some a \<Rightarrow> causes x a t)"
proof -
  have rt: "(porf x)\<^sup>* = (set (porf_edges x))\<^sup>*"
    using porf_edges_set(2) [OF assms(1)] by (metis trancl_reflcl reflcl_trancl)
  have edge: "(a, i) \<in> set (porf_edges x) \<longleftrightarrow> p = Some a \<or> s = Some a" for a
    by (simp add: porf_edges_def set_rf_edge_list p s)
  have "(e, i) \<in> (porf x)\<^sup>* \<longleftrightarrow> (\<exists>a. (p = Some a \<or> s = Some a) \<and> (e, a) \<in> (porf x)\<^sup>*)" if "e \<noteq> i" for e
    unfolding rt using that edge by (metis rtrancl.rtrancl_into_rtrancl rtranclE)
  moreover have "e \<noteq> i" if "thread (xg_events x ! e) = t" for e using that assms(2) by auto
  ultimately show ?thesis by (auto simp: causes_def split: option.splits)
qed

lemma rf_sources:
  assumes "wf_core x" "i < length (xg_events x)"
  shows "fold (\<lambda>(r, s) v. case s of from_send i \<Rightarrow> v[r := Some i] | bottom \<Rightarrow> v)
      (rf_entries (reads_from (graph x))) (replicate (length (xg_events x)) None) ! i = Some a
    \<longleftrightarrow> (a, i) \<in> rf_of (xg_rf x)"
proof -
  let ?es = "rf_entries (reads_from (graph x))"
  have eq: "fold (\<lambda>(r, s) v. case s of from_send i \<Rightarrow> v[r := Some i] | bottom \<Rightarrow> v) es v =
      fold (\<lambda>(a, b) v. v[b := Some a]) (concat (map rf_edges_of es)) v" for es :: "(nat \<times> ReadsFromSource) list" and v
    by (induction es arbitrary: v) (auto simp: rf_edges_of_def split: ReadsFromSource.splits)
  have dist: "distinct (map snd (concat (map rf_edges_of es)))" if "distinct (map fst es)" for es
    using that
  proof (induction es)
    case (Cons e es)
    have "snd ` set (concat (map rf_edges_of es)) \<subseteq> fst ` set es" by (force simp: in_rf_edges_of)
    with Cons show ?case by (cases e; cases "snd e") auto
  qed simp
  have d: "distinct (map fst ?es)"
    using reads_from_map.distinct_visit [OF wf_egD(2) [OF wf_coreD(1) [OF assms(1)]]] .
  have "in_bounds (length (xg_events x)) (rf_edge_list (reads_from (graph x)))"
    using porf_edges_bounds [OF assms(1)] by (simp add: porf_edges_def in_bounds_def ball_Un)
  from fold_preds(1) [OF dist [OF d], folded rf_edge_list_def, OF this assms(2)] show ?thesis
    unfolding eq by (simp add: set_rf_edge_list flip: rf_edge_list_def)
qed

definition clocks_ok :: "'v ExplorationGraph \<Rightarrow> nat option list \<Rightarrow> nat \<Rightarrow> EventId set \<Rightarrow> nat list \<Rightarrow> bool" where
  "clocks_ok x idx w done cs \<longleftrightarrow> length cs = length (xg_events x) * w
     \<and> (\<forall>i<length (xg_events x). i \<notin> done \<longrightarrow> clock_row w cs i = replicate w 0)
     \<and> (\<forall>i\<in>done. \<forall>t<length idx. \<forall>k. idx ! t = Some k \<longrightarrow> clock_row w cs i ! k = card (causes x i t))"

definition idx_ok :: "'v ExplorationGraph \<Rightarrow> nat option list \<Rightarrow> nat \<Rightarrow> bool" where
  "idx_ok x idx w \<longleftrightarrow> (\<forall>i<length (xg_events x). thread (xg_events x ! i) < length idx
       \<and> (\<exists>k. idx ! thread (xg_events x ! i) = Some k))
     \<and> (\<forall>t<length idx. \<forall>k. idx ! t = Some k \<longrightarrow> k < w)
     \<and> (\<forall>t<length idx. \<forall>u<length idx. \<forall>k. idx ! t = Some k \<and> idx ! u = Some k \<longrightarrow> t = u)"

lemma clock_step_ok:
  assumes wf: "wf_core x" and acyc: "acyclic (porf x)" and idx: "idx_ok x idx w"
    and cs: "clocks_ok x idx w done cs" and i: "i < length (xg_events x)" "i \<notin> done" "done \<subseteq> {..<length (xg_events x)}"
    and pos: "pos ! i = pos_of (xg_events x) i"
    and p: "\<And>a. preds ! i = Some a \<longleftrightarrow> (a, i) \<in> set (concat (map po_pairs (thread_event_ids x)))"
    and s: "\<And>a. sources ! i = Some a \<longleftrightarrow> (a, i) \<in> rf_of (xg_rf x)"
    and before: "\<And>a. preds ! i = Some a \<or> sources ! i = Some a \<Longrightarrow> a \<in> done"
  shows "clocks_ok x idx w (insert i done) (clock_step (xg_events x) w preds sources idx pos i cs)"
proof -
  let ?n = "length (xg_events x)" and ?t = "thread (xg_events x ! i)"
  obtain ci where ci: "idx ! ?t = Some ci" "?t < length idx" "ci < w" using idx i(1) by (auto simp: idx_ok_def)
  have len: "length cs = ?n * w" using cs by (simp add: clocks_ok_def)
  let ?row1 = "case preds ! i of Some p \<Rightarrow> clock_row w cs p | None \<Rightarrow> clock_row w cs i"
  let ?row2 = "case sources ! i of Some s \<Rightarrow> map2 max ?row1 (clock_row w cs s) | None \<Rightarrow> ?row1"
  let ?row = "?row2[ci := pos ! i + 1]"
  have rl: "length (clock_row w cs j) = w" if "j = i \<or> j \<in> done" for j
    using that i length_clock_row [OF len, of j] by auto
  have l1: "length ?row1 = w" using rl before by (auto split: option.splits)
  have l2: "length ?row2 = w" using rl before l1 by (auto split: option.splits)
  have step: "clock_step (xg_events x) w preds sources idx pos i cs = set_clock_row w i ?row cs"
    using ci by (simp add: clock_step_def Let_def)
  have "?row ! k = card (causes x i t)" if t: "t < length idx" "idx ! t = Some k" for t k
  proof (cases "t = ?t")
    case True
    with t ci have "k = ci" by simp
    with True ci l2 pos card_causes_own [OF acyc i(1)] show ?thesis by simp
  next
    case False
    have k: "k < w" "k \<noteq> ci" using idx t ci False by (auto simp: idx_ok_def)
    have val: "clock_row w cs a ! k = card (causes x a t)" if "a \<in> done" for a
      using cs that t by (auto simp: clocks_ok_def)
    have zero: "clock_row w cs i ! k = 0" using cs i k(1) by (auto simp: clocks_ok_def)
    note cst = causes_step [OF wf False p s]
    show ?thesis
      using k l1 val zero before rl
      by (cases "preds ! i"; cases "sources ! i") (simp_all add: cst card_causes_Un)
  qed
  moreover have "clock_row w (set_clock_row w i ?row cs) j = (if j = i then ?row else clock_row w cs j)" if "j < ?n" for j
    using clock_row_set [OF len i(1) _ that] l2 by simp
  moreover have "length (set_clock_row w i ?row cs) = ?n * w"
    using length_set_clock_row [OF len i(1)] l2 by simp
  ultimately show ?thesis
    using cs i unfolding step clocks_ok_def by (auto simp: subset_iff)
qed

lemma idx_ok_assign:
  assumes "wf_core x" "fold assign_clock_index (thread_event_ids x) ([], 0) = (idx, w)"
  shows "idx_ok x idx w"
proof -
  note c = wf_coreD(3) [OF assms(1)]
  from assign_clock_index_correct [of "thread_event_ids x"] assms(2) have
    a: "length idx = length (thread_event_ids x)"
      "\<forall>t<length (thread_event_ids x). if thread_event_ids x ! t = [] then idx ! t = None else \<exists>k<w. idx ! t = Some k"
      "\<forall>t<length idx. \<forall>u<length idx. \<forall>k. idx ! t = Some k \<and> idx ! u = Some k \<longrightarrow> t = u" by auto
  have "thread (xg_events x ! i) < length idx \<and> (\<exists>k. idx ! thread (xg_events x ! i) = Some k)"
    if i: "i < length (xg_events x)" for i
  proof -
    have t: "thread (xg_events x ! i) < length (thread_state x)" using caches_okD(3) [OF c] i by simp
    have "i \<in> set (thread_ids (xg_events x) (thread (xg_events x ! i)))" using i by (simp add: set_thread_ids)
    then have "thread_event_ids x ! thread (xg_events x ! i) \<noteq> []" using caches_okD(5) [OF c t] by auto
    with t a(1) a(2) [THEN spec, of "thread (xg_events x ! i)"] caches_okD(1) [OF c] show ?thesis by auto
  qed
  moreover have "k < w" if "t < length idx" "idx ! t = Some k" for t k
    using a(1,2) that by (auto split: if_splits dest: spec [of _ t])
  ultimately show ?thesis using a(3) by (auto simp: idx_ok_def)
qed

section \<open>The cache and the query\<close>

definition cache_correct :: "'v ExplorationGraph \<Rightarrow> PorfCache \<Rightarrow> bool" where
  "cache_correct x c \<longleftrightarrow> has_cycle c = (\<not> acyclic (porf x))
     \<and> (acyclic (porf x) \<longrightarrow> (\<forall>a b. a < length (xg_events x) \<longrightarrow> b < length (xg_events x) \<longrightarrow>
          cache_lookup x c a b = ((a, b) \<in> (porf x)\<^sup>*)))"

lemma card_causes_ge:
  assumes "acyclic (porf x)" "a < length (xg_events x)"
  shows "pos_of (xg_events x) a + 1 \<le> card (causes x b (thread (xg_events x ! a))) \<longleftrightarrow> (a, b) \<in> (porf x)\<^sup>*"
proof
  let ?t = "thread (xg_events x ! a)"
  let ?before = "{e. e < a \<and> thread (xg_events x ! e) = ?t}"
  have fin: "finite ?before" by simp
  show "(a, b) \<in> (porf x)\<^sup>*" if le: "pos_of (xg_events x) a + 1 \<le> card (causes x b ?t)"
  proof (rule ccontr)
    assume "(a, b) \<notin> (porf x)\<^sup>*"
    then have a: "a \<notin> causes x b ?t" by (simp add: causes_def)
    have "causes x b ?t \<subseteq> ?before"
    proof
      fix e assume e: "e \<in> causes x b ?t"
      with a causes_prefix [OF e, of a] have "\<not> a < e" "e \<noteq> a" by auto
      with e show "e \<in> ?before" by (auto simp: causes_def)
    qed
    from card_mono [OF fin this] le show False by (simp add: pos_of_card [OF assms(2)])
  qed
  show "pos_of (xg_events x) a + 1 \<le> card (causes x b ?t)" if "(a, b) \<in> (porf x)\<^sup>*"
  proof -
    have a: "a \<in> causes x b ?t" using that assms(2) by (simp add: causes_def)
    then have "insert a ?before \<subseteq> causes x b ?t" using causes_prefix by blast
    from card_mono [OF finite_causes this] show ?thesis by (simp add: pos_of_card [OF assms(2)])
  qed
qed

lemma clocks_fold:
  assumes wf: "wf_core x" and acyc: "acyclic (porf x)" and idx: "idx_ok x idx w"
    and pos: "\<And>i. i < length (xg_events x) \<Longrightarrow> pos ! i = pos_of (xg_events x) i"
    and p: "\<And>i a. i < length (xg_events x) \<Longrightarrow>
      preds ! i = Some a \<longleftrightarrow> (a, i) \<in> set (concat (map po_pairs (thread_event_ids x)))"
    and s: "\<And>i a. i < length (xg_events x) \<Longrightarrow> sources ! i = Some a \<longleftrightarrow> (a, i) \<in> rf_of (xg_rf x)"
    and topo: "distinct topo" "set topo \<subseteq> {..<length (xg_events x)}"
      "\<And>ys v zs u. topo = ys @ v # zs \<Longrightarrow> (u, v) \<in> set (porf_edges x) \<Longrightarrow> u \<in> set ys"
  shows "clocks_ok x idx w (set topo)
    (fold (clock_step (xg_events x) w preds sources idx pos) topo (replicate (length (xg_events x) * w) 0))"
proof -
  let ?n = "length (xg_events x)" and ?f = "clock_step (xg_events x) w preds sources idx pos"
  have "clocks_ok x idx w (set ys) (fold ?f ys (replicate (?n * w) 0))" if "\<exists>zs. topo = ys @ zs" for ys
    using that
  proof (induction ys rule: rev_induct)
    case Nil
    have "clock_row w (replicate (?n * w) 0) i = replicate w 0" if "i < ?n" for i
    proof -
      have "i * w + w \<le> ?n * w" using mult_le_mono1 [of "i + 1" ?n w] that by simp
      then show ?thesis by (simp add: clock_row_def)
    qed
    then show ?case by (simp add: clocks_ok_def)
  next
    case (snoc i ys)
    then obtain zs where t: "topo = ys @ i # zs" by auto
    then have i: "i < ?n" "i \<notin> set ys" "set ys \<subseteq> {..<?n}" using topo(1,2) by auto
    have "a \<in> set ys" if "preds ! i = Some a \<or> sources ! i = Some a" for a
      using topo(3) [OF t, of a] that p [OF i(1)] s [OF i(1)] by (auto simp: porf_edges_def set_rf_edge_list)
    from clock_step_ok [OF wf acyc idx _ i pos [OF i(1)] p [OF i(1)] s [OF i(1)] this] snoc.IH t
    show ?case by auto
  qed
  then show ?thesis by blast
qed

lemma cache_lookup_correct:
  assumes "acyclic (porf x)" "idx_ok x (thread_clock_index c) (num_threads c)"
    and "clocks_ok x (thread_clock_index c) (num_threads c) {..<length (xg_events x)} (clocks c)"
    and "\<And>i. i < length (xg_events x) \<Longrightarrow> pc_position_in_thread c ! i = pos_of (xg_events x) i"
    and "a < length (xg_events x)" "b < length (xg_events x)"
  shows "cache_lookup x c a b \<longleftrightarrow> (a, b) \<in> (porf x)\<^sup>*"
proof -
  let ?t = "thread (xg_events x ! a)"
  obtain k where k: "thread_clock_index c ! ?t = Some k" "?t < length (thread_clock_index c)"
    using assms(2,5) by (auto simp: idx_ok_def)
  with assms(3,6) have "clock_row (num_threads c) (clocks c) b ! k = card (causes x b ?t)"
    by (auto simp: clocks_ok_def)
  with k assms(4,5) card_causes_ge [OF assms(1,5), of b] show ?thesis by (simp add: cache_lookup_def)
qed

lemma compute_porf_cache_correct:
  assumes wf: "wf_core x"
  shows "\<exists>c. compute_porf_cache stale x = Inr c \<and> cache_correct x c"
proof (cases "length (xg_events x) = 0")
  case True
  then have "porf x = {}" using causal_bounded [OF wf_coreD(2) [OF wf]] by auto
  with True show ?thesis
    by (simp add: compute_porf_cache_def xg_event_count_def cache_correct_def empty_porf_cache_def acyclic_def)
next
  case False
  let ?n = "length (xg_events x)"
  obtain sc where sc: "build_porf_adjacency_and_order stale x = Inr (acyclic (porf x), sc)"
    "po_pred sc = fold (\<lambda>(a, b) v. v[b := Some a]) (concat (map po_pairs (thread_event_ids x))) (replicate ?n None)"
    "distinct (topo_order sc)" "set (topo_order sc) \<subseteq> {..<?n}"
    "acyclic (porf x) \<Longrightarrow> set (topo_order sc) = {..<?n}"
    "\<And>ys v zs u. topo_order sc = ys @ v # zs \<Longrightarrow> (u, v) \<in> set (porf_edges x) \<Longrightarrow> u \<in> set ys"
    using build_porf_correct [OF wf, of stale] by blast
  obtain idx w where iw: "fold assign_clock_index (thread_event_ids x) ([], 0) = (idx, w)" by force
  note idx = idx_ok_assign [OF wf iw]
  let ?pos = "fold assign_positions (thread_event_ids x) (replicate ?n 0)"
  let ?src = "fold (\<lambda>(r, s) v. case s of from_send i \<Rightarrow> v[r := Some i] | bottom \<Rightarrow> v)
    (rf_entries (reads_from (graph x))) (replicate ?n None)"
  have tes: "thread_event_ids x = map (thread_ids (xg_events x)) [0..<length (thread_state x)]"
    using caches_okD(1,5) [OF wf_coreD(3) [OF wf]] by (intro nth_equalityI) auto
  have pos: "?pos ! i = pos_of (xg_events x) i" if "i < ?n" for i
    using assign_positions_threads [of "xg_events x" "length (thread_state x)"] that
      caches_okD(3) [OF wf_coreD(3) [OF wf], of "xg_events x ! i"] by (simp add: tes)
  have "in_bounds ?n (concat (map po_pairs (thread_event_ids x)))"
    using porf_edges_bounds [OF wf] by (simp add: porf_edges_def in_bounds_def ball_Un)
  note preds = fold_preds(1) [OF distinct_snd_po [OF wf] this, folded sc(2)]
  let ?c = "\<lparr>clocks = [], pc_position_in_thread = ?pos, thread_clock_index = idx, num_threads = w, has_cycle = False\<rparr>"
  show ?thesis
  proof (cases "acyclic (porf x)")
    case acyc: True
    let ?cs = "fold (clock_step (xg_events x) w (po_pred sc) ?src idx ?pos) (topo_order sc) (replicate (?n * w) 0)"
    have "clocks_ok x idx w {..<?n} ?cs"
      using clocks_fold [OF wf acyc idx pos preds rf_sources [OF wf] sc(3,4,6)] sc(5) [OF acyc] by simp
    then have "cache_lookup x (?c\<lparr>clocks := ?cs\<rparr>) a b = ((a, b) \<in> (porf x)\<^sup>*)" if "a < ?n" "b < ?n" for a b
      by (intro cache_lookup_correct [OF acyc]) (use idx pos that in simp_all)
    with acyc have "cache_correct x (?c\<lparr>clocks := ?cs\<rparr>)" by (simp add: cache_correct_def)
    then show ?thesis
      using False sc(1) acyc by (simp add: compute_porf_cache_def xg_event_count_def iw Let_def)
  next
    case cyc: False
    then show ?thesis
      using False sc(1) by (simp add: compute_porf_cache_def xg_event_count_def iw Let_def cache_correct_def)
  qed
qed

definition cache_ok :: "'v ExplorationGraph \<Rightarrow> bool" where
  "cache_ok x \<longleftrightarrow> (\<forall>c. porf_cache x = Some c \<longrightarrow> cache_correct x c)"

lemma cache_correct_cong:
  "xg_events x' = xg_events x \<Longrightarrow> xg_rf x' = xg_rf x \<Longrightarrow> cache_correct x' c = cache_correct x c"
  by (simp add: cache_correct_def cache_lookup_def)

lemma ensure_porf_cache_correct:
  assumes "wf_core x" "cache_ok x"
  shows "\<exists>c. ensure_porf_cache stale x = Inr (c, x\<lparr>porf_cache := Some c\<rparr>) \<and> cache_correct x c"
proof (cases "porf_cache x")
  case None
  with compute_porf_cache_correct [OF assms(1), of stale] show ?thesis by (auto simp: ensure_porf_cache_def)
next
  case (Some c)
  moreover have "x\<lparr>porf_cache := Some c\<rparr> = x" using Some by simp
  ultimately show ?thesis using assms(2) by (simp add: ensure_porf_cache_def cache_ok_def)
qed

lemma porf_contains_correct:
  assumes "wf_core x" "cache_ok x" "a < length (xg_events x)" "b < length (xg_events x)"
  shows "if acyclic (porf x)
    then \<exists>c. porf_contains stale a b x = Inr ((a, b) \<in> (porf x)\<^sup>+, x\<lparr>porf_cache := Some c\<rparr>) \<and> cache_correct x c
    else porf_contains stale a b x =
      Inl (precondition_error ''porf_contains called on a graph with a causal cycle'')"
proof -
  obtain c where c: "ensure_porf_cache stale x = Inr (c, x\<lparr>porf_cache := Some c\<rparr>)" "cache_correct x c"
    using ensure_porf_cache_correct [OF assms(1,2)] by blast
  have look: "cache_lookup (x\<lparr>porf_cache := Some c\<rparr>) c a b = cache_lookup x c a b" by (simp add: cache_lookup_def)
  show ?thesis
  proof (cases "acyclic (porf x)")
    case True
    have "(a, b) \<in> (porf x)\<^sup>+ \<longleftrightarrow> a \<noteq> b \<and> (a, b) \<in> (porf x)\<^sup>*"
      using True by (auto simp: acyclic_def rtrancl_eq_or_trancl)
    with True c assms(3,4) look show ?thesis
      by (auto simp: porf_contains_def is_valid_event_id_def cache_correct_def)
  next
    case False
    with c assms(3,4) show ?thesis by (simp add: porf_contains_def is_valid_event_id_def cache_correct_def)
  qed
qed

section \<open>Properties\<close>

text \<open>C5. On an acyclic graph the vector-clock query decides the causal order: \<open>porf_contains\<close> answers whether
  the first event precedes the second in the transitive closure of program order and reads-from,
  whatever the scratch buffer held, and leaves the graph as it was but for a correct cache. On a
  cyclic graph it throws.\<close>

theorem porf_contains_decides_causality:
  assumes "wf_core x" "cache_ok x" "a < length (xg_events x)" "b < length (xg_events x)"
  shows "if acyclic (porf x)
    then \<exists>c. porf_contains stale a b x = Inr ((a, b) \<in> (porf x)\<^sup>+, x\<lparr>porf_cache := Some c\<rparr>) \<and> cache_correct x c
    else porf_contains stale a b x =
      Inl (precondition_error ''porf_contains called on a graph with a causal cycle'')"
  by (rule porf_contains_correct [OF assms])

theorem porf_contains_decides_causality_witness:
  "\<exists>y. porf_contains [3, 1] 0 1 sample_xg = Inr (True, y)"
proof -
  have "(0, Suc 0) \<in> (causal sample_events [Suc 0 \<mapsto> from_send 0])\<^sup>+" by (auto simp: causal_def rf_of_def)
  moreover have "length sample_events = 2" by (simp add: sample_events_def)
  ultimately show ?thesis
    using porf_contains_decides_causality [of sample_xg 0 1 "[3, 1]"] by (auto simp: cache_ok_def)
qed

end
