(* ===== verification/Cycle_Dfs.thy ===== *)
theory Cycle_Dfs
  imports Relations
begin

text \<open>
  The depth-first cycle search of \<^verbatim>\<open>detail::has_causal_cycle\<close> in
  \<^verbatim>\<open>include/dpor/model/consistency.hpp\<close>: the recursive lambda with its three visit states. The
  search is proved to report a cycle exactly when the adjacency has one.
\<close>

section \<open>The search\<close>

lemma count_update_le: "(0::nat) < k \<Longrightarrow> count_list (st[i := k]) 0 \<le> count_list st 0"
proof (induction st arbitrary: i)
  case (Cons x st)
  then show ?case by (cases i) (auto intro: le_SucI)
qed simp

lemma count_update_less: "i < length st \<Longrightarrow> st ! i = 0 \<Longrightarrow> (0::nat) < k \<Longrightarrow>
  count_list (st[i := k]) 0 < count_list st 0"
proof (induction st arbitrary: i)
  case (Cons x st)
  then show ?case by (cases i) auto
qed simp

text \<open>
  Visit states are 0 (unvisited), 1 (on the current path) and 2 (finished). A node outside the
  state vector counts as finished; the sources read the vector unchecked, and the adjacency they
  build is bounded. The number of unvisited nodes never grows, so each nested call is on a smaller
  problem.
\<close>

function dfs :: "NodeId list list \<Rightarrow> NodeId \<Rightarrow> nat list \<Rightarrow> bool \<times> nat list"
  and dfs_successors :: "NodeId list list \<Rightarrow> NodeId list \<Rightarrow> nat list \<Rightarrow> bool \<times> nat list" where
  "dfs adj node st =
     (case dfs_successors adj (nth_or [] adj node) (st[node := 1]) of
        (found, st') \<Rightarrow> if found then (True, st') else (False, st'[node := 2]))"
| "dfs_successors adj [] st = (False, st)"
| "dfs_successors adj (v # vs) st =
     (if nth_or 2 st v = 1 then (True, st)
      else if nth_or 2 st v = 0
      then (case dfs adj v st of
              (found, st') \<Rightarrow> if found then (True, st') else dfs_successors adj vs st')
      else dfs_successors adj vs st)"
  by pat_completeness auto
termination
proof -
  have count: "dfs_dfs_successors_dom (Inl (adj, node, st)) \<Longrightarrow>
      count_list (snd (dfs adj node st)) 0 \<le> count_list (st[node := 1]) 0"
    and "dfs_dfs_successors_dom (Inr (adj, vs, st)) \<Longrightarrow> count_list (snd (dfs_successors adj vs st)) 0 \<le> count_list st 0"
    for adj node vs st
  proof (induction adj node st and adj vs st rule: dfs_dfs_successors.pinduct)
    case (1 adj node st)
    obtain f st' where r: "dfs_successors adj (nth_or [] adj node) (st[node := 1]) = (f, st')" by force
    then have "count_list st' 0 \<le> count_list (st[node := 1]) 0" using "1.IH" by simp
    with r count_update_le [of 2 st' node] "1.hyps" show ?case
      by (auto simp: dfs.psimps intro: order_trans)
  next
    case (2 adj st)
    then show ?case by (simp add: dfs_successors.psimps)
  next
    case (3 adj v vs st)
    obtain f st' where r: "dfs adj v st = (f, st')" by force
    show ?case
    proof (cases "nth_or 2 st v = 0")
      case True
      then have "count_list st' 0 \<le> count_list st 0"
        using "3.IH"(1) r count_update_le [of 1 st v] by simp
      then show ?thesis using "3.IH"(2) [OF _ _ r [symmetric]] True r "3.hyps"
        by (auto simp: dfs_successors.psimps intro: order_trans)
    next
      case False
      then show ?thesis using "3.IH"(3) "3.hyps" by (auto simp: dfs_successors.psimps)
    qed
  qed
  show ?thesis
  proof (relation "measures [\<lambda>a. case a of Inl (adj, node, st) \<Rightarrow> Suc (2 * count_list (st[node := 1]) 0)
        | Inr (adj, vs, st) \<Rightarrow> 2 * count_list st 0,
      \<lambda>a. case a of Inl _ \<Rightarrow> 0 | Inr (adj, vs, st) \<Rightarrow> length vs]", goal_cases)
    case (4 adj v vs st f st')
    then have "count_list st' 0 \<le> count_list (st[v := 1]) 0" using count [of adj v st] by (metis snd_conv)
    with count_update_le [of 1 st v] show ?case by (simp add: nat_less_le)
  next
    case (3 adj v vs st)
    then have "count_list (st[v := 1]) 0 < count_list st 0"
      by (intro count_update_less) (auto simp: nth_or_def split: if_splits)
    then show ?case by simp
  qed auto
qed

declare dfs.simps [simp del]

text \<open>The outer loop over all events.\<close>

fun dfs_all :: "NodeId list list \<Rightarrow> NodeId list \<Rightarrow> nat list \<Rightarrow> bool" where
  "dfs_all adj [] st = False"
| "dfs_all adj (i # is) st =
     (if nth_or 2 st i = 0
      then (case dfs adj i st of (found, st') \<Rightarrow> if found then True else dfs_all adj is st')
      else dfs_all adj is st)"

definition push_successor :: "NodeId \<times> NodeId \<Rightarrow> NodeId list list \<Rightarrow> NodeId list list" where
  "push_successor e adj = (if fst e < length adj \<and> snd e < length adj
     then adj[fst e := adj ! fst e @ [snd e]] else adj)"

definition has_causal_cycle_dfs ::
    "ProgramOrderRelation \<Rightarrow> (NodeId \<times> NodeId) list \<Rightarrow> nat \<Rightarrow> bool result" where
  "has_causal_cycle_dfs po rf_edges event_count =
     bind_result
       (fold_result (\<lambda>i adj. map_result (\<lambda>ws. adj[i := adj ! i @ ws]) (po_for_each_successor po i))
          [0..<event_count] (replicate event_count [])) (\<lambda>adj.
     Inr (dfs_all (fold push_successor rf_edges adj) [0..<event_count] (replicate event_count 0)))"

section \<open>Correctness of the search\<close>

definition adj_edges :: "NodeId list list \<Rightarrow> (NodeId \<times> NodeId) set" where
  "adj_edges adj = {(a, b). a < length adj \<and> b \<in> set (adj ! a)}"

definition adj_bounded :: "NodeId list list \<Rightarrow> bool" where
  "adj_bounded adj \<longleftrightarrow> (\<forall>a<length adj. \<forall>v\<in>set (adj ! a). v < length adj)"

definition with_state :: "nat list \<Rightarrow> nat \<Rightarrow> NodeId set" where
  "with_state st k = {i. i < length st \<and> st ! i = k}"

text \<open>Finished nodes are closed under successors and lie on no cycle.\<close>

definition finished_ok :: "(NodeId \<times> NodeId) set \<Rightarrow> nat list \<Rightarrow> bool" where
  "finished_ok E st \<longleftrightarrow> E `` with_state st 2 \<subseteq> with_state st 2
     \<and> (\<forall>i\<in>with_state st 2. (i, i) \<notin> E\<^sup>+) \<and> set st \<subseteq> {0, 1, 2}"

lemma closed_trancl: "(a, b) \<in> E\<^sup>+ \<Longrightarrow> E `` B \<subseteq> B \<Longrightarrow> a \<in> B \<Longrightarrow> b \<in> B"
  by (induction rule: trancl_induct) blast+

lemma with_state_update [simp]:
  "i < length st \<Longrightarrow> with_state (st[i := k]) j = (if j = k then insert i (with_state st j) else with_state st j - {i})"
  by (auto simp: with_state_def nth_list_update)

lemma finished_ok_update:
  assumes "finished_ok E st" "node \<in> with_state st 1" "E `` {node} \<subseteq> with_state st 2"
  shows "finished_ok E (st[node := 2])"
proof -
  let ?B = "with_state st 2"
  have n: "node < length st" "node \<notin> ?B" using assms(2) by (auto simp: with_state_def)
  have closed: "E `` ?B \<subseteq> ?B" using assms(1) by (simp add: finished_ok_def)
  have "(node, node) \<notin> E\<^sup>+"
  proof
    assume "(node, node) \<in> E\<^sup>+"
    then obtain b where "(node, b) \<in> E" "b = node \<or> (b, node) \<in> E\<^sup>+" by (meson tranclD rtranclD)
    with assms(3) n(2) closed_trancl [OF _ closed, of b node] show False by auto
  qed
  with assms(1,3) n show ?thesis
    using set_update_subset_insert [of st node 2] by (auto simp: finished_ok_def)
qed

lemma finished_ok_enter: "finished_ok E st \<Longrightarrow> i < length st \<Longrightarrow> st ! i = 0 \<Longrightarrow> finished_ok E (st[i := 1])"
  using set_update_subset_insert [of st i 1] by (auto simp: finished_ok_def with_state_def nth_list_update)

lemma dfs_correct:
  assumes "adj_bounded adj"
  shows "length st = length adj \<Longrightarrow> finished_ok (adj_edges adj) st \<Longrightarrow> node < length adj \<Longrightarrow> st ! node = 0 \<Longrightarrow>
      (\<And>g. g \<in> with_state st 1 \<Longrightarrow> (g, node) \<in> (adj_edges adj)\<^sup>*) \<Longrightarrow>
      (case dfs adj node st of (found, st') \<Rightarrow>
         if found then \<not> acyclic (adj_edges adj)
         else length st' = length adj \<and> finished_ok (adj_edges adj) st' \<and> with_state st' 1 = with_state st 1
           \<and> insert node (with_state st 2) \<subseteq> with_state st' 2)"
    and "length st = length adj \<Longrightarrow> finished_ok (adj_edges adj) st \<Longrightarrow> set vs \<subseteq> adj_edges adj `` {u} \<Longrightarrow>
      (\<And>g. g \<in> with_state st 1 \<Longrightarrow> (g, u) \<in> (adj_edges adj)\<^sup>*) \<Longrightarrow>
      (case dfs_successors adj vs st of (found, st') \<Rightarrow>
         if found then \<not> acyclic (adj_edges adj)
         else length st' = length adj \<and> finished_ok (adj_edges adj) st' \<and> with_state st' 1 = with_state st 1
           \<and> set vs \<union> with_state st 2 \<subseteq> with_state st' 2)"
  using assms
proof (induction adj node st and adj vs st arbitrary: and u rule: dfs_dfs_successors.induct)
  case (1 adj node st)
  let ?E = "adj_edges adj" and ?st = "st[node := 1]"
  obtain f st' where r: "dfs_successors adj (nth_or [] adj node) ?st = (f, st')" by force
  have n: "node < length st" using "1.prems" by simp
  have succ: "set (nth_or [] adj node) = ?E `` {node}" using "1.prems"(3) by (auto simp: adj_edges_def)
  have reach: "(g, node) \<in> ?E\<^sup>*" if "g \<in> with_state ?st 1" for g
    using that "1.prems"(5) [of g] n by auto
  have ok: "finished_ok ?E ?st" using finished_ok_enter "1.prems"(2,4) n by blast
  note IH = "1.IH" [of node, OF _ ok _ reach "1.prems"(6), unfolded r, simplified]
  show ?case
  proof (cases f)
    case True
    with r IH "1.prems"(1) succ show ?thesis by (simp add: dfs.simps)
  next
    case False
    with IH "1.prems"(1) succ have st': "length st' = length adj" "finished_ok ?E st'"
      "with_state st' 1 = insert node (with_state st 1)" "?E `` {node} \<subseteq> with_state st' 2"
      "with_state st 2 - {node} \<subseteq> with_state st' 2"
      using n by auto
    have "node \<in> with_state st' 1" using st'(3) by simp
    moreover have "node \<notin> with_state st 1" "node \<notin> with_state st 2"
      using "1.prems"(4) by (auto simp: with_state_def)
    ultimately show ?thesis
      using finished_ok_update [OF st'(2) _ st'(4)] st' "1.prems"(3) False r by (auto simp: dfs.simps)
  qed
next
  case (2 adj st)
  then show ?case by simp
next
  case (3 adj v vs st)
  let ?E = "adj_edges adj"
  have v: "v < length st" "(u, v) \<in> ?E"
    using "3.prems"(1,3,5) by (auto simp: adj_bounded_def adj_edges_def)
  show ?case
  proof (cases "st ! v = 1")
    case True
    then have "(v, u) \<in> ?E\<^sup>*" using "3.prems"(4) v by (auto simp: with_state_def)
    with v(2) have "\<not> acyclic ?E" by (auto simp: acyclic_def intro: rtrancl_into_trancl1)
    with True v(1) show ?thesis by simp
  next
    case ne: False
    show ?thesis
    proof (cases "st ! v = 0")
      case True
      obtain f st' where r: "dfs adj v st = (f, st')" by force
      have "(g, v) \<in> ?E\<^sup>*" if "g \<in> with_state st 1" for g
        using "3.prems"(4) [OF that] v(2) by (rule rtrancl_into_rtrancl)
      with "3.IH"(1) "3.prems" True v r have post: "if f then \<not> acyclic ?E
        else length st' = length adj \<and> finished_ok ?E st' \<and> with_state st' 1 = with_state st 1
          \<and> insert v (with_state st 2) \<subseteq> with_state st' 2" by simp
      show ?thesis
      proof (cases f)
        case False
        with "3.IH"(2) [OF _ _ r [symmetric], of u] post "3.prems" True v
        show ?thesis using r by (auto split: prod.splits if_splits)
      qed (use post r True v in simp)
    next
      case False
      have "st ! v = 2" using "3.prems"(2) v(1) ne False by (auto simp: finished_ok_def dest: nth_mem)
      with "3.IH"(3) [of u] "3.prems" v show ?thesis
        by (auto simp: with_state_def split: prod.splits if_splits)
    qed
  qed
qed

lemma dfs_all_correct:
  assumes "adj_bounded adj" "length st = length adj" "finished_ok (adj_edges adj) st" "with_state st 1 = {}"
    and "set is \<union> with_state st 2 = {..<length adj}"
  shows "dfs_all adj is st \<longleftrightarrow> \<not> acyclic (adj_edges adj)"
  using assms(2-)
proof (induction "is" arbitrary: st)
  case Nil
  have "(i, i) \<notin> (adj_edges adj)\<^sup>+" for i
  proof
    assume c: "(i, i) \<in> (adj_edges adj)\<^sup>+"
    then have "i < length adj" by (auto simp: adj_edges_def dest: tranclD)
    with Nil c show False by (auto simp: finished_ok_def)
  qed
  then show ?case by (simp add: acyclic_def)
next
  case (Cons i "is")
  have i: "i < length adj" using Cons.prems(4) by auto
  show ?case
  proof (cases "st ! i = 0")
    case True
    obtain f st' where r: "dfs adj i st = (f, st')" by force
    with dfs_correct(1) [OF assms(1) Cons.prems(1,2) i True] Cons.prems(3)
    have post: "if f then \<not> acyclic (adj_edges adj)
      else length st' = length adj \<and> finished_ok (adj_edges adj) st' \<and> with_state st' 1 = {}
        \<and> insert i (with_state st 2) \<subseteq> with_state st' 2" by (simp split: if_splits)
    show ?thesis
    proof (cases f)
      case False
      moreover have "with_state st' 2 \<subseteq> {..<length adj}" using post False by (auto simp: with_state_def)
      ultimately have "set is \<union> with_state st' 2 = {..<length adj}" using post Cons.prems(4) by auto
      with Cons.IH [of st'] post False r True i Cons.prems(1) show ?thesis by simp
    qed (use post r True i Cons.prems(1) in simp)
  next
    case False
    have "st ! i \<in> {0, 1, 2}"
      using Cons.prems(1,2) i nth_mem [of i st] by (auto simp: finished_ok_def simp del: nth_mem)
    with False have "i \<in> with_state st 2" using Cons.prems(1,3) i by (auto simp: with_state_def)
    with Cons.IH [of st] Cons.prems False i show ?thesis by (simp add: insert_absorb)
  qed
qed

lemma fold_push_successor:
  assumes "adj_bounded adj"
  shows "adj_bounded (fold push_successor es adj)" "length (fold push_successor es adj) = length adj"
    "adj_edges (fold push_successor es adj) = adj_edges adj \<union> (set es \<inter> {..<length adj} \<times> {..<length adj})"
proof -
  have "adj_bounded (fold push_successor es adj) \<and> length (fold push_successor es adj) = length adj
    \<and> adj_edges (fold push_successor es adj) = adj_edges adj \<union> (set es \<inter> {..<length adj} \<times> {..<length adj})"
    using assms
  proof (induction es arbitrary: adj)
    case (Cons e es)
    let ?a = "push_successor e adj"
    have "adj_bounded ?a" "length ?a = length adj"
      "adj_edges ?a = adj_edges adj \<union> ({e} \<inter> {..<length adj} \<times> {..<length adj})"
      using Cons.prems
      by (auto simp: push_successor_def adj_bounded_def adj_edges_def nth_list_update split: if_splits)
    with Cons.IH [of ?a] show ?case by auto
  qed simp
  then show "adj_bounded (fold push_successor es adj)" "length (fold push_successor es adj) = length adj"
    "adj_edges (fold push_successor es adj) = adj_edges adj \<union> (set es \<inter> {..<length adj} \<times> {..<length adj})"
    by auto
qed

lemma po_adjacency:
  assumes "wf_po po" "po_nodes po = n"
  shows "\<exists>adj. fold_result (\<lambda>i adj. map_result (\<lambda>ws. adj[i := adj ! i @ ws]) (po_for_each_successor po i))
      [0..<n] (replicate n []) = Inr adj
    \<and> (length adj = n \<and> (\<forall>i<n. set (adj ! i) = (if i \<in> set [0..<n] then po_edges po `` {i} else {})))"
proof (rule fold_result_rule, goal_cases)
  case 1
  then show ?case by simp
next
  case (2 ys i zs adj)
  have "i \<in> set [0..<n]" by (subst 2(1)) simp
  moreover have "distinct (ys @ i # zs)" by (subst 2(1) [symmetric]) simp
  ultimately have i: "i < n" "i \<notin> set ys" by auto
  from program_order.successors_edges [OF assms(1), of i] assms(2) i obtain ws where
    "po_for_each_successor po i = Inr ws" "set ws = po_edges po `` {i}" by auto
  with 2(2) i show ?case by (auto simp: nth_list_update)
qed

lemma has_causal_cycle_dfs_correct:
  assumes "wf_po po" "po_nodes po = n" "set rf_edges \<subseteq> {..<n} \<times> {..<n}"
  shows "has_causal_cycle_dfs po rf_edges n = Inr (\<not> acyclic (po_edges po \<union> set rf_edges))"
proof -
  obtain adj where adj: "fold_result (\<lambda>i adj. map_result (\<lambda>ws. adj[i := adj ! i @ ws]) (po_for_each_successor po i))
      [0..<n] (replicate n []) = Inr adj" "length adj = n" "\<forall>i<n. set (adj ! i) = po_edges po `` {i}"
    using po_adjacency [OF assms(1,2)] by auto
  note b = program_order.edges_bounded [OF assms(1), unfolded assms(2)]
  have bnd: "adj_bounded adj" using adj(2,3) b by (fastforce simp: adj_bounded_def in_set_conv_nth)
  have ed: "adj_edges adj = po_edges po" using adj(2,3) b by (auto simp: adj_edges_def)
  note f = fold_push_successor [OF bnd, of rf_edges]
  have "dfs_all (fold push_successor rf_edges adj) [0..<n] (replicate n 0) \<longleftrightarrow>
      \<not> acyclic (adj_edges (fold push_successor rf_edges adj))"
    by (rule dfs_all_correct) (use f adj(2) in \<open>auto simp: finished_ok_def with_state_def\<close>)
  moreover have "adj_edges (fold push_successor rf_edges adj) = po_edges po \<union> set rf_edges"
    using f(3) ed adj(2) assms(3) by auto
  ultimately show ?thesis using adj(1) by (simp add: has_causal_cycle_dfs_def)
qed

end
