(* ===== verification/Consistency.thy ===== *)
theory Consistency
  imports Porf Cycle_Dfs
begin

text \<open>
  The consistency checkers of \<^verbatim>\<open>include/dpor/model/consistency.hpp\<close>: the validation pass over the
  reads-from entries, the causal-cycle check, and the two FIFO clauses. A check is proved to
  report no issue exactly when the graph meets the declarative definition of a consistent
  execution, and the check of an exploration graph, which trusts the acyclicity flag and the
  causal-order cache, to report the issues the check of the plain graph reports. Ids that were
  checked before, or that come from the id lists of the graph, are looked up unchecked.
\<close>

datatype ConsistencyIssueCode =
    InvalidEventReference
  | ReadsFromTargetNotReceive
  | ReadsFromSourceNotSend
  | MissingReadsFromForReceive
  | BlockingReceiveReadsBottom
  | SendConsumedMultipleTimes
  | ReceiveDestinationMismatch
  | ReceiveValueMismatch
  | CausalCycle
  | FifoP2PUnreadEarlierMatchingSend
  | FifoP2PReceiveOrderViolation

record ConsistencyIssue =
  code :: ConsistencyIssueCode
  issue_message :: string

type_synonym ConsistencyResult = "ConsistencyIssue list"

definition is_consistent :: "ConsistencyResult \<Rightarrow> bool" where
  "is_consistent result = (result = [])"

definition add_issue :: "ConsistencyIssueCode \<Rightarrow> string \<Rightarrow> ConsistencyResult \<Rightarrow> ConsistencyResult" where
  "add_issue c m result = result @ [\<lparr>code = c, issue_message = m\<rparr>]"

definition add_causal_cycle_issue :: "ConsistencyResult \<Rightarrow> ConsistencyResult" where
  "add_causal_cycle_issue = add_issue CausalCycle ''program order and reads-from relations form a causal cycle''"

type_synonym MissingReadsTolerance = "EventId \<Rightarrow> bool"

definition no_missing_reads_tolerance :: MissingReadsTolerance where
  "no_missing_reads_tolerance i = False"

section \<open>The validation pass\<close>

text \<open>The result of the pass, with the two tables it keeps on the side.\<close>

record ValidationPassResult =
  vp_result :: ConsistencyResult
  valid_rf_edges :: "(EventId \<times> EventId) list"
  cycle_query_safe :: bool
  receive_has_source :: "bool list"
  send_read_count :: "nat list"

definition vp_issue :: "ConsistencyIssueCode \<Rightarrow> string \<Rightarrow> ValidationPassResult \<Rightarrow> ValidationPassResult" where
  "vp_issue c m v = v\<lparr>vp_result := add_issue c m (vp_result v)\<rparr>"

definition vp_unsafe_issue :: "ConsistencyIssueCode \<Rightarrow> string \<Rightarrow> ValidationPassResult \<Rightarrow> ValidationPassResult" where
  "vp_unsafe_issue c m v = (vp_issue c m v)\<lparr>cycle_query_safe := False\<rparr>"

definition validate_ids ::
    "'v ExecutionGraph \<Rightarrow> EventId \<Rightarrow> ReadsFromSource \<Rightarrow> ValidationPassResult \<Rightarrow> bool \<times> ValidationPassResult" where
  "validate_ids g r s v =
     (let bad_receive = (\<not> is_valid_event_id g r);
          bad_source = (case s of from_send i \<Rightarrow> \<not> is_valid_event_id g i | bottom \<Rightarrow> False);
          v1 = (if bad_receive
                then vp_unsafe_issue InvalidEventReference
                       (''reads-from target references unknown event id '' @ nat_to_string r) v else v);
          v2 = (case s of
                  from_send i \<Rightarrow>
                    if bad_source
                    then vp_unsafe_issue InvalidEventReference
                           (''reads-from source references unknown event id '' @ nat_to_string i) v1 else v1
                | bottom \<Rightarrow> v1)
      in (\<not> bad_receive \<and> \<not> bad_source, v2))"

definition validate_kinds ::
    "'v ExecutionGraph \<Rightarrow> EventId \<Rightarrow> ReadsFromSource \<Rightarrow> ValidationPassResult \<Rightarrow> bool \<times> ValidationPassResult" where
  "validate_kinds g r s v =
     (let bad_receive = (\<not> is_receive (events g ! r));
          bad_source = (case s of from_send i \<Rightarrow> \<not> is_send (events g ! i) | bottom \<Rightarrow> False);
          v1 = (if bad_receive
                then vp_unsafe_issue ReadsFromTargetNotReceive
                       (''reads-from target event '' @ nat_to_string r @ '' is not a receive'') v else v);
          v2 = (case s of
                  from_send i \<Rightarrow>
                    if bad_source
                    then vp_unsafe_issue ReadsFromSourceNotSend
                           (''reads-from source event '' @ nat_to_string i @ '' is not a send'') v1 else v1
                | bottom \<Rightarrow> v1)
      in (\<not> bad_receive \<and> \<not> bad_source, v2))"

text \<open>The checks on an entry whose endpoints are of the right kind; the read count saturates at 255.\<close>

definition vp_issue_if ::
    "bool \<Rightarrow> ConsistencyIssueCode \<Rightarrow> string \<Rightarrow> ValidationPassResult \<Rightarrow> ValidationPassResult" where
  "vp_issue_if b c m v = (if b then vp_issue c m v else v)"

definition validate_send_read ::
    "bool \<Rightarrow> 'v event \<Rightarrow> 'v ReceiveLabel \<Rightarrow> 'v SendLabel \<Rightarrow> EventId \<Rightarrow> EventId \<Rightarrow> ValidationPassResult
     \<Rightarrow> ValidationPassResult result" where
  "validate_send_read collect receive_event rl sl r i v =
     (let c0 = send_read_count v ! i;
          c = (if c0 < 255 then c0 + 1 else c0);
          v1 = v\<lparr>send_read_count := (send_read_count v)[i := c]\<rparr>;
          v2 = vp_issue_if (c > 1) SendConsumedMultipleTimes
                 (''send event '' @ nat_to_string i @ '' is consumed by more than one receive'') v1;
          v3 = vp_issue_if (destination sl \<noteq> thread receive_event) ReceiveDestinationMismatch
                 (''receive event '' @ nat_to_string r @ '' in thread '' @ nat_to_string (thread receive_event)
                  @ '' reads from send event '' @ nat_to_string i @ '' targeting thread ''
                  @ nat_to_string (destination sl)) v2
      in map_result
           (\<lambda>accepted.
              let v4 = vp_issue_if (\<not> accepted) ReceiveValueMismatch
                         (''receive event '' @ nat_to_string r @ '' does not accept the value sent by event ''
                          @ nat_to_string i) v3
              in if collect then v4\<lparr>valid_rf_edges := valid_rf_edges v4 @ [(i, r)]\<rparr> else v4)
           (accepts rl (send_value sl)))"

definition validate_read ::
    "bool \<Rightarrow> 'v ExecutionGraph \<Rightarrow> EventId \<Rightarrow> ReadsFromSource \<Rightarrow> ValidationPassResult \<Rightarrow> ValidationPassResult result"
where
  "validate_read collect g r s v =
     (case as_receive (events g ! r) of
        None \<Rightarrow> Inr v
      | Some rl \<Rightarrow>
          (case s of
             bottom \<Rightarrow>
               Inr (vp_issue_if (is_blocking rl) BlockingReceiveReadsBottom
                      (''blocking receive event '' @ nat_to_string r @ '' reads from bottom'') v)
           | from_send i \<Rightarrow>
               (case as_send (events g ! i) of
                  None \<Rightarrow> Inr v
                | Some sl \<Rightarrow> validate_send_read collect (events g ! r) rl sl r i v)))"

definition validate_entry ::
    "bool \<Rightarrow> 'v ExecutionGraph \<Rightarrow> EventId \<times> ReadsFromSource \<Rightarrow> ValidationPassResult \<Rightarrow> ValidationPassResult result"
where
  "validate_entry collect g e v =
     (case e of (r, s) \<Rightarrow>
        (case validate_ids g r s v of (valid_ids, v1) \<Rightarrow>
           if \<not> valid_ids then Inr v1
           else (case validate_kinds g r s (v1\<lparr>receive_has_source := (receive_has_source v1)[r := True]\<rparr>) of
                   (valid_kinds, v2) \<Rightarrow> if \<not> valid_kinds then Inr v2 else validate_read collect g r s v2)))"

definition report_missing_read ::
    "'v ExecutionGraph \<Rightarrow> MissingReadsTolerance \<Rightarrow> EventId \<Rightarrow> ValidationPassResult \<Rightarrow> ValidationPassResult" where
  "report_missing_read g tolerance i v =
     (if \<not> is_receive (events g ! i) \<or> receive_has_source v ! i \<or> tolerance i then v
      else vp_issue MissingReadsFromForReceive
             (''receive event '' @ nat_to_string i @ '' has no reads-from assignment'') v)"

definition validate_graph ::
    "bool \<Rightarrow> MissingReadsTolerance \<Rightarrow> 'v ExecutionGraph \<Rightarrow> ValidationPassResult result" where
  "validate_graph collect tolerance g =
     (let n = length (events g);
          v0 = \<lparr>vp_result = [], valid_rf_edges = [], cycle_query_safe = True,
                receive_has_source = replicate n False, send_read_count = replicate n 0\<rparr>
      in map_result (fold (report_missing_read g tolerance) [0..<n])
           (fold_result (validate_entry collect g) (rf_entries (reads_from g)) v0))"

section \<open>The asynchronous model\<close>

definition check_async_execution_graph ::
    "MissingReadsTolerance \<Rightarrow> 'v ExecutionGraph \<Rightarrow> ConsistencyResult result" where
  "check_async_execution_graph tolerance g =
     bind_result (validate_graph True tolerance g) (\<lambda>v.
     bind_result (po_relation g) (\<lambda>po.
     map_result (\<lambda>cyc. if cyc then add_causal_cycle_issue (vp_result v) else vp_result v)
       (has_causal_cycle_dfs po (valid_rf_edges v) (length (events g)))))"

definition check_async_exploration_graph ::
    "MissingReadsTolerance \<Rightarrow> 'v ExplorationGraph \<Rightarrow> (ConsistencyResult \<times> 'v ExplorationGraph) result" where
  "check_async_exploration_graph tolerance x =
     bind_result (validate_graph False tolerance (graph x)) (\<lambda>v.
       if \<not> cycle_query_safe v
       then map_result (\<lambda>result. (result, x)) (check_async_execution_graph tolerance (graph x))
       else bind_result
         (if known_acyclic x then Inr (False, x)
          else if porf_cache x \<noteq> None then has_causal_cycle [] x
          else map_result (\<lambda>cyc. (cyc, x)) (has_causal_cycle_without_cache [] x)) (\<lambda>(cyc, y).
         if cyc then Inr (add_causal_cycle_issue (vp_result v), y)
         else Inr (vp_result v, if is_consistent (vp_result v) then mark_known_acyclic y else y)))"

section \<open>The FIFO clauses\<close>

type_synonym Channel = "ThreadId \<times> ThreadId"
type_synonym FifoGroups = "(Channel \<times> EventId list) list"

text \<open>An ordered map from channels (sender, destination) to the sends of the channel.\<close>

definition channel_less :: "Channel \<Rightarrow> Channel \<Rightarrow> bool" where
  "channel_less k l \<longleftrightarrow> fst k < fst l \<or> fst k = fst l \<and> snd k < snd l"

fun push_channel :: "Channel \<Rightarrow> EventId \<Rightarrow> FifoGroups \<Rightarrow> FifoGroups" where
  "push_channel k i [] = [(k, [i])]"
| "push_channel k i ((l, ids) # rest) =
     (if k = l then (l, ids @ [i]) # rest
      else if channel_less k l then (k, [i]) # (l, ids) # rest
      else (l, ids) # push_channel k i rest)"

definition group_send :: "'v ExecutionGraph \<Rightarrow> EventId \<Rightarrow> FifoGroups \<Rightarrow> FifoGroups" where
  "group_send g i groups =
     (case as_send (events g ! i) of
        None \<Rightarrow> groups
      | Some s \<Rightarrow> push_channel (thread (events g ! i), destination s) i groups)"

definition group_fifo_sends :: "'v ExecutionGraph \<Rightarrow> FifoGroups" where
  "group_fifo_sends g = fold (group_send g) (eg_send_event_ids g) []"

definition record_consumer ::
    "'v ExecutionGraph \<Rightarrow> EventId \<times> ReadsFromSource \<Rightarrow> EventId option list \<Rightarrow> EventId option list result" where
  "record_consumer g e consumers =
     (case e of
        (r, bottom) \<Rightarrow> Inr consumers
      | (r, from_send i) \<Rightarrow>
          if \<not> is_valid_event_id g r \<or> \<not> is_valid_event_id g i then Inr consumers
          else (case (as_receive (events g ! r), as_send (events g ! i)) of
                  (Some rl, Some sl) \<Rightarrow>
                    if destination sl \<noteq> thread (events g ! r) then Inr consumers
                    else map_result (\<lambda>accepted. if accepted then consumers[i := Some r] else consumers)
                           (accepts rl (send_value sl))
                | _ \<Rightarrow> Inr consumers))"

definition compute_send_consumers :: "'v ExecutionGraph \<Rightarrow> EventId option list result" where
  "compute_send_consumers g =
     fold_result (record_consumer g) (rf_entries (reads_from g)) (replicate (length (events g)) None)"

text \<open>
  The inner loops of the clauses, which break at the first issue: the first id of the list that a
  guard selects and whose value the receive accepts.
\<close>

fun first_accepted ::
    "'v ExecutionGraph \<Rightarrow> 'v ReceiveLabel \<Rightarrow> (EventId \<Rightarrow> bool) \<Rightarrow> EventId list \<Rightarrow> EventId option result" where
  "first_accepted g rl guard [] = Inr None"
| "first_accepted g rl guard (i # is) =
     (if \<not> guard i then first_accepted g rl guard is
      else case as_send (events g ! i) of
             None \<Rightarrow> first_accepted g rl guard is
           | Some s \<Rightarrow>
               bind_result (accepts rl (send_value s)) (\<lambda>accepted.
                 if accepted then Inr (Some i) else first_accepted g rl guard is))"

definition clause_b_step ::
    "'v ExecutionGraph \<Rightarrow> EventId option list \<Rightarrow> EventId list \<Rightarrow> nat \<Rightarrow> ConsistencyResult \<Rightarrow> ConsistencyResult result"
where
  "clause_b_step g consumers ids later result =
     (case consumers ! (ids ! later) of
        None \<Rightarrow> Inr result
      | Some c \<Rightarrow>
          (case as_receive (events g ! c) of
             None \<Rightarrow> Inr result
           | Some rl \<Rightarrow>
               map_result
                 (\<lambda>earlier. case earlier of
                    None \<Rightarrow> result
                  | Some i \<Rightarrow> add_issue FifoP2PUnreadEarlierMatchingSend
                      (''receive event '' @ nat_to_string c @ '' reads from send event ''
                       @ nat_to_string (ids ! later) @ '' while unread earlier matching send event ''
                       @ nat_to_string i @ '' remains available'') result)
                 (first_accepted g rl (\<lambda>i. consumers ! i = None) (take later ids))))"

definition add_fifo_p2p_clause_b_issues ::
    "'v ExecutionGraph \<Rightarrow> FifoGroups \<Rightarrow> EventId option list \<Rightarrow> ConsistencyResult \<Rightarrow> ConsistencyResult result" where
  "add_fifo_p2p_clause_b_issues g groups consumers =
     fold_result (\<lambda>(_, ids). fold_result (clause_b_step g consumers ids) [0..<length ids]) groups"

text \<open>In clause (c) an earlier send counts when its reader comes after the reader of the later send.\<close>

definition read_later :: "'v ExecutionGraph \<Rightarrow> EventId option list \<Rightarrow> EventId \<Rightarrow> EventId \<Rightarrow> bool" where
  "read_later g consumers c i =
     (case consumers ! i of
        None \<Rightarrow> False
      | Some d \<Rightarrow> \<not> (thread (events g ! d) \<noteq> thread (events g ! c)
                     \<or> index (events g ! d) \<le> index (events g ! c)))"

definition clause_c_step ::
    "'v ExecutionGraph \<Rightarrow> EventId option list \<Rightarrow> EventId list \<Rightarrow> nat \<Rightarrow> ConsistencyResult \<Rightarrow> ConsistencyResult result"
where
  "clause_c_step g consumers ids later result =
     (case consumers ! (ids ! later) of
        None \<Rightarrow> Inr result
      | Some c \<Rightarrow>
          (case as_receive (events g ! c) of
             None \<Rightarrow> Inr result
           | Some rl \<Rightarrow>
               map_result
                 (\<lambda>earlier. case earlier of
                    None \<Rightarrow> result
                  | Some i \<Rightarrow> add_issue FifoP2PReceiveOrderViolation
                      (''receive event '' @ nat_to_string c @ '' consumes later send event ''
                       @ nat_to_string (ids ! later) @ '' before receive event ''
                       @ nat_to_string (the (consumers ! i)) @ '' consumes earlier matching send event ''
                       @ nat_to_string i) result)
                 (first_accepted g rl (read_later g consumers c) (take later ids))))"

definition add_fifo_p2p_clause_c_issues ::
    "'v ExecutionGraph \<Rightarrow> FifoGroups \<Rightarrow> EventId option list \<Rightarrow> ConsistencyResult \<Rightarrow> ConsistencyResult result" where
  "add_fifo_p2p_clause_c_issues g groups consumers =
     fold_result (\<lambda>(_, ids). fold_result (clause_c_step g consumers ids) [0..<length ids]) groups"

definition add_fifo_p2p_issues :: "'v ExecutionGraph \<Rightarrow> ConsistencyResult \<Rightarrow> ConsistencyResult result" where
  "add_fifo_p2p_issues g result =
     (let groups = group_fifo_sends g
      in bind_result (compute_send_consumers g) (\<lambda>consumers.
         bind_result (add_fifo_p2p_clause_b_issues g groups consumers result)
           (add_fifo_p2p_clause_c_issues g groups consumers)))"

section \<open>The checks\<close>

definition check_execution_graph ::
    "CommunicationModel \<Rightarrow> MissingReadsTolerance \<Rightarrow> 'v ExecutionGraph \<Rightarrow> ConsistencyResult result" where
  "check_execution_graph model tolerance g =
     bind_result (check_async_execution_graph tolerance g) (\<lambda>result.
       if model = FifoP2P \<and> is_consistent result then add_fifo_p2p_issues g result else Inr result)"

definition check_exploration_graph ::
    "CommunicationModel \<Rightarrow> MissingReadsTolerance \<Rightarrow> 'v ExplorationGraph
     \<Rightarrow> (ConsistencyResult \<times> 'v ExplorationGraph) result" where
  "check_exploration_graph model tolerance x =
     bind_result (check_async_exploration_graph tolerance x) (\<lambda>(result, y).
       if model = FifoP2P \<and> is_consistent result
       then map_result (\<lambda>result'. (result', y)) (add_fifo_p2p_issues (graph y) result)
       else Inr (result, y))"

text \<open>The three checker classes.\<close>

definition async_consistency_checker :: "'v ExecutionGraph \<Rightarrow> ConsistencyResult result" where
  "async_consistency_checker = check_execution_graph Async no_missing_reads_tolerance"

definition fifo_p2p_consistency_checker :: "'v ExecutionGraph \<Rightarrow> ConsistencyResult result" where
  "fifo_p2p_consistency_checker = check_execution_graph FifoP2P no_missing_reads_tolerance"

definition consistency_checker :: "CommunicationModel \<Rightarrow> 'v ExecutionGraph \<Rightarrow> ConsistencyResult result" where
  "consistency_checker model = check_execution_graph model no_missing_reads_tolerance"

definition consistency_checker_exploration ::
    "CommunicationModel \<Rightarrow> 'v ExplorationGraph \<Rightarrow> (ConsistencyResult \<times> 'v ExplorationGraph) result" where
  "consistency_checker_exploration model = check_exploration_graph model no_missing_reads_tolerance"

end
