(* ===== verification/Consistency_Spec.thy ===== *)
theory Consistency_Spec
  imports Consistency
begin

text \<open>
  What a consistent execution is, stated over the events and the reads-from map alone, and the
  proofs that the checkers of theory \<open>Consistency\<close> decide it.
\<close>

section \<open>The declarative definition\<close>

text \<open>Matchers that never throw.\<close>

definition total_matchers :: "'v event list \<Rightarrow> bool" where
  "total_matchers evs \<longleftrightarrow>
     (\<forall>e\<in>set evs. \<forall>rl. as_receive e = Some rl \<longrightarrow> (\<forall>v. \<exists>b. matches rl v = Inr b))"

definition recv_of :: "'v event list \<Rightarrow> EventId \<Rightarrow> 'v ReceiveLabel" where
  "recv_of evs r = the (as_receive (evs ! r))"

definition send_of :: "'v event list \<Rightarrow> EventId \<Rightarrow> 'v SendLabel" where
  "send_of evs i = the (as_send (evs ! i))"

definition accepted :: "'v event list \<Rightarrow> EventId \<Rightarrow> EventId \<Rightarrow> bool" where
  "accepted evs r i \<longleftrightarrow> matches (recv_of evs r) (send_value (send_of evs i)) = Inr True"

definition read_ok :: "'v event list \<Rightarrow> EventId \<Rightarrow> ReadsFromSource \<Rightarrow> bool" where
  "read_ok evs r s =
     (case s of
        bottom \<Rightarrow> is_nonblocking (recv_of evs r)
      | from_send i \<Rightarrow> destination (send_of evs i) = thread (evs ! r) \<and> accepted evs r i)"

definition reads_ok :: "MissingReadsTolerance \<Rightarrow> 'v event list \<Rightarrow> (EventId \<rightharpoonup> ReadsFromSource) \<Rightarrow> bool" where
  "reads_ok tolerance evs m \<longleftrightarrow> rf_valid evs m
     \<and> (\<forall>r s. m r = Some s \<longrightarrow> read_ok evs r s)
     \<and> (\<forall>r r' i. m r = Some (from_send i) \<longrightarrow> m r' = Some (from_send i) \<longrightarrow> r = r')
     \<and> (\<forall>r<length evs. is_receive (evs ! r) \<longrightarrow> tolerance r \<or> m r \<noteq> None)"

definition async_consistent :: "MissingReadsTolerance \<Rightarrow> 'v event list \<Rightarrow> (EventId \<rightharpoonup> ReadsFromSource) \<Rightarrow> bool" where
  "async_consistent tolerance evs m \<longleftrightarrow> reads_ok tolerance evs m \<and> acyclic (causal evs m)"

text \<open>
  FIFO channels: a receive that reads a send may have accepted an earlier send of the same channel
  only if that send was read before.
\<close>

definition same_channel :: "'v event list \<Rightarrow> EventId \<Rightarrow> EventId \<Rightarrow> bool" where
  "same_channel evs i j \<longleftrightarrow> is_send (evs ! i) \<and> is_send (evs ! j)
     \<and> thread (evs ! i) = thread (evs ! j) \<and> destination (send_of evs i) = destination (send_of evs j)"

definition fifo_ok :: "'v event list \<Rightarrow> (EventId \<rightharpoonup> ReadsFromSource) \<Rightarrow> bool" where
  "fifo_ok evs m \<longleftrightarrow> (\<forall>i j r. i < j \<and> j < length evs \<and> same_channel evs i j \<and> m r = Some (from_send j)
     \<and> accepted evs r i \<longrightarrow> (\<exists>r'<r. m r' = Some (from_send i)))"

definition consistent ::
    "CommunicationModel \<Rightarrow> MissingReadsTolerance \<Rightarrow> 'v event list \<Rightarrow> (EventId \<rightharpoonup> ReadsFromSource) \<Rightarrow> bool" where
  "consistent model tolerance evs m \<longleftrightarrow> async_consistent tolerance evs m \<and> (model = FifoP2P \<longrightarrow> fifo_ok evs m)"

section \<open>The validation pass\<close>

lemma add_issue_not_Nil [simp]: "add_issue c m result \<noteq> []"
  by (simp add: add_issue_def)

lemma vp_issue_simps [simp]:
  "vp_result (vp_issue c m v) = add_issue c m (vp_result v)"
  "valid_rf_edges (vp_issue c m v) = valid_rf_edges v"
  "cycle_query_safe (vp_issue c m v) = cycle_query_safe v"
  "receive_has_source (vp_issue c m v) = receive_has_source v"
  "send_read_count (vp_issue c m v) = send_read_count v"
  "vp_result (vp_unsafe_issue c m v) = add_issue c m (vp_result v)"
  "valid_rf_edges (vp_unsafe_issue c m v) = valid_rf_edges v"
  "\<not> cycle_query_safe (vp_unsafe_issue c m v)"
  "receive_has_source (vp_unsafe_issue c m v) = receive_has_source v"
  "send_read_count (vp_unsafe_issue c m v) = send_read_count v"
  by (simp_all add: vp_issue_def vp_unsafe_issue_def)

lemma vp_issue_if_simps [simp]:
  "vp_result (vp_issue_if b c m v) = [] \<longleftrightarrow> \<not> b \<and> vp_result v = []"
  "valid_rf_edges (vp_issue_if b c m v) = valid_rf_edges v"
  "cycle_query_safe (vp_issue_if b c m v) = cycle_query_safe v"
  "receive_has_source (vp_issue_if b c m v) = receive_has_source v"
  "send_read_count (vp_issue_if b c m v) = send_read_count v"
  "(vp_issue_if b c m v)\<lparr>valid_rf_edges := es\<rparr> = vp_issue_if b c m (v\<lparr>valid_rf_edges := es\<rparr>)"
  by (simp_all add: vp_issue_if_def vp_issue_def)

definition tables_ok :: "'v ExecutionGraph \<Rightarrow> ValidationPassResult \<Rightarrow> bool" where
  "tables_ok g v \<longleftrightarrow> length (receive_has_source v) = length (events g)
     \<and> length (send_read_count v) = length (events g)"

definition ids_ok :: "'v ExecutionGraph \<Rightarrow> EventId \<Rightarrow> ReadsFromSource \<Rightarrow> bool" where
  "ids_ok g r s \<longleftrightarrow> r < length (events g) \<and> (\<forall>i. s = from_send i \<longrightarrow> i < length (events g))"

definition kinds_ok :: "'v ExecutionGraph \<Rightarrow> EventId \<Rightarrow> ReadsFromSource \<Rightarrow> bool" where
  "kinds_ok g r s \<longleftrightarrow> is_receive (events g ! r) \<and> (\<forall>i. s = from_send i \<longrightarrow> is_send (events g ! i))"

lemma entry_ok_split: "entry_ok (events g) (r, s) \<longleftrightarrow> ids_ok g r s \<and> kinds_ok g r s"
  by (auto simp: entry_ok_def ids_ok_def kinds_ok_def)

lemma validate_ids_eq:
  "fst (validate_ids g r s v) \<longleftrightarrow> ids_ok g r s"
  "ids_ok g r s \<Longrightarrow> snd (validate_ids g r s v) = v"
  "\<not> ids_ok g r s \<Longrightarrow> vp_result (snd (validate_ids g r s v)) \<noteq> [] \<and> \<not> cycle_query_safe (snd (validate_ids g r s v))"
  "valid_rf_edges (snd (validate_ids g r s v)) = valid_rf_edges v"
  "receive_has_source (snd (validate_ids g r s v)) = receive_has_source v"
  "send_read_count (snd (validate_ids g r s v)) = send_read_count v"
  by (auto simp: validate_ids_def ids_ok_def is_valid_event_id_def Let_def split: ReadsFromSource.splits)

lemma validate_kinds_eq:
  "fst (validate_kinds g r s v) \<longleftrightarrow> kinds_ok g r s"
  "kinds_ok g r s \<Longrightarrow> snd (validate_kinds g r s v) = v"
  "\<not> kinds_ok g r s \<Longrightarrow> vp_result (snd (validate_kinds g r s v)) \<noteq> [] \<and> \<not> cycle_query_safe (snd (validate_kinds g r s v))"
  "valid_rf_edges (snd (validate_kinds g r s v)) = valid_rf_edges v"
  "receive_has_source (snd (validate_kinds g r s v)) = receive_has_source v"
  "send_read_count (snd (validate_kinds g r s v)) = send_read_count v"
  by (auto simp: validate_kinds_def kinds_ok_def Let_def split: ReadsFromSource.splits)

lemma validate_entry_eq:
  "validate_entry collect g (r, s) v =
     (if \<not> ids_ok g r s then Inr (snd (validate_ids g r s v))
      else let w = v\<lparr>receive_has_source := (receive_has_source v)[r := True]\<rparr>
           in if \<not> kinds_ok g r s then Inr (snd (validate_kinds g r s w)) else validate_read collect g r s w)"
proof -
  let ?w = "v\<lparr>receive_has_source := (receive_has_source v)[r := True]\<rparr>"
  obtain b v1 where 1: "validate_ids g r s v = (b, v1)" by force
  obtain b' v2 where 2: "validate_kinds g r s ?w = (b', v2)" by force
  show ?thesis
    using validate_ids_eq(1,2) [of g r s v] validate_kinds_eq(1,2) [of g r s ?w]
    by (simp add: validate_entry_def 1 2)
qed

text \<open>One read of a send or of bottom, the endpoints being of the right kind.\<close>

lemma validate_read_eq:
  assumes "total_matchers (events g)" "ids_ok g r s" "kinds_ok g r s" "tables_ok g v"
  shows "\<exists>v'. validate_read collect g r s v = Inr v' \<and> tables_ok g v'
    \<and> (vp_result v' = [] \<longleftrightarrow> vp_result v = [] \<and> read_ok (events g) r s
         \<and> (\<forall>i. s = from_send i \<longrightarrow> send_read_count v ! i = 0))
    \<and> cycle_query_safe v' = cycle_query_safe v \<and> receive_has_source v' = receive_has_source v
    \<and> valid_rf_edges v' = valid_rf_edges v @ (if collect then rf_edges_of (r, s) else [])
    \<and> (\<forall>i. s = from_send i \<longrightarrow> send_read_count v ! i = 0 \<longrightarrow> send_read_count v' = (send_read_count v)[i := 1])
    \<and> (s = bottom \<longrightarrow> send_read_count v' = send_read_count v)"
proof -
  from assms(3) obtain rl where rl: "as_receive (events g ! r) = Some rl"
    by (auto simp: kinds_ok_def elim: is_receiveE)
  then have rl': "recv_of (events g) r = rl" by (simp add: recv_of_def)
  show ?thesis
  proof (cases s)
    case bottom
    with rl rl' assms(4) show ?thesis
      by (auto simp: validate_read_def read_ok_def nonblocking_iff tables_ok_def)
  next
    case (from_send i)
    with assms(3) obtain sl where sl: "as_send (events g ! i) = Some sl"
      by (auto simp: kinds_ok_def elim: is_sendE)
    have "events g ! r \<in> set (events g)" using assms(2) by (simp add: ids_ok_def)
    with assms(1) rl obtain b where b: "matches rl (send_value sl) = Inr b"
      unfolding total_matchers_def by blast
    then have "accepts rl (send_value sl) = Inr b" by simp
    moreover have "accepted (events g) r i \<longleftrightarrow> b" using b rl sl by (simp add: accepted_def recv_of_def send_of_def)
    moreover have "send_of (events g) i = sl" using sl by (simp add: send_of_def)
    ultimately show ?thesis
      using from_send rl sl assms(4)
      by (auto simp: validate_read_def validate_send_read_def Let_def read_ok_def tables_ok_def)
  qed
qed

definition edge_list :: "(EventId \<times> ReadsFromSource) list \<Rightarrow> (EventId \<times> EventId) list" where
  "edge_list es = concat (map rf_edges_of es)"

lemma edge_list_simps [simp]: "edge_list [] = []" "edge_list (es @ [e]) = edge_list es @ rf_edges_of e"
  by (simp_all add: edge_list_def)

text \<open>The loop invariant of the pass, over the entries processed so far.\<close>

definition pass_inv ::
    "bool \<Rightarrow> 'v ExecutionGraph \<Rightarrow> (EventId \<times> ReadsFromSource) list \<Rightarrow> ValidationPassResult \<Rightarrow> bool" where
  "pass_inv collect g es v \<longleftrightarrow> tables_ok g v
     \<and> (vp_result v = [] \<longleftrightarrow> (\<forall>e\<in>set es. entry_ok (events g) e \<and> read_ok (events g) (fst e) (snd e))
          \<and> distinct (map fst (edge_list es)))
     \<and> (cycle_query_safe v \<longleftrightarrow> (\<forall>e\<in>set es. entry_ok (events g) e))
     \<and> set (valid_rf_edges v) \<subseteq> {..<length (events g)} \<times> {..<length (events g)}
     \<and> ((\<forall>e\<in>set es. entry_ok (events g) e) \<longrightarrow>
          valid_rf_edges v = (if collect then edge_list es else [])
          \<and> (\<forall>i<length (events g). receive_has_source v ! i \<longleftrightarrow> i \<in> fst ` set es))
     \<and> (vp_result v = [] \<longrightarrow> (\<forall>i<length (events g).
          send_read_count v ! i = (if i \<in> fst ` set (edge_list es) then 1 else 0)))"

lemma pass_inv_bad:
  assumes "pass_inv collect g es v" "\<not> entry_ok (events g) e" "tables_ok g v'" "vp_result v' \<noteq> []"
    "\<not> cycle_query_safe v'" "valid_rf_edges v' = valid_rf_edges v"
  shows "pass_inv collect g (es @ [e]) v'"
  using assms by (auto simp: pass_inv_def)

lemma pass_inv_step:
  assumes "total_matchers (events g)" "pass_inv collect g es v"
  shows "\<exists>v'. validate_entry collect g e v = Inr v' \<and> pass_inv collect g (es @ [e]) v'"
proof -
  obtain r s where e: "e = (r, s)" by force
  let ?w = "v\<lparr>receive_has_source := (receive_has_source v)[r := True]\<rparr>"
  have t: "tables_ok g v" "tables_ok g ?w" using assms(2) by (auto simp: pass_inv_def tables_ok_def)
  show ?thesis
  proof (cases "entry_ok (events g) e")
    case False
    then consider "\<not> ids_ok g r s" | "ids_ok g r s" "\<not> kinds_ok g r s" by (auto simp: e entry_ok_split)
    then show ?thesis
    proof cases
      case 1
      with pass_inv_bad [OF assms(2) False, of "snd (validate_ids g r s v)"] t show ?thesis
        by (simp add: e validate_entry_eq validate_ids_eq tables_ok_def)
    next
      case 2
      with pass_inv_bad [OF assms(2) False, of "snd (validate_kinds g r s ?w)"] t show ?thesis
        by (simp add: e validate_entry_eq validate_kinds_eq tables_ok_def)
    qed
  next
    case True
    then have ok: "ids_ok g r s" "kinds_ok g r s" by (auto simp: e entry_ok_split)
    obtain v' where v': "validate_read collect g r s ?w = Inr v'" "tables_ok g v'"
      "vp_result v' = [] \<longleftrightarrow> vp_result v = [] \<and> read_ok (events g) r s
         \<and> (\<forall>i. s = from_send i \<longrightarrow> send_read_count v ! i = 0)"
      "cycle_query_safe v' = cycle_query_safe v" "receive_has_source v' = (receive_has_source v)[r := True]"
      "valid_rf_edges v' = valid_rf_edges v @ (if collect then rf_edges_of (r, s) else [])"
      "\<forall>i. s = from_send i \<longrightarrow> send_read_count v ! i = 0 \<longrightarrow> send_read_count v' = (send_read_count v)[i := 1]"
      "s = bottom \<longrightarrow> send_read_count v' = send_read_count v"
      using validate_read_eq [OF assms(1) ok t(2), of collect] by auto
    have r: "r < length (events g)" using ok by (simp add: ids_ok_def)
    have len: "length (receive_has_source v) = length (events g)" "length (send_read_count v) = length (events g)"
      using t(1) by (auto simp: tables_ok_def)
    have edges: "set (rf_edges_of (r, s)) \<subseteq> {..<length (events g)} \<times> {..<length (events g)}"
      using ok(1) by (cases s) (auto simp: ids_ok_def)
    have p: "tables_ok g v" "vp_result v = [] \<longleftrightarrow>
        (\<forall>e\<in>set es. entry_ok (events g) e \<and> read_ok (events g) (fst e) (snd e)) \<and> distinct (map fst (edge_list es))"
      "cycle_query_safe v \<longleftrightarrow> (\<forall>e\<in>set es. entry_ok (events g) e)"
      "set (valid_rf_edges v) \<subseteq> {..<length (events g)} \<times> {..<length (events g)}"
      "(\<forall>e\<in>set es. entry_ok (events g) e) \<longrightarrow> valid_rf_edges v = (if collect then edge_list es else [])
        \<and> (\<forall>i<length (events g). receive_has_source v ! i \<longleftrightarrow> i \<in> fst ` set es)"
      "vp_result v = [] \<longrightarrow> (\<forall>i<length (events g).
        send_read_count v ! i = (if i \<in> fst ` set (edge_list es) then 1 else 0))"
      using assms(2) unfolding pass_inv_def by simp_all
    have "pass_inv collect g (es @ [e]) v'"
    proof (cases s)
      case bottom
      with v' assms(2) True r len edges show ?thesis
        by (auto simp: pass_inv_def e nth_list_update)
    next
      case (from_send i)
      then have i: "i < length (events g)" using ok(1) by (simp add: ids_ok_def)
      have cnt: "vp_result v = [] \<Longrightarrow> send_read_count v ! i = 0 \<longleftrightarrow> i \<notin> fst ` set (edge_list es)"
        using p(6) i by auto
      have res: "vp_result v' = [] \<longleftrightarrow>
          (\<forall>e\<in>set (es @ [e]). entry_ok (events g) e \<and> read_ok (events g) (fst e) (snd e))
          \<and> distinct (map fst (edge_list (es @ [e])))"
        using v'(3) cnt p(2) True from_send by (auto simp: e)
      have hs: "\<forall>k<length (events g). receive_has_source v' ! k \<longleftrightarrow> k \<in> fst ` set (es @ [e])"
        if "\<forall>e\<in>set (es @ [e]). entry_ok (events g) e"
        using v'(5) p(5) that r len by (auto simp: e nth_list_update)
      have rc: "\<forall>k<length (events g). send_read_count v' ! k = (if k \<in> fst ` set (edge_list (es @ [e])) then 1 else 0)"
        if "vp_result v' = []"
        using v'(3,7) p(6) that from_send i len by (auto simp: e nth_list_update)
      show ?thesis
        unfolding pass_inv_def using v'(2,4,6) p(3,4,5) True edges res hs rc by (auto simp: e from_send)
    qed
    with v'(1) ok show ?thesis by (auto simp: e validate_entry_eq)
  qed
qed

lemma fold_report_missing:
  "fold (report_missing_read g tolerance) is v = v\<lparr>vp_result := vp_result v @
     map (\<lambda>i. \<lparr>code = MissingReadsFromForReceive,
                issue_message = ''receive event '' @ nat_to_string i @ '' has no reads-from assignment''\<rparr>)
       (filter (\<lambda>i. \<not> (\<not> is_receive (events g ! i) \<or> receive_has_source v ! i \<or> tolerance i)) is)\<rparr>"
  by (induction "is" arbitrary: v) (auto simp: report_missing_read_def vp_issue_def add_issue_def)

lemma inj_sources:
  assumes "distinct (map fst es)"
  shows "distinct (map fst (edge_list es)) \<longleftrightarrow>
    (\<forall>r r' i. (r, from_send i) \<in> set es \<longrightarrow> (r', from_send i) \<in> set es \<longrightarrow> r = r')"
  using assms
proof (induction es rule: rev_induct)
  case (snoc e es)
  have mem: "i \<in> fst ` set (edge_list es) \<longleftrightarrow> (\<exists>r. (r, from_send i) \<in> set es)" for i
    by (force simp: edge_list_def in_rf_edges_of)
  obtain r s where e: "e = (r, s)" by force
  show ?case
  proof (cases s)
    case bottom
    with snoc e show ?thesis by auto
  next
    case (from_send i)
    have "r' \<noteq> r" if "(r', x) \<in> set es" for r' x using snoc.prems that by (force simp: e)
    then have "(\<forall>r r' i. (r, from_send i) \<in> set (es @ [e]) \<longrightarrow> (r', from_send i) \<in> set (es @ [e]) \<longrightarrow> r = r')
        \<longleftrightarrow> (\<forall>r r' i. (r, from_send i) \<in> set es \<longrightarrow> (r', from_send i) \<in> set es \<longrightarrow> r = r')
          \<and> \<not> (\<exists>r'. (r', from_send i) \<in> set es)"
      unfolding e from_send by simp blast
    with snoc e from_send mem show ?thesis by simp
  qed
qed simp

text \<open>
  The whole pass: it throws nothing, finds no issue exactly when the reads are in order, and hands
  on the valid edges.
\<close>

lemma validate_graph_correct:
  assumes "total_matchers (events g)"
  shows "\<exists>v. validate_graph collect tolerance g = Inr v
    \<and> (vp_result v = [] \<longleftrightarrow> reads_ok tolerance (events g) (rf_find (reads_from g)))
    \<and> (cycle_query_safe v \<longleftrightarrow> rf_valid (events g) (rf_find (reads_from g)))
    \<and> set (valid_rf_edges v) \<subseteq> {..<length (events g)} \<times> {..<length (events g)}
    \<and> (rf_valid (events g) (rf_find (reads_from g)) \<longrightarrow>
         valid_rf_edges v = (if collect then rf_edge_list (reads_from g) else []))"
proof -
  let ?n = "length (events g)" and ?es = "rf_entries (reads_from g)" and ?m = "rf_find (reads_from g)"
  let ?v0 = "\<lparr>vp_result = [], valid_rf_edges = [], cycle_query_safe = True,
    receive_has_source = replicate ?n False, send_read_count = replicate ?n 0\<rparr>"
  have "\<exists>v. fold_result (validate_entry collect g) ?es ?v0 = Inr v \<and> pass_inv collect g ?es v"
  proof (rule fold_result_rule)
    show "pass_inv collect g [] ?v0" by (simp add: pass_inv_def tables_ok_def)
  qed (rule pass_inv_step [OF assms])
  then obtain v where v: "fold_result (validate_entry collect g) ?es ?v0 = Inr v" "pass_inv collect g ?es v" by blast
  have dist: "distinct (map fst ?es)" using sorted_rf_entries by (metis strict_sorted_iff)
  have ok: "(\<forall>e\<in>set ?es. entry_ok (events g) e) \<longleftrightarrow> rf_valid (events g) ?m" by (simp add: rf_valid_entries)
  have dom: "i \<in> fst ` set ?es \<longleftrightarrow> ?m i \<noteq> None" for i by (force simp: set_rf_entries)
  let ?v = "fold (report_missing_read g tolerance) [0..<?n] v"
  have eq: "validate_graph collect tolerance g = Inr ?v" using v(1) by (simp add: validate_graph_def)
  have "vp_result ?v = [] \<longleftrightarrow> vp_result v = []
      \<and> (\<forall>i<?n. is_receive (events g ! i) \<longrightarrow> receive_has_source v ! i \<or> tolerance i)"
    by (auto simp: fold_report_missing filter_empty_conv)
  also have "\<dots> \<longleftrightarrow> reads_ok tolerance (events g) ?m"
  proof -
    have "vp_result v = [] \<longleftrightarrow> rf_valid (events g) ?m \<and> (\<forall>r s. ?m r = Some s \<longrightarrow> read_ok (events g) r s)
      \<and> (\<forall>r r' i. ?m r = Some (from_send i) \<longrightarrow> ?m r' = Some (from_send i) \<longrightarrow> r = r')"
      using v(2) ok inj_sources [OF dist] by (fastforce simp: pass_inv_def set_rf_entries)
    moreover have "\<forall>i<?n. receive_has_source v ! i \<longleftrightarrow> ?m i \<noteq> None" if "rf_valid (events g) ?m"
      using v(2) that ok dom by (simp add: pass_inv_def)
    ultimately show ?thesis by (auto simp: reads_ok_def)
  qed
  finally show ?thesis
    using eq v(2) ok by (auto simp: fold_report_missing pass_inv_def rf_edge_list_def edge_list_def)
qed

section \<open>The asynchronous checks\<close>

lemma check_async_execution_graph_correct:
  assumes "wf_eg g" "total_matchers (events g)"
  shows "\<exists>result. check_async_execution_graph tolerance g = Inr result
    \<and> (is_consistent result \<longleftrightarrow> async_consistent tolerance (events g) (rf_find (reads_from g)))"
proof -
  obtain v where v: "validate_graph True tolerance g = Inr v"
    "vp_result v = [] \<longleftrightarrow> reads_ok tolerance (events g) (rf_find (reads_from g))"
    "set (valid_rf_edges v) \<subseteq> {..<length (events g)} \<times> {..<length (events g)}"
    "rf_valid (events g) (rf_find (reads_from g)) \<longrightarrow> valid_rf_edges v = rf_edge_list (reads_from g)"
    using validate_graph_correct [OF assms(2), of True tolerance] by auto
  obtain po where po: "po_relation g = Inr po" "wf_po po" "po_nodes po = length (events g)"
    "po_edges po = po_of (events g)"
    using po_relation_wf [OF assms(1)] by auto
  note cyc = has_causal_cycle_dfs_correct [OF po(2,3) v(3), unfolded po(4)]
  have "reads_ok tolerance (events g) (rf_find (reads_from g)) \<Longrightarrow>
      po_of (events g) \<union> set (valid_rf_edges v) = causal (events g) (rf_find (reads_from g))"
    using v(4) by (simp add: reads_ok_def causal_def set_rf_edge_list)
  then show ?thesis
    using v(1,2) po(1) cyc
    by (auto simp: check_async_execution_graph_def is_consistent_def async_consistent_def add_causal_cycle_issue_def)
qed

lemma validate_entry_collect:
  "validate_entry False g e (v\<lparr>valid_rf_edges := []\<rparr>) =
     map_result (\<lambda>v. v\<lparr>valid_rf_edges := []\<rparr>) (validate_entry True g e v)"
proof -
  obtain r s where e: "e = (r, s)" by force
  have ids: "snd (validate_ids g r s (v\<lparr>valid_rf_edges := []\<rparr>)) = (snd (validate_ids g r s v))\<lparr>valid_rf_edges := []\<rparr>" for v
    by (simp add: validate_ids_def Let_def vp_issue_def vp_unsafe_issue_def split: ReadsFromSource.splits)
  have kinds: "snd (validate_kinds g r s (v\<lparr>valid_rf_edges := []\<rparr>)) = (snd (validate_kinds g r s v))\<lparr>valid_rf_edges := []\<rparr>" for v
    by (simp add: validate_kinds_def Let_def vp_issue_def vp_unsafe_issue_def split: ReadsFromSource.splits)
  have read: "validate_read False g r s (v\<lparr>valid_rf_edges := []\<rparr>) =
      map_result (\<lambda>v. v\<lparr>valid_rf_edges := []\<rparr>) (validate_read True g r s v)" for v
  proof -
    have "validate_send_read False ev rl sl r i (v\<lparr>valid_rf_edges := []\<rparr>) =
        map_result (\<lambda>v. v\<lparr>valid_rf_edges := []\<rparr>) (validate_send_read True ev rl sl r i v)" for ev and rl :: "'a ReceiveLabel" and sl i
      by (cases "accepts rl (send_value sl)")
        (simp_all add: validate_send_read_def Let_def vp_issue_if_def vp_issue_def del: accepts_eq_Inr)
    then show ?thesis
      by (auto simp: validate_read_def vp_issue_def simp del: as_receive_None as_send_None
          split: option.split ReadsFromSource.split)
  qed
  have comm: "v\<lparr>valid_rf_edges := [], receive_has_source := hs\<rparr> = v\<lparr>receive_has_source := hs, valid_rf_edges := []\<rparr>" for hs
    by simp
  show ?thesis
    using kinds [of "v\<lparr>receive_has_source := (receive_has_source v)[r := True]\<rparr>"]
      read [of "v\<lparr>receive_has_source := (receive_has_source v)[r := True]\<rparr>"]
    by (simp add: e validate_entry_eq ids Let_def comm)
qed

lemma fold_validate_collect:
  "fold_result (validate_entry False g) es (v\<lparr>valid_rf_edges := []\<rparr>) =
     map_result (\<lambda>v. v\<lparr>valid_rf_edges := []\<rparr>) (fold_result (validate_entry True g) es v)"
proof (induction es arbitrary: v)
  case (Cons e es)
  show ?case by (cases "validate_entry True g e v") (simp_all add: validate_entry_collect Cons.IH)
qed simp

text \<open>The pass that collects the valid edges finds the issues the other one finds.\<close>

lemma validate_graph_collect:
  "validate_graph False tolerance g = map_result (\<lambda>v. v\<lparr>valid_rf_edges := []\<rparr>) (validate_graph True tolerance g)"
proof -
  let ?n = "length (events g)"
  let ?v0 = "\<lparr>vp_result = [], valid_rf_edges = [], cycle_query_safe = True,
    receive_has_source = replicate ?n False, send_read_count = replicate ?n 0\<rparr>"
  have "?v0 = ?v0\<lparr>valid_rf_edges := []\<rparr>" by simp
  then show ?thesis
    using fold_validate_collect [of g "rf_entries (reads_from g)" ?v0]
    by (cases "fold_result (validate_entry True g) (rf_entries (reads_from g)) ?v0")
      (simp_all add: validate_graph_def fold_report_missing)
qed

text \<open>
  Checking an exploration graph: the same issues as for the plain graph, whatever is thrown
  included; the graph keeps its events and reads, its flags stay truthful, and a consistent
  graph is marked acyclic.
\<close>

definition checked :: "'v ExplorationGraph \<Rightarrow> 'v ExplorationGraph \<Rightarrow> bool" where
  "checked x y \<longleftrightarrow> (\<exists>c. y = x\<lparr>porf_cache := c\<rparr> \<or> y = mark_known_acyclic (x\<lparr>porf_cache := c\<rparr>))"

lemma has_causal_cycle_correct:
  assumes "wf_core x" "cache_ok x"
  shows "\<exists>c. has_causal_cycle stale x = Inr (\<not> acyclic (porf x), x\<lparr>porf_cache := Some c\<rparr>) \<and> cache_correct x c"
  using ensure_porf_cache_correct [OF assms, of stale] by (auto simp: has_causal_cycle_def cache_correct_def)

lemma has_causal_cycle_without_cache_correct:
  assumes "wf_core x"
  shows "has_causal_cycle_without_cache stale x = Inr (\<not> acyclic (porf x))"
  using build_porf_correct [OF assms, of stale] by (auto simp: has_causal_cycle_without_cache_def)

lemma validate_send_read_safe:
  assumes "validate_send_read collect ev rl sl r i v = Inr v'"
  shows "cycle_query_safe v' = cycle_query_safe v"
    "valid_rf_edges v' = valid_rf_edges v @ (if collect then [(i, r)] else [])"
  using assms by (cases collect; auto simp: validate_send_read_def Let_def)+

lemma validate_entry_safe:
  assumes "validate_entry collect g e v = Inr v'" "entry_ok (events g) e"
  shows "cycle_query_safe v' = cycle_query_safe v"
    "valid_rf_edges v' = valid_rf_edges v @ (if collect then rf_edges_of e else [])"
proof -
  obtain r s where e: "e = (r, s)" by force
  from assms(2) have ok: "ids_ok g r s" "kinds_ok g r s" by (auto simp: e entry_ok_split)
  from ok(2) obtain rl where rl: "as_receive (events g ! r) = Some rl" by (auto simp: kinds_ok_def elim: is_receiveE)
  have "cycle_query_safe v' = cycle_query_safe v
    \<and> valid_rf_edges v' = valid_rf_edges v @ (if collect then rf_edges_of e else [])"
  proof (cases s)
    case bottom
    with assms(1) ok rl show ?thesis by (auto simp: e validate_entry_eq validate_read_def Let_def split: if_splits)
  next
    case (from_send i)
    with ok(2) obtain sl where "as_send (events g ! i) = Some sl" by (auto simp: kinds_ok_def elim: is_sendE)
    with assms(1) ok rl from_send show ?thesis
      by (auto simp: e validate_entry_eq validate_read_def Let_def dest: validate_send_read_safe)
  qed
  then show "cycle_query_safe v' = cycle_query_safe v"
    "valid_rf_edges v' = valid_rf_edges v @ (if collect then rf_edges_of e else [])" by auto
qed

lemma fold_validate_safe:
  "fold_result (validate_entry collect g) es v = Inr v' \<Longrightarrow> \<forall>e\<in>set es. entry_ok (events g) e \<Longrightarrow>
     cycle_query_safe v' = cycle_query_safe v
     \<and> valid_rf_edges v' = valid_rf_edges v @ (if collect then edge_list es else [])"
proof (induction es arbitrary: v)
  case (Cons e es)
  then obtain w where "validate_entry collect g e v = Inr w" "fold_result (validate_entry collect g) es w = Inr v'" by auto
  with Cons validate_entry_safe [of collect g e v w] show ?case by (auto simp: edge_list_def)
qed simp

lemma validate_graph_safe:
  assumes "validate_graph collect tolerance g = Inr v" "rf_valid (events g) (rf_find (reads_from g))"
  shows "cycle_query_safe v" "valid_rf_edges v = (if collect then rf_edge_list (reads_from g) else [])"
  using assms fold_validate_safe [of collect g "rf_entries (reads_from g)"]
  by (auto simp: validate_graph_def fold_report_missing rf_valid_entries rf_edge_list_def edge_list_def Let_def)

lemma check_async_exploration_graph_eq:
  assumes "wf_xg x" "cache_ok x"
  shows "map_result fst (check_async_exploration_graph tolerance x) = check_async_execution_graph tolerance (graph x)"
    and "check_async_exploration_graph tolerance x = Inr (result, y) \<Longrightarrow>
      checked x y \<and> wf_xg y \<and> cache_ok y \<and> (is_consistent result \<longrightarrow> known_acyclic y)"
proof -
  from assms(1) have wf: "wf_core x" and fl: "flags_ok x" by (auto simp: wf_xg_def)
  note rv = wf_coreD(2) [OF wf]
  obtain po where po: "po_relation (graph x) = Inr po" "wf_po po" "po_nodes po = length (xg_events x)"
    "po_edges po = po_of (xg_events x)"
    using po_relation_wf [OF wf_coreD(1) [OF wf]] by auto
  have "set (rf_edge_list (reads_from (graph x))) \<subseteq> {..<length (xg_events x)} \<times> {..<length (xg_events x)}"
    using rv by (auto simp: set_rf_edge_list rf_of_def rf_valid_def)
  note dfs = has_causal_cycle_dfs_correct [OF po(2,3) this, unfolded po(4) set_rf_edge_list, folded causal_def]
  let ?query = "if known_acyclic x then Inr (False, x)
      else if porf_cache x \<noteq> None then has_causal_cycle [] x
      else map_result (\<lambda>cyc. (cyc, x)) (has_causal_cycle_without_cache [] x)"
  obtain y0 where y0: "?query = Inr (\<not> acyclic (porf x), y0)"
    "y0 = x \<or> (\<exists>c. y0 = x\<lparr>porf_cache := Some c\<rparr> \<and> cache_correct x c)"
  proof (cases "known_acyclic x \<or> porf_cache x = None")
    case True
    then have "?query = Inr (\<not> acyclic (porf x), x)"
      using fl has_causal_cycle_without_cache_correct [OF wf, of "[]"] by (auto simp: flags_ok_def)
    with that show ?thesis by blast
  next
    case False
    then show ?thesis using has_causal_cycle_correct [OF wf assms(2), of "[]"] that by auto
  qed
  have same: "graph y0 = graph x" using y0(2) by auto
  have wfy: "wf_xg y0 \<and> cache_ok y0" using y0(2) assms cache_correct_cong [of y0 x]
    by (auto simp: wf_xg_def wf_core_def caches_ok_def flags_ok_def cache_ok_def)
  have mk: "wf_xg (mark_known_acyclic y0) \<and> cache_ok (mark_known_acyclic y0)" if "acyclic (porf x)"
    using wfy that same by (auto simp: wf_xg_def wf_core_def caches_ok_def flags_ok_def cache_ok_def mark_known_acyclic_def
      cache_correct_def cache_lookup_def)
  show "map_result fst (check_async_exploration_graph tolerance x) = check_async_execution_graph tolerance (graph x)"
  proof (cases "validate_graph True tolerance (graph x)")
    case (Inr v)
    note sf = validate_graph_safe [OF Inr rv]
    with Inr po(1) dfs y0(1) show ?thesis
      by (simp add: check_async_exploration_graph_def check_async_execution_graph_def validate_graph_collect)
  qed (simp add: check_async_exploration_graph_def check_async_execution_graph_def validate_graph_collect)
  show "checked x y \<and> wf_xg y \<and> cache_ok y \<and> (is_consistent result \<longrightarrow> known_acyclic y)"
    if ch: "check_async_exploration_graph tolerance x = Inr (result, y)"
  proof -
    from ch obtain v where v: "validate_graph False tolerance (graph x) = Inr v"
      by (auto simp: check_async_exploration_graph_def)
    have "cycle_query_safe v" by (rule validate_graph_safe(1) [OF v rv])
    with ch v y0(1) have "(result, y) = (if \<not> acyclic (porf x) then (add_causal_cycle_issue (vp_result v), y0)
        else (vp_result v, if is_consistent (vp_result v) then mark_known_acyclic y0 else y0))"
      by (auto simp: check_async_exploration_graph_def split: if_splits)
    moreover have "checked x y0" "checked x (mark_known_acyclic y0)"
      using y0(2) unfolding checked_def by (auto intro: exI [of _ "porf_cache x"])
    ultimately show ?thesis using wfy mk
      by (auto simp: add_causal_cycle_issue_def is_consistent_def mark_known_acyclic_def split: if_splits)
  qed
qed

end
