(* ===== verification/Fifo_Spec.thy ===== *)
theory Fifo_Spec
  imports Consistency_Spec
begin

text \<open>
  Correctness of the FIFO clauses of theory \<open>Consistency\<close>: grouping sends by channel, the table of
  consumers, the two clauses, and with them the theorems on \<^verbatim>\<open>check_execution_graph\<close> and
  \<^verbatim>\<open>check_exploration_graph\<close>.
\<close>

section \<open>Grouping by channel\<close>

definition channel_of :: "'v event list \<Rightarrow> EventId \<Rightarrow> Channel" where
  "channel_of evs i = (thread (evs ! i), destination (send_of evs i))"

definition channel_sends :: "'v event list \<Rightarrow> Channel \<Rightarrow> EventId list" where
  "channel_sends evs k = filter (\<lambda>i. is_send (evs ! i) \<and> channel_of evs i = k) [0..<length evs]"

lemma channel_less_trans: "channel_less a b \<Longrightarrow> channel_less b c \<Longrightarrow> channel_less a c"
  by (auto simp: channel_less_def)

lemma channel_less_linear: "a = b \<or> channel_less a b \<or> channel_less b a"
  by (cases a; cases b) (auto simp: channel_less_def)

lemma channel_less_irrefl [simp]: "\<not> channel_less a a"
  by (simp add: channel_less_def)

lemma push_channel_keys: "set (map fst (push_channel k i gs)) = insert k (set (map fst gs))"
  by (induction k i gs rule: push_channel.induct) auto

lemma push_channel_correct:
  assumes "sorted_wrt channel_less (map fst gs)"
  shows "sorted_wrt channel_less (map fst (push_channel k i gs))"
    "map_of (push_channel k i gs) = (map_of gs)(k \<mapsto> (case map_of gs k of None \<Rightarrow> [i] | Some ids \<Rightarrow> ids @ [i]))"
proof -
  have "sorted_wrt channel_less (map fst (push_channel k i gs)) \<and>
    map_of (push_channel k i gs) = (map_of gs)(k \<mapsto> (case map_of gs k of None \<Rightarrow> [i] | Some ids \<Rightarrow> ids @ [i]))"
    using assms
  proof (induction k i gs rule: push_channel.induct)
    case (2 k i l ids rest)
    have keys: "\<forall>k'\<in>set (map fst (push_channel k i rest)). k' = k \<or> k' \<in> set (map fst rest)"
      by (simp only: push_channel_keys) blast
    consider "k = l" | "k \<noteq> l" "channel_less k l" | "k \<noteq> l" "\<not> channel_less k l" "channel_less l k"
      using channel_less_linear by blast
    then show ?case
    proof cases
      case 2
      have "k \<notin> set (map fst rest)"
        using "2.prems" channel_less_trans [OF 2(2), of k] by fastforce
      then have "map_of rest k = None" by (simp add: map_of_eq_None_iff)
      with 2 "2.prems" show ?thesis by (auto intro: channel_less_trans)
    next
      case 3
      have "\<forall>y\<in>set (push_channel k i rest). channel_less l (fst y)" using keys "2.prems" 3 by fastforce
      with 3 "2.IH" "2.prems" show ?thesis by (auto simp: fun_eq_iff)
    qed (use "2.prems" in auto)
  qed auto
  then show "sorted_wrt channel_less (map fst (push_channel k i gs))"
    "map_of (push_channel k i gs) = (map_of gs)(k \<mapsto> (case map_of gs k of None \<Rightarrow> [i] | Some ids \<Rightarrow> ids @ [i]))"
    by auto
qed

lemma fold_group_send:
  assumes "\<forall>i\<in>set is. is_send (events g ! i)"
  shows "sorted_wrt channel_less (map fst (fold (group_send g) is []))
    \<and> (\<forall>k. map_of (fold (group_send g) is []) k =
         (let ids = filter (\<lambda>i. channel_of (events g) i = k) is in if ids = [] then None else Some ids))"
  using assms
proof (induction "is" rule: rev_induct)
  case (snoc i "is")
  let ?gs = "fold (group_send g) is []"
  from snoc have IH: "sorted_wrt channel_less (map fst ?gs)"
    "\<And>k. map_of ?gs k = (let ids = filter (\<lambda>i. channel_of (events g) i = k) is in if ids = [] then None else Some ids)"
    by auto
  from snoc.prems obtain s where "as_send (events g ! i) = Some s" by (auto elim: is_sendE)
  then have "group_send g i ?gs = push_channel (channel_of (events g) i) i ?gs"
    by (simp add: group_send_def channel_of_def send_of_def)
  with push_channel_correct [OF IH(1), of "channel_of (events g) i" i] IH(2) show ?case
    by (auto simp: Let_def)
qed simp

lemma group_fifo_sends_correct:
  "sorted_wrt channel_less (map fst (group_fifo_sends g))"
  "(k, ids) \<in> set (group_fifo_sends g) \<longleftrightarrow> ids = channel_sends (events g) k \<and> ids \<noteq> []"
proof -
  have f: "sorted_wrt channel_less (map fst (group_fifo_sends g))"
    "map_of (group_fifo_sends g) k = (if channel_sends (events g) k = [] then None else Some (channel_sends (events g) k))"
    using fold_group_send [of "eg_send_event_ids g" g, THEN conjunct1]
      fold_group_send [of "eg_send_event_ids g" g, THEN conjunct2, THEN spec, of k]
    by (simp_all add: group_fifo_sends_def eg_send_event_ids_def channel_sends_def Let_def)
  then show "sorted_wrt channel_less (map fst (group_fifo_sends g))" by simp
  have "distinct (map fst (group_fifo_sends g))"
    unfolding distinct_conv_nth using f(1) by (auto simp: sorted_wrt_iff_nth_less) (metis channel_less_irrefl linorder_neqE_nat)
  then have "(k, ids) \<in> set (group_fifo_sends g) \<longleftrightarrow> map_of (group_fifo_sends g) k = Some ids"
    by simp
  with f(2) show "(k, ids) \<in> set (group_fifo_sends g) \<longleftrightarrow> ids = channel_sends (events g) k \<and> ids \<noteq> []" by auto
qed

section \<open>Consumers\<close>

lemma reads_okD:
  assumes "reads_ok tolerance evs m"
  shows "rf_valid evs m" "m r = Some s \<Longrightarrow> read_ok evs r s"
    "m r = Some (from_send i) \<Longrightarrow> m r' = Some (from_send i) \<Longrightarrow> r = r'"
    "r < length evs \<Longrightarrow> is_receive (evs ! r) \<Longrightarrow> \<not> tolerance r \<Longrightarrow> m r \<noteq> None"
  using assms unfolding reads_ok_def by blast+

lemma record_consumer_ok:
  assumes "entry_ok (events g) e" "read_ok (events g) (fst e) (snd e)"
  shows "record_consumer g e consumers = Inr (fold (\<lambda>(i, r) c. c[i := Some r]) (rf_edges_of e) consumers)"
proof -
  obtain r s where e: "e = (r, s)" by force
  show ?thesis
  proof (cases s)
    case (from_send i)
    with assms e obtain rl sl where "as_receive (events g ! r) = Some rl" "as_send (events g ! i) = Some sl"
      "r < length (events g)" "i < length (events g)"
      by (auto simp: entry_ok_def elim!: is_receiveE is_sendE)
    with assms(2) e from_send show ?thesis
      by (simp add: record_consumer_def is_valid_event_id_def read_ok_def accepted_def recv_of_def send_of_def accepts_def)
  qed (simp add: e record_consumer_def)
qed

lemma fold_set_entries:
  assumes "distinct (map fst es)" "\<forall>e\<in>set es. fst e < length c"
  shows "length (fold (\<lambda>(i, r) c. c[i := Some r]) es c) = length c"
    "j < length c \<Longrightarrow> fold (\<lambda>(i, r) c. c[i := Some r]) es c ! j = (case map_of es j of None \<Rightarrow> c ! j | Some r \<Rightarrow> Some r)"
proof -
  have "length (fold (\<lambda>(i, r) c. c[i := Some r]) es c) = length c \<and> (\<forall>j<length c.
      fold (\<lambda>(i, r) c. c[i := Some r]) es c ! j = (case map_of es j of None \<Rightarrow> c ! j | Some r \<Rightarrow> Some r))"
    using assms
  proof (induction es arbitrary: c)
    case (Cons e es)
    obtain i r where e: "e = (i, r)" by force
    have "map_of es i = None" using Cons.prems(1) by (simp add: e map_of_eq_None_iff)
    with Cons.IH [of "c[i := Some r]"] Cons.prems show ?case
      by (auto simp: e nth_list_update split: option.split)
  qed simp
  then show "length (fold (\<lambda>(i, r) c. c[i := Some r]) es c) = length c"
    "j < length c \<Longrightarrow> fold (\<lambda>(i, r) c. c[i := Some r]) es c ! j = (case map_of es j of None \<Rightarrow> c ! j | Some r \<Rightarrow> Some r)"
    by auto
qed

lemma compute_send_consumers_correct:
  assumes "reads_ok tolerance (events g) (rf_find (reads_from g))"
  shows "\<exists>consumers. compute_send_consumers g = Inr consumers \<and> length consumers = length (events g)
    \<and> (\<forall>i<length (events g). \<forall>r. consumers ! i = Some r \<longleftrightarrow> rf_find (reads_from g) r = Some (from_send i))"
proof -
  let ?es = "rf_entries (reads_from g)" and ?n = "length (events g)"
  note r = reads_okD [OF assms]
  have ok: "\<forall>e\<in>set ?es. entry_ok (events g) e \<and> read_ok (events g) (fst e) (snd e)"
    using r(1,2) by (auto simp: rf_valid_entries set_rf_entries)
  have "fold_result (record_consumer g) es c = Inr (fold (\<lambda>(i, r) c. c[i := Some r]) (edge_list es) c)"
    if "set es \<subseteq> set ?es" for es c
    using that ok by (induction es arbitrary: c) (auto simp: record_consumer_ok edge_list_def)
  then have eq: "compute_send_consumers g = Inr (fold (\<lambda>(i, r) c. c[i := Some r]) (edge_list ?es) (replicate ?n None))"
    by (simp add: compute_send_consumers_def)
  have mem: "(i, r) \<in> set (edge_list ?es) \<longleftrightarrow> rf_find (reads_from g) r = Some (from_send i)" for i r
    by (simp add: edge_list_def in_rf_edges_of set_rf_entries)
  have "distinct (map fst ?es)" using sorted_rf_entries by (metis strict_sorted_iff)
  then have dist: "distinct (map fst (edge_list ?es))" using inj_sources r(3) by (simp add: set_rf_entries)
  have "\<forall>e\<in>set (edge_list ?es). fst e < ?n" using mem r(1) by (auto simp: rf_valid_def)
  note f = fold_set_entries [OF dist, of "replicate ?n None"]
  have "fold (\<lambda>(i, r) c. c[i := Some r]) (edge_list ?es) (replicate ?n None) ! i = map_of (edge_list ?es) i"
    if "i < ?n" for i
    using f \<open>\<forall>e\<in>set (edge_list ?es). fst e < ?n\<close> that by (simp split: option.split)
  moreover have "map_of (edge_list ?es) i = Some q \<longleftrightarrow> rf_find (reads_from g) q = Some (from_send i)" for i q
    using mem map_of_eq_Some_iff [OF dist] by simp
  ultimately show ?thesis using eq f(1) \<open>\<forall>e\<in>set (edge_list ?es). fst e < ?n\<close> by simp
qed

section \<open>The clauses\<close>

lemma first_accepted_eq:
  assumes "total_matchers (events g)" "r < length (events g)" "as_receive (events g ! r) = Some rl"
    and "\<forall>i\<in>set is. is_send (events g ! i)"
  shows "first_accepted g rl guard is = Inr (find (\<lambda>i. guard i \<and> accepted (events g) r i) is)"
  using assms(4)
proof (induction "is")
  case (Cons i "is")
  from Cons.prems obtain sl where sl: "as_send (events g ! i) = Some sl" by (auto elim: is_sendE)
  obtain b where b: "matches rl (send_value sl) = Inr b"
    using assms(1-3) unfolding total_matchers_def by (meson nth_mem)
  then have "accepts rl (send_value sl) = Inr b" "accepted (events g) r i \<longleftrightarrow> b"
    using assms(3) sl by (simp_all add: accepted_def recv_of_def send_of_def)
  with Cons sl show ?case by auto
qed simp

text \<open>A loop whose steps report at most one issue each.\<close>

lemma fold_result_issues:
  assumes "\<And>x res. x \<in> set xs \<Longrightarrow> \<exists>res'. f x res = Inr res' \<and> (res' = [] \<longleftrightarrow> res = [] \<and> P x)"
  shows "\<exists>res'. fold_result f xs res = Inr res' \<and> (res' = [] \<longleftrightarrow> res = [] \<and> (\<forall>x\<in>set xs. P x))"
  using assms
proof (induction xs arbitrary: res)
  case (Cons x xs)
  from Cons.prems [of x res] obtain res1 where 1: "f x res = Inr res1" "res1 = [] \<longleftrightarrow> res = [] \<and> P x" by auto
  from Cons.IH [of res1] Cons.prems obtain res2 where
    "fold_result f xs res1 = Inr res2" "res2 = [] \<longleftrightarrow> res1 = [] \<and> (\<forall>x\<in>set xs. P x)" by auto
  with 1 show ?case by auto
qed simp

definition reader_table :: "'v ExecutionGraph \<Rightarrow> EventId option list \<Rightarrow> bool" where
  "reader_table g consumers \<longleftrightarrow>
     (\<forall>i<length (events g). \<forall>r. consumers ! i = Some r \<longleftrightarrow> rf_find (reads_from g) r = Some (from_send i))"

text \<open>A channel is in order under a guard on its earlier sends.\<close>

definition channel_clear ::
    "'v ExecutionGraph \<Rightarrow> (EventId \<Rightarrow> EventId \<Rightarrow> bool) \<Rightarrow> EventId list \<Rightarrow> nat \<Rightarrow> bool" where
  "channel_clear g guard ids later \<longleftrightarrow> (\<forall>r. rf_find (reads_from g) r = Some (from_send (ids ! later)) \<longrightarrow>
     (\<forall>i\<in>set (take later ids). \<not> (guard r i \<and> accepted (events g) r i)))"

lemma clause_steps_eq:
  assumes "total_matchers (events g)" "rf_valid (events g) (rf_find (reads_from g))" "reader_table g consumers"
    and "\<forall>i\<in>set ids. i < length (events g) \<and> is_send (events g ! i)" "later < length ids"
  shows "\<exists>res'. clause_b_step g consumers ids later res = Inr res'
      \<and> (res' = [] \<longleftrightarrow> res = [] \<and> channel_clear g (\<lambda>r i. consumers ! i = None) ids later)"
    and "\<exists>res'. clause_c_step g consumers ids later res = Inr res'
      \<and> (res' = [] \<longleftrightarrow> res = [] \<and> channel_clear g (read_later g consumers) ids later)"
proof -
  have j: "ids ! later < length (events g)" using assms(4,5) by simp
  have sub: "\<forall>i\<in>set (take later ids). is_send (events g ! i)" using assms(4) by (auto dest: in_set_takeD)
  have rt: "consumers ! (ids ! later) = Some r \<longleftrightarrow> rf_find (reads_from g) r = Some (from_send (ids ! later))" for r
    using assms(3) j by (simp add: reader_table_def)
  have "(\<exists>res'. clause_b_step g consumers ids later res = Inr res'
      \<and> (res' = [] \<longleftrightarrow> res = [] \<and> channel_clear g (\<lambda>r i. consumers ! i = None) ids later))
    \<and> (\<exists>res'. clause_c_step g consumers ids later res = Inr res'
      \<and> (res' = [] \<longleftrightarrow> res = [] \<and> channel_clear g (read_later g consumers) ids later))"
  proof (cases "consumers ! (ids ! later)")
    case None
    with rt show ?thesis by (auto simp: clause_b_step_def clause_c_step_def channel_clear_def)
  next
    case (Some c)
    then have c: "rf_find (reads_from g) c = Some (from_send (ids ! later))" using rt by simp
    with assms(2) have "c < length (events g)" "is_receive (events g ! c)" by (auto simp: rf_valid_def)
    then obtain rl where rl: "as_receive (events g ! c) = Some rl" by (auto elim: is_receiveE)
    note fa = first_accepted_eq [OF assms(1) \<open>c < _\<close> rl sub]
    have un: "r = c" if "rf_find (reads_from g) r = Some (from_send (ids ! later))" for r
      using that rt [of r] Some by simp
    have cc: "channel_clear g guard ids later \<longleftrightarrow> find (\<lambda>i. guard c i \<and> accepted (events g) c i) (take later ids) = None" for guard
    proof -
      have "channel_clear g guard ids later \<longleftrightarrow> (\<forall>i\<in>set (take later ids). \<not> (guard c i \<and> accepted (events g) c i))"
        unfolding channel_clear_def using c un by blast
      then show ?thesis by (auto simp: find_None_iff)
    qed
    show ?thesis
      using Some rl by (auto simp: clause_b_step_def clause_c_step_def fa cc split: option.splits)
  qed
  then show "\<exists>res'. clause_b_step g consumers ids later res = Inr res'
      \<and> (res' = [] \<longleftrightarrow> res = [] \<and> channel_clear g (\<lambda>r i. consumers ! i = None) ids later)"
    "\<exists>res'. clause_c_step g consumers ids later res = Inr res'
      \<and> (res' = [] \<longleftrightarrow> res = [] \<and> channel_clear g (read_later g consumers) ids later)" by auto
qed

lemma clause_issues:
  assumes "total_matchers (events g)" "rf_valid (events g) (rf_find (reads_from g))" "reader_table g consumers"
  shows "\<exists>res'. add_fifo_p2p_clause_b_issues g (group_fifo_sends g) consumers res = Inr res'
      \<and> (res' = [] \<longleftrightarrow> res = [] \<and> (\<forall>k. \<forall>later<length (channel_sends (events g) k).
           channel_clear g (\<lambda>r i. consumers ! i = None) (channel_sends (events g) k) later))"
    and "\<exists>res'. add_fifo_p2p_clause_c_issues g (group_fifo_sends g) consumers res = Inr res'
      \<and> (res' = [] \<longleftrightarrow> res = [] \<and> (\<forall>k. \<forall>later<length (channel_sends (events g) k).
           channel_clear g (read_later g consumers) (channel_sends (events g) k) later))"
proof -
  note steps = clause_steps_eq [OF assms]
  have ids: "\<forall>i\<in>set (snd kids). i < length (events g) \<and> is_send (events g ! i)" if "kids \<in> set (group_fifo_sends g)" for kids
    using that group_fifo_sends_correct(2) [of "fst kids" "snd kids" g] by (auto simp: channel_sends_def)
  have all: "(\<forall>kids\<in>set (group_fifo_sends g). \<forall>later\<in>set [0..<length (snd kids)]. Q (snd kids) later)
      \<longleftrightarrow> (\<forall>k. \<forall>later<length (channel_sends (events g) k). Q (channel_sends (events g) k) later)" for Q
  proof -
    have "set (group_fifo_sends g) = (\<lambda>k. (k, channel_sends (events g) k)) ` {k. channel_sends (events g) k \<noteq> []}"
      using group_fifo_sends_correct(2) [of _ _ g] by auto
    then have "(\<forall>kids\<in>set (group_fifo_sends g). \<forall>later\<in>set [0..<length (snd kids)]. Q (snd kids) later) \<longleftrightarrow>
        (\<forall>k\<in>{k. channel_sends (events g) k \<noteq> []}. \<forall>later\<in>set [0..<length (channel_sends (events g) k)].
           Q (channel_sends (events g) k) later)"
      by (simp only: ball_simps(9) snd_conv)
    also have "\<dots> \<longleftrightarrow> (\<forall>k. \<forall>later<length (channel_sends (events g) k). Q (channel_sends (events g) k) later)"
    proof (intro iffI allI impI)
      fix k later assume "later < length (channel_sends (events g) k)"
        and *: "\<forall>k\<in>{k. channel_sends (events g) k \<noteq> []}. \<forall>later\<in>set [0..<length (channel_sends (events g) k)].
          Q (channel_sends (events g) k) later"
      then have "channel_sends (events g) k \<noteq> []" by auto
      with bspec [OF *, of k] \<open>later < _\<close> show "Q (channel_sends (events g) k) later" by simp
    qed simp
    finally show ?thesis .
  qed
  have "\<exists>res'. add_fifo_p2p_clause_b_issues g (group_fifo_sends g) consumers res = Inr res' \<and> (res' = [] \<longleftrightarrow> res = [] \<and>
      (\<forall>kids\<in>set (group_fifo_sends g). \<forall>later\<in>set [0..<length (snd kids)].
         channel_clear g (\<lambda>r i. consumers ! i = None) (snd kids) later))"
    unfolding add_fifo_p2p_clause_b_issues_def case_prod_unfold
    by (intro fold_result_issues) (use steps(1) ids in auto)
  then show "\<exists>res'. add_fifo_p2p_clause_b_issues g (group_fifo_sends g) consumers res = Inr res'
      \<and> (res' = [] \<longleftrightarrow> res = [] \<and> (\<forall>k. \<forall>later<length (channel_sends (events g) k).
           channel_clear g (\<lambda>r i. consumers ! i = None) (channel_sends (events g) k) later))" by (simp only: all)
  have "\<exists>res'. add_fifo_p2p_clause_c_issues g (group_fifo_sends g) consumers res = Inr res' \<and> (res' = [] \<longleftrightarrow> res = [] \<and>
      (\<forall>kids\<in>set (group_fifo_sends g). \<forall>later\<in>set [0..<length (snd kids)].
         channel_clear g (read_later g consumers) (snd kids) later))"
    unfolding add_fifo_p2p_clause_c_issues_def case_prod_unfold
    by (intro fold_result_issues) (use steps(2) ids in auto)
  then show "\<exists>res'. add_fifo_p2p_clause_c_issues g (group_fifo_sends g) consumers res = Inr res'
      \<and> (res' = [] \<longleftrightarrow> res = [] \<and> (\<forall>k. \<forall>later<length (channel_sends (events g) k).
           channel_clear g (read_later g consumers) (channel_sends (events g) k) later))" by (simp only: all)
qed

lemma channel_sends_pairs:
  "(\<forall>k. \<forall>later<length (channel_sends evs k). \<forall>i\<in>set (take later (channel_sends evs k)). Q (channel_sends evs k ! later) i)
   \<longleftrightarrow> (\<forall>i j. i < j \<and> j < length evs \<and> same_channel evs i j \<longrightarrow> Q j i)" (is "?l \<longleftrightarrow> ?r")
proof
  have s: "sorted_wrt (<) (channel_sends evs k)" for k unfolding channel_sends_def by (intro sorted_wrt_filter) simp
  have mem: "i \<in> set (channel_sends evs k) \<longleftrightarrow> i < length evs \<and> is_send (evs ! i) \<and> channel_of evs i = k" for i k
    by (auto simp: channel_sends_def)
  show ?r if ?l
  proof (intro allI impI)
    fix i j assume ij: "i < j \<and> j < length evs \<and> same_channel evs i j"
    let ?c = "channel_sends evs (channel_of evs j)"
    have "i \<in> set ?c" "j \<in> set ?c" using ij by (auto simp: mem same_channel_def channel_of_def)
    then obtain p q where pq: "p < length ?c" "?c ! p = i" "q < length ?c" "?c ! q = j" by (auto simp: in_set_conv_nth)
    then have "p < q" using ij sorted_wrt_nth_less [OF s, of q p] by (metis less_asym linorder_neqE_nat)
    with pq have "i \<in> set (take q ?c)" by (auto simp: in_set_conv_nth)
    with \<open>?l\<close> [THEN spec [of _ "channel_of evs j"], THEN spec [of _ q]] pq show "Q j i" by simp
  qed
  show ?l if ?r
  proof (intro allI impI ballI)
    fix k later i assume l: "later < length (channel_sends evs k)" "i \<in> set (take later (channel_sends evs k))"
    then obtain p where p: "p < later" "i = channel_sends evs k ! p" by (auto simp: in_set_conv_nth)
    with l have "i < channel_sends evs k ! later" using sorted_wrt_nth_less [OF s, of p later] by simp
    moreover have "i \<in> set (channel_sends evs k)" "channel_sends evs k ! later \<in> set (channel_sends evs k)"
      using l by (auto dest: in_set_takeD)
    ultimately show "Q (channel_sends evs k ! later) i"
      using \<open>?r\<close> by (auto simp: mem same_channel_def channel_of_def)
  qed
qed

lemma all_pairs_cong:
  "(\<And>i j. P i j \<Longrightarrow> A i j \<and> B i j \<longleftrightarrow> C i j) \<Longrightarrow>
     (\<forall>i j. P i j \<longrightarrow> A i j) \<and> (\<forall>i j. P i j \<longrightarrow> B i j) \<longleftrightarrow> (\<forall>i j. P i j \<longrightarrow> C i j)"
  by blast

lemma clauses_fifo_ok:
  assumes wf: "wf_eg g" and ok: "reads_ok tolerance (events g) (rf_find (reads_from g))"
    and rt: "reader_table g consumers"
  shows "(\<forall>k. \<forall>later<length (channel_sends (events g) k).
           channel_clear g (\<lambda>r i. consumers ! i = None) (channel_sends (events g) k) later)
    \<and> (\<forall>k. \<forall>later<length (channel_sends (events g) k).
           channel_clear g (read_later g consumers) (channel_sends (events g) k) later)
    \<longleftrightarrow> fifo_ok (events g) (rf_find (reads_from g))"
proof -
  let ?evs = "events g" and ?m = "rf_find (reads_from g)"
  note r = reads_okD [OF ok]
  have late: "\<not> (consumers ! i = None) \<and> \<not> read_later g consumers c i \<longleftrightarrow> (\<exists>d<c. ?m d = Some (from_send i))"
    if ij: "i < j" "j < length ?evs" "same_channel ?evs i j" and c: "?m c = Some (from_send j)" for i j c
  proof (cases "consumers ! i")
    case None
    have "consumers ! i = Some d \<longleftrightarrow> ?m d = Some (from_send i)" for d
      using rt ij(1,2) by (simp add: reader_table_def)
    with None show ?thesis by auto
  next
    case (Some d)
    have "consumers ! i = Some d \<longleftrightarrow> ?m d = Some (from_send i)" for d
      using rt ij(1,2) by (simp add: reader_table_def)
    from this [unfolded Some option.inject] have d: "?m d' = Some (from_send i) \<longleftrightarrow> d' = d" for d' by metis
    have "c \<noteq> d" using c d [of d] ij by auto
    have cd: "c < length ?evs" "d < length ?evs" using r(1) c d [of d] by (auto simp: rf_valid_def)
    have th: "thread (?evs ! d) = thread (?evs ! c)"
      using r(2) [OF c] r(2) [of d "from_send i"] d [of d] ij(3) by (simp add: read_ok_def same_channel_def)
    have "index (?evs ! d) \<le> index (?evs ! c) \<longleftrightarrow> d < c"
      using wf_egD(1) [OF wf] cd th \<open>c \<noteq> d\<close> unfolding increasing_indices_def
      by (metis less_imp_le linorder_neqE_nat not_le)
    with Some d th show ?thesis by (auto simp: read_later_def)
  qed
  have step: "(\<forall>c. ?m c = Some (from_send j) \<longrightarrow> \<not> (consumers ! i = None \<and> accepted ?evs c i))
      \<and> (\<forall>c. ?m c = Some (from_send j) \<longrightarrow> \<not> (read_later g consumers c i \<and> accepted ?evs c i))
      \<longleftrightarrow> (\<forall>c. ?m c = Some (from_send j) \<and> accepted ?evs c i \<longrightarrow> (\<exists>d<c. ?m d = Some (from_send i)))"
    if "i < j \<and> j < length ?evs \<and> same_channel ?evs i j" for i j
    using late [of i j] that by blast
  have clear: "(\<forall>k. \<forall>later<length (channel_sends ?evs k). channel_clear g guard (channel_sends ?evs k) later) \<longleftrightarrow>
      (\<forall>i j. i < j \<and> j < length ?evs \<and> same_channel ?evs i j \<longrightarrow>
        (\<forall>c. ?m c = Some (from_send j) \<longrightarrow> \<not> (guard c i \<and> accepted ?evs c i)))" for guard
    unfolding channel_sends_pairs [symmetric] channel_clear_def by blast
  have "fifo_ok ?evs ?m \<longleftrightarrow> (\<forall>i j. i < j \<and> j < length ?evs \<and> same_channel ?evs i j \<longrightarrow>
      (\<forall>c. ?m c = Some (from_send j) \<and> accepted ?evs c i \<longrightarrow> (\<exists>d<c. ?m d = Some (from_send i))))"
    unfolding fifo_ok_def by blast
  then show ?thesis unfolding clear using all_pairs_cong [OF step] by simp
qed

section \<open>The checks\<close>

lemma add_fifo_p2p_issues_correct:
  assumes "wf_eg g" "total_matchers (events g)" "reads_ok tolerance (events g) (rf_find (reads_from g))"
  shows "\<exists>result. add_fifo_p2p_issues g [] = Inr result
    \<and> (result = [] \<longleftrightarrow> fifo_ok (events g) (rf_find (reads_from g)))"
proof -
  obtain consumers where c: "compute_send_consumers g = Inr consumers" "reader_table g consumers"
    using compute_send_consumers_correct [OF assms(3)] by (auto simp: reader_table_def)
  note iss = clause_issues [OF assms(2) reads_okD(1) [OF assms(3)] c(2)]
  from iss(1) [of "[]"] obtain r1 where r1: "add_fifo_p2p_clause_b_issues g (group_fifo_sends g) consumers [] = Inr r1"
    "r1 = [] \<longleftrightarrow> (\<forall>k. \<forall>later<length (channel_sends (events g) k).
           channel_clear g (\<lambda>r i. consumers ! i = None) (channel_sends (events g) k) later)" by auto
  from iss(2) [of r1] obtain r2 where r2: "add_fifo_p2p_clause_c_issues g (group_fifo_sends g) consumers r1 = Inr r2"
    "r2 = [] \<longleftrightarrow> r1 = [] \<and> (\<forall>k. \<forall>later<length (channel_sends (events g) k).
           channel_clear g (read_later g consumers) (channel_sends (events g) k) later)" by blast
  have "add_fifo_p2p_issues g [] = Inr r2" using c(1) r1(1) r2(1) by (simp add: add_fifo_p2p_issues_def)
  with r1(2) r2(2) clauses_fifo_ok [OF assms(1,3) c(2)] show ?thesis by blast
qed

lemma check_execution_graph_correct:
  assumes "wf_eg g" "total_matchers (events g)"
  shows "\<exists>result. check_execution_graph model tolerance g = Inr result
    \<and> (is_consistent result \<longleftrightarrow> consistent model tolerance (events g) (rf_find (reads_from g)))"
proof -
  obtain result where r: "check_async_execution_graph tolerance g = Inr result"
    "is_consistent result \<longleftrightarrow> async_consistent tolerance (events g) (rf_find (reads_from g))"
    using check_async_execution_graph_correct [OF assms] by blast
  show ?thesis
  proof (cases "model = FifoP2P \<and> is_consistent result")
    case True
    then have "reads_ok tolerance (events g) (rf_find (reads_from g))" using r by (simp add: async_consistent_def)
    with add_fifo_p2p_issues_correct [OF assms, of tolerance] True r show ?thesis
      by (auto simp: check_execution_graph_def consistent_def is_consistent_def)
  next
    case False
    with r show ?thesis by (auto simp: check_execution_graph_def consistent_def)
  qed
qed

lemma check_exploration_graph_eq:
  assumes "wf_xg x" "cache_ok x"
  shows "map_result fst (check_exploration_graph model tolerance x) = check_execution_graph model tolerance (graph x)"
    and "check_exploration_graph model tolerance x = Inr (result, y) \<Longrightarrow>
      checked x y \<and> wf_xg y \<and> cache_ok y \<and> (is_consistent result \<longrightarrow> known_acyclic y)"
proof -
  note a = check_async_exploration_graph_eq [OF assms, of tolerance]
  have g: "checked x y \<Longrightarrow> graph y = graph x" for y by (auto simp: checked_def mark_known_acyclic_def)
  show "map_result fst (check_exploration_graph model tolerance x) = check_execution_graph model tolerance (graph x)"
  proof (cases "check_async_exploration_graph tolerance x")
    case (Inr ry)
    obtain result y where ry: "ry = (result, y)" by force
    have "check_async_execution_graph tolerance (graph x) = Inr result" using a(1) Inr ry by simp
    moreover have "graph y = graph x" using a(2) Inr ry g by blast
    ultimately show ?thesis
      by (cases "add_fifo_p2p_issues (graph x) result")
        (simp_all add: check_exploration_graph_def check_execution_graph_def Inr ry)
  next
    case (Inl e)
    with a(1) show ?thesis by (simp add: check_exploration_graph_def check_execution_graph_def flip: a(1))
  qed
  show "checked x y \<and> wf_xg y \<and> cache_ok y \<and> (is_consistent result \<longrightarrow> known_acyclic y)"
    if "check_exploration_graph model tolerance x = Inr (result, y)"
  proof -
    from that obtain r0 where "check_async_exploration_graph tolerance x = Inr (r0, y)"
      "is_consistent result \<Longrightarrow> is_consistent r0"
      by (auto simp: check_exploration_graph_def split: if_splits)
    with a(2) show ?thesis by blast
  qed
qed

section \<open>Properties\<close>

text \<open>C4. The consistency check decides consistency: on every well-formed execution graph whose matchers do not
  throw, the check terminates with a list of issues that is empty exactly when the reads-from map is
  valid, each read matches destination and predicate, blocking receives do not read bottom, no send is
  read twice, no receive lacks a source (up to the tolerance), program order and reads-from are
  acyclic and, in the FIFO model, no receive overtakes an earlier matching send of its channel.\<close>

theorem check_decides_consistency:
  assumes "wf_eg g" "total_matchers (events g)"
  shows "\<exists>result. check_execution_graph model tolerance g = Inr result
    \<and> (is_consistent result \<longleftrightarrow> consistent model tolerance (events g) (rf_find (reads_from g)))"
  by (rule check_execution_graph_correct [OF assms])

lemma sample_total: "total_matchers sample_events"
  by (auto simp: total_matchers_def sample_events_def as_receive_def make_receive_label_def match_any_value_def)

lemma sample_consistent: "consistent FifoP2P no_missing_reads_tolerance sample_events [1 \<mapsto> from_send 0]"
proof -
  have "reads_ok no_missing_reads_tolerance sample_events [1 \<mapsto> from_send 0]"
    "fifo_ok sample_events [1 \<mapsto> from_send 0]"
    by (auto simp: reads_ok_def rf_valid_def read_ok_def accepted_def recv_of_def send_of_def as_receive_def as_send_def
        is_receive_def is_send_def fifo_ok_def sample_events_def less_Suc_eq make_receive_label_def match_any_value_def
        split: if_splits)
  then show ?thesis by (simp add: consistent_def async_consistent_def)
qed

theorem check_decides_consistency_witness:
  "\<exists>result. check_execution_graph FifoP2P no_missing_reads_tolerance (graph sample_xg) = Inr result \<and> is_consistent result"
  using check_decides_consistency [of "graph sample_xg" FifoP2P no_missing_reads_tolerance]
    wf_coreD(1) [of sample_xg] sample_total sample_consistent by auto

text \<open>C21. Checking an exploration graph, which trusts the acyclicity flag and reuses the causal-order cache,
  reports exactly what the check of the plain graph reports, exceptions included; it changes nothing
  but the cache and the flags, keeps both truthful, and marks a consistent graph acyclic.\<close>

theorem exploration_check_agrees:
  assumes "wf_xg x" "cache_ok x"
  shows "map_result fst (check_exploration_graph model tolerance x) = check_execution_graph model tolerance (graph x)
    \<and> (\<forall>result y. check_exploration_graph model tolerance x = Inr (result, y) \<longrightarrow>
         checked x y \<and> wf_xg y \<and> cache_ok y \<and> (is_consistent result \<longrightarrow> known_acyclic y))"
  using check_exploration_graph_eq [OF assms] by blast

theorem exploration_check_agrees_witness:
  "map_result fst (check_exploration_graph Async no_missing_reads_tolerance sample_xg) =
     check_execution_graph Async no_missing_reads_tolerance (graph sample_xg)"
  using exploration_check_agrees [of sample_xg] by (auto simp: cache_ok_def)

end
