(* ===== verification/Program.thy ===== *)
theory Program
  imports Events
begin

text \<open>
  The program representation, \<^verbatim>\<open>include/dpor/algo/program.hpp\<close>: the vector-backed map from thread
  ids to thread functions with its validation. A thread function is a function of the observed
  trace and the step count, which is what the determinism contract of the sources demands of it,
  and may throw.
\<close>

record 'a ThreadMap =
  tm_entries :: "'a option list"
  tm_size :: nat

definition tm_empty :: "'a ThreadMap" where
  "tm_empty = \<lparr>tm_entries = [], tm_size = 0\<rparr>"

text \<open>\<^verbatim>\<open>operator[]\<close>: the entry is created with the default value when absent.\<close>

definition tm_index :: "'a \<Rightarrow> ThreadId \<Rightarrow> 'a ThreadMap \<Rightarrow> 'a ThreadMap" where
  "tm_index d t m =
     (let es = grow_to t None (tm_entries m)
      in if es ! t = None then m\<lparr>tm_entries := es[t := Some d], tm_size := tm_size m + 1\<rparr>
         else m\<lparr>tm_entries := es\<rparr>)"

text \<open>The assignment through the reference \<^verbatim>\<open>operator[]\<close> returns.\<close>

definition tm_assign :: "'a \<Rightarrow> ThreadId \<Rightarrow> 'a \<Rightarrow> 'a ThreadMap \<Rightarrow> 'a ThreadMap" where
  "tm_assign d t v m = (let m' = tm_index d t m in m'\<lparr>tm_entries := (tm_entries m')[t := Some v]\<rparr>)"

definition tm_of_list :: "'a \<Rightarrow> (ThreadId \<times> 'a) list \<Rightarrow> 'a ThreadMap" where
  "tm_of_list d init = fold (\<lambda>(t, v). tm_assign d t v) init tm_empty"

definition tm_at :: "'a ThreadMap \<Rightarrow> ThreadId \<Rightarrow> 'a result" where
  "tm_at m t =
     (case nth_or None (tm_entries m) t of
        None \<Rightarrow> Inl (precondition_error ''thread id not found'')
      | Some v \<Rightarrow> Inr v)"

definition tm_contains :: "'a ThreadMap \<Rightarrow> ThreadId \<Rightarrow> bool" where
  "tm_contains m t \<longleftrightarrow> t < length (tm_entries m) \<and> tm_entries m ! t \<noteq> None"

definition tm_clear :: "'a ThreadMap \<Rightarrow> 'a ThreadMap" where
  "tm_clear m = m\<lparr>tm_entries := [], tm_size := 0\<rparr>"

text \<open>\<^verbatim>\<open>for_each_assigned\<close>: the pairs its callback receives, in order.\<close>

definition for_each_assigned :: "'a ThreadMap \<Rightarrow> (ThreadId \<times> 'a) list" where
  "for_each_assigned m =
     concat (map (\<lambda>(t, e). case e of None \<Rightarrow> [] | Some v \<Rightarrow> [(t, v)]) (enumerate 0 (tm_entries m)))"

text \<open>The scan for the smallest and largest assigned id.\<close>

definition scan_bounds :: "nat \<times> 'a option \<Rightarrow> nat option \<times> nat \<Rightarrow> nat option \<times> nat" where
  "scan_bounds te s =
     (case s of (min_tid, max_tid) \<Rightarrow>
        if snd te = None then (min_tid, max_tid)
        else let t = fst te
             in ((case min_tid of None \<Rightarrow> Some t | Some k \<Rightarrow> if t < k then Some t else Some k),
                 if t > max_tid then t else max_tid))"

definition validate_compact_thread_ids :: "'a ThreadMap \<Rightarrow> unit result" where
  "validate_compact_thread_ids m =
     (if tm_size m = 0 then Inr ()
      else case fold scan_bounds (enumerate 0 (tm_entries m)) (None, 0) of
        (min_tid, max_tid) \<Rightarrow>
          (let first_tid = the min_tid; count = tm_size m;
               zero_based = (first_tid = 0 \<and> max_tid + 1 = count);
               one_based = (first_tid = 1 \<and> max_tid = count)
           in if zero_based \<or> one_based then Inr ()
              else Inl (precondition_error
                (''thread ids must form a compact contiguous 0-based or 1-based range; ''
                 @ ''observed thread ids span ['' @ nat_to_string first_tid @ '', ''
                 @ nat_to_string max_tid @ ''] across '' @ nat_to_string count @ '' assigned threads''))))"

type_synonym 'v ThreadTrace = "'v ObservedValue list"

type_synonym 'v ThreadFunction = "'v ThreadTrace \<Rightarrow> nat \<Rightarrow> 'v EventLabel option result"

record 'v Program =
  threads :: "'v ThreadFunction ThreadMap"

section \<open>Correctness\<close>

definition tm_assigned :: "'a ThreadMap \<Rightarrow> ThreadId set" where
  "tm_assigned m = {t. tm_contains m t}"

definition wf_tm :: "'a ThreadMap \<Rightarrow> bool" where
  "wf_tm m \<longleftrightarrow> tm_size m = card (tm_assigned m)"

lemma finite_tm_assigned [simp]: "finite (tm_assigned m)"
  by (rule finite_subset [of _ "{..<length (tm_entries m)}"]) (auto simp: tm_assigned_def tm_contains_def)

lemma tm_assigned_empty [simp]: "tm_assigned tm_empty = {}" "wf_tm tm_empty"
  by (simp_all add: wf_tm_def tm_assigned_def tm_contains_def tm_empty_def)

lemma tm_assign_entries:
  "tm_entries (tm_assign d t v m) = (grow_to t None (tm_entries m))[t := Some v]"
  by (simp add: tm_assign_def tm_index_def Let_def)

lemma tm_contains_assign: "tm_contains (tm_assign d t v m) u \<longleftrightarrow> u = t \<or> tm_contains m u"
  by (auto simp: tm_contains_def tm_assign_entries nth_list_update split: if_splits)

lemma tm_assign_wf:
  assumes "wf_tm m"
  shows "wf_tm (tm_assign d t v m)" "tm_assigned (tm_assign d t v m) = insert t (tm_assigned m)"
proof -
  show asg: "tm_assigned (tm_assign d t v m) = insert t (tm_assigned m)"
    by (auto simp: tm_assigned_def tm_contains_assign)
  have "tm_size (tm_assign d t v m) = (if tm_contains m t then tm_size m else Suc (tm_size m))"
    by (auto simp: tm_assign_def tm_index_def Let_def tm_contains_def)
  moreover have "tm_contains m t \<longleftrightarrow> t \<in> tm_assigned m" by (simp add: tm_assigned_def)
  ultimately show "wf_tm (tm_assign d t v m)"
    using assms asg by (simp add: wf_tm_def card_insert_if insert_absorb)
qed

lemma tm_of_list_wf:
  "wf_tm (tm_of_list d init) \<and> tm_assigned (tm_of_list d init) = fst ` set init"
proof -
  have "wf_tm m \<Longrightarrow> wf_tm (fold (\<lambda>(t, v). tm_assign d t v) init m)
      \<and> tm_assigned (fold (\<lambda>(t, v). tm_assign d t v) init m) = tm_assigned m \<union> fst ` set init" for m
  proof (induction init arbitrary: m)
    case (Cons e init)
    obtain t v where e: "e = (t, v)" by force
    from Cons.IH [of "tm_assign d t v m"] tm_assign_wf [OF Cons.prems, of d t v] show ?case by (simp add: e)
  qed simp
  from this [of tm_empty] show ?thesis by (simp add: tm_of_list_def)
qed

lemma tm_at_assign: "tm_at (tm_assign d t v m) u = (if u = t then Inr v else tm_at m u)"
  by (auto simp: tm_at_def tm_assign_entries nth_or_def nth_list_update split: option.splits)

lemma tm_at_contains: "tm_contains m t \<longleftrightarrow> (\<exists>v. tm_at m t = Inr v)"
  by (auto simp: tm_at_def tm_contains_def nth_or_def split: option.splits)

lemma assigned_ids:
  "map fst (for_each_assigned m) = filter (tm_contains m) [0..<length (tm_entries m)]"
proof -
  have "map fst (concat (map (\<lambda>(t, e). case e of None \<Rightarrow> [] | Some v \<Rightarrow> [(t, v)]) (enumerate k es))) =
      filter (\<lambda>t. es ! (t - k) \<noteq> None) [k..<k + length es]" for k and es :: "'a option list"
  proof (induction es arbitrary: k)
    case (Cons e es)
    have "filter (\<lambda>t. (e # es) ! (t - k) \<noteq> None) [Suc k..<Suc k + length es] =
        filter (\<lambda>t. es ! (t - Suc k) \<noteq> None) [Suc k..<Suc k + length es]"
      by (intro filter_cong) (auto simp: nth_Cons' Suc_diff_Suc)
    moreover have "[k..<k + length (e # es)] = k # [Suc k..<Suc k + length es]" by (simp add: upt_rec)
    ultimately show ?case using Cons.IH [of "Suc k"] by (auto split: option.split)
  qed simp
  from this [of 0 "tm_entries m"] show ?thesis
    by (simp add: for_each_assigned_def) (intro filter_cong, auto simp: tm_contains_def)
qed

lemma set_assigned_ids: "set (map fst (for_each_assigned m)) = tm_assigned m"
  unfolding assigned_ids by (auto simp: tm_assigned_def tm_contains_def)

lemma sorted_assigned_ids: "sorted_wrt (<) (map fst (for_each_assigned m))"
  unfolding assigned_ids by (intro sorted_wrt_filter) simp

definition present :: "'a option list \<Rightarrow> nat set" where
  "present es = {t. t < length es \<and> es ! t \<noteq> None}"

lemma present_snoc: "present (es @ [e]) = (if e = None then present es else insert (length es) (present es))"
  by (auto simp: present_def nth_append less_Suc_eq split: if_splits)

lemma present_bounds: "finite (present es)" "present es \<noteq> {} \<Longrightarrow> Min (present es) < length es \<and> Max (present es) < length es"
proof -
  show fin: "finite (present es)" by (simp add: present_def)
  have "t \<in> present es \<Longrightarrow> t < length es" for t by (simp add: present_def)
  with fin show "present es \<noteq> {} \<Longrightarrow> Min (present es) < length es \<and> Max (present es) < length es" by simp
qed

lemma scan_bounds_simps:
  "scan_bounds (t, None) s = s"
  "scan_bounds (t, Some v) (None, k) = (Some t, max t k)"
  "scan_bounds (t, Some v) (Some l, k) = (Some (min t l), max t k)"
  by (auto simp: scan_bounds_def split: prod.split)

lemma scan_bounds_fold:
  "fold scan_bounds (enumerate 0 es) (None, 0) =
     (if present es = {} then (None, 0) else (Some (Min (present es)), Max (present es)))"
proof (induction es rule: rev_induct)
  case Nil
  then show ?case by (simp add: present_def)
next
  case (snoc e es)
  note b = present_bounds [of es]
  show ?case
  proof (cases e)
    case None
    with snoc show ?thesis by (simp add: enumerate_append_eq present_snoc scan_bounds_simps)
  next
    case (Some v)
    with snoc b show ?thesis by (auto simp: enumerate_append_eq present_snoc scan_bounds_simps)
  qed
qed

lemma compact_iff:
  assumes "finite ts" "ts \<noteq> {}"
  shows "Min ts = 0 \<and> Max ts + 1 = card ts \<longleftrightarrow> (\<exists>n. ts = {0..<n})"
    and "Min ts = 1 \<and> Max ts = card ts \<longleftrightarrow> (\<exists>n. ts = {1..n} \<and> n \<noteq> 0)"
proof -
  have sub: "ts \<subseteq> {Min ts..Max ts}" using assms by auto
  show "Min ts = 0 \<and> Max ts + 1 = card ts \<longleftrightarrow> (\<exists>n. ts = {0..<n})"
  proof
    assume "Min ts = 0 \<and> Max ts + 1 = card ts"
    with sub have "ts = {0..Max ts}" by (intro card_subset_eq) auto
    then show "\<exists>n. ts = {0..<n}" using atLeastLessThanSuc_atLeastAtMost by metis
  next
    assume "\<exists>n. ts = {0..<n}"
    then obtain n where n: "ts = {0..<n}" by blast
    with assms(2) have n: "ts = {0..<n}" "n \<noteq> 0" by auto
    have "Max ts = n - 1" "Min ts = 0" unfolding n(1) by (rule Max_eqI Min_eqI; use n(2) in auto)+
    with n show "Min ts = 0 \<and> Max ts + 1 = card ts" by simp
  qed
  show "Min ts = 1 \<and> Max ts = card ts \<longleftrightarrow> (\<exists>n. ts = {1..n} \<and> n \<noteq> 0)"
  proof
    assume "Min ts = 1 \<and> Max ts = card ts"
    with sub have "ts = {1..Max ts}" by (intro card_subset_eq) auto
    moreover have "Max ts \<noteq> 0" using assms \<open>Min ts = 1 \<and> _\<close> by (metis card_0_eq)
    ultimately show "\<exists>n. ts = {1..n} \<and> n \<noteq> 0" by blast
  next
    assume "\<exists>n. ts = {1..n} \<and> n \<noteq> 0"
    then obtain n where n: "ts = {1..n}" "n \<noteq> 0" by blast
    have "Max ts = n" "Min ts = 1" unfolding n(1) by (rule Max_eqI Min_eqI; use n(2) in auto)+
    with n show "Min ts = 1 \<and> Max ts = card ts" by simp
  qed
qed

lemma validate_compact_correct:
  assumes "wf_tm m"
  shows "validate_compact_thread_ids m = Inr () \<longleftrightarrow> (\<exists>n. tm_assigned m = {0..<n} \<or> tm_assigned m = {1..n})"
proof (cases "tm_size m = 0")
  case True
  with assms have "tm_assigned m = {0..<0}" by (simp add: wf_tm_def)
  with True show ?thesis by (auto simp: validate_compact_thread_ids_def)
next
  case False
  let ?ts = "tm_assigned m"
  from False assms have ne: "?ts \<noteq> {}" by (auto simp: wf_tm_def)
  have ts: "present (tm_entries m) = ?ts" by (auto simp: present_def tm_assigned_def tm_contains_def)
  have "validate_compact_thread_ids m = Inr () \<longleftrightarrow>
      (Min ?ts = 0 \<and> Max ?ts + 1 = card ?ts) \<or> (Min ?ts = 1 \<and> Max ?ts = card ?ts)"
    using False ne assms
    by (simp add: validate_compact_thread_ids_def scan_bounds_fold ts Let_def wf_tm_def)
  with compact_iff [OF finite_tm_assigned ne] ne show ?thesis by auto
qed

section \<open>Properties\<close>

text \<open>C33. The validation accepts exactly the programs whose assigned thread ids form a contiguous range that
  starts at 0 or at 1; registration order does not matter.\<close>

theorem validation_accepts_compact_ranges:
  "validate_compact_thread_ids (tm_of_list d init) = Inr () \<longleftrightarrow>
     (\<exists>n. fst ` set init = {0..<n} \<or> fst ` set init = {1..n})"
  using validate_compact_correct [of "tm_of_list d init"] tm_of_list_wf [of d init] by simp

end
