(* ===== verification/Restriction.thy ===== *)
theory Restriction
  imports Exploration_Invariant
begin

text \<open>
  \<^verbatim>\<open>restrict\<close> and the bulk-build path of \<^verbatim>\<open>include/dpor/model/exploration_graph.hpp\<close>: bulk insertion
  is insertion without undo records, and restricting a well-formed graph to a mask always
  succeeds, keeps the invariant, keeps exactly the masked events with their reads-from edges, and
  maps every causal edge of the result back to a causal edge of the original.
\<close>

section \<open>Bulk insertion and restriction\<close>

text \<open>
  Bulk insertion is insertion without the undo record, as the sources say: on a graph without a
  causal-order cache the two agree up to the undo log.
\<close>

lemma record_event_kind_undo_log:
  "record_event_kind i t (x\<lparr>event_undo_log := l\<rparr>) = (record_event_kind i t x)\<lparr>event_undo_log := l\<rparr>"
  by (simp add: record_event_kind_def Let_def update_acyclicity_after_add_event_def)

lemma append_event_for_bulk_build_eq:
  assumes "caches_ok x" "porf_cache x = None"
  shows "append_event_for_bulk_build t l x =
    map_result (\<lambda>(i, y). y\<lparr>event_undo_log := event_undo_log x\<rparr>) (add_event t l x)"
proof (cases "eg_add_event t l (graph x)")
  case (Inr ig)
  obtain i g where ig: "ig = (i, g)" by force
  have len: "length (thread_event_ids x) = length (thread_state x)"
    "length (receive_event_ids_by_thread x) = length (thread_state x)"
    using caches_okD(1,2) [OF assms(1)] by auto
  show ?thesis
    using Inr ig len assms(2)
    by (cases x) (simp add: append_event_for_bulk_build_def add_event_def Let_def grow_to_def
        flip: record_event_kind_undo_log)
qed (simp add: append_event_for_bulk_build_def add_event_def)

lemma append_event_for_bulk_build_core:
  assumes "wf_core x" "porf_cache x = None" "t \<le> kMaxThreadId" "length (thread_ids (xg_events x) t) < 2 ^ 32"
  shows "\<exists>x'. append_event_for_bulk_build t l x = Inr x' \<and> wf_core x' \<and> xg_rf x' = xg_rf x
    \<and> xg_events x' = xg_events x @ [\<lparr>thread = t, index = next_of (xg_events x) t, label = l\<rparr>]
    \<and> porf_cache x' = None"
proof -
  from add_event_core [OF assms(1,3,4), of l] obtain y where
    y: "add_event t l x = Inr (length (xg_events x), y)" "wf_core y" "xg_rf y = xg_rf x"
      "xg_events y = xg_events x @ [\<lparr>thread = t, index = next_of (xg_events x) t, label = l\<rparr>]"
      "porf_cache y = None" by blast
  then show ?thesis
    using append_event_for_bulk_build_eq [OF wf_coreD(3) [OF assms(1)] assms(2), of t l]
    by (simp add: wf_core_def caches_ok_def)
qed

lemmas wf_core_empty = conjunct1 [OF wf_empty_xg [unfolded wf_xg_def]]

lemma wf_core_reserve: "wf_core (reserve_for_bulk_build n empty_xg)"
  using wf_core_empty [unfolded wf_core_def caches_ok_def empty_xg_def empty_eg_def]
  by (simp add: wf_core_def caches_ok_def reserve_for_bulk_build_def empty_xg_def empty_eg_def
      ts_of_def initial_thread_state_def recv_ids_def)

lemma length_thread_ids_le:
  assumes "dense_indices evs"
  shows "length (thread_ids evs t) \<le> 2 ^ 32"
proof (cases "thread_ids evs t" rule: rev_cases)
  case (snoc ys i)
  then have i: "i < length evs" "thread (evs ! i) = t" using set_thread_ids [of evs t] by auto
  have "sorted_wrt (<) (ys @ [i])" using sorted_thread_ids [of evs t] snoc by simp
  then have "\<forall>y\<in>set ys. y < i" by (auto simp: sorted_wrt_append)
  then have "thread_ids (take i evs) t = ys"
    using i snoc by (simp add: thread_ids_take filter_id_conv)
  with assms i have "unat (index (evs ! i)) = length ys" by (auto simp: dense_indices_def)
  moreover have "unat (index (evs ! i)) < 2 ^ LENGTH(32)" by (rule unsigned_less)
  ultimately show ?thesis using snoc by simp
qed simp

definition kept_ids :: "bool list \<Rightarrow> EventId list" where
  "kept_ids keep_mask = filter (\<lambda>i. keep_mask ! i) [0..<length keep_mask]"

definition new_id :: "bool list \<Rightarrow> EventId \<Rightarrow> EventId" where
  "new_id keep_mask i = length (filter (\<lambda>j. keep_mask ! j) [0..<i])"

definition remap_source :: "bool list \<Rightarrow> ReadsFromSource option \<Rightarrow> ReadsFromSource option" where
  "remap_source keep_mask s =
     (case s of
        None \<Rightarrow> None
      | Some bottom \<Rightarrow> Some bottom
      | Some (from_send i) \<Rightarrow> if keep_mask ! i then Some (from_send (new_id keep_mask i)) else None)"

lemma id_map_fold:
  assumes "n \<le> length keep_mask"
  shows "fold (id_map_step keep_mask) [0..<n] ([], replicate (length keep_mask) None) =
    (filter (\<lambda>j. keep_mask ! j) [0..<n],
     map (\<lambda>i. if i < n \<and> keep_mask ! i then Some (new_id keep_mask i) else None) [0..<length keep_mask])"
  using assms
proof (induction n)
  case 0
  show ?case by (auto simp: map_replicate_trivial)
next
  case (Suc n)
  then show ?case
    by (auto simp: id_map_step_def new_id_def less_Suc_eq nth_list_update intro!: nth_equalityI)
qed

lemma new_id_kept:
  assumes "j < length (kept_ids keep_mask)"
  shows "new_id keep_mask (kept_ids keep_mask ! j) = j" "keep_mask ! (kept_ids keep_mask ! j)"
    "kept_ids keep_mask ! j < length keep_mask"
proof -
  let ?K = "kept_ids keep_mask"
  have s: "sorted_wrt (<) ?K" unfolding kept_ids_def by (intro sorted_wrt_filter) simp
  have mem: "?K ! j \<in> set ?K" using assms by simp
  then show k: "keep_mask ! (?K ! j)" "?K ! j < length keep_mask" by (auto simp: kept_ids_def)
  have less: "filter (\<lambda>i. i < n) [0..<N] = [0..<n]" if "n \<le> N" for n N :: nat
    using that by (induction N) (auto simp: le_Suc_eq filter_id_conv)
  have "filter (\<lambda>i. i < k) ?K = filter (\<lambda>i. keep_mask ! i) [0..<k]" if "k < length keep_mask" for k
    using that less [of k "length keep_mask", symmetric] by (simp add: kept_ids_def filter_filter conj_commute)
  from this [OF k(2)] have "filter (\<lambda>i. i < ?K ! j) ?K = filter (\<lambda>i. keep_mask ! i) [0..<?K ! j]" .
  then show "new_id keep_mask (?K ! j) = j"
    using length_filter_less_nth [OF s assms] by (simp add: new_id_def)
qed

lemma kept_new_id:
  assumes "i < length keep_mask" "keep_mask ! i"
  shows "new_id keep_mask i < length (kept_ids keep_mask)" "kept_ids keep_mask ! new_id keep_mask i = i"
proof -
  from assms have "i \<in> set (kept_ids keep_mask)" by (simp add: kept_ids_def)
  then obtain j where "j < length (kept_ids keep_mask)" "kept_ids keep_mask ! j = i" by (metis in_set_conv_nth)
  with new_id_kept [of j keep_mask]
  show "new_id keep_mask i < length (kept_ids keep_mask)" "kept_ids keep_mask ! new_id keep_mask i = i" by auto
qed

lemma length_thread_ids_map:
  assumes "length es = length ks" "\<And>j. j < length ks \<Longrightarrow> thread (es ! j) = f (ks ! j)"
  shows "length (thread_ids es t) = length (filter (\<lambda>k. f k = t) ks)"
proof -
  have "{i. i < length es \<and> thread (es ! i) = t} = {i. i < length ks \<and> f (ks ! i) = t}"
    using assms by auto
  then show ?thesis
    by (simp add: thread_ids_def length_filter_conv_card cong: conj_cong)
qed

definition copies :: "'v event list \<Rightarrow> EventId list \<Rightarrow> 'v event list \<Rightarrow> bool" where
  "copies evs ks es \<longleftrightarrow> length es = length ks
     \<and> (\<forall>j<length ks. thread (es ! j) = thread (evs ! (ks ! j)) \<and> label (es ! j) = label (evs ! (ks ! j)))"

lemma wf_eg_thread_le: "wf_eg g \<Longrightarrow> e \<in> set (events g) \<Longrightarrow> thread e \<le> kMaxThreadId"
  by (fastforce simp: wf_eg_def)

lemma bulk_loop:
  assumes wf: "wf_core x" and m: "length keep_mask = length (xg_events x)"
  shows "\<exists>y. fold_result (\<lambda>i y. bind_result (xg_event x i) (\<lambda>e. append_event_for_bulk_build (thread e) (label e) y))
      (kept_ids keep_mask) (reserve_for_bulk_build n empty_xg) = Inr y
    \<and> (wf_core y \<and> porf_cache y = None \<and> xg_rf y = Map.empty \<and> copies (xg_events x) (kept_ids keep_mask) (xg_events y))"
proof (rule fold_result_rule, goal_cases)
  case 1
  show ?case by (simp add: wf_core_reserve copies_def) (simp add: reserve_for_bulk_build_def empty_xg_def empty_eg_def)
next
  case (2 ks k zs y)
  let ?evs = "xg_events x" and ?e = "xg_events x ! k"
  note y = 2(2)
  have k: "k < length ?evs" using 2(1) m by (metis (no_types, lifting) kept_ids_def filter_is_subset in_set_conv_decomp set_upt atLeastLessThan_iff subsetD)
  then have t: "thread ?e \<le> kMaxThreadId"
    using wf_eg_thread_le [OF wf_coreD(1) [OF wf]] by simp
  have "length (thread_ids (xg_events y) (thread ?e)) = length (filter (\<lambda>k. thread (?evs ! k) = thread ?e) ks)"
    using y by (intro length_thread_ids_map) (auto simp: copies_def)
  also have "\<dots> < length (filter (\<lambda>k. thread (?evs ! k) = thread ?e) (kept_ids keep_mask))"
    using 2(1) by simp
  also have "\<dots> \<le> length (thread_ids ?evs (thread ?e))"
  proof -
    have "length (filter P (filter Q xs)) \<le> length (filter P xs)" for P Q and xs :: "nat list"
      by (induction xs) auto
    then show ?thesis by (simp add: kept_ids_def thread_ids_def m)
  qed
  finally have room: "length (thread_ids (xg_events y) (thread ?e)) < 2 ^ 32"
    using length_thread_ids_le [OF wf_coreD(4) [OF wf], of "thread ?e"] by linarith
  from y have "wf_core y" "porf_cache y = None" by auto
  from append_event_for_bulk_build_core [OF this t room, of "label ?e"] obtain y' where
    "append_event_for_bulk_build (thread ?e) (label ?e) y = Inr y'" "wf_core y'" "xg_rf y' = xg_rf y"
    "xg_events y' = xg_events y @ [\<lparr>thread = thread ?e, index = next_of (xg_events y) (thread ?e), label = label ?e\<rparr>]"
    "porf_cache y' = None" by blast
  with y k show ?case
    by (auto simp: xg_event_def eg_event_def is_valid_event_id_def copies_def nth_append less_Suc_eq)
qed

lemma copies_kinds:
  assumes "copies evs ks es" "j < length ks"
  shows "is_receive (es ! j) = is_receive (evs ! (ks ! j))" "is_send (es ! j) = is_send (evs ! (ks ! j))"
  using assms by (auto simp: copies_def intro!: kinds_label_cong)

lemma remap_loop:
  assumes wf: "wf_core x" and m: "length keep_mask = length (xg_events x)"
    and y: "wf_core y" "xg_rf y = Map.empty" "copies (xg_events x) (kept_ids keep_mask) (xg_events y)"
    and im: "id_map = map (\<lambda>i. if keep_mask ! i then Some (new_id keep_mask i) else None) [0..<length keep_mask]"
  shows "\<exists>z. fold_result (remap_rf_entry id_map) (rf_entries (reads_from (graph x))) y = Inr z
    \<and> (wf_core z \<and> xg_events z = xg_events y \<and> (\<forall>j. xg_rf z j =
        (if j < length (kept_ids keep_mask) \<and> kept_ids keep_mask ! j \<in> fst ` set (rf_entries (reads_from (graph x)))
         then remap_source keep_mask (xg_rf x (kept_ids keep_mask ! j)) else None)))"
proof (rule fold_result_rule, goal_cases)
  case 1
  with y show ?case by simp
next
  case (2 ps e zs z)
  let ?K = "kept_ids keep_mask"
  obtain r s where e: "e = (r, s)" by force
  note z = 2(2)
  have mem: "(r, s) \<in> set (rf_entries (reads_from (graph x)))" using 2(1) e by simp
  then have rs: "xg_rf x r = Some s" by (simp add: set_rf_entries)
  with wf_coreD(2) [OF wf] have r: "r < length (xg_events x)" "is_receive (xg_events x ! r)"
    and so: "source_ok (xg_events x) (Some s)" by (auto simp: rf_valid_def source_ok_def)
  have "distinct (map fst (rf_entries (reads_from (graph x))))"
    using reads_from_map.distinct_visit [OF wf_egD(2) [OF wf_coreD(1) [OF wf]]] .
  then have fresh: "r \<notin> fst ` set ps" using 2(1) e by auto
  have same: "?K ! j = r \<longleftrightarrow> j = new_id keep_mask r" if "j < length ?K" "keep_mask ! r" for j
    using that new_id_kept [of j keep_mask] kept_new_id [of r keep_mask] r(1) m by auto
  show ?case
  proof (cases "keep_mask ! r \<and> remap_source keep_mask (Some s) \<noteq> None")
    case False
    have "remap_rf_entry id_map e z = Inr z"
      using False e r m im so by (auto simp: remap_rf_entry_def remap_source_def source_ok_def split: ReadsFromSource.splits)
    moreover have "keep_mask ! (?K ! j)" if "j < length ?K" for j using new_id_kept(2) [OF that] .
    ultimately show ?thesis using z False rs e by auto
  next
    case True
    then obtain s' where s': "remap_source keep_mask (Some s) = Some s'" by auto
    let ?r = "new_id keep_mask r"
    have nr: "?r < length ?K" "?K ! ?r = r" using kept_new_id [of r keep_mask] True r(1) m by auto
    have "remap_rf_entry id_map e z = set_reads_from_source ?r s' z"
      using True s' e r m im so
      by (auto simp: remap_rf_entry_def remap_source_def source_ok_def set_reads_from_bottom_def
          set_reads_from_def split: ReadsFromSource.splits if_splits)
    moreover have "source_ok (xg_events z) (Some s')"
      using s' so z y(3) kept_new_id m copies_kinds(2) [OF y(3)]
      by (auto simp: remap_source_def source_ok_def copies_def split: ReadsFromSource.splits if_splits)
    then obtain z' where "set_reads_from_source ?r s' z = Inr z'" "wf_core z'" "xg_events z' = xg_events z"
      "xg_rf z' = (xg_rf z)(?r \<mapsto> s')"
      using set_reads_from_source_core [of z ?r s'] z y(3) nr copies_kinds(1) [OF y(3) nr(1)] r(2)
      by (auto simp: copies_def)
    moreover have "((xg_rf z)(?r \<mapsto> s')) j = (if j < length ?K \<and> ?K ! j \<in> fst ` set (ps @ [e])
        then remap_source keep_mask (xg_rf x (?K ! j)) else None)" for j
    proof (cases "j = ?r")
      case True
      with nr s' rs e show ?thesis by simp
    next
      case False
      with z same [of j] \<open>keep_mask ! r \<and> _\<close> e show ?thesis by auto
    qed
    ultimately show ?thesis using z by simp
  qed
qed

text \<open>Restriction keeps the events of the mask, in order, and their reads-from edges.\<close>

definition restricts :: "bool list \<Rightarrow> 'v ExplorationGraph \<Rightarrow> 'v ExplorationGraph \<Rightarrow> bool" where
  "restricts keep_mask x x' \<longleftrightarrow> copies (xg_events x) (kept_ids keep_mask) (xg_events x')
     \<and> (\<forall>j. xg_rf x' j = (if j < length (kept_ids keep_mask)
          then remap_source keep_mask (xg_rf x (kept_ids keep_mask ! j)) else None))"

lemma restricts_causal:
  assumes "restricts keep_mask x x'" "length keep_mask = length (xg_events x)" "wf_core x"
  shows "porf x' \<subseteq> inv_image (porf x) (\<lambda>j. kept_ids keep_mask ! j)"
proof (rule subrelI)
  fix i j assume "(i, j) \<in> porf x'"
  let ?K = "kept_ids keep_mask"
  have s: "sorted_wrt (<) ?K" unfolding kept_ids_def by (intro sorted_wrt_filter) simp
  from \<open>(i, j) \<in> porf x'\<close> consider "(i, j) \<in> po_of (xg_events x')" | "(i, j) \<in> rf_of (xg_rf x')"
    by (auto simp: causal_def)
  then show "(i, j) \<in> inv_image (porf x) (\<lambda>j. ?K ! j)"
  proof cases
    case 1
    with assms(1) s new_id_kept(3) [of j keep_mask] assms(2) have "(?K ! i, ?K ! j) \<in> po_of (xg_events x)"
      by (auto simp: po_of_def restricts_def copies_def sorted_wrt_iff_nth_less)
    then show ?thesis by (simp add: causal_def)
  next
    case 2
    then have j: "j < length ?K" "remap_source keep_mask (xg_rf x (?K ! j)) = Some (from_send i)"
      using assms(1) by (auto simp: rf_of_def restricts_def split: if_splits)
    then obtain k where k: "xg_rf x (?K ! j) = Some (from_send k)" "keep_mask ! k" "i = new_id keep_mask k"
      by (auto simp: remap_source_def split: option.splits ReadsFromSource.splits if_splits)
    with wf_coreD(2) [OF assms(3)] have "k < length keep_mask" by (auto simp: rf_valid_def assms(2))
    with k kept_new_id [of k keep_mask] show ?thesis by (simp add: rf_of_def causal_def)
  qed
qed

lemma restrict_from_keep_mask_wf:
  assumes wf: "wf_xg x" and m: "length keep_mask = length (xg_events x)"
  shows "\<exists>x'. restrict_from_keep_mask keep_mask x = Inr x' \<and> wf_xg x' \<and> restricts keep_mask x x'
    \<and> known_acyclic x' = known_acyclic x \<and> event_undo_log x' = [] \<and> rf_undo_log x' = []"
proof -
  let ?es = "rf_entries (reads_from (graph x))"
  from wf have core: "wf_core x" and fl: "flags_ok x" by (auto simp: wf_xg_def)
  let ?im = "map (\<lambda>i. if keep_mask ! i then Some (new_id keep_mask i) else None) [0..<length keep_mask]"
  have ids: "fold (id_map_step keep_mask) [0..<length (xg_events x)] ([], replicate (length (xg_events x)) None) =
      (kept_ids keep_mask, ?im)"
    using id_map_fold [of "length keep_mask" keep_mask] m by (simp add: kept_ids_def cong: map_cong)
  obtain y where y: "fold_result (\<lambda>i y. bind_result (xg_event x i) (\<lambda>e. append_event_for_bulk_build (thread e) (label e) y))
      (kept_ids keep_mask) (reserve_for_bulk_build (length (thread_state x)) empty_xg) = Inr y"
    "wf_core y" "xg_rf y = Map.empty" "copies (xg_events x) (kept_ids keep_mask) (xg_events y)"
    using bulk_loop [OF core m] by blast
  obtain z where z: "fold_result (remap_rf_entry ?im) ?es y = Inr z" "wf_core z" "xg_events z = xg_events y"
    "\<forall>j. xg_rf z j = (if j < length (kept_ids keep_mask) \<and> kept_ids keep_mask ! j \<in> fst ` set ?es
         then remap_source keep_mask (xg_rf x (kept_ids keep_mask ! j)) else None)"
    using remap_loop [OF core m y(2-4) refl] by blast
  have dom: "k \<in> fst ` set ?es \<longleftrightarrow> xg_rf x k \<noteq> None" for k by (force simp: set_rf_entries)
  have rf: "xg_rf z j = (if j < length (kept_ids keep_mask)
      then remap_source keep_mask (xg_rf x (kept_ids keep_mask ! j)) else None)" for j
    using z(4) dom [of "kept_ids keep_mask ! j"] by (auto simp: remap_source_def)
  let ?z = "clear_worker_local_history (if known_acyclic x then mark_known_acyclic z else invalidate_known_acyclicity z)"
  have res: "restrict_from_keep_mask keep_mask x = Inr ?z"
    using ids y(1) z(1) m by (simp add: restrict_from_keep_mask_def xg_event_count_def)
  have zz: "xg_events ?z = xg_events z" "xg_rf ?z = xg_rf z" "known_acyclic ?z = known_acyclic x"
    "pending_fresh_receive_id ?z = None" "event_undo_log ?z = []" "rf_undo_log ?z = []" "wf_core ?z"
    using z(2) by (simp_all add: clear_worker_local_history_def mark_known_acyclic_def invalidate_known_acyclicity_def)
  have restr: "restricts keep_mask x ?z" using y(4) z(3) rf zz by (simp add: restricts_def)
  have "acyclic (porf ?z)" if "known_acyclic x"
  proof -
    from that fl have "acyclic (porf x)" by (simp add: flags_ok_def)
    then have "acyclic (inv_image (porf x) (\<lambda>j. kept_ids keep_mask ! j))" by (rule acyclic_inv_image)
    then show ?thesis using restricts_causal [OF restr m core] by (rule acyclic_subset)
  qed
  with res restr zz show ?thesis by (auto simp: wf_xg_def flags_ok_def)
qed

section \<open>Properties\<close>

text \<open>C22. Restricting a well-formed graph to a keep mask never throws: the result has exactly the kept events
  in their order with their threads and labels, exactly the reads-from edges between kept events
  (and the bottom reads), is well-formed again with fresh caches, and inherits the acyclicity flag.\<close>

theorem restriction_projects:
  assumes "wf_xg x" "length keep_mask = length (xg_events x)"
  shows "\<exists>x'. restrict_from_keep_mask keep_mask x = Inr x' \<and> wf_xg x' \<and> restricts keep_mask x x'
    \<and> known_acyclic x' = known_acyclic x \<and> event_undo_log x' = [] \<and> rf_undo_log x' = []"
  by (rule restrict_from_keep_mask_wf [OF assms])

theorem restriction_projects_witness:
  "\<exists>x'. restrict_from_keep_mask [True, False] sample_xg = Inr x' \<and> wf_xg x' \<and> length (xg_events x') = 1
    \<and> xg_rf x' 0 = None"
  using restriction_projects [of sample_xg "[True, False]"]
  by (auto simp: sample_events_def restricts_def copies_def kept_ids_def remap_source_def)

end
