(* ===== verification/Dpor_Core.thy ===== *)
theory Dpor_Core
  imports Fifo_Spec Program Restriction
begin

text \<open>
  The building blocks of the exploration, first part of \<^verbatim>\<open>include/dpor/algo/dpor.hpp\<close>: result
  counters, compatible sends, the next event of a program, the set of previous events, and the
  rewiring of a receive. Methods that only fill the mutable causal-order cache of a graph return
  their answer alone: theory \<open>Porf\<close> shows that no answer depends on the cache or on scratch buffers,
  and theory \<open>Graph_Queries\<close> that a trace does not depend on the buffer it is written over.
\<close>

datatype VerifyResultKind = AllExplored | Stopped

datatype TerminalExecutionKind = Full | Blocked | ErrorExecution | DepthLimit | ThreadEventLimit

datatype TerminalExecutionAction = Continue | Stop

record VerifyResult =
  result_kind :: VerifyResultKind
  executions_explored :: nat
  full_executions_explored :: nat
  blocked_executions_explored :: nat
  error_executions_explored :: nat
  depth_limit_executions_explored :: nat
  thread_event_limit_executions_explored :: nat
  max_thread_event_depth_reached :: nat
  nd_splits :: nat
  receive_splits :: nat

definition initial_result :: VerifyResult where
  "initial_result = \<lparr>result_kind = AllExplored, executions_explored = 0, full_executions_explored = 0,
     blocked_executions_explored = 0, error_executions_explored = 0, depth_limit_executions_explored = 0,
     thread_event_limit_executions_explored = 0, max_thread_event_depth_reached = 0,
     nd_splits = 0, receive_splits = 0\<rparr>"

definition increment_terminal_counts :: "TerminalExecutionKind \<Rightarrow> nat \<Rightarrow> VerifyResult \<Rightarrow> VerifyResult" where
  "increment_terminal_counts kind depth r =
     (let r1 = r\<lparr>executions_explored := executions_explored r + 1\<rparr>;
          r2 = (if depth > max_thread_event_depth_reached r1
                then r1\<lparr>max_thread_event_depth_reached := depth\<rparr> else r1)
      in case kind of
           Full \<Rightarrow> r2\<lparr>full_executions_explored := full_executions_explored r2 + 1\<rparr>
         | Blocked \<Rightarrow> r2\<lparr>blocked_executions_explored := blocked_executions_explored r2 + 1\<rparr>
         | ErrorExecution \<Rightarrow> r2\<lparr>error_executions_explored := error_executions_explored r2 + 1\<rparr>
         | DepthLimit \<Rightarrow> r2\<lparr>depth_limit_executions_explored := depth_limit_executions_explored r2 + 1\<rparr>
         | ThreadEventLimit \<Rightarrow>
             r2\<lparr>thread_event_limit_executions_explored := thread_event_limit_executions_explored r2 + 1\<rparr>)"

definition sorted_thread_ids :: "'v Program \<Rightarrow> ThreadId list result" where
  "sorted_thread_ids P =
     bind_result (validate_compact_thread_ids (threads P)) (\<lambda>_.
       Inr (map fst (for_each_assigned (threads P))))"

section \<open>Compatible sends\<close>

text \<open>The test both scans apply to an unread send.\<close>

definition compatible_send ::
    "'v ExplorationGraph \<Rightarrow> ThreadId \<Rightarrow> 'v ReceiveLabel \<Rightarrow> EventId \<Rightarrow> bool result" where
  "compatible_send x t rl i =
     bind_result (xg_event x i) (\<lambda>e.
       case as_send e of
         None \<Rightarrow> Inr False
       | Some s \<Rightarrow> if destination s = t then accepts rl (send_value s) else Inr False)"

definition has_compatible_unread_send ::
    "'v ExplorationGraph \<Rightarrow> ThreadId \<Rightarrow> 'v ReceiveLabel \<Rightarrow> bool result" where
  "has_compatible_unread_send x t rl = any_unread_send x (compatible_send x t rl)"

definition compatible_unread_send_ids ::
    "'v ExplorationGraph \<Rightarrow> ThreadId \<Rightarrow> 'v ReceiveLabel \<Rightarrow> EventId list result" where
  "compatible_unread_send_ids x t rl = filter_result (compatible_send x t rl) (unread_send_event_ids x)"

text \<open>
  The compaction loop: the kept values are a prefix of the vector, a value is moved there unless it
  already occurs in the prefix, and the rest is cut off.
\<close>

definition erase_duplicate_nd_choices :: "'v list \<Rightarrow> 'v list" where
  "erase_duplicate_nd_choices cs =
     fold (\<lambda>v kept. if List.member kept v then kept else kept @ [v]) cs []"

definition allow_missing_reads_for_non_target :: "EventId \<Rightarrow> MissingReadsTolerance" where
  "allow_missing_reads_for_non_target target r = (r \<noteq> target)"

definition compute_max_thread_event_depth :: "'v ExplorationGraph \<Rightarrow> ThreadId list \<Rightarrow> nat" where
  "compute_max_thread_event_depth x ts = fold (\<lambda>t depth. max depth (thread_event_count x t)) ts 0"

section \<open>The next event\<close>

record 'v NextEventResult =
  next_event :: "(ThreadId \<times> 'v EventLabel) option"
  suppressed_by_thread_event_limit :: bool

text \<open>What a thread function's label becomes: a blocking receive without a compatible send blocks.\<close>

definition schedule_label ::
    "'v ExplorationGraph \<Rightarrow> ThreadId \<Rightarrow> 'v EventLabel \<Rightarrow> 'v EventLabel result" where
  "schedule_label x t l =
     (case l of
        Block \<Rightarrow> Inl (user_code_error ThreadFunction (Some t) None
                      ''returned BlockLabel; Block events are internal to DPOR'')
      | Receive rl \<Rightarrow>
          if is_blocking rl
          then map_result (\<lambda>found. if found then l else Block) (has_compatible_unread_send x t rl)
          else Inr l
      | _ \<Rightarrow> Inr l)"

definition call_thread :: "'v Program \<Rightarrow> 'v ExplorationGraph \<Rightarrow> ThreadId \<Rightarrow> nat \<Rightarrow> 'v EventLabel option result" where
  "call_thread P x t step =
     bind_result (tm_at (threads P) t) (\<lambda>thread_fn.
     bind_result (thread_trace t x) (\<lambda>trace.
       invoke_user_code ThreadFunction (Some t) (thread_fn trace step)))"

fun next_event_loop ::
    "'v Program \<Rightarrow> 'v ExplorationGraph \<Rightarrow> nat \<Rightarrow> ThreadId list \<Rightarrow> bool \<Rightarrow> 'v NextEventResult result" where
  "next_event_loop P x max_thread_events [] suppressed =
     Inr \<lparr>next_event = None, suppressed_by_thread_event_limit = suppressed\<rparr>"
| "next_event_loop P x max_thread_events (t # ts) suppressed =
     bind_result (thread_is_terminated x t) (\<lambda>terminated.
       if terminated then next_event_loop P x max_thread_events ts suppressed
       else if max_thread_events \<noteq> 0 \<and> thread_event_count x t \<ge> max_thread_events
       then next_event_loop P x max_thread_events ts True
       else bind_result (call_thread P x t (thread_event_count x t)) (\<lambda>next_label.
         case next_label of
           None \<Rightarrow> next_event_loop P x max_thread_events ts suppressed
         | Some l \<Rightarrow> map_result
             (\<lambda>l'. \<lparr>next_event = Some (t, l'), suppressed_by_thread_event_limit = suppressed\<rparr>)
             (schedule_label x t l)))"

definition compute_next_event ::
    "'v Program \<Rightarrow> 'v ExplorationGraph \<Rightarrow> ThreadId list \<Rightarrow> nat \<Rightarrow> 'v NextEventResult result" where
  "compute_next_event P x ts max_thread_events = next_event_loop P x max_thread_events ts False"

section \<open>Previous events and rewiring\<close>

definition porf_query :: "'v ExplorationGraph \<Rightarrow> EventId \<Rightarrow> EventId \<Rightarrow> bool result" where
  "porf_query x a b = map_result fst (porf_contains [] a b x)"

text \<open>Membership in the set of previous events, one event at a time.\<close>

definition in_previous :: "'v ExplorationGraph \<Rightarrow> EventId \<Rightarrow> EventId \<Rightarrow> EventId \<Rightarrow> bool result" where
  "in_previous x e s ep =
     (if ep < xg_event_count x
      then bind_result (inserted_before_or_equal x ep e) (\<lambda>b. if b then Inr True else porf_query x ep s)
      else Inr False)"

definition compute_previous_set :: "'v ExplorationGraph \<Rightarrow> EventId \<Rightarrow> EventId \<Rightarrow> bool list result" where
  "compute_previous_set x e s =
     traverse_result
       (\<lambda>ep. bind_result (inserted_before_or_equal x ep e) (\<lambda>b. if b then Inr True else porf_query x ep s))
       [0..<xg_event_count x]"

definition rewiring_recv_creates_cycle :: "'v ExplorationGraph \<Rightarrow> EventId \<Rightarrow> EventId \<Rightarrow> bool result" where
  "rewiring_recv_creates_cycle x recv send = porf_query x recv send"

definition check_consistency ::
    "CommunicationModel \<Rightarrow> 'v ExplorationGraph \<Rightarrow> (ConsistencyResult \<times> 'v ExplorationGraph) result" where
  "check_consistency model x = consistency_checker_exploration model x"

definition check_consistency_allowing_missing_reads_except ::
    "CommunicationModel \<Rightarrow> EventId \<Rightarrow> 'v ExplorationGraph \<Rightarrow> (ConsistencyResult \<times> 'v ExplorationGraph) result" where
  "check_consistency_allowing_missing_reads_except model target x =
     check_exploration_graph model (allow_missing_reads_for_non_target target) x"

definition rf_rewrite_is_consistent ::
    "'v ExplorationGraph \<Rightarrow> EventId \<Rightarrow> EventId \<Rightarrow> CommunicationModel \<Rightarrow> bool \<Rightarrow> bool result" where
  "rf_rewrite_is_consistent x recv send model allow_missing =
     (if model = Async \<and> \<not> allow_missing
      then map_result Not (rewiring_recv_creates_cycle x recv send)
      else bind_result
        (if known_acyclic x then map_result Not (rewiring_recv_creates_cycle x recv send) else Inr False)
        (\<lambda>preserves.
        bind_result (if preserves then with_rf_preserving_known_acyclicity recv send x else with_rf recv send x)
        (\<lambda>rewritten.
          map_result (\<lambda>(result, _). is_consistent result)
            (if allow_missing then check_consistency_allowing_missing_reads_except model recv rewritten
             else check_consistency model rewritten))))"

section \<open>Counters and choices\<close>

lemma erase_duplicate_nd_choices_eq: "erase_duplicate_nd_choices cs = rev (remdups (rev cs))"
  by (induction cs rule: rev_induct) (auto simp: erase_duplicate_nd_choices_def)

lemma compute_max_thread_event_depth_eq:
  "compute_max_thread_event_depth x ts = Max (insert 0 (thread_event_count x ` set ts))"
proof -
  have "fold (\<lambda>t d. max d (thread_event_count x t)) ts d = Max (insert d (thread_event_count x ` set ts))" for d
  proof (induction ts arbitrary: d)
    case (Cons t ts)
    have "Max (insert (max d c) A) = Max (insert d (insert c A))" if "finite A" for c and A :: "nat set"
      using that by (cases "A = {}") (auto simp: max.assoc)
    then show ?case by (simp add: Cons.IH)
  qed simp
  then show ?thesis by (simp add: compute_max_thread_event_depth_def)
qed

section \<open>Compatible sends\<close>

text \<open>The sends a receive with label \<open>rl\<close> of thread \<open>t\<close> could read, by the reads-from relation alone.\<close>

definition compatible ::
    "'v event list \<Rightarrow> ThreadId \<Rightarrow> 'v ReceiveLabel \<Rightarrow> EventId \<Rightarrow> bool" where
  "compatible evs t rl i \<longleftrightarrow> is_send (evs ! i) \<and> destination (send_of evs i) = t
     \<and> matches rl (send_value (send_of evs i)) = Inr True"

definition total_matcher :: "'v ReceiveLabel \<Rightarrow> bool" where
  "total_matcher rl \<longleftrightarrow> (\<forall>v. \<exists>b. matches rl v = Inr b)"

lemma total_matcher_accepts: "total_matcher rl \<Longrightarrow> accepts rl v = Inr (matches rl v = Inr True)"
  unfolding total_matcher_def accepts_def by (metis invoke_user_code_Inr sum.inject(2))

lemma compatible_send_eq:
  assumes "total_matcher rl" "i < length (xg_events x)"
  shows "compatible_send x t rl i = Inr (compatible (xg_events x) t rl i)"
proof (cases "as_send (xg_events x ! i)")
  case None
  then have "\<not> is_send (xg_events x ! i)" by (metis is_send_as_send)
  with assms None show ?thesis by (simp add: compatible_send_def xg_event_eq compatible_def del: as_send_None)
next
  case (Some s)
  with assms show ?thesis
    by (simp add: compatible_send_def xg_event_eq compatible_def is_send_as_send send_of_def
        total_matcher_accepts)
qed

definition unread :: "'v ExplorationGraph \<Rightarrow> EventId set" where
  "unread x = {i. i < length (xg_events x) \<and> is_send (xg_events x ! i) \<and> (\<forall>r. xg_rf x r \<noteq> Some (from_send i))}"

lemma set_unread: "wf_core x \<Longrightarrow> set (unread_send_event_ids x) = unread x"
  by (auto simp: unread_send_event_ids_eq unread_def)

lemma compatible_unread_eq:
  assumes "wf_core x" "total_matcher rl"
  shows "compatible_unread_send_ids x t rl =
      Inr (filter (\<lambda>i. i \<in> unread x \<and> compatible (xg_events x) t rl i) [0..<length (xg_events x)])"
    and "has_compatible_unread_send x t rl = Inr (\<exists>i\<in>unread x. compatible (xg_events x) t rl i)"
proof -
  have c: "compatible_send x t rl i = Inr (compatible (xg_events x) t rl i)"
    if "i \<in> set (unread_send_event_ids x)" for i
    using that assms by (intro compatible_send_eq) (auto simp: set_unread unread_def)
  show "compatible_unread_send_ids x t rl =
      Inr (filter (\<lambda>i. i \<in> unread x \<and> compatible (xg_events x) t rl i) [0..<length (xg_events x)])"
    using filter_result_pure [OF c, of "unread_send_event_ids x"] assms(1)
    by (auto simp: compatible_unread_send_ids_def unread_send_event_ids_eq unread_def intro: filter_cong)
  show "has_compatible_unread_send x t rl = Inr (\<exists>i\<in>unread x. compatible (xg_events x) t rl i)"
    using any_result_pure [OF c, of "unread_send_event_ids x"] assms(1)
    by (simp add: has_compatible_unread_send_def any_unread_send_def set_unread)
qed

section \<open>The causal order and rewiring\<close>

lemma porf_query_eq:
  assumes "wf_core x" "cache_ok x" "acyclic (porf x)" "a < length (xg_events x)" "b < length (xg_events x)"
  shows "porf_query x a b = Inr ((a, b) \<in> (porf x)\<^sup>+)"
  using porf_contains_correct [OF assms(1,2,4,5), of "[]"] assms(3) by (auto simp: porf_query_def)

definition previous :: "'v ExplorationGraph \<Rightarrow> EventId \<Rightarrow> EventId \<Rightarrow> EventId \<Rightarrow> bool" where
  "previous x e s ep \<longleftrightarrow> ep \<le> e \<or> (ep, s) \<in> (porf x)\<^sup>+"

lemma compute_previous_set_eq:
  assumes "wf_core x" "cache_ok x" "acyclic (porf x)" "e < length (xg_events x)" "s < length (xg_events x)"
  shows "compute_previous_set x e s = Inr (map (previous x e s) [0..<length (xg_events x)])"
    and "in_previous x e s ep = Inr (ep < length (xg_events x) \<and> previous x e s ep)"
proof -
  show "compute_previous_set x e s = Inr (map (previous x e s) [0..<length (xg_events x)])"
    unfolding compute_previous_set_def xg_event_count_def
    by (rule traverse_result_pure)
      (use assms in \<open>auto simp: inserted_before_or_equal_def xg_event_count_def porf_query_eq previous_def\<close>)
  show "in_previous x e s ep = Inr (ep < length (xg_events x) \<and> previous x e s ep)"
    using assms by (auto simp: in_previous_def inserted_before_or_equal_def xg_event_count_def
        porf_query_eq previous_def)
qed

text \<open>
  Replacing the one edge into a receive of an acyclic graph closes a cycle exactly if the receive
  already reaches the new source: the old edge lies on no path that leaves the receive.
\<close>

lemma trancl_avoid:
  assumes "acyclic E" "(r, s) \<in> E\<^sup>+"
  shows "(r, s) \<in> {(a, b) \<in> E. b \<noteq> r}\<^sup>+"
  using assms(2)
proof (induction rule: trancl_induct)
  case (base b)
  with assms(1) show ?case by (auto simp: acyclic_def intro!: r_into_trancl)
next
  case (step b c)
  from step(1,2) have "(r, c) \<in> E\<^sup>+" by (rule trancl_into_trancl)
  with assms(1) have "c \<noteq> r" by (auto simp: acyclic_def)
  with step(2) have "(b, c) \<in> {(a, b) \<in> E. b \<noteq> r}" by simp
  with step(3) show ?case by (rule trancl_into_trancl)
qed

lemma causal_upd:
  "causal evs (m(r \<mapsto> from_send s)) = insert (s, r) (po_of evs \<union> {(a, b) \<in> rf_of m. b \<noteq> r})"
  by (auto simp: causal_def rf_of_def)

lemma rewire_acyclic_iff:
  assumes "acyclic (causal evs m)" "r \<noteq> s"
  shows "acyclic (causal evs (m(r \<mapsto> from_send s))) \<longleftrightarrow> (r, s) \<notin> (causal evs m)\<^sup>+"
proof -
  let ?E = "causal evs m" and ?F = "po_of evs \<union> {(a, b) \<in> rf_of m. b \<noteq> r}"
  have sub: "?F \<subseteq> ?E" "{(a, b) \<in> ?E. b \<noteq> r} \<subseteq> ?F" by (auto simp: causal_def)
  have "acyclic ?F" using assms(1) sub(1) by (rule acyclic_subset)
  moreover have "(r, s) \<in> ?F\<^sup>+ \<longleftrightarrow> (r, s) \<in> ?E\<^sup>+"
    using trancl_mono_subset [OF sub(1)] trancl_mono_subset [OF sub(2)] trancl_avoid [OF assms(1)] by blast
  ultimately show ?thesis using assms(2) by (simp add: causal_upd rtrancl_eq_or_trancl)
qed

lemma rewiring_recv_creates_cycle_eq:
  assumes "wf_core x" "cache_ok x" "acyclic (porf x)"
    and "r < length (xg_events x)" "s < length (xg_events x)" "r \<noteq> s"
  shows "rewiring_recv_creates_cycle x r s =
    Inr (\<not> acyclic (causal (xg_events x) ((xg_rf x)(r \<mapsto> from_send s))))"
  using assms by (simp add: rewiring_recv_creates_cycle_def porf_query_eq rewire_acyclic_iff)

section \<open>Consistency of a rewired graph\<close>

lemma check_exploration_graph_decides:
  assumes "wf_xg x" "cache_ok x" "total_matchers (xg_events x)"
  shows "\<exists>result y. check_exploration_graph model tolerance x = Inr (result, y)
    \<and> (is_consistent result \<longleftrightarrow> consistent model tolerance (xg_events x) (xg_rf x))
    \<and> checked x y \<and> wf_xg y \<and> cache_ok y \<and> (is_consistent result \<longrightarrow> known_acyclic y)"
proof -
  have "wf_eg (graph x)" using assms(1) by (auto simp: wf_xg_def wf_core_def)
  from check_execution_graph_correct [OF this assms(3)] obtain result where
    "check_execution_graph model tolerance (graph x) = Inr result"
    "is_consistent result \<longleftrightarrow> consistent model tolerance (xg_events x) (xg_rf x)" by blast
  with check_exploration_graph_eq(1) [OF assms(1,2), of model tolerance] obtain y where
    "check_exploration_graph model tolerance x = Inr (result, y)" by auto
  with check_exploration_graph_eq(2) [OF assms(1,2) this] \<open>is_consistent result \<longleftrightarrow> _\<close> show ?thesis by blast
qed

text \<open>The sends that receive \<open>r\<close> may be rewired to: compatible, and read by no other receive.\<close>

definition candidate :: "'v event list \<Rightarrow> (EventId \<rightharpoonup> ReadsFromSource) \<Rightarrow> EventId \<Rightarrow> EventId \<Rightarrow> bool" where
  "candidate evs m r i \<longleftrightarrow> i < length evs \<and> is_send (evs ! i) \<and> destination (send_of evs i) = thread (evs ! r)
     \<and> accepted evs r i \<and> (\<forall>r'. m r' = Some (from_send i) \<longrightarrow> r' = r)"

lemma reads_ok_mono:
  assumes "reads_ok tolerance evs m" "\<And>r. tolerance r \<Longrightarrow> tolerance' r"
  shows "reads_ok tolerance' evs m"
  using assms unfolding reads_ok_def by blast

lemma reads_ok_rewire:
  assumes "reads_ok tolerance evs m" "r < length evs" "is_receive (evs ! r)" "candidate evs m r i"
    and "\<And>r'. r' \<noteq> r \<Longrightarrow> tolerance r' \<Longrightarrow> tolerance' r'"
  shows "reads_ok tolerance' evs (m(r \<mapsto> from_send i))"
proof -
  have "r' = r \<or> \<not> tolerance r'" if "\<not> tolerance' r'" for r' using assms(5) that by blast
  with assms(1) have "\<forall>r'<length evs. is_receive (evs ! r') \<longrightarrow> tolerance' r' \<or> (m(r \<mapsto> from_send i)) r' \<noteq> None"
    unfolding reads_ok_def by (metis fun_upd_apply option.distinct(1))
  with assms(1-4) show ?thesis by (auto simp: reads_ok_def candidate_def read_ok_def rf_valid_def)
qed

lemma with_rf_any_wf:
  assumes "wf_xg x" "r < length (xg_events x)" "is_receive (xg_events x ! r)"
    and "i < length (xg_events x)" "is_send (xg_events x ! i)"
    and "preserves \<Longrightarrow> acyclic (causal (xg_events x) ((xg_rf x)(r \<mapsto> from_send i)))"
  shows "\<exists>y. (if preserves then with_rf_preserving_known_acyclicity r i x else with_rf r i x) = Inr y
    \<and> wf_xg y \<and> cache_ok y \<and> xg_events y = xg_events x \<and> xg_rf y = (xg_rf x)(r \<mapsto> from_send i)
    \<and> event_undo_log y = [] \<and> rf_undo_log y = []"
proof -
  let ?p = "preserves \<and> known_acyclic x \<and> is_receive_id x r \<and> is_send_id x i"
  have "source_ok (xg_events x) (Some (from_send i))" using assms(4,5) by (simp add: source_ok_def)
  from copy_with_rf_source_wf [OF assms(1-3) this, of ?p] assms(6)
  obtain y where y: "copy_with_rf_source r (from_send i) ?p x = Inr y" "wf_xg y" "xg_events y = xg_events x"
    "xg_rf y = (xg_rf x)(r \<mapsto> from_send i)" "event_undo_log y = []" "rf_undo_log y = []" by blast
  moreover have "cache_ok y" using copy_with_rf_source_cache [OF y(1)] by (simp add: cache_ok_def)
  ultimately show ?thesis by (auto simp: with_rf_preserving_known_acyclicity_def with_rf_def)
qed

definition rewire_tolerance :: "bool \<Rightarrow> EventId \<Rightarrow> MissingReadsTolerance" where
  "rewire_tolerance allow_missing r =
     (if allow_missing then allow_missing_reads_for_non_target r else no_missing_reads_tolerance)"

lemma rf_rewrite_is_consistent_eq:
  assumes wf: "wf_xg x" "cache_ok x" "total_matchers (xg_events x)" "acyclic (porf x)"
    and r: "r < length (xg_events x)" "is_receive (xg_events x ! r)"
    and ok: "reads_ok (rewire_tolerance allow_missing r) (xg_events x) (xg_rf x)"
    and i: "candidate (xg_events x) (xg_rf x) r i"
  shows "rf_rewrite_is_consistent x r i model allow_missing =
    Inr (consistent model (rewire_tolerance allow_missing r) (xg_events x) ((xg_rf x)(r \<mapsto> from_send i)))"
proof -
  have core: "wf_core x" using wf(1) by (simp add: wf_xg_def)
  have i': "i < length (xg_events x)" "is_send (xg_events x ! i)" using i by (auto simp: candidate_def)
  with r(2) have "r \<noteq> i" using send_not_receive by blast
  note cyc = rewiring_recv_creates_cycle_eq [OF core wf(2,4) r(1) i'(1) this]
  define preserves where "preserves \<longleftrightarrow> known_acyclic x
    \<and> acyclic (causal (xg_events x) ((xg_rf x)(r \<mapsto> from_send i)))"
  show ?thesis
  proof (cases "model = Async \<and> \<not> allow_missing")
    case True
    moreover have "reads_ok (rewire_tolerance allow_missing r) (xg_events x) ((xg_rf x)(r \<mapsto> from_send i))"
      by (rule reads_ok_rewire [OF ok r i])
    ultimately show ?thesis
      by (simp add: rf_rewrite_is_consistent_def cyc consistent_def async_consistent_def)
  next
    case False
    from with_rf_any_wf [OF wf(1) r i', of preserves] obtain y where
      y: "(if preserves then with_rf_preserving_known_acyclicity r i x else with_rf r i x) = Inr y"
      "wf_xg y" "cache_ok y" "xg_events y = xg_events x" "xg_rf y = (xg_rf x)(r \<mapsto> from_send i)"
      by (auto simp: preserves_def)
    from check_exploration_graph_decides [OF y(2,3), of model "rewire_tolerance allow_missing r"] wf(3) y(4,5)
    obtain result z where "check_exploration_graph model (rewire_tolerance allow_missing r) y = Inr (result, z)"
      "is_consistent result = consistent model (rewire_tolerance allow_missing r) (xg_events x)
         ((xg_rf x)(r \<mapsto> from_send i))" by auto
    moreover have "(if known_acyclic x then map_result Not (rewiring_recv_creates_cycle x r i) else Inr False) =
        Inr preserves" by (simp add: cyc preserves_def)
    ultimately show ?thesis using False y(1)
      by (cases allow_missing)
        (simp_all add: rf_rewrite_is_consistent_def rewire_tolerance_def check_consistency_def
          check_consistency_allowing_missing_reads_except_def consistency_checker_exploration_def)
  qed
qed

section \<open>The next event\<close>

definition terminated :: "'v event list \<Rightarrow> ThreadId \<Rightarrow> bool" where
  "terminated evs t = (case last_event evs t of None \<Rightarrow> False | Some e \<Rightarrow> is_block e \<or> is_error e)"

definition capped :: "nat \<Rightarrow> 'v event list \<Rightarrow> ThreadId \<Rightarrow> bool" where
  "capped max_thread_events evs t \<longleftrightarrow> max_thread_events \<noteq> 0 \<and> length (thread_ids evs t) \<ge> max_thread_events"

text \<open>What a thread replies to a trace, and the label it offers; a thread that throws offers none.\<close>

definition reply :: "'v Program \<Rightarrow> ThreadId \<Rightarrow> 'v ThreadTrace \<Rightarrow> nat \<Rightarrow> 'v EventLabel option result" where
  "reply P t trace step = bind_result (tm_at (threads P) t) (\<lambda>thread_fn. thread_fn trace step)"

definition offered :: "'v Program \<Rightarrow> ThreadId \<Rightarrow> 'v ThreadTrace \<Rightarrow> nat \<Rightarrow> 'v EventLabel option" where
  "offered P t trace step = (case reply P t trace step of Inl _ \<Rightarrow> None | Inr l \<Rightarrow> l)"

definition offer :: "'v Program \<Rightarrow> 'v ExplorationGraph \<Rightarrow> ThreadId \<Rightarrow> 'v EventLabel option" where
  "offer P x t = offered P t (trace_of (xg_events x) (xg_rf x) t) (length (thread_ids (xg_events x) t))"

text \<open>A reply that neither throws nor blocks of its own accord nor has a matcher that throws.\<close>

definition calm :: "'v EventLabel option result \<Rightarrow> bool" where
  "calm r \<longleftrightarrow> (\<exists>l. r = Inr l \<and> l \<noteq> Some Block \<and> (\<forall>rl. l = Some (Receive rl) \<longrightarrow> total_matcher rl))"

definition answers :: "'v Program \<Rightarrow> 'v ExplorationGraph \<Rightarrow> ThreadId \<Rightarrow> bool" where
  "answers P x t \<longleftrightarrow> calm (reply P t (trace_of (xg_events x) (xg_rf x) t) (length (thread_ids (xg_events x) t)))"

definition total_program :: "'v Program \<Rightarrow> bool" where
  "total_program P \<longleftrightarrow> (\<forall>t trace step. tm_contains (threads P) t \<longrightarrow> calm (reply P t trace step))"

text \<open>A thread that contributes no event: finished, capped, or done.\<close>

definition idle :: "'v Program \<Rightarrow> 'v ExplorationGraph \<Rightarrow> nat \<Rightarrow> ThreadId \<Rightarrow> bool" where
  "idle P x max_thread_events t \<longleftrightarrow>
     terminated (xg_events x) t \<or> capped max_thread_events (xg_events x) t \<or> offer P x t = None"

definition readable :: "'v ExplorationGraph \<Rightarrow> ThreadId \<Rightarrow> 'v ReceiveLabel \<Rightarrow> bool" where
  "readable x t rl \<longleftrightarrow> (\<exists>i\<in>unread x. compatible (xg_events x) t rl i)"

definition scheduled :: "'v ExplorationGraph \<Rightarrow> ThreadId \<Rightarrow> 'v EventLabel \<Rightarrow> 'v EventLabel" where
  "scheduled x t l =
     (case l of Receive rl \<Rightarrow> if is_blocking rl \<and> \<not> readable x t rl then Block else l | _ \<Rightarrow> l)"

lemma call_thread_offer:
  assumes "wf_core x" "answers P x t"
  shows "call_thread P x t (thread_event_count x t) = Inr (offer P x t)" "offer P x t \<noteq> Some Block"
    "offer P x t = Some (Receive rl) \<Longrightarrow> total_matcher rl"
proof -
  from assms(2) obtain l where l: "reply P t (trace_of (xg_events x) (xg_rf x) t) (length (thread_ids (xg_events x) t)) = Inr l"
    "l \<noteq> Some Block" "\<forall>rl. l = Some (Receive rl) \<longrightarrow> total_matcher rl"
    by (auto simp: answers_def calm_def)
  then have o: "offer P x t = l" by (simp add: offer_def offered_def)
  from l(1) obtain f where "tm_at (threads P) t = Inr f" "f (trace_of (xg_events x) (xg_rf x) t) (length (thread_ids (xg_events x) t)) = Inr l"
    by (cases "tm_at (threads P) t") (auto simp: reply_def)
  with o show "call_thread P x t (thread_event_count x t) = Inr (offer P x t)"
    using assms(1) by (simp add: call_thread_def thread_trace_def thread_trace_into_eq thread_event_count_eq)
  show "offer P x t \<noteq> Some Block" "offer P x t = Some (Receive rl) \<Longrightarrow> total_matcher rl"
    using l(2,3) o by auto
qed

lemma schedule_label_eq:
  assumes "wf_core x" "l \<noteq> Block" "\<forall>rl. l = Receive rl \<longrightarrow> total_matcher rl"
  shows "schedule_label x t l = Inr (scheduled x t l)"
  using assms by (cases l) (auto simp: schedule_label_def scheduled_def readable_def compatible_unread_eq)

lemma compute_next_event_eq:
  assumes "wf_core x" "\<forall>t\<in>set ts. terminated (xg_events x) t \<or> answers P x t"
  shows "next_event_loop P x max_thread_events ts suppressed = Inr
    (case find (\<lambda>t. \<not> idle P x max_thread_events t) ts of
       Some t \<Rightarrow> \<lparr>next_event = Some (t, scheduled x t (the (offer P x t))),
         suppressed_by_thread_event_limit = (suppressed \<or> (\<exists>u\<in>set (takeWhile (idle P x max_thread_events) ts).
            capped max_thread_events (xg_events x) u \<and> \<not> terminated (xg_events x) u))\<rparr>
     | None \<Rightarrow> \<lparr>next_event = None,
         suppressed_by_thread_event_limit = (suppressed \<or> (\<exists>u\<in>set ts.
            capped max_thread_events (xg_events x) u \<and> \<not> terminated (xg_events x) u))\<rparr>)"
  using assms(2)
proof (induction ts arbitrary: suppressed)
  case (Cons t ts)
  note c = call_thread_offer [OF assms(1), of P t]
  have trm: "thread_is_terminated x t = Inr (terminated (xg_events x) t)"
    using assms(1) by (simp add: thread_is_terminated_eq terminated_def)
  have cap: "capped max_thread_events (xg_events x) t =
      (max_thread_events \<noteq> 0 \<and> thread_event_count x t \<ge> max_thread_events)"
    using assms(1) by (simp add: thread_event_count_eq capped_def)
  show ?case
  proof (cases "idle P x max_thread_events t")
    case True
    with Cons.prems c(1) have "next_event_loop P x max_thread_events (t # ts) suppressed =
        next_event_loop P x max_thread_events ts
          (suppressed \<or> capped max_thread_events (xg_events x) t \<and> \<not> terminated (xg_events x) t)"
      by (auto simp: trm cap idle_def)
    with Cons.IH Cons.prems True show ?thesis
      by (simp add: disj_assoc del: next_event_loop.simps split: option.split)
  next
    case False
    then obtain l where l: "offer P x t = Some l" by (auto simp: idle_def)
    have "answers P x t" using False Cons.prems by (auto simp: idle_def)
    with l c(2,3) have "schedule_label x t l = Inr (scheduled x t l)"
      by (intro schedule_label_eq [OF assms(1)]) auto
    with False l Cons.prems c(1) show ?thesis by (auto simp: trm cap idle_def)
  qed
qed simp

section \<open>A sample program\<close>

text \<open>Thread 0 sends one value to thread 1, which receives one value.\<close>

definition sample_program :: "nat Program" where
  "sample_program = \<lparr>threads = tm_of_list (\<lambda>_ _. Inr None)
     [(0, \<lambda>trace step. Inr (if step = 0 then Some (Send \<lparr>destination = 1, send_value = 7\<rparr>) else None)),
      (1, \<lambda>trace step. Inr (if step = 0 then Some (Receive (make_receive_label match_any_value Blocking)) else None))]\<rparr>"

lemma sample_program_at:
  "tm_at (threads sample_program) t =
     (if t = 1 then Inr (\<lambda>trace step. Inr (if step = 0 then Some (Receive (make_receive_label match_any_value Blocking)) else None))
      else if t = 0 then Inr (\<lambda>trace step. Inr (if step = 0 then Some (Send \<lparr>destination = 1, send_value = 7\<rparr>) else None))
      else Inl (precondition_error ''thread id not found''))"
  by (simp add: sample_program_def tm_of_list_def tm_at_assign) (simp add: tm_at_def tm_empty_def)

lemma sample_program_total: "total_program sample_program"
  by (auto simp: total_program_def calm_def reply_def tm_at_contains sample_program_at total_matcher_def make_receive_label_def match_any_value_def
      split: if_splits)

lemma sample_program_contains: "tm_contains (threads sample_program) t \<longleftrightarrow> t < 2"
  by (auto simp: tm_at_contains sample_program_at)

lemma sample_ids [simp]:
  "length sample_events = 2" "is_receive_id sample_xg (Suc 0)" "is_send_id sample_xg 0" "cache_ok sample_xg"
  "candidate sample_events [Suc 0 \<mapsto> from_send 0] (Suc 0) 0"
  by (auto simp: sample_events_def is_receive_id_def is_send_id_def is_valid_event_id_def event_kind_defs
      cache_ok_def candidate_def send_of_def accepted_def recv_of_def make_receive_label_def match_any_value_def)

section \<open>Properties\<close>

text \<open>Duplicate elimination turns the choice vector into the list of its distinct values in the order of
  their first occurrences, so that no value is explored twice and none is lost.\<close>

lemma nd_choices_deduplicated:
  "distinct (erase_duplicate_nd_choices cs) \<and> set (erase_duplicate_nd_choices cs) = set cs
   \<and> erase_duplicate_nd_choices cs = rev (remdups (rev cs))
   \<and> (distinct cs \<longleftrightarrow> erase_duplicate_nd_choices cs = cs)"
proof -
  have "distinct cs \<longleftrightarrow> rev (remdups (rev cs)) = cs" by (metis distinct_remdups_id distinct_remdups distinct_rev rev_rev_ident)
  then show ?thesis by (simp add: erase_duplicate_nd_choices_eq)
qed

text \<open>On an acyclic graph, rewiring a receive to a send is reported as cycle-creating exactly if the
  rewired graph has a causal cycle: one query on the original graph replaces a search of the rewired one.\<close>

lemma rewiring_cycle_decided:
  assumes "wf_xg x" "cache_ok x" "acyclic (porf x)" "is_receive_id x r" "is_send_id x s"
  shows "rewiring_recv_creates_cycle x r s =
    Inr (\<not> acyclic (causal (xg_events x) ((xg_rf x)(r \<mapsto> from_send s))))"
proof -
  from assms(4,5) have "r < length (xg_events x)" "s < length (xg_events x)" "r \<noteq> s"
    using send_not_receive [of "xg_events x ! s"]
    by (auto simp: is_receive_id_def is_send_id_def is_valid_event_id_def)
  with assms show ?thesis by (intro rewiring_recv_creates_cycle_eq) (auto simp: wf_xg_def)
qed

text \<open>C31. Testing whether a receive may be rewired to a compatible send that no other receive reads decides
  consistency of the rewired graph in both communication models; under the asynchronous model the
  single reachability query is enough.\<close>

theorem rf_rewrite_decides_consistency:
  assumes "wf_xg x" "cache_ok x" "total_matchers (xg_events x)" "acyclic (porf x)"
    and "is_receive_id x r" "candidate (xg_events x) (xg_rf x) r i"
    and "reads_ok (rewire_tolerance allow_missing r) (xg_events x) (xg_rf x)"
  shows "rf_rewrite_is_consistent x r i model allow_missing =
    Inr (consistent model (rewire_tolerance allow_missing r) (xg_events x) ((xg_rf x)(r \<mapsto> from_send i)))"
  using assms by (intro rf_rewrite_is_consistent_eq) (auto simp: is_receive_id_def is_valid_event_id_def)

theorem rf_rewrite_decides_consistency_witness:
  "rf_rewrite_is_consistent sample_xg 1 0 FifoP2P False = Inr True"
  using rf_rewrite_decides_consistency [of sample_xg 1 0 False FifoP2P] sample_consistent sample_total
  by (simp add: rewire_tolerance_def consistent_def async_consistent_def)

text \<open>C32. As long as the threads it asks do not throw, the next event comes from the first thread in the
  given order that is neither finished, nor at the event limit, nor done. A blocking receive is scheduled
  only if some unread send can satisfy it, and becomes a block event otherwise. If there is no next event,
  the limit flag tells whether some unfinished thread was at the limit.\<close>

theorem next_event_selected:
  assumes "wf_core x" "\<forall>t\<in>set ts. terminated (xg_events x) t \<or> answers P x t"
  shows "\<exists>res. compute_next_event P x ts max_thread_events = Inr res
    \<and> next_event res = map_option (\<lambda>t. (t, scheduled x t (the (offer P x t))))
        (find (\<lambda>t. \<not> idle P x max_thread_events t) ts)
    \<and> (next_event res = None \<longrightarrow> suppressed_by_thread_event_limit res =
        (\<exists>u\<in>set ts. capped max_thread_events (xg_events x) u \<and> \<not> terminated (xg_events x) u))"
  using compute_next_event_eq [OF assms, of max_thread_events False]
  by (auto simp: compute_next_event_def split: option.split)

theorem next_event_selected_witness:
  "\<exists>res. compute_next_event sample_program empty_xg [0, 1] 0 = Inr res
    \<and> next_event res = Some (0, Send \<lparr>destination = 1, send_value = 7\<rparr>)"
proof -
  have "find (\<lambda>t. \<not> idle sample_program empty_xg 0 t) [0, 1] = Some 0"
    "offer sample_program empty_xg 0 = Some (Send \<lparr>destination = 1, send_value = 7\<rparr>)"
    by (simp_all add: idle_def terminated_def capped_def offer_def offered_def reply_def sample_program_at last_event_def)
  then show ?thesis
    using next_event_selected [of "empty_xg :: nat ExplorationGraph" "[0, 1]" sample_program 0]
      wf_core_empty sample_program_total sample_program_contains
    by (auto simp: scheduled_def answers_def total_program_def)
qed

text \<open>The set of previous events of an event and a new send consists of the events inserted no later than
  the event and of the causal predecessors of the send, and membership tests agree with it.\<close>

lemma previous_set_characterised:
  assumes "wf_xg x" "cache_ok x" "acyclic (porf x)" "e < length (xg_events x)" "s < length (xg_events x)"
  shows "\<exists>mask. compute_previous_set x e s = Inr mask \<and> length mask = length (xg_events x)
    \<and> (\<forall>ep<length (xg_events x). mask ! ep = (ep \<le> e \<or> (ep, s) \<in> (porf x)\<^sup>+) \<and> in_previous x e s ep = Inr (mask ! ep))"
  using assms compute_previous_set_eq [of x e s] by (auto simp: wf_xg_def previous_def)

end
