(* ===== verification/Tiebreaker.thy ===== *)
theory Tiebreaker
  imports Dpor_Core "HOL-Library.Product_Lexorder"
begin

text \<open>
  \<^verbatim>\<open>get_cons_tiebreaker\<close> and its restriction-based variant of
  \<^verbatim>\<open>include/dpor/algo/dpor.hpp\<close>: the thread-minimal send a blocking receive can read while the graph
  stays consistent. The rewritten graph is materialised once and rebound for every further candidate;
  the result is characterised by a declarative minimum over the consistent candidates.
\<close>

text \<open>The checks on the receive, shared by both entry points: its event, label and current source.\<close>

definition tiebreaker_target ::
    "'v ExplorationGraph \<Rightarrow> EventId \<Rightarrow> ('v event \<times> 'v ReceiveLabel) result" where
  "tiebreaker_target x recv =
     bind_result (xg_event x recv) (\<lambda>recv_evt.
       case as_receive recv_evt of
         None \<Rightarrow> Inl (internal_error ''get_cons_tiebreaker invariant violated: event is not a receive'')
       | Some rl \<Rightarrow>
           if is_nonblocking rl
           then Inl (internal_error ''get_cons_tiebreaker invariant violated: event is not a blocking receive'')
           else Inr (recv_evt, rl))"

definition tiebreaker_source :: "'v ExplorationGraph \<Rightarrow> EventId \<Rightarrow> EventId result" where
  "tiebreaker_source x recv =
     (case rf_find (reads_from (graph x)) recv of
        None \<Rightarrow> Inl (internal_error ''get_cons_tiebreaker invariant violated: receive missing reads-from source'')
      | Some bottom \<Rightarrow>
          Inl (internal_error ''get_cons_tiebreaker invariant violated: blocking receive reads from bottom'')
      | Some (from_send i) \<Rightarrow> Inr i)"

text \<open>
  The candidates: the compatible sends among the given unread ones, then the current source, sorted by
  sender thread and event id. The keys are distinct, so the order of the library sort is determined.
\<close>

definition sorted_candidates ::
    "'v ExplorationGraph \<Rightarrow> 'v event \<Rightarrow> 'v ReceiveLabel \<Rightarrow> EventId list \<Rightarrow> EventId \<Rightarrow> EventId list result" where
  "sorted_candidates x recv_evt rl unread_ids current =
     bind_result (filter_result (compatible_send x (thread recv_evt) rl) unread_ids) (\<lambda>cs.
     bind_result (compatible_send x (thread recv_evt) rl current) (\<lambda>own.
     bind_result (traverse_result (\<lambda>i. map_result (\<lambda>e. (thread e, i)) (xg_event x i))
                    (if own then cs @ [current] else cs)) (\<lambda>keyed.
       Inr (map snd (sort keyed)))))"

text \<open>The rewritten graph for one candidate: a fresh copy for the first one, rebound afterwards.\<close>

definition rewrite_for_candidate ::
    "'v ExplorationGraph \<Rightarrow> EventId \<Rightarrow> EventId \<Rightarrow> bool \<Rightarrow> 'v ExplorationGraph option \<Rightarrow> 'v ExplorationGraph result"
where
  "rewrite_for_candidate x recv send preserves rewritten =
     (case rewritten of
        Some y \<Rightarrow> rebind_rf recv send preserves y
      | None \<Rightarrow> if preserves then with_rf_preserving_known_acyclicity recv send x else with_rf recv send x)"

fun tiebreaker_loop ::
    "'v ExplorationGraph \<Rightarrow> EventId \<Rightarrow> CommunicationModel \<Rightarrow> bool \<Rightarrow> EventId list
     \<Rightarrow> 'v ExplorationGraph option \<Rightarrow> EventId result" where
  "tiebreaker_loop x recv model allow_missing [] rewritten =
     Inl (internal_error ''get_cons_tiebreaker invariant violated: no consistent source found'')"
| "tiebreaker_loop x recv model allow_missing (c # cs) rewritten =
     (if model = Async \<and> \<not> allow_missing
      then bind_result (rewiring_recv_creates_cycle x recv c) (\<lambda>cycle.
             if \<not> cycle then Inr c else tiebreaker_loop x recv model allow_missing cs rewritten)
      else bind_result
             (if known_acyclic x then map_result Not (rewiring_recv_creates_cycle x recv c) else Inr False)
             (\<lambda>preserves.
           bind_result (rewrite_for_candidate x recv c preserves rewritten) (\<lambda>y.
           bind_result
             (if allow_missing then check_consistency_allowing_missing_reads_except model recv y
              else check_consistency model y)
             (\<lambda>(result, z). if is_consistent result then Inr c
                             else tiebreaker_loop x recv model allow_missing cs (Some z)))))"

definition get_cons_tiebreaker ::
    "'v ExplorationGraph \<Rightarrow> EventId \<Rightarrow> CommunicationModel \<Rightarrow> bool \<Rightarrow> EventId result" where
  "get_cons_tiebreaker x recv model allow_missing =
     bind_result (tiebreaker_target x recv) (\<lambda>(recv_evt, rl).
     bind_result (tiebreaker_source x recv) (\<lambda>current.
     bind_result (sorted_candidates x recv_evt rl (unread_send_event_ids x) current) (\<lambda>candidates.
       tiebreaker_loop x recv model allow_missing candidates None)))"

text \<open>The renumbering loop: the kept ids in order, and the position of the receive among them.\<close>

definition renumber_step ::
    "bool list \<Rightarrow> EventId \<Rightarrow> EventId \<Rightarrow> EventId list \<times> EventId option \<Rightarrow> EventId list \<times> EventId option" where
  "renumber_step keep_mask recv i s = (case s of (new_to_old, remapped_recv) \<Rightarrow>
     if i \<ge> length keep_mask \<or> \<not> keep_mask ! i then (new_to_old, remapped_recv)
     else (new_to_old @ [i], if i = recv then Some (length new_to_old) else remapped_recv))"

definition get_cons_tiebreaker_masked_via_restriction ::
    "'v ExplorationGraph \<Rightarrow> bool list \<Rightarrow> EventId \<Rightarrow> CommunicationModel \<Rightarrow> EventId result" where
  "get_cons_tiebreaker_masked_via_restriction x keep_mask recv model =
     bind_result (restrict_from_keep_mask keep_mask x) (\<lambda>restricted.
       case fold (renumber_step keep_mask recv) [0..<xg_event_count x] ([], None) of
         (new_to_old, None) \<Rightarrow>
           Inl (internal_error ''get_cons_tiebreaker invariant violated: event missing from keep mask'')
       | (new_to_old, Some remapped_recv) \<Rightarrow>
           bind_result (get_cons_tiebreaker restricted remapped_recv model True) (\<lambda>remapped_send.
             if remapped_send \<ge> length new_to_old
             then Inl (internal_error
               ''get_cons_tiebreaker invariant violated: remapped send missing from restricted graph'')
             else Inr (new_to_old ! remapped_send)))"

section \<open>The declarative minimum\<close>

text \<open>
  The outcome on a set of acceptable sends: the one minimal by sender thread and then by event id, or the
  exception if there is none.
\<close>

definition tiebreaks :: "'v event list \<Rightarrow> EventId set \<Rightarrow> EventId result \<Rightarrow> bool" where
  "tiebreaks evs S res =
     (if S = {} then res = Inl (internal_error ''get_cons_tiebreaker invariant violated: no consistent source found'')
      else \<exists>i\<in>S. res = Inr i \<and> (\<forall>j\<in>S. (thread (evs ! i), i) \<le> (thread (evs ! j), j)))"

lemma tiebreaks_unique: "tiebreaks evs S res \<Longrightarrow> tiebreaks evs S res' \<Longrightarrow> res = res'"
  unfolding tiebreaks_def by (metis antisym prod.inject)

lemma tiebreaks_find:
  assumes "sorted (map (\<lambda>i. (thread (evs ! i), i)) cs)"
  shows "tiebreaks evs {i \<in> set cs. ok i} (case find ok cs of
    None \<Rightarrow> Inl (internal_error ''get_cons_tiebreaker invariant violated: no consistent source found'')
  | Some i \<Rightarrow> Inr i)"
  using assms
proof (induction cs)
  case (Cons c cs)
  show ?case
  proof (cases "ok c")
    case True
    with Cons.prems show ?thesis by (auto simp: tiebreaks_def)
  next
    case False
    then have "{i \<in> set (c # cs). ok i} = {i \<in> set cs. ok i}" by auto
    with Cons False show ?thesis by simp
  qed
qed (simp add: tiebreaks_def)

lemma sorted_candidates_eq:
  assumes "total_matcher rl" "set ids \<subseteq> {..<length (xg_events x)}" "current < length (xg_events x)"
  shows "\<exists>cs. sorted_candidates x recv_evt rl ids current = Inr cs
    \<and> sorted (map (\<lambda>i. (thread (xg_events x ! i), i)) cs)
    \<and> set cs = {i \<in> insert current (set ids). compatible (xg_events x) (thread recv_evt) rl i}"
proof -
  let ?c = "compatible (xg_events x) (thread recv_evt) rl" and ?k = "\<lambda>i. (thread (xg_events x ! i), i)"
  let ?l = "if ?c current then filter ?c ids @ [current] else filter ?c ids"
  have f: "filter_result (compatible_send x (thread recv_evt) rl) ids = Inr (filter ?c ids)"
    by (rule filter_result_pure) (use assms in \<open>auto simp: compatible_send_eq\<close>)
  have "traverse_result (\<lambda>i. map_result (\<lambda>e. (thread e, i)) (xg_event x i)) ?l = Inr (map ?k ?l)"
    by (rule traverse_result_pure) (use assms in \<open>auto simp: xg_event_eq split: if_splits\<close>)
  then have "sorted_candidates x recv_evt rl ids current = Inr (map snd (sort (map ?k ?l)))"
    using assms by (simp add: sorted_candidates_def f compatible_send_eq)
  moreover have "map ?k (map snd (sort (map ?k ?l))) = sort (map ?k ?l)"
    by (rule map_idI [THEN trans [OF map_map]]) auto
  then have "sorted (map ?k (map snd (sort (map ?k ?l))))" by simp
  moreover have "set (map snd (sort (map ?k ?l))) = {i \<in> insert current (set ids). ?c i}"
    by (auto simp: image_image split: if_splits)
  ultimately show ?thesis by blast
qed

section \<open>The search\<close>

text \<open>What the loop keeps of the rewritten graph: it differs from the original only in the source of the receive.\<close>

definition rewritten_of :: "'v ExplorationGraph \<Rightarrow> EventId \<Rightarrow> 'v ExplorationGraph \<Rightarrow> bool" where
  "rewritten_of x recv y \<longleftrightarrow> wf_xg y \<and> cache_ok y \<and> xg_events y = xg_events x
     \<and> (\<exists>s. xg_rf y = (xg_rf x)(recv \<mapsto> s)) \<and> event_undo_log y = [] \<and> rf_undo_log y = []"

lemma rewrite_for_candidate_wf:
  assumes "wf_xg x" "is_receive_id x recv" "is_send_id x send" "\<forall>y. rewritten = Some y \<longrightarrow> rewritten_of x recv y"
    and "preserves \<Longrightarrow> acyclic (causal (xg_events x) ((xg_rf x)(recv \<mapsto> from_send send)))"
  shows "\<exists>y. rewrite_for_candidate x recv send preserves rewritten = Inr y \<and> rewritten_of x recv y
    \<and> xg_rf y = (xg_rf x)(recv \<mapsto> from_send send)"
proof -
  have ids: "recv < length (xg_events x)" "is_receive (xg_events x ! recv)"
      "send < length (xg_events x)" "is_send (xg_events x ! send)"
    using assms(2,3) by (auto simp: is_receive_id_def is_send_id_def is_valid_event_id_def)
  show ?thesis
  proof (cases rewritten)
    case None
    from with_rf_any_wf [OF assms(1) ids, of preserves] assms(5) obtain y where
      "(if preserves then with_rf_preserving_known_acyclicity recv send x else with_rf recv send x) = Inr y"
      "wf_xg y" "cache_ok y" "xg_events y = xg_events x" "xg_rf y = (xg_rf x)(recv \<mapsto> from_send send)"
      "event_undo_log y = []" "rf_undo_log y = []" by blast
    with None show ?thesis by (auto simp: rewrite_for_candidate_def rewritten_of_def)
  next
    case (Some y)
    with assms(4) obtain s where y: "wf_xg y" "xg_events y = xg_events x" "xg_rf y = (xg_rf x)(recv \<mapsto> s)"
      "event_undo_log y = []" "rf_undo_log y = []" by (auto simp: rewritten_of_def)
    have "source_ok (xg_events y) (Some (from_send send))" using ids y(2) by (simp add: source_ok_def)
    from rebind_rf_wf [OF y(1) _ _ this _ y(4,5), of recv preserves] assms(5) ids y(2,3)
    obtain z where z: "rebind_rf recv send preserves y = Inr z" "wf_xg z" "xg_events z = xg_events x"
      "xg_rf z = (xg_rf x)(recv \<mapsto> from_send send)" "event_undo_log z = []" "rf_undo_log z = []" by auto
    moreover have "cache_ok z" using rebind_rf_cache [OF z(1)] by (simp add: cache_ok_def)
    ultimately show ?thesis using Some by (auto simp: rewrite_for_candidate_def rewritten_of_def)
  qed
qed

lemma rewritten_checked: "rewritten_of x recv y \<Longrightarrow> checked y z \<Longrightarrow> wf_xg z \<Longrightarrow> cache_ok z \<Longrightarrow> rewritten_of x recv z"
  by (auto simp: rewritten_of_def checked_def mark_known_acyclic_def)

lemma tiebreaker_loop_eq:
  assumes wf: "wf_xg x" "cache_ok x" "total_matchers (xg_events x)" "acyclic (porf x)" "is_receive_id x recv"
    and ok: "reads_ok (rewire_tolerance allow_missing recv) (xg_events x) (xg_rf x)"
    and cs: "\<forall>c\<in>set cs. candidate (xg_events x) (xg_rf x) recv c"
    and rw: "\<forall>y. rewritten = Some y \<longrightarrow> rewritten_of x recv y"
  shows "tiebreaker_loop x recv model allow_missing cs rewritten =
    (case find (\<lambda>i. consistent model (rewire_tolerance allow_missing recv) (xg_events x)
                      ((xg_rf x)(recv \<mapsto> from_send i))) cs of
       None \<Rightarrow> Inl (internal_error ''get_cons_tiebreaker invariant violated: no consistent source found'')
     | Some i \<Rightarrow> Inr i)"
proof -
  define C where "C i = consistent model (rewire_tolerance allow_missing recv) (xg_events x)
    ((xg_rf x)(recv \<mapsto> from_send i))" for i
  have "tiebreaker_loop x recv model allow_missing cs rewritten = (case find C cs of
       None \<Rightarrow> Inl (internal_error ''get_cons_tiebreaker invariant violated: no consistent source found'')
     | Some i \<Rightarrow> Inr i)"
    using cs rw
  proof (induction cs arbitrary: rewritten)
    case (Cons c cs)
    let ?A = "acyclic (causal (xg_events x) ((xg_rf x)(recv \<mapsto> from_send c)))"
    have r: "recv < length (xg_events x)" "is_receive (xg_events x ! recv)"
      using wf(5) by (auto simp: is_receive_id_def is_valid_event_id_def)
    have c: "candidate (xg_events x) (xg_rf x) recv c" using Cons.prems(1) by simp
    then have send: "is_send_id x c" "c < length (xg_events x)" "c \<noteq> recv"
      using r(2) send_not_receive [of "xg_events x ! c"]
      by (auto simp: candidate_def is_send_id_def is_valid_event_id_def)
    have cyc: "rewiring_recv_creates_cycle x recv c = Inr (\<not> ?A)"
      using wf r send by (intro rewiring_recv_creates_cycle_eq) (auto simp: wf_xg_def)
    show ?case
    proof (cases "model = Async \<and> \<not> allow_missing")
      case True
      have "C c \<longleftrightarrow> ?A"
        using reads_ok_rewire [OF ok r c] True by (auto simp: C_def consistent_def async_consistent_def)
      with True Cons cyc show ?thesis by simp
    next
      case False
      let ?p = "known_acyclic x \<and> ?A"
      have p: "(if known_acyclic x then map_result Not (rewiring_recv_creates_cycle x recv c) else Inr False) = Inr ?p"
        by (simp add: cyc)
      from rewrite_for_candidate_wf [OF wf(1,5) send(1) Cons.prems(2), of ?p] obtain y where
        y: "rewrite_for_candidate x recv c ?p rewritten = Inr y" "rewritten_of x recv y"
          "xg_rf y = (xg_rf x)(recv \<mapsto> from_send c)" by blast
      then have y': "wf_xg y" "cache_ok y" "xg_events y = xg_events x" by (auto simp: rewritten_of_def)
      from check_exploration_graph_decides [OF y'(1,2), of model "rewire_tolerance allow_missing recv"] wf(3) y'(3) y(3)
      obtain result z where z: "check_exploration_graph model (rewire_tolerance allow_missing recv) y = Inr (result, z)"
        "is_consistent result \<longleftrightarrow> C c" "checked y z" "wf_xg z" "cache_ok z" by (auto simp: C_def)
      have check: "(if allow_missing then check_consistency_allowing_missing_reads_except model recv y
          else check_consistency model y) = Inr (result, z)"
        using z(1) by (cases allow_missing) (simp_all add: rewire_tolerance_def check_consistency_def
            check_consistency_allowing_missing_reads_except_def consistency_checker_exploration_def)
      have "rewritten_of x recv z" by (rule rewritten_checked [OF y(2) z(3-5)])
      with Cons have "tiebreaker_loop x recv model allow_missing cs (Some z) = (case find C cs of
          None \<Rightarrow> Inl (internal_error ''get_cons_tiebreaker invariant violated: no consistent source found'')
        | Some i \<Rightarrow> Inr i)" by simp
      moreover have "tiebreaker_loop x recv model allow_missing (c # cs) rewritten =
          (if is_consistent result then Inr c else tiebreaker_loop x recv model allow_missing cs (Some z))"
        unfolding tiebreaker_loop.simps(2) if_not_P [OF False] p bind_result_Inr y(1) check prod.case ..
      ultimately show ?thesis using z(2) by simp
    qed
  qed simp
  moreover have "C = (\<lambda>i. consistent model (rewire_tolerance allow_missing recv) (xg_events x)
      ((xg_rf x)(recv \<mapsto> from_send i)))" by (rule ext) (simp only: C_def)
  ultimately show ?thesis by simp
qed

section \<open>Correctness of the tiebreaker\<close>

text \<open>The sends that a receive can read in a consistent way.\<close>

definition consistent_sources ::
    "CommunicationModel \<Rightarrow> bool \<Rightarrow> 'v event list \<Rightarrow> (EventId \<rightharpoonup> ReadsFromSource) \<Rightarrow> EventId \<Rightarrow> EventId set" where
  "consistent_sources model allow_missing evs m recv =
     {i. candidate evs m recv i \<and> consistent model (rewire_tolerance allow_missing recv) evs (m(recv \<mapsto> from_send i))}"

definition blocking_receive :: "'v ExplorationGraph \<Rightarrow> EventId \<Rightarrow> bool" where
  "blocking_receive x recv \<longleftrightarrow> is_receive_id x recv \<and> is_blocking (recv_of (xg_events x) recv)"

lemma blocking_receiveD:
  assumes "blocking_receive x recv"
  shows "recv < length (xg_events x)" "is_receive (xg_events x ! recv)"
    "as_receive (xg_events x ! recv) = Some (recv_of (xg_events x) recv)"
    "\<not> is_nonblocking (recv_of (xg_events x) recv)"
  using assms by (auto simp: blocking_receive_def is_receive_id_def is_valid_event_id_def recv_of_def
      is_receive_as_receive is_blocking_def is_nonblocking_def simp del: as_receive_None)

lemma total_matchers_recv: "total_matchers evs \<Longrightarrow> r < length evs \<Longrightarrow> as_receive (evs ! r) = Some rl \<Longrightarrow> total_matcher rl"
  unfolding total_matchers_def total_matcher_def by (metis nth_mem)

lemma tiebreaker_target_eq:
  "blocking_receive x recv \<Longrightarrow> tiebreaker_target x recv = Inr (xg_events x ! recv, recv_of (xg_events x) recv)"
  by (simp add: tiebreaker_target_def xg_event_eq blocking_receiveD)

lemma candidate_eq:
  assumes "reads_ok tolerance evs m" "m recv = Some (from_send current)"
  shows "candidate evs m recv i \<longleftrightarrow> i < length evs \<and> compatible evs (thread (evs ! recv)) (recv_of evs recv) i
    \<and> (i = current \<or> (\<forall>r. m r \<noteq> Some (from_send i)))"
  using reads_okD(3) [OF assms(1)] assms(2) by (auto simp: candidate_def compatible_def accepted_def)

lemma get_cons_tiebreaker_eq:
  assumes wf: "wf_xg x" "cache_ok x" "total_matchers (xg_events x)" "acyclic (porf x)" "blocking_receive x recv"
    and ok: "reads_ok (rewire_tolerance allow_missing recv) (xg_events x) (xg_rf x)"
    and rf: "xg_rf x recv = Some (from_send current)"
  shows "tiebreaks (xg_events x) (consistent_sources model allow_missing (xg_events x) (xg_rf x) recv)
    (get_cons_tiebreaker x recv model allow_missing)"
proof -
  have core: "wf_core x" using wf(1) by (simp add: wf_xg_def)
  have current: "current < length (xg_events x)" using reads_okD(1) [OF ok] rf by (auto simp: rf_valid_def)
  have tm: "total_matcher (recv_of (xg_events x) recv)"
    using total_matchers_recv [OF wf(3)] blocking_receiveD [OF wf(5)] by blast
  have sub: "set (unread_send_event_ids x) \<subseteq> {..<length (xg_events x)}" by (auto simp: set_unread [OF core] unread_def)
  from sorted_candidates_eq [OF tm this current, of "xg_events x ! recv"] obtain cs where
    cs: "sorted_candidates x (xg_events x ! recv) (recv_of (xg_events x) recv) (unread_send_event_ids x) current = Inr cs"
      "sorted (map (\<lambda>i. (thread (xg_events x ! i), i)) cs)"
    and set_cs: "set cs = {i \<in> insert current (unread x).
      compatible (xg_events x) (thread (xg_events x ! recv)) (recv_of (xg_events x) recv) i}"
    by (auto simp: set_unread [OF core])
  have cand: "i \<in> set cs \<longleftrightarrow> candidate (xg_events x) (xg_rf x) recv i" for i
    unfolding set_cs candidate_eq [OF ok rf] using current by (auto simp: unread_def compatible_def)
  have "get_cons_tiebreaker x recv model allow_missing = tiebreaker_loop x recv model allow_missing cs None"
    by (simp add: get_cons_tiebreaker_def tiebreaker_target_eq [OF wf(5)] tiebreaker_source_def rf cs(1))
  moreover have "is_receive_id x recv" using wf(5) by (simp add: blocking_receive_def)
  ultimately show ?thesis
    using tiebreaks_find [OF cs(2), of "\<lambda>i. consistent model (rewire_tolerance allow_missing recv) (xg_events x)
        ((xg_rf x)(recv \<mapsto> from_send i))"] cand
    by (simp add: tiebreaker_loop_eq [OF wf(1-4) _ ok] consistent_sources_def)
qed

lemma current_consistent:
  assumes "consistent model (rewire_tolerance allow_missing recv) (xg_events x) (xg_rf x)"
    and "xg_rf x recv = Some (from_send current)"
  shows "current \<in> consistent_sources model allow_missing (xg_events x) (xg_rf x) recv"
proof -
  have rd: "reads_ok (rewire_tolerance allow_missing recv) (xg_events x) (xg_rf x)"
    using assms(1) by (simp add: consistent_def async_consistent_def)
  have "(xg_rf x)(recv \<mapsto> from_send current) = xg_rf x" using assms(2) by (rule fun_upd_idem)
  moreover have "candidate (xg_events x) (xg_rf x) recv current"
    using reads_okD(1,3) [OF rd] reads_okD(2) [OF rd assms(2)] assms(2)
    by (auto simp: candidate_def rf_valid_def read_ok_def)
  ultimately show ?thesis using assms(1) by (simp add: consistent_sources_def)
qed

lemma sample_blocking [simp]: "blocking_receive sample_xg (Suc 0)"
  by (simp add: blocking_receive_def recv_of_def sample_events_def event_kind_defs is_blocking_def make_receive_label_def)

lemma sample_reads [simp]: "reads_ok (\<lambda>_. True) sample_events [Suc 0 \<mapsto> from_send 0]"
  by (rule reads_ok_mono [of no_missing_reads_tolerance])
    (use sample_consistent in \<open>simp_all add: consistent_def async_consistent_def\<close>)

section \<open>Properties\<close>

text \<open>C30. On a consistent graph the tiebreaker never throws: it returns the send, among the compatible sends that
  no other receive reads and whose choice keeps the graph consistent, that is minimal by sender thread and
  then by event id.\<close>

theorem tiebreaker_minimal:
  assumes "wf_xg x" "cache_ok x" "total_matchers (xg_events x)" "blocking_receive x recv"
    and "consistent model (rewire_tolerance allow_missing recv) (xg_events x) (xg_rf x)"
    and "xg_rf x recv = Some (from_send current)"
  shows "\<exists>i\<in>consistent_sources model allow_missing (xg_events x) (xg_rf x) recv.
    get_cons_tiebreaker x recv model allow_missing = Inr i
    \<and> (\<forall>j\<in>consistent_sources model allow_missing (xg_events x) (xg_rf x) recv.
         thread (xg_events x ! i) < thread (xg_events x ! j)
         \<or> thread (xg_events x ! i) = thread (xg_events x ! j) \<and> i \<le> j)"
proof -
  have "acyclic (porf x)" "reads_ok (rewire_tolerance allow_missing recv) (xg_events x) (xg_rf x)"
    using assms(5) by (simp_all add: consistent_def async_consistent_def)
  from get_cons_tiebreaker_eq [OF assms(1-3) this(1) assms(4) this(2) assms(6), of model]
    current_consistent [OF assms(5,6)] show ?thesis
    by (auto simp: tiebreaks_def le_less split: if_splits)
qed

theorem tiebreaker_minimal_witness:
  "\<exists>i. get_cons_tiebreaker sample_xg 1 FifoP2P False = Inr i"
  using tiebreaker_minimal [of sample_xg 1 FifoP2P False 0] sample_consistent sample_total
  by (auto simp: rewire_tolerance_def)

end
