(* ===== verification/Masked_View.thy ===== *)
theory Masked_View
  imports Tiebreaker
begin

text \<open>
  The restriction of a graph to a keep mask, seen from the original graph: edges, reads-from entries and
  FIFO obligations between kept events, and the candidates of a receive among them. The restricted graph
  is a renumbered copy of this view, so the tiebreaker computed there is the minimum of the same set.
\<close>

section \<open>The view\<close>

definition keeps :: "bool list \<Rightarrow> EventId \<Rightarrow> bool" where
  "keeps keep_mask i \<longleftrightarrow> i < length keep_mask \<and> keep_mask ! i"

definition masked_edges :: "bool list \<Rightarrow> 'v ExplorationGraph \<Rightarrow> (EventId \<times> EventId) set" where
  "masked_edges keep_mask x = {(a, b) \<in> porf x. keeps keep_mask a \<and> keeps keep_mask b}"

definition masked_rf ::
    "bool list \<Rightarrow> (EventId \<rightharpoonup> ReadsFromSource) \<Rightarrow> EventId \<rightharpoonup> ReadsFromSource" where
  "masked_rf keep_mask m r =
     (if keeps keep_mask r
      then (case m r of
              Some (from_send i) \<Rightarrow> if keeps keep_mask i then Some (from_send i) else None
            | s \<Rightarrow> s)
      else None)"

definition masked_fifo ::
    "bool list \<Rightarrow> 'v event list \<Rightarrow> (EventId \<rightharpoonup> ReadsFromSource) \<Rightarrow> bool" where
  "masked_fifo keep_mask evs m \<longleftrightarrow> (\<forall>i j r. i < j \<and> keeps keep_mask i \<and> keeps keep_mask j
     \<and> same_channel evs i j \<and> m r = Some (from_send j) \<and> accepted evs r i \<longrightarrow> (\<exists>r'<r. m r' = Some (from_send i)))"

definition masked_candidate ::
    "bool list \<Rightarrow> 'v event list \<Rightarrow> (EventId \<rightharpoonup> ReadsFromSource) \<Rightarrow> EventId \<Rightarrow> EventId \<Rightarrow> bool" where
  "masked_candidate keep_mask evs m recv i \<longleftrightarrow> keeps keep_mask i
     \<and> compatible evs (thread (evs ! recv)) (recv_of evs recv) i
     \<and> (\<forall>r. masked_rf keep_mask m r = Some (from_send i) \<longrightarrow> r = recv)"

definition masked_sources ::
    "CommunicationModel \<Rightarrow> bool list \<Rightarrow> 'v ExplorationGraph \<Rightarrow> EventId \<Rightarrow> EventId set" where
  "masked_sources model keep_mask x recv =
     {i. masked_candidate keep_mask (xg_events x) (xg_rf x) recv i
       \<and> (recv, i) \<notin> (masked_edges keep_mask x)\<^sup>+
       \<and> (model = FifoP2P \<longrightarrow>
            masked_fifo keep_mask (xg_events x) ((masked_rf keep_mask (xg_rf x))(recv \<mapsto> from_send i)))}"

section \<open>The restricted graph as a renumbered view\<close>

lemma keeps_kept: "j < length (kept_ids keep_mask) \<Longrightarrow> keeps keep_mask (kept_ids keep_mask ! j)"
  using new_id_kept [of j keep_mask] by (simp add: keeps_def)

lemma keeps_new_id:
  assumes "keeps keep_mask i"
  shows "new_id keep_mask i < length (kept_ids keep_mask)" "kept_ids keep_mask ! new_id keep_mask i = i"
  using assms kept_new_id by (auto simp: keeps_def)

lemma keepsE:
  assumes "keeps keep_mask i"
  obtains j where "j < length (kept_ids keep_mask)" "i = kept_ids keep_mask ! j"
  using keeps_new_id [OF assms] by metis

lemma kept_less:
  assumes "i < length (kept_ids keep_mask)" "j < length (kept_ids keep_mask)"
  shows "kept_ids keep_mask ! i < kept_ids keep_mask ! j \<longleftrightarrow> i < j"
    "kept_ids keep_mask ! i = kept_ids keep_mask ! j \<longleftrightarrow> i = j"
proof -
  have s: "sorted_wrt (<) (kept_ids keep_mask)" unfolding kept_ids_def by (intro sorted_wrt_filter) simp
  show less: "kept_ids keep_mask ! i < kept_ids keep_mask ! j \<longleftrightarrow> i < j"
    using s assms unfolding sorted_wrt_iff_nth_less by (metis less_asym nat_neq_iff)
  show "kept_ids keep_mask ! i = kept_ids keep_mask ! j \<longleftrightarrow> i = j"
    using new_id_kept(1) assms by metis
qed

lemma restricts_events:
  assumes "restricts keep_mask x x'"
  shows "length (xg_events x') = length (kept_ids keep_mask)"
    "j < length (kept_ids keep_mask) \<Longrightarrow> thread (xg_events x' ! j) = thread (xg_events x ! (kept_ids keep_mask ! j))"
    "j < length (kept_ids keep_mask) \<Longrightarrow> label (xg_events x' ! j) = label (xg_events x ! (kept_ids keep_mask ! j))"
  using assms by (auto simp: restricts_def copies_def)

lemma label_kinds:
  "label e = label f \<Longrightarrow> is_receive e = is_receive f \<and> is_send e = is_send f
     \<and> as_receive e = as_receive f \<and> as_send e = as_send f"
  by (simp add: event_kind_defs)

lemma restricts_labels:
  assumes "restricts keep_mask x x'" "j < length (kept_ids keep_mask)"
  shows "is_receive (xg_events x' ! j) = is_receive (xg_events x ! (kept_ids keep_mask ! j))"
    "is_send (xg_events x' ! j) = is_send (xg_events x ! (kept_ids keep_mask ! j))"
    "recv_of (xg_events x') j = recv_of (xg_events x) (kept_ids keep_mask ! j)"
    "send_of (xg_events x') j = send_of (xg_events x) (kept_ids keep_mask ! j)"
  using label_kinds [OF restricts_events(3) [OF assms]] by (auto simp: recv_of_def send_of_def)

lemma restricts_rf:
  assumes "restricts keep_mask x x'" "length keep_mask = length (xg_events x)" "wf_core x"
  shows "xg_rf x' j = Some (from_send i) \<longleftrightarrow> j < length (kept_ids keep_mask) \<and> i < length (kept_ids keep_mask)
    \<and> masked_rf keep_mask (xg_rf x) (kept_ids keep_mask ! j) = Some (from_send (kept_ids keep_mask ! i))" (is "?l \<longleftrightarrow> ?r")
proof -
  let ?K = "kept_ids keep_mask"
  have v: "k < length keep_mask" if "xg_rf x r = Some (from_send k)" for r k
    using wf_coreD(2) [OF assms(3)] that assms(2) by (auto simp: rf_valid_def)
  have "?l \<longleftrightarrow> j < length ?K \<and> remap_source keep_mask (xg_rf x (?K ! j)) = Some (from_send i)"
    using assms(1) by (auto simp: restricts_def)
  also have "\<dots> \<longleftrightarrow> j < length ?K \<and> (\<exists>k. xg_rf x (?K ! j) = Some (from_send k) \<and> keeps keep_mask k \<and> new_id keep_mask k = i)"
    using v by (auto simp: remap_source_def keeps_def split: option.splits ReadsFromSource.splits)
  also have "\<dots> \<longleftrightarrow> ?r"
    using keeps_new_id [of keep_mask] keeps_kept [of j keep_mask] keeps_kept [of i keep_mask] new_id_kept(1) [of i keep_mask]
    by (auto simp: masked_rf_def split: option.splits ReadsFromSource.splits if_splits)
  finally show ?thesis .
qed

lemma restricts_rf_bottom:
  assumes "restricts keep_mask x x'"
  shows "xg_rf x' j = Some bottom \<longleftrightarrow> j < length (kept_ids keep_mask) \<and> xg_rf x (kept_ids keep_mask ! j) = Some bottom"
  using assms by (auto simp: restricts_def remap_source_def split: option.splits ReadsFromSource.splits if_splits)

lemma masked_rf_Some:
  "masked_rf keep_mask m r = Some (from_send i) \<longleftrightarrow> keeps keep_mask r \<and> keeps keep_mask i \<and> m r = Some (from_send i)"
  by (auto simp: masked_rf_def split: option.splits ReadsFromSource.splits if_splits)

lemma restricts_porf:
  assumes "restricts keep_mask x x'" "length keep_mask = length (xg_events x)" "wf_core x"
    and "i < length (kept_ids keep_mask)" "j < length (kept_ids keep_mask)"
  shows "(i, j) \<in> porf x' \<longleftrightarrow> (kept_ids keep_mask ! i, kept_ids keep_mask ! j) \<in> masked_edges keep_mask x"
proof -
  have "(i, j) \<in> po_of (xg_events x') \<longleftrightarrow> (kept_ids keep_mask ! i, kept_ids keep_mask ! j) \<in> po_of (xg_events x)"
    using assms(4,5) restricts_events [OF assms(1)] kept_less [OF assms(4,5)] keeps_kept [OF assms(5)] assms(2)
    by (auto simp: po_of_def keeps_def)
  moreover have "(i, j) \<in> rf_of (xg_rf x') \<longleftrightarrow> (kept_ids keep_mask ! i, kept_ids keep_mask ! j) \<in> rf_of (xg_rf x)"
    using assms(4,5) keeps_kept [OF assms(4)] keeps_kept [OF assms(5)]
    by (simp add: rf_of_def restricts_rf [OF assms(1-3)] masked_rf_Some)
  ultimately show ?thesis
    using keeps_kept [OF assms(4)] keeps_kept [OF assms(5)] by (auto simp: causal_def masked_edges_def)
qed

lemma restricts_porf_trancl:
  assumes "restricts keep_mask x x'" "length keep_mask = length (xg_events x)" "wf_core x" "wf_core x'"
    and ij: "i < length (kept_ids keep_mask)" "j < length (kept_ids keep_mask)"
  shows "(i, j) \<in> (porf x')\<^sup>+ \<longleftrightarrow> (kept_ids keep_mask ! i, kept_ids keep_mask ! j) \<in> (masked_edges keep_mask x)\<^sup>+"
proof
  let ?K = "kept_ids keep_mask"
  note step = restricts_porf [OF assms(1-3)]
  have bound: "a < length ?K \<and> b < length ?K" if "(a, b) \<in> porf x'" for a b
    using causal_bounded [OF wf_coreD(2) [OF assms(4)]] that restricts_events(1) [OF assms(1)] by auto
  show "(?K ! i, ?K ! j) \<in> (masked_edges keep_mask x)\<^sup>+" if "(i, j) \<in> (porf x')\<^sup>+"
    using that
  proof (induction rule: trancl_induct)
    case (base b)
    with step bound show ?case by blast
  next
    case (step b c)
    with restricts_porf [OF assms(1-3)] bound have "(?K ! b, ?K ! c) \<in> masked_edges keep_mask x" by blast
    with step(3) show ?case by (rule trancl_into_trancl)
  qed
  have "(new_id keep_mask a, new_id keep_mask b) \<in> (porf x')\<^sup>+" if "(a, b) \<in> (masked_edges keep_mask x)\<^sup>+" for a b
    using that
  proof (induction rule: trancl_induct)
    case (base b)
    then have "keeps keep_mask a" "keeps keep_mask b" by (auto simp: masked_edges_def)
    with base step keeps_new_id show ?case by (metis r_into_trancl)
  next
    case (step b c)
    then have "keeps keep_mask b" "keeps keep_mask c" by (auto simp: masked_edges_def)
    with step(2) restricts_porf [OF assms(1-3)] keeps_new_id
    have "(new_id keep_mask b, new_id keep_mask c) \<in> porf x'" by metis
    with step(3) show ?case by (rule trancl_into_trancl)
  qed
  from this [of "?K ! i" "?K ! j"] show "(?K ! i, ?K ! j) \<in> (masked_edges keep_mask x)\<^sup>+ \<Longrightarrow> (i, j) \<in> (porf x')\<^sup>+"
    using new_id_kept(1) ij by simp
qed

section \<open>Transfer of the candidates\<close>

lemma restricts_accepted:
  assumes "restricts keep_mask x x'" "j < length (kept_ids keep_mask)" "i < length (kept_ids keep_mask)"
  shows "accepted (xg_events x') j i = accepted (xg_events x) (kept_ids keep_mask ! j) (kept_ids keep_mask ! i)"
    "same_channel (xg_events x') j i = same_channel (xg_events x) (kept_ids keep_mask ! j) (kept_ids keep_mask ! i)"
  using restricts_labels [OF assms(1,2)] restricts_labels [OF assms(1,3)]
    restricts_events(2) [OF assms(1,2)] restricts_events(2) [OF assms(1,3)]
  by (simp_all add: accepted_def same_channel_def)

lemma restricts_reads_ok:
  assumes "restricts keep_mask x x'" "length keep_mask = length (xg_events x)" "wf_core x" "wf_core x'"
    and ok: "reads_ok (\<lambda>_. True) (xg_events x) (xg_rf x)"
    and tol: "\<And>j. j < length (kept_ids keep_mask) \<Longrightarrow> tolerance j \<or> xg_rf x' j \<noteq> None"
  shows "reads_ok tolerance (xg_events x') (xg_rf x')"
proof -
  note rf = restricts_rf [OF assms(1-3)]
  have "read_ok (xg_events x') j s" if "xg_rf x' j = Some s" for j s
  proof (cases s)
    case bottom
    with that have "j < length (kept_ids keep_mask)" "xg_rf x (kept_ids keep_mask ! j) = Some bottom"
      by (auto simp: restricts_rf_bottom [OF assms(1)])
    with reads_okD(2) [OF ok] restricts_labels(3) [OF assms(1)] bottom show ?thesis by (fastforce simp: read_ok_def)
  next
    case (from_send i)
    with that rf have ji: "j < length (kept_ids keep_mask)" "i < length (kept_ids keep_mask)"
      "xg_rf x (kept_ids keep_mask ! j) = Some (from_send (kept_ids keep_mask ! i))" by (auto simp: masked_rf_Some)
    with reads_okD(2) [OF ok ji(3)] from_send show ?thesis
      by (simp add: read_ok_def restricts_accepted [OF assms(1)] restricts_labels [OF assms(1)] restricts_events(2) [OF assms(1)])
  qed
  moreover have "j = j'" if "xg_rf x' j = Some (from_send i)" "xg_rf x' j' = Some (from_send i)" for j j' i
    using that reads_okD(3) [OF ok] kept_less(2) unfolding rf masked_rf_Some by metis
  ultimately show ?thesis
    using tol wf_coreD(2) [OF assms(4)] restricts_events(1) [OF assms(1)] unfolding reads_ok_def by metis
qed

lemma restricts_candidate:
  assumes "restricts keep_mask x x'" "length keep_mask = length (xg_events x)" "wf_core x"
    and "keeps keep_mask recv" "i < length (kept_ids keep_mask)"
  shows "candidate (xg_events x') (xg_rf x') (new_id keep_mask recv) i \<longleftrightarrow>
    masked_candidate keep_mask (xg_events x) (xg_rf x) recv (kept_ids keep_mask ! i)"
proof -
  note rf = restricts_rf [OF assms(1-3)] and recv = keeps_new_id [OF assms(4)]
  have "(\<forall>j. xg_rf x' j = Some (from_send i) \<longrightarrow> j = new_id keep_mask recv) \<longleftrightarrow>
      (\<forall>r. masked_rf keep_mask (xg_rf x) r = Some (from_send (kept_ids keep_mask ! i)) \<longrightarrow> r = recv)" (is "?l \<longleftrightarrow> ?r")
  proof
    show ?r if ?l
    proof (intro allI impI)
      fix r assume r: "masked_rf keep_mask (xg_rf x) r = Some (from_send (kept_ids keep_mask ! i))"
      then have "keeps keep_mask r" by (simp add: masked_rf_Some)
      with that r rf assms(5) keeps_new_id recv show "r = recv" by metis
    qed
    show ?l if ?r using that rf assms(5) new_id_kept(1) by metis
  qed
  then show ?thesis
    using recv assms(5) restricts_events [OF assms(1)] keeps_kept [OF assms(5)]
    by (simp add: candidate_def masked_candidate_def compatible_def accepted_def restricts_labels [OF assms(1)] conj_ac)
qed

lemma restricts_fifo:
  assumes "restricts keep_mask x x'" "length keep_mask = length (xg_events x)" "wf_core x"
    and "keeps keep_mask recv" "i < length (kept_ids keep_mask)"
  shows "fifo_ok (xg_events x') ((xg_rf x')(new_id keep_mask recv \<mapsto> from_send i)) \<longleftrightarrow>
    masked_fifo keep_mask (xg_events x)
      ((masked_rf keep_mask (xg_rf x))(recv \<mapsto> from_send (kept_ids keep_mask ! i)))" (is "fifo_ok _ ?m' \<longleftrightarrow> masked_fifo _ _ ?m")
proof -
  let ?K = "kept_ids keep_mask"
  note rf = restricts_rf [OF assms(1-3)] and recv = keeps_new_id [OF assms(4)]
  have m: "?m' a = Some (from_send b) \<longleftrightarrow> ?m (?K ! a) = Some (from_send (?K ! b))"
    if "a < length ?K" "b < length ?K" for a b
    using that rf recv kept_less(2) assms(5) by (auto simp del: fun_upd_apply simp: fun_upd_def)
  have m'_dom: "a < length ?K" if "?m' a = Some (from_send b)" for a b
    using that rf recv by (auto split: if_splits)
  have m_dom: "keeps keep_mask a" if "?m a = Some (from_send b)" for a b
    using that assms(4) by (auto simp: masked_rf_Some split: if_splits)
  show ?thesis
  proof
    assume l: "fifo_ok (xg_events x') ?m'"
    show "masked_fifo keep_mask (xg_events x) ?m"
      unfolding masked_fifo_def
    proof (intro allI impI, elim conjE)
      fix a b r assume *: "a < b" "keeps keep_mask a" "keeps keep_mask b" "same_channel (xg_events x) a b"
        "?m r = Some (from_send b)" "accepted (xg_events x) r a"
      from *(2,3) m_dom [OF *(5)] obtain a' b' r' where
        ids: "a' < length ?K" "b' < length ?K" "r' < length ?K" "a = ?K ! a'" "b = ?K ! b'" "r = ?K ! r'"
        by (metis keepsE)
      with * m kept_less(1) restricts_accepted [OF assms(1)] l restricts_events(1) [OF assms(1)]
      obtain q where "q < r'" "?m' q = Some (from_send a')" unfolding fifo_ok_def by (metis (no_types))
      moreover from this(1) ids(3) have "q < length ?K" by (rule less_trans)
      ultimately have "?K ! q < r" "?m (?K ! q) = Some (from_send a)"
        using m [of q a'] ids kept_less(1) [of q keep_mask r'] by auto
      then show "\<exists>r'<r. ?m r' = Some (from_send a)" by blast
    qed
  next
    assume r: "masked_fifo keep_mask (xg_events x) ?m"
    show "fifo_ok (xg_events x') ?m'"
      unfolding fifo_ok_def
    proof (intro allI impI, elim conjE)
      fix a b r assume *: "a < b" "b < length (xg_events x')" "same_channel (xg_events x') a b"
        "?m' r = Some (from_send b)" "accepted (xg_events x') r a"
      then have ids: "a < length ?K" "b < length ?K" "r < length ?K"
        using m'_dom restricts_events(1) [OF assms(1)] by auto
      with * m kept_less(1) restricts_accepted [OF assms(1)] r keeps_kept
      obtain q where q: "q < ?K ! r" "?m q = Some (from_send (?K ! a))" unfolding masked_fifo_def by (metis (no_types))
      from m_dom [OF q(2)] obtain q' where "q' < length ?K" "q = ?K ! q'" by (metis keepsE)
      with q ids m kept_less(1) show "\<exists>r'<r. ?m' r' = Some (from_send a)" by metis
    qed
  qed
qed

lemma masked_candidate_send:
  "masked_candidate keep_mask evs m recv i \<Longrightarrow> is_receive (evs ! recv) \<Longrightarrow> i \<noteq> recv"
  using send_not_receive by (auto simp: masked_candidate_def compatible_def)

lemma restricts_sources:
  assumes x': "restricts keep_mask x x'" "length keep_mask = length (xg_events x)" "wf_core x" "wf_core x'"
    and ok: "reads_ok (\<lambda>_. True) (xg_events x) (xg_rf x)" "acyclic (porf x)"
    and recv: "keeps keep_mask recv" "is_receive (xg_events x ! recv)" "xg_rf x' (new_id keep_mask recv) \<noteq> None"
  shows "consistent_sources model True (xg_events x') (xg_rf x') (new_id keep_mask recv) =
    {i. i < length (kept_ids keep_mask) \<and> kept_ids keep_mask ! i \<in> masked_sources model keep_mask x recv}"
proof (rule set_eqI)
  fix i
  let ?K = "kept_ids keep_mask" and ?r = "new_id keep_mask recv"
  let ?c = "candidate (xg_events x') (xg_rf x') ?r i" and ?m = "(xg_rf x')(?r \<mapsto> from_send i)"
  note r = keeps_new_id [OF recv(1)]
  have rd: "reads_ok (rewire_tolerance True ?r) (xg_events x') (xg_rf x')"
    by (rule restricts_reads_ok [OF x' ok(1)])
      (use recv(3) in \<open>auto simp: rewire_tolerance_def allow_missing_reads_for_non_target_def\<close>)
  have acyc: "acyclic (porf x')"
    using acyclic_inv_image [OF ok(2)] restricts_causal [OF x'(1-3)] by (rule acyclic_subset)
  have ir: "is_receive (xg_events x' ! ?r)" "?r < length (xg_events x')"
    using restricts_labels(1) [OF x'(1) r(1)] recv(2) r restricts_events(1) [OF x'(1)] by simp_all
  have cand: "?c \<longleftrightarrow> i < length ?K \<and> masked_candidate keep_mask (xg_events x) (xg_rf x) recv (?K ! i)"
    using restricts_candidate [OF x'(1-3) recv(1)] restricts_events(1) [OF x'(1)] by (auto simp: candidate_def)
  have "consistent model (rewire_tolerance True ?r) (xg_events x') ?m \<longleftrightarrow>
      (recv, ?K ! i) \<notin> (masked_edges keep_mask x)\<^sup>+ \<and> (model = FifoP2P \<longrightarrow>
        masked_fifo keep_mask (xg_events x) ((masked_rf keep_mask (xg_rf x))(recv \<mapsto> from_send (?K ! i))))" if ?c
  proof -
    have i: "i < length ?K" "?r \<noteq> i" using that cand ir(1) send_not_receive by (auto simp: candidate_def)
    have "acyclic (causal (xg_events x') ?m) \<longleftrightarrow> (recv, ?K ! i) \<notin> (masked_edges keep_mask x)\<^sup>+"
      using rewire_acyclic_iff [OF acyc i(2)] restricts_porf_trancl [OF x' r(1) i(1)] r(2) by simp
    then show ?thesis
      using reads_ok_rewire [OF rd ir(2,1) that] restricts_fifo [OF x'(1-3) recv(1) i(1)]
      by (simp add: consistent_def async_consistent_def)
  qed
  with cand show "i \<in> consistent_sources model True (xg_events x') (xg_rf x') ?r \<longleftrightarrow>
      i \<in> {i. i < length ?K \<and> ?K ! i \<in> masked_sources model keep_mask x recv}"
    unfolding consistent_sources_def masked_sources_def mem_Collect_eq by blast
qed

section \<open>The restriction-based tiebreaker\<close>

lemma renumber_fold:
  assumes "n \<le> length keep_mask"
  shows "fold (renumber_step keep_mask recv) [0..<n] ([], None) =
    (filter (\<lambda>j. keep_mask ! j) [0..<n], if recv < n \<and> keep_mask ! recv then Some (new_id keep_mask recv) else None)"
  using assms by (induction n) (auto simp: renumber_step_def new_id_def less_Suc_eq)

lemma set_reads_from_source_preserves_None:
  "remap_rf_entry id_map e y = Inr z \<Longrightarrow> porf_cache y = None \<Longrightarrow> porf_cache z = None"
  using set_reads_from_source_cache
  by (auto simp: remap_rf_entry_def set_reads_from_def set_reads_from_bottom_def
      split: option.splits ReadsFromSource.splits)

lemma fold_result_invariant:
  "fold_result f xs s = Inr s' \<Longrightarrow> I s \<Longrightarrow> (\<And>x s s'. f x s = Inr s' \<Longrightarrow> I s \<Longrightarrow> I s') \<Longrightarrow> I s'"
  by (induction xs arbitrary: s) auto

lemma restrict_cache:
  assumes "restrict_from_keep_mask keep_mask x = Inr y"
  shows "porf_cache y = None"
proof -
  obtain kept id_map u v where
    u: "fold_result (\<lambda>i y. bind_result (xg_event x i) (\<lambda>e. append_event_for_bulk_build (thread e) (label e) y))
      kept (reserve_for_bulk_build (length (thread_state x)) empty_xg) = Inr u"
    and v: "fold_result (remap_rf_entry id_map) (rf_entries (reads_from (graph x))) u = Inr v"
    and y: "y = clear_worker_local_history (if known_acyclic x then mark_known_acyclic v else invalidate_known_acyclicity v)"
    using assms by (auto simp: restrict_from_keep_mask_def split: if_splits prod.splits)
  have "porf_cache u = None"
    by (rule fold_result_invariant [OF u]) (auto simp: reserve_for_bulk_build_def append_event_for_bulk_build_def Let_def)
  with v have "porf_cache v = None"
    by (rule fold_result_invariant) (rule set_reads_from_source_preserves_None)
  with y show ?thesis by (simp add: clear_worker_local_history_def)
qed

lemma tiebreaks_kept:
  assumes "restricts keep_mask x x'" "S' = {i. i < length (kept_ids keep_mask) \<and> kept_ids keep_mask ! i \<in> S}"
    and "\<And>i. i \<in> S \<Longrightarrow> keeps keep_mask i" "tiebreaks (xg_events x') S' res"
  shows "tiebreaks (xg_events x) S (map_result (\<lambda>i. kept_ids keep_mask ! i) res)"
    and "res = Inr i \<Longrightarrow> i < length (kept_ids keep_mask)"
proof -
  let ?K = "kept_ids keep_mask"
  have img: "j \<in> S \<longleftrightarrow> (\<exists>i\<in>S'. j = ?K ! i)" for j
    using assms(2,3) keeps_new_id [of keep_mask j] by (auto intro!: bexI [of _ "new_id keep_mask j"])
  have le: "(thread (xg_events x ! (?K ! i)), ?K ! i) \<le> (thread (xg_events x ! (?K ! j)), ?K ! j) \<longleftrightarrow>
      (thread (xg_events x' ! i), i) \<le> (thread (xg_events x' ! j), j)" if "i \<in> S'" "j \<in> S'" for i j
    using that assms(2) kept_less [of i keep_mask j] restricts_events(2) [OF assms(1)]
    by (auto simp: less_eq_prod_def le_less)
  show "tiebreaks (xg_events x) S (map_result (\<lambda>i. ?K ! i) res)"
  proof (cases "S' = {}")
    case True
    with img have "S = {}" by auto
    with True assms(4) show ?thesis by (simp add: tiebreaks_def)
  next
    case False
    with assms(4) obtain i where i: "i \<in> S'" "res = Inr i"
      "\<forall>j\<in>S'. (thread (xg_events x' ! i), i) \<le> (thread (xg_events x' ! j), j)" by (auto simp: tiebreaks_def)
    from i(1) img have "?K ! i \<in> S" by blast
    moreover have "\<forall>j\<in>S. (thread (xg_events x ! (?K ! i)), ?K ! i) \<le> (thread (xg_events x ! j), j)"
    proof
      fix j assume "j \<in> S"
      then obtain k where "k \<in> S'" "j = ?K ! k" using img by blast
      with i le show "(thread (xg_events x ! (?K ! i)), ?K ! i) \<le> (thread (xg_events x ! j), j)" by metis
    qed
    ultimately show ?thesis using i(2) unfolding tiebreaks_def by auto
  qed
  show "i < length ?K" if "res = Inr i" using assms(2,4) that by (auto simp: tiebreaks_def split: if_splits)
qed

lemma via_restriction_eq:
  assumes wf: "wf_xg x" "total_matchers (xg_events x)" "acyclic (porf x)" "blocking_receive x recv"
    and ok: "reads_ok (\<lambda>_. True) (xg_events x) (xg_rf x)"
    and mask: "length keep_mask = length (xg_events x)" "keeps keep_mask recv" "keeps keep_mask current"
    and rf: "xg_rf x recv = Some (from_send current)"
  shows "tiebreaks (xg_events x) (masked_sources model keep_mask x recv)
    (get_cons_tiebreaker_masked_via_restriction x keep_mask recv model)"
proof -
  let ?K = "kept_ids keep_mask" and ?r = "new_id keep_mask recv"
  have core: "wf_core x" using wf(1) by (simp add: wf_xg_def)
  obtain x' where x': "restrict_from_keep_mask keep_mask x = Inr x'" "wf_xg x'" "restricts keep_mask x x'"
    using restrict_from_keep_mask_wf [OF wf(1) mask(1)] by blast
  have core': "wf_core x'" using x'(2) by (simp add: wf_xg_def)
  note r = keeps_new_id [OF mask(2)] and b = blocking_receiveD [OF wf(4)]
  have ev: "length (xg_events x') = length ?K" by (rule restricts_events(1) [OF x'(3)])
  have tm: "total_matchers (xg_events x')"
    unfolding total_matchers_def
  proof (intro ballI allI impI)
    fix e rl v assume "e \<in> set (xg_events x')" "as_receive e = Some rl"
    then obtain j where "j < length ?K" "as_receive (xg_events x ! (?K ! j)) = Some rl"
      using label_kinds [OF restricts_events(3) [OF x'(3)]] ev by (metis in_set_conv_nth)
    moreover from this have "?K ! j < length (xg_events x)" using keeps_kept [of j keep_mask] mask(1) by (simp add: keeps_def)
    ultimately show "\<exists>b. matches rl v = Inr b"
      using total_matchers_recv [OF wf(2)] unfolding total_matcher_def by blast
  qed
  have rf': "xg_rf x' ?r = Some (from_send (new_id keep_mask current))"
    using restricts_rf [OF x'(3) mask(1) core] r rf mask keeps_new_id [OF mask(3)] by (simp add: masked_rf_Some)
  have rd: "reads_ok (rewire_tolerance True ?r) (xg_events x') (xg_rf x')"
    by (rule restricts_reads_ok [OF x'(3) mask(1) core core' ok])
      (use rf' in \<open>auto simp: rewire_tolerance_def allow_missing_reads_for_non_target_def\<close>)
  have acyc: "acyclic (porf x')"
    using acyclic_inv_image [OF wf(3)] restricts_causal [OF x'(3) mask(1) core] by (rule acyclic_subset)
  have "blocking_receive x' ?r"
    using wf(4) r ev restricts_labels [OF x'(3) r(1)]
    by (simp add: blocking_receive_def is_receive_id_def is_valid_event_id_def)
  from get_cons_tiebreaker_eq [OF x'(2) _ tm acyc this rd rf', of model] restrict_cache [OF x'(1)]
  have t: "tiebreaks (xg_events x') (consistent_sources model True (xg_events x') (xg_rf x') ?r)
      (get_cons_tiebreaker x' ?r model True)" by (simp add: cache_ok_def)
  note kept = tiebreaks_kept [OF x'(3) restricts_sources [OF x'(3) mask(1) core core' ok wf(3) mask(2) b(2)] _ t]
  have res: "get_cons_tiebreaker_masked_via_restriction x keep_mask recv model =
      map_result (\<lambda>i. ?K ! i) (get_cons_tiebreaker x' ?r model True)"
    using renumber_fold [of "length (xg_events x)" keep_mask recv] mask x'(1) kept(2) rf'
    by (cases "get_cons_tiebreaker x' ?r model True")
      (auto simp: get_cons_tiebreaker_masked_via_restriction_def xg_event_count_def keeps_def kept_ids_def
        masked_sources_def masked_candidate_def)
  show ?thesis unfolding res
    by (rule kept(1)) (use rf' in \<open>auto simp: masked_sources_def masked_candidate_def\<close>)
qed

end
