(* ===== verification/Masked_Porf.thy ===== *)
theory Masked_Porf
  imports Masked_View
begin

text \<open>
  \<^verbatim>\<open>MaskedPorfContext\<close> and \<^verbatim>\<open>get_cons_tiebreaker_masked\<close> of \<^verbatim>\<open>include/dpor/algo/dpor.hpp\<close>: the tables
  that emulate a restricted graph without building it, breadth-first reachability over them, the two
  FIFO clauses with the consumer table temporarily rebound, and the mask-based tiebreaker. A context is
  reused from query to query, so every operation starts from an arbitrary old context. The scratch
  vectors of the search are local values.
\<close>

record MaskedPorfContext =
  ctx_mask :: "bool list"
  kept_events_by_thread :: "EventId list list"
  kept_position_in_thread :: "nat option list"
  consumed_send_mask :: "bool list"
  rf_consumer :: "EventId option list"
  extra_rf_consumers :: "(EventId \<times> EventId) list"
  ctx_fifo :: bool
  fifo_consumer :: "EventId option list"
  channels :: "EventId list list"
  channel_keys :: "Channel list"
  active_channels :: nat

text \<open>The default-constructed context.\<close>

definition empty_context :: MaskedPorfContext where
  "empty_context = \<lparr>ctx_mask = [], kept_events_by_thread = [], kept_position_in_thread = [],
     consumed_send_mask = [], rf_consumer = [], extra_rf_consumers = [], ctx_fifo = False,
     fifo_consumer = [], channels = [], channel_keys = [], active_channels = 0\<rparr>"

section \<open>Rebinding the context\<close>

definition clear_context :: "bool list \<Rightarrow> nat \<Rightarrow> bool \<Rightarrow> MaskedPorfContext \<Rightarrow> MaskedPorfContext" where
  "clear_context keep_mask n build_fifo ctx =
     (let c = ctx\<lparr>ctx_mask := keep_mask, kept_position_in_thread := replicate n None,
                  consumed_send_mask := replicate n False, rf_consumer := replicate n None,
                  extra_rf_consumers := [],
                  kept_events_by_thread := map (\<lambda>_. []) (kept_events_by_thread ctx),
                  ctx_fifo := build_fifo\<rparr>
      in if build_fifo
         then c\<lparr>fifo_consumer := replicate n None, channel_keys := [], active_channels := 0\<rparr>
         else c)"

text \<open>
  A send goes to the bucket of its channel. A new channel takes the next bucket, which may hold stale
  ids of an earlier query and is cleared first.
\<close>

definition bucket_send :: "Channel \<Rightarrow> EventId \<Rightarrow> MaskedPorfContext \<Rightarrow> MaskedPorfContext" where
  "bucket_send key i ctx =
     (let found = length (takeWhile (\<lambda>k. k \<noteq> key) (channel_keys ctx))
      in if found < length (channel_keys ctx)
         then ctx\<lparr>channels := (channels ctx)[found := channels ctx ! found @ [i]]\<rparr>
         else let c = active_channels ctx;
                  chs = (if c \<ge> length (channels ctx) then channels ctx @ [[]] else channels ctx);
                  cleared = chs[c := []]
              in ctx\<lparr>active_channels := c + 1, channel_keys := channel_keys ctx @ [key],
                     channels := cleared[c := cleared ! c @ [i]]\<rparr>)"

definition place_event :: "EventId \<Rightarrow> ThreadId \<Rightarrow> MaskedPorfContext \<Rightarrow> MaskedPorfContext" where
  "place_event i t ctx =
     (let by_thread = grow_to t [] (kept_events_by_thread ctx)
      in ctx\<lparr>kept_position_in_thread := (kept_position_in_thread ctx)[i := Some (length (by_thread ! t))],
             kept_events_by_thread := by_thread[t := by_thread ! t @ [i]]\<rparr>)"

definition reset_event ::
    "'v ExplorationGraph \<Rightarrow> EventId \<Rightarrow> MaskedPorfContext \<Rightarrow> MaskedPorfContext result" where
  "reset_event x i ctx =
     (if \<not> keeps (ctx_mask ctx) i then Inr ctx
      else bind_result (xg_event x i) (\<lambda>e.
        let ctx1 = place_event i (thread e) ctx
        in if \<not> ctx_fifo ctx1 then Inr ctx1
           else case as_send e of
                  None \<Rightarrow> Inr ctx1
                | Some s \<Rightarrow> Inr (bucket_send (thread e, destination s) i ctx1)))"

text \<open>The consumer of a send: a flat slot for the first reader, a side list for any further one.\<close>

definition note_consumer :: "EventId \<Rightarrow> EventId \<Rightarrow> MaskedPorfContext \<Rightarrow> MaskedPorfContext" where
  "note_consumer send recv ctx =
     (let c = ctx\<lparr>consumed_send_mask := (consumed_send_mask ctx)[send := True]\<rparr>
      in if rf_consumer c ! send = None
         then c\<lparr>rf_consumer := (rf_consumer c)[send := Some recv]\<rparr>
         else c\<lparr>extra_rf_consumers := extra_rf_consumers c @ [(send, recv)]\<rparr>)"

definition note_fifo_consumer ::
    "'v ExplorationGraph \<Rightarrow> EventId \<Rightarrow> EventId \<Rightarrow> MaskedPorfContext \<Rightarrow> MaskedPorfContext result" where
  "note_fifo_consumer x send recv ctx =
     bind_result (xg_event x recv) (\<lambda>recv_evt.
     bind_result (xg_event x send) (\<lambda>send_evt.
       case (as_receive recv_evt, as_send send_evt) of
         (Some rl, Some s) \<Rightarrow>
           if destination s = thread recv_evt
           then map_result (\<lambda>ok. if ok then ctx\<lparr>fifo_consumer := (fifo_consumer ctx)[send := Some recv]\<rparr> else ctx)
                  (accepts rl (send_value s))
           else Inr ctx
       | _ \<Rightarrow> Inr ctx))"

definition reset_read ::
    "'v ExplorationGraph \<Rightarrow> EventId \<times> ReadsFromSource \<Rightarrow> MaskedPorfContext \<Rightarrow> MaskedPorfContext result" where
  "reset_read x rs ctx =
     (case snd rs of
        bottom \<Rightarrow> Inr ctx
      | from_send send \<Rightarrow>
          if \<not> keeps (ctx_mask ctx) (fst rs) \<or> \<not> keeps (ctx_mask ctx) send then Inr ctx
          else let ctx1 = note_consumer send (fst rs) ctx
               in if \<not> ctx_fifo ctx1 then Inr ctx1 else note_fifo_consumer x send (fst rs) ctx1)"

definition reset_context ::
    "'v ExplorationGraph \<Rightarrow> bool list \<Rightarrow> bool \<Rightarrow> MaskedPorfContext \<Rightarrow> MaskedPorfContext result" where
  "reset_context x keep_mask build_fifo ctx =
     (if length keep_mask \<noteq> xg_event_count x
      then Inl (internal_error ''keep mask size must match event count'')
      else bind_result
             (fold_result (reset_event x) [0..<xg_event_count x]
                (clear_context keep_mask (xg_event_count x) build_fifo ctx))
             (fold_result (reset_read x) (rf_entries (reads_from (graph x)))))"

definition send_is_unread :: "MaskedPorfContext \<Rightarrow> EventId \<Rightarrow> bool" where
  "send_is_unread ctx i \<longleftrightarrow> keeps (ctx_mask ctx) i \<and> \<not> consumed_send_mask ctx ! i"

section \<open>Reachability\<close>

text \<open>The ids \<^verbatim>\<open>append_successors\<close> appends: the next kept event of the thread, then the readers.\<close>

definition append_successors ::
    "'v ExplorationGraph \<Rightarrow> MaskedPorfContext \<Rightarrow> EventId \<Rightarrow> EventId list result" where
  "append_successors x ctx i =
     map_result (\<lambda>e.
       (if thread e < length (kept_events_by_thread ctx)
        then case kept_position_in_thread ctx ! i of
               None \<Rightarrow> []
             | Some p \<Rightarrow> let ids = kept_events_by_thread ctx ! thread e
                         in if p + 1 < length ids then [ids ! (p + 1)] else []
        else [])
       @ (case rf_consumer ctx ! i of None \<Rightarrow> [] | Some r \<Rightarrow> [r])
       @ map snd (filter (\<lambda>(s, r). s = i) (extra_rf_consumers ctx)))
     (xg_event x i)"

text \<open>
  The search loop over the pending vector; the part before the cursor is never read again. Ids outside
  the mark vector never occur in the tables and are skipped.
\<close>

function masked_search ::
    "'v ExplorationGraph \<Rightarrow> MaskedPorfContext \<Rightarrow> EventId list \<Rightarrow> bool list \<Rightarrow> bool list result" where
  "masked_search x ctx [] reachable = Inr reachable"
| "masked_search x ctx (c # pending) reachable =
     (if c \<ge> length reachable \<or> reachable ! c then masked_search x ctx pending reachable
      else bind_result (append_successors x ctx c) (\<lambda>ss.
        masked_search x ctx (pending @ ss) (reachable[c := True])))"
  by pat_completeness auto
termination
  by (relation "measures [\<lambda>(x, ctx, p, v). count_list v False, \<lambda>(x, ctx, p, v). length p]")
    (auto simp: count_False_update)

definition reachable_from ::
    "'v ExplorationGraph \<Rightarrow> MaskedPorfContext \<Rightarrow> EventId \<Rightarrow> bool list result" where
  "reachable_from x ctx i =
     (if \<not> is_valid_event_id (graph x) i
      then Inl (internal_error ''event id not found in masked PORF context'')
      else if \<not> keeps (ctx_mask ctx) i
      then Inl (internal_error ''masked PORF reachability requires a kept source event'')
      else bind_result (append_successors x ctx i) (\<lambda>ss.
        masked_search x ctx ss (replicate (xg_event_count x) False)))"

section \<open>FIFO clauses\<close>

definition accepts_send :: "'v ExplorationGraph \<Rightarrow> 'v ReceiveLabel \<Rightarrow> EventId \<Rightarrow> bool result" where
  "accepts_send x rl i =
     bind_result (xg_event x i) (\<lambda>e. case as_send e of None \<Rightarrow> Inr False | Some s \<Rightarrow> accepts rl (send_value s))"

definition clause_b_at ::
    "'v ExplorationGraph \<Rightarrow> EventId option list \<Rightarrow> EventId list \<Rightarrow> nat \<Rightarrow> bool result" where
  "clause_b_at x consumers channel later =
     (case consumers ! (channel ! later) of
        None \<Rightarrow> Inr False
      | Some consumer \<Rightarrow>
          bind_result (xg_event x consumer) (\<lambda>e.
            case as_receive e of
              None \<Rightarrow> Inr False
            | Some rl \<Rightarrow>
                any_result (\<lambda>i. if consumers ! i \<noteq> None then Inr False else accepts_send x rl i)
                  (take later channel)))"

definition clause_c_at ::
    "'v ExplorationGraph \<Rightarrow> EventId option list \<Rightarrow> EventId list \<Rightarrow> nat \<Rightarrow> bool result" where
  "clause_c_at x consumers channel later =
     (case consumers ! (channel ! later) of
        None \<Rightarrow> Inr False
      | Some earlier_receive \<Rightarrow>
          bind_result (xg_event x earlier_receive) (\<lambda>e.
            case as_receive e of
              None \<Rightarrow> Inr False
            | Some rl \<Rightarrow>
                any_result (\<lambda>i.
                    case consumers ! i of
                      None \<Rightarrow> Inr False
                    | Some later_receive \<Rightarrow>
                        bind_result (xg_event x later_receive) (\<lambda>e'.
                          if thread e' \<noteq> thread e \<or> index e' \<le> index e then Inr False
                          else accepts_send x rl i))
                  (take later channel)))"

definition any_channel ::
    "(EventId list \<Rightarrow> nat \<Rightarrow> bool result) \<Rightarrow> MaskedPorfContext \<Rightarrow> bool result" where
  "any_channel p ctx =
     any_result (\<lambda>channel. any_result (p channel) [0..<length channel]) (take (active_channels ctx) (channels ctx))"

definition fifo_clause_b_violated :: "'v ExplorationGraph \<Rightarrow> MaskedPorfContext \<Rightarrow> bool result" where
  "fifo_clause_b_violated x ctx = any_channel (clause_b_at x (fifo_consumer ctx)) ctx"

definition fifo_clause_c_violated :: "'v ExplorationGraph \<Rightarrow> MaskedPorfContext \<Rightarrow> bool result" where
  "fifo_clause_c_violated x ctx = any_channel (clause_c_at x (fifo_consumer ctx)) ctx"

text \<open>The consumer table is rebound for the test only; it is restored afterwards.\<close>

definition fifo_rewrite_violates ::
    "'v ExplorationGraph \<Rightarrow> MaskedPorfContext \<Rightarrow> EventId \<Rightarrow> EventId \<Rightarrow> EventId option \<Rightarrow> bool result" where
  "fifo_rewrite_violates x ctx recv candidate_send old_source =
     (let cleared = (case old_source of
                       Some i \<Rightarrow> if i \<noteq> candidate_send then (fifo_consumer ctx)[i := None] else fifo_consumer ctx
                     | None \<Rightarrow> fifo_consumer ctx);
          ctx1 = ctx\<lparr>fifo_consumer := cleared[candidate_send := Some recv]\<rparr>
      in bind_result (fifo_clause_b_violated x ctx1) (\<lambda>b.
           if b then Inr True else fifo_clause_c_violated x ctx1))"

section \<open>The masked tiebreaker\<close>

fun masked_tiebreaker_loop ::
    "'v ExplorationGraph \<Rightarrow> MaskedPorfContext \<Rightarrow> CommunicationModel \<Rightarrow> EventId \<Rightarrow> EventId \<Rightarrow> bool list
     \<Rightarrow> EventId list \<Rightarrow> EventId result" where
  "masked_tiebreaker_loop x ctx model recv current reachable [] =
     Inl (internal_error ''get_cons_tiebreaker invariant violated: no consistent source found'')"
| "masked_tiebreaker_loop x ctx model recv current reachable (c # cs) =
     (if reachable ! c then masked_tiebreaker_loop x ctx model recv current reachable cs
      else bind_result
             (if model = FifoP2P then fifo_rewrite_violates x ctx recv c (Some current) else Inr False)
             (\<lambda>violates. if violates then masked_tiebreaker_loop x ctx model recv current reachable cs else Inr c))"

definition get_cons_tiebreaker_masked ::
    "MaskedPorfContext \<Rightarrow> 'v ExplorationGraph \<Rightarrow> bool list \<Rightarrow> EventId \<Rightarrow> CommunicationModel \<Rightarrow> EventId result" where
  "get_cons_tiebreaker_masked ctx0 x keep_mask recv model =
     bind_result (reset_context x keep_mask (model = FifoP2P) ctx0) (\<lambda>ctx.
       if \<not> keeps (ctx_mask ctx) recv
       then Inl (internal_error ''get_cons_tiebreaker invariant violated: event missing from keep mask'')
       else
     bind_result (tiebreaker_target x recv) (\<lambda>(recv_evt, rl).
     bind_result (tiebreaker_source x recv) (\<lambda>current.
       if \<not> keeps (ctx_mask ctx) current
       then Inl (internal_error ''get_cons_tiebreaker invariant violated: receive source missing from keep mask'')
       else
     bind_result
       (sorted_candidates x recv_evt rl (filter (send_is_unread ctx) [0..<xg_event_count x]) current) (\<lambda>candidates.
     bind_result (reachable_from x ctx recv) (\<lambda>reachable.
       masked_tiebreaker_loop x ctx model recv current reachable candidates)))))"

end
