(* ===== verification/Masked_Reset.thy ===== *)
theory Masked_Reset
  imports Masked_Porf
begin

text \<open>
  What the tables of a masked context hold after a reset, whatever context it started from: the kept
  events per thread, the consumers of kept sends, and the channels in event order.
\<close>

definition kept_of_thread :: "bool list \<Rightarrow> 'v event list \<Rightarrow> nat \<Rightarrow> ThreadId \<Rightarrow> EventId list" where
  "kept_of_thread keep_mask evs k t = filter (\<lambda>i. keeps keep_mask i \<and> thread (evs ! i) = t) [0..<k]"

definition kept_of_channel :: "bool list \<Rightarrow> 'v event list \<Rightarrow> nat \<Rightarrow> Channel \<Rightarrow> EventId list" where
  "kept_of_channel keep_mask evs k key =
     filter (\<lambda>i. keeps keep_mask i \<and> is_send (evs ! i) \<and> channel_of evs i = key) [0..<k]"

definition positions_ok :: "bool list \<Rightarrow> 'v event list \<Rightarrow> nat \<Rightarrow> MaskedPorfContext \<Rightarrow> bool" where
  "positions_ok keep_mask evs k ctx \<longleftrightarrow>
     (\<forall>t. nth_or [] (kept_events_by_thread ctx) t = kept_of_thread keep_mask evs k t)
     \<and> length (kept_position_in_thread ctx) = length evs
     \<and> (\<forall>i<k. keeps keep_mask i \<longrightarrow> kept_position_in_thread ctx ! i =
          Some (length (kept_of_thread keep_mask evs i (thread (evs ! i)))))"

definition channels_ok :: "bool list \<Rightarrow> 'v event list \<Rightarrow> nat \<Rightarrow> MaskedPorfContext \<Rightarrow> bool" where
  "channels_ok keep_mask evs k ctx \<longleftrightarrow> active_channels ctx = length (channel_keys ctx)
     \<and> length (channel_keys ctx) \<le> length (channels ctx) \<and> distinct (channel_keys ctx)
     \<and> (\<forall>c<length (channel_keys ctx). channels ctx ! c = kept_of_channel keep_mask evs k (channel_keys ctx ! c))
     \<and> (\<forall>i<k. keeps keep_mask i \<and> is_send (evs ! i) \<longrightarrow> channel_of evs i \<in> set (channel_keys ctx))"

definition readers_ok ::
    "bool list \<Rightarrow> nat \<Rightarrow> bool \<Rightarrow> (EventId \<times> ReadsFromSource) list \<Rightarrow> MaskedPorfContext \<Rightarrow> bool" where
  "readers_ok keep_mask n build_fifo es ctx \<longleftrightarrow> length (consumed_send_mask ctx) = n \<and> length (rf_consumer ctx) = n
     \<and> (build_fifo \<longrightarrow> length (fifo_consumer ctx) = n) \<and> extra_rf_consumers ctx = []
     \<and> (\<forall>s<n. consumed_send_mask ctx ! s \<longleftrightarrow> (\<exists>r. (r, from_send s) \<in> set es \<and> keeps keep_mask r \<and> keeps keep_mask s))
     \<and> (\<forall>s<n. \<forall>r. rf_consumer ctx ! s = Some r \<longleftrightarrow> (r, from_send s) \<in> set es \<and> keeps keep_mask r \<and> keeps keep_mask s)
     \<and> (build_fifo \<longrightarrow> (\<forall>s<n. \<forall>r. fifo_consumer ctx ! s = Some r \<longleftrightarrow>
          (r, from_send s) \<in> set es \<and> keeps keep_mask r \<and> keeps keep_mask s))"

text \<open>The loop invariant of the event pass.\<close>

definition event_pass ::
    "bool list \<Rightarrow> bool \<Rightarrow> 'v event list \<Rightarrow> nat \<Rightarrow> MaskedPorfContext \<Rightarrow> bool" where
  "event_pass keep_mask build_fifo evs k ctx \<longleftrightarrow> ctx_mask ctx = keep_mask \<and> ctx_fifo ctx = build_fifo
     \<and> positions_ok keep_mask evs k ctx \<and> (build_fifo \<longrightarrow> channels_ok keep_mask evs k ctx)
     \<and> readers_ok keep_mask (length evs) build_fifo [] ctx"

lemma kept_of_Suc:
  "kept_of_thread keep_mask evs (Suc k) t =
     kept_of_thread keep_mask evs k t @ (if keeps keep_mask k \<and> thread (evs ! k) = t then [k] else [])"
  "kept_of_channel keep_mask evs (Suc k) key = kept_of_channel keep_mask evs k key @
     (if keeps keep_mask k \<and> is_send (evs ! k) \<and> channel_of evs k = key then [k] else [])"
  by (simp_all add: kept_of_thread_def kept_of_channel_def)

lemma event_pass_clear:
  "length keep_mask = length evs \<Longrightarrow>
     event_pass keep_mask build_fifo evs 0 (clear_context keep_mask (length evs) build_fifo ctx)"
  by (auto simp: event_pass_def clear_context_def Let_def positions_ok_def channels_ok_def readers_ok_def
      kept_of_thread_def nth_or_def)

lemma positions_ok_step:
  assumes "positions_ok keep_mask evs k ctx" "k < length evs" "keeps keep_mask k"
  shows "positions_ok keep_mask evs (Suc k) (place_event k (thread (evs ! k)) ctx)"
proof -
  define t where "t = thread (evs ! k)"
  define by_thread where "by_thread = grow_to t [] (kept_events_by_thread ctx)"
  have bt: "nth_or [] by_thread u = kept_of_thread keep_mask evs k u" for u
    using assms(1) by (simp add: positions_ok_def by_thread_def)
  have t: "t < length by_thread" by (simp add: by_thread_def)
  with bt [of t] have bt': "by_thread ! t = kept_of_thread keep_mask evs k t" by (simp add: nth_or_def)
  have "nth_or [] (by_thread[t := by_thread ! t @ [k]]) u = kept_of_thread keep_mask evs (Suc k) u" for u
    unfolding nth_or_update [OF t] bt bt' kept_of_Suc using assms(3) by (auto simp: t_def)
  moreover have "place_event k (thread (evs ! k)) ctx =
      ctx\<lparr>kept_position_in_thread := (kept_position_in_thread ctx)[k := Some (length (by_thread ! t))],
          kept_events_by_thread := by_thread[t := by_thread ! t @ [k]]\<rparr>"
    by (simp only: place_event_def Let_def t_def by_thread_def)
  moreover have "length (by_thread ! t) = length (kept_of_thread keep_mask evs k (thread (evs ! k)))"
    unfolding t_def [symmetric] bt' ..
  ultimately show ?thesis
    using assms(1,2) unfolding positions_ok_def by (auto simp: less_Suc_eq nth_list_update)
qed

lemma takeWhile_key:
  "length (takeWhile (\<lambda>k. k \<noteq> key) ks) < length ks \<longleftrightarrow> key \<in> set ks"
  "key \<in> set ks \<Longrightarrow> ks ! length (takeWhile (\<lambda>k. k \<noteq> key) ks) = key"
  by (induction ks) auto

lemma channels_ok_skip:
  "channels_ok keep_mask evs k ctx \<Longrightarrow> \<not> (keeps keep_mask k \<and> is_send (evs ! k)) \<Longrightarrow> channels_ok keep_mask evs (Suc k) ctx"
  by (auto simp: channels_ok_def kept_of_Suc less_Suc_eq)

lemma channels_ok_step:
  assumes ok: "channels_ok keep_mask evs k ctx" and k: "keeps keep_mask k" "is_send (evs ! k)"
    and key: "key = channel_of evs k"
  shows "channels_ok keep_mask evs (Suc k) (bucket_send key k ctx)"
proof -
  let ?ks = "channel_keys ctx"
  define f where "f = length (takeWhile (\<lambda>k. k \<noteq> key) ?ks)"
  note o = ok [unfolded channels_ok_def]
  show ?thesis
  proof (cases "key \<in> set ?ks")
    case True
    then have f: "f < length ?ks" "?ks ! f = key"
      using takeWhile_key [of key ?ks] by (simp_all add: f_def)
    then have eq: "bucket_send key k ctx = ctx\<lparr>channels := (channels ctx)[f := channels ctx ! f @ [k]]\<rparr>"
      by (simp add: bucket_send_def f_def Let_def)
    have idx: "channel_of evs k = ?ks ! c \<longleftrightarrow> f = c" if "c < length ?ks" for c
      using that o f key nth_eq_iff_index_eq [of ?ks f c] by auto
    have "(channels ctx)[f := channels ctx ! f @ [k]] ! c = kept_of_channel keep_mask evs (Suc k) (?ks ! c)"
      if "c < length ?ks" for c
      using that o f k key idx [OF that] by (auto simp: kept_of_Suc nth_list_update)
    with o k key True show ?thesis unfolding eq channels_ok_def by (auto simp: less_Suc_eq)
  next
    case False
    then have "\<not> f < length ?ks" using takeWhile_key [of key ?ks] by (simp add: f_def)
    then have eq: "bucket_send key k ctx = ctx\<lparr>active_channels := length ?ks + 1, channel_keys := ?ks @ [key],
        channels := (if length ?ks \<ge> length (channels ctx) then channels ctx @ [[]] else channels ctx)[length ?ks := [k]]\<rparr>"
      using o by (simp add: bucket_send_def f_def Let_def)
    have none: "kept_of_channel keep_mask evs k key = []"
      using o False by (auto simp: kept_of_channel_def filter_empty_conv)
    have other: "?ks ! c \<noteq> key" if "c < length ?ks" for c using False that nth_mem by metis
    have "channels ctx ! c = kept_of_channel keep_mask evs (Suc k) (?ks ! c)" if "c < length ?ks" for c
      using o that other [OF that] key by (simp add: kept_of_Suc)
    moreover have "kept_of_channel keep_mask evs (Suc k) key = [k]" using none k key by (simp add: kept_of_Suc)
    ultimately show ?thesis
      using o k key False unfolding eq channels_ok_def
      by (auto simp: nth_append nth_list_update less_Suc_eq)
  qed
qed

lemma bucket_send_fields [simp]:
  "ctx_mask (bucket_send key i ctx) = ctx_mask ctx" "ctx_fifo (bucket_send key i ctx) = ctx_fifo ctx"
  "kept_events_by_thread (bucket_send key i ctx) = kept_events_by_thread ctx"
  "kept_position_in_thread (bucket_send key i ctx) = kept_position_in_thread ctx"
  "consumed_send_mask (bucket_send key i ctx) = consumed_send_mask ctx"
  "rf_consumer (bucket_send key i ctx) = rf_consumer ctx"
  "extra_rf_consumers (bucket_send key i ctx) = extra_rf_consumers ctx"
  "fifo_consumer (bucket_send key i ctx) = fifo_consumer ctx"
  by (simp_all add: bucket_send_def Let_def)

lemma place_event_fields [simp]:
  "ctx_mask (place_event i t ctx) = ctx_mask ctx" "ctx_fifo (place_event i t ctx) = ctx_fifo ctx"
  "consumed_send_mask (place_event i t ctx) = consumed_send_mask ctx" "rf_consumer (place_event i t ctx) = rf_consumer ctx"
  "extra_rf_consumers (place_event i t ctx) = extra_rf_consumers ctx"
  "fifo_consumer (place_event i t ctx) = fifo_consumer ctx" "channels (place_event i t ctx) = channels ctx"
  "channel_keys (place_event i t ctx) = channel_keys ctx" "active_channels (place_event i t ctx) = active_channels ctx"
  by (simp_all add: place_event_def Let_def)

lemma reset_event_step:
  assumes inv: "event_pass keep_mask build_fifo (xg_events x) k ctx" and k: "k < length (xg_events x)"
  shows "\<exists>ctx'. reset_event x k ctx = Inr ctx' \<and> event_pass keep_mask build_fifo (xg_events x) (Suc k) ctx'"
proof (cases "keeps keep_mask k")
  case False
  then have "positions_ok keep_mask (xg_events x) (Suc k) ctx"
    using inv by (auto simp: event_pass_def positions_ok_def kept_of_Suc less_Suc_eq)
  with False inv show ?thesis by (simp add: event_pass_def reset_event_def channels_ok_skip)
next
  case True
  let ?e = "xg_events x ! k"
  define c1 where "c1 = place_event k (thread ?e) ctx"
  have p: "positions_ok keep_mask (xg_events x) (Suc k) c1"
    unfolding c1_def by (rule positions_ok_step) (use inv k True in \<open>auto simp: event_pass_def\<close>)
  have c: "build_fifo \<Longrightarrow> channels_ok keep_mask (xg_events x) k c1"
    using inv by (simp add: event_pass_def channels_ok_def c1_def)
  have same: "ctx_mask c1 = keep_mask" "ctx_fifo c1 = build_fifo" "readers_ok keep_mask (length (xg_events x)) build_fifo [] c1"
    using inv by (simp_all add: event_pass_def readers_ok_def c1_def)
  have eq: "reset_event x k ctx = (if \<not> build_fifo then Inr c1 else case as_send ?e of None \<Rightarrow> Inr c1
      | Some s \<Rightarrow> Inr (bucket_send (thread ?e, destination s) k c1))"
    unfolding c1_def using inv True k by (simp add: reset_event_def event_pass_def xg_event_eq Let_def)
  show ?thesis
  proof (cases "build_fifo \<and> is_send ?e")
    case False
    then have "as_send ?e = None \<or> \<not> build_fifo" by auto
    with eq have "reset_event x k ctx = Inr c1" by (elim disjE) (simp_all del: as_send_None)
    with p c same False show ?thesis by (auto simp: event_pass_def channels_ok_skip)
  next
    case send: True
    then obtain s where s: "as_send ?e = Some s" by (metis is_send_as_send option.exhaust)
    then have "(thread ?e, destination s) = channel_of (xg_events x) k" by (simp add: channel_of_def send_of_def)
    with c send True have "channels_ok keep_mask (xg_events x) (Suc k) (bucket_send (thread ?e, destination s) k c1)"
      by (intro channels_ok_step) auto
    with eq send s p same show ?thesis by (simp add: event_pass_def positions_ok_def readers_ok_def)
  qed
qed

section \<open>The pass over the reads-from relation\<close>

lemma note_consumer_fields [simp]:
  "ctx_mask (note_consumer s r ctx) = ctx_mask ctx" "ctx_fifo (note_consumer s r ctx) = ctx_fifo ctx"
  "kept_events_by_thread (note_consumer s r ctx) = kept_events_by_thread ctx"
  "kept_position_in_thread (note_consumer s r ctx) = kept_position_in_thread ctx"
  "channels (note_consumer s r ctx) = channels ctx" "channel_keys (note_consumer s r ctx) = channel_keys ctx"
  "active_channels (note_consumer s r ctx) = active_channels ctx"
  "fifo_consumer (note_consumer s r ctx) = fifo_consumer ctx"
  by (simp_all add: note_consumer_def Let_def)

lemma note_fifo_consumer_eq:
  assumes "reads_ok tolerance (xg_events x) (xg_rf x)" "xg_rf x r = Some (from_send s)"
  shows "note_fifo_consumer x s r ctx = Inr (ctx\<lparr>fifo_consumer := (fifo_consumer ctx)[s := Some r]\<rparr>)"
proof -
  have ids: "r < length (xg_events x)" "s < length (xg_events x)" "is_receive (xg_events x ! r)" "is_send (xg_events x ! s)"
    using reads_okD(1) [OF assms(1)] assms(2) by (auto simp: rf_valid_def)
  then obtain rl sl where l: "as_receive (xg_events x ! r) = Some rl" "as_send (xg_events x ! s) = Some sl"
    by (metis is_receive_as_receive is_send_as_send option.exhaust)
  moreover have "destination sl = thread (xg_events x ! r)" "matches rl (send_value sl) = Inr True"
    using reads_okD(2) [OF assms] l by (auto simp: read_ok_def accepted_def send_of_def recv_of_def)
  ultimately show ?thesis using ids by (simp add: note_fifo_consumer_def xg_event_eq accepts_def)
qed

lemma readers_ok_skip:
  "readers_ok keep_mask n b es ctx \<Longrightarrow> snd e = bottom \<or> \<not> keeps keep_mask (fst e) \<or> (\<forall>s. snd e = from_send s \<longrightarrow> \<not> keeps keep_mask s)
     \<Longrightarrow> readers_ok keep_mask n b (es @ [e]) ctx"
  by (cases e) (auto simp: readers_ok_def)

lemma readers_ok_step:
  assumes ok: "readers_ok keep_mask n b es ctx" and s: "s < n" "keeps keep_mask r" "keeps keep_mask s"
    and fresh: "\<And>r'. (r', from_send s) \<notin> set es"
  shows "readers_ok keep_mask n b (es @ [(r, from_send s)])
    (if b then (note_consumer s r ctx)\<lparr>fifo_consumer := (fifo_consumer ctx)[s := Some r]\<rparr> else note_consumer s r ctx)"
proof -
  from ok s(1) fresh have "rf_consumer ctx ! s \<noteq> Some r'" for r' by (simp add: readers_ok_def)
  then have "rf_consumer ctx ! s = None" by blast
  then have eq: "note_consumer s r ctx = ctx\<lparr>consumed_send_mask := (consumed_send_mask ctx)[s := True],
      rf_consumer := (rf_consumer ctx)[s := Some r]\<rparr>" by (simp add: note_consumer_def)
  show ?thesis
    using ok s fresh unfolding eq readers_ok_def by (cases b) (auto simp: nth_list_update)
qed

definition context_of ::
    "'v ExplorationGraph \<Rightarrow> bool list \<Rightarrow> bool \<Rightarrow> (EventId \<times> ReadsFromSource) list \<Rightarrow> MaskedPorfContext \<Rightarrow> bool" where
  "context_of x keep_mask build_fifo es ctx \<longleftrightarrow> ctx_mask ctx = keep_mask \<and> ctx_fifo ctx = build_fifo
     \<and> positions_ok keep_mask (xg_events x) (length (xg_events x)) ctx
     \<and> (build_fifo \<longrightarrow> channels_ok keep_mask (xg_events x) (length (xg_events x)) ctx)
     \<and> readers_ok keep_mask (length (xg_events x)) build_fifo es ctx"

lemma reset_read_step:
  assumes ok: "reads_ok tolerance (xg_events x) (xg_rf x)"
    and es: "rf_entries (reads_from (graph x)) = es @ e # es'" and inv: "context_of x keep_mask b es ctx"
  shows "\<exists>ctx'. reset_read x e ctx = Inr ctx' \<and> context_of x keep_mask b (es @ [e]) ctx'"
proof (cases "\<exists>s. snd e = from_send s \<and> keeps keep_mask (fst e) \<and> keeps keep_mask s")
  case False
  then have "reset_read x e ctx = Inr ctx"
    using inv by (cases "snd e") (auto simp: reset_read_def context_of_def)
  moreover have "readers_ok keep_mask (length (xg_events x)) b (es @ [e]) ctx"
    by (rule readers_ok_skip) (use inv False in \<open>cases "snd e"; auto simp: context_of_def\<close>)+
  ultimately show ?thesis using inv by (simp add: context_of_def)
next
  case True
  then obtain r s where e: "e = (r, from_send s)" and k: "keeps keep_mask r" "keeps keep_mask s" by (cases e) auto
  have "set (rf_entries (reads_from (graph x))) = {(k, a). xg_rf x k = Some a}" by (rule set_rf_entries)
  then have mem: "(r', a) \<in> set (es @ e # es') \<longleftrightarrow> xg_rf x r' = Some a" for r' a unfolding es by auto
  then have rf: "xg_rf x r = Some (from_send s)" using e by auto
  then have s: "s < length (xg_events x)" using reads_okD(1) [OF ok] by (auto simp: rf_valid_def)
  have "(r', from_send s) \<notin> set es" for r'
  proof
    assume r': "(r', from_send s) \<in> set es"
    with mem [of r' "from_send s"] have "xg_rf x r' = Some (from_send s)" by simp
    with reads_okD(3) [OF ok] rf have "r' = r" by blast
    with r' e sorted_rf_entries [of "reads_from (graph x)"] show False
      unfolding es by (auto simp: sorted_wrt_append)
  qed
  note ro = readers_ok_step [OF _ s k this, of b ctx]
  have m: "ctx_mask ctx = keep_mask" "ctx_fifo ctx = b" using inv by (simp_all add: context_of_def)
  let ?c = "if b then (note_consumer s r ctx)\<lparr>fifo_consumer := (fifo_consumer ctx)[s := Some r]\<rparr> else note_consumer s r ctx"
  have "reset_read x e ctx = Inr ?c"
    using m k by (auto simp: reset_read_def e note_fifo_consumer_eq [OF ok rf])
  moreover have "context_of x keep_mask b (es @ [e]) ?c"
    using inv ro by (auto simp: context_of_def e positions_ok_def channels_ok_def)
  ultimately show ?thesis by blast
qed

lemma reset_context_eq:
  assumes "reads_ok tolerance (xg_events x) (xg_rf x)" "length keep_mask = length (xg_events x)"
  shows "\<exists>ctx. reset_context x keep_mask b ctx0 = Inr ctx
    \<and> context_of x keep_mask b (rf_entries (reads_from (graph x))) ctx"
proof -
  let ?n = "length (xg_events x)"
  have "\<exists>ctx. fold_result (reset_event x) [0..<?n] (clear_context keep_mask ?n b ctx0) = Inr ctx
      \<and> event_pass keep_mask b (xg_events x) (length [0..<?n]) ctx"
  proof (rule fold_result_rule)
    show "event_pass keep_mask b (xg_events x) (length []) (clear_context keep_mask ?n b ctx0)"
      using event_pass_clear [OF assms(2)] by simp
  next
    fix ys k zs ctx assume *: "[0..<?n] = ys @ k # zs" "event_pass keep_mask b (xg_events x) (length ys) ctx"
    from arg_cong [OF *(1), of length] have l: "length ys < ?n" by simp
    from arg_cong [OF *(1), of "\<lambda>l. l ! length ys"] l have "k = length ys" by simp
    with l *(2) reset_event_step show "\<exists>ctx'. reset_event x k ctx = Inr ctx' \<and> event_pass keep_mask b (xg_events x) (length (ys @ [k])) ctx'"
      by fastforce
  qed
  then obtain ctx1 where 1: "fold_result (reset_event x) [0..<?n] (clear_context keep_mask ?n b ctx0) = Inr ctx1"
    "context_of x keep_mask b [] ctx1" by (auto simp: event_pass_def context_of_def)
  have "\<exists>ctx. fold_result (reset_read x) (rf_entries (reads_from (graph x))) ctx1 = Inr ctx
      \<and> context_of x keep_mask b (rf_entries (reads_from (graph x))) ctx"
    by (rule fold_result_rule [of "context_of x keep_mask b"]) (rule 1(2), rule reset_read_step [OF assms(1)])
  with 1(1) assms(2) show ?thesis by (auto simp: reset_context_def xg_event_count_def)
qed

lemma context_readers:
  assumes "context_of x keep_mask b (rf_entries (reads_from (graph x))) ctx" "s < length (xg_events x)"
  shows "consumed_send_mask ctx ! s \<longleftrightarrow> (\<exists>r. masked_rf keep_mask (xg_rf x) r = Some (from_send s))"
    "rf_consumer ctx ! s = Some r \<longleftrightarrow> masked_rf keep_mask (xg_rf x) r = Some (from_send s)"
    "b \<Longrightarrow> fifo_consumer ctx ! s = Some r \<longleftrightarrow> masked_rf keep_mask (xg_rf x) r = Some (from_send s)"
  using assms by (auto simp: context_of_def readers_ok_def masked_rf_Some set_rf_entries)

end
