(* ===== verification/Masked_Correct.thy ===== *)
theory Masked_Correct
  imports Masked_Reset
begin

text \<open>
  Correctness of the mask-based tiebreaker: the search over the tables of a freshly reset context computes
  reachability between kept events, the clause checks decide the FIFO obligations of the masked view, and
  so the mask-based tiebreaker returns what the restriction-based one returns, whatever context it reuses.
\<close>

section \<open>Successors\<close>

definition masked_next :: "bool list \<Rightarrow> 'v ExplorationGraph \<Rightarrow> (EventId \<times> EventId) set" where
  "masked_next keep_mask x =
     {(a, b). \<exists>p. let ids = kept_of_thread keep_mask (xg_events x) (length (xg_events x)) (thread (xg_events x ! a))
               in Suc p < length ids \<and> ids ! p = a \<and> ids ! Suc p = b}
     \<union> {(a, b). masked_rf keep_mask (xg_rf x) b = Some (from_send a)}"

lemma kept_of_thread_split:
  assumes "i < n" "keeps keep_mask i" "thread (evs ! i) = t"
  shows "kept_of_thread keep_mask evs n t = kept_of_thread keep_mask evs i t @ i #
    filter (\<lambda>j. keeps keep_mask j \<and> thread (evs ! j) = t) [Suc i..<n]"
proof -
  have "[0..<n] = [0..<i] @ i # [Suc i..<n]"
    using assms(1) upt_add_eq_append [of 0 i "n - i"] upt_conv_Cons [of i n] by simp
  with assms(2,3) show ?thesis by (simp add: kept_of_thread_def)
qed

lemma kept_of_thread_nth:
  assumes "i < n" "keeps keep_mask i" "thread (evs ! i) = t"
  shows "length (kept_of_thread keep_mask evs i t) < length (kept_of_thread keep_mask evs n t)"
    "kept_of_thread keep_mask evs n t ! length (kept_of_thread keep_mask evs i t) = i"
  unfolding kept_of_thread_split [OF assms] by simp_all

lemma sorted_kept_of_thread: "sorted_wrt (<) (kept_of_thread keep_mask evs n t)"
  unfolding kept_of_thread_def by (intro sorted_wrt_filter) simp

lemma nth_kept_of_thread:
  "p < length (kept_of_thread keep_mask evs n t) \<Longrightarrow> keeps keep_mask (kept_of_thread keep_mask evs n t ! p)
     \<and> thread (evs ! (kept_of_thread keep_mask evs n t ! p)) = t \<and> kept_of_thread keep_mask evs n t ! p < n"
  using nth_mem [of p "kept_of_thread keep_mask evs n t"] by (auto simp: kept_of_thread_def)

lemma append_successors_eq:
  assumes ctx: "context_of x keep_mask b (rf_entries (reads_from (graph x))) ctx"
    and i: "i < length (xg_events x)" "keeps keep_mask i"
  shows "\<exists>ss. append_successors x ctx i = Inr ss \<and> set ss = masked_next keep_mask x `` {i}"
proof -
  define t where "t = thread (xg_events x ! i)"
  define L where "L = kept_of_thread keep_mask (xg_events x) (length (xg_events x)) t"
  define p where "p = length (kept_of_thread keep_mask (xg_events x) i t)"
  have p: "p < length L" "L ! p = i"
    using kept_of_thread_nth [OF i, of "xg_events x" t] by (simp_all add: t_def L_def p_def)
  have tab: "nth_or [] (kept_events_by_thread ctx) t = L" "kept_position_in_thread ctx ! i = Some p"
    "extra_rf_consumers ctx = []"
    using ctx i by (auto simp: context_of_def positions_ok_def readers_ok_def t_def L_def p_def)
  have t: "t < length (kept_events_by_thread ctx)" "kept_events_by_thread ctx ! t = L"
    using tab(1) p(1) by (auto simp: nth_or_def split: if_splits)
  have "distinct L" using sorted_kept_of_thread strict_sorted_iff unfolding L_def by blast
  with p have uniq: "q < length L \<and> L ! q = i \<longleftrightarrow> q = p" for q by (auto simp: nth_eq_iff_index_eq)
  have "append_successors x ctx i = Inr ((if p + 1 < length L then [L ! (p + 1)] else [])
      @ (case rf_consumer ctx ! i of None \<Rightarrow> [] | Some r \<Rightarrow> [r]))"
    using t tab i by (simp add: append_successors_def xg_event_eq t_def)
  moreover have "set (case rf_consumer ctx ! i of None \<Rightarrow> [] | Some r \<Rightarrow> [r]) =
      {r. masked_rf keep_mask (xg_rf x) r = Some (from_send i)}"
    using context_readers(2) [OF ctx i(1), symmetric] by (cases "rf_consumer ctx ! i") auto
  moreover have "set (if p + 1 < length L then [L ! (p + 1)] else []) =
      {b. \<exists>q. Suc q < length L \<and> L ! q = i \<and> L ! Suc q = b}"
  proof -
    have "Suc q < length L \<and> L ! q = i \<longleftrightarrow> q = p \<and> Suc p < length L" for q using uniq [of q] by auto
    then have "(\<exists>q. Suc q < length L \<and> L ! q = i \<and> L ! Suc q = b) \<longleftrightarrow> Suc p < length L \<and> L ! Suc p = b" for b by metis
    then show ?thesis by auto
  qed
  moreover have "masked_next keep_mask x `` {i} = {b. \<exists>q. Suc q < length L \<and> L ! q = i \<and> L ! Suc q = b}
      \<union> {r. masked_rf keep_mask (xg_rf x) r = Some (from_send i)}"
    by (auto simp: masked_next_def Let_def L_def t_def)
  ultimately show ?thesis by simp
qed

lemma masked_next_edges: "masked_next keep_mask x \<subseteq> masked_edges keep_mask x"
proof
  fix e assume "e \<in> masked_next keep_mask x"
  then consider a b p where "e = (a, b)" "Suc p < length (kept_of_thread keep_mask (xg_events x) (length (xg_events x)) (thread (xg_events x ! a)))"
      "kept_of_thread keep_mask (xg_events x) (length (xg_events x)) (thread (xg_events x ! a)) ! p = a"
      "kept_of_thread keep_mask (xg_events x) (length (xg_events x)) (thread (xg_events x ! a)) ! Suc p = b"
    | a b where "e = (a, b)" "masked_rf keep_mask (xg_rf x) b = Some (from_send a)"
    by (auto simp: masked_next_def Let_def)
  then show "e \<in> masked_edges keep_mask x"
  proof cases
    case 1
    define L where "L = kept_of_thread keep_mask (xg_events x) (length (xg_events x)) (thread (xg_events x ! a))"
    have "sorted_wrt (<) L" unfolding L_def by (rule sorted_kept_of_thread)
    with 1 have "a < b" unfolding L_def [symmetric] by (metis lessI sorted_wrt_nth_less)
    moreover from 1 have "keeps keep_mask a" "keeps keep_mask b" "thread (xg_events x ! b) = thread (xg_events x ! a)"
      "b < length (xg_events x)"
      using nth_kept_of_thread [of p keep_mask "xg_events x" "length (xg_events x)" "thread (xg_events x ! a)"]
        nth_kept_of_thread [of "Suc p" keep_mask "xg_events x" "length (xg_events x)" "thread (xg_events x ! a)"] by auto
    ultimately show ?thesis using 1(1) by (simp add: masked_edges_def causal_def po_of_def)
  next
    case 2
    then show ?thesis by (auto simp: masked_rf_Some masked_edges_def causal_def rf_of_def)
  qed
qed

lemma masked_po_path:
  assumes "q < length (kept_of_thread keep_mask (xg_events x) (length (xg_events x)) t)" "p < q"
  shows "(kept_of_thread keep_mask (xg_events x) (length (xg_events x)) t ! p,
    kept_of_thread keep_mask (xg_events x) (length (xg_events x)) t ! q) \<in> (masked_next keep_mask x)\<^sup>+"
  using assms
proof (induction q)
  case (Suc q)
  let ?L = "kept_of_thread keep_mask (xg_events x) (length (xg_events x)) t"
  have "thread (xg_events x ! (?L ! q)) = t" using nth_kept_of_thread Suc.prems by (meson Suc_lessD)
  with Suc.prems have step: "(?L ! q, ?L ! Suc q) \<in> masked_next keep_mask x"
    by (auto simp: masked_next_def Let_def)
  show ?case
  proof (cases "p = q")
    case True
    with step show ?thesis by (simp add: r_into_trancl)
  next
    case False
    with Suc have "(?L ! p, ?L ! q) \<in> (masked_next keep_mask x)\<^sup>+" by auto
    then show ?thesis using step by (rule trancl_into_trancl)
  qed
qed simp

lemma masked_edges_next:
  assumes "length keep_mask = length (xg_events x)"
  shows "(masked_edges keep_mask x)\<^sup>+ = (masked_next keep_mask x)\<^sup>+"
proof
  have "masked_edges keep_mask x \<subseteq> (masked_next keep_mask x)\<^sup>+"
  proof (rule subrelI)
    fix a b assume "(a, b) \<in> masked_edges keep_mask x"
    then have k: "keeps keep_mask a" "keeps keep_mask b"
      and "(a, b) \<in> po_of (xg_events x) \<or> (a, b) \<in> rf_of (xg_rf x)" by (auto simp: masked_edges_def causal_def)
    from this(3) show "(a, b) \<in> (masked_next keep_mask x)\<^sup>+"
    proof
      let ?n = "length (xg_events x)" and ?t = "thread (xg_events x ! a)"
      let ?L = "kept_of_thread keep_mask (xg_events x) ?n ?t"
      assume po: "(a, b) \<in> po_of (xg_events x)"
      then have ab: "a < b" "a < ?n" "b < ?n" "thread (xg_events x ! b) = ?t" by (auto simp: po_of_def)
      note a = kept_of_thread_nth [OF ab(2) k(1) refl] and b = kept_of_thread_nth [OF ab(3) k(2) ab(4)]
      have "length (kept_of_thread keep_mask (xg_events x) a ?t) < length (kept_of_thread keep_mask (xg_events x) b ?t)"
        using kept_of_thread_nth(1) [OF ab(1) k(1) refl] .
      from masked_po_path [OF b(1) this] show ?thesis unfolding a(2) b(2) .
    next
      assume "(a, b) \<in> rf_of (xg_rf x)"
      with k show ?thesis by (auto simp: rf_of_def masked_next_def masked_rf_Some)
    qed
  qed
  then show "(masked_edges keep_mask x)\<^sup>+ \<subseteq> (masked_next keep_mask x)\<^sup>+"
    by (metis trancl_mono_subset trancl_id trans_trancl)
  show "(masked_next keep_mask x)\<^sup>+ \<subseteq> (masked_edges keep_mask x)\<^sup>+"
    by (rule trancl_mono_subset [OF masked_next_edges])
qed

section \<open>Reachability\<close>

definition marked :: "bool list \<Rightarrow> EventId set" where
  "marked v = {i. i < length v \<and> v ! i}"

lemma masked_search_correct:
  assumes "\<And>i. i < n \<Longrightarrow> keeps keep_mask i \<Longrightarrow> \<exists>ss. append_successors x ctx i = Inr ss \<and> set ss = E `` {i}"
    and "\<And>a b. (a, b) \<in> E \<Longrightarrow> b < n \<and> keeps keep_mask b"
    and "\<forall>i\<in>set pending. i < n \<and> keeps keep_mask i" "length v = n" "E `` marked v \<subseteq> marked v \<union> set pending"
  shows "\<exists>v'. masked_search x ctx pending v = Inr v' \<and> length v' = n \<and> marked v' = marked v \<union> E\<^sup>* `` set pending"
  using assms
proof (induction x ctx pending v rule: masked_search.induct)
  case (2 x ctx c pending v)
  have c: "c < length v" using "2.prems" by auto
  show ?case
  proof (cases "v ! c")
    case True
    with c have mc: "c \<in> marked v" by (simp add: marked_def)
    then have closed: "E `` marked v \<subseteq> marked v \<union> set pending" using "2.prems"(5) by auto
    with 2 True obtain v' where v': "masked_search x ctx pending v = Inr v'" "length v' = n"
      "marked v' = marked v \<union> E\<^sup>* `` set pending" by auto
    have "E\<^sup>* `` {c} \<subseteq> marked v \<union> E\<^sup>* `` set pending"
      using rtrancl_Image_closed_upto [OF closed] mc by blast
    then have "marked v \<union> E\<^sup>* `` set pending = marked v \<union> E\<^sup>* `` set (c # pending)" by auto
    with v' True show ?thesis by simp
  next
    case False
    obtain ss where ss: "append_successors x ctx c = Inr ss" "set ss = E `` {c}"
      using "2.prems"(1) [of c] "2.prems"(3) by auto
    have m: "marked (v[c := True]) = insert c (marked v)"
      using c by (auto simp: marked_def nth_list_update)
    have closed: "E `` marked (v[c := True]) \<subseteq> marked (v[c := True]) \<union> set (pending @ ss)"
      using "2.prems"(5) ss(2) m by auto
    have "\<exists>v'. masked_search x ctx (pending @ ss) (v[c := True]) = Inr v' \<and> length v' = n
        \<and> marked v' = marked (v[c := True]) \<union> E\<^sup>* `` set (pending @ ss)"
      by (rule "2.IH"(2)) (use False c ss "2.prems" closed in auto)
    then obtain v' where v': "masked_search x ctx (pending @ ss) (v[c := True]) = Inr v'" "length v' = n"
      "marked v' = insert c (marked v) \<union> E\<^sup>* `` set (pending @ ss)" unfolding m by blast
    have "E\<^sup>* `` {c} = insert c (E\<^sup>* `` (E `` {c}))"
      by (auto elim: converse_rtranclE intro: converse_rtrancl_into_rtrancl)
    then have "insert c (marked v) \<union> E\<^sup>* `` set (pending @ ss) = marked v \<union> E\<^sup>* `` set (c # pending)"
      using ss(2) by auto
    with v' ss False c show ?thesis by simp
  qed
qed simp

lemma reachable_from_eq:
  assumes ctx: "context_of x keep_mask b (rf_entries (reads_from (graph x))) ctx"
    and m: "length keep_mask = length (xg_events x)" and i: "keeps keep_mask i"
  shows "\<exists>v. reachable_from x ctx i = Inr v \<and> (\<forall>j<length (xg_events x). v ! j \<longleftrightarrow> (i, j) \<in> (masked_edges keep_mask x)\<^sup>+)"
proof -
  let ?n = "length (xg_events x)" and ?E = "masked_next keep_mask x"
  have k: "keeps keep_mask j \<Longrightarrow> j < ?n" for j using m by (simp add: keeps_def)
  note succ = append_successors_eq [OF ctx]
  have E: "b < ?n \<and> keeps keep_mask b" if "(a, b) \<in> ?E" for a b
    using masked_next_edges that k by (fastforce simp: masked_edges_def)
  from succ [OF k [OF i] i] obtain ss where ss: "append_successors x ctx i = Inr ss" "set ss = ?E `` {i}" by blast
  have none: "marked (replicate ?n False) = {}" by (auto simp: marked_def)
  have "\<exists>v. masked_search x ctx ss (replicate ?n False) = Inr v \<and> length v = ?n
      \<and> marked v = marked (replicate ?n False) \<union> ?E\<^sup>* `` set ss"
    by (rule masked_search_correct [OF succ E]) (use ss(2) E none in auto)
  then obtain v where v: "masked_search x ctx ss (replicate ?n False) = Inr v" "length v = ?n"
    "marked v = ?E\<^sup>* `` (?E `` {i})" using none ss(2) by auto
  have "?E\<^sup>* `` (?E `` {i}) = ?E\<^sup>+ `` {i}" by (auto simp: trancl_unfold_left elim: tranclD intro: rtrancl_into_trancl2)
  with v have "v ! j \<longleftrightarrow> (i, j) \<in> (masked_edges keep_mask x)\<^sup>+" if "j < ?n" for j
    using that unfolding masked_edges_next [OF m] marked_def by auto
  moreover have "reachable_from x ctx i = Inr v"
    using ctx i k [OF i] v(1) ss(1) by (simp add: reachable_from_def context_of_def is_valid_event_id_def xg_event_count_def)
  ultimately show ?thesis by blast
qed

section \<open>FIFO clauses\<close>

definition consumer_table :: "nat \<Rightarrow> (EventId \<rightharpoonup> ReadsFromSource) \<Rightarrow> EventId option list \<Rightarrow> bool" where
  "consumer_table n m fc \<longleftrightarrow> (\<forall>s<n. \<forall>r. fc ! s = Some r \<longleftrightarrow> m r = Some (from_send s))"

text \<open>The reads-from entries a consumer table is built from connect receives and sends of one channel.\<close>

definition proper_reads :: "'v event list \<Rightarrow> (EventId \<rightharpoonup> ReadsFromSource) \<Rightarrow> bool" where
  "proper_reads evs m \<longleftrightarrow> (\<forall>r s. m r = Some (from_send s) \<longrightarrow> r < length evs \<and> is_receive (evs ! r)
     \<and> s < length evs \<and> is_send (evs ! s) \<and> destination (send_of evs s) = thread (evs ! r))"

lemma accepts_send_eq:
  assumes "total_matchers (xg_events x)" "r < length (xg_events x)" "as_receive (xg_events x ! r) = Some rl"
    and "i < length (xg_events x)" "is_send (xg_events x ! i)"
  shows "accepts_send x rl i = Inr (accepted (xg_events x) r i)"
proof -
  obtain s where "as_send (xg_events x ! i) = Some s" using assms(5) by (metis is_send_as_send option.exhaust)
  moreover have "accepts rl v = Inr (matches rl v = Inr True)" for v
    by (rule total_matcher_accepts [OF total_matchers_recv [OF assms(1-3)]])
  ultimately show ?thesis using assms(2-4)
    by (simp add: accepts_send_def xg_event_eq accepted_def recv_of_def send_of_def del: accepts_eq_Inr)
qed

lemma clause_at_eq:
  assumes tm: "total_matchers (xg_events x)" and m: "proper_reads (xg_events x) m"
    and fc: "consumer_table (length (xg_events x)) m fc"
    and ch: "\<forall>i\<in>set ch. i < length (xg_events x) \<and> is_send (xg_events x ! i)" "later < length ch"
  shows "clause_b_at x fc ch later = Inr (\<exists>i\<in>set (take later ch). \<exists>r. m r = Some (from_send (ch ! later))
      \<and> (\<forall>r'. m r' \<noteq> Some (from_send i)) \<and> accepted (xg_events x) r i)" (is ?b)
    and "clause_c_at x fc ch later = Inr (\<exists>i\<in>set (take later ch). \<exists>r r'. m r = Some (from_send (ch ! later))
      \<and> m r' = Some (from_send i) \<and> thread (xg_events x ! r') = thread (xg_events x ! r)
      \<and> index (xg_events x ! r) < index (xg_events x ! r') \<and> accepted (xg_events x) r i)" (is ?c)
proof -
  have chl: "ch ! later < length (xg_events x)" using ch by auto
  have sub: "i < length (xg_events x) \<and> is_send (xg_events x ! i)" if "i \<in> set (take later ch)" for i
    using that ch(1) by (meson in_set_takeD)
  have tab: "fc ! s = Some r \<longleftrightarrow> m r = Some (from_send s)" if "s < length (xg_events x)" for s r
    using fc that by (simp add: consumer_table_def)
  show ?b
  proof (cases "fc ! (ch ! later)")
    case None
    with tab [OF chl] show ?thesis by (auto simp: clause_b_at_def)
  next
    case (Some r)
    with tab [OF chl] have mr: "m q = Some (from_send (ch ! later)) \<longleftrightarrow> q = r" for q by (metis option.inject)
    with m have r: "r < length (xg_events x)" "is_receive (xg_events x ! r)" by (auto simp: proper_reads_def)
    then obtain rl where rl: "as_receive (xg_events x ! r) = Some rl" by (metis is_receive_as_receive option.exhaust)
    have "any_result (\<lambda>i. if fc ! i \<noteq> None then Inr False else accepts_send x rl i) (take later ch) =
        Inr (\<exists>i\<in>set (take later ch). fc ! i = None \<and> accepted (xg_events x) r i)"
      by (rule any_result_pure) (use sub accepts_send_eq [OF tm r(1) rl] in auto)
    moreover have "fc ! i = None \<longleftrightarrow> (\<forall>r'. m r' \<noteq> Some (from_send i))" if "i \<in> set (take later ch)" for i
      using tab [of i] sub [OF that] by (metis option.distinct(1) option.exhaust)
    ultimately show ?thesis using Some r rl by (simp add: clause_b_at_def xg_event_eq mr cong: bex_cong_simp)
  qed
  show ?c
  proof (cases "fc ! (ch ! later)")
    case None
    with tab [OF chl] show ?thesis by (auto simp: clause_c_at_def)
  next
    case (Some r)
    with tab [OF chl] have mr: "m q = Some (from_send (ch ! later)) \<longleftrightarrow> q = r" for q by (metis option.inject)
    with m have r: "r < length (xg_events x)" "is_receive (xg_events x ! r)" by (auto simp: proper_reads_def)
    then obtain rl where rl: "as_receive (xg_events x ! r) = Some rl" by (metis is_receive_as_receive option.exhaust)
    let ?q = "\<lambda>i. \<exists>r'. m r' = Some (from_send i) \<and> thread (xg_events x ! r') = thread (xg_events x ! r)
      \<and> index (xg_events x ! r) < index (xg_events x ! r') \<and> accepted (xg_events x) r i"
    let ?p = "\<lambda>i. case fc ! i of None \<Rightarrow> Inr False | Some later_receive \<Rightarrow>
      bind_result (xg_event x later_receive) (\<lambda>e'. if thread e' \<noteq> thread (xg_events x ! r)
        \<or> index e' \<le> index (xg_events x ! r) then Inr False else accepts_send x rl i)"
    have pq: "?p i = Inr (?q i)" if "i \<in> set (take later ch)" for i
    proof (cases "fc ! i")
      case None
      with tab [of i] sub [OF that] show ?thesis by auto
    next
      case (Some r')
      with tab [of i] sub [OF that] have mi: "m q = Some (from_send i) \<longleftrightarrow> q = r'" for q by (metis option.inject)
      with m have "r' < length (xg_events x)" by (auto simp: proper_reads_def)
      with Some mi sub [OF that] accepts_send_eq [OF tm r(1) rl, of i] show ?thesis
        by (auto simp: xg_event_eq)
    qed
    have "any_result ?p (take later ch) = Inr (\<exists>i\<in>set (take later ch). ?q i)"
      by (rule any_result_pure) (rule pq)
    with Some r rl show ?thesis by (simp add: clause_c_at_def xg_event_eq mr)
  qed
qed

lemma any_channel_eq:
  assumes ok: "channels_ok keep_mask evs (length evs) ctx"
    and p: "\<And>ch later. (\<forall>i\<in>set ch. i < length evs \<and> is_send (evs ! i)) \<Longrightarrow> later < length ch \<Longrightarrow>
      p ch later = Inr (\<exists>i\<in>set (take later ch). Q (ch ! later) i)"
    and m: "length keep_mask = length evs"
  shows "any_channel p ctx = Inr (\<exists>i j. i < j \<and> keeps keep_mask i \<and> keeps keep_mask j \<and> same_channel evs i j \<and> Q j i)"
proof -
  define chs where "chs = take (active_channels ctx) (channels ctx)"
  have chs: "ch \<in> set chs \<longleftrightarrow> (\<exists>key\<in>set (channel_keys ctx). ch = kept_of_channel keep_mask evs (length evs) key)" for ch
  proof -
    have "chs = map (kept_of_channel keep_mask evs (length evs)) (channel_keys ctx)"
      using ok by (intro nth_equalityI) (auto simp: chs_def channels_ok_def)
    then show ?thesis by auto
  qed
  have el: "i \<in> set (kept_of_channel keep_mask evs (length evs) key) \<longleftrightarrow>
      keeps keep_mask i \<and> is_send (evs ! i) \<and> channel_of evs i = key" for i key
    using m by (auto simp: kept_of_channel_def keeps_def)
  have "any_result (p ch) [0..<length ch] = Inr (\<exists>later<length ch. \<exists>i\<in>set (take later ch). Q (ch ! later) i)"
    if "ch \<in> set chs" for ch
  proof -
    from that chs el m have "\<forall>i\<in>set ch. i < length evs \<and> is_send (evs ! i)" by (auto simp: keeps_def)
    from p [OF this] have "any_result (p ch) [0..<length ch] =
        Inr (\<exists>later\<in>set [0..<length ch]. \<exists>i\<in>set (take later ch). Q (ch ! later) i)"
      by (intro any_result_pure) auto
    then show ?thesis by (auto simp: Bex_def)
  qed
  then have "any_channel p ctx =
      Inr (\<exists>ch\<in>set chs. \<exists>later<length ch. \<exists>i\<in>set (take later ch). Q (ch ! later) i)"
    unfolding any_channel_def chs_def by (rule any_result_pure)
  moreover have "(\<exists>later<length ch. \<exists>i\<in>set (take later ch). Q (ch ! later) i) \<longleftrightarrow>
      (\<exists>i\<in>set ch. \<exists>j\<in>set ch. i < j \<and> Q j i)" if "ch \<in> set chs" for ch
  proof -
    have s: "sorted_wrt (<) ch" using that chs by (auto simp: kept_of_channel_def intro!: sorted_wrt_filter)
    then have less: "a < b \<longleftrightarrow> ch ! a < ch ! b" if "a < length ch" "b < length ch" for a b
      using that by (metis linorder_neqE_nat order_less_asym sorted_wrt_nth_less)
    show ?thesis
    proof
      assume "\<exists>later<length ch. \<exists>i\<in>set (take later ch). Q (ch ! later) i"
      then obtain b a where "b < length ch" "a < b" "Q (ch ! b) (ch ! a)" by (auto simp: in_set_conv_nth)
      then show "\<exists>i\<in>set ch. \<exists>j\<in>set ch. i < j \<and> Q j i" using less by (meson less_trans nth_mem)
    next
      assume "\<exists>i\<in>set ch. \<exists>j\<in>set ch. i < j \<and> Q j i"
      then obtain a b where ab: "a < length ch" "b < length ch" "ch ! a < ch ! b" "Q (ch ! b) (ch ! a)"
        by (auto simp: in_set_conv_nth)
      then have "a < b" using less by blast
      then have "ch ! a \<in> set (take b ch)" using ab by (metis length_take min.absorb2 less_imp_le nth_mem nth_take)
      with ab show "\<exists>later<length ch. \<exists>i\<in>set (take later ch). Q (ch ! later) i" by blast
    qed
  qed
  moreover have "(\<exists>ch\<in>set chs. \<exists>i\<in>set ch. \<exists>j\<in>set ch. i < j \<and> Q j i) \<longleftrightarrow>
      (\<exists>i j. i < j \<and> keeps keep_mask i \<and> keeps keep_mask j \<and> same_channel evs i j \<and> Q j i)" (is "?l \<longleftrightarrow> ?r")
  proof
    assume ?l
    then obtain key i j where "i \<in> set (kept_of_channel keep_mask evs (length evs) key)"
      "j \<in> set (kept_of_channel keep_mask evs (length evs) key)" "i < j" "Q j i" unfolding chs Bex_def by blast
    moreover from this have "same_channel evs i j" by (auto simp: el same_channel_def channel_of_def)
    ultimately show ?r using el by blast
  next
    assume ?r
    then obtain i j where ij: "i < j" "keeps keep_mask i" "keeps keep_mask j" "same_channel evs i j" "Q j i" by blast
    then have "channel_of evs i \<in> set (channel_keys ctx)"
      using ok m by (auto simp: channels_ok_def same_channel_def keeps_def)
    moreover have "i \<in> set (kept_of_channel keep_mask evs (length evs) (channel_of evs i))"
      "j \<in> set (kept_of_channel keep_mask evs (length evs) (channel_of evs i))"
      using ij el by (auto simp: same_channel_def channel_of_def)
    ultimately show ?l using ij chs by blast
  qed
  ultimately show ?thesis by (simp cong: bex_cong_simp)
qed

lemma ex_pairs_cong:
  "(\<And>i j. P i j \<Longrightarrow> B j i \<or> C j i \<longleftrightarrow> D j i) \<Longrightarrow>
     (\<exists>i j. P i j \<and> B j i) \<or> (\<exists>i j. P i j \<and> C j i) \<longleftrightarrow> (\<exists>i j. P i j \<and> D j i)"
  by blast

lemma or_result: "bind_result (Inr b) (\<lambda>b. if b then Inr True else Inr c) = Inr (b \<or> c)"
  by simp

lemma fifo_clauses_eq:
  assumes wf: "wf_core x" and tm: "total_matchers (xg_events x)" and m: "proper_reads (xg_events x) m"
    and mask: "length keep_mask = length (xg_events x)"
    and ok: "channels_ok keep_mask (xg_events x) (length (xg_events x)) ctx"
    and fc: "consumer_table (length (xg_events x)) m (fifo_consumer ctx)"
  shows "bind_result (fifo_clause_b_violated x ctx) (\<lambda>b. if b then Inr True else fifo_clause_c_violated x ctx) =
    Inr (\<not> masked_fifo keep_mask (xg_events x) m)"
proof -
  let ?evs = "xg_events x"
  let ?P = "\<lambda>i j. i < j \<and> keeps keep_mask i \<and> keeps keep_mask j \<and> same_channel ?evs i j"
  let ?B = "\<lambda>j i. \<exists>r. m r = Some (from_send j) \<and> (\<forall>r'. m r' \<noteq> Some (from_send i)) \<and> accepted ?evs r i"
  let ?C = "\<lambda>j i. \<exists>r r'. m r = Some (from_send j) \<and> m r' = Some (from_send i)
    \<and> thread (?evs ! r') = thread (?evs ! r) \<and> index (?evs ! r) < index (?evs ! r') \<and> accepted ?evs r i"
  have b: "fifo_clause_b_violated x ctx = Inr (\<exists>i j. ?P i j \<and> ?B j i)"
    unfolding fifo_clause_b_violated_def
    by (subst any_channel_eq [OF ok _ mask, where Q = ?B]) (use clause_at_eq(1) [OF tm m fc] in auto)
  have c: "fifo_clause_c_violated x ctx = Inr (\<exists>i j. ?P i j \<and> ?C j i)"
    unfolding fifo_clause_c_violated_def
    by (subst any_channel_eq [OF ok _ mask, where Q = ?C]) (use clause_at_eq(2) [OF tm m fc] in auto)
  have inc: "increasing_indices ?evs" using wf by (auto simp: wf_core_def wf_eg_def)
  have pair: "?B j i \<or> ?C j i \<longleftrightarrow> (\<exists>r. m r = Some (from_send j) \<and> accepted ?evs r i \<and> \<not> (\<exists>r'<r. m r' = Some (from_send i)))"
    if ij: "?P i j" for i j
  proof -
    have order: "thread (?evs ! r') = thread (?evs ! r) \<and> (index (?evs ! r) < index (?evs ! r') \<longleftrightarrow> \<not> r' < r)"
      if "m r = Some (from_send j)" "m r' = Some (from_send i)" for r r'
    proof -
      have t: "thread (?evs ! r') = thread (?evs ! r)" "r < length ?evs" "r' < length ?evs"
        using m ij that by (auto simp: proper_reads_def same_channel_def)
      have "r \<noteq> r'" using that ij by auto
      then show ?thesis using inc t unfolding increasing_indices_def
        by (metis linorder_neqE_nat order_less_asym)
    qed
    have uniq: "r1 = r2" if "m r1 = Some (from_send i)" "m r2 = Some (from_send i)" for r1 r2
      using fc that ij mask unfolding consumer_table_def keeps_def by (metis option.inject)
    show ?thesis using order uniq by metis
  qed
  have "\<not> masked_fifo keep_mask ?evs m \<longleftrightarrow> (\<exists>i j. ?P i j \<and>
      (\<exists>r. m r = Some (from_send j) \<and> accepted ?evs r i \<and> \<not> (\<exists>r'<r. m r' = Some (from_send i))))"
    unfolding masked_fifo_def by auto
  also have "\<dots> \<longleftrightarrow> (\<exists>i j. ?P i j \<and> ?B j i) \<or> (\<exists>i j. ?P i j \<and> ?C j i)"
    by (rule ex_pairs_cong [symmetric]) (rule pair)
  finally show ?thesis unfolding b c or_result by (simp only:)
qed

lemma rebound_table:
  assumes "\<And>s r. s < n \<Longrightarrow> fc ! s = Some r \<longleftrightarrow> m r = Some (from_send s)" "length fc = n"
    and "c < n" "current < n" "m recv = Some (from_send current)"
    and "\<And>r. m r = Some (from_send c) \<Longrightarrow> r = recv"
  shows "consumer_table n (m(recv \<mapsto> from_send c)) ((if current \<noteq> c then fc[current := None] else fc)[c := Some recv])"
proof -
  have uniq: "r = recv" if "m r = Some (from_send current)" for r
    using assms(1) [OF assms(4)] assms(5) that by (metis option.inject)
  show ?thesis
    unfolding consumer_table_def
  proof (intro allI impI)
    fix s r assume s: "s < n"
    consider "s = c" | "s \<noteq> c" "s = current" | "s \<noteq> c" "s \<noteq> current" by blast
    then show "(if current \<noteq> c then fc[current := None] else fc)[c := Some recv] ! s = Some r \<longleftrightarrow>
        (m(recv \<mapsto> from_send c)) r = Some (from_send s)"
    proof cases
      case 1
      with assms(2,3,6) s show ?thesis by (auto simp: nth_list_update)
    next
      case 2
      with assms(2,4) s uniq show ?thesis by (auto simp: nth_list_update)
    next
      case 3
      with assms(1) [OF s] assms(2,5) s show ?thesis by (auto simp: nth_list_update)
    qed
  qed
qed

lemma fifo_rewrite_violates_eq:
  assumes wf: "wf_core x" and tm: "total_matchers (xg_events x)" and rd: "reads_ok (\<lambda>_. True) (xg_events x) (xg_rf x)"
    and mask: "length keep_mask = length (xg_events x)"
    and ctx: "context_of x keep_mask True (rf_entries (reads_from (graph x))) ctx"
    and recv: "keeps keep_mask recv" "is_receive (xg_events x ! recv)" "keeps keep_mask current"
      "xg_rf x recv = Some (from_send current)"
    and c: "masked_candidate keep_mask (xg_events x) (xg_rf x) recv c"
  shows "fifo_rewrite_violates x ctx recv c (Some current) = Inr (\<not> masked_fifo keep_mask (xg_events x)
    ((masked_rf keep_mask (xg_rf x))(recv \<mapsto> from_send c)))"
proof -
  let ?n = "length (xg_events x)" and ?m = "masked_rf keep_mask (xg_rf x)"
  let ?fc = "(if current \<noteq> c then (fifo_consumer ctx)[current := None] else fifo_consumer ctx)[c := Some recv]"
  have lt: "recv < ?n" "current < ?n" "c < ?n" using recv c mask by (auto simp: keeps_def masked_candidate_def)
  have len: "length (fifo_consumer ctx) = ?n" using ctx by (simp add: context_of_def readers_ok_def)
  have "?m recv = Some (from_send current)" using recv by (simp add: masked_rf_Some)
  then have table: "consumer_table ?n (?m(recv \<mapsto> from_send c)) ?fc"
    by (intro rebound_table) (use context_readers(3) [OF ctx] len lt c in \<open>auto simp: masked_candidate_def\<close>)
  have proper: "proper_reads (xg_events x) (?m(recv \<mapsto> from_send c))"
    unfolding proper_reads_def
  proof (intro allI impI)
    fix r s assume rs: "(?m(recv \<mapsto> from_send c)) r = Some (from_send s)"
    show "r < ?n \<and> is_receive (xg_events x ! r) \<and> s < ?n \<and> is_send (xg_events x ! s)
      \<and> destination (send_of (xg_events x) s) = thread (xg_events x ! r)"
    proof (cases "r = recv")
      case True
      with rs c recv lt show ?thesis by (auto simp: masked_candidate_def compatible_def)
    next
      case False
      with rs have "xg_rf x r = Some (from_send s)" by (simp add: masked_rf_Some)
      with reads_okD(1,2) [OF rd] show ?thesis by (fastforce simp: rf_valid_def read_ok_def)
    qed
  qed
  let ?ctx = "ctx\<lparr>fifo_consumer := ?fc\<rparr>"
  have "channels_ok keep_mask (xg_events x) ?n ?ctx" using ctx by (simp add: context_of_def channels_ok_def)
  from fifo_clauses_eq [OF wf tm proper mask this] table show ?thesis
    by (simp add: fifo_rewrite_violates_def Let_def split: if_splits)
qed

section \<open>The masked tiebreaker\<close>

lemma masked_tiebreaker_loop_eq:
  assumes "\<And>c. c \<in> set cs \<Longrightarrow> model = FifoP2P \<Longrightarrow> fifo_rewrite_violates x ctx recv c (Some current) = Inr (V c)"
  shows "masked_tiebreaker_loop x ctx model recv current v cs =
    (case find (\<lambda>c. \<not> v ! c \<and> (model = FifoP2P \<longrightarrow> \<not> V c)) cs of
       None \<Rightarrow> Inl (internal_error ''get_cons_tiebreaker invariant violated: no consistent source found'')
     | Some c \<Rightarrow> Inr c)"
  using assms by (induction cs) auto

lemma get_cons_tiebreaker_masked_eq:
  assumes wf: "wf_xg x" "total_matchers (xg_events x)" "blocking_receive x recv"
    and rd: "reads_ok (\<lambda>_. True) (xg_events x) (xg_rf x)"
    and mask: "length keep_mask = length (xg_events x)" "keeps keep_mask recv" "keeps keep_mask current"
    and rf: "xg_rf x recv = Some (from_send current)"
  shows "tiebreaks (xg_events x) (masked_sources model keep_mask x recv)
    (get_cons_tiebreaker_masked ctx0 x keep_mask recv model)"
proof -
  let ?n = "length (xg_events x)" and ?evs = "xg_events x"
  have core: "wf_core x" using wf(1) by (simp add: wf_xg_def)
  obtain ctx where ctx: "reset_context x keep_mask (model = FifoP2P) ctx0 = Inr ctx"
    "context_of x keep_mask (model = FifoP2P) (rf_entries (reads_from (graph x))) ctx"
    using reset_context_eq [OF rd mask(1)] by blast
  have cm: "ctx_mask ctx = keep_mask" using ctx(2) by (simp add: context_of_def)
  note b = blocking_receiveD [OF wf(3)]
  have current: "current < ?n" using mask by (simp add: keeps_def)
  have tm: "total_matcher (recv_of ?evs recv)" using total_matchers_recv [OF wf(2)] b by blast
  let ?u = "filter (send_is_unread ctx) [0..<xg_event_count x]"
  have "set ?u \<subseteq> {..<?n}" by (auto simp: xg_event_count_def)
  from sorted_candidates_eq [OF tm this current, of "?evs ! recv"] obtain cs where
    cs: "sorted_candidates x (?evs ! recv) (recv_of ?evs recv) ?u current = Inr cs"
      "sorted (map (\<lambda>i. (thread (?evs ! i), i)) cs)"
    and set_cs: "set cs = {i \<in> insert current (set ?u). compatible ?evs (thread (?evs ! recv)) (recv_of ?evs recv) i}"
    by blast
  have mr: "masked_rf keep_mask (xg_rf x) recv = Some (from_send current)" using rf mask by (simp add: masked_rf_Some)
  have unread: "i \<in> set ?u \<longleftrightarrow> keeps keep_mask i \<and> (\<forall>r. masked_rf keep_mask (xg_rf x) r \<noteq> Some (from_send i))" for i
    using context_readers(1) [OF ctx(2), of i] mask(1) by (auto simp: send_is_unread_def cm xg_event_count_def keeps_def)
  have uniq: "r = recv" if "masked_rf keep_mask (xg_rf x) r = Some (from_send current)" for r
    using that mr reads_okD(3) [OF rd] by (auto simp: masked_rf_Some)
  have cand: "i \<in> set cs \<longleftrightarrow> masked_candidate keep_mask ?evs (xg_rf x) recv i" for i
    unfolding set_cs masked_candidate_def mem_Collect_eq insert_iff unread
    using uniq mask(3) mr by (metis ReadsFromSource.inject option.inject)
  obtain v where v: "reachable_from x ctx recv = Inr v"
    "\<forall>j<?n. v ! j \<longleftrightarrow> (recv, j) \<in> (masked_edges keep_mask x)\<^sup>+"
    using reachable_from_eq [OF ctx(2) mask(1,2)] by blast
  define V where "V c = (\<not> masked_fifo keep_mask ?evs ((masked_rf keep_mask (xg_rf x))(recv \<mapsto> from_send c)))" for c
  have viol: "fifo_rewrite_violates x ctx recv c (Some current) = Inr (V c)" if "c \<in> set cs" "model = FifoP2P" for c
    unfolding V_def
    by (rule fifo_rewrite_violates_eq [OF core wf(2) rd mask(1) _ mask(2) b(2) mask(3) rf])
      (use that ctx(2) cand in auto)
  have "get_cons_tiebreaker_masked ctx0 x keep_mask recv model =
      masked_tiebreaker_loop x ctx model recv current v cs"
    using ctx(1) cm mask rf cs(1) v(1)
    by (simp add: get_cons_tiebreaker_masked_def tiebreaker_target_eq [OF wf(3)] tiebreaker_source_def)
  moreover have "{i \<in> set cs. \<not> v ! i \<and> (model = FifoP2P \<longrightarrow> \<not> V i)} = masked_sources model keep_mask x recv"
    using cand v(2) mask(1) by (auto simp: masked_sources_def V_def masked_candidate_def keeps_def)
  ultimately show ?thesis
    using tiebreaks_find [OF cs(2), of "\<lambda>c. \<not> v ! c \<and> (model = FifoP2P \<longrightarrow> \<not> V c)"] masked_tiebreaker_loop_eq [OF viol]
    by simp
qed

section \<open>Properties\<close>

text \<open>C27. The mask-based tiebreaker returns exactly what the restriction-based reference returns, the exception
  for a missing source included, in both communication models and whatever the reused context held before:
  no restricted graph has to be built.\<close>

theorem masked_tiebreaker_agrees:
  assumes "wf_xg x" "total_matchers (xg_events x)" "async_consistent (\<lambda>_. True) (xg_events x) (xg_rf x)"
    and "blocking_receive x recv" "xg_rf x recv = Some (from_send current)"
    and "length keep_mask = length (xg_events x)" "keeps keep_mask recv" "keeps keep_mask current"
  shows "get_cons_tiebreaker_masked ctx0 x keep_mask recv model =
    get_cons_tiebreaker_masked_via_restriction x keep_mask recv model"
proof -
  have rd: "reads_ok (\<lambda>_. True) (xg_events x) (xg_rf x)" "acyclic (porf x)"
    using assms(3) by (simp_all add: async_consistent_def)
  show ?thesis
    by (rule tiebreaks_unique [OF get_cons_tiebreaker_masked_eq via_restriction_eq]) (use assms rd in auto)
qed

theorem masked_tiebreaker_agrees_witness:
  "get_cons_tiebreaker_masked empty_context sample_xg [True, True] 1 FifoP2P =
     get_cons_tiebreaker_masked_via_restriction sample_xg [True, True] 1 FifoP2P"
  using masked_tiebreaker_agrees [of sample_xg 1 0 "[True, True]" empty_context FifoP2P] sample_total
  by (simp add: async_consistent_def keeps_def)

end
