(* ===== verification/Revisit.thy ===== *)
theory Revisit
  imports Masked_Correct
begin

text \<open>
  Revisiting, \<^verbatim>\<open>include/dpor/algo/dpor.hpp\<close>: the revisit condition, the search for the next backward
  revisit of a send, and the iteration over all of them. The masked context is a buffer that a query
  resets first; theory \<open>Masked_Correct\<close> shows that what it held before does not matter.
\<close>

section \<open>The revisit condition\<close>

text \<open>The branch for a blocking receive: its source must be the tiebreaker of the restricted graph.\<close>

definition receive_revisit_condition ::
    "'v ExplorationGraph \<Rightarrow> EventId \<Rightarrow> EventId \<Rightarrow> CommunicationModel \<Rightarrow> bool result" where
  "receive_revisit_condition x e s model =
     bind_result (in_previous x e s e) (\<lambda>kept.
       if \<not> kept
       then Inl (internal_error ''revisit_condition invariant violated: event missing from Previous'')
       else case rf_find (reads_from (graph x)) e of
         None \<Rightarrow> Inl (internal_error
           ''revisit_condition invariant violated: receive missing reads-from source'')
       | Some bottom \<Rightarrow> Inl (internal_error
           ''revisit_condition invariant violated: blocking receive reads from bottom'')
       | Some (from_send current) \<Rightarrow>
           bind_result (in_previous x e s current) (\<lambda>source_kept.
             if \<not> source_kept then Inr False
             else bind_result (compute_previous_set x e s) (\<lambda>keep_mask.
               map_result (\<lambda>tiebreaker. current = tiebreaker)
                 (get_cons_tiebreaker_masked empty_context x keep_mask e model))))"

text \<open>The branch for events that are no receive and no choice: nothing in the previous set reads them.\<close>

definition reader_in_previous ::
    "'v ExplorationGraph \<Rightarrow> EventId \<Rightarrow> EventId \<Rightarrow> EventId \<times> ReadsFromSource \<Rightarrow> bool result" where
  "reader_in_previous x e s entry =
     (if snd entry = from_send e
      then bind_result (xg_event x (fst entry)) (\<lambda>r.
             if is_receive r then in_previous x e s (fst entry) else Inr False)
      else Inr False)"

definition revisit_condition ::
    "('v::linorder) ExplorationGraph \<Rightarrow> EventId \<Rightarrow> EventId \<Rightarrow> CommunicationModel \<Rightarrow> bool result" where
  "revisit_condition x e s model =
     bind_result (xg_event x e) (\<lambda>evt.
       case label evt of
         Receive rl \<Rightarrow>
           if is_nonblocking rl
           then case rf_find (reads_from (graph x)) e of
                  None \<Rightarrow> Inl (internal_error
                    ''revisit_condition invariant violated: non-blocking receive missing reads-from source'')
                | Some source \<Rightarrow> Inr (source = bottom)
           else receive_revisit_condition x e s model
       | NondeterministicChoice nd \<Rightarrow>
           if choices nd = [] then Inr True else Inr (nd_value nd = Min (set (choices nd)))
       | _ \<Rightarrow> map_result Not (any_result (reader_in_previous x e s) (rf_entries (reads_from (graph x)))))"

section \<open>Backward revisits\<close>

text \<open>
  The scan that clears the deleted events from the keep mask and stops at the first one that fails its
  revisit condition.
\<close>

fun deleted_scan ::
    "('v::linorder) ExplorationGraph \<Rightarrow> EventId \<Rightarrow> EventId \<Rightarrow> CommunicationModel \<Rightarrow> EventId list \<Rightarrow> bool list
     \<Rightarrow> bool list option result" where
  "deleted_scan x recv send model [] keep_mask = Inr (Some keep_mask)"
| "deleted_scan x recv send model (ep # eps) keep_mask =
     (if ep = recv \<or> ep = send then deleted_scan x recv send model eps keep_mask
      else bind_result (inserted_before_or_equal x ep recv) (\<lambda>before.
        if before then deleted_scan x recv send model eps keep_mask
        else bind_result (porf_query x ep send) (\<lambda>causes.
          if causes then deleted_scan x recv send model eps keep_mask
          else bind_result (revisit_condition x ep send model) (\<lambda>ok.
            if ok then deleted_scan x recv send model eps (keep_mask[ep := False]) else Inr None))))"

text \<open>The new ids of the receive and of the send in the restricted graph.\<close>

definition new_ids_step ::
    "bool list \<Rightarrow> EventId \<Rightarrow> EventId \<Rightarrow> EventId \<Rightarrow> EventId option \<times> EventId option \<times> nat
     \<Rightarrow> EventId option \<times> EventId option \<times> nat" where
  "new_ids_step keep_mask recv send i s = (case s of (nr, ns, k) \<Rightarrow>
     if \<not> keep_mask ! i then (nr, ns, k)
     else (if i = recv then Some k else nr, if i = send then Some k else ns, k + 1))"

text \<open>One iteration of the search: the child graph, or nothing when this receive is skipped.\<close>

definition revisit_receive ::
    "('v::linorder) ExplorationGraph \<Rightarrow> EventId \<Rightarrow> 'v SendLabel \<Rightarrow> CommunicationModel \<Rightarrow> EventId
     \<Rightarrow> 'v ExplorationGraph option result" where
  "revisit_receive x send sl model recv =
     bind_result (xg_event x recv) (\<lambda>recv_evt.
       case as_receive recv_evt of
         None \<Rightarrow> Inr None
       | Some rl \<Rightarrow>
     bind_result (accepts rl (send_value sl)) (\<lambda>acc. if \<not> acc then Inr None else
     bind_result (porf_query x recv send) (\<lambda>causes. if causes then Inr None else
     bind_result (revisit_condition x recv send model) (\<lambda>ok. if \<not> ok then Inr None else
     bind_result (deleted_scan x recv send model [0..<xg_event_count x] (replicate (xg_event_count x) True))
       (\<lambda>scan. case scan of
         None \<Rightarrow> Inr None
       | Some keep_mask \<Rightarrow>
     bind_result (restrict_from_keep_mask keep_mask x) (\<lambda>restricted.
       case fold (new_ids_step keep_mask recv send) [0..<xg_event_count x] (None, None, 0) of
         (Some new_recv, Some new_send, _) \<Rightarrow>
           map_result Some (rebind_rf_preserving_known_acyclicity new_recv new_send restricted)
       | _ \<Rightarrow> Inr None))))))"

record 'v BackwardRevisitChildResult =
  next_receive_index :: nat
  revisit_child :: "'v ExplorationGraph option"

fun revisit_scan ::
    "('v::linorder) ExplorationGraph \<Rightarrow> EventId \<Rightarrow> 'v SendLabel \<Rightarrow> CommunicationModel \<Rightarrow> nat \<Rightarrow> EventId list
     \<Rightarrow> 'v BackwardRevisitChildResult result" where
  "revisit_scan x send sl model k [] = Inr \<lparr>next_receive_index = k, revisit_child = None\<rparr>"
| "revisit_scan x send sl model k (r # rs) =
     bind_result (revisit_receive x send sl model r) (\<lambda>child.
       case child of
         Some y \<Rightarrow> Inr \<lparr>next_receive_index = k + 1, revisit_child = Some y\<rparr>
       | None \<Rightarrow> revisit_scan x send sl model (k + 1) rs)"

definition next_backward_revisit_child ::
    "('v::linorder) ExplorationGraph \<Rightarrow> EventId \<Rightarrow> CommunicationModel \<Rightarrow> EventId list \<Rightarrow> nat
     \<Rightarrow> 'v BackwardRevisitChildResult result" where
  "next_backward_revisit_child x send model receives start =
     bind_result (xg_event x send) (\<lambda>send_evt.
       case as_send send_evt of
         None \<Rightarrow> Inr \<lparr>next_receive_index = 0, revisit_child = None\<rparr>
       | Some sl \<Rightarrow>
           if start < length receives then revisit_scan x send sl model start (drop start receives)
           else Inr \<lparr>next_receive_index = length receives, revisit_child = None\<rparr>)"

text \<open>
  The iteration with its two callbacks: a stop test on the caller's state, and a consumer of the children
  that answers whether to go on. The index grows with every child, so the loop ends.
\<close>

lemma revisit_scan_index:
  "revisit_scan x send sl model k rs = Inr res \<Longrightarrow>
     (revisit_child res \<noteq> None \<longrightarrow> k < next_receive_index res) \<and> next_receive_index res \<le> k + length rs
     \<and> (revisit_child res = None \<longrightarrow> next_receive_index res = k + length rs)"
  by (induction rs arbitrary: k) (fastforce split: option.splits)+

lemma next_backward_revisit_child_index:
  assumes "next_backward_revisit_child x send model receives start = Inr res" "revisit_child res = Some y"
  shows "start < next_receive_index res" "next_receive_index res \<le> length receives" "start < length receives"
  using assms revisit_scan_index [of x send _ model start "drop start receives" res]
  by (auto simp: next_backward_revisit_child_def split: option.splits if_splits)

lemma revisit_index_decreases:
  assumes "next_backward_revisit_child x send model receives start = Inr res" "revisit_child res = Some y"
  shows "length receives - next_receive_index res < length receives - start"
  using next_backward_revisit_child_index [OF assms] by simp

function revisit_children_loop ::
    "('v::linorder) ExplorationGraph \<Rightarrow> EventId \<Rightarrow> CommunicationModel \<Rightarrow> EventId list \<Rightarrow> ('s \<Rightarrow> bool)
     \<Rightarrow> ('v ExplorationGraph \<Rightarrow> 's \<Rightarrow> bool result \<times> 's) \<Rightarrow> nat \<Rightarrow> 's \<Rightarrow> unit result \<times> 's" where
  "revisit_children_loop x send model receives should_stop emit k s =
     (if should_stop s then (Inr (), s)
      else case next_backward_revisit_child x send model receives k of
        Inl e \<Rightarrow> (Inl e, s)
      | Inr next \<Rightarrow>
          (case revisit_child next of
             None \<Rightarrow> (Inr (), s)
           | Some child \<Rightarrow>
               (case emit child s of
                  (Inl e, s') \<Rightarrow> (Inl e, s')
                | (Inr continue, s') \<Rightarrow>
                    if \<not> continue then (Inr (), s')
                    else revisit_children_loop x send model receives should_stop emit (next_receive_index next) s')))"
  by pat_completeness auto
termination
  by (relation "measure (\<lambda>(x, send, model, receives, should_stop, emit, k, s). length receives - k)")
    (auto intro: revisit_index_decreases)

definition for_each_backward_revisit_child ::
    "('v::linorder) ExplorationGraph \<Rightarrow> EventId \<Rightarrow> CommunicationModel \<Rightarrow> ('s \<Rightarrow> bool)
     \<Rightarrow> ('v ExplorationGraph \<Rightarrow> 's \<Rightarrow> bool result \<times> 's) \<Rightarrow> 's \<Rightarrow> unit result \<times> 's" where
  "for_each_backward_revisit_child x send model should_stop emit s =
     (case receives_in_destination x send of
        Inl e \<Rightarrow> (Inl e, s)
      | Inr receives \<Rightarrow> revisit_children_loop x send model receives should_stop emit 0 s)"

end
