(* ===== verification/Revisit_Spec.thy ===== *)
theory Revisit_Spec
  imports Revisit
begin

text \<open>
  Correctness of the revisit operations on good graphs: well-formed, with a truthful cache, matchers that
  do not throw, and consistent in the communication model. On such graphs no revisit operation throws,
  the condition has a declarative reading, and a revisit child is again well-formed.
\<close>

definition well_kept :: "'v ExplorationGraph \<Rightarrow> bool" where
  "well_kept x \<longleftrightarrow> wf_xg x \<and> cache_ok x \<and> total_matchers (xg_events x)"

definition good :: "CommunicationModel \<Rightarrow> 'v ExplorationGraph \<Rightarrow> bool" where
  "good model x \<longleftrightarrow> well_kept x \<and> consistent model no_missing_reads_tolerance (xg_events x) (xg_rf x)"

lemma goodD:
  assumes "good model x"
  shows "wf_xg x" "wf_core x" "cache_ok x" "total_matchers (xg_events x)" "acyclic (porf x)"
    "reads_ok no_missing_reads_tolerance (xg_events x) (xg_rf x)" "reads_ok (\<lambda>_. True) (xg_events x) (xg_rf x)"
    "model = FifoP2P \<Longrightarrow> fifo_ok (xg_events x) (xg_rf x)"
  using assms reads_ok_mono [of no_missing_reads_tolerance "xg_events x" "xg_rf x" "\<lambda>_. True"]
  by (auto simp: good_def well_kept_def wf_xg_def consistent_def async_consistent_def)

lemma good_receive_source:
  assumes "good model x" "r < length (xg_events x)" "is_receive (xg_events x ! r)"
  obtains s where "xg_rf x r = Some s" "read_ok (xg_events x) r s"
  using reads_okD(4) [OF goodD(6) [OF assms(1)] assms(2,3)] reads_okD(2) [OF goodD(6) [OF assms(1)]]
  by (auto simp: no_missing_reads_tolerance_def)

section \<open>Previous sets as masks\<close>

lemma previous_mask:
  "length (map (previous x e s) [0..<n]) = n" "keeps (map (previous x e s) [0..<n]) i \<longleftrightarrow> i < n \<and> previous x e s i"
  by (auto simp: keeps_def)

lemma previous_po_closed:
  assumes "previous x e s r" "r' < r" "r < length (xg_events x)" "thread (xg_events x ! r') = thread (xg_events x ! r)"
  shows "previous x e s r'"
proof -
  have "(r', r) \<in> porf x" using assms by (auto simp: causal_def po_of_def)
  with assms show ?thesis by (auto simp: previous_def intro: trancl_into_trancl2)
qed

text \<open>The source a blocking receive reads now is always acceptable, so the tiebreaker never fails.\<close>

lemma current_in_masked_sources:
  assumes good: "good model x" and rf: "xg_rf x recv = Some (from_send current)"
    and mask: "length keep_mask = length (xg_events x)" "keeps keep_mask recv" "keeps keep_mask current"
    and po: "\<And>r r'. keeps keep_mask r \<Longrightarrow> r' < r \<Longrightarrow> thread (xg_events x ! r') = thread (xg_events x ! r) \<Longrightarrow> keeps keep_mask r'"
  shows "current \<in> masked_sources model keep_mask x recv"
proof -
  note rd = goodD(6) [OF good]
  let ?m = "masked_rf keep_mask (xg_rf x)"
  have "candidate (xg_events x) (xg_rf x) recv current"
    using current_consistent [of model False recv x current] good rf
    by (simp add: good_def rewire_tolerance_def consistent_sources_def)
  then have cand: "masked_candidate keep_mask (xg_events x) (xg_rf x) recv current"
    using mask by (auto simp: candidate_def masked_candidate_def compatible_def accepted_def masked_rf_Some)
  have "(recv, current) \<notin> (masked_edges keep_mask x)\<^sup>+"
  proof
    assume "(recv, current) \<in> (masked_edges keep_mask x)\<^sup>+"
    then have "(recv, current) \<in> (porf x)\<^sup>+"
      by (rule trancl_mono) (auto simp: masked_edges_def)
    moreover have "(current, recv) \<in> porf x" using rf by (auto simp: causal_def rf_of_def)
    ultimately have "(recv, recv) \<in> (porf x)\<^sup>+" by (rule trancl_into_trancl)
    with goodD(5) [OF good] show False by (auto simp: acyclic_def)
  qed
  moreover have "masked_fifo keep_mask (xg_events x) (?m(recv \<mapsto> from_send current))" if "model = FifoP2P"
  proof -
    have upd: "?m(recv \<mapsto> from_send current) = ?m"
      by (rule fun_upd_idem) (use rf mask in \<open>simp add: masked_rf_Some\<close>)
    have "\<exists>r'<r. ?m r' = Some (from_send i)" if *: "i < j" "keeps keep_mask i" "keeps keep_mask j"
      "same_channel (xg_events x) i j" "?m r = Some (from_send j)" "accepted (xg_events x) r i" for i j r
    proof -
      have r: "keeps keep_mask r" "xg_rf x r = Some (from_send j)" using *(5) by (auto simp: masked_rf_Some)
      with goodD(8) [OF good \<open>model = FifoP2P\<close>] *(1,3,4,6) mask(1) obtain r' where
        r': "r' < r" "xg_rf x r' = Some (from_send i)" unfolding fifo_ok_def keeps_def by metis
      have "thread (xg_events x ! r') = thread (xg_events x ! r)"
        using reads_okD(2) [OF rd r(2)] reads_okD(2) [OF rd r'(2)] *(4) by (auto simp: read_ok_def same_channel_def)
      with r(1) r'(1) have "keeps keep_mask r'" by (rule po)
      with r' *(2) show ?thesis by (auto simp: masked_rf_Some)
    qed
    then show ?thesis unfolding masked_fifo_def upd by blast
  qed
  ultimately show ?thesis using cand by (simp add: masked_sources_def)
qed

section \<open>The revisit condition\<close>

definition revisit_ok :: "CommunicationModel \<Rightarrow> ('v::linorder) ExplorationGraph \<Rightarrow> EventId \<Rightarrow> EventId \<Rightarrow> bool" where
  "revisit_ok model x e s \<longleftrightarrow>
     (case label (xg_events x ! e) of
        Receive rl \<Rightarrow>
          if is_nonblocking rl then xg_rf x e = Some bottom
          else \<exists>current. xg_rf x e = Some (from_send current) \<and> previous x e s current
            \<and> (let mask = map (previous x e s) [0..<length (xg_events x)] in
                 \<forall>j\<in>masked_sources model mask x e.
                   (thread (xg_events x ! current), current) \<le> (thread (xg_events x ! j), j))
      | NondeterministicChoice nd \<Rightarrow> choices nd = [] \<or> nd_value nd = Min (set (choices nd))
      | _ \<Rightarrow> \<forall>r. xg_rf x r = Some (from_send e) \<longrightarrow> \<not> previous x e s r)"

lemma receive_revisit_condition_eq:
  assumes good: "good model x" and e: "e < length (xg_events x)" "s < length (xg_events x)"
    and l: "label (xg_events x ! e) = Receive rl" "\<not> is_nonblocking rl"
  shows "receive_revisit_condition x e s model = Inr (revisit_ok model x e s)"
proof -
  let ?n = "length (xg_events x)" and ?mask = "map (previous x e s) [0..<length (xg_events x)]"
  note prev = compute_previous_set_eq [OF goodD(2,3,5) [OF good] e]
  have isr: "is_receive (xg_events x ! e)" "as_receive (xg_events x ! e) = Some rl" using l(1) by (simp_all add: event_kind_defs)
  obtain src where src: "xg_rf x e = Some src" "read_ok (xg_events x) e src"
    by (rule good_receive_source [OF good e(1) isr(1)])
  obtain current where current: "src = from_send current"
    using src(2) isr(2) l(2) by (cases src) (auto simp: read_ok_def recv_of_def)
  have cn: "current < ?n" using reads_okD(1) [OF goodD(6) [OF good]] src(1) current by (auto simp: rf_valid_def)
  have b: "blocking_receive x e"
    using e isr l by (simp add: blocking_receive_def is_receive_id_def is_valid_event_id_def recv_of_def is_blocking_def
        is_nonblocking_def) (metis ReceiveMode.exhaust)
  have self: "previous x e s e" by (simp add: previous_def)
  show ?thesis
  proof (cases "previous x e s current")
    case False
    then show ?thesis
      using src current e self cn l by (auto simp: receive_revisit_condition_def prev revisit_ok_def)
  next
    case True
    have keep: "keeps ?mask e" "keeps ?mask current" using self True e cn by (simp_all add: previous_mask)
    have "current \<in> masked_sources model ?mask x e"
      by (rule current_in_masked_sources [OF good])
        (use src current keep previous_po_closed [of x e s] in \<open>auto simp: previous_mask\<close>)
    with get_cons_tiebreaker_masked_eq [OF goodD(1,4) [OF good] b goodD(7) [OF good] _ keep, of model empty_context] src current
    obtain t where t: "get_cons_tiebreaker_masked empty_context x ?mask e model = Inr t"
      "t \<in> masked_sources model ?mask x e"
      "\<forall>j\<in>masked_sources model ?mask x e. (thread (xg_events x ! t), t) \<le> (thread (xg_events x ! j), j)"
      by (auto simp: tiebreaks_def split: if_splits)
    have "current = t \<longleftrightarrow> (\<forall>j\<in>masked_sources model ?mask x e.
        (thread (xg_events x ! current), current) \<le> (thread (xg_events x ! j), j))"
      using t(2,3) \<open>current \<in> _\<close> by (metis antisym prod.inject)
    then show ?thesis
      using src current e self cn l True t(1) by (auto simp: receive_revisit_condition_def prev revisit_ok_def Let_def)
  qed
qed

lemma revisit_condition_eq:
  assumes good: "good model x" and e: "e < length (xg_events x)" "s < length (xg_events x)"
  shows "revisit_condition x e s model = Inr (revisit_ok model x e s)"
proof -
  note prev = compute_previous_set_eq [OF goodD(2,3,5) [OF good] e]
  have valid: "rf_valid (xg_events x) (xg_rf x)" by (rule reads_okD(1) [OF goodD(6) [OF good]])
  have "any_result (reader_in_previous x e s) (rf_entries (reads_from (graph x))) =
      Inr (\<exists>en\<in>set (rf_entries (reads_from (graph x))). snd en = from_send e \<and> previous x e s (fst en))"
  proof (rule any_result_pure)
    fix en assume "en \<in> set (rf_entries (reads_from (graph x)))"
    then have "fst en < length (xg_events x)" "is_receive (xg_events x ! fst en)"
      using valid by (auto simp: set_rf_entries rf_valid_def)
    then show "reader_in_previous x e s en = Inr (snd en = from_send e \<and> previous x e s (fst en))"
      by (simp add: reader_in_previous_def xg_event_eq prev)
  qed
  moreover have "(\<exists>en\<in>set (rf_entries (reads_from (graph x))). snd en = from_send e \<and> previous x e s (fst en)) \<longleftrightarrow>
      (\<exists>r. xg_rf x r = Some (from_send e) \<and> previous x e s r)"
    by (auto simp: set_rf_entries Bex_def)
  ultimately have other: "map_result Not (any_result (reader_in_previous x e s) (rf_entries (reads_from (graph x)))) =
      Inr (\<forall>r. xg_rf x r = Some (from_send e) \<longrightarrow> \<not> previous x e s r)" by simp
  show ?thesis
  proof (cases "label (xg_events x ! e)")
    case (Receive rl)
    show ?thesis
    proof (cases "is_nonblocking rl")
      case False
      with Receive receive_revisit_condition_eq [OF good e] e show ?thesis by (simp add: revisit_condition_def xg_event_eq)
    next
      case True
      have "is_receive (xg_events x ! e)" using Receive by (simp add: event_kind_defs)
      then obtain src where "xg_rf x e = Some src" by (rule good_receive_source [OF good e(1)])
      with True Receive e show ?thesis by (simp add: revisit_condition_def xg_event_eq revisit_ok_def)
    qed
  qed (use e other in \<open>auto simp: revisit_condition_def xg_event_eq revisit_ok_def\<close>)
qed

section \<open>Backward revisits\<close>

definition deleted :: "'v ExplorationGraph \<Rightarrow> EventId \<Rightarrow> EventId \<Rightarrow> EventId \<Rightarrow> bool" where
  "deleted x recv send ep \<longleftrightarrow> recv < ep \<and> ep \<noteq> send \<and> (ep, send) \<notin> (porf x)\<^sup>+"

definition revisit_mask :: "'v ExplorationGraph \<Rightarrow> EventId \<Rightarrow> EventId \<Rightarrow> bool list" where
  "revisit_mask x recv send = map (\<lambda>ep. \<not> deleted x recv send ep) [0..<length (xg_events x)]"

definition revisitable :: "CommunicationModel \<Rightarrow> ('v::linorder) ExplorationGraph \<Rightarrow> EventId \<Rightarrow> EventId \<Rightarrow> bool" where
  "revisitable model x send recv \<longleftrightarrow> accepted (xg_events x) recv send \<and> (recv, send) \<notin> (porf x)\<^sup>+
     \<and> revisit_ok model x recv send
     \<and> (\<forall>ep<length (xg_events x). deleted x recv send ep \<longrightarrow> revisit_ok model x ep send)"

lemma deleted_scan_eq:
  assumes good: "good model x" and ids: "recv < length (xg_events x)" "send < length (xg_events x)"
    and eps: "set eps \<subseteq> {..<length (xg_events x)}"
  shows "deleted_scan x recv send model eps keep_mask = Inr
    (if \<forall>ep\<in>set eps. deleted x recv send ep \<longrightarrow> revisit_ok model x ep send
     then Some (fold (\<lambda>ep m. if deleted x recv send ep then m[ep := False] else m) eps keep_mask) else None)"
  using eps
proof (induction eps arbitrary: keep_mask)
  case (Cons ep eps)
  have ep: "ep < length (xg_events x)" using Cons.prems by simp
  have before: "inserted_before_or_equal x ep recv = Inr (ep \<le> recv)"
    using ep ids by (simp add: inserted_before_or_equal_def xg_event_count_def)
  note porf = porf_query_eq [OF goodD(2,3,5) [OF good] ep ids(2)] and rc = revisit_condition_eq [OF good ep ids(2)]
  show ?case
  proof (cases "deleted x recv send ep")
    case False
    then have "ep = recv \<or> ep = send \<or> ep \<le> recv \<or> (ep, send) \<in> (porf x)\<^sup>+" by (auto simp: deleted_def)
    with False Cons before porf show ?thesis by auto
  next
    case True
    then have "ep \<noteq> recv" "ep \<noteq> send" "\<not> ep \<le> recv" "(ep, send) \<notin> (porf x)\<^sup>+" by (auto simp: deleted_def)
    with True Cons before porf rc show ?thesis by simp
  qed
qed simp

lemma fold_clear:
  "n \<le> length m \<Longrightarrow> fold (\<lambda>ep m. if P ep then m[ep := False] else m) [0..<n] m =
     map (\<lambda>i. \<not> (i < n \<and> P i) \<and> m ! i) [0..<length m]"
proof (induction n)
  case 0
  then show ?case by (simp add: map_nth)
next
  case (Suc n)
  then show ?case by (auto intro!: nth_equalityI simp: nth_list_update less_Suc_eq split: if_splits)
qed

lemma deleted_scan_full:
  assumes "good model x" "recv < length (xg_events x)" "send < length (xg_events x)"
  shows "deleted_scan x recv send model [0..<xg_event_count x] (replicate (xg_event_count x) True) = Inr
    (if \<forall>ep<length (xg_events x). deleted x recv send ep \<longrightarrow> revisit_ok model x ep send
     then Some (revisit_mask x recv send) else None)"
proof -
  have "fold (\<lambda>ep m. if deleted x recv send ep then m[ep := False] else m) [0..<length (xg_events x)]
      (replicate (length (xg_events x)) True) = revisit_mask x recv send"
    by (subst fold_clear) (auto simp: revisit_mask_def)
  moreover have "set [0..<length (xg_events x)] \<subseteq> {..<length (xg_events x)}" by auto
  ultimately show ?thesis
    using deleted_scan_eq [OF assms, of "[0..<length (xg_events x)]" "replicate (length (xg_events x)) True"]
    by (simp add: xg_event_count_def Ball_def)
qed

lemma new_ids_fold:
  "n \<le> length keep_mask \<Longrightarrow> fold (new_ids_step keep_mask recv send) [0..<n] (None, None, 0) =
     (if recv < n \<and> keep_mask ! recv then Some (new_id keep_mask recv) else None,
      if send < n \<and> keep_mask ! send then Some (new_id keep_mask send) else None, new_id keep_mask n)"
  by (induction n) (auto simp: new_ids_step_def new_id_def less_Suc_eq)

text \<open>The child of a revisit: the kept events, with the receive reading the new send.\<close>

definition revisit_of ::
    "'v ExplorationGraph \<Rightarrow> EventId \<Rightarrow> EventId \<Rightarrow> 'v ExplorationGraph \<Rightarrow> bool" where
  "revisit_of x send recv y \<longleftrightarrow> (\<exists>x'. restricts (revisit_mask x recv send) x x' \<and> xg_events y = xg_events x'
     \<and> xg_rf y = (xg_rf x')(new_id (revisit_mask x recv send) recv \<mapsto> from_send (new_id (revisit_mask x recv send) send)))
     \<and> event_undo_log y = [] \<and> rf_undo_log y = []"

lemma restricts_total_matchers:
  assumes "restricts keep_mask x x'" "length keep_mask = length (xg_events x)" "total_matchers (xg_events x)"
  shows "total_matchers (xg_events x')"
  unfolding total_matchers_def
proof (intro ballI allI impI)
  fix e rl v assume "e \<in> set (xg_events x')" "as_receive e = Some rl"
  then obtain j where j: "j < length (kept_ids keep_mask)" "as_receive (xg_events x ! (kept_ids keep_mask ! j)) = Some rl"
    using label_kinds [OF restricts_events(3) [OF assms(1)]] restricts_events(1) [OF assms(1)] by (metis in_set_conv_nth)
  then have "kept_ids keep_mask ! j < length (xg_events x)" using keeps_kept [OF j(1)] assms(2) by (simp add: keeps_def)
  then show "\<exists>b. matches rl v = Inr b"
    using total_matchers_recv [OF assms(3) _ j(2)] unfolding total_matcher_def by blast
qed

lemma revisit_receive_eq:
  assumes good: "good model x"
    and recv: "recv < length (xg_events x)" "is_receive (xg_events x ! recv)"
    and send: "send < length (xg_events x)" "as_send (xg_events x ! send) = Some sl"
  shows "if revisitable model x send recv
    then \<exists>y. revisit_receive x send sl model recv = Inr (Some y) \<and> well_kept y \<and> revisit_of x send recv y
    else revisit_receive x send sl model recv = Inr None"
proof -
  let ?M = "revisit_mask x recv send" and ?n = "length (xg_events x)"
  obtain rl where rl: "as_receive (xg_events x ! recv) = Some rl"
    using recv(2) by (metis is_receive_as_receive option.exhaust)
  have acc: "accepts rl (send_value sl) = Inr (accepted (xg_events x) recv send)"
    using total_matcher_accepts [OF total_matchers_recv [OF goodD(4) [OF good] recv(1) rl], of "send_value sl"] rl send(2)
    by (simp add: accepted_def recv_of_def send_of_def del: accepts_eq_Inr)
  note porf = porf_query_eq [OF goodD(2,3,5) [OF good] recv(1) send(1)]
    and rc = revisit_condition_eq [OF good recv(1) send(1)] and ds = deleted_scan_full [OF good recv(1) send(1)]
  show ?thesis
  proof (cases "revisitable model x send recv")
    case False
    then show ?thesis using recv(1) by (auto simp: revisit_receive_def xg_event_eq rl acc porf rc ds revisitable_def)
  next
    case True
    have len: "length ?M = ?n" by (simp add: revisit_mask_def)
    have k: "keeps ?M recv" "keeps ?M send"
      using recv(1) send(1) by (simp_all add: revisit_mask_def keeps_def deleted_def)
    note nr = keeps_new_id [OF k(1)] and ns = keeps_new_id [OF k(2)]
    obtain x' where x': "restrict_from_keep_mask ?M x = Inr x'" "wf_xg x'" "restricts ?M x x'"
      "known_acyclic x' = known_acyclic x" "event_undo_log x' = []" "rf_undo_log x' = []"
      using restrict_from_keep_mask_wf [OF goodD(1) [OF good] len] by blast
    have core': "wf_core x'" using x'(2) by (simp add: wf_xg_def)
    have iss: "is_send (xg_events x ! send)" using send(2) by (simp add: is_send_as_send)
    have ids': "new_id ?M recv < length (xg_events x')" "is_receive (xg_events x' ! new_id ?M recv)"
      "new_id ?M send < length (xg_events x')" "is_send (xg_events x' ! new_id ?M send)"
      using restricts_events(1) [OF x'(3)] restricts_labels(1) [OF x'(3) nr(1)] restricts_labels(2) [OF x'(3) ns(1)]
        nr ns recv(2) iss by simp_all
    have acyc: "acyclic (porf x')"
      using acyclic_inv_image [OF goodD(5) [OF good]] restricts_causal [OF x'(3) len goodD(2) [OF good]] by (rule acyclic_subset)
    have "(recv, send) \<notin> (masked_edges ?M x)\<^sup>+"
      using True trancl_mono [of "(recv, send)" "masked_edges ?M x" "porf x"]
      by (auto simp: revisitable_def masked_edges_def)
    then have "(new_id ?M recv, new_id ?M send) \<notin> (porf x')\<^sup>+"
      using restricts_porf_trancl [OF x'(3) len goodD(2) [OF good] core' nr(1) ns(1)] nr(2) ns(2) by simp
    moreover have "new_id ?M recv \<noteq> new_id ?M send" using ids' send_not_receive by metis
    ultimately have "acyclic (causal (xg_events x') ((xg_rf x')(new_id ?M recv \<mapsto> from_send (new_id ?M send))))"
      using rewire_acyclic_iff [OF acyc] by blast
    then obtain y where y: "rebind_rf_preserving_known_acyclicity (new_id ?M recv) (new_id ?M send) x' = Inr y"
      "wf_xg y" "xg_events y = xg_events x'" "xg_rf y = (xg_rf x')(new_id ?M recv \<mapsto> from_send (new_id ?M send))"
      "event_undo_log y = []" "rf_undo_log y = []"
      using rebind_rf_wf [OF x'(2) ids'(1,2) _ _ x'(5,6)] ids'(3,4)
      unfolding rebind_rf_preserving_known_acyclicity_def by (auto simp: source_ok_def)
    have "porf_cache y = None"
      using y(1) unfolding rebind_rf_preserving_known_acyclicity_def by (rule rebind_rf_cache)
    then have "cache_ok y" by (simp add: cache_ok_def)
    moreover have "total_matchers (xg_events y)"
      using restricts_total_matchers [OF x'(3) len goodD(4) [OF good]] y(3) by simp
    ultimately have "well_kept y" "revisit_of x send recv y" using y x'(3) by (auto simp: well_kept_def revisit_of_def)
    moreover have "revisit_receive x send sl model recv = Inr (Some y)"
      using True recv(1) x'(1) y(1) k len new_ids_fold [of ?n ?M recv send]
      by (simp add: revisit_receive_def xg_event_eq rl acc porf rc ds [unfolded xg_event_count_def] revisitable_def
          xg_event_count_def keeps_def)
    ultimately show ?thesis using True by simp
  qed
qed

lemma revisit_scan_eq:
  assumes good: "good model x" and send: "send < length (xg_events x)" "as_send (xg_events x ! send) = Some sl"
    and rs: "\<forall>r\<in>set rs. r < length (xg_events x) \<and> is_receive (xg_events x ! r)"
  shows "\<exists>res. revisit_scan x send sl model k rs = Inr res \<and>
    (case revisit_child res of
       None \<Rightarrow> \<forall>r\<in>set rs. \<not> revisitable model x send r
     | Some y \<Rightarrow> \<exists>i<length rs. next_receive_index res = k + i + 1 \<and> revisitable model x send (rs ! i)
         \<and> (\<forall>j<i. \<not> revisitable model x send (rs ! j)) \<and> well_kept y \<and> revisit_of x send (rs ! i) y)"
  using rs
proof (induction rs arbitrary: k)
  case (Cons r rs)
  then have r: "r < length (xg_events x)" "is_receive (xg_events x ! r)" by auto
  note rev = revisit_receive_eq [OF good r send]
  show ?case
  proof (cases "revisitable model x send r")
    case True
    with rev obtain y where "revisit_receive x send sl model r = Inr (Some y)" "well_kept y" "revisit_of x send r y"
      by auto
    with True show ?thesis by (auto intro: exI [of _ 0])
  next
    case False
    with rev have eq: "revisit_scan x send sl model k (r # rs) = revisit_scan x send sl model (k + 1) rs" by simp
    from Cons.prems have "\<forall>r\<in>set rs. r < length (xg_events x) \<and> is_receive (xg_events x ! r)" by simp
    from Cons.IH [OF this, of "k + 1"] obtain res where res: "revisit_scan x send sl model (k + 1) rs = Inr res"
      "case revisit_child res of
         None \<Rightarrow> \<forall>r\<in>set rs. \<not> revisitable model x send r
       | Some y \<Rightarrow> \<exists>i<length rs. next_receive_index res = k + 1 + i + 1 \<and> revisitable model x send (rs ! i)
           \<and> (\<forall>j<i. \<not> revisitable model x send (rs ! j)) \<and> well_kept y \<and> revisit_of x send (rs ! i) y"
      by blast
    show ?thesis
    proof (cases "revisit_child res")
      case None
      with res False eq show ?thesis by auto
    next
      case (Some y)
      with res(2) obtain i where i: "i < length rs" "next_receive_index res = k + 1 + i + 1"
        "revisitable model x send (rs ! i)" "\<forall>j<i. \<not> revisitable model x send (rs ! j)"
        "well_kept y" "revisit_of x send (rs ! i) y" by auto
      have "\<forall>j<Suc i. \<not> revisitable model x send ((r # rs) ! j)"
        using i(4) False by (auto simp: less_Suc_eq_0_disj)
      with i Some res(1) eq show ?thesis by (auto intro!: exI [of _ "Suc i"])
    qed
  qed
qed simp

lemma next_backward_revisit_child_eq:
  assumes good: "good model x" and send: "send < length (xg_events x)" "is_send (xg_events x ! send)"
    and rs: "\<forall>r\<in>set rs. r < length (xg_events x) \<and> is_receive (xg_events x ! r)"
  shows "\<exists>res. next_backward_revisit_child x send model rs start = Inr res \<and>
    (case revisit_child res of
       None \<Rightarrow> \<forall>i. start \<le> i \<and> i < length rs \<longrightarrow> \<not> revisitable model x send (rs ! i)
     | Some y \<Rightarrow> \<exists>i\<ge>start. i < length rs \<and> next_receive_index res = i + 1 \<and> revisitable model x send (rs ! i)
         \<and> (\<forall>j. start \<le> j \<and> j < i \<longrightarrow> \<not> revisitable model x send (rs ! j)) \<and> well_kept y
         \<and> revisit_of x send (rs ! i) y)"
proof -
  obtain sl where sl: "as_send (xg_events x ! send) = Some sl" using send(2) by (metis is_send_as_send option.exhaust)
  have ds: "\<forall>r\<in>set (drop start rs). r < length (xg_events x) \<and> is_receive (xg_events x ! r)"
    using rs in_set_dropD by metis
  show ?thesis
  proof (cases "start < length rs")
    case False
    then show ?thesis using send sl by (auto simp: next_backward_revisit_child_def xg_event_eq)
  next
    case True
    from revisit_scan_eq [OF good send(1) sl ds, of start] obtain res where
      res: "revisit_scan x send sl model start (drop start rs) = Inr res" and
      child: "case revisit_child res of
         None \<Rightarrow> \<forall>r\<in>set (drop start rs). \<not> revisitable model x send r
       | Some y \<Rightarrow> \<exists>i<length (drop start rs). next_receive_index res = start + i + 1
           \<and> revisitable model x send (drop start rs ! i)
           \<and> (\<forall>j<i. \<not> revisitable model x send (drop start rs ! j)) \<and> well_kept y
           \<and> revisit_of x send (drop start rs ! i) y" by blast
    have eq: "next_backward_revisit_child x send model rs start = Inr res"
      using True send sl res by (simp add: next_backward_revisit_child_def xg_event_eq)
    show ?thesis
    proof (cases "revisit_child res")
      case None
      have "rs ! i \<in> set (drop start rs)" if "start \<le> i" "i < length rs" for i
        using that nth_mem [of "i - start" "drop start rs"] by simp
      with None child eq show ?thesis by auto
    next
      case (Some y)
      with child obtain i where i: "i < length rs - start" "next_receive_index res = start + i + 1"
        "revisitable model x send (rs ! (start + i))" "\<forall>j<i. \<not> revisitable model x send (rs ! (start + j))"
        "well_kept y" "revisit_of x send (rs ! (start + i)) y" using True by auto
      have "\<not> revisitable model x send (rs ! j)" if "start \<le> j" "j < start + i" for j
        using i(4) [rule_format, of "j - start"] that by simp
      with i Some eq show ?thesis by (auto intro!: exI [of _ "start + i"])
    qed
  qed
qed

section \<open>Properties\<close>

text \<open>C29. On a consistent graph the revisit condition never throws, and it is decided as specified: a
  blocking receive reads the source the tiebreaker prefers among the previous events, a nonblocking one
  reads bottom, a nondeterministic choice holds its least value, and every other event is read by no
  previous receive.\<close>

theorem revisit_condition_decided:
  assumes "well_kept x" "consistent model no_missing_reads_tolerance (xg_events x) (xg_rf x)"
    and "e < length (xg_events x)" "s < length (xg_events x)"
  shows "revisit_condition x e s model = Inr (revisit_ok model x e s)"
proof -
  from assms(1,2) have "good model x" by (simp add: good_def)
  then show ?thesis using assms(3,4) by (rule revisit_condition_eq)
qed

theorem revisit_condition_decided_witness:
  "revisit_condition sample_xg 1 0 FifoP2P = Inr (revisit_ok FifoP2P sample_xg 1 0)"
  using revisit_condition_decided [of sample_xg FifoP2P 1 0] sample_consistent sample_total
  by (simp add: well_kept_def)

text \<open>C28. On a consistent graph the search for backward revisits never throws. It returns the first receive
  from the start index on that the send may revisit, and its child: the graph restricted to the events that
  are not deleted, with the receive reading the send, all invariants intact and empty undo logs. When it
  returns no child, no receive from the start index on may be revisited.\<close>

theorem backward_revisit_children:
  assumes "well_kept x" "consistent model no_missing_reads_tolerance (xg_events x) (xg_rf x)"
    and "send < length (xg_events x)" "is_send (xg_events x ! send)"
  shows "\<exists>receives res. receives_in_destination x send = Inr receives
    \<and> next_backward_revisit_child x send model receives start = Inr res \<and>
    (case revisit_child res of
       None \<Rightarrow> \<forall>i. start \<le> i \<and> i < length receives \<longrightarrow> \<not> revisitable model x send (receives ! i)
     | Some y \<Rightarrow> \<exists>i\<ge>start. i < length receives \<and> next_receive_index res = i + 1
         \<and> revisitable model x send (receives ! i)
         \<and> (\<forall>j. start \<le> j \<and> j < i \<longrightarrow> \<not> revisitable model x send (receives ! j))
         \<and> well_kept y \<and> revisit_of x send (receives ! i) y)"
proof -
  have good: "good model x" using assms(1,2) by (simp add: good_def)
  obtain sl where sl: "as_send (xg_events x ! send) = Some sl" using assms(4) by (metis is_send_as_send option.exhaust)
  let ?rs = "recv_ids (xg_events x) (destination sl)"
  have "receives_in_destination x send = Inr ?rs"
    by (rule receives_in_destination_eq [OF goodD(2) [OF good] assms(3) sl])
  moreover have "\<forall>r\<in>set ?rs. r < length (xg_events x) \<and> is_receive (xg_events x ! r)"
    by (auto simp: recv_ids_def thread_ids_def)
  note next_backward_revisit_child_eq [OF good assms(3,4) this, of start]
  ultimately show ?thesis by blast
qed

theorem backward_revisit_children_witness:
  "\<exists>receives res. receives_in_destination sample_xg 0 = Inr receives
     \<and> next_backward_revisit_child sample_xg 0 FifoP2P receives 0 = Inr res"
proof -
  have "is_send (sample_events ! 0)" by (simp add: sample_events_def is_send_def)
  then show ?thesis
    using backward_revisit_children [of sample_xg FifoP2P 0 0] sample_consistent sample_total
    by (auto simp: well_kept_def)
qed

end
