(* ===== verification/Executor.thy ===== *)
theory Executor
  imports Revisit_Spec
begin

text \<open>
  Configuration, observers and executors of \<^verbatim>\<open>include/dpor/algo/dpor.hpp\<close>. An executor is what the
  explorer reports to: it owns the stop flag and the counters, publishes terminal executions and may
  take over exploration tasks. \<^verbatim>\<open>ExecutorT\<close> is a template parameter of the explorer, so it is a record of
  operations on an executor state here; \<^verbatim>\<open>SequentialExecutor\<close> is the instance at the end. Observers and
  the clock act on a user state of their own, threaded through every call; times are integers.
\<close>

section \<open>Actions\<close>

text \<open>A step on a state that may throw: the state reached is kept in both cases.\<close>

type_synonym ('s, 'a) action = "'s \<Rightarrow> 'a result \<times> 's"

definition return_action :: "'a \<Rightarrow> ('s, 'a) action" where
  "return_action a s = (Inr a, s)"

definition lift_result :: "'a result \<Rightarrow> ('s, 'a) action" where
  "lift_result r s = (r, s)"

definition bind_action :: "('s, 'a) action \<Rightarrow> ('a \<Rightarrow> ('s, 'b) action) \<Rightarrow> ('s, 'b) action" where
  "bind_action m f s = (case m s of (Inl e, s') \<Rightarrow> (Inl e, s') | (Inr a, s') \<Rightarrow> f a s')"

text \<open>An action that reads its state first.\<close>

definition with_state :: "('s \<Rightarrow> ('s, 'a) action) \<Rightarrow> ('s, 'a) action" where
  "with_state m s = m s s"

section \<open>Observers and configuration\<close>

datatype ProgressState = Running | ProgressStopped | ProgressAllExplored

record ProgressSnapshot =
  state :: ProgressState
  elapsed :: int
  terminal_executions :: nat
  full_executions :: nat
  blocked_executions :: nat
  error_executions :: nat
  depth_limit_executions :: nat
  thread_event_limit_executions :: nat
  max_thread_event_depth :: nat
  active_workers :: nat
  max_workers :: nat
  queued_tasks :: nat
  max_queued_tasks :: nat
  counts_exact :: bool

definition initial_snapshot :: ProgressSnapshot where
  "initial_snapshot = \<lparr>state = Running, elapsed = 0, terminal_executions = 0, full_executions = 0,
     blocked_executions = 0, error_executions = 0, depth_limit_executions = 0,
     thread_event_limit_executions = 0, max_thread_event_depth = 0, active_workers = 0, max_workers = 1,
     queued_tasks = 0, max_queued_tasks = 0, counts_exact = True\<rparr>"

record 'v TerminalExecution =
  execution_graph :: "'v ExplorationGraph"
  execution_kind :: TerminalExecutionKind

definition is_full_execution :: "'v TerminalExecution \<Rightarrow> bool" where
  "is_full_execution ex \<longleftrightarrow> execution_kind ex = Full"

definition is_blocked_execution :: "'v TerminalExecution \<Rightarrow> bool" where
  "is_blocked_execution ex \<longleftrightarrow> execution_kind ex = Blocked"

definition is_error_execution :: "'v TerminalExecution \<Rightarrow> bool" where
  "is_error_execution ex \<longleftrightarrow> execution_kind ex = ErrorExecution"

definition is_depth_limit_execution :: "'v TerminalExecution \<Rightarrow> bool" where
  "is_depth_limit_execution ex \<longleftrightarrow> execution_kind ex = DepthLimit"

definition is_thread_event_limit_execution :: "'v TerminalExecution \<Rightarrow> bool" where
  "is_thread_event_limit_execution ex \<longleftrightarrow> execution_kind ex = ThreadEventLimit"

text \<open>The four callables an observer may be built from; the void ones count as \<^verbatim>\<open>Continue\<close>.\<close>

datatype ('v, 'u) ObserverFn =
    OnExecution "'v TerminalExecution \<Rightarrow> ('u, TerminalExecutionAction) action"
  | OnExecutionVoid "'v TerminalExecution \<Rightarrow> ('u, unit) action"
  | OnGraph "'v ExplorationGraph \<Rightarrow> ('u, TerminalExecutionAction) action"
  | OnGraphVoid "'v ExplorationGraph \<Rightarrow> ('u, unit) action"

type_synonym ('v, 'u) Handler = "'v TerminalExecution \<Rightarrow> ('u, TerminalExecutionAction) action"

definition assign_observer :: "('v, 'u) ObserverFn \<Rightarrow> ('v, 'u) Handler" where
  "assign_observer fn ex =
     (case fn of
        OnExecution f \<Rightarrow> f ex
      | OnExecutionVoid f \<Rightarrow> bind_action (f ex) (\<lambda>_. return_action Continue)
      | OnGraph f \<Rightarrow> f (execution_graph ex)
      | OnGraphVoid f \<Rightarrow> bind_action (f (execution_graph ex)) (\<lambda>_. return_action Continue))"

text \<open>\<^verbatim>\<open>TerminalExecutionObserverT::operator()\<close>; an unset observer continues.\<close>

definition observe :: "('v, 'u) Handler option \<Rightarrow> ('v, 'u) Handler" where
  "observe handler ex = (case handler of None \<Rightarrow> return_action Continue | Some h \<Rightarrow> h ex)"

record 'v FatalErrorContext =
  failure_graph :: "'v ExplorationGraph"
  failure :: exn

record ('v, 'u) DporConfig =
  config_program :: "'v Program"
  max_depth :: nat
  max_thread_events :: nat
  communication_model :: CommunicationModel
  on_terminal_execution :: "('v, 'u) Handler option"
  on_progress :: "(ProgressSnapshot \<Rightarrow> ('u, unit) action) option"
  progress_report_interval :: int
  on_execution :: "('v, 'u) Handler option"
  on_fatal_error :: "('v FatalErrorContext \<Rightarrow> ('u, unit) action) option"

definition invoke_user_action ::
    "UserCallbackKind \<Rightarrow> nat option \<Rightarrow> ('u, 'a) action \<Rightarrow> ('u, 'a) action" where
  "invoke_user_action kind tid m u = (case m u of (r, u') \<Rightarrow> (invoke_user_code kind tid r, u'))"

definition notify_terminal_execution ::
    "('v, 'u) DporConfig \<Rightarrow> 'v ExplorationGraph \<Rightarrow> TerminalExecutionKind \<Rightarrow> ('u, TerminalExecutionAction) action"
where
  "notify_terminal_execution config x kind =
     (let ex = \<lparr>execution_graph = x, execution_kind = kind\<rparr>
      in if on_terminal_execution config \<noteq> None
         then invoke_user_action TerminalObserver None (observe (on_terminal_execution config) ex)
         else if on_execution config \<noteq> None
         then invoke_user_action TerminalObserver None (observe (on_execution config) ex)
         else return_action Continue)"

definition validate_terminal_observer_config :: "('v, 'u) DporConfig \<Rightarrow> unit result" where
  "validate_terminal_observer_config config =
     (if on_terminal_execution config \<noteq> None \<and> on_execution config \<noteq> None
      then Inl (precondition_error
        ''DporConfigT: set only one of on_terminal_execution and its legacy alias on_execution'')
      else Inr ())"

definition progress_state_from_result_kind :: "VerifyResultKind \<Rightarrow> ProgressState" where
  "progress_state_from_result_kind kind = (if kind = Stopped then ProgressStopped else ProgressAllExplored)"

definition notify_progress :: "('v, 'u) DporConfig \<Rightarrow> ProgressSnapshot \<Rightarrow> ('u, unit) action" where
  "notify_progress config snapshot =
     (case on_progress config of
        None \<Rightarrow> return_action ()
      | Some f \<Rightarrow> invoke_user_action ProgressObserver None (f snapshot))"

section \<open>The executor interface\<close>

datatype ExplorationTaskMode = Visit | VisitIfConsistent

record 'v ExplorationTask =
  task_graph :: "'v ExplorationGraph"
  task_dpor_tree_depth :: nat
  task_mode :: ExplorationTaskMode

record ('v, 's) Executor =
  stop_requested :: "'s \<Rightarrow> bool \<times> 's"
  maybe_report_progress :: "('s, unit) action"
  can_spawn :: "nat \<Rightarrow> 's \<Rightarrow> bool \<times> 's"
  should_split_to_idle_worker :: "nat \<Rightarrow> 's \<Rightarrow> bool \<times> 's"
  note_nd_split :: "'s \<Rightarrow> 's"
  note_receive_split :: "'s \<Rightarrow> 's"
  try_enqueue :: "'v ExplorationTask \<Rightarrow> 's \<Rightarrow> bool \<times> 's"
  publish_terminal_execution :: "'v ExplorationGraph \<Rightarrow> TerminalExecutionKind \<Rightarrow> nat \<Rightarrow> ('s, bool) action"
  notify_fatal_error :: "'v ExplorationGraph \<Rightarrow> exn \<Rightarrow> 's \<Rightarrow> 's"

text \<open>A refused task gives its graph back to the caller, which in the model still has it.\<close>

definition try_enqueue_owned_task ::
    "('v, 's) Executor \<Rightarrow> 'v ExplorationGraph \<Rightarrow> nat \<Rightarrow> ExplorationTaskMode \<Rightarrow> 's \<Rightarrow> bool \<times> 's" where
  "try_enqueue_owned_task ex x depth task_md =
     try_enqueue ex \<lparr>task_graph = x, task_dpor_tree_depth = depth, task_mode = task_md\<rparr>"

section \<open>The sequential executor\<close>

record 'u SequentialState =
  result :: VerifyResult
  next_progress_report_at :: int
  user :: 'u

definition make_progress_snapshot :: "int \<Rightarrow> ProgressState \<Rightarrow> int \<Rightarrow> VerifyResult \<Rightarrow> ProgressSnapshot" where
  "make_progress_snapshot start_time st now r =
     initial_snapshot\<lparr>state := st, elapsed := now - start_time,
       terminal_executions := executions_explored r, full_executions := full_executions_explored r,
       blocked_executions := blocked_executions_explored r, error_executions := error_executions_explored r,
       depth_limit_executions := depth_limit_executions_explored r,
       thread_event_limit_executions := thread_event_limit_executions_explored r,
       max_thread_event_depth := max_thread_event_depth_reached r,
       active_workers := (if st = Running then 1 else 0)\<rparr>"

definition on_user :: "('u, 'a) action \<Rightarrow> ('u SequentialState, 'a) action" where
  "on_user m s = (case m (user s) of (r, u) \<Rightarrow> (r, s\<lparr>user := u\<rparr>))"

definition read_clock :: "('u \<Rightarrow> int \<times> 'u) \<Rightarrow> ('u SequentialState, int) action" where
  "read_clock clock = on_user (\<lambda>u. case clock u of (now, u') \<Rightarrow> (Inr now, u'))"

definition sequential_state :: "('v, 'u) DporConfig \<Rightarrow> int \<Rightarrow> VerifyResult \<Rightarrow> 'u \<Rightarrow> 'u SequentialState" where
  "sequential_state config start_time r u =
     \<lparr>result = r,
      next_progress_report_at = (if progress_report_interval config > 0
        then start_time + progress_report_interval config else start_time),
      user = u\<rparr>"

definition seq_stop_requested :: "'u SequentialState \<Rightarrow> bool" where
  "seq_stop_requested s \<longleftrightarrow> result_kind (result s) = Stopped"

definition request_stop :: "'u SequentialState \<Rightarrow> 'u SequentialState" where
  "request_stop s = s\<lparr>result := (result s)\<lparr>result_kind := Stopped\<rparr>\<rparr>"

definition seq_maybe_report_progress ::
    "('v, 'u) DporConfig \<Rightarrow> ('u \<Rightarrow> int \<times> 'u) \<Rightarrow> int \<Rightarrow> ('u SequentialState, unit) action" where
  "seq_maybe_report_progress config clock start_time =
     (if on_progress config = None then return_action ()
      else bind_action (read_clock clock) (\<lambda>now s.
        if progress_report_interval config > 0 \<and> now < next_progress_report_at s then (Inr (), s)
        else let s1 = (if progress_report_interval config > 0
                       then s\<lparr>next_progress_report_at := now + progress_report_interval config\<rparr> else s)
             in on_user (notify_progress config (make_progress_snapshot start_time Running now (result s1))) s1))"

definition seq_publish_terminal_execution ::
    "('v, 'u) DporConfig \<Rightarrow> 'v ExplorationGraph \<Rightarrow> TerminalExecutionKind \<Rightarrow> nat \<Rightarrow> ('u SequentialState, bool) action"
where
  "seq_publish_terminal_execution config x kind depth s =
     bind_action (on_user (notify_terminal_execution config x kind))
       (\<lambda>act s'. (Inr True, if act = Stop then request_stop s' else s'))
       (s\<lparr>result := increment_terminal_counts kind depth (result s)\<rparr>)"

definition publish_final_progress ::
    "('v, 'u) DporConfig \<Rightarrow> ('u \<Rightarrow> int \<times> 'u) \<Rightarrow> int \<Rightarrow> ('u SequentialState, unit) action" where
  "publish_final_progress config clock start_time =
     (if on_progress config = None then return_action ()
      else bind_action (read_clock clock) (\<lambda>now s.
        on_user (notify_progress config (make_progress_snapshot start_time
          (progress_state_from_result_kind (result_kind (result s))) now (result s))) s))"

text \<open>The hook is \<^verbatim>\<open>noexcept\<close>: what the observer throws is dropped, its effects stay.\<close>

definition seq_notify_fatal_error ::
    "('v, 'u) DporConfig \<Rightarrow> 'v ExplorationGraph \<Rightarrow> exn \<Rightarrow> 'u SequentialState \<Rightarrow> 'u SequentialState" where
  "seq_notify_fatal_error config x e s =
     (case on_fatal_error config of
        None \<Rightarrow> s
      | Some f \<Rightarrow> snd (on_user (f \<lparr>failure_graph = x, failure = e\<rparr>) s))"

definition SequentialExecutor ::
    "('v, 'u) DporConfig \<Rightarrow> ('u \<Rightarrow> int \<times> 'u) \<Rightarrow> int \<Rightarrow> ('v, 'u SequentialState) Executor" where
  "SequentialExecutor config clock start_time =
     \<lparr>stop_requested = (\<lambda>s. (seq_stop_requested s, s)),
      maybe_report_progress = seq_maybe_report_progress config clock start_time,
      can_spawn = (\<lambda>_ s. (False, s)),
      should_split_to_idle_worker = (\<lambda>_ s. (False, s)),
      note_nd_split = id,
      note_receive_split = id,
      try_enqueue = (\<lambda>_ s. (False, s)),
      publish_terminal_execution = seq_publish_terminal_execution config,
      notify_fatal_error = seq_notify_fatal_error config\<rparr>"

end
