(* ===== verification/Explorer.thy ===== *)
theory Explorer
  imports Executor "HOL-Library.While_Combinator"
begin

text \<open>
  \<^verbatim>\<open>DepthFirstExplorer\<close> of \<^verbatim>\<open>include/dpor/algo/dpor.hpp\<close>: an explicit stack of contexts, each with a graph
  of its own or a borrowed one and a stack of frames. The back of a C++ vector is the head of a list here.
  One function per handler, one for an iteration of the loop, and the loop itself as a
  \<open>while_option\<close>, so that an exploration that never ends has no value. A graph operation that throws leaves
  the graph as it was before that operation.
\<close>

section \<open>Frames and contexts\<close>

datatype ExplorationFrameKind = Enter | ExitLinearChild | ResumeNd | ResumeReceive | ResumeSendRevisits

record 'v ExplorationFrame =
  frame_kind :: ExplorationFrameKind
  dpor_tree_depth :: nat
  frame_mode :: ExplorationTaskMode
  frame_checkpoint :: Checkpoint
  cursor :: nat
  frame_event_id :: "EventId option"
  frame_thread_id :: ThreadId
  frame_label :: "'v EventLabel option"
  candidate_event_ids :: "EventId list"
  flag :: bool

definition initial_checkpoint :: Checkpoint where
  "initial_checkpoint = \<lparr>event_undo_size = 0, rf_undo_size = 0, cp_known_acyclic = True,
     cp_pending_fresh_receive_id = None\<rparr>"

definition enter :: "nat \<Rightarrow> ExplorationTaskMode \<Rightarrow> 'v ExplorationFrame" where
  "enter depth md = \<lparr>frame_kind = Enter, dpor_tree_depth = depth, frame_mode = md,
     frame_checkpoint = initial_checkpoint, cursor = 0, frame_event_id = None, frame_thread_id = 0,
     frame_label = None, candidate_event_ids = [], flag = False\<rparr>"

record 'v ExplorationContext =
  owned_graph :: "'v ExplorationGraph option"
  frames :: "'v ExplorationFrame list"

text \<open>
  The explorer with what it points to: the graph the bottom context borrows and the executor's state.
\<close>

record ('v, 's) Explorer =
  borrowed_graph :: "'v ExplorationGraph"
  contexts :: "'v ExplorationContext list"
  executor_state :: 's

definition context_graph :: "'v ExplorationGraph \<Rightarrow> 'v ExplorationContext \<Rightarrow> 'v ExplorationGraph" where
  "context_graph b c = (case owned_graph c of Some x \<Rightarrow> x | None \<Rightarrow> b)"

definition current_context :: "('v, 's) Explorer \<Rightarrow> 'v ExplorationContext" where
  "current_context st = hd (contexts st)"

definition current_graph :: "('v, 's) Explorer \<Rightarrow> 'v ExplorationGraph" where
  "current_graph st = context_graph (borrowed_graph st) (current_context st)"

definition top_frame :: "('v, 's) Explorer \<Rightarrow> 'v ExplorationFrame" where
  "top_frame st = hd (frames (current_context st))"

text \<open>Writes through the references \<^verbatim>\<open>context.graph()\<close>, \<^verbatim>\<open>frame\<close> and \<^verbatim>\<open>context.frames\<close>.\<close>

definition set_current_graph :: "'v ExplorationGraph \<Rightarrow> ('v, 's) Explorer \<Rightarrow> ('v, 's) Explorer" where
  "set_current_graph x st =
     (case owned_graph (current_context st) of
        None \<Rightarrow> st\<lparr>borrowed_graph := x\<rparr>
      | Some _ \<Rightarrow> st\<lparr>contexts := (current_context st)\<lparr>owned_graph := Some x\<rparr> # tl (contexts st)\<rparr>)"

definition set_frames :: "'v ExplorationFrame list \<Rightarrow> ('v, 's) Explorer \<Rightarrow> ('v, 's) Explorer" where
  "set_frames fs st = st\<lparr>contexts := (current_context st)\<lparr>frames := fs\<rparr> # tl (contexts st)\<rparr>"

definition modify_frame ::
    "('v ExplorationFrame \<Rightarrow> 'v ExplorationFrame) \<Rightarrow> ('v, 's) Explorer \<Rightarrow> ('v, 's) Explorer" where
  "modify_frame h st = set_frames (h (top_frame st) # tl (frames (current_context st))) st"

definition push_frame :: "'v ExplorationFrame \<Rightarrow> ('v, 's) Explorer \<Rightarrow> ('v, 's) Explorer" where
  "push_frame f st = set_frames (f # frames (current_context st)) st"

definition pop_context_if_empty :: "'v ExplorationContext list \<Rightarrow> 'v ExplorationContext list" where
  "pop_context_if_empty cs = (case cs of [] \<Rightarrow> [] | c # cs' \<Rightarrow> if frames c = [] then cs' else cs)"

definition pop_top_frame :: "('v, 's) Explorer \<Rightarrow> ('v, 's) Explorer" where
  "pop_top_frame st =
     (let st1 = set_frames (tl (frames (current_context st))) st
      in st1\<lparr>contexts := pop_context_if_empty (contexts st1)\<rparr>)"

definition pop_context :: "('v, 's) Explorer \<Rightarrow> ('v, 's) Explorer" where
  "pop_context st = st\<lparr>contexts := tl (contexts st)\<rparr>"

definition push_owned_context ::
    "'v ExplorationGraph \<Rightarrow> nat \<Rightarrow> ExplorationTaskMode \<Rightarrow> ('v, 's) Explorer \<Rightarrow> ('v, 's) Explorer" where
  "push_owned_context x depth md st =
     st\<lparr>contexts := \<lparr>owned_graph = Some x, frames = [enter depth md]\<rparr> # contexts st\<rparr>"

section \<open>Actions of the explorer\<close>

type_synonym ('v, 's, 'a) explore = "(('v, 's) Explorer, 'a) action"

definition on_executor :: "('s, 'a) action \<Rightarrow> ('v, 's, 'a) explore" where
  "on_executor m st = (case m (executor_state st) of (r, s) \<Rightarrow> (r, st\<lparr>executor_state := s\<rparr>))"

definition ask_executor :: "('s \<Rightarrow> 'a \<times> 's) \<Rightarrow> ('v, 's, 'a) explore" where
  "ask_executor q = on_executor (\<lambda>s. case q s of (a, s') \<Rightarrow> (Inr a, s'))"

definition modify :: "(('v, 's) Explorer \<Rightarrow> ('v, 's) Explorer) \<Rightarrow> ('v, 's, unit) explore" where
  "modify h st = (Inr (), h st)"

text \<open>An operation on the current graph.\<close>

definition on_graph ::
    "('v ExplorationGraph \<Rightarrow> ('a \<times> 'v ExplorationGraph) result) \<Rightarrow> ('v, 's, 'a) explore" where
  "on_graph m st =
     (case m (current_graph st) of
        Inl e \<Rightarrow> (Inl e, st)
      | Inr (a, x) \<Rightarrow> (Inr a, set_current_graph x st))"

definition on_graph_void ::
    "('v ExplorationGraph \<Rightarrow> 'v ExplorationGraph result) \<Rightarrow> ('v, 's, unit) explore" where
  "on_graph_void m = on_graph (\<lambda>x. map_result (Pair ()) (m x))"

definition rollback_and_pop_top_frame :: "('v, 's, unit) explore" where
  "rollback_and_pop_top_frame = with_state (\<lambda>st.
     bind_action (on_graph_void (rollback (frame_checkpoint (top_frame st)))) (\<lambda>_. modify pop_top_frame))"

definition unwind_one_step :: "('v, 's, unit) explore" where
  "unwind_one_step = with_state (\<lambda>st.
     if contexts st = [] then return_action ()
      else if frames (current_context st) = [] then modify pop_context
      else case frame_kind (top_frame st) of
        Enter \<Rightarrow> modify pop_top_frame
      | _ \<Rightarrow> rollback_and_pop_top_frame)"

section \<open>Rescheduling a blocked receive\<close>

datatype BlockedReceiveRescheduleKind = RescheduleNone | Ready | StopRequested

record 'v BlockedReceiveRescheduleResult =
  reschedule_kind :: BlockedReceiveRescheduleKind
  reschedule_graph :: "'v ExplorationGraph option"

text \<open>What a blocked thread offers once its block event is taken away.\<close>

definition blocked_receive ::
    "'v Program \<Rightarrow> 'v ExplorationGraph \<Rightarrow> ThreadId \<Rightarrow> 'v ReceiveLabel result" where
  "blocked_receive P x t =
     bind_result (call_thread P x t (thread_event_count x t - 1)) (\<lambda>next_label.
       case next_label of
         None \<Rightarrow> Inl (user_code_error ThreadFunction (Some t) None
           ''blocked thread became done after unblocking; determinism requires the same blocking receive for the same (trace, step)'')
       | Some Block \<Rightarrow> Inl (user_code_error ThreadFunction (Some t) None
           ''returned BlockLabel; Block events are internal to DPOR'')
       | Some (Receive rl) \<Rightarrow>
           if is_nonblocking rl then Inl (user_code_error ThreadFunction (Some t) None
             ''blocked thread produced a non-blocking receive after unblocking; determinism requires the same blocking receive for the same (trace, step)'')
           else Inr rl
       | Some _ \<Rightarrow> Inl (user_code_error ThreadFunction (Some t) None
           ''blocked thread did not produce a receive after unblocking; determinism requires the same blocking receive for the same (trace, step)''))"

definition reschedule_candidate ::
    "'v Program \<Rightarrow> 'v ExplorationGraph \<Rightarrow> ThreadId \<Rightarrow> 'v ExplorationGraph option result" where
  "reschedule_candidate P x t =
     (case last_event_id x t of
        None \<Rightarrow> Inr None
      | Some last_id \<Rightarrow>
          bind_result (xg_event x last_id) (\<lambda>e.
            if \<not> is_block e then Inr None
            else bind_result (blocked_receive P x t) (\<lambda>rl.
                 bind_result (has_compatible_unread_send x t rl) (\<lambda>found.
                   if \<not> found then Inr None
                   else map_result Some
                     (restrict_from_keep_mask ((replicate (xg_event_count x) True)[last_id := False]) x)))))"

fun find_blocked_receive_reschedule_child ::
    "('v, 's) Executor \<Rightarrow> 'v Program \<Rightarrow> 'v ExplorationGraph \<Rightarrow> ThreadId list
     \<Rightarrow> ('s, 'v BlockedReceiveRescheduleResult) action" where
  "find_blocked_receive_reschedule_child ex P x [] s =
     (Inr \<lparr>reschedule_kind = RescheduleNone, reschedule_graph = None\<rparr>, s)"
| "find_blocked_receive_reschedule_child ex P x (t # ts) s =
     (case stop_requested ex s of (stop, s') \<Rightarrow>
        if stop then (Inr \<lparr>reschedule_kind = StopRequested, reschedule_graph = None\<rparr>, s')
        else case reschedule_candidate P x t of
          Inl e \<Rightarrow> (Inl e, s')
        | Inr (Some y) \<Rightarrow> (Inr \<lparr>reschedule_kind = Ready, reschedule_graph = Some y\<rparr>, s')
        | Inr None \<Rightarrow> find_blocked_receive_reschedule_child ex P x ts s')"

section \<open>Entering a node\<close>

definition publish_terminal ::
    "('v, 's) Executor \<Rightarrow> ThreadId list \<Rightarrow> TerminalExecutionKind \<Rightarrow> ('v, 's, unit) explore" where
  "publish_terminal ex ts kind = with_state (\<lambda>st.
     bind_action (on_executor (publish_terminal_execution ex (current_graph st) kind
       (compute_max_thread_event_depth (current_graph st) ts))) (\<lambda>_. return_action ()))"

text \<open>The consistency test of a child; the answer says whether to go on with the frame.\<close>

definition enter_if_consistent ::
    "('v, 's) Executor \<Rightarrow> CommunicationModel \<Rightarrow> ('v, 's, bool) explore" where
  "enter_if_consistent ex model = with_state (\<lambda>st.
     if frame_mode (top_frame st) = VisitIfConsistent
      then bind_action (ask_executor (stop_requested ex)) (\<lambda>stop.
        if stop then bind_action (modify pop_top_frame) (\<lambda>_. return_action False)
        else bind_action (on_graph (check_consistency model)) (\<lambda>consistency.
          if \<not> is_consistent consistency then bind_action (modify pop_top_frame) (\<lambda>_. return_action False)
          else bind_action (modify (modify_frame (\<lambda>f. f\<lparr>frame_mode := Visit\<rparr>))) (\<lambda>_. return_action True)))
      else return_action True)"

text \<open>No thread offers an event: reschedule a blocked receive, or publish the execution.\<close>

definition finish_execution ::
    "('v, 's) Executor \<Rightarrow> 'v Program \<Rightarrow> ThreadId list \<Rightarrow> bool \<Rightarrow> ('v, 's, unit) explore" where
  "finish_execution ex P ts suppressed = with_state (\<lambda>st.
     bind_action (on_executor (find_blocked_receive_reschedule_child ex P (current_graph st) ts)) (\<lambda>reschedule.
       case (reschedule_kind reschedule, reschedule_graph reschedule) of
         (StopRequested, _) \<Rightarrow> return_action ()
       | (Ready, Some y) \<Rightarrow> modify (\<lambda>st1. push_owned_context y (dpor_tree_depth (top_frame st)) Visit (pop_top_frame st1))
       | _ \<Rightarrow>
           bind_action
             (if suppressed then return_action ThreadEventLimit
              else lift_result (map_result (\<lambda>b. if b then Blocked else Full) (has_blocked_thread (current_graph st))))
             (\<lambda>kind. bind_action (publish_terminal ex ts kind) (\<lambda>_. modify pop_top_frame))))"

definition enter_error ::
    "('v, 's) Executor \<Rightarrow> ThreadId list \<Rightarrow> ThreadId \<Rightarrow> 'v EventLabel \<Rightarrow> ('v, 's, unit) explore" where
  "enter_error ex ts t l = with_state (\<lambda>st.
     let cp = checkpoint (current_graph st)
      in bind_action (on_graph (add_event t l)) (\<lambda>_.
         bind_action (publish_terminal ex ts ErrorExecution) (\<lambda>_.
         bind_action (on_graph_void (rollback cp)) (\<lambda>_.
           modify pop_top_frame))))"

text \<open>An event without alternatives: it is added and the search goes on below it.\<close>

definition enter_linear :: "ThreadId \<Rightarrow> 'v EventLabel \<Rightarrow> ('v, 's, unit) explore" where
  "enter_linear t l = with_state (\<lambda>st.
     let cp = checkpoint (current_graph st)
      in bind_action (on_graph (add_event t l)) (\<lambda>_.
         bind_action (modify (modify_frame (\<lambda>f. f\<lparr>frame_kind := ExitLinearChild, frame_checkpoint := cp\<rparr>))) (\<lambda>_.
           modify (\<lambda>st1. push_frame (enter (dpor_tree_depth (top_frame st1) + 1) Visit) st1))))"

definition enter_nd :: "ThreadId \<Rightarrow> 'v NondeterministicChoiceLabel \<Rightarrow> ('v, 's, unit) explore" where
  "enter_nd t nd =
     (if choices nd = [] then enter_linear t (NondeterministicChoice nd)
      else modify (\<lambda>st. modify_frame (\<lambda>f. f\<lparr>frame_kind := ResumeNd, frame_checkpoint := checkpoint (current_graph st),
             cursor := 0, frame_event_id := None, frame_thread_id := t,
             frame_label := Some (NondeterministicChoice (nd\<lparr>choices := erase_duplicate_nd_choices (choices nd)\<rparr>)),
             candidate_event_ids := [], flag := False\<rparr>) st))"

definition enter_receive :: "ThreadId \<Rightarrow> 'v ReceiveLabel \<Rightarrow> ('v, 's, unit) explore" where
  "enter_receive t rl =
     bind_action (modify (\<lambda>st. modify_frame (\<lambda>f. f\<lparr>frame_kind := ResumeReceive,
         frame_checkpoint := checkpoint (current_graph st), cursor := 0, frame_event_id := None,
         frame_thread_id := t\<rparr>) st)) (\<lambda>_. with_state (\<lambda>st.
     bind_action (lift_result (compatible_unread_send_ids (current_graph st) t rl)) (\<lambda>ids.
       modify (modify_frame (\<lambda>f. f\<lparr>candidate_event_ids := ids, flag := is_nonblocking rl,
         frame_label := Some (Receive rl)\<rparr>)))))"

definition enter_send ::
    "('v, 's) Executor \<Rightarrow> ThreadId \<Rightarrow> 'v SendLabel \<Rightarrow> ('v, 's, unit) explore" where
  "enter_send ex t sl = with_state (\<lambda>st.
     let cp = checkpoint (current_graph st)
      in bind_action (on_graph (add_event t (Send sl))) (\<lambda>send_id.
         bind_action (modify (modify_frame (\<lambda>f. f\<lparr>frame_kind := ResumeSendRevisits, frame_checkpoint := cp,
             cursor := 0, frame_event_id := Some send_id, frame_label := None\<rparr>))) (\<lambda>_. with_state (\<lambda>st1.
         bind_action (lift_result (receives_in_destination (current_graph st1) send_id)) (\<lambda>ids.
         bind_action (modify (modify_frame (\<lambda>f. f\<lparr>candidate_event_ids := ids\<rparr>))) (\<lambda>_.
         bind_action (ask_executor (can_spawn ex (dpor_tree_depth (top_frame st1) + 1))) (\<lambda>spawn.
           modify (modify_frame (\<lambda>f. f\<lparr>flag := spawn\<rparr>)))))))))"

definition enter_label ::
    "('v, 's) Executor \<Rightarrow> ThreadId list \<Rightarrow> ThreadId \<Rightarrow> 'v EventLabel \<Rightarrow> ('v, 's, unit) explore" where
  "enter_label ex ts t l =
     (case l of
        Error _ \<Rightarrow> enter_error ex ts t l
      | NondeterministicChoice nd \<Rightarrow> enter_nd t nd
      | Receive rl \<Rightarrow> enter_receive t rl
      | Send sl \<Rightarrow> enter_send ex t sl
      | Block \<Rightarrow> enter_linear t l)"

definition visit_node ::
    "('v, 's) Executor \<Rightarrow> ('v, 'u) DporConfig \<Rightarrow> 'v Program \<Rightarrow> ThreadId list \<Rightarrow> ('v, 's, unit) explore" where
  "visit_node ex config P ts = with_state (\<lambda>st.
     if dpor_tree_depth (top_frame st) \<ge> max_depth config
      then bind_action (publish_terminal ex ts DepthLimit) (\<lambda>_. modify pop_top_frame)
      else bind_action (lift_result (compute_next_event P (current_graph st) ts (max_thread_events config))) (\<lambda>nxt.
        case next_event nxt of
          None \<Rightarrow> finish_execution ex P ts (suppressed_by_thread_event_limit nxt)
        | Some (t, l) \<Rightarrow> enter_label ex ts t l))"

definition handle_enter_frame ::
    "('v, 's) Executor \<Rightarrow> ('v, 'u) DporConfig \<Rightarrow> 'v Program \<Rightarrow> ThreadId list \<Rightarrow> ('v, 's, unit) explore" where
  "handle_enter_frame ex config P ts =
     bind_action (enter_if_consistent ex (communication_model config)) (\<lambda>go.
       if \<not> go then return_action ()
       else bind_action (on_executor (maybe_report_progress ex)) (\<lambda>_.
            bind_action (ask_executor (stop_requested ex)) (\<lambda>stop.
              if stop then return_action () else visit_node ex config P ts)))"

section \<open>Resuming a node\<close>

definition advance_cursor :: "('v, 's) Explorer \<Rightarrow> ('v, 's) Explorer" where
  "advance_cursor = modify_frame (\<lambda>f. f\<lparr>cursor := cursor f + 1\<rparr>)"

definition note_split_on :: "('s \<Rightarrow> 's) \<Rightarrow> ('v, 's) Explorer \<Rightarrow> ('v, 's) Explorer" where
  "note_split_on h st = st\<lparr>executor_state := h (executor_state st)\<rparr>"

text \<open>
  The hand-off of one alternative to an idle worker, shared by the two frames that split: \<open>build\<close> makes the
  child from a copy of the graph. The answer says whether the alternative was taken.
\<close>

definition split_alternative ::
    "('v, 's) Executor \<Rightarrow> ('v ExplorationGraph \<Rightarrow> 'v ExplorationGraph result) \<Rightarrow> ExplorationTaskMode
     \<Rightarrow> ('s \<Rightarrow> 's) \<Rightarrow> ('v, 's, bool) explore" where
  "split_alternative ex build md noted = with_state (\<lambda>st.
     let depth = dpor_tree_depth (top_frame st) + 1
      in bind_action (ask_executor (should_split_to_idle_worker ex depth)) (\<lambda>split.
           if \<not> split then return_action False
           else bind_action (lift_result (build (copy_graph (current_graph st)))) (\<lambda>child.
                bind_action (ask_executor (try_enqueue_owned_task ex child depth md)) (\<lambda>taken.
                  if \<not> taken then return_action False
                  else bind_action (modify (\<lambda>st1. note_split_on noted (advance_cursor st1))) (\<lambda>_. return_action True)))))"

definition with_choice :: "'v NondeterministicChoiceLabel \<Rightarrow> nat \<Rightarrow> 'v EventLabel" where
  "with_choice nd k = NondeterministicChoice (nd\<lparr>nd_value := choices nd ! k\<rparr>)"

definition resume_nd_choice ::
    "('v, 's) Executor \<Rightarrow> 'v NondeterministicChoiceLabel \<Rightarrow> ('v, 's, unit) explore" where
  "resume_nd_choice ex nd = with_state (\<lambda>st.
     let f = top_frame st
      in if cursor f \<ge> length (choices nd) then modify pop_top_frame
         else let l = with_choice nd (cursor f) in bind_action
           (if cursor f + 1 < length (choices nd)
            then split_alternative ex (\<lambda>x. map_result snd (add_event (frame_thread_id f) l x)) Visit (note_nd_split ex)
            else return_action False) (\<lambda>taken.
           if taken then return_action ()
           else bind_action (modify advance_cursor) (\<lambda>_.
                bind_action (on_graph (add_event (frame_thread_id f) l)) (\<lambda>_.
                  modify (push_frame (enter (dpor_tree_depth f + 1) Visit))))))"

definition handle_resume_nd_frame :: "('v, 's) Executor \<Rightarrow> ('v, 's, unit) explore" where
  "handle_resume_nd_frame ex = with_state (\<lambda>st.
     bind_action (on_graph_void (rollback (frame_checkpoint (top_frame st)))) (\<lambda>_.
       case frame_label (top_frame st) of
         None \<Rightarrow> lift_result (Inl (internal_error ''ND resume frame lost its cached label''))
       | Some (NondeterministicChoice nd) \<Rightarrow>
           if choices nd = [] then lift_result (Inl (internal_error ''ND resume frame expected a non-empty ND choice''))
           else resume_nd_choice ex nd
       | Some _ \<Rightarrow> lift_result (Inl (internal_error ''ND resume frame expected a non-empty ND choice''))))"

text \<open>The child that reads the candidate send, and the one that reads bottom.\<close>

definition add_receive ::
    "ThreadId \<Rightarrow> 'v EventLabel \<Rightarrow> ReadsFromSource \<Rightarrow> 'v ExplorationGraph \<Rightarrow> 'v ExplorationGraph result" where
  "add_receive t l source x =
     bind_result (add_event t l x) (\<lambda>(recv_id, y). set_reads_from_source recv_id source y)"

definition enter_receive_child ::
    "ThreadId \<Rightarrow> 'v EventLabel \<Rightarrow> ReadsFromSource \<Rightarrow> nat \<Rightarrow> ('v, 's, unit) explore" where
  "enter_receive_child t l source depth =
     bind_action (on_graph (add_event t l)) (\<lambda>recv_id.
     bind_action (on_graph_void (set_reads_from_source recv_id source)) (\<lambda>_.
       modify (push_frame (enter depth VisitIfConsistent))))"

definition resume_receive_source ::
    "('v, 's) Executor \<Rightarrow> 'v EventLabel \<Rightarrow> ('v, 's, unit) explore" where
  "resume_receive_source ex l = with_state (\<lambda>st.
     let f = top_frame st; depth = dpor_tree_depth f + 1
      in if cursor f < length (candidate_event_ids f)
         then let source = from_send (candidate_event_ids f ! cursor f) in bind_action
           (if cursor f + 1 < length (candidate_event_ids f) \<or> flag f
            then split_alternative ex (add_receive (frame_thread_id f) l source) VisitIfConsistent (note_receive_split ex)
            else return_action False) (\<lambda>taken.
           if taken then return_action ()
           else bind_action (modify advance_cursor) (\<lambda>_. enter_receive_child (frame_thread_id f) l source depth))
         else if flag f
         then bind_action (modify (modify_frame (\<lambda>f. f\<lparr>flag := False\<rparr>))) (\<lambda>_.
                enter_receive_child (frame_thread_id f) l bottom depth)
         else modify pop_top_frame)"

definition handle_resume_receive_frame :: "('v, 's) Executor \<Rightarrow> ('v, 's, unit) explore" where
  "handle_resume_receive_frame ex = with_state (\<lambda>st.
     bind_action (on_graph_void (rollback (frame_checkpoint (top_frame st)))) (\<lambda>_.
       case frame_label (top_frame st) of
         None \<Rightarrow> lift_result (Inl (internal_error ''receive resume frame lost its cached label''))
       | Some (Receive rl) \<Rightarrow> resume_receive_source ex (Receive rl)
       | Some _ \<Rightarrow> lift_result (Inl (internal_error ''receive resume frame expected a receive''))))"

text \<open>The send a frame revisits from: it must still be in the graph.\<close>

definition live_send :: "'v ExplorationGraph \<Rightarrow> EventId option \<Rightarrow> EventId result" where
  "live_send x i =
     (case i of
        Some k \<Rightarrow> if is_valid_event_id (graph x) k \<and> is_send (xg_events x ! k) then Inr k
                 else Inl (internal_error ''send resume frame expected a live send event'')
      | None \<Rightarrow> Inl (internal_error ''send resume frame expected a live send event''))"

definition handle_resume_send_revisits_frame ::
    "('v::linorder, 's) Executor \<Rightarrow> CommunicationModel \<Rightarrow> ('v, 's, unit) explore" where
  "handle_resume_send_revisits_frame ex model = with_state (\<lambda>st.
     let f = top_frame st; depth = dpor_tree_depth f + 1
      in bind_action (lift_result (bind_result (live_send (current_graph st) (frame_event_id f)) (\<lambda>send_id.
             next_backward_revisit_child (current_graph st) send_id model (candidate_event_ids f) (cursor f)))) (\<lambda>nxt.
         bind_action (modify (modify_frame (\<lambda>f. f\<lparr>cursor := next_receive_index nxt\<rparr>))) (\<lambda>_.
           case revisit_child nxt of
             Some revisited \<Rightarrow>
               bind_action
                 (if flag f then ask_executor (try_enqueue_owned_task ex revisited depth VisitIfConsistent)
                  else return_action False) (\<lambda>taken.
                 if taken then return_action ()
                 else modify (push_owned_context revisited depth VisitIfConsistent))
           | None \<Rightarrow>
               bind_action (modify (modify_frame (\<lambda>f. f\<lparr>frame_kind := ExitLinearChild\<rparr>))) (\<lambda>_.
                 modify (push_frame (enter depth Visit))))))"

section \<open>The loop\<close>

definition handle_frame ::
    "('v::linorder, 's) Executor \<Rightarrow> ('v, 'u) DporConfig \<Rightarrow> 'v Program \<Rightarrow> ThreadId list \<Rightarrow> ('v, 's, unit) explore" where
  "handle_frame ex config P ts = with_state (\<lambda>st.
     case frame_kind (top_frame st) of
        Enter \<Rightarrow> handle_enter_frame ex config P ts
      | ExitLinearChild \<Rightarrow> rollback_and_pop_top_frame
      | ResumeNd \<Rightarrow> handle_resume_nd_frame ex
      | ResumeReceive \<Rightarrow> handle_resume_receive_frame ex
      | ResumeSendRevisits \<Rightarrow> handle_resume_send_revisits_frame ex (communication_model config))"

definition explorer_step ::
    "('v::linorder, 's) Executor \<Rightarrow> ('v, 'u) DporConfig \<Rightarrow> 'v Program \<Rightarrow> ThreadId list \<Rightarrow> ('v, 's, unit) explore" where
  "explorer_step ex config P ts =
     bind_action (ask_executor (stop_requested ex)) (\<lambda>stop.
       if stop then unwind_one_step
       else with_state (\<lambda>st. if frames (current_context st) = [] then modify pop_context
         else handle_frame ex config P ts))"

text \<open>Unwinding after an exception: every step pops a frame or a context, a failing rollback drops the rest.\<close>

definition stack_size :: "('v, 's) Explorer \<Rightarrow> nat" where
  "stack_size st = sum_list (map (\<lambda>c. Suc (length (frames c))) (contexts st))"

lemma pop_top_frame_size:
  "contexts st \<noteq> [] \<Longrightarrow> frames (current_context st) \<noteq> [] \<Longrightarrow> stack_size (pop_top_frame st) < stack_size st"
  by (auto simp: stack_size_def pop_top_frame_def set_frames_def current_context_def pop_context_if_empty_def Let_def
      neq_Nil_conv)

lemma set_current_graph_stack [simp]:
  "contexts st \<noteq> [] \<Longrightarrow> contexts (set_current_graph x st) \<noteq> []"
  "contexts st \<noteq> [] \<Longrightarrow> frames (current_context (set_current_graph x st)) = frames (current_context st)"
  "contexts st \<noteq> [] \<Longrightarrow> stack_size (set_current_graph x st) = stack_size st"
  by (auto simp: set_current_graph_def current_context_def stack_size_def neq_Nil_conv split: option.splits)

lemma unwind_one_step_size:
  assumes "contexts st \<noteq> []" "unwind_one_step st = (Inr u, st')"
  shows "stack_size st' < stack_size st"
proof (cases "frames (current_context st) = []")
  case True
  with assms show ?thesis by (auto simp: unwind_one_step_def with_state_def modify_def pop_context_def stack_size_def neq_Nil_conv)
next
  case False
  note pop = pop_top_frame_size [OF assms(1) False]
  show ?thesis
  proof (cases "frame_kind (top_frame st) = Enter")
    case True
    with assms False pop show ?thesis by (auto simp: unwind_one_step_def with_state_def modify_def)
  next
    case nonenter: False
    then have "rollback_and_pop_top_frame st = (Inr u, st')"
      using assms False by (auto simp: unwind_one_step_def with_state_def split: ExplorationFrameKind.splits)
    then obtain x where "st' = pop_top_frame (set_current_graph x st)"
      by (auto simp: rollback_and_pop_top_frame_def with_state_def bind_action_def on_graph_void_def on_graph_def modify_def
          split: sum.splits prod.splits)
    then show ?thesis using pop_top_frame_size [of "set_current_graph x st"] assms(1) False by simp
  qed
qed

function unwind_all :: "('v, 's) Explorer \<Rightarrow> ('v, 's) Explorer" where
  "unwind_all st =
     (if contexts st = [] then st
      else case unwind_one_step st of
        (Inr _, st') \<Rightarrow> unwind_all st'
      | (Inl _, st') \<Rightarrow> st'\<lparr>contexts := []\<rparr>)"
  by pat_completeness auto
termination
  by (relation "measure stack_size") (auto dest: unwind_one_step_size [OF _ sym])

declare unwind_all.simps [simp del]

text \<open>The handler around the loop: report the graph, unwind, throw on.\<close>

definition fail_exploration :: "('v, 's) Executor \<Rightarrow> exn \<Rightarrow> ('v, 's) Explorer \<Rightarrow> ('v, 's) Explorer" where
  "fail_exploration ex e st =
     (let st1 = (if contexts st \<noteq> []
                 then st\<lparr>executor_state := notify_fatal_error ex (current_graph st) e (executor_state st)\<rparr> else st)
      in unwind_all st1)"

definition running :: "unit result \<times> ('v, 's) Explorer \<Rightarrow> bool" where
  "running rs = (case fst rs of Inl _ \<Rightarrow> False | Inr _ \<Rightarrow> contexts (snd rs) \<noteq> [])"

definition run_loop ::
    "('v::linorder, 's) Executor \<Rightarrow> ('v, 'u) DporConfig \<Rightarrow> 'v Program \<Rightarrow> ThreadId list \<Rightarrow> ('v, 's) Explorer
     \<Rightarrow> (unit result \<times> ('v, 's) Explorer) option" where
  "run_loop ex config P ts st =
     map_option (\<lambda>(r, st'). case r of Inr _ \<Rightarrow> (Inr (), st') | Inl e \<Rightarrow> (Inl e, fail_exploration ex e st'))
       (while_option running (\<lambda>rs. explorer_step ex config P ts (snd rs)) (Inr (), st))"

definition explorer_run ::
    "('v::linorder, 's) Executor \<Rightarrow> ('v, 'u) DporConfig \<Rightarrow> 'v Program \<Rightarrow> ThreadId list \<Rightarrow> 'v ExplorationGraph \<Rightarrow> nat
     \<Rightarrow> ExplorationTaskMode \<Rightarrow> 's \<Rightarrow> (unit result \<times> 'v ExplorationGraph \<times> 's) option" where
  "explorer_run ex config P ts x depth md s =
     map_option (\<lambda>(r, st). (r, borrowed_graph st, executor_state st))
       (run_loop ex config P ts \<lparr>borrowed_graph = x,
          contexts = [\<lparr>owned_graph = None, frames = [enter depth md]\<rparr>], executor_state = s\<rparr>)"

section \<open>Entry points\<close>

definition visit_if_consistent_impl ::
    "'v Program \<Rightarrow> 'v ExplorationGraph \<Rightarrow> ('v::linorder, 's) Executor \<Rightarrow> ('v, 'u) DporConfig \<Rightarrow> nat \<Rightarrow> ThreadId list
     \<Rightarrow> 's \<Rightarrow> (unit result \<times> 'v ExplorationGraph \<times> 's) option" where
  "visit_if_consistent_impl P x ex config depth ts = explorer_run ex config P ts x depth VisitIfConsistent"

definition visit_impl ::
    "'v Program \<Rightarrow> 'v ExplorationGraph \<Rightarrow> ('v::linorder, 's) Executor \<Rightarrow> ('v, 'u) DporConfig \<Rightarrow> nat \<Rightarrow> ThreadId list
     \<Rightarrow> 's \<Rightarrow> (unit result \<times> 'v ExplorationGraph \<times> 's) option" where
  "visit_impl P x ex config depth ts = explorer_run ex config P ts x depth Visit"

text \<open>
  The sequential entry points make an executor on the caller's result; its construction reads the clock.
\<close>

definition sequentially ::
    "('v, 'u) DporConfig \<Rightarrow> ('u \<Rightarrow> int \<times> 'u) \<Rightarrow> VerifyResult \<Rightarrow> 'u
     \<Rightarrow> (('v, 'u SequentialState) Executor \<Rightarrow> 'u SequentialState \<Rightarrow> 'b) \<Rightarrow> 'b" where
  "sequentially config clock r u body =
     (case clock u of (start_time, u') \<Rightarrow>
        body (SequentialExecutor config clock start_time) (sequential_state config start_time r u'))"

definition visit_if_consistent ::
    "'v Program \<Rightarrow> 'v ExplorationGraph \<Rightarrow> VerifyResult \<Rightarrow> ('v::linorder, 'u) DporConfig \<Rightarrow> ('u \<Rightarrow> int \<times> 'u) \<Rightarrow> nat
     \<Rightarrow> ThreadId list \<Rightarrow> 'u \<Rightarrow> (unit result \<times> 'v ExplorationGraph \<times> 'u SequentialState) option" where
  "visit_if_consistent P x r config clock depth ts u =
     sequentially config clock r u (\<lambda>ex. visit_if_consistent_impl P x ex config depth ts)"

definition visit ::
    "'v Program \<Rightarrow> 'v ExplorationGraph \<Rightarrow> VerifyResult \<Rightarrow> ('v::linorder, 'u) DporConfig \<Rightarrow> ('u \<Rightarrow> int \<times> 'u) \<Rightarrow> nat
     \<Rightarrow> ThreadId list \<Rightarrow> 'u \<Rightarrow> (unit result \<times> 'v ExplorationGraph \<times> 'u SequentialState) option" where
  "visit P x r config clock depth ts u =
     sequentially config clock r u (\<lambda>ex. visit_impl P x ex config depth ts)"

text \<open>
  Exploring every backward revisit of a send. The state of the iteration is \<open>None\<close> once an
  exploration does not end, and the iteration stops there.
\<close>

definition explore_revisited ::
    "('v::linorder, 's) Executor \<Rightarrow> ('v, 'u) DporConfig \<Rightarrow> 'v Program \<Rightarrow> ThreadId list \<Rightarrow> nat
     \<Rightarrow> 'v ExplorationGraph \<Rightarrow> 's option \<Rightarrow> bool result \<times> 's option" where
  "explore_revisited ex config P ts depth y so =
     (case so of
        None \<Rightarrow> (Inr False, None)
      | Some s \<Rightarrow>
          (case explorer_run ex config P ts y depth VisitIfConsistent s of
             None \<Rightarrow> (Inr False, None)
           | Some (Inl e, _, s1) \<Rightarrow> (Inl e, Some s1)
           | Some (Inr _, _, s1) \<Rightarrow> (case stop_requested ex s1 of (stop, s2) \<Rightarrow> (Inr (\<not> stop), Some s2))))"

definition backward_revisit ::
    "'v Program \<Rightarrow> 'v ExplorationGraph \<Rightarrow> EventId \<Rightarrow> VerifyResult \<Rightarrow> ('v::linorder, 'u) DporConfig
     \<Rightarrow> ('u \<Rightarrow> int \<times> 'u) \<Rightarrow> nat \<Rightarrow> ThreadId list \<Rightarrow> 'u \<Rightarrow> unit result \<times> 'u SequentialState option" where
  "backward_revisit P x send_id r config clock depth ts u =
     sequentially config clock r u (\<lambda>ex s.
       for_each_backward_revisit_child x send_id (communication_model config)
         (\<lambda>so. case so of None \<Rightarrow> True | Some s1 \<Rightarrow> seq_stop_requested s1)
         (explore_revisited ex config P ts depth) (Some s))"

text \<open>\<^verbatim>\<open>verify\<close>: validation, the exploration from the empty graph, the final report.\<close>

definition verify ::
    "('v::linorder, 'u) DporConfig \<Rightarrow> ('u \<Rightarrow> int \<times> 'u) \<Rightarrow> 'u \<Rightarrow> (VerifyResult result \<times> 'u) option" where
  "verify config clock u =
     (case bind_result (validate_terminal_observer_config config) (\<lambda>_. sorted_thread_ids (config_program config)) of
        Inl e \<Rightarrow> Some (Inl e, u)
      | Inr ts \<Rightarrow>
          (case clock u of (start_time, u1) \<Rightarrow>
             map_option (\<lambda>(r, _, s).
                 case bind_action (lift_result r) (\<lambda>_. publish_final_progress config clock start_time) s of
                   (r', s') \<Rightarrow> (map_result (\<lambda>_. result s') r', user s'))
               (visit_impl (config_program config) empty_xg (SequentialExecutor config clock start_time) config 0 ts
                  (sequential_state config start_time initial_result u1))))"

end
