(* ===== verification/Parallel.thy ===== *)
theory Parallel
  imports Explorer
begin

text \<open>
  The parallel executor of \<^verbatim>\<open>include/dpor/algo/dpor.hpp\<close>, seen from one worker. The shared members
  are a record; a worker owns its thread-local state. Other workers act between any two accesses
  of this worker to the shared members: before each access the next of an arbitrary stream of
  interferences is applied. The operations are an instance of the executor interface, so the explorer
  runs on them unchanged. A callback is one access to the user state. The compare-exchange loops are
  modelled by the attempt that ends them.
\<close>

section \<open>Options\<close>

record ParallelVerifyOptions =
  opt_max_workers :: nat
  opt_max_queued_tasks :: nat
  spawn_depth_cutoff :: nat
  sync_steps :: nat
  split_poll_interval_steps :: nat
  progress_counter_flush_interval :: nat
  progress_poll_interval_steps :: nat

definition default_options :: ParallelVerifyOptions where
  "default_options = \<lparr>opt_max_workers = 0, opt_max_queued_tasks = 0, spawn_depth_cutoff = 0, sync_steps = 512,
     split_poll_interval_steps = 1, progress_counter_flush_interval = 1024, progress_poll_interval_steps = 64\<rparr>"

text \<open>The number of hardware threads is a parameter; 0 when it is not known.\<close>

definition resolve_max_workers :: "nat \<Rightarrow> nat \<Rightarrow> nat" where
  "resolve_max_workers hardware_concurrency requested =
     (if requested \<noteq> 0 then requested else if hardware_concurrency = 0 then 1 else hardware_concurrency)"

definition resolve_max_queued_tasks :: "nat \<Rightarrow> nat \<Rightarrow> nat" where
  "resolve_max_queued_tasks requested workers = (if requested \<noteq> 0 then requested else max 1 (workers * 2))"

definition resolve_progress_counter_flush_interval :: "nat \<Rightarrow> nat" where
  "resolve_progress_counter_flush_interval requested = (if requested = 0 then 1024 else requested)"

definition resolve_options :: "nat \<Rightarrow> ParallelVerifyOptions \<Rightarrow> ParallelVerifyOptions" where
  "resolve_options hardware_concurrency options =
     (let workers = resolve_max_workers hardware_concurrency (opt_max_workers options)
      in options\<lparr>opt_max_workers := workers,
           opt_max_queued_tasks := resolve_max_queued_tasks (opt_max_queued_tasks options) workers,
           progress_counter_flush_interval :=
             resolve_progress_counter_flush_interval (progress_counter_flush_interval options)\<rparr>)"

section \<open>State\<close>

record ('v, 'u) Shared =
  next_progress_report_tick :: int
  stop_flag :: bool
  fatal_error_reported :: bool
  full_total :: nat
  blocked_total :: nat
  error_total :: nat
  depth_limit_total :: nat
  thread_event_limit_total :: nat
  max_depth_total :: nat
  idle_workers :: nat
  nd_split_total :: nat
  receive_split_total :: nat
  task_queue :: "'v ExplorationTask list"
  active_count :: nat
  search_complete :: bool
  first_exception :: "exn option"
  shared_user :: 'u

definition initial_shared :: "('v, 'u) DporConfig \<Rightarrow> int \<Rightarrow> 'u \<Rightarrow> ('v, 'u) Shared" where
  "initial_shared config start_time u =
     \<lparr>next_progress_report_tick = (if progress_report_interval config > 0
        then start_time + progress_report_interval config else start_time),
      stop_flag = False, fatal_error_reported = False, full_total = 0, blocked_total = 0, error_total = 0,
      depth_limit_total = 0, thread_event_limit_total = 0, max_depth_total = 0, idle_workers = 0,
      nd_split_total = 0, receive_split_total = 0, task_queue = [], active_count = 0, search_complete = False,
      first_exception = None, shared_user = u\<rparr>"

record WorkerState =
  local_full_executions :: nat
  local_blocked_executions :: nat
  local_error_executions :: nat
  local_depth_limit_executions :: nat
  local_thread_event_limit_executions :: nat
  local_max_thread_event_depth :: nat
  pending_terminal_executions :: nat
  steps_since_sync :: nat
  steps_since_progress_poll :: nat
  steps_since_split_poll :: nat
  cached_stop :: bool
  cached_workers_idle :: bool

definition initial_worker_state :: WorkerState where
  "initial_worker_state = \<lparr>local_full_executions = 0, local_blocked_executions = 0, local_error_executions = 0,
     local_depth_limit_executions = 0, local_thread_event_limit_executions = 0, local_max_thread_event_depth = 0,
     pending_terminal_executions = 0, steps_since_sync = 0, steps_since_progress_poll = 0,
     steps_since_split_poll = 0, cached_stop = False, cached_workers_idle = False\<rparr>"

record ('v, 'u) Worker =
  shared :: "('v, 'u) Shared"
  worker_state :: WorkerState
  interference :: "nat \<Rightarrow> ('v, 'u) Shared \<Rightarrow> ('v, 'u) Shared"
  accesses :: nat

type_synonym ('v, 'u, 'a) worker_op = "('v, 'u) Worker \<Rightarrow> 'a \<times> ('v, 'u) Worker"

definition access :: "(('v, 'u) Shared \<Rightarrow> 'a \<times> ('v, 'u) Shared) \<Rightarrow> ('v, 'u, 'a) worker_op" where
  "access f w =
     (case f (interference w (accesses w) (shared w)) of
        (a, sh) \<Rightarrow> (a, w\<lparr>shared := sh, accesses := accesses w + 1\<rparr>))"

definition load :: "(('v, 'u) Shared \<Rightarrow> 'a) \<Rightarrow> ('v, 'u, 'a) worker_op" where
  "load field = access (\<lambda>sh. (field sh, sh))"

definition store :: "(('v, 'u) Shared \<Rightarrow> ('v, 'u) Shared) \<Rightarrow> ('v, 'u) Worker \<Rightarrow> ('v, 'u) Worker" where
  "store f w = snd (access (\<lambda>sh. ((), f sh)) w)"

definition on_local :: "(WorkerState \<Rightarrow> WorkerState) \<Rightarrow> ('v, 'u) Worker \<Rightarrow> ('v, 'u) Worker" where
  "on_local f w = w\<lparr>worker_state := f (worker_state w)\<rparr>"

section \<open>Stopping\<close>

definition par_stop_requested :: "ParallelVerifyOptions \<Rightarrow> ('v, 'u, bool) worker_op" where
  "par_stop_requested o' w =
     (if sync_steps o' = 0 then load stop_flag w
      else if steps_since_sync (worker_state w) + 1 \<ge> sync_steps o'
      then (case load stop_flag (on_local (\<lambda>l. l\<lparr>steps_since_sync := 0\<rparr>) w) of
              (stop, w') \<Rightarrow> (stop, on_local (\<lambda>l. l\<lparr>cached_stop := stop\<rparr>) w'))
      else (cached_stop (worker_state w), on_local (\<lambda>l. l\<lparr>steps_since_sync := steps_since_sync l + 1\<rparr>) w))"

text \<open>The store of the flag; waking the parked workers is part of the pool, theory \<open>Pool\<close>.\<close>

definition par_request_stop :: "('v, 'u) Worker \<Rightarrow> ('v, 'u) Worker" where
  "par_request_stop w = on_local (\<lambda>l. l\<lparr>cached_stop := True\<rparr>) (store (\<lambda>sh. sh\<lparr>stop_flag := True\<rparr>) w)"

definition note_exception :: "exn \<Rightarrow> ('v, 'u) Shared \<Rightarrow> ('v, 'u) Shared" where
  "note_exception e sh =
     sh\<lparr>first_exception := (case first_exception sh of None \<Rightarrow> Some e | Some e' \<Rightarrow> Some e'), stop_flag := True\<rparr>"

definition record_exception :: "exn \<Rightarrow> ('v, 'u) Worker \<Rightarrow> ('v, 'u) Worker" where
  "record_exception e = store (note_exception e)"

section \<open>Counting\<close>

definition add_terminal :: "TerminalExecutionKind \<Rightarrow> nat \<Rightarrow> WorkerState \<Rightarrow> WorkerState" where
  "add_terminal kind thread_event_depth l =
     (let l1 = (if thread_event_depth > local_max_thread_event_depth l
                then l\<lparr>local_max_thread_event_depth := thread_event_depth\<rparr> else l);
          l2 = (case kind of
                  Full \<Rightarrow> l1\<lparr>local_full_executions := local_full_executions l1 + 1\<rparr>
                | Blocked \<Rightarrow> l1\<lparr>local_blocked_executions := local_blocked_executions l1 + 1\<rparr>
                | ErrorExecution \<Rightarrow> l1\<lparr>local_error_executions := local_error_executions l1 + 1\<rparr>
                | DepthLimit \<Rightarrow> l1\<lparr>local_depth_limit_executions := local_depth_limit_executions l1 + 1\<rparr>
                | ThreadEventLimit \<Rightarrow>
                    l1\<lparr>local_thread_event_limit_executions := local_thread_event_limit_executions l1 + 1\<rparr>)
      in l2\<lparr>pending_terminal_executions := pending_terminal_executions l2 + 1\<rparr>)"

definition clear_counts :: "WorkerState \<Rightarrow> WorkerState" where
  "clear_counts l = l\<lparr>local_full_executions := 0, local_blocked_executions := 0, local_error_executions := 0,
     local_depth_limit_executions := 0, local_thread_event_limit_executions := 0,
     local_max_thread_event_depth := 0, pending_terminal_executions := 0\<rparr>"

definition store_if :: "bool \<Rightarrow> (('v, 'u) Shared \<Rightarrow> ('v, 'u) Shared) \<Rightarrow> ('v, 'u) Worker \<Rightarrow> ('v, 'u) Worker" where
  "store_if b f w = (if b then store f w else w)"

definition flush_local_counts :: "('v, 'u) Worker \<Rightarrow> ('v, 'u) Worker" where
  "flush_local_counts w =
     (let l = worker_state w;
          w1 = store_if (local_full_executions l > 0)
                 (\<lambda>sh. sh\<lparr>full_total := full_total sh + local_full_executions l\<rparr>) w;
          w2 = store_if (local_blocked_executions l > 0)
                 (\<lambda>sh. sh\<lparr>blocked_total := blocked_total sh + local_blocked_executions l\<rparr>) w1;
          w3 = store_if (local_error_executions l > 0)
                 (\<lambda>sh. sh\<lparr>error_total := error_total sh + local_error_executions l\<rparr>) w2;
          w4 = store_if (local_depth_limit_executions l > 0)
                 (\<lambda>sh. sh\<lparr>depth_limit_total := depth_limit_total sh + local_depth_limit_executions l\<rparr>) w3;
          w5 = store_if (local_thread_event_limit_executions l > 0)
                 (\<lambda>sh. sh\<lparr>thread_event_limit_total := thread_event_limit_total sh + local_thread_event_limit_executions l\<rparr>) w4;
          w6 = store_if (local_max_thread_event_depth l > 0)
                 (\<lambda>sh. sh\<lparr>max_depth_total := max (max_depth_total sh) (local_max_thread_event_depth l)\<rparr>) w5
      in on_local clear_counts w6)"

definition flush_worker_state :: "('v, 'u) Worker \<Rightarrow> ('v, 'u) Worker" where
  "flush_worker_state w =
     on_local (\<lambda>l. l\<lparr>steps_since_sync := 0, steps_since_progress_poll := 0, steps_since_split_poll := 0,
       cached_stop := False, cached_workers_idle := False\<rparr>) (flush_local_counts w)"

definition increment_local_terminal_counts ::
    "('v, 'u) DporConfig \<Rightarrow> ParallelVerifyOptions \<Rightarrow> TerminalExecutionKind \<Rightarrow> nat \<Rightarrow> ('v, 'u) Worker \<Rightarrow> ('v, 'u) Worker" where
  "increment_local_terminal_counts config o' kind depth w =
     (let w1 = on_local (add_terminal kind depth) w
      in if on_progress config \<noteq> None \<and> pending_terminal_executions (worker_state w1) \<ge> progress_counter_flush_interval o'
         then flush_local_counts w1 else w1)"

section \<open>Progress\<close>

definition live_counts_exact :: "ParallelVerifyOptions \<Rightarrow> bool" where
  "live_counts_exact o' \<longleftrightarrow> progress_counter_flush_interval o' \<le> 1"

definition worker_call :: "('u, 'a) action \<Rightarrow> (('v, 'u) Worker, 'a) action" where
  "worker_call m = access (\<lambda>sh. case m (shared_user sh) of (r, u) \<Rightarrow> (r, sh\<lparr>shared_user := u\<rparr>))"

definition worker_clock :: "('u \<Rightarrow> int \<times> 'u) \<Rightarrow> ('v, 'u, int) worker_op" where
  "worker_clock clock = access (\<lambda>sh. case clock (shared_user sh) of (now, u) \<Rightarrow> (now, sh\<lparr>shared_user := u\<rparr>))"

definition par_make_progress_snapshot ::
    "ParallelVerifyOptions \<Rightarrow> int \<Rightarrow> ProgressState \<Rightarrow> int \<Rightarrow> bool \<Rightarrow> ('v, 'u, ProgressSnapshot) worker_op" where
  "par_make_progress_snapshot o' start_time st now exact w0 =
     (case load full_total w0 of (n1, w1) \<Rightarrow>
      case load blocked_total w1 of (n2, w2) \<Rightarrow>
      case load error_total w2 of (n3, w3) \<Rightarrow>
      case load depth_limit_total w3 of (n4, w4) \<Rightarrow>
      case load thread_event_limit_total w4 of (n5, w5) \<Rightarrow>
      case load max_depth_total w5 of (deepest, w6) \<Rightarrow>
      case load (\<lambda>sh. (active_count sh, length (task_queue sh))) w6 of ((active, queued), w7) \<Rightarrow>
        (\<lparr>state = st, elapsed = now - start_time, terminal_executions = n1 + n2 + n3 + n4 + n5, full_executions = n1,
          blocked_executions = n2, error_executions = n3, depth_limit_executions = n4,
          thread_event_limit_executions = n5, max_thread_event_depth = deepest, active_workers = active,
          max_workers = opt_max_workers o', queued_tasks = queued, max_queued_tasks = opt_max_queued_tasks o',
          counts_exact = exact\<rparr>, w7))"

definition publish_progress_snapshot ::
    "('v, 'u) DporConfig \<Rightarrow> ParallelVerifyOptions \<Rightarrow> int \<Rightarrow> ProgressState \<Rightarrow> int \<Rightarrow> bool \<Rightarrow> (('v, 'u) Worker, unit) action" where
  "publish_progress_snapshot config o' start_time st now exact w =
     (case par_make_progress_snapshot o' start_time st now exact (flush_local_counts w) of
        (snapshot, w') \<Rightarrow> worker_call (notify_progress config snapshot) w')"

definition claim_progress_report :: "int \<Rightarrow> int \<Rightarrow> ('v, 'u, bool) worker_op" where
  "claim_progress_report now next_due_tick = access (\<lambda>sh.
     if now < next_progress_report_tick sh then (False, sh)
     else (True, sh\<lparr>next_progress_report_tick := next_due_tick\<rparr>))"

definition poll_progress ::
    "('v, 'u) DporConfig \<Rightarrow> ParallelVerifyOptions \<Rightarrow> ('u \<Rightarrow> int \<times> 'u) \<Rightarrow> int \<Rightarrow> (('v, 'u) Worker, unit) action" where
  "poll_progress config o' clock start_time w =
     (case worker_clock clock w of (now, w1) \<Rightarrow>
      case load next_progress_report_tick w1 of (due_tick, w2) \<Rightarrow>
        if now < due_tick then (Inr (), w2)
        else case claim_progress_report now (now + progress_report_interval config) w2 of (claimed, w3) \<Rightarrow>
          if \<not> claimed then (Inr (), w3)
          else publish_progress_snapshot config o' start_time Running now (live_counts_exact o') w3)"

definition par_maybe_report_progress ::
    "('v, 'u) DporConfig \<Rightarrow> ParallelVerifyOptions \<Rightarrow> ('u \<Rightarrow> int \<times> 'u) \<Rightarrow> int \<Rightarrow> (('v, 'u) Worker, unit) action" where
  "par_maybe_report_progress config o' clock start_time w =
     (if on_progress config = None then (Inr (), w)
      else if progress_report_interval config \<le> 0
      then (case worker_clock clock w of (now, w1) \<Rightarrow>
              publish_progress_snapshot config o' start_time Running now (live_counts_exact o') w1)
      else if progress_poll_interval_steps o' > 1
      then (let w1 = on_local (\<lambda>l. l\<lparr>steps_since_progress_poll := steps_since_progress_poll l + 1\<rparr>) w
            in if steps_since_progress_poll (worker_state w1) < progress_poll_interval_steps o' then (Inr (), w1)
               else poll_progress config o' clock start_time (on_local (\<lambda>l. l\<lparr>steps_since_progress_poll := 0\<rparr>) w1))
      else poll_progress config o' clock start_time w)"

section \<open>Publishing and handing off\<close>

definition par_publish_terminal_execution ::
    "('v, 'u) DporConfig \<Rightarrow> ParallelVerifyOptions \<Rightarrow> 'v ExplorationGraph \<Rightarrow> TerminalExecutionKind \<Rightarrow> nat
     \<Rightarrow> (('v, 'u) Worker, bool) action" where
  "par_publish_terminal_execution config o' x kind depth w =
     (case (if sync_steps o' = 0 then load stop_flag w else par_stop_requested o' w) of (stop, w1) \<Rightarrow>
        if stop then (Inr False, w1)
        else bind_action (worker_call (notify_terminal_execution config x kind))
          (\<lambda>act w2. (Inr True, if act = Stop then par_request_stop w2 else w2))
          (increment_local_terminal_counts config o' kind depth w1))"

definition par_can_spawn :: "ParallelVerifyOptions \<Rightarrow> nat \<Rightarrow> ('v, 'u, bool) worker_op" where
  "par_can_spawn o' child_dpor_tree_depth w =
     (if opt_max_workers o' \<le> 1 then (False, w)
      else case par_stop_requested o' w of (stop, w1) \<Rightarrow>
        if stop then (False, w1)
        else (\<not> (spawn_depth_cutoff o' \<noteq> 0 \<and> child_dpor_tree_depth > spawn_depth_cutoff o'), w1))"

definition spawn_if_idle :: "ParallelVerifyOptions \<Rightarrow> nat \<Rightarrow> ('v, 'u, bool) worker_op" where
  "spawn_if_idle o' depth w =
     (if cached_workers_idle (worker_state w) then par_can_spawn o' depth w else (False, w))"

definition par_should_split_to_idle_worker :: "ParallelVerifyOptions \<Rightarrow> nat \<Rightarrow> ('v, 'u, bool) worker_op" where
  "par_should_split_to_idle_worker o' depth w =
     (if opt_max_workers o' \<le> 1 then (False, w)
      else let w1 = (if split_poll_interval_steps o' > 1
                     then on_local (\<lambda>l. l\<lparr>steps_since_split_poll := steps_since_split_poll l + 1\<rparr>) w else w)
           in if split_poll_interval_steps o' > 1 \<and> steps_since_split_poll (worker_state w1) < split_poll_interval_steps o'
              then spawn_if_idle o' depth w1
              else let w2 = (if split_poll_interval_steps o' > 1 then on_local (\<lambda>l. l\<lparr>steps_since_split_poll := 0\<rparr>) w1 else w1)
                   in case load idle_workers w2 of (n, w3) \<Rightarrow>
                        spawn_if_idle o' depth (on_local (\<lambda>l. l\<lparr>cached_workers_idle := (n \<noteq> 0)\<rparr>) w3))"

text \<open>The critical section of a hand-off.\<close>

definition enqueue_locked ::
    "ParallelVerifyOptions \<Rightarrow> 'v ExplorationTask \<Rightarrow> ('v, 'u) Shared \<Rightarrow> bool \<times> ('v, 'u) Shared" where
  "enqueue_locked o' task sh =
     (if \<not> stop_flag sh \<and> \<not> search_complete sh \<and> length (task_queue sh) < opt_max_queued_tasks o'
      then (True, sh\<lparr>task_queue := task_queue sh @ [task]\<rparr>) else (False, sh))"

definition par_try_enqueue :: "ParallelVerifyOptions \<Rightarrow> 'v ExplorationTask \<Rightarrow> ('v, 'u, bool) worker_op" where
  "par_try_enqueue o' task w =
     (if opt_max_workers o' \<le> 1 then (False, w)
      else case par_stop_requested o' w of (stop, w1) \<Rightarrow>
        if stop then (False, w1) else access (enqueue_locked o' task) w1)"

definition par_notify_fatal_error ::
    "('v, 'u) DporConfig \<Rightarrow> 'v ExplorationGraph \<Rightarrow> exn \<Rightarrow> ('v, 'u) Worker \<Rightarrow> ('v, 'u) Worker" where
  "par_notify_fatal_error config x e w =
     (case on_fatal_error config of
        None \<Rightarrow> w
      | Some f \<Rightarrow>
          (case access (\<lambda>sh. (fatal_error_reported sh, sh\<lparr>fatal_error_reported := True\<rparr>)) w of (reported, w1) \<Rightarrow>
             if reported then w1 else snd (worker_call (f \<lparr>failure_graph = x, failure = e\<rparr>) w1)))"

definition ParallelExecutor ::
    "('v, 'u) DporConfig \<Rightarrow> ParallelVerifyOptions \<Rightarrow> ('u \<Rightarrow> int \<times> 'u) \<Rightarrow> int \<Rightarrow> ('v, ('v, 'u) Worker) Executor" where
  "ParallelExecutor config o' clock start_time =
     \<lparr>stop_requested = par_stop_requested o',
      maybe_report_progress = par_maybe_report_progress config o' clock start_time,
      can_spawn = par_can_spawn o',
      should_split_to_idle_worker = par_should_split_to_idle_worker o',
      note_nd_split = store (\<lambda>sh. sh\<lparr>nd_split_total := nd_split_total sh + 1\<rparr>),
      note_receive_split = store (\<lambda>sh. sh\<lparr>receive_split_total := receive_split_total sh + 1\<rparr>),
      try_enqueue = par_try_enqueue o',
      publish_terminal_execution = par_publish_terminal_execution config o',
      notify_fatal_error = par_notify_fatal_error config\<rparr>"

section \<open>Processing a task\<close>

definition process_task ::
    "('v::linorder, 'u) DporConfig \<Rightarrow> ParallelVerifyOptions \<Rightarrow> ('u \<Rightarrow> int \<times> 'u) \<Rightarrow> int \<Rightarrow> ThreadId list \<Rightarrow> 'v ExplorationTask
     \<Rightarrow> ('v, 'u) Worker \<Rightarrow> (unit result \<times> ('v, 'u) Worker) option" where
  "process_task config o' clock start_time ts task w =
     (case par_stop_requested o' w of (stop, w1) \<Rightarrow>
        if stop then Some (Inr (), w1)
        else map_option (\<lambda>(r, _, w2). (r, w2))
          ((if task_mode task = VisitIfConsistent then visit_if_consistent_impl else visit_impl)
             (config_program config) (task_graph task) (ParallelExecutor config o' clock start_time) config
             (task_dpor_tree_depth task) ts w1))"

text \<open>The task as the worker loop runs it: an exception is recorded and the loop goes on.\<close>

definition work_on ::
    "('v::linorder, 'u) DporConfig \<Rightarrow> ParallelVerifyOptions \<Rightarrow> ('u \<Rightarrow> int \<times> 'u) \<Rightarrow> int \<Rightarrow> ThreadId list \<Rightarrow> 'v ExplorationTask
     \<Rightarrow> ('v, 'u) Worker \<Rightarrow> ('v, 'u) Worker option" where
  "work_on config o' clock start_time ts task w =
     map_option (\<lambda>(r, w'). case r of Inl e \<Rightarrow> record_exception e w' | Inr _ \<Rightarrow> w')
       (process_task config o' clock start_time ts task w)"

section \<open>The result of a run\<close>

text \<open>After the join: the first exception is rethrown, otherwise the totals are collected.\<close>

definition collect_result :: "('v, 'u) Shared \<Rightarrow> VerifyResult" where
  "collect_result sh =
     \<lparr>result_kind = (if stop_flag sh then Stopped else AllExplored),
      executions_explored = full_total sh + blocked_total sh + error_total sh + depth_limit_total sh + thread_event_limit_total sh,
      full_executions_explored = full_total sh, blocked_executions_explored = blocked_total sh,
      error_executions_explored = error_total sh, depth_limit_executions_explored = depth_limit_total sh,
      thread_event_limit_executions_explored = thread_event_limit_total sh,
      max_thread_event_depth_reached = max_depth_total sh, nd_splits = nd_split_total sh,
      receive_splits = receive_split_total sh\<rparr>"

definition finish_run ::
    "('v, 'u) DporConfig \<Rightarrow> ParallelVerifyOptions \<Rightarrow> ('u \<Rightarrow> int \<times> 'u) \<Rightarrow> int \<Rightarrow> (('v, 'u) Worker, VerifyResult) action" where
  "finish_run config o' clock start_time w =
     (case first_exception (shared w) of
        Some e \<Rightarrow> (Inl e, w)
      | None \<Rightarrow>
          let r = collect_result (shared w)
          in if on_progress config = None then (Inr r, w)
             else case worker_clock clock w of (now, w1) \<Rightarrow>
               bind_action (publish_progress_snapshot config o' start_time
                   (progress_state_from_result_kind (result_kind r)) now True) (\<lambda>_. return_action r) w1)"

definition root_task :: "'v ExplorationTask" where
  "root_task = \<lparr>task_graph = empty_xg, task_dpor_tree_depth = 0, task_mode = Visit\<rparr>"

end
