(* ===== verification/Rollback.thy ===== *)
theory Rollback
  imports Restriction Graph_Queries
begin

text \<open>
  Checkpoints and rollback of \<^verbatim>\<open>include/dpor/model/exploration_graph.hpp\<close>. The event undo log
  describes the most recent events; undoing it removes them one by one. The reads-from undo log
  is replayed first, on the full event list. The main result: after any sequence of insertions,
  assignments of a receive of the graph to one of its sends or to bottom, and inner rollbacks, rolling back to the
  checkpoint taken before it gives a graph with the same events, reads-from map, flags and logs, whose caches are
  again the ones of those events. An assignment to a send that does not exist yet is outside of it: the reader counts miss it, and
  the rollback throws. The graphs that the operations of the class build from the empty graph
  close the theory: in each of them the unread mask is the one of a scan.
\<close>

section \<open>What the logs say\<close>

definition undo_entry :: "'v event list \<Rightarrow> EventId \<Rightarrow> EventUndo" where
  "undo_entry evs i = \<lparr>undo_event_id = i, undo_thread = thread (evs ! i), undo_event_index = index (evs ! i),
     previous_thread_state = ts_of (take i evs) (thread (evs ! i)),
     previous_next_event_index = next_of (take i evs) (thread (evs ! i))\<rparr>"

text \<open>The log covers the last events, oldest first.\<close>

definition event_log_ok :: "'v ExplorationGraph \<Rightarrow> bool" where
  "event_log_ok x \<longleftrightarrow> length (event_undo_log x) \<le> length (xg_events x)
     \<and> event_undo_log x = map (undo_entry (xg_events x))
          [length (xg_events x) - length (event_undo_log x)..<length (xg_events x)]"

definition rf_log_ok :: "'v ExplorationGraph \<Rightarrow> bool" where
  "rf_log_ok x \<longleftrightarrow> (\<forall>u\<in>set (rf_undo_log x). undo_receive_id u < length (xg_events x)
     \<and> is_receive (xg_events x ! undo_receive_id u) \<and> source_ok (xg_events x) (previous_source u))"

definition undo_rf :: "ReadsFromUndo \<Rightarrow> (EventId \<rightharpoonup> ReadsFromSource) \<Rightarrow> (EventId \<rightharpoonup> ReadsFromSource)" where
  "undo_rf u m = m(undo_receive_id u := previous_source u)"

section \<open>Undoing one step\<close>

lemma rf_valid_undo:
  "rf_valid evs m \<Longrightarrow> r < length evs \<Longrightarrow> is_receive (evs ! r) \<Longrightarrow> source_ok evs s \<Longrightarrow> rf_valid evs (m(r := s))"
  by (auto simp: rf_valid_def source_ok_def)

lemma undo_last_rf_assignment_core:
  assumes wf: "wf_core x" and ok: "rf_log_ok x" and ne: "rf_undo_log x \<noteq> []"
  shows "\<exists>x'. undo_last_rf_assignment x = Inr x' \<and> wf_core x' \<and> xg_events x' = xg_events x
    \<and> xg_rf x' = undo_rf (last (rf_undo_log x)) (xg_rf x) \<and> event_undo_log x' = event_undo_log x
    \<and> rf_undo_log x' = butlast (rf_undo_log x)"
proof -
  note w = wf_coreD [OF wf] and c = caches_okD [OF wf_coreD(3) [OF wf]]
  let ?u = "last (rf_undo_log x)" and ?evs = "xg_events x" and ?m = "xg_rf x"
  let ?r = "undo_receive_id ?u" and ?s = "previous_source ?u"
  from ok last_in_set [OF ne] have u: "?r < length ?evs" "is_receive (?evs ! ?r)" "source_ok ?evs ?s"
    by (auto simp: rf_log_ok_def)
  let ?g = "rollback_reads_from ?r ?s (graph x)"
  have g: "events ?g = ?evs" "rf_find (reads_from ?g) = ?m(?r := ?s)"
    "next_event_index_by_thread ?g = next_event_index_by_thread (graph x)" "wf_eg ?g"
    using w(1) reads_from_map.set_law reads_from_map.clear_law
    by (auto simp: rollback_reads_from_def wf_eg_def fun_upd_def split: option.splits)
  let ?x = "x\<lparr>rf_undo_log := butlast (rf_undo_log x), graph := ?g, porf_cache := None\<rparr>"
  have "undo_last_rf_assignment x = Inr (?x\<lparr>send_reader_counts := reader_counts ?evs (?m(?r := ?s)),
      unread_send_mask := unread_mask ?evs (?m(?r := ?s))\<rparr>)"
    using ne g(1) update_send_reader_state_ok [of ?m ?evs ?r ?s ?x] rf_valid_source_ok [OF w(2), of ?r] u(3) c(8,9)
    by (simp add: undo_last_rf_assignment_def Let_def current_reads_from_source_def)
  moreover have "wf_core (?x\<lparr>send_reader_counts := reader_counts ?evs (?m(?r := ?s)),
      unread_send_mask := unread_mask ?evs (?m(?r := ?s))\<rparr>)"
    using g c w(4,5) rf_valid_undo [OF w(2) u] by (simp add: wf_core_def caches_ok_def)
  ultimately show ?thesis using g by (simp add: undo_rf_def)
qed

text \<open>The last event, seen from a graph whose logs are in order.\<close>

lemma butlast_caches:
  assumes "evs = evs' @ [e]"
  shows "butlast (thread_ids evs (thread e)) = thread_ids evs' (thread e)"
    "last (thread_ids evs (thread e)) = length evs'" "thread_ids evs (thread e) \<noteq> []"
    "t \<noteq> thread e \<Longrightarrow> thread_ids evs t = thread_ids evs' t" "t \<noteq> thread e \<Longrightarrow> recv_ids evs t = recv_ids evs' t"
    "t \<noteq> thread e \<Longrightarrow> ts_of evs t = ts_of evs' t"
  using assms by (simp_all add: thread_ids_append recv_ids_append ts_of_append)

lemma rollback_last_event_core:
  assumes wf: "wf_eg g" and evs: "events g = evs' @ [e]" and d: "dense_indices (events g)"
    and nx: "\<forall>t. nth_or 0 (next_event_index_by_thread g) t = next_of (events g) t"
  shows "\<exists>g'. rollback_last_event (length evs') (thread e) (index e) (next_of evs' (thread e)) g = Inr g'
    \<and> wf_eg g' \<and> events g' = evs' \<and> reads_from g' = reads_from g
    \<and> (\<forall>t. nth_or 0 (next_event_index_by_thread g') t = next_of evs' t)"
proof -
  let ?t = "thread e" and ?i = "index e"
  have t: "?t < length (next_event_index_by_thread g)" using wf_egD(3) [OF wf, of e] evs by simp
  have t': "?t < length (used_event_indices_by_thread g)" using t wf_egD(4) [OF wf] by simp
  let ?u = "used_event_indices_by_thread g ! ?t"
  from wf_egD(5) [OF wf t] have ok: "wf_index_set ?u" "used_indices ?u = insert ?i (thread_indices evs' ?t)"
    by (auto simp: storage_ok_def evs)
  from wf_egD(1) [OF wf] have inc: "increasing_indices evs'" "\<forall>j\<in>thread_indices evs' ?t. j < ?i"
    by (simp_all add: evs increasing_indices_append)
  obtain u' where u': "used_erase ?i ?u = (1, u')" "wf_index_set u'" "used_indices u' = thread_indices evs' ?t"
    using used.erase_law [OF ok(1), of ?i] ok(2) inc(2) by (cases "used_erase ?i ?u") auto
  let ?g = "g\<lparr>events := evs', used_event_indices_by_thread := (used_event_indices_by_thread g)[?t := u'],
    next_event_index_by_thread := (next_event_index_by_thread g)[?t := next_of evs' ?t]\<rparr>"
  have d': "dense_indices evs'" "unat ?i = length (thread_ids evs' ?t)"
    using d by (simp_all add: evs dense_indices_append)
  have room: "length (thread_ids evs' ?t) < 2 ^ 32" using length_thread_ids_le [OF d, of ?t]
    by (simp add: evs thread_ids_append)
  have nxt: "j < next_of evs' ?t" if "j \<in> thread_indices evs' ?t" for j
    using inc(2) that d'(2) room by (fastforce simp: word_less_nat_alt unat_next_of)
  have other: "next_of (evs' @ [e]) u = next_of evs' u" if "u \<noteq> ?t" for u
    using that by (simp add: next_of_def thread_ids_append)
  have "rollback_last_event (length evs') ?t ?i (next_of evs' ?t) g = Inr ?g"
    using evs t t' u'(1) by (simp add: rollback_last_event_def)
  moreover have "wf_eg ?g"
  proof -
    have "storage_ok evs' u (next_event_index_by_thread ?g ! u) (used_event_indices_by_thread ?g ! u)"
      if "u < length (next_event_index_by_thread g)" for u
    proof (cases "u = ?t")
      case True
      with t t' u' nxt show ?thesis by (simp add: storage_ok_def)
    next
      case False
      with wf_egD(5) [OF wf that] show ?thesis by (simp add: storage_ok_def evs)
    qed
    with wf inc(1) evs show ?thesis by (simp add: wf_eg_def)
  qed
  moreover have "nth_or 0 ((next_event_index_by_thread g)[?t := next_of evs' ?t]) u = next_of evs' u" for u
    using nx [THEN spec, of u] other [of u] t by (cases "u = ?t") (auto simp: evs nth_or_def split: if_splits)
  ultimately show ?thesis by simp
qed

lemma undo_last_event_append_core:
  assumes wf: "wf_core x" and ne: "event_undo_log x \<noteq> []" and ok: "event_log_ok x"
    and rf: "rf_valid (butlast (xg_events x)) (xg_rf x)"
  shows "\<exists>x'. undo_last_event_append x = Inr x' \<and> wf_core x' \<and> xg_events x' = butlast (xg_events x)
    \<and> xg_rf x' = xg_rf x \<and> event_undo_log x' = butlast (event_undo_log x) \<and> rf_undo_log x' = rf_undo_log x"
proof -
  note w = wf_coreD [OF wf] and c = caches_okD [OF wf_coreD(3) [OF wf]]
  from ne ok obtain evs' e where evs: "xg_events x = evs' @ [e]"
    by (cases "xg_events x" rule: rev_cases) (auto simp: event_log_ok_def)
  let ?t = "thread e" and ?n = "length evs'"
  have rf': "rf_valid evs' (xg_rf x)" using rf evs by simp
  have last: "last (event_undo_log x) = \<lparr>undo_event_id = ?n, undo_thread = ?t, undo_event_index = index e,
      previous_thread_state = ts_of evs' ?t, previous_next_event_index = next_of evs' ?t\<rparr>"
  proof -
    let ?k = "length (event_undo_log x)"
    have k: "Suc ?n - ?k \<le> ?n" using ne by (cases "event_undo_log x") auto
    have "event_undo_log x = map (undo_entry (xg_events x)) [Suc ?n - ?k..<Suc ?n]"
      using ok evs by (simp add: event_log_ok_def)
    with k have "event_undo_log x = map (undo_entry (xg_events x)) [Suc ?n - ?k..<?n] @ [undo_entry (xg_events x) ?n]"
      by simp
    then have "last (event_undo_log x) = undo_entry (xg_events x) ?n" by (metis last_snoc)
    then show ?thesis by (simp add: undo_entry_def evs)
  qed
  obtain g where g: "rollback_last_event ?n ?t (index e) (next_of evs' ?t) (graph x) = Inr g"
    "wf_eg g" "events g = evs'" "reads_from g = reads_from (graph x)"
    "\<forall>t. nth_or 0 (next_event_index_by_thread g) t = next_of evs' t"
    using rollback_last_event_core [OF w(1) evs w(4)] w(5) by blast
  have t: "?t < length (thread_state x)" using c(3) [of e] evs by simp
  note ids = butlast_caches [OF evs]
  have cnt: "reader_counts (xg_events x) (xg_rf x) = reader_counts evs' (xg_rf x) @ [0]"
    "unread_mask (xg_events x) (xg_rf x) = unread_mask evs' (xg_rf x) @ [is_send e]"
    using rf' by (simp_all add: evs reader_counts_append unread_mask_append)
  let ?x = "x\<lparr>event_undo_log := butlast (event_undo_log x), graph := g,
    thread_state := (thread_state x)[?t := ts_of evs' ?t],
    thread_event_ids := (thread_event_ids x)[?t := thread_ids evs' ?t],
    receive_event_ids_by_thread := (if is_receive e then (receive_event_ids_by_thread x)[?t := recv_ids evs' ?t]
      else receive_event_ids_by_thread x),
    send_event_ids := send_ids evs', send_reader_counts := reader_counts evs' (xg_rf x),
    unread_send_mask := unread_mask evs' (xg_rf x), porf_cache := None\<rparr>"
  have recv: "receive_event_ids_by_thread x ! ?t = recv_ids evs' ?t @ (if is_receive e then [?n] else [])"
    using c(6) [OF t] by (simp add: evs recv_ids_append)
  have sends: "send_event_ids x = send_ids evs' @ (if is_send e then [?n] else [])"
    using c(7) by (simp add: evs send_ids_append)
  have "undo_last_event_append x = Inr ?x"
    using ne evs g(1) t ids(1,2,3) c(1,2,5,8,9) recv sends cnt
    by (simp add: undo_last_event_append_def Let_def last xg_event_eq undo_thread_caches_def undo_send_caches_def
        butlast_append send_not_receive)
  moreover have "caches_ok ?x"
  proof -
    have "thread_state ?x ! u = ts_of evs' u \<and> thread_event_ids ?x ! u = thread_ids evs' u
        \<and> receive_event_ids_by_thread ?x ! u = recv_ids evs' u" if "u < length (thread_state x)" for u
      using that t c(1,2) c(4-6) [OF that] ids(4-6) recv by (cases "u = ?t") auto
    with c(1-3) show ?thesis by (simp add: caches_ok_def g evs)
  qed
  ultimately show ?thesis
    using g evs w(4) rf' by (auto simp: wf_core_def dense_indices_append)
qed

section \<open>Undoing the logs\<close>

lemma event_log_ok_butlast:
  assumes "event_log_ok x" "event_undo_log x \<noteq> []" "xg_events x' = butlast (xg_events x)"
    and "event_undo_log x' = butlast (event_undo_log x)"
  shows "event_log_ok x'"
proof -
  from assms(1,2) obtain evs' e where evs: "xg_events x = evs' @ [e]"
    by (cases "xg_events x" rule: rev_cases) (auto simp: event_log_ok_def)
  let ?k = "length (event_undo_log x)"
  have k: "Suc (length evs') - ?k \<le> length evs'" "?k - 1 \<le> length evs'"
      "length evs' - (?k - 1) = Suc (length evs') - ?k"
    using assms(1,2) evs by (cases "event_undo_log x"; auto simp: event_log_ok_def)+
  have log: "event_undo_log x = map (undo_entry (evs' @ [e])) [Suc (length evs') - ?k..<Suc (length evs')]"
    using assms(1) evs by (simp add: event_log_ok_def)
  have "butlast (event_undo_log x) = map (undo_entry (evs' @ [e])) [Suc (length evs') - ?k..<length evs']"
    using k by (subst log) (simp add: butlast_append)
  also have "\<dots> = map (undo_entry evs') [length evs' - (?k - 1)..<length evs']"
    unfolding k(3) by (auto simp: undo_entry_def nth_append)
  finally show ?thesis using k evs assms(3,4) by (simp add: event_log_ok_def)
qed

lemma undo_rfs:
  assumes "wf_core x" "rf_log_ok x" "event_log_ok x" "k \<le> length (rf_undo_log x)"
  shows "\<exists>x'. undo_n undo_last_rf_assignment k x = Inr x' \<and> wf_core x' \<and> event_log_ok x'
    \<and> xg_events x' = xg_events x \<and> event_undo_log x' = event_undo_log x
    \<and> rf_undo_log x' = take (length (rf_undo_log x) - k) (rf_undo_log x)
    \<and> xg_rf x' = foldr undo_rf (drop (length (rf_undo_log x) - k) (rf_undo_log x)) (xg_rf x)"
  using assms
proof (induction k arbitrary: x)
  case (Suc k)
  from Suc.prems(4) have ne: "rf_undo_log x \<noteq> []" by auto
  then obtain us u where us: "rf_undo_log x = us @ [u]" by (cases "rf_undo_log x" rule: rev_cases) auto
  from undo_last_rf_assignment_core [OF Suc.prems(1,2) ne] obtain y where
    y: "undo_last_rf_assignment x = Inr y" "wf_core y" "xg_events y = xg_events x" "xg_rf y = undo_rf u (xg_rf x)"
      "event_undo_log y = event_undo_log x" "rf_undo_log y = us" by (auto simp: us)
  have "rf_log_ok y" "event_log_ok y"
    using Suc.prems(2,3) y by (auto simp: rf_log_ok_def event_log_ok_def us)
  moreover have "k \<le> length (rf_undo_log y)" using Suc.prems(4) us y(6) by simp
  ultimately obtain x' where "undo_n undo_last_rf_assignment k y = Inr x'" "wf_core x'" "event_log_ok x'"
    "xg_events x' = xg_events y" "event_undo_log x' = event_undo_log y"
    "rf_undo_log x' = take (length us - k) us" "xg_rf x' = foldr undo_rf (drop (length us - k) us) (xg_rf y)"
    using Suc.IH [OF y(2)] y(6) by auto
  with y us show ?case by auto
qed simp

lemma take_butlast_minus:
  "k \<le> length xs \<Longrightarrow> 0 < k \<Longrightarrow> take (length xs - k) (butlast xs) = take (length xs - k) xs"
  by (simp add: butlast_conv_take)

lemma undo_events:
  assumes "wf_core x" "event_log_ok x" "k \<le> length (event_undo_log x)"
    and "rf_valid (take (length (xg_events x) - k) (xg_events x)) (xg_rf x)"
  shows "\<exists>x'. undo_n undo_last_event_append k x = Inr x' \<and> wf_core x'
    \<and> xg_events x' = take (length (xg_events x) - k) (xg_events x) \<and> xg_rf x' = xg_rf x
    \<and> event_undo_log x' = take (length (event_undo_log x) - k) (event_undo_log x)
    \<and> rf_undo_log x' = rf_undo_log x"
  using assms
proof (induction k arbitrary: x)
  case (Suc k)
  from Suc.prems(3) have ne: "event_undo_log x \<noteq> []" by auto
  have n: "Suc k \<le> length (xg_events x)" using Suc.prems(2,3) by (auto simp: event_log_ok_def)
  have "rf_valid (butlast (xg_events x)) (xg_rf x)"
    using rf_valid_append [OF Suc.prems(4), of "drop (length (xg_events x) - Suc k) (butlast (xg_events x))"]
    by (simp add: take_butlast_minus [symmetric] n)
  from undo_last_event_append_core [OF Suc.prems(1) ne Suc.prems(2) this] obtain y where
    y: "undo_last_event_append x = Inr y" "wf_core y" "xg_events y = butlast (xg_events x)" "xg_rf y = xg_rf x"
      "event_undo_log y = butlast (event_undo_log x)" "rf_undo_log y = rf_undo_log x" by blast
  have "event_log_ok y" by (rule event_log_ok_butlast [OF Suc.prems(2) ne y(3,5)])
  moreover have "k \<le> length (event_undo_log x) - Suc 0" using Suc.prems(3) by simp
  ultimately obtain x' where
    "undo_n undo_last_event_append k y = Inr x'" "wf_core x'"
    "xg_events x' = take (length (xg_events x) - Suc k) (xg_events x)" "xg_rf x' = xg_rf x"
    "event_undo_log x' = take (length (event_undo_log x) - Suc k) (event_undo_log x)"
    "rf_undo_log x' = rf_undo_log x"
    using Suc.IH [OF y(2)] y Suc.prems(3,4) n take_butlast_minus [of "Suc k" "xg_events x"]
      take_butlast_minus [of "Suc k" "event_undo_log x"] by auto
  with y show ?case by simp
qed simp

section \<open>Rolling back to a checkpoint\<close>

text \<open>
  What a worker does to its graph between a checkpoint and the rollback to it. A receive of the graph is assigned one of the
  sends of the graph, or bottom. Inner checkpoints are rolled back to in between.
\<close>

inductive grows :: "'v ExplorationGraph \<Rightarrow> 'v ExplorationGraph \<Rightarrow> bool" where
  grows_refl: "grows x x"
| grows_add: "grows x y \<Longrightarrow> add_event t l y = Inr (i, z) \<Longrightarrow> grows x z"
| grows_set: "grows x y \<Longrightarrow> is_receive_id y r \<Longrightarrow> source_ok (xg_events y) (Some s) \<Longrightarrow>
    set_reads_from_source r s y = Inr z \<Longrightarrow> grows x z"
| grows_mark: "grows x y \<Longrightarrow> grows x (mark_known_acyclic y)"
| grows_cache: "grows x y \<Longrightarrow> grows x (y\<lparr>porf_cache := c\<rparr>)"
| grows_back: "grows x y \<Longrightarrow> grows y y' \<Longrightarrow> rollback (checkpoint y) y' = Inr z \<Longrightarrow> grows x z"

definition logs_ok :: "'v ExplorationGraph \<Rightarrow> bool" where
  "logs_ok x \<longleftrightarrow> event_log_ok x \<and> rf_log_ok x"

definition grown :: "'v ExplorationGraph \<Rightarrow> 'v ExplorationGraph \<Rightarrow> bool" where
  "grown x y \<longleftrightarrow> wf_core y \<and> logs_ok y \<and> (\<exists>new l u. xg_events y = xg_events x @ new
     \<and> event_undo_log y = event_undo_log x @ l \<and> length l = length new
     \<and> rf_undo_log y = rf_undo_log x @ u \<and> foldr undo_rf u (xg_rf y) = xg_rf x)"

lemma add_event_Inr:
  assumes "wf_core x" "add_event t l x = Inr (i, z)"
  shows "t \<le> kMaxThreadId" "length (thread_ids (xg_events x) t) < 2 ^ 32"
proof -
  show t: "t \<le> kMaxThreadId"
    using add_event_errors(1) [OF assms(1), of t l] assms(2) by (cases "t \<le> kMaxThreadId") auto
  have "length (thread_ids (xg_events x) t) \<noteq> 2 ^ 32"
    using add_event_errors(2) [OF assms(1) t, of l] assms(2) by fastforce
  then show "length (thread_ids (xg_events x) t) < 2 ^ 32"
    using length_thread_ids_le [OF wf_coreD(4) [OF assms(1)], of t] by linarith
qed

lemma event_log_ok_add:
  assumes "event_log_ok x" "xg_events z = xg_events x @ [e]"
    and "event_undo_log z = event_undo_log x @ [undo_entry (xg_events z) (length (xg_events x))]"
  shows "event_log_ok z"
proof -
  let ?n = "length (xg_events x)" and ?k = "length (event_undo_log x)"
  have k: "?k \<le> ?n" using assms(1) by (simp add: event_log_ok_def)
  have "event_undo_log x = map (undo_entry (xg_events x)) [?n - ?k..<?n]"
    using assms(1) by (simp add: event_log_ok_def)
  also have "\<dots> = map (undo_entry (xg_events z)) [?n - ?k..<?n]"
    using assms(2) by (auto simp: undo_entry_def nth_append)
  finally have "event_undo_log z = map (undo_entry (xg_events z)) [?n - ?k..<Suc ?n]"
    using assms(3) by simp
  with assms(2,3) k show ?thesis by (simp add: event_log_ok_def)
qed

lemma grown_add:
  assumes g: "grown x y" and add: "add_event t l y = Inr (i, z)"
  shows "grown x z"
proof -
  from g have wf: "wf_core y" and log: "event_log_ok y" "rf_log_ok y" by (auto simp: grown_def logs_ok_def)
  let ?e = "\<lparr>thread = t, index = next_of (xg_events y) t, label = l\<rparr>"
  from add_event_core [OF wf add_event_Inr [OF wf add], of l] add have
    z: "wf_core z" "xg_rf z = xg_rf y" "xg_events z = xg_events y @ [?e]" "rf_undo_log z = rf_undo_log y"
      "event_undo_log z = event_undo_log y @
        [\<lparr>undo_event_id = length (xg_events y), undo_thread = t,
          undo_event_index = next_of (xg_events y) t, previous_thread_state = ts_of (xg_events y) t,
          previous_next_event_index = next_of (xg_events y) t\<rparr>]" by auto
  have "event_log_ok z"
    by (rule event_log_ok_add [OF log(1) z(3)]) (simp add: z undo_entry_def)
  moreover have "rf_log_ok z" using log(2) z(3,4) by (fastforce simp: rf_log_ok_def nth_append source_ok_def)
  ultimately show ?thesis using g z by (auto simp: grown_def logs_ok_def)
qed

lemma grown_set:
  assumes g: "grown x y" and r: "is_receive_id y r" "source_ok (xg_events y) (Some s)"
    and set: "set_reads_from_source r s y = Inr z"
  shows "grown x z"
proof -
  from g have wf: "wf_core y" and log: "event_log_ok y" "rf_log_ok y" by (auto simp: grown_def logs_ok_def)
  have r': "r < length (xg_events y)" "is_receive (xg_events y ! r)"
    using r(1) by (auto simp: is_receive_id_def is_valid_event_id_def)
  from set_reads_from_source_core [OF wf r' r(2)] set have
    z: "wf_core z" "xg_events z = xg_events y" "xg_rf z = (xg_rf y)(r \<mapsto> s)" "event_undo_log z = event_undo_log y"
      "rf_undo_log z = rf_undo_log y @ [\<lparr>undo_receive_id = r, previous_source = xg_rf y r\<rparr>]" by auto
  have "event_log_ok z" using log(1) z by (simp add: event_log_ok_def)
  moreover have "rf_log_ok z"
    using log(2) z r' rf_valid_source_ok [OF wf_coreD(2) [OF wf]] by (simp add: rf_log_ok_def)
  ultimately show ?thesis using g z by (auto simp: grown_def logs_ok_def undo_rf_def)
qed

lemma grown_flags:
  assumes "grown x y"
  shows "grown x (y\<lparr>known_acyclic := a, pending_fresh_receive_id := b\<rparr>)" "grown x (y\<lparr>porf_cache := c\<rparr>)"
  using assms by (simp_all add: grown_def logs_ok_def event_log_ok_def rf_log_ok_def)

definition same_graph :: "'v ExplorationGraph \<Rightarrow> 'v ExplorationGraph \<Rightarrow> bool" where
  "same_graph x z \<longleftrightarrow> xg_events z = xg_events x \<and> xg_rf z = xg_rf x \<and> known_acyclic z = known_acyclic x
     \<and> pending_fresh_receive_id z = pending_fresh_receive_id x
     \<and> event_undo_log z = event_undo_log x \<and> rf_undo_log z = rf_undo_log x"

lemma rollback_grown:
  assumes "wf_core x" "grown x y"
  shows "\<exists>z. rollback (checkpoint x) y = Inr z \<and> wf_core z \<and> same_graph x z"
proof -
  from assms(2) obtain new l u where g: "wf_core y" "event_log_ok y" "rf_log_ok y"
    "xg_events y = xg_events x @ new" "event_undo_log y = event_undo_log x @ l" "length l = length new"
    "rf_undo_log y = rf_undo_log x @ u" "foldr undo_rf u (xg_rf y) = xg_rf x"
    by (auto simp: grown_def logs_ok_def)
  obtain y1 where y1: "undo_n undo_last_rf_assignment (length u) y = Inr y1" "wf_core y1" "event_log_ok y1"
    "xg_events y1 = xg_events y" "event_undo_log y1 = event_undo_log y" "rf_undo_log y1 = rf_undo_log x"
    "xg_rf y1 = xg_rf x"
    using undo_rfs [OF g(1,3,2), of "length u"] g(7,8) by auto
  obtain y2 where y2: "undo_n undo_last_event_append (length l) y1 = Inr y2" "wf_core y2"
    "xg_events y2 = xg_events x" "xg_rf y2 = xg_rf x" "event_undo_log y2 = event_undo_log x"
    "rf_undo_log y2 = rf_undo_log x"
    using undo_events [OF y1(2,3), of "length l"] wf_coreD(2) [OF assms(1)] y1(4-7) g(4-6) by auto
  let ?z = "y2\<lparr>known_acyclic := known_acyclic x, pending_fresh_receive_id := pending_fresh_receive_id x,
    porf_cache := None\<rparr>"
  have "rollback (checkpoint x) y = Inr ?z"
    using y1 y2 g(5,7) by (simp add: rollback_def checkpoint_def)
  moreover have "wf_core ?z" using y2(2) by (simp add: wf_core_def caches_ok_def)
  ultimately show ?thesis using y2 by (simp add: same_graph_def)
qed

lemma same_graph_flags: "same_graph x z \<Longrightarrow> flags_ok x \<Longrightarrow> flags_ok z"
  by (simp add: same_graph_def flags_ok_def)

lemma grown_same: "grown x y \<Longrightarrow> wf_core z \<Longrightarrow> same_graph y z \<Longrightarrow> grown x z"
  by (auto simp: grown_def logs_ok_def event_log_ok_def rf_log_ok_def same_graph_def)

lemma grows_grown:
  assumes "grows x y" "wf_core x" "logs_ok x"
  shows "grown x y"
  using assms
proof (induction rule: grows.induct)
  case (grows_refl x)
  then show ?case by (simp add: grown_def)
next
  case (grows_back x y y' z)
  then have xy: "grown x y" and "grown y y'" by (auto simp: grown_def)
  with rollback_grown [of y y'] grows_back.hyps(3) have "wf_core z" "same_graph y z" by (auto simp: grown_def)
  with xy show ?case by (rule grown_same)
qed (auto intro: grown_add grown_set simp: grown_flags mark_known_acyclic_def)

section \<open>The graphs the operations build\<close>

text \<open>Every way to make an exploration graph: in place, by a changed copy, or by restriction.\<close>

inductive built :: "'v ExplorationGraph \<Rightarrow> bool" where
  built_empty: "built empty_xg"
| built_grows: "built x \<Longrightarrow> grows x y \<Longrightarrow> built y"
| built_copy: "built x \<Longrightarrow> built (copy_graph x)"
| built_copy_rf: "built x \<Longrightarrow> is_receive_id x r \<Longrightarrow> source_ok (xg_events x) (Some s) \<Longrightarrow>
    copy_with_rf_source r s preserve x = Inr y \<Longrightarrow> built y"
| built_rebind: "built x \<Longrightarrow> is_receive_id x r \<Longrightarrow> is_send_id x i \<Longrightarrow> rebind_rf r i preserve x = Inr y \<Longrightarrow> built y"
| built_nd: "built x \<Longrightarrow> with_nd_value i v x = Inr y \<Longrightarrow> built y"
| built_restrict: "built x \<Longrightarrow> length keep_mask = length (xg_events x) \<Longrightarrow> restrict_from_keep_mask keep_mask x = Inr y \<Longrightarrow> built y"

text \<open>The acyclicity flags do not matter to the caches, so the lemmas on well-formed graphs apply to a graph without them.\<close>

definition unflag :: "'v ExplorationGraph \<Rightarrow> 'v ExplorationGraph" where
  "unflag x = x\<lparr>known_acyclic := False, pending_fresh_receive_id := None\<rparr>"

lemma unflag_simps [simp]:
  "wf_core (unflag x) = wf_core x" "wf_xg (unflag x) = wf_core x" "logs_ok (unflag x) = logs_ok x"
  "xg_events (unflag x) = xg_events x" "xg_rf (unflag x) = xg_rf x"
  "event_undo_log (unflag x) = event_undo_log x" "rf_undo_log (unflag x) = rf_undo_log x"
  by (simp_all add: unflag_def wf_xg_def flags_ok_def logs_ok_def event_log_ok_def rf_log_ok_def)

lemma clean_logs: "event_undo_log x = [] \<Longrightarrow> rf_undo_log x = [] \<Longrightarrow> logs_ok x"
  by (simp add: logs_ok_def event_log_ok_def rf_log_ok_def)

lemma adjust_unflag: "adjust_send_reader_count source up (unflag x) = map_result unflag (adjust_send_reader_count source up x)"
  by (auto simp: adjust_send_reader_count_def unflag_def Let_def split: option.splits ReadsFromSource.splits)

lemma update_unflag: "update_send_reader_state p n (unflag x) = map_result unflag (update_send_reader_state p n x)"
  by (cases "adjust_send_reader_count p False x") (simp_all add: update_send_reader_state_def adjust_unflag)

lemma unflag_updates:
  "(unflag x)\<lparr>graph := g\<rparr> = unflag (x\<lparr>graph := g\<rparr>)" "(unflag x)\<lparr>porf_cache := c\<rparr> = unflag (x\<lparr>porf_cache := c\<rparr>)"
  "graph (unflag x) = graph x" "unflag (mark_known_acyclic x) = unflag x" "unflag (invalidate_known_acyclicity x) = unflag x"
  "invalidate_known_acyclicity (unflag x) = unflag x" "current_reads_from_source (unflag x) = current_reads_from_source x"
  by (simp_all add: unflag_def mark_known_acyclic_def invalidate_known_acyclicity_def current_reads_from_source_def fun_eq_iff)

lemma rebind_unflag: "rebind_rf r i preserve x = Inr y \<Longrightarrow> rebind_rf r i False (unflag x) = Inr (unflag y)"
  by (auto simp: rebind_rf_def Let_def unflag_updates update_unflag split: if_splits)

lemma with_nd_value_unflag: "with_nd_value i v x = Inr y \<Longrightarrow> with_nd_value i v (unflag x) = Inr (unflag y)"
  by (auto simp: with_nd_value_def Let_def unflag_def copy_graph_def clear_worker_local_history_def
      split: if_splits EventLabel.splits)

lemma restrict_unflag:
  "restrict_from_keep_mask keep_mask x = Inr y \<Longrightarrow> \<exists>z. restrict_from_keep_mask keep_mask (unflag x) = Inr z \<and> unflag z = unflag y"
  by (auto simp: restrict_from_keep_mask_def unflag_def xg_event_count_def xg_event_def clear_worker_local_history_def
      mark_known_acyclic_def invalidate_known_acyclicity_def bind_result_def split: if_splits prod.splits sum.splits)

lemma is_receive_idD: "is_receive_id x r \<Longrightarrow> r < length (xg_events x) \<and> is_receive (xg_events x ! r)"
  by (simp add: is_receive_id_def is_valid_event_id_def)

lemma copied_wf:
  assumes "wf_core x" "is_receive_id x r" "source_ok (xg_events x) (Some s)" "copy_with_rf_source r s preserve x = Inr y"
  shows "wf_core y \<and> logs_ok y"
proof -
  have "wf_core (copy_graph x)" using assms(1) by (simp add: copy_graph_def clear_worker_local_history_def)
  from set_reads_from_source_core [OF this, of r s] assms(2-4) is_receive_idD [OF assms(2)] show ?thesis
    by (auto simp: copy_graph_def copy_with_rf_source_def clear_worker_local_history_def mark_known_acyclic_def
        invalidate_known_acyclicity_def intro!: clean_logs)
qed

lemma rebound_wf:
  assumes "wf_core x" "is_receive_id x r" "is_send_id x i" "rebind_rf r i preserve x = Inr y"
  shows "wf_core y \<and> logs_ok y"
proof -
  have "source_ok (xg_events x) (Some (from_send i))" using assms(3) by (simp add: is_send_id_def is_valid_event_id_def source_ok_def)
  moreover have "event_undo_log x = []" "rf_undo_log x = []" using assms(4) by (auto simp: rebind_rf_def split: if_splits)
  ultimately have "wf_xg (unflag y)" "event_undo_log (unflag y) = []" "rf_undo_log (unflag y) = []"
    using rebind_rf_wf [of "unflag x" r i False] assms(1) is_receive_idD [OF assms(2)] rebind_unflag [OF assms(4)] by auto
  then show ?thesis by (auto intro: clean_logs)
qed

lemma chosen_wf:
  assumes "wf_core x" "with_nd_value i v x = Inr y"
  shows "wf_core y \<and> logs_ok y"
proof -
  from assms(2) obtain nd where i: "i < length (xg_events x)" "label (xg_events x ! i) = NondeterministicChoice nd"
    and logs: "event_undo_log y = []" "rf_undo_log y = []"
    by (auto simp: with_nd_value_def is_valid_event_id_def Let_def copy_graph_def clear_worker_local_history_def
        split: if_splits EventLabel.splits)
  have "wf_xg (unflag y)" using with_nd_value_wf [of "unflag x" i nd v] assms(1) i with_nd_value_unflag [OF assms(2)] by auto
  with logs show ?thesis by (auto intro: clean_logs)
qed

lemma restricted_wf:
  assumes "wf_core x" "length keep_mask = length (xg_events x)" "restrict_from_keep_mask keep_mask x = Inr y"
  shows "wf_core y \<and> logs_ok y"
proof -
  from restrict_unflag [OF assms(3)] obtain z where z: "restrict_from_keep_mask keep_mask (unflag x) = Inr z" "unflag z = unflag y" by blast
  with restrict_from_keep_mask_wf [of "unflag x" keep_mask] assms(1,2) have "wf_xg z" "event_undo_log z = []" "rf_undo_log z = []"
    by auto
  then show ?thesis using unflag_simps(1,6,7) z(2) by (metis clean_logs wf_xg_def)
qed

lemma built_wf: "built x \<Longrightarrow> wf_core x \<and> logs_ok x"
proof (induction rule: built.induct)
  case built_empty
  then show ?case by (simp add: wf_empty_xg [unfolded wf_xg_def] clean_logs)
next
  case (built_grows x y)
  then have "grown x y" using grows_grown by blast
  then show ?case by (simp add: grown_def)
next
  case (built_copy x)
  then show ?case by (simp add: copy_graph_def clear_worker_local_history_def clean_logs)
qed (blast dest: copied_wf rebound_wf chosen_wf restricted_wf)+

section \<open>Properties\<close>

text \<open>C20. Rolling back to a checkpoint undoes everything a worker does in between: after any sequence of event
  insertions, assignments of a receive of the graph to one of its sends or to bottom, acyclicity marks, cache fills, and
  rollbacks to inner checkpoints, the rollback succeeds and gives
  back the events, the reads-from map, the flags and the undo logs of the checkpointed graph, with
  well-formed caches.\<close>

theorem rollback_restores:
  assumes "wf_core x" "logs_ok x" "grows x y"
  shows "\<exists>z. rollback (checkpoint x) y = Inr z \<and> wf_core z \<and> same_graph x z"
  using rollback_grown grows_grown assms by blast

text \<open>A second send after the sample graph, which its receive is then assigned to.\<close>

definition second_send :: "nat EventLabel" where
  "second_send = Send \<lparr>destination = 1, send_value = 8\<rparr>"

lemma sample_built: "built sample_xg"
proof -
  obtain x where x: "add_event 0 (Send \<lparr>destination = 1, send_value = 7 :: nat\<rparr>) empty_xg = Inr (0, x)" "wf_xg x"
    "xg_events x = [sample_events ! 0]"
    using add_event_wf [OF wf_empty_xg, of 0 "Send \<lparr>destination = 1, send_value = 7 :: nat\<rparr>"]
    by (auto simp: sample_events_def next_of_def)
  obtain y where y: "add_event 1 (Receive (make_receive_label match_any_value Blocking)) x = Inr (1, y)" "wf_xg y"
    "xg_events y = sample_events"
    using add_event_wf [OF x(2), of 1 "Receive (make_receive_label match_any_value Blocking)"] x(3)
    by (auto simp: sample_events_def next_of_def kMaxThreadId_def thread_ids_def)
  have r: "is_receive_id y 1" "source_ok (xg_events y) (Some (from_send 0))"
    using y(3) by (simp_all add: is_receive_id_def is_valid_event_id_def source_ok_def sample_events_def is_receive_def is_send_def)
  then obtain z where z: "set_reads_from_source 1 (from_send 0) y = Inr z"
    using set_reads_from_source_wf [OF y(2), of 1 "from_send 0"] is_receive_idD [OF r(1)] by auto
  have "grows empty_xg z" using grows_set [OF grows_add [OF grows_add [OF grows_refl x(1)] y(1)] r z] .
  moreover have "sample_xg = z" using x(1) y(1) z by (simp add: sample_xg_def set_reads_from_def)
  ultimately show ?thesis using built_grows [OF built_empty] by blast
qed

lemma sample_grows:
  "\<exists>y z. add_event 0 second_send sample_xg = Inr (2, y) \<and> set_reads_from 1 2 y = Inr z \<and> grows sample_xg z
     \<and> xg_events z = sample_events @ [\<lparr>thread = 0, index = 1, label = second_send\<rparr>] \<and> xg_rf z = [1 \<mapsto> from_send 2]"
proof -
  obtain y where y: "add_event 0 second_send sample_xg = Inr (2, y)" "wf_xg y" "xg_rf y = [1 \<mapsto> from_send 0]"
    "xg_events y = sample_events @ [\<lparr>thread = 0, index = 1, label = second_send\<rparr>]"
    using add_event_wf [of sample_xg 0 second_send]
    by (auto simp: sample_events_def next_of_def thread_ids_def)
  have r: "is_receive_id y 1" "source_ok (xg_events y) (Some (from_send 2))"
    using y(4) by (simp_all add: is_receive_id_def is_valid_event_id_def source_ok_def sample_events_def is_receive_def is_send_def second_send_def)
  then obtain z where z: "set_reads_from_source 1 (from_send 2) y = Inr z" "xg_events z = xg_events y" "xg_rf z = [1 \<mapsto> from_send 2]"
    using set_reads_from_source_wf [OF y(2), of 1 "from_send 2"] is_receive_idD [OF r(1)] y(3) by auto
  with y grows_set [OF grows_add [OF grows_refl y(1)] r z(1)] show ?thesis by (auto simp: set_reads_from_def)
qed

theorem rollback_restores_witness:
  "\<exists>y z w. add_event 0 second_send sample_xg = Inr (2, y) \<and> set_reads_from 1 2 y = Inr z
     \<and> rollback (checkpoint sample_xg) z = Inr w \<and> xg_events w = sample_events \<and> xg_rf w = [1 \<mapsto> from_send 0]"
proof -
  from sample_grows obtain y z where
    s: "add_event 0 second_send sample_xg = Inr (2, y)" "set_reads_from 1 2 y = Inr z" "grows sample_xg z" by blast
  from built_wf [OF sample_built] have "logs_ok sample_xg" by blast
  from rollback_restores [OF sample_xg_simps(2) this s(3)] s show ?thesis by (auto simp: same_graph_def)
qed

text \<open>
  Outside of \<open>grows\<close>: a receive is assigned the id of an event that is added only afterwards. The assignment
  does not count its reader, as there is no such send yet, and to undo it takes that reader away.
\<close>

definition dangling_rollback :: "nat ExplorationGraph result" where
  "dangling_rollback =
     bind_result (add_event 1 (Receive (make_receive_label match_any_value Blocking)) empty_xg) (\<lambda>(_, x).
       bind_result (set_reads_from 0 1 x) (\<lambda>y.
         bind_result (add_event 0 second_send y) (\<lambda>(_, z). rollback (checkpoint x) z)))"

lemma rollback_dangling_source_fails:
  "dangling_rollback = Inl (internal_error ''send reader count underflow'')"
proof -
  let ?l = "Receive (make_receive_label match_any_value Blocking) :: nat EventLabel" and ?x0 = "empty_xg :: nat ExplorationGraph"
  have wf0: "wf_core ?x0" by (simp add: wf_empty_xg [unfolded wf_xg_def])
  obtain x where x: "add_event 1 ?l ?x0 = Inr (0, x)" "wf_core x" "xg_rf x = Map.empty" "rf_undo_log x = []"
    "xg_events x = [\<lparr>thread = 1, index = 0, label = ?l\<rparr>]" "event_undo_log x \<noteq> []"
    using add_event_core [OF wf0, of 1 ?l] by (auto simp: kMaxThreadId_def next_of_def)
  have cx: "send_reader_counts x = [0]" "length (unread_send_mask x) = 1"
    using caches_okD(8,9) [OF wf_coreD(3) [OF x(2)]] x(3,5) by (simp_all add: reader_counts_def unread_mask_def readers_def)
  obtain y where y: "set_reads_from 0 1 x = Inr y" "wf_eg (graph y)" "xg_events y = xg_events x" "xg_rf y = [0 \<mapsto> from_send 1]"
    "rf_undo_log y = [\<lparr>undo_receive_id = 0, previous_source = None\<rparr>]" "send_reader_counts y = [0]"
    "length (unread_send_mask y) = 1" "event_undo_log y = event_undo_log x"
    using x cx eg_set_reads_from_source_wf [OF wf_coreD(1) [OF x(2)], of 0 "from_send 1"]
    by (simp add: set_reads_from_def set_reads_from_source_def update_send_reader_state_def adjust_send_reader_count_def
        current_reads_from_source_def is_valid_event_id_def update_acyclicity_after_rf_assignment_def
        invalidate_known_acyclicity_def eg_set_reads_from_source_def Let_def)
  obtain z where z: "add_event 0 second_send y = Inr (1, z)" "xg_rf z = [0 \<mapsto> from_send 1]" "rf_undo_log z = rf_undo_log y"
    "length (xg_events z) = 2" "label (xg_events z ! 1) = second_send" "send_reader_counts z = [0, 0]"
    "length (unread_send_mask z) = 2" "length (event_undo_log z) \<ge> length (event_undo_log y)"
  proof -
    obtain g where g: "eg_add_event 0 second_send (graph y) = Inr (1, g)" "reads_from g = reads_from (graph y)"
      "events g = xg_events x @ [\<lparr>thread = 0, index = nth_or 0 (next_event_index_by_thread (graph y)) 0, label = second_send\<rparr>]"
      using eg_add_event_wf [OF y(2), of 0 second_send] y(3) x(5) by (auto simp: thread_indices_def)
    show ?thesis
      by (rule that [of "snd (projr (add_event 0 second_send y))"])
        (use g y(3-8) x(5) in \<open>simp_all add: add_event_def Let_def record_event_kind_def resize_def is_receive_def is_send_def
           second_send_def update_acyclicity_after_add_event_def nth_append\<close>)
  qed
  have "rollback (checkpoint x) z = Inl (internal_error ''send reader count underflow'')"
    using z x(4-6) y(5,8)
    by (simp add: rollback_def checkpoint_def undo_last_rf_assignment_def Let_def current_reads_from_source_def
        update_send_reader_state_def adjust_send_reader_count_def is_valid_event_id_def rollback_reads_from_def
        is_send_def second_send_def)
  with x(1) y(1) z(1) show ?thesis by (simp add: dangling_rollback_def)
qed

text \<open>C23. In every graph that the operations of the class make from the empty one, the incrementally maintained unread mask gives the list a
  scan of the whole reads-from relation gives:
  the sends no receive reads, in ascending order. The operations are event insertion, assignment of a receive to a send of the
  graph or to bottom, rollback, copies with a changed source or choice, rebinding and restriction.\<close>

theorem unread_sends_agree_with_scan:
  assumes "built x"
  shows "unread_send_event_ids x = eg_unread_send_event_ids (graph x)
    \<and> unread_send_event_ids x = filter (\<lambda>i. is_send (xg_events x ! i) \<and> (\<forall>r. xg_rf x r \<noteq> Some (from_send i)))
        [0..<length (xg_events x)]"
  using built_wf [OF assms] unread_send_event_ids_scan [of x] unread_send_event_ids_eq [of x] by simp

theorem unread_sends_agree_with_scan_witness:
  "\<exists>y z. add_event 0 second_send sample_xg = Inr (2, y) \<and> set_reads_from 1 2 y = Inr z \<and> unread_send_event_ids z = [0]"
proof -
  from sample_grows obtain y z where
    s: "add_event 0 second_send sample_xg = Inr (2, y)" "set_reads_from 1 2 y = Inr z" "grows sample_xg z"
      "xg_events z = sample_events @ [\<lparr>thread = 0, index = 1, label = second_send\<rparr>]" "xg_rf z = [1 \<mapsto> from_send 2]" by blast
  have "(\<forall>r. [1 \<mapsto> from_send 2] r \<noteq> Some (from_send i)) \<longleftrightarrow> i \<noteq> 2" for i by auto
  moreover have "[0..<length (xg_events z)] = [0, 1, 2]" by (simp add: s(4) sample_events_def upt_rec)
  ultimately have "unread_send_event_ids z = [0]"
    using unread_sends_agree_with_scan [OF built_grows [OF sample_built s(3)], THEN conjunct2]
    unfolding s(5) by (simp add: s(4) sample_events_def is_send_def second_send_def)
  with s show ?thesis by blast
qed

end
