(* ===== verification/Action_Logic.thy ===== *)
theory Action_Logic
  imports Explorer
begin

text \<open>
  Weakest preconditions of actions, with one postcondition for a normal end and one for an exception. The
  rules compute: on a state in the normal form \<open>top_state\<close>, simplification runs a handler symbolically
  down to the calls of graph operations and of the executor.
\<close>

definition wp :: "('s, 'a) action \<Rightarrow> ('a \<Rightarrow> 's \<Rightarrow> bool) \<Rightarrow> (exn \<Rightarrow> 's \<Rightarrow> bool) \<Rightarrow> 's \<Rightarrow> bool" where
  "wp m post exc s \<longleftrightarrow> (case m s of (r, s') \<Rightarrow> case r of Inl e \<Rightarrow> exc e s' | Inr a \<Rightarrow> post a s')"

named_theorems wp_simps \<open>symbolic execution of actions\<close>

lemma wpD:
  assumes "wp m post exc s" "m s = (r, s')"
  shows "case r of Inl e \<Rightarrow> exc e s' | Inr a \<Rightarrow> post a s'"
  using assms by (simp add: wp_def)

lemma wp_return [wp_simps]: "wp (return_action a) post exc s \<longleftrightarrow> post a s"
  by (simp add: wp_def return_action_def)

lemma wp_lift [wp_simps]:
  "wp (lift_result r) post exc s \<longleftrightarrow> (case r of Inl e \<Rightarrow> exc e s | Inr a \<Rightarrow> post a s)"
  by (simp add: wp_def lift_result_def)

lemma wp_modify [wp_simps]: "wp (modify h) post exc s \<longleftrightarrow> post () (h s)"
  by (simp add: wp_def modify_def)

lemma wp_bind [wp_simps]: "wp (bind_action m f) post exc s \<longleftrightarrow> wp m (\<lambda>a. wp (f a) post exc) exc s"
  by (auto simp: wp_def bind_action_def split: prod.splits sum.splits)

lemma wp_if [wp_simps]: "wp (if b then m else n) post exc s \<longleftrightarrow> (if b then wp m post exc s else wp n post exc s)"
  by simp

lemma wp_with_state [wp_simps]: "wp (with_state m) post exc s \<longleftrightarrow> wp (m s) post exc s"
  by (simp add: wp_def with_state_def)

lemma wp_conseq:
  assumes "wp m post exc s" "\<And>a s. post a s \<Longrightarrow> post' a s" "\<And>e s. exc e s \<Longrightarrow> exc' e s"
  shows "wp m post' exc' s"
  using assms by (auto simp: wp_def split: prod.splits sum.splits)

section \<open>Normal forms of explorer states\<close>

text \<open>An explorer state with another current graph, other frames in the current context and another
  executor state.\<close>

definition top_state ::
    "('v, 's) Explorer \<Rightarrow> 'v ExplorationGraph \<Rightarrow> 'v ExplorationFrame list \<Rightarrow> 's \<Rightarrow> ('v, 's) Explorer" where
  "top_state st x fs s = (set_frames fs (set_current_graph x st))\<lparr>executor_state := s\<rparr>"

lemma top_state_parts:
  assumes "contexts st = c # cs"
  shows "contexts (top_state st x fs s) = c\<lparr>owned_graph := map_option (\<lambda>_. x) (owned_graph c), frames := fs\<rparr> # cs"
    "borrowed_graph (top_state st x fs s) = (if owned_graph c = None then x else borrowed_graph st)"
    "executor_state (top_state st x fs s) = s"
  using assms
  by (auto simp: top_state_def set_frames_def set_current_graph_def current_context_def split: option.splits)

lemma explorer_eqI:
  assumes "borrowed_graph a = borrowed_graph b" "contexts a = contexts b" "executor_state a = executor_state b"
  shows "a = (b :: ('v, 's) Explorer)"
  using assms by (cases a; cases b) simp

lemma top_state_simps [wp_simps]:
  assumes "contexts st \<noteq> []"
  shows "current_graph (top_state st x fs s) = x"
    "frames (current_context (top_state st x fs s)) = fs"
    "top_frame (top_state st x (f # fs) s) = f"
    "executor_state (top_state st x fs s) = s"
    "set_current_graph y (top_state st x fs s) = top_state st y fs s"
    "modify_frame h (top_state st x (f # fs) s) = top_state st x (h f # fs) s"
    "push_frame g (top_state st x fs s) = top_state st x (g # fs) s"
    "(top_state st x fs s)\<lparr>executor_state := s'\<rparr> = top_state st x fs s'"
    "contexts (top_state st x fs s) \<noteq> []"
proof -
  from assms obtain c cs where c: "contexts st = c # cs" by (auto simp: neq_Nil_conv)
  note parts = top_state_parts [OF c]
  show "current_graph (top_state st x fs s) = x"
    by (simp add: current_graph_def context_graph_def current_context_def parts split: option.splits)
  show fr: "frames (current_context (top_state st x fs s)) = fs" for fs by (simp add: current_context_def parts)
  show "top_frame (top_state st x (f # fs) s) = f" by (simp add: top_frame_def fr)
  show "executor_state (top_state st x fs s) = s" by (simp add: parts)
  show "set_current_graph y (top_state st x fs s) = top_state st y fs s"
    by (rule explorer_eqI) (simp_all add: set_current_graph_def current_context_def parts split: option.splits)
  show "modify_frame h (top_state st x (f # fs) s) = top_state st x (h f # fs) s"
    by (rule explorer_eqI) (simp_all add: modify_frame_def set_frames_def top_frame_def current_context_def parts)
  show "push_frame g (top_state st x fs s) = top_state st x (g # fs) s"
    by (rule explorer_eqI) (simp_all add: push_frame_def set_frames_def current_context_def parts)
  show "(top_state st x fs s)\<lparr>executor_state := s'\<rparr> = top_state st x fs s'"
    by (rule explorer_eqI) (simp_all add: parts)
  show "contexts (top_state st x fs s) \<noteq> []" by (simp add: parts)
qed

lemma top_state_same:
  assumes "contexts st \<noteq> []"
  shows "top_state st (current_graph st) (frames (current_context st)) (executor_state st) = st"
  by (rule explorer_eqI)
    (use assms in \<open>auto simp: top_state_def set_frames_def set_current_graph_def current_graph_def context_graph_def
      current_context_def neq_Nil_conv split: option.splits\<close>)

lemma wp_executor [wp_simps]:
  assumes "contexts st \<noteq> []"
  shows "wp (on_executor m) post exc (top_state st x fs s) \<longleftrightarrow>
      (case m s of (r, s') \<Rightarrow> case r of Inl e \<Rightarrow> exc e (top_state st x fs s') | Inr a \<Rightarrow> post a (top_state st x fs s'))"
    "wp (ask_executor q) post exc (top_state st x fs s) \<longleftrightarrow> (case q s of (a, s') \<Rightarrow> post a (top_state st x fs s'))"
  using top_state_simps [OF assms] by (auto simp: wp_def ask_executor_def on_executor_def split: prod.splits)

lemma wp_graph [wp_simps]:
  assumes "contexts st \<noteq> []"
  shows "wp (on_graph m) post exc (top_state st x fs s) \<longleftrightarrow>
      (case m x of Inl e \<Rightarrow> exc e (top_state st x fs s) | Inr (a, y) \<Rightarrow> post a (top_state st y fs s))"
    "wp (on_graph_void m') post' exc (top_state st x fs s) \<longleftrightarrow>
      (case m' x of Inl e \<Rightarrow> exc e (top_state st x fs s) | Inr y \<Rightarrow> post' () (top_state st y fs s))"
  using top_state_simps [OF assms]
  by (auto simp: wp_def on_graph_void_def on_graph_def map_result_def bind_result_def split: prod.splits sum.splits)

end
