(* ===== verification/Explorer_Moves.thy ===== *)
theory Explorer_Moves
  imports Action_Logic
begin

text \<open>
  An abstract account of the explorer. A \<open>view\<close> of its state is the stack of graphs, each with its frames;
  \<open>moves\<close> is a step relation on views with the executions a step publishes, and \<open>fails\<close> names the causes
  of an exception. The executor interface is a locale; the main lemma says that every iteration of the
  loop is a move, an idle step under a stop request, or a failure, for every executor that meets the
  interface.
\<close>

section \<open>Views\<close>

type_synonym 'v view = "('v ExplorationGraph \<times> 'v ExplorationFrame list) list"

definition view :: "('v, 's) Explorer \<Rightarrow> 'v view" where
  "view st = map (\<lambda>c. (context_graph (borrowed_graph st) c, frames c)) (contexts st)"

text \<open>Only the bottom context borrows its graph, and no context is without frames.\<close>

definition shape_ok :: "('v, 's) Explorer \<Rightarrow> bool" where
  "shape_ok st \<longleftrightarrow> (\<forall>c\<in>set (butlast (contexts st)). owned_graph c \<noteq> None) \<and> (\<forall>c\<in>set (contexts st). frames c \<noteq> [])"

definition drop_top :: "'v ExplorationGraph \<Rightarrow> 'v ExplorationFrame list \<Rightarrow> 'v view \<Rightarrow> 'v view" where
  "drop_top x fs v = (if fs = [] then v else (x, fs) # v)"

definition on_top ::
    "('v, 's) Explorer \<Rightarrow> 'v ExplorationGraph \<Rightarrow> 'v ExplorationFrame \<Rightarrow> 'v ExplorationFrame list \<Rightarrow> 'v view \<Rightarrow> bool" where
  "on_top st x f fs v \<longleftrightarrow> shape_ok st \<and> view st = (x, f # fs) # v"

lemma view_Nil [simp]: "view st = [] \<longleftrightarrow> contexts st = []"
  by (simp add: view_def)

lemma view_executor [simp]: "view (st\<lparr>executor_state := s\<rparr>) = view st" "shape_ok (st\<lparr>executor_state := s\<rparr>) = shape_ok st"
  by (simp_all add: view_def shape_ok_def)

lemma on_top_executor [simp]: "on_top (st\<lparr>executor_state := s\<rparr>) x f fs v = on_top st x f fs v"
  by (simp add: on_top_def)

lemma on_top_cases:
  assumes "shape_ok st" "contexts st \<noteq> []"
  obtains x f fs v where "on_top st x f fs v"
proof -
  from assms(2) obtain c cs where c: "contexts st = c # cs" by (auto simp: neq_Nil_conv)
  with assms(1) obtain f fs where "frames c = f # fs" by (auto simp: shape_ok_def neq_Nil_conv)
  with c assms(1) that show thesis by (simp add: on_top_def view_def)
qed

lemma on_topD:
  assumes "on_top st x f fs v"
  shows "current_graph st = x" "top_frame st = f" "frames (current_context st) = f # fs" "contexts st \<noteq> []" "shape_ok st"
    "view st = (x, f # fs) # v"
  using assms by (auto simp: on_top_def view_def current_graph_def top_frame_def current_context_def)

lemma on_topE:
  assumes "on_top st x f fs v"
  obtains c cs where "contexts st = c # cs" "frames c = f # fs" "context_graph (borrowed_graph st) c = x"
    "v = map (\<lambda>c. (context_graph (borrowed_graph st) c, frames c)) cs" "shape_ok st"
  using assms by (auto simp: on_top_def view_def)

lemma other_contexts:
  assumes "\<forall>c\<in>set (butlast (c # cs)). owned_graph c \<noteq> None" "owned_graph c = None"
  shows "cs = []"
  using assms by (cases cs) auto

lemma view_top_state:
  assumes "on_top st x0 f0 fs0 v"
  shows "view (top_state st x fs s) = (x, fs) # v" "shape_ok (top_state st x (f # fs) s)"
    "on_top (top_state st x (f # fs) s) x f fs v"
proof -
  from assms obtain c cs where c: "contexts st = c # cs" "frames c = f0 # fs0" "context_graph (borrowed_graph st) c = x0"
    "v = map (\<lambda>c. (context_graph (borrowed_graph st) c, frames c)) cs" "shape_ok st" by (rule on_topE)
  note parts = top_state_parts [OF c(1)]
  have cs: "cs = []" if "owned_graph c = None"
  proof (rule other_contexts)
    show "\<forall>d\<in>set (butlast (c # cs)). owned_graph d \<noteq> None" using c(1,5) unfolding shape_ok_def by metis
  qed (rule that)
  show vw: "view (top_state st x fs s) = (x, fs) # v" for fs
  proof (cases "owned_graph c")
    case None
    with cs c parts show ?thesis by (simp add: view_def context_graph_def)
  next
    case (Some z)
    with c parts show ?thesis by (auto simp: view_def context_graph_def)
  qed
  show sh: "shape_ok (top_state st x (f # fs) s)"
    using c(1,2,5) parts by (cases cs) (auto simp: shape_ok_def)
  show "on_top (top_state st x (f # fs) s) x f fs v" using vw sh by (simp add: on_top_def)
qed

lemma shape_ok_tl: "shape_ok st \<Longrightarrow> contexts st = c # cs \<Longrightarrow> shape_ok (st\<lparr>contexts := cs\<rparr>)"
  by (cases cs) (auto simp: shape_ok_def)

lemma pop_view:
  assumes "on_top st x f fs v"
  shows "view (pop_top_frame st) = drop_top x fs v" "shape_ok (pop_top_frame st)"
    "executor_state (pop_top_frame st) = executor_state st"
proof -
  from assms obtain c cs where c: "contexts st = c # cs" "frames c = f # fs" "context_graph (borrowed_graph st) c = x"
    "v = map (\<lambda>c. (context_graph (borrowed_graph st) c, frames c)) cs" "shape_ok st" by (rule on_topE)
  then have ctx: "contexts (pop_top_frame st) = (if fs = [] then cs else c\<lparr>frames := fs\<rparr> # cs)"
    "borrowed_graph (pop_top_frame st) = borrowed_graph st"
    by (simp_all add: pop_top_frame_def set_frames_def current_context_def pop_context_if_empty_def Let_def)
  with c show "view (pop_top_frame st) = drop_top x fs v"
    by (simp add: view_def drop_top_def context_graph_def)
  show "shape_ok (pop_top_frame st)"
    using c ctx shape_ok_tl [OF c(5,1)] by (cases cs) (auto simp: shape_ok_def)
  show "executor_state (pop_top_frame st) = executor_state st"
    by (simp add: pop_top_frame_def set_frames_def Let_def)
qed

lemma push_context_view:
  assumes "shape_ok st"
  shows "view (push_owned_context y d m st) = (y, [enter d m]) # view st" "shape_ok (push_owned_context y d m st)"
    "executor_state (push_owned_context y d m st) = executor_state st"
  using assms by (auto simp: push_owned_context_def view_def shape_ok_def context_graph_def)

section \<open>Moves\<close>

text \<open>
  The parameters of an exploration: bounds, model, program and thread ids, as the configuration has them.
\<close>

record 'v Search =
  s_max_depth :: nat
  s_max_thread_events :: nat
  s_model :: CommunicationModel
  s_program :: "'v Program"
  s_threads :: "ThreadId list"

definition search_of :: "('v, 'u) DporConfig \<Rightarrow> 'v Program \<Rightarrow> ThreadId list \<Rightarrow> 'v Search" where
  "search_of config P ts = \<lparr>s_max_depth = max_depth config, s_max_thread_events = max_thread_events config,
     s_model = communication_model config, s_program = P, s_threads = ts\<rparr>"

type_synonym 'v publication = "'v ExplorationGraph \<times> TerminalExecutionKind \<times> nat"

definition publication :: "'v Search \<Rightarrow> TerminalExecutionKind \<Rightarrow> 'v ExplorationGraph \<Rightarrow> 'v publication" where
  "publication S kind x = (x, kind, compute_max_thread_event_depth x (s_threads S))"

text \<open>An enter frame that passes its consistency test.\<close>

inductive gate :: "'v Search \<Rightarrow> 'v ExplorationGraph \<Rightarrow> 'v ExplorationFrame \<Rightarrow> 'v ExplorationGraph \<Rightarrow> 'v ExplorationFrame \<Rightarrow> bool"
  for S where
  gate_visit: "frame_kind f = Enter \<Longrightarrow> frame_mode f = Visit \<Longrightarrow> gate S x f x f"
| gate_checked: "frame_kind f = Enter \<Longrightarrow> frame_mode f = VisitIfConsistent \<Longrightarrow>
    check_consistency (s_model S) x = Inr (res, y) \<Longrightarrow> is_consistent res \<Longrightarrow> gate S x f y (f\<lparr>frame_mode := Visit\<rparr>)"

text \<open>The next event of a node that is not cut off.\<close>

definition expands :: "'v Search \<Rightarrow> 'v ExplorationGraph \<Rightarrow> 'v ExplorationFrame \<Rightarrow> 'v NextEventResult \<Rightarrow> bool" where
  "expands S x f nxt \<longleftrightarrow> dpor_tree_depth f < s_max_depth S
     \<and> compute_next_event (s_program S) x (s_threads S) (s_max_thread_events S) = Inr nxt"

definition linear_label :: "'v EventLabel \<Rightarrow> bool" where
  "linear_label l \<longleftrightarrow> l = Block \<or> (\<exists>nd. l = NondeterministicChoice nd \<and> choices nd = [])"

definition nd_frame :: "'v ExplorationFrame \<Rightarrow> 'v ExplorationGraph \<Rightarrow> ThreadId \<Rightarrow> 'v NondeterministicChoiceLabel \<Rightarrow> 'v ExplorationFrame"
  where
  "nd_frame f x t nd = f\<lparr>frame_kind := ResumeNd, frame_checkpoint := checkpoint x,
     cursor := 0, frame_event_id := None, frame_thread_id := t,
     frame_label := Some (NondeterministicChoice (nd\<lparr>choices := erase_duplicate_nd_choices (choices nd)\<rparr>)),
     candidate_event_ids := [], flag := False\<rparr>"

definition receive_frame ::
    "'v ExplorationFrame \<Rightarrow> 'v ExplorationGraph \<Rightarrow> ThreadId \<Rightarrow> 'v ReceiveLabel \<Rightarrow> EventId list \<Rightarrow> 'v ExplorationFrame" where
  "receive_frame f x t rl ids = f\<lparr>frame_kind := ResumeReceive, frame_checkpoint := checkpoint x, cursor := 0,
     frame_event_id := None, frame_thread_id := t, candidate_event_ids := ids, flag := is_nonblocking rl,
     frame_label := Some (Receive rl)\<rparr>"

definition send_frame ::
    "'v ExplorationFrame \<Rightarrow> 'v ExplorationGraph \<Rightarrow> EventId \<Rightarrow> EventId list \<Rightarrow> bool \<Rightarrow> 'v ExplorationFrame" where
  "send_frame f x i ids spawn = f\<lparr>frame_kind := ResumeSendRevisits, frame_checkpoint := checkpoint x, cursor := 0,
     frame_event_id := Some i, frame_label := None, candidate_event_ids := ids, flag := spawn\<rparr>"

inductive moves :: "('v::linorder) Search \<Rightarrow> 'v view \<Rightarrow> 'v view \<Rightarrow> bool" for S where
  moves_give_up: "frame_kind f = Enter \<Longrightarrow> moves S ((x, f # fs) # v) (drop_top x fs v)"
| moves_inconsistent: "frame_kind f = Enter \<Longrightarrow> frame_mode f = VisitIfConsistent \<Longrightarrow>
    check_consistency (s_model S) x = Inr (res, y) \<Longrightarrow> \<not> is_consistent res \<Longrightarrow>
    moves S ((x, f # fs) # v) (drop_top y fs v)"
| moves_depth_limit: "gate S x f y g \<Longrightarrow> dpor_tree_depth f \<ge> s_max_depth S \<Longrightarrow>
    moves S ((x, f # fs) # v) (drop_top y fs v)"
| moves_reschedule: "gate S x f y g \<Longrightarrow> expands S y g nxt \<Longrightarrow> next_event nxt = None \<Longrightarrow> t \<in> set (s_threads S) \<Longrightarrow>
    reschedule_candidate (s_program S) y t = Inr (Some z) \<Longrightarrow>
    moves S ((x, f # fs) # v) ((z, [enter (dpor_tree_depth f) Visit]) # drop_top y fs v)"
| moves_finished: "gate S x f y g \<Longrightarrow> expands S y g nxt \<Longrightarrow> next_event nxt = None \<Longrightarrow>
    (\<forall>t\<in>set (s_threads S). reschedule_candidate (s_program S) y t = Inr None) \<Longrightarrow>
    (if suppressed_by_thread_event_limit nxt then Inr ThreadEventLimit
     else map_result (\<lambda>b. if b then Blocked else Full) (has_blocked_thread y)) = Inr kind \<Longrightarrow>
    moves S ((x, f # fs) # v) (drop_top y fs v)"
| moves_error: "gate S x f y g \<Longrightarrow> expands S y g nxt \<Longrightarrow> next_event nxt = Some (t, Error m) \<Longrightarrow>
    add_event t (Error m) y = Inr (i, z) \<Longrightarrow> rollback (checkpoint y) z = Inr w \<Longrightarrow>
    moves S ((x, f # fs) # v) (drop_top w fs v)"
| moves_linear: "gate S x f y g \<Longrightarrow> expands S y g nxt \<Longrightarrow> next_event nxt = Some (t, l) \<Longrightarrow> linear_label l \<Longrightarrow>
    add_event t l y = Inr (i, z) \<Longrightarrow>
    moves S ((x, f # fs) # v)
      ((z, enter (dpor_tree_depth f + 1) Visit # g\<lparr>frame_kind := ExitLinearChild, frame_checkpoint := checkpoint y\<rparr> # fs) # v)"
| moves_nd: "gate S x f y g \<Longrightarrow> expands S y g nxt \<Longrightarrow> next_event nxt = Some (t, NondeterministicChoice nd) \<Longrightarrow>
    choices nd \<noteq> [] \<Longrightarrow> moves S ((x, f # fs) # v) ((y, nd_frame g y t nd # fs) # v)"
| moves_receive: "gate S x f y g \<Longrightarrow> expands S y g nxt \<Longrightarrow> next_event nxt = Some (t, Receive rl) \<Longrightarrow>
    compatible_unread_send_ids y t rl = Inr ids \<Longrightarrow>
    moves S ((x, f # fs) # v) ((y, receive_frame g y t rl ids # fs) # v)"
| moves_send: "gate S x f y g \<Longrightarrow> expands S y g nxt \<Longrightarrow> next_event nxt = Some (t, Send sl) \<Longrightarrow>
    add_event t (Send sl) y = Inr (i, z) \<Longrightarrow> receives_in_destination z i = Inr ids \<Longrightarrow>
    moves S ((x, f # fs) # v) ((z, send_frame g y i ids spawn # fs) # v)"
| moves_exit: "frame_kind f \<noteq> Enter \<Longrightarrow> rollback (frame_checkpoint f) x = Inr y \<Longrightarrow>
    moves S ((x, f # fs) # v) (drop_top y fs v)"
| moves_nd_split: "frame_kind f = ResumeNd \<Longrightarrow> rollback (frame_checkpoint f) x = Inr y \<Longrightarrow>
    frame_label f = Some (NondeterministicChoice nd) \<Longrightarrow> cursor f + 1 < length (choices nd) \<Longrightarrow>
    moves S ((x, f # fs) # v) ((y, f\<lparr>cursor := cursor f + 1\<rparr> # fs) # v)"
| moves_nd_next: "frame_kind f = ResumeNd \<Longrightarrow> rollback (frame_checkpoint f) x = Inr y \<Longrightarrow>
    frame_label f = Some (NondeterministicChoice nd) \<Longrightarrow> cursor f < length (choices nd) \<Longrightarrow>
    add_event (frame_thread_id f) (with_choice nd (cursor f)) y = Inr (i, z) \<Longrightarrow>
    moves S ((x, f # fs) # v) ((z, enter (dpor_tree_depth f + 1) Visit # f\<lparr>cursor := cursor f + 1\<rparr> # fs) # v)"
| moves_receive_split: "frame_kind f = ResumeReceive \<Longrightarrow> rollback (frame_checkpoint f) x = Inr y \<Longrightarrow>
    cursor f < length (candidate_event_ids f) \<Longrightarrow>
    moves S ((x, f # fs) # v) ((y, f\<lparr>cursor := cursor f + 1\<rparr> # fs) # v)"
| moves_receive_next: "frame_kind f = ResumeReceive \<Longrightarrow> rollback (frame_checkpoint f) x = Inr y \<Longrightarrow>
    frame_label f = Some (Receive rl) \<Longrightarrow> cursor f < length (candidate_event_ids f) \<Longrightarrow>
    add_receive (frame_thread_id f) (Receive rl) (from_send (candidate_event_ids f ! cursor f)) y = Inr z \<Longrightarrow>
    moves S ((x, f # fs) # v)
      ((z, enter (dpor_tree_depth f + 1) VisitIfConsistent # f\<lparr>cursor := cursor f + 1\<rparr> # fs) # v)"
| moves_receive_bottom: "frame_kind f = ResumeReceive \<Longrightarrow> rollback (frame_checkpoint f) x = Inr y \<Longrightarrow>
    frame_label f = Some (Receive rl) \<Longrightarrow> flag f \<Longrightarrow>
    add_receive (frame_thread_id f) (Receive rl) bottom y = Inr z \<Longrightarrow>
    moves S ((x, f # fs) # v)
      ((z, enter (dpor_tree_depth f + 1) VisitIfConsistent # f\<lparr>flag := False\<rparr> # fs) # v)"
| moves_revisit: "frame_kind f = ResumeSendRevisits \<Longrightarrow> live_send x (frame_event_id f) = Inr i \<Longrightarrow>
    next_backward_revisit_child x i (s_model S) (candidate_event_ids f) (cursor f) = Inr nxt \<Longrightarrow>
    revisit_child nxt = Some y \<Longrightarrow>
    moves S ((x, f # fs) # v)
      ((y, [enter (dpor_tree_depth f + 1) VisitIfConsistent]) # (x, f\<lparr>cursor := next_receive_index nxt\<rparr> # fs) # v)"
| moves_revisit_handed: "frame_kind f = ResumeSendRevisits \<Longrightarrow> live_send x (frame_event_id f) = Inr i \<Longrightarrow>
    next_backward_revisit_child x i (s_model S) (candidate_event_ids f) (cursor f) = Inr nxt \<Longrightarrow>
    revisit_child nxt = Some y \<Longrightarrow> flag f \<Longrightarrow>
    moves S ((x, f # fs) # v) ((x, f\<lparr>cursor := next_receive_index nxt\<rparr> # fs) # v)"
| moves_revisits_done: "frame_kind f = ResumeSendRevisits \<Longrightarrow> live_send x (frame_event_id f) = Inr i \<Longrightarrow>
    next_backward_revisit_child x i (s_model S) (candidate_event_ids f) (cursor f) = Inr nxt \<Longrightarrow>
    revisit_child nxt = None \<Longrightarrow>
    moves S ((x, f # fs) # v)
      ((x, enter (dpor_tree_depth f + 1) Visit
          # f\<lparr>cursor := next_receive_index nxt, frame_kind := ExitLinearChild\<rparr> # fs) # v)"

text \<open>
  Under a stop request an enter frame may be left as it is, with its consistency test done or not.
\<close>

inductive idles :: "'v Search \<Rightarrow> 'v view \<Rightarrow> 'v view \<Rightarrow> bool" for S where
  idles_gate: "gate S x f y g \<Longrightarrow> idles S ((x, f # fs) # v) ((y, g # fs) # v)"

text \<open>The executions a view publishes in its next step.\<close>

inductive publishes :: "'v Search \<Rightarrow> 'v view \<Rightarrow> 'v publication \<Rightarrow> bool" for S where
  publishes_depth_limit: "gate S x f y g \<Longrightarrow> dpor_tree_depth f \<ge> s_max_depth S \<Longrightarrow>
    publishes S ((x, f # fs) # v) (publication S DepthLimit y)"
| publishes_finished: "gate S x f y g \<Longrightarrow> expands S y g nxt \<Longrightarrow> next_event nxt = None \<Longrightarrow>
    (\<forall>t\<in>set (s_threads S). reschedule_candidate (s_program S) y t = Inr None) \<Longrightarrow>
    (if suppressed_by_thread_event_limit nxt then Inr ThreadEventLimit
     else map_result (\<lambda>b. if b then Blocked else Full) (has_blocked_thread y)) = Inr kind \<Longrightarrow>
    publishes S ((x, f # fs) # v) (publication S kind y)"
| publishes_error: "gate S x f y g \<Longrightarrow> expands S y g nxt \<Longrightarrow> next_event nxt = Some (t, Error m) \<Longrightarrow>
    add_event t (Error m) y = Inr (i, z) \<Longrightarrow> publishes S ((x, f # fs) # v) (publication S ErrorExecution z)"

text \<open>The tasks a view may hand to another worker in its next step.\<close>

definition handed :: "'v ExplorationGraph \<Rightarrow> 'v ExplorationFrame \<Rightarrow> ExplorationTaskMode \<Rightarrow> 'v ExplorationTask" where
  "handed z f m = \<lparr>task_graph = z, task_dpor_tree_depth = dpor_tree_depth f + 1, task_mode = m\<rparr>"

inductive hands_off :: "('v::linorder) Search \<Rightarrow> 'v view \<Rightarrow> 'v ExplorationTask \<Rightarrow> bool" for S where
  hands_nd: "frame_kind f = ResumeNd \<Longrightarrow> rollback (frame_checkpoint f) x = Inr y \<Longrightarrow>
    frame_label f = Some (NondeterministicChoice nd) \<Longrightarrow> cursor f < length (choices nd) \<Longrightarrow>
    add_event (frame_thread_id f) (with_choice nd (cursor f)) (copy_graph y) = Inr (i, z) \<Longrightarrow>
    hands_off S ((x, f # fs) # v) (handed z f Visit)"
| hands_receive: "frame_kind f = ResumeReceive \<Longrightarrow> rollback (frame_checkpoint f) x = Inr y \<Longrightarrow>
    frame_label f = Some (Receive rl) \<Longrightarrow> cursor f < length (candidate_event_ids f) \<Longrightarrow>
    add_receive (frame_thread_id f) (Receive rl) (from_send (candidate_event_ids f ! cursor f)) (copy_graph y) = Inr z \<Longrightarrow>
    hands_off S ((x, f # fs) # v) (handed z f VisitIfConsistent)"
| hands_revisit: "frame_kind f = ResumeSendRevisits \<Longrightarrow> live_send x (frame_event_id f) = Inr i \<Longrightarrow>
    next_backward_revisit_child x i (s_model S) (candidate_event_ids f) (cursor f) = Inr nxt \<Longrightarrow>
    revisit_child nxt = Some z \<Longrightarrow> hands_off S ((x, f # fs) # v) (handed z f VisitIfConsistent)"

text \<open>The causes of an exception that does not come from an observer.\<close>

inductive fails :: "('v::linorder) Search \<Rightarrow> 'v view \<Rightarrow> exn \<Rightarrow> bool" for S where
  fails_check: "frame_kind f = Enter \<Longrightarrow> frame_mode f = VisitIfConsistent \<Longrightarrow>
    check_consistency (s_model S) x = Inl e \<Longrightarrow> fails S ((x, f # fs) # v) e"
| fails_next: "gate S x f y g \<Longrightarrow> dpor_tree_depth f < s_max_depth S \<Longrightarrow>
    compute_next_event (s_program S) y (s_threads S) (s_max_thread_events S) = Inl e \<Longrightarrow> fails S ((x, f # fs) # v) e"
| fails_reschedule: "gate S x f y g \<Longrightarrow> expands S y g nxt \<Longrightarrow> next_event nxt = None \<Longrightarrow> t \<in> set (s_threads S) \<Longrightarrow>
    reschedule_candidate (s_program S) y t = Inl e \<Longrightarrow> fails S ((x, f # fs) # v) e"
| fails_blocked: "gate S x f y g \<Longrightarrow> has_blocked_thread y = Inl e \<Longrightarrow> fails S ((x, f # fs) # v) e"
| fails_add: "gate S x f y g \<Longrightarrow> expands S y g nxt \<Longrightarrow> next_event nxt = Some (t, l) \<Longrightarrow> add_event t l y = Inl e \<Longrightarrow>
    fails S ((x, f # fs) # v) e"
| fails_error_rollback: "gate S x f y g \<Longrightarrow> expands S y g nxt \<Longrightarrow> next_event nxt = Some (t, l) \<Longrightarrow>
    add_event t l y = Inr (i, z) \<Longrightarrow> rollback (checkpoint y) z = Inl e \<Longrightarrow> fails S ((x, f # fs) # v) e"
| fails_candidates: "gate S x f y g \<Longrightarrow> expands S y g nxt \<Longrightarrow> next_event nxt = Some (t, Receive rl) \<Longrightarrow>
    compatible_unread_send_ids y t rl = Inl e \<Longrightarrow> fails S ((x, f # fs) # v) e"
| fails_receives: "gate S x f y g \<Longrightarrow> expands S y g nxt \<Longrightarrow> next_event nxt = Some (t, Send sl) \<Longrightarrow>
    add_event t (Send sl) y = Inr (i, z) \<Longrightarrow> receives_in_destination z i = Inl e \<Longrightarrow> fails S ((x, f # fs) # v) e"
| fails_rollback: "frame_kind f \<noteq> Enter \<Longrightarrow> rollback (frame_checkpoint f) x = Inl e \<Longrightarrow> fails S ((x, f # fs) # v) e"
| fails_nd_label: "frame_kind f = ResumeNd \<Longrightarrow>
    (\<nexists>nd. frame_label f = Some (NondeterministicChoice nd) \<and> choices nd \<noteq> []) \<Longrightarrow> fails S ((x, f # fs) # v) e"
| fails_nd_add: "frame_kind f = ResumeNd \<Longrightarrow> rollback (frame_checkpoint f) x = Inr y \<Longrightarrow>
    frame_label f = Some (NondeterministicChoice nd) \<Longrightarrow> cursor f < length (choices nd) \<Longrightarrow> z \<in> {y, copy_graph y} \<Longrightarrow>
    add_event (frame_thread_id f) (with_choice nd (cursor f)) z = Inl e \<Longrightarrow> fails S ((x, f # fs) # v) e"
| fails_receive_label: "frame_kind f = ResumeReceive \<Longrightarrow> (\<nexists>rl. frame_label f = Some (Receive rl)) \<Longrightarrow>
    fails S ((x, f # fs) # v) e"
| fails_receive_add: "frame_kind f = ResumeReceive \<Longrightarrow> rollback (frame_checkpoint f) x = Inr y \<Longrightarrow>
    frame_label f = Some (Receive rl) \<Longrightarrow> cursor f < length (candidate_event_ids f) \<Longrightarrow> z \<in> {y, copy_graph y} \<Longrightarrow>
    add_receive (frame_thread_id f) (Receive rl) (from_send (candidate_event_ids f ! cursor f)) z = Inl e \<Longrightarrow>
    fails S ((x, f # fs) # v) e"
| fails_bottom_add: "frame_kind f = ResumeReceive \<Longrightarrow> rollback (frame_checkpoint f) x = Inr y \<Longrightarrow>
    frame_label f = Some (Receive rl) \<Longrightarrow> flag f \<Longrightarrow>
    add_receive (frame_thread_id f) (Receive rl) bottom y = Inl e \<Longrightarrow> fails S ((x, f # fs) # v) e"
| fails_live: "frame_kind f = ResumeSendRevisits \<Longrightarrow> live_send x (frame_event_id f) = Inl e \<Longrightarrow> fails S ((x, f # fs) # v) e"
| fails_revisit: "frame_kind f = ResumeSendRevisits \<Longrightarrow> live_send x (frame_event_id f) = Inr i \<Longrightarrow>
    next_backward_revisit_child x i (s_model S) (candidate_event_ids f) (cursor f) = Inl e \<Longrightarrow> fails S ((x, f # fs) # v) e"

section \<open>The executor interface\<close>

text \<open>
  What the explorer relies on: a stop request stays. \<open>good_state\<close> is any property of the executor's state that
  its operations keep, publication only for executions that satisfy \<open>publishable\<close> and hand-off only for tasks
  that are \<open>acceptable\<close>; \<open>raises\<close> holds of
  the exceptions its observers throw.
\<close>

locale executor =
  fixes ex :: "('v::linorder, 's) Executor"
    and stopped :: "'s \<Rightarrow> bool"
    and good_state :: "'s \<Rightarrow> bool"
    and publishable :: "'v publication \<Rightarrow> bool"
    and acceptable :: "'v ExplorationTask \<Rightarrow> bool"
    and raises :: "exn \<Rightarrow> bool"
  assumes stop_sound: "good_state s \<Longrightarrow> stop_requested ex s = (True, s') \<Longrightarrow> stopped s'"
    and stop_stays: "good_state s \<Longrightarrow> stopped s \<Longrightarrow> stop_requested ex s = (b, s') \<Longrightarrow> b"
    and good_stop: "good_state s \<Longrightarrow> stop_requested ex s = (b, s') \<Longrightarrow> good_state s'"
    and good_spawn: "good_state s \<Longrightarrow> can_spawn ex d s = (b, s') \<Longrightarrow> good_state s'"
    and good_split: "good_state s \<Longrightarrow> should_split_to_idle_worker ex d s = (b, s') \<Longrightarrow> good_state s'"
    and good_notes: "good_state s \<Longrightarrow> good_state (note_nd_split ex s)" "good_state s \<Longrightarrow> good_state (note_receive_split ex s)"
    and good_enqueue: "good_state s \<Longrightarrow> acceptable task \<Longrightarrow> try_enqueue ex task s = (b, s') \<Longrightarrow> good_state s'"
    and good_fatal: "good_state s \<Longrightarrow> good_state (notify_fatal_error ex x e s)"
    and good_progress: "good_state s \<Longrightarrow> maybe_report_progress ex s = (r, s') \<Longrightarrow> good_state s'"
    and good_publish: "good_state s \<Longrightarrow> publishable (x, kind, d) \<Longrightarrow> publish_terminal_execution ex x kind d s = (r', s') \<Longrightarrow>
      good_state s'"
    and raises_progress: "maybe_report_progress ex s = (Inl e, s') \<Longrightarrow> raises e"
    and raises_publish: "publish_terminal_execution ex x kind d s = (Inl e, s') \<Longrightarrow> raises e"
begin

text \<open>
  The outcome of an iteration that starts in view \<open>w\<close> in a good executor state.
\<close>

definition reached where
  "reached S w st \<longleftrightarrow> shape_ok st \<and> good_state (executor_state st)
     \<and> (moves S w (view st) \<or> stopped (executor_state st) \<and> idles S w (view st))"

definition failed where
  "failed S w e st \<longleftrightarrow> good_state (executor_state st) \<and> (fails S w e \<or> raises e)"

lemma reached_simps:
  assumes "on_top st x0 f0 fs0 v"
  shows "reached S w (top_state st x (f # fs) s) \<longleftrightarrow> good_state s
      \<and> (moves S w ((x, f # fs) # v) \<or> stopped s \<and> idles S w ((x, f # fs) # v))"
    "reached S w (pop_top_frame (top_state st x (f # fs) s)) \<longleftrightarrow> good_state s
      \<and> (moves S w (drop_top x fs v) \<or> stopped s \<and> idles S w (drop_top x fs v))"
    "reached S w (push_owned_context y d m (top_state st x (f # fs) s)) \<longleftrightarrow> good_state s
      \<and> (moves S w ((y, [enter d m]) # (x, f # fs) # v) \<or> stopped s \<and> idles S w ((y, [enter d m]) # (x, f # fs) # v))"
    "reached S w (push_owned_context y d m (pop_top_frame (top_state st x (f # fs) s))) \<longleftrightarrow> good_state s
      \<and> (moves S w ((y, [enter d m]) # drop_top x fs v) \<or> stopped s \<and> idles S w ((y, [enter d m]) # drop_top x fs v))"
    "failed S w e (top_state st x fs s) \<longleftrightarrow> good_state s \<and> (fails S w e \<or> raises e)"
proof -
  have ne: "contexts st \<noteq> []" using on_topD(4) [OF assms] .
  note t = view_top_state [OF assms] and es = top_state_simps(4) [OF ne]
  note pop = pop_view [OF t(3)]
  show "reached S w (top_state st x (f # fs) s) \<longleftrightarrow> good_state s
      \<and> (moves S w ((x, f # fs) # v) \<or> stopped s \<and> idles S w ((x, f # fs) # v))"
    by (simp add: reached_def t es)
  show "reached S w (pop_top_frame (top_state st x (f # fs) s)) \<longleftrightarrow> good_state s
      \<and> (moves S w (drop_top x fs v) \<or> stopped s \<and> idles S w (drop_top x fs v))"
    by (simp add: reached_def pop es)
  show "reached S w (push_owned_context y d m (top_state st x (f # fs) s)) \<longleftrightarrow> good_state s
      \<and> (moves S w ((y, [enter d m]) # (x, f # fs) # v) \<or> stopped s \<and> idles S w ((y, [enter d m]) # (x, f # fs) # v))"
    by (simp add: reached_def push_context_view t es)
  show "reached S w (push_owned_context y d m (pop_top_frame (top_state st x (f # fs) s))) \<longleftrightarrow> good_state s
      \<and> (moves S w ((y, [enter d m]) # drop_top x fs v) \<or> stopped s \<and> idles S w ((y, [enter d m]) # drop_top x fs v))"
    by (simp add: reached_def push_context_view pop es)
  show "failed S w e (top_state st x fs s) \<longleftrightarrow> good_state s \<and> (fails S w e \<or> raises e)"
    by (simp add: failed_def es)
qed

end

section \<open>Every iteration is a move, an idle step or a failure\<close>

lemma gateD:
  assumes "gate S x f y g"
  shows "dpor_tree_depth g = dpor_tree_depth f" "frame_kind g = Enter" "frame_kind f = Enter" "frame_mode g = Visit"
  using assms by (auto elim: gate.cases)

context executor
begin

lemma wp_unwind:
  assumes "on_top st x0 f0 fs0 v" "good_state s"
  shows "wp unwind_one_step (\<lambda>_. reached S ((x, f # fs) # v)) (failed S ((x, f # fs) # v)) (top_state st x (f # fs) s)"
    and "frame_kind f \<noteq> Enter \<Longrightarrow>
      wp rollback_and_pop_top_frame (\<lambda>_. reached S ((x, f # fs) # v)) (failed S ((x, f # fs) # v)) (top_state st x (f # fs) s)"
proof -
  have ne: "contexts st \<noteq> []" by (rule on_topD(4) [OF assms(1)])
  show roll: "wp rollback_and_pop_top_frame (\<lambda>_. reached S ((x, f # fs) # v)) (failed S ((x, f # fs) # v)) (top_state st x (f # fs) s)"
    if "frame_kind f \<noteq> Enter"
    using ne assms(2) that
    by (auto simp: rollback_and_pop_top_frame_def wp_simps reached_simps [OF assms(1)] split: sum.splits
        intro: moves_exit fails_rollback)
  show "wp unwind_one_step (\<lambda>_. reached S ((x, f # fs) # v)) (failed S ((x, f # fs) # v)) (top_state st x (f # fs) s)"
  proof (cases "frame_kind f = Enter")
    case True
    with ne assms(2) show ?thesis
      by (simp add: unwind_one_step_def wp_simps reached_simps [OF assms(1)] moves_give_up)
  next
    case False
    with roll ne show ?thesis by (cases "frame_kind f") (simp_all add: unwind_one_step_def wp_simps)
  qed
qed

lemma wp_gate:
  assumes top: "on_top st x0 f0 fs0 v" and s: "good_state s" and enter: "frame_kind f = Enter"
  shows "wp (enter_if_consistent ex (s_model S))
    (\<lambda>go st'. if go then \<exists>y g s'. gate S x f y g \<and> st' = top_state st y (g # fs) s' \<and> good_state s'
       else reached S ((x, f # fs) # v) st')
    (failed S ((x, f # fs) # v)) (top_state st x (f # fs) s)"
proof -
  have ne: "contexts st \<noteq> []" by (rule on_topD(4) [OF top])
  show ?thesis
  proof (cases "frame_mode f")
    case Visit
    with enter have "gate S x f x f" by (rule gate_visit)
    with Visit ne s show ?thesis by (auto simp: enter_if_consistent_def wp_simps)
  next
    case VisitIfConsistent
    note rules = moves_give_up [OF enter] moves_inconsistent [OF enter VisitIfConsistent] fails_check [OF enter VisitIfConsistent]
      gate_checked [OF enter VisitIfConsistent]
    obtain stop s1 where q: "stop_requested ex s = (stop, s1)" by force
    have s1: "good_state s1" using s good_stop q by blast
    show ?thesis
    proof (cases "check_consistency (s_model S) x")
      case (Inl e)
      with VisitIfConsistent ne s1 show ?thesis
        by (auto simp: enter_if_consistent_def wp_simps q reached_simps [OF top] intro: rules)
    next
      case (Inr ry)
      obtain res y where ry: "ry = (res, y)" by force
      have "\<exists>y' g s'. gate S x f y' g \<and> top_state st y (f\<lparr>frame_mode := Visit\<rparr> # fs) s1 = top_state st y' (g # fs) s' \<and> good_state s'"
        if "is_consistent res"
        using rules(4) [OF Inr [unfolded ry] that] s1 by blast
      with VisitIfConsistent ne s1 Inr ry show ?thesis
        by (auto simp: enter_if_consistent_def wp_simps q reached_simps [OF top] intro: rules(1-3))
    qed
  qed
qed

lemma find_blocked_result:
  assumes "find_blocked_receive_reschedule_child ex P y ts s = (r, s')" "good_state s"
  shows "good_state s' \<and> (case r of
      Inl e \<Rightarrow> \<exists>t\<in>set ts. reschedule_candidate P y t = Inl e
    | Inr res \<Rightarrow> (case reschedule_kind res of
        StopRequested \<Rightarrow> stopped s'
      | Ready \<Rightarrow> \<exists>t\<in>set ts. \<exists>z. reschedule_graph res = Some z \<and> reschedule_candidate P y t = Inr (Some z)
      | RescheduleNone \<Rightarrow> \<forall>t\<in>set ts. reschedule_candidate P y t = Inr None))"
  using assms
proof (induction ts arbitrary: s)
  case (Cons t ts)
  obtain stop s1 where q: "stop_requested ex s = (stop, s1)" by force
  have g: "good_state s1" using good_stop [OF Cons.prems(2) q] .
  show ?case
  proof (cases stop)
    case True
    with Cons.prems q g stop_sound [OF Cons.prems(2)] show ?thesis by auto
  next
    case False
    show ?thesis
    proof (cases "reschedule_candidate P y t")
      case (Inl e)
      with False Cons.prems q g show ?thesis by auto
    next
      case (Inr c)
      show ?thesis
      proof (cases c)
        case None
        with False Inr Cons.prems q have "find_blocked_receive_reschedule_child ex P y ts s1 = (r, s')" by simp
        from Cons.IH [OF this g] None Inr g show ?thesis
          by (auto split: sum.splits BlockedReceiveRescheduleKind.splits)
      next
        case (Some z)
        with False Inr Cons.prems q g show ?thesis by auto
      qed
    qed
  qed
qed auto

lemma wp_publish:
  assumes top: "on_top st x0 f0 fs0 v" and s: "good_state s" and pub: "publishable (publication S kind y)"
    and post: "\<And>s'. good_state s' \<Longrightarrow> post () (top_state st y fs s')"
  shows "wp (publish_terminal ex (s_threads S) kind) post (failed S w) (top_state st y fs s)"
proof -
  have ne: "contexts st \<noteq> []" by (rule on_topD(4) [OF top])
  obtain r s' where q: "publish_terminal_execution ex y kind (compute_max_thread_event_depth y (s_threads S)) s = (r, s')"
    by force
  have "good_state s'" using good_publish [OF _ _ q] s pub by (auto simp: publication_def)
  with ne q post show ?thesis
    by (auto simp: publish_terminal_def wp_simps reached_simps [OF top] split: sum.splits dest: raises_publish)
qed

end

text \<open>The labels of a node that is expanded.\<close>

context executor
begin

lemma wp_finish:
  assumes top: "on_top st x0 f0 fs0 v" and s: "good_state s"
    and pub: "\<And>p. publishes S ((x, f # fs) # v) p \<Longrightarrow> publishable p"
    and g: "gate S x f y g" "expands S y g nxt" "next_event nxt = None"
  shows "wp (finish_execution ex (s_program S) (s_threads S) (suppressed_by_thread_event_limit nxt))
    (\<lambda>_. reached S ((x, f # fs) # v)) (failed S ((x, f # fs) # v)) (top_state st y (g # fs) s)"
proof -
  let ?w = "(x, f # fs) # v" and ?sup = "suppressed_by_thread_event_limit nxt"
  have ne: "contexts st \<noteq> []" by (rule on_topD(4) [OF top])
  note simps = finish_execution_def wp_simps reached_simps [OF top]
  obtain r s1 where q: "find_blocked_receive_reschedule_child ex (s_program S) y (s_threads S) s = (r, s1)" by force
  note res = find_blocked_result [OF q s]
  then have s1: "good_state s1" using s by blast
  show ?thesis
  proof (cases r)
    case (Inl e)
    with res have "fails S ?w e" by (auto intro: fails_reschedule [OF g])
    with Inl ne q s1 show ?thesis by (simp add: simps)
  next
    case (Inr rs)
    show ?thesis
    proof (cases "reschedule_kind rs")
      case StopRequested
      with Inr res have "stopped s1" by simp
      with StopRequested Inr ne q s1 idles_gate [OF g(1)] show ?thesis by (simp add: simps)
    next
      case Ready
      with Inr res obtain t z where "t \<in> set (s_threads S)" "reschedule_graph rs = Some z"
        "reschedule_candidate (s_program S) y t = Inr (Some z)" by auto
      with Ready Inr ne q s1 moves_reschedule [OF g] gateD(1) [OF g(1)] show ?thesis by (auto simp: simps)
    next
      case RescheduleNone
      with Inr res have none: "\<forall>t\<in>set (s_threads S). reschedule_candidate (s_program S) y t = Inr None" by simp
      let ?k = "if ?sup then Inr ThreadEventLimit else map_result (\<lambda>b. if b then Blocked else Full) (has_blocked_thread y)"
      have publish: "wp (publish_terminal ex (s_threads S) kind) (\<lambda>_. wp (modify pop_top_frame) (\<lambda>_. reached S ?w) (failed S ?w))
          (failed S ?w) (top_state st y (g # fs) s1)" if "?k = Inr kind" for kind
        by (rule wp_publish [OF top])
          (use s1 pub publishes_finished [OF g none that] moves_finished [OF g none that] in
            \<open>auto simp: wp_simps reached_simps [OF top]\<close>)
      show ?thesis
      proof (cases ?sup)
        case True
        with RescheduleNone Inr ne q publish [of ThreadEventLimit] show ?thesis by (simp add: simps)
      next
        case False
        show ?thesis
        proof (cases "has_blocked_thread y")
          case (Inl e)
          with fails_blocked [OF g(1)] RescheduleNone Inr False ne q s1 show ?thesis by (auto simp: simps)
        next
          case (Inr b)
          with publish [of "if b then Blocked else Full"] \<open>r = Inr rs\<close> RescheduleNone False ne q show ?thesis by (simp add: simps)
        qed
      qed
    qed
  qed
qed

lemma wp_error:
  assumes top: "on_top st x0 f0 fs0 v" and s: "good_state s"
    and pub: "\<And>p. publishes S ((x, f # fs) # v) p \<Longrightarrow> publishable p"
    and g: "gate S x f y g" "expands S y g nxt" "next_event nxt = Some (t, Error m)"
  shows "wp (enter_error ex (s_threads S) t (Error m))
    (\<lambda>_. reached S ((x, f # fs) # v)) (failed S ((x, f # fs) # v)) (top_state st y (g # fs) s)"
proof -
  let ?w = "(x, f # fs) # v"
  have ne: "contexts st \<noteq> []" by (rule on_topD(4) [OF top])
  show ?thesis
  proof (cases "add_event t (Error m) y")
    case (Inl e)
    with fails_add [OF g] ne s show ?thesis by (auto simp: enter_error_def Let_def wp_simps reached_simps [OF top])
  next
    case (Inr iz)
    obtain i z where iz: "iz = (i, z)" by force
    note add = Inr [unfolded iz]
    have "wp (publish_terminal ex (s_threads S) ErrorExecution)
        (\<lambda>_. wp (bind_action (on_graph_void (rollback (checkpoint y))) (\<lambda>_. modify pop_top_frame)) (\<lambda>_. reached S ?w) (failed S ?w))
        (failed S ?w) (top_state st z (g # fs) s)"
      by (rule wp_publish [OF top])
        (use s ne pub publishes_error [OF g add] moves_error [OF g add] fails_error_rollback [OF g add] in
          \<open>auto simp: wp_simps reached_simps [OF top] split: sum.splits\<close>)
    with ne add show ?thesis by (simp add: enter_error_def Let_def wp_simps)
  qed
qed

lemma wp_linear:
  assumes top: "on_top st x0 f0 fs0 v" and s: "good_state s"
    and g: "gate S x f y g" "expands S y g nxt" "next_event nxt = Some (t, l)" "linear_label l"
  shows "wp (enter_linear t l) (\<lambda>_. reached S ((x, f # fs) # v)) (failed S ((x, f # fs) # v)) (top_state st y (g # fs) s)"
  using on_topD(4) [OF top] s fails_add [OF g(1-3)] moves_linear [OF g] gateD(1) [OF g(1)]
  by (auto simp: enter_linear_def Let_def wp_simps reached_simps [OF top] split: sum.splits)

lemma wp_receive:
  assumes top: "on_top st x0 f0 fs0 v" and s: "good_state s"
    and g: "gate S x f y g" "expands S y g nxt" "next_event nxt = Some (t, Receive rl)"
  shows "wp (enter_receive t rl) (\<lambda>_. reached S ((x, f # fs) # v)) (failed S ((x, f # fs) # v)) (top_state st y (g # fs) s)"
  using on_topD(4) [OF top] s fails_candidates [OF g] moves_receive [OF g]
  by (auto simp: enter_receive_def wp_simps reached_simps [OF top] receive_frame_def split: sum.splits)

lemma wp_send:
  assumes top: "on_top st x0 f0 fs0 v" and s: "good_state s"
    and g: "gate S x f y g" "expands S y g nxt" "next_event nxt = Some (t, Send sl)"
  shows "wp (enter_send ex t sl) (\<lambda>_. reached S ((x, f # fs) # v)) (failed S ((x, f # fs) # v)) (top_state st y (g # fs) s)"
proof -
  have ne: "contexts st \<noteq> []" by (rule on_topD(4) [OF top])
  obtain spawn s1 where q: "can_spawn ex (Suc (dpor_tree_depth g)) s = (spawn, s1)" by force
  have "good_state s1" using s good_spawn q by blast
  with ne s q fails_add [OF g] fails_receives [OF g] moves_send [OF g, where spawn = spawn] show ?thesis
    by (auto simp: enter_send_def Let_def wp_simps reached_simps [OF top] send_frame_def split: sum.splits)
qed

lemma wp_label:
  assumes top: "on_top st x0 f0 fs0 v" and s: "good_state s"
    and pub: "\<And>p. publishes S ((x, f # fs) # v) p \<Longrightarrow> publishable p"
    and g: "gate S x f y g" "expands S y g nxt" "next_event nxt = Some (t, l)"
  shows "wp (enter_label ex (s_threads S) t l) (\<lambda>_. reached S ((x, f # fs) # v)) (failed S ((x, f # fs) # v))
    (top_state st y (g # fs) s)"
proof (cases l)
  case (NondeterministicChoice nd)
  show ?thesis
  proof (cases "choices nd = []")
    case True
    with NondeterministicChoice have "linear_label l" by (simp add: linear_label_def)
    from wp_linear [OF top s g this] True NondeterministicChoice show ?thesis
      by (simp add: enter_label_def enter_nd_def)
  next
    case False
    with NondeterministicChoice on_topD(4) [OF top] s moves_nd [OF g(1,2), of t nd fs v] g(3) show ?thesis
      by (simp add: enter_label_def enter_nd_def wp_simps reached_simps [OF top] nd_frame_def)
  qed
qed (use wp_receive [OF top s g(1,2)] wp_send [OF top s g(1,2)] wp_error [OF top s pub g(1,2)] wp_linear [OF top s g] g(3) in
  \<open>simp_all add: enter_label_def linear_label_def\<close>)

end

section \<open>Iterations of the loop\<close>

context executor
begin

lemma wp_enter:
  assumes top: "on_top st x0 f0 fs0 v" and s: "good_state s" and enter: "frame_kind f = Enter"
    and S: "S = search_of config P ts"
    and pub: "\<And>p. publishes S ((x, f # fs) # v) p \<Longrightarrow> publishable p"
  shows "wp (handle_enter_frame ex config P ts) (\<lambda>_. reached S ((x, f # fs) # v)) (failed S ((x, f # fs) # v))
    (top_state st x (f # fs) s)"
proof -
  let ?w = "(x, f # fs) # v"
  have ne: "contexts st \<noteq> []" by (rule on_topD(4) [OF top])
  have par: "s_model S = communication_model config" "s_threads S = ts" "s_program S = P" "s_max_depth S = max_depth config"
    "s_max_thread_events S = max_thread_events config" by (simp_all add: S search_of_def)
  have visit: "wp (visit_node ex config P ts) (\<lambda>_. reached S ?w) (failed S ?w) (top_state st y (g # fs) s1)"
    if g: "gate S x f y g" and s1: "good_state s1" for y g s1
  proof (cases "dpor_tree_depth g \<ge> max_depth config")
    case True
    with gateD(1) [OF g] par have d: "dpor_tree_depth f \<ge> s_max_depth S" by simp
    have "wp (publish_terminal ex (s_threads S) DepthLimit) (\<lambda>_. wp (modify pop_top_frame) (\<lambda>_. reached S ?w) (failed S ?w))
        (failed S ?w) (top_state st y (g # fs) s1)"
      by (rule wp_publish [OF top])
        (use s1 pub publishes_depth_limit [OF g d] moves_depth_limit [OF g d] in
          \<open>auto simp: wp_simps reached_simps [OF top]\<close>)
    with True ne par show ?thesis by (simp add: visit_node_def wp_simps)
  next
    case False
    show ?thesis
    proof (cases "compute_next_event P y ts (max_thread_events config)")
      case (Inl e)
      with fails_next [OF g] False gateD(1) [OF g] par ne s1 show ?thesis
        by (simp add: visit_node_def wp_simps reached_simps [OF top])
    next
      case (Inr nxt)
      then have ex: "expands S y g nxt" using False par by (simp add: expands_def)
      have s1': "good_state s1" using s1 by blast
      show ?thesis
      proof (cases "next_event nxt")
        case None
        with Inr False ne wp_finish [OF top s1' pub g ex None] show ?thesis by (simp add: visit_node_def wp_simps par)
      next
        case (Some tl)
        obtain t l where tl: "tl = (t, l)" by force
        with Inr False ne wp_label [OF top s1' pub g ex Some [unfolded tl]] Some show ?thesis
          by (simp add: visit_node_def wp_simps par)
      qed
    qed
  qed
  have go: "wp (bind_action (on_executor (maybe_report_progress ex)) (\<lambda>_.
            bind_action (ask_executor (stop_requested ex)) (\<lambda>stop.
              if stop then return_action () else visit_node ex config P ts)))
      (\<lambda>_. reached S ?w) (failed S ?w) (top_state st y (g # fs) s1)"
    if g: "gate S x f y g" and s1: "good_state s1" for y g s1
  proof -
    obtain r s2 where p: "maybe_report_progress ex s1 = (r, s2)" by force
    obtain stop s3 where q: "stop_requested ex s2 = (stop, s3)" by force
    have s23: "good_state s2" "good_state s3" using s1 good_progress [OF _ p] good_stop [OF _ q] by auto
    show ?thesis
    proof (cases r)
      case (Inl e)
      with p ne s23 raises_progress show ?thesis by (simp add: wp_simps reached_simps [OF top])
    next
      case (Inr u)
      with p q ne s23 visit [OF g s23(2)] idles_gate [OF g] stop_sound [of s2 s3] show ?thesis
        by (auto simp: wp_simps reached_simps [OF top])
    qed
  qed
  have "wp (enter_if_consistent ex (s_model S)) (\<lambda>b. wp (if \<not> b then return_action ()
       else bind_action (on_executor (maybe_report_progress ex)) (\<lambda>_.
            bind_action (ask_executor (stop_requested ex)) (\<lambda>stop.
              if stop then return_action () else visit_node ex config P ts))) (\<lambda>_. reached S ?w) (failed S ?w))
      (failed S ?w) (top_state st x (f # fs) s)"
    by (rule wp_conseq [OF wp_gate [OF top s enter]]) (use go in \<open>auto simp: wp_return split: if_splits\<close>)
  then show ?thesis by (simp add: handle_enter_frame_def wp_bind par)
qed

lemma wp_split:
  assumes top: "on_top st x0 f0 fs0 v" and s: "good_state s"
    and note_good: "\<And>s. good_state s \<Longrightarrow> good_state (noted s)"
    and fail: "\<And>e. build (copy_graph y) = Inl e \<Longrightarrow> fails S w e"
    and off: "\<And>child. build (copy_graph y) = Inr child \<Longrightarrow> acceptable (handed child f md)"
    and move: "moves S w ((y, f\<lparr>cursor := cursor f + 1\<rparr> # fs) # v)"
    and post: "\<And>s'. good_state s' \<Longrightarrow> post False (top_state st y (f # fs) s')"
      "\<And>st'. reached S w st' \<Longrightarrow> post True st'"
  shows "wp (split_alternative ex build md noted) post (failed S w) (top_state st y (f # fs) s)"
proof -
  let ?d = "Suc (dpor_tree_depth f)"
  have ne: "contexts st \<noteq> []" by (rule on_topD(4) [OF top])
  obtain split s1 where q1: "should_split_to_idle_worker ex ?d s = (split, s1)" by force
  have s1: "good_state s1" using s good_split q1 by blast
  show ?thesis
  proof (cases "build (copy_graph y)")
    case (Inl e)
    with fail ne q1 s1 post(1) show ?thesis
      by (auto simp: split_alternative_def Let_def wp_simps reached_simps [OF top])
  next
    case (Inr child)
    obtain taken s2 where q2: "try_enqueue_owned_task ex child ?d md s1 = (taken, s2)" by force
    then have s2: "good_state s2" using s1 good_enqueue off [OF Inr] by (auto simp: try_enqueue_owned_task_def handed_def)
    have "reached S w (top_state st y (f\<lparr>cursor := cursor f + 1\<rparr> # fs) (noted s2))"
      using s2 note_good move by (auto simp: reached_simps [OF top])
    from post(2) [OF this] Inr ne q1 q2 s1 s2 post(1) show ?thesis
      by (auto simp: split_alternative_def Let_def wp_simps reached_simps [OF top] advance_cursor_def note_split_on_def)
  qed
qed

lemma wp_resume_nd:
  assumes top: "on_top st x0 f0 fs0 v" and s: "good_state s" and kind: "frame_kind f = ResumeNd"
    and off: "\<And>task. hands_off S ((x, f # fs) # v) task \<Longrightarrow> acceptable task"
  shows "wp (handle_resume_nd_frame ex) (\<lambda>_. reached S ((x, f # fs) # v)) (failed S ((x, f # fs) # v))
    (top_state st x (f # fs) s)"
proof (cases "\<exists>nd. frame_label f = Some (NondeterministicChoice nd) \<and> choices nd \<noteq> []")
  case False
  have ne: "contexts st \<noteq> []" by (rule on_topD(4) [OF top])
  have "fails S ((x, f # fs) # v) e" for e using fails_nd_label [OF kind False] .
  with False ne s show ?thesis
    by (auto simp: handle_resume_nd_frame_def wp_simps reached_simps [OF top] split: sum.splits option.splits EventLabel.splits)
next
  case True
  then obtain nd where nd: "frame_label f = Some (NondeterministicChoice nd)" "choices nd \<noteq> []" by blast
  let ?w = "(x, f # fs) # v" and ?l = "with_choice nd (cursor f)"
  have ne: "contexts st \<noteq> []" by (rule on_topD(4) [OF top])
  have k: "frame_kind f \<noteq> Enter" using kind by simp
  show ?thesis
  proof (cases "rollback (frame_checkpoint f) x")
    case (Inl e)
    with fails_rollback [OF k] ne s show ?thesis
      by (simp add: handle_resume_nd_frame_def wp_simps reached_simps [OF top])
  next
    case (Inr y)
    note rules = kind Inr nd(1)
    have local: "wp (bind_action (modify advance_cursor) (\<lambda>_. bind_action (on_graph (add_event (frame_thread_id f) ?l)) (\<lambda>_.
        modify (push_frame (enter (dpor_tree_depth f + 1) Visit))))) (\<lambda>_. reached S ?w) (failed S ?w) (top_state st y (f # fs) s1)"
      if "good_state s1" "cursor f < length (choices nd)" for s1
      using ne that moves_nd_next [OF rules that(2)] fails_nd_add [OF rules that(2), of y]
      by (auto simp: wp_simps reached_simps [OF top] advance_cursor_def split: sum.splits)
    have "wp (resume_nd_choice ex nd) (\<lambda>_. reached S ?w) (failed S ?w) (top_state st y (f # fs) s)"
    proof (cases "cursor f < length (choices nd)")
      case False
      with ne s moves_exit [OF k Inr] show ?thesis by (simp add: resume_nd_choice_def Let_def wp_simps reached_simps [OF top])
    next
      case lt: True
      show ?thesis
      proof (cases "cursor f + 1 < length (choices nd)")
        case False
        with ne s lt local [of s] show ?thesis by (simp add: resume_nd_choice_def Let_def wp_simps)
      next
        case True
        have "wp (split_alternative ex (\<lambda>x. map_result snd (add_event (frame_thread_id f) ?l x)) Visit (note_nd_split ex))
          (\<lambda>taken. wp (if taken then return_action () else bind_action (modify advance_cursor) (\<lambda>_.
             bind_action (on_graph (add_event (frame_thread_id f) ?l)) (\<lambda>_.
               modify (push_frame (enter (dpor_tree_depth f + 1) Visit))))) (\<lambda>_. reached S ?w) (failed S ?w))
          (failed S ?w) (top_state st y (f # fs) s)"
          by (rule wp_split [OF top s good_notes(1)])
            (use local lt fails_nd_add [OF rules lt, of "copy_graph y"] moves_nd_split [OF rules True] off [OF hands_nd [OF rules lt]] in
              \<open>auto simp: wp_return map_result_def bind_result_def split: sum.splits\<close>)
        with True ne lt show ?thesis
          by (simp add: resume_nd_choice_def Let_def wp_with_state wp_bind top_state_simps cong: if_cong)
      qed
    qed
    with Inr ne nd show ?thesis by (simp add: handle_resume_nd_frame_def wp_simps)
  qed
qed

end

context executor
begin

lemma wp_receive_child:
  assumes top: "on_top st x0 f0 fs0 v" and s: "good_state s"
    and fail: "\<And>e. add_receive t l source y = Inl e \<Longrightarrow> fails S w e"
    and move: "\<And>z. add_receive t l source y = Inr z \<Longrightarrow> moves S w ((z, enter d VisitIfConsistent # f # fs) # v)"
  shows "wp (enter_receive_child t l source d) (\<lambda>_. reached S w) (failed S w) (top_state st y (f # fs) s)"
  using on_topD(4) [OF top] s fail move
  by (auto simp: enter_receive_child_def wp_simps reached_simps [OF top] add_receive_def split: sum.splits)

lemma wp_resume_receive:
  assumes top: "on_top st x0 f0 fs0 v" and s: "good_state s" and kind: "frame_kind f = ResumeReceive"
    and off: "\<And>task. hands_off S ((x, f # fs) # v) task \<Longrightarrow> acceptable task"
  shows "wp (handle_resume_receive_frame ex) (\<lambda>_. reached S ((x, f # fs) # v)) (failed S ((x, f # fs) # v))
    (top_state st x (f # fs) s)"
proof (cases "\<exists>rl. frame_label f = Some (Receive rl)")
  case False
  have "fails S ((x, f # fs) # v) e" for e using fails_receive_label [OF kind False] .
  with False on_topD(4) [OF top] s show ?thesis
    by (auto simp: handle_resume_receive_frame_def wp_simps reached_simps [OF top]
        split: sum.splits option.splits EventLabel.splits)
next
  case True
  then obtain rl where rl: "frame_label f = Some (Receive rl)" by blast
  let ?w = "(x, f # fs) # v" and ?t = "frame_thread_id f" and ?l = "Receive rl"
  let ?src = "from_send (candidate_event_ids f ! cursor f)" and ?d = "dpor_tree_depth f + 1"
  have ne: "contexts st \<noteq> []" by (rule on_topD(4) [OF top])
  have k: "frame_kind f \<noteq> Enter" using kind by simp
  show ?thesis
  proof (cases "rollback (frame_checkpoint f) x")
    case (Inl e)
    with fails_rollback [OF k] ne s show ?thesis
      by (simp add: handle_resume_receive_frame_def wp_simps reached_simps [OF top])
  next
    case (Inr y)
    note rules = kind Inr rl
    have local: "wp (bind_action (modify advance_cursor) (\<lambda>_. enter_receive_child ?t ?l ?src ?d))
        (\<lambda>_. reached S ?w) (failed S ?w) (top_state st y (f # fs) s1)"
      if "good_state s1" "cursor f < length (candidate_event_ids f)" for s1
      using ne wp_receive_child [OF top that(1) fails_receive_add [OF rules that(2), of y] moves_receive_next [OF rules that(2)]]
      by (simp add: wp_bind wp_modify top_state_simps advance_cursor_def)
    have "wp (resume_receive_source ex ?l) (\<lambda>_. reached S ?w) (failed S ?w) (top_state st y (f # fs) s)"
    proof (cases "cursor f < length (candidate_event_ids f)")
      case False
      have "wp (enter_receive_child ?t ?l bottom ?d) (\<lambda>_. reached S ?w) (failed S ?w) (top_state st y (f\<lparr>flag := False\<rparr> # fs) s)"
        if "flag f"
        by (rule wp_receive_child [OF top])
          (use s fails_bottom_add [OF rules that] moves_receive_bottom [OF rules that] in auto)
      with False ne s moves_exit [OF k Inr] show ?thesis
        by (simp add: resume_receive_source_def Let_def wp_with_state wp_if wp_bind wp_modify top_state_simps
            reached_simps [OF top])
    next
      case lt: True
      show ?thesis
      proof (cases "cursor f + 1 < length (candidate_event_ids f) \<or> flag f")
        case False
        with ne s lt local [of s] show ?thesis
          by (simp add: resume_receive_source_def Let_def wp_with_state wp_bind wp_return top_state_simps)
      next
        case True
        have "wp (split_alternative ex (add_receive ?t ?l ?src) VisitIfConsistent (note_receive_split ex))
          (\<lambda>taken. wp (if taken then return_action () else bind_action (modify advance_cursor) (\<lambda>_.
             enter_receive_child ?t ?l ?src ?d)) (\<lambda>_. reached S ?w) (failed S ?w))
          (failed S ?w) (top_state st y (f # fs) s)"
          by (rule wp_split [OF top s good_notes(2)])
            (use local lt fails_receive_add [OF rules lt, of "copy_graph y"] moves_receive_split [OF kind Inr lt]
                off [OF hands_receive [OF rules lt]] in \<open>auto simp: wp_return\<close>)
        with True ne lt show ?thesis
          by (simp add: resume_receive_source_def Let_def wp_with_state wp_bind top_state_simps cong: if_cong)
      qed
    qed
    with Inr ne rl show ?thesis by (simp add: handle_resume_receive_frame_def wp_simps)
  qed
qed

lemma wp_resume_send:
  assumes top: "on_top st x0 f0 fs0 v" and s: "good_state s" and kind: "frame_kind f = ResumeSendRevisits"
    and off: "\<And>task. hands_off S ((x, f # fs) # v) task \<Longrightarrow> acceptable task"
  shows "wp (handle_resume_send_revisits_frame ex (s_model S)) (\<lambda>_. reached S ((x, f # fs) # v)) (failed S ((x, f # fs) # v))
    (top_state st x (f # fs) s)"
proof -
  let ?w = "(x, f # fs) # v" and ?d = "Suc (dpor_tree_depth f)"
  have ne: "contexts st \<noteq> []" by (rule on_topD(4) [OF top])
  note simps = handle_resume_send_revisits_frame_def Let_def wp_simps reached_simps [OF top]
  show ?thesis
  proof (cases "live_send x (frame_event_id f)")
    case (Inl e)
    with fails_live [OF kind] ne s show ?thesis by (simp add: simps)
  next
    case live: (Inr i)
    show ?thesis
    proof (cases "next_backward_revisit_child x i (s_model S) (candidate_event_ids f) (cursor f)")
      case (Inl e)
      with fails_revisit [OF kind live] live ne s show ?thesis by (simp add: simps)
    next
      case nxt: (Inr nxt)
      show ?thesis
      proof (cases "revisit_child nxt")
        case None
        with moves_revisits_done [OF kind live nxt] live nxt ne s show ?thesis by (simp add: simps)
      next
        case (Some y)
        obtain taken s1 where q: "try_enqueue_owned_task ex y ?d VisitIfConsistent s = (taken, s1)" by force
        then have "good_state s1"
          using s good_enqueue off [OF hands_revisit [OF kind live nxt Some]] by (auto simp: try_enqueue_owned_task_def handed_def)
        with Some moves_revisit [OF kind live nxt Some] moves_revisit_handed [OF kind live nxt Some] live nxt ne s q
        show ?thesis by (simp add: simps)
      qed
    qed
  qed
qed

text \<open>One iteration of the loop.\<close>

lemma step_refines:
  assumes shape: "shape_ok st" "contexts st \<noteq> []" and S: "S = search_of config P ts"
    and pub: "\<And>p. publishes S (view st) p \<Longrightarrow> publishable p" and off: "\<And>task. hands_off S (view st) task \<Longrightarrow> acceptable task"
    and good: "good_state (executor_state st)"
    and step: "explorer_step ex config P ts st = (r, st')"
  shows "case r of Inl e \<Rightarrow> failed S (view st) e st' | Inr _ \<Rightarrow> reached S (view st) st'"
proof -
  from on_top_cases [OF shape] obtain x f fs v where top: "on_top st x f fs v" .
  note d = on_topD [OF top]
  obtain stop s where q: "stop_requested ex (executor_state st) = (stop, s)" by force
  have s: "good_state s" using good good_stop [OF _ q] by blast
  have model: "communication_model config = s_model S" by (simp add: S search_of_def)
  have pub': "\<And>p. publishes S ((x, f # fs) # v) p \<Longrightarrow> publishable p" using pub d(6) by simp
  have off': "\<And>task. hands_off S ((x, f # fs) # v) task \<Longrightarrow> acceptable task" using off d(6) by simp
  have frame: "wp (handle_frame ex config P ts) (\<lambda>_. reached S (view st)) (failed S (view st)) (top_state st x (f # fs) s)"
    using d(4) wp_enter [OF top s _ S pub'] wp_unwind(2) [OF top s] wp_resume_nd [OF top s _ off'] wp_resume_receive [OF top s _ off']
      wp_resume_send [OF top s _ off']
    by (cases "frame_kind f") (simp_all add: handle_frame_def wp_with_state top_state_simps d(6) model)
  have "wp (explorer_step ex config P ts) (\<lambda>_. reached S (view st)) (failed S (view st)) (top_state st x (f # fs) (executor_state st))"
    using d(4) q frame wp_unwind(1) [OF top s]
    by (simp add: explorer_step_def wp_bind wp_executor wp_if wp_with_state top_state_simps d(6))
  moreover have "top_state st x (f # fs) (executor_state st) = st" using top_state_same [OF d(4)] d(1,3) by simp
  ultimately have "wp (explorer_step ex config P ts) (\<lambda>_. reached S (view st)) (failed S (view st)) st" by simp
  from wpD [OF this step] show ?thesis .
qed

end

end
