(* ===== verification/Explorer_Termination.thy ===== *)
theory Explorer_Termination
  imports Explorer_Moves "HOL-Library.Multiset_Order" "HOL-Library.Product_Lexorder"
begin

text \<open>
  The exploration ends, for every program, every observer and every executor whose stop requests stay. A
  frame weighs the depth it has left, then its stage, then the alternatives it has left; a move replaces the
  top frame by lighter ones, so the multiset of weights decreases. Rescheduling keeps the depth and
  removes an event, which is why an enter frame also weighs its graph.
\<close>

section \<open>Rescheduling removes an event\<close>

lemma ensure_thread_storage_events: "ensure_thread_storage t g = Inr g' \<Longrightarrow> events g' = events g"
  by (auto simp: ensure_thread_storage_def Let_def split: if_splits)

lemma eg_add_event_length: "eg_add_event t l g = Inr (i, g') \<Longrightarrow> length (events g') = Suc (length (events g))"
  by (auto simp: eg_add_event_def append_event_unchecked_def next_event_index_def Let_def dest: ensure_thread_storage_events)

lemma append_event_for_bulk_build_length:
  "append_event_for_bulk_build t l x = Inr y \<Longrightarrow> length (xg_events y) = Suc (length (xg_events x))"
  by (auto simp: append_event_for_bulk_build_def Let_def dest: eg_add_event_length)

lemma adjust_send_reader_count_graph: "adjust_send_reader_count src up x = Inr y \<Longrightarrow> graph y = graph x"
  by (auto simp: adjust_send_reader_count_def Let_def split: if_splits option.splits ReadsFromSource.splits)

lemma update_send_reader_state_graph: "update_send_reader_state p n x = Inr y \<Longrightarrow> graph y = graph x"
  by (auto simp: update_send_reader_state_def dest!: adjust_send_reader_count_graph)

lemma update_acyclicity_graph: "graph (update_acyclicity_after_rf_assignment r s x) = graph x"
  by (simp add: update_acyclicity_after_rf_assignment_def invalidate_known_acyclicity_def split: ReadsFromSource.splits)

lemma set_reads_from_source_events:
  "set_reads_from_source r s x = Inr y \<Longrightarrow> xg_events y = xg_events x"
  by (auto simp: set_reads_from_source_def Let_def update_acyclicity_graph eg_set_reads_from_source_def
      dest!: update_send_reader_state_graph)

lemma fold_result_length:
  assumes "fold_result f xs s = Inr s'" "\<And>x s s'. f x s = Inr s' \<Longrightarrow> size_of s' = Suc (size_of s)"
  shows "size_of s' = size_of s + length xs"
  using assms(1) by (induction xs arbitrary: s) (auto dest: assms(2))

lemma fold_result_const:
  assumes "fold_result f xs s = Inr s'" "\<And>x s s'. f x s = Inr s' \<Longrightarrow> size_of s' = size_of s"
  shows "size_of s' = size_of s"
  using assms(1) by (induction xs arbitrary: s) (auto dest: assms(2))

lemma restrict_from_keep_mask_length:
  assumes "restrict_from_keep_mask keep_mask x = Inr y"
  shows "length (xg_events y) = length (kept_ids keep_mask)" "length keep_mask = length (xg_events x)"
proof -
  show len: "length keep_mask = length (xg_events x)"
    using assms by (auto simp: restrict_from_keep_mask_def xg_event_count_def split: if_splits)
  define id_map where "id_map = map (\<lambda>i. if i < length (xg_events x) \<and> keep_mask ! i then Some (new_id keep_mask i) else None)
    [0..<length keep_mask]"
  define build where "build = (\<lambda>i y. bind_result (xg_event x i) (\<lambda>e. append_event_for_bulk_build (thread e) (label e) y))"
  have ids: "fold (id_map_step keep_mask) [0..<length (xg_events x)] ([], replicate (length (xg_events x)) None) =
      (kept_ids keep_mask, id_map)"
    using id_map_fold [of "length (xg_events x)" keep_mask] len by (simp add: kept_ids_def id_map_def)
  obtain y1 y2 where y: "fold_result build (kept_ids keep_mask) (reserve_for_bulk_build (length (thread_state x)) empty_xg) = Inr y1"
     "fold_result (remap_rf_entry id_map) (rf_entries (reads_from (graph x))) y1 = Inr y2"
     "y = clear_worker_local_history (if known_acyclic x then mark_known_acyclic y2 else invalidate_known_acyclicity y2)"
    using assms len by (auto simp: restrict_from_keep_mask_def xg_event_count_def ids simp flip: build_def)
  have "length (xg_events y1) = length (xg_events (reserve_for_bulk_build (length (thread_state x)) (empty_xg :: 'a ExplorationGraph)))
      + length (kept_ids keep_mask)"
    by (rule fold_result_length [OF y(1), where size_of = "\<lambda>x. length (xg_events x)"])
      (auto simp: build_def dest: append_event_for_bulk_build_length)
  moreover have "xg_events y2 = xg_events y1"
    by (rule fold_result_const [OF y(2), where size_of = xg_events])
      (auto simp: remap_rf_entry_def set_reads_from_def set_reads_from_bottom_def set_reads_from_source_events
        split: option.splits ReadsFromSource.splits)
  ultimately show "length (xg_events y) = length (kept_ids keep_mask)"
    using y(3) by (simp add: reserve_for_bulk_build_def empty_xg_def empty_eg_def clear_worker_local_history_def
        mark_known_acyclic_def invalidate_known_acyclicity_def split: if_splits)
qed

lemma reschedule_candidate_shrinks:
  assumes "reschedule_candidate P x t = Inr (Some y)"
  shows "length (xg_events y) < length (xg_events x)"
proof -
  from assms obtain i e where i: "xg_event x i = Inr e"
    "restrict_from_keep_mask ((replicate (xg_event_count x) True)[i := False]) x = Inr y"
    by (auto simp: reschedule_candidate_def split: option.splits if_splits)
  let ?m = "(replicate (length (xg_events x)) True)[i := False]"
  have lt: "i < length (xg_events x)"
    using i(1) by (auto simp: xg_event_def eg_event_def is_valid_event_id_def split: if_splits)
  have "length (filter (\<lambda>j. ?m ! j) [0..<length (xg_events x)]) < length [0..<length (xg_events x)]"
    by (rule length_filter_less [of i]) (use lt in auto)
  with restrict_from_keep_mask_length [OF i(2)] show ?thesis by (simp add: kept_ids_def xg_event_count_def)
qed

lemma has_causal_cycle_events: "has_causal_cycle stale x = Inr (c, y) \<Longrightarrow> xg_events y = xg_events x"
  by (auto simp: has_causal_cycle_def ensure_porf_cache_def split: option.splits)

lemma check_async_events:
  assumes "check_async_exploration_graph tolerance x = Inr (res, y)"
  shows "xg_events y = xg_events x"
proof -
  from assms obtain v where v: "validate_graph False tolerance (graph x) = Inr v"
    by (auto simp: check_async_exploration_graph_def)
  show ?thesis
  proof (cases "cycle_query_safe v")
    case False
    with assms v show ?thesis by (auto simp: check_async_exploration_graph_def)
  next
    case True
    with assms v obtain cyc z where z: "(if known_acyclic x then Inr (False, x)
        else if porf_cache x \<noteq> None then has_causal_cycle [] x
        else map_result (\<lambda>cyc. (cyc, x)) (has_causal_cycle_without_cache [] x)) = Inr (cyc, z)"
      "y = z \<or> y = mark_known_acyclic z"
      unfolding check_async_exploration_graph_def by (auto simp del: if_split_asm split: if_split_asm)
    then have "xg_events z = xg_events x" by (auto dest: has_causal_cycle_events split: if_splits)
    with z(2) show ?thesis by (auto simp: mark_known_acyclic_def)
  qed
qed

lemma check_consistency_events:
  assumes "check_consistency model x = Inr (res, y)"
  shows "xg_events y = xg_events x"
proof -
  from assms obtain r where "check_async_exploration_graph no_missing_reads_tolerance x = Inr (r, y)"
    by (auto simp: check_consistency_def consistency_checker_exploration_def check_exploration_graph_def split: if_splits)
  then show ?thesis by (rule check_async_events)
qed

section \<open>Weights\<close>

type_synonym weight = "nat \<times> nat \<times> nat"

definition alternatives_left :: "'v ExplorationFrame \<Rightarrow> nat" where
  "alternatives_left f =
     (case frame_kind f of
        ResumeNd \<Rightarrow> (case frame_label f of Some (NondeterministicChoice nd) \<Rightarrow> length (choices nd) - cursor f | _ \<Rightarrow> 0)
      | ResumeReceive \<Rightarrow> (length (candidate_event_ids f) - cursor f) + (if flag f then 1 else 0)
      | ResumeSendRevisits \<Rightarrow> length (candidate_event_ids f) - cursor f
      | _ \<Rightarrow> 0)"

definition frame_weight :: "nat \<Rightarrow> nat \<Rightarrow> 'v ExplorationFrame \<Rightarrow> weight" where
  "frame_weight bound n f =
     (bound - dpor_tree_depth f,
      case frame_kind f of
        Enter \<Rightarrow> (2, n)
      | ExitLinearChild \<Rightarrow> (0, 0)
      | _ \<Rightarrow> (1, alternatives_left f))"

definition view_weight :: "nat \<Rightarrow> 'v view \<Rightarrow> weight multiset" where
  "view_weight bound v = mset (concat (map (\<lambda>(x, fs). map (frame_weight bound (length (xg_events x))) fs) v))"

text \<open>Below the top there are no enter frames, and every other frame is below the depth bound.\<close>

definition resumed :: "nat \<Rightarrow> 'v ExplorationFrame \<Rightarrow> bool" where
  "resumed bound f \<longleftrightarrow> frame_kind f \<noteq> Enter \<and> dpor_tree_depth f < bound"

definition frames_of :: "'v view \<Rightarrow> 'v ExplorationFrame list" where
  "frames_of v = concat (map snd v)"

definition stack_ok :: "nat \<Rightarrow> 'v view \<Rightarrow> bool" where
  "stack_ok bound v \<longleftrightarrow> (\<forall>f\<in>set (tl (frames_of v)). resumed bound f)
     \<and> (\<forall>f\<in>set (frames_of v). frame_kind f = Enter \<or> resumed bound f)"

lemma frames_of_simps [simp]:
  "frames_of [] = []" "frames_of ((x, fs) # v) = fs @ frames_of v" "frames_of (drop_top x fs v) = fs @ frames_of v"
  by (simp_all add: frames_of_def drop_top_def)

lemma weight_resumed: "resumed bound f \<Longrightarrow> frame_weight bound n f = frame_weight bound m f"
  by (auto simp: resumed_def frame_weight_def split: ExplorationFrameKind.splits)

lemma view_weight_resumed:
  assumes "\<forall>f\<in>set (frames_of v). resumed bound f"
  shows "view_weight bound v = mset (map (frame_weight bound 0) (frames_of v))"
  using assms
proof (induction v)
  case (Cons c v)
  obtain x fs where c: "c = (x, fs)" by force
  have "image_mset (frame_weight bound (length (xg_events x))) (mset fs) = image_mset (frame_weight bound 0) (mset fs)"
    by (rule image_mset_cong) (use Cons.prems in \<open>auto simp: c intro: weight_resumed\<close>)
  then show ?case using Cons by (simp add: c view_weight_def)
qed (simp add: view_weight_def)

lemma view_weight_Cons:
  assumes "\<forall>f\<in>set (frames_of v). resumed bound f"
  shows "view_weight bound ((x, fs) # v) =
    mset (map (frame_weight bound (length (xg_events x))) fs) + mset (map (frame_weight bound 0) (frames_of v))"
  using view_weight_resumed [OF assms] by (simp add: view_weight_def)

lemma view_weight_step:
  assumes rest: "\<forall>g\<in>set (fs @ frames_of v). resumed bound g"
    and new: "view_weight bound v' = N + mset (map (frame_weight bound 0) (fs @ frames_of v))"
      "\<And>w. w \<in># N \<Longrightarrow> w < frame_weight bound (length (xg_events x)) f"
  shows "view_weight bound v' < view_weight bound ((x, f # fs) # v)"
proof -
  let ?a = "frame_weight bound (length (xg_events x)) f" and ?R = "mset (map (frame_weight bound 0) (fs @ frames_of v))"
  have "image_mset (frame_weight bound (length (xg_events x))) (mset fs) = image_mset (frame_weight bound 0) (mset fs)"
    by (rule image_mset_cong) (use rest in \<open>auto intro: weight_resumed\<close>)
  then have "view_weight bound ((x, f # fs) # v) = {#?a#} + ?R"
    using rest by (simp add: view_weight_Cons)
  moreover have "N < {#?a#}" using new(2) by (intro ex_gt_imp_less_multiset) auto
  ultimately show ?thesis unfolding new(1) by simp
qed

section \<open>Every move is lighter\<close>

lemma view_weight_top:
  assumes "\<forall>g\<in>set (gs @ frames_of v). resumed bound g"
  shows "view_weight bound ((z, e # gs) # v) =
    add_mset (frame_weight bound (length (xg_events z)) e) (mset (map (frame_weight bound 0) (gs @ frames_of v)))"
proof -
  have "image_mset (frame_weight bound (length (xg_events z))) (mset gs) = image_mset (frame_weight bound 0) (mset gs)"
    by (rule image_mset_cong) (use assms in \<open>auto intro: weight_resumed\<close>)
  with assms show ?thesis by (simp add: view_weight_Cons)
qed

lemma view_weight_drop:
  assumes "\<forall>g\<in>set (fs @ frames_of v). resumed bound g"
  shows "view_weight bound (drop_top y fs v) = mset (map (frame_weight bound 0) (fs @ frames_of v))"
  using view_weight_resumed [of "drop_top y fs v" bound] assms by simp

text \<open>The shapes a move leads to: the top frame dropped, replaced, or replaced with a new frame above it.\<close>

lemma lighter_drop:
  assumes "\<forall>g\<in>set (fs @ frames_of v). resumed bound g"
  shows "stack_ok bound (drop_top y fs v)" "view_weight bound (drop_top y fs v) < view_weight bound ((x, f # fs) # v)"
proof -
  show "stack_ok bound (drop_top y fs v)"
    using assms by (cases "fs @ frames_of v") (auto simp: stack_ok_def)
  show "view_weight bound (drop_top y fs v) < view_weight bound ((x, f # fs) # v)"
    by (rule view_weight_step [OF assms, of _ "{#}"]) (simp_all add: view_weight_drop [OF assms])
qed

lemma lighter_frame:
  assumes "\<forall>g\<in>set (fs @ frames_of v). resumed bound g" "resumed bound g"
    and "frame_weight bound 0 g < frame_weight bound (length (xg_events x)) f"
  shows "stack_ok bound ((z, g # fs) # v)" "view_weight bound ((z, g # fs) # v) < view_weight bound ((x, f # fs) # v)"
proof -
  show "stack_ok bound ((z, g # fs) # v)" using assms(1,2) by (auto simp: stack_ok_def)
  show "view_weight bound ((z, g # fs) # v) < view_weight bound ((x, f # fs) # v)"
    by (rule view_weight_step [OF assms(1), of _ "{#frame_weight bound 0 g#}"])
      (use assms weight_resumed [OF assms(2), of "length (xg_events z)" 0] in \<open>simp_all add: view_weight_top\<close>)
qed

lemma lighter_child:
  assumes "\<forall>g\<in>set (fs @ frames_of v). resumed bound g" "resumed bound g"
    and "frame_weight bound 0 g < frame_weight bound (length (xg_events x)) f"
    and "frame_weight bound (length (xg_events z)) e < frame_weight bound (length (xg_events x)) f" "frame_kind e = Enter"
  shows "stack_ok bound ((z, e # g # fs) # v)" "view_weight bound ((z, e # g # fs) # v) < view_weight bound ((x, f # fs) # v)"
    "stack_ok bound ((z, [e]) # (y, g # fs) # v)" "view_weight bound ((z, [e]) # (y, g # fs) # v) < view_weight bound ((x, f # fs) # v)"
proof -
  let ?N = "{#frame_weight bound (length (xg_events z)) e, frame_weight bound 0 g#}"
  show "stack_ok bound ((z, e # g # fs) # v)" "stack_ok bound ((z, [e]) # (y, g # fs) # v)"
    using assms by (auto simp: stack_ok_def)
  show "view_weight bound ((z, e # g # fs) # v) < view_weight bound ((x, f # fs) # v)"
    by (rule view_weight_step [OF assms(1), of _ ?N]) (use assms in \<open>auto simp: view_weight_top\<close>)
  show "view_weight bound ((z, [e]) # (y, g # fs) # v) < view_weight bound ((x, f # fs) # v)"
    by (rule view_weight_step [OF assms(1), of _ ?N]) (use assms in \<open>auto simp: view_weight_top\<close>)
qed

lemma lighter_context:
  assumes "\<forall>g\<in>set (fs @ frames_of v). resumed bound g"
    and "frame_weight bound (length (xg_events z)) e < frame_weight bound (length (xg_events x)) f" "frame_kind e = Enter"
  shows "stack_ok bound ((z, [e]) # drop_top y fs v)"
    "view_weight bound ((z, [e]) # drop_top y fs v) < view_weight bound ((x, f # fs) # v)"
proof -
  show "stack_ok bound ((z, [e]) # drop_top y fs v)" using assms by (auto simp: stack_ok_def)
  show "view_weight bound ((z, [e]) # drop_top y fs v) < view_weight bound ((x, f # fs) # v)"
    by (rule view_weight_step [OF assms(1), of _ "{#frame_weight bound (length (xg_events z)) e#}"])
      (use assms in \<open>auto simp: view_weight_top\<close>)
qed

lemma gate_events: "gate S x f y g \<Longrightarrow> xg_events y = xg_events x"
  by (auto elim!: gate.cases dest: check_consistency_events)

lemmas weight_simps = frame_weight_def alternatives_left_def resumed_def enter_def nd_frame_def receive_frame_def send_frame_def

lemma stack_ok_top:
  "stack_ok bound ((x, f # fs) # v) \<longleftrightarrow> (\<forall>g\<in>set (fs @ frames_of v). resumed bound g) \<and> (frame_kind f = Enter \<or> resumed bound f)"
  by (auto simp: stack_ok_def)

lemma depth_left: "d < n \<Longrightarrow> n - Suc d < n - d"
  by simp

lemma moves_lighter:
  assumes "moves S v v'" "stack_ok (s_max_depth S) v"
  shows "stack_ok (s_max_depth S) v' \<and> view_weight (s_max_depth S) v' < view_weight (s_max_depth S) v"
  using assms
proof (cases rule: moves.cases)
  case (moves_reschedule x f y g nxt t z fs u)
  have "length (xg_events z) < length (xg_events x)"
    using reschedule_candidate_shrinks [OF moves_reschedule(7)] gate_events [OF moves_reschedule(3)] by simp
  moreover have "frame_kind f = Enter" by (rule gateD(3) [OF moves_reschedule(3)])
  ultimately show ?thesis
    using assms(2) moves_reschedule(1,2) lighter_context [of fs u "s_max_depth S" z "enter (dpor_tree_depth f) Visit" x f y]
    by (auto simp: stack_ok_top weight_simps depth_left)
next
  case (moves_linear x f y g nxt t l i z fs u)
  then show ?thesis
    using assms(2) gateD [OF moves_linear(3)]
      lighter_child [of fs u "s_max_depth S" "g\<lparr>frame_kind := ExitLinearChild, frame_checkpoint := checkpoint y\<rparr>" x f z
        "enter (dpor_tree_depth f + 1) Visit"]
    by (auto simp: stack_ok_top weight_simps expands_def depth_left)
next
  case (moves_nd x f y g nxt t nd fs u)
  then show ?thesis
    using assms(2) gateD [OF moves_nd(3)] lighter_frame [of fs u "s_max_depth S" "nd_frame g y t nd" x f y]
    by (auto simp: stack_ok_top weight_simps expands_def depth_left)
next
  case (moves_receive x f y g nxt t rl ids fs u)
  then show ?thesis
    using assms(2) gateD [OF moves_receive(3)] lighter_frame [of fs u "s_max_depth S" "receive_frame g y t rl ids" x f y]
    by (auto simp: stack_ok_top weight_simps expands_def depth_left)
next
  case (moves_send x f y g nxt t sl i z ids fs u spawn)
  then show ?thesis
    using assms(2) gateD [OF moves_send(3)] lighter_frame [of fs u "s_max_depth S" "send_frame g y i ids spawn" x f z]
    by (auto simp: stack_ok_top weight_simps expands_def depth_left)
next
  case (moves_nd_split f x y nd fs u)
  then show ?thesis
    using assms(2) lighter_frame [of fs u "s_max_depth S" "f\<lparr>cursor := cursor f + 1\<rparr>" x f y]
    by (auto simp: stack_ok_top weight_simps depth_left)
next
  case (moves_nd_next f x y nd i z fs u)
  then show ?thesis
    using assms(2) lighter_child [of fs u "s_max_depth S" "f\<lparr>cursor := cursor f + 1\<rparr>" x f z "enter (dpor_tree_depth f + 1) Visit"]
    by (auto simp: stack_ok_top weight_simps depth_left)
next
  case (moves_receive_split f x y fs u)
  then show ?thesis
    using assms(2) lighter_frame [of fs u "s_max_depth S" "f\<lparr>cursor := cursor f + 1\<rparr>" x f y]
    by (auto simp: stack_ok_top weight_simps depth_left)
next
  case (moves_receive_next f x y rl z fs u)
  then show ?thesis
    using assms(2) lighter_child [of fs u "s_max_depth S" "f\<lparr>cursor := cursor f + 1\<rparr>" x f z
        "enter (dpor_tree_depth f + 1) VisitIfConsistent"]
    by (auto simp: stack_ok_top weight_simps depth_left)
next
  case (moves_receive_bottom f x y rl z fs u)
  then show ?thesis
    using assms(2) lighter_child [of fs u "s_max_depth S" "f\<lparr>flag := False\<rparr>" x f z
        "enter (dpor_tree_depth f + 1) VisitIfConsistent"]
    by (auto simp: stack_ok_top weight_simps depth_left)
next
  case (moves_revisit f x i nxt y fs u)
  then show ?thesis
    using assms(2) revisit_index_decreases [OF moves_revisit(5,6)]
      lighter_child(3,4) [of fs u "s_max_depth S" "f\<lparr>cursor := next_receive_index nxt\<rparr>" x f y
        "enter (dpor_tree_depth f + 1) VisitIfConsistent" x]
    by (auto simp: stack_ok_top weight_simps depth_left)
next
  case (moves_revisit_handed f x i nxt y fs u)
  then show ?thesis
    using assms(2) revisit_index_decreases [OF moves_revisit_handed(5,6)]
      lighter_frame [of fs u "s_max_depth S" "f\<lparr>cursor := next_receive_index nxt\<rparr>" x f x]
    by (auto simp: stack_ok_top weight_simps depth_left)
next
  case (moves_revisits_done f x i nxt fs u)
  then show ?thesis
    using assms(2) lighter_child [of fs u "s_max_depth S" "f\<lparr>cursor := next_receive_index nxt, frame_kind := ExitLinearChild\<rparr>" x f x
        "enter (dpor_tree_depth f + 1) Visit"]
    by (auto simp: stack_ok_top weight_simps depth_left)
qed (auto simp: stack_ok_top intro!: lighter_drop)

section \<open>The loop ends\<close>

lemma unwind_executor: "unwind_one_step st = (r, st') \<Longrightarrow> executor_state st' = executor_state st"
  by (auto simp: unwind_one_step_def with_state_def modify_def return_action_def pop_context_def pop_top_frame_def set_frames_def
      Let_def rollback_and_pop_top_frame_def bind_action_def on_graph_void_def on_graph_def set_current_graph_def
      split: if_splits ExplorationFrameKind.splits prod.splits sum.splits option.splits)

lemma unwind_all_executor: "executor_state (unwind_all st) = executor_state st"
proof (induction st rule: unwind_all.induct)
  case (1 st)
  show ?case
  proof (cases "contexts st = []")
    case False
    obtain r st' where u: "unwind_one_step st = (r, st')" by force
    from unwind_executor [OF u] 1 [OF False u [symmetric]] u False show ?thesis
      by (subst unwind_all.simps) (auto split: sum.splits)
  qed (simp add: unwind_all.simps)
qed

lemma idles_stack_ok: "idles S v v' \<Longrightarrow> stack_ok bound v \<Longrightarrow> stack_ok bound v'"
  by (auto elim!: idles.cases simp: stack_ok_top dest: gateD(2))

text \<open>
  A property of views that every step keeps, that only lets publishable executions be published and only lets
  acceptable tasks be handed off.
\<close>

definition view_invariant ::
    "('v::linorder) Search \<Rightarrow> ('v publication \<Rightarrow> bool) \<Rightarrow> ('v ExplorationTask \<Rightarrow> bool) \<Rightarrow> ('v view \<Rightarrow> bool) \<Rightarrow> bool" where
  "view_invariant S ok acc I \<longleftrightarrow> (\<forall>v v'. I v \<longrightarrow> stack_ok (s_max_depth S) v \<longrightarrow> moves S v v' \<longrightarrow> I v')
     \<and> (\<forall>v v'. I v \<longrightarrow> idles S v v' \<longrightarrow> I v') \<and> (\<forall>v p. I v \<longrightarrow> publishes S v p \<longrightarrow> ok p)
     \<and> (\<forall>v task. I v \<longrightarrow> stack_ok (s_max_depth S) v \<longrightarrow> hands_off S v task \<longrightarrow> acc task)"

lemma view_invariant_weaken: "view_invariant S ok acc I \<Longrightarrow> view_invariant S ok (\<lambda>_. True) I"
  unfolding view_invariant_def by blast

context executor
begin

definition rank where
  "rank bound rs = (case fst rs of
     Inl _ \<Rightarrow> (0 :: nat, 0 :: nat, {#})
   | Inr _ \<Rightarrow> if stopped (executor_state (snd rs)) then (1, stack_size (snd rs), {#})
       else (2, 0, view_weight bound (view (snd rs))))"

definition loop_inv where
  "loop_inv S I rs \<longleftrightarrow> good_state (executor_state (snd rs)) \<and>
     (case fst rs of
        Inl e \<Rightarrow> raises e \<or> (\<exists>v. I v \<and> stack_ok (s_max_depth S) v \<and> fails S v e)
      | Inr _ \<Rightarrow> shape_ok (snd rs) \<and> stack_ok (s_max_depth S) (view (snd rs)) \<and> I (view (snd rs)))"

lemma loop_step:
  assumes S: "S = search_of config P ts"
    and I: "view_invariant S publishable acceptable I"
    and inv: "loop_inv S I rs" and run: "running rs"
  shows "loop_inv S I (explorer_step ex config P ts (snd rs))
    \<and> rank (s_max_depth S) (explorer_step ex config P ts (snd rs)) < rank (s_max_depth S) rs"
proof -
  obtain r st where rs: "rs = (Inr r, st)" and ne: "contexts st \<noteq> []"
    using run by (cases rs) (auto simp: running_def split: sum.splits)
  from inv have st: "good_state (executor_state st)" "shape_ok st" "stack_ok (s_max_depth S) (view st)" "I (view st)"
    by (simp_all add: loop_inv_def rs)
  obtain r' st' where step: "explorer_step ex config P ts st = (r', st')" by force
  have I': "\<And>v v'. I v \<Longrightarrow> stack_ok (s_max_depth S) v \<Longrightarrow> moves S v v' \<Longrightarrow> I v'" "\<And>v v'. I v \<Longrightarrow> idles S v v' \<Longrightarrow> I v'"
    and pub: "\<And>p. publishes S (view st) p \<Longrightarrow> publishable p"
    and off: "\<And>task. hands_off S (view st) task \<Longrightarrow> acceptable task" using I st(3,4) unfolding view_invariant_def by blast+
  note out = step_refines [OF st(2) ne S pub off st(1) step]
  have inv': "loop_inv S I (r', st')"
  proof (cases r')
    case (Inl e)
    with out st show ?thesis by (auto simp: loop_inv_def failed_def)
  next
    case (Inr u)
    with out have o: "shape_ok st'" "good_state (executor_state st')" "moves S (view st) (view st') \<or> idles S (view st) (view st')"
      by (auto simp: reached_def)
    from o(3) have "I (view st') \<and> stack_ok (s_max_depth S) (view st')"
      using I' st(3,4) moves_lighter idles_stack_ok by blast
    with o Inr show ?thesis by (simp add: loop_inv_def)
  qed
  have "rank (s_max_depth S) (r', st') < rank (s_max_depth S) rs"
  proof (cases r')
    case (Inl e)
    then show ?thesis by (auto simp: rank_def rs)
  next
    case (Inr u)
    show ?thesis
    proof (cases "stopped (executor_state st)")
      case True
      obtain b s1 where q: "stop_requested ex (executor_state st) = (b, s1)" by force
      have b: "b" "stopped s1" using stop_stays [OF st(1) True q] stop_sound [OF st(1), of s1] q by auto
      then have un: "unwind_one_step (st\<lparr>executor_state := s1\<rparr>) = (Inr u, st')"
        using step q Inr by (simp add: explorer_step_def bind_action_def ask_executor_def on_executor_def)
      have "stack_size st' < stack_size (st\<lparr>executor_state := s1\<rparr>)"
        by (rule unwind_one_step_size [OF _ un]) (simp add: ne)
      moreover have "executor_state st' = s1" using unwind_executor [OF un] by simp
      ultimately show ?thesis using b True Inr by (simp add: rank_def rs stack_size_def)
    next
      case False
      from out Inr have "moves S (view st) (view st') \<or> stopped (executor_state st')" by (auto simp: reached_def)
      with False Inr moves_lighter [OF _ st(3)] show ?thesis by (auto simp: rank_def rs)
    qed
  qed
  with inv' show ?thesis by (simp add: rs step)
qed

lemma run_loop_outcome:
  assumes S: "S = search_of config P ts"
    and I: "view_invariant S publishable acceptable I"
    and st: "shape_ok st" "stack_ok (s_max_depth S) (view st)" "I (view st)" "good_state (executor_state st)"
  shows "\<exists>r st'. run_loop ex config P ts st = Some (r, st') \<and> good_state (executor_state st')
    \<and> (\<forall>e. r = Inl e \<longrightarrow> raises e \<or> (\<exists>v. I v \<and> stack_ok (s_max_depth S) v \<and> fails S v e))"
proof -
  let ?step = "\<lambda>rs. explorer_step ex config P ts (snd rs)" and ?inv = "loop_inv S I"
  have init: "?inv (Inr (), st)" using st by (simp add: loop_inv_def)
  have next_inv: "?inv (?step rs)" "rank (s_max_depth S) (?step rs) < rank (s_max_depth S) rs" if "?inv rs" "running rs" for rs
    using loop_step [OF S I that] by blast+
  have "wf {(t, s). (?inv s \<and> running s) \<and> t = ?step s}"
    by (rule wf_subset [OF wf_inv_image [OF wf, of "rank (s_max_depth S)"]])
      (use next_inv(2) in \<open>auto simp: inv_image_def simp del: split_paired_All\<close>)
  from wf_while_option_Some [OF this _ init] next_inv(1) obtain rs where
    rs: "while_option running ?step (Inr (), st) = Some rs" by blast
  have inv: "?inv rs" using while_option_rule [of ?inv running ?step, OF next_inv(1) rs init] by blast
  obtain r st' where rst: "rs = (r, st')" by force
  show ?thesis
  proof (cases r)
    case (Inr u)
    with rs rst inv show ?thesis by (simp add: run_loop_def loop_inv_def)
  next
    case (Inl e)
    have "good_state (executor_state (fail_exploration ex e st'))"
      using inv rst by (simp add: fail_exploration_def Let_def unwind_all_executor loop_inv_def good_fatal)
    with Inl rs rst inv show ?thesis by (auto simp: run_loop_def loop_inv_def)
  qed
qed

text \<open>A whole run of the explorer on one graph.\<close>

lemma explorer_outcome:
  assumes "view_invariant (search_of config P ts) publishable acceptable I" "I [(x, [enter depth md])]" "good_state s"
  shows "\<exists>r y s'. explorer_run ex config P ts x depth md s = Some (r, y, s') \<and> good_state s'
    \<and> (\<forall>e. r = Inl e \<longrightarrow> raises e \<or> (\<exists>v. I v \<and> stack_ok (max_depth config) v \<and> fails (search_of config P ts) v e))"
proof -
  let ?st = "\<lparr>borrowed_graph = x, contexts = [\<lparr>owned_graph = None, frames = [enter depth md]\<rparr>], executor_state = s\<rparr>"
  have st: "shape_ok ?st" "view ?st = [(x, [enter depth md])]" "stack_ok (s_max_depth (search_of config P ts)) (view ?st)"
    by (simp_all add: shape_ok_def view_def context_graph_def stack_ok_top enter_def)
  have "\<exists>r st'. run_loop ex config P ts ?st = Some (r, st') \<and> good_state (executor_state st') \<and> (\<forall>e. r = Inl e \<longrightarrow> raises e
       \<or> (\<exists>v. I v \<and> stack_ok (s_max_depth (search_of config P ts)) v \<and> fails (search_of config P ts) v e))"
    by (rule run_loop_outcome [OF refl assms(1) st(1,3)]) (use assms(2,3) st(2) in simp_all)
  then show ?thesis by (auto simp: explorer_run_def search_of_def)
qed

end

end
