(* ===== verification/Conformance.thy ===== *)
theory Conformance
  imports Revisit_Spec
begin

text \<open>
  What it means that a graph is an execution of a program: every event of a thread is what the thread
  function offers for the values observed before it. Appending an offered event, giving a source to the
  last receive of a thread and cutting threads back to prefixes all keep this. The second half shows which
  steps of the search keep a graph consistent without a check.
\<close>

text \<open>The events an offered label may become.\<close>

definition instance_of :: "'v EventLabel \<Rightarrow> 'v EventLabel \<Rightarrow> bool" where
  "instance_of l e \<longleftrightarrow>
     (case l of
        Receive rl \<Rightarrow> e = l \<or> is_blocking rl \<and> e = Block
      | NondeterministicChoice nd \<Rightarrow>
          if choices nd = [] then e = l
          else \<exists>v\<in>set (choices nd). e = NondeterministicChoice
                 \<lparr>nd_value = v, choices = erase_duplicate_nd_choices (choices nd)\<rparr>
      | _ \<Rightarrow> e = l)"

definition trace_upto :: "'v event list \<Rightarrow> (EventId \<rightharpoonup> ReadsFromSource) \<Rightarrow> ThreadId \<Rightarrow> nat \<Rightarrow> 'v ThreadTrace" where
  "trace_upto evs m t k = concat (map (observed evs m) (take k (thread_ids evs t)))"

definition follows :: "'v Program \<Rightarrow> 'v event list \<Rightarrow> (EventId \<rightharpoonup> ReadsFromSource) \<Rightarrow> bool" where
  "follows P evs m \<longleftrightarrow> (\<forall>t k. k < length (thread_ids evs t) \<longrightarrow> tm_contains (threads P) t
     \<and> (\<exists>l. offered P t (trace_upto evs m t k) k = Some l \<and> instance_of l (label (evs ! (thread_ids evs t ! k))))
     \<and> (is_block (evs ! (thread_ids evs t ! k)) \<longrightarrow> Suc k = length (thread_ids evs t)))"

lemma trace_upto_all: "trace_upto evs m t (length (thread_ids evs t)) = trace_of evs m t"
  by (simp add: trace_upto_def trace_of_def)

section \<open>Appending and reading\<close>

lemma observed_append:
  assumes "rf_valid evs m" "i < length evs"
  shows "observed (evs @ [e]) m i = observed evs m i"
proof -
  have "(evs @ [e]) ! k = evs ! k" if "m i = Some (from_send k)" for k
    using assms(1) that by (auto simp: rf_valid_def nth_append)
  with assms(2) show ?thesis by (auto simp: observed_def nth_append split: option.splits ReadsFromSource.splits)
qed

lemma trace_upto_append:
  assumes "rf_valid evs m" "k \<le> length (thread_ids evs t)"
  shows "trace_upto (evs @ [e]) m t k = trace_upto evs m t k"
proof -
  have "take k (thread_ids (evs @ [e]) t) = take k (thread_ids evs t)" using assms(2) by (simp add: thread_ids_append)
  moreover have "map (observed (evs @ [e]) m) (take k (thread_ids evs t)) = map (observed evs m) (take k (thread_ids evs t))"
  proof (rule map_cong)
    fix i assume "i \<in> set (take k (thread_ids evs t))"
    then have "i < length evs" using set_take_subset by (fastforce simp: set_thread_ids)
    then show "observed (evs @ [e]) m i = observed evs m i" by (rule observed_append [OF assms(1)])
  qed simp
  ultimately show ?thesis unfolding trace_upto_def by presburger
qed

lemma follows_append:
  assumes "follows P evs m" "rf_valid evs m" "tm_contains (threads P) (thread e)"
    and "offered P (thread e) (trace_of evs m (thread e)) (length (thread_ids evs (thread e))) = Some l" "instance_of l (label e)"
    and open_thread: "\<not> terminated evs (thread e)"
  shows "follows P (evs @ [e]) m"
  unfolding follows_def
proof (intro allI impI)
  fix t k assume k: "k < length (thread_ids (evs @ [e]) t)"
  show "tm_contains (threads P) t \<and> (\<exists>l. offered P t (trace_upto (evs @ [e]) m t k) k = Some l
      \<and> instance_of l (label ((evs @ [e]) ! (thread_ids (evs @ [e]) t ! k))))
      \<and> (is_block ((evs @ [e]) ! (thread_ids (evs @ [e]) t ! k)) \<longrightarrow> Suc k = length (thread_ids (evs @ [e]) t))"
  proof (cases "k < length (thread_ids evs t)")
    case True
    then have "thread_ids evs t ! k < length evs" using nth_mem [OF True] by (simp add: set_thread_ids)
    moreover have "\<not> is_block (evs ! (thread_ids evs t ! k))" if "t = thread e" "Suc k = length (thread_ids evs t)"
    proof -
      have ne: "thread_ids evs t \<noteq> []" using True by auto
      then have "last (thread_ids evs t) = thread_ids evs t ! k" using that(2) by (metis diff_Suc_1 last_conv_nth)
      with ne show ?thesis using open_thread that(1) by (simp add: terminated_def last_event_def)
    qed
    ultimately show ?thesis using True assms(1,2)
      by (auto simp: follows_def trace_upto_append thread_ids_append nth_append)
  next
    case False
    with k have t: "t = thread e" "k = length (thread_ids evs t)" by (auto simp: thread_ids_append split: if_splits)
    with assms show ?thesis
      by (simp add: trace_upto_append trace_upto_all) (simp add: thread_ids_append)
  qed
qed

lemma follows_read_last:
  assumes "follows P evs m" "\<forall>j<length evs. thread (evs ! j) = thread (evs ! r) \<longrightarrow> j \<le> r"
  shows "follows P evs (m(r \<mapsto> s))"
  unfolding follows_def
proof (intro allI impI)
  fix t k assume k: "k < length (thread_ids evs t)"
  have "observed evs (m(r \<mapsto> s)) i = observed evs m i" if "i \<in> set (take k (thread_ids evs t))" for i
  proof -
    from that obtain a where a: "a < k" "i = thread_ids evs t ! a" using k by (auto simp: in_set_conv_nth)
    with k sorted_thread_ids [of evs t] have "i < thread_ids evs t ! k" by (simp add: sorted_wrt_iff_nth_less)
    moreover have "thread_ids evs t ! k < length evs" "thread (evs ! (thread_ids evs t ! k)) = t" "thread (evs ! i) = t"
      using k a nth_mem [of k "thread_ids evs t"] nth_mem [of a "thread_ids evs t"] by (auto simp: set_thread_ids)
    ultimately have "i \<noteq> r" using assms(2) by (metis leD)
    then show ?thesis by (simp add: observed_def)
  qed
  then have "trace_upto evs (m(r \<mapsto> s)) t k = trace_upto evs m t k"
    unfolding trace_upto_def by (metis (no_types, lifting) map_cong)
  with assms(1) k show "tm_contains (threads P) t \<and> (\<exists>l. offered P t (trace_upto evs (m(r \<mapsto> s)) t k) k = Some l
      \<and> instance_of l (label (evs ! (thread_ids evs t ! k))))
      \<and> (is_block (evs ! (thread_ids evs t ! k)) \<longrightarrow> Suc k = length (thread_ids evs t))"
    by (simp add: follows_def)
qed

section \<open>Cutting threads back\<close>

lemma filter_prefix:
  assumes "\<And>i j. i < j \<Longrightarrow> j < length xs \<Longrightarrow> p (xs ! j) \<Longrightarrow> p (xs ! i)"
  shows "filter p xs = take (length (filter p xs)) xs"
  using assms
proof (induction xs rule: rev_induct)
  case (snoc a xs)
  have IH: "filter p xs = take (length (filter p xs)) xs"
  proof (rule snoc.IH)
    fix i j assume "i < j" "j < length xs" "p (xs ! j)"
    with snoc.prems [of i j] show "p (xs ! i)" by (simp add: nth_append)
  qed
  show ?case
  proof (cases "p a")
    case True
    have "p x" if "x \<in> set xs" for x
      using snoc.prems [of _ "length xs"] that True by (auto simp: in_set_conv_nth nth_append)
    then have "filter p xs = xs" by (simp add: filter_id_conv)
    with True show ?thesis by simp
  next
    case False
    with IH show ?thesis using length_filter_le [of p xs] by (metis (no_types, lifting) append_Nil2 diff_is_0_eq' filter.simps filter_append take0 take_append)
  qed
qed simp

definition prefix_mask :: "bool list \<Rightarrow> 'v event list \<Rightarrow> bool" where
  "prefix_mask keep_mask evs \<longleftrightarrow> (\<forall>r r'. keeps keep_mask r \<longrightarrow> r' < r
     \<longrightarrow> thread (evs ! r') = thread (evs ! r) \<longrightarrow> keeps keep_mask r')"

lemma filter_kept:
  assumes "restricts keep_mask x x'" "length keep_mask = length (xg_events x)"
  shows "map (\<lambda>j. kept_ids keep_mask ! j) (thread_ids (xg_events x') t) = filter (keeps keep_mask) (thread_ids (xg_events x) t)"
proof -
  let ?K = "kept_ids keep_mask"
  have "map ((!) ?K) (thread_ids (xg_events x') t) =
      map ((!) ?K) (filter ((\<lambda>i. thread (xg_events x ! i) = t) \<circ> (!) ?K) [0..<length ?K])"
    unfolding thread_ids_def restricts_events(1) [OF assms(1)]
    by (intro arg_cong [of _ _ "map _"] filter_cong) (simp_all add: restricts_events(2) [OF assms(1)])
  also have "\<dots> = filter (\<lambda>i. thread (xg_events x ! i) = t) ?K"
    by (simp add: filter_map [symmetric] map_nth)
  also have "\<dots> = filter (keeps keep_mask) (thread_ids (xg_events x) t)"
    unfolding thread_ids_def kept_ids_def assms(2) [symmetric] filter_filter
    by (intro filter_cong) (auto simp: keeps_def)
  finally show ?thesis .
qed

lemma restricts_thread_ids:
  assumes "restricts keep_mask x x'" "length keep_mask = length (xg_events x)" "prefix_mask keep_mask (xg_events x)"
  shows "\<exists>c\<le>length (thread_ids (xg_events x) t).
    map (\<lambda>j. kept_ids keep_mask ! j) (thread_ids (xg_events x') t) = take c (thread_ids (xg_events x) t)"
proof -
  have "filter (keeps keep_mask) (thread_ids (xg_events x) t) =
      take (length (filter (keeps keep_mask) (thread_ids (xg_events x) t))) (thread_ids (xg_events x) t)"
  proof (rule filter_prefix)
    fix i j assume ij: "i < j" "j < length (thread_ids (xg_events x) t)" "keeps keep_mask (thread_ids (xg_events x) t ! j)"
    then have "thread_ids (xg_events x) t ! i < thread_ids (xg_events x) t ! j"
      using sorted_thread_ids [of "xg_events x" t] by (simp add: sorted_wrt_iff_nth_less)
    moreover have "thread (xg_events x ! (thread_ids (xg_events x) t ! i)) = thread (xg_events x ! (thread_ids (xg_events x) t ! j))"
      using ij nth_mem [of i "thread_ids (xg_events x) t"] nth_mem [of j "thread_ids (xg_events x) t"] by (simp add: set_thread_ids)
    ultimately show "keeps keep_mask (thread_ids (xg_events x) t ! i)" using assms(3) ij(3) unfolding prefix_mask_def by blast
  qed
  then show ?thesis using filter_kept [OF assms(1,2)] length_filter_le by metis
qed

lemma restricts_observed:
  assumes x': "restricts keep_mask x x'" "length keep_mask = length (xg_events x)" "wf_core x"
    and j: "j < length (kept_ids keep_mask)"
    and src: "\<And>k. xg_rf x (kept_ids keep_mask ! j) = Some (from_send k) \<Longrightarrow> keeps keep_mask k"
  shows "observed (xg_events x') (xg_rf x') j = observed (xg_events x) (xg_rf x) (kept_ids keep_mask ! j)"
proof -
  let ?K = "kept_ids keep_mask"
  have nd: "as_nondeterministic_choice (xg_events x' ! j) = as_nondeterministic_choice (xg_events x ! (?K ! j))"
    using restricts_events(3) [OF x'(1) j] by (simp add: event_kind_defs)
  show ?thesis
  proof (cases "xg_rf x (?K ! j)")
    case None
    then have "xg_rf x' j = None" using x'(1) by (simp add: restricts_def remap_source_def)
    with None nd show ?thesis by (simp add: observed_def restricts_labels [OF x'(1) j])
  next
    case (Some s)
    show ?thesis
    proof (cases s)
      case bottom
      with Some restricts_rf_bottom [OF x'(1), of j] j have "xg_rf x' j = Some bottom" by simp
      with Some bottom nd show ?thesis by (simp add: observed_def restricts_labels [OF x'(1) j])
    next
      case (from_send k)
      with Some src have "keeps keep_mask k" by simp
      note k = keeps_new_id [OF this]
      have "xg_rf x' j = Some (from_send (new_id keep_mask k))"
        using restricts_rf [OF x', of j "new_id keep_mask k"] j k Some from_send \<open>keeps keep_mask k\<close> keeps_kept [OF j]
        by (simp add: masked_rf_Some)
      moreover have "as_send (xg_events x' ! new_id keep_mask k) = as_send (xg_events x ! k)"
        using label_kinds [OF restricts_events(3) [OF x'(1) k(1)]] k(2) by simp
      ultimately show ?thesis using Some from_send nd by (simp add: observed_def restricts_labels [OF x'(1) j])
    qed
  qed
qed

text \<open>A restriction to thread prefixes, in which only the last receive of a thread may lose its source, still follows
  the program.\<close>

lemma follows_restrict:
  assumes P: "follows P (xg_events x) (xg_rf x)"
    and x': "restricts keep_mask x x'" "length keep_mask = length (xg_events x)" "wf_core x" "prefix_mask keep_mask (xg_events x)"
    and src: "\<And>r k r'. keeps keep_mask r \<Longrightarrow> xg_rf x r = Some (from_send k) \<Longrightarrow> keeps keep_mask r' \<Longrightarrow> r < r' \<Longrightarrow>
      thread (xg_events x ! r') = thread (xg_events x ! r) \<Longrightarrow> keeps keep_mask k"
  shows "follows P (xg_events x') (xg_rf x')"
  unfolding follows_def
proof (intro allI impI)
  fix t k assume k: "k < length (thread_ids (xg_events x') t)"
  let ?K = "kept_ids keep_mask" and ?T = "thread_ids (xg_events x) t" and ?T' = "thread_ids (xg_events x') t"
  obtain c where c: "c \<le> length ?T" "map ((!) ?K) ?T' = take c ?T" using restricts_thread_ids [OF x'(1,2,4)] by metis
  then have len: "length ?T' = c" by (metis length_map length_take min.absorb2)
  have at: "?K ! (?T' ! i) = ?T ! i" if "i < c" for i
    using c(2) that len by (metis nth_map nth_take)
  have in': "?T' ! i < length ?K" if "i < c" for i
    using nth_mem [of i ?T'] that len restricts_events(1) [OF x'(1)] by (simp add: set_thread_ids)
  have inT: "thread (xg_events x ! (?T ! i)) = t" if "i < c" for i
    using nth_mem [of i ?T] that c(1) by (simp add: set_thread_ids)
  have obs: "observed (xg_events x') (xg_rf x') (?T' ! i) = observed (xg_events x) (xg_rf x) (?T ! i)" if i: "i < k" for i
  proof -
    have ic: "i < c" "k < c" using i k len by simp_all
    have "keeps keep_mask h" if "xg_rf x (?K ! (?T' ! i)) = Some (from_send h)" for h
    proof (rule src [OF _ that])
      show "keeps keep_mask (?K ! (?T' ! i))" "keeps keep_mask (?K ! (?T' ! k))" using in' ic by (auto intro: keeps_kept)
      show "?K ! (?T' ! i) < ?K ! (?T' ! k)"
        using sorted_thread_ids [of "xg_events x" t] ic c(1) i by (simp add: at sorted_wrt_iff_nth_less)
      show "thread (xg_events x ! (?K ! (?T' ! k))) = thread (xg_events x ! (?K ! (?T' ! i)))" using ic by (simp add: at inT)
    qed
    from restricts_observed [OF x'(1-3) in' this] ic show ?thesis by (simp add: at)
  qed
  have "map (observed (xg_events x') (xg_rf x')) (take k ?T') = map (observed (xg_events x) (xg_rf x)) (take k ?T)"
    using obs k len c(1) by (intro nth_equalityI) simp_all
  then have "trace_upto (xg_events x') (xg_rf x') t k = trace_upto (xg_events x) (xg_rf x) t k" by (simp add: trace_upto_def)
  moreover have lab: "label (xg_events x' ! (?T' ! k)) = label (xg_events x ! (?T ! k))"
    using restricts_events(3) [OF x'(1) in'] k len by (simp add: at)
  moreover have "is_block (xg_events x' ! (?T' ! k)) = is_block (xg_events x ! (?T ! k))" by (simp add: lab is_block_def)
  ultimately show "tm_contains (threads P) t \<and> (\<exists>l. offered P t (trace_upto (xg_events x') (xg_rf x') t k) k = Some l
      \<and> instance_of l (label (xg_events x' ! (?T' ! k)))) \<and> (is_block (xg_events x' ! (?T' ! k)) \<longrightarrow> Suc k = length ?T')"
    using P [unfolded follows_def, rule_format, of k t] k len c(1) by auto
qed


section \<open>Programs that do not throw on their executions\<close>

text \<open>
  A safe program offers no block events and no matchers that throw, and on its own consistent executions a thread
  that has not ended replies to its trace. On other traces it may throw.
\<close>

definition safe_program :: "'v Program \<Rightarrow> bool" where
  "safe_program P \<longleftrightarrow>
     (\<forall>t trace step l. offered P t trace step = Some l \<longrightarrow> l \<noteq> Block \<and> (\<forall>rl. l = Receive rl \<longrightarrow> total_matcher rl))
   \<and> (\<forall>evs m t. follows P evs m \<longrightarrow> async_consistent no_missing_reads_tolerance evs m \<longrightarrow> (\<forall>e\<in>set evs. \<not> is_error e)
        \<longrightarrow> tm_contains (threads P) t \<longrightarrow> \<not> terminated evs t
        \<longrightarrow> (\<exists>l. reply P t (trace_of evs m t) (length (thread_ids evs t)) = Inr l))"

lemma total_safe: "total_program P \<Longrightarrow> safe_program P"
proof -
  assume P: "total_program P"
  have "l \<noteq> Block \<and> (\<forall>rl. l = Receive rl \<longrightarrow> total_matcher rl)" if "offered P t trace step = Some l" for t trace step l
  proof -
    have "tm_contains (threads P) t"
      using that by (cases "tm_at (threads P) t") (auto simp: offered_def reply_def tm_at_contains)
    with P have "calm (reply P t trace step)" by (simp add: total_program_def)
    with that show ?thesis by (auto simp: calm_def offered_def)
  qed
  with P show "safe_program P" unfolding safe_program_def total_program_def calm_def by blast
qed

lemma offered_safe:
  assumes "safe_program P"
  shows "offered P t trace step \<noteq> Some Block" "offered P t trace step = Some (Receive rl) \<Longrightarrow> total_matcher rl"
  using assms unfolding safe_program_def by blast+

lemma offered_reply: "offered P t trace step = Some l \<Longrightarrow> reply P t trace step = Inr (Some l)"
  by (auto simp: offered_def split: sum.splits)

lemma safe_answers:
  assumes "safe_program P" "follows P (xg_events x) (xg_rf x)" "consistent model no_missing_reads_tolerance (xg_events x) (xg_rf x)"
    "\<forall>e\<in>set (xg_events x). \<not> is_error e" "tm_contains (threads P) t" "\<not> terminated (xg_events x) t"
  shows "answers P x t"
proof -
  have "async_consistent no_missing_reads_tolerance (xg_events x) (xg_rf x)"
    using assms(3) by (cases model) (auto simp: consistent_def)
  with assms obtain l where l: "reply P t (trace_of (xg_events x) (xg_rf x) t) (length (thread_ids (xg_events x) t)) = Inr l"
    unfolding safe_program_def by blast
  moreover have "offered P t (trace_of (xg_events x) (xg_rf x) t) (length (thread_ids (xg_events x) t)) = l"
    using l by (simp add: offered_def)
  with offered_safe [OF assms(1)] have "l \<noteq> Some Block" "\<forall>rl. l = Some (Receive rl) \<longrightarrow> total_matcher rl" by metis+
  ultimately show ?thesis by (simp add: answers_def calm_def)
qed

lemma instance_of_Receive: "instance_of l (Receive rl) \<longleftrightarrow> l = Receive rl"
  by (auto simp: instance_of_def split: EventLabel.splits)

lemma instance_of_Block: "instance_of l Block \<longleftrightarrow> l = Block \<or> (\<exists>rl. l = Receive rl \<and> is_blocking rl)"
  by (auto simp: instance_of_def split: EventLabel.splits)

lemma in_thread_ids:
  assumes "i < length evs"
  obtains k where "k < length (thread_ids evs (thread (evs ! i)))" "thread_ids evs (thread (evs ! i)) ! k = i"
proof -
  have "i \<in> set (thread_ids evs (thread (evs ! i)))" using assms by (simp add: set_thread_ids)
  with that show thesis by (auto simp: in_set_conv_nth)
qed

lemma follows_event:
  assumes "follows P evs m" "i < length evs"
  obtains k l where "tm_contains (threads P) (thread (evs ! i))"
    "offered P (thread (evs ! i)) (trace_upto evs m (thread (evs ! i)) k) k = Some l" "instance_of l (label (evs ! i))"
  using in_thread_ids [OF assms(2)] assms(1) unfolding follows_def by metis

lemma follows_total_matchers:
  assumes "follows P evs m" "safe_program P"
  shows "total_matchers evs"
  unfolding total_matchers_def
proof (intro ballI allI impI)
  fix e rl v assume "e \<in> set evs" "as_receive e = Some rl"
  then obtain i where i: "i < length evs" "label (evs ! i) = Receive rl"
    by (auto simp: in_set_conv_nth as_receive_def split: EventLabel.splits)
  from follows_event [OF assms(1) i(1)] show "\<exists>b. matches rl v = Inr b"
    using offered_safe(2) [OF assms(2)] i(2) by (metis instance_of_Receive total_matcher_def)
qed

section \<open>Consistency without a check\<close>

text \<open>A fresh event that is not a receive is read by nobody and is last in every order.\<close>

lemma consistent_append:
  assumes "consistent model tolerance evs m" "\<not> is_receive e"
  shows "consistent model tolerance (evs @ [e]) m"
proof -
  from assms(1) have rd: "reads_ok tolerance evs m" and ac: "acyclic (causal evs m)" and ff: "model = FifoP2P \<Longrightarrow> fifo_ok evs m"
    by (auto simp: consistent_def async_consistent_def)
  note v = reads_okD(1) [OF rd]
  have ids: "r < length evs" "s = from_send i \<Longrightarrow> i < length evs" if "m r = Some s" for r s i
    using v that by (auto simp: rf_valid_def)
  have read: "read_ok (evs @ [e]) r s" if "m r = Some s" for r s
    using reads_okD(2) [OF rd that] ids [OF that]
    by (auto simp: read_ok_def recv_of_def send_of_def accepted_def nth_append split: ReadsFromSource.splits)
  have "m r \<noteq> None" if "r < Suc (length evs)" "is_receive ((evs @ [e]) ! r)" "\<not> tolerance r" for r
    using reads_okD(4) [OF rd] that assms(2) by (auto simp: nth_append less_Suc_eq)
  then have "reads_ok tolerance (evs @ [e]) m"
    using read rf_valid_append [OF v] reads_okD(3) [OF rd] unfolding reads_ok_def by auto
  moreover have "fifo_ok (evs @ [e]) m" if "fifo_ok evs m"
    unfolding fifo_ok_def
  proof (intro allI impI, elim conjE)
    fix i j r assume *: "i < j" "same_channel (evs @ [e]) i j" "m r = Some (from_send j)" "accepted (evs @ [e]) r i"
    then have "j < length evs" "r < length evs" using ids by blast+
    with * that show "\<exists>r'<r. m r' = Some (from_send i)"
      unfolding fifo_ok_def by (simp add: same_channel_def accepted_def recv_of_def send_of_def nth_append) metis
  qed
  ultimately show ?thesis using acyclic_append [OF v ac] ff by (auto simp: consistent_def async_consistent_def)
qed

lemma consistent_restrict:
  assumes x': "restricts keep_mask x x'" "length keep_mask = length (xg_events x)" "wf_core x" "wf_core x'"
    and c: "consistent model no_missing_reads_tolerance (xg_events x) (xg_rf x)"
    and p: "prefix_mask keep_mask (xg_events x)"
    and src: "\<And>r k. keeps keep_mask r \<Longrightarrow> xg_rf x r = Some (from_send k) \<Longrightarrow> keeps keep_mask k"
  shows "consistent model no_missing_reads_tolerance (xg_events x') (xg_rf x')"
proof -
  let ?K = "kept_ids keep_mask"
  from c have rd: "reads_ok no_missing_reads_tolerance (xg_events x) (xg_rf x)" and ac: "acyclic (porf x)"
    and ff: "model = FifoP2P \<Longrightarrow> fifo_ok (xg_events x) (xg_rf x)" by (auto simp: consistent_def async_consistent_def)
  have rf: "xg_rf x' j = Some (from_send i) \<longleftrightarrow> j < length ?K \<and> i < length ?K \<and> xg_rf x (?K ! j) = Some (from_send (?K ! i))" for i j
    using restricts_rf [OF x'(1-3), of j i] keeps_kept by (auto simp: masked_rf_Some)
  have some: "xg_rf x' j \<noteq> None" if "j < length ?K" "xg_rf x (?K ! j) \<noteq> None" for j
    using that src [OF keeps_kept [OF that(1)]] x'(1)
    by (auto simp: restricts_def remap_source_def keeps_def split: option.splits ReadsFromSource.splits)
  have "reads_ok (\<lambda>_. True) (xg_events x) (xg_rf x)" using rd by (auto simp: reads_ok_def)
  then have "reads_ok (\<lambda>_. True) (xg_events x') (xg_rf x')" by (rule restricts_reads_ok [OF x']) simp
  moreover have "xg_rf x' j \<noteq> None" if "j < length (xg_events x')" "is_receive (xg_events x' ! j)" for j
  proof (rule some)
    show j: "j < length ?K" using that restricts_events(1) [OF x'(1)] by simp
    show "xg_rf x (?K ! j) \<noteq> None"
      by (rule reads_okD(4) [OF rd]) (use that keeps_kept [OF j] x'(2) restricts_labels(1) [OF x'(1) j] in
          \<open>simp_all add: keeps_def no_missing_reads_tolerance_def\<close>)
  qed
  ultimately have "reads_ok no_missing_reads_tolerance (xg_events x') (xg_rf x')" by (simp add: reads_ok_def)
  moreover have "acyclic (porf x')"
    using acyclic_inv_image [OF ac] restricts_causal [OF x'(1-3)] by (rule acyclic_subset)
  moreover have "fifo_ok (xg_events x') (xg_rf x')" if f: "fifo_ok (xg_events x) (xg_rf x)"
    unfolding fifo_ok_def
  proof (intro allI impI, elim conjE)
    fix i j r assume *: "i < j" "j < length (xg_events x')" "same_channel (xg_events x') i j" "xg_rf x' r = Some (from_send j)"
      "accepted (xg_events x') r i"
    then have k: "i < length ?K" "j < length ?K" "r < length ?K" "xg_rf x (?K ! r) = Some (from_send (?K ! j))"
      using rf [of r j] restricts_events(1) [OF x'(1)] by auto
    have ch: "same_channel (xg_events x) (?K ! i) (?K ! j)" "accepted (xg_events x) (?K ! r) (?K ! i)"
      using * restricts_accepted(2) [OF x'(1) k(1,2)] restricts_accepted(1) [OF x'(1) k(3,1)] by simp_all
    moreover have "?K ! i < ?K ! j" using *(1) kept_less(1) [OF k(1,2)] by simp
    moreover have "?K ! j < length (xg_events x)" using keeps_kept [OF k(2)] x'(2) by (simp add: keeps_def)
    ultimately obtain r0 where r0: "r0 < ?K ! r" "xg_rf x r0 = Some (from_send (?K ! i))"
      using f k(4) unfolding fifo_ok_def by metis
    have "thread (xg_events x ! r0) = thread (xg_events x ! (?K ! r))"
      using reads_okD(2) [OF rd k(4)] reads_okD(2) [OF rd r0(2)] ch(1) by (auto simp: read_ok_def same_channel_def)
    with r0(1) p keeps_kept [OF k(3)] have "keeps keep_mask r0" unfolding prefix_mask_def by metis
    then obtain r' where r': "r' < length ?K" "r0 = ?K ! r'" by (rule keepsE)
    with r0 k show "\<exists>r'<r. xg_rf x' r' = Some (from_send i)" using kept_less(1) [OF r'(1) k(3)] rf by auto
  qed
  ultimately show ?thesis using ff by (auto simp: consistent_def async_consistent_def)
qed

section \<open>Revisits follow the program\<close>

lemma revisit_mask_keeps: "keeps (revisit_mask x recv send) r \<longleftrightarrow>
    r < length (xg_events x) \<and> (r \<le> recv \<or> r = send \<or> (r, send) \<in> (porf x)\<^sup>+)"
  by (auto simp: keeps_def revisit_mask_def deleted_def)

lemma revisit_prefix: "prefix_mask (revisit_mask x recv send) (xg_events x)"
  unfolding prefix_mask_def revisit_mask_keeps
proof (intro allI impI)
  fix r r' assume r: "r < length (xg_events x) \<and> (r \<le> recv \<or> r = send \<or> (r, send) \<in> (porf x)\<^sup>+)" "r' < r"
    "thread (xg_events x ! r') = thread (xg_events x ! r)"
  then have "(r', r) \<in> porf x" by (auto simp: causal_def po_of_def)
  with r show "r' < length (xg_events x) \<and> (r' \<le> recv \<or> r' = send \<or> (r', send) \<in> (porf x)\<^sup>+)"
    by (auto intro: trancl_into_trancl2)
qed

lemma revisit_follows:
  assumes good: "good model x" and P: "follows P (xg_events x) (xg_rf x)"
    and recv: "recv < length (xg_events x)" "is_receive (xg_events x ! recv)"
    and send: "send < length (xg_events x)" "is_send (xg_events x ! send)"
    and ok: "revisitable model x send recv" and y: "revisit_of x send recv y"
  shows "follows P (xg_events y) (xg_rf y)"
proof -
  let ?M = "revisit_mask x recv send"
  from y obtain x' where x': "restricts ?M x x'" "xg_events y = xg_events x'"
    "xg_rf y = (xg_rf x')(new_id ?M recv \<mapsto> from_send (new_id ?M send))" by (auto simp: revisit_of_def)
  have len: "length ?M = length (xg_events x)" by (simp add: revisit_mask_def)
  have no_succ: False if "keeps ?M r" "recv < r" "thread (xg_events x ! r) = thread (xg_events x ! recv)" for r
  proof -
    have "(recv, r) \<in> porf x" using that by (auto simp: causal_def po_of_def revisit_mask_keeps)
    moreover have "r = send \<or> (r, send) \<in> (porf x)\<^sup>+" using that by (auto simp: revisit_mask_keeps)
    ultimately have "(recv, send) \<in> (porf x)\<^sup>+" by (auto intro: trancl_into_trancl2)
    with ok show False by (simp add: revisitable_def)
  qed
  have "follows P (xg_events x') (xg_rf x')"
  proof (rule follows_restrict [OF P x'(1) len goodD(2) [OF good] revisit_prefix])
    fix r k r' assume r: "keeps ?M r" "xg_rf x r = Some (from_send k)" "keeps ?M r'" "r < r'"
      "thread (xg_events x ! r') = thread (xg_events x ! r)"
    have kl: "k < length (xg_events x)" "is_send (xg_events x ! k)" "is_receive (xg_events x ! r)"
      using reads_okD(1) [OF goodD(6) [OF good]] r(2) by (auto simp: rf_valid_def)
    have edge: "(k, r) \<in> porf x" using r(2) by (auto simp: causal_def rf_of_def)
    have "r \<noteq> recv" using no_succ [OF r(3)] r(4,5) by blast
    moreover have "r \<noteq> send" using send(2) kl(3) send_not_receive by blast
    ultimately consider "r < recv" | "(r, send) \<in> (porf x)\<^sup>+" using r(1) by (auto simp: revisit_mask_keeps)
    then show "keeps ?M k"
    proof cases
      case 1
      have False if "deleted x recv send k"
      proof -
        from that ok kl(1) have "revisit_ok model x k send" by (simp add: revisitable_def)
        then have "\<not> previous x k send r" using r(2) kl(2)
          by (auto simp: revisit_ok_def is_send_def split: EventLabel.splits)
        moreover have "recv < k" using that by (simp add: deleted_def)
        ultimately show False using 1 by (simp add: previous_def)
      qed
      then show ?thesis using kl(1) by (auto simp: keeps_def revisit_mask_def)
    next
      case 2
      with edge have "(k, send) \<in> (porf x)\<^sup>+" by (rule trancl_into_trancl2)
      with kl(1) show ?thesis by (simp add: revisit_mask_keeps)
    qed
  qed
  moreover have "keeps ?M recv" using recv by (simp add: revisit_mask_keeps)
  note nr = keeps_new_id [OF this]
  have "\<forall>j<length (xg_events x'). thread (xg_events x' ! j) = thread (xg_events x' ! new_id ?M recv) \<longrightarrow> j \<le> new_id ?M recv"
  proof (intro allI impI)
    fix j assume j: "j < length (xg_events x')" "thread (xg_events x' ! j) = thread (xg_events x' ! new_id ?M recv)"
    then have jk: "j < length (kept_ids ?M)" using restricts_events(1) [OF x'(1)] by simp
    have "\<not> recv < kept_ids ?M ! j"
      using no_succ [OF keeps_kept [OF jk]] j(2) restricts_events(2) [OF x'(1) jk] restricts_events(2) [OF x'(1) nr(1)] nr(2) by auto
    then show "j \<le> new_id ?M recv" using kept_less(1) [OF nr(1) jk] nr(2) by (metis not_less)
  qed
  ultimately show ?thesis using follows_read_last x'(2,3) by metis
qed

end
