(* ===== verification/Nodes.thy ===== *)
theory Nodes
  imports Rollback Explorer_Termination Conformance
begin

text \<open>
  The graphs the search visits. A node is well-formed, follows the program and fits the bounds of its depth;
  a sound node is consistent as well. Every operation by which the explorer makes a child out of a sound
  node succeeds and gives a node: adding the scheduled event, adding a receive with a source, copying,
  rolling back, taking a block event away.
\<close>

definition search_ok :: "'v Search \<Rightarrow> bool" where
  "search_ok S \<longleftrightarrow> safe_program (s_program S) \<and> set (s_threads S) = tm_assigned (threads (s_program S))
     \<and> (\<forall>t\<in>set (s_threads S). t \<le> kMaxThreadId) \<and> s_max_depth S \<le> 2 ^ 32"

definition node :: "'v Search \<Rightarrow> nat \<Rightarrow> 'v ExplorationGraph \<Rightarrow> bool" where
  "node S d x \<longleftrightarrow> wf_xg x \<and> cache_ok x \<and> logs_ok x \<and> follows (s_program S) (xg_events x) (xg_rf x)
     \<and> (\<forall>e\<in>set (xg_events x). \<not> is_error e) \<and> length (xg_events x) \<le> d
     \<and> (s_max_thread_events S \<noteq> 0 \<longrightarrow> (\<forall>t. length (thread_ids (xg_events x) t) \<le> s_max_thread_events S))"

abbreviation consistent_graph :: "'v Search \<Rightarrow> 'v ExplorationGraph \<Rightarrow> bool" where
  "consistent_graph S x \<equiv> consistent (s_model S) no_missing_reads_tolerance (xg_events x) (xg_rf x)"

definition sound :: "'v Search \<Rightarrow> nat \<Rightarrow> 'v ExplorationGraph \<Rightarrow> bool" where
  "sound S d x \<longleftrightarrow> node S d x \<and> consistent_graph S x"

text \<open>Thread \<open>t\<close> may go on with what label \<open>l\<close> offers.\<close>

definition schedulable :: "'v Search \<Rightarrow> 'v ExplorationGraph \<Rightarrow> ThreadId \<Rightarrow> 'v EventLabel \<Rightarrow> bool" where
  "schedulable S x t l \<longleftrightarrow> t \<in> set (s_threads S) \<and> \<not> terminated (xg_events x) t \<and> \<not> capped (s_max_thread_events S) (xg_events x) t
     \<and> offer (s_program S) x t = Some l"

lemma search_okD:
  assumes "search_ok S"
  shows "safe_program (s_program S)" "t \<in> set (s_threads S) \<longleftrightarrow> tm_contains (threads (s_program S)) t"
    "t \<in> set (s_threads S) \<Longrightarrow> t \<le> kMaxThreadId" "s_max_depth S \<le> 2 ^ 32"
  using assms by (auto simp: search_ok_def tm_assigned_def)

lemma nodeD:
  assumes "node S d x"
  shows "wf_xg x" "wf_core x" "flags_ok x" "cache_ok x" "logs_ok x" "follows (s_program S) (xg_events x) (xg_rf x)"
    "rf_valid (xg_events x) (xg_rf x)" "length (xg_events x) \<le> d"
  using assms by (auto simp: node_def wf_xg_def wf_core_def)

lemma node_well_kept: "search_ok S \<Longrightarrow> node S d x \<Longrightarrow> well_kept x"
  using follows_total_matchers search_okD(1) by (fastforce simp: node_def well_kept_def)

lemma sound_good: "search_ok S \<Longrightarrow> sound S d x \<Longrightarrow> good (s_model S) x"
  using node_well_kept by (auto simp: sound_def good_def)

lemma empty_node: "node S 0 empty_xg" "consistent_graph S empty_xg"
proof -
  have e: "xg_events (empty_xg :: 'a ExplorationGraph) = []" "xg_rf (empty_xg :: 'a ExplorationGraph) = Map.empty" by simp_all
  have "cache_ok (empty_xg :: 'a ExplorationGraph)" "logs_ok (empty_xg :: 'a ExplorationGraph)"
    by (simp_all add: cache_ok_def logs_ok_def event_log_ok_def rf_log_ok_def empty_xg_def)
  then show "node S 0 empty_xg" using wf_empty_xg by (simp add: node_def follows_def e)
  show "consistent_graph S empty_xg"
    by (simp add: e consistent_def async_consistent_def reads_ok_def rf_valid_def fifo_ok_def causal_def acyclic_def)
qed

text \<open>Graphs that differ in flags and caches only.\<close>

definition alike :: "'v ExplorationGraph \<Rightarrow> 'v ExplorationGraph \<Rightarrow> bool" where
  "alike x y \<longleftrightarrow> xg_events y = xg_events x \<and> xg_rf y = xg_rf x \<and> event_undo_log y = event_undo_log x
     \<and> rf_undo_log y = rf_undo_log x \<and> wf_xg y \<and> cache_ok y"

lemma alike_logs: "alike x y \<Longrightarrow> logs_ok x \<Longrightarrow> logs_ok y"
  by (simp add: alike_def logs_ok_def event_log_ok_def rf_log_ok_def)

lemma alike_node: "alike x y \<Longrightarrow> node S d x \<Longrightarrow> node S d y" "alike x y \<Longrightarrow> sound S d x \<Longrightarrow> sound S d y"
  using alike_logs by (auto simp: node_def sound_def alike_def)

lemma alike_grown: "alike x y \<Longrightarrow> grown b x \<Longrightarrow> grown b y"
  using alike_logs [of x y] by (auto simp: grown_def alike_def wf_xg_def)

lemma alike_schedulable: "alike x y \<Longrightarrow> schedulable S y t l = schedulable S x t l"
  by (simp add: schedulable_def alike_def offer_def)

lemma grown_refl: "node S d x \<Longrightarrow> grown x x"
  by (simp add: grown_def nodeD)

lemma checked_alike:
  assumes "checked x y" "wf_xg y" "cache_ok y"
  shows "alike x y"
  using assms by (auto simp: alike_def checked_def mark_known_acyclic_def)

lemma rollback_alike:
  assumes "node S d b" "grown b x" "rollback (checkpoint b) x = Inr y"
  shows "alike b y" "checkpoint y = checkpoint b"
proof -
  from rollback_grown [OF nodeD(2) [OF assms(1)] assms(2)] assms(3) have y: "wf_core y" "same_graph b y" by auto
  have "porf_cache y = None" using assms(3) by (auto simp: rollback_def split: if_splits)
  with y same_graph_flags [OF y(2) nodeD(3) [OF assms(1)]] show "alike b y"
    by (auto simp: alike_def same_graph_def wf_xg_def cache_ok_def)
  show "checkpoint y = checkpoint b" using y(2) by (simp add: same_graph_def checkpoint_def)
qed

section \<open>Consistency tests\<close>

lemma check_consistency_node:
  assumes "search_ok S" "node S d x"
  shows "\<exists>res y. check_consistency (s_model S) x = Inr (res, y) \<and> alike x y \<and> (is_consistent res \<longleftrightarrow> consistent_graph S x)"
proof -
  have t: "total_matchers (xg_events x)" using node_well_kept [OF assms] by (simp add: well_kept_def)
  obtain res where res: "check_execution_graph (s_model S) no_missing_reads_tolerance (graph x) = Inr res"
    "is_consistent res \<longleftrightarrow> consistent_graph S x"
    using check_execution_graph_correct [OF wf_coreD(1) [OF nodeD(2) [OF assms(2)]] t] by blast
  with check_exploration_graph_eq(1) [OF nodeD(1,4) [OF assms(2)], of "s_model S" no_missing_reads_tolerance] obtain y where
    y: "check_exploration_graph (s_model S) no_missing_reads_tolerance x = Inr (res, y)"
    by (cases "check_exploration_graph (s_model S) no_missing_reads_tolerance x") auto
  from check_exploration_graph_eq(2) [OF nodeD(1,4) [OF assms(2)] y] have "alike x y" by (blast intro: checked_alike)
  with res y show ?thesis by (auto simp: check_consistency_def consistency_checker_exploration_def)
qed

section \<open>Adding the scheduled event\<close>

lemma node_add:
  assumes S: "search_ok S" and x: "node S d x" "d < s_max_depth S" and t: "schedulable S x t l" "instance_of l lab"
  shows "\<exists>z e. add_event t lab x = Inr (length (xg_events x), z) \<and> grown x z \<and> follows (s_program S) (xg_events z) (xg_rf z)
    \<and> xg_events z = xg_events x @ [e] \<and> thread e = t \<and> label e = lab \<and> xg_rf z = xg_rf x \<and> wf_xg z
    \<and> ((\<forall>m. lab \<noteq> Error m) \<longrightarrow> node S (Suc d) z)"
proof -
  let ?e = "\<lparr>thread = t, index = next_of (xg_events x) t, label = lab\<rparr>"
  have th: "t \<in> set (s_threads S)" "tm_contains (threads (s_program S)) t" "t \<le> kMaxThreadId"
    using t(1) search_okD [OF S] by (auto simp: schedulable_def)
  have "length (thread_ids (xg_events x) t) \<le> length (xg_events x)"
    unfolding thread_ids_def by (metis length_filter_le diff_zero length_upt)
  with nodeD(8) [OF x(1)] x(2) search_okD(4) [OF S] have room: "length (thread_ids (xg_events x) t) < 2 ^ 32" by linarith
  from add_event_wf [OF nodeD(1) [OF x(1)] th(3) room, of lab] obtain z where
    z: "add_event t lab x = Inr (length (xg_events x), z)" "wf_xg z" "xg_rf z = xg_rf x" "xg_events z = xg_events x @ [?e]" by blast
  from add_event_core [OF nodeD(2) [OF x(1)] th(3) room, of lab] z(1) have "porf_cache z = None" by auto
  then have cache: "cache_ok z" by (simp add: cache_ok_def)
  have g: "grown x z" using grown_add [OF grown_refl [OF x(1)] z(1)] .
  have f: "follows (s_program S) (xg_events z) (xg_rf z)"
    using follows_append [OF nodeD(6,7) [OF x(1)], of ?e l] t th by (simp add: z schedulable_def offer_def)
  have "node S (Suc d) z" if "\<forall>m. lab \<noteq> Error m"
  proof -
    have "\<not> is_error ?e" using that by (simp add: is_error_def split: EventLabel.splits)
    then show ?thesis
      using x(1) t(1) z(2) cache g f
      by (auto simp: node_def z(4) grown_def schedulable_def capped_def thread_ids_append not_le)
  qed
  with z g f show ?thesis by auto
qed

lemma sound_add:
  assumes "search_ok S" "sound S d x" "d < s_max_depth S" "schedulable S x t l" "instance_of l lab" "\<forall>rl. lab \<noteq> Receive rl"
    "add_event t lab x = Inr (i, z)"
  shows "i = length (xg_events x)" "grown x z" "consistent_graph S z" "follows (s_program S) (xg_events z) (xg_rf z)"
    "\<exists>e. xg_events z = xg_events x @ [e] \<and> thread e = t \<and> label e = lab" "wf_xg z"
    "\<forall>m. lab \<noteq> Error m \<Longrightarrow> sound S (Suc d) z"
proof -
  have n: "node S d x" using assms(2) by (simp add: sound_def)
  obtain z' e where z': "add_event t lab x = Inr (length (xg_events x), z')" and e': "grown x z'"
      "follows (s_program S) (xg_events z') (xg_rf z')" "wf_xg z'" "xg_events z' = xg_events x @ [e]" "thread e = t"
      "label e = lab" "xg_rf z' = xg_rf x" "(\<forall>m. lab \<noteq> Error m) \<longrightarrow> node S (Suc d) z'"
    using node_add [OF assms(1) n assms(3-5)] by blast
  from z' assms(7) have iz: "i = length (xg_events x)" "z' = z" by simp_all
  note e = iz(1) e' [unfolded iz(2)]
  have "\<not> is_receive e" using assms(6) e(7) by (simp add: is_receive_def split: EventLabel.splits)
  with consistent_append [of "s_model S" no_missing_reads_tolerance "xg_events x" "xg_rf x" e] assms(2) e(5,8)
  show c: "consistent_graph S z" by (simp add: sound_def)
  from e show "i = length (xg_events x)" "grown x z" "follows (s_program S) (xg_events z) (xg_rf z)"
    "\<exists>e. xg_events z = xg_events x @ [e] \<and> thread e = t \<and> label e = lab" "wf_xg z" by auto
  from e c show "\<forall>m. lab \<noteq> Error m \<Longrightarrow> sound S (Suc d) z" by (simp add: sound_def)
qed

lemma node_add_receive:
  assumes S: "search_ok S" and x: "node S d x" "d < s_max_depth S" and t: "schedulable S x t (Receive rl)"
    and s: "source_ok (xg_events x) (Some s)"
  shows "\<exists>z. add_receive t (Receive rl) s x = Inr z \<and> node S (Suc d) z \<and> grown x z"
proof -
  have "instance_of (Receive rl) (Receive rl)" by (simp add: instance_of_def)
  from node_add [OF S x t this] obtain y e where
    y: "add_event t (Receive rl) x = Inr (length (xg_events x), y)" "grown x y" "node S (Suc d) y"
      "xg_events y = xg_events x @ [e]" "thread e = t" "label e = Receive rl" by auto
  let ?r = "length (xg_events x)"
  have r: "?r < length (xg_events y)" "is_receive (xg_events y ! ?r)" using y by (simp_all add: is_receive_def)
  have s': "source_ok (xg_events y) (Some s)" using s y(4) by (auto simp: source_ok_def nth_append)
  from set_reads_from_source_wf [OF nodeD(1) [OF y(3)] r s'] obtain z where
    z: "set_reads_from_source ?r s y = Inr z" "wf_xg z" "xg_events z = xg_events y" "xg_rf z = (xg_rf y)(?r \<mapsto> s)" by blast
  have "porf_cache z = None" by (rule set_reads_from_source_cache [OF z(1)])
  then have "cache_ok z" by (simp add: cache_ok_def)
  moreover have gz: "grown x z"
    using grown_set [OF y(2) _ s' z(1)] r by (simp add: is_receive_id_def is_valid_event_id_def)
  moreover have "follows (s_program S) (xg_events y) ((xg_rf y)(?r \<mapsto> s))"
    by (rule follows_read_last [OF nodeD(6) [OF y(3)]]) (auto simp: y(4))
  ultimately have "node S (Suc d) z" using y(3) z by (auto simp: node_def grown_def)
  with y(1) z(1) gz show ?thesis by (simp add: add_receive_def)
qed

lemma node_copy:
  assumes "node S d x"
  shows "node S d (copy_graph x)" "schedulable S (copy_graph x) t l = schedulable S x t l" "xg_events (copy_graph x) = xg_events x"
    "xg_rf (copy_graph x) = xg_rf x"
proof -
  have c: "xg_events (copy_graph x) = xg_events x" "xg_rf (copy_graph x) = xg_rf x"
    "wf_core (copy_graph x) = wf_core x" "flags_ok (copy_graph x) = flags_ok x" "cache_ok (copy_graph x) = cache_ok x"
    "logs_ok (copy_graph x)"
    using cache_correct_cong [of "copy_graph x" x]
    by (simp_all add: copy_graph_def clear_worker_local_history_def flags_ok_def cache_ok_def logs_ok_def event_log_ok_def
        rf_log_ok_def)
  then show "node S d (copy_graph x)" "xg_events (copy_graph x) = xg_events x" "xg_rf (copy_graph x) = xg_rf x" using assms by (auto simp: node_def wf_xg_def)
  show "schedulable S (copy_graph x) t l = schedulable S x t l" using c by (simp add: schedulable_def offer_def)
qed


section \<open>Taking a block event away\<close>

lemma sorted_le_last: "sorted_wrt (<) xs \<Longrightarrow> r \<in> set xs \<Longrightarrow> r \<le> last xs" for r :: nat
  by (induction xs rule: rev_induct) (auto simp: sorted_wrt_append)

lemma map_last: "xs \<noteq> [] \<Longrightarrow> map f xs = map f (take (length xs - 1) xs) @ [f (last xs)]"
  by (induction xs rule: rev_induct) auto

definition blocked_at :: "'v ExplorationGraph \<Rightarrow> ThreadId \<Rightarrow> bool" where
  "blocked_at x t \<longleftrightarrow> (\<exists>e. last_event (xg_events x) t = Some e \<and> is_block e)"

text \<open>The receive a blocked thread waits at.\<close>

definition awaits :: "'v Program \<Rightarrow> 'v ExplorationGraph \<Rightarrow> ThreadId \<Rightarrow> 'v ReceiveLabel \<Rightarrow> bool" where
  "awaits P x t rl \<longleftrightarrow> is_blocking rl
     \<and> offered P t (trace_of (xg_events x) (xg_rf x) t) (length (thread_ids (xg_events x) t) - 1) = Some (Receive rl)"

lemma blocked_awaits:
  assumes "search_ok S" "node S d x" "blocked_at x t"
  obtains rl where "awaits (s_program S) x t rl" "tm_contains (threads (s_program S)) t"
proof -
  let ?T = "thread_ids (xg_events x) t" and ?m = "xg_rf x"
  from assms(3) have T: "?T \<noteq> []" and b: "is_block (xg_events x ! last ?T)"
    by (auto simp: blocked_at_def last_event_def split: if_splits)
  let ?k = "length ?T - 1"
  have k: "?k < length ?T" "?T ! ?k = last ?T" using T by (simp_all add: last_conv_nth)
  from nodeD(6) [OF assms(2)] k obtain l where l: "tm_contains (threads (s_program S)) t"
    "offered (s_program S) t (trace_upto (xg_events x) ?m t ?k) ?k = Some l" "instance_of l (label (xg_events x ! last ?T))"
    unfolding follows_def by metis
  have "label (xg_events x ! last ?T) = Block" using b by (simp add: is_block_def split: EventLabel.splits)
  with l(3) have "l = Block \<or> (\<exists>rl. l = Receive rl \<and> is_blocking rl)" by (simp add: instance_of_Block)
  moreover have "l \<noteq> Block" using offered_safe(1) [OF search_okD(1) [OF assms(1)]] l(2) by metis
  moreover have "trace_of (xg_events x) ?m t = trace_upto (xg_events x) ?m t ?k"
  proof -
    have "observed (xg_events x) ?m (last ?T) = []"
      using b by (simp add: observed_def is_block_def is_receive_def as_nondeterministic_choice_def split: EventLabel.splits)
    with map_last [OF T, of "observed (xg_events x) ?m"] show ?thesis by (simp add: trace_of_def trace_upto_def)
  qed
  ultimately show thesis using that l(1,2) unfolding awaits_def by auto
qed

lemma awaits_blocked_receive:
  assumes "search_ok S" "node S d x" "awaits (s_program S) x t rl"
  shows "blocked_receive (s_program S) x t = Inr rl" "total_matcher rl"
proof -
  from assms(3) have r: "offered (s_program S) t (trace_of (xg_events x) (xg_rf x) t) (length (thread_ids (xg_events x) t) - 1) = Some (Receive rl)"
    by (simp add: awaits_def)
  from offered_reply [OF this] obtain f where "tm_at (threads (s_program S)) t = Inr f"
    "f (trace_of (xg_events x) (xg_rf x) t) (length (thread_ids (xg_events x) t) - 1) = Inr (Some (Receive rl))"
    by (cases "tm_at (threads (s_program S)) t") (auto simp: reply_def)
  then have "call_thread (s_program S) x t (thread_event_count x t - 1) = Inr (Some (Receive rl))"
    using nodeD(2) [OF assms(2)] by (simp add: call_thread_def thread_trace_def thread_trace_into_eq thread_event_count_eq)
  moreover have "\<not> is_nonblocking rl" using assms(3) by (simp add: awaits_def is_blocking_def is_nonblocking_def)
  ultimately show "blocked_receive (s_program S) x t = Inr rl" by (simp add: blocked_receive_def)
  show "total_matcher rl" by (rule offered_safe(2) [OF search_okD(1) [OF assms(1)] r])
qed

lemma drop_mask_keeps: "keeps ((replicate n True)[i := False]) r \<longleftrightarrow> r < n \<and> r \<noteq> i"
  by (auto simp: keeps_def nth_list_update)

text \<open>A restriction has no more events, in no thread, and no new kinds of them.\<close>

lemma restricts_bounds:
  assumes y: "restricts keep_mask x y" and m: "length keep_mask = length (xg_events x)" and n: "node S d x"
  shows "length (xg_events y) \<le> d" "\<forall>e\<in>set (xg_events y). \<not> is_error e"
    "s_max_thread_events S \<noteq> 0 \<longrightarrow> (\<forall>t. length (thread_ids (xg_events y) t) \<le> s_max_thread_events S)"
proof -
  show "length (xg_events y) \<le> d"
    using restricts_events(1) [OF y] m nodeD(8) [OF n] length_filter_le [of "\<lambda>i. keep_mask ! i" "[0..<length keep_mask]"]
    by (simp add: kept_ids_def)
  have th: "length (thread_ids (xg_events y) t) \<le> length (thread_ids (xg_events x) t)" for t
    using filter_kept [OF y m, of t] length_filter_le [of "keeps keep_mask" "thread_ids (xg_events x) t"] by (metis length_map)
  with n show "s_max_thread_events S \<noteq> 0 \<longrightarrow> (\<forall>t. length (thread_ids (xg_events y) t) \<le> s_max_thread_events S)"
    using order_trans [OF th] by (auto simp: node_def)
  show "\<forall>e\<in>set (xg_events y). \<not> is_error e"
  proof
    fix e assume "e \<in> set (xg_events y)"
    then obtain j where j: "j < length (kept_ids keep_mask)" "e = xg_events y ! j"
      using restricts_events(1) [OF y] by (auto simp: in_set_conv_nth)
    then have "kept_ids keep_mask ! j < length (xg_events x)" using keeps_kept [OF j(1)] m by (simp add: keeps_def)
    with n have "\<not> is_error (xg_events x ! (kept_ids keep_mask ! j))" by (auto simp: node_def)
    then show "\<not> is_error e" using restricts_events(3) [OF y j(1)] j(2) by (simp add: is_error_def)
  qed
qed

lemma empty_logs: "event_undo_log x = [] \<Longrightarrow> rf_undo_log x = [] \<Longrightarrow> logs_ok x"
  by (simp add: logs_ok_def event_log_ok_def rf_log_ok_def)

lemma restrict_node:
  assumes S: "search_ok S" and x: "sound S d x" and m: "length keep_mask = length (xg_events x)"
    and p: "prefix_mask keep_mask (xg_events x)"
    and src: "\<And>r k. keeps keep_mask r \<Longrightarrow> xg_rf x r = Some (from_send k) \<Longrightarrow> keeps keep_mask k"
  shows "\<exists>y. restrict_from_keep_mask keep_mask x = Inr y \<and> sound S d y"
proof -
  have n: "node S d x" using x by (simp add: sound_def)
  obtain y where y: "restrict_from_keep_mask keep_mask x = Inr y" "wf_xg y" "restricts keep_mask x y"
    "event_undo_log y = []" "rf_undo_log y = []"
    using restrict_from_keep_mask_wf [OF nodeD(1) [OF n] m] by blast
  have wc: "wf_core y" using y(2) by (simp add: wf_xg_def)
  have f: "follows (s_program S) (xg_events y) (xg_rf y)"
    by (rule follows_restrict [OF nodeD(6) [OF n] y(3) m nodeD(2) [OF n] p]) (use src in blast)
  have c: "consistent_graph S y"
    by (rule consistent_restrict [OF y(3) m nodeD(2) [OF n] wc _ p src]) (use x in \<open>simp_all add: sound_def\<close>)
  have "cache_ok y" "logs_ok y" using restrict_cache [OF y(1)] empty_logs [OF y(4,5)] by (simp_all add: cache_ok_def)
  then have "node S d y" using y(2) f restricts_bounds [OF y(3) m n] by (simp add: node_def)
  with y(1) c show ?thesis by (auto simp: sound_def)
qed

lemma reschedule_candidate_node:
  assumes S: "search_ok S" and x: "sound S d x"
  shows "\<not> blocked_at x t \<Longrightarrow> reschedule_candidate (s_program S) x t = Inr None"
    "blocked_at x t \<Longrightarrow> awaits (s_program S) x t rl \<Longrightarrow> tm_contains (threads (s_program S)) t \<Longrightarrow>
       (if readable x t rl then \<exists>y. reschedule_candidate (s_program S) x t = Inr (Some y) \<and> sound S d y
        else reschedule_candidate (s_program S) x t = Inr None)"
proof -
  have n: "node S d x" using x by (simp add: sound_def)
  let ?T = "thread_ids (xg_events x) t"
  note le = last_event_id_eq [OF nodeD(2) [OF n], of t]
  have last: "last ?T < length (xg_events x)" "thread (xg_events x ! last ?T) = t" if "?T \<noteq> []"
    using last_thread_id [OF that] by auto
  show "reschedule_candidate (s_program S) x t = Inr None" if "\<not> blocked_at x t"
    using that last by (auto simp: reschedule_candidate_def le blocked_at_def last_event_def xg_event_eq)
  assume b: "blocked_at x t" and a: "awaits (s_program S) x t rl" "tm_contains (threads (s_program S)) t"
  then have T: "?T \<noteq> []" and blk: "is_block (xg_events x ! last ?T)"
    by (auto simp: blocked_at_def last_event_def split: if_splits)
  note br = awaits_blocked_receive [OF S n a(1)]
  let ?M = "(replicate (length (xg_events x)) True)[last ?T := False]"
  have eq: "reschedule_candidate (s_program S) x t =
      (if readable x t rl then map_result Some (restrict_from_keep_mask ?M x) else Inr None)"
    using T blk last [OF T] br compatible_unread_eq(2) [OF nodeD(2) [OF n] br(2), of t]
    by (simp add: reschedule_candidate_def le xg_event_eq readable_def xg_event_count_def)
  have "prefix_mask ?M (xg_events x)"
    unfolding prefix_mask_def drop_mask_keeps
  proof (intro allI impI)
    fix r r' assume r: "r < length (xg_events x) \<and> r \<noteq> last ?T" "r' < r" "thread (xg_events x ! r') = thread (xg_events x ! r)"
    have False if "r' = last ?T"
    proof -
      have "r \<in> set ?T" using r last(2) [OF T] that by (simp add: set_thread_ids)
      then have "r \<le> last ?T" by (rule sorted_le_last [OF sorted_thread_ids])
      with r(2) that show False by simp
    qed
    with r show "r' < length (xg_events x) \<and> r' \<noteq> last ?T" by auto
  qed
  moreover have "keeps ?M k" if "xg_rf x r = Some (from_send k)" for r k
  proof -
    have "k < length (xg_events x)" "is_send (xg_events x ! k)" using nodeD(7) [OF n] that by (auto simp: rf_valid_def)
    moreover have "\<not> is_send (xg_events x ! last ?T)" using blk by (simp add: is_block_def is_send_def split: EventLabel.splits)
    ultimately show ?thesis by (auto simp: drop_mask_keeps)
  qed
  ultimately obtain y where "restrict_from_keep_mask ?M x = Inr y" "sound S d y"
    using restrict_node [OF S x, of ?M] by auto
  with eq show "if readable x t rl then \<exists>y. reschedule_candidate (s_program S) x t = Inr (Some y) \<and> sound S d y
        else reschedule_candidate (s_program S) x t = Inr None" by auto
qed

section \<open>The next event of a node\<close>

lemma next_event_node:
  assumes S: "search_ok S" and x: "sound S d x"
  shows "\<exists>nxt. compute_next_event (s_program S) x (s_threads S) (s_max_thread_events S) = Inr nxt \<and>
    (case next_event nxt of
       None \<Rightarrow> (\<forall>t\<in>set (s_threads S). idle (s_program S) x (s_max_thread_events S) t)
         \<and> suppressed_by_thread_event_limit nxt = (\<exists>u\<in>set (s_threads S).
              capped (s_max_thread_events S) (xg_events x) u \<and> \<not> terminated (xg_events x) u)
     | Some (t, lab) \<Rightarrow> \<exists>l. schedulable S x t l \<and> lab = scheduled x t l \<and> \<not> blocked_at x t)"
proof -
  let ?idle = "idle (s_program S) x (s_max_thread_events S)"
  have n: "node S d x" using x by (simp add: sound_def)
  have "\<forall>t\<in>set (s_threads S). terminated (xg_events x) t \<or> answers (s_program S) x t"
    using safe_answers [OF search_okD(1) [OF S] nodeD(6) [OF n], of "s_model S"] search_okD(2) [OF S] x by (auto simp: sound_def node_def)
  note eq = compute_next_event_eq [OF nodeD(2) [OF n] this, of "s_max_thread_events S" False]
  show ?thesis
  proof (cases "find (\<lambda>t. \<not> ?idle t) (s_threads S)")
    case None
    then have "\<forall>t\<in>set (s_threads S). ?idle t" by (auto simp: find_None_iff)
    with None eq show ?thesis by (simp add: compute_next_event_def)
  next
    case (Some t)
    then have t: "t \<in> set (s_threads S)" "\<not> ?idle t" by (auto simp: find_Some_iff)
    then obtain l where "schedulable S x t l" "offer (s_program S) x t = Some l"
      by (auto simp: idle_def schedulable_def)
    moreover have "\<not> blocked_at x t" using t(2) by (auto simp: idle_def terminated_def blocked_at_def)
    ultimately show ?thesis using eq Some by (auto simp: compute_next_event_def)
  qed
qed

lemma schedulable_scheduled:
  assumes "search_ok S" "schedulable S x t l"
  shows "instance_of (scheduled x t l) (scheduled x t l) \<Longrightarrow> instance_of l (scheduled x t l)"
    "scheduled x t l = Receive rl \<Longrightarrow> l = Receive rl \<and> total_matcher rl" "scheduled x t l = Send sl \<Longrightarrow> l = Send sl"
    "scheduled x t l = NondeterministicChoice nd \<Longrightarrow> l = NondeterministicChoice nd"
    "scheduled x t l = Error m \<Longrightarrow> l = Error m" "scheduled x t l = Block \<Longrightarrow> instance_of l Block"
proof -
  have "l \<noteq> Block" "\<And>rl. l = Receive rl \<Longrightarrow> total_matcher rl"
    using assms(2) offered_safe [OF search_okD(1) [OF assms(1)]]
    by (auto simp: schedulable_def offer_def)
  then show "instance_of (scheduled x t l) (scheduled x t l) \<Longrightarrow> instance_of l (scheduled x t l)"
    "scheduled x t l = Receive rl \<Longrightarrow> l = Receive rl \<and> total_matcher rl" "scheduled x t l = Send sl \<Longrightarrow> l = Send sl"
    "scheduled x t l = NondeterministicChoice nd \<Longrightarrow> l = NondeterministicChoice nd"
    "scheduled x t l = Error m \<Longrightarrow> l = Error m" "scheduled x t l = Block \<Longrightarrow> instance_of l Block"
    by (auto simp: scheduled_def instance_of_def split: EventLabel.splits if_splits)
qed

section \<open>Revisit children\<close>

lemma revisit_node:
  assumes S: "search_ok S" and x: "sound S d x" and r: "r < length (xg_events x)" "is_receive (xg_events x ! r)"
    and i: "i < length (xg_events x)" "is_send (xg_events x ! i)" and ok: "revisitable (s_model S) x i r"
    and y: "well_kept y" "revisit_of x i r y"
  shows "node S d y"
proof -
  have n: "node S d x" using x by (simp add: sound_def)
  let ?M = "revisit_mask x r i"
  from y(2) obtain x' where x': "restricts ?M x x'" "xg_events y = xg_events x'" and logs: "event_undo_log y = []" "rf_undo_log y = []"
    by (auto simp: revisit_of_def)
  have "follows (s_program S) (xg_events y) (xg_rf y)"
    by (rule revisit_follows [OF sound_good [OF S x] nodeD(6) [OF n] r i ok y(2)])
  moreover have "length ?M = length (xg_events x)" by (simp add: revisit_mask_def)
  note restricts_bounds [OF x'(1) this n]
  ultimately show ?thesis using y(1) empty_logs [OF logs] x'(2) by (simp add: node_def well_kept_def)
qed

end
