(* ===== verification/Sequential.thy ===== *)
theory Sequential
  imports Explorer_Termination
begin

text \<open>
  The sequential executor meets the executor interface: whatever relation between the result and the state of the user
  is kept by publishing and by every other call of user code holds when a verification returns. Instances are
  the properties of the user's state that the observers keep, the bound on the thread depth, and the tally of the
  published executions in the counters of the result.
\<close>

definition observers_keep ::
    "('v, 'u) DporConfig \<Rightarrow> ('u \<Rightarrow> int \<times> 'u) \<Rightarrow> ('v publication \<Rightarrow> bool) \<Rightarrow> ('u \<Rightarrow> bool) \<Rightarrow> bool" where
  "observers_keep config clock ok U \<longleftrightarrow> (\<forall>u. U u \<longrightarrow> U (snd (clock u)))
     \<and> (\<forall>h x k d u. on_terminal_execution config = Some h \<or> on_execution config = Some h \<longrightarrow> ok (x, k, d) \<longrightarrow> U u \<longrightarrow>
          U (snd (h \<lparr>execution_graph = x, execution_kind = k\<rparr> u)))
     \<and> (\<forall>h snapshot u. on_progress config = Some h \<longrightarrow> U u \<longrightarrow> U (snd (h snapshot u)))
     \<and> (\<forall>h c u. on_fatal_error config = Some h \<longrightarrow> U u \<longrightarrow> U (snd (h c u)))"

text \<open>A relation of result and user state that every call of user code keeps; publishing counts first and then calls.\<close>

definition outcome_kept ::
    "('v, 'u) DporConfig \<Rightarrow> ('u \<Rightarrow> int \<times> 'u) \<Rightarrow> ('v publication \<Rightarrow> bool) \<Rightarrow> (VerifyResult \<Rightarrow> 'u \<Rightarrow> bool) \<Rightarrow> bool" where
  "outcome_kept config clock ok K \<longleftrightarrow> (\<forall>r u. K r u \<longrightarrow> K r (snd (clock u)))
     \<and> (\<forall>x k d r u stop. ok (x, k, d) \<longrightarrow> K r u \<longrightarrow>
          K ((increment_terminal_counts k d r)\<lparr>result_kind := stop\<rparr>) (snd (notify_terminal_execution config x k u)))
     \<and> (\<forall>h snapshot r u. on_progress config = Some h \<longrightarrow> K r u \<longrightarrow> K r (snd (h snapshot u)))
     \<and> (\<forall>h c r u. on_fatal_error config = Some h \<longrightarrow> K r u \<longrightarrow> K r (snd (h c u)))"

definition seq_good ::
    "('v, 'u) DporConfig \<Rightarrow> ('u \<Rightarrow> int \<times> 'u) \<Rightarrow> ('v publication \<Rightarrow> bool) \<Rightarrow> (VerifyResult \<Rightarrow> 'u \<Rightarrow> bool) \<Rightarrow> 'u SequentialState \<Rightarrow> bool" where
  "seq_good config clock ok K s \<longleftrightarrow> (outcome_kept config clock ok K \<longrightarrow> K (result s) (user s))"

text \<open>The exceptions that the observers of a configuration may throw, as the engine tags them.\<close>

definition tagged :: "UserCallbackKind \<Rightarrow> exn \<Rightarrow> exn \<Rightarrow> bool" where
  "tagged kind e0 e \<longleftrightarrow> invoke_user_code kind None (Inl e0 :: unit result) = Inl e"

definition observer_raises :: "('v, 'u) DporConfig \<Rightarrow> exn \<Rightarrow> bool" where
  "observer_raises config e \<longleftrightarrow>
     (\<exists>h ex u e0. (on_terminal_execution config = Some h \<or> on_execution config = Some h)
        \<and> fst (h ex u) = Inl e0 \<and> tagged TerminalObserver e0 e)
     \<or> (\<exists>h snapshot u e0. on_progress config = Some h \<and> fst (h snapshot u) = Inl e0 \<and> tagged ProgressObserver e0 e)"

lemma invoke_user_action_Inl:
  assumes "invoke_user_action kind None m u = (Inl e, u')"
  shows "\<exists>e0. fst (m u) = Inl e0 \<and> tagged kind e0 e" "u' = snd (m u)"
  using assms by (auto simp: invoke_user_action_def tagged_def invoke_user_code_def split: prod.splits sum.splits exn.splits)

lemma invoke_user_action_snd: "snd (invoke_user_action kind tid m u) = snd (m u)"
  by (simp add: invoke_user_action_def split: prod.splits)

lemma notify_terminal_cases:
  obtains h where "on_terminal_execution config = Some h \<or> on_execution config = Some h"
    "notify_terminal_execution config x kind =
       invoke_user_action TerminalObserver None (h \<lparr>execution_graph = x, execution_kind = kind\<rparr>)"
  | "notify_terminal_execution config x kind = return_action Continue"
  by (cases "on_terminal_execution config"; cases "on_execution config")
    (auto simp: notify_terminal_execution_def observe_def Let_def)

lemma notify_terminal_keeps:
  assumes "notify_terminal_execution config x kind u = (r, u')" "ok (x, kind, d)"
  shows "observers_keep config clock ok U \<Longrightarrow> U u \<Longrightarrow> U u'" "r = Inl e \<Longrightarrow> observer_raises config e"
proof -
  show "U u'" if keep: "observers_keep config clock ok U" "U u"
  proof (cases rule: notify_terminal_cases [of config x kind])
    case (1 h)
    then have "u' = snd (h \<lparr>execution_graph = x, execution_kind = kind\<rparr> u)"
      using assms(1) invoke_user_action_snd by (metis snd_conv)
    with 1 keep assms(2) show ?thesis unfolding observers_keep_def by blast
  next
    case 2
    with assms(1) keep show ?thesis by (simp add: return_action_def)
  qed
  show "observer_raises config e" if "r = Inl e"
  proof (cases rule: notify_terminal_cases [of config x kind])
    case (1 h)
    then show ?thesis
      using assms(1) that invoke_user_action_Inl(1) unfolding observer_raises_def by metis
  next
    case 2
    with assms(1) that show ?thesis by (simp add: return_action_def)
  qed
qed

lemma notify_progress_keeps:
  assumes "notify_progress config snapshot u = (r, u')"
  shows "observers_keep config clock ok U \<Longrightarrow> U u \<Longrightarrow> U u'" "r = Inl e \<Longrightarrow> observer_raises config e"
proof -
  show "U u'" if "observers_keep config clock ok U" "U u"
    using assms that
    by (auto simp: notify_progress_def return_action_def observers_keep_def invoke_user_action_def split: option.splits prod.splits)
      (metis snd_conv)
  show "observer_raises config e" if r: "r = Inl e"
  proof (cases "on_progress config")
    case None
    with assms r show ?thesis by (simp add: notify_progress_def return_action_def)
  next
    case (Some h)
    with assms r have "invoke_user_action ProgressObserver None (h snapshot) u = (Inl e, u')" by (simp add: notify_progress_def)
    from invoke_user_action_Inl(1) [OF this] Some show ?thesis unfolding observer_raises_def by blast
  qed
qed

section \<open>The executor interface\<close>

lemma seq_publish_cases:
  assumes "seq_publish_terminal_execution config x kind d s = (r, s')"
  shows "\<exists>act stop. notify_terminal_execution config x kind (user s) = (act, user s') \<and> (\<forall>e. r = Inl e \<longrightarrow> act = Inl e)
    \<and> result s' = (increment_terminal_counts kind d (result s))\<lparr>result_kind := stop\<rparr>"
  using assms
  by (auto simp: seq_publish_terminal_execution_def bind_action_def on_user_def request_stop_def
      split: prod.splits sum.splits if_splits)
    (metis VerifyResult.surjective VerifyResult.update_convs(1))+

lemma seq_progress_cases:
  assumes "seq_maybe_report_progress config clock start_time s = (r, s')"
  shows "result s' = result s \<and> (user s' = user s \<and> r = Inr () \<or> user s' = snd (clock (user s)) \<and> r = Inr ()
    \<or> (\<exists>snapshot. notify_progress config snapshot (snd (clock (user s))) = (r, user s')))"
  using assms
  by (auto simp: seq_maybe_report_progress_def return_action_def bind_action_def read_clock_def on_user_def Let_def
      split: prod.splits sum.splits if_splits)

lemma seq_good_publish:
  assumes "seq_good config clock ok K s" "ok (x, kind, d)" "seq_publish_terminal_execution config x kind d s = (r, s')"
  shows "seq_good config clock ok K s'"
  unfolding seq_good_def
proof
  assume keep: "outcome_kept config clock ok K"
  from seq_publish_cases [OF assms(3)] obtain act stop where
    n: "notify_terminal_execution config x kind (user s) = (act, user s')"
      "result s' = (increment_terminal_counts kind d (result s))\<lparr>result_kind := stop\<rparr>" by blast
  have "K (result s) (user s)" using assms(1) keep by (simp add: seq_good_def)
  with keep assms(2) have "K (result s') (snd (notify_terminal_execution config x kind (user s)))"
    unfolding outcome_kept_def n(2) by blast
  with n(1) show "K (result s') (user s')" by simp
qed

lemma notify_progress_kept:
  assumes "outcome_kept config clock ok K" "K r u" "notify_progress config snapshot u = (a, u')"
  shows "K r u'"
  using assms
  by (auto simp: notify_progress_def return_action_def outcome_kept_def invoke_user_action_def split: option.splits prod.splits)
    (metis snd_conv)

interpretation seq: executor "SequentialExecutor config clock start_time" seq_stop_requested
  "seq_good config clock ok K" ok "\<lambda>_. True" "observer_raises config"
proof (unfold_locales, goal_cases)
  case (9 s x e)
  have "user (notify_fatal_error (SequentialExecutor config clock start_time) x e s) =
      (case on_fatal_error config of None \<Rightarrow> user s | Some h \<Rightarrow> snd (h \<lparr>failure_graph = x, failure = e\<rparr> (user s)))"
    "result (notify_fatal_error (SequentialExecutor config clock start_time) x e s) = result s"
    by (simp_all add: SequentialExecutor_def seq_notify_fatal_error_def on_user_def split: option.splits prod.splits)
  with 9 show ?case unfolding seq_good_def outcome_kept_def by (simp split: option.splits)
next
  case (10 s r s')
  then have "result s' = result s \<and> (user s' = user s \<and> r = Inr () \<or> user s' = snd (clock (user s)) \<and> r = Inr ()
    \<or> (\<exists>snapshot. notify_progress config snapshot (snd (clock (user s))) = (r, user s')))"
    by (intro seq_progress_cases) (simp add: SequentialExecutor_def)
  moreover have "outcome_kept config clock ok K \<Longrightarrow> K (result s) u \<Longrightarrow> K (result s) (snd (clock u))" for u by (simp add: outcome_kept_def)
  ultimately show ?case using 10(1) notify_progress_kept unfolding seq_good_def by metis
next
  case (11 s x kind d r' s')
  then show ?case using seq_good_publish by (auto simp: SequentialExecutor_def)
next
  case (12 s e s')
  then have "result s' = result s \<and> (user s' = user s \<and> Inl e = Inr () \<or> user s' = snd (clock (user s)) \<and> Inl e = Inr ()
    \<or> (\<exists>snapshot. notify_progress config snapshot (snd (clock (user s))) = (Inl e, user s')))"
    by (intro seq_progress_cases) (simp add: SequentialExecutor_def)
  then obtain snapshot where "notify_progress config snapshot (snd (clock (user s))) = (Inl e, user s')" by auto
  then show ?case by (rule notify_progress_keeps(2)) simp
next
  case (13 x kind d s e s')
  then have "seq_publish_terminal_execution config x kind d s = (Inl e, s')" by (simp add: SequentialExecutor_def)
  from seq_publish_cases [OF this] have "notify_terminal_execution config x kind (user s) = (Inl e, user s')" by auto
  then show ?case using notify_terminal_keeps(2) [of config x kind "user s" "Inl e" "user s'" "\<lambda>_. True" d e] by simp
qed (auto simp: SequentialExecutor_def)

section \<open>Runs\<close>

lemma publish_final_progress_result:
  assumes "publish_final_progress config clock start_time s = (r, s')"
  shows "result s' = result s" "outcome_kept config clock ok K \<Longrightarrow> K (result s) (user s) \<Longrightarrow> K (result s') (user s')"
    "r = Inl e \<Longrightarrow> observer_raises config e"
proof -
  have cases: "result s' = result s \<and> (user s' = user s \<and> r = Inr ()
      \<or> (\<exists>snapshot. notify_progress config snapshot (snd (clock (user s))) = (r, user s')))"
    using assms by (auto simp: publish_final_progress_def return_action_def bind_action_def read_clock_def on_user_def
        split: prod.splits sum.splits if_splits)
  then show "result s' = result s" by blast
  show "K (result s') (user s')" if "outcome_kept config clock ok K" "K (result s) (user s)"
  proof -
    have "K (result s) (snd (clock (user s)))" using that by (simp add: outcome_kept_def)
    with cases that notify_progress_kept show ?thesis by metis
  qed
  show "observer_raises config e" if "r = Inl e"
    using cases that notify_progress_keeps(2) by (metis sum.distinct(1))
qed

text \<open>What \<open>verify\<close> returns, for an invariant of views that holds of the empty graph. A verification that throws has got to some result, too.\<close>

lemma verify_kept:
  fixes ok :: "('v::linorder) publication \<Rightarrow> bool"
  assumes inv: "\<And>ts. sorted_thread_ids (config_program config) = Inr ts \<Longrightarrow>
      view_invariant (search_of config (config_program config) ts) ok (\<lambda>_. True) I"
    and init: "I [(empty_xg, [enter 0 Visit])]" and K: "K initial_result u"
  shows "\<exists>r u'. verify config clock u = Some (r, u')
    \<and> (outcome_kept config clock ok K \<longrightarrow> (\<exists>res. K res u' \<and> (\<forall>res'. r = Inr res' \<longrightarrow> res' = res)))
    \<and> (\<forall>e. r = Inl e \<longrightarrow> observer_raises config e \<or> validate_terminal_observer_config config = Inl e
         \<or> sorted_thread_ids (config_program config) = Inl e
         \<or> (\<exists>ts v. sorted_thread_ids (config_program config) = Inr ts \<and> I v \<and> stack_ok (max_depth config) v
              \<and> fails (search_of config (config_program config) ts) v e))"
proof (cases "bind_result (validate_terminal_observer_config config) (\<lambda>_. sorted_thread_ids (config_program config))")
  case (Inl e)
  then have "validate_terminal_observer_config config = Inl e \<or> sorted_thread_ids (config_program config) = Inl e"
    by (auto simp: bind_result_def split: sum.splits)
  with Inl K show ?thesis by (auto simp: verify_def)
next
  case (Inr ts)
  then have ts: "sorted_thread_ids (config_program config) = Inr ts" by (auto simp: bind_result_def split: sum.splits)
  obtain start_time u1 where c: "clock u = (start_time, u1)" by force
  let ?P = "config_program config" and ?s = "sequential_state config start_time initial_result u1"
  have "K initial_result (snd (clock u))" if "outcome_kept config clock ok K" using that K by (simp add: outcome_kept_def)
  then have "seq_good config clock ok K ?s" using c by (simp add: seq_good_def sequential_state_def)
  from seq.explorer_outcome [OF inv [OF ts] init this, of start_time] obtain r y s where
    run: "explorer_run (SequentialExecutor config clock start_time) config ?P ts empty_xg 0 Visit ?s = Some (r, y, s)"
    and good: "seq_good config clock ok K s" and fail: "\<forall>e. r = Inl e \<longrightarrow> observer_raises config e
         \<or> (\<exists>v. I v \<and> stack_ok (max_depth config) v \<and> fails (search_of config ?P ts) v e)" by blast
  obtain r' s' where final: "publish_final_progress config clock start_time s = (r', s')" by force
  note pf = publish_final_progress_result [OF final]
  show ?thesis
  proof (cases r)
    case r: (Inl e)
    have "verify config clock u = Some (Inl e, user s)"
      using Inr c run r by (simp add: verify_def visit_impl_def bind_action_def lift_result_def)
    with r fail good ts show ?thesis by (auto simp: seq_good_def)
  next
    case r: (Inr x)
    have "verify config clock u = Some (map_result (\<lambda>_. result s') r', user s')"
      using Inr c run r final by (simp add: verify_def visit_impl_def bind_action_def lift_result_def)
    moreover have "map_result (\<lambda>_. result s') r' = Inl e \<Longrightarrow> r' = Inl e" "map_result (\<lambda>_. result s') r' = Inr res \<Longrightarrow> res = result s'" for e res
      by (cases r'; simp)+
    moreover have "outcome_kept config clock ok K \<longrightarrow> K (result s') (user s')" using pf(2) good by (auto simp: seq_good_def)
    ultimately show ?thesis using pf(3) by blast
  qed
qed

lemma increment_depth [simp]:
  "max_thread_event_depth_reached (increment_terminal_counts kind d r) = max d (max_thread_event_depth_reached r)"
  by (auto simp: increment_terminal_counts_def Let_def max_def split: TerminalExecutionKind.splits)

lemma verify_outcome:
  fixes ok :: "('v::linorder) publication \<Rightarrow> bool"
  assumes inv: "\<And>ts. sorted_thread_ids (config_program config) = Inr ts \<Longrightarrow>
      view_invariant (search_of config (config_program config) ts) ok (\<lambda>_. True) I"
    and init: "I [(empty_xg, [enter 0 Visit])]" and U: "U u"
  shows "\<exists>r u'. verify config clock u = Some (r, u') \<and> (observers_keep config clock ok U \<longrightarrow> U u')
    \<and> (\<forall>res. r = Inr res \<longrightarrow> (\<forall>x k d. ok (x, k, d) \<longrightarrow> d \<le> bound) \<longrightarrow> max_thread_event_depth_reached res \<le> bound)
    \<and> (\<forall>e. r = Inl e \<longrightarrow> observer_raises config e \<or> validate_terminal_observer_config config = Inl e
         \<or> sorted_thread_ids (config_program config) = Inl e
         \<or> (\<exists>ts v. sorted_thread_ids (config_program config) = Inr ts \<and> I v \<and> stack_ok (max_depth config) v
              \<and> fails (search_of config (config_program config) ts) v e))"
proof -
  let ?K = "\<lambda>r u. (observers_keep config clock ok U \<longrightarrow> U u)
    \<and> ((\<forall>x k d. ok (x, k, d) \<longrightarrow> d \<le> bound) \<longrightarrow> max_thread_event_depth_reached r \<le> bound)"
  have "outcome_kept config clock ok ?K"
    unfolding outcome_kept_def
  proof (intro conjI allI impI, goal_cases)
    case (3 x k d r u stop)
    then show ?case
      by (cases "notify_terminal_execution config x k u") (auto dest: notify_terminal_keeps(1))
  qed (auto simp: observers_keep_def)
  with verify_kept [OF inv init, of ?K u clock] U show ?thesis by (auto simp: initial_result_def)
qed

section \<open>Properties\<close>

text \<open>C9. A sequential verification always returns: for every program, whatever its thread functions and
  matchers do, every bound and every observer, the exploration ends with a result or with an exception.\<close>

theorem verify_returns:
  fixes config :: "('v::linorder, 'u) DporConfig"
  shows "\<exists>r u'. verify config clock u = Some (r, u')"
proof -
  have "view_invariant S (\<lambda>_. True) (\<lambda>_. True) (\<lambda>_. True)" for S :: "('v::linorder) Search" by (simp add: view_invariant_def)
  from verify_outcome [OF this, of "\<lambda>_. True" u config clock] show ?thesis by blast
qed

text \<open>
  An observer that keeps a log. Each terminal execution it is called with is appended, and no other user code
  touches the log.
\<close>

definition records :: "('v, 'u) DporConfig \<Rightarrow> ('u \<Rightarrow> int \<times> 'u) \<Rightarrow> ('u \<Rightarrow> 'v TerminalExecution list) \<Rightarrow> bool" where
  "records config clock log \<longleftrightarrow> (\<forall>u. log (snd (clock u)) = log u)
     \<and> (\<exists>h. (on_terminal_execution config = Some h \<or> on_terminal_execution config = None \<and> on_execution config = Some h)
          \<and> (\<forall>e u. log (snd (h e u)) = log u @ [e]))
     \<and> (\<forall>h snapshot u. on_progress config = Some h \<longrightarrow> log (snd (h snapshot u)) = log u)
     \<and> (\<forall>h c u. on_fatal_error config = Some h \<longrightarrow> log (snd (h c u)) = log u)"

definition of_kind :: "TerminalExecutionKind \<Rightarrow> 'v TerminalExecution list \<Rightarrow> nat" where
  "of_kind kind es = length (filter (\<lambda>e. execution_kind e = kind) es)"

definition deepest :: "ThreadId list \<Rightarrow> 'v TerminalExecution list \<Rightarrow> nat" where
  "deepest ts es = foldr (\<lambda>e. max (compute_max_thread_event_depth (execution_graph e) ts)) es 0"

text \<open>The counters say what the log says.\<close>

definition tallies :: "ThreadId list \<Rightarrow> 'v TerminalExecution list \<Rightarrow> VerifyResult \<Rightarrow> bool" where
  "tallies ts es r \<longleftrightarrow> executions_explored r = length es
     \<and> full_executions_explored r = of_kind Full es \<and> blocked_executions_explored r = of_kind Blocked es
     \<and> error_executions_explored r = of_kind ErrorExecution es \<and> depth_limit_executions_explored r = of_kind DepthLimit es
     \<and> thread_event_limit_executions_explored r = of_kind ThreadEventLimit es
     \<and> max_thread_event_depth_reached r = deepest ts es"

lemma deepest_snoc: "deepest ts (es @ [e]) = max (compute_max_thread_event_depth (execution_graph e) ts) (deepest ts es)"
  unfolding deepest_def by (induction es) (simp_all add: max.left_commute)

lemma tallies_publish:
  assumes "tallies ts es r" "d = compute_max_thread_event_depth x ts"
  shows "tallies ts (es @ [\<lparr>execution_graph = x, execution_kind = kind\<rparr>]) ((increment_terminal_counts kind d r)\<lparr>result_kind := stop\<rparr>)"
  using assms
  by (cases kind) (auto simp: tallies_def deepest_snoc of_kind_def increment_terminal_counts_def Let_def)

lemma records_publish:
  assumes "records config clock log"
  shows "log (snd (notify_terminal_execution config x kind u)) = log u @ [\<lparr>execution_graph = x, execution_kind = kind\<rparr>]"
  using assms
  by (auto simp: records_def notify_terminal_execution_def observe_def Let_def invoke_user_action_snd)

lemma publishes_depth: "publishes S v (x, kind, d) \<Longrightarrow> d = compute_max_thread_event_depth x (s_threads S)"
  by (auto elim!: publishes.cases simp: publication_def)

text \<open>C10. The result of a sequential verification is the tally of its publications. With an observer that keeps a log,
  the verification returns, and the log grows by a list of executions such that the number of executions explored is the length of the
  list, each of the five counters by kind is the number of executions of that kind in it, and the depth reached is the
  largest number of events of one thread in them.\<close>

theorem verify_tallies_publications:
  fixes config :: "('v::linorder, 'u) DporConfig"
  assumes "records config clock log" "sorted_thread_ids (config_program config) = Inr ts"
  shows "\<exists>r u' es. verify config clock u = Some (r, u') \<and> log u' = log u @ es
    \<and> (\<forall>res. r = Inr res \<longrightarrow> executions_explored res = length es
         \<and> full_executions_explored res = of_kind Full es \<and> blocked_executions_explored res = of_kind Blocked es
         \<and> error_executions_explored res = of_kind ErrorExecution es \<and> depth_limit_executions_explored res = of_kind DepthLimit es
         \<and> thread_event_limit_executions_explored res = of_kind ThreadEventLimit es
         \<and> max_thread_event_depth_reached res = deepest ts es)"
proof -
  let ?ok = "\<lambda>(x, kind, d). d = compute_max_thread_event_depth x ts"
  let ?K = "\<lambda>r u'. \<exists>es. log u' = log u @ es \<and> tallies ts es r"
  have inv: "view_invariant (search_of config (config_program config) ts') ?ok (\<lambda>_. True) (\<lambda>_. True)"
    if "sorted_thread_ids (config_program config) = Inr ts'" for ts'
    using that assms(2) publishes_depth [of "search_of config (config_program config) ts"]
    by (auto simp: view_invariant_def search_of_def)
  have "outcome_kept config clock ?ok ?K"
    unfolding outcome_kept_def
  proof (intro conjI allI impI, goal_cases)
    case (2 x k d r u' stop)
    then obtain es where "log u' = log u @ es" "tallies ts es r" by blast
    with 2(1) tallies_publish records_publish [OF assms(1)] show ?case by fastforce
  qed (use assms(1) in \<open>auto simp: records_def\<close>)
  moreover have "?K initial_result u" by (auto simp: tallies_def of_kind_def deepest_def initial_result_def)
  ultimately obtain r u' res es where "verify config clock u = Some (r, u')" "log u' = log u @ es" "tallies ts es res"
    "\<forall>res'. r = Inr res' \<longrightarrow> res' = res"
    using verify_kept [OF inv, where K = ?K and u = u and clock = clock] by blast
  then show ?thesis unfolding tallies_def by blast
qed

text \<open>A verification of the sample program that appends each terminal execution to a list.\<close>

definition sample_config :: "(nat, nat TerminalExecution list) DporConfig" where
  "sample_config = \<lparr>config_program = sample_program, max_depth = 1000, max_thread_events = 0, communication_model = FifoP2P,
     on_terminal_execution = Some (\<lambda>e seen. (Inr Continue, seen @ [e])), on_progress = None, progress_report_interval = 0,
     on_execution = None, on_fatal_error = None\<rparr>"

lemma sample_sorted_ids: "sorted_thread_ids (config_program sample_config) = Inr [0, 1]"
proof -
  have "wf_tm (threads sample_program)" by (simp add: sample_program_def tm_of_list_wf)
  moreover have "tm_assigned (threads sample_program) = {0..<2}" by (auto simp: tm_assigned_def sample_program_contains)
  ultimately have "validate_compact_thread_ids (threads sample_program) = Inr ()"
    using validate_compact_correct [of "threads sample_program"] by auto
  moreover have "map fst (for_each_assigned (threads sample_program)) = [0, 1]"
    by (simp add: sample_program_def tm_of_list_def tm_assign_def tm_index_def tm_empty_def for_each_assigned_def grow_to_def Let_def
        enumerate_eq_zip resize_def)
  ultimately show ?thesis by (simp add: sorted_thread_ids_def sample_config_def)
qed

lemma sample_records: "records sample_config (\<lambda>u. (0, u)) (\<lambda>seen. seen)"
  by (simp add: records_def sample_config_def)

theorem verify_tallies_publications_witness:
  "\<exists>r seen. verify sample_config (\<lambda>u. (0, u)) [] = Some (r, seen)
     \<and> (\<forall>res. r = Inr res \<longrightarrow> executions_explored res = length seen
          \<and> full_executions_explored res = of_kind Full seen \<and> blocked_executions_explored res = of_kind Blocked seen
          \<and> max_thread_event_depth_reached res = deepest [0, 1] seen)"
  using verify_tallies_publications [OF sample_records sample_sorted_ids, of "[]"] by force

end
