(* ===== verification/Soundness.thy ===== *)
theory Soundness
  imports Nodes Sequential
begin

text \<open>
  The search only visits sound nodes. The invariant describes the whole stack: an enter frame sits on a node,
  every other frame on a graph that has grown from the sound node its checkpoint belongs to. It gives the two
  main results on verification: every published execution is a consistent execution of the program and of
  the kind it is published as, and for programs whose user code never throws no exception comes out of
  the search itself.
\<close>

section \<open>The stack invariant\<close>

definition frame_ok :: "'v Search \<Rightarrow> 'v ExplorationFrame \<Rightarrow> 'v ExplorationGraph \<Rightarrow> 'v ExplorationGraph \<Rightarrow> bool" where
  "frame_ok S f b x \<longleftrightarrow>
     (case frame_kind f of
        ResumeNd \<Rightarrow> \<exists>nd. schedulable S b (frame_thread_id f) (NondeterministicChoice nd) \<and> choices nd \<noteq> []
          \<and> frame_label f = Some (NondeterministicChoice (nd\<lparr>choices := erase_duplicate_nd_choices (choices nd)\<rparr>))
      | ResumeReceive \<Rightarrow> \<exists>rl. schedulable S b (frame_thread_id f) (Receive rl) \<and> frame_label f = Some (Receive rl)
          \<and> (\<forall>i\<in>set (candidate_event_ids f). i < length (xg_events b) \<and> is_send (xg_events b ! i))
      | ResumeSendRevisits \<Rightarrow> sound S (Suc (dpor_tree_depth f)) x \<and> (\<exists>i. frame_event_id f = Some i
          \<and> i < length (xg_events x) \<and> is_send (xg_events x ! i)
          \<and> (\<forall>r\<in>set (candidate_event_ids f). r < length (xg_events x) \<and> is_receive (xg_events x ! r)))
      | _ \<Rightarrow> True)"

fun stacked :: "'v Search \<Rightarrow> 'v ExplorationGraph \<Rightarrow> 'v ExplorationFrame list \<Rightarrow> bool" where
  "stacked S x [] = True"
| "stacked S x (f # fs) =
     (if frame_kind f = Enter
      then node S (dpor_tree_depth f) x \<and> (frame_mode f = Visit \<longrightarrow> consistent_graph S x) \<and> stacked S x fs
      else \<exists>b. frame_checkpoint f = checkpoint b \<and> sound S (dpor_tree_depth f) b \<and> grown b x \<and> frame_ok S f b x
        \<and> stacked S b fs)"

definition sound_view :: "'v Search \<Rightarrow> 'v view \<Rightarrow> bool" where
  "sound_view S v \<longleftrightarrow> (\<forall>(x, fs)\<in>set v. stacked S x fs)"

lemma sound_view_simps [simp]:
  "sound_view S []" "sound_view S ((x, fs) # v) \<longleftrightarrow> stacked S x fs \<and> sound_view S v"
  "sound_view S (drop_top x fs v) \<longleftrightarrow> stacked S x fs \<and> sound_view S v"
  by (auto simp: sound_view_def drop_top_def)

lemma alike_frame_ok: "alike x y \<Longrightarrow> frame_ok S f b x \<Longrightarrow> frame_ok S f b y"
  using alike_node(2) [of x y S] by (auto simp: frame_ok_def alike_def split: ExplorationFrameKind.splits)

lemma alike_stacked: "alike x y \<Longrightarrow> stacked S x fs \<Longrightarrow> stacked S y fs"
proof (induction fs)
  case (Cons f fs)
  have c: "consistent_graph S y = consistent_graph S x" using Cons.prems(1) by (simp add: alike_def)
  show ?case
  proof (cases "frame_kind f = Enter")
    case True
    with Cons c alike_node(1) [OF Cons.prems(1)] show ?thesis by auto
  next
    case False
    with Cons.prems obtain b where b: "frame_checkpoint f = checkpoint b" "sound S (dpor_tree_depth f) b" "grown b x"
      "frame_ok S f b x" "stacked S b fs" by auto
    from alike_grown [OF Cons.prems(1) b(3)] alike_frame_ok [OF Cons.prems(1) b(4)] b False show ?thesis by auto
  qed
qed simp

text \<open>A frame that was not entered just now can always be rolled back to its sound node.\<close>

lemma stacked_rollback:
  assumes "stacked S x (f # fs)" "frame_kind f \<noteq> Enter"
  obtains y where "rollback (frame_checkpoint f) x = Inr y" "frame_checkpoint f = checkpoint y"
    "sound S (dpor_tree_depth f) y" "stacked S y fs" "frame_kind f \<noteq> ResumeSendRevisits \<Longrightarrow> frame_ok S f y z"
proof -
  from assms obtain b where b: "frame_checkpoint f = checkpoint b" "sound S (dpor_tree_depth f) b" "grown b x"
    "frame_ok S f b x" "stacked S b fs" by auto
  have n: "node S (dpor_tree_depth f) b" using b(2) by (simp add: sound_def)
  obtain y where y: "rollback (checkpoint b) x = Inr y" using rollback_grown [OF nodeD(2) [OF n] b(3)] by blast
  note a = rollback_alike [OF n b(3) y]
  show thesis
  proof (rule that)
    show "rollback (frame_checkpoint f) x = Inr y" "frame_checkpoint f = checkpoint y" using y b(1) a(2) by simp_all
    show "sound S (dpor_tree_depth f) y" by (rule alike_node(2) [OF a(1) b(2)])
    show "stacked S y fs" by (rule alike_stacked [OF a(1) b(5)])
    have "xg_events y = xg_events b" using a(1) by (simp add: alike_def)
    then show "frame_kind f \<noteq> ResumeSendRevisits \<Longrightarrow> frame_ok S f y z"
      using b(4) alike_schedulable [OF a(1)] by (auto simp: frame_ok_def split: ExplorationFrameKind.splits)
  qed
qed

text \<open>A frame that went through its consistency test.\<close>

lemma stacked_gate:
  assumes "search_ok S" "stacked S x (f # fs)" "gate S x f y g"
  shows "sound S (dpor_tree_depth f) y" "stacked S y fs" "frame_kind g = Enter" "frame_mode g = Visit"
    "dpor_tree_depth g = dpor_tree_depth f" "frame_kind f = Enter"
proof -
  from assms(3) have k: "frame_kind f = Enter" by (cases rule: gate.cases) auto
  with assms(2) have n: "node S (dpor_tree_depth f) x" "frame_mode f = Visit \<longrightarrow> consistent_graph S x" "stacked S x fs" by auto
  from assms(3) have "sound S (dpor_tree_depth f) y \<and> stacked S y fs"
  proof (cases rule: gate.cases)
    case gate_visit
    with n show ?thesis by (simp add: sound_def)
  next
    case (gate_checked res)
    with check_consistency_node [OF assms(1) n(1)] have a: "alike x y" "consistent_graph S x" by auto
    with n(1,3) show ?thesis using alike_node(2) [OF a(1)] alike_stacked [OF a(1)] by (auto simp: sound_def)
  qed
  then show "sound S (dpor_tree_depth f) y" "stacked S y fs" by auto
  show "frame_kind g = Enter" "frame_mode g = Visit" "dpor_tree_depth g = dpor_tree_depth f" "frame_kind f = Enter"
    using assms(3) k by (auto elim: gate.cases)
qed

lemma gate_exists:
  assumes "search_ok S" "stacked S x (f # fs)" "frame_kind f = Enter" "frame_mode f = VisitIfConsistent"
  shows "\<exists>res y. check_consistency (s_model S) x = Inr (res, y) \<and> stacked S y fs"
proof -
  from assms have n: "node S (dpor_tree_depth f) x" "stacked S x fs" by auto
  from check_consistency_node [OF assms(1) n(1)] alike_stacked [OF _ n(2)] show ?thesis by blast
qed

text \<open>What an expansion schedules.\<close>

lemma expands_cases:
  assumes "search_ok S" "sound S d x" "expands S x g nxt"
  shows "next_event nxt = Some (t, lab) \<Longrightarrow> \<exists>l. schedulable S x t l \<and> lab = scheduled x t l \<and> \<not> blocked_at x t"
    "next_event nxt = None \<Longrightarrow> (\<forall>t\<in>set (s_threads S). idle (s_program S) x (s_max_thread_events S) t)
       \<and> suppressed_by_thread_event_limit nxt = (\<exists>u\<in>set (s_threads S).
            capped (s_max_thread_events S) (xg_events x) u \<and> \<not> terminated (xg_events x) u)"
  using next_event_node [OF assms(1,2)] assms(3) by (auto simp: expands_def)


section \<open>Moves keep the invariant\<close>

lemma enter_fields [simp]:
  "frame_kind (enter d m) = Enter" "frame_mode (enter d m) = m" "dpor_tree_depth (enter d m) = d"
  by (simp_all add: enter_def)

lemma same_fields [simp]: "f\<lparr>cursor := c, flag := flag f\<rparr> = f\<lparr>cursor := c\<rparr>" "f\<lparr>cursor := cursor f, flag := b\<rparr> = f\<lparr>flag := b\<rparr>"
  by (cases f; simp)+

lemma stacked_child:
  assumes "sound S d y" "grown y z" "stacked S y fs" "frame_kind h \<noteq> Enter" "frame_checkpoint h = checkpoint y"
    "dpor_tree_depth h = d" "frame_ok S h y z" "node S (Suc d) z" "m = Visit \<Longrightarrow> consistent_graph S z"
  shows "stacked S z (enter (d + 1) m # h # fs)"
  using assms by auto

lemma linear_instance:
  assumes "search_ok S" "schedulable S x t l" "linear_label (scheduled x t l)"
  shows "instance_of l (scheduled x t l)"
proof -
  have "instance_of (NondeterministicChoice nd) (NondeterministicChoice nd)" if "choices nd = []" for nd :: "'a NondeterministicChoiceLabel"
    using that by (simp add: instance_of_def)
  with assms(3) schedulable_scheduled(4,6) [OF assms(1,2)] show ?thesis by (auto simp: linear_label_def)
qed

lemma choice_instance:
  assumes "k < length (erase_duplicate_nd_choices (choices nd))" "choices nd \<noteq> []"
  shows "instance_of (NondeterministicChoice nd) (with_choice (nd\<lparr>choices := erase_duplicate_nd_choices (choices nd)\<rparr>) k)"
proof -
  have "erase_duplicate_nd_choices (choices nd) ! k \<in> set (choices nd)"
    using nth_mem [OF assms(1)] by (simp add: erase_duplicate_nd_choices_eq)
  with assms(2) show ?thesis by (cases nd) (auto simp: instance_of_def with_choice_def)
qed

lemma choices_left: "choices nd \<noteq> [] \<Longrightarrow> erase_duplicate_nd_choices (choices nd) \<noteq> []"
  by (simp add: erase_duplicate_nd_choices_eq)

lemma enter_moves_sound:
  assumes S: "search_ok S" and st: "stacked S x (f # fs)" and g: "gate S x f y g" and e: "expands S y g nxt"
    and n: "next_event nxt = Some (t, lab)"
  shows "linear_label lab \<Longrightarrow> add_event t lab y = Inr (i, z) \<Longrightarrow>
      stacked S z (enter (dpor_tree_depth f + 1) Visit # g\<lparr>frame_kind := ExitLinearChild, frame_checkpoint := checkpoint y\<rparr> # fs)"
    "lab = NondeterministicChoice nd \<Longrightarrow> choices nd \<noteq> [] \<Longrightarrow> stacked S y (nd_frame g y t nd # fs)"
    "lab = Receive rl \<Longrightarrow> compatible_unread_send_ids y t rl = Inr ids \<Longrightarrow> stacked S y (receive_frame g y t rl ids # fs)"
    "lab = Send sl \<Longrightarrow> add_event t lab y = Inr (i, z) \<Longrightarrow> receives_in_destination z i = Inr ids \<Longrightarrow>
      stacked S z (send_frame g y i ids spawn # fs)"
    "lab = Error m \<Longrightarrow> add_event t lab y = Inr (i, z) \<Longrightarrow> rollback (checkpoint y) z = Inr w \<Longrightarrow> stacked S w fs"
proof -
  let ?d = "dpor_tree_depth f"
  note y = stacked_gate [OF S st g]
  have ny: "node S ?d y" using y(1) by (simp add: sound_def)
  have dp: "?d < s_max_depth S" using e y(5) by (simp add: expands_def)
  from expands_cases(1) [OF S y(1) e n] obtain l where l: "schedulable S y t l" "lab = scheduled y t l" by blast
  note sch = schedulable_scheduled [OF S l(1), folded l(2)]
  show "stacked S z (enter (?d + 1) Visit # g\<lparr>frame_kind := ExitLinearChild, frame_checkpoint := checkpoint y\<rparr> # fs)"
    if lin: "linear_label lab" and add: "add_event t lab y = Inr (i, z)"
  proof -
    have k: "\<forall>rl. lab \<noteq> Receive rl" "\<forall>m. lab \<noteq> Error m" using lin by (auto simp: linear_label_def)
    note a = sound_add [OF S y(1) dp l(1) linear_instance [OF S l(1), folded l(2), OF lin] k(1) add]
    show ?thesis
      by (rule stacked_child [OF y(1) a(2) y(2)]) (use a(7) [OF k(2)] a(3) y(5) in \<open>simp_all add: frame_ok_def sound_def\<close>)
  qed
  show "stacked S y (nd_frame g y t nd # fs)" if "lab = NondeterministicChoice nd" "choices nd \<noteq> []"
    using sch(4) l(1) that y grown_refl [OF ny] by (auto simp: nd_frame_def frame_ok_def intro!: exI [of _ y] exI [of _ nd])
  show "stacked S y (receive_frame g y t rl ids # fs)"
    if "lab = Receive rl" "compatible_unread_send_ids y t rl = Inr ids"
  proof -
    have r: "l = Receive rl" "total_matcher rl" using sch(2) that(1) by auto
    have "\<forall>i\<in>set ids. i < length (xg_events y) \<and> is_send (xg_events y ! i)"
      using that(2) compatible_unread_eq(1) [OF nodeD(2) [OF ny] r(2), of t] by (auto simp: compatible_def)
    then show ?thesis using r l(1) y grown_refl [OF ny]
      by (auto simp: receive_frame_def frame_ok_def intro!: exI [of _ y] exI [of _ rl])
  qed
  show "stacked S z (send_frame g y i ids spawn # fs)"
    if s: "lab = Send sl" "add_event t lab y = Inr (i, z)" "receives_in_destination z i = Inr ids"
  proof -
    have "instance_of l lab" using sch(3) [OF s(1)] s(1) by (simp add: instance_of_def)
    note a = sound_add [OF S y(1) dp l(1) this _ s(2)]
    from a(5) s(1) obtain ev where ev: "xg_events z = xg_events y @ [ev]" "label ev = Send sl" by auto
    have i: "i < length (xg_events z)" "is_send (xg_events z ! i)" "as_send (xg_events z ! i) = Some sl"
      using a(1) s(1) ev by (simp_all add: is_send_def as_send_def)
    have sz: "sound S (Suc ?d) z" using a(7) s(1) by simp
    have "\<forall>r\<in>set ids. r < length (xg_events z) \<and> is_receive (xg_events z ! r)"
      using s(3) receives_in_destination_eq [OF nodeD(2) i(1,3)] sz by (auto simp: sound_def recv_ids_def thread_ids_def)
    with i sz y a(2) s(1) show ?thesis by (auto simp: send_frame_def frame_ok_def intro!: exI [of _ y])
  qed
  show "stacked S w fs" if s: "lab = Error m" "add_event t lab y = Inr (i, z)" "rollback (checkpoint y) z = Inr w"
  proof -
    have "instance_of l lab" using sch(5) [OF s(1)] s(1) by (simp add: instance_of_def)
    note a = sound_add [OF S y(1) dp l(1) this _ s(2)]
    have "grown y z" using a(2) s(1) by simp
    from rollback_alike(1) [OF ny this s(3)] y(2) show ?thesis by (rule alike_stacked)
  qed
qed

text \<open>The children of a frame that is resumed after a rollback.\<close>

lemma resume_moves_sound:
  assumes S: "search_ok S" and st: "stacked S x (f # fs)" and y: "rollback (frame_checkpoint f) x = Inr y"
    and d: "dpor_tree_depth f < s_max_depth S"
  shows "frame_kind f \<noteq> Enter \<Longrightarrow> stacked S y fs"
    "frame_kind f = ResumeNd \<or> frame_kind f = ResumeReceive \<Longrightarrow> stacked S y (f\<lparr>cursor := k\<rparr> # fs)"
    "frame_kind f = ResumeNd \<Longrightarrow> frame_label f = Some (NondeterministicChoice nd) \<Longrightarrow> cursor f < length (choices nd) \<Longrightarrow>
      w \<in> {y, copy_graph y} \<Longrightarrow> \<exists>i z. add_event (frame_thread_id f) (with_choice nd (cursor f)) w = Inr (i, z)
       \<and> sound S (Suc (dpor_tree_depth f)) z \<and> (w = y \<longrightarrow> stacked S z (enter (dpor_tree_depth f + 1) Visit # f\<lparr>cursor := k\<rparr> # fs))"
    "frame_kind f = ResumeReceive \<Longrightarrow> frame_label f = Some (Receive rl) \<Longrightarrow> s = bottom \<or> s \<in> from_send ` set (candidate_event_ids f) \<Longrightarrow>
      w \<in> {y, copy_graph y} \<Longrightarrow> \<exists>z. add_receive (frame_thread_id f) (Receive rl) s w = Inr z
       \<and> node S (Suc (dpor_tree_depth f)) z \<and> (w = y \<longrightarrow> stacked S z (enter (dpor_tree_depth f + 1) VisitIfConsistent # f\<lparr>cursor := k, flag := fl\<rparr> # fs))"
proof -
  let ?d = "dpor_tree_depth f"
  have yD: "frame_checkpoint f = checkpoint y \<and> sound S ?d y \<and> stacked S y fs
      \<and> (frame_kind f \<noteq> ResumeSendRevisits \<longrightarrow> frame_ok S f y z)" if "frame_kind f \<noteq> Enter" for z
    using stacked_rollback [OF st that, of z] y by (metis sum.inject(2))
  then show "frame_kind f \<noteq> Enter \<Longrightarrow> stacked S y fs" by blast
  have ok: "frame_ok S (f\<lparr>cursor := k, flag := fl\<rparr>) y z \<and> frame_ok S (f\<lparr>cursor := k\<rparr>) y z"
    if "frame_kind f = ResumeNd \<or> frame_kind f = ResumeReceive" for z k fl
    using yD [of z] that by (auto simp: frame_ok_def)
  have ny: "node S ?d y" if "frame_kind f \<noteq> Enter" using yD [OF that] by (simp add: sound_def)
  show "stacked S y (f\<lparr>cursor := k\<rparr> # fs)" if "frame_kind f = ResumeNd \<or> frame_kind f = ResumeReceive"
    using ok [OF that, where k = k and z = y] yD [of y] that grown_refl [OF ny] by auto
  show "\<exists>i z. add_event (frame_thread_id f) (with_choice nd (cursor f)) w = Inr (i, z)
       \<and> sound S (Suc ?d) z \<and> (w = y \<longrightarrow> stacked S z (enter (?d + 1) Visit # f\<lparr>cursor := k\<rparr> # fs))"
    if f: "frame_kind f = ResumeNd" "frame_label f = Some (NondeterministicChoice nd)" "cursor f < length (choices nd)"
      "w \<in> {y, copy_graph y}"
  proof -
    have e: "frame_kind f \<noteq> Enter" using f(1) by simp
    let ?l = "with_choice nd (cursor f)"
    from yD [OF e, of y] f(1) have "frame_ok S f y y" by simp
    with f obtain nd0 where nd: "schedulable S y (frame_thread_id f) (NondeterministicChoice nd0)" "choices nd0 \<noteq> []"
      "nd = nd0\<lparr>choices := erase_duplicate_nd_choices (choices nd0)\<rparr>" by (auto simp: frame_ok_def)
    have inst: "instance_of (NondeterministicChoice nd0) ?l"
      using choice_instance [OF _ nd(2), of "cursor f"] f(3) nd(3) by simp
    have sy: "sound S ?d y" using yD [OF e] by blast
    have w: "sound S ?d w" "schedulable S w (frame_thread_id f) (NondeterministicChoice nd0)"
      using f(4) sy nd(1) node_copy [OF ny [OF e]] by (auto simp: sound_def)
    have nw: "node S ?d w" using w(1) by (simp add: sound_def)
    obtain z where z: "add_event (frame_thread_id f) ?l w = Inr (length (xg_events w), z)"
      using node_add [OF S nw d w(2) inst] by blast
    have sz: "sound S (Suc ?d) z" using sound_add(7) [OF S w(1) d w(2) inst _ z] by (simp add: with_choice_def)
    have "stacked S z (enter (?d + 1) Visit # f\<lparr>cursor := k\<rparr> # fs)" if "w = y"
    proof -
      note a = sound_add [OF S _ d nd(1) inst _ z [unfolded that]]
      show ?thesis
        by (rule stacked_child [OF sy a(2)]) (use a(3,7) [OF sy] ok [where k = k and z = z] yD [OF e] sy f(1) in
            \<open>auto simp: with_choice_def sound_def\<close>)
    qed
    with z sz show ?thesis by auto
  qed
  show "\<exists>z. add_receive (frame_thread_id f) (Receive rl) s w = Inr z
       \<and> node S (Suc ?d) z \<and> (w = y \<longrightarrow> stacked S z (enter (?d + 1) VisitIfConsistent # f\<lparr>cursor := k, flag := fl\<rparr> # fs))"
    if f: "frame_kind f = ResumeReceive" "frame_label f = Some (Receive rl)"
      "s = bottom \<or> s \<in> from_send ` set (candidate_event_ids f)" "w \<in> {y, copy_graph y}"
  proof -
    have e: "frame_kind f \<noteq> Enter" using f(1) by simp
    from yD [OF e, of y] f(1) have "frame_ok S f y y" by simp
    with f have r: "schedulable S y (frame_thread_id f) (Receive rl)"
      "\<forall>i\<in>set (candidate_event_ids f). i < length (xg_events y) \<and> is_send (xg_events y ! i)" by (auto simp: frame_ok_def)
    have w: "node S ?d w" "schedulable S w (frame_thread_id f) (Receive rl)" "xg_events w = xg_events y"
      using f(4) ny [OF e] r(1) node_copy [OF ny [OF e]] by auto
    have "source_ok (xg_events w) (Some s)" using f(3) r(2) w(3) by (auto simp: source_ok_def)
    from node_add_receive [OF S w(1) d w(2) this] obtain z where
      z: "add_receive (frame_thread_id f) (Receive rl) s w = Inr z" "node S (Suc ?d) z" "grown w z" by blast
    have "stacked S z (enter (?d + 1) VisitIfConsistent # f\<lparr>cursor := k, flag := fl\<rparr> # fs)" if "w = y"
      by (rule stacked_child [of S ?d y]) (use z that ok [where k = k and fl = fl and z = z] yD [OF e] f(1) in auto)
    with z(1,2) show ?thesis by blast
  qed
qed


lemma revisit_moves_sound:
  assumes S: "search_ok S" and st: "stacked S x (f # fs)" and k: "frame_kind f = ResumeSendRevisits"
  shows "\<exists>i nxt. live_send x (frame_event_id f) = Inr i
    \<and> next_backward_revisit_child x i (s_model S) (candidate_event_ids f) (cursor f) = Inr nxt
    \<and> stacked S x (f\<lparr>cursor := c\<rparr> # fs) \<and> (\<forall>y. revisit_child nxt = Some y \<longrightarrow> node S (Suc (dpor_tree_depth f)) y)
    \<and> stacked S x (enter (dpor_tree_depth f + 1) Visit # f\<lparr>cursor := c, frame_kind := ExitLinearChild\<rparr> # fs)"
proof -
  let ?d = "Suc (dpor_tree_depth f)"
  from st k obtain b i where b: "frame_checkpoint f = checkpoint b" "sound S (dpor_tree_depth f) b" "grown b x" "stacked S b fs"
    and x: "sound S ?d x" and i: "frame_event_id f = Some i" "i < length (xg_events x)" "is_send (xg_events x ! i)"
    and rs: "\<forall>r\<in>set (candidate_event_ids f). r < length (xg_events x) \<and> is_receive (xg_events x ! r)"
    by (auto simp: frame_ok_def)
  from next_backward_revisit_child_eq [OF sound_good [OF S x] i(2,3) rs, of "cursor f"] obtain nxt where
    nxt: "next_backward_revisit_child x i (s_model S) (candidate_event_ids f) (cursor f) = Inr nxt"
      "\<And>y. revisit_child nxt = Some y \<Longrightarrow> \<exists>j<length (candidate_event_ids f).
         revisitable (s_model S) x i (candidate_event_ids f ! j) \<and> well_kept y \<and> revisit_of x i (candidate_event_ids f ! j) y"
    by fastforce
  have "live_send x (frame_event_id f) = Inr i" using i by (simp add: live_send_def is_valid_event_id_def)
  moreover have "node S ?d y" if child: "revisit_child nxt = Some y" for y
  proof -
    from nxt(2) [OF child] obtain j where j: "j < length (candidate_event_ids f)"
      "revisitable (s_model S) x i (candidate_event_ids f ! j)" "well_kept y" "revisit_of x i (candidate_event_ids f ! j) y" by blast
    with rs revisit_node [OF S x _ _ i(2,3) j(2-4)] show ?thesis by auto
  qed
  moreover have "stacked S x (f\<lparr>cursor := c\<rparr> # fs)" using b x i rs k by (auto simp: frame_ok_def)
  moreover have "stacked S x (enter (dpor_tree_depth f + 1) Visit # f\<lparr>cursor := c, frame_kind := ExitLinearChild\<rparr> # fs)"
    using b x by (auto simp: frame_ok_def sound_def)
  ultimately show ?thesis using nxt(1) by blast
qed

lemma moves_sound:
  assumes S: "search_ok S" and v: "sound_view S v" "stack_ok (s_max_depth S) v" and m: "moves S v v'"
  shows "sound_view S v'"
  using m v
proof (cases rule: moves.cases)
  case (moves_give_up f x fs u)
  with v show ?thesis by auto
next
  case (moves_inconsistent f x res y fs u)
  with v gate_exists [OF S, of x f fs] show ?thesis by auto
next
  case (moves_depth_limit x f y g fs u)
  with v stacked_gate(2) [OF S _ moves_depth_limit(3), of fs] show ?thesis by auto
next
  case (moves_reschedule x f y g nxt t z fs u)
  from v moves_reschedule(1) have st: "stacked S x (f # fs)" "sound_view S u" by auto
  note y = stacked_gate [OF S st(1) moves_reschedule(3)]
  have tc: "tm_contains (threads (s_program S)) t" using moves_reschedule(6) search_okD(2) [OF S] by blast
  note rc = reschedule_candidate_node [OF S y(1), of t]
  have b: "blocked_at y t" using rc(1) moves_reschedule(7) by fastforce
  then obtain rl where a: "awaits (s_program S) y t rl"
    using blocked_awaits [OF S] y(1) unfolding sound_def by blast
  have "sound S (dpor_tree_depth f) z"
    using rc(2) [OF b a tc] moves_reschedule(7) by (auto split: if_splits)
  with y(2) st(2) moves_reschedule(2) show ?thesis by (auto simp: sound_def)
next
  case (moves_finished x f y g nxt kind fs u)
  with v stacked_gate(2) [OF S _ moves_finished(3), of fs] show ?thesis by auto
next
  case (moves_error x f y g nxt t m i z w fs u)
  with v enter_moves_sound(5) [OF S _ moves_error(3-5) refl moves_error(6,7), of fs] show ?thesis by auto
next
  case (moves_linear x f y g nxt t l i z fs u)
  with v enter_moves_sound(1) [OF S _ moves_linear(3-7), of fs] show ?thesis by (auto simp del: stacked.simps)
next
  case (moves_nd x f y g nxt t nd fs u)
  with v enter_moves_sound(2) [OF S _ moves_nd(3-5) refl moves_nd(6), of fs] show ?thesis by (auto simp del: stacked.simps)
next
  case (moves_receive x f y g nxt t rl ids fs u)
  with v enter_moves_sound(3) [OF S _ moves_receive(3-5) refl moves_receive(6), of fs] show ?thesis by (auto simp del: stacked.simps)
next
  case (moves_send x f y g nxt t sl i z ids fs u spawn)
  with v enter_moves_sound(4) [OF S _ moves_send(3-5) refl moves_send(6,7), of fs] show ?thesis by (auto simp del: stacked.simps)
next
  case (moves_exit f x y fs u)
  then have "dpor_tree_depth f < s_max_depth S" using v(2) by (auto simp: stack_ok_top resumed_def)
  with v moves_exit resume_moves_sound(1) [OF S, of x f fs y] show ?thesis by (auto simp del: stacked.simps)
next
  case (moves_nd_split f x y nd fs u)
  then have "dpor_tree_depth f < s_max_depth S" using v(2) by (auto simp: stack_ok_top resumed_def)
  with v moves_nd_split resume_moves_sound(2) [OF S, of x f fs y] show ?thesis by (auto simp del: stacked.simps)
next
  case (moves_nd_next f x y nd i z fs u)
  then have "dpor_tree_depth f < s_max_depth S" using v(2) by (auto simp: stack_ok_top resumed_def)
  with v moves_nd_next resume_moves_sound(3) [OF S, of x f fs y nd y "cursor f + 1"] show ?thesis by (auto simp del: stacked.simps)
next
  case (moves_receive_split f x y fs u)
  then have "dpor_tree_depth f < s_max_depth S" using v(2) by (auto simp: stack_ok_top resumed_def)
  with v moves_receive_split resume_moves_sound(2) [OF S, of x f fs y] show ?thesis by (auto simp del: stacked.simps)
next
  case (moves_receive_next f x y rl z fs u)
  then have "dpor_tree_depth f < s_max_depth S" using v(2) by (auto simp: stack_ok_top resumed_def)
  with v moves_receive_next resume_moves_sound(4) [OF S, of x f fs y rl
      "from_send (candidate_event_ids f ! cursor f)" y "flag f" "cursor f + 1"] show ?thesis by (auto simp del: stacked.simps)
next
  case (moves_receive_bottom f x y rl z fs u)
  then have "dpor_tree_depth f < s_max_depth S" using v(2) by (auto simp: stack_ok_top resumed_def)
  with v moves_receive_bottom resume_moves_sound(4) [OF S, of x f fs y rl bottom y False "cursor f"]
  show ?thesis by (auto simp del: stacked.simps)
next
  case (moves_revisit f x i nxt y fs u)
  with v revisit_moves_sound [OF S, of x f fs "next_receive_index nxt"] show ?thesis by (auto simp del: stacked.simps(2)) simp
next
  case (moves_revisit_handed f x i nxt y fs u)
  with v revisit_moves_sound [OF S, of x f fs "next_receive_index nxt"] show ?thesis by (auto simp del: stacked.simps)
next
  case (moves_revisits_done f x i nxt fs u)
  with v revisit_moves_sound [OF S, of x f fs "next_receive_index nxt"] show ?thesis by (auto simp del: stacked.simps)
qed


section \<open>Nothing fails\<close>

lemma fails_not:
  assumes S: "search_ok S" and v: "sound_view S v" "stack_ok (s_max_depth S) v"
  shows "\<not> fails S v e"
proof
  assume "fails S v e"
  then show False using v
  proof (cases rule: fails.cases)
    case (fails_check f x fs u)
    with v gate_exists [OF S, of x f fs] show ?thesis by auto
  next
    case (fails_next x f y g fs u)
    with v have "sound S (dpor_tree_depth f) y" using stacked_gate(1) [OF S _ fails_next(2), of fs] by auto
    from next_event_node [OF S this] fails_next(4) show ?thesis by auto
  next
    case (fails_reschedule x f y g nxt t fs u)
    with v have y: "sound S (dpor_tree_depth f) y" using stacked_gate(1) [OF S _ fails_reschedule(2), of fs] by auto
    have tc: "tm_contains (threads (s_program S)) t" using fails_reschedule(5) search_okD(2) [OF S] by blast
    note rc = reschedule_candidate_node [OF S y, of t]
    have b: "blocked_at y t" using rc(1) fails_reschedule(6) by fastforce
    then obtain rl where "awaits (s_program S) y t rl" using blocked_awaits [OF S] y unfolding sound_def by blast
    from rc(2) [OF b this tc] fails_reschedule(6) show ?thesis by (auto split: if_splits)
  next
    case (fails_blocked x f y g fs u)
    with v have "node S (dpor_tree_depth f) y" using stacked_gate(1) [OF S _ fails_blocked(2), of fs] by (auto simp: sound_def)
    from has_blocked_thread_eq [OF nodeD(2) [OF this]] fails_blocked(3) show ?thesis by simp
  next
    case (fails_add x f y g nxt t l fs u)
    with v have y: "sound S (dpor_tree_depth f) y" "dpor_tree_depth g = dpor_tree_depth f"
      using stacked_gate(1,5) [OF S _ fails_add(2), of fs] by auto
    from expands_cases(1) [OF S y(1) fails_add(3,4)] obtain l' where l: "schedulable S y t l'" "l = scheduled y t l'" by blast
    have "t \<le> kMaxThreadId" using l(1) search_okD(3) [OF S] by (simp add: schedulable_def)
    moreover have "length (thread_ids (xg_events y) t) \<le> length (xg_events y)"
      unfolding thread_ids_def by (metis length_filter_le diff_zero length_upt)
    then have "length (thread_ids (xg_events y) t) < 2 ^ 32"
      using y fails_add(3) nodeD(8) [of S "dpor_tree_depth f" y] search_okD(4) [OF S] by (auto simp: expands_def sound_def)
    ultimately show ?thesis using add_event_core [of y t l] y(1) fails_add(5) nodeD(2) by (fastforce simp: sound_def)
  next
    case (fails_error_rollback x f y g nxt t l i z fs u)
    with v have y: "node S (dpor_tree_depth f) y" using stacked_gate(1) [OF S _ fails_error_rollback(2), of fs] by (auto simp: sound_def)
    from rollback_grown [OF nodeD(2) [OF y] grown_add [OF grown_refl [OF y] fails_error_rollback(5)]] fails_error_rollback(6)
    show ?thesis by auto
  next
    case (fails_candidates x f y g nxt t rl fs u)
    with v have y: "sound S (dpor_tree_depth f) y" using stacked_gate(1) [OF S _ fails_candidates(2), of fs] by auto
    from expands_cases(1) [OF S y fails_candidates(3,4)] schedulable_scheduled(2) [OF S] have "total_matcher rl" by metis
    with y fails_candidates(5) compatible_unread_eq(1) [of y rl t] nodeD(2) show ?thesis by (fastforce simp: sound_def)
  next
    case (fails_receives x f y g nxt t sl i z fs u)
    with v have y: "sound S (dpor_tree_depth f) y" "dpor_tree_depth g = dpor_tree_depth f"
      using stacked_gate(1,5) [OF S _ fails_receives(2), of fs] by auto
    from expands_cases(1) [OF S y(1) fails_receives(3,4)] obtain l where l: "schedulable S y t l" "Send sl = scheduled y t l" by blast
    then have ls: "l = Send sl" using schedulable_scheduled(3) [OF S l(1)] by metis
    have dp: "dpor_tree_depth f < s_max_depth S" using fails_receives(3) y(2) by (simp add: expands_def)
    have "instance_of l (Send sl)" by (simp add: ls instance_of_def)
    note a = sound_add [OF S y(1) dp l(1) this _ fails_receives(5)]
    from a(5) obtain ev where "xg_events z = xg_events y @ [ev]" "label ev = Send sl" by auto
    with a(1) have "i < length (xg_events z)" "as_send (xg_events z ! i) = Some sl" by (simp_all add: as_send_def)
    with receives_in_destination_eq [of z i sl] a(6) fails_receives(6) show ?thesis by (simp add: wf_xg_def)
  next
    case (fails_rollback f x fs u)
    with v stacked_rollback [of S x f fs] show ?thesis by (metis Inl_Inr_False sound_view_simps(2))
  next
    case (fails_nd_label f x fs u)
    with v choices_left show ?thesis by (fastforce simp: frame_ok_def)
  next
    case (fails_nd_add f x y nd z fs u)
    then have "dpor_tree_depth f < s_max_depth S" using v(2) by (auto simp: stack_ok_top resumed_def)
    with v fails_nd_add resume_moves_sound(3) [OF S, of x f fs y nd z] show ?thesis by (auto simp del: stacked.simps)
  next
    case (fails_receive_label f x fs u)
    with v show ?thesis by (auto simp: frame_ok_def)
  next
    case (fails_receive_add f x y rl z fs u)
    then have "dpor_tree_depth f < s_max_depth S" using v(2) by (auto simp: stack_ok_top resumed_def)
    with v fails_receive_add resume_moves_sound(4) [OF S, of x f fs y rl "from_send (candidate_event_ids f ! cursor f)" z]
    show ?thesis by (auto simp del: stacked.simps)
  next
    case (fails_bottom_add f x y rl fs u)
    then have "dpor_tree_depth f < s_max_depth S" using v(2) by (auto simp: stack_ok_top resumed_def)
    with v fails_bottom_add resume_moves_sound(4) [OF S, of x f fs y rl bottom y] show ?thesis by (auto simp del: stacked.simps)
  next
    case (fails_live f x fs u)
    with v revisit_moves_sound [OF S, of x f fs] show ?thesis by (auto simp del: stacked.simps)
  next
    case (fails_revisit f x i fs u)
    with v revisit_moves_sound [OF S, of x f fs] show ?thesis by (auto simp del: stacked.simps)
  qed
qed

section \<open>What is published\<close>

definition execution_of :: "'v Search \<Rightarrow> 'v ExplorationGraph \<Rightarrow> bool" where
  "execution_of S x \<longleftrightarrow> wf_xg x \<and> follows (s_program S) (xg_events x) (xg_rf x) \<and> consistent_graph S x
     \<and> (\<forall>e\<in>set (butlast (xg_events x)). \<not> is_error e)"

text \<open>An error ends its thread.\<close>

definition errors_last :: "'v event list \<Rightarrow> bool" where
  "errors_last evs \<longleftrightarrow> (\<forall>i j. (i, j) \<in> po_of evs \<longrightarrow> \<not> is_error (evs ! i))"

lemma butlast_errors_last:
  assumes "\<forall>e\<in>set (butlast evs). \<not> is_error e"
  shows "errors_last evs"
  unfolding errors_last_def
proof (intro allI impI)
  fix i j assume "(i, j) \<in> po_of evs"
  then have "i < length (butlast evs)" by (auto simp: po_of_def)
  then show "\<not> is_error (evs ! i)" using assms by (metis nth_butlast nth_mem)
qed

text \<open>A thread that has no next event, and one that waits at a receive no unread send satisfies.\<close>

definition thread_done :: "'v Search \<Rightarrow> 'v ExplorationGraph \<Rightarrow> ThreadId \<Rightarrow> bool" where
  "thread_done S x t \<longleftrightarrow> \<not> blocked_at x t
     \<and> reply (s_program S) t (trace_of (xg_events x) (xg_rf x) t) (length (thread_ids (xg_events x) t)) = Inr None"

definition thread_stuck :: "'v Search \<Rightarrow> 'v ExplorationGraph \<Rightarrow> ThreadId \<Rightarrow> bool" where
  "thread_stuck S x t \<longleftrightarrow> blocked_at x t \<and> (\<exists>rl. awaits (s_program S) x t rl \<and> \<not> readable x t rl)"

definition terminal_ok :: "'v Search \<Rightarrow> TerminalExecutionKind \<Rightarrow> 'v ExplorationGraph \<Rightarrow> bool" where
  "terminal_ok S kind x \<longleftrightarrow>
     (case kind of
        Full \<Rightarrow> \<forall>t\<in>set (s_threads S). thread_done S x t
      | Blocked \<Rightarrow> (\<exists>t\<in>set (s_threads S). thread_stuck S x t)
          \<and> (\<forall>t\<in>set (s_threads S). thread_done S x t \<or> thread_stuck S x t)
      | ErrorExecution \<Rightarrow> \<exists>t\<in>set (s_threads S). \<exists>e. last_event (xg_events x) t = Some e \<and> is_error e
      | ThreadEventLimit \<Rightarrow> (\<exists>t\<in>set (s_threads S). capped (s_max_thread_events S) (xg_events x) t \<and> \<not> blocked_at x t)
          \<and> (\<forall>t\<in>set (s_threads S). thread_done S x t \<or> thread_stuck S x t \<or> capped (s_max_thread_events S) (xg_events x) t)
      | DepthLimit \<Rightarrow> True)"

definition published_ok :: "'v Search \<Rightarrow> 'v publication \<Rightarrow> bool" where
  "published_ok S p \<longleftrightarrow> (case p of (x, kind, depth) \<Rightarrow> execution_of S x \<and> terminal_ok S kind x
     \<and> (s_max_thread_events S \<noteq> 0 \<longrightarrow> depth \<le> s_max_thread_events S))"

lemma terminated_node: "node S d x \<Longrightarrow> terminated (xg_events x) t \<longleftrightarrow> blocked_at x t"
  using last_thread_id [of "xg_events x" t] by (auto simp: node_def terminated_def blocked_at_def last_event_def split: option.splits)

lemma max_depth_bound:
  assumes "wf_core x" "\<And>t. length (thread_ids (xg_events x) t) \<le> k"
  shows "compute_max_thread_event_depth x ts \<le> k"
  using assms by (simp add: compute_max_thread_event_depth_eq thread_event_count_eq)

lemma unrescheduled_stuck:
  assumes S: "search_ok S" and x: "sound S d x" and t: "blocked_at x t" "reschedule_candidate (s_program S) x t = Inr None"
  shows "thread_stuck S x t" "t \<in> set (s_threads S)"
proof -
  from blocked_awaits [OF S _ t(1), of d] x obtain rl where a: "awaits (s_program S) x t rl" "tm_contains (threads (s_program S)) t"
    by (auto simp: sound_def)
  with reschedule_candidate_node(2) [OF S x t(1) a] t show "thread_stuck S x t" by (auto simp: thread_stuck_def split: if_splits)
  show "t \<in> set (s_threads S)" using a(2) search_okD(2) [OF S] by blast
qed

lemma finished_ok:
  assumes S: "search_ok S" and x: "sound S d x" and e: "expands S x g nxt" "next_event nxt = None"
    and r: "\<forall>t\<in>set (s_threads S). reschedule_candidate (s_program S) x t = Inr None"
    and k: "(if suppressed_by_thread_event_limit nxt then Inr ThreadEventLimit
     else map_result (\<lambda>b. if b then Blocked else Full) (has_blocked_thread x)) = Inr kind"
  shows "terminal_ok S kind x"
proof -
  let ?cap = "capped (s_max_thread_events S) (xg_events x)"
  have n: "node S d x" using x by (simp add: sound_def)
  from expands_cases(2) [OF S x e] have idle: "\<And>t. t \<in> set (s_threads S) \<Longrightarrow> idle (s_program S) x (s_max_thread_events S) t"
    and sup: "suppressed_by_thread_event_limit nxt = (\<exists>u\<in>set (s_threads S). ?cap u \<and> \<not> blocked_at x u)"
    by (auto simp: terminated_node [OF n])
  have each: "thread_done S x t \<or> thread_stuck S x t \<or> ?cap t \<and> \<not> blocked_at x t" if "t \<in> set (s_threads S)" for t
  proof (cases "blocked_at x t")
    case True
    with unrescheduled_stuck [OF S x] r that show ?thesis by blast
  next
    case False
    have "answers (s_program S) x t"
      using safe_answers [OF search_okD(1) [OF S] nodeD(6) [OF n], of "s_model S" t] search_okD(2) [OF S] that x False
      by (auto simp: sound_def node_def terminated_node [OF n])
    with idle [OF that] False show ?thesis
      by (auto simp: idle_def terminated_node [OF n] thread_done_def answers_def calm_def offer_def offered_def)
  qed
  show ?thesis
  proof (cases "suppressed_by_thread_event_limit nxt")
    case True
    with k sup each show ?thesis by (auto simp: terminal_ok_def)
  next
    case False
    have bl: "has_blocked_thread x = Inr (\<exists>t. blocked_at x t)" using has_blocked_thread_eq [OF nodeD(2) [OF n]] by (simp add: blocked_at_def)
    have ds: "thread_done S x t \<or> thread_stuck S x t" if "t \<in> set (s_threads S)" for t
      using each [OF that] False sup that by auto
    show ?thesis
    proof (cases "\<exists>t. blocked_at x t")
      case True
      then obtain t where t: "blocked_at x t" ..
      then have "tm_contains (threads (s_program S)) t" using blocked_awaits [OF S n] by metis
      then have th: "t \<in> set (s_threads S)" using search_okD(2) [OF S] by blast
      with unrescheduled_stuck(1) [OF S x t] r have "thread_stuck S x t" by blast
      with th ds k False bl True show ?thesis by (auto simp: terminal_ok_def)
    next
      case none: False
      with ds have "\<forall>t\<in>set (s_threads S). thread_done S x t" by (auto simp: thread_stuck_def)
      with k False bl none show ?thesis by (auto simp: terminal_ok_def)
    qed
  qed
qed

lemma publishes_sound:
  assumes S: "search_ok S" and v: "sound_view S v" and p: "publishes S v p"
  shows "published_ok S p"
proof -
  have pub: "published_ok S (publication S kind y)" if y: "sound S d y" and k: "terminal_ok S kind y" for d y kind
  proof -
    have n: "node S d y" using y by (simp add: sound_def)
    with max_depth_bound [OF nodeD(2) [OF n], of "s_max_thread_events S" "s_threads S"]
    have "s_max_thread_events S \<noteq> 0 \<longrightarrow> compute_max_thread_event_depth y (s_threads S) \<le> s_max_thread_events S"
      by (auto simp: node_def)
    with y k n show ?thesis by (auto simp: published_ok_def publication_def execution_of_def sound_def node_def dest: in_set_butlastD)
  qed
  from p show ?thesis
  proof (cases rule: publishes.cases)
    case (publishes_depth_limit x f y g fs u)
    with v have "sound S (dpor_tree_depth f) y" using stacked_gate(1) [OF S _ publishes_depth_limit(3), of fs] by auto
    with pub [of _ y DepthLimit] publishes_depth_limit(2) show ?thesis by (simp add: terminal_ok_def)
  next
    case (publishes_finished x f y g nxt kind fs u)
    with v have y: "sound S (dpor_tree_depth f) y" using stacked_gate(1) [OF S _ publishes_finished(3), of fs] by auto
    from finished_ok [OF S y publishes_finished(4-7)] pub [OF y] publishes_finished(2) show ?thesis by simp
  next
    case (publishes_error x f y g nxt t m i z fs u)
    with v have y: "sound S (dpor_tree_depth f) y" "dpor_tree_depth g = dpor_tree_depth f"
      using stacked_gate(1,5) [OF S _ publishes_error(3), of fs] by auto
    from expands_cases(1) [OF S y(1) publishes_error(4,5)] obtain l where l: "schedulable S y t l" "Error m = scheduled y t l" by blast
    then have le: "l = Error m" using schedulable_scheduled(5) [OF S l(1)] by metis
    have dp: "dpor_tree_depth f < s_max_depth S" using publishes_error(4) y(2) by (simp add: expands_def)
    have "instance_of l (Error m)" by (simp add: le instance_of_def)
    note a = sound_add [OF S y(1) dp l(1) this _ publishes_error(6)]
    from a(5) obtain ev where ev: "xg_events z = xg_events y @ [ev]" "thread ev = t" "label ev = Error m" by auto
    have z: "wf_xg z" "consistent_graph S z" "follows (s_program S) (xg_events z) (xg_rf z)" using a(3,4,6) by auto
    have "last_event (xg_events z) t = Some ev" "is_error ev"
      using ev by (simp_all add: last_event_def thread_ids_append is_error_def)
    then have k: "terminal_ok S ErrorExecution z" using l(1) by (auto simp: terminal_ok_def schedulable_def)
    have "length (thread_ids (xg_events z) u) \<le> s_max_thread_events S" if "s_max_thread_events S \<noteq> 0" for u
      using y(1) l(1) that ev by (auto simp: thread_ids_append sound_def node_def schedulable_def capped_def)
    then have "s_max_thread_events S \<noteq> 0 \<longrightarrow> compute_max_thread_event_depth z (s_threads S) \<le> s_max_thread_events S"
      using max_depth_bound [of z] z(1) by (auto simp: wf_xg_def)
    moreover have "\<forall>e\<in>set (butlast (xg_events z)). \<not> is_error e" using y(1) ev(1) by (simp add: sound_def node_def)
    ultimately show ?thesis using z k publishes_error(2) by (auto simp: published_ok_def publication_def execution_of_def)
  qed
qed

text \<open>A task that may be explored: its graph is a node, and a sound one when it is entered without a test.\<close>

definition task_ok :: "'v Search \<Rightarrow> 'v ExplorationTask \<Rightarrow> bool" where
  "task_ok S task \<longleftrightarrow> node S (task_dpor_tree_depth task) (task_graph task)
     \<and> (task_mode task = Visit \<longrightarrow> consistent_graph S (task_graph task))"

lemma hands_off_ok:
  assumes S: "search_ok S" and v: "sound_view S v" "stack_ok (s_max_depth S) v" and h: "hands_off S v task"
  shows "task_ok S task"
  using h
proof (cases rule: hands_off.cases)
  case (hands_nd f x y nd i z fs u)
  then have "dpor_tree_depth f < s_max_depth S" using v(2) by (auto simp: stack_ok_top resumed_def)
  with v hands_nd resume_moves_sound(3) [OF S, of x f fs y nd "copy_graph y"] show ?thesis
    by (auto simp: task_ok_def handed_def sound_def simp del: stacked.simps)
next
  case (hands_receive f x y rl z fs u)
  then have "dpor_tree_depth f < s_max_depth S" using v(2) by (auto simp: stack_ok_top resumed_def)
  with v hands_receive resume_moves_sound(4) [OF S, of x f fs y rl "from_send (candidate_event_ids f ! cursor f)" "copy_graph y"]
  show ?thesis by (auto simp: task_ok_def handed_def simp del: stacked.simps)
next
  case (hands_revisit f x i nxt z fs u)
  with v revisit_moves_sound [OF S, of x f fs] show ?thesis by (auto simp: task_ok_def handed_def simp del: stacked.simps)
qed

lemma sound_invariant:
  assumes S: "search_ok S"
  shows "view_invariant S (published_ok S) (task_ok S) (sound_view S)"
  unfolding view_invariant_def
proof (intro conjI allI impI)
  show "sound_view S v'" if "sound_view S v" "stack_ok (s_max_depth S) v" "moves S v v'" for v v'
    by (rule moves_sound [OF S that])
  show "published_ok S p" if "sound_view S v" "publishes S v p" for v p by (rule publishes_sound [OF S that])
  show "task_ok S task" if "sound_view S v" "stack_ok (s_max_depth S) v" "hands_off S v task" for v task
    by (rule hands_off_ok [OF S that])
  show "sound_view S v'" if "sound_view S v" "idles S v v'" for v v'
    using that(2)
  proof (cases rule: idles.cases)
    case (idles_gate x f y g fs u)
    from that(1) idles_gate(1) have st: "stacked S x (f # fs)" "sound_view S u" by auto
    note y = stacked_gate [OF S st(1) idles_gate(3)]
    with st(2) idles_gate(2) show ?thesis by (simp add: sound_def)
  qed
qed

section \<open>Properties\<close>

text \<open>
  What a client has to provide: user code of the program that never throws, thread ids in the supported range,
  and a depth bound that fits the 32-bit event indices.
\<close>

definition config_ok :: "('v, 'u) DporConfig \<Rightarrow> bool" where
  "config_ok config \<longleftrightarrow> safe_program (config_program config)
     \<and> (\<forall>t. tm_contains (threads (config_program config)) t \<longrightarrow> t \<le> kMaxThreadId) \<and> max_depth config \<le> 2 ^ 32"

definition search :: "('v, 'u) DporConfig \<Rightarrow> 'v Search" where
  "search config = search_of config (config_program config) (map fst (for_each_assigned (threads (config_program config))))"

lemma search_fields [simp]:
  "s_program (search config) = config_program config" "s_max_depth (search config) = max_depth config"
  "s_max_thread_events (search config) = max_thread_events config"
  by (simp_all add: search_def search_of_def)

lemma config_search_ok: "config_ok config \<Longrightarrow> search_ok (search config)"
  using set_assigned_ids [of "threads (config_program config)"]
  by (auto simp: config_ok_def search_ok_def search_def search_of_def tm_assigned_def)

lemma sorted_search:
  assumes "sorted_thread_ids (config_program config) = Inr ts"
  shows "search_of config (config_program config) ts = search config"
  using assms by (auto simp: sorted_thread_ids_def search_def)

lemma verify_sound_outcome:
  fixes config :: "('v::linorder, 'u) DporConfig"
  assumes "config_ok config" "U u"
  shows "\<exists>r u'. verify config clock u = Some (r, u') \<and> (observers_keep config clock (published_ok (search config)) U \<longrightarrow> U u')
    \<and> (\<forall>res. r = Inr res \<longrightarrow> max_thread_events config \<noteq> 0 \<longrightarrow> max_thread_event_depth_reached res \<le> max_thread_events config)
    \<and> (\<forall>e. r = Inl e \<longrightarrow> observer_raises config e \<or> validate_terminal_observer_config config = Inl e
         \<or> sorted_thread_ids (config_program config) = Inl e)"
proof -
  note S = config_search_ok [OF assms(1)]
  have inv: "view_invariant (search_of config (config_program config) ts) (published_ok (search config)) (\<lambda>_. True)
      (sound_view (search config))"
    if "sorted_thread_ids (config_program config) = Inr ts" for ts
    unfolding sorted_search [OF that] by (rule view_invariant_weaken [OF sound_invariant [OF S]])
  have init: "sound_view (search config) [(empty_xg, [enter 0 Visit])]" using empty_node [of "search config"] by simp
  have bound: "max_thread_events config \<noteq> 0 \<Longrightarrow> \<forall>x k d. published_ok (search config) (x, k, d) \<longrightarrow> d \<le> max_thread_events config"
    by (auto simp: published_ok_def)
  have no: "\<not> fails (search_of config (config_program config) ts) v e"
    if "sorted_thread_ids (config_program config) = Inr ts" "sound_view (search config) v" "stack_ok (max_depth config) v" for ts v e
    using fails_not [OF S that(2)] that(3) sorted_search [OF that(1)] by simp
  from verify_outcome [where I = "sound_view (search config)" and U = U and bound = "max_thread_events config" and clock = clock,
      OF inv init assms(2)] obtain r u' where
    "verify config clock u = Some (r, u')" "observers_keep config clock (published_ok (search config)) U \<longrightarrow> U u'"
    "\<forall>res. r = Inr res \<longrightarrow> (\<forall>x k d. published_ok (search config) (x, k, d) \<longrightarrow> d \<le> max_thread_events config) \<longrightarrow>
       max_thread_event_depth_reached res \<le> max_thread_events config"
    "\<forall>e. r = Inl e \<longrightarrow> observer_raises config e \<or> validate_terminal_observer_config config = Inl e
         \<or> sorted_thread_ids (config_program config) = Inl e
         \<or> (\<exists>ts v. sorted_thread_ids (config_program config) = Inr ts \<and> sound_view (search config) v \<and> stack_ok (max_depth config) v
              \<and> fails (search_of config (config_program config) ts) v e)"
    by blast
  with bound no show ?thesis by blast
qed

text \<open>C1. Soundness. Every execution that a sequential verification hands to its observers is a consistent
  execution of the program in the configured communication model, of the kind it is published as: in a full one
  every thread is done, in a blocked one every thread is done or waits at a receive that no unread send
  satisfies, an error execution ends in an error event, and a thread-limited one has a thread that
  reached the limit. Hence whatever property of the user state the observers keep on such executions
  holds when the verification returns, and it does return.\<close>

theorem verify_publishes_executions:
  fixes config :: "('v::linorder, 'u) DporConfig"
  assumes "config_ok config" "observers_keep config clock (published_ok (search config)) U" "U u"
  shows "\<exists>r u'. verify config clock u = Some (r, u') \<and> U u'"
  using verify_sound_outcome [of config U u clock, OF assms(1,3)] assms(2) by blast

lemma sample_config_ok: "config_ok sample_config"
  using total_safe [OF sample_program_total] by (auto simp: config_ok_def sample_config_def sample_program_contains kMaxThreadId_def)

theorem verify_publishes_executions_witness:
  "\<exists>r seen. verify sample_config (\<lambda>u. (0, u)) [] = Some (r, seen)
     \<and> (\<forall>e\<in>set seen. execution_of (search sample_config) (execution_graph e)
          \<and> terminal_ok (search sample_config) (execution_kind e) (execution_graph e))"
proof (rule verify_publishes_executions [OF sample_config_ok, where U = "\<lambda>seen. \<forall>e\<in>set seen.
    execution_of (search sample_config) (execution_graph e)
    \<and> terminal_ok (search sample_config) (execution_kind e) (execution_graph e)"])
  show "observers_keep sample_config (\<lambda>u. (0, u)) (published_ok (search sample_config)) (\<lambda>seen. \<forall>e\<in>set seen.
      execution_of (search sample_config) (execution_graph e)
      \<and> terminal_ok (search sample_config) (execution_kind e) (execution_graph e))"
    by (auto simp: observers_keep_def sample_config_def published_ok_def)
qed simp

text \<open>C3. No exception comes out of the search: with user code that never throws, a valid observer configuration
  and compact thread ids, the verification returns a result, and with a per-thread event limit the deepest
  thread it reports is within that limit.\<close>

theorem verify_never_throws:
  fixes config :: "('v::linorder, 'u) DporConfig"
  assumes "config_ok config" "\<And>e. \<not> observer_raises config e" "validate_terminal_observer_config config = Inr ()"
    and "validate_compact_thread_ids (threads (config_program config)) = Inr ()"
  shows "\<exists>res u'. verify config clock u = Some (Inr res, u')
    \<and> (max_thread_events config \<noteq> 0 \<longrightarrow> max_thread_event_depth_reached res \<le> max_thread_events config)"
proof -
  have "sorted_thread_ids (config_program config) = Inr (map fst (for_each_assigned (threads (config_program config))))"
    using assms(4) by (simp add: sorted_thread_ids_def)
  with verify_sound_outcome [of config "\<lambda>_. True" u clock] assms obtain r u' where
    r: "verify config clock u = Some (r, u')" "\<forall>res. r = Inr res \<longrightarrow> max_thread_events config \<noteq> 0 \<longrightarrow>
      max_thread_event_depth_reached res \<le> max_thread_events config" "\<forall>e. r \<noteq> Inl e" by auto
  then show ?thesis by (cases r) auto
qed

theorem verify_never_throws_witness:
  "\<exists>res u'. verify sample_config (\<lambda>u. (0, u)) [] = Some (Inr res, u')"
proof -
  have "\<not> observer_raises sample_config e" for e by (auto simp: observer_raises_def sample_config_def)
  moreover have "validate_terminal_observer_config sample_config = Inr ()"
    by (simp add: validate_terminal_observer_config_def sample_config_def)
  moreover have "validate_compact_thread_ids (threads (config_program sample_config)) = Inr ()"
  proof -
    have "wf_tm (threads sample_program)" by (simp add: sample_program_def tm_of_list_wf)
    moreover have "tm_assigned (threads sample_program) = {0..<2}" by (auto simp: tm_assigned_def sample_program_contains)
    ultimately show ?thesis using validate_compact_correct [of "threads sample_program"] by (auto simp: sample_config_def)
  qed
  ultimately show ?thesis using verify_never_throws [OF sample_config_ok, of "\<lambda>u. (0, u)" "[]"] by blast
qed

end
