(* ===== verification/Parallel_Worker.thy ===== *)
theory Parallel_Worker
  imports Parallel Soundness
begin

text \<open>
  One worker of the parallel executor among arbitrary others. The other workers may do whatever keeps the tasks in
  the queue acceptable, what the observers keep, and a stop request; under such interference the parallel
  executor meets the executor interface. So a worker finishes every task, publishes sound executions only, and
  hands off acceptable tasks only, which is what it relies on in the others.
\<close>

definition shared_good ::
    "('v, 'u) DporConfig \<Rightarrow> ('u \<Rightarrow> int \<times> 'u) \<Rightarrow> ('v publication \<Rightarrow> bool) \<Rightarrow> ('v ExplorationTask \<Rightarrow> bool) \<Rightarrow> ('u \<Rightarrow> bool)
     \<Rightarrow> ('v, 'u) Shared \<Rightarrow> bool" where
  "shared_good config clock ok acc U sh \<longleftrightarrow> (\<forall>task\<in>set (task_queue sh). acc task)
     \<and> (observers_keep config clock ok U \<longrightarrow> U (shared_user sh))"

text \<open>What an access may do to the shared members.\<close>

definition safe_step :: "(('v, 'u) Shared \<Rightarrow> bool) \<Rightarrow> ('v, 'u) Shared \<Rightarrow> ('v, 'u) Shared \<Rightarrow> bool" where
  "safe_step G sh sh' \<longleftrightarrow> (G sh \<longrightarrow> G sh') \<and> (stop_flag sh \<longrightarrow> stop_flag sh')"

definition worker_good :: "(('v, 'u) Shared \<Rightarrow> bool) \<Rightarrow> ('v, 'u) Worker \<Rightarrow> bool" where
  "worker_good G w \<longleftrightarrow> (\<forall>k sh. safe_step G sh (interference w k sh)) \<and> G (shared w)
     \<and> (cached_stop (worker_state w) \<longrightarrow> stop_flag (shared w))"

definition worker_stopped :: "ParallelVerifyOptions \<Rightarrow> ('v, 'u) Worker \<Rightarrow> bool" where
  "worker_stopped o' w \<longleftrightarrow> stop_flag (shared w) \<and> (sync_steps o' \<noteq> 0 \<longrightarrow> cached_stop (worker_state w))"

lemma access_good:
  assumes "worker_good G w" "access f w = (a, w')" "\<And>sh. G sh \<Longrightarrow> safe_step G sh (snd (f sh))"
  shows "worker_good G w'" "worker_state w' = worker_state w" "stop_flag (shared w) \<Longrightarrow> stop_flag (shared w')"
    "\<exists>sh. G sh \<and> (stop_flag (shared w) \<longrightarrow> stop_flag sh) \<and> f sh = (a, shared w')"
proof -
  let ?sh = "interference w (accesses w) (shared w)"
  have sh: "G ?sh" "stop_flag (shared w) \<longrightarrow> stop_flag ?sh"
    using assms(1) by (auto simp: worker_good_def safe_step_def)
  obtain sh' where f: "f ?sh = (a, sh')" "w' = w\<lparr>shared := sh', accesses := accesses w + 1\<rparr>"
    using assms(2) by (auto simp: access_def split: prod.splits)
  from assms(3) [OF sh(1)] f have st: "safe_step G ?sh sh'" by simp
  show "worker_good G w'" using assms(1) st sh f(2) by (auto simp: worker_good_def safe_step_def)
  show "worker_state w' = worker_state w" using f(2) by simp
  show "stop_flag (shared w')" if "stop_flag (shared w)" using that st sh f(2) by (simp add: safe_step_def)
  show "\<exists>sh. G sh \<and> (stop_flag (shared w) \<longrightarrow> stop_flag sh) \<and> f sh = (a, shared w')" using sh f by auto
qed

lemma store_good:
  assumes "worker_good G w" "\<And>sh. G sh \<Longrightarrow> safe_step G sh (f sh)"
  shows "worker_good G (store f w)" "worker_state (store f w) = worker_state w"
    "stop_flag (shared w) \<Longrightarrow> stop_flag (shared (store f w))" "\<exists>sh. shared (store f w) = f sh"
proof -
  obtain a :: unit and w' where q: "access (\<lambda>sh. ((), f sh)) w = (a, w')" by (cases "access (\<lambda>sh. ((), f sh)) w")
  note g = access_good [OF assms(1) q] and eq = q
  have w': "store f w = w'" by (simp add: store_def q)
  show "worker_good G (store f w)" "worker_state (store f w) = worker_state w"
    "stop_flag (shared w) \<Longrightarrow> stop_flag (shared (store f w))" unfolding w' using g(1-3) assms(2) by auto
  show "\<exists>sh. shared (store f w) = f sh" unfolding w' using g(4) assms(2) by (metis prod.inject snd_conv)
qed

lemma store_state [simp]: "worker_state (store f w) = worker_state w" "worker_state (store_if b f w) = worker_state w"
  by (simp_all add: store_if_def store_def access_def split: prod.splits)

lemma load_good:
  assumes "worker_good G w" "load field w = (a, w')"
  shows "worker_good G w'" "worker_state w' = worker_state w" "stop_flag (shared w) \<Longrightarrow> stop_flag (shared w')" "a = field (shared w')"
  using access_good [OF assms(1), of "\<lambda>sh. (field sh, sh)" a w'] assms(2) by (auto simp: load_def safe_step_def)

lemma on_local_good:
  assumes "worker_good G w" "cached_stop (f (worker_state w)) \<Longrightarrow> cached_stop (worker_state w) \<or> stop_flag (shared w)"
  shows "worker_good G (on_local f w)"
  using assms by (auto simp: worker_good_def on_local_def)

lemma on_local_fields [simp]: "shared (on_local f w) = shared w" "worker_state (on_local f w) = f (worker_state w)"
  by (simp_all add: on_local_def)

section \<open>Stopping\<close>

lemma par_stop_good:
  assumes "worker_good G w" "par_stop_requested o' w = (b, w')"
  shows "worker_good G w'" "b \<Longrightarrow> worker_stopped o' w'" "worker_stopped o' w \<Longrightarrow> b"
    "worker_state w' = (worker_state w)\<lparr>steps_since_sync := steps_since_sync (worker_state w'), cached_stop := cached_stop (worker_state w')\<rparr>"
proof -
  have "worker_good G w' \<and> (b \<longrightarrow> worker_stopped o' w') \<and> (worker_stopped o' w \<longrightarrow> b)
    \<and> worker_state w' = (worker_state w)\<lparr>steps_since_sync := steps_since_sync (worker_state w'), cached_stop := cached_stop (worker_state w')\<rparr>"
  proof (cases "sync_steps o' = 0")
    case True
    with assms load_good [OF assms(1), of stop_flag b w'] show ?thesis by (auto simp: par_stop_requested_def worker_stopped_def)
  next
    case nz: False
    show ?thesis
    proof (cases "steps_since_sync (worker_state w) + 1 \<ge> sync_steps o'")
      case False
      have "worker_good G (on_local (\<lambda>l. l\<lparr>steps_since_sync := steps_since_sync l + 1\<rparr>) w)"
        by (rule on_local_good [OF assms(1)]) simp
      with nz False assms show ?thesis by (auto simp: par_stop_requested_def worker_stopped_def worker_good_def)
    next
      case True
      let ?w1 = "on_local (\<lambda>l. l\<lparr>steps_since_sync := 0\<rparr>) w"
      have g1: "worker_good G ?w1" by (rule on_local_good [OF assms(1)]) simp
      obtain stop w2 where l: "load stop_flag ?w1 = (stop, w2)" by force
      note ld = load_good [OF g1 l]
      have w': "b = stop" "w' = on_local (\<lambda>l. l\<lparr>cached_stop := stop\<rparr>) w2"
        using assms(2) nz True l by (auto simp: par_stop_requested_def)
      have "worker_good G w'" unfolding w'(2) by (rule on_local_good [OF ld(1)]) (simp add: ld(4))
      with w' ld show ?thesis by (auto simp: worker_stopped_def)
    qed
  qed
  then show "worker_good G w'" "b \<Longrightarrow> worker_stopped o' w'" "worker_stopped o' w \<Longrightarrow> b"
    "worker_state w' = (worker_state w)\<lparr>steps_since_sync := steps_since_sync (worker_state w'), cached_stop := cached_stop (worker_state w')\<rparr>"
    by auto
qed

section \<open>Counting and reporting\<close>

lemma store_if_good:
  assumes "worker_good G w" "\<And>sh. G sh \<Longrightarrow> safe_step G sh (f sh)"
  shows "worker_good G (store_if b f w)" "worker_state (store_if b f w) = worker_state w"
    "stop_flag (shared w) \<Longrightarrow> stop_flag (shared (store_if b f w))"
  using store_good [OF assms] assms(1) by (auto simp: store_if_def)

lemmas good_simps = safe_step_def shared_good_def

lemma flush_good:
  assumes "worker_good (shared_good config clock ok acc U) w"
  shows "worker_good (shared_good config clock ok acc U) (flush_local_counts w)"
    "worker_state (flush_local_counts w) = clear_counts (worker_state w)"
    "stop_flag (shared w) \<Longrightarrow> stop_flag (shared (flush_local_counts w))"
proof -
  show "worker_good (shared_good config clock ok acc U) (flush_local_counts w)"
    unfolding flush_local_counts_def Let_def
    by (intro on_local_good store_if_good(1) assms) (simp_all add: good_simps clear_counts_def)
  show "worker_state (flush_local_counts w) = clear_counts (worker_state w)" by (simp add: flush_local_counts_def Let_def)
  show "stop_flag (shared (flush_local_counts w))" if "stop_flag (shared w)"
    unfolding flush_local_counts_def Let_def on_local_fields
    by (intro store_if_good(1,3) [where G = "shared_good config clock ok acc U"] assms that) (simp_all add: good_simps)
qed

lemma increment_good:
  assumes "worker_good (shared_good config clock ok acc U) w"
  shows "worker_good (shared_good config clock ok acc U) (increment_local_terminal_counts config' o' kind d w)"
proof -
  have "worker_good (shared_good config clock ok acc U) (on_local (add_terminal kind d) w)"
    by (rule on_local_good [OF assms]) (simp add: add_terminal_def Let_def split: if_splits TerminalExecutionKind.splits)
  with flush_good(1) [OF this] show ?thesis by (simp add: increment_local_terminal_counts_def Let_def)
qed

lemma worker_call_good:
  assumes "worker_good (shared_good config clock ok acc U) w" "worker_call m w = (r, w')"
    and "\<And>u. observers_keep config clock ok U \<Longrightarrow> U u \<Longrightarrow> U (snd (m u))"
  shows "worker_good (shared_good config clock ok acc U) w'" "\<exists>u u'. m u = (r, u')"
    "worker_state w' = worker_state w" "stop_flag (shared w) \<Longrightarrow> stop_flag (shared w')"
proof -
  let ?f = "\<lambda>sh :: ('a, 'b) Shared. case m (shared_user sh) of (r, u) \<Rightarrow> (r, sh\<lparr>shared_user := u\<rparr>)"
  have "safe_step (shared_good config clock ok acc U) sh (snd (?f sh))" for sh
    using assms(3) [of "shared_user sh"] by (cases "m (shared_user sh)") (auto simp: good_simps)
  note a = access_good [OF assms(1) assms(2) [unfolded worker_call_def] this]
  show "worker_good (shared_good config clock ok acc U) w'" "worker_state w' = worker_state w"
    "stop_flag (shared w) \<Longrightarrow> stop_flag (shared w')" using a(1-3) by auto
  from a(4) obtain sh where "?f sh = (r, shared w')" by blast
  then show "\<exists>u u'. m u = (r, u')" by (cases "m (shared_user sh)") auto
qed

lemma worker_clock_good:
  assumes "worker_good (shared_good config clock ok acc U) w" "worker_clock clock w = (now, w')"
  shows "worker_good (shared_good config clock ok acc U) w'"
proof -
  let ?f = "\<lambda>sh :: ('a, 'b) Shared. case clock (shared_user sh) of (now, u) \<Rightarrow> (now, sh\<lparr>shared_user := u\<rparr>)"
  have "safe_step (shared_good config clock ok acc U) sh (snd (?f sh))" for sh
    by (cases "clock (shared_user sh)") (auto simp: good_simps observers_keep_def dest: spec [of _ "shared_user sh"])
  from access_good(1) [OF assms(1) assms(2) [unfolded worker_clock_def] this] show ?thesis .
qed

lemma snapshot_good:
  assumes "worker_good G w" "par_make_progress_snapshot o' start_time st now exact w = (snapshot, w')"
  shows "worker_good G w'"
  using assms(2) assms(1)
  by (auto simp: par_make_progress_snapshot_def split: prod.splits dest!: load_good(1) [rotated])

lemma publish_progress_good:
  assumes "worker_good (shared_good config clock ok acc U) w" "publish_progress_snapshot config o' start_time st now exact w = (r, w')"
  shows "worker_good (shared_good config clock ok acc U) w'" "r = Inl e \<Longrightarrow> observer_raises config e"
proof -
  obtain snapshot w1 where s: "par_make_progress_snapshot o' start_time st now exact (flush_local_counts w) = (snapshot, w1)" by force
  have g: "worker_good (shared_good config clock ok acc U) w1" by (rule snapshot_good [OF flush_good(1) [OF assms(1)] s])
  have c: "worker_call (notify_progress config snapshot) w1 = (r, w')" using assms(2) s by (simp add: publish_progress_snapshot_def)
  have k: "observers_keep config clock ok U \<Longrightarrow> U u \<Longrightarrow> U (snd (notify_progress config snapshot u))" for u
    using notify_progress_keeps(1) [of config snapshot u] by (metis prod.collapse)
  show "worker_good (shared_good config clock ok acc U) w'" by (rule worker_call_good(1) [OF g c k])
  show "observer_raises config e" if "r = Inl e"
    using worker_call_good(2) [OF g c k] that notify_progress_keeps(2) by metis
qed

lemma poll_progress_good:
  assumes "worker_good (shared_good config clock ok acc U) w" "poll_progress config o' clock start_time w = (r, w')"
  shows "worker_good (shared_good config clock ok acc U) w'" "r = Inl e \<Longrightarrow> observer_raises config e"
proof -
  let ?G = "shared_good config clock ok acc U"
  obtain now w1 where c: "worker_clock clock w = (now, w1)" by force
  note g1 = worker_clock_good [OF assms(1) c]
  obtain due w2 where l: "load next_progress_report_tick w1 = (due, w2)" by force
  note g2 = load_good(1) [OF g1 l]
  let ?next = "now + progress_report_interval config"
  obtain claimed w3 where k: "claim_progress_report now ?next w2 = (claimed, w3)" by force
  have g3: "worker_good ?G w3" by (rule access_good(1) [OF g2 k [unfolded claim_progress_report_def]]) (simp add: good_simps)
  have "worker_good ?G w' \<and> (r = Inl e \<longrightarrow> observer_raises config e)"
  proof (cases "now < due \<or> \<not> claimed")
    case True
    with assms(2) c l k g2 g3 show ?thesis by (auto simp: poll_progress_def split: if_splits)
  next
    case False
    with assms(2) c l k have "publish_progress_snapshot config o' start_time Running now (live_counts_exact o') w3 = (r, w')"
      by (simp add: poll_progress_def)
    from publish_progress_good [OF g3 this] show ?thesis by blast
  qed
  then show "worker_good ?G w'" "r = Inl e \<Longrightarrow> observer_raises config e" by auto
qed

lemma maybe_report_good:
  assumes "worker_good (shared_good config clock ok acc U) w" "par_maybe_report_progress config o' clock start_time w = (r, w')"
  shows "worker_good (shared_good config clock ok acc U) w'" "r = Inl e \<Longrightarrow> observer_raises config e"
proof -
  let ?G = "shared_good config clock ok acc U"
  let ?w1 = "on_local (\<lambda>l. l\<lparr>steps_since_progress_poll := steps_since_progress_poll l + 1\<rparr>) w"
  let ?w2 = "on_local (\<lambda>l. l\<lparr>steps_since_progress_poll := 0\<rparr>) ?w1"
  obtain now w3 where c: "worker_clock clock w = (now, w3)" by force
  have g1: "worker_good ?G ?w1" by (rule on_local_good [OF assms(1)]) simp
  have g2: "worker_good ?G ?w2" by (rule on_local_good [OF g1]) simp
  note g3 = worker_clock_good [OF assms(1) c]
  from assms(2) consider "w' = w" "r = Inr ()" | "w' = ?w1" "r = Inr ()"
    | "publish_progress_snapshot config o' start_time Running now (live_counts_exact o') w3 = (r, w')"
    | "poll_progress config o' clock start_time ?w2 = (r, w')" | "poll_progress config o' clock start_time w = (r, w')"
    unfolding par_maybe_report_progress_def Let_def c by (metis (no_types, lifting) prod.case prod.inject)
  then have "worker_good ?G w' \<and> (r = Inl e \<longrightarrow> observer_raises config e)"
  proof cases
    case 3
    from publish_progress_good [OF g3 this] show ?thesis by blast
  next
    case 4
    from poll_progress_good [OF g2 this] show ?thesis by blast
  next
    case 5
    from poll_progress_good [OF assms(1) this] show ?thesis by blast
  qed (use assms(1) g1 in auto)
  then show "worker_good ?G w'" "r = Inl e \<Longrightarrow> observer_raises config e" by auto
qed

section \<open>Publishing and handing off\<close>

lemma request_stop_good:
  assumes "worker_good (shared_good config clock ok acc U) w"
  shows "worker_good (shared_good config clock ok acc U) (par_request_stop w)"
  unfolding par_request_stop_def
proof (rule on_local_good)
  have s: "safe_step (shared_good config clock ok acc U) sh (sh\<lparr>stop_flag := True\<rparr>)" for sh by (simp add: good_simps)
  show "worker_good (shared_good config clock ok acc U) (store (\<lambda>sh. sh\<lparr>stop_flag := True\<rparr>) w)"
    by (rule store_good(1) [OF assms s])
  show "cached_stop (worker_state (store (\<lambda>sh. sh\<lparr>stop_flag := True\<rparr>) w)) \<or> stop_flag (shared (store (\<lambda>sh. sh\<lparr>stop_flag := True\<rparr>) w))"
    using store_good(4) [OF assms s] by auto
qed

lemma publish_good:
  assumes "worker_good (shared_good config clock ok acc U) w" "ok (x, kind, d)"
    and "par_publish_terminal_execution config o' x kind d w = (r, w')"
  shows "worker_good (shared_good config clock ok acc U) w'" "r = Inl e \<Longrightarrow> observer_raises config e"
proof -
  let ?G = "shared_good config clock ok acc U"
  obtain stop w1 where q: "(if sync_steps o' = 0 then load stop_flag w else par_stop_requested o' w) = (stop, w1)" by force
  then have g1: "worker_good ?G w1"
    using load_good(1) [OF assms(1)] par_stop_good(1) [OF assms(1)] by (auto split: if_splits)
  let ?w2 = "increment_local_terminal_counts config o' kind d w1"
  note g2 = increment_good [OF g1, of config o' kind d]
  obtain act w3 where c: "worker_call (notify_terminal_execution config x kind) ?w2 = (act, w3)" by force
  have k: "observers_keep config clock ok U \<Longrightarrow> U u \<Longrightarrow> U (snd (notify_terminal_execution config x kind u))" for u
    using notify_terminal_keeps(1) [of config x kind u _ _ ok d clock U, OF _ assms(2)] by (metis prod.collapse)
  note g3 = worker_call_good [OF g2 c k]
  have "worker_good ?G w' \<and> (r = Inl e \<longrightarrow> observer_raises config e)"
  proof (cases stop)
    case True
    with assms(3) q g1 show ?thesis by (auto simp: par_publish_terminal_execution_def)
  next
    case False
    show ?thesis
    proof (cases act)
      case (Inl e')
      with False assms(3) q c have "r = Inl e'" "w' = w3" by (auto simp: par_publish_terminal_execution_def bind_action_def)
      moreover have "observer_raises config e'"
        using g3(2) Inl notify_terminal_keeps(2) [of config x kind _ _ _ "\<lambda>_. True"] by metis
      ultimately show ?thesis using g3(1) by auto
    next
      case (Inr a)
      with False assms(3) q c have "r = Inr True" "w' = (if a = Stop then par_request_stop w3 else w3)"
        by (auto simp: par_publish_terminal_execution_def bind_action_def)
      with g3(1) request_stop_good [OF g3(1)] show ?thesis by simp
    qed
  qed
  then show "worker_good ?G w'" "r = Inl e \<Longrightarrow> observer_raises config e" by auto
qed

lemma publish_raises:
  assumes "par_publish_terminal_execution config o' x kind d w = (Inl e, w')"
  shows "observer_raises config e"
proof -
  obtain stop w1 where q: "(if sync_steps o' = 0 then load stop_flag w else par_stop_requested o' w) = (stop, w1)" by force
  obtain act w3 where c: "worker_call (notify_terminal_execution config x kind) (increment_local_terminal_counts config o' kind d w1) = (act, w3)"
    by force
  then obtain u u' where "notify_terminal_execution config x kind u = (act, u')"
    by (auto simp: worker_call_def access_def split: prod.splits)
  moreover have "act = Inl e"
    using assms q c by (auto simp: par_publish_terminal_execution_def bind_action_def split: if_splits sum.splits)
  ultimately show ?thesis using notify_terminal_keeps(2) [of config x kind u act u' "\<lambda>_. True" d e] by simp
qed

lemma can_spawn_good:
  assumes "worker_good G w" "par_can_spawn o' d w = (b, w')"
  shows "worker_good G w'"
  using assms par_stop_good(1) [OF assms(1)] by (auto simp: par_can_spawn_def split: if_splits prod.splits)

lemma split_good:
  assumes "worker_good G w" "par_should_split_to_idle_worker o' d w = (b, w')"
  shows "worker_good G w'"
proof -
  have spawn: "worker_good G w2" if "worker_good G w1" "spawn_if_idle o' d w1 = (b', w2)" for w1 w2 b'
    using that can_spawn_good [OF that(1)] by (auto simp: spawn_if_idle_def split: if_splits)
  have loc: "worker_good G (on_local f w1)" if "worker_good G w1" "\<And>l. cached_stop (f l) = cached_stop l" for f and w1 :: "('a, 'b) Worker"
    by (rule on_local_good [OF that(1)]) (simp add: that(2))
  have poll: "worker_good G w3" if "worker_good G w1" "(case load idle_workers w1 of (n, w2) \<Rightarrow>
      spawn_if_idle o' d (on_local (\<lambda>l. l\<lparr>cached_workers_idle := (n \<noteq> 0)\<rparr>) w2)) = (b', w3)" for w1 w3 b'
  proof -
    obtain n w2 where l: "load idle_workers w1 = (n, w2)" by force
    have "worker_good G (on_local (\<lambda>l. l\<lparr>cached_workers_idle := (n \<noteq> 0)\<rparr>) w2)" by (rule loc [OF load_good(1) [OF that(1) l]]) simp
    from spawn [OF this] that(2) l show ?thesis by simp
  qed
  let ?w1 = "on_local (\<lambda>l. l\<lparr>steps_since_split_poll := steps_since_split_poll l + 1\<rparr>) w"
  let ?w2 = "on_local (\<lambda>l. l\<lparr>steps_since_split_poll := 0\<rparr>) ?w1"
  have g: "worker_good G ?w1" "worker_good G ?w2" by (intro loc assms(1); simp)+
  show ?thesis
    using assms(2) assms(1) spawn [OF g(1)] poll [OF g(2)] poll [OF assms(1)]
    unfolding par_should_split_to_idle_worker_def Let_def by (simp split: if_splits)
qed

lemma enqueue_good:
  assumes "worker_good (shared_good config clock ok acc U) w" "acc task" "par_try_enqueue o' task w = (b, w')"
  shows "worker_good (shared_good config clock ok acc U) w'"
proof -
  let ?G = "shared_good config clock ok acc U"
  obtain stop w1 where q: "par_stop_requested o' w = (stop, w1)" by force
  note g1 = par_stop_good(1) [OF assms(1) q]
  have "safe_step ?G sh (snd (enqueue_locked o' task sh))" for sh
    using assms(2) by (auto simp: good_simps enqueue_locked_def)
  from access_good(1) [OF g1 _ this] assms(1,3) q g1 show ?thesis by (auto simp: par_try_enqueue_def split: if_splits)
qed

lemma fatal_good:
  assumes "worker_good (shared_good config clock ok acc U) w"
  shows "worker_good (shared_good config clock ok acc U) (par_notify_fatal_error config x e w)"
proof (cases "on_fatal_error config")
  case (Some f)
  let ?G = "shared_good config clock ok acc U"
  obtain reported w1 where a: "access (\<lambda>sh. (fatal_error_reported sh, sh\<lparr>fatal_error_reported := True\<rparr>)) w = (reported, w1)" by force
  have g1: "worker_good ?G w1" by (rule access_good(1) [OF assms a]) (simp add: good_simps)
  obtain r w2 where c: "worker_call (f \<lparr>failure_graph = x, failure = e\<rparr>) w1 = (r, w2)" by force
  have "worker_good ?G w2" by (rule worker_call_good(1) [OF g1 c]) (use Some in \<open>auto simp: observers_keep_def\<close>)
  with g1 a c Some show ?thesis by (simp add: par_notify_fatal_error_def)
qed (use assms in \<open>simp add: par_notify_fatal_error_def\<close>)

lemma maybe_report_raises:
  assumes "par_maybe_report_progress config o' clock start_time w = (Inl e, w')"
  shows "observer_raises config e"
proof -
  have p: "observer_raises config e" if "publish_progress_snapshot config o' start_time st now exact w1 = (Inl e, w2)" for st now exact w1 w2
    using that notify_progress_keeps(2) [of config _ _ "Inl e"]
    by (auto simp: publish_progress_snapshot_def worker_call_def access_def split: prod.splits)
  then show ?thesis
    using assms by (auto simp: par_maybe_report_progress_def poll_progress_def Let_def split: if_splits prod.splits)
qed

text \<open>Under interference of this kind the parallel executor is an executor.\<close>

interpretation par: executor "ParallelExecutor config o' clock start_time" "worker_stopped o'"
  "worker_good (shared_good config clock ok acc U)" ok acc "observer_raises config"
proof (unfold_locales, goal_cases)
  case (1 s s')
  then show ?case using par_stop_good(2) by (auto simp: ParallelExecutor_def)
next
  case (2 s b s')
  then show ?case using par_stop_good(3) by (auto simp: ParallelExecutor_def)
next
  case (3 s b s')
  then show ?case using par_stop_good(1) by (auto simp: ParallelExecutor_def)
next
  case (4 s d b s')
  then show ?case using can_spawn_good by (auto simp: ParallelExecutor_def)
next
  case (5 s d b s')
  then show ?case using split_good by (auto simp: ParallelExecutor_def)
next
  case (6 s)
  then show ?case by (auto simp: ParallelExecutor_def good_simps intro!: store_good(1))
next
  case (7 s)
  then show ?case by (auto simp: ParallelExecutor_def good_simps intro!: store_good(1))
next
  case (8 s task b s')
  then show ?case using enqueue_good by (auto simp: ParallelExecutor_def)
next
  case (9 s x e)
  then show ?case using fatal_good by (auto simp: ParallelExecutor_def)
next
  case (10 s r s')
  then show ?case using maybe_report_good(1) by (auto simp: ParallelExecutor_def)
next
  case (11 s x kind d r' s')
  then show ?case using publish_good(1) by (auto simp: ParallelExecutor_def)
next
  case (12 s e s')
  then show ?case using maybe_report_raises by (auto simp: ParallelExecutor_def)
next
  case (13 x kind d s e s')
  then show ?case using publish_raises by (auto simp: ParallelExecutor_def)
qed


section \<open>Properties\<close>

abbreviation sound_shared :: "('v, 'u) DporConfig \<Rightarrow> ('u \<Rightarrow> int \<times> 'u) \<Rightarrow> ('u \<Rightarrow> bool) \<Rightarrow> ('v, 'u) Shared \<Rightarrow> bool" where
  "sound_shared config clock U \<equiv> shared_good config clock (published_ok (search config)) (task_ok (search config)) U"

lemma process_task_outcome:
  fixes config :: "('v::linorder, 'u) DporConfig"
  assumes c: "config_ok config" and ts: "sorted_thread_ids (config_program config) = Inr ts"
    and task: "task_ok (search config) task" and w: "worker_good (sound_shared config clock U) w"
  shows "\<exists>r w'. process_task config o' clock start_time ts task w = Some (r, w') \<and> worker_good (sound_shared config clock U) w'
    \<and> (\<forall>e. r = Inl e \<longrightarrow> observer_raises config e)"
proof -
  note S = config_search_ok [OF c]
  obtain stop w1 where q: "par_stop_requested o' w = (stop, w1)" by force
  note g1 = par_stop_good(1) [OF w q]
  have inv: "view_invariant (search_of config (config_program config) ts) (published_ok (search config)) (task_ok (search config))
      (sound_view (search config))"
    unfolding sorted_search [OF ts] by (rule sound_invariant [OF S])
  have init: "sound_view (search config) [(task_graph task, [enter (task_dpor_tree_depth task) (task_mode task)])]"
    using task by (simp add: task_ok_def)
  from par.explorer_outcome [OF inv init g1, of o' start_time] obtain r y w2 where
    run: "explorer_run (ParallelExecutor config o' clock start_time) config (config_program config) ts (task_graph task)
        (task_dpor_tree_depth task) (task_mode task) w1 = Some (r, y, w2)" "worker_good (sound_shared config clock U) w2"
      "\<forall>e. r = Inl e \<longrightarrow> observer_raises config e \<or> (\<exists>v. sound_view (search config) v \<and> stack_ok (max_depth config) v
         \<and> fails (search_of config (config_program config) ts) v e)" by blast
  have no: "\<forall>e. r = Inl e \<longrightarrow> observer_raises config e"
    using run(3) fails_not [OF S] unfolding sorted_search [OF ts] by auto
  have "task_mode task \<noteq> VisitIfConsistent \<Longrightarrow> task_mode task = Visit" by (cases "task_mode task") auto
  with run no g1 q show ?thesis
    by (auto simp: process_task_def visit_if_consistent_impl_def visit_impl_def)
qed

text \<open>C14. A worker of the parallel executor finishes every task, whatever the other workers do in between, as long
  as they keep what this worker keeps: the queue holds explorable tasks only, a stop request is never taken back,
  and the user state has the property that the observers keep on executions of the program. An exception
  of an observer is recorded and stops the search.\<close>

theorem worker_finishes_task:
  fixes config :: "('v::linorder, 'u) DporConfig"
  assumes "config_ok config" "sorted_thread_ids (config_program config) = Inr ts" "task_ok (search config) task"
    and "worker_good (sound_shared config clock U) w"
  shows "\<exists>w'. work_on config o' clock start_time ts task w = Some w' \<and> worker_good (sound_shared config clock U) w'"
proof -
  from process_task_outcome [OF assms, of o' start_time] obtain r w1 where
    r: "process_task config o' clock start_time ts task w = Some (r, w1)" "worker_good (sound_shared config clock U) w1" by blast
  have "worker_good (sound_shared config clock U) (record_exception e w1)" for e
    unfolding record_exception_def by (rule store_good(1) [OF r(2)]) (simp add: good_simps note_exception_def)
  with r show ?thesis by (cases r) (auto simp: work_on_def)
qed

definition sample_worker :: "(nat, nat TerminalExecution list) Worker" where
  "sample_worker = \<lparr>shared = initial_shared sample_config 0 [], worker_state = initial_worker_state,
     interference = (\<lambda>k sh. if k = 3 then sh\<lparr>stop_flag := True\<rparr> else sh), accesses = 0\<rparr>"

theorem worker_finishes_task_witness:
  "\<exists>w'. work_on sample_config default_options (\<lambda>u. (0, u)) 0 [0, 1] root_task sample_worker = Some w'
     \<and> (\<forall>e\<in>set (shared_user (shared w')). execution_of (search sample_config) (execution_graph e))"
proof -
  let ?U = "\<lambda>seen. \<forall>e\<in>set seen. execution_of (search sample_config) (execution_graph e)"
  have keep: "observers_keep sample_config (\<lambda>u. (0, u)) (published_ok (search sample_config)) ?U"
    by (auto simp: observers_keep_def sample_config_def published_ok_def)
  note ts = sample_sorted_ids
  have task: "task_ok (search sample_config) root_task" using empty_node by (auto simp: task_ok_def root_task_def)
  have w: "worker_good (sound_shared sample_config (\<lambda>u. (0, u)) ?U) sample_worker"
    by (auto simp: worker_good_def good_simps sample_worker_def initial_shared_def initial_worker_state_def)
  from worker_finishes_task [OF sample_config_ok ts task w, of default_options 0] obtain w' where
    "work_on sample_config default_options (\<lambda>u. (0, u)) 0 [0, 1] root_task sample_worker = Some w'"
    "worker_good (sound_shared sample_config (\<lambda>u. (0, u)) ?U) w'" by blast
  with keep show ?thesis by (auto simp: worker_good_def shared_good_def)
qed

end
