(* ===== verification/Pool.thy ===== *)
theory Pool
  imports Parallel_Worker
begin

text \<open>
  The worker pool of the parallel executor: the loop of each worker, the queue mutex, the condition variable and
  the hand-over of tasks, as a step relation on the program counters of all workers. A worker that
  processes a task may push tasks, publish executions, request a stop, throw or finish, in any order, which
  covers what the explorer does there. The mutex is held in the counters \<open>Waiting\<close>, \<open>Parking\<close> and \<open>Taking\<close>;
  every other critical section is one step that needs the mutex to be free. The stop flag is an atomic that is
  written without the mutex, as in the code.
\<close>

datatype Pc =
    Locking      \<comment> \<open>top of the loop, before the mutex\<close>
  | Waiting      \<comment> \<open>holds the mutex, about to test the predicate of the wait\<close>
  | Parking      \<comment> \<open>holds the mutex, the predicate was false, about to block\<close>
  | Parked       \<comment> \<open>blocked on the condition variable\<close>
  | Woken        \<comment> \<open>notified, about to take the mutex again\<close>
  | Taking       \<comment> \<open>holds the mutex, the predicate was true\<close>
  | Working      \<comment> \<open>processes a task\<close>
  | NotifyingOne \<comment> \<open>pushed a task, about to notify\<close>
  | NotifyingAll Pc \<comment> \<open>about to notify all, then goes on\<close>
  | Finishing    \<comment> \<open>task done, before the mutex\<close>
  | Exited

text \<open>
  The logs of publications, of tasks handed in, of tasks taken and of exceptions recorded are not part of the program; the
  theorems compare the totals, the queue and the outcome with them.
\<close>

record ('v, 'u) Pool =
  pool_shared :: "('v, 'u) Shared"
  pcs :: "Pc list"
  worker_states :: "WorkerState list"
  published :: "(TerminalExecutionKind \<times> nat) list"
  handed_in :: "'v ExplorationTask list"
  taken :: "'v ExplorationTask list"
  thrown :: "exn list"

definition ready :: "('v, 'u) Shared \<Rightarrow> bool" where
  "ready sh \<longleftrightarrow> stop_flag sh \<or> search_complete sh \<or> task_queue sh \<noteq> []"

definition holds_lock :: "Pc \<Rightarrow> bool" where
  "holds_lock p \<longleftrightarrow> p = Waiting \<or> p = Parking \<or> p = Taking"

definition lock_free :: "('v, 'u) Pool \<Rightarrow> bool" where
  "lock_free s \<longleftrightarrow> (\<forall>p\<in>set (pcs s). \<not> holds_lock p)"

definition goto :: "nat \<Rightarrow> Pc \<Rightarrow> ('v, 'u) Pool \<Rightarrow> ('v, 'u) Pool" where
  "goto i p s = s\<lparr>pcs := (pcs s)[i := p]\<rparr>"

definition at :: "('v, 'u) Pool \<Rightarrow> nat \<Rightarrow> Pc \<Rightarrow> bool" where
  "at s i p \<longleftrightarrow> i < length (pcs s) \<and> pcs s ! i = p"

definition on_pool :: "(('v, 'u) Shared \<Rightarrow> ('v, 'u) Shared) \<Rightarrow> ('v, 'u) Pool \<Rightarrow> ('v, 'u) Pool" where
  "on_pool f s = s\<lparr>pool_shared := f (pool_shared s)\<rparr>"

definition wake :: "Pc \<Rightarrow> Pc" where
  "wake p = (if p = Parked then Woken else p)"

definition notify_all :: "('v, 'u) Pool \<Rightarrow> ('v, 'u) Pool" where
  "notify_all s = s\<lparr>pcs := map wake (pcs s)\<rparr>"

text \<open>
  A flush as one step: its updates are additions and a maximum on the shared totals, which commute with
  everything the other workers do to them.
\<close>

definition flush_into :: "WorkerState \<Rightarrow> ('v, 'u) Shared \<Rightarrow> ('v, 'u) Shared" where
  "flush_into l sh = sh\<lparr>full_total := full_total sh + local_full_executions l,
     blocked_total := blocked_total sh + local_blocked_executions l,
     error_total := error_total sh + local_error_executions l,
     depth_limit_total := depth_limit_total sh + local_depth_limit_executions l,
     thread_event_limit_total := thread_event_limit_total sh + local_thread_event_limit_executions l,
     max_depth_total := max (max_depth_total sh) (local_max_thread_event_depth l)\<rparr>"

definition flush_worker :: "nat \<Rightarrow> ('v, 'u) Pool \<Rightarrow> ('v, 'u) Pool" where
  "flush_worker i s = s\<lparr>pool_shared := flush_into (worker_states s ! i) (pool_shared s),
     worker_states := (worker_states s)[i := clear_counts (worker_states s ! i)]\<rparr>"

definition count_terminal :: "nat \<Rightarrow> TerminalExecutionKind \<Rightarrow> nat \<Rightarrow> ('v, 'u) Pool \<Rightarrow> ('v, 'u) Pool" where
  "count_terminal i kind d s = s\<lparr>worker_states := (worker_states s)[i := add_terminal kind d (worker_states s ! i)],
     published := published s @ [(kind, d)]\<rparr>"

text \<open>The critical section after a task: the last active worker completes the search.\<close>

definition leave_task :: "('v, 'u) Shared \<Rightarrow> bool \<times> ('v, 'u) Shared" where
  "leave_task sh =
     (let sh1 = sh\<lparr>active_count := active_count sh - 1\<rparr>
      in if \<not> stop_flag sh1 \<and> task_queue sh1 = [] \<and> active_count sh1 = 0 then (True, sh1\<lparr>search_complete := True\<rparr>)
         else (False, sh1))"

definition push_task :: "'v ExplorationTask \<Rightarrow> ('v, 'u) Shared \<Rightarrow> ('v, 'u) Pool \<Rightarrow> ('v, 'u) Pool" where
  "push_task task sh s = s\<lparr>pool_shared := sh, handed_in := handed_in s @ [task]\<rparr>"

definition take_task :: "'v ExplorationTask \<Rightarrow> 'v ExplorationTask list \<Rightarrow> ('v, 'u) Pool \<Rightarrow> ('v, 'u) Pool" where
  "take_task task rest s =
     s\<lparr>pool_shared := (pool_shared s)\<lparr>task_queue := rest, active_count := active_count (pool_shared s) + 1\<rparr>,
       taken := taken s @ [task]\<rparr>"

definition throw_in_task :: "exn \<Rightarrow> ('v, 'u) Pool \<Rightarrow> ('v, 'u) Pool" where
  "throw_in_task e s = s\<lparr>pool_shared := note_exception e (pool_shared s), thrown := thrown s @ [e]\<rparr>"

text \<open>The members that the pool protocol does not use: the report deadline, the one-shot error flag, the
  split statistics and the user state; and the poll counters of a worker.\<close>

definition set_other :: "int \<Rightarrow> bool \<Rightarrow> nat \<Rightarrow> nat \<Rightarrow> 'u \<Rightarrow> ('v, 'u) Shared \<Rightarrow> ('v, 'u) Shared" where
  "set_other tick reported nd rcv u sh = sh\<lparr>next_progress_report_tick := tick, fatal_error_reported := reported,
     nd_split_total := nd, receive_split_total := rcv, shared_user := u\<rparr>"

definition set_polls :: "nat \<Rightarrow> nat \<Rightarrow> nat \<Rightarrow> bool \<Rightarrow> bool \<Rightarrow> WorkerState \<Rightarrow> WorkerState" where
  "set_polls sync progress split stop sleepers l = l\<lparr>steps_since_sync := sync, steps_since_progress_poll := progress,
     steps_since_split_poll := split, cached_stop := stop, cached_workers_idle := sleepers\<rparr>"

definition on_worker :: "nat \<Rightarrow> (WorkerState \<Rightarrow> WorkerState) \<Rightarrow> ('v, 'u) Pool \<Rightarrow> ('v, 'u) Pool" where
  "on_worker i f s = s\<lparr>worker_states := (worker_states s)[i := f (worker_states s ! i)]\<rparr>"

text \<open>The steps of the worker loop, of the condition variable and of the end of a task.\<close>

inductive loop_step :: "('v, 'u) Pool \<Rightarrow> ('v, 'u) Pool \<Rightarrow> bool" where
  step_ready: "at s i Locking \<Longrightarrow> lock_free s \<Longrightarrow> ready (pool_shared s) \<Longrightarrow> loop_step s (goto i Taking s)"
| step_not_ready: "at s i Locking \<Longrightarrow> lock_free s \<Longrightarrow> \<not> ready (pool_shared s) \<Longrightarrow>
    loop_step s (goto i Waiting (on_pool (\<lambda>sh. sh\<lparr>idle_workers := idle_workers sh + 1\<rparr>) s))"
| step_wait_over: "at s i Waiting \<Longrightarrow> ready (pool_shared s) \<Longrightarrow>
    loop_step s (goto i Taking (on_pool (\<lambda>sh. sh\<lparr>idle_workers := idle_workers sh - 1\<rparr>) s))"
| step_must_wait: "at s i Waiting \<Longrightarrow> \<not> ready (pool_shared s) \<Longrightarrow> loop_step s (goto i Parking s)"
| step_park: "at s i Parking \<Longrightarrow> loop_step s (goto i Parked s)"
| step_relock: "at s i Woken \<Longrightarrow> lock_free s \<Longrightarrow> loop_step s (goto i Waiting s)"
| step_exit: "at s i Taking \<Longrightarrow> stop_flag (pool_shared s) \<or> search_complete (pool_shared s) \<Longrightarrow>
    loop_step s (goto i Exited (flush_worker i s))"
| step_take: "at s i Taking \<Longrightarrow> \<not> stop_flag (pool_shared s) \<Longrightarrow> \<not> search_complete (pool_shared s) \<Longrightarrow>
    task_queue (pool_shared s) = task # rest \<Longrightarrow> loop_step s (goto i Working (take_task task rest s))"
| step_notify_one: "at s i NotifyingOne \<Longrightarrow> at s j Parked \<Longrightarrow> loop_step s (goto j Woken (goto i Working s))"
| step_notify_none: "at s i NotifyingOne \<Longrightarrow> Parked \<notin> set (pcs s) \<Longrightarrow> loop_step s (goto i Working s)"
| step_finish: "at s i Working \<Longrightarrow> loop_step s (goto i Finishing s)"
| step_leave: "at s i Finishing \<Longrightarrow> lock_free s \<Longrightarrow> leave_task (pool_shared s) = (complete, sh) \<Longrightarrow>
    loop_step s (goto i (if complete then NotifyingAll Locking else Locking) (on_pool (\<lambda>_. sh) s))"
| step_notify_all: "at s i (NotifyingAll p) \<Longrightarrow> loop_step s (goto i p (notify_all s))"

text \<open>What a worker does while it processes a task: hand off, publish, flush, stop, throw.\<close>

inductive task_step :: "ParallelVerifyOptions \<Rightarrow> ('v, 'u) Pool \<Rightarrow> ('v, 'u) Pool \<Rightarrow> bool" for o' where
  step_push: "at s i Working \<Longrightarrow> lock_free s \<Longrightarrow> enqueue_locked o' task (pool_shared s) = (True, sh) \<Longrightarrow>
    task_step o' s (goto i NotifyingOne (push_task task sh s))"
| step_publish: "at s i Working \<Longrightarrow> task_step o' s (count_terminal i kind d s)"
| step_flush: "at s i Working \<Longrightarrow> task_step o' s (flush_worker i s)"
| step_stop: "at s i Working \<Longrightarrow>
    task_step o' s (goto i (NotifyingAll Working) (on_pool (\<lambda>sh. sh\<lparr>stop_flag := True\<rparr>) s))"
| step_throw: "at s i Working \<Longrightarrow> task_step o' s (goto i (NotifyingAll Finishing) (throw_in_task e s))"
| step_other: "at s i Working \<Longrightarrow> task_step o' s (on_pool (set_other tick reported nd rcv u) s)"
| step_polls: "at s i Working \<Longrightarrow> task_step o' s (on_worker i (set_polls sync progress split stop sleepers) s)"

inductive pool_step :: "ParallelVerifyOptions \<Rightarrow> ('v, 'u) Pool \<Rightarrow> ('v, 'u) Pool \<Rightarrow> bool" for o' where
  loop_pool_step: "loop_step s s' \<Longrightarrow> pool_step o' s s'"
| task_pool_step: "task_step o' s s' \<Longrightarrow> pool_step o' s s'"

definition initial_pool :: "('v, 'u) DporConfig \<Rightarrow> ParallelVerifyOptions \<Rightarrow> int \<Rightarrow> 'u \<Rightarrow> ('v, 'u) Pool" where
  "initial_pool config o' start_time u =
     \<lparr>pool_shared = (initial_shared config start_time u)\<lparr>task_queue := [root_task]\<rparr>,
      pcs = replicate (opt_max_workers o') Locking,
      worker_states = replicate (opt_max_workers o') initial_worker_state, published = [],
      handed_in = [root_task], taken = [], thrown = []\<rparr>"

text \<open>A spurious wake-up is possible at any time; the invariants hold with it, progress does not rely on it.\<close>

inductive pool_reachable :: "('v, 'u) DporConfig \<Rightarrow> ParallelVerifyOptions \<Rightarrow> int \<Rightarrow> 'u \<Rightarrow> ('v, 'u) Pool \<Rightarrow> bool"
  for config o' start_time u where
  reachable_init: "pool_reachable config o' start_time u (initial_pool config o' start_time u)"
| reachable_step: "pool_reachable config o' start_time u s \<Longrightarrow> pool_step o' s s' \<Longrightarrow> pool_reachable config o' start_time u s'"
| reachable_spurious: "pool_reachable config o' start_time u s \<Longrightarrow> at s i Parked \<Longrightarrow>
    pool_reachable config o' start_time u (goto i Woken s)"

inductive_cases pool_stepE: "pool_step o' s s'"



section \<open>Counting program counters\<close>

definition num :: "(Pc \<Rightarrow> bool) \<Rightarrow> ('v, 'u) Pool \<Rightarrow> nat" where
  "num P s = length (filter P (pcs s))"

lemma count_update:
  "i < length xs \<Longrightarrow> length (filter P (xs[i := q])) + of_bool (P (xs ! i)) = length (filter P xs) + of_bool (P q)"
proof (induction xs arbitrary: i)
  case (Cons x xs)
  then show ?case by (cases i) auto
qed simp

lemma num_goto: "at s i p \<Longrightarrow> num P (goto i q s) + of_bool (P p) = num P s + of_bool (P q)"
  using count_update [of i "pcs s" P q] by (simp add: num_def goto_def at_def)

lemma num_at: "at s i p \<Longrightarrow> P p \<Longrightarrow> num P s > 0"
  by (auto simp: num_def at_def filter_empty_conv intro: nth_mem)

lemma num_goto_eq:
  assumes "at s i p"
  shows "num P (goto i q s) = num P s + of_bool (P q) - of_bool (P p)"
  using num_goto [OF assms, of P q] by (cases "P p") auto

lemma num_on_pool [simp]: "num P (on_pool f s) = num P s" "num P (flush_worker i s) = num P s" "num P (count_terminal i k d s) = num P s"
  "num P (push_task task sh s) = num P s" "num P (take_task task rest s) = num P s"
  "num P (throw_in_task e s) = num P s" "num P (on_worker i f' s) = num P s"
  by (simp_all add: num_def on_pool_def flush_worker_def count_terminal_def push_task_def take_task_def throw_in_task_def on_worker_def)

lemma at_on_pool [simp]: "at (on_pool f s) i p = at s i p" "at (flush_worker j s) i p = at s i p"
  "at (push_task task sh s) i p = at s i p" "at (take_task task rest s) i p = at s i p"
  "at (throw_in_task e s) i p = at s i p" "at (on_worker j f' s) i p = at s i p"
  by (simp_all add: at_def on_pool_def flush_worker_def push_task_def take_task_def throw_in_task_def on_worker_def)

lemma num_notify_all: "num P (notify_all s) = num (\<lambda>p. P (wake p)) s"
  by (simp add: num_def notify_all_def filter_map o_def)

lemma num_mono: "(\<And>p. P p \<Longrightarrow> Q p) \<Longrightarrow> num P s \<le> num Q s"
  unfolding num_def by (metis (mono_tags, lifting) filter_cong filter_filter length_filter_le)

lemma num_cong: "(\<And>p. P p = Q p) \<Longrightarrow> num P s = num Q s"
  by presburger

lemma lock_free_num: "lock_free s \<longleftrightarrow> num holds_lock s = 0"
  by (auto simp: lock_free_def num_def filter_empty_conv)

lemma at_notify: "at s i p \<Longrightarrow> p \<noteq> Parked \<Longrightarrow> at (notify_all s) i p"
  by (simp add: at_def notify_all_def wake_def)

lemma shared_fields [simp]:
  "pool_shared (goto i p s) = pool_shared s" "pool_shared (on_pool f s) = f (pool_shared s)"
  "pool_shared (notify_all s) = pool_shared s" "pool_shared (count_terminal i k d s) = pool_shared s"
  "pool_shared (flush_worker i s) = flush_into (worker_states s ! i) (pool_shared s)" "pool_shared (push_task task sh s) = sh"
  "pool_shared (take_task task rest s) =
     (pool_shared s)\<lparr>task_queue := rest, active_count := active_count (pool_shared s) + 1\<rparr>"
  "pool_shared (throw_in_task e s) = note_exception e (pool_shared s)" "pool_shared (on_worker i f' s) = pool_shared s"
  by (simp_all add: goto_def on_pool_def notify_all_def count_terminal_def flush_worker_def push_task_def take_task_def
      throw_in_task_def on_worker_def)

lemma other_fields [simp]:
  "stop_flag (set_other a b c d e sh) = stop_flag sh" "search_complete (set_other a b c d e sh) = search_complete sh"
  "task_queue (set_other a b c d e sh) = task_queue sh" "active_count (set_other a b c d e sh) = active_count sh"
  "idle_workers (set_other a b c d e sh) = idle_workers sh" "first_exception (set_other a b c d e sh) = first_exception sh"
  "max_depth_total (set_other a b c d e sh) = max_depth_total sh"
  by (simp_all add: set_other_def)

lemma flush_fields [simp]:
  "stop_flag (flush_into l sh) = stop_flag sh" "search_complete (flush_into l sh) = search_complete sh"
  "task_queue (flush_into l sh) = task_queue sh" "active_count (flush_into l sh) = active_count sh"
  by (simp_all add: flush_into_def)

section \<open>The invariant\<close>

definition busy :: "Pc \<Rightarrow> bool" where
  "busy p \<longleftrightarrow> p = Working \<or> p = NotifyingOne \<or> p = NotifyingAll Working \<or> p = NotifyingAll Finishing \<or> p = Finishing"

definition misdirected :: "Pc \<Rightarrow> bool" where
  "misdirected p \<longleftrightarrow> (\<exists>q. p = NotifyingAll q \<and> q \<noteq> Working \<and> q \<noteq> Finishing \<and> q \<noteq> Locking)"

definition awake :: "Pc \<Rightarrow> bool" where
  "awake p \<longleftrightarrow> p \<noteq> Parking \<and> p \<noteq> Parked"

definition pool_inv :: "ParallelVerifyOptions \<Rightarrow> ('v, 'u) Pool \<Rightarrow> bool" where
  "pool_inv o' s \<longleftrightarrow> (let sh = pool_shared s in
     num holds_lock s \<le> 1 \<and> num misdirected s = 0 \<and> active_count sh = num busy s
     \<and> (search_complete sh \<longrightarrow> task_queue sh = [] \<and> num busy s = 0 \<and> num ((=) Parking) s = 0
          \<and> (num ((=) Parked) s > 0 \<longrightarrow> num ((=) (NotifyingAll Locking)) s > 0))
     \<and> (\<not> stop_flag sh \<and> \<not> search_complete sh \<longrightarrow>
          (task_queue sh \<noteq> [] \<or> num busy s > 0) \<and> (task_queue sh \<noteq> [] \<longrightarrow> num awake s > 0)
          \<and> (num ((=) Taking) s > 0 \<longrightarrow> task_queue sh \<noteq> []) \<and> num ((=) Exited) s = 0)
     \<and> length (task_queue sh) \<le> max 1 (opt_max_queued_tasks o'))"

lemma num_holds:
  "num ((=) Taking) s \<le> num holds_lock s" "num ((=) Parking) s \<le> num holds_lock s"
  by (auto intro: num_mono simp: holds_lock_def)

lemmas pool_simps = num_goto_eq lock_free_num holds_lock_def busy_def misdirected_def awake_def ready_def

lemma num_at_kinds:
  assumes "at s i p"
  shows "holds_lock p \<Longrightarrow> num holds_lock s > 0" "busy p \<Longrightarrow> num busy s > 0" "num ((=) p) s > 0" "awake p \<Longrightarrow> num awake s > 0"
    "misdirected p \<Longrightarrow> num misdirected s > 0"
  using num_at [OF assms] by auto

lemma notify_kinds:
  "num holds_lock (notify_all s) = num holds_lock s" "num busy (notify_all s) = num busy s"
  "num misdirected (notify_all s) = num misdirected s" "num ((=) Parking) (notify_all s) = num ((=) Parking) s"
  "num ((=) Taking) (notify_all s) = num ((=) Taking) s" "num ((=) Exited) (notify_all s) = num ((=) Exited) s"
  "num ((=) Parked) (notify_all s) = 0" "num awake s \<le> num awake (notify_all s)"
proof -
  show "num ((=) Parked) (notify_all s) = 0" by (auto simp: num_def notify_all_def wake_def filter_empty_conv)
  show "num awake s \<le> num awake (notify_all s)"
    unfolding num_notify_all by (rule num_mono) (simp add: awake_def wake_def)
qed (auto simp: num_notify_all wake_def holds_lock_def busy_def misdirected_def intro!: num_cong)

lemma leave_task_cases:
  assumes "leave_task sh = (complete, sh')"
  shows "stop_flag sh' = stop_flag sh" "task_queue sh' = task_queue sh" "active_count sh' = active_count sh - 1"
    "search_complete sh' = (search_complete sh \<or> complete)"
    "complete \<longleftrightarrow> \<not> stop_flag sh \<and> task_queue sh = [] \<and> active_count sh - 1 = 0"
  using assms by (auto simp: leave_task_def Let_def split: if_splits)

lemma loop_step_inv:
  assumes step: "loop_step s s'" and inv: "pool_inv o' s"
  shows "pool_inv o' s'"
  using step
proof (cases rule: loop_step.cases)
  case (step_ready i)
  with inv num_at_kinds [OF step_ready(2)] num_holds [of s] show ?thesis by (auto simp: pool_inv_def Let_def pool_simps)
next
  case (step_not_ready i)
  with inv num_at_kinds [OF step_not_ready(2)] num_holds [of s] show ?thesis by (auto simp: pool_inv_def Let_def pool_simps)
next
  case (step_wait_over i)
  with inv num_at_kinds [OF step_wait_over(2)] num_holds [of s] show ?thesis by (auto simp: pool_inv_def Let_def pool_simps)
next
  case (step_must_wait i)
  with inv num_at_kinds [OF step_must_wait(2)] num_holds [of s] show ?thesis by (auto simp: pool_inv_def Let_def pool_simps)
next
  case (step_park i)
  with inv num_at_kinds [OF step_park(2)] num_holds [of s] show ?thesis by (auto simp: pool_inv_def Let_def pool_simps)
next
  case (step_relock i)
  with inv num_at_kinds [OF step_relock(2)] num_holds [of s] show ?thesis by (auto simp: pool_inv_def Let_def pool_simps)
next
  case (step_exit i)
  with inv num_at_kinds [OF step_exit(2)] num_holds [of s] show ?thesis by (auto simp: pool_inv_def Let_def pool_simps)
next
  case (step_take i task rest)
  with inv num_at_kinds [OF step_take(2)] num_holds [of s] show ?thesis by (auto simp: pool_inv_def Let_def pool_simps)
next
  case (step_notify_one i j)
  then have "at (goto i Working s) j Parked" by (cases "i = j") (auto simp: at_def goto_def)
  with step_notify_one inv num_at_kinds [OF step_notify_one(2)] num_at_kinds [OF step_notify_one(3)] num_holds [of s] show ?thesis
    by (auto simp: pool_inv_def Let_def pool_simps)
next
  case (step_notify_none i)
  with inv num_at_kinds [OF step_notify_none(2)] num_holds [of s] show ?thesis by (auto simp: pool_inv_def Let_def pool_simps)
next
  case (step_finish i)
  with inv num_at_kinds [OF step_finish(2)] num_holds [of s] show ?thesis by (auto simp: pool_inv_def Let_def pool_simps)
next
  case (step_leave i complete sh)
  note l = leave_task_cases [OF step_leave(4)]
  with inv step_leave num_at_kinds [OF step_leave(2)] num_holds [of s] show ?thesis
    by (cases complete) (auto simp: pool_inv_def Let_def pool_simps)
next
  case (step_notify_all i p)
  then have p: "p = Working \<or> p = Finishing \<or> p = Locking"
    using inv num_at_kinds(5) [OF step_notify_all(2)] by (auto simp: pool_inv_def Let_def misdirected_def)
  have at: "at (notify_all s) i (NotifyingAll p)" using step_notify_all(2) by (simp add: at_notify)
  have eq: "num P s' = num P (notify_all s)" if "P (NotifyingAll p) = P p" for P
    using num_goto [OF at, of P p] that by (simp add: step_notify_all(1))
  have "\<forall>P\<in>{holds_lock, busy, misdirected, (=) Parking, (=) Taking, (=) Exited, (=) Parked, awake}. num P s' = num P (notify_all s)"
    using p by (auto intro!: eq simp: holds_lock_def busy_def misdirected_def awake_def)
  with inv step_notify_all(1) notify_kinds [of s] show ?thesis by (auto simp: pool_inv_def Let_def)
qed

lemma task_step_inv:
  assumes step: "task_step o' s s'" and inv: "pool_inv o' s"
  shows "pool_inv o' s'"
  using step
proof (cases rule: task_step.cases)
  case (step_push i task sh)
  with inv num_at_kinds [OF step_push(2)] num_holds [of s] show ?thesis
    by (auto simp: pool_inv_def Let_def pool_simps enqueue_locked_def split: if_splits)
next
  case (step_publish i kind d)
  with inv show ?thesis by (simp add: pool_inv_def Let_def)
next
  case (step_flush i)
  with inv show ?thesis by (simp add: pool_inv_def Let_def)
next
  case (step_stop i)
  with inv num_at_kinds [OF step_stop(2)] num_holds [of s] show ?thesis by (auto simp: pool_inv_def Let_def pool_simps)
next
  case (step_throw i e)
  with inv num_at_kinds [OF step_throw(2)] num_holds [of s] show ?thesis
    by (auto simp: pool_inv_def Let_def pool_simps note_exception_def)
qed (use inv in \<open>simp_all add: pool_inv_def Let_def\<close>)

lemma pool_step_inv: "pool_step o' s s' \<Longrightarrow> pool_inv o' s \<Longrightarrow> pool_inv o' s'"
  by (elim pool_stepE) (simp_all add: loop_step_inv task_step_inv)

section \<open>The logs\<close>

primrec total_of :: "TerminalExecutionKind \<Rightarrow> ('v, 'u) Shared \<Rightarrow> nat" where
  "total_of Full sh = full_total sh"
| "total_of Blocked sh = blocked_total sh"
| "total_of ErrorExecution sh = error_total sh"
| "total_of DepthLimit sh = depth_limit_total sh"
| "total_of ThreadEventLimit sh = thread_event_limit_total sh"

primrec local_of :: "TerminalExecutionKind \<Rightarrow> WorkerState \<Rightarrow> nat" where
  "local_of Full l = local_full_executions l"
| "local_of Blocked l = local_blocked_executions l"
| "local_of ErrorExecution l = local_error_executions l"
| "local_of DepthLimit l = local_depth_limit_executions l"
| "local_of ThreadEventLimit l = local_thread_event_limit_executions l"

definition logged :: "TerminalExecutionKind \<Rightarrow> (TerminalExecutionKind \<times> nat) list \<Rightarrow> nat" where
  "logged kind es = length (filter (\<lambda>e. fst e = kind) es)"

definition blank :: "WorkerState \<Rightarrow> bool" where
  "blank l \<longleftrightarrow> (\<forall>kind. local_of kind l = 0) \<and> local_max_thread_event_depth l = 0"

definition resting :: "Pc \<Rightarrow> bool" where
  "resting p \<longleftrightarrow> p = Waiting \<or> p = Parking \<or> p = Parked \<or> p = Woken"

definition counts_ok :: "('v, 'u) Pool \<Rightarrow> bool" where
  "counts_ok s \<longleftrightarrow> length (worker_states s) = length (pcs s)
     \<and> (\<forall>kind. total_of kind (pool_shared s) + sum_list (map (local_of kind) (worker_states s)) = logged kind (published s))
     \<and> (\<forall>b. max_depth_total (pool_shared s) \<le> b \<and> (\<forall>l\<in>set (worker_states s). local_max_thread_event_depth l \<le> b)
          \<longleftrightarrow> (\<forall>e\<in>set (published s). snd e \<le> b))
     \<and> (\<forall>i. at s i Exited \<longrightarrow> blank (worker_states s ! i))"

definition logs_ok :: "('v, 'u) Pool \<Rightarrow> bool" where
  "logs_ok s \<longleftrightarrow> handed_in s = taken s @ task_queue (pool_shared s) \<and> idle_workers (pool_shared s) = num resting s
     \<and> first_exception (pool_shared s) = (if thrown s = [] then None else Some (hd (thrown s)))
     \<and> (thrown s \<noteq> [] \<longrightarrow> stop_flag (pool_shared s))"

lemma sum_list_update:
  "i < length xs \<Longrightarrow> sum_list (map f (xs[i := y])) + f (xs ! i) = sum_list (map f xs) + (f y :: nat)"
proof (induction xs arbitrary: i)
  case (Cons x xs)
  then show ?case by (cases i) auto
qed simp

lemma all_set_update:
  "i < length xs \<Longrightarrow> (\<forall>x\<in>set (xs[i := y]). P x) \<and> P (xs ! i) \<longleftrightarrow> (\<forall>x\<in>set xs. P x) \<and> P y"
proof (induction xs arbitrary: i)
  case (Cons x xs)
  then show ?case by (cases i) auto
qed simp

lemma total_flush [simp]: "total_of kind (flush_into l sh) = total_of kind sh + local_of kind l"
  by (cases kind) (simp_all add: flush_into_def)

lemma local_clear [simp]: "local_of kind (clear_counts l) = 0" "local_max_thread_event_depth (clear_counts l) = 0" "blank (clear_counts l)"
proof -
  show "local_of kind (clear_counts l) = 0" for kind by (cases kind) (simp_all add: clear_counts_def)
  then show "blank (clear_counts l)" by (simp add: blank_def clear_counts_def)
qed (simp add: clear_counts_def)

lemma local_add [simp]:
  "local_of kind (add_terminal kind' d l) = local_of kind l + of_bool (kind = kind')"
  "local_max_thread_event_depth (add_terminal kind' d l) = max (local_max_thread_event_depth l) d"
  by (cases kind; cases kind'; simp add: add_terminal_def) (cases kind'; simp add: add_terminal_def)

text \<open>Steps that touch neither the counts nor the local states.\<close>

lemma counts_frame:
  assumes "counts_ok s" "worker_states s' = worker_states s" "published s' = published s" "length (pcs s') = length (pcs s)"
    and "\<And>kind. total_of kind (pool_shared s') = total_of kind (pool_shared s)"
    and "max_depth_total (pool_shared s') = max_depth_total (pool_shared s)"
    and "\<And>i. at s' i Exited \<Longrightarrow> at s i Exited"
  shows "counts_ok s'"
  using assms unfolding counts_ok_def by auto

lemma counts_flush:
  assumes ok: "counts_ok s" and i: "i < length (pcs s)"
  shows "counts_ok (flush_worker i s)"
proof -
  let ?ws = "worker_states s"
  have i': "i < length ?ws" using ok i by (simp add: counts_ok_def)
  have "total_of kind (pool_shared s) + local_of kind (?ws ! i) + sum_list (map (local_of kind) (?ws[i := clear_counts (?ws ! i)]))
      = logged kind (published s)" for kind
    using ok sum_list_update [OF i', of "local_of kind" "clear_counts (?ws ! i)"] by (simp add: counts_ok_def algebra_simps)
  moreover have "max_depth_total (flush_into (?ws ! i) (pool_shared s)) \<le> b
      \<and> (\<forall>l\<in>set (?ws[i := clear_counts (?ws ! i)]). local_max_thread_event_depth l \<le> b) \<longleftrightarrow> (\<forall>e\<in>set (published s). snd e \<le> b)" for b
    using ok all_set_update [OF i', of "clear_counts (?ws ! i)" "\<lambda>l. local_max_thread_event_depth l \<le> b"]
    by (auto simp: counts_ok_def flush_into_def)
  ultimately show ?thesis
    using ok i' by (auto simp: counts_ok_def flush_worker_def at_def nth_list_update add.assoc)
qed

lemma counts_publish:
  assumes ok: "counts_ok s" and i: "at s i Working"
  shows "counts_ok (count_terminal i kind' d s)"
proof -
  let ?ws = "worker_states s"
  have i': "i < length ?ws" using ok i by (simp add: counts_ok_def at_def)
  have "total_of kind (pool_shared s) + sum_list (map (local_of kind) (?ws[i := add_terminal kind' d (?ws ! i)]))
      = logged kind (published s @ [(kind', d)])" for kind
    using ok sum_list_update [OF i', of "local_of kind" "add_terminal kind' d (?ws ! i)"]
    by (auto simp: counts_ok_def logged_def algebra_simps)
  moreover have "(\<forall>l\<in>set (?ws[i := add_terminal kind' d (?ws ! i)]). local_max_thread_event_depth l \<le> b)
      \<longleftrightarrow> (\<forall>l\<in>set ?ws. local_max_thread_event_depth l \<le> b) \<and> d \<le> b" for b
    using all_set_update [OF i', of "add_terminal kind' d (?ws ! i)" "\<lambda>l. local_max_thread_event_depth l \<le> b"]
      set_update_memI [OF i', of "add_terminal kind' d (?ws ! i)"] nth_mem [OF i'] by fastforce
  then have "max_depth_total (pool_shared s) \<le> b
      \<and> (\<forall>l\<in>set (?ws[i := add_terminal kind' d (?ws ! i)]). local_max_thread_event_depth l \<le> b)
      \<longleftrightarrow> (\<forall>e\<in>set (published s @ [(kind', d)]). snd e \<le> b)" for b
    using ok by (auto simp: counts_ok_def)
  ultimately show ?thesis
    using ok i i' by (auto simp: counts_ok_def count_terminal_def at_def nth_list_update)
qed

lemma at_goto: "at (goto i p s) j q \<longleftrightarrow> (if i = j then j < length (pcs s) \<and> p = q else at s j q)"
  by (auto simp: at_def goto_def)

lemma pool_fields [simp]:
  "worker_states (goto i p s) = worker_states s" "published (goto i p s) = published s"
  "worker_states (on_pool f s) = worker_states s" "published (on_pool f s) = published s" "pcs (on_pool f s) = pcs s"
  "worker_states (notify_all s) = worker_states s" "published (notify_all s) = published s"
  "worker_states (push_task task sh s) = worker_states s" "published (push_task task sh s) = published s"
  "worker_states (take_task task rest s) = worker_states s" "published (take_task task rest s) = published s"
  "length (pcs (goto i p s)) = length (pcs s)" "length (pcs (notify_all s)) = length (pcs s)"
  "length (pcs (push_task task sh s)) = length (pcs s)" "length (pcs (take_task task rest s)) = length (pcs s)"
  "worker_states (throw_in_task e s) = worker_states s" "published (throw_in_task e s) = published s"
  "length (pcs (throw_in_task e s)) = length (pcs s)" "published (on_worker i f' s) = published s" "pcs (on_worker i f' s) = pcs s"
  by (simp_all add: goto_def on_pool_def notify_all_def push_task_def take_task_def throw_in_task_def on_worker_def)

lemma log_fields [simp]:
  "handed_in (goto i p s) = handed_in s" "taken (goto i p s) = taken s" "thrown (goto i p s) = thrown s"
  "handed_in (on_pool f s) = handed_in s" "taken (on_pool f s) = taken s" "thrown (on_pool f s) = thrown s"
  "handed_in (notify_all s) = handed_in s" "taken (notify_all s) = taken s" "thrown (notify_all s) = thrown s"
  "handed_in (flush_worker i s) = handed_in s" "taken (flush_worker i s) = taken s" "thrown (flush_worker i s) = thrown s"
  "handed_in (count_terminal i k d s) = handed_in s" "taken (count_terminal i k d s) = taken s" "thrown (count_terminal i k d s) = thrown s"
  "handed_in (push_task task sh s) = handed_in s @ [task]" "taken (push_task task sh s) = taken s" "thrown (push_task task sh s) = thrown s"
  "handed_in (take_task task rest s) = handed_in s" "taken (take_task task rest s) = taken s @ [task]" "thrown (take_task task rest s) = thrown s"
  "handed_in (throw_in_task e s) = handed_in s" "taken (throw_in_task e s) = taken s" "thrown (throw_in_task e s) = thrown s @ [e]"
  "handed_in (on_worker i f' s) = handed_in s" "taken (on_worker i f' s) = taken s" "thrown (on_worker i f' s) = thrown s"
  by (simp_all add: goto_def on_pool_def notify_all_def flush_worker_def count_terminal_def push_task_def take_task_def
      throw_in_task_def on_worker_def)

lemma at_notify_exited [simp]: "at (notify_all s) i Exited = at s i Exited"
  by (auto simp: at_def notify_all_def wake_def split: if_splits)

lemma total_frame [simp]:
  "total_of kind (sh\<lparr>idle_workers := n\<rparr>) = total_of kind sh" "total_of kind (sh\<lparr>stop_flag := b\<rparr>) = total_of kind sh"
  "total_of kind (sh\<lparr>task_queue := q\<rparr>) = total_of kind sh" "total_of kind (sh\<lparr>active_count := n\<rparr>) = total_of kind sh"
  "total_of kind (sh\<lparr>search_complete := b\<rparr>) = total_of kind sh" "total_of kind (sh\<lparr>first_exception := x\<rparr>) = total_of kind sh"
  "total_of kind (set_other a b' c d e sh) = total_of kind sh"
  by (cases kind; simp add: set_other_def)+

lemma counts_exit:
  assumes "counts_ok s" "at s i Taking"
  shows "counts_ok (goto i Exited (flush_worker i s))"
proof -
  have "counts_ok (flush_worker i s)" "i < length (pcs s)" using assms counts_flush by (auto simp: at_def)
  moreover from this have "blank (worker_states (flush_worker i s) ! i)"
    using assms(1) by (simp add: flush_worker_def counts_ok_def)
  ultimately show ?thesis by (auto simp: counts_ok_def at_goto)
qed

lemma polls_fields [simp]:
  "local_of kind (set_polls a b c d e l) = local_of kind l"
  "local_max_thread_event_depth (set_polls a b c d e l) = local_max_thread_event_depth l"
  by (cases kind; simp add: set_polls_def) (simp add: set_polls_def)

lemma counts_polls:
  assumes ok: "counts_ok s" and i: "at s i Working"
  shows "counts_ok (on_worker i (set_polls a b c d e) s)"
proof -
  let ?ws = "worker_states s" and ?f = "set_polls a b c d e"
  have i': "i < length ?ws" using ok i by (simp add: counts_ok_def at_def)
  have "sum_list (map (local_of kind) (?ws[i := ?f (?ws ! i)])) = sum_list (map (local_of kind) ?ws)" for kind
    using sum_list_update [OF i', of "local_of kind" "?f (?ws ! i)"] by simp
  moreover have "(\<forall>l\<in>set (?ws[i := ?f (?ws ! i)]). local_max_thread_event_depth l \<le> b')
      \<longleftrightarrow> (\<forall>l\<in>set ?ws. local_max_thread_event_depth l \<le> b')" for b'
    using all_set_update [OF i', of "?f (?ws ! i)" "\<lambda>l. local_max_thread_event_depth l \<le> b'"]
      set_update_memI [OF i', of "?f (?ws ! i)"] nth_mem [OF i'] by fastforce
  ultimately show ?thesis
    using ok i i' by (auto simp: counts_ok_def on_worker_def at_def nth_list_update)
qed

lemma loop_step_counts:
  assumes "loop_step s s'" "counts_ok s" "pool_inv o' s"
  shows "counts_ok s'"
  using assms
proof (cases rule: loop_step.cases)
  case (step_exit i)
  with assms(2) show ?thesis by (simp add: counts_exit)
next
  case (step_notify_all i p)
  then have "p \<noteq> Exited"
    using assms(3) num_at_kinds(5) [OF step_notify_all(2)] by (auto simp: pool_inv_def Let_def misdirected_def)
  then show ?thesis
    by (intro counts_frame [OF assms(2)]) (use step_notify_all in \<open>auto simp: at_goto split: if_splits\<close>)
next
  case (step_leave i complete sh)
  show ?thesis
    by (rule counts_frame [OF assms(2)])
      (use step_leave in \<open>auto simp: at_goto leave_task_def Let_def split: if_splits\<close>)
qed (rule counts_frame [OF assms(2)]; auto simp: at_goto split: if_splits)+

lemma task_step_counts:
  assumes "task_step o' s s'" "counts_ok s"
  shows "counts_ok s'"
  using assms
proof (cases rule: task_step.cases)
  case (step_push i task sh)
  show ?thesis
    by (rule counts_frame [OF assms(2)])
      (use step_push in \<open>auto simp: at_goto enqueue_locked_def split: if_splits\<close>)
next
  case (step_flush i)
  with assms(2) show ?thesis by (simp add: counts_flush at_def)
next
  case (step_publish i kind d)
  with assms(2) show ?thesis by (simp add: counts_publish)
next
  case (step_polls i sync progress split stop sleepers)
  with assms(2) show ?thesis by (simp add: counts_polls)
qed (rule counts_frame [OF assms(2)]; auto simp: at_goto note_exception_def split: if_splits)+

lemma loop_step_logs:
  assumes step: "loop_step s s'" and ok: "logs_ok s" and inv: "pool_inv o' s"
  shows "logs_ok s'"
  using step
proof (cases rule: loop_step.cases)
  case (step_notify_one i j)
  then have "at (goto i Working s) j Parked" by (cases "i = j") (auto simp: at_def goto_def)
  with step_notify_one ok num_at [OF step_notify_one(3), of resting] show ?thesis
    by (auto simp: logs_ok_def num_goto_eq resting_def)
next
  case (step_notify_all i p)
  then have p: "p = Working \<or> p = Finishing \<or> p = Locking"
    using inv num_at_kinds(5) [OF step_notify_all(2)] by (auto simp: pool_inv_def Let_def misdirected_def)
  have "at (notify_all s) i (NotifyingAll p)" using step_notify_all(2) by (simp add: at_notify)
  moreover have "num resting (notify_all s) = num resting s"
    unfolding num_notify_all by (intro num_cong) (simp add: wake_def resting_def)
  ultimately show ?thesis using step_notify_all ok p by (auto simp: logs_ok_def num_goto_eq resting_def)
next
  case (step_leave i complete sh)
  have "idle_workers sh = idle_workers (pool_shared s)" "first_exception sh = first_exception (pool_shared s)"
    using step_leave(4) by (auto simp: leave_task_def Let_def split: if_splits)
  with step_leave leave_task_cases(1,2) [OF step_leave(4)] ok show ?thesis
    by (auto simp: logs_ok_def num_goto_eq resting_def)
next
  case (step_wait_over i)
  with ok num_at [OF step_wait_over(2), of resting] show ?thesis by (auto simp: logs_ok_def num_goto_eq resting_def)
next
  case (step_exit i)
  with ok show ?thesis by (auto simp: logs_ok_def num_goto_eq resting_def flush_into_def)
qed (use ok in \<open>auto simp: logs_ok_def num_goto_eq resting_def\<close>)

lemma task_step_logs:
  assumes step: "task_step o' s s'" and ok: "logs_ok s"
  shows "logs_ok s'"
  using step
proof (cases rule: task_step.cases)
  case (step_push i task sh)
  with ok show ?thesis by (auto simp: logs_ok_def num_goto_eq resting_def enqueue_locked_def split: if_splits)
qed (use ok in \<open>auto simp: logs_ok_def num_goto_eq resting_def flush_into_def note_exception_def\<close>)

section \<open>Reachable pools\<close>

definition pool_ok :: "ParallelVerifyOptions \<Rightarrow> ('v, 'u) Pool \<Rightarrow> bool" where
  "pool_ok o' s \<longleftrightarrow> pool_inv o' s \<and> counts_ok s \<and> logs_ok s \<and> length (pcs s) = opt_max_workers o'"

lemma step_length: "loop_step s s' \<Longrightarrow> length (pcs s') = length (pcs s)" "task_step o' s s' \<Longrightarrow> length (pcs s') = length (pcs s)"
  by (auto elim!: loop_step.cases task_step.cases simp: flush_worker_def count_terminal_def)

lemma num_initial [simp]:
  "num P (initial_pool config o' t u) = (if P Locking then opt_max_workers o' else 0)"
  by (simp add: num_def initial_pool_def)

lemma initial_pool_ok:
  assumes "opt_max_workers o' > 0"
  shows "pool_ok o' (initial_pool config o' t u)"
proof -
  have "pool_inv o' (initial_pool config o' t u)"
    using assms unfolding pool_inv_def Let_def num_initial
    by (simp add: holds_lock_def misdirected_def busy_def awake_def) (simp add: initial_pool_def initial_shared_def)
  moreover have "counts_ok (initial_pool config o' t u)"
  proof -
    have "local_of kind initial_worker_state = 0" "total_of kind (pool_shared (initial_pool config o' t u)) = 0" for kind
      by (cases kind; simp add: initial_worker_state_def initial_pool_def initial_shared_def)+
    then show ?thesis
      using assms by (auto simp: counts_ok_def initial_pool_def initial_shared_def at_def logged_def sum_list_replicate initial_worker_state_def)
  qed
  moreover have "logs_ok (initial_pool config o' t u)"
    unfolding logs_ok_def num_initial by (simp add: resting_def) (simp add: initial_pool_def initial_shared_def)
  ultimately show ?thesis by (simp add: pool_ok_def) (simp add: initial_pool_def)
qed

lemma spurious_ok:
  assumes ok: "pool_ok o' s" and at: "at s i Parked"
  shows "pool_ok o' (goto i Woken s)"
proof -
  have "pool_inv o' (goto i Woken s)"
    using ok at num_at_kinds [OF at] num_holds [of s] by (auto simp: pool_ok_def pool_inv_def Let_def pool_simps)
  moreover have "counts_ok (goto i Woken s)"
    by (rule counts_frame [of s]) (use ok in \<open>auto simp: pool_ok_def at_goto split: if_splits\<close>)
  moreover have "logs_ok (goto i Woken s)"
    using ok at num_at [OF at, of resting] by (auto simp: pool_ok_def logs_ok_def num_goto_eq resting_def)
  ultimately show ?thesis using ok by (simp add: pool_ok_def)
qed

lemma reachable_ok:
  assumes "pool_reachable config o' t u s" "opt_max_workers o' > 0"
  shows "pool_ok o' s"
  using assms(1)
proof (induction rule: pool_reachable.induct)
  case reachable_init
  show ?case using assms(2) by (rule initial_pool_ok)
next
  case (reachable_step s s')
  then show ?case
    by (auto elim!: pool_stepE simp: pool_ok_def step_length
        dest: loop_step_inv task_step_inv loop_step_counts task_step_counts loop_step_logs task_step_logs)
next
  case (reachable_spurious s i)
  then show ?case by (simp add: spurious_ok)
qed

lemma resolved_workers [simp]: "opt_max_workers (resolve_options hw o') > 0"
  by (simp add: resolve_options_def resolve_max_workers_def Let_def)

lemma resolved_queue: "opt_max_queued_tasks (resolve_options hw o') > 0"
  by (simp add: resolve_options_def resolve_max_queued_tasks_def Let_def less_max_iff_disj)

lemmas reachable_resolved = reachable_ok [OF _ resolved_workers]

section \<open>Progress\<close>

lemma locked_step:
  assumes inv: "pool_inv o' s" and "\<not> lock_free s"
  shows "\<exists>s'. loop_step s s'"
proof -
  from assms(2) obtain i where "at s i Waiting \<or> at s i Parking \<or> at s i Taking"
    unfolding lock_free_def holds_lock_def at_def by (metis in_set_conv_nth)
  then consider "at s i Waiting" | "at s i Parking" | "at s i Taking" by blast
  then show ?thesis
  proof cases
    case 3
    show ?thesis
    proof (cases "stop_flag (pool_shared s) \<or> search_complete (pool_shared s)")
      case False
      then have "task_queue (pool_shared s) \<noteq> []"
        using inv num_at_kinds(3) [OF 3] by (auto simp: pool_inv_def Let_def)
      with 3 False show ?thesis by (metis neq_Nil_conv step_take)
    qed (use 3 step_exit in blast)
  qed (use step_wait_over step_must_wait step_park in blast)+
qed

lemma free_step:
  assumes "lock_free s" "at s i p" "p \<noteq> Exited" "p \<noteq> Parked"
  shows "\<exists>s'. loop_step s s'"
proof -
  have "\<not> holds_lock p" using assms(1,2) by (auto simp: lock_free_def at_def)
  with assms(3,4) consider "p = Locking" | "p = Woken" | "p = Working" | "p = NotifyingOne" | q where "p = NotifyingAll q" | "p = Finishing"
    by (cases p) (auto simp: holds_lock_def)
  then show ?thesis
  proof cases
    case 1
    with assms show ?thesis using step_ready step_not_ready by blast
  next
    case 4
    with assms show ?thesis by (metis step_notify_one step_notify_none at_def in_set_conv_nth)
  next
    case 6
    with assms show ?thesis by (metis step_leave surj_pair)
  qed (use assms step_relock step_finish step_notify_all in blast)+
qed

lemma stuck_pool:
  assumes inv: "pool_inv o' s" and stuck: "\<nexists>s'. loop_step s s'"
  shows "(\<forall>p\<in>set (pcs s). p = Exited) \<or> stop_flag (pool_shared s) \<and> (\<forall>p\<in>set (pcs s). p = Exited \<or> p = Parked)"
proof -
  have free: "lock_free s" using locked_step [OF inv] stuck by blast
  have rest: "\<forall>p\<in>set (pcs s). p = Exited \<or> p = Parked"
    using free_step [OF free] stuck by (metis at_def in_set_conv_nth)
  then have none: "num busy s = 0" "num ((=) (NotifyingAll Locking)) s = 0"
    by (fastforce simp: num_def filter_empty_conv busy_def)+
  show ?thesis
  proof (cases "stop_flag (pool_shared s)")
    case False
    have "Parked \<notin> set (pcs s)"
    proof
      assume "Parked \<in> set (pcs s)"
      then have parked: "num ((=) Parked) s > 0" by (auto simp: num_def filter_empty_conv)
      show False
      proof (cases "search_complete (pool_shared s)")
        case True
        with inv parked none(2) show False by (auto simp: pool_inv_def Let_def)
      next
        case no: False
        with inv False none(1) have "num awake s > 0" "num ((=) Exited) s = 0" by (auto simp: pool_inv_def Let_def)
        with rest show False by (fastforce simp: num_def filter_empty_conv awake_def)
      qed
    qed
    with rest show ?thesis by blast
  qed (use rest in blast)
qed

text \<open>
  Without task steps the pool settles: a step of the loop takes a task out of the pool, or delivers a
  notification, or moves a worker on.
\<close>

definition notifying :: "Pc \<Rightarrow> bool" where
  "notifying p \<longleftrightarrow> p = NotifyingOne \<or> (\<exists>q. p = NotifyingAll q)"

fun pc_weight :: "Pc \<Rightarrow> nat" where
  "pc_weight Locking = 5"
| "pc_weight Woken = 5"
| "pc_weight Waiting = 4"
| "pc_weight Parking = 3"
| "pc_weight Taking = 3"
| "pc_weight Parked = 2"
| "pc_weight Working = 1"
| "pc_weight _ = 0"

definition work_left :: "('v, 'u) Pool \<Rightarrow> nat" where
  "work_left s = 2 * length (task_queue (pool_shared s)) + num busy s"

definition steps_left :: "('v, 'u) Pool \<Rightarrow> nat" where
  "steps_left s = sum_list (map pc_weight (pcs s))"

lemma steps_left_goto: "at s i p \<Longrightarrow> steps_left (goto i q s) + pc_weight p = steps_left s + pc_weight q"
  using sum_list_update [of i "pcs s" pc_weight q] by (simp add: steps_left_def goto_def at_def)

lemma steps_left_simps [simp]:
  "steps_left (on_pool f s) = steps_left s" "steps_left (flush_worker i s) = steps_left s"
  by (simp_all add: steps_left_def on_pool_def flush_worker_def)

lemma notify_all_notifying: "num notifying (notify_all s) = num notifying s"
  unfolding num_notify_all by (intro num_cong) (simp add: notifying_def wake_def)

lemma lighter_move:
  assumes "at s i p" "busy p = busy q" "\<not> notifying p" "\<not> notifying q" "pc_weight q < pc_weight p"
  shows "(goto i q s, s) \<in> measures [work_left, num notifying, steps_left]"
  using assms num_goto [OF assms(1), of busy q] num_goto [OF assms(1), of notifying q] steps_left_goto [OF assms(1), of q]
  by (simp add: work_left_def)

lemma loop_step_decreases:
  assumes step: "loop_step s s'" and inv: "pool_inv o' s"
  shows "(s', s) \<in> measures [work_left, num notifying, steps_left]"
  using step
proof (cases rule: loop_step.cases)
  case (step_notify_one i j)
  then have "at (goto i Working s) j Parked" by (cases "i = j") (auto simp: at_def goto_def)
  with step_notify_one num_at [OF step_notify_one(2), of notifying] num_at [OF step_notify_one(2), of busy] show ?thesis
    by (auto simp: work_left_def num_goto_eq busy_def notifying_def)
next
  case (step_notify_none i)
  with num_at [OF step_notify_none(2), of notifying] num_at [OF step_notify_none(2), of busy] show ?thesis
    by (auto simp: work_left_def num_goto_eq busy_def notifying_def)
next
  case (step_notify_all i p)
  then have p: "p = Working \<or> p = Finishing \<or> p = Locking"
    using inv num_at_kinds(5) [OF step_notify_all(2)] by (auto simp: pool_inv_def Let_def misdirected_def)
  have at: "at (notify_all s) i (NotifyingAll p)" using step_notify_all(2) by (simp add: at_notify)
  have "num busy s' = num busy s" using p num_goto [OF at, of busy p] step_notify_all(1) by (auto simp: notify_kinds busy_def)
  moreover have "num notifying s' + 1 = num notifying s"
    using p num_goto [OF at, of notifying p] step_notify_all(1) by (auto simp: notify_all_notifying notifying_def)
  ultimately show ?thesis using step_notify_all(1) by (simp add: work_left_def)
next
  case (step_take i task rest)
  then show ?thesis by (simp add: work_left_def num_goto_eq busy_def)
next
  case (step_leave i complete sh)
  with num_at [OF step_leave(2), of busy] leave_task_cases(2) [OF step_leave(4)] show ?thesis
    by (auto simp: work_left_def num_goto_eq busy_def)
next
  case (step_exit i)
  with steps_left_goto [of "flush_worker i s" i Taking Exited] show ?thesis
    by (simp add: work_left_def num_goto_eq busy_def notifying_def)
next
  case (step_not_ready i)
  with steps_left_goto [of "on_pool (\<lambda>sh. sh\<lparr>idle_workers := idle_workers sh + 1\<rparr>) s" i Locking Waiting] show ?thesis
    by (simp add: work_left_def num_goto_eq busy_def notifying_def)
next
  case (step_wait_over i)
  with steps_left_goto [of "on_pool (\<lambda>sh. sh\<lparr>idle_workers := idle_workers sh - 1\<rparr>) s" i Waiting Taking] show ?thesis
    by (simp add: work_left_def num_goto_eq busy_def notifying_def)
qed (auto intro!: lighter_move simp: busy_def notifying_def simp del: in_measures)

lemma reachable_stepI:
  "pool_reachable config o' t u s \<Longrightarrow> loop_step s s' \<Longrightarrow> pool_reachable config o' t u s'"
  by (blast intro: reachable_step loop_pool_step)

lemma loop_step_stop: "loop_step s s' \<Longrightarrow> stop_flag (pool_shared s') = stop_flag (pool_shared s)"
  by (erule loop_step.cases) (auto simp: leave_task_cases)

lemma pool_drains:
  assumes "pool_reachable config o' t u s" "\<not> stop_flag (pool_shared s)" "opt_max_workers o' > 0"
  shows "\<exists>s'. pool_reachable config o' t u s' \<and> \<not> stop_flag (pool_shared s') \<and> (\<forall>p\<in>set (pcs s'). p = Exited)"
  using wf_measures assms
proof (induction s rule: wf_induct_rule [of "measures [work_left, num notifying, steps_left]"])
  case (less s)
  have inv: "pool_inv o' s" using reachable_ok [OF less.prems(1,3)] by (simp add: pool_ok_def)
  show ?case
  proof (cases "\<exists>s'. loop_step s s'")
    case True
    then obtain s' where s': "loop_step s s'" ..
    show ?thesis
      by (rule less.IH [OF loop_step_decreases [OF s' inv] reachable_stepI [OF less.prems(1) s'] _ less.prems(3)])
        (simp add: loop_step_stop [OF s'] less.prems(2))
  qed (use stuck_pool [OF inv] less.prems in blast)
qed

section \<open>Theorems\<close>

lemma num_disjoint:
  assumes "\<And>p. \<not> (P p \<and> Q p)"
  shows "num P s + num Q s \<le> length (pcs s)"
proof -
  have "length (filter P ps) + length (filter Q ps) \<le> length ps" for ps
    using assms by (induction ps) auto
  then show ?thesis by (simp add: num_def)
qed

lemma all_blank:
  assumes "counts_ok s" "\<forall>p\<in>set (pcs s). p = Exited" "l \<in> set (worker_states s)"
  shows "blank l"
  using assms unfolding counts_ok_def at_def by (metis in_set_conv_nth nth_mem)

lemma exited_pool:
  assumes ok: "pool_ok o' s" and exited: "\<forall>p\<in>set (pcs s). p = Exited" and workers: "opt_max_workers o' > 0"
  shows "num busy s = 0" and "stop_flag (pool_shared s) \<or> search_complete (pool_shared s)"
    and "total_of kind (pool_shared s) = logged kind (published s)"
    and "max_depth_total (pool_shared s) \<le> b \<longleftrightarrow> (\<forall>e\<in>set (published s). snd e \<le> b)"
proof -
  show "num busy s = 0" using exited by (auto simp: num_def filter_empty_conv busy_def)
  have "num ((=) Exited) s > 0"
    using ok exited workers by (cases "pcs s") (auto simp: num_def pool_ok_def)
  then show "stop_flag (pool_shared s) \<or> search_complete (pool_shared s)"
    using ok by (auto simp: pool_ok_def pool_inv_def Let_def)
  have blank: "\<forall>l\<in>set (worker_states s). blank l" using all_blank ok exited by (auto simp: pool_ok_def)
  then have "sum_list (map (local_of kind) (worker_states s)) = 0" by (simp add: blank_def)
  then show "total_of kind (pool_shared s) = logged kind (published s)"
    using ok unfolding pool_ok_def counts_ok_def by (metis add_0_right)
  show "max_depth_total (pool_shared s) \<le> b \<longleftrightarrow> (\<forall>e\<in>set (published s). snd e \<le> b)"
    using ok blank by (fastforce simp: pool_ok_def counts_ok_def blank_def)
qed

lemma logged_sum:
  "logged Full es + logged Blocked es + logged ErrorExecution es + logged DepthLimit es + logged ThreadEventLimit es = length es"
proof (induction es)
  case (Cons e es)
  then show ?case by (cases "fst e") (auto simp: logged_def)
qed (simp add: logged_def)

text \<open>C16. Progress of the worker pool: as long as no stop was requested and some worker has not left its
  loop, some worker can take a step, whatever the workers did before. No task is left to a sleeping
  pool, and the completion of the search wakes everyone.\<close>

theorem pool_progress:
  assumes "pool_reachable config (resolve_options hw options) start_time u s"
    and "\<not> stop_flag (pool_shared s)" "p \<in> set (pcs s)" "p \<noteq> Exited"
  shows "\<exists>s'. loop_step s s'"
  using stuck_pool [of "resolve_options hw options" s] reachable_resolved [OF assms(1)] assms(2-4)
  by (auto simp: pool_ok_def)

theorem pool_progress_witness:
  "\<exists>s'. loop_step (initial_pool sample_config (resolve_options 2 default_options) 0 []) s'"
  by (rule pool_progress [OF reachable_init, where p = Locking])
    (auto simp: initial_pool_def initial_shared_def resolve_options_def resolve_max_workers_def default_options_def)

text \<open>C17. The loop settles: from the reachable pools there is no infinite sequence of steps without a
  step of a task being processed, so the pool cannot spin on its lock and its condition variable.\<close>

theorem pool_settles:
  "wf {(s', s). pool_reachable config (resolve_options hw options) start_time u s \<and> loop_step s s'}"
  by (rule wf_subset [OF wf_measures [of "[work_left, num notifying, steps_left]"]])
    (auto dest!: reachable_resolved simp: pool_ok_def simp del: in_measures intro: loop_step_decreases)

text \<open>
  The outcome of a parallel verification: the calling thread is one of the workers; after the join no
  other thread touches the shared members. What the workers do with their tasks is left open here, so
  the relation holds of more outcomes than the program has.
\<close>

definition joined_worker :: "('v, 'u) Pool \<Rightarrow> ('v, 'u) Worker" where
  "joined_worker s = \<lparr>shared = pool_shared s, worker_state = worker_states s ! 0, interference = (\<lambda>_ sh. sh), accesses = 0\<rparr>"

definition not_reentrant :: exn where
  "not_reentrant = precondition_error (''verify_parallel is not reentrant: it must not be called from inside a parallel ''
     @ ''exploration worker (e.g., from an observer callback or thread function)'')"

definition parallel_thread_ids :: "('v, 'u) DporConfig \<Rightarrow> ThreadId list result" where
  "parallel_thread_ids config =
     bind_result (validate_terminal_observer_config config) (\<lambda>_. sorted_thread_ids (config_program config))"

inductive verify_parallel ::
    "('v, 'u) DporConfig \<Rightarrow> ParallelVerifyOptions \<Rightarrow> nat \<Rightarrow> ('u \<Rightarrow> int \<times> 'u) \<Rightarrow> bool \<Rightarrow> 'u \<Rightarrow> VerifyResult result \<Rightarrow> bool"
  for config options hw clock in_worker u where
  rejected: "parallel_thread_ids config = Inl e \<Longrightarrow> verify_parallel config options hw clock in_worker u (Inl e)"
| reentrant: "parallel_thread_ids config = Inr ts \<Longrightarrow> in_worker \<Longrightarrow> verify_parallel config options hw clock in_worker u (Inl not_reentrant)"
| joined: "parallel_thread_ids config = Inr ts \<Longrightarrow> \<not> in_worker \<Longrightarrow> clock u = (start_time, u1) \<Longrightarrow>
    pool_reachable config (resolve_options hw options) start_time u1 s \<Longrightarrow> \<forall>p\<in>set (pcs s). p = Exited \<Longrightarrow>
    finish_run config (resolve_options hw options) clock start_time (joined_worker s) = (r, w) \<Longrightarrow>
    verify_parallel config options hw clock in_worker u r"

text \<open>The counters of a result against the log of publications of the pool, and the tasks against each other.\<close>

definition result_matches :: "VerifyResult \<Rightarrow> ('v, 'u) Pool \<Rightarrow> bool" where
  "result_matches r s \<longleftrightarrow>
      full_executions_explored r = logged Full (published s)
    \<and> blocked_executions_explored r = logged Blocked (published s)
    \<and> error_executions_explored r = logged ErrorExecution (published s)
    \<and> depth_limit_executions_explored r = logged DepthLimit (published s)
    \<and> thread_event_limit_executions_explored r = logged ThreadEventLimit (published s)
    \<and> executions_explored r = length (published s)
    \<and> max_thread_event_depth_reached r = fold max (map snd (published s)) 0
    \<and> (result_kind r = AllExplored \<longrightarrow> taken s = handed_in s)"

lemma pool_result:
  assumes "pool_reachable config (resolve_options hw options) start_time u s" "\<forall>p\<in>set (pcs s). p = Exited"
  shows "result_matches (collect_result (pool_shared s)) s"
proof -
  have ok: "pool_ok (resolve_options hw options) s" using assms(1) by (rule reachable_resolved)
  note fin = exited_pool [OF ok assms(2) resolved_workers]
  have t: "full_total (pool_shared s) = logged Full (published s)" "blocked_total (pool_shared s) = logged Blocked (published s)"
    "error_total (pool_shared s) = logged ErrorExecution (published s)"
    "depth_limit_total (pool_shared s) = logged DepthLimit (published s)"
    "thread_event_limit_total (pool_shared s) = logged ThreadEventLimit (published s)"
    using fin(3) [of Full] fin(3) [of Blocked] fin(3) [of ErrorExecution] fin(3) [of DepthLimit] fin(3) [of ThreadEventLimit]
    by simp_all
  have "fold max xs a \<le> b \<longleftrightarrow> a \<le> b \<and> (\<forall>x\<in>set xs. x \<le> b)" for xs and a b :: nat
    by (induction xs arbitrary: a) auto
  then have "max_depth_total (pool_shared s) \<le> b \<longleftrightarrow> fold max (map snd (published s)) 0 \<le> b" for b
    using fin(4) by auto
  then have "max_depth_total (pool_shared s) = fold max (map snd (published s)) 0"
    by (meson dual_order.antisym order_refl)
  moreover have "taken s = handed_in s" if "\<not> stop_flag (pool_shared s)"
    using that fin(2) ok by (auto simp: pool_ok_def pool_inv_def logs_ok_def Let_def)
  ultimately show ?thesis using logged_sum [of "published s"] t by (auto simp: collect_result_def result_matches_def)
qed

lemma publish_progress_throws:
  assumes "publish_progress_snapshot config o' start_time st now exact w = (Inl e, w')"
  shows "\<exists>snapshot u1. fst (notify_progress config snapshot u1) = Inl e"
  using assms by (auto simp: publish_progress_snapshot_def worker_call_def access_def split: prod.splits) (metis fst_conv)

lemma finish_run_cases:
  assumes "finish_run config o' clock start_time (joined_worker s) = (r, w)" "first_exception (pool_shared s) = None"
  shows "r = Inr (collect_result (pool_shared s)) \<or> (\<exists>e snapshot u1. r = Inl e \<and> fst (notify_progress config snapshot u1) = Inl e)"
proof -
  let ?res = "collect_result (pool_shared s)"
  consider "r = Inr ?res" | now w1 where "bind_action (publish_progress_snapshot config o' start_time
      (progress_state_from_result_kind (result_kind ?res)) now True) (\<lambda>_. return_action ?res) w1 = (r, w)"
    using assms by (auto simp: finish_run_def joined_worker_def Let_def split: if_splits prod.splits)
  then show ?thesis
  proof cases
    case (2 now w1)
    then show ?thesis
      using publish_progress_throws [of config o' start_time "progress_state_from_result_kind (result_kind ?res)" now True w1]
      by (auto simp: bind_action_def return_action_def split: prod.splits sum.splits)
  qed simp
qed

text \<open>C15. What a parallel verification returns or throws. A result is only returned when every worker has left
  its loop and no exception was recorded; its counters are the numbers of terminal executions
  published, by kind and in total, its depth is the greatest one published, and when it says that
  everything was explored then the tasks taken are the tasks handed in, in this order. An exception
  is that of the configuration, that of a call from inside a worker, the first one a worker
  recorded, or one of the progress observer.\<close>

theorem verify_parallel_outcome:
  assumes "verify_parallel config options hw clock in_worker u r"
  shows "case r of
      Inr res \<Rightarrow> \<not> in_worker \<and> (\<exists>start_time u1 s. pool_reachable config (resolve_options hw options) start_time u1 s
        \<and> (\<forall>p\<in>set (pcs s). p = Exited) \<and> thrown s = [] \<and> result_matches res s)
    | Inl e \<Rightarrow> parallel_thread_ids config = Inl e \<or> in_worker \<and> e = not_reentrant
        \<or> (\<exists>snapshot u1. fst (notify_progress config snapshot u1) = Inl e)
        \<or> (\<exists>start_time u1 s. pool_reachable config (resolve_options hw options) start_time u1 s
             \<and> thrown s \<noteq> [] \<and> e = hd (thrown s))"
  using assms
proof cases
  case (joined ts start_time u1 s w)
  have logs: "logs_ok s" using reachable_resolved [OF joined(4)] by (simp add: pool_ok_def)
  note m = pool_result [OF joined(4,5)]
  show ?thesis
  proof (cases "first_exception (pool_shared s)")
    case None
    with logs have no: "thrown s = []" by (auto simp: logs_ok_def split: if_splits)
    have "r = Inr (collect_result (pool_shared s)) \<or> (\<exists>e snapshot u1. r = Inl e \<and> fst (notify_progress config snapshot u1) = Inl e)"
      using joined(6) None by (rule finish_run_cases)
    with joined(2,4,5) m no show ?thesis by (cases r) auto
  next
    case (Some e)
    with joined(6) have "r = Inl e" by (simp add: finish_run_def joined_worker_def)
    with Some logs joined(4) show ?thesis by (auto simp: logs_ok_def split: if_splits)
  qed
qed auto

lemma sample_thread_ids: "parallel_thread_ids sample_config = Inr [0, 1]"
  using sample_sorted_ids by (simp add: parallel_thread_ids_def validate_terminal_observer_config_def sample_config_def)

theorem verify_parallel_outcome_witness:
  "\<exists>res (s :: (nat, nat TerminalExecution list) Pool). verify_parallel sample_config default_options 2 (\<lambda>u. (0, u)) False [] (Inr res) \<and> result_matches res s"
proof -
  let ?o = "resolve_options 2 default_options"
  have "\<not> stop_flag (pool_shared (initial_pool sample_config ?o 0 []))" by (simp add: initial_pool_def initial_shared_def)
  then obtain s where s: "pool_reachable sample_config ?o 0 [] s" "\<not> stop_flag (pool_shared s)" "\<forall>p\<in>set (pcs s). p = Exited"
    using pool_drains [OF reachable_init [of sample_config ?o 0 "[]"] _ resolved_workers] by metis
  then have "first_exception (pool_shared s) = None"
    using reachable_resolved [OF s(1)] by (auto simp: pool_ok_def logs_ok_def)
  then have "finish_run sample_config ?o (\<lambda>u. (0, u)) 0 (joined_worker s) = (Inr (collect_result (pool_shared s)), joined_worker s)"
    by (simp add: finish_run_def joined_worker_def sample_config_def)
  then have v: "verify_parallel sample_config default_options 2 (\<lambda>u. (0, u)) False [] (Inr (collect_result (pool_shared s)))"
    using s by (intro joined [OF sample_thread_ids]) auto
  from verify_parallel_outcome [OF v] v show ?thesis by auto
qed

text \<open>C18. Bounds of the pool: the queue never exceeds its capacity, the workers counted as active and
  those counted as idle never exceed the workers, and the counters never go below zero.\<close>

theorem pool_bounds:
  assumes "pool_reachable config (resolve_options hw options) start_time u s"
  shows "length (task_queue (pool_shared s)) \<le> opt_max_queued_tasks (resolve_options hw options)
    \<and> active_count (pool_shared s) + idle_workers (pool_shared s) \<le> opt_max_workers (resolve_options hw options)"
proof -
  have "pool_ok (resolve_options hw options) s" using assms by (rule reachable_resolved)
  then show ?thesis
    using resolved_queue [of hw options] num_disjoint [of busy resting s]
    by (auto simp: pool_ok_def pool_inv_def logs_ok_def Let_def busy_def resting_def)
qed

theorem pool_bounds_witness:
  "length (task_queue (pool_shared (initial_pool sample_config (resolve_options 2 default_options) 0 [])))
     \<le> opt_max_queued_tasks (resolve_options 2 default_options)"
  using pool_bounds [OF reachable_init [of sample_config "resolve_options 2 default_options" 0 "[]"]] by simp

text \<open>
  A run with two workers: the second one finds the predicate false and is about to block; the first one
  stores the stop flag and notifies without holding the mutex, while nobody is blocked yet.
\<close>

lemma two_workers: "replicate (opt_max_workers (resolve_options 2 default_options)) x = [x, x]"
  by (simp add: resolve_options_def resolve_max_workers_def default_options_def Let_def) (simp add: numeral_2_eq_2)

lemma exited_or_parked_stuck:
  assumes "\<forall>p\<in>set (pcs s). p = Exited \<or> p = Parked"
  shows "\<not> pool_step o' s s'"
proof -
  have "\<not> at s i p" if "p \<noteq> Exited" "p \<noteq> Parked" for i p using assms that by (auto simp: at_def)
  then show ?thesis by (auto elim!: pool_stepE loop_step.cases task_step.cases)
qed

text \<open>C19. A stop can be lost: a pool of two workers reaches a state in which a stop was requested, one
  worker has left, the other one is blocked on the condition variable and no step is possible.\<close>

theorem lost_wakeup:
  "\<exists>s. pool_reachable config (resolve_options 2 default_options) start_time u s \<and> stop_flag (pool_shared s)
     \<and> pcs s = [Exited, Parked] \<and> (\<forall>s'. \<not> pool_step (resolve_options 2 default_options) s s')"
proof -
  let ?o = "resolve_options 2 default_options" and ?R = "pool_reachable config (resolve_options 2 default_options) start_time u"
  define s0 where "s0 = initial_pool config ?o start_time u"
  define s2 where "s2 = goto 0 Working (take_task root_task [] (goto 0 Taking s0))"
  define s4 where "s4 = goto 1 Parking (goto 1 Waiting (on_pool (\<lambda>sh. sh\<lparr>idle_workers := idle_workers sh + 1\<rparr>) s2))"
  define s5 where "s5 = goto 0 (NotifyingAll Working) (on_pool (\<lambda>sh. sh\<lparr>stop_flag := True\<rparr>) s4)"
  define s8 where "s8 = goto 0 Finishing (goto 1 Parked (goto 0 Working (notify_all s5)))"
  define s9 where "s9 = goto 0 Locking (on_pool (\<lambda>_. snd (leave_task (pool_shared s8))) s8)"
  define s11 where "s11 = goto 0 Exited (flush_worker 0 (goto 0 Taking s9))"
  note defs = goto_def on_pool_def take_task_def notify_all_def flush_worker_def at_def lock_free_def holds_lock_def ready_def wake_def
  have s0: "pcs s0 = [Locking, Locking]" "task_queue (pool_shared s0) = [root_task]" "\<not> stop_flag (pool_shared s0)"
    "\<not> search_complete (pool_shared s0)" "active_count (pool_shared s0) = 0"
    by (simp_all add: s0_def initial_pool_def initial_shared_def two_workers)
  have s2: "pcs s2 = [Working, Locking]" "task_queue (pool_shared s2) = []" "\<not> stop_flag (pool_shared s2)"
    "\<not> search_complete (pool_shared s2)" "active_count (pool_shared s2) = 1"
    using s0 by (simp_all add: s2_def defs)
  have s4: "pcs s4 = [Working, Parking]" "task_queue (pool_shared s4) = []" "\<not> stop_flag (pool_shared s4)"
    "\<not> search_complete (pool_shared s4)" "active_count (pool_shared s4) = 1"
    using s2 by (simp_all add: s4_def defs)
  have s5: "pcs s5 = [NotifyingAll Working, Parking]" "stop_flag (pool_shared s5)" using s4 by (simp_all add: s5_def defs)
  have s8: "pcs s8 = [Finishing, Parked]" "stop_flag (pool_shared s8)" using s5 by (simp_all add: s8_def defs)
  have l: "leave_task (pool_shared s8) = (False, snd (leave_task (pool_shared s8)))" "stop_flag (snd (leave_task (pool_shared s8)))"
    using s8 by (auto simp: leave_task_def Let_def)
  have s9: "pcs s9 = [Locking, Parked]" "stop_flag (pool_shared s9)" using s8 l by (simp_all add: s9_def defs)
  have s11: "pcs s11 = [Exited, Parked]" "stop_flag (pool_shared s11)" using s9 by (simp_all add: s11_def defs)
  note R = reachable_stepI [where config = config and o' = ?o and t = start_time and u = u]
  have "?R s0" unfolding s0_def by (rule reachable_init)
  then have "?R (goto 0 Taking s0)" by (rule R) (rule step_ready; use s0 in \<open>simp add: defs\<close>)
  then have "?R s2" unfolding s2_def by (rule R) (rule step_take; use s0 in \<open>simp add: defs\<close>)
  then have "?R (goto 1 Waiting (on_pool (\<lambda>sh. sh\<lparr>idle_workers := idle_workers sh + 1\<rparr>) s2))"
    by (rule R) (rule step_not_ready; use s2 in \<open>simp add: defs\<close>)
  then have "?R s4" unfolding s4_def by (rule R) (rule step_must_wait; use s2 in \<open>simp add: defs\<close>)
  then have "?R s5" unfolding s5_def by (rule reachable_step) (rule task_pool_step, rule step_stop; use s4 in \<open>simp add: defs\<close>)
  then have "?R (goto 0 Working (notify_all s5))" by (rule R) (rule step_notify_all; use s5 in \<open>simp add: defs\<close>)
  then have "?R (goto 1 Parked (goto 0 Working (notify_all s5)))" by (rule R) (rule step_park; use s5 in \<open>simp add: defs\<close>)
  then have "?R s8" unfolding s8_def by (rule R) (rule step_finish; use s5 in \<open>simp add: defs\<close>)
  then have "?R s9" by (rule R) (use step_leave [OF _ _ l(1), of 0] s8 in \<open>simp add: s9_def defs\<close>)
  then have "?R (goto 0 Taking s9)" by (rule R) (rule step_ready; use s9 in \<open>simp add: defs\<close>)
  then have "?R s11" unfolding s11_def by (rule R) (rule step_exit; use s9 in \<open>simp add: defs\<close>)
  with s11 exited_or_parked_stuck [of s11] show ?thesis by (intro exI [of _ s11]) simp
qed

end
