(* ===== verification/Text.thy ===== *)
theory Text
  imports Errors
begin

text \<open>
  Formatted text as the sources write and read it: decimal numbers (\<^verbatim>\<open>std::to_string\<close>), and the
  extraction of words and of unsigned 64-bit numbers from a \<^verbatim>\<open>std::istringstream\<close>. The stream is
  the rest of its text; a failed extraction is \<open>None\<close>. The theorems show that a printed number reads
  back and where it ends in a longer text.
\<close>

definition isspace :: "char \<Rightarrow> bool" where
  "isspace c \<longleftrightarrow> c = CHR '' '' \<or> c = CHR 0x09 \<or> c = CHR 0x0A \<or> c = CHR 0x0B \<or> c = CHR 0x0C \<or> c = CHR 0x0D"

definition isdigit :: "char \<Rightarrow> bool" where
  "isdigit c \<longleftrightarrow> c \<in> set ''0123456789''"

definition digit_value :: "char \<Rightarrow> nat" where
  "digit_value c = of_char c - 48"

definition decimal_value :: "string \<Rightarrow> nat" where
  "decimal_value ds = foldl (\<lambda>n c. 10 * n + digit_value c) 0 ds"

text \<open>\<^verbatim>\<open>iss >> word\<close>: skip white space, then everything up to the next white space.\<close>

definition read_word :: "string \<Rightarrow> (string \<times> string) option" where
  "read_word s =
     (let s' = dropWhile isspace s
      in if s' = [] then None
         else Some (takeWhile (\<lambda>c. \<not> isspace c) s', dropWhile (\<lambda>c. \<not> isspace c) s'))"

text \<open>
  \<^verbatim>\<open>iss >> n\<close> for an unsigned 64-bit \<open>n\<close>: white space, an optional sign, digits. A minus sign negates
  modulo the width, a magnitude that does not fit fails.
\<close>

definition read_size :: "string \<Rightarrow> (nat \<times> string) option" where
  "read_size s =
     (let s' = dropWhile isspace s;
          negative = (s' \<noteq> [] \<and> hd s' = CHR ''-'');
          unsigned = (if s' \<noteq> [] \<and> (hd s' = CHR ''-'' \<or> hd s' = CHR ''+'') then tl s' else s');
          ds = takeWhile isdigit unsigned; rest = dropWhile isdigit unsigned; n = decimal_value ds
      in if ds = [] \<or> n \<ge> 2 ^ 64 then None
         else Some (if negative then (2 ^ 64 - n) mod 2 ^ 64 else n, rest))"

section \<open>Reading back what was printed\<close>

lemma digit_chars:
  "digit_char 0 = CHR ''0''" "digit_char (Suc 0) = CHR ''1''" "digit_char 2 = CHR ''2''" "digit_char 3 = CHR ''3''"
  "digit_char 4 = CHR ''4''" "digit_char 5 = CHR ''5''" "digit_char 6 = CHR ''6''" "digit_char 7 = CHR ''7''"
  "digit_char 8 = CHR ''8''" "digit_char 9 = CHR ''9''"
  by code_simp+

lemma digit_char_kind:
  assumes "n < 10"
  shows "isdigit (digit_char n)" "digit_value (digit_char n) = n" "\<not> isspace (digit_char n)"
    "digit_char n \<noteq> CHR ''-''" "digit_char n \<noteq> CHR ''+''" "digit_char n \<noteq> CHR 0x0A"
proof -
  have n: "n = 0 \<or> n = 1 \<or> n = 2 \<or> n = 3 \<or> n = 4 \<or> n = 5 \<or> n = 6 \<or> n = 7 \<or> n = 8 \<or> n = 9" using assms by arith
  show "digit_value (digit_char n) = n" using assms by (simp add: digit_value_def digit_char_def)
  have "isdigit (digit_char n) \<and> \<not> isspace (digit_char n)
    \<and> digit_char n \<noteq> CHR ''-'' \<and> digit_char n \<noteq> CHR ''+'' \<and> digit_char n \<noteq> CHR 0x0A"
    using n by (elim disjE) (simp_all add: digit_chars isdigit_def isspace_def)
  then show "isdigit (digit_char n)" "\<not> isspace (digit_char n)"
    "digit_char n \<noteq> CHR ''-''" "digit_char n \<noteq> CHR ''+''" "digit_char n \<noteq> CHR 0x0A" by auto
qed

lemma nat_to_string_digits: "\<forall>c\<in>set (nat_to_string n). isdigit c \<and> \<not> isspace c \<and> c \<noteq> CHR ''-'' \<and> c \<noteq> CHR ''+'' \<and> c \<noteq> CHR 0x0A"
proof (induction n rule: nat_to_string.induct)
  case (1 n)
  then show ?case
    by (subst nat_to_string.simps) (auto simp: digit_char_kind)
qed

lemma nat_to_string_nonempty [simp]: "nat_to_string n \<noteq> []"
  by (subst nat_to_string.simps) simp

lemma decimal_value_append: "decimal_value (ds @ [c]) = 10 * decimal_value ds + digit_value c"
  by (simp add: decimal_value_def)

lemma decimal_value_nat [simp]: "decimal_value (nat_to_string n) = n"
proof (induction n rule: nat_to_string.induct)
  case (1 n)
  show ?case
  proof (cases "n < 10")
    case True
    then show ?thesis by (subst nat_to_string.simps) (simp add: decimal_value_def digit_char_kind)
  next
    case False
    with 1 show ?thesis by (subst nat_to_string.simps) (simp add: decimal_value_append digit_char_kind)
  qed
qed

text \<open>A number ends at the first character that is not a digit.\<close>

definition ends_number :: "string \<Rightarrow> bool" where
  "ends_number s \<longleftrightarrow> (case s of [] \<Rightarrow> True | c # _ \<Rightarrow> \<not> isdigit c)"

lemma takeWhile_number:
  assumes "ends_number rest"
  shows "takeWhile isdigit (nat_to_string n @ rest) = nat_to_string n" "dropWhile isdigit (nat_to_string n @ rest) = rest"
  using nat_to_string_digits [of n] assms
  by (auto simp: takeWhile_append2 dropWhile_append2 ends_number_def takeWhile_eq_Nil_iff split: list.splits)

lemma nat_to_string_split:
  assumes "nat_to_string m @ r = nat_to_string n @ r'" "ends_number r" "ends_number r'"
  shows "m = n \<and> r = r'"
  using takeWhile_number [OF assms(2), of m] takeWhile_number [OF assms(3), of n] assms(1) by (metis decimal_value_nat)

lemma read_size_number:
  assumes "ends_number rest" "n < 2 ^ 64"
  shows "read_size (CHR '' '' # nat_to_string n @ rest) = Some (n, rest)"
proof -
  obtain c cs where s: "nat_to_string n = c # cs" by (cases "nat_to_string n") auto
  then have c: "\<not> isspace c" "c \<noteq> CHR ''-''" "c \<noteq> CHR ''+''" using nat_to_string_digits [of n] by auto
  have "dropWhile isspace (CHR '' '' # nat_to_string n @ rest) = nat_to_string n @ rest"
    using s c by (simp add: isspace_def)
  moreover have "hd (nat_to_string n @ rest) = c" using s by simp
  ultimately show ?thesis using c takeWhile_number [OF assms(1), of n] assms(2) by (simp add: read_size_def)
qed

lemma read_word_first:
  assumes "w \<noteq> []" "\<forall>c\<in>set w. \<not> isspace c" "rest = [] \<or> isspace (hd rest)"
  shows "read_word (w @ rest) = Some (w, rest)" "read_word (CHR '' '' # w @ rest) = Some (w, rest)"
proof -
  have "dropWhile isspace (w @ rest) = w @ rest" using assms(1,2) by (cases w) auto
  moreover have "takeWhile (\<lambda>c. \<not> isspace c) (w @ rest) = w" "dropWhile (\<lambda>c. \<not> isspace c) (w @ rest) = rest"
    using assms(2,3) by (cases rest; auto simp: takeWhile_append2 dropWhile_append2)+
  ultimately show "read_word (w @ rest) = Some (w, rest)" "read_word (CHR '' '' # w @ rest) = Some (w, rest)"
    using assms(1) by (auto simp: read_word_def Let_def isspace_def)
qed

end
