(* ===== verification/Format.thy ===== *)
theory Format
  imports Text Rollback
begin

text \<open>
  The text of a graph, \<^verbatim>\<open>include/dpor/model/format.hpp\<close>: one line per event in insertion order. The
  formatter of payloads is a parameter. The theorem shows that the rendering is defined on every state of
  a graph and that the text, if payloads and error messages contain no line break, determines the threads, indices and kinds of the events.
\<close>

definition is_valid_id :: "'v ExplorationGraph \<Rightarrow> EventId \<Rightarrow> bool" where
  "is_valid_id x i = is_valid_event_id (graph x) i"

definition format_receive :: "('v \<Rightarrow> string) \<Rightarrow> 'v ExplorationGraph \<Rightarrow> EventId \<Rightarrow> 'v ReceiveLabel \<Rightarrow> string result" where
  "format_receive value_formatter x i recv =
     map_result (\<lambda>rest. (if is_blocking recv then ''receive('' else ''receive(nonblocking, '') @ rest)
       (case rf_find (reads_from (graph x)) i of
          None \<Rightarrow> Inr ''unmatched)''
        | Some bottom \<Rightarrow> Inr ''bottom)''
        | Some (from_send send_id) \<Rightarrow>
            map_result (\<lambda>source. ''from='' @ nat_to_string send_id @ source @ '')'')
              (if is_valid_id x send_id
               then map_result (\<lambda>e. case as_send e of Some source \<Rightarrow> '', val='' @ value_formatter (send_value source) | None \<Rightarrow> [])
                 (xg_event x send_id)
               else Inr []))"

definition format_label :: "('v \<Rightarrow> string) \<Rightarrow> 'v ExplorationGraph \<Rightarrow> EventId \<Rightarrow> 'v event \<Rightarrow> string result" where
  "format_label value_formatter x i evt =
     (case as_send evt of
        Some send \<Rightarrow> Inr (''send(dest='' @ nat_to_string (destination send) @ '', val='' @ value_formatter (send_value send) @ '')'')
      | None \<Rightarrow>
     (case as_receive evt of
        Some recv \<Rightarrow> format_receive value_formatter x i recv
      | None \<Rightarrow>
     (case as_nondeterministic_choice evt of
        Some nd \<Rightarrow> Inr (''nd(val='' @ value_formatter (nd_value nd) @ '')'')
      | None \<Rightarrow>
        if is_block evt then Inr ''block''
        else case as_error evt of
          Some error \<Rightarrow> Inr (''error('' @ message error @ '')'')
        | None \<Rightarrow> Inr [])))"

definition format_event :: "('v \<Rightarrow> string) \<Rightarrow> 'v ExplorationGraph \<Rightarrow> EventId \<Rightarrow> string result" where
  "format_event value_formatter x i =
     bind_result (xg_event x i) (\<lambda>evt.
       map_result (\<lambda>l. ''event '' @ nat_to_string i @ '' thread='' @ nat_to_string (thread evt)
           @ '' index='' @ nat_to_string (unat (index evt)) @ '' '' @ l @ [CHR 0x0A])
         (format_label value_formatter x i evt))"

definition format_graph :: "('v \<Rightarrow> string) \<Rightarrow> 'v ExplorationGraph \<Rightarrow> string result" where
  "format_graph value_formatter x =
     fold_result (\<lambda>i out. map_result (\<lambda>line. out @ line) (format_event value_formatter x i)) (insertion_order x) []"

section \<open>The text determines the events\<close>

text \<open>What the text shows of an event: its thread, its index and its kind.\<close>

datatype shown_kind = ShownSend | ShownReceive bool | ShownChoice | ShownBlock | ShownError

definition kind_shown :: "'v event \<Rightarrow> shown_kind" where
  "kind_shown e =
     (case label e of
        Send _ \<Rightarrow> ShownSend | Receive r \<Rightarrow> ShownReceive (is_blocking r)
      | NondeterministicChoice _ \<Rightarrow> ShownChoice | Block \<Rightarrow> ShownBlock | Error _ \<Rightarrow> ShownError)"

definition shown :: "'v event \<Rightarrow> ThreadId \<times> EventIndex \<times> shown_kind" where
  "shown e = (thread e, index e, kind_shown e)"

text \<open>Reading the kind off the text of a label.\<close>

definition read_kind :: "string \<Rightarrow> shown_kind" where
  "read_kind l =
     (if hd l = CHR ''s'' then ShownSend
      else if hd l = CHR ''r'' then ShownReceive (l ! 8 \<noteq> CHR ''n'')
      else if hd l = CHR ''n'' then ShownChoice
      else if hd l = CHR ''b'' then ShownBlock else ShownError)"

definition one_line :: "('v \<Rightarrow> string) \<Rightarrow> 'v event \<Rightarrow> bool" where
  "one_line value_formatter e \<longleftrightarrow> (\<forall>v. CHR 0x0A \<notin> set (value_formatter v))
     \<and> (\<forall>l. label e = Error l \<longrightarrow> CHR 0x0A \<notin> set (message l))"

lemma number_lines [simp]: "CHR 0x0A \<notin> set (nat_to_string n)"
  using nat_to_string_digits by blast

lemma format_label_defined:
  "\<exists>l. format_label value_formatter x i e = Inr l \<and> (one_line value_formatter e \<longrightarrow> CHR 0x0A \<notin> set l) \<and> read_kind l = kind_shown e"
proof -
  have "case format_label value_formatter x i e of Inl _ \<Rightarrow> False
      | Inr l \<Rightarrow> (one_line value_formatter e \<longrightarrow> CHR 0x0A \<notin> set l) \<and> read_kind l = kind_shown e"
    by (cases "label e")
      (auto simp: format_label_def format_receive_def event_kind_defs xg_event_def eg_event_def is_valid_id_def one_line_def
        map_result_def bind_result_def read_kind_def kind_shown_def split: option.splits ReadsFromSource.splits EventLabel.splits)
  then show ?thesis by (auto split: sum.splits)
qed

definition event_line :: "('v \<Rightarrow> string) \<Rightarrow> 'v ExplorationGraph \<Rightarrow> EventId \<Rightarrow> string" where
  "event_line value_formatter x i = projr (format_event value_formatter x i)"

lemma format_event_defined:
  assumes "i < length (xg_events x)"
  shows "format_event value_formatter x i = Inr (event_line value_formatter x i)"
    and "\<exists>l. event_line value_formatter x i = ''event '' @ nat_to_string i @ '' thread='' @ nat_to_string (thread (xg_events x ! i))
        @ '' index='' @ nat_to_string (unat (index (xg_events x ! i))) @ '' '' @ l @ [CHR 0x0A]
      \<and> (one_line value_formatter (xg_events x ! i) \<longrightarrow> CHR 0x0A \<notin> set l) \<and> read_kind l = kind_shown (xg_events x ! i)"
proof -
  obtain l where "format_label value_formatter x i (xg_events x ! i) = Inr l"
    "one_line value_formatter (xg_events x ! i) \<longrightarrow> CHR 0x0A \<notin> set l" "read_kind l = kind_shown (xg_events x ! i)"
    using format_label_defined [of value_formatter x i "xg_events x ! i"] by blast
  moreover from assms have e: "xg_event x i = Inr (xg_events x ! i)" by (simp add: xg_event_def eg_event_def is_valid_event_id_def)
  ultimately show "format_event value_formatter x i = Inr (event_line value_formatter x i)"
    and "\<exists>l. event_line value_formatter x i = ''event '' @ nat_to_string i @ '' thread='' @ nat_to_string (thread (xg_events x ! i))
        @ '' index='' @ nat_to_string (unat (index (xg_events x ! i))) @ '' '' @ l @ [CHR 0x0A]
      \<and> (one_line value_formatter (xg_events x ! i) \<longrightarrow> CHR 0x0A \<notin> set l) \<and> read_kind l = kind_shown (xg_events x ! i)"
    by (auto simp: event_line_def format_event_def map_result_def e)
qed

lemma format_graph_lines:
  "format_graph value_formatter x = Inr (concat (map (event_line value_formatter x) [0..<length (xg_events x)]))"
proof -
  have "fold_result (\<lambda>i out. map_result (\<lambda>line. out @ line) (format_event value_formatter x i)) is out
      = Inr (out @ concat (map (event_line value_formatter x) is))" if "\<forall>i\<in>set is. i < length (xg_events x)" for "is" out
    using that by (induction "is" arbitrary: out) (auto simp: format_event_defined map_result_def)
  from this [of "[0..<length (xg_events x)]" "[]"] show ?thesis
    by (simp add: format_graph_def insertion_order_def xg_event_count_def)
qed

lemma lines_determined:
  assumes "concat (map (\<lambda>b. b @ [c]) xs) = concat (map (\<lambda>b. b @ [c]) ys)" "\<forall>b\<in>set xs \<union> set ys. c \<notin> set b"
  shows "xs = ys"
  using assms
proof (induction xs arbitrary: ys)
  case Nil
  then show ?case by (cases ys) auto
next
  case (Cons b xs)
  then obtain b' ys' where ys: "ys = b' # ys'" by (cases ys) auto
  with Cons.prems have e: "b @ c # concat (map (\<lambda>b. b @ [c]) xs) = b' @ c # concat (map (\<lambda>b. b @ [c]) ys')"
    and n: "c \<notin> set b" "c \<notin> set b'" by auto
  have "takeWhile (\<lambda>d. d \<noteq> c) (b @ c # r) = b" "dropWhile (\<lambda>d. d \<noteq> c) (b @ c # r) = c # r" if "c \<notin> set b" for b r
    using that by (induction b) auto
  with e n have "b = b'" "concat (map (\<lambda>b. b @ [c]) xs) = concat (map (\<lambda>b. b @ [c]) ys')" by (metis list.inject)+
  with Cons.IH [of ys'] Cons.prems(2) ys show ?case by auto
qed

lemma event_line_shown:
  assumes "i < length (xg_events x)" "i < length (xg_events y)" "event_line value_formatter x i = event_line value_formatter y i"
  shows "shown (xg_events x ! i) = shown (xg_events y ! i)"
proof -
  have ends: "ends_number ('' index='' @ r)" "ends_number ('' '' @ r)" "ends_number ('' thread='' @ r)" for r
    by (simp_all add: ends_number_def isdigit_def)
  let ?text = "\<lambda>z l. nat_to_string (thread (xg_events z ! i)) @ '' index='' @ nat_to_string (unat (index (xg_events z ! i))) @ '' '' @ l @ [CHR 0x0A]"
  obtain l where l: "event_line value_formatter x i = ''event '' @ nat_to_string i @ '' thread='' @ ?text x l"
    "read_kind l = kind_shown (xg_events x ! i)" using format_event_defined(2) [OF assms(1), of value_formatter] by blast
  obtain l' where l': "event_line value_formatter y i = ''event '' @ nat_to_string i @ '' thread='' @ ?text y l'"
    "read_kind l' = kind_shown (xg_events y ! i)" using format_event_defined(2) [OF assms(2), of value_formatter] by blast
  note k = l(2) l'(2)
  have e: "?text x l = ?text y l'" using assms(3) unfolding l(1) l'(1) by simp
  from nat_to_string_split [OF e ends(1) ends(1)] have t: "thread (xg_events x ! i) = thread (xg_events y ! i)"
    and e2: "nat_to_string (unat (index (xg_events x ! i))) @ '' '' @ l @ [CHR 0x0A] = nat_to_string (unat (index (xg_events y ! i))) @ '' '' @ l' @ [CHR 0x0A]"
    by auto
  from nat_to_string_split [OF e2 ends(2) ends(2)] have "index (xg_events x ! i) = index (xg_events y ! i)" "l = l'"
    by (auto simp: word_unat_eq_iff)
  with t k show ?thesis by (simp add: shown_def)
qed

lemma line_count:
  assumes "\<forall>e\<in>set (xg_events x). one_line value_formatter e"
  shows "length (filter (\<lambda>c. c = CHR 0x0A) (concat (map (event_line value_formatter x) [0..<length (xg_events x)])))
    = length (xg_events x)"
proof -
  have "filter (\<lambda>c. c = CHR 0x0A) (event_line value_formatter x i) = [CHR 0x0A]" if "i < length (xg_events x)" for i
    using format_event_defined(2) [OF that, of value_formatter] assms that by (auto simp: filter_empty_conv)
  then have "map (\<lambda>i. length (filter (\<lambda>c. c = CHR 0x0A) (event_line value_formatter x i))) [0..<length (xg_events x)]
      = replicate (length (xg_events x)) 1"
    by (auto intro: nth_equalityI)
  then show ?thesis by (simp add: filter_concat length_concat o_def sum_list_replicate)
qed

lemma lines_determine_events:
  assumes "\<forall>e\<in>set (xg_events x) \<union> set (xg_events y). one_line value_formatter e"
    and "concat (map (event_line value_formatter x) [0..<length (xg_events x)])
      = concat (map (event_line value_formatter y) [0..<length (xg_events y)])"
  shows "map shown (xg_events x) = map shown (xg_events y)"
proof -
  let ?body = "\<lambda>z i. butlast (event_line value_formatter z i)"
  have body: "event_line value_formatter z i = ?body z i @ [CHR 0x0A]" "CHR 0x0A \<notin> set (?body z i)"
    if "i < length (xg_events z)" "one_line value_formatter (xg_events z ! i)" for z i
    using format_event_defined(2) [OF that(1), of value_formatter] that(2) by (auto simp: butlast_append)
  have lines: "concat (map (event_line value_formatter z) [0..<length (xg_events z)])
      = concat (map (\<lambda>b. b @ [CHR 0x0A]) (map (?body z) [0..<length (xg_events z)]))"
    if "\<forall>e\<in>set (xg_events z). one_line value_formatter e" for z
  proof -
    have "map (event_line value_formatter z) [0..<length (xg_events z)]
        = map (\<lambda>b. b @ [CHR 0x0A]) (map (?body z) [0..<length (xg_events z)])"
      using that body(1) [of _ z] by (auto simp: o_def)
    then show ?thesis by (simp only:)
  qed
  have eq: "map (?body x) [0..<length (xg_events x)] = map (?body y) [0..<length (xg_events y)]"
    by (rule lines_determined [of "CHR 0x0A"])
      (use assms lines [of x] lines [of y] body(2) [of _ x] body(2) [of _ y] in auto)
  then have n: "length (xg_events x) = length (xg_events y)" by (metis length_map length_upt minus_nat.diff_0)
  have "shown (xg_events x ! i) = shown (xg_events y ! i)" if i: "i < length (xg_events x)" for i
  proof (rule event_line_shown)
    have "?body x i = ?body y i" using arg_cong [OF eq, of "\<lambda>bs. bs ! i"] i n by simp
    then show "event_line value_formatter x i = event_line value_formatter y i"
      using body(1) [of i x] body(1) [of i y] i n assms(1) by simp
  qed (use i n in auto)
  with n show ?thesis by (intro nth_equalityI) auto
qed

text \<open>C40. Rendering a graph never throws, dangling reads-from entries included. If the texts of the payloads and the
  error messages of two graphs contain no line break, the text has one line per event, and two graphs with the same text have
  events of the same threads, indices and kinds, in the same order.\<close>

theorem format_graph_determines:
  "\<exists>s s'. format_graph value_formatter x = Inr s \<and> format_graph value_formatter y = Inr s'
    \<and> ((\<forall>e\<in>set (xg_events x) \<union> set (xg_events y). one_line value_formatter e) \<longrightarrow>
         length (filter (\<lambda>c. c = CHR 0x0A) s) = length (xg_events x)
         \<and> (s = s' \<longrightarrow> map shown (xg_events x) = map shown (xg_events y)))"
  using lines_determine_events [of x y value_formatter] line_count [of x value_formatter] by (auto simp: format_graph_lines)

theorem format_graph_determines_witness:
  "\<exists>y z s s'. add_event 0 second_send sample_xg = Inr (2, y) \<and> set_reads_from 1 2 y = Inr z
     \<and> format_graph nat_to_string sample_xg = Inr s \<and> format_graph nat_to_string z = Inr s'
     \<and> length (filter (\<lambda>c. c = CHR 0x0A) s) = 2 \<and> s \<noteq> s'"
proof -
  from sample_grows obtain y z where
    g: "add_event 0 second_send sample_xg = Inr (2, y)" "set_reads_from 1 2 y = Inr z"
      "xg_events z = sample_events @ [\<lparr>thread = 0, index = 1, label = second_send\<rparr>]" by blast
  have "\<forall>e\<in>set (xg_events sample_xg) \<union> set (xg_events z). one_line nat_to_string e"
    by (auto simp: g(3) sample_events_def one_line_def second_send_def)
  moreover have "map shown (xg_events sample_xg) \<noteq> map shown (xg_events z)" by (simp add: g(3))
  moreover have "length (xg_events sample_xg) = 2" by (simp add: sample_events_def)
  ultimately show ?thesis using g(1,2) format_graph_determines [of nat_to_string sample_xg z] by metis
qed

end
