(* ===== verification/Machine.thy ===== *)
theory Machine
  imports Soundness
begin

text \<open>
  An operational reading of executions. A machine runs the threads of a program one step at a time, with the messages
  that are under way as its only shared state. Consistent executions and runs of the machine are the same thing
  seen from two sides: every consistent execution can be put in the order of some run, and every run gives
  a consistent execution. So what the search publishes can happen: a full execution is a run to the end, a
  blocked one a deadlock, an error one a run that hits the error.
\<close>

section \<open>The machine\<close>

text \<open>A letter has a sender, a destination and a payload.\<close>

type_synonym 'v letter = "ThreadId \<times> ThreadId \<times> 'v"

record 'v machine =
  seen :: "ThreadId \<Rightarrow> 'v ThreadTrace"
  pace :: "ThreadId \<Rightarrow> nat"
  mail :: "'v letter list"
  broken :: "ThreadId set"

definition initial :: "'v machine" where
  "initial = \<lparr>seen = \<lambda>_. [], pace = \<lambda>_. 0, mail = [], broken = {}\<rparr>"

definition proposes :: "'v Program \<Rightarrow> 'v machine \<Rightarrow> ThreadId \<Rightarrow> 'v EventLabel \<Rightarrow> bool" where
  "proposes P \<sigma> t l \<longleftrightarrow> t \<notin> broken \<sigma> \<and> tm_contains (threads P) t \<and> offered P t (seen \<sigma> t) (pace \<sigma> t) = Some l"

definition advance :: "ThreadId \<Rightarrow> 'v ObservedValue list \<Rightarrow> 'v letter list \<Rightarrow> 'v machine \<Rightarrow> 'v machine" where
  "advance t vs ms \<sigma> = \<sigma>\<lparr>seen := (seen \<sigma>)(t := seen \<sigma> t @ vs), pace := (pace \<sigma>)(t := Suc (pace \<sigma> t)), mail := ms\<rparr>"

text \<open>
  A receive takes any letter to its thread that it accepts; with FIFO channels, the first such letter of its sender. A
  receive that does not block may also give up.
\<close>

inductive machine_step :: "'v Program \<Rightarrow> CommunicationModel \<Rightarrow> 'v machine \<Rightarrow> 'v machine \<Rightarrow> bool" for P model where
  posts: "proposes P \<sigma> t (Send sl) \<Longrightarrow> machine_step P model \<sigma> (advance t [] (mail \<sigma> @ [(t, destination sl, send_value sl)]) \<sigma>)"
| takes: "proposes P \<sigma> t (Receive rl) \<Longrightarrow> mail \<sigma> = before @ (s, t, v) # after \<Longrightarrow> matches rl v = Inr True
    \<Longrightarrow> model = FifoP2P \<longrightarrow> (\<forall>v'. (s, t, v') \<in> set before \<longrightarrow> matches rl v' \<noteq> Inr True)
    \<Longrightarrow> machine_step P model \<sigma> (advance t [Observed v] (before @ after) \<sigma>)"
| gives_up: "proposes P \<sigma> t (Receive rl) \<Longrightarrow> is_nonblocking rl \<Longrightarrow> machine_step P model \<sigma> (advance t [BottomValue] (mail \<sigma>) \<sigma>)"
| picks: "proposes P \<sigma> t (NondeterministicChoice nd) \<Longrightarrow> v \<in> set (choices nd) \<or> choices nd = [] \<and> v = nd_value nd
    \<Longrightarrow> machine_step P model \<sigma> (advance t [Observed v] (mail \<sigma>) \<sigma>)"
| breaks: "proposes P \<sigma> t (Error el) \<Longrightarrow> machine_step P model \<sigma> ((advance t [] (mail \<sigma>) \<sigma>)\<lparr>broken := insert t (broken \<sigma>)\<rparr>)"

definition reachable :: "'v Program \<Rightarrow> CommunicationModel \<Rightarrow> 'v machine \<Rightarrow> bool" where
  "reachable P model \<sigma> \<longleftrightarrow> (machine_step P model)\<^sup>*\<^sup>* initial \<sigma>"

lemma reachable_step: "reachable P model \<sigma> \<Longrightarrow> machine_step P model \<sigma> \<sigma>' \<Longrightarrow> reachable P model \<sigma>'"
  unfolding reachable_def by (rule rtranclp.rtrancl_into_rtrancl)

section \<open>States and executions\<close>

definition letter_of :: "'v event list \<Rightarrow> EventId \<Rightarrow> 'v letter" where
  "letter_of evs i = (thread (evs ! i), destination (send_of evs i), send_value (send_of evs i))"

text \<open>The sends of \<open>D\<close> that no receive of \<open>D\<close> reads.\<close>

definition under_way :: "'v event list \<Rightarrow> (EventId \<rightharpoonup> ReadsFromSource) \<Rightarrow> EventId set \<Rightarrow> EventId set" where
  "under_way evs m D = {i \<in> D. is_send (evs ! i) \<and> (\<forall>r\<in>D. m r \<noteq> Some (from_send i))}"

text \<open>Letters of one sender are in the order they were sent.\<close>

definition in_order :: "'v event list \<Rightarrow> EventId list \<Rightarrow> bool" where
  "in_order evs L \<longleftrightarrow> sorted_wrt (\<lambda>i j. thread (evs ! i) = thread (evs ! j) \<longrightarrow> i < j) L"

text \<open>The machine has run the events \<open>D\<close> of the execution. Block events stand for waiting and are no step.\<close>

definition has_run :: "'v event list \<Rightarrow> (EventId \<rightharpoonup> ReadsFromSource) \<Rightarrow> EventId set \<Rightarrow> 'v machine \<Rightarrow> bool" where
  "has_run evs m D \<sigma> \<longleftrightarrow>
     (\<forall>t. seen \<sigma> t = concat (map (observed evs m) (filter (\<lambda>i. i \<in> D) (thread_ids evs t))))
     \<and> (\<forall>t. pace \<sigma> t = length (filter (\<lambda>i. i \<in> D \<and> \<not> is_block (evs ! i)) (thread_ids evs t)))
     \<and> (\<exists>L. mail \<sigma> = map (letter_of evs) L \<and> distinct L \<and> set L = under_way evs m D \<and> in_order evs L)
     \<and> broken \<sigma> = {t. \<exists>i\<in>D. is_error (evs ! i) \<and> thread (evs ! i) = t}"

lemma has_run_nothing: "has_run evs m {} initial"
  by (auto simp: has_run_def initial_def under_way_def in_order_def)

section \<open>Executions can be run\<close>

text \<open>A set of events that contains all causes of its members.\<close>

definition down_closed :: "'v event list \<Rightarrow> (EventId \<rightharpoonup> ReadsFromSource) \<Rightarrow> EventId set \<Rightarrow> bool" where
  "down_closed evs m D \<longleftrightarrow> D \<subseteq> {..<length evs} \<and> (\<forall>i j. (i, j) \<in> causal evs m \<longrightarrow> j \<in> D \<longrightarrow> i \<in> D)"

lemma next_minimal:
  assumes "acyclic (causal evs m)" "rf_valid evs m" "down_closed evs m D" "D \<noteq> {..<length evs}"
  obtains i where "i < length evs" "i \<notin> D" "\<And>j. (j, i) \<in> causal evs m \<Longrightarrow> j \<in> D"
proof -
  note bounded = causal_bounded [OF assms(2)]
  then have "finite (causal evs m)" using finite_subset by blast
  then have "wf (causal evs m)" using assms(1) by (rule finite_acyclic_wf)
  moreover obtain k where "k \<in> {..<length evs} - D" using assms(3,4) by (auto simp: down_closed_def)
  ultimately obtain i where "i \<in> {..<length evs} - D" "\<And>j. (j, i) \<in> causal evs m \<Longrightarrow> j \<notin> {..<length evs} - D"
    by (metis wfE_min)
  with bounded that show thesis by blast
qed

text \<open>The events of a thread that have run are a prefix; a minimal event is the next one of its thread.\<close>

lemma ran_prefix:
  assumes "down_closed evs m D" "i < length evs" "i \<notin> D" "\<And>j. (j, i) \<in> causal evs m \<Longrightarrow> j \<in> D"
  obtains k where "k < length (thread_ids evs (thread (evs ! i)))" "thread_ids evs (thread (evs ! i)) ! k = i"
    "filter (\<lambda>j. j \<in> D) (thread_ids evs (thread (evs ! i))) = take k (thread_ids evs (thread (evs ! i)))"
proof -
  let ?T = "thread_ids evs (thread (evs ! i))"
  have "i \<in> set ?T" using assms(2) by (simp add: set_thread_ids)
  then obtain k where k: "k < length ?T" "?T ! k = i" by (auto simp: in_set_conv_nth)
  have mem: "?T ! a \<in> D \<longleftrightarrow> a < k" if a: "a < length ?T" for a
  proof -
    have th: "thread (evs ! (?T ! a)) = thread (evs ! i)" "?T ! a < length evs" using nth_mem [OF a] by (auto simp: set_thread_ids)
    have mono: "?T ! b < ?T ! c" if "b < c" "c < length ?T" for b c
      using sorted_thread_ids [of evs "thread (evs ! i)"] that by (simp add: sorted_wrt_iff_nth_less)
    consider "a < k" | "a = k" | "k < a" by linarith
    then show ?thesis
    proof cases
      case 1
      then have "(?T ! a, i) \<in> causal evs m" using mono [OF 1 k(1)] k(2) th assms(2) by (simp add: causal_def po_of_def)
      with 1 assms(4) show ?thesis by simp
    next
      case 2
      with k(2) assms(3) show ?thesis by simp
    next
      case 3
      then have "(i, ?T ! a) \<in> causal evs m" using mono [OF 3 a] k(2) th by (simp add: causal_def po_of_def)
      with 3 assms(1,3) show ?thesis by (auto simp: down_closed_def)
    qed
  qed
  have "filter (\<lambda>j. j \<in> D) ?T = take k ?T"
  proof -
    have "filter (\<lambda>j. j \<in> D) (take k ?T) = take k ?T" using mem k(1) by (auto simp: filter_id_conv in_set_conv_nth)
    moreover have "filter (\<lambda>j. j \<in> D) (drop k ?T) = []" using mem k(1) by (auto simp: filter_empty_conv in_set_conv_nth)
    ultimately show ?thesis by (metis append_Nil2 append_take_drop_id filter_append)
  qed
  with k that show thesis by blast
qed

text \<open>What the search keeps of an execution: the program offers its events and the model allows its reads.\<close>

definition lawful :: "'v Program \<Rightarrow> CommunicationModel \<Rightarrow> 'v event list \<Rightarrow> (EventId \<rightharpoonup> ReadsFromSource) \<Rightarrow> bool" where
  "lawful P model evs m \<longleftrightarrow> follows P evs m \<and> consistent model no_missing_reads_tolerance evs m \<and> errors_last evs"

lemma lawfulD:
  assumes "lawful P model evs m"
  shows "follows P evs m" "rf_valid evs m" "acyclic (causal evs m)" "errors_last evs"
    "m r = Some s \<Longrightarrow> read_ok evs r s" "model = FifoP2P \<Longrightarrow> fifo_ok evs m"
    "m r = Some (from_send i) \<Longrightarrow> m r' = Some (from_send i) \<Longrightarrow> r = r'"
    "r < length evs \<Longrightarrow> is_receive (evs ! r) \<Longrightarrow> m r \<noteq> None"
  using assms by (auto simp: lawful_def consistent_def async_consistent_def reads_ok_def no_missing_reads_tolerance_def)

text \<open>Event \<open>i\<close> is the \<open>k\<close>-th of its thread and can be run next.\<close>

definition runs_next :: "'v event list \<Rightarrow> (EventId \<rightharpoonup> ReadsFromSource) \<Rightarrow> EventId set \<Rightarrow> EventId \<Rightarrow> nat \<Rightarrow> bool" where
  "runs_next evs m D i k \<longleftrightarrow> down_closed evs m D \<and> i < length evs \<and> i \<notin> D \<and> (\<forall>j. (j, i) \<in> causal evs m \<longrightarrow> j \<in> D)
     \<and> k < length (thread_ids evs (thread (evs ! i))) \<and> thread_ids evs (thread (evs ! i)) ! k = i
     \<and> filter (\<lambda>j. j \<in> D) (thread_ids evs (thread (evs ! i))) = take k (thread_ids evs (thread (evs ! i)))"

lemma runs_nextD:
  assumes "runs_next evs m D i k"
  shows "down_closed evs m D" "i < length evs" "i \<notin> D" "(j, i) \<in> causal evs m \<Longrightarrow> j \<in> D"
    "k < length (thread_ids evs (thread (evs ! i)))" "thread_ids evs (thread (evs ! i)) ! k = i"
    "filter (\<lambda>j. j \<in> D) (thread_ids evs (thread (evs ! i))) = take k (thread_ids evs (thread (evs ! i)))"
    "(i, j) \<in> causal evs m \<Longrightarrow> j \<notin> D"
  using assms by (auto simp: runs_next_def down_closed_def)

lemma runs_next_exists:
  assumes "lawful P model evs m" "down_closed evs m D" "D \<noteq> {..<length evs}"
  obtains i k where "runs_next evs m D i k"
proof -
  from next_minimal [OF lawfulD(3,2) [OF assms(1)] assms(2,3)] obtain i where
    i: "i < length evs" "i \<notin> D" "\<And>j. (j, i) \<in> causal evs m \<Longrightarrow> j \<in> D" by metis
  from ran_prefix [OF assms(2) i] obtain k where "runs_next evs m D i k" using assms(2) i unfolding runs_next_def by metis
  then show thesis by (rule that)
qed

lemma runs_next_closed: "runs_next evs m D i k \<Longrightarrow> down_closed evs m (insert i D)"
  by (auto simp: runs_next_def down_closed_def)

lemma runs_next_filter:
  assumes "runs_next evs m D i k"
  shows "filter (\<lambda>j. j \<in> insert i D) (thread_ids evs t) =
    filter (\<lambda>j. j \<in> D) (thread_ids evs t) @ (if t = thread (evs ! i) then [i] else [])"
proof (cases "t = thread (evs ! i)")
  case True
  let ?T = "thread_ids evs t"
  note r = runs_nextD [OF assms]
  have split: "?T = take k ?T @ i # drop (Suc k) ?T" using r(5,6) True by (metis id_take_nth_drop)
  have dist: "distinct ?T" by (simp add: thread_ids_def)
  have in_D: "j \<in> D" if "j \<in> set (take k ?T)" for j using that unfolding True r(7) [symmetric] by simp
  have "filter (\<lambda>j. j \<in> D) ?T = take k ?T @ filter (\<lambda>j. j \<in> D) (drop (Suc k) ?T)"
    using in_D r(3) by (subst split) (simp add: filter_id_conv)
  then have none: "filter (\<lambda>j. j \<in> D) (drop (Suc k) ?T) = []" using r(7) True by simp
  have "i \<notin> set (drop (Suc k) ?T)" using dist split by (metis distinct.simps(2) distinct_append)
  with none have "filter (\<lambda>j. j \<in> insert i D) (drop (Suc k) ?T) = []" by (auto simp: filter_empty_conv)
  then have "filter (\<lambda>j. j \<in> insert i D) ?T = take k ?T @ [i]" using in_D by (subst split) (auto simp: filter_id_conv)
  with r(7) True show ?thesis by simp
next
  case False
  then have "j \<noteq> i" if "j \<in> set (thread_ids evs t)" for j using that by (auto simp: set_thread_ids)
  with False show ?thesis by (auto intro: filter_cong)
qed

lemma filter_conj: "filter (\<lambda>j. j \<in> D \<and> q j) xs = filter q (filter (\<lambda>j. j \<in> D) xs)"
  by (simp add: conj_commute)

lemma has_run_insert:
  assumes "runs_next evs m D i k" "has_run evs m D \<sigma>"
    and "\<And>t. seen \<sigma>' t = seen \<sigma> t @ (if t = thread (evs ! i) then observed evs m i else [])"
    and "\<And>t. pace \<sigma>' t = pace \<sigma> t + (if t = thread (evs ! i) \<and> \<not> is_block (evs ! i) then 1 else 0)"
    and "mail \<sigma>' = map (letter_of evs) L" "distinct L" "set L = under_way evs m (insert i D)" "in_order evs L"
    and "broken \<sigma>' = broken \<sigma> \<union> (if is_error (evs ! i) then {thread (evs ! i)} else {})"
  shows "has_run evs m (insert i D) \<sigma>'"
proof -
  note f = runs_next_filter [OF assms(1)]
  have seen: "seen \<sigma>' t = concat (map (observed evs m) (filter (\<lambda>j. j \<in> insert i D) (thread_ids evs t)))" for t
    unfolding f using assms(2,3) by (simp add: has_run_def)
  have pace: "pace \<sigma>' t = length (filter (\<lambda>j. j \<in> insert i D \<and> \<not> is_block (evs ! j)) (thread_ids evs t))" for t
    unfolding filter_conj f using assms(2,4) unfolding has_run_def filter_conj by simp
  have broken: "broken \<sigma>' = {t. \<exists>j\<in>insert i D. is_error (evs ! j) \<and> thread (evs ! j) = t}"
    using assms(2,9) by (auto simp: has_run_def)
  show ?thesis unfolding has_run_def using seen pace broken assms(5-8) by blast
qed

text \<open>Before its next event, a thread has seen the values of the events before and is at the step of that event.\<close>

lemma has_run_at:
  assumes "lawful P model evs m" "runs_next evs m D i k" "has_run evs m D \<sigma>"
  shows "seen \<sigma> (thread (evs ! i)) = trace_upto evs m (thread (evs ! i)) k" "pace \<sigma> (thread (evs ! i)) = k"
    "thread (evs ! i) \<notin> broken \<sigma>"
proof -
  let ?t = "thread (evs ! i)"
  note r = runs_nextD [OF assms(2)]
  show "seen \<sigma> ?t = trace_upto evs m ?t k" using assms(3) r(7) by (simp add: has_run_def trace_upto_def)
  have "\<not> is_block (evs ! j)" if "j \<in> set (take k (thread_ids evs ?t))" for j
  proof -
    from that r(5) obtain a where a: "a < k" "j = thread_ids evs ?t ! a" by (auto simp: in_set_conv_nth)
    with r(5) lawfulD(1) [OF assms(1)] show ?thesis unfolding follows_def by (metis Suc_leI le_imp_less_Suc less_trans not_less_eq)
  qed
  then have "filter (\<lambda>j. j \<in> D \<and> \<not> is_block (evs ! j)) (thread_ids evs ?t) = take k (thread_ids evs ?t)"
    unfolding filter_conj r(7) by (simp add: filter_id_conv)
  with assms(3) r(5) show "pace \<sigma> ?t = k" by (simp add: has_run_def)
  have "\<not> is_error (evs ! j)" if j: "j \<in> D" "thread (evs ! j) = ?t" for j
  proof -
    have "j < length evs" using j r(1) by (auto simp: down_closed_def)
    moreover have "\<not> i < j" using r(8) [of j] j \<open>j < length evs\<close> by (auto simp: causal_def po_of_def)
    moreover have "j \<noteq> i" using j r(3) by auto
    ultimately have "(j, i) \<in> po_of evs" using j r(2) by (simp add: po_of_def)
    with lawfulD(4) [OF assms(1)] show ?thesis by (auto simp: errors_last_def)
  qed
  with assms(3) show "?t \<notin> broken \<sigma>" by (auto simp: has_run_def)
qed

lemma has_run_proposes:
  assumes "lawful P model evs m" "runs_next evs m D i k" "has_run evs m D \<sigma>"
  obtains l where "instance_of l (label (evs ! i))"
    "\<And>l'. l = l' \<Longrightarrow> proposes P \<sigma> (thread (evs ! i)) l'"
proof -
  note r = runs_nextD [OF assms(2)] and h = has_run_at [OF assms]
  from lawfulD(1) [OF assms(1)] r(5,6) obtain l where "tm_contains (threads P) (thread (evs ! i))"
    "offered P (thread (evs ! i)) (trace_upto evs m (thread (evs ! i)) k) k = Some l" "instance_of l (label (evs ! i))"
    unfolding follows_def by metis
  with h that show thesis by (simp add: proposes_def)
qed

text \<open>The letters under way after one more event.\<close>

lemma under_way_send:
  assumes "runs_next evs m D i k" "is_send (evs ! i)" "rf_valid evs m"
  shows "under_way evs m (insert i D) = insert i (under_way evs m D)"
proof -
  have "m r \<noteq> Some (from_send i)" if "r \<in> insert i D" for r
  proof
    assume r: "m r = Some (from_send i)"
    then have "is_receive (evs ! r)" "(i, r) \<in> causal evs m" using assms(3) by (auto simp: rf_valid_def causal_def rf_of_def)
    with that runs_nextD(8) [OF assms(1)] assms(2) show False by (auto simp: event_kind_defs split: EventLabel.splits)
  qed
  moreover have "m i \<noteq> Some (from_send j)" for j
    using assms(2,3) by (auto simp: rf_valid_def event_kind_defs split: EventLabel.splits)
  ultimately show ?thesis using assms(2) by (auto simp: under_way_def)
qed

lemma under_way_read:
  assumes "m i = Some (from_send j)" "rf_valid evs m"
  shows "under_way evs m (insert i D) = under_way evs m D - {j}"
proof -
  have "\<not> is_send (evs ! i)" using assms by (auto simp: rf_valid_def event_kind_defs split: EventLabel.splits)
  with assms(1) show ?thesis by (auto simp: under_way_def)
qed

lemma under_way_other:
  assumes "\<not> is_send (evs ! i)" "\<And>j. m i \<noteq> Some (from_send j)"
  shows "under_way evs m (insert i D) = under_way evs m D"
  using assms by (auto simp: under_way_def)

lemma in_order_snoc:
  assumes "runs_next evs m D i k" "in_order evs L" "set L = under_way evs m D"
  shows "in_order evs (L @ [i])"
proof -
  have "j < i" if j: "j \<in> set L" "thread (evs ! j) = thread (evs ! i)" for j
  proof -
    note r = runs_nextD [OF assms(1)]
    have D: "j \<in> D" using j assms(3) by (auto simp: under_way_def)
    then have "j < length evs" using r(1) by (auto simp: down_closed_def)
    with D r(8) [of j] j(2) have "\<not> i < j" by (auto simp: causal_def po_of_def)
    with D r(3) show ?thesis by (metis linorder_neqE_nat)
  qed
  with assms(2) show ?thesis by (simp add: in_order_def sorted_wrt_append)
qed

section \<open>One event, one step\<close>

lemma run_send:
  assumes "lawful P model evs m" "runs_next evs m D i k" "has_run evs m D \<sigma>" "label (evs ! i) = Send sl" "proposes P \<sigma> (thread (evs ! i)) (Send sl)"
  shows "\<exists>\<sigma>'. machine_step P model \<sigma> \<sigma>' \<and> has_run evs m (insert i D) \<sigma>'"
proof (intro exI conjI)
  let ?s = "advance (thread (evs ! i)) [] (mail \<sigma> @ [(thread (evs ! i), destination sl, send_value sl)]) \<sigma>"
  show "machine_step P model \<sigma> ?s" by (rule posts [OF assms(5)])
  from assms(3) obtain L where L: "mail \<sigma> = map (letter_of evs) L" "distinct L" "set L = under_way evs m D" "in_order evs L"
    by (auto simp: has_run_def)
  have k: "is_send (evs ! i)" "\<not> is_block (evs ! i)" "\<not> is_error (evs ! i)" "observed evs m i = []" "send_of evs i = sl"
    using assms(4) by (simp_all add: event_kind_defs observed_def send_of_def)
  note uw = under_way_send [OF assms(2) k(1) lawfulD(2) [OF assms(1)]]
  show "has_run evs m (insert i D) ?s"
  proof (rule has_run_insert [OF assms(2,3), where L = "L @ [i]"])
    show "distinct (L @ [i])" using L(2,3) runs_nextD(3) [OF assms(2)] by (auto simp: under_way_def)
    show "in_order evs (L @ [i])" by (rule in_order_snoc [OF assms(2) L(4,3)])
  qed (use L uw k in \<open>auto simp: advance_def letter_of_def\<close>)
qed

text \<open>An event that leaves the letters alone.\<close>

lemma run_quiet:
  assumes "runs_next evs m D i k" "has_run evs m D \<sigma>" "\<not> is_send (evs ! i)" "\<And>j. m i \<noteq> Some (from_send j)"
    and "\<not> is_block (evs ! i)"
  shows "has_run evs m (insert i D) ((advance (thread (evs ! i)) (observed evs m i) (mail \<sigma>) \<sigma>)
     \<lparr>broken := broken \<sigma> \<union> (if is_error (evs ! i) then {thread (evs ! i)} else {})\<rparr>)"
proof -
  from assms(2) obtain L where L: "mail \<sigma> = map (letter_of evs) L" "distinct L" "set L = under_way evs m D" "in_order evs L"
    by (auto simp: has_run_def)
  show ?thesis
    by (rule has_run_insert [OF assms(1,2), where L = L])
      (use L assms(3-5) under_way_other [of evs i m D] in \<open>auto simp: advance_def\<close>)
qed

lemma run_block:
  assumes "lawful P model evs m" "runs_next evs m D i k" "has_run evs m D \<sigma>" "is_block (evs ! i)"
  shows "has_run evs m (insert i D) \<sigma>"
proof -
  from assms(3) obtain L where L: "mail \<sigma> = map (letter_of evs) L" "distinct L" "set L = under_way evs m D" "in_order evs L"
    by (auto simp: has_run_def)
  have k: "\<not> is_send (evs ! i)" "\<not> is_receive (evs ! i)" "\<not> is_error (evs ! i)" "observed evs m i = []"
    using assms(4) by (auto simp: event_kind_defs observed_def split: EventLabel.splits)
  then have "m i \<noteq> Some s" for s using lawfulD(2) [OF assms(1)] by (auto simp: rf_valid_def)
  with k(1) have "under_way evs m (insert i D) = under_way evs m D" by (simp add: under_way_other)
  with L k assms(4) show ?thesis by (intro has_run_insert [OF assms(2,3), where L = L]) auto
qed

text \<open>A FIFO channel: the letter a receive reads is the first of its sender that the receive accepts.\<close>

lemma read_first:
  assumes "lawful P FifoP2P evs m" "runs_next evs m D i k" "m i = Some (from_send j)"
    and "set (before @ j # after) = under_way evs m D" "in_order evs (before @ j # after)"
    and "j' \<in> set before" "thread (evs ! j') = thread (evs ! j)" "destination (send_of evs j') = thread (evs ! i)"
  shows "\<not> accepted evs i j'"
proof
  assume acc: "accepted evs i j'"
  note r = runs_nextD [OF assms(2)]
  have uw: "j' \<in> under_way evs m D" "j \<in> under_way evs m D" using assms(4,6) by auto
  have lt: "j' < j" using assms(5-7) by (auto simp: in_order_def sorted_wrt_append)
  have j: "destination (send_of evs j) = thread (evs ! i)" "j < length evs"
    using lawfulD(2) [OF assms(1)] lawfulD(5) [OF assms(1,3)] assms(3) by (auto simp: read_ok_def rf_valid_def)
  have "same_channel evs j' j" using uw assms(7,8) j by (simp add: same_channel_def under_way_def)
  with lawfulD(6) [OF assms(1)] lt j(2) assms(3) acc obtain r' where r': "r' < i" "m r' = Some (from_send j')"
    unfolding fifo_ok_def by blast
  then have "thread (evs ! r') = thread (evs ! i)" using lawfulD(5) [OF assms(1) r'(2)] assms(8) by (simp add: read_ok_def)
  with r' r(2) have "(r', i) \<in> causal evs m" by (simp add: causal_def po_of_def)
  with r(4) r'(2) uw(1) show False by (auto simp: under_way_def)
qed

lemma run_read:
  assumes "lawful P model evs m" "runs_next evs m D i k" "has_run evs m D \<sigma>" "label (evs ! i) = Receive rl"
    and "proposes P \<sigma> (thread (evs ! i)) (Receive rl)" "m i = Some (from_send j)"
  shows "\<exists>\<sigma>'. machine_step P model \<sigma> \<sigma>' \<and> has_run evs m (insert i D) \<sigma>'"
proof -
  let ?t = "thread (evs ! i)" and ?v = "send_value (send_of evs j)"
  note law = lawfulD [OF assms(1)] and r = runs_nextD [OF assms(2)]
  from assms(3) obtain L where L: "mail \<sigma> = map (letter_of evs) L" "distinct L" "set L = under_way evs m D" "in_order evs L"
    by (auto simp: has_run_def)
  have j: "destination (send_of evs j) = ?t" "accepted evs i j" "is_send (evs ! j)" "j \<in> D"
    using law(2) law(5) [OF assms(6)] assms(6) r(4) [of j] by (auto simp: read_ok_def rf_valid_def causal_def rf_of_def)
  have "j \<in> under_way evs m D" using j(3,4) law(7) [OF assms(6)] r(3) by (auto simp: under_way_def)
  then obtain before after where split: "L = before @ j # after" using L(3) by (metis split_list)
  have k: "\<not> is_send (evs ! i)" "\<not> is_block (evs ! i)" "\<not> is_error (evs ! i)" "observed evs m i = [Observed ?v]" "recv_of evs i = rl"
    using assms(4,6) j(3) by (auto simp: event_kind_defs observed_def recv_of_def send_of_def split: EventLabel.splits)
  let ?s = "advance ?t [Observed ?v] (map (letter_of evs) before @ map (letter_of evs) after) \<sigma>"
  have "machine_step P model \<sigma> ?s"
  proof (rule takes [OF assms(5)])
    show "mail \<sigma> = map (letter_of evs) before @ (thread (evs ! j), ?t, ?v) # map (letter_of evs) after"
      using L(1) split j(1) by (simp add: letter_of_def)
    show "matches rl ?v = Inr True" using j(2) k(5) by (simp add: accepted_def)
    show "model = FifoP2P \<longrightarrow> (\<forall>v'. (thread (evs ! j), ?t, v') \<in> set (map (letter_of evs) before) \<longrightarrow> matches rl v' \<noteq> Inr True)"
      using read_first [OF _ assms(2,6), where before = before and after = after and P = P] assms(1) L(3,4) split k(5)
      by (auto simp: letter_of_def accepted_def)
  qed
  moreover have "has_run evs m (insert i D) ?s"
  proof (rule has_run_insert [OF assms(2,3), where L = "before @ after"])
    show "set (before @ after) = under_way evs m (insert i D)"
      using under_way_read [OF assms(6) law(2)] L(2,3) split by auto
    show "in_order evs (before @ after)" using L(4) split by (simp add: in_order_def sorted_wrt_append)
  qed (use L(2) split k in \<open>auto simp: advance_def\<close>)
  ultimately show ?thesis by blast
qed

lemma run_event:
  assumes "lawful P model evs m" "runs_next evs m D i k" "has_run evs m D \<sigma>" "reachable P model \<sigma>"
  shows "\<exists>\<sigma>'. reachable P model \<sigma>' \<and> has_run evs m (insert i D) \<sigma>'"
proof (cases "is_block (evs ! i)")
  case True
  with run_block [OF assms(1-3)] assms(4) show ?thesis by blast
next
  case False
  let ?t = "thread (evs ! i)"
  from has_run_proposes [OF assms(1-3)] obtain l where
    l: "instance_of l (label (evs ! i))" "\<And>l'. l = l' \<Longrightarrow> proposes P \<sigma> ?t l'" by metis
  have rf: "m i \<noteq> Some s" if "\<not> is_receive (evs ! i)" for s using lawfulD(2) [OF assms(1)] that by (auto simp: rf_valid_def)
  have "\<exists>\<sigma>'. machine_step P model \<sigma> \<sigma>' \<and> has_run evs m (insert i D) \<sigma>'"
  proof (cases "label (evs ! i)")
    case (Receive rl)
    then have rc: "is_receive (evs ! i)" "\<not> is_send (evs ! i)" "\<not> is_error (evs ! i)" "recv_of evs i = rl"
      by (simp_all add: event_kind_defs recv_of_def)
    have p: "proposes P \<sigma> ?t (Receive rl)" using l Receive by (auto simp: instance_of_def split: EventLabel.splits if_splits)
    from lawfulD(8) [OF assms(1) runs_nextD(2) [OF assms(2)] rc(1)] obtain s where s: "m i = Some s" by blast
    show ?thesis
    proof (cases s)
      case bottom
      then have "is_nonblocking rl" "observed evs m i = [BottomValue]"
        using lawfulD(5) [OF assms(1) s] s rc by (auto simp: read_ok_def observed_def)
      then show ?thesis using run_quiet [OF assms(2,3) rc(2) _ False] gives_up [OF p, of model] rc(3) s bottom
        by (auto simp: advance_def)
    next
      case (from_send j)
      with run_read [OF assms(1-3) Receive p] s show ?thesis by blast
    qed
  next
    case (Send sl)
    then have "proposes P \<sigma> ?t (Send sl)" using l by (auto simp: instance_of_def split: EventLabel.splits if_splits)
    then show ?thesis by (rule run_send [OF assms(1-3) Send])
  next
    case (NondeterministicChoice nd)
    then have nc: "\<not> is_receive (evs ! i)" "\<not> is_send (evs ! i)" "\<not> is_error (evs ! i)" "observed evs m i = [Observed (nd_value nd)]"
      by (simp_all add: event_kind_defs observed_def)
    from l NondeterministicChoice obtain nd' where nd: "proposes P \<sigma> ?t (NondeterministicChoice nd')"
      "nd_value nd \<in> set (choices nd') \<or> choices nd' = [] \<and> nd_value nd = nd_value nd'"
      by (auto simp: instance_of_def split: EventLabel.splits if_splits)
    show ?thesis using run_quiet [OF assms(2,3) nc(2) rf [OF nc(1)] False] picks [OF nd, of model] nc
      by (auto simp: advance_def)
  next
    case Block
    with False show ?thesis by (simp add: is_block_def)
  next
    case (Error el)
    then have er: "\<not> is_receive (evs ! i)" "\<not> is_send (evs ! i)" "is_error (evs ! i)" "observed evs m i = []"
      by (simp_all add: event_kind_defs observed_def)
    have p: "proposes P \<sigma> ?t (Error el)" using l Error by (auto simp: instance_of_def split: EventLabel.splits if_splits)
    show ?thesis using run_quiet [OF assms(2,3) er(2) rf [OF er(1)] False] breaks [OF p, of model] er
      by (auto simp: advance_def)
  qed
  with assms(4) show ?thesis using reachable_step by blast
qed

text \<open>Hence every lawful execution is the trace of a run.\<close>

lemma lawful_runs:
  assumes "lawful P model evs m"
  shows "\<exists>\<sigma>. reachable P model \<sigma> \<and> has_run evs m {..<length evs} \<sigma>"
proof -
  have "\<exists>\<sigma>. reachable P model \<sigma> \<and> has_run evs m {..<length evs} \<sigma>"
    if "down_closed evs m D" "has_run evs m D \<sigma>" "reachable P model \<sigma>" for D \<sigma>
    using that
  proof (induction "length evs - card D" arbitrary: D \<sigma> rule: less_induct)
    case less
    show ?case
    proof (cases "D = {..<length evs}")
      case False
      with runs_next_exists [OF assms less.prems(1)] obtain i k where i: "runs_next evs m D i k" by metis
      from run_event [OF assms i less.prems(2,3)] obtain \<sigma>' where s: "reachable P model \<sigma>'" "has_run evs m (insert i D) \<sigma>'"
        by blast
      have c: "down_closed evs m (insert i D)" by (rule runs_next_closed [OF i])
      then have "insert i D \<subseteq> {..<length evs}" by (simp add: down_closed_def)
      then have "finite D" "card (insert i D) \<le> length evs" using card_mono [of "{..<length evs}"] by (auto intro: finite_subset)
      with runs_nextD(3) [OF i] have "length evs - card (insert i D) < length evs - card D" by simp
      from less.hyps [OF this c s(2,1)] show ?thesis .
    qed (use less.prems in blast)
  qed
  from this [of "{}" initial] show ?thesis by (simp add: down_closed_def has_run_nothing reachable_def)
qed

section \<open>How runs end\<close>

definition finished :: "'v Program \<Rightarrow> 'v machine \<Rightarrow> ThreadId \<Rightarrow> bool" where
  "finished P \<sigma> t \<longleftrightarrow> reply P t (seen \<sigma> t) (pace \<sigma> t) = Inr None"

text \<open>A thread at a blocking receive, with no letter that the receive accepts.\<close>

definition waiting :: "'v Program \<Rightarrow> 'v machine \<Rightarrow> ThreadId \<Rightarrow> bool" where
  "waiting P \<sigma> t \<longleftrightarrow> (\<exists>rl. offered P t (seen \<sigma> t) (pace \<sigma> t) = Some (Receive rl) \<and> is_blocking rl
     \<and> (\<forall>s v. (s, t, v) \<in> set (mail \<sigma>) \<longrightarrow> matches rl v \<noteq> Inr True))"

definition run_end :: "'v Program \<Rightarrow> CommunicationModel \<Rightarrow> ThreadId set \<Rightarrow> TerminalExecutionKind \<Rightarrow> 'v machine \<Rightarrow> bool" where
  "run_end P model ts kind \<sigma> \<longleftrightarrow>
     (case kind of
        Full \<Rightarrow> (\<forall>t\<in>ts. finished P \<sigma> t)
      | Blocked \<Rightarrow> (\<exists>t\<in>ts. waiting P \<sigma> t) \<and> (\<forall>t\<in>ts. finished P \<sigma> t \<or> waiting P \<sigma> t) \<and> (\<forall>\<sigma>'. \<not> machine_step P model \<sigma> \<sigma>')
      | ErrorExecution \<Rightarrow> \<exists>t\<in>ts. t \<in> broken \<sigma>
      | _ \<Rightarrow> True)"

text \<open>The execution is the trace of a run that ends as the kind says.\<close>

definition real_run :: "'v Search \<Rightarrow> 'v publication \<Rightarrow> bool" where
  "real_run S p \<longleftrightarrow> (case p of (x, kind, depth) \<Rightarrow>
     \<exists>\<sigma>. reachable (s_program S) (s_model S) \<sigma> \<and> has_run (xg_events x) (xg_rf x) {..<length (xg_events x)} \<sigma>
       \<and> run_end (s_program S) (s_model S) (set (s_threads S)) kind \<sigma>)"

lemma stuck_machine:
  assumes "\<And>t. tm_contains (threads P) t \<Longrightarrow> finished P \<sigma> t \<or> waiting P \<sigma> t"
  shows "\<not> machine_step P model \<sigma> \<sigma>'"
proof
  have no: "False" if "proposes P \<sigma> t l" "\<And>rl. l \<noteq> Receive rl" for t l
    using that assms [of t] by (auto simp: proposes_def finished_def waiting_def offered_def)
  have wait: "waiting P \<sigma> t" if "proposes P \<sigma> t (Receive rl)" for t rl
    using that assms [of t] by (auto simp: proposes_def finished_def offered_def)
  assume "machine_step P model \<sigma> \<sigma>'"
  then show False
  proof cases
    case (takes t rl before s v after)
    with wait [OF takes(2)] show False by (auto simp: waiting_def proposes_def)
  next
    case (gives_up t rl)
    with wait [OF gives_up(2)] show False by (auto simp: waiting_def proposes_def is_blocking_def is_nonblocking_def)
  qed (use no in blast)+
qed

lemma has_run_seen:
  assumes "has_run evs m {..<length evs} \<sigma>"
  shows "seen \<sigma> t = trace_of evs m t"
proof -
  have "filter (\<lambda>i. i \<in> {..<length evs}) (thread_ids evs t) = thread_ids evs t" by (auto simp: filter_id_conv set_thread_ids)
  with assms show ?thesis by (simp add: has_run_def trace_of_def)
qed

lemma has_run_pace:
  assumes "follows P evs m" "has_run evs m {..<length evs} \<sigma>"
  shows "pace \<sigma> t = length (thread_ids evs t) - (if \<exists>e. last_event evs t = Some e \<and> is_block e then 1 else 0)"
proof (cases "thread_ids evs t" rule: rev_cases)
  case Nil
  with assms(2) show ?thesis by (simp add: has_run_def)
next
  case (snoc T i)
  have "\<not> is_block (evs ! j)" if "j \<in> set T" for j
  proof -
    from that obtain a where a: "a < length T" "j = thread_ids evs t ! a" using snoc by (auto simp: in_set_conv_nth nth_append)
    with assms(1) snoc show ?thesis unfolding follows_def by (metis Suc_less_eq length_append_singleton less_SucI nat_neq_iff)
  qed
  moreover have ids: "j < length evs" if "j \<in> set (T @ [i])" for j using that set_thread_ids [of evs t] unfolding snoc by auto
  ultimately have T: "filter (\<lambda>j. j \<in> {..<length evs} \<and> \<not> is_block (evs ! j)) T = T" by (auto simp: filter_id_conv)
  have "i < length evs" by (rule ids) simp
  with T snoc assms(2) show ?thesis by (simp add: has_run_def last_event_def)
qed

lemma has_run_mail: "has_run evs m {..<length evs} \<sigma> \<Longrightarrow> set (mail \<sigma>) = letter_of evs ` under_way evs m {..<length evs}"
  by (auto simp: has_run_def)

lemma under_way_unread: "rf_valid (xg_events x) (xg_rf x) \<Longrightarrow> under_way (xg_events x) (xg_rf x) {..<length (xg_events x)} = unread x"
  by (auto simp: under_way_def unread_def rf_valid_def)

lemma execution_lawful: "execution_of S x \<Longrightarrow> lawful (s_program S) (s_model S) (xg_events x) (xg_rf x)"
  by (auto simp: execution_of_def lawful_def intro: butlast_errors_last)

lemma thread_done_finished:
  assumes "follows P (xg_events x) (xg_rf x)" "has_run (xg_events x) (xg_rf x) {..<length (xg_events x)} \<sigma>"
    and "thread_done S x t" "s_program S = P"
  shows "finished P \<sigma> t"
  using assms(3,4) has_run_seen [OF assms(2)] has_run_pace [OF assms(1,2), of t]
  by (auto simp: finished_def thread_done_def blocked_at_def)

lemma thread_stuck_waiting:
  assumes "follows P (xg_events x) (xg_rf x)" "rf_valid (xg_events x) (xg_rf x)"
    and "has_run (xg_events x) (xg_rf x) {..<length (xg_events x)} \<sigma>" "thread_stuck S x t" "s_program S = P"
  shows "waiting P \<sigma> t"
proof -
  from assms(4,5) obtain rl where rl: "blocked_at x t" "awaits P x t rl" "\<not> readable x t rl" by (auto simp: thread_stuck_def)
  have "matches rl v \<noteq> Inr True" if "(s, t, v) \<in> set (mail \<sigma>)" for s v
    using that rl(3) unfolding has_run_mail [OF assms(3)] under_way_unread [OF assms(2)]
    by (auto simp: readable_def compatible_def letter_of_def unread_def)
  with rl has_run_seen [OF assms(3), of t] has_run_pace [OF assms(1,3), of t] show ?thesis
    by (auto simp: waiting_def awaits_def blocked_at_def)
qed

lemma published_real_run:
  assumes "search_ok S" "published_ok S p"
  shows "real_run S p"
proof -
  obtain x kind depth where p: "p = (x, kind, depth)" by (metis prod_cases3)
  with assms(2) have x: "execution_of S x" and k: "terminal_ok S kind x" by (auto simp: published_ok_def)
  note law = execution_lawful [OF x]
  from lawful_runs [OF law] obtain \<sigma> where
    s: "reachable (s_program S) (s_model S) \<sigma>" "has_run (xg_events x) (xg_rf x) {..<length (xg_events x)} \<sigma>" by blast
  note fin = thread_done_finished [OF lawfulD(1) [OF law] s(2) _ refl]
    and wt = thread_stuck_waiting [OF lawfulD(1,2) [OF law] s(2) _ refl]
  have "run_end (s_program S) (s_model S) (set (s_threads S)) kind \<sigma>"
  proof (cases kind)
    case Blocked
    with k fin wt have all: "\<forall>t\<in>set (s_threads S). finished (s_program S) \<sigma> t \<or> waiting (s_program S) \<sigma> t"
      "\<exists>t\<in>set (s_threads S). waiting (s_program S) \<sigma> t" by (auto simp: terminal_ok_def)
    with Blocked stuck_machine [of "s_program S" \<sigma>] search_okD(2) [OF assms(1)] show ?thesis by (auto simp: run_end_def)
  next
    case ErrorExecution
    with k obtain t where t: "t \<in> set (s_threads S)" "thread_ids (xg_events x) t \<noteq> []" "is_error (xg_events x ! last (thread_ids (xg_events x) t))"
      by (auto simp: terminal_ok_def last_event_def split: if_splits)
    with last_thread_id [OF t(2)] s(2) have "t \<in> broken \<sigma>" by (auto simp: has_run_def)
    with ErrorExecution t(1) show ?thesis by (auto simp: run_end_def)
  qed (use k fin in \<open>auto simp: run_end_def terminal_ok_def\<close>)
  with s p show ?thesis by (auto simp: real_run_def)
qed

text \<open>C2. What is reported can happen. Every execution that a sequential verification hands to its observers
  is the trace of a run of the program, in which threads take turns and messages are posted and taken in the configured
  communication model: a full execution is a run in which every thread has returned, a blocked one ends in
  a deadlock, with no step possible and some thread at a receive that no message under way satisfies, an error
  execution is a run in which some thread fails. So no alarm is false. The
  observers are shown nothing else, so whatever they keep on such executions holds when the verification returns.\<close>

theorem verify_reports_real_runs:
  fixes config :: "('v::linorder, 'u) DporConfig"
  assumes "config_ok config" "observers_keep config clock (real_run (search config)) U" "U u"
  shows "\<exists>r u'. verify config clock u = Some (r, u') \<and> U u'"
proof -
  have "observers_keep config clock (published_ok (search config)) U"
    using assms(2) published_real_run [OF config_search_ok [OF assms(1)]] unfolding observers_keep_def by fast
  with verify_sound_outcome [of config U u clock, OF assms(1,3)] show ?thesis by blast
qed

theorem verify_reports_real_runs_witness:
  "\<exists>r seen. verify sample_config (\<lambda>u. (0, u)) [] = Some (r, seen)
     \<and> (\<forall>e\<in>set seen. real_run (search sample_config) (execution_graph e, execution_kind e, 0))"
proof (rule verify_reports_real_runs [OF sample_config_ok])
  show "observers_keep sample_config (\<lambda>u. (0, u)) (real_run (search sample_config))
      (\<lambda>seen. \<forall>e\<in>set seen. real_run (search sample_config) (execution_graph e, execution_kind e, 0))"
    by (auto simp: observers_keep_def sample_config_def real_run_def)
qed simp

section \<open>Runs give executions\<close>

text \<open>One more event at the end, with its source if it is a receive.\<close>

definition extends :: "'v event list \<Rightarrow> (EventId \<rightharpoonup> ReadsFromSource) \<Rightarrow> 'v event \<Rightarrow> (EventId \<rightharpoonup> ReadsFromSource) \<Rightarrow> bool" where
  "extends evs m e m' \<longleftrightarrow> rf_valid (evs @ [e]) m' \<and> rf_valid evs m \<and> (\<forall>i<length evs. m' i = m i)"

lemma extends_runs_next:
  assumes "extends evs m e m'"
  shows "runs_next (evs @ [e]) m' {..<length evs} (length evs) (length (thread_ids evs (thread e)))"
proof -
  let ?n = "length evs"
  from assms have v: "rf_valid (evs @ [e]) m'" "rf_valid evs m" "\<And>i. i < ?n \<Longrightarrow> m' i = m i" by (auto simp: extends_def)
  have below: "i < ?n" if "(i, j) \<in> causal (evs @ [e]) m'" "j < ?n" for i j
    using that v(2,3) by (auto simp: causal_def po_of_def rf_of_def rf_valid_def)
  have "(?n, ?n) \<notin> causal (evs @ [e]) m'"
    using v(1) send_not_receive by (auto simp: causal_def po_of_def rf_of_def rf_valid_def)
  moreover have "j < Suc ?n" if "(j, ?n) \<in> causal (evs @ [e]) m'" for j using that causal_bounded [OF v(1)] by auto
  ultimately have last: "j < ?n" if "(j, ?n) \<in> causal (evs @ [e]) m'" for j using that by (metis less_SucE)
  have "filter (\<lambda>j. j < ?n) (thread_ids evs t) = thread_ids evs t" for t by (auto simp: filter_id_conv set_thread_ids)
  with below last show ?thesis by (auto simp: runs_next_def down_closed_def thread_ids_append)
qed

lemma extends_has_run:
  assumes "extends evs m e m'" "has_run evs m {..<length evs} \<sigma>"
  shows "has_run (evs @ [e]) m' {..<length evs} \<sigma>"
proof -
  let ?n = "length evs" and ?evs = "evs @ [e]"
  from assms(1) have v: "rf_valid evs m" "\<And>i. i < ?n \<Longrightarrow> m' i = m i" by (auto simp: extends_def)
  have obs: "observed ?evs m' i = observed evs m i" if "i < ?n" for i
    unfolding observed_append [OF v(1) that, of e, symmetric] by (simp only: observed_def v(2) [OF that])
  have ids: "filter (\<lambda>i. i < ?n \<and> q i) (thread_ids ?evs t) = filter (\<lambda>i. i < ?n \<and> q i) (thread_ids evs t)" for q t
    by (simp add: thread_ids_append)
  have seen: "concat (map (observed ?evs m') (filter (\<lambda>i. i < ?n) (thread_ids ?evs t)))
      = concat (map (observed evs m) (filter (\<lambda>i. i < ?n) (thread_ids evs t)))" for t
    using ids [of "\<lambda>_. True" t] obs by (auto intro!: arg_cong [where f = concat])
  have pace: "filter (\<lambda>i. i < ?n \<and> \<not> is_block (?evs ! i)) (thread_ids ?evs t) = filter (\<lambda>i. i < ?n \<and> \<not> is_block (evs ! i)) (thread_ids evs t)" for t
    unfolding ids by (rule filter_cong) (auto simp: nth_append)
  have uw: "under_way ?evs m' {..<?n} = under_way evs m {..<?n}" using v(2) by (auto simp: under_way_def nth_append)
  from assms(2) obtain L where L: "mail \<sigma> = map (letter_of evs) L" "distinct L" "set L = under_way evs m {..<?n}" "in_order evs L"
    by (auto simp: has_run_def)
  then have old: "j < ?n" if "j \<in> set L" for j using that by (auto simp: under_way_def)
  have "mail \<sigma> = map (letter_of ?evs) L" using L(1) old by (auto simp: letter_of_def send_of_def nth_append)
  moreover have "in_order ?evs L" using L(4) old unfolding in_order_def by (auto simp: nth_append elim!: sorted_wrt_mono_rel [rotated])
  moreover have "broken \<sigma> = {t. \<exists>i<?n. is_error (?evs ! i) \<and> thread (?evs ! i) = t}"
    using assms(2) by (auto simp: has_run_def nth_append)
  ultimately show ?thesis using L(2,3) assms(2) uw unfolding has_run_def by (auto simp: seen pace)
qed

lemma fifo_snoc:
  assumes "fifo_ok evs m" "rf_valid evs m"
    and "\<And>i j. s = from_send j \<Longrightarrow> i < j \<Longrightarrow> same_channel evs i j \<Longrightarrow> accepted (evs @ [e]) (length evs) i \<Longrightarrow> \<exists>r'<length evs. m r' = Some (from_send i)"
    and "\<And>j. s = from_send j \<Longrightarrow> j < length evs"
  shows "fifo_ok (evs @ [e]) (m(length evs \<mapsto> s))"
  unfolding fifo_ok_def
proof (intro allI impI, elim conjE)
  let ?n = "length evs" and ?m = "m(length evs \<mapsto> s)"
  fix i j r assume *: "i < j" "same_channel (evs @ [e]) i j" "?m r = Some (from_send j)" "accepted (evs @ [e]) r i"
  have j: "j < ?n" using *(3) assms(2,4) by (auto simp: rf_valid_def split: if_splits)
  with * have ch: "same_channel evs i j" by (simp add: same_channel_def send_of_def nth_append)
  show "\<exists>r'<r. ?m r' = Some (from_send i)"
  proof (cases "r = ?n")
    case True
    with * have s: "s = from_send j" by simp
    from assms(3) [OF s *(1) ch] *(4) True show ?thesis by (metis fun_upd_other nat_neq_iff)
  next
    case False
    with *(3) assms(2) have r: "m r = Some (from_send j)" "r < ?n" by (auto simp: rf_valid_def)
    with *(1,4) j have "accepted evs r i" by (simp add: accepted_def recv_of_def send_of_def nth_append)
    with assms(1) *(1) j ch r obtain r' where "r' < r" "m r' = Some (from_send i)" unfolding fifo_ok_def by blast
    with r show ?thesis by (intro exI [of _ r']) simp
  qed
qed

lemma consistent_snoc_read:
  assumes c: "consistent model no_missing_reads_tolerance evs m" and e: "is_receive e" "read_ok (evs @ [e]) (length evs) s"
    and src: "\<And>j. s = from_send j \<Longrightarrow> j < length evs \<and> is_send (evs ! j) \<and> (\<forall>r. m r \<noteq> Some (from_send j))"
    and fifo: "\<And>i j. model = FifoP2P \<Longrightarrow> s = from_send j \<Longrightarrow> i < j \<Longrightarrow> same_channel evs i j \<Longrightarrow> accepted (evs @ [e]) (length evs) i
      \<Longrightarrow> \<exists>r'<length evs. m r' = Some (from_send i)"
  shows "consistent model no_missing_reads_tolerance (evs @ [e]) (m(length evs \<mapsto> s))"
proof -
  let ?n = "length evs" and ?m = "m(length evs \<mapsto> s)"
  from c have rd: "reads_ok no_missing_reads_tolerance evs m" and ac: "acyclic (causal evs m)" and ff: "model = FifoP2P \<Longrightarrow> fifo_ok evs m"
    by (auto simp: consistent_def async_consistent_def)
  note v = reads_okD(1) [OF rd]
  have ids: "r < ?n" "s' = from_send i \<Longrightarrow> i < ?n" if "m r = Some s'" for r s' i using v that by (auto simp: rf_valid_def)
  have read: "read_ok (evs @ [e]) r s'" if "m r = Some s'" for r s'
    using reads_okD(2) [OF rd that] ids [OF that]
    by (auto simp: read_ok_def recv_of_def send_of_def accepted_def nth_append split: ReadsFromSource.splits)
  have v': "rf_valid (evs @ [e]) ?m"
    using v src e(1) unfolding rf_valid_def by (auto simp: nth_append less_SucI split: if_splits)
  have "r = r'" if "?m r = Some (from_send i)" "?m r' = Some (from_send i)" for r r' i
    using that reads_okD(3) [OF rd] src by (auto split: if_splits)
  moreover have "?m r \<noteq> None" if "r < Suc ?n" "is_receive ((evs @ [e]) ! r)" for r
    using reads_okD(4) [OF rd] that by (auto simp: nth_append less_Suc_eq no_missing_reads_tolerance_def)
  moreover have "read_ok (evs @ [e]) r s'" if "?m r = Some s'" for r s' using that read e(2) by (cases "r = ?n") simp_all
  ultimately have "reads_ok no_missing_reads_tolerance (evs @ [e]) ?m"
    using v' unfolding reads_ok_def length_append_singleton by blast
  moreover have "acyclic (causal (evs @ [e]) ?m)"
    using e(1) src by (intro acyclic_fresh_receive [OF rf_valid_append [OF v] acyclic_append [OF v ac]]) (auto simp: source_ok_def nth_append)
  moreover have "fifo_ok (evs @ [e]) ?m" if "model = FifoP2P"
    by (rule fifo_snoc [OF ff [OF that] v]) (use fifo [OF that] src in blast)+
  ultimately show ?thesis by (auto simp: consistent_def async_consistent_def)
qed

text \<open>The execution a run has left so far.\<close>

definition leaves :: "'v Program \<Rightarrow> CommunicationModel \<Rightarrow> 'v machine \<Rightarrow> 'v event list \<Rightarrow> (EventId \<rightharpoonup> ReadsFromSource) \<Rightarrow> bool" where
  "leaves P model \<sigma> evs m \<longleftrightarrow> lawful P model evs m \<and> has_run evs m {..<length evs} \<sigma> \<and> (\<forall>e\<in>set evs. \<not> is_block e)"

lemma leaves_follows:
  assumes "leaves P model \<sigma> evs m" "proposes P \<sigma> (thread e) l" "instance_of l (label e)"
  shows "follows P (evs @ [e]) m" "errors_last (evs @ [e])"
proof -
  let ?t = "thread e"
  from assms(1) have law: "lawful P model evs m" and run: "has_run evs m {..<length evs} \<sigma>" and nb: "\<And>i. i < length evs \<Longrightarrow> \<not> is_block (evs ! i)"
    by (auto simp: leaves_def)
  have ne: "\<not> is_error (evs ! i)" if "i < length evs" "thread (evs ! i) = ?t" for i
    using that run assms(2) by (auto simp: has_run_def proposes_def)
  have last: "\<not> terminated evs ?t"
    using last_thread_id [of evs ?t] nb ne by (auto simp: terminated_def last_event_def)
  then have "pace \<sigma> ?t = length (thread_ids evs ?t)"
    using has_run_pace [OF lawfulD(1) [OF law] run, of ?t] by (auto simp: terminated_def)
  with assms(2) has_run_seen [OF run, of ?t] show "follows P (evs @ [e]) m"
    by (intro follows_append [OF lawfulD(1,2) [OF law] _ _ assms(3) last]) (simp_all add: proposes_def)
  show "errors_last (evs @ [e])"
    using lawfulD(4) [OF law] ne unfolding errors_last_def po_of_append by (auto simp: nth_append po_of_def)
qed

lemma leaves_event:
  assumes "leaves P model \<sigma> evs m" "proposes P \<sigma> (thread e) l" "instance_of l (label e)" "\<not> is_receive e" "\<not> is_block e"
  shows "lawful P model (evs @ [e]) m" "extends evs m e m" "m (length evs) = None"
proof -
  from assms(1) have law: "lawful P model evs m" by (simp add: leaves_def)
  then have "consistent model no_missing_reads_tolerance evs m" by (simp add: lawful_def)
  from consistent_append [OF this assms(4)] leaves_follows [OF assms(1-3)] show "lawful P model (evs @ [e]) m" by (simp add: lawful_def)
  show "extends evs m e m" using lawfulD(2) [OF law] rf_valid_append by (auto simp: extends_def)
  show "m (length evs) = None" using lawfulD(2) [OF law] unfolding rf_valid_def by (metis less_irrefl option.exhaust)
qed

lemma leaves_read:
  assumes "leaves P model \<sigma> evs m" "proposes P \<sigma> (thread e) l" "instance_of l (label e)"
    and "consistent model no_missing_reads_tolerance (evs @ [e]) (m(length evs \<mapsto> s))"
  shows "lawful P model (evs @ [e]) (m(length evs \<mapsto> s))" "extends evs m e (m(length evs \<mapsto> s))"
proof -
  from assms(1) have law: "lawful P model evs m" by (simp add: leaves_def)
  have "follows P (evs @ [e]) (m(length evs \<mapsto> s))"
    by (rule follows_read_last [OF leaves_follows(1) [OF assms(1-3)]]) auto
  with assms(4) leaves_follows(2) [OF assms(1-3)] show new: "lawful P model (evs @ [e]) (m(length evs \<mapsto> s))" by (simp add: lawful_def)
  show "extends evs m e (m(length evs \<mapsto> s))" using lawfulD(2) [OF law] lawfulD(2) [OF new] by (simp add: extends_def)
qed

text \<open>The letters in their order, as ids of sends.\<close>

lemma leaves_letters:
  assumes "leaves P model \<sigma> evs m" "mail \<sigma> = before @ (s, t, v) # after"
  obtains L1 j L2 where "before = map (letter_of evs) L1" "(s, t, v) = letter_of evs j" "after = map (letter_of evs) L2"
    "distinct (L1 @ j # L2)" "set (L1 @ j # L2) = under_way evs m {..<length evs}" "in_order evs (L1 @ j # L2)"
proof -
  from assms(1) obtain L where L: "mail \<sigma> = map (letter_of evs) L" "distinct L" "set L = under_way evs m {..<length evs}" "in_order evs L"
    by (auto simp: leaves_def has_run_def)
  from L(1) assms(2) have "before @ (s, t, v) # after = map (letter_of evs) L" by simp
  then obtain L1 j L2 where "L = L1 @ j # L2" "before = map (letter_of evs) L1" "(s, t, v) = letter_of evs j" "after = map (letter_of evs) L2"
    by (auto simp: append_eq_map_conv Cons_eq_map_conv)
  with that L(2-4) show thesis by metis
qed

text \<open>A step adds the event it stands for.\<close>

lemma leaves_quiet:
  assumes "leaves P model \<sigma> evs m" "lawful P model (evs @ [e]) m'" "extends evs m e m'"
    and "\<not> is_send e" "\<not> is_block e" "\<And>j. m' (length evs) \<noteq> Some (from_send j)"
  shows "leaves P model ((advance (thread e) (observed (evs @ [e]) m' (length evs)) (mail \<sigma>) \<sigma>)
    \<lparr>broken := broken \<sigma> \<union> (if is_error e then {thread e} else {})\<rparr>) (evs @ [e]) m'"
proof -
  from assms(1) have "has_run evs m {..<length evs} \<sigma>" by (simp add: leaves_def)
  from run_quiet [OF extends_runs_next [OF assms(3)] extends_has_run [OF assms(3) this]] assms show ?thesis
    by (auto simp: leaves_def lessThan_Suc)
qed

lemma leaves_send:
  assumes "leaves P model \<sigma> evs m" "proposes P \<sigma> t (Send sl)"
  shows "\<exists>evs' m'. leaves P model (advance t [] (mail \<sigma> @ [(t, destination sl, send_value sl)]) \<sigma>) evs' m'"
proof (intro exI)
  let ?e = "\<lparr>thread = t, index = 0, label = Send sl\<rparr>" and ?n = "length evs"
  let ?evs = "evs @ [?e]" and ?s = "advance t [] (mail \<sigma> @ [(t, destination sl, send_value sl)]) \<sigma>"
  have k: "\<not> is_receive ?e" "\<not> is_block ?e" "\<not> is_error ?e" "is_send ?e" "observed ?evs m ?n = []" "send_of ?evs ?n = sl"
    by (simp_all add: event_kind_defs observed_def send_of_def)
  have new: "lawful P model ?evs m" "extends evs m ?e m"
    using leaves_event [OF assms(1), of ?e "Send sl"] assms(2) k by (simp_all add: instance_of_def)
  have nx: "runs_next ?evs m {..<?n} ?n (length (thread_ids evs t))" using extends_runs_next [OF new(2)] by simp
  have run: "has_run ?evs m {..<?n} \<sigma>" using assms(1) extends_has_run [OF new(2)] by (simp add: leaves_def)
  then obtain L where L: "mail \<sigma> = map (letter_of ?evs) L" "distinct L" "set L = under_way ?evs m {..<?n}" "in_order ?evs L"
    by (auto simp: has_run_def)
  have "has_run ?evs m (insert ?n {..<?n}) ?s"
  proof (rule has_run_insert [OF nx run, where L = "L @ [?n]"])
    show "distinct (L @ [?n])" using L(2,3) by (auto simp: under_way_def)
    show "in_order ?evs (L @ [?n])" by (rule in_order_snoc [OF nx L(4,3)])
    show "set (L @ [?n]) = under_way ?evs m (insert ?n {..<?n})"
      using under_way_send [OF nx _ lawfulD(2) [OF new(1)]] k L(3) by simp
  qed (use L(1) k in \<open>simp_all add: advance_def letter_of_def\<close>)
  with assms(1) new k(2) show "leaves P model ?s ?evs m" by (simp add: leaves_def lessThan_Suc)
qed

lemma take_lawful:
  assumes "leaves P model \<sigma> evs m" "proposes P \<sigma> t (Receive rl)" "letter_of evs j = (s, t, v)" "matches rl v = Inr True"
    and fifo: "model = FifoP2P \<longrightarrow> (\<forall>v'. (s, t, v') \<in> letter_of evs ` set L1 \<longrightarrow> matches rl v' \<noteq> Inr True)"
    and L: "set (L1 @ j # L2) = under_way evs m {..<length evs}" "in_order evs (L1 @ j # L2)"
  shows "lawful P model (evs @ [\<lparr>thread = t, index = 0, label = Receive rl\<rparr>]) (m(length evs \<mapsto> from_send j))"
    "extends evs m \<lparr>thread = t, index = 0, label = Receive rl\<rparr> (m(length evs \<mapsto> from_send j))"
proof -
  let ?e = "\<lparr>thread = t, index = 0, label = Receive rl\<rparr>" and ?n = "length evs"
  let ?evs = "evs @ [?e]" and ?m = "m(?n \<mapsto> from_send j)"
  from assms(1) have law: "lawful P model evs m" by (simp add: leaves_def)
  have "j \<in> under_way evs m {..<?n}" unfolding L(1) [symmetric] by simp
  then have j: "j < ?n" "is_send (evs ! j)" "\<forall>r. m r \<noteq> Some (from_send j)"
    using lawfulD(2) [OF law] by (auto simp: under_way_def rf_valid_def)
  have k: "is_receive ?e" "recv_of ?evs ?n = rl" "send_of ?evs j = send_of evs j"
    using j by (simp_all add: event_kind_defs recv_of_def send_of_def nth_append)
  have lj: "thread (evs ! j) = s" "destination (send_of evs j) = t" "send_value (send_of evs j) = v"
    using assms(3) by (simp_all add: letter_of_def)
  have first: "\<exists>r'<?n. m r' = Some (from_send i)"
    if i: "model = FifoP2P" "i < j" "same_channel evs i j" "accepted ?evs ?n i" for i
  proof (rule ccontr)
    assume none: "\<not> (\<exists>r'<?n. m r' = Some (from_send i))"
    then have "i \<in> set (L1 @ j # L2)" unfolding L(1) using i(2,3) j by (auto simp: under_way_def same_channel_def)
    moreover have "i \<notin> set L2" using L(2) i(2,3) by (auto simp: in_order_def sorted_wrt_append same_channel_def)
    ultimately have "letter_of evs i \<in> letter_of evs ` set L1" using i(2) by auto
    moreover have "letter_of evs i = (s, t, send_value (send_of evs i))" using i(3) lj by (simp add: letter_of_def same_channel_def)
    moreover have "matches rl (send_value (send_of evs i)) = Inr True"
      using i(2,4) j k(2) by (simp add: accepted_def send_of_def nth_append)
    ultimately show False using fifo i(1) by auto
  qed
  have "consistent model no_missing_reads_tolerance ?evs ?m"
  proof (rule consistent_snoc_read)
    show "consistent model no_missing_reads_tolerance evs m" using law by (simp add: lawful_def)
    show "read_ok ?evs ?n (from_send j)" using k lj assms(4) by (simp add: read_ok_def accepted_def)
  qed (use j first k(1) in auto)
  then show "lawful P model ?evs ?m" "extends evs m ?e ?m"
    using leaves_read [OF assms(1), of ?e "Receive rl"] assms(2) by (simp_all add: instance_of_def)
qed

lemma leaves_take:
  assumes "leaves P model \<sigma> evs m" "proposes P \<sigma> t (Receive rl)" "mail \<sigma> = before @ (s, t, v) # after" "matches rl v = Inr True"
    and fifo: "model = FifoP2P \<longrightarrow> (\<forall>v'. (s, t, v') \<in> set before \<longrightarrow> matches rl v' \<noteq> Inr True)"
  shows "\<exists>evs' m'. leaves P model (advance t [Observed v] (before @ after) \<sigma>) evs' m'"
proof -
  let ?e = "\<lparr>thread = t, index = 0, label = Receive rl\<rparr>" and ?n = "length evs"
  let ?evs = "evs @ [?e]" and ?s = "advance t [Observed v] (before @ after) \<sigma>"
  from leaves_letters [OF assms(1,3)] obtain L1 j L2 where
    L: "before = map (letter_of evs) L1" "(s, t, v) = letter_of evs j" "after = map (letter_of evs) L2"
      "distinct (L1 @ j # L2)" "set (L1 @ j # L2) = under_way evs m {..<?n}" "in_order evs (L1 @ j # L2)" by metis
  let ?m = "m(?n \<mapsto> from_send j)"
  have new: "lawful P model ?evs ?m" "extends evs m ?e ?m"
    using take_lawful [OF assms(1,2) L(2) [symmetric] assms(4) _ L(5,6)] fifo L(1) by simp_all
  have nx: "runs_next ?evs ?m {..<?n} ?n (length (thread_ids evs t))" using extends_runs_next [OF new(2)] by simp
  have run: "has_run ?evs ?m {..<?n} \<sigma>" using assms(1) extends_has_run [OF new(2)] by (simp add: leaves_def)
  have old: "i < ?n \<and> is_send (evs ! i)" if "i \<in> set (L1 @ j # L2)" for i using that unfolding L(5) by (auto simp: under_way_def)
  have uw: "under_way ?evs ?m {..<?n} = under_way evs m {..<?n}" by (auto simp: under_way_def nth_append)
  have k: "is_receive ?e" "\<not> is_block ?e" "\<not> is_error ?e" by (simp_all add: event_kind_defs)
  have "has_run ?evs ?m (insert ?n {..<?n}) ?s"
  proof (rule has_run_insert [OF nx run, where L = "L1 @ L2"])
    have "letter_of ?evs i = letter_of evs i" if "i \<in> set (L1 @ L2)" for i
      using old [of i] that by (simp add: letter_of_def send_of_def nth_append)
    then show "mail ?s = map (letter_of ?evs) (L1 @ L2)" using L(1,3) by (auto simp: advance_def)
    show "in_order ?evs (L1 @ L2)"
      using L(6) old unfolding in_order_def by (auto simp: nth_append sorted_wrt_append elim!: sorted_wrt_mono_rel [rotated])
    show "set (L1 @ L2) = under_way ?evs ?m (insert ?n {..<?n})"
      using under_way_read [of ?m ?n j ?evs "{..<?n}"] lawfulD(2) [OF new(1)] L(4,5) uw by auto
    have "as_send (evs ! j) = Some (send_of evs j)" using old [of j] is_sendE [of "evs ! j"] by (metis in_set_conv_decomp option.sel send_of_def)
    then have "observed ?evs ?m ?n = [Observed v]" using k(1) old [of j] L(2) by (simp add: observed_def nth_append letter_of_def)
    then show "seen ?s t' = seen \<sigma> t' @ (if t' = thread (?evs ! ?n) then observed ?evs ?m ?n else [])" for t'
      by (simp add: advance_def)
  qed (use L(4) k in \<open>simp_all add: advance_def\<close>)
  with assms(1) new k(2) have "leaves P model ?s ?evs ?m" by (simp add: leaves_def lessThan_Suc)
  then show ?thesis by blast
qed

lemma leaves_step:
  fixes \<sigma> :: "'v machine"
  assumes "leaves P model \<sigma> evs m" "machine_step P model \<sigma> \<sigma>'"
  shows "\<exists>evs' m'. leaves P model \<sigma>' evs' m'"
  using assms(2)
proof cases
  case (posts t sl)
  with leaves_send [OF assms(1) posts(2)] show ?thesis by simp
next
  case (takes t rl before s v after)
  with leaves_take [OF assms(1) takes(2-5)] show ?thesis by simp
next
  case (gives_up t rl)
  let ?e = "\<lparr>thread = t, index = 0, label = Receive rl\<rparr>" and ?n = "length evs"
  have k: "is_receive ?e" "\<not> is_send ?e" "\<not> is_block ?e" "\<not> is_error ?e" "recv_of (evs @ [?e]) ?n = rl"
    by (simp_all add: event_kind_defs recv_of_def)
  have "consistent model no_missing_reads_tolerance (evs @ [?e]) (m(?n \<mapsto> bottom))"
    using assms(1) k gives_up(3) by (intro consistent_snoc_read) (auto simp: leaves_def lawful_def read_ok_def)
  from leaves_read [OF assms(1) _ _ this, of "Receive rl"] leaves_quiet [OF assms(1), of ?e "m(?n \<mapsto> bottom)"] k gives_up
  have "leaves P model \<sigma>' (evs @ [?e]) (m(?n \<mapsto> bottom))" by (simp add: instance_of_def observed_def advance_def)
  then show ?thesis by blast
next
  case (picks t nd v)
  let ?l = "NondeterministicChoice (if choices nd = [] then nd else \<lparr>nd_value = v, choices = erase_duplicate_nd_choices (choices nd)\<rparr>)"
  let ?e = "\<lparr>thread = t, index = 0, label = ?l\<rparr>" and ?n = "length evs"
  have k: "\<not> is_receive ?e" "\<not> is_send ?e" "\<not> is_block ?e" "\<not> is_error ?e" "instance_of (NondeterministicChoice nd) (label ?e)"
    "observed (evs @ [?e]) m ?n = [Observed v]"
    using picks(3) by (auto simp: event_kind_defs instance_of_def observed_def)
  from leaves_event [OF assms(1) _ k(5,1,3)] leaves_quiet [OF assms(1), of ?e m] k picks
  have "leaves P model \<sigma>' (evs @ [?e]) m" by (simp add: advance_def)
  then show ?thesis by blast
next
  case (breaks t el)
  let ?e = "\<lparr>thread = t, index = 0, label = Error el :: 'v EventLabel\<rparr>" and ?n = "length evs"
  have k: "\<not> is_receive ?e" "\<not> is_send ?e" "\<not> is_block ?e" "is_error ?e" "instance_of (Error el) (label ?e)" "observed (evs @ [?e]) m ?n = []"
    by (simp_all add: event_kind_defs instance_of_def observed_def)
  from leaves_event [OF assms(1) _ k(5,1,3)] leaves_quiet [OF assms(1), of ?e m] k breaks
  have "leaves P model \<sigma>' (evs @ [?e]) m" by (simp add: advance_def)
  then show ?thesis by blast
qed

text \<open>Every run leaves a lawful execution: consistent executions of a program are exactly what its runs leave.\<close>

lemma reachable_leaves:
  assumes "reachable P model \<sigma>"
  shows "\<exists>evs m. leaves P model \<sigma> evs m"
  using assms unfolding reachable_def
proof (induction rule: rtranclp_induct)
  case base
  have "leaves P model initial [] Map.empty" using has_run_nothing [of "[]" Map.empty]
    by (simp add: leaves_def lawful_def consistent_def async_consistent_def reads_ok_def rf_valid_def fifo_ok_def
        follows_def thread_ids_def errors_last_def po_of_def causal_def rf_of_def lessThan_def acyclic_def)
  then show ?case by blast
qed (use leaves_step in blast)

section \<open>Progress\<close>

text \<open>A thread that does not wait can move, so a machine that has stopped without a failure has only finished and waiting threads.\<close>

lemma offered_moves:
  assumes "proposes P \<sigma> t l" "l \<noteq> Block" "\<not> waiting P \<sigma> t"
  shows "\<exists>\<sigma>'. machine_step P model \<sigma> \<sigma>'"
proof (cases l)
  case (Receive rl)
  note p = assms(1) [unfolded Receive]
  show ?thesis
  proof (cases "is_nonblocking rl")
    case True
    from gives_up [OF p this] show ?thesis by blast
  next
    case False
    let ?fits = "\<lambda>x. \<exists>s v. x = (s, t, v) \<and> matches rl v = Inr True"
    have "is_blocking rl" using False by (cases "mode rl") (simp_all add: is_blocking_def is_nonblocking_def)
    with assms(3) p have "\<exists>x\<in>set (mail \<sigma>). ?fits x" by (auto simp: waiting_def proposes_def)
    then obtain before x after where "mail \<sigma> = before @ x # after" "?fits x" and no: "\<forall>y\<in>set before. \<not> ?fits y"
      by (rule split_list_first_propE)
    then obtain s v where "mail \<sigma> = before @ (s, t, v) # after" "matches rl v = Inr True" by blast
    from takes [OF p this] no show ?thesis by blast
  qed
next
  case (NondeterministicChoice nd)
  have "\<exists>v. v \<in> set (choices nd) \<or> choices nd = [] \<and> v = nd_value nd" by (cases "choices nd") auto
  then obtain v where "v \<in> set (choices nd) \<or> choices nd = [] \<and> v = nd_value nd" ..
  from picks [OF assms(1) [unfolded NondeterministicChoice] this] show ?thesis by blast
next
  case (Send sl)
  from posts [OF assms(1) [unfolded Send]] show ?thesis by blast
next
  case (Error el)
  from breaks [OF assms(1) [unfolded Error]] show ?thesis by blast
qed (use assms(2) in simp)

lemma stopped_threads:
  assumes "safe_program P" "leaves P model \<sigma> evs m" "broken \<sigma> = {}" "\<And>\<sigma>'. \<not> machine_step P model \<sigma> \<sigma>'" "tm_contains (threads P) t"
  shows "finished P \<sigma> t \<or> waiting P \<sigma> t"
proof -
  from assms(2) have law: "lawful P model evs m" and run: "has_run evs m {..<length evs} \<sigma>" and nb: "\<forall>e\<in>set evs. \<not> is_block e"
    by (auto simp: leaves_def)
  have "broken \<sigma> = {t. \<exists>i\<in>{..<length evs}. is_error (evs ! i) \<and> thread (evs ! i) = t}" using run by (simp add: has_run_def)
  with assms(3) have ne: "\<forall>e\<in>set evs. \<not> is_error e" by (fastforce simp: in_set_conv_nth)
  have nt: "\<not> terminated evs t" using last_thread_id [of evs t] nb ne by (auto simp: terminated_def last_event_def)
  moreover have "async_consistent no_missing_reads_tolerance evs m" using law by (auto simp: lawful_def consistent_def)
  ultimately obtain l where "reply P t (trace_of evs m t) (length (thread_ids evs t)) = Inr l"
    using assms(1,5) lawfulD(1) [OF law] ne unfolding safe_program_def by blast
  moreover have "pace \<sigma> t = length (thread_ids evs t)"
    using has_run_pace [OF lawfulD(1) [OF law] run, of t] nt by (auto simp: terminated_def)
  ultimately have l: "reply P t (seen \<sigma> t) (pace \<sigma> t) = Inr l" using has_run_seen [OF run] by simp
  show ?thesis
  proof (cases l)
    case None
    with l show ?thesis by (simp add: finished_def)
  next
    case (Some l')
    with l assms(3,5) have "proposes P \<sigma> t l'" by (simp add: proposes_def offered_def)
    moreover have "l' \<noteq> Block" using offered_safe(1) [OF assms(1), of t "seen \<sigma> t" "pace \<sigma> t"] l Some by (auto simp: offered_def)
    ultimately show ?thesis using offered_moves assms(4) by blast
  qed
qed

end
