(* ===== verification/Histories.thy ===== *)
theory Histories
  imports Conformance
begin

text \<open>
  Reasoning about one thread of an execution. What a thread sees at an event depends on the label it
  offered and on the messages sent to it; a predicate on step and trace that holds at the start and along
  every such step holds throughout the thread.
\<close>

definition sees :: "('v \<Rightarrow> bool) \<Rightarrow> 'v EventLabel \<Rightarrow> 'v EventLabel \<Rightarrow> 'v ThreadTrace \<Rightarrow> bool" where
  "sees incoming l e obs \<longleftrightarrow> instance_of l e \<and>
     (case e of
        Receive rl \<Rightarrow> (\<exists>v. incoming v \<and> obs = [Observed v]) \<or> is_nonblocking rl \<and> obs = [BottomValue]
      | NondeterministicChoice nd \<Rightarrow> obs = [Observed (nd_value nd)]
      | _ \<Rightarrow> obs = [])"

definition only_gets :: "('v \<Rightarrow> bool) \<Rightarrow> 'v event list \<Rightarrow> ThreadId \<Rightarrow> bool" where
  "only_gets incoming evs t \<longleftrightarrow> (\<forall>i<length evs. \<forall>sl. label (evs ! i) = Send sl \<longrightarrow> destination sl = t \<longrightarrow> incoming (send_value sl))"

lemma trace_upto_0 [simp]: "trace_upto evs m t 0 = []"
  by (simp add: trace_upto_def)

lemma trace_upto_Suc:
  "k < length (thread_ids evs t) \<Longrightarrow> trace_upto evs m t (Suc k) = trace_upto evs m t k @ observed evs m (thread_ids evs t ! k)"
  by (simp add: trace_upto_def take_Suc_conv_app_nth)

lemma trace_upto_extends: "k \<le> k' \<Longrightarrow> \<exists>ext. trace_upto evs m t k' = trace_upto evs m t k @ ext"
  unfolding trace_upto_def by (metis concat_append le_iff_add map_append take_add)

lemma trace_upto_of: "k \<le> length (thread_ids evs t) \<Longrightarrow> \<exists>ext. trace_of evs m t = trace_upto evs m t k @ ext"
  using trace_upto_extends [of k "length (thread_ids evs t)" evs m t] by (simp add: trace_upto_all)

lemma thread_event:
  assumes "k < length (thread_ids evs t)"
  shows "thread_ids evs t ! k < length evs" "thread (evs ! (thread_ids evs t ! k)) = t"
  using nth_mem [OF assms] by (auto simp: set_thread_ids)

lemma observed_sees:
  assumes c: "async_consistent no_missing_reads_tolerance evs m" and g: "only_gets incoming evs (thread (evs ! i))"
    and i: "i < length evs" "instance_of l (label (evs ! i))"
  shows "sees incoming l (label (evs ! i)) (observed evs m i)"
proof (cases "label (evs ! i)")
  case (Receive rl)
  have r: "is_receive (evs ! i)" "recv_of evs i = rl" using Receive by (simp_all add: is_receive_def recv_of_def as_receive_def)
  from c have rd: "reads_ok no_missing_reads_tolerance evs m" by (simp add: async_consistent_def)
  from reads_okD(4) [OF rd] r(1) i(1) obtain s where s: "m i = Some s" by (auto simp: no_missing_reads_tolerance_def)
  from reads_okD(2) [OF rd s] have ok: "read_ok evs i s" .
  show ?thesis
  proof (cases s)
    case bottom
    with ok s r Receive i(2) show ?thesis by (simp add: sees_def observed_def read_ok_def)
  next
    case (from_send j)
    with reads_okD(1) [OF rd] s have j: "j < length evs" "is_send (evs ! j)" by (auto simp: rf_valid_def)
    then obtain sl where sl: "label (evs ! j) = Send sl" by (auto simp: is_send_def split: EventLabel.splits)
    then have "as_send (evs ! j) = Some sl" by (simp add: as_send_def)
    with ok s from_send r g j sl Receive i(2) show ?thesis
      by (auto simp: sees_def observed_def read_ok_def only_gets_def send_of_def)
  qed
qed (use i(2) in \<open>auto simp: sees_def observed_def is_receive_def as_nondeterministic_choice_def\<close>)

section \<open>The contract of a history\<close>

definition runs_on :: "'v EventLabel \<Rightarrow> bool" where
  "runs_on e \<longleftrightarrow> (case e of Block \<Rightarrow> False | Error _ \<Rightarrow> False | _ \<Rightarrow> True)"

text \<open>A blocked thread offers nothing at its next step, so block events are the last of their threads.\<close>

locale history =
  fixes offers :: "'v ThreadTrace \<Rightarrow> nat \<Rightarrow> 'v EventLabel \<Rightarrow> bool" and incoming :: "'v \<Rightarrow> bool"
    and shape :: "nat \<Rightarrow> 'v ThreadTrace \<Rightarrow> bool"
  assumes starts: "shape 0 []"
    and steps: "shape k tr \<Longrightarrow> offers tr k l \<Longrightarrow> sees incoming l e obs \<Longrightarrow> runs_on e \<Longrightarrow> shape (Suc k) (tr @ obs)"
    and stops: "shape k tr \<Longrightarrow> offers tr k l \<Longrightarrow> instance_of l Block \<Longrightarrow> \<not> offers tr (Suc k) l'"
begin

lemma shaped_while:
  assumes f: "follows P evs m" "async_consistent no_missing_reads_tolerance evs m" "only_gets incoming evs t"
    and o: "\<And>tr k l. offered P t tr k = Some l \<Longrightarrow> offers tr k l"
    and k: "k \<le> length (thread_ids evs t)" "\<forall>i<k. runs_on (label (evs ! (thread_ids evs t ! i)))"
  shows "shape k (trace_upto evs m t k)"
  using k
proof (induction k)
  case (Suc k)
  then have k: "k < length (thread_ids evs t)" and IH: "shape k (trace_upto evs m t k)" by auto
  let ?i = "thread_ids evs t ! k"
  from f(1) k obtain l where l: "offered P t (trace_upto evs m t k) k = Some l" "instance_of l (label (evs ! ?i))"
    unfolding follows_def by metis
  have "sees incoming l (label (evs ! ?i)) (observed evs m ?i)"
    by (rule observed_sees [OF f(2) _ _ l(2)]) (use f(3) thread_event [OF k] in auto)
  then show ?case using steps [OF IH o [OF l(1)]] Suc.prems(2) k by (simp add: trace_upto_Suc)
qed (simp add: starts)

lemma shaped:
  assumes f: "follows P evs m" "async_consistent no_missing_reads_tolerance evs m" "only_gets incoming evs t"
    and o: "\<And>tr k l. offered P t tr k = Some l \<Longrightarrow> offers tr k l"
    and k: "k < length (thread_ids evs t)" "\<forall>i<k. \<not> is_error (evs ! (thread_ids evs t ! i))"
  shows "shape k (trace_upto evs m t k)"
proof -
  let ?e = "\<lambda>i. label (evs ! (thread_ids evs t ! i))"
  have "runs_on (?e i)" if "i < k" for i
    using that
  proof (induction i rule: less_induct)
    case (less i)
    show ?case
    proof (rule ccontr)
      assume "\<not> runs_on (?e i)"
      with k(2) less.prems have b: "?e i = Block" by (auto simp: runs_on_def is_error_def split: EventLabel.splits)
      have sh: "shape i (trace_upto evs m t i)" by (rule shaped_while [OF f o]) (use less k(1) in auto)
      have i: "i < length (thread_ids evs t)" "Suc i < length (thread_ids evs t)" using less.prems k(1) by auto
      from f(1) i(1) b obtain l where l: "offered P t (trace_upto evs m t i) i = Some l" "instance_of l Block"
        unfolding follows_def by metis
      have "trace_upto evs m t (Suc i) = trace_upto evs m t i"
        using b by (simp add: trace_upto_Suc [OF i(1)] observed_def is_receive_def as_nondeterministic_choice_def)
      with f(1) i(2) obtain l' where "offered P t (trace_upto evs m t i) (Suc i) = Some l'"
        unfolding follows_def by metis
      with stops [OF sh o [OF l(1)] l(2)] o show False by blast
    qed
  qed
  with k(1) show ?thesis by (intro shaped_while [OF f o]) auto
qed

lemma shaped_all:
  assumes f: "follows P evs m" "async_consistent no_missing_reads_tolerance evs m" "only_gets incoming evs t"
    and o: "\<And>tr k l. offered P t tr k = Some l \<Longrightarrow> offers tr k l"
    and e: "\<forall>e\<in>set evs. \<not> is_error e" "\<not> terminated evs t"
  shows "shape (length (thread_ids evs t)) (trace_of evs m t)"
proof (cases "thread_ids evs t")
  case Nil
  then show ?thesis by (simp add: trace_of_def starts)
next
  case (Cons a as)
  let ?T = "thread_ids evs t" and ?k = "length (thread_ids evs t) - 1"
  have k: "?k < length ?T" "Suc ?k = length ?T" using Cons by auto
  have err: "\<not> is_error (evs ! (?T ! i))" if "i < length ?T" for i using thread_event(1) [OF that] e(1) by simp
  have sh: "shape ?k (trace_upto evs m t ?k)" by (rule shaped [OF f o k(1)]) (use err k in auto)
  from f(1) k(1) obtain l where l: "offered P t (trace_upto evs m t ?k) ?k = Some l" "instance_of l (label (evs ! (?T ! ?k)))"
    unfolding follows_def by metis
  have "last_event evs t = Some (evs ! (?T ! ?k))" using Cons by (simp add: last_event_def last_conv_nth)
  with e(2) have "runs_on (label (evs ! (?T ! ?k)))"
    by (auto simp: terminated_def runs_on_def is_block_def is_error_def split: EventLabel.splits)
  moreover have "sees incoming l (label (evs ! (?T ! ?k))) (observed evs m (?T ! ?k))"
    by (rule observed_sees [OF f(2) _ _ l(2)]) (use f(3) thread_event [OF k(1)] in auto)
  ultimately have "shape (Suc ?k) (trace_upto evs m t (Suc ?k))"
    unfolding trace_upto_Suc [OF k(1)] by (rule steps [OF sh o [OF l(1)], rotated])
  with k(2) show ?thesis by (simp add: trace_upto_all)
qed

end

end
