(* ===== verification/Tpc_Protocol.thy ===== *)
theory Tpc_Protocol
  imports Text
begin

text \<open>
  The two-phase commit protocol of \<^verbatim>\<open>examples/two_phase_commit_timeout/protocol.hpp\<close>: messages and their text
  form, the coordinator and the participant. The environment interface is a record of operations on an
  environment state, any of which may throw; a method of a protocol object runs on the pair of the
  object and the environment, and an exception leaves both as they were when it was thrown. A timer
  callback is the name of the method it calls.
\<close>

section \<open>Messages\<close>

type_synonym ParticipantId = nat

definition kCoordinator :: ParticipantId where
  "kCoordinator = 0"

datatype Vote = Yes | No

datatype Decision = Commit | Abort

datatype Message =
    Prepare
  | VoteMsg ParticipantId Vote
  | DecisionMsg Decision
  | Ack ParticipantId

section \<open>Text form\<close>

definition serialize :: "Message \<Rightarrow> string" where
  "serialize msg =
     (case msg of
        Prepare \<Rightarrow> ''PREPARE''
      | VoteMsg from vote \<Rightarrow> ''VOTE '' @ nat_to_string from @ '' '' @ (if vote = Yes then ''YES'' else ''NO'')
      | DecisionMsg decision \<Rightarrow> ''DECISION '' @ (if decision = Commit then ''COMMIT'' else ''ABORT'')
      | Ack from \<Rightarrow> ''ACK '' @ nat_to_string from)"

text \<open>A word that cannot be read leaves the empty string.\<close>

definition word_or_empty :: "string \<Rightarrow> string \<times> string" where
  "word_or_empty s = (case read_word s of None \<Rightarrow> ([], []) | Some p \<Rightarrow> p)"

definition deserialize_vote :: "string \<Rightarrow> string \<Rightarrow> Message result" where
  "deserialize_vote data iss =
     (case read_size iss of
        None \<Rightarrow> Inl (std_exception (''malformed VOTE message: '' @ data))
      | Some (from, iss') \<Rightarrow>
          (case read_word iss' of
             None \<Rightarrow> Inl (std_exception (''malformed VOTE message: '' @ data))
           | Some (vote_str, _) \<Rightarrow>
               if vote_str = ''YES'' then Inr (VoteMsg from Yes)
               else if vote_str = ''NO'' then Inr (VoteMsg from No)
               else Inl (std_exception (''unknown vote value: '' @ vote_str))))"

definition deserialize :: "string \<Rightarrow> Message result" where
  "deserialize data =
     (case word_or_empty data of (tag, iss) \<Rightarrow>
        if tag = ''PREPARE'' then Inr Prepare
        else if tag = ''VOTE'' then deserialize_vote data iss
        else if tag = ''DECISION''
        then (case word_or_empty iss of (dec_str, _) \<Rightarrow>
                if dec_str = ''COMMIT'' then Inr (DecisionMsg Commit)
                else if dec_str = ''ABORT'' then Inr (DecisionMsg Abort)
                else Inl (std_exception (''unknown decision value: '' @ dec_str)))
        else if tag = ''ACK''
        then (case read_size iss of
                None \<Rightarrow> Inl (std_exception (''malformed ACK message: '' @ data))
              | Some (from, _) \<Rightarrow> Inr (Ack from))
        else Inl (std_exception (''unknown message tag: '' @ tag)))"

section \<open>Environments\<close>

text \<open>
  What may be thrown through protocol code: the control flow of the simulation, its failures, other
  standard exceptions with their text, and payloads that are not standard exceptions.
\<close>

datatype SimException =
    ScenarioThreadTerminated
  | StepBoundaryReached
  | SimulationFailure string
  | StdException string
  | NonStandardException

type_synonym ('s, 'a) sim = "'s \<Rightarrow> (SimException + 'a) \<times> 's"

definition return_sim :: "'a \<Rightarrow> ('s, 'a) sim" where
  "return_sim a s = (Inr a, s)"

definition throw_sim :: "SimException \<Rightarrow> ('s, 'a) sim" where
  "throw_sim e s = (Inl e, s)"

definition bind_sim :: "('s, 'a) sim \<Rightarrow> ('a \<Rightarrow> ('s, 'b) sim) \<Rightarrow> ('s, 'b) sim" where
  "bind_sim m f s = (case m s of (Inl e, s') \<Rightarrow> (Inl e, s') | (Inr a, s') \<Rightarrow> f a s')"

definition then_sim :: "('s, unit) sim \<Rightarrow> ('s, 'b) sim \<Rightarrow> ('s, 'b) sim" where
  "then_sim m k = bind_sim m (\<lambda>_. k)"

primrec for_sim :: "('x \<Rightarrow> ('s, unit) sim) \<Rightarrow> 'x list \<Rightarrow> ('s, unit) sim" where
  "for_sim f [] = return_sim ()"
| "for_sim f (x # xs) = then_sim (f x) (for_sim f xs)"

text \<open>Reading and updating the object, and calling the environment.\<close>

definition get_obj :: "('p \<times> 'e, 'p) sim" where
  "get_obj s = (Inr (fst s), s)"

definition on_obj :: "('p \<Rightarrow> 'p) \<Rightarrow> ('p \<times> 'e, unit) sim" where
  "on_obj f s = (Inr (), (f (fst s), snd s))"

definition on_env :: "('e, 'a) sim \<Rightarrow> ('p \<times> 'e, 'a) sim" where
  "on_env m s = (case m (snd s) of (r, e) \<Rightarrow> (r, (fst s, e)))"

type_synonym TimerId = nat

datatype TimerCallback = OnVoteTimeout | OnAckTimeout | OnDecisionTimeout

record 'e Environment =
  env_send :: "ParticipantId \<Rightarrow> Message \<Rightarrow> ('e, unit) sim"
  env_get_vote :: "('e, Vote) sim"
  env_set_timer :: "TimerId \<Rightarrow> nat \<Rightarrow> TimerCallback \<Rightarrow> ('e, unit) sim"
  env_cancel_timer :: "TimerId \<Rightarrow> ('e, unit) sim"

section \<open>The coordinator\<close>

datatype Phase = CollectingVotes | CollectingAcks | CoordinatorDone

record Coordinator =
  num_participants :: nat
  bug_on_p1_no :: bool
  vote_timeout_ms :: nat
  ack_timeout_ms :: nat
  coord_decision :: "Decision option"
  phase :: Phase
  all_yes :: bool
  votes_received :: nat
  acks_received :: nat
  vote_seen :: "bool list"
  ack_seen :: "bool list"

definition make_coordinator :: "nat \<Rightarrow> bool \<Rightarrow> Coordinator" where
  "make_coordinator n bug = \<lparr>num_participants = n, bug_on_p1_no = bug, vote_timeout_ms = 100, ack_timeout_ms = 1000,
     coord_decision = None, phase = CollectingVotes, all_yes = True, votes_received = 0, acks_received = 0,
     vote_seen = [], ack_seen = []\<rparr>"

definition kVoteTimeoutTimerId :: TimerId where
  "kVoteTimeoutTimerId = 1"

definition kAckTimeoutTimerId :: TimerId where
  "kAckTimeoutTimerId = 2"

definition is_valid_participant :: "Coordinator \<Rightarrow> ParticipantId \<Rightarrow> bool" where
  "is_valid_participant c i \<longleftrightarrow> i \<ge> 1 \<and> i \<le> num_participants c"

definition broadcast_decision :: "'e Environment \<Rightarrow> (Coordinator \<times> 'e, unit) sim" where
  "broadcast_decision env = bind_sim get_obj (\<lambda>c.
     then_sim (for_sim (\<lambda>pid. on_env (env_send env pid (DecisionMsg (the (coord_decision c))))) [1..<num_participants c + 1])
    (then_sim (on_env (env_set_timer env kAckTimeoutTimerId (ack_timeout_ms c) OnAckTimeout))
       (on_obj (\<lambda>c. c\<lparr>phase := CollectingAcks\<rparr>))))"

definition coordinator_start :: "'e Environment \<Rightarrow> (Coordinator \<times> 'e, bool) sim" where
  "coordinator_start env =
     then_sim (on_obj (\<lambda>c. c\<lparr>phase := CollectingVotes, all_yes := True, votes_received := 0, acks_received := 0,
        coord_decision := None, vote_seen := replicate (num_participants c + 1) False,
        ack_seen := replicate (num_participants c + 1) False\<rparr>))
    (bind_sim get_obj (\<lambda>c.
     then_sim (for_sim (\<lambda>pid. on_env (env_send env pid Prepare)) [1..<num_participants c + 1])
    (then_sim (on_env (env_set_timer env kVoteTimeoutTimerId (vote_timeout_ms c) OnVoteTimeout))
       (return_sim True))))"

definition count_vote :: "ParticipantId \<Rightarrow> Vote \<Rightarrow> Coordinator \<Rightarrow> Coordinator" where
  "count_vote from vote c =
     c\<lparr>vote_seen := (vote_seen c)[from := True], votes_received := votes_received c + 1,
       all_yes := (if vote = No then False else all_yes c)\<rparr>"

definition receive_vote :: "'e Environment \<Rightarrow> ParticipantId \<Rightarrow> Vote \<Rightarrow> (Coordinator \<times> 'e, bool) sim" where
  "receive_vote env from vote =
     then_sim (on_obj (count_vote from vote)) (bind_sim get_obj (\<lambda>c.
       if vote = No \<and> bug_on_p1_no c \<and> from = 1
       then throw_sim (StdException ''BUG: coordinator cannot handle No vote from participant 1'')
       else if votes_received c < num_participants c then return_sim True
       else then_sim (on_env (env_cancel_timer env kVoteTimeoutTimerId))
           (then_sim (on_obj (\<lambda>c. c\<lparr>coord_decision := Some (if all_yes c then Commit else Abort)\<rparr>))
           (then_sim (broadcast_decision env) (return_sim True)))))"

definition receive_ack :: "'e Environment \<Rightarrow> ParticipantId \<Rightarrow> (Coordinator \<times> 'e, bool) sim" where
  "receive_ack env from =
     then_sim (on_obj (\<lambda>c. c\<lparr>ack_seen := (ack_seen c)[from := True], acks_received := acks_received c + 1\<rparr>))
    (bind_sim get_obj (\<lambda>c.
       if acks_received c < num_participants c then return_sim True
       else then_sim (on_env (env_cancel_timer env kAckTimeoutTimerId))
           (then_sim (on_obj (\<lambda>c. c\<lparr>phase := CoordinatorDone\<rparr>)) (return_sim False))))"

definition coordinator_receive :: "'e Environment \<Rightarrow> Message \<Rightarrow> (Coordinator \<times> 'e, bool) sim" where
  "coordinator_receive env msg = bind_sim get_obj (\<lambda>c.
     case phase c of
       CollectingVotes \<Rightarrow>
         (case msg of
            VoteMsg from vote \<Rightarrow>
              if \<not> is_valid_participant c from \<or> vote_seen c ! from then return_sim True else receive_vote env from vote
          | _ \<Rightarrow> return_sim True)
     | CollectingAcks \<Rightarrow>
         (case msg of
            Ack from \<Rightarrow>
              if \<not> is_valid_participant c from \<or> ack_seen c ! from then return_sim True else receive_ack env from
          | _ \<Rightarrow> return_sim True)
     | CoordinatorDone \<Rightarrow> return_sim False)"

definition on_vote_timeout :: "'e Environment \<Rightarrow> (Coordinator \<times> 'e, bool) sim" where
  "on_vote_timeout env = bind_sim get_obj (\<lambda>c.
     if phase c \<noteq> CollectingVotes then return_sim True
     else then_sim (on_obj (\<lambda>c. c\<lparr>all_yes := False, coord_decision := Some Abort\<rparr>))
         (then_sim (broadcast_decision env) (return_sim True)))"

definition on_ack_timeout :: "(Coordinator \<times> 'e, bool) sim" where
  "on_ack_timeout = bind_sim get_obj (\<lambda>c.
     if phase c \<noteq> CollectingAcks then return_sim True
     else then_sim (on_obj (\<lambda>c. c\<lparr>phase := CoordinatorDone\<rparr>)) (return_sim False))"

section \<open>Participants\<close>

datatype ParticipantState = WaitPrepare | WaitDecision | ParticipantDone

record Participant =
  participant_id :: ParticipantId
  decision_timeout_ms :: nat
  participant_state :: ParticipantState
  outcome :: "Decision option"

definition make_participant :: "ParticipantId \<Rightarrow> Participant" where
  "make_participant pid =
     \<lparr>participant_id = pid, decision_timeout_ms = 1000, participant_state = WaitPrepare, outcome = None\<rparr>"

definition kDecisionTimeoutTimerId :: TimerId where
  "kDecisionTimeoutTimerId = 1"

definition participant_start :: "(Participant \<times> 'e, bool) sim" where
  "participant_start = then_sim (on_obj (\<lambda>p. p\<lparr>participant_state := WaitPrepare, outcome := None\<rparr>)) (return_sim True)"

definition participant_receive :: "'e Environment \<Rightarrow> Message \<Rightarrow> (Participant \<times> 'e, bool) sim" where
  "participant_receive env msg = bind_sim get_obj (\<lambda>p.
     case participant_state p of
       WaitPrepare \<Rightarrow>
         if msg \<noteq> Prepare then return_sim True
         else bind_sim (on_env (env_get_vote env)) (\<lambda>vote.
             then_sim (on_env (env_send env kCoordinator (VoteMsg (participant_id p) vote)))
            (then_sim (on_env (env_set_timer env kDecisionTimeoutTimerId (decision_timeout_ms p) OnDecisionTimeout))
            (then_sim (on_obj (\<lambda>p. p\<lparr>participant_state := WaitDecision\<rparr>)) (return_sim True))))
     | WaitDecision \<Rightarrow>
         (case msg of
            DecisionMsg decision \<Rightarrow>
              then_sim (on_env (env_cancel_timer env kDecisionTimeoutTimerId))
             (then_sim (on_obj (\<lambda>p. p\<lparr>outcome := Some decision\<rparr>))
             (then_sim (on_env (env_send env kCoordinator (Ack (participant_id p))))
             (then_sim (on_obj (\<lambda>p. p\<lparr>participant_state := ParticipantDone\<rparr>)) (return_sim False))))
          | _ \<Rightarrow> return_sim True)
     | ParticipantDone \<Rightarrow> return_sim False)"

definition on_decision_timeout :: "(Participant \<times> 'e, bool) sim" where
  "on_decision_timeout = bind_sim get_obj (\<lambda>p.
     if participant_state p \<noteq> WaitDecision then return_sim True
     else then_sim (on_obj (\<lambda>p. p\<lparr>outcome := Some Abort, participant_state := ParticipantDone\<rparr>)) (return_sim False))"

section \<open>Protocol objects\<close>

text \<open>The methods of a protocol object that a driver calls; the callback of a timer is one of them.\<close>

record ('p, 'e) Protocol =
  proto_start :: "('p \<times> 'e, bool) sim"
  proto_receive :: "Message \<Rightarrow> ('p \<times> 'e, bool) sim"
  proto_callback :: "TimerCallback \<Rightarrow> ('p \<times> 'e, bool) sim"

definition coordinator_protocol :: "'e Environment \<Rightarrow> (Coordinator, 'e) Protocol" where
  "coordinator_protocol env =
     \<lparr>proto_start = coordinator_start env, proto_receive = coordinator_receive env,
      proto_callback = (\<lambda>callback.
        case callback of OnVoteTimeout \<Rightarrow> on_vote_timeout env | OnAckTimeout \<Rightarrow> on_ack_timeout | OnDecisionTimeout \<Rightarrow> return_sim True)\<rparr>"

definition participant_protocol :: "'e Environment \<Rightarrow> (Participant, 'e) Protocol" where
  "participant_protocol env =
     \<lparr>proto_start = participant_start, proto_receive = participant_receive env,
      proto_callback = (\<lambda>callback. case callback of OnDecisionTimeout \<Rightarrow> on_decision_timeout | _ \<Rightarrow> return_sim True)\<rparr>"

section \<open>Round trip of the text form\<close>

definition message_id :: "Message \<Rightarrow> nat" where
  "message_id msg = (case msg of VoteMsg from _ \<Rightarrow> from | Ack from \<Rightarrow> from | _ \<Rightarrow> 0)"

lemma word_or_empty_first:
  assumes "w \<noteq> []" "\<forall>c\<in>set w. \<not> isspace c"
  shows "word_or_empty (w @ CHR '' '' # rest) = (w, CHR '' '' # rest)" "word_or_empty w = (w, [])"
    "word_or_empty (CHR '' '' # w) = (w, [])"
  using read_word_first [OF assms, of "CHR '' '' # rest"] read_word_first [OF assms, of "[]"]
  by (simp_all add: word_or_empty_def isspace_def)

text \<open>C39. The text form of a message reads back as the message, for participant ids of 64 bits.\<close>

theorem serialize_roundtrip:
  assumes "message_id msg < 2 ^ 64"
  shows "deserialize (serialize msg) = Inr msg"
proof (cases msg)
  case Prepare
  then show ?thesis using word_or_empty_first(2) [of "''PREPARE''"] by (simp add: serialize_def deserialize_def isspace_def)
next
  case (VoteMsg sender vote)
  have "read_size (CHR '' '' # nat_to_string sender @ CHR '' '' # w) = Some (sender, CHR '' '' # w)" for w
    using assms VoteMsg by (intro read_size_number) (simp_all add: message_id_def ends_number_def isdigit_def)
  moreover have "read_word (CHR '' '' # ''YES'') = Some (''YES'', [])" "read_word (CHR '' '' # ''NO'') = Some (''NO'', [])"
    by (simp_all add: read_word_def isspace_def)
  ultimately show ?thesis
    using VoteMsg word_or_empty_first(1) [of "''VOTE''"]
    by (cases vote) (simp_all add: serialize_def deserialize_def deserialize_vote_def isspace_def)
next
  case (DecisionMsg decision)
  then show ?thesis
    using word_or_empty_first(1) [of "''DECISION''"] word_or_empty_first(3) [of "''COMMIT''"] word_or_empty_first(3) [of "''ABORT''"]
    by (cases decision) (simp_all add: serialize_def deserialize_def isspace_def)
next
  case (Ack sender)
  have "read_size (CHR '' '' # nat_to_string sender) = Some (sender, [])"
    using read_size_number [of "[]" sender] assms Ack by (simp add: message_id_def ends_number_def)
  with Ack word_or_empty_first(1) [of "''ACK''"] show ?thesis by (simp add: serialize_def deserialize_def isspace_def)
qed

theorem serialize_roundtrip_witness: "deserialize (serialize (VoteMsg 12 No)) = Inr (VoteMsg 12 No)"
  by (rule serialize_roundtrip) (simp add: message_id_def)

end
