(* ===== verification/Tpc_Bridge.thy ===== *)
theory Tpc_Bridge
  imports Tpc_Protocol Program
begin

unbundle bit_operations_syntax

text \<open>
  The values the model checker sees of the two-phase commit example, \<^verbatim>\<open>sim/dpor_types.hpp\<close> and
  \<^verbatim>\<open>sim/bridge.hpp\<close>: a 64-bit word that holds a tag in its low byte and a participant id above it. The
  theorems show that messages and choices survive the encoding as long as the id fits into the upper
  56 bits, and where it stops being injective.
\<close>

section \<open>Values\<close>

datatype SimValue = SimValue (encoded: "64 word")

instantiation SimValue :: linorder
begin

definition less_eq_SimValue :: "SimValue \<Rightarrow> SimValue \<Rightarrow> bool" where
  "less_eq_SimValue a b \<longleftrightarrow> encoded a \<le> encoded b"

definition less_SimValue :: "SimValue \<Rightarrow> SimValue \<Rightarrow> bool" where
  "less_SimValue a b \<longleftrightarrow> encoded a < encoded b"

instance
  by standard (auto simp: less_eq_SimValue_def less_SimValue_def SimValue.expand)

end

datatype Tag =
    Invalid
  | PrepareMessage
  | VoteYesMessage
  | VoteNoMessage
  | DecisionCommitMessage
  | DecisionAbortMessage
  | AckMessage
  | VoteChoiceYes
  | VoteChoiceNo
  | CrashChoiceNoCrash
  | CrashChoiceCrash

primrec tag_code :: "Tag \<Rightarrow> 64 word" where
  "tag_code Invalid = 0"
| "tag_code PrepareMessage = 1"
| "tag_code VoteYesMessage = 2"
| "tag_code VoteNoMessage = 3"
| "tag_code DecisionCommitMessage = 4"
| "tag_code DecisionAbortMessage = 5"
| "tag_code AckMessage = 6"
| "tag_code VoteChoiceYes = 7"
| "tag_code VoteChoiceNo = 8"
| "tag_code CrashChoiceNoCrash = 9"
| "tag_code CrashChoiceCrash = 10"

definition all_tags :: "Tag list" where
  "all_tags = [Invalid, PrepareMessage, VoteYesMessage, VoteNoMessage, DecisionCommitMessage, DecisionAbortMessage, AckMessage,
     VoteChoiceYes, VoteChoiceNo, CrashChoiceNoCrash, CrashChoiceCrash]"

section \<open>Encoding\<close>

definition kTagMask :: "64 word" where
  "kTagMask = 0xff"

definition kPayloadShift :: nat where
  "kPayloadShift = 8"

definition make_value :: "Tag \<Rightarrow> 64 word \<Rightarrow> SimValue" where
  "make_value tag payload = SimValue (push_bit kPayloadShift payload OR tag_code tag)"

text \<open>A low byte that is no enumerator is \<open>None\<close>; every switch sends it to its default branch.\<close>

definition tag_of :: "SimValue \<Rightarrow> Tag option" where
  "tag_of v = List.find (\<lambda>tag. tag_code tag = encoded v AND kTagMask) all_tags"

definition payload_of :: "SimValue \<Rightarrow> ParticipantId" where
  "payload_of v = unat (drop_bit kPayloadShift (encoded v))"

definition prepare_message :: SimValue where
  "prepare_message = make_value PrepareMessage 0"

definition vote_message :: "ParticipantId \<Rightarrow> Vote \<Rightarrow> SimValue" where
  "vote_message sender vote = make_value (if vote = Yes then VoteYesMessage else VoteNoMessage) (of_nat sender)"

definition decision_message :: "Decision \<Rightarrow> SimValue" where
  "decision_message decision = make_value (if decision = Commit then DecisionCommitMessage else DecisionAbortMessage) 0"

definition ack_message :: "ParticipantId \<Rightarrow> SimValue" where
  "ack_message sender = make_value AckMessage (of_nat sender)"

definition encode_message :: "Message \<Rightarrow> SimValue" where
  "encode_message msg =
     (case msg of
        Prepare \<Rightarrow> prepare_message
      | VoteMsg sender vote \<Rightarrow> vote_message sender vote
      | DecisionMsg decision \<Rightarrow> decision_message decision
      | Ack sender \<Rightarrow> ack_message sender)"

definition decode_message :: "SimValue \<Rightarrow> SimException + Message" where
  "decode_message v =
     (case tag_of v of
        Some PrepareMessage \<Rightarrow> Inr Prepare
      | Some VoteYesMessage \<Rightarrow> Inr (VoteMsg (payload_of v) Yes)
      | Some VoteNoMessage \<Rightarrow> Inr (VoteMsg (payload_of v) No)
      | Some DecisionCommitMessage \<Rightarrow> Inr (DecisionMsg Commit)
      | Some DecisionAbortMessage \<Rightarrow> Inr (DecisionMsg Abort)
      | Some AckMessage \<Rightarrow> Inr (Ack (payload_of v))
      | _ \<Rightarrow> Inl (StdException ''observed value is not a message''))"

definition vote_choice :: "Vote \<Rightarrow> SimValue" where
  "vote_choice vote = make_value (if vote = Yes then VoteChoiceYes else VoteChoiceNo) 0"

definition decode_vote_choice :: "SimValue \<Rightarrow> SimException + Vote" where
  "decode_vote_choice v =
     (case tag_of v of
        Some VoteChoiceYes \<Rightarrow> Inr Yes
      | Some VoteChoiceNo \<Rightarrow> Inr No
      | _ \<Rightarrow> Inl (StdException ''observed value is not a vote choice''))"

definition crash_choice :: "bool \<Rightarrow> SimValue" where
  "crash_choice crash = make_value (if crash then CrashChoiceCrash else CrashChoiceNoCrash) 0"

definition decode_crash_choice :: "SimValue \<Rightarrow> SimException + bool" where
  "decode_crash_choice v =
     (case tag_of v of
        Some CrashChoiceNoCrash \<Rightarrow> Inr False
      | Some CrashChoiceCrash \<Rightarrow> Inr True
      | _ \<Rightarrow> Inl (StdException ''observed value is not a crash choice''))"

definition decode_decision_message :: "SimValue \<Rightarrow> Decision option" where
  "decode_decision_message v =
     (case tag_of v of
        Some DecisionCommitMessage \<Rightarrow> Some Commit
      | Some DecisionAbortMessage \<Rightarrow> Some Abort
      | _ \<Rightarrow> None)"

definition show_value :: "SimValue \<Rightarrow> string" where
  "show_value v =
     (case tag_of v of
        Some Invalid \<Rightarrow> ''<invalid>''
      | Some PrepareMessage \<Rightarrow> ''PREPARE''
      | Some VoteYesMessage \<Rightarrow> ''VOTE '' @ nat_to_string (payload_of v) @ '' YES''
      | Some VoteNoMessage \<Rightarrow> ''VOTE '' @ nat_to_string (payload_of v) @ '' NO''
      | Some DecisionCommitMessage \<Rightarrow> ''DECISION COMMIT''
      | Some DecisionAbortMessage \<Rightarrow> ''DECISION ABORT''
      | Some AckMessage \<Rightarrow> ''ACK '' @ nat_to_string (payload_of v)
      | Some VoteChoiceYes \<Rightarrow> ''YES''
      | Some VoteChoiceNo \<Rightarrow> ''NO''
      | Some CrashChoiceNoCrash \<Rightarrow> ''no_crash''
      | Some CrashChoiceCrash \<Rightarrow> ''crash''
      | None \<Rightarrow> ''<unknown>'')"

text \<open>
  The coordinator is thread 1, participant \<open>n\<close> is thread \<open>n + 1\<close>, narrowed to the 32 bits of a thread
  id: the id after the largest one is 0, and participant \<open>2 ^ 32\<close> would be the thread of the coordinator.
\<close>

definition participant_to_thread :: "ParticipantId \<Rightarrow> ThreadId" where
  "participant_to_thread pid = (pid + 1) mod 2 ^ 32"

lemma participant_to_thread_small [simp]:
  assumes "pid + 1 < 2 ^ 32"
  shows "participant_to_thread pid = pid + 1"
  using assms by (simp add: participant_to_thread_def)

section \<open>Round trips\<close>

lemma tag_code_byte: "take_bit 8 (tag_code tag) = tag_code tag" "drop_bit 8 (tag_code tag) = 0"
  by (cases tag; simp)+

lemma tag_mask: "kTagMask = mask 8"
  by (simp add: kTagMask_def mask_eq_exp_minus_1)

lemma find_tag: "List.find (\<lambda>tag'. tag_code tag' = tag_code tag) all_tags = Some tag"
  by (cases tag) (simp_all add: all_tags_def)

lemma tag_of_make [simp]: "tag_of (make_value tag payload) = Some tag"
proof -
  have "encoded (make_value tag payload) AND kTagMask = tag_code tag"
    by (simp add: make_value_def kPayloadShift_def tag_mask flip: take_bit_eq_mask)
      (simp add: take_bit_push_bit tag_code_byte)
  then show ?thesis by (simp add: tag_of_def find_tag)
qed

text \<open>The upper eight bits of the payload are shifted out.\<close>

lemma payload_of_make: "payload_of (make_value tag payload) = unat payload mod 2 ^ 56"
proof -
  have "drop_bit 8 (push_bit 8 payload) = take_bit 56 payload"
    by (rule bit_word_eqI) (auto simp: bit_simps)
  then have "drop_bit 8 (push_bit 8 payload OR tag_code tag) = take_bit 56 payload" by (simp add: tag_code_byte)
  then show ?thesis by (simp add: payload_of_def make_value_def kPayloadShift_def unsigned_take_bit_eq) (simp add: take_bit_eq_mod)
qed

lemma payload_of_nat:
  assumes "n < 2 ^ 56"
  shows "payload_of (make_value tag (of_nat n)) = n"
proof -
  have "unat (of_nat n :: 64 word) = n" using assms by (simp add: unat_of_nat)
  with assms show ?thesis by (simp add: payload_of_make)
qed

lemmas bridge_defs = encode_message_def decode_message_def prepare_message_def vote_message_def decision_message_def ack_message_def
  vote_choice_def decode_vote_choice_def crash_choice_def decode_crash_choice_def decode_decision_message_def

lemma decode_choices [simp]:
  "decode_vote_choice (vote_choice vote) = Inr vote" "decode_crash_choice (crash_choice crash) = Inr crash"
  by (cases vote; simp add: bridge_defs) (simp add: bridge_defs)

lemma decode_encode:
  assumes "message_id msg < 2 ^ 56"
  shows "decode_message (encode_message msg) = Inr msg"
proof (cases msg)
  case (VoteMsg sender vote)
  with assms show ?thesis by (cases vote) (simp_all add: bridge_defs payload_of_nat message_id_def)
next
  case (DecisionMsg decision)
  then show ?thesis by (cases decision) (simp_all add: bridge_defs)
qed (use assms in \<open>simp_all add: bridge_defs payload_of_nat message_id_def\<close>)

lemma decode_decision_encode:
  "decode_decision_message (encode_message msg) = (case msg of DecisionMsg decision \<Rightarrow> Some decision | _ \<Rightarrow> None)"
  by (cases msg) (auto simp: bridge_defs intro: Decision.exhaust)

text \<open>What is left of a message: the ids modulo \<open>2 ^ 56\<close>.\<close>

definition truncated :: "Message \<Rightarrow> Message" where
  "truncated msg =
     (case msg of
        VoteMsg sender vote \<Rightarrow> VoteMsg (sender mod 2 ^ 56) vote
      | Ack sender \<Rightarrow> Ack (sender mod 2 ^ 56)
      | _ \<Rightarrow> msg)"

lemma truncated_id: "message_id (truncated msg) < 2 ^ 56" "truncated msg = msg \<longleftrightarrow> message_id msg < 2 ^ 56"
  by (cases msg; auto simp: truncated_def message_id_def mod_eq_nat1E mod_less)+

lemma push_payload: "push_bit 8 (of_nat (n mod 2 ^ 56) :: 64 word) = push_bit 8 (of_nat n)"
proof -
  have "(of_nat (n mod 2 ^ 56) :: 64 word) = take_bit 56 (of_nat n)"
    by (metis take_bit_of_nat take_bit_nat_def)
  moreover have "push_bit 8 (take_bit 56 w) = push_bit 8 w" for w :: "64 word"
    by (rule bit_word_eqI) (auto simp: bit_simps)
  ultimately show ?thesis by simp
qed

lemma encode_truncated: "encode_message (truncated msg) = encode_message msg"
  by (cases msg) (simp_all add: truncated_def encode_message_def vote_message_def ack_message_def make_value_def kPayloadShift_def
      push_payload [simplified])

lemma decode_encode_truncated: "decode_message (encode_message msg) = Inr (truncated msg)"
  using decode_encode [OF truncated_id(1), of msg] by (simp add: encode_truncated)

text \<open>C38. What the encoding of messages into 64-bit values keeps: decoding gives back the message with its participant id modulo
  \<open>2 ^ 56\<close>. So votes and acknowledgements survive exactly when the id is below \<open>2 ^ 56\<close>, and
  two messages have the same encoding exactly when they differ in a multiple of \<open>2 ^ 56\<close> in the id at most.
  Decisions are told apart from all other messages at any id.\<close>

theorem encode_message_exact:
  "decode_message (encode_message msg) = Inr (truncated msg)
   \<and> (decode_message (encode_message msg) = Inr msg \<longleftrightarrow> message_id msg < 2 ^ 56)
   \<and> (encode_message msg = encode_message msg' \<longleftrightarrow> truncated msg = truncated msg')
   \<and> decode_decision_message (encode_message msg) = (case msg of DecisionMsg decision \<Rightarrow> Some decision | _ \<Rightarrow> None)"
proof (intro conjI)
  show "encode_message msg = encode_message msg' \<longleftrightarrow> truncated msg = truncated msg'"
    using decode_encode_truncated [of msg] decode_encode_truncated [of msg'] encode_truncated [of msg] encode_truncated [of msg']
    by (metis sum.inject(2))
qed (simp_all add: decode_encode_truncated truncated_id(2) decode_decision_encode)

end
