(* ===== verification/Tpc_Environments.thy ===== *)
theory Tpc_Environments
  imports Tpc_Protocol
begin

text \<open>
  What the protocol objects rely on and what they keep, in any environment. The first part is the
  well-formedness of the coordinator: its vectors have the size its indices need, its counters count the
  marked entries, and a commit means that every vote came in. The second part is the contract of the
  timers of \<^verbatim>\<open>examples/two_phase_commit_timeout/protocol.hpp\<close> as a locale: a waiting object always has exactly the timer armed
  that ends its wait.
\<close>

section \<open>Programs that keep a property of the state\<close>

definition sim_keeps :: "('s \<Rightarrow> bool) \<Rightarrow> ('s, 'a) sim \<Rightarrow> bool" where
  "sim_keeps Q m \<longleftrightarrow> (\<forall>s r s'. Q s \<longrightarrow> m s = (r, s') \<longrightarrow> Q s')"

lemma sim_keepsD: "sim_keeps Q m \<Longrightarrow> Q s \<Longrightarrow> m s = (r, s') \<Longrightarrow> Q s'"
  by (simp add: sim_keeps_def)

named_theorems sim_rules

lemma sim_keeps_return [sim_rules]: "sim_keeps Q (return_sim a)" "sim_keeps Q (throw_sim e)"
  by (simp_all add: sim_keeps_def return_sim_def throw_sim_def)

lemma sim_keeps_bind [sim_rules]:
  assumes "sim_keeps Q m" "\<And>a. sim_keeps Q (f a)"
  shows "sim_keeps Q (bind_sim m f)"
  unfolding sim_keeps_def
proof (intro allI impI)
  fix s r s' assume Q: "Q s" and b: "bind_sim m f s = (r, s')"
  obtain q t where m: "m s = (q, t)" by fastforce
  show "Q s'" using sim_keepsD [OF assms(1) Q m] b m sim_keepsD [OF assms(2)] by (cases q) (auto simp: bind_sim_def)
qed

lemma sim_keeps_then [sim_rules]: "sim_keeps Q m \<Longrightarrow> sim_keeps Q k \<Longrightarrow> sim_keeps Q (then_sim m k)"
  by (simp add: then_sim_def sim_keeps_bind)

lemma sim_keeps_for [sim_rules]: "(\<And>x. sim_keeps Q (f x)) \<Longrightarrow> sim_keeps Q (for_sim f xs)"
  by (induction xs) (simp_all add: sim_rules)

lemma sim_keeps_get [sim_rules]: "sim_keeps Q get_obj"
  by (simp add: sim_keeps_def get_obj_def)

lemma sim_keeps_obj: "sim_keeps (\<lambda>s. Q (snd s)) (on_obj f)"
  by (auto simp: sim_keeps_def on_obj_def)

lemma sim_keeps_env: "sim_keeps Q m \<Longrightarrow> sim_keeps (\<lambda>s. Q (snd s)) (on_env m)"
  by (auto simp: sim_keeps_def on_env_def split: prod.splits)

lemma sim_keeps_untouched: "sim_keeps (\<lambda>s. Q (fst s)) (on_env m)"
  by (auto simp: sim_keeps_def on_env_def split: prod.splits)

lemma sim_keeps_if: "sim_keeps Q m \<Longrightarrow> sim_keeps Q m' \<Longrightarrow> sim_keeps Q (if b then m else m')"
  by simp

text \<open>What every operation of an environment keeps, the methods of the protocol objects keep.\<close>

definition env_keeps :: "('e \<Rightarrow> bool) \<Rightarrow> 'e Environment \<Rightarrow> bool" where
  "env_keeps Q env \<longleftrightarrow> (\<forall>dest msg. sim_keeps Q (env_send env dest msg)) \<and> sim_keeps Q (env_get_vote env)
     \<and> (\<forall>i ms callback. sim_keeps Q (env_set_timer env i ms callback)) \<and> (\<forall>i. sim_keeps Q (env_cancel_timer env i))"

lemma env_keepsD:
  assumes "env_keeps Q env"
  shows "sim_keeps (\<lambda>s. Q (snd s)) (on_env (env_send env dest msg))" "sim_keeps (\<lambda>s. Q (snd s)) (on_env (env_get_vote env))"
    "sim_keeps (\<lambda>s. Q (snd s)) (on_env (env_set_timer env i ms callback))" "sim_keeps (\<lambda>s. Q (snd s)) (on_env (env_cancel_timer env i))"
  using assms by (auto simp: env_keeps_def intro: sim_keeps_env)

lemma broadcast_keeps: "env_keeps Q env \<Longrightarrow> sim_keeps (\<lambda>s. Q (snd s)) (broadcast_decision env)"
  unfolding broadcast_decision_def by (intro sim_rules env_keepsD sim_keeps_obj)

lemma receive_vote_keeps: "env_keeps Q env \<Longrightarrow> sim_keeps (\<lambda>s. Q (snd s)) (receive_vote env sender vote)"
  unfolding receive_vote_def by (intro sim_rules sim_keeps_if env_keepsD sim_keeps_obj broadcast_keeps)

lemma receive_ack_keeps: "env_keeps Q env \<Longrightarrow> sim_keeps (\<lambda>s. Q (snd s)) (receive_ack env sender)"
  unfolding receive_ack_def by (intro sim_rules sim_keeps_if env_keepsD sim_keeps_obj)

lemma coordinator_keeps:
  assumes "env_keeps Q env"
  shows "sim_keeps (\<lambda>s. Q (snd s)) (proto_start (coordinator_protocol env))"
    "sim_keeps (\<lambda>s. Q (snd s)) (proto_receive (coordinator_protocol env) msg)"
    "sim_keeps (\<lambda>s. Q (snd s)) (proto_callback (coordinator_protocol env) callback)"
proof -
  show "sim_keeps (\<lambda>s. Q (snd s)) (proto_start (coordinator_protocol env))"
    unfolding coordinator_protocol_def coordinator_start_def using assms by (simp, intro sim_rules env_keepsD sim_keeps_obj)
  have "sim_keeps (\<lambda>s. Q (snd s)) (coordinator_receive env msg)"
    unfolding coordinator_receive_def
    by (intro sim_rules, rename_tac c, case_tac "phase c"; cases msg)
      (auto intro!: sim_rules sim_keeps_if receive_vote_keeps receive_ack_keeps assms)
  then show "sim_keeps (\<lambda>s. Q (snd s)) (proto_receive (coordinator_protocol env) msg)" by (simp add: coordinator_protocol_def)
  have "sim_keeps (\<lambda>s. Q (snd s)) (on_vote_timeout env)" "sim_keeps (\<lambda>s. Q (snd s)) on_ack_timeout"
    unfolding on_vote_timeout_def on_ack_timeout_def by (intro sim_rules sim_keeps_if sim_keeps_obj broadcast_keeps assms)+
  then show "sim_keeps (\<lambda>s. Q (snd s)) (proto_callback (coordinator_protocol env) callback)"
    by (cases callback) (simp_all add: coordinator_protocol_def sim_rules)
qed

lemma participant_keeps:
  assumes "env_keeps Q env"
  shows "sim_keeps (\<lambda>s. Q (snd s)) (proto_start (participant_protocol env))"
    "sim_keeps (\<lambda>s. Q (snd s)) (proto_receive (participant_protocol env) msg)"
    "sim_keeps (\<lambda>s. Q (snd s)) (proto_callback (participant_protocol env) callback)"
proof -
  show "sim_keeps (\<lambda>s. Q (snd s)) (proto_start (participant_protocol env))"
    unfolding participant_protocol_def participant_start_def by (simp, intro sim_rules sim_keeps_obj)
  have "sim_keeps (\<lambda>s. Q (snd s)) (participant_receive env msg)"
    unfolding participant_receive_def
    by (intro sim_rules, rename_tac p, case_tac "participant_state p"; cases msg)
      (auto intro!: sim_rules sim_keeps_if env_keepsD sim_keeps_obj assms)
  then show "sim_keeps (\<lambda>s. Q (snd s)) (proto_receive (participant_protocol env) msg)" by (simp add: participant_protocol_def)
  have "sim_keeps (\<lambda>s. Q (snd s)) on_decision_timeout"
    unfolding on_decision_timeout_def by (intro sim_rules sim_keeps_if sim_keeps_obj)
  then show "sim_keeps (\<lambda>s. Q (snd s)) (proto_callback (participant_protocol env) callback)"
    by (cases callback) (simp_all add: participant_protocol_def sim_rules)
qed

section \<open>The coordinator is well-formed\<close>

definition marks :: "nat \<Rightarrow> bool list \<Rightarrow> nat set" where
  "marks n bs = {i. 1 \<le> i \<and> i \<le> n \<and> bs ! i}"

definition wf_coordinator :: "Coordinator \<Rightarrow> bool" where
  "wf_coordinator c \<longleftrightarrow>
     length (vote_seen c) = num_participants c + 1 \<and> length (ack_seen c) = num_participants c + 1
     \<and> votes_received c = card (marks (num_participants c) (vote_seen c))
     \<and> acks_received c = card (marks (num_participants c) (ack_seen c))
     \<and> (phase c \<noteq> CollectingVotes \<longrightarrow> coord_decision c \<noteq> None)
     \<and> (coord_decision c = Some Commit \<longrightarrow> all_yes c \<and> votes_received c = num_participants c)"

lemma finite_marks: "finite (marks n bs)"
  by (rule finite_subset [of _ "{1..n}"]) (auto simp: marks_def)

lemma card_marks_le: "card (marks n bs) \<le> n"
  using card_mono [of "{1..n}" "marks n bs"] by (force simp: marks_def)

lemma card_marks_full: "card (marks n bs) = n \<longleftrightarrow> (\<forall>i. 1 \<le> i \<and> i \<le> n \<longrightarrow> bs ! i)"
proof
  assume "card (marks n bs) = n"
  then have "marks n bs = {1..n}" by (intro card_subset_eq) (auto simp: marks_def)
  then have "i \<in> marks n bs" if "1 \<le> i" "i \<le> n" for i using that by simp
  then show "\<forall>i. 1 \<le> i \<and> i \<le> n \<longrightarrow> bs ! i" by (simp add: marks_def)
next
  assume "\<forall>i. 1 \<le> i \<and> i \<le> n \<longrightarrow> bs ! i"
  then have "marks n bs = {1..n}" by (auto simp: marks_def)
  then show "card (marks n bs) = n" by simp
qed

lemma card_marks_update:
  assumes "1 \<le> i" "i \<le> n" "length bs = n + 1" "\<not> bs ! i"
  shows "card (marks n (bs[i := True])) = card (marks n bs) + 1"
proof -
  have "marks n (bs[i := True]) = insert i (marks n bs)" using assms by (auto simp: marks_def nth_list_update)
  moreover have "i \<notin> marks n bs" using assms by (simp add: marks_def)
  ultimately show ?thesis by (simp add: finite_marks)
qed

lemma marks_fresh [simp]: "marks n (replicate (n + 1) False) = {}" "marks n (replicate (Suc n) False) = {}"
  by (auto simp: marks_def simp del: replicate_Suc)

lemma for_env_obj:
  assumes "for_sim (\<lambda>x. on_env (g x)) xs (c, e) = (r, s')"
  shows "fst s' = c"
  using sim_keepsD [OF sim_keeps_for [of "\<lambda>s. fst s = c" "\<lambda>x. on_env (g x)"], OF sim_keeps_untouched, of "(c, e)"] assms
  by simp

text \<open>Whatever the environment does, a broadcast changes the object in its phase only, at its end.\<close>

lemma broadcast_obj:
  assumes "broadcast_decision env (c, e) = (r, (c', e'))"
  shows "c' = c \<and> r \<noteq> Inr () \<or> c' = c\<lparr>phase := CollectingAcks\<rparr> \<and> r = Inr ()"
  using assms
  by (auto simp: broadcast_decision_def bind_sim_def then_sim_def get_obj_def on_env_def on_obj_def
      split: prod.splits sum.splits dest: for_env_obj)

lemma coordinator_start_obj:
  assumes "coordinator_start env (c, e) = (r, (c', e'))"
  shows "c' = c\<lparr>phase := CollectingVotes, all_yes := True, votes_received := 0, acks_received := 0,
        coord_decision := None, vote_seen := replicate (num_participants c + 1) False,
        ack_seen := replicate (num_participants c + 1) False\<rparr>"
  using assms
  by (auto simp: coordinator_start_def bind_sim_def then_sim_def get_obj_def on_env_def on_obj_def return_sim_def
      split: prod.splits sum.splits dest: for_env_obj)

definition set_decision :: "Coordinator \<Rightarrow> Coordinator" where
  "set_decision c = c\<lparr>coord_decision := Some (if all_yes c then Commit else Abort)\<rparr>"

definition mark_ack :: "ParticipantId \<Rightarrow> Coordinator \<Rightarrow> Coordinator" where
  "mark_ack sender c = c\<lparr>ack_seen := (ack_seen c)[sender := True], acks_received := acks_received c + 1\<rparr>"

lemmas flow_defs = bind_sim_def then_sim_def get_obj_def on_env_def on_obj_def return_sim_def throw_sim_def

lemma decide_and_broadcast_obj:
  assumes "then_sim (on_env m) (then_sim (on_obj (\<lambda>c. c\<lparr>coord_decision := Some (if all_yes c then Commit else Abort)\<rparr>))
      (then_sim (broadcast_decision env) (return_sim True))) (c, e) = (r, (c', e'))"
  shows "c' = c \<or> c' = set_decision c \<or> c' = (set_decision c)\<lparr>phase := CollectingAcks\<rparr>"
proof (cases "m e")
  case (Pair q e1)
  obtain q2 c2 e2 where b: "broadcast_decision env (set_decision c, e1) = (q2, (c2, e2))" by (metis surj_pair)
  then have "c2 = set_decision c \<or> c2 = (set_decision c)\<lparr>phase := CollectingAcks\<rparr>" using broadcast_obj [OF b] by blast
  moreover have "c' = c \<or> c' = c2" using assms Pair b
    by (cases q; cases q2) (auto simp: flow_defs set_decision_def)
  ultimately show ?thesis by blast
qed

lemma receive_vote_obj:
  assumes "receive_vote env sender vote (c, e) = (r, (c', e'))"
  shows "c' = count_vote sender vote c
    \<or> num_participants c \<le> votes_received c + 1
      \<and> (c' = set_decision (count_vote sender vote c) \<or> c' = (set_decision (count_vote sender vote c))\<lparr>phase := CollectingAcks\<rparr>)"
proof -
  let ?c = "count_vote sender vote c"
  have same: "num_participants ?c = num_participants c" "votes_received ?c = votes_received c + 1" by (simp_all add: count_vote_def)
  have "receive_vote env sender vote (c, e) =
      (if vote = No \<and> bug_on_p1_no ?c \<and> sender = 1
       then (Inl (StdException ''BUG: coordinator cannot handle No vote from participant 1''), (?c, e))
       else if votes_received ?c < num_participants ?c then (Inr True, (?c, e))
       else then_sim (on_env (env_cancel_timer env kVoteTimeoutTimerId))
         (then_sim (on_obj (\<lambda>c. c\<lparr>coord_decision := Some (if all_yes c then Commit else Abort)\<rparr>))
         (then_sim (broadcast_decision env) (return_sim True))) (?c, e))"
    unfolding receive_vote_def then_sim_def [of "on_obj (count_vote sender vote)"] by (auto simp: bind_sim_def on_obj_def get_obj_def return_sim_def throw_sim_def)
  with assms decide_and_broadcast_obj [of "env_cancel_timer env kVoteTimeoutTimerId" env ?c e r c' e'] show ?thesis
    by (auto simp: same split: if_splits)
qed

lemma receive_ack_obj:
  assumes "receive_ack env sender (c, e) = (r, (c', e'))"
  shows "c' = mark_ack sender c \<or> c' = (mark_ack sender c)\<lparr>phase := CoordinatorDone\<rparr>"
  using assms
  by (auto simp: receive_ack_def bind_sim_def then_sim_def get_obj_def on_env_def on_obj_def return_sim_def mark_ack_def
      split: prod.splits sum.splits if_splits)

lemma wf_count_vote:
  assumes "wf_coordinator c" "is_valid_participant c sender" "\<not> vote_seen c ! sender" "phase c = CollectingVotes"
  shows "wf_coordinator (count_vote sender vote c)" "votes_received (count_vote sender vote c) \<le> num_participants c"
    "phase (count_vote sender vote c) = CollectingVotes"
proof -
  let ?n = "num_participants c"
  have card: "card (marks ?n ((vote_seen c)[sender := True])) = card (marks ?n (vote_seen c)) + 1"
    using assms by (intro card_marks_update) (auto simp: wf_coordinator_def is_valid_participant_def)
  moreover have "coord_decision c \<noteq> Some Commit"
    using assms(1-3) card_marks_full [of ?n "vote_seen c"] by (auto simp: wf_coordinator_def is_valid_participant_def)
  ultimately show "wf_coordinator (count_vote sender vote c)"
    using assms by (simp add: wf_coordinator_def count_vote_def)
  show "votes_received (count_vote sender vote c) \<le> ?n"
    using assms(1) card card_marks_le [of ?n "(vote_seen c)[sender := True]"] by (simp add: wf_coordinator_def count_vote_def)
  show "phase (count_vote sender vote c) = CollectingVotes" using assms(4) by (simp add: count_vote_def)
qed

lemma wf_set_decision:
  assumes "wf_coordinator c" "num_participants c \<le> votes_received c" "votes_received c \<le> num_participants c"
  shows "wf_coordinator (set_decision c)" "wf_coordinator ((set_decision c)\<lparr>phase := CollectingAcks\<rparr>)"
  using assms by (auto simp: wf_coordinator_def set_decision_def)

lemma wf_mark_ack:
  assumes "wf_coordinator c" "is_valid_participant c sender" "\<not> ack_seen c ! sender" "phase c = CollectingAcks"
  shows "wf_coordinator (mark_ack sender c)" "wf_coordinator ((mark_ack sender c)\<lparr>phase := CoordinatorDone\<rparr>)"
  using assms card_marks_update [of sender "num_participants c" "ack_seen c"]
  by (auto simp: wf_coordinator_def mark_ack_def is_valid_participant_def)

lemma wf_coordinator_start: "coordinator_start env (c, e) = (r, (c', e')) \<Longrightarrow> wf_coordinator c'"
  by (drule coordinator_start_obj) (simp add: wf_coordinator_def del: replicate_Suc)

lemma wf_coordinator_receive:
  assumes wf: "wf_coordinator c" and r: "coordinator_receive env msg (c, e) = (r, (c', e'))"
  shows "wf_coordinator c'"
proof (cases "phase c")
  case CollectingVotes
  show ?thesis
  proof (cases "\<exists>sender vote. msg = VoteMsg sender vote \<and> is_valid_participant c sender \<and> \<not> vote_seen c ! sender")
    case True
    then obtain sender vote where m: "msg = VoteMsg sender vote" "is_valid_participant c sender" "\<not> vote_seen c ! sender" by blast
    then have "receive_vote env sender vote (c, e) = (r, (c', e'))"
      using r CollectingVotes by (simp add: coordinator_receive_def bind_sim_def get_obj_def)
    from receive_vote_obj [OF this] show ?thesis
      using wf_count_vote [OF wf m(2,3) CollectingVotes, of vote] wf_set_decision [of "count_vote sender vote c"]
      by (auto simp: count_vote_def)
  next
    case False
    then have "c' = c" using r CollectingVotes
      by (auto simp: coordinator_receive_def bind_sim_def get_obj_def return_sim_def split: Message.splits if_splits)
    then show ?thesis using wf by simp
  qed
next
  case CollectingAcks
  show ?thesis
  proof (cases "\<exists>sender. msg = Ack sender \<and> is_valid_participant c sender \<and> \<not> ack_seen c ! sender")
    case True
    then obtain sender where m: "msg = Ack sender" "is_valid_participant c sender" "\<not> ack_seen c ! sender" by blast
    then have "receive_ack env sender (c, e) = (r, (c', e'))"
      using r CollectingAcks by (simp add: coordinator_receive_def bind_sim_def get_obj_def)
    from receive_ack_obj [OF this] show ?thesis using wf_mark_ack [OF wf m(2,3) CollectingAcks] by auto
  next
    case False
    then have "c' = c" using r CollectingAcks
      by (auto simp: coordinator_receive_def bind_sim_def get_obj_def return_sim_def split: Message.splits if_splits)
    then show ?thesis using wf by simp
  qed
next
  case CoordinatorDone
  then show ?thesis using wf r by (simp add: coordinator_receive_def bind_sim_def get_obj_def return_sim_def)
qed

lemma wf_vote_timeout:
  assumes "wf_coordinator c" "on_vote_timeout env (c, e) = (r, (c', e'))"
  shows "wf_coordinator c'"
  using assms
  by (auto simp: on_vote_timeout_def bind_sim_def then_sim_def get_obj_def on_obj_def return_sim_def wf_coordinator_def
      split: prod.splits sum.splits if_splits dest!: broadcast_obj)

lemma wf_ack_timeout:
  assumes "wf_coordinator c" "on_ack_timeout (c, e) = (r, (c', e'))"
  shows "wf_coordinator c'"
  using assms
  by (auto simp: on_ack_timeout_def bind_sim_def then_sim_def get_obj_def on_obj_def return_sim_def wf_coordinator_def split: if_splits)

lemma wf_coordinator_callback:
  assumes "wf_coordinator c" "proto_callback (coordinator_protocol env) callback (c, e) = (r, (c', e'))"
  shows "wf_coordinator c'"
  using assms wf_vote_timeout [of c env e r c' e'] wf_ack_timeout [of c e r c' e']
  by (cases callback) (auto simp: coordinator_protocol_def return_sim_def)

text \<open>C36. In any environment, whatever its operations do or throw: starting the coordinator makes it well-formed,
  and every message and every timeout keeps it so. So the vector accesses are in range, the counters count the
  distinct voters and acknowledgers, the decision that is broadcast exists, and it is a commit only after a
  vote of every participant.\<close>

theorem coordinator_wf:
  "wf_coordinator (fst (snd (coordinator_start env (c, e))))
   \<and> (wf_coordinator c \<longrightarrow>
        wf_coordinator (fst (snd (coordinator_receive env msg (c, e))))
        \<and> wf_coordinator (fst (snd (on_vote_timeout env (c, e))))
        \<and> wf_coordinator (fst (snd (on_ack_timeout (c, e)))))"
  using wf_coordinator_start [of env c e] wf_coordinator_receive [of c env msg e] wf_vote_timeout [of c env e] wf_ack_timeout [of c e]
  by (metis fst_conv snd_conv surj_pair)

theorem coordinator_wf_witness:
  "let env = \<lparr>env_send = (\<lambda>_ _. return_sim ()), env_get_vote = return_sim Yes, env_set_timer = (\<lambda>_ _ _. return_sim ()),
         env_cancel_timer = (\<lambda>_. return_sim ())\<rparr> :: unit Environment;
       s = snd (coordinator_start env (make_coordinator 2 False, ())) in
     wf_coordinator (fst s) \<and> wf_coordinator (fst (snd (coordinator_receive env (VoteMsg 2 Yes) (fst s, ()))))"
  using coordinator_wf [of _ "make_coordinator 2 False" "()"] coordinator_wf [of _ _ "()" "VoteMsg 2 Yes"]
  by (simp add: Let_def)

section \<open>Phases only move forward\<close>

definition phase_rank :: "Coordinator \<Rightarrow> nat" where
  "phase_rank c = (case phase c of CollectingVotes \<Rightarrow> 2 | CollectingAcks \<Rightarrow> 1 | CoordinatorDone \<Rightarrow> 0)"

lemma phase_rank_eq: "phase_rank c' = phase_rank c \<longleftrightarrow> phase c' = phase c"
  by (simp add: phase_rank_def split: Phase.splits)

lemma receive_rank:
  assumes "coordinator_receive env msg (c, e) = (r, (c', e'))"
  shows "phase_rank c' \<le> phase_rank c"
proof -
  have "c' = c \<or> phase c = CollectingVotes \<or> phase c = CollectingAcks \<and> (\<exists>sender. c' = mark_ack sender c \<or> c' = (mark_ack sender c)\<lparr>phase := CoordinatorDone\<rparr>)"
    using assms by (auto simp: coordinator_receive_def bind_sim_def get_obj_def return_sim_def split: Phase.splits Message.splits if_splits dest: receive_ack_obj)
  then show ?thesis by (auto simp: phase_rank_def mark_ack_def split: Phase.splits)
qed

lemma callback_rank:
  assumes "proto_callback (coordinator_protocol env) callback (c, e) = (r, (c', e'))"
  shows "phase_rank c' \<le> phase_rank c"
proof -
  have "c' = c \<or> phase c = CollectingVotes \<or> c' = c\<lparr>phase := CoordinatorDone\<rparr>"
    using assms by (cases callback) (auto simp: coordinator_protocol_def on_vote_timeout_def on_ack_timeout_def flow_defs split: if_splits)
  then show ?thesis by (auto simp: phase_rank_def split: Phase.splits)
qed

section \<open>The timers of a waiting object\<close>

definition coordinator_timers :: "Coordinator \<Rightarrow> TimerId \<rightharpoonup> TimerCallback" where
  "coordinator_timers c =
     (case phase c of
        CollectingVotes \<Rightarrow> [kVoteTimeoutTimerId \<mapsto> OnVoteTimeout]
      | CollectingAcks \<Rightarrow> [kAckTimeoutTimerId \<mapsto> OnAckTimeout]
      | CoordinatorDone \<Rightarrow> Map.empty)"

definition participant_timers :: "Participant \<Rightarrow> TimerId \<rightharpoonup> TimerCallback" where
  "participant_timers p =
     (case participant_state p of
        WaitDecision \<Rightarrow> [kDecisionTimeoutTimerId \<mapsto> OnDecisionTimeout]
      | _ \<Rightarrow> Map.empty)"

text \<open>
  The contract of an environment: setting a timer replaces the one with its id, cancelling removes it, and
  nothing else touches the timers that are armed. An operation that throws leaves the armed timers alone.
\<close>

locale environment =
  fixes env :: "'e Environment" and armed :: "'e \<Rightarrow> TimerId \<rightharpoonup> TimerCallback" and ok :: "'e \<Rightarrow> bool"
  assumes send_law: "ok e \<Longrightarrow> env_send env dest msg e = (r, e') \<Longrightarrow> ok e' \<and> armed e' = armed e"
    and vote_law: "ok e \<Longrightarrow> env_get_vote env e = (v, e') \<Longrightarrow> ok e' \<and> armed e' = armed e"
    and set_law: "ok e \<Longrightarrow> env_set_timer env i ms callback e = (r, e')
      \<Longrightarrow> ok e' \<and> armed e' = (if r = Inr () then (armed e)(i \<mapsto> callback) else armed e)"
    and cancel_law: "ok e \<Longrightarrow> env_cancel_timer env i e = (r, e')
      \<Longrightarrow> ok e' \<and> armed e' = (if r = Inr () then (armed e)(i := None) else armed e)"
begin

lemma env_keeps_ok: "env_keeps ok env"
  by (auto simp: env_keeps_def sim_keeps_def dest: send_law vote_law set_law cancel_law)

lemma sends_keep:
  assumes "ok e" "for_sim (\<lambda>pid. on_env (env_send env pid msg)) pids (p, e) = (r, s')"
  shows "ok (snd s') \<and> armed (snd s') = armed e"
proof -
  have "sim_keeps (\<lambda>e'. ok e' \<and> armed e' = armed e) (env_send env pid msg)" for pid
    unfolding sim_keeps_def using send_law by metis
  from sim_keepsD [OF sim_keeps_for [OF sim_keeps_env [OF this]] _ assms(2)] assms(1) show ?thesis by simp
qed

lemma broadcast_timers:
  assumes "ok e" "broadcast_decision env (c, e) = (r, (c', e'))"
  shows "ok e' \<and> (r = Inr () \<longrightarrow> armed e' = (armed e)(kAckTimeoutTimerId \<mapsto> OnAckTimeout) \<and> phase c' = CollectingAcks)"
proof -
  let ?send = "for_sim (\<lambda>pid. on_env (env_send env pid (DecisionMsg (the (coord_decision c))))) [1..<num_participants c + 1] (c, e)"
  obtain q c1 e1 where s: "?send = (q, (c1, e1))" by (metis surj_pair)
  have e1: "ok e1" "armed e1 = armed e" "c1 = c" using sends_keep [OF assms(1) s] for_env_obj [OF s] by auto
  obtain q2 e2 where t: "env_set_timer env kAckTimeoutTimerId (ack_timeout_ms c) OnAckTimeout e1 = (q2, e2)" by fastforce
  show ?thesis using assms(2) s t e1 set_law [OF e1(1) t]
    by (cases q; cases q2) (auto simp: broadcast_decision_def flow_defs simp del: upt_Suc)
qed

lemma coordinator_starts_waiting:
  assumes "ok e" "armed e = Map.empty" "coordinator_start env (c, e) = (r, (c', e'))"
  shows "ok e' \<and> (\<forall>b. r = Inr b \<longrightarrow> b \<and> phase c' = CollectingVotes \<and> armed e' = coordinator_timers c')"
proof -
  let ?c = "c\<lparr>phase := CollectingVotes, all_yes := True, votes_received := 0, acks_received := 0,
        coord_decision := None, vote_seen := replicate (num_participants c + 1) False,
        ack_seen := replicate (num_participants c + 1) False\<rparr>"
  let ?send = "for_sim (\<lambda>pid. on_env (env_send env pid Prepare)) [1..<num_participants c + 1] (?c, e)"
  obtain q c1 e1 where s: "?send = (q, (c1, e1))" by (metis surj_pair)
  have e1: "ok e1" "armed e1 = armed e" "c1 = ?c" using sends_keep [OF assms(1) s] for_env_obj [OF s] by auto
  obtain q2 e2 where t: "env_set_timer env kVoteTimeoutTimerId (vote_timeout_ms c) OnVoteTimeout e1 = (q2, e2)" by fastforce
  show ?thesis using assms(2,3) s t e1 set_law [OF e1(1) t]
    by (cases q; cases q2) (auto simp: coordinator_start_def flow_defs coordinator_timers_def simp del: upt_Suc replicate_Suc)
qed

lemma vote_waiting:
  assumes "ok e" "armed e = coordinator_timers c" "phase c = CollectingVotes" "receive_vote env sender vote (c, e) = (r, (c', e'))"
  shows "ok e' \<and> (\<forall>b. r = Inr b \<longrightarrow> b \<and> armed e' = coordinator_timers c' \<and> phase c' \<noteq> CoordinatorDone \<and> (phase c' = phase c \<longrightarrow> e' = e))"
proof -
  let ?c = "count_vote sender vote c"
  obtain q e1 where x: "env_cancel_timer env kVoteTimeoutTimerId e = (q, e1)" by fastforce
  obtain q2 c2 e2 where b: "broadcast_decision env (set_decision ?c, e1) = (q2, (c2, e2))" by (metis surj_pair)
  have e1: "ok e1" "q = Inr () \<Longrightarrow> armed e1 = Map.empty" using cancel_law [OF assms(1) x] assms(2,3) by (auto simp: coordinator_timers_def)
  note e2 = broadcast_timers [OF e1(1) b]
  have "phase ?c = CollectingVotes" using assms(3) by (simp add: count_vote_def)
  then show ?thesis using assms x b e1 e2
    by (cases q; cases q2) (auto simp: receive_vote_def flow_defs coordinator_timers_def set_decision_def split: if_splits)
qed

lemma ack_waiting:
  assumes "ok e" "armed e = coordinator_timers c" "phase c = CollectingAcks" "receive_ack env sender (c, e) = (r, (c', e'))"
  shows "ok e' \<and> (\<forall>b. r = Inr b \<longrightarrow> b = (phase c' \<noteq> CoordinatorDone) \<and> armed e' = coordinator_timers c' \<and> (phase c' = phase c \<longrightarrow> e' = e))"
proof -
  obtain q e1 where x: "env_cancel_timer env kAckTimeoutTimerId e = (q, e1)" by fastforce
  show ?thesis using assms x cancel_law [OF assms(1) x]
    by (cases q) (auto simp: receive_ack_def flow_defs coordinator_timers_def split: if_splits)
qed

text \<open>A message either leaves the environment alone or moves the coordinator to its next phase.\<close>

lemma coordinator_keeps_waiting:
  assumes "ok e" "armed e = coordinator_timers c" "coordinator_receive env msg (c, e) = (r, (c', e'))"
  shows "ok e' \<and> (\<forall>b. r = Inr b \<longrightarrow> b = (phase c' \<noteq> CoordinatorDone) \<and> armed e' = coordinator_timers c' \<and> (phase c' = phase c \<longrightarrow> e' = e))"
  using assms vote_waiting [OF assms(1,2)] ack_waiting [OF assms(1,2)]
  by (auto simp: coordinator_receive_def bind_sim_def get_obj_def return_sim_def split: Phase.splits Message.splits if_splits) blast

lemma coordinator_timer_fires:
  assumes "ok e" "armed e = Map.empty" "coordinator_timers c i = Some callback"
    "proto_callback (coordinator_protocol env) callback (c, e) = (r, (c', e'))"
  shows "ok e' \<and> (\<forall>b. r = Inr b \<longrightarrow> b = (phase c' \<noteq> CoordinatorDone) \<and> armed e' = coordinator_timers c' \<and> phase c' \<noteq> phase c)"
proof -
  let ?c = "c\<lparr>all_yes := False, coord_decision := Some Abort\<rparr>"
  obtain q2 c2 e2 where b: "broadcast_decision env (?c, e) = (q2, (c2, e2))" by (metis surj_pair)
  note e2 = broadcast_timers [OF assms(1) b]
  show ?thesis using assms b e2
    by (cases q2) (auto simp: coordinator_protocol_def on_vote_timeout_def on_ack_timeout_def flow_defs coordinator_timers_def
        split: Phase.splits if_splits)
qed

lemma participant_votes:
  assumes "ok e" "armed e = Map.empty" "participant_state p = WaitPrepare" "participant_receive env Prepare (p, e) = (r, (p', e'))"
  shows "ok e' \<and> (\<forall>b. r = Inr b \<longrightarrow> b \<and> armed e' = participant_timers p' \<and> participant_state p' = WaitDecision)"
proof -
  obtain v e1 where v: "env_get_vote env e = (v, e1)" by fastforce
  have e1: "ok e1" "armed e1 = Map.empty" using vote_law [OF assms(1) v] assms(2) by auto
  obtain q e2 where s: "env_send env kCoordinator (VoteMsg (participant_id p) (projr v)) e1 = (q, e2)" by fastforce
  have e2: "ok e2" "armed e2 = Map.empty" using send_law [OF e1(1) s] e1 by auto
  obtain q3 e3 where t: "env_set_timer env kDecisionTimeoutTimerId (decision_timeout_ms p) OnDecisionTimeout e2 = (q3, e3)" by fastforce
  show ?thesis using assms v s t e1 e2 set_law [OF e2(1) t]
    by (cases v; cases q; cases q3) (auto simp: participant_receive_def flow_defs participant_timers_def)
qed

lemma participant_decides:
  assumes "ok e" "armed e = participant_timers p" "participant_state p = WaitDecision"
    "participant_receive env (DecisionMsg decision) (p, e) = (r, (p', e'))"
  shows "ok e' \<and> (\<forall>b. r = Inr b \<longrightarrow> \<not> b \<and> armed e' = participant_timers p' \<and> participant_state p' = ParticipantDone)"
proof -
  obtain q e1 where x: "env_cancel_timer env kDecisionTimeoutTimerId e = (q, e1)" by fastforce
  have e1: "ok e1" "q = Inr () \<Longrightarrow> armed e1 = Map.empty" using cancel_law [OF assms(1) x] assms(2,3) by (auto simp: participant_timers_def)
  obtain q2 e2 where s: "env_send env kCoordinator (Ack (participant_id p)) e1 = (q2, e2)" by fastforce
  show ?thesis using assms x s e1 send_law [OF e1(1) s]
    by (cases q; cases q2) (auto simp: participant_receive_def flow_defs participant_timers_def)
qed

lemma participant_keeps_waiting:
  assumes "ok e" "armed e = participant_timers p" "participant_receive env msg (p, e) = (r, (p', e'))"
  shows "ok e' \<and> (\<forall>b. r = Inr b \<longrightarrow> b = (participant_state p' \<noteq> ParticipantDone) \<and> armed e' = participant_timers p'
    \<and> (participant_state p' = participant_state p \<longrightarrow> e' = e))"
proof (cases "participant_state p = WaitPrepare \<and> msg = Prepare \<or> participant_state p = WaitDecision \<and> (\<exists>d. msg = DecisionMsg d)")
  case True
  then show ?thesis
  proof (elim disjE conjE exE)
    assume "participant_state p = WaitPrepare" "msg = Prepare"
    with participant_votes [OF assms(1), of p r p' e'] assms show ?thesis by (auto simp: participant_timers_def)
  next
    fix d assume "participant_state p = WaitDecision" "msg = DecisionMsg d"
    with participant_decides [OF assms(1,2), of d r p' e'] assms show ?thesis by auto
  qed
next
  case False
  then have "participant_receive env msg (p, e) = (Inr (participant_state p \<noteq> ParticipantDone), (p, e))"
    by (auto simp: participant_receive_def flow_defs split: ParticipantState.splits Message.splits)
  with assms show ?thesis by auto
qed

lemma participant_timer_fires:
  assumes "ok e" "armed e = Map.empty" "participant_timers p i = Some callback"
    "proto_callback (participant_protocol env) callback (p, e) = (r, (p', e'))"
  shows "e' = e \<and> r = Inr False \<and> participant_state p' = ParticipantDone \<and> outcome p' = Some Abort"
  using assms by (auto simp: participant_protocol_def on_decision_timeout_def flow_defs participant_timers_def
      split: ParticipantState.splits if_splits)

end

end
