(* ===== verification/Tpc_Sim.thy ===== *)
theory Tpc_Sim
  imports Tpc_Bridge Tpc_Environments
begin

text \<open>
  The simulation of \<^verbatim>\<open>sim/crash_before_decision.hpp\<close>: a thread function of the model checker replays the
  protocol from scratch against the observed trace and captures the input or output operation of the
  requested step as an event label. The replay state, the environment with its crash injection, the
  driver loop and the program builder are modelled. The driver loop runs on fuel; one unit per wait,
  and each wait is one counted operation, so one more than the requested step is enough.
\<close>

section \<open>Replay state\<close>

record ReplayState =
  id_map :: "ParticipantId \<Rightarrow> ThreadId"
  target_io :: nat
  replay_trace :: "SimValue ThreadTrace"
  trace_offset :: nat
  io_count :: nat
  trace_consume_count :: nat
  captured :: "SimValue EventLabel option"
  active_timer :: "(TimerId \<times> TimerCallback) option"

record SimEnvironment =
  replay :: ReplayState
  inject_crash :: bool
  crash_injected :: bool

definition make_environment :: "(ParticipantId \<Rightarrow> ThreadId) \<Rightarrow> nat \<Rightarrow> SimValue ThreadTrace \<Rightarrow> nat \<Rightarrow> bool \<Rightarrow> SimEnvironment" where
  "make_environment ids target tr offset crash =
     \<lparr>replay = \<lparr>id_map = ids, target_io = target, replay_trace = tr, trace_offset = offset, io_count = 0,
        trace_consume_count = 0, captured = None, active_timer = None\<rparr>,
      inject_crash = crash, crash_injected = False\<rparr>"

text \<open>\<open>io_count_++\<close>, and whether the operation lies before the requested step.\<close>

definition next_io :: "(ReplayState, bool) sim" where
  "next_io r = (Inr (io_count r < target_io r), r\<lparr>io_count := io_count r + 1\<rparr>)"

definition capture :: "SimValue EventLabel \<Rightarrow> (ReplayState, unit) sim" where
  "capture l r = (Inr (), r\<lparr>captured := Some l\<rparr>)"

definition consume_index :: "(ReplayState, nat) sim" where
  "consume_index r =
     (Inr (trace_offset r + trace_consume_count r), r\<lparr>trace_consume_count := trace_consume_count r + 1\<rparr>)"

definition trace_entry :: "nat \<Rightarrow> (ReplayState, SimValue ObservedValue) sim" where
  "trace_entry idx r =
     (if idx \<ge> length (replay_trace r) then throw_sim (SimulationFailure ''trace shorter than expected for simulated replay'') r
      else (Inr (replay_trace r ! idx), r))"

definition trace_value :: "nat \<Rightarrow> (ReplayState, SimValue) sim" where
  "trace_value idx = bind_sim (trace_entry idx) (\<lambda>observed.
     case observed of
       BottomValue \<Rightarrow> throw_sim (SimulationFailure ''trace requested a concrete value but observed bottom'')
     | Observed v \<Rightarrow> return_sim v)"

definition capture_send :: "ParticipantId \<Rightarrow> SimValue \<Rightarrow> (ReplayState, unit) sim" where
  "capture_send dest v = bind_sim next_io (\<lambda>past.
     if past then return_sim ()
     else then_sim (\<lambda>r. capture (Send \<lparr>destination = id_map r dest, send_value = v\<rparr>) r) (throw_sim StepBoundaryReached))"

definition replay_choice_or_capture :: "SimValue list \<Rightarrow> (ReplayState, SimValue) sim" where
  "replay_choice_or_capture cs = bind_sim next_io (\<lambda>past.
     if past then bind_sim consume_index trace_value
     else then_sim (capture (NondeterministicChoice \<lparr>nd_value = SimValue 0, choices = cs\<rparr>)) (throw_sim StepBoundaryReached))"

definition replay_set_timer :: "TimerId \<Rightarrow> TimerCallback \<Rightarrow> (ReplayState, unit) sim" where
  "replay_set_timer i callback r =
     (if active_timer r \<noteq> None \<and> fst (the (active_timer r)) \<noteq> i
      then throw_sim (SimulationFailure ''the simulation environment supports at most one active timer per thread'') r
      else (Inr (), r\<lparr>active_timer := Some (i, callback)\<rparr>))"

definition replay_cancel_timer :: "TimerId \<Rightarrow> (ReplayState, unit) sim" where
  "replay_cancel_timer i r =
     (Inr (), if active_timer r \<noteq> None \<and> fst (the (active_timer r)) = i then r\<lparr>active_timer := None\<rparr> else r)"

definition decode_sim_message :: "SimValue \<Rightarrow> (ReplayState, Message) sim" where
  "decode_sim_message v =
     (case decode_message v of
        Inr msg \<Rightarrow> return_sim msg
      | Inl (StdException what) \<Rightarrow> throw_sim (SimulationFailure what)
      | Inl e \<Rightarrow> throw_sim e)"

section \<open>The environment\<close>

definition on_replay :: "(ReplayState, 'a) sim \<Rightarrow> (SimEnvironment, 'a) sim" where
  "on_replay m env = (case m (replay env) of (r, rs) \<Rightarrow> (r, env\<lparr>replay := rs\<rparr>))"

definition lift_sim :: "SimException + 'a \<Rightarrow> ('s, 'a) sim" where
  "lift_sim r s = (r, s)"

definition is_decision :: "Message \<Rightarrow> bool" where
  "is_decision msg = (case msg of DecisionMsg _ \<Rightarrow> True | _ \<Rightarrow> False)"

definition sim_send :: "ParticipantId \<Rightarrow> Message \<Rightarrow> (SimEnvironment, unit) sim" where
  "sim_send dest msg env =
     then_sim
       (if inject_crash env \<and> \<not> crash_injected env \<and> is_decision msg
        then (\<lambda>env. bind_sim (on_replay (replay_choice_or_capture [crash_choice False, crash_choice True]))
               (\<lambda>choice. bind_sim (lift_sim (decode_crash_choice choice))
                 (\<lambda>crash. if crash then throw_sim ScenarioThreadTerminated else return_sim ()))
               (env\<lparr>crash_injected := True\<rparr>))
        else return_sim ())
       (on_replay (capture_send dest (encode_message msg))) env"

definition sim_get_vote :: "(SimEnvironment, Vote) sim" where
  "sim_get_vote = bind_sim (on_replay (replay_choice_or_capture [vote_choice Yes, vote_choice No]))
     (\<lambda>v. lift_sim (decode_vote_choice v))"

definition sim_env :: "SimEnvironment Environment" where
  "sim_env = \<lparr>env_send = sim_send, env_get_vote = sim_get_vote,
     env_set_timer = (\<lambda>i timeout callback. on_replay (replay_set_timer i callback)),
     env_cancel_timer = (\<lambda>i. on_replay (replay_cancel_timer i))\<rparr>"

section \<open>Running a protocol object\<close>

text \<open>An exception of the protocol becomes an error label; the exceptions of the simulation pass.\<close>

definition invoke_protocol_step :: "('s, 'a) sim \<Rightarrow> ('s, SimValue EventLabel + 'a) sim" where
  "invoke_protocol_step fn s =
     (case fn s of
        (Inr a, s') \<Rightarrow> (Inr (Inr a), s')
      | (Inl (StdException what), s') \<Rightarrow> (Inr (Inl (Error \<lparr>message = what\<rparr>)), s')
      | (Inl NonStandardException, s') \<Rightarrow> (Inr (Inl (Error \<lparr>message = ''uncaught non-standard exception''\<rparr>)), s')
      | (Inl e, s') \<Rightarrow> (Inl e, s'))"

definition fire_active_timer :: "('p, SimEnvironment) Protocol \<Rightarrow> ('p \<times> SimEnvironment, bool) sim" where
  "fire_active_timer proto s =
     (case active_timer (replay (snd s)) of
        None \<Rightarrow> throw_sim (SimulationFailure ''trace requested timer firing but no timer is active'') s
      | Some (_, callback) \<Rightarrow>
          bind_sim (on_env (on_replay (\<lambda>r. (Inr (), r\<lparr>active_timer := None\<rparr>)))) (\<lambda>_.
            bind_sim (invoke_protocol_step (proto_callback proto callback)) (\<lambda>res.
              case res of
                Inl error \<Rightarrow> then_sim (on_env (on_replay (capture error))) (throw_sim StepBoundaryReached)
              | Inr keep_waiting \<Rightarrow> return_sim keep_waiting)) s)"

datatype ReceiveResult =
    ReplayedMessage Message
  | ReplayedTimerFire bool
  | CapturedReceive

definition receive_step :: "('p, SimEnvironment) Protocol \<Rightarrow> ('p \<times> SimEnvironment, ReceiveResult) sim" where
  "receive_step proto = bind_sim (on_env (on_replay next_io)) (\<lambda>past.
     if past
     then bind_sim (on_env (on_replay consume_index)) (\<lambda>idx.
            bind_sim (on_env (on_replay (trace_entry idx))) (\<lambda>observed.
              if is_bottom_value observed then bind_sim (fire_active_timer proto) (\<lambda>b. return_sim (ReplayedTimerFire b))
              else bind_sim (on_env (on_replay (trace_value idx))) (\<lambda>v.
                bind_sim (on_env (on_replay (decode_sim_message v))) (\<lambda>msg. return_sim (ReplayedMessage msg)))))
     else then_sim (on_env (on_replay (\<lambda>r. capture (Receive
              (if active_timer r \<noteq> None then make_nonblocking_receive_label match_any_value
               else make_receive_label match_any_value Blocking)) r)))
            (return_sim CapturedReceive))"

text \<open>The loop: the label of the step, \<open>None\<close> inside when the thread is done, or out of fuel.\<close>

primrec capture_loop :: "nat \<Rightarrow> ('p, SimEnvironment) Protocol \<Rightarrow> bool \<Rightarrow> 'p \<times> SimEnvironment
    \<Rightarrow> ((SimException + SimValue EventLabel option) \<times> ('p \<times> SimEnvironment)) option" where
  "capture_loop 0 proto needs_message s = None"
| "capture_loop (Suc fuel) proto needs_message s =
     (if \<not> needs_message then Some (Inr None, s)
      else case receive_step proto s of
        (Inl e, s') \<Rightarrow> Some (Inl e, s')
      | (Inr CapturedReceive, s') \<Rightarrow> Some (Inr (captured (replay (snd s'))), s')
      | (Inr (ReplayedTimerFire b), s') \<Rightarrow> capture_loop fuel proto b s'
      | (Inr (ReplayedMessage msg), s') \<Rightarrow>
          (case invoke_protocol_step (proto_receive proto msg) s' of
             (Inl e, s'') \<Rightarrow> Some (Inl e, s'')
           | (Inr (Inl error), s'') \<Rightarrow> Some (Inr (Some error), s'')
           | (Inr (Inr b), s'') \<Rightarrow> capture_loop fuel proto b s''))"

definition start_and_capture :: "('p, SimEnvironment) Protocol \<Rightarrow> 'p \<times> SimEnvironment
    \<Rightarrow> ((SimException + SimValue EventLabel option) \<times> ('p \<times> SimEnvironment)) option" where
  "start_and_capture proto s =
     (case invoke_protocol_step (proto_start proto) s of
        (Inl e, s') \<Rightarrow> Some (Inl e, s')
      | (Inr (Inl error), s') \<Rightarrow> Some (Inr (Some error), s')
      | (Inr (Inr b), s') \<Rightarrow> capture_loop (target_io (replay (snd s)) + 2) proto b s')"

text \<open>The handlers of the driver; what is left escapes the thread function.\<close>

definition exn_of_sim :: "SimException \<Rightarrow> exn" where
  "exn_of_sim e =
     (case e of
        SimulationFailure what \<Rightarrow> std_exception what
      | StdException what \<Rightarrow> std_exception what
      | _ \<Rightarrow> non_std_exception)"

definition run_and_capture :: "('p, SimEnvironment) Protocol \<Rightarrow> 'p \<times> SimEnvironment \<Rightarrow> SimValue EventLabel option result option" where
  "run_and_capture proto s =
     map_option (\<lambda>(r, s'). case r of
         Inr l \<Rightarrow> Inr l
       | Inl ScenarioThreadTerminated \<Rightarrow> Inr None
       | Inl StepBoundaryReached \<Rightarrow> Inr (captured (replay (snd s')))
       | Inl e \<Rightarrow> Inl (exn_of_sim e))
     (start_and_capture proto s)"

section \<open>The program\<close>

record Options =
  opt_num_participants :: nat
  opt_bug_on_p1_no :: bool
  opt_inject_crash :: bool

definition coordinator_run :: "Options \<Rightarrow> SimValue ThreadTrace \<Rightarrow> nat \<Rightarrow> SimValue EventLabel option result option" where
  "coordinator_run options tr step = run_and_capture (coordinator_protocol sim_env)
     (make_coordinator (opt_num_participants options) (opt_bug_on_p1_no options),
      make_environment participant_to_thread step tr 0 (opt_inject_crash options))"

definition participant_run :: "ParticipantId \<Rightarrow> SimValue ThreadTrace \<Rightarrow> nat \<Rightarrow> SimValue EventLabel option result option" where
  "participant_run pid tr step = run_and_capture (participant_protocol sim_env)
     (make_participant pid, make_environment participant_to_thread step tr 0 False)"

definition make_coordinator_function :: "Options \<Rightarrow> SimValue ThreadFunction" where
  "make_coordinator_function options tr step = the (coordinator_run options tr step)"

definition make_participant_function :: "ParticipantId \<Rightarrow> SimValue ThreadFunction" where
  "make_participant_function pid tr step = the (participant_run pid tr step)"

text \<open>The participants are assigned in the order of the loop. A fresh slot of the vector holds an empty function;
  calling one is the \<open>std::bad_function_call\<close> of the default.\<close>

definition make_program :: "Options \<Rightarrow> SimValue Program" where
  "make_program options =
     \<lparr>threads = fold (\<lambda>pid. tm_assign (\<lambda>_ _. Inl (std_exception ''bad_function_call'')) (participant_to_thread pid) (make_participant_function pid))
        [1..<opt_num_participants options + 1]
        (tm_assign (\<lambda>_ _. Inl (std_exception ''bad_function_call'')) (participant_to_thread kCoordinator) (make_coordinator_function options) tm_empty)\<rparr>"

section \<open>The contract of the environment\<close>

text \<open>The simulation holds at most one timer; a second one with another id is refused by an exception.\<close>

definition sim_armed :: "SimEnvironment \<Rightarrow> TimerId \<rightharpoonup> TimerCallback" where
  "sim_armed env = (case active_timer (replay env) of None \<Rightarrow> Map.empty | Some (i, callback) \<Rightarrow> [i \<mapsto> callback])"

lemma sim_armed_cong: "active_timer (replay env') = active_timer (replay env) \<Longrightarrow> sim_armed env' = sim_armed env"
  by (simp add: sim_armed_def)

lemma replay_choice_timer:
  "replay_choice_or_capture cs r = (v, r') \<Longrightarrow> active_timer r' = active_timer r"
  by (auto simp: replay_choice_or_capture_def next_io_def consume_index_def trace_value_def trace_entry_def capture_def flow_defs
      split: if_splits sum.splits prod.splits ObservedValue.splits)

lemma sim_get_vote_timer: "sim_get_vote env = (v, env') \<Longrightarrow> active_timer (replay env') = active_timer (replay env)"
  by (auto simp: sim_get_vote_def on_replay_def lift_sim_def bind_sim_def split: sum.splits prod.splits dest!: replay_choice_timer)

lemma capture_send_timer: "capture_send dest v r = (q, r') \<Longrightarrow> active_timer r' = active_timer r"
  by (auto simp: capture_send_def next_io_def capture_def flow_defs split: if_splits)

lemma sim_send_timer: "sim_send dest msg env = (q, env') \<Longrightarrow> active_timer (replay env') = active_timer (replay env)"
  by (auto simp: sim_send_def on_replay_def lift_sim_def flow_defs split: if_splits sum.splits prod.splits
      dest!: replay_choice_timer capture_send_timer)

interpretation sim: environment sim_env sim_armed "\<lambda>_. True"
proof unfold_locales
  fix e i ms callback r e'
  assume "env_set_timer sim_env i ms callback e = (r, e')"
  then show "True \<and> sim_armed e' = (if r = Inr () then (sim_armed e)(i \<mapsto> callback) else sim_armed e)"
    by (auto simp: sim_env_def on_replay_def replay_set_timer_def throw_sim_def sim_armed_def split: if_splits option.splits)
next
  fix e i r e'
  assume "env_cancel_timer sim_env i e = (r, e')"
  then show "True \<and> sim_armed e' = (if r = Inr () then (sim_armed e)(i := None) else sim_armed e)"
    by (auto simp: sim_env_def on_replay_def replay_cancel_timer_def sim_armed_def split: if_splits option.splits)
qed (auto simp: sim_env_def intro!: sim_armed_cong dest: sim_send_timer sim_get_vote_timer)

end
