(* ===== verification/Tpc_Replay.thy ===== *)
theory Tpc_Replay
  imports Tpc_Sim
begin

text \<open>
  Replaying a protocol object against a trace, in general: what the operations of the simulated environment
  do, and a contract for protocol objects from which the driver loop follows. The contract names the states in
  which the object waits, the labels it may produce, when it is done and the traces it may reject; the loop
  then returns on the fuel it is given, with one of these labels or without, or it fails on one of these traces.
\<close>

section \<open>Environments during a replay\<close>

definition env_at :: "nat \<Rightarrow> SimValue ThreadTrace \<Rightarrow> bool \<Rightarrow> nat \<Rightarrow> nat \<Rightarrow> (TimerId \<times> TimerCallback) option \<Rightarrow> bool
    \<Rightarrow> SimValue EventLabel option \<Rightarrow> SimEnvironment" where
  "env_at k tr ic io j tm cr cap =
     \<lparr>replay = \<lparr>id_map = participant_to_thread, target_io = k, replay_trace = tr, trace_offset = 0, io_count = io,
        trace_consume_count = j, captured = cap, active_timer = tm\<rparr>,
      inject_crash = ic, crash_injected = cr\<rparr>"

lemma make_environment_at: "make_environment participant_to_thread k tr 0 ic = env_at k tr ic 0 0 None False None"
  by (simp add: make_environment_def env_at_def)

lemma captured_env_at [simp]: "captured (replay (env_at k tr ic io j tm cr cap)) = cap"
  "target_io (replay (env_at k tr ic io j tm cr cap)) = k" "active_timer (replay (env_at k tr ic io j tm cr cap)) = tm"
  "io_count (replay (env_at k tr ic io j tm cr cap)) = io"
  by (simp_all add: env_at_def)

lemma env_at_inject: "env_at k tr ic io j tm cr cap = env_at k tr ic io' j' tm' cr' cap' \<longleftrightarrow> io = io' \<and> j = j' \<and> tm = tm' \<and> cr = cr' \<and> cap = cap'"
  by (auto simp: env_at_def)

lemmas sim_simps = bind_sim_def then_sim_def return_sim_def throw_sim_def get_obj_def on_obj_def on_env_def on_replay_def lift_sim_def

lemmas flow_simps = bind_sim_def then_sim_def return_sim_def throw_sim_def get_obj_def on_obj_def lift_sim_def

lemma sim_send_at:
  assumes "\<not> (ic \<and> \<not> cr \<and> is_decision msg)"
  shows "sim_send dest msg (env_at k tr ic io j tm cr None) =
    (if io < k then (Inr (), env_at k tr ic (io + 1) j tm cr None)
     else (Inl StepBoundaryReached, env_at k tr ic (io + 1) j tm cr
        (Some (Send \<lparr>destination = participant_to_thread dest, send_value = encode_message msg\<rparr>))))"
  using assms by (auto simp: sim_send_def env_at_def sim_simps capture_send_def next_io_def capture_def)

lemma sim_choice_at:
  "on_replay (replay_choice_or_capture cs) (env_at k tr ic io j tm cr None) =
    (if io < k
     then (if j \<ge> length tr then (Inl (SimulationFailure ''trace shorter than expected for simulated replay''), env_at k tr ic (io + 1) (j + 1) tm cr None)
           else case tr ! j of
             BottomValue \<Rightarrow> (Inl (SimulationFailure ''trace requested a concrete value but observed bottom''), env_at k tr ic (io + 1) (j + 1) tm cr None)
           | Observed v \<Rightarrow> (Inr v, env_at k tr ic (io + 1) (j + 1) tm cr None))
     else (Inl StepBoundaryReached, env_at k tr ic (io + 1) j tm cr
        (Some (NondeterministicChoice \<lparr>nd_value = SimValue 0, choices = cs\<rparr>))))"
  by (auto simp: env_at_def sim_simps replay_choice_or_capture_def next_io_def capture_def consume_index_def trace_value_def
      trace_entry_def split: ObservedValue.splits)

lemma set_timer_at:
  "on_replay (replay_set_timer i callback) (env_at k tr ic io j None cr None) = (Inr (), env_at k tr ic io j (Some (i, callback)) cr None)"
  by (simp add: env_at_def on_replay_def replay_set_timer_def)

lemma cancel_timer_at:
  "on_replay (replay_cancel_timer i) (env_at k tr ic io j (Some (i, callback)) cr None) = (Inr (), env_at k tr ic io j None cr None)"
  by (simp add: env_at_def on_replay_def replay_cancel_timer_def)

lemma receive_step_at:
  "receive_step proto (c, env_at k tr ic io j tm cr None) =
    (if io < k
     then (if j \<ge> length tr then (Inl (SimulationFailure ''trace shorter than expected for simulated replay''), (c, env_at k tr ic (io + 1) (j + 1) tm cr None))
           else case tr ! j of
             BottomValue \<Rightarrow>
               (case fire_active_timer proto (c, env_at k tr ic (io + 1) (j + 1) tm cr None) of
                  (Inl e, s) \<Rightarrow> (Inl e, s) | (Inr b, s) \<Rightarrow> (Inr (ReplayedTimerFire b), s))
           | Observed v \<Rightarrow>
               (case decode_message v of
                  Inr msg \<Rightarrow> (Inr (ReplayedMessage msg), (c, env_at k tr ic (io + 1) (j + 1) tm cr None))
                | Inl e \<Rightarrow> (Inl (case e of StdException what \<Rightarrow> SimulationFailure what | _ \<Rightarrow> e), (c, env_at k tr ic (io + 1) (j + 1) tm cr None))))
     else (Inr CapturedReceive, (c, env_at k tr ic (io + 1) j tm cr
        (Some (Receive (if tm \<noteq> None then make_nonblocking_receive_label match_any_value else make_receive_label match_any_value Blocking))))))"
proof -
  have n: "on_env (on_replay next_io) (c, env_at k tr ic io j tm cr None) = (Inr (io < k), (c, env_at k tr ic (Suc io) j tm cr None))"
    by (simp add: on_env_def on_replay_def next_io_def env_at_def)
  have x: "on_env (on_replay consume_index) (c, env_at k tr ic (Suc io) j tm cr None) = (Inr j, (c, env_at k tr ic (Suc io) (Suc j) tm cr None))"
    by (simp add: on_env_def on_replay_def consume_index_def env_at_def)
  have en: "on_env (on_replay (trace_entry j)) (c, env_at k tr ic (Suc io) (Suc j) tm cr None) =
      (if j \<ge> length tr then (Inl (SimulationFailure ''trace shorter than expected for simulated replay''), (c, env_at k tr ic (Suc io) (Suc j) tm cr None))
       else (Inr (tr ! j), (c, env_at k tr ic (Suc io) (Suc j) tm cr None)))"
    by (simp add: on_env_def on_replay_def trace_entry_def throw_sim_def env_at_def)
  have va: "on_env (on_replay (trace_value j)) (c, env_at k tr ic (Suc io) (Suc j) tm cr None) = (Inr v, (c, env_at k tr ic (Suc io) (Suc j) tm cr None))"
    if "j < length tr" "tr ! j = Observed v" for v
    using that by (simp add: on_env_def on_replay_def trace_value_def trace_entry_def bind_sim_def return_sim_def env_at_def)
  have de: "on_env (on_replay (decode_sim_message v)) (c, env_at k tr ic (Suc io) (Suc j) tm cr None) =
      (case decode_message v of
         Inr msg \<Rightarrow> (Inr msg, (c, env_at k tr ic (Suc io) (Suc j) tm cr None))
       | Inl e \<Rightarrow> (Inl (case e of StdException what \<Rightarrow> SimulationFailure what | _ \<Rightarrow> e), (c, env_at k tr ic (Suc io) (Suc j) tm cr None)))" for v
    by (simp add: on_env_def on_replay_def decode_sim_message_def return_sim_def throw_sim_def env_at_def split: sum.splits SimException.splits)
  have ca: "on_env (on_replay (\<lambda>r. capture (l r) r)) (c, env_at k tr ic (Suc io) j tm cr None)
      = (Inr (), (c, env_at k tr ic (Suc io) j tm cr (Some (l (replay (env_at k tr ic (Suc io) j tm cr None))))))" for l
    by (simp add: on_env_def on_replay_def capture_def env_at_def)
  note run = receive_step_def bind_sim_def then_sim_def return_sim_def n x en is_bottom_value_def
  show ?thesis
  proof (cases "io < k \<and> j < length tr")
    case True
    show ?thesis
    proof (cases "tr ! j")
      case (Observed v)
      with True show ?thesis by (cases "decode_message v") (simp_all add: run va de)
    next
      case BottomValue
      with True show ?thesis by (cases "fire_active_timer proto (c, env_at k tr ic (Suc io) (Suc j) tm cr None)") (simp add: run split: sum.splits)
    qed
  next
    case False
    then show ?thesis by (cases "io < k") (simp_all add: run ca)
  qed
qed

lemma fire_timer_at:
  "fire_active_timer proto (c, env_at k tr ic io j (Some (i, callback)) cr None) =
    (case proto_callback proto callback (c, env_at k tr ic io j None cr None) of
       (Inr b, s) \<Rightarrow> (Inr b, s)
     | (Inl (StdException what), s) \<Rightarrow> (Inl StepBoundaryReached, (fst s, (snd s)\<lparr>replay := (replay (snd s))\<lparr>captured := Some (Error \<lparr>message = what\<rparr>)\<rparr>\<rparr>))
     | (Inl NonStandardException, s) \<Rightarrow> (Inl StepBoundaryReached, (fst s, (snd s)\<lparr>replay := (replay (snd s))\<lparr>captured :=
          Some (Error \<lparr>message = ''uncaught non-standard exception''\<rparr>)\<rparr>\<rparr>))
     | (Inl e, s) \<Rightarrow> (Inl e, s))"
proof -
  have "on_env (on_replay (\<lambda>r. (Inr (), r\<lparr>active_timer := None\<rparr>))) (c, env_at k tr ic io j (Some (i, callback)) cr None)
      = (Inr (), (c, env_at k tr ic io j None cr None))"
    by (simp add: on_env_def on_replay_def env_at_def)
  then show ?thesis
    by (auto simp: fire_active_timer_def bind_sim_def then_sim_def return_sim_def throw_sim_def invoke_protocol_step_def on_env_def
        on_replay_def capture_def split: sum.splits prod.splits SimException.splits)
qed

lemma decode_message_std: "decode_message v = Inl e \<Longrightarrow> \<exists>what. e = StdException what"
  by (auto simp: decode_message_def split: option.splits Tag.splits)

text \<open>An observation that cannot be delivered: the trace is too short, or the value is no message.\<close>

definition unreadable :: "SimValue ThreadTrace \<Rightarrow> nat \<Rightarrow> bool" where
  "unreadable tr j \<longleftrightarrow> j \<ge> length tr \<or> (\<exists>v e. tr ! j = Observed v \<and> decode_message v = Inl e)"

section \<open>The contract of a replayed object\<close>

text \<open>How a call of a method ends, and how the driver ends.\<close>

definition call_ends :: "('p \<times> SimEnvironment \<Rightarrow> bool) \<Rightarrow> (SimValue EventLabel \<Rightarrow> bool) \<Rightarrow> bool \<Rightarrow> bool \<Rightarrow> nat
    \<Rightarrow> (SimException + bool) \<times> ('p \<times> SimEnvironment) \<Rightarrow> bool" where
  "call_ends waits offers finishes fails io out \<longleftrightarrow>
     (case out of
        (Inr go, s) \<Rightarrow> if go then waits s \<and> io \<le> io_count (replay (snd s)) else finishes
      | (Inl StepBoundaryReached, s) \<Rightarrow> (\<exists>l. captured (replay (snd s)) = Some l \<and> offers l)
      | (Inl ScenarioThreadTerminated, s) \<Rightarrow> finishes
      | (Inl (SimulationFailure _), s) \<Rightarrow> fails
      | (Inl (StdException what), s) \<Rightarrow> offers (Error \<lparr>message = what\<rparr>)
      | (Inl NonStandardException, s) \<Rightarrow> False)"

definition driver_ends :: "(SimValue EventLabel \<Rightarrow> bool) \<Rightarrow> bool \<Rightarrow> bool
    \<Rightarrow> (SimException + SimValue EventLabel option) \<times> ('p \<times> SimEnvironment) \<Rightarrow> bool" where
  "driver_ends offers finishes fails out \<longleftrightarrow>
     (case out of
        (Inr None, s) \<Rightarrow> finishes
      | (Inr (Some l), s) \<Rightarrow> offers l
      | (Inl StepBoundaryReached, s) \<Rightarrow> (\<exists>l. captured (replay (snd s)) = Some l \<and> offers l)
      | (Inl ScenarioThreadTerminated, s) \<Rightarrow> finishes
      | (Inl (SimulationFailure _), s) \<Rightarrow> fails
      | (Inl _, s) \<Rightarrow> False)"

locale replayed =
  fixes proto :: "('p, SimEnvironment) Protocol" and obj :: 'p and k :: nat and tr :: "SimValue ThreadTrace" and ic :: bool
    and waits :: "'p \<times> SimEnvironment \<Rightarrow> bool" and offers :: "SimValue EventLabel \<Rightarrow> bool"
    and finishes :: bool and fails :: bool
  assumes starts: "call_ends waits offers finishes fails 0 (proto_start proto (obj, env_at k tr ic 0 0 None False None))"
    and shape: "waits s \<Longrightarrow> \<exists>c io j tm cr. s = (c, env_at k tr ic io j tm cr None) \<and> io \<le> k"
    and receives: "waits (c, env_at k tr ic io j tm cr None) \<Longrightarrow> io < k \<Longrightarrow> j < length tr \<Longrightarrow> tr ! j = Observed v \<Longrightarrow>
      decode_message v = Inr msg \<Longrightarrow>
      call_ends waits offers finishes fails (Suc io) (proto_receive proto msg (c, env_at k tr ic (Suc io) (Suc j) tm cr None))"
    and times_out: "waits (c, env_at k tr ic io j (Some (i, callback)) cr None) \<Longrightarrow> io < k \<Longrightarrow> j < length tr \<Longrightarrow> tr ! j = BottomValue \<Longrightarrow>
      call_ends waits offers finishes fails (Suc io) (proto_callback proto callback (c, env_at k tr ic (Suc io) (Suc j) None cr None))"
    and no_timer: "waits (c, env_at k tr ic io j None cr None) \<Longrightarrow> io < k \<Longrightarrow> j < length tr \<Longrightarrow> tr ! j = BottomValue \<Longrightarrow> fails"
    and unread: "waits (c, env_at k tr ic io j tm cr None) \<Longrightarrow> io < k \<Longrightarrow> unreadable tr j \<Longrightarrow> fails"
    and wait: "waits (c, env_at k tr ic k j tm cr None) \<Longrightarrow>
      offers (Receive (if tm \<noteq> None then make_nonblocking_receive_label match_any_value else make_receive_label match_any_value Blocking))"
begin

lemma after_call:
  assumes "call_ends waits offers finishes fails io (r, s)" "r = Inr b \<Longrightarrow> io_count (replay (snd s)) \<ge> io \<Longrightarrow> b \<Longrightarrow> waits s \<Longrightarrow>
      \<exists>out. capture_loop fuel proto True s = Some out \<and> driver_ends offers finishes fails out" "fuel > 0" "r = Inr b"
  shows "\<exists>out. capture_loop fuel proto b s = Some out \<and> driver_ends offers finishes fails out"
proof (cases b)
  case True
  with assms show ?thesis by (auto simp: call_ends_def)
next
  case False
  then have "capture_loop fuel proto b s = Some (Inr None, s)" using assms(3) by (cases fuel) auto
  then show ?thesis using assms(1,4) False by (simp add: call_ends_def driver_ends_def)
qed

lemma round:
  assumes w: "waits (c, env_at k tr ic io j tm cr None)" and io: "io \<le> k" "k + 2 \<le> Suc fuel + io"
    and IH: "\<And>s. waits s \<Longrightarrow> Suc io \<le> io_count (replay (snd s)) \<Longrightarrow>
      \<exists>out. capture_loop fuel proto True s = Some out \<and> driver_ends offers finishes fails out"
  shows "\<exists>out. capture_loop (Suc fuel) proto True (c, env_at k tr ic io j tm cr None) = Some out \<and> driver_ends offers finishes fails out"
proof -
  let ?s = "(c, env_at k tr ic io j tm cr None)"
  note step = receive_step_at [of proto c k tr ic io j tm cr]
  consider (now) "io = k" | (bad) "io < k" "unreadable tr j" | (fire) i callback where "io < k" "j < length tr" "tr ! j = BottomValue" "tm = Some (i, callback)"
    | (unarmed) "io < k" "j < length tr" "tr ! j = BottomValue" "tm = None"
    | (deliver) v msg where "io < k" "j < length tr" "tr ! j = Observed v" "decode_message v = Inr msg"
    using io(1) by (cases "tr ! j"; cases "j < length tr"; cases "io = k"; cases tm) (auto simp: unreadable_def, (metis sum.exhaust)+)
  then show ?thesis
  proof cases
    case now
    have "receive_step proto ?s = (Inr CapturedReceive, (c, env_at k tr ic (io + 1) j tm cr (Some (Receive
        (if tm \<noteq> None then make_nonblocking_receive_label match_any_value else make_receive_label match_any_value Blocking)))))"
      unfolding step using now by simp
    with wait w now show ?thesis by (simp add: driver_ends_def)
  next
    case bad
    moreover have "\<exists>what s. receive_step proto ?s = (Inl (SimulationFailure what), s)"
      using bad decode_message_std by (fastforce simp: receive_step_at unreadable_def split: ObservedValue.splits)
    ultimately show ?thesis using unread [OF w] by (auto simp: driver_ends_def)
  next
    case unarmed
    then have "\<exists>what s. receive_step proto ?s = (Inl (SimulationFailure what), s)"
      by (simp add: receive_step_at fire_active_timer_def throw_sim_def)
    with no_timer unarmed w show ?thesis by (auto simp: driver_ends_def)
  next
    case (fire i callback)
    obtain r s where out: "proto_callback proto callback (c, env_at k tr ic (Suc io) (Suc j) None cr None) = (r, s)"
      by (cases "proto_callback proto callback (c, env_at k tr ic (Suc io) (Suc j) None cr None)")
    with times_out [of c io j i callback cr] w fire have ends: "call_ends waits offers finishes fails (Suc io) (r, s)" by simp
    show ?thesis
    proof (cases r)
      case (Inr b)
      from after_call [OF ends _ _ Inr, of fuel] IH [of s] io(2) fire(1) fire Inr out show ?thesis
        by (auto simp: receive_step_at fire_timer_at)
    next
      case (Inl x)
      with fire ends out show ?thesis by (cases x) (auto simp: receive_step_at fire_timer_at call_ends_def driver_ends_def)
    qed
  next
    case (deliver v msg)
    obtain r s where out: "proto_receive proto msg (c, env_at k tr ic (Suc io) (Suc j) tm cr None) = (r, s)"
      by (cases "proto_receive proto msg (c, env_at k tr ic (Suc io) (Suc j) tm cr None)")
    with receives [OF w deliver] have ends: "call_ends waits offers finishes fails (Suc io) (r, s)" by simp
    show ?thesis
    proof (cases r)
      case (Inr b)
      from after_call [OF ends _ _ Inr, of fuel] IH [of s] io(2) deliver Inr out show ?thesis
        by (auto simp: receive_step_at invoke_protocol_step_def)
    next
      case (Inl x)
      with deliver ends out show ?thesis by (cases x) (auto simp: receive_step_at invoke_protocol_step_def call_ends_def driver_ends_def)
    qed
  qed
qed

lemma loop:
  assumes "waits s" "k + 2 \<le> fuel + io_count (replay (snd s))"
  shows "\<exists>out. capture_loop fuel proto True s = Some out \<and> driver_ends offers finishes fails out"
  using assms
proof (induction fuel arbitrary: s)
  case 0
  with shape [of s] show ?case by auto
next
  case (Suc fuel)
  from shape [OF Suc.prems(1)] obtain c io j tm cr where s: "s = (c, env_at k tr ic io j tm cr None)" "io \<le> k" by blast
  from Suc.prems Suc.IH round [of c io j tm cr fuel] s show ?case by fastforce
qed

text \<open>The thread function returns a label the object offers, or none when it finishes, or fails on a trace it may reject.\<close>

lemma run_cases:
  "\<exists>r. run_and_capture proto (obj, make_environment participant_to_thread k tr 0 ic) = Some r
    \<and> (case r of Inr (Some l) \<Rightarrow> offers l | Inr None \<Rightarrow> finishes | Inl e \<Rightarrow> fails)"
proof -
  let ?s = "(obj, env_at k tr ic 0 0 None False None)"
  obtain r0 s0 where start: "proto_start proto ?s = (r0, s0)" by (cases "proto_start proto ?s")
  with starts have ends: "call_ends waits offers finishes fails 0 (r0, s0)" by simp
  have "\<exists>out. start_and_capture proto ?s = Some out \<and> driver_ends offers finishes fails out"
  proof (cases r0)
    case (Inr b)
    have "\<exists>out. capture_loop (k + 2) proto b s0 = Some out \<and> driver_ends offers finishes fails out"
      by (rule after_call [OF ends _ _ Inr], rule loop) simp_all
    with Inr start show ?thesis by (simp add: start_and_capture_def invoke_protocol_step_def del: capture_loop.simps)
  next
    case (Inl x)
    with ends start show ?thesis
      by (cases x) (auto simp: start_and_capture_def invoke_protocol_step_def call_ends_def driver_ends_def)
  qed
  then obtain r s where out: "start_and_capture proto ?s = Some (r, s)" "driver_ends offers finishes fails (r, s)" by auto
  have run: "run_and_capture proto (obj, make_environment participant_to_thread k tr 0 ic) = map_option (\<lambda>(r, s'). case r of Inr l \<Rightarrow> Inr l
      | Inl ScenarioThreadTerminated \<Rightarrow> Inr None | Inl StepBoundaryReached \<Rightarrow> Inr (captured (replay (snd s'))) | Inl e \<Rightarrow> Inl (exn_of_sim e)) (Some (r, s))"
    unfolding run_and_capture_def make_environment_at out(1) ..
  show ?thesis
  proof (cases r)
    case (Inl x)
    with out(2) show ?thesis by (cases x) (auto simp: run driver_ends_def)
  next
    case (Inr l)
    with out(2) show ?thesis by (cases l) (auto simp: run driver_ends_def)
  qed
qed

end

end
