(* ===== verification/Tpc_Coordinator.thy ===== *)
theory Tpc_Coordinator
  imports Tpc_Replay
begin

text \<open>
  What the coordinator thread of the two-phase commit example does at each step. A reference definition
  reads the decision off the observed trace; the theorems relate every label of the replayed coordinator
  to it: which operation it is, whom it addresses, and which decision it carries.
\<close>

lemma sends_at:
  assumes "\<not> (ic \<and> \<not> cr \<and> is_decision msg)" "io \<le> k" "a \<le> b"
  shows "for_sim (\<lambda>pid. on_env (sim_send pid msg)) [a..<b] (c, env_at k tr ic io j tm cr None) =
    (if io + (b - a) \<le> k then (Inr (), (c, env_at k tr ic (io + (b - a)) j tm cr None))
     else (Inl StepBoundaryReached, (c, env_at k tr ic (k + 1) j tm cr
        (Some (Send \<lparr>destination = participant_to_thread (a + (k - io)), send_value = encode_message msg\<rparr>)))))"
  using assms(2,3)
proof (induction "b - a" arbitrary: a io)
  case 0
  then show ?case by (simp add: sim_simps)
next
  case (Suc x)
  then have ab: "[a..<b] = a # [Suc a..<b]" by (simp add: upt_conv_Cons)
  show ?case
  proof (cases "io < k")
    case True
    have e: "Suc io + (b - Suc a) = io + (b - a)" "Suc a + (k - Suc io) = a + (k - io)" using True Suc.hyps(2) by auto
    show ?thesis
      using Suc.hyps(1) [of "Suc a" "Suc io", unfolded e] Suc.hyps(2) Suc.prems True
      by (simp add: ab sim_simps sim_send_at [OF assms(1)])
  next
    case False
    with Suc.hyps(2) Suc.prems show ?thesis by (auto simp: ab sim_simps sim_send_at [OF assms(1)])
  qed
qed

section \<open>The decision, read off the trace\<close>

text \<open>
  The observations of the coordinator up to its decision: a timeout decides to abort; the vote of each
  participant counts once; the last vote decides. The result is the decision and the rest of the trace.
\<close>

fun collect :: "nat \<Rightarrow> bool list \<Rightarrow> bool \<Rightarrow> nat \<Rightarrow> SimValue ThreadTrace \<Rightarrow> (Decision \<times> SimValue ThreadTrace) option" where
  "collect n seen yes votes [] = None"
| "collect n seen yes votes (BottomValue # obs) = Some (Abort, obs)"
| "collect n seen yes votes (Observed v # obs) =
     (case decode_message v of
        Inr (VoteMsg sender vote) \<Rightarrow>
          if sender < 1 \<or> sender > n \<or> seen ! sender then collect n seen yes votes obs
          else if votes + 1 < n then collect n (seen[sender := True]) (yes \<and> vote = Yes) (votes + 1) obs
          else Some (if yes \<and> vote = Yes then Commit else Abort, obs)
      | _ \<Rightarrow> collect n seen yes votes obs)"

definition decided :: "nat \<Rightarrow> SimValue ThreadTrace \<Rightarrow> (Decision \<times> SimValue ThreadTrace) option" where
  "decided n tr = collect n (replicate (n + 1) False) True 0 tr"

lemma collect_append: "collect n seen yes votes obs = Some (d, rest) \<Longrightarrow> collect n seen yes votes (obs @ ext) = Some (d, rest @ ext)"
  by (induction n seen yes votes obs rule: collect.induct) (auto split: sum.splits Message.splits if_splits)

lemma collect_suffix: "collect n seen yes votes obs = Some (d, rest) \<Longrightarrow> \<exists>used. obs = used @ rest \<and> used \<noteq> [] \<and> collect n seen yes votes used = Some (d, [])"
proof (induction n seen yes votes obs rule: collect.induct)
  case (3 n seen yes votes v obs)
  then show ?case
    by (fastforce split: sum.splits Message.splits if_splits intro: exI [of _ "Observed v # _"])
qed auto

lemma decided_append: "decided n tr = Some (d, rest) \<Longrightarrow> decided n (tr @ ext) = Some (d, rest @ ext)"
  by (simp add: decided_def collect_append)

section \<open>Starting and broadcasting\<close>

definition coord_votes :: "nat \<Rightarrow> bool \<Rightarrow> bool list \<Rightarrow> bool \<Rightarrow> nat \<Rightarrow> Coordinator" where
  "coord_votes n bug seen yes votes = (make_coordinator n bug)\<lparr>all_yes := yes, votes_received := votes, vote_seen := seen,
     ack_seen := replicate (n + 1) False\<rparr>"

lemma coordinator_start_at:
  "coordinator_start sim_env (make_coordinator n bug, env_at k tr ic 0 0 None False None) =
    (if n \<le> k then (Inr True, (coord_votes n bug (replicate (n + 1) False) True 0, env_at k tr ic n 0 (Some (kVoteTimeoutTimerId, OnVoteTimeout)) False None))
     else (Inl StepBoundaryReached, (coord_votes n bug (replicate (n + 1) False) True 0, env_at k tr ic (k + 1) 0 None False
        (Some (Send \<lparr>destination = participant_to_thread (1 + k), send_value = prepare_message\<rparr>)))))"
proof -
  have c: "(make_coordinator n bug)\<lparr>phase := CollectingVotes, all_yes := True, votes_received := 0, acks_received := 0,
      coord_decision := None, vote_seen := replicate (n + 1) False, ack_seen := replicate (n + 1) False\<rparr>
      = coord_votes n bug (replicate (n + 1) False) True 0"
    by (simp add: make_coordinator_def coord_votes_def)
  have f: "num_participants (make_coordinator n bug) = n" "num_participants (coord_votes n bug seen yes votes) = n" for seen yes votes
    by (simp_all add: make_coordinator_def coord_votes_def)
  note s = sends_at [of ic False Prepare 0 k 1 "n + 1" "coord_votes n bug (replicate (n + 1) False) True 0" tr 0 None]
  show ?thesis
    using s c f by (simp add: coordinator_start_def sim_env_def flow_simps is_decision_def encode_message_def on_env_def set_timer_at
        del: upt_Suc replicate_Suc)
qed

definition passed :: "SimValue ThreadTrace \<Rightarrow> nat \<Rightarrow> bool" where
  "passed tr p \<longleftrightarrow> p < length tr \<and> (\<exists>v. tr ! p = Observed v \<and> decode_crash_choice v = Inr False)"

abbreviation crash_label :: "SimValue EventLabel" where
  "crash_label \<equiv> NondeterministicChoice \<lparr>nd_value = SimValue 0, choices = [crash_choice False, crash_choice True]\<rparr>"

abbreviation decision_label :: "ParticipantId \<Rightarrow> Decision \<Rightarrow> SimValue EventLabel" where
  "decision_label pid d \<equiv> Send \<lparr>destination = participant_to_thread pid, send_value = decision_message d\<rparr>"

lemma sim_send_crash:
  assumes "is_decision msg"
  shows "sim_send dest msg (env_at k tr True io j tm False None) =
    (if io < k
     then (if j \<ge> length tr then (Inl (SimulationFailure ''trace shorter than expected for simulated replay''), env_at k tr True (io + 1) (j + 1) tm True None)
           else case tr ! j of
             BottomValue \<Rightarrow> (Inl (SimulationFailure ''trace requested a concrete value but observed bottom''), env_at k tr True (io + 1) (j + 1) tm True None)
           | Observed v \<Rightarrow>
               (case decode_crash_choice v of
                  Inl e \<Rightarrow> (Inl e, env_at k tr True (io + 1) (j + 1) tm True None)
                | Inr crash \<Rightarrow> if crash then (Inl ScenarioThreadTerminated, env_at k tr True (io + 1) (j + 1) tm True None)
                    else sim_send dest msg (env_at k tr True (io + 1) (j + 1) tm True None)))
     else (Inl StepBoundaryReached, env_at k tr True (io + 1) j tm True (Some crash_label)))"
proof -
  have e: "(env_at k tr True io j tm False None)\<lparr>crash_injected := True\<rparr> = env_at k tr True io j tm True None"
    "inject_crash (env_at k tr True io j tm cr None)" "crash_injected (env_at k tr True io j tm cr None) = cr" for io j cr
    by (simp_all add: env_at_def)
  show ?thesis
    using assms
    by (auto simp: sim_send_def [of _ _ "env_at k tr True _ _ tm _ None"] e flow_simps sim_choice_at split: ObservedValue.splits sum.splits)
qed

lemma sends_crash:
  assumes "is_decision msg" "0 < n"
  shows "for_sim (\<lambda>pid. on_env (sim_send pid msg)) [1..<n + 1] (c, env_at k tr True io j tm False None) =
    (if io < k
     then (if j \<ge> length tr then (Inl (SimulationFailure ''trace shorter than expected for simulated replay''), (c, env_at k tr True (io + 1) (j + 1) tm True None))
           else case tr ! j of
             BottomValue \<Rightarrow> (Inl (SimulationFailure ''trace requested a concrete value but observed bottom''), (c, env_at k tr True (io + 1) (j + 1) tm True None))
           | Observed v \<Rightarrow>
               (case decode_crash_choice v of
                  Inl e \<Rightarrow> (Inl e, (c, env_at k tr True (io + 1) (j + 1) tm True None))
                | Inr crash \<Rightarrow> if crash then (Inl ScenarioThreadTerminated, (c, env_at k tr True (io + 1) (j + 1) tm True None))
                    else for_sim (\<lambda>pid. on_env (sim_send pid msg)) [1..<n + 1] (c, env_at k tr True (io + 1) (j + 1) tm True None)))
     else (Inl StepBoundaryReached, (c, env_at k tr True (io + 1) j tm True (Some crash_label))))"
proof -
  have "[1..<n + 1] = 1 # [2..<n + 1]" using assms(2) by (simp add: upt_conv_Cons numeral_2_eq_2 del: upt_Suc)
  then show ?thesis
    by (simp add: flow_simps on_env_def sim_send_crash [OF assms(1), of "Suc 0" k tr io j tm] split: ObservedValue.splits sum.splits del: upt_Suc)
qed

text \<open>How a broadcast ends: it completes, or it stops at the requested step, or the coordinator crashes, or
  the trace does not fit.\<close>

definition broadcast_ends :: "nat \<Rightarrow> bool \<Rightarrow> nat \<Rightarrow> SimValue ThreadTrace \<Rightarrow> Decision \<Rightarrow> nat \<Rightarrow> nat \<Rightarrow> Coordinator
    \<Rightarrow> (SimException + unit) \<times> (Coordinator \<times> SimEnvironment) \<Rightarrow> bool" where
  "broadcast_ends n ic k tr d io j c out \<longleftrightarrow> (let b = (ic \<and> 0 < n) in
     case out of
       (Inr _, s) \<Rightarrow> io + of_bool b + n \<le> k \<and> (b \<longrightarrow> passed tr j)
         \<and> s = (c\<lparr>phase := CollectingAcks\<rparr>,
                env_at k tr ic (io + of_bool b + n) (j + of_bool b) (Some (kAckTimeoutTimerId, OnAckTimeout)) b None)
     | (Inl StepBoundaryReached, s) \<Rightarrow>
         b \<and> io = k \<and> captured (replay (snd s)) = Some crash_label
         \<or> (b \<longrightarrow> passed tr j) \<and> (\<exists>pid. 1 \<le> pid \<and> pid \<le> n \<and> k = io + of_bool b + (pid - 1)
              \<and> captured (replay (snd s)) = Some (decision_label pid d))
     | (Inl ScenarioThreadTerminated, s) \<Rightarrow> b \<and> io < k \<and> j < length tr \<and> (\<exists>v. tr ! j = Observed v \<and> decode_crash_choice v = Inr True)
     | (Inl (SimulationFailure _), s) \<Rightarrow> b \<and> io < k \<and> (j \<ge> length tr \<or> tr ! j = BottomValue)
     | (Inl (StdException _), s) \<Rightarrow> b \<and> io < k \<and> j < length tr \<and> (\<exists>v e. tr ! j = Observed v \<and> decode_crash_choice v = Inl e)
     | (Inl NonStandardException, s) \<Rightarrow> False)"

lemma decode_crash_std: "decode_crash_choice v = Inl e \<Longrightarrow> \<exists>what. e = StdException what"
  by (auto simp: decode_crash_choice_def split: option.splits Tag.splits)

lemma broadcast_at:
  assumes "coord_decision c = Some d" "num_participants c = n" "io \<le> k"
  shows "broadcast_ends n ic k tr d io j c (broadcast_decision sim_env (c, env_at k tr ic io j None False None))"
proof -
  have t: "on_env (env_set_timer sim_env kAckTimeoutTimerId (ack_timeout_ms c) OnAckTimeout) (c, env_at k tr ic io j None cr None)
      = (Inr (), (c, env_at k tr ic io j (Some (kAckTimeoutTimerId, OnAckTimeout)) cr None))" for io j cr
    by (simp add: on_env_def sim_env_def set_timer_at)
  have e: "env_send sim_env = sim_send" "encode_message (DecisionMsg d) = decision_message d" "is_decision (DecisionMsg d)"
    by (simp_all add: sim_env_def encode_message_def is_decision_def)
  have sends: "io' + of_bool b + n \<le> k \<and> s = (Inr (), (c, env_at k tr ic (io' + of_bool b + n) j' None b None))
      \<or> fst s = Inl StepBoundaryReached \<and> (\<exists>pid. 1 \<le> pid \<and> pid \<le> n \<and> k = io' + of_bool b + (pid - 1)
           \<and> captured (replay (snd (snd s))) = Some (decision_label pid d))"
    if "s = for_sim (\<lambda>pid. on_env (sim_send pid (DecisionMsg d))) [1..<n + 1] (c, env_at k tr ic (io' + of_bool b) j' None b None)"
      "io' + of_bool b \<le> k" "\<not> (ic \<and> \<not> b)" for s io' b j'
    using that sends_at [of ic b "DecisionMsg d" "io' + of_bool b" k 1 "n + 1" c tr j' None]
    by (auto simp: e simp del: upt_Suc intro!: exI [of _ "1 + (k - (io' + of_bool b))"])
  have go: "broadcast_decision sim_env (c, env_at k tr ic io j None False None)
      = then_sim (for_sim (\<lambda>pid. on_env (sim_send pid (DecisionMsg d))) [1..<n + 1])
         (then_sim (on_env (env_set_timer sim_env kAckTimeoutTimerId (ack_timeout_ms c) OnAckTimeout))
           (on_obj (\<lambda>c. c\<lparr>phase := CollectingAcks\<rparr>))) (c, env_at k tr ic io j None False None)"
    using assms(1,2) by (simp add: broadcast_decision_def bind_sim_def get_obj_def e del: upt_Suc)
  show ?thesis
  proof (cases "ic \<and> 0 < n")
    case False
    let ?out = "for_sim (\<lambda>pid. on_env (sim_send pid (DecisionMsg d))) [1..<n + 1] (c, env_at k tr ic io j None False None)"
    consider (sent) "io + n \<le> k" "?out = (Inr (), (c, env_at k tr ic (io + n) j None False None))"
      | (stopped) pid s1 where "?out = (Inl StepBoundaryReached, s1)" "1 \<le> pid" "pid \<le> n" "k = io + (pid - 1)"
          "captured (replay (snd s1)) = Some (decision_label pid d)"
      using sends [of ?out io False j] False assms(3) by (cases "n = 0"; cases ?out) (auto simp: return_sim_def simp del: upt_Suc)
    then show ?thesis
    proof cases
      case sent
      with False show ?thesis by (auto simp: broadcast_ends_def go then_sim_def bind_sim_def on_obj_def t simp del: upt_Suc)
    next
      case (stopped pid s1)
      have r: "broadcast_decision sim_env (c, env_at k tr ic io j None False None) = (Inl StepBoundaryReached, s1)"
        unfolding go then_sim_def bind_sim_def [of "for_sim _ _"] stopped(1) by simp
      show ?thesis unfolding r broadcast_ends_def using stopped(2-5) False by auto
    qed
  next
    case True
    then have ic: "ic" "0 < n" by auto
    note first = sends_crash [OF e(3) ic(2), of c k tr io j None]
    show ?thesis
    proof (cases "io < k \<and> passed tr j")
      case True
      then obtain v where v: "io < k" "j < length tr" "tr ! j = Observed v" "decode_crash_choice v = Inr False" by (auto simp: passed_def)
      let ?s = "for_sim (\<lambda>pid. on_env (sim_send pid (DecisionMsg d))) [1..<n + 1] (c, env_at k tr ic (io + of_bool True) (j + 1) None True None)"
      have eq: "for_sim (\<lambda>pid. on_env (sim_send pid (DecisionMsg d))) [1..<n + 1] (c, env_at k tr ic io j None False None) = ?s"
        using first v ic by (simp del: upt_Suc)
      consider (sent) "io + 1 + n \<le> k" "?s = (Inr (), (c, env_at k tr ic (io + 1 + n) (j + 1) None True None))"
        | (stopped) pid s1 where "?s = (Inl StepBoundaryReached, s1)" "1 \<le> pid" "pid \<le> n" "k = io + 1 + (pid - 1)"
            "captured (replay (snd s1)) = Some (decision_label pid d)"
        using sends [of ?s io True "j + 1"] v(1) by (cases ?s) (auto simp del: upt_Suc)
      then show ?thesis
      proof cases
        case sent
        have r: "broadcast_decision sim_env (c, env_at k tr ic io j None False None) = (Inr (), (c\<lparr>phase := CollectingAcks\<rparr>,
            env_at k tr ic (io + 1 + n) (j + 1) (Some (kAckTimeoutTimerId, OnAckTimeout)) True None))"
          unfolding go then_sim_def bind_sim_def [of "for_sim _ _"] eq sent(2) by (simp add: bind_sim_def t on_obj_def)
        show ?thesis unfolding r broadcast_ends_def using sent(1) ic True by auto
      next
        case (stopped pid s1)
        have r: "broadcast_decision sim_env (c, env_at k tr ic io j None False None) = (Inl StepBoundaryReached, s1)"
          unfolding go then_sim_def bind_sim_def [of "for_sim _ _"] eq stopped(1) by simp
        show ?thesis unfolding r broadcast_ends_def using stopped(2-5) ic True by auto
      qed
    next
      case False
      let ?out = "for_sim (\<lambda>pid. on_env (sim_send pid (DecisionMsg d))) [1..<n + 1] (c, env_at k tr ic io j None False None)"
      consider (asked) s1 where "?out = (Inl StepBoundaryReached, s1)" "io = k" "captured (replay (snd s1)) = Some crash_label"
        | (crashed) v s1 where "?out = (Inl ScenarioThreadTerminated, s1)" "io < k" "j < length tr" "tr ! j = Observed v" "decode_crash_choice v = Inr True"
        | (unfit) what s1 where "?out = (Inl (SimulationFailure what), s1)" "io < k" "j \<ge> length tr \<or> tr ! j = BottomValue"
        | (unclear) v e s1 where "?out = (Inl e, s1)" "io < k" "j < length tr" "tr ! j = Observed v" "decode_crash_choice v = Inl e"
        using first ic False assms(3)
        by (auto simp: passed_def simp del: upt_Suc split: ObservedValue.splits sum.splits if_splits)
      note out = this
      have r: "broadcast_decision sim_env (c, env_at k tr ic io j None False None) = (Inl x, s1)" if "?out = (Inl x, s1)" for x s1
        unfolding go then_sim_def bind_sim_def [of "for_sim _ _"] that by simp
      from out show ?thesis
      proof cases
        case (unclear v e s1)
        with decode_crash_std obtain what where "e = StdException what" by blast
        with unclear ic r [OF unclear(1)] show ?thesis by (auto simp: broadcast_ends_def Let_def)
      qed (use ic r in \<open>auto simp: broadcast_ends_def Let_def\<close>)
    qed
  qed
qed

section \<open>The labels of the coordinator\<close>

abbreviation wait_label :: "SimValue EventLabel" where
  "wait_label \<equiv> Receive (make_nonblocking_receive_label match_any_value)"

abbreviation crash_point :: "nat \<Rightarrow> bool \<Rightarrow> bool" where
  "crash_point n ic \<equiv> ic \<and> 0 < n"

text \<open>The decision is taken after the first \<open>p\<close> observations, and the coordinator did not crash.\<close>

definition goes_on :: "nat \<Rightarrow> bool \<Rightarrow> SimValue ThreadTrace \<Rightarrow> nat \<Rightarrow> Decision \<Rightarrow> bool" where
  "goes_on n ic tr p d \<longleftrightarrow> p \<le> length tr \<and> decided n (take p tr) = Some (d, []) \<and> (crash_point n ic \<longrightarrow> passed tr p)"

text \<open>
  The label of step \<open>k\<close>: the preparations, the waits for votes, the crash choice, the decisions, the
  waits for acknowledgements, and an error for the injected bug or a value that is no crash choice.
\<close>

definition coord_label :: "nat \<Rightarrow> bool \<Rightarrow> bool \<Rightarrow> SimValue ThreadTrace \<Rightarrow> nat \<Rightarrow> SimValue EventLabel \<Rightarrow> bool" where
  "coord_label n bug ic tr k l \<longleftrightarrow>
     k < n \<and> l = Send \<lparr>destination = participant_to_thread (1 + k), send_value = prepare_message\<rparr>
   \<or> n \<le> k \<and> k - n \<le> length tr \<and> decided n (take (k - n) tr) = None \<and> l = wait_label
   \<or> crash_point n ic \<and> n \<le> k \<and> k - n \<le> length tr \<and> (\<exists>d. decided n (take (k - n) tr) = Some (d, [])) \<and> l = crash_label
   \<or> (\<exists>p d pid. goes_on n ic tr p d \<and> 1 \<le> pid \<and> pid \<le> n \<and> k = n + p + of_bool (crash_point n ic) + (pid - 1) \<and> l = decision_label pid d)
   \<or> (\<exists>p d. goes_on n ic tr p d \<and> 2 * n + p + of_bool (crash_point n ic) \<le> k \<and> k - 2 * n \<le> length tr \<and> l = wait_label)
   \<or> (\<exists>m. l = Error m) \<and> (bug \<or> (\<exists>p v e. crash_point n ic \<and> n + p < k \<and> p < length tr \<and> (\<exists>d. decided n (take p tr) = Some (d, []))
        \<and> tr ! p = Observed v \<and> decode_crash_choice v = Inl e))"

definition coord_fails :: "nat \<Rightarrow> bool \<Rightarrow> SimValue ThreadTrace \<Rightarrow> nat \<Rightarrow> bool" where
  "coord_fails n ic tr k \<longleftrightarrow>
     (\<exists>j. n + j < k \<and> j \<le> length tr \<and> decided n (take j tr) = None \<and> unreadable tr j)
   \<or> (\<exists>p d. crash_point n ic \<and> n + p < k \<and> p \<le> length tr \<and> decided n (take p tr) = Some (d, []) \<and> (p = length tr \<or> tr ! p = BottomValue))
   \<or> (\<exists>p d j. goes_on n ic tr p d \<and> p + of_bool (crash_point n ic) \<le> j \<and> 2 * n + j < k \<and> j \<le> length tr \<and> unreadable tr j)"

text \<open>The coordinator is done when it crashed, or some time after its last decision.\<close>

definition coord_done :: "nat \<Rightarrow> bool \<Rightarrow> SimValue ThreadTrace \<Rightarrow> nat \<Rightarrow> bool" where
  "coord_done n ic tr k \<longleftrightarrow>
     (\<exists>p d. goes_on n ic tr p d \<and> 2 * n + p + of_bool (crash_point n ic) < k)
   \<or> (\<exists>p d v. crash_point n ic \<and> n + p < k \<and> p < length tr \<and> decided n (take p tr) = Some (d, [])
        \<and> tr ! p = Observed v \<and> decode_crash_choice v = Inr True)"

definition coord_inv :: "nat \<Rightarrow> bool \<Rightarrow> bool \<Rightarrow> nat \<Rightarrow> SimValue ThreadTrace \<Rightarrow> Coordinator \<times> SimEnvironment \<Rightarrow> bool" where
  "coord_inv n bug ic k tr s \<longleftrightarrow>
     (\<exists>seen yes votes j. s = (coord_votes n bug seen yes votes, env_at k tr ic (n + j) j (Some (kVoteTimeoutTimerId, OnVoteTimeout)) False None)
        \<and> n + j \<le> k \<and> j \<le> length tr \<and> (\<forall>ext. decided n (take j tr @ ext) = collect n seen yes votes ext))
   \<or> (\<exists>p d j c. s = (c, env_at k tr ic (2 * n + j) j (Some (kAckTimeoutTimerId, OnAckTimeout)) (crash_point n ic) None)
        \<and> phase c = CollectingAcks \<and> num_participants c = n \<and> 2 * n + j \<le> k \<and> p + of_bool (crash_point n ic) \<le> j \<and> j \<le> length tr
        \<and> goes_on n ic tr p d)"

abbreviation coord_call_ends :: "nat \<Rightarrow> bool \<Rightarrow> bool \<Rightarrow> nat \<Rightarrow> SimValue ThreadTrace \<Rightarrow> nat
    \<Rightarrow> (SimException + bool) \<times> (Coordinator \<times> SimEnvironment) \<Rightarrow> bool" where
  "coord_call_ends n bug ic k tr \<equiv> call_ends (coord_inv n bug ic k tr) (coord_label n bug ic tr k) (coord_done n ic tr k) (coord_fails n ic tr k)"

lemma broadcast_call:
  assumes c: "coord_decision c = Some d" "num_participants c = n" and j: "n + j \<le> k" "j \<le> length tr"
    and d: "decided n (take j tr) = Some (d, [])"
  shows "coord_call_ends n bug ic k tr (n + j) (then_sim (broadcast_decision sim_env) (return_sim True) (c, env_at k tr ic (n + j) j None False None))"
proof -
  let ?out = "broadcast_decision sim_env (c, env_at k tr ic (n + j) j None False None)" and ?b = "crash_point n ic"
  have ends: "broadcast_ends n ic k tr d (n + j) j c ?out" by (rule broadcast_at [OF c j(1)])
  obtain r s where out: "?out = (r, s)" by (cases ?out)
  have res: "then_sim (broadcast_decision sim_env) (return_sim True) (c, env_at k tr ic (n + j) j None False None)
      = (case r of Inl e \<Rightarrow> (Inl e, s) | Inr _ \<Rightarrow> (Inr True, s))"
    by (simp add: then_sim_def bind_sim_def out return_sim_def split: sum.splits)
  show ?thesis
  proof (cases r)
    case (Inr u)
    have io: "n + j + of_bool ?b + n = 2 * n + (j + of_bool ?b)" by simp
    from Inr ends have "n + j + of_bool ?b + n \<le> k \<and> (?b \<longrightarrow> passed tr j)
      \<and> s = (c\<lparr>phase := CollectingAcks\<rparr>, env_at k tr ic (n + j + of_bool ?b + n) (j + of_bool ?b) (Some (kAckTimeoutTimerId, OnAckTimeout)) ?b None)"
      unfolding out broadcast_ends_def Let_def by simp
    then have e: "2 * n + (j + of_bool ?b) \<le> k" "?b \<longrightarrow> passed tr j"
      "s = (c\<lparr>phase := CollectingAcks\<rparr>, env_at k tr ic (2 * n + (j + of_bool ?b)) (j + of_bool ?b) (Some (kAckTimeoutTimerId, OnAckTimeout)) ?b None)"
      unfolding io by blast+
    have "coord_inv n bug ic k tr s"
      unfolding coord_inv_def
      by (rule disjI2, rule exI [of _ j], rule exI [of _ d], rule exI [of _ "j + of_bool ?b"], rule exI [of _ "c\<lparr>phase := CollectingAcks\<rparr>"])
        (use e c(2) j(2) d in \<open>auto simp: goes_on_def passed_def\<close>)
    with Inr e(3) show ?thesis unfolding res by (simp add: call_ends_def)
  next
    case (Inl x)
    show ?thesis
    proof (cases x)
      case StepBoundaryReached
      have "\<exists>l. captured (replay (snd s)) = Some l \<and> coord_label n bug ic tr k l"
        using ends j d unfolding broadcast_ends_def out Inl StepBoundaryReached
        by (auto simp: coord_label_def goes_on_def) fastforce+
      with Inl StepBoundaryReached show ?thesis unfolding res by (simp add: call_ends_def)
    next
      case (SimulationFailure what)
      have "coord_fails n ic tr k"
        using ends j d unfolding broadcast_ends_def out Inl SimulationFailure by (auto simp: coord_fails_def)
      with Inl SimulationFailure show ?thesis unfolding res by (simp add: call_ends_def)
    next
      case (StdException what)
      have "coord_label n bug ic tr k (Error m)" for m
        using ends j d unfolding broadcast_ends_def out Inl StdException by (auto simp: coord_label_def)
      with Inl StdException show ?thesis unfolding res by (simp add: call_ends_def)
    next
      case NonStandardException
      with ends Inl show ?thesis by (simp add: broadcast_ends_def out)
    next
      case ScenarioThreadTerminated
      have "coord_done n ic tr k"
        using ends d unfolding broadcast_ends_def out Inl ScenarioThreadTerminated by (auto simp: coord_done_def)
      with Inl ScenarioThreadTerminated show ?thesis unfolding res by (simp add: call_ends_def)
    qed
  qed
qed

section \<open>Handling what was observed\<close>

lemma coord_votes_fields [simp]:
  "phase (coord_votes n bug seen yes votes) = CollectingVotes" "num_participants (coord_votes n bug seen yes votes) = n"
  "bug_on_p1_no (coord_votes n bug seen yes votes) = bug" "votes_received (coord_votes n bug seen yes votes) = votes"
  "vote_seen (coord_votes n bug seen yes votes) = seen" "all_yes (coord_votes n bug seen yes votes) = yes"
  by (simp_all add: coord_votes_def make_coordinator_def)

lemma count_vote_votes: "count_vote sender vote (coord_votes n bug seen yes votes)
    = coord_votes n bug (seen[sender := True]) (yes \<and> vote = Yes) (votes + 1)"
  by (cases vote) (simp_all add: count_vote_def coord_votes_def make_coordinator_def)

lemma take_observed: "j < length tr \<Longrightarrow> tr ! j = x \<Longrightarrow> take (Suc j) tr @ ext = take j tr @ x # ext"
  by (simp add: take_Suc_conv_app_nth)

lemma votes_kept:
  assumes "\<forall>ext. decided n (take j tr @ ext) = collect n seen yes votes ext" "j < length tr" "n + Suc j \<le> k"
    and "\<forall>ext. collect n seen yes votes (tr ! j # ext) = collect n seen' yes' votes' ext"
  shows "coord_call_ends n bug ic k tr (n + Suc j) (Inr True, (coord_votes n bug seen' yes' votes',
     env_at k tr ic (n + Suc j) (Suc j) (Some (kVoteTimeoutTimerId, OnVoteTimeout)) False None))"
proof -
  have "\<forall>ext. decided n (take (Suc j) tr @ ext) = collect n seen' yes' votes' ext"
    using assms(1,4) take_observed [OF assms(2) refl] by simp
  with assms(2,3) have "coord_inv n bug ic k tr (coord_votes n bug seen' yes' votes',
      env_at k tr ic (n + Suc j) (Suc j) (Some (kVoteTimeoutTimerId, OnVoteTimeout)) False None)"
    unfolding coord_inv_def
    by (intro disjI1, intro exI [of _ seen'] exI [of _ yes'] exI [of _ votes'] exI [of _ "Suc j"]) simp
  then show ?thesis by (simp add: call_ends_def)
qed

lemma decided_now:
  assumes "\<forall>ext. decided n (take j tr @ ext) = collect n seen yes votes ext" "j < length tr" "collect n seen yes votes [tr ! j] = Some (d, [])"
  shows "decided n (take (Suc j) tr) = Some (d, [])"
  using assms take_observed [OF assms(2) refl, of "[]"] by simp

lemma vote_phase_receive:
  assumes col: "\<forall>ext. decided n (take j tr @ ext) = collect n seen yes votes ext" and j: "j < length tr" "n + Suc j \<le> k"
    and v: "tr ! j = Observed v" "decode_message v = Inr msg"
  shows "coord_call_ends n bug ic k tr (n + Suc j) (coordinator_receive sim_env msg (coord_votes n bug seen yes votes,
     env_at k tr ic (n + Suc j) (Suc j) (Some (kVoteTimeoutTimerId, OnVoteTimeout)) False None))"
proof (cases "\<exists>sender vote. msg = VoteMsg sender vote \<and> \<not> (sender < 1 \<or> sender > n \<or> seen ! sender)")
  case False
  then have "\<forall>ext. collect n seen yes votes (tr ! j # ext) = collect n seen yes votes ext"
    using v by (auto split: Message.splits)
  from votes_kept [OF col j this] False show ?thesis
    by (auto simp: coordinator_receive_def flow_simps is_valid_participant_def split: Message.splits)
next
  case True
  then obtain sender vote where msg: "msg = VoteMsg sender vote" "1 \<le> sender" "sender \<le> n" "\<not> seen ! sender" by auto
  let ?c = "coord_votes n bug (seen[sender := True]) (yes \<and> vote = Yes) (votes + 1)"
  let ?e = "env_at k tr ic (n + Suc j) (Suc j) (Some (kVoteTimeoutTimerId, OnVoteTimeout)) False None"
  have r: "coordinator_receive sim_env msg (coord_votes n bug seen yes votes, ?e) = receive_vote sim_env sender vote (coord_votes n bug seen yes votes, ?e)"
    using msg by (simp add: coordinator_receive_def flow_simps is_valid_participant_def)
  consider (bug) "vote = No" "bug" "sender = 1" | (wait) "\<not> (vote = No \<and> bug \<and> sender = 1)" "votes + 1 < n"
    | (decide) "\<not> (vote = No \<and> bug \<and> sender = 1)" "\<not> votes + 1 < n" by blast
  then show ?thesis
  proof cases
    case bug
    then show ?thesis unfolding r
      by (simp add: receive_vote_def flow_simps count_vote_votes call_ends_def coord_label_def)
  next
    case wait
    have "\<forall>ext. collect n seen yes votes (tr ! j # ext) = collect n (seen[sender := True]) (yes \<and> vote = Yes) (votes + 1) ext"
      using v msg wait by simp
    from votes_kept [OF col j this] wait show ?thesis unfolding r
      by (auto simp: receive_vote_def flow_simps count_vote_votes)
  next
    case decide
    let ?d = "if yes \<and> vote = Yes then Commit else Abort"
    have "collect n seen yes votes [tr ! j] = Some (?d, [])" using v msg decide by simp
    from decided_now [OF col j(1) this]
    have call: "coord_call_ends n bug ic k tr (n + Suc j) (then_sim (broadcast_decision sim_env) (return_sim True)
        (?c\<lparr>coord_decision := Some ?d\<rparr>, env_at k tr ic (n + Suc j) (Suc j) None False None))"
      using j by (intro broadcast_call) auto
    have "receive_vote sim_env sender vote (coord_votes n bug seen yes votes, ?e)
        = then_sim (broadcast_decision sim_env) (return_sim True) (?c\<lparr>coord_decision := Some ?d\<rparr>, env_at k tr ic (n + Suc j) (Suc j) None False None)"
      using decide
      by (auto simp: receive_vote_def then_sim_def bind_sim_def get_obj_def on_obj_def count_vote_votes on_env_def sim_env_def cancel_timer_at)
    with call show ?thesis unfolding r by simp
  qed
qed

lemma vote_timeout:
  assumes col: "\<forall>ext. decided n (take j tr @ ext) = collect n seen yes votes ext" and j: "j < length tr" "n + Suc j \<le> k"
    and v: "tr ! j = BottomValue"
  shows "coord_call_ends n bug ic k tr (n + Suc j) (on_vote_timeout sim_env (coord_votes n bug seen yes votes,
     env_at k tr ic (n + Suc j) (Suc j) None False None))"
proof -
  have "collect n seen yes votes [tr ! j] = Some (Abort, [])" using v by simp
  from decided_now [OF col j(1) this]
  have "coord_call_ends n bug ic k tr (n + Suc j) (then_sim (broadcast_decision sim_env) (return_sim True)
      ((coord_votes n bug seen yes votes)\<lparr>all_yes := False, coord_decision := Some Abort\<rparr>, env_at k tr ic (n + Suc j) (Suc j) None False None))"
    using j by (intro broadcast_call) auto
  then show ?thesis by (simp add: on_vote_timeout_def then_sim_def bind_sim_def get_obj_def on_obj_def)
qed

lemma ack_phase_receive:
  assumes c: "phase c = CollectingAcks" "num_participants c = n" and j: "2 * n + j \<le> k" "p + of_bool (crash_point n ic) < j" "j \<le> length tr"
    and g: "goes_on n ic tr p d"
  shows "coord_call_ends n bug ic k tr (2 * n + j) (coordinator_receive sim_env msg (c,
     env_at k tr ic (2 * n + j) j (Some (kAckTimeoutTimerId, OnAckTimeout)) (crash_point n ic) None))"
proof -
  let ?e = "env_at k tr ic (2 * n + j) j (Some (kAckTimeoutTimerId, OnAckTimeout)) (crash_point n ic) None"
  have kept: "coord_call_ends n bug ic k tr (2 * n + j) (Inr True, (c', ?e))" if "phase c' = CollectingAcks" "num_participants c' = n" for c'
  proof -
    have "coord_inv n bug ic k tr (c', ?e)"
      using that j g unfolding coord_inv_def by (intro disjI2 exI [of _ p] exI [of _ d] exI [of _ j] exI [of _ c']) simp
    then show ?thesis by (simp add: call_ends_def)
  qed
  have fin: "coord_done n ic tr k" unfolding coord_done_def by (intro disjI1 exI [of _ p] exI [of _ d]) (use g j in simp)
  show ?thesis
  proof (cases "\<exists>sender. msg = Ack sender \<and> is_valid_participant c sender \<and> \<not> ack_seen c ! sender")
    case False
    then have "coordinator_receive sim_env msg (c, ?e) = (Inr True, (c, ?e))"
      using c by (auto simp: coordinator_receive_def flow_simps split: Message.splits)
    with kept [OF c] show ?thesis by simp
  next
    case True
    then obtain sender where "msg = Ack sender" "is_valid_participant c sender" "\<not> ack_seen c ! sender" by blast
    with c have r: "coordinator_receive sim_env msg (c, ?e) = receive_ack sim_env sender (c, ?e)"
      by (simp add: coordinator_receive_def flow_simps)
    let ?c = "c\<lparr>ack_seen := (ack_seen c)[sender := True], acks_received := acks_received c + 1\<rparr>"
    show ?thesis
      using kept [of ?c] fin c unfolding r
      by (auto simp: receive_ack_def flow_simps on_env_def sim_env_def cancel_timer_at call_ends_def)
  qed
qed

lemma ack_wait_label:
  assumes "goes_on n ic tr p d" "2 * n + p + of_bool (crash_point n ic) \<le> k" "k - 2 * n \<le> length tr"
  shows "coord_label n bug ic tr k wait_label"
  using assms unfolding coord_label_def by blast

lemma ack_wait_fails:
  assumes "goes_on n ic tr p d" "p + of_bool (crash_point n ic) \<le> j" "2 * n + j < k" "j \<le> length tr" "unreadable tr j"
  shows "coord_fails n ic tr k"
  using assms unfolding coord_fails_def by blast

lemma coordinator_starts:
  "coord_call_ends n bug ic k tr 0 (coordinator_start sim_env (make_coordinator n bug, env_at k tr ic 0 0 None False None))"
proof (cases "n \<le> k")
  case True
  have "coord_inv n bug ic k tr (coord_votes n bug (replicate (n + 1) False) True 0,
      env_at k tr ic n 0 (Some (kVoteTimeoutTimerId, OnVoteTimeout)) False None)"
    unfolding coord_inv_def
    by (intro disjI1, intro exI [of _ "replicate (n + 1) False"] exI [of _ True] exI [of _ 0]) (simp add: True decided_def)
  with True show ?thesis by (simp add: coordinator_start_at call_ends_def del: replicate_Suc)
next
  case False
  then show ?thesis by (simp add: coordinator_start_at call_ends_def coord_label_def)
qed

text \<open>The two places where the coordinator waits.\<close>

lemma coord_inv_cases:
  assumes "coord_inv n bug ic k tr (c, env_at k tr ic io j tm cr None)"
  obtains (votes) seen yes votes where "c = coord_votes n bug seen yes votes" "io = n + j" "tm = Some (kVoteTimeoutTimerId, OnVoteTimeout)" "\<not> cr"
      "n + j \<le> k" "j \<le> length tr" "\<forall>ext. decided n (take j tr @ ext) = collect n seen yes votes ext" "decided n (take j tr) = None"
  | (acks) p d where "io = 2 * n + j" "tm = Some (kAckTimeoutTimerId, OnAckTimeout)" "cr = crash_point n ic" "phase c = CollectingAcks"
      "num_participants c = n" "2 * n + j \<le> k" "p + of_bool (crash_point n ic) \<le> j" "j \<le> length tr" "goes_on n ic tr p d"
proof -
  have none: "decided n (take j tr) = None" if "\<forall>ext. decided n (take j tr @ ext) = collect n seen yes votes ext" for seen yes votes
    using that by (metis append_Nil2 collect.simps(1))
  from assms consider
    (a) seen yes vs where "c = coord_votes n bug seen yes vs" "io = n + j" "tm = Some (kVoteTimeoutTimerId, OnVoteTimeout)" "\<not> cr"
      "n + j \<le> k" "j \<le> length tr" "\<forall>ext. decided n (take j tr @ ext) = collect n seen yes vs ext"
  | (b) p d where "io = 2 * n + j" "tm = Some (kAckTimeoutTimerId, OnAckTimeout)" "cr = crash_point n ic" "phase c = CollectingAcks"
      "num_participants c = n" "2 * n + j \<le> k" "p + of_bool (crash_point n ic) \<le> j" "j \<le> length tr" "goes_on n ic tr p d"
    unfolding coord_inv_def prod.inject env_at_inject by blast
  then show thesis
  proof cases
    case a
    from votes [OF a none [OF a(7)]] show ?thesis .
  qed (rule acks)
qed

interpretation coord: replayed "coordinator_protocol sim_env" "make_coordinator n bug" k tr ic "coord_inv n bug ic k tr" "coord_label n bug ic tr k" "coord_done n ic tr k" "coord_fails n ic tr k"
  for n bug k tr ic
proof
  show "coord_call_ends n bug ic k tr 0 (proto_start (coordinator_protocol sim_env) (make_coordinator n bug, env_at k tr ic 0 0 None False None))"
    using coordinator_starts by (simp add: coordinator_protocol_def)
  show "\<exists>c io j tm cr. s = (c, env_at k tr ic io j tm cr None) \<and> io \<le> k" if "coord_inv n bug ic k tr s" for s
    using that unfolding coord_inv_def by blast
next
  fix c io j tm cr v msg
  assume w: "coord_inv n bug ic k tr (c, env_at k tr ic io j tm cr None)" and j: "io < k" "j < length tr"
    and v: "tr ! j = Observed v" "decode_message v = Inr msg"
  from w show "coord_call_ends n bug ic k tr (Suc io) (proto_receive (coordinator_protocol sim_env) msg (c, env_at k tr ic (Suc io) (Suc j) tm cr None))"
  proof (cases rule: coord_inv_cases)
    case (votes seen yes vs)
    with vote_phase_receive [OF votes(7) j(2) _ v, of k bug ic] j show ?thesis by (simp add: coordinator_protocol_def)
  next
    case (acks p d)
    with ack_phase_receive [OF acks(4,5) _ _ _ acks(9), of "Suc j" k bug msg] j show ?thesis by (simp add: coordinator_protocol_def)
  qed
next
  fix c io j i callback cr
  assume w: "coord_inv n bug ic k tr (c, env_at k tr ic io j (Some (i, callback)) cr None)" and j: "io < k" "j < length tr" "tr ! j = BottomValue"
  from w show "coord_call_ends n bug ic k tr (Suc io) (proto_callback (coordinator_protocol sim_env) callback (c, env_at k tr ic (Suc io) (Suc j) None cr None))"
  proof (cases rule: coord_inv_cases)
    case (votes seen yes vs)
    with vote_timeout [OF votes(7) j(2) _ j(3), of k bug ic] j show ?thesis by (simp add: coordinator_protocol_def)
  next
    case (acks p d)
    have "coord_done n ic tr k" unfolding coord_done_def by (intro disjI1 exI [of _ p] exI [of _ d]) (use acks j in simp)
    with acks show ?thesis by (simp add: coordinator_protocol_def on_ack_timeout_def flow_simps call_ends_def)
  qed
next
  fix c io j cr assume "coord_inv n bug ic k tr (c, env_at k tr ic io j None cr None)"
  then show "coord_fails n ic tr k" by (cases rule: coord_inv_cases) auto
next
  fix c io j tm cr assume w: "coord_inv n bug ic k tr (c, env_at k tr ic io j tm cr None)" and j: "io < k" "unreadable tr j"
  from w show "coord_fails n ic tr k"
  proof (cases rule: coord_inv_cases)
    case (votes seen yes vs)
    with j show ?thesis by (auto simp: coord_fails_def)
  next
    case (acks p d)
    with ack_wait_fails [OF acks(9,7) _ acks(8) j(2)] j show ?thesis by simp
  qed
next
  fix c j tm cr assume w: "coord_inv n bug ic k tr (c, env_at k tr ic k j tm cr None)"
  then show "coord_label n bug ic tr k
      (Receive (if tm \<noteq> None then make_nonblocking_receive_label match_any_value else make_receive_label match_any_value Blocking))"
  proof (cases rule: coord_inv_cases)
    case (votes seen yes vs)
    then show ?thesis by (auto simp: coord_label_def)
  next
    case (acks p d)
    with ack_wait_label [OF acks(9)] show ?thesis by simp
  qed
qed

text \<open>C34. The thread function of the coordinator, on any trace and step: the replay ends within the fuel of one
  round per replayed operation; the label it captures is the one the reference reads off the trace; it ends without a label only
  after a crash or after the decisions; and it fails only on traces that are too short or hold values that are
  no messages or choices where these are due.\<close>

theorem coordinator_conforms:
  "\<exists>r. coordinator_run options tr step = Some r \<and>
     (case r of
        Inr (Some l) \<Rightarrow> coord_label (opt_num_participants options) (opt_bug_on_p1_no options) (opt_inject_crash options) tr step l
      | Inr None \<Rightarrow> coord_done (opt_num_participants options) (opt_inject_crash options) tr step
      | Inl e \<Rightarrow> coord_fails (opt_num_participants options) (opt_inject_crash options) tr step)"
  unfolding coordinator_run_def by (rule coord.run_cases)

end
