(* ===== verification/Tpc_Coord_History.thy ===== *)
theory Tpc_Coord_History
  imports Histories Tpc_Coordinator
begin

text \<open>
  The coordinator thread along an execution: which operations come in which phase and how long the trace is
  at each of them. From these shapes it follows that the replay never runs out of observations and never
  meets a value it cannot decode.
\<close>

section \<open>Where the decision falls\<close>

definition to_coord :: "nat \<Rightarrow> SimValue \<Rightarrow> bool" where
  "to_coord n v \<longleftrightarrow> (\<exists>pid. 1 \<le> pid \<and> pid \<le> n \<and> pid < 2 ^ 56 \<and> ((\<exists>vote. v = encode_message (VoteMsg pid vote)) \<or> v = encode_message (Ack pid)))"

lemma decided_from:
  assumes "decided n (take p tr) = Some (d, [])" "p \<le> j"
  shows "decided n (take j tr) = Some (d, drop p (take j tr))"
proof -
  have "take j tr = take p tr @ drop p (take j tr)" using assms(2) by (metis append_take_drop_id min.absorb1 take_take)
  with decided_append [OF assms(1), of "drop p (take j tr)"] show ?thesis by simp
qed

lemma decided_unique:
  assumes "decided n (take p tr) = Some (d, [])" "decided n (take p' tr) = Some (d', [])" "p \<le> length tr" "p' \<le> length tr"
  shows "p = p'" "d = d'"
proof -
  have "p = p' \<and> d = d'" if "p \<le> p'" "decided n (take p tr) = Some (d, [])" "decided n (take p' tr) = Some (d', [])" "p' \<le> length tr" for p p' d d'
    using decided_from [OF that(2,1)] that by auto
  from this [of p p' d d'] this [of p' p d' d] assms have "p = p' \<and> d = d'" by (cases "p \<le> p'") auto
  then show "p = p'" "d = d'" by auto
qed

lemma decided_before:
  assumes "decided n (take p tr) = Some (d, [])" "decided n (take j tr) = None"
  shows "j < p"
  using decided_from [OF assms(1), of j] assms(2) by (cases "p \<le> j") auto

lemma decided_last:
  assumes "decided n tr = None" "decided n (tr @ [obs]) = Some (d, rest)"
  shows "rest = []"
proof -
  from assms(2) collect_suffix [of n _ _ _ "tr @ [obs]" d rest] obtain used where
    u: "tr @ [obs] = used @ rest" "decided n used = Some (d, [])" unfolding decided_def by metis
  show ?thesis
  proof (cases rest rule: rev_cases)
    case (snoc rest' z)
    with u have "tr = used @ rest'" by simp
    with decided_append [OF u(2), of rest'] assms(1) show ?thesis by simp
  qed
qed

section \<open>Phases\<close>

text \<open>
  Preparing and collecting votes; at the crash choice; sending decisions and collecting acknowledgements;
  crashed. Beyond the phase, only the crash choice is not a message.
\<close>

definition coord_phase :: "nat \<Rightarrow> bool \<Rightarrow> nat \<Rightarrow> SimValue ThreadTrace \<Rightarrow> bool" where
  "coord_phase n ic k tr \<longleftrightarrow>
     length tr = k - n \<and> decided n tr = None
   \<or> crash_point n ic \<and> n \<le> k \<and> length tr = k - n \<and> (\<exists>d. decided n tr = Some (d, []))
   \<or> (\<exists>p d. goes_on n ic tr p d \<and> n + p + of_bool (crash_point n ic) \<le> k
        \<and> length tr = p + of_bool (crash_point n ic) + (k - (2 * n + p + of_bool (crash_point n ic))))
   \<or> (\<exists>p d v. crash_point n ic \<and> k = n + Suc p \<and> length tr = Suc p \<and> decided n (take p tr) = Some (d, [])
        \<and> tr ! p = Observed v \<and> decode_crash_choice v = Inr True)"

definition coord_shape :: "nat \<Rightarrow> bool \<Rightarrow> nat \<Rightarrow> SimValue ThreadTrace \<Rightarrow> bool" where
  "coord_shape n ic k tr \<longleftrightarrow> coord_phase n ic k tr
     \<and> (\<forall>j<length tr. unreadable tr j \<longrightarrow> crash_point n ic \<and> (\<exists>d. decided n (take j tr) = Some (d, [])))"

lemma coord_phase_cases:
  assumes "coord_phase n ic k tr"
  obtains (votes) "length tr = k - n" "decided n tr = None" "\<And>p d. decided n (take p tr) \<noteq> Some (d, [])"
  | (crash) d where "crash_point n ic" "n \<le> k" "length tr = k - n" "decided n tr = Some (d, [])"
  | (on) p d where "goes_on n ic tr p d" "n + p + of_bool (crash_point n ic) \<le> k"
      "length tr = p + of_bool (crash_point n ic) + (k - (2 * n + p + of_bool (crash_point n ic)))" "p \<le> length tr" "decided n (take p tr) = Some (d, [])"
  | (crashed) p d v where "crash_point n ic" "k = n + Suc p" "length tr = Suc p" "decided n (take p tr) = Some (d, [])"
      "tr ! p = Observed v" "decode_crash_choice v = Inr True"
proof -
  have none: "decided n (take p tr) \<noteq> Some (d, [])" if "decided n tr = None" for p d
    using decided_append [of n "take p tr" d "[]" "drop p tr"] that by auto
  have g: "p \<le> length tr" "decided n (take p tr) = Some (d, [])" if "goes_on n ic tr p d" for p d
    using that by (simp_all add: goes_on_def)
  from assms [unfolded coord_phase_def] show thesis
  proof (elim disjE exE)
    assume "length tr = k - n \<and> decided n tr = None"
    then show thesis using none by (intro votes) simp_all
  next
    fix p d assume "goes_on n ic tr p d \<and> n + p + of_bool (crash_point n ic) \<le> k
        \<and> length tr = p + of_bool (crash_point n ic) + (k - (2 * n + p + of_bool (crash_point n ic)))"
    with on g show thesis by blast
  qed (use crash crashed in blast)+
qed

section \<open>The replay does not fail\<close>

lemma coord_shape_safe:
  assumes "coord_shape n ic k tr"
  shows "\<not> coord_fails n ic tr k"
proof
  assume f: "coord_fails n ic tr k"
  from assms have ph: "coord_phase n ic k tr"
    and rd: "\<And>j. j < length tr \<Longrightarrow> unreadable tr j \<Longrightarrow> crash_point n ic \<and> (\<exists>d. decided n (take j tr) = Some (d, []))"
    by (auto simp: coord_shape_def)
  from f consider
    (a) j where "n + j < k" "j \<le> length tr" "decided n (take j tr) = None" "unreadable tr j"
  | (b) p d where "crash_point n ic" "n + p < k" "p \<le> length tr" "decided n (take p tr) = Some (d, [])" "p = length tr \<or> tr ! p = BottomValue"
  | (c) p d j where "goes_on n ic tr p d" "p + of_bool (crash_point n ic) \<le> j" "2 * n + j < k" "j \<le> length tr" "unreadable tr j"
    unfolding coord_fails_def by blast
  then show False
  proof cases
    case a
    have "j \<noteq> length tr"
      using ph
    proof (cases rule: coord_phase_cases)
      case (on p d)
      with decided_before [OF on(5) a(3)] show ?thesis by simp
    next
      case (crashed p d v)
      with decided_before [OF crashed(4) a(3)] show ?thesis by simp
    qed (use a in auto)
    with a rd [of j] show False by auto
  next
    case b
    from ph show False
    proof (cases rule: coord_phase_cases)
      case (crash d')
      with decided_unique(1) [OF b(4), of "length tr" d'] b show False by simp
    next
      case (on p' d')
      with decided_unique(1) [OF b(4) on(5) b(3)] b show False by (auto simp: goes_on_def passed_def)
    next
      case (crashed p' d' v)
      with decided_unique(1) [OF b(4) crashed(4) b(3)] b show False by auto
    qed (use b in auto)
  next
    case c
    then have p: "p \<le> length tr" "decided n (take p tr) = Some (d, [])" by (auto simp: goes_on_def)
    from ph show False
    proof (cases rule: coord_phase_cases)
      case (crash d')
      with decided_unique(1) [OF p(2), of "length tr" d'] p c show False by (simp add: goes_on_def passed_def)
    next
      case (on p' d')
      have "p' = p" by (rule decided_unique(1) [OF on(5) p(2) on(4) p(1)])
      with on c have "j < length tr" by auto
      from rd [OF this c(5)] obtain d'' where "crash_point n ic" "decided n (take j tr) = Some (d'', [])" by blast
      with decided_unique(1) [OF p(2), of j d''] p c show False by auto
    next
      case (crashed p' d' v)
      with decided_unique(1) [OF p(2) crashed(4) p(1)] c show False by (auto simp: goes_on_def passed_def)
    qed (use p in auto)
  qed
qed

section \<open>Phases follow each other\<close>

lemma to_coord_readable:
  assumes "to_coord n v"
  shows "\<exists>msg. decode_message v = Inr msg"
proof -
  from assms obtain pid vote where pid: "pid < 2 ^ 56" and v: "v = encode_message (VoteMsg pid vote) \<or> v = encode_message (Ack pid)"
    unfolding to_coord_def by blast
  have "message_id (VoteMsg pid vote) < 2 ^ 56" "message_id (Ack pid) < 2 ^ 56" using pid by (simp_all add: message_id_def)
  with v decode_encode show ?thesis by metis
qed

lemma unreadable_append: "j < length tr \<Longrightarrow> unreadable (tr @ obs) j \<longleftrightarrow> unreadable tr j"
  by (auto simp: unreadable_def nth_append)

lemma goes_on_append: "goes_on n ic tr p d \<Longrightarrow> goes_on n ic (tr @ obs) p d"
  by (auto simp: goes_on_def passed_def nth_append)

text \<open>What the coordinator sees at the operations of its phases.\<close>

lemma sees_wait:
  assumes "sees incoming wait_label e obs" "runs_on e"
  obtains v where "incoming v" "obs = [Observed v]" | "obs = [BottomValue]"
  using assms by (auto simp: sees_def instance_of_def runs_on_def split: if_splits)

lemma sees_crash:
  assumes "sees incoming crash_label e obs"
  obtains crash where "obs = [Observed (crash_choice crash)]"
  using assms by (auto simp: sees_def instance_of_def)

lemma sees_send: "sees incoming (Send sl) e obs \<Longrightarrow> obs = []"
  by (auto simp: sees_def instance_of_def)

lemma coord_label_cases:
  assumes "coord_label n bug ic tr k l" "\<forall>m. l \<noteq> Error m"
  obtains (prep) pid where "k < n" "l = Send \<lparr>destination = participant_to_thread pid, send_value = prepare_message\<rparr>" "pid = Suc k"
  | (vote) "n \<le> k" "k - n \<le> length tr" "decided n (take (k - n) tr) = None" "l = wait_label"
  | (crash) d where "crash_point n ic" "n \<le> k" "k - n \<le> length tr" "decided n (take (k - n) tr) = Some (d, [])" "l = crash_label"
  | (send) p d pid where "goes_on n ic tr p d" "1 \<le> pid" "pid \<le> n" "k = n + p + of_bool (crash_point n ic) + (pid - 1)" "l = decision_label pid d"
      "p \<le> length tr" "decided n (take p tr) = Some (d, [])" "crash_point n ic \<longrightarrow> passed tr p"
  | (ack) p d where "goes_on n ic tr p d" "2 * n + p + of_bool (crash_point n ic) \<le> k" "l = wait_label"
      "p \<le> length tr" "decided n (take p tr) = Some (d, [])" "crash_point n ic \<longrightarrow> passed tr p"
proof -
  have used: "p \<le> length tr" "decided n (take p tr) = Some (d, [])" "crash_point n ic \<longrightarrow> passed tr p" if "goes_on n ic tr p d" for p d
    using that by (auto simp: goes_on_def)
  from assms(1) [unfolded coord_label_def] show thesis
  proof (elim disjE)
    assume "k < n \<and> l = Send \<lparr>destination = participant_to_thread (1 + k), send_value = prepare_message\<rparr>"
    with prep show thesis by simp
  next
    assume "crash_point n ic \<and> n \<le> k \<and> k - n \<le> length tr \<and> (\<exists>d. decided n (take (k - n) tr) = Some (d, [])) \<and> l = crash_label"
    then show thesis by (elim conjE exE) (intro crash, simp_all)
  next
    assume "\<exists>p d pid. goes_on n ic tr p d \<and> 1 \<le> pid \<and> pid \<le> n \<and> k = n + p + of_bool (crash_point n ic) + (pid - 1) \<and> l = decision_label pid d"
    then show thesis by (elim exE conjE) (rule send, (assumption | erule used)+)
  next
    assume "\<exists>p d. goes_on n ic tr p d \<and> 2 * n + p + of_bool (crash_point n ic) \<le> k \<and> k - 2 * n \<le> length tr \<and> l = wait_label"
    then show thesis by (elim exE conjE) (rule ack, (assumption | erule used)+)
  qed (use vote assms(2) in simp_all)
qed

lemma coord_phase_step:
  assumes ph: "coord_phase n ic k tr" and l: "coord_label n bug ic tr k l" and e: "sees incoming l e obs" "runs_on e"
  shows "coord_phase n ic (Suc k) (tr @ obs)"
proof -
  have no_error: "\<forall>m. l \<noteq> Error m" using e by (auto simp: sees_def instance_of_def runs_on_def)
  from ph show ?thesis
  proof (cases rule: coord_phase_cases)
    case votes
    from l no_error show ?thesis
    proof (cases rule: coord_label_cases)
      case (prep pid)
      with e(1) have "obs = []" by (auto dest: sees_send)
      with prep votes show ?thesis by (simp add: coord_phase_def)
    next
      case vote
      with e have obs: "length obs = 1" by (auto elim: sees_wait)
      then obtain z where z: "obs = [z]" by (cases obs) auto
      show ?thesis
      proof (cases "decided n (tr @ obs)")
        case None
        with votes vote obs show ?thesis by (auto simp: coord_phase_def)
      next
        case (Some dr)
        then obtain d where d: "decided n (tr @ obs) = Some (d, [])"
          using decided_last [OF votes(2), of z] z by (cases dr) auto
        show ?thesis
        proof (cases "crash_point n ic")
          case True
          with d votes vote obs show ?thesis by (auto simp: coord_phase_def)
        next
          case False
          with d votes vote obs have "goes_on n ic (tr @ obs) (length (tr @ obs)) d" by (auto simp: goes_on_def)
          with False votes vote obs show ?thesis
            unfolding coord_phase_def by (intro disjI2 disjI1 exI [of _ "length (tr @ obs)"] exI [of _ d]) auto
        qed
      qed
    qed (use votes(3) in blast)+
  next
    case (crash d)
    have u: "p = k - n" if "decided n (take p tr) = Some (d', [])" "p \<le> length tr" for p d'
      using decided_unique(1) [OF that(1), of "length tr" d] that crash by simp
    from l no_error show ?thesis
    proof (cases rule: coord_label_cases)
      case c: (crash d')
      with e obtain b where b: "obs = [Observed (crash_choice b)]" by (auto elim: sees_crash)
      show ?thesis
      proof (cases b)
        case True
        with b crash c show ?thesis unfolding coord_phase_def
          by (intro disjI2 exI [of _ "k - n"] exI [of _ d] exI [of _ "crash_choice True"]) (auto simp: nth_append)
      next
        case False
        with b crash c have "goes_on n ic (tr @ obs) (k - n) d" by (auto simp: goes_on_def passed_def nth_append)
        with b crash c show ?thesis
          unfolding coord_phase_def by (intro disjI2 disjI1 exI [of _ "k - n"] exI [of _ d]) auto
      qed
    next
      case (send p d' pid)
      with u [OF send(7,6)] crash(1,3) show ?thesis by (simp add: passed_def)
    next
      case (ack p d')
      with u [OF ack(5,4)] crash(1,3) show ?thesis by (simp add: passed_def)
    qed (use crash in auto)
  next
    case (on p d)
    have u: "p' = p" if "decided n (take p' tr) = Some (d', [])" "p' \<le> length tr" for p' d'
      using decided_unique(1) [OF that(1) on(5) that(2) on(4)] .
    note next_on = goes_on_append [OF on(1), of obs]
    from l no_error show ?thesis
    proof (cases rule: coord_label_cases)
      case vote
      with decided_before [OF on(5) vote(3)] on show ?thesis by auto
    next
      case (crash d')
      with u [of "k - n" d'] on show ?thesis by auto
    next
      case (send p' d' pid)
      have p: "p' = p" by (rule u [OF send(7,6)])
      have "obs = []" using e(1) send(5) by (auto dest: sees_send)
      with on send p next_on show ?thesis
        unfolding coord_phase_def by (intro disjI2 disjI1 exI [of _ p] exI [of _ d]) auto
    next
      case (ack p' d')
      have p: "p' = p" by (rule u [OF ack(5,4)])
      have "length obs = 1" using e ack(3) by (auto elim: sees_wait)
      with on ack p next_on show ?thesis
        unfolding coord_phase_def by (intro disjI2 disjI1 exI [of _ p] exI [of _ d]) auto
    qed (use on in auto)
  next
    case (crashed p d v)
    have np: "\<not> passed tr p" using crashed by (auto simp: passed_def)
    have u: "p' = p" if "decided n (take p' tr) = Some (d', [])" "p' \<le> length tr" for p' d'
      using decided_unique(1) [OF that(1) crashed(4) that(2)] crashed by simp
    from l no_error show ?thesis
    proof (cases rule: coord_label_cases)
      case vote
      with decided_before [OF crashed(4) vote(3)] crashed show ?thesis by auto
    next
      case (crash d')
      with u [of "k - n" d'] crashed show ?thesis by auto
    next
      case (send p' d' pid)
      with u [OF send(7,6)] crashed(1) np show ?thesis by simp
    next
      case (ack p' d')
      with u [OF ack(5,4)] crashed(1) np show ?thesis by simp
    qed (use crashed in auto)
  qed
qed

lemma coord_crash_now:
  assumes "coord_phase n ic k tr" "crash_point n ic" "n \<le> k" "k - n \<le> length tr" "decided n (take (k - n) tr) = Some (d, [])"
  shows "length tr = k - n" "decided n tr = Some (d, [])"
proof -
  from assms(1) show "length tr = k - n"
  proof (cases rule: coord_phase_cases)
    case (on p d')
    with decided_unique(1) [OF assms(5) on(5) assms(4) on(4)] assms show ?thesis by simp
  next
    case (crashed p d' v)
    with decided_unique(1) [OF assms(5) crashed(4) assms(4)] show ?thesis by simp
  qed auto
  with assms(5) show "decided n tr = Some (d, [])" by simp
qed

lemma coord_shape_step:
  assumes sh: "coord_shape n ic k tr" and l: "coord_label n bug ic tr k l" and e: "sees (to_coord n) l e obs" "runs_on e"
  shows "coord_shape n ic (Suc k) (tr @ obs)"
  unfolding coord_shape_def
proof (intro conjI allI impI)
  have ph: "coord_phase n ic k tr" using sh by (simp add: coord_shape_def)
  show "coord_phase n ic (Suc k) (tr @ obs)" by (rule coord_phase_step [OF ph l e])
  have no_error: "\<forall>m. l \<noteq> Error m" using e by (auto simp: sees_def instance_of_def runs_on_def)
  fix j assume j: "j < length (tr @ obs)" "unreadable (tr @ obs) j"
  have "crash_point n ic \<and> (\<exists>d. decided n (take j (tr @ obs)) = Some (d, []))"
  proof (cases "j < length tr")
    case True
    with j(2) sh show ?thesis by (auto simp: coord_shape_def unreadable_append)
  next
    case False
    then have o: "obs \<noteq> []" using j(1) by auto
    have wait: False if "l = wait_label"
      using e that j False by (auto simp: unreadable_def nth_append elim!: sees_wait dest: to_coord_readable)
    from l no_error show ?thesis
    proof (cases rule: coord_label_cases)
      case (crash d)
      note now = coord_crash_now [OF ph crash(1-4)]
      from e(1) crash(5) obtain b where "obs = [Observed (crash_choice b)]" by (auto elim: sees_crash)
      with False j(1) have "j = length tr" by simp
      with now crash(1) show ?thesis by simp
    qed (use wait e(1) o in \<open>auto dest: sees_send\<close>)
  qed
  then show ic "0 < n" "\<exists>d. decided n (take j (tr @ obs)) = Some (d, [])" by blast+
qed

lemma coord_never_blocks:
  assumes "coord_label n bug ic tr k l"
  shows "\<not> instance_of l Block"
proof
  assume b: "instance_of l Block"
  then have no_error: "\<forall>m. l \<noteq> Error m" by (auto simp: instance_of_def)
  from assms no_error show False
    by (cases rule: coord_label_cases)
      (use b in \<open>auto simp: instance_of_Block make_nonblocking_receive_label_def make_receive_label_def is_blocking_def\<close>)
qed

interpretation coord_history: history "coord_label n bug ic" "to_coord n" "coord_shape n ic" for n bug ic
proof
  show "coord_shape n ic 0 []" by (simp add: coord_shape_def coord_phase_def decided_def)
  show "coord_shape n ic (Suc k) (tr @ obs)"
    if "coord_shape n ic k tr" "coord_label n bug ic tr k l" "sees (to_coord n) l e obs" "runs_on e" for k tr l e obs
    by (rule coord_shape_step [OF that])
  show "\<not> coord_label n bug ic tr (Suc k) l'" if "coord_label n bug ic tr k l" "instance_of l Block" for k tr l l'
    using that coord_never_blocks by blast
qed

end
