(* ===== verification/Tpc_Participant.thy ===== *)
theory Tpc_Participant
  imports Tpc_Replay
begin

text \<open>
  What a participant thread of the two-phase commit example does at each step: it waits for the
  preparation, chooses its vote, sends it, waits for the decision or the timeout, and acknowledges.
\<close>

section \<open>The preparation, read off the trace\<close>

fun prepared :: "SimValue ThreadTrace \<Rightarrow> SimValue ThreadTrace option" where
  "prepared [] = None"
| "prepared (BottomValue # obs) = None"
| "prepared (Observed v # obs) = (if decode_message v = Inr Prepare then Some obs else prepared obs)"

lemma prepared_append: "prepared obs = Some rest \<Longrightarrow> prepared (obs @ ext) = Some (rest @ ext)"
  by (induction obs rule: prepared.induct) (auto split: if_splits)

text \<open>The participant was prepared after \<open>p\<close> observations and then chose its vote.\<close>

definition votes_at :: "SimValue ThreadTrace \<Rightarrow> nat \<Rightarrow> Vote \<Rightarrow> bool" where
  "votes_at tr p vote \<longleftrightarrow> p < length tr \<and> prepared (take p tr) = Some []
     \<and> (\<exists>v. tr ! p = Observed v \<and> decode_vote_choice v = Inr vote)"

text \<open>From there on it has seen messages, none of them a decision, up to its observation \<open>j\<close>.\<close>

definition undecided :: "SimValue ThreadTrace \<Rightarrow> nat \<Rightarrow> nat \<Rightarrow> bool" where
  "undecided tr p j \<longleftrightarrow> (\<forall>i. p < i \<and> i < j \<longrightarrow> (\<exists>v msg. tr ! i = Observed v \<and> decode_message v = Inr msg \<and> \<not> is_decision msg))"

lemma undecided_step:
  assumes "undecided tr p j" "tr ! j = Observed v" "decode_message v = Inr msg" "\<not> is_decision msg"
  shows "undecided tr p (Suc j)"
  using assms by (auto simp: undecided_def less_Suc_eq)

abbreviation vote_label :: "SimValue EventLabel" where
  "vote_label \<equiv> NondeterministicChoice \<lparr>nd_value = SimValue 0, choices = [vote_choice Yes, vote_choice No]\<rparr>"

abbreviation to_coordinator :: "Message \<Rightarrow> SimValue EventLabel" where
  "to_coordinator msg \<equiv> Send \<lparr>destination = participant_to_thread kCoordinator, send_value = encode_message msg\<rparr>"

definition part_label :: "ParticipantId \<Rightarrow> SimValue ThreadTrace \<Rightarrow> nat \<Rightarrow> SimValue EventLabel \<Rightarrow> bool" where
  "part_label pid tr k l \<longleftrightarrow>
     k \<le> length tr \<and> prepared (take k tr) = None \<and> l = Receive (make_receive_label match_any_value Blocking)
   \<or> k \<le> length tr \<and> prepared (take k tr) = Some [] \<and> l = vote_label
   \<or> (\<exists>p vote. votes_at tr p vote \<and> k = p + 1 \<and> l = to_coordinator (VoteMsg pid vote))
   \<or> (\<exists>p vote. votes_at tr p vote \<and> p + 2 \<le> k \<and> k - 1 \<le> length tr \<and> undecided tr p (k - 1)
        \<and> l = Receive (make_nonblocking_receive_label match_any_value))
   \<or> (\<exists>p vote. votes_at tr p vote \<and> p + 2 < k \<and> k - 1 \<le> length tr \<and> undecided tr p (k - 2)
        \<and> (\<exists>v d. tr ! (k - 2) = Observed v \<and> decode_message v = Inr (DecisionMsg d)) \<and> l = to_coordinator (Ack pid))
   \<or> (\<exists>m. l = Error m) \<and> (\<exists>p v e. p < k \<and> p < length tr \<and> prepared (take p tr) = Some [] \<and> tr ! p = Observed v \<and> decode_vote_choice v = Inl e)"

definition part_fails :: "SimValue ThreadTrace \<Rightarrow> nat \<Rightarrow> bool" where
  "part_fails tr k \<longleftrightarrow>
     (\<exists>j. j < k \<and> j \<le> length tr \<and> prepared (take j tr) = None \<and> (unreadable tr j \<or> tr ! j = BottomValue))
   \<or> (\<exists>p. p < k \<and> p \<le> length tr \<and> prepared (take p tr) = Some [] \<and> (p = length tr \<or> tr ! p = BottomValue))
   \<or> (\<exists>p vote j. votes_at tr p vote \<and> p < j \<and> j + 1 < k \<and> j \<le> length tr \<and> undecided tr p j \<and> unreadable tr j)"

text \<open>A participant is done when the timeout or the decision ended its wait, and the decision is acknowledged.\<close>

definition part_done :: "SimValue ThreadTrace \<Rightarrow> nat \<Rightarrow> bool" where
  "part_done tr k \<longleftrightarrow> (\<exists>p vote j. votes_at tr p vote \<and> p < j \<and> j < length tr \<and> undecided tr p j
     \<and> (tr ! j = BottomValue \<and> j + 1 < k \<or> (\<exists>v d. tr ! j = Observed v \<and> decode_message v = Inr (DecisionMsg d)) \<and> j + 2 < k))"

definition part_inv :: "ParticipantId \<Rightarrow> nat \<Rightarrow> SimValue ThreadTrace \<Rightarrow> Participant \<times> SimEnvironment \<Rightarrow> bool" where
  "part_inv pid k tr s \<longleftrightarrow>
     (\<exists>j. s = (make_participant pid, env_at k tr False j j None False None) \<and> j \<le> k \<and> j \<le> length tr
        \<and> (\<forall>ext. prepared (take j tr @ ext) = prepared ext))
   \<or> (\<exists>p vote j c. s = (c, env_at k tr False (Suc j) j (Some (kDecisionTimeoutTimerId, OnDecisionTimeout)) False None)
        \<and> participant_state c = WaitDecision \<and> participant_id c = pid \<and> Suc j \<le> k \<and> p < j \<and> j \<le> length tr \<and> votes_at tr p vote \<and> undecided tr p j)"

lemma part_inv_cases:
  assumes "part_inv pid k tr (c, env_at k tr False io j tm cr None)"
  obtains (waiting) "c = make_participant pid" "io = j" "tm = None" "\<not> cr" "j \<le> k" "j \<le> length tr"
      "\<forall>ext. prepared (take j tr @ ext) = prepared ext" "prepared (take j tr) = None"
  | (voted) p vote where "io = Suc j" "tm = Some (kDecisionTimeoutTimerId, OnDecisionTimeout)" "\<not> cr" "participant_state c = WaitDecision"
      "participant_id c = pid" "Suc j \<le> k" "p < j" "j \<le> length tr" "votes_at tr p vote" "undecided tr p j"
proof -
  have none: "prepared (take j tr) = None" if "\<forall>ext. prepared (take j tr @ ext) = prepared ext"
    using that by (metis append_Nil2 prepared.simps(1))
  from assms waiting voted none show thesis
    unfolding part_inv_def prod.inject env_at_inject by (elim disjE exE conjE) (simp, blast)
qed

abbreviation part_call_ends :: "ParticipantId \<Rightarrow> nat \<Rightarrow> SimValue ThreadTrace \<Rightarrow> nat
    \<Rightarrow> (SimException + bool) \<times> (Participant \<times> SimEnvironment) \<Rightarrow> bool" where
  "part_call_ends pid k tr \<equiv> call_ends (part_inv pid k tr) (part_label pid tr k) (part_done tr k) (part_fails tr k)"

lemma decode_vote_std: "decode_vote_choice v = Inl e \<Longrightarrow> \<exists>what. e = StdException what"
  by (auto simp: decode_vote_choice_def split: option.splits Tag.splits)

lemma get_vote_at:
  "on_env (env_get_vote sim_env) (c, env_at k tr ic io j tm cr None) =
    (if io < k
     then (if j \<ge> length tr then (Inl (SimulationFailure ''trace shorter than expected for simulated replay''), (c, env_at k tr ic (io + 1) (j + 1) tm cr None))
           else case tr ! j of
             BottomValue \<Rightarrow> (Inl (SimulationFailure ''trace requested a concrete value but observed bottom''), (c, env_at k tr ic (io + 1) (j + 1) tm cr None))
           | Observed v \<Rightarrow> (decode_vote_choice v, (c, env_at k tr ic (io + 1) (j + 1) tm cr None)))
     else (Inl StepBoundaryReached, (c, env_at k tr ic (io + 1) j tm cr (Some vote_label))))"
  by (auto simp: on_env_def sim_env_def sim_get_vote_def bind_sim_def sim_choice_at lift_sim_def split: ObservedValue.splits)

lemma send_at:
  "on_env (env_send sim_env kCoordinator msg) (c, env_at k tr False io j tm cr None) =
    (if io < k then (Inr (), (c, env_at k tr False (io + 1) j tm cr None))
     else (Inl StepBoundaryReached, (c, env_at k tr False (io + 1) j tm cr (Some (to_coordinator msg)))))"
  by (simp add: on_env_def sim_env_def sim_send_at)

lemma prepare_received:
  assumes p: "prepared (take p tr) = Some []" "p \<le> length tr" "p \<le> k"
  shows "part_call_ends pid k tr p (participant_receive sim_env Prepare (make_participant pid, env_at k tr False p p None False None))"
proof -
  let ?s = "(make_participant pid, env_at k tr False p p None False None)"
  have r: "participant_receive sim_env Prepare ?s = bind_sim (on_env (env_get_vote sim_env)) (\<lambda>vote.
      then_sim (on_env (env_send sim_env kCoordinator (VoteMsg pid vote)))
        (then_sim (on_env (env_set_timer sim_env kDecisionTimeoutTimerId 1000 OnDecisionTimeout))
          (then_sim (on_obj (\<lambda>p. p\<lparr>participant_state := WaitDecision\<rparr>)) (return_sim True)))) ?s"
    by (simp add: participant_receive_def bind_sim_def get_obj_def make_participant_def)
  consider (ask) "p = k" | (short) "p < k" "p = length tr \<or> tr ! p = BottomValue" | (odd) v e where "p < k" "p < length tr" "tr ! p = Observed v" "decode_vote_choice v = Inl e"
    | (voted) v vote where "p < k" "p < length tr" "tr ! p = Observed v" "decode_vote_choice v = Inr vote"
    using p(2,3) by (cases "tr ! p"; cases "p < length tr"; cases "p = k") (auto, metis sum.exhaust)
  then show ?thesis
  proof cases
    case ask
    with p show ?thesis unfolding r by (simp add: bind_sim_def get_vote_at call_ends_def part_label_def)
  next
    case short
    with p have "part_fails tr k" by (auto simp: part_fails_def)
    moreover have "\<exists>what s. on_env (env_get_vote sim_env) ?s = (Inl (SimulationFailure what), s)"
      using short p(2) by (auto simp: get_vote_at)
    ultimately show ?thesis unfolding r by (auto simp: bind_sim_def call_ends_def)
  next
    case (odd v e)
    with decode_vote_std obtain what where "e = StdException what" by blast
    with odd p show ?thesis unfolding r by (auto simp: bind_sim_def get_vote_at call_ends_def part_label_def)
  next
    case (voted v vote)
    then have v: "votes_at tr p vote" using p by (auto simp: votes_at_def)
    show ?thesis
    proof (cases "Suc p < k")
      case True
      have "part_inv pid k tr ((make_participant pid)\<lparr>participant_state := WaitDecision\<rparr>,
          env_at k tr False (Suc (Suc p)) (Suc p) (Some (kDecisionTimeoutTimerId, OnDecisionTimeout)) False None)"
        unfolding part_inv_def
        by (intro disjI2 exI [of _ p] exI [of _ vote] exI [of _ "Suc p"] exI [of _ "(make_participant pid)\<lparr>participant_state := WaitDecision\<rparr>"])
          (use True v voted in \<open>auto simp: make_participant_def undecided_def\<close>)
      moreover have "on_env (env_set_timer sim_env kDecisionTimeoutTimerId 1000 OnDecisionTimeout)
          (make_participant pid, env_at k tr False (Suc (Suc p)) (Suc p) None False None)
          = (Inr (), (make_participant pid, env_at k tr False (Suc (Suc p)) (Suc p) (Some (kDecisionTimeoutTimerId, OnDecisionTimeout)) False None))"
        by (simp add: on_env_def sim_env_def set_timer_at)
      ultimately show ?thesis
        using True voted unfolding r by (simp add: bind_sim_def then_sim_def get_vote_at send_at on_obj_def return_sim_def call_ends_def)
    next
      case False
      with voted(1) have "k = p + 1" by simp
      with v have "part_label pid tr k (to_coordinator (VoteMsg pid vote))" by (auto simp: part_label_def)
      with False voted show ?thesis
        unfolding r by (simp add: bind_sim_def then_sim_def get_vote_at send_at call_ends_def)
    qed
  qed
qed

lemma receive_waiting:
  assumes c: "\<forall>ext. prepared (take j tr @ ext) = prepared ext" and j: "j < length tr" "j < k"
    and v: "tr ! j = Observed v" "decode_message v = Inr msg"
  shows "part_call_ends pid k tr (Suc j) (participant_receive sim_env msg (make_participant pid, env_at k tr False (Suc j) (Suc j) None False None))"
proof (cases "msg = Prepare")
  case True
  have "prepared (take (Suc j) tr) = Some []"
    using c True v j by (simp add: take_Suc_conv_app_nth)
  with True j prepare_received [of "Suc j" tr k pid] show ?thesis by simp
next
  case False
  have "\<forall>ext. prepared (take (Suc j) tr @ ext) = prepared ext"
    using c False v j by (simp add: take_Suc_conv_app_nth)
  then have "part_inv pid k tr (make_participant pid, env_at k tr False (Suc j) (Suc j) None False None)"
    using j unfolding part_inv_def by (intro disjI1 exI [of _ "Suc j"]) auto
  moreover have "participant_receive sim_env msg (make_participant pid, e) = (Inr True, (make_participant pid, e))" for e
    using False by (simp add: participant_receive_def flow_simps make_participant_def)
  ultimately show ?thesis by (simp add: call_ends_def)
qed

lemma receive_voted:
  assumes c: "participant_state c = WaitDecision" "participant_id c = pid" and j: "Suc j < k" "p < j" "j < length tr"
    and p: "votes_at tr p vote" "undecided tr p j" and v: "tr ! j = Observed v" "decode_message v = Inr msg"
  shows "part_call_ends pid k tr (Suc (Suc j)) (participant_receive sim_env msg
    (c, env_at k tr False (Suc (Suc j)) (Suc j) (Some (kDecisionTimeoutTimerId, OnDecisionTimeout)) False None))"
proof (cases "is_decision msg")
  case False
  then have "participant_receive sim_env msg (c, e) = (Inr True, (c, e))" for e
    using c by (simp add: participant_receive_def flow_simps is_decision_def split: Message.splits)
  moreover have "part_inv pid k tr (c, env_at k tr False (Suc (Suc j)) (Suc j) (Some (kDecisionTimeoutTimerId, OnDecisionTimeout)) False None)"
    using c j p(1) undecided_step [OF p(2) v False]
    unfolding part_inv_def by (intro disjI2 exI [of _ p] exI [of _ vote] exI [of _ "Suc j"] exI [of _ c]) auto
  ultimately show ?thesis by (simp add: call_ends_def)
next
  case True
  then obtain d where d: "msg = DecisionMsg d" by (auto simp: is_decision_def split: Message.splits)
  have cancel: "on_env (env_cancel_timer sim_env kDecisionTimeoutTimerId)
      (c, env_at k tr False io i (Some (kDecisionTimeoutTimerId, OnDecisionTimeout)) False None) = (Inr (), (c, env_at k tr False io i None False None))" for io i
    by (simp add: on_env_def sim_env_def cancel_timer_at)
  show ?thesis
  proof (cases "Suc (Suc j) < k")
    case True
    then have "part_done tr k" unfolding part_done_def
      by (intro exI [of _ p] exI [of _ vote] exI [of _ j]) (use p j v d in auto)
    with True show ?thesis using c d
      by (simp add: participant_receive_def flow_simps cancel send_at call_ends_def)
  next
    case False
    with j(1) have k: "k = Suc (Suc j)" by simp
    have "part_label pid tr k (to_coordinator (Ack pid))"
      unfolding part_label_def using p j v d k by auto
    then show ?thesis using c d False
      by (simp add: participant_receive_def flow_simps cancel send_at call_ends_def)
  qed
qed

interpretation part: replayed "participant_protocol sim_env" "make_participant pid" k tr False "part_inv pid k tr" "part_label pid tr k" "part_done tr k" "part_fails tr k"
  for pid k tr
proof
  show "part_call_ends pid k tr 0 (proto_start (participant_protocol sim_env) (make_participant pid, env_at k tr False 0 0 None False None))"
    by (auto simp: participant_protocol_def participant_start_def flow_simps call_ends_def part_inv_def make_participant_def)
  show "\<exists>c io j tm cr. s = (c, env_at k tr False io j tm cr None) \<and> io \<le> k" if "part_inv pid k tr s" for s
    using that unfolding part_inv_def by blast
next
  fix c io j tm cr v msg
  assume w: "part_inv pid k tr (c, env_at k tr False io j tm cr None)" and j: "io < k" "j < length tr"
    and v: "tr ! j = Observed v" "decode_message v = Inr msg"
  from w show "part_call_ends pid k tr (Suc io) (proto_receive (participant_protocol sim_env) msg (c, env_at k tr False (Suc io) (Suc j) tm cr None))"
  proof (cases rule: part_inv_cases)
    case waiting
    with receive_waiting [OF waiting(7) j(2) _ v] j show ?thesis by (simp add: participant_protocol_def)
  next
    case (voted p vote)
    with receive_voted [OF voted(4,5) _ voted(7) j(2) voted(9,10) v] j show ?thesis by (simp add: participant_protocol_def)
  qed
next
  fix c io j i callback cr
  assume w: "part_inv pid k tr (c, env_at k tr False io j (Some (i, callback)) cr None)" and j: "io < k" "j < length tr" "tr ! j = BottomValue"
  from w show "part_call_ends pid k tr (Suc io) (proto_callback (participant_protocol sim_env) callback (c, env_at k tr False (Suc io) (Suc j) None cr None))"
  proof (cases rule: part_inv_cases)
    case (voted p vote)
    then have "part_done tr k" unfolding part_done_def
      by (intro exI [of _ p] exI [of _ vote] exI [of _ j]) (use j in auto)
    with voted show ?thesis by (auto simp: participant_protocol_def on_decision_timeout_def flow_simps call_ends_def)
  qed simp
next
  fix c io j cr assume "part_inv pid k tr (c, env_at k tr False io j None cr None)" "io < k" "j < length tr" "tr ! j = BottomValue"
  then show "part_fails tr k" by (cases rule: part_inv_cases) (auto simp: part_fails_def)
next
  fix c io j tm cr assume "part_inv pid k tr (c, env_at k tr False io j tm cr None)" "io < k" "unreadable tr j"
  then show "part_fails tr k" by (cases rule: part_inv_cases) (auto simp: part_fails_def)
next
  fix c j tm cr assume "part_inv pid k tr (c, env_at k tr False k j tm cr None)"
  then show "part_label pid tr k
      (Receive (if tm \<noteq> None then make_nonblocking_receive_label match_any_value else make_receive_label match_any_value Blocking))"
  proof (cases rule: part_inv_cases)
    case waiting
    then show ?thesis by (simp add: part_label_def)
  next
    case (voted p vote)
    then show ?thesis unfolding part_label_def by auto
  qed
qed

text \<open>C35. The thread function of a participant, on any trace and step: the replay ends within its fuel; it waits for the
  preparation at blocking receives, then chooses, sends the vote it chose, waits for the decision at receives that may time out,
  and acknowledges; it is done after the timeout or the acknowledgement; and it fails only on traces that are
  too short or hold values that are no messages or choices where these are due.\<close>

theorem participant_conforms:
  "\<exists>r. participant_run pid tr step = Some r \<and>
     (case r of Inr (Some l) \<Rightarrow> part_label pid tr step l | Inr None \<Rightarrow> part_done tr step | Inl e \<Rightarrow> part_fails tr step)"
  unfolding participant_run_def by (rule part.run_cases)

end
