(* ===== verification/Tpc_Part_History.thy ===== *)
theory Tpc_Part_History
  imports Tpc_Coord_History Tpc_Participant
begin

text \<open>
  A participant thread along an execution: it waits for the preparation, chooses and sends its vote, waits for the
  decision and acknowledges it, and its replay never fails on the way.
\<close>

section \<open>Where the preparation falls\<close>

definition to_part :: "SimValue \<Rightarrow> bool" where
  "to_part v \<longleftrightarrow> v = encode_message Prepare \<or> (\<exists>d. v = encode_message (DecisionMsg d))"

lemma to_part_decodes:
  assumes "to_part v"
  obtains "decode_message v = Inr Prepare" | d where "decode_message v = Inr (DecisionMsg d)"
  using assms decode_encode [of Prepare] decode_encode [of "DecisionMsg _"] by (auto simp: to_part_def message_id_def)

lemma prepared_from:
  assumes "prepared (take p tr) = Some []" "p \<le> j"
  shows "prepared (take j tr) = Some (drop p (take j tr))"
proof -
  have "take j tr = take p tr @ drop p (take j tr)" using assms(2) by (metis append_take_drop_id min.absorb1 take_take)
  with prepared_append [OF assms(1), of "drop p (take j tr)"] show ?thesis by simp
qed

lemma prepared_unique:
  assumes "prepared (take p tr) = Some []" "prepared (take p' tr) = Some []" "p \<le> length tr" "p' \<le> length tr"
  shows "p = p'"
proof -
  have "p = p'" if "p \<le> p'" "prepared (take p tr) = Some []" "prepared (take p' tr) = Some []" "p' \<le> length tr" for p p'
    using prepared_from [OF that(2,1)] that by auto
  from this [of p p'] this [of p' p] assms show ?thesis by (cases "p \<le> p'") auto
qed

lemma prepared_before:
  assumes "prepared (take p tr) = Some []" "prepared (take j tr) = None"
  shows "j < p"
  using prepared_from [OF assms(1), of j] assms(2) by (cases "p \<le> j") auto

lemma prepared_clean: "prepared tr = Some rest \<Longrightarrow> BottomValue \<in> set tr \<Longrightarrow> BottomValue \<in> set rest"
  by (induction tr rule: prepared.induct) (auto split: if_splits)

lemma prepared_bottom: "prepared tr = None \<Longrightarrow> BottomValue \<in> set tr \<Longrightarrow> prepared (tr @ ext) = None"
  by (induction tr rule: prepared.induct) (auto split: if_splits)

lemma prepared_seen: "Observed v \<in> set tr \<Longrightarrow> decode_message v = Inr Prepare \<Longrightarrow> BottomValue \<notin> set tr \<Longrightarrow> prepared tr \<noteq> None"
  by (induction tr rule: prepared.induct) auto

definition unprepared :: "SimValue ThreadTrace \<Rightarrow> bool" where
  "unprepared tr \<longleftrightarrow> (\<forall>ext. prepared (tr @ ext) = prepared ext)"

lemma unprepared_none:
  assumes "unprepared tr"
  shows "prepared tr = None" "prepared (take p tr) = None" "BottomValue \<notin> set tr"
proof -
  show n: "prepared tr = None" using assms unfolding unprepared_def by (metis append_Nil2 prepared.simps(1))
  then show "prepared (take p tr) = None"
    using prepared_append [of "take p tr" _ "drop p tr"] by (cases "prepared (take p tr)") auto
  have "prepared (tr @ [Observed (encode_message Prepare)]) = Some []"
    using assms decode_encode [of Prepare] by (simp add: unprepared_def message_id_def)
  with prepared_bottom [OF n, of "[Observed (encode_message Prepare)]"] show "BottomValue \<notin> set tr" by auto
qed

lemma unprepared_not_voted: "unprepared tr \<Longrightarrow> \<not> votes_at tr p vote"
  using unprepared_none(2) by (auto simp: votes_at_def)

lemma votes_atD:
  assumes "votes_at tr p vote"
  shows "p < length tr" "prepared (take p tr) = Some []" "\<exists>v. tr ! p = Observed v \<and> decode_vote_choice v = Inr vote"
  using assms by (auto simp: votes_at_def)

lemma votes_at_unique:
  assumes "votes_at tr p vote" "votes_at tr p' vote'"
  shows "p = p'" "vote = vote'"
proof -
  show "p = p'" using votes_atD [OF assms(1)] votes_atD [OF assms(2)] by (auto intro: prepared_unique)
  with assms show "vote = vote'" by (auto simp: votes_at_def)
qed

lemma votes_at_append: "votes_at tr p vote \<Longrightarrow> votes_at (tr @ obs) p vote"
  by (auto simp: votes_at_def nth_append)

lemma undecided_append: "j \<le> length tr \<Longrightarrow> undecided (tr @ obs) p j = undecided tr p j"
  by (auto simp: undecided_def nth_append)

section \<open>Phases\<close>

definition part_phase :: "nat \<Rightarrow> SimValue ThreadTrace \<Rightarrow> bool" where
  "part_phase k tr \<longleftrightarrow>
     length tr = k \<and> unprepared tr
   \<or> length tr = k \<and> prepared tr = Some []
   \<or> (\<exists>p vote. votes_at tr p vote \<and> k = Suc p \<and> length tr = Suc p)
   \<or> (\<exists>p vote. votes_at tr p vote \<and> p + 2 \<le> k \<and> length tr = k - 1 \<and> undecided tr p (k - 2))
   \<or> (\<exists>p vote j v d. votes_at tr p vote \<and> p < j \<and> length tr = Suc j \<and> k = j + 3 \<and> tr ! j = Observed v \<and> decode_message v = Inr (DecisionMsg d))"

definition part_shape :: "nat \<Rightarrow> SimValue ThreadTrace \<Rightarrow> bool" where
  "part_shape k tr \<longleftrightarrow> part_phase k tr \<and> (\<forall>j<length tr. unreadable tr j \<longrightarrow> prepared (take j tr) = Some [])"

lemma part_phase_cases:
  assumes "part_phase k tr"
  obtains (waiting) "length tr = k" "unprepared tr"
  | (choosing) "length tr = k" "prepared tr = Some []"
  | (chosen) p vote where "votes_at tr p vote" "k = Suc p" "length tr = Suc p"
  | (voted) p vote where "votes_at tr p vote" "p + 2 \<le> k" "length tr = k - 1" "undecided tr p (k - 2)"
  | (acked) p vote j v d where "votes_at tr p vote" "p < j" "length tr = Suc j" "k = j + 3" "tr ! j = Observed v" "decode_message v = Inr (DecisionMsg d)"
  using assms unfolding part_phase_def by blast

lemma part_label_cases:
  assumes "part_label pid tr k l" "\<forall>m. l \<noteq> Error m"
  obtains (wait) "k \<le> length tr" "prepared (take k tr) = None" "l = Receive (make_receive_label match_any_value Blocking)"
  | (choose) "k \<le> length tr" "prepared (take k tr) = Some []" "l = vote_label"
  | (vote) p vote where "votes_at tr p vote" "k = p + 1" "l = to_coordinator (VoteMsg pid vote)"
  | (wait_decision) p vote where "votes_at tr p vote" "p + 2 \<le> k" "k - 1 \<le> length tr" "undecided tr p (k - 1)" "l = wait_label"
  | (ack) p vote v d where "votes_at tr p vote" "p + 2 < k" "k - 1 \<le> length tr" "undecided tr p (k - 2)" "tr ! (k - 2) = Observed v"
      "decode_message v = Inr (DecisionMsg d)" "l = to_coordinator (Ack pid)"
  using assms unfolding part_label_def by (elim disjE exE conjE) metis+

lemma part_shape_safe:
  assumes "part_shape k tr"
  shows "\<not> part_fails tr k"
proof
  assume f: "part_fails tr k"
  from assms have ph: "part_phase k tr" and rd: "\<And>j. j < length tr \<Longrightarrow> unreadable tr j \<Longrightarrow> prepared (take j tr) = Some []"
    by (auto simp: part_shape_def)
  from f consider
    (a) j where "j < k" "j \<le> length tr" "prepared (take j tr) = None" "unreadable tr j \<or> tr ! j = BottomValue"
  | (b) p where "p < k" "p \<le> length tr" "prepared (take p tr) = Some []" "p = length tr \<or> tr ! p = BottomValue"
  | (c) p vote j where "votes_at tr p vote" "p < j" "j + 1 < k" "j \<le> length tr" "undecided tr p j" "unreadable tr j"
    unfolding part_fails_def by blast
  then show False
  proof cases
    case a
    have later: False if v: "votes_at tr p vote" for p vote
    proof -
      note vD = votes_atD [OF v]
      have j: "j < p" by (rule prepared_before [OF vD(2) a(3)])
      with a rd [of j] vD(1) have "tr ! j = BottomValue" by auto
      then have "BottomValue \<in> set (take p tr)" using j vD(1) by (auto simp: in_set_conv_nth intro!: exI [of _ j])
      with prepared_clean [OF vD(2)] show False by simp
    qed
    from ph show False
    proof (cases rule: part_phase_cases)
      case waiting
      with a rd [of j] unprepared_none(3) [OF waiting(2)] show False by (metis nth_mem option.distinct(1))
    next
      case choosing
      then have "j < length tr" using a by simp
      with a rd [of j] have "BottomValue \<in> set tr" by (metis nth_mem option.distinct(1))
      with prepared_clean [OF choosing(2)] show False by simp
    qed (use later in blast)+
  next
    case b
    have later: False if v: "votes_at tr p' vote" for p' vote
      using prepared_unique [OF b(3) votes_atD(2) [OF v] b(2)] votes_atD [OF v] b(4) by auto
    from ph show False
    proof (cases rule: part_phase_cases)
      case waiting
      with unprepared_none(2) b(3) show False by simp
    next
      case choosing
      with prepared_unique [OF b(3), of "length tr"] b show False by simp
    qed (use later in blast)+
  next
    case c
    have "\<not> unprepared tr" using unprepared_not_voted c(1) by blast
    moreover have "prepared tr \<noteq> Some []" using prepared_unique [of p tr "length tr"] votes_atD [OF c(1)] by auto
    moreover have "j = length tr" using c rd [of j] prepared_unique [of p tr j] votes_atD [OF c(1)] by fastforce
    note here = calculation this
    from ph show False
    proof (cases rule: part_phase_cases)
      case (chosen p' vote')
      with c here votes_at_unique(1) [OF c(1) chosen(1)] show False by simp
    next
      case (voted p' vote')
      with c here show False by simp
    next
      case (acked p' vote' i v d)
      with c here votes_at_unique(1) [OF c(1) acked(1)] have "undecided tr p (Suc i)" "p < i" by auto
      with acked(5,6) show False unfolding undecided_def is_decision_def by (elim allE [of _ i]) auto
    qed (use here in blast)+
  qed
qed

section \<open>Phases follow each other\<close>

lemma sees_blocking:
  assumes "sees incoming (Receive (make_receive_label match_any_value Blocking)) e obs" "runs_on e"
  obtains v where "incoming v" "obs = [Observed v]"
  using assms by (auto simp: sees_def instance_of_def runs_on_def make_receive_label_def is_nonblocking_def split: if_splits)

lemma sees_vote:
  assumes "sees incoming vote_label e obs"
  obtains vote where "obs = [Observed (vote_choice vote)]"
  using assms by (auto simp: sees_def instance_of_def)

lemma part_wait_step:
  assumes "unprepared tr" "to_part v"
  shows "unprepared (tr @ [Observed v]) \<or> prepared (tr @ [Observed v]) = Some []"
  using assms(2) by (cases rule: to_part_decodes) (use assms(1) in \<open>auto simp: unprepared_def\<close>)

lemma part_phase_step:
  assumes ph: "part_phase k tr" and l: "part_label pid tr k l" and e: "sees to_part l e obs" "runs_on e"
  shows "part_phase (Suc k) (tr @ obs)"
proof -
  have no_error: "\<forall>m. l \<noteq> Error m" using e by (auto simp: sees_def instance_of_def runs_on_def)
  from ph show ?thesis
  proof (cases rule: part_phase_cases)
    case waiting
    from l no_error show ?thesis
    proof (cases rule: part_label_cases)
      case wait
      with e obtain v where "to_part v" "obs = [Observed v]" by (auto elim: sees_blocking)
      with part_wait_step [OF waiting(2)] waiting(1) show ?thesis by (auto simp: part_phase_def)
    next
      case choose
      with waiting unprepared_none(2) [OF waiting(2), of k] show ?thesis by simp
    qed (use unprepared_not_voted [OF waiting(2)] in blast)+
  next
    case choosing
    have none: "\<not> votes_at tr p vote" for p vote
      using prepared_unique [of p tr "length tr"] votes_atD [of tr p vote] choosing by auto
    from l no_error show ?thesis
    proof (cases rule: part_label_cases)
      case choose
      with e(1) obtain vote where "obs = [Observed (vote_choice vote)]" by (auto elim: sees_vote)
      with choosing have "votes_at (tr @ obs) k vote" by (auto simp: votes_at_def nth_append)
      with choosing \<open>obs = _\<close> show ?thesis by (auto simp: part_phase_def)
    qed (use choosing none in auto)
  next
    case (chosen p vote)
    note vD = votes_atD [OF chosen(1)] and u = votes_at_unique [OF chosen(1)]
    have tk: "\<exists>z. prepared (take k tr) = Some [z]"
    proof -
      have "length (drop p (take k tr)) = Suc 0" using chosen by simp
      then obtain z where "drop p (take k tr) = [z]" by (metis length_0_conv length_Suc_conv)
      with prepared_from [OF vD(2), of k] chosen show ?thesis by simp
    qed
    from l no_error show ?thesis
    proof (cases rule: part_label_cases)
      case v: (vote p' vote')
      with e(1) have "obs = []" by (auto dest: sees_send)
      with chosen show ?thesis unfolding part_phase_def undecided_def
        by (intro disjI2 disjI1 exI [of _ p] exI [of _ vote]) auto
    next
      case (wait_decision p' vote')
      with u(1) [OF wait_decision(1)] chosen(2) show ?thesis by simp
    next
      case (ack p' vote' v d)
      with u(1) [OF ack(1)] chosen(2) show ?thesis by simp
    qed (use tk in auto)
  next
    case (voted p vote)
    note u = votes_at_unique [OF voted(1)]
    from l no_error show ?thesis
    proof (cases rule: part_label_cases)
      case (wait_decision p' vote')
      with e have "length obs = 1" by (auto elim: sees_wait)
      moreover have "undecided tr p (k - 1)" using wait_decision u by metis
      ultimately show ?thesis using voted votes_at_append [OF voted(1), of obs] unfolding part_phase_def
        by (intro disjI2 disjI1 exI [of _ p] exI [of _ vote]) (auto simp: undecided_append)
    next
      case (ack p' vote' v d)
      with e(1) have "obs = []" by (auto dest: sees_send)
      with voted ack u(1) [OF ack(1)] show ?thesis unfolding part_phase_def
        by (intro disjI2 exI [of _ p] exI [of _ vote] exI [of _ "k - 2"] exI [of _ v] exI [of _ d]) auto
    next
      case (vote p' vote')
      with u(1) [OF vote(1)] voted(2) show ?thesis by simp
    qed (use voted(2,3) in simp_all)
  next
    case (acked p vote j v d)
    from l no_error show ?thesis
    proof (cases rule: part_label_cases)
      case (vote p' vote')
      with votes_at_unique(1) [OF acked(1) vote(1)] acked(2,4) show ?thesis by simp
    qed (use acked(3,4) in simp_all)
  qed
qed

lemma part_shape_step:
  assumes sh: "part_shape k tr" and l: "part_label pid tr k l" and e: "sees to_part l e obs" "runs_on e"
  shows "part_shape (Suc k) (tr @ obs)"
  unfolding part_shape_def
proof (intro conjI allI impI)
  have ph: "part_phase k tr" using sh by (simp add: part_shape_def)
  show "part_phase (Suc k) (tr @ obs)" by (rule part_phase_step [OF ph l e])
  have no_error: "\<forall>m. l \<noteq> Error m" using e by (auto simp: sees_def instance_of_def runs_on_def)
  fix j assume j: "j < length (tr @ obs)" "unreadable (tr @ obs) j"
  show "prepared (take j (tr @ obs)) = Some []"
  proof (cases "j < length tr")
    case True
    with j(2) sh show ?thesis by (auto simp: part_shape_def unreadable_append)
  next
    case False
    then have o: "obs \<noteq> []" using j(1) by auto
    have readable: "\<exists>msg. decode_message v = Inr msg" if "to_part v" for v using that by (auto elim: to_part_decodes)
    have fine: ?thesis if "obs = [BottomValue] \<or> (\<exists>v. to_part v \<and> obs = [Observed v])"
      using that j False readable by (fastforce simp: unreadable_def nth_append)
    from l no_error show ?thesis
    proof (cases rule: part_label_cases)
      case wait
      with e fine show ?thesis by (auto elim!: sees_blocking)
    next
      case choose
      with e(1) obtain vote where "obs = [Observed (vote_choice vote)]" by (auto elim: sees_vote)
      with False j(1) have jl: "j = length tr" by simp
      from ph have "k = length tr"
      proof (cases rule: part_phase_cases)
        case (chosen p vote)
        with prepared_from [OF votes_atD(2) [OF chosen(1)], of k] choose show ?thesis by (auto dest: arg_cong [of _ _ length])
      qed (use choose in auto)
      with choose jl show ?thesis by simp
    next
      case (wait_decision p vote)
      with e fine show ?thesis by (auto elim!: sees_wait)
    qed (use e(1) o in \<open>auto dest: sees_send\<close>)
  qed
qed

lemma part_waits:
  assumes ph: "part_phase k tr" and l: "part_label pid tr k l" "instance_of l Block"
  shows "length tr = k \<and> unprepared tr \<and> l = Receive (make_receive_label match_any_value Blocking)"
proof -
  from l(2) have no_error: "\<forall>m. l \<noteq> Error m" and b: "l \<noteq> wait_label"
    by (auto simp: instance_of_def make_nonblocking_receive_label_def make_receive_label_def is_blocking_def)
  from l(1) no_error have w: "k \<le> length tr \<and> prepared (take k tr) = None \<and> l = Receive (make_receive_label match_any_value Blocking)"
    by (cases rule: part_label_cases) (use l(2) b in \<open>simp_all add: instance_of_def\<close>)
  from ph show ?thesis
  proof (cases rule: part_phase_cases)
    case (chosen p vote)
    with prepared_from [OF votes_atD(2) [OF chosen(1)], of k] w show ?thesis by simp
  qed (use w in auto)
qed

lemma part_blocks:
  assumes "part_phase k tr" "part_label pid tr k l" "instance_of l Block"
  shows "\<not> part_label pid tr (Suc k) l'"
  using part_waits [OF assms] unprepared_not_voted [of tr] unprepared_none(2) [of tr] by (auto simp: part_label_def)

interpretation part_history: history "part_label pid" to_part part_shape for pid
proof
  show "part_shape 0 []" by (simp add: part_shape_def part_phase_def unprepared_def)
  show "part_shape (Suc k) (tr @ obs)"
    if "part_shape k tr" "part_label pid tr k l" "sees to_part l e obs" "runs_on e" for k tr l e obs
    by (rule part_shape_step [OF that])
  show "\<not> part_label pid tr (Suc k) l'" if "part_shape k tr" "part_label pid tr k l" "instance_of l Block" for k tr l l'
    using part_blocks that by (auto simp: part_shape_def)
qed

end
