(* ===== verification/Tpc_Executions.thy ===== *)
theory Tpc_Executions
  imports Tpc_Part_History Soundness
begin

text \<open>
  The two-phase commit program under verification. Its threads never throw on the executions of the program, so
  a verification of it runs through; and every execution, for any number of participants whose thread ids fit into 32 bits, satisfies agreement, validity and crash safety.
\<close>

section \<open>The threads of the program\<close>

text \<open>The thread ids of all participants fit into 32 bits, so no two of them share a thread.\<close>

definition few :: "Options \<Rightarrow> bool" where
  "few options \<longleftrightarrow> opt_num_participants options + 1 < 2 ^ 32"

lemma fewD:
  assumes "few options"
  shows "opt_num_participants options < 2 ^ 56" "pid \<le> opt_num_participants options \<Longrightarrow> participant_to_thread pid = pid + 1"
  using assms by (simp_all add: few_def)

lemma coordinator_thread [simp]: "participant_to_thread kCoordinator = 1"
  by (simp add: participant_to_thread_def kCoordinator_def)

lemma tm_at_assign_range:
  assumes "n + 1 < 2 ^ 32"
  shows "tm_at (fold (\<lambda>pid. tm_assign d (participant_to_thread pid) (g pid)) [1..<n + 1] m) t =
     (if 2 \<le> t \<and> t \<le> n + 1 then Inr (g (t - 1)) else tm_at m t)"
  using assms
proof (induction n)
  case (Suc n)
  have "[1..<Suc n + 1] = [1..<n + 1] @ [Suc n]" by simp
  moreover have "participant_to_thread (Suc n) = Suc n + 1" using Suc.prems by (intro participant_to_thread_small)
  ultimately show ?case using Suc by (auto simp: tm_at_assign simp del: upt_Suc)
qed auto

lemma program_at:
  assumes "few options"
  shows "tm_at (threads (make_program options)) t =
     (if t = 1 then Inr (make_coordinator_function options)
      else if 2 \<le> t \<and> t \<le> opt_num_participants options + 1 then Inr (make_participant_function (t - 1))
      else Inl (precondition_error ''thread id not found''))"
proof -
  have "tm_at (tm_empty :: SimValue ThreadFunction ThreadMap) t = Inl (precondition_error ''thread id not found'')" for t by (simp add: tm_at_def tm_empty_def)
  then show ?thesis
    unfolding make_program_def Program.select_convs tm_at_assign_range [OF assms [unfolded few_def]] tm_at_assign by simp
qed

lemma program_contains:
  "few options \<Longrightarrow> tm_contains (threads (make_program options)) t \<longleftrightarrow> 1 \<le> t \<and> t \<le> opt_num_participants options + 1"
  by (auto simp: tm_at_contains program_at)

lemma coordinator_reply:
  assumes "few options"
  shows "case reply (make_program options) 1 tr k of
     Inl e \<Rightarrow> coord_fails (opt_num_participants options) (opt_inject_crash options) tr k
   | Inr None \<Rightarrow> coord_done (opt_num_participants options) (opt_inject_crash options) tr k
   | Inr (Some l) \<Rightarrow> coord_label (opt_num_participants options) (opt_bug_on_p1_no options) (opt_inject_crash options) tr k l"
proof -
  from coord.run_cases [of "opt_num_participants options" "opt_bug_on_p1_no options" k tr "opt_inject_crash options"] obtain r where
    "coordinator_run options tr k = Some r" "case r of Inr (Some l) \<Rightarrow> coord_label (opt_num_participants options) (opt_bug_on_p1_no options) (opt_inject_crash options) tr k l
       | Inr None \<Rightarrow> coord_done (opt_num_participants options) (opt_inject_crash options) tr k | Inl e \<Rightarrow> coord_fails (opt_num_participants options) (opt_inject_crash options) tr k"
    unfolding coordinator_run_def by blast
  then show ?thesis by (simp add: reply_def program_at [OF assms] make_coordinator_function_def split: sum.splits option.splits)
qed

lemma participant_reply:
  assumes "few options" "1 \<le> pid" "pid \<le> opt_num_participants options"
  shows "case reply (make_program options) (pid + 1) tr k of Inl e \<Rightarrow> part_fails tr k | Inr None \<Rightarrow> part_done tr k | Inr (Some l) \<Rightarrow> part_label pid tr k l"
proof -
  from part.run_cases [of pid k tr] obtain r where
    "participant_run pid tr k = Some r" "case r of Inr (Some l) \<Rightarrow> part_label pid tr k l | Inr None \<Rightarrow> part_done tr k | Inl e \<Rightarrow> part_fails tr k"
    unfolding participant_run_def by blast
  then show ?thesis using assms(2,3) by (simp add: reply_def program_at [OF assms(1)] make_participant_function_def split: sum.splits option.splits)
qed

lemma offered_coordinator:
  "few options \<Longrightarrow> offered (make_program options) 1 tr k = Some l \<Longrightarrow>
     coord_label (opt_num_participants options) (opt_bug_on_p1_no options) (opt_inject_crash options) tr k l"
  using coordinator_reply [of options tr k] by (auto simp: offered_def split: sum.splits)

lemma offered_participant:
  "few options \<Longrightarrow> offered (make_program options) (pid + 1) tr k = Some l \<Longrightarrow> 1 \<le> pid \<Longrightarrow> pid \<le> opt_num_participants options
     \<Longrightarrow> part_label pid tr k l"
  using participant_reply [of options pid tr k] by (auto simp: offered_def split: sum.splits)

lemma offered_thread:
  assumes few: "few options" and o: "offered (make_program options) t tr k = Some l"
  obtains (coordinator) "t = 1" "coord_label (opt_num_participants options) (opt_bug_on_p1_no options) (opt_inject_crash options) tr k l"
  | (participant) pid where "t = pid + 1" "1 \<le> pid" "pid \<le> opt_num_participants options" "part_label pid tr k l"
proof -
  have "tm_contains (threads (make_program options)) t"
    using o by (cases "tm_at (threads (make_program options)) t") (auto simp: offered_def reply_def tm_at_contains)
  then have t: "1 \<le> t" "t \<le> opt_num_participants options + 1" by (auto simp: program_contains [OF few])
  show thesis
  proof (cases "t = 1")
    case True
    with offered_coordinator [OF few] o show thesis by (auto intro: coordinator)
  next
    case False
    with t have "t = (t - 1) + 1" "1 \<le> t - 1" "t - 1 \<le> opt_num_participants options" by auto
    with offered_participant [OF few, of "t - 1" tr k l] o show thesis by (metis participant)
  qed
qed

section \<open>Messages\<close>

text \<open>Who sends what to whom.\<close>

lemma sends:
  assumes "follows (make_program options) evs m" "i < length evs" "label (evs ! i) = Send sl" and few: "few options"
  obtains (prepare) pid where "thread (evs ! i) = 1" "sl = \<lparr>destination = pid + 1, send_value = encode_message Prepare\<rparr>" "1 \<le> pid"
  | (decision) k p d pid where "thread (evs ! i) = 1" "k < length (thread_ids evs 1)" "thread_ids evs 1 ! k = i"
      "goes_on (opt_num_participants options) (opt_inject_crash options) (trace_upto evs m 1 k) p d" "1 \<le> pid"
      "k = opt_num_participants options + p + of_bool (crash_point (opt_num_participants options) (opt_inject_crash options)) + (pid - 1)"
      "sl = \<lparr>destination = pid + 1, send_value = encode_message (DecisionMsg d)\<rparr>"
  | (vote) k p pid vote where "thread (evs ! i) = pid + 1" "1 \<le> pid" "pid \<le> opt_num_participants options"
      "k < length (thread_ids evs (pid + 1))" "thread_ids evs (pid + 1) ! k = i" "votes_at (trace_upto evs m (pid + 1) k) p vote" "k = p + 1"
      "sl = \<lparr>destination = 1, send_value = encode_message (VoteMsg pid vote)\<rparr>"
  | (ack) pid where "thread (evs ! i) = pid + 1" "1 \<le> pid" "pid \<le> opt_num_participants options"
      "sl = \<lparr>destination = 1, send_value = encode_message (Ack pid)\<rparr>"
proof -
  let ?t = "thread (evs ! i)"
  from in_thread_ids [OF assms(2)] obtain k where k: "k < length (thread_ids evs ?t)" "thread_ids evs ?t ! k = i" by blast
  with assms(1) obtain l where l: "offered (make_program options) ?t (trace_upto evs m ?t k) k = Some l" "instance_of l (label (evs ! i))"
    unfolding follows_def by metis
  have ls: "l = Send sl" using l(2) assms(3) by (auto simp: instance_of_def split: EventLabel.splits if_splits)
  then have ne: "\<forall>m. l \<noteq> Error m" by simp
  from few l(1) show thesis
  proof (cases rule: offered_thread)
    case coordinator
    from coordinator(2) ne show thesis
    proof (cases rule: coord_label_cases)
      case (prep pid)
      with ls coordinator prepare [of pid] fewD(2) [OF few, of pid] show thesis by (simp add: encode_message_def)
    next
      case (send p d pid)
      with ls coordinator k decision [of k p d pid] fewD(2) [OF few, of pid] show thesis by (simp add: encode_message_def)
    qed (use ls in auto)
  next
    case (participant pid)
    from participant(4) ne show thesis
    proof (cases rule: part_label_cases)
      case (vote p v)
      with ls participant k that(3) [of pid k p v] show thesis by simp
    next
      case (ack p v w d)
      with ls participant that(4) [of pid] show thesis by simp
    qed (use ls in auto)
  qed
qed

lemma only_gets_tpc:
  assumes "follows (make_program options) evs m" "few options"
  shows "only_gets (to_coord (opt_num_participants options)) evs 1" "1 \<le> pid \<Longrightarrow> only_gets to_part evs (pid + 1)"
proof -
  show "only_gets (to_coord (opt_num_participants options)) evs 1"
    unfolding only_gets_def
  proof (intro allI impI)
    fix i sl assume i: "i < length evs" "label (evs ! i) = Send sl" "destination sl = 1"
    from assms(1) i(1,2) assms(2) show "to_coord (opt_num_participants options) (send_value sl)"
      by (cases rule: sends) (use i(3) fewD(1) [OF assms(2)] in \<open>auto simp: to_coord_def\<close>)
  qed
  show "only_gets to_part evs (pid + 1)" if "1 \<le> pid"
    unfolding only_gets_def
  proof (intro allI impI)
    fix i sl assume i: "i < length evs" "label (evs ! i) = Send sl" "destination sl = pid + 1"
    from assms(1) i(1,2) assms(2) show "to_part (send_value sl)"
      by (cases rule: sends) (use i(3) that in \<open>auto simp: to_part_def\<close>)
  qed
qed

section \<open>The program never throws on its executions\<close>

lemma tpc_labels:
  assumes "few options" "offered (make_program options) t tr k = Some l"
  shows "l \<noteq> Block" "l = Receive rl \<Longrightarrow> total_matcher rl"
proof -
  have any: "total_matcher (make_receive_label match_any_value md :: SimValue ReceiveLabel)"
    "total_matcher (make_nonblocking_receive_label match_any_value :: SimValue ReceiveLabel)" for md
    by (auto simp: total_matcher_def make_receive_label_def make_nonblocking_receive_label_def match_any_value_def)
  from assms have "l \<noteq> Block \<and> (\<forall>rl. l = Receive rl \<longrightarrow> total_matcher rl)"
  proof (cases rule: offered_thread)
    case coordinator
    then show ?thesis using any by (auto simp: coord_label_def)
  next
    case (participant pid)
    then show ?thesis using any by (auto simp: part_label_def)
  qed
  then show "l \<noteq> Block" "l = Receive rl \<Longrightarrow> total_matcher rl" by auto
qed

lemma tpc_safe:
  assumes n: "few options"
  shows "safe_program (make_program options)"
  unfolding safe_program_def
proof (intro conjI allI impI)
  fix t :: ThreadId and tr k and l :: "SimValue EventLabel" assume "offered (make_program options) t tr k = Some l"
  from tpc_labels [OF n this] show "l \<noteq> Block" "\<And>rl. l = Receive rl \<Longrightarrow> total_matcher rl" by auto
next
  fix evs m t
  assume f: "follows (make_program options) evs m" and c: "async_consistent no_missing_reads_tolerance evs m"
    and e: "\<forall>e\<in>set evs. \<not> is_error e" and t: "tm_contains (threads (make_program options)) t" "\<not> terminated evs t"
  note gets = only_gets_tpc [OF f n]
  show "\<exists>l. reply (make_program options) t (trace_of evs m t) (length (thread_ids evs t)) = Inr l"
  proof (cases "t = 1")
    case True
    have "coord_shape (opt_num_participants options) (opt_inject_crash options) (length (thread_ids evs 1)) (trace_of evs m 1)"
      by (rule coord_history.shaped_all [OF f c gets(1) offered_coordinator [OF n] e]) (use t(2) True in auto)
    from coord_shape_safe [OF this] coordinator_reply [OF n, of "trace_of evs m 1" "length (thread_ids evs 1)"] True
    show ?thesis by (auto split: sum.splits)
  next
    case False
    define pid where "pid = t - 1"
    with False t(1) have pid: "t = pid + 1" "1 \<le> pid" "pid \<le> opt_num_participants options" by (auto simp: program_contains [OF n])
    have "part_shape (length (thread_ids evs (pid + 1))) (trace_of evs m (pid + 1))"
      by (rule part_history.shaped_all [OF f c gets(2) [OF pid(2)] offered_participant [OF n _ pid(2,3)] e]) (use t(2) pid in auto)
    from part_shape_safe [OF this] participant_reply [OF n pid(2,3), of "trace_of evs m t" "length (thread_ids evs t)"] pid(1)
    show ?thesis by (auto split: sum.splits)
  qed
qed

section \<open>The threads of an execution\<close>

text \<open>An execution of the program as far as the protocol properties need it; an error ends its thread.\<close>

definition tpc_run :: "Options \<Rightarrow> SimValue event list \<Rightarrow> (EventId \<rightharpoonup> ReadsFromSource) \<Rightarrow> bool" where
  "tpc_run options evs m \<longleftrightarrow> follows (make_program options) evs m \<and> async_consistent no_missing_reads_tolerance evs m
     \<and> errors_last evs \<and> few options"

lemma tpc_run_few: "tpc_run options evs m \<Longrightarrow> few options"
  by (simp add: tpc_run_def)

lemma earlier_no_error:
  assumes "errors_last evs" "i < k" "k < length (thread_ids evs t)"
  shows "\<not> is_error (evs ! (thread_ids evs t ! i))"
proof -
  have "thread_ids evs t ! i < thread_ids evs t ! k" using sorted_thread_ids [of evs t] assms(2,3) by (simp add: sorted_wrt_iff_nth_less)
  then have "(thread_ids evs t ! i, thread_ids evs t ! k) \<in> po_of evs"
    using thread_event [OF assms(3)] thread_event(2) [of i evs t] assms(2,3) by (simp add: po_of_def)
  with assms(1) show ?thesis by (auto simp: errors_last_def)
qed

lemma coord_shape_at:
  assumes "tpc_run options evs m" "k < length (thread_ids evs 1)"
  shows "coord_shape (opt_num_participants options) (opt_inject_crash options) k (trace_upto evs m 1 k)"
proof -
  from assms(1) have r: "follows (make_program options) evs m" "async_consistent no_missing_reads_tolerance evs m"
    "errors_last evs" "few options" by (auto simp: tpc_run_def)
  show ?thesis
    by (rule coord_history.shaped [OF r(1,2) only_gets_tpc(1) [OF r(1,4)] offered_coordinator [OF r(4)] assms(2)]) (use earlier_no_error [OF r(3) _ assms(2)] in auto)
qed

lemma part_shape_at:
  assumes "tpc_run options evs m" "1 \<le> pid" "pid \<le> opt_num_participants options" "k < length (thread_ids evs (pid + 1))"
  shows "part_shape k (trace_upto evs m (pid + 1) k)"
proof -
  from assms(1) have r: "follows (make_program options) evs m" "async_consistent no_missing_reads_tolerance evs m"
    "errors_last evs" "few options" by (auto simp: tpc_run_def)
  show ?thesis
    by (rule part_history.shaped [OF r(1,2) only_gets_tpc(2) [OF r(1,4) assms(2)] offered_participant [OF r(4) _ assms(2,3)] assms(4)])
      (use earlier_no_error [OF r(3) _ assms(4)] in auto)
qed

text \<open>The label of an event, as its thread offered it.\<close>

lemma event_label:
  assumes "tpc_run options evs m" "i < length evs"
  obtains (coordinator) k l where "thread (evs ! i) = 1" "k < length (thread_ids evs 1)" "thread_ids evs 1 ! k = i" "instance_of l (label (evs ! i))"
      "coord_label (opt_num_participants options) (opt_bug_on_p1_no options) (opt_inject_crash options) (trace_upto evs m 1 k) k l"
  | (participant) pid k l where "thread (evs ! i) = pid + 1" "1 \<le> pid" "pid \<le> opt_num_participants options"
      "k < length (thread_ids evs (pid + 1))" "thread_ids evs (pid + 1) ! k = i" "instance_of l (label (evs ! i))" "part_label pid (trace_upto evs m (pid + 1) k) k l"
proof -
  let ?t = "thread (evs ! i)"
  from in_thread_ids [OF assms(2)] obtain k where k: "k < length (thread_ids evs ?t)" "thread_ids evs ?t ! k = i" by blast
  with assms(1) obtain l where l: "offered (make_program options) ?t (trace_upto evs m ?t k) k = Some l" "instance_of l (label (evs ! i))"
    unfolding follows_def tpc_run_def by metis
  from tpc_run_few [OF assms(1)] l(1) show thesis
  proof (cases rule: offered_thread)
    case c: coordinator
    with k l coordinator [of k l] show thesis by simp
  next
    case p: (participant pid)
    with k l participant [of pid k l] show thesis by simp
  qed
qed

end
