(* ===== verification/Tpc_Correct.thy ===== *)
theory Tpc_Correct
  imports Tpc_Executions
begin

text \<open>
  The properties that the example claims of two-phase commit, proved for every execution of the simulated program
  and any number of participants, and what a verification of the program therefore reports.
\<close>

section \<open>What the properties speak about\<close>

definition sends_decision :: "SimValue event list \<Rightarrow> Decision \<Rightarrow> bool" where
  "sends_decision evs d \<longleftrightarrow> (\<exists>i<length evs. \<exists>sl. label (evs ! i) = Send sl \<and> decode_decision_message (send_value sl) = Some d)"

definition chooses :: "SimValue event list \<Rightarrow> ThreadId \<Rightarrow> SimValue \<Rightarrow> bool" where
  "chooses evs t v \<longleftrightarrow> (\<exists>i<length evs. thread (evs ! i) = t \<and> (\<exists>nd. label (evs ! i) = NondeterministicChoice nd \<and> nd_value nd = v))"

definition agreement :: "SimValue event list \<Rightarrow> bool" where
  "agreement evs \<longleftrightarrow> (\<forall>d d'. sends_decision evs d \<longrightarrow> sends_decision evs d' \<longrightarrow> d = d')"

definition validity :: "nat \<Rightarrow> SimValue event list \<Rightarrow> bool" where
  "validity n evs \<longleftrightarrow> (sends_decision evs Commit \<longrightarrow> (\<forall>pid. 1 \<le> pid \<longrightarrow> pid \<le> n \<longrightarrow>
     chooses evs (participant_to_thread pid) (vote_choice Yes) \<and> \<not> chooses evs (participant_to_thread pid) (vote_choice No)))"

definition crash_safety :: "SimValue event list \<Rightarrow> bool" where
  "crash_safety evs \<longleftrightarrow> (chooses evs (participant_to_thread kCoordinator) (crash_choice True) \<longrightarrow> (\<forall>d. \<not> sends_decision evs d))"

section \<open>Agreement and crash safety\<close>

lemma decision_sent:
  assumes "tpc_run options evs m" "sends_decision evs d"
  obtains k p where "k < length (thread_ids evs 1)" "goes_on (opt_num_participants options) (opt_inject_crash options) (trace_upto evs m 1 k) p d"
proof -
  from assms(2) obtain i sl where i: "i < length evs" "label (evs ! i) = Send sl" "decode_decision_message (send_value sl) = Some d"
    unfolding sends_decision_def by blast
  have f: "follows (make_program options) evs m" using assms(1) by (simp add: tpc_run_def)
  from f i(1,2) tpc_run_few [OF assms(1)] show thesis
  proof (cases rule: sends)
    case (decision k p d' pid)
    with i(3) have "d' = d" by (simp add: decode_decision_encode)
    with that [OF decision(2), of p] decision(4) show thesis by simp
  qed (use i(3) in \<open>simp_all add: decode_decision_encode\<close>)
qed

lemma goes_on_later:
  assumes "goes_on n ic (trace_upto evs m t k) p d" "k \<le> k'"
  shows "goes_on n ic (trace_upto evs m t k') p d"
  using trace_upto_extends [OF assms(2), of evs m t] goes_on_append [OF assms(1)] by auto

lemma goes_on_unique: "goes_on n ic tr p d \<Longrightarrow> goes_on n ic tr p' d' \<Longrightarrow> p = p' \<and> d = d'"
  using decided_unique by (auto simp: goes_on_def)

lemma tpc_agreement:
  assumes "tpc_run options evs m"
  shows "agreement evs"
  unfolding agreement_def
proof (intro allI impI)
  fix d d' assume "sends_decision evs d" "sends_decision evs d'"
  from decision_sent [OF assms this(1)] decision_sent [OF assms this(2)] obtain k p k' p' where
    g: "goes_on (opt_num_participants options) (opt_inject_crash options) (trace_upto evs m 1 k) p d"
      "goes_on (opt_num_participants options) (opt_inject_crash options) (trace_upto evs m 1 k') p' d'" by metis
  have "goes_on (opt_num_participants options) (opt_inject_crash options) (trace_upto evs m 1 (max k k')) p d"
    "goes_on (opt_num_participants options) (opt_inject_crash options) (trace_upto evs m 1 (max k k')) p' d'"
    using goes_on_later [OF g(1), of "max k k'"] goes_on_later [OF g(2), of "max k k'"] by simp_all
  from goes_on_unique [OF this] show "d = d'" by simp
qed

lemma crash_chosen:
  assumes r: "tpc_run options evs m" and c: "chooses evs 1 v"
  obtains k d where "k < length (thread_ids evs 1)" "crash_point (opt_num_participants options) (opt_inject_crash options)"
    "decided (opt_num_participants options) (trace_upto evs m 1 k) = Some (d, [])"
    "trace_upto evs m 1 (Suc k) = trace_upto evs m 1 k @ [Observed v]" "v = crash_choice False \<or> v = crash_choice True"
proof -
  let ?n = "opt_num_participants options" and ?ic = "opt_inject_crash options"
  from c obtain i nd where i: "i < length evs" "thread (evs ! i) = 1" "label (evs ! i) = NondeterministicChoice nd" "nd_value nd = v"
    unfolding chooses_def by blast
  from r i(1) show thesis
  proof (cases rule: event_label)
    case (coordinator k l)
    have ph: "coord_phase ?n ?ic k (trace_upto evs m 1 k)" using coord_shape_at [OF r coordinator(2)] by (simp add: coord_shape_def)
    have ne: "\<forall>m. l \<noteq> Error m" using coordinator(4) i(3) by (auto simp: instance_of_def)
    from coordinator(5) ne show thesis
    proof (cases rule: coord_label_cases)
      case (crash d)
      have "v = crash_choice False \<or> v = crash_choice True" using coordinator(4) crash(5) i(3,4) by (auto simp: instance_of_def)
      moreover have "observed evs m i = [Observed v]" using i by (simp add: observed_def is_receive_def as_nondeterministic_choice_def)
      ultimately show thesis
        using that [OF coordinator(2) crash(1) coord_crash_now(2) [OF ph crash(1-4)]] coordinator(2,3) by (simp add: trace_upto_Suc)
    qed (use coordinator(4) i(3) in \<open>auto simp: instance_of_def\<close>)
  qed (use i(2) in simp)
qed

lemma tpc_crash_safety:
  assumes r: "tpc_run options evs m"
  shows "crash_safety evs"
  unfolding crash_safety_def
proof (intro impI allI notI)
  let ?n = "opt_num_participants options" and ?ic = "opt_inject_crash options" and ?tr = "trace_upto evs m 1"
  fix d assume c: "chooses evs (participant_to_thread kCoordinator) (crash_choice True)" and s: "sends_decision evs d"
  from c have c: "chooses evs 1 (crash_choice True)" by simp
  from crash_chosen [OF r c] obtain k d' where k: "k < length (thread_ids evs 1)" "crash_point ?n ?ic" "decided ?n (?tr k) = Some (d', [])"
    "?tr (Suc k) = ?tr k @ [Observed (crash_choice True)]" by metis
  from decision_sent [OF r s] obtain k' p where g: "goes_on ?n ?ic (?tr k') p d" by metis
  let ?K = "max (Suc k) k'"
  from trace_upto_extends [of "Suc k" ?K evs m 1] obtain ext where ext: "?tr ?K = ?tr k @ Observed (crash_choice True) # ext" using k(4) by auto
  have gK: "goes_on ?n ?ic (?tr ?K) p d" using goes_on_later [OF g, of ?K] by simp
  have "decided ?n (take (length (?tr k)) (?tr ?K)) = Some (d', [])" using k(3) ext by simp
  with gK have "p = length (?tr k)" using decided_unique(1) [of ?n p "?tr ?K" d "length (?tr k)" d'] ext by (simp add: goes_on_def)
  with gK k(2) ext show False by (auto simp: goes_on_def passed_def)
qed

section \<open>Validity\<close>

lemma collect_commit:
  assumes "collect n seen yes votes obs = Some (Commit, rest)" "length seen = Suc n" "votes = card {i\<in>{1..n}. seen ! i}"
  shows "yes \<and> (\<forall>pid. 1 \<le> pid \<longrightarrow> pid \<le> n \<longrightarrow> \<not> seen ! pid \<longrightarrow> (\<exists>v. Observed v \<in> set obs \<and> decode_message v = Inr (VoteMsg pid Yes)))"
  using assms
proof (induction obs arbitrary: seen yes votes)
  case (Cons ob obs)
  from Cons.prems(1) obtain v where ob: "ob = Observed v" by (cases ob) auto
  show ?case
  proof (cases "\<exists>sender vote. decode_message v = Inr (VoteMsg sender vote) \<and> 1 \<le> sender \<and> sender \<le> n \<and> \<not> seen ! sender")
    case False
    then have "collect n seen yes votes (Observed v # obs) = collect n seen yes votes obs"
      by (auto split: sum.splits Message.splits)
    with Cons.prems ob have "collect n seen yes votes obs = Some (Commit, rest)" by (simp del: collect.simps)
    from Cons.IH [OF this Cons.prems(2,3)] show ?thesis by auto
  next
    case True
    then obtain sender vote where v: "decode_message v = Inr (VoteMsg sender vote)" and s: "1 \<le> sender" "sender \<le> n" "\<not> seen ! sender"
      by blast
    have card: "card {i\<in>{1..n}. seen[sender := True] ! i} = Suc votes"
    proof -
      have "{i\<in>{1..n}. seen[sender := True] ! i} = insert sender {i\<in>{1..n}. seen ! i}"
        using s Cons.prems(2) by (auto simp: nth_list_update)
      with s show ?thesis by (simp add: Cons.prems(3))
    qed
    show ?thesis
    proof (cases "votes + 1 < n")
      case more: True
      then have c: "collect n (seen[sender := True]) (yes \<and> vote = Yes) (votes + 1) obs = Some (Commit, rest)"
        using Cons.prems(1) v s ob by simp
      have c_yes: "(yes \<and> vote = Yes) \<and> (\<forall>pid. 1 \<le> pid \<longrightarrow> pid \<le> n \<longrightarrow> \<not> seen[sender := True] ! pid
          \<longrightarrow> (\<exists>v. Observed v \<in> set obs \<and> decode_message v = Inr (VoteMsg pid Yes)))"
        by (rule Cons.IH [OF c]) (use Cons.prems(2) card in simp_all)
      then have IH: "\<exists>w. Observed w \<in> set obs \<and> decode_message w = Inr (VoteMsg pid Yes)"
        if "1 \<le> pid" "pid \<le> n" "\<not> seen ! pid" "pid \<noteq> sender" for pid
        using that Cons.prems(2) by (auto simp: nth_list_update)
      have y: "yes" "vote = Yes" using c_yes by auto
      show ?thesis
      proof (intro conjI allI impI)
        fix pid assume pid: "1 \<le> pid" "pid \<le> n" "\<not> seen ! pid"
        show "\<exists>w. Observed w \<in> set (ob # obs) \<and> decode_message w = Inr (VoteMsg pid Yes)"
          by (cases "pid = sender") (use v y ob IH [OF pid] in auto)
      qed (rule y(1))
    next
      case last: False
      then have y: "yes" "vote = Yes" using Cons.prems(1) v s ob by (auto split: if_splits)
      have "pid = sender" if "1 \<le> pid" "pid \<le> n" "\<not> seen ! pid" for pid
      proof (rule ccontr)
        assume "pid \<noteq> sender"
        then have "pid \<notin> {i\<in>{1..n}. seen[sender := True] ! i}" using that s Cons.prems(2) by (simp add: nth_list_update)
        moreover have "pid \<in> {1..n}" using that by simp
        ultimately have "{i\<in>{1..n}. seen[sender := True] ! i} \<subset> {1..n}" by blast
        then have "card {i\<in>{1..n}. seen[sender := True] ! i} < card {1..n}" by (intro psubset_card_mono) auto
        with card last show False by simp
      qed
      with y v ob show ?thesis by auto
    qed
  qed
qed simp

lemma decided_commit:
  assumes "decided n tr = Some (Commit, rest)" "1 \<le> pid" "pid \<le> n"
  shows "\<exists>v. Observed v \<in> set tr \<and> decode_message v = Inr (VoteMsg pid Yes)"
proof -
  have e: "{i\<in>{1..n}. replicate (Suc n) False ! i} = {}" by (auto simp: nth_replicate simp del: replicate_Suc)
  have "collect n (replicate (Suc n) False) True 0 tr = Some (Commit, rest)" using assms(1) by (simp add: decided_def del: replicate_Suc)
  from collect_commit [OF this, unfolded e] assms(2,3) show ?thesis by (simp add: nth_replicate del: replicate_Suc)
qed

lemma seen_value:
  assumes "Observed v \<in> set (trace_upto evs m t k)" "k \<le> length (thread_ids evs t)"
  obtains k' where "k' < k" "Observed v \<in> set (observed evs m (thread_ids evs t ! k'))"
proof -
  from assms(1) obtain i where i: "i \<in> set (take k (thread_ids evs t))" "Observed v \<in> set (observed evs m i)" by (auto simp: trace_upto_def)
  then obtain k' where "k' < k" "i = thread_ids evs t ! k'" by (auto simp: in_set_conv_nth)
  with i(2) that show thesis by blast
qed

text \<open>A vote that the coordinator sees was sent by its participant.\<close>

lemma vote_seen_sent:
  assumes r: "tpc_run options evs m" and k: "k < length (thread_ids evs 1)"
    and v: "Observed v \<in> set (trace_upto evs m 1 k)" "decode_message v = Inr (VoteMsg pid vote)"
  obtains k' p where "1 \<le> pid" "pid \<le> opt_num_participants options" "k' < length (thread_ids evs (pid + 1))"
    "votes_at (trace_upto evs m (pid + 1) k') p vote"
proof -
  from seen_value [OF v(1)] k obtain k0 where k0: "k0 < k" "Observed v \<in> set (observed evs m (thread_ids evs 1 ! k0))" by auto
  let ?i = "thread_ids evs 1 ! k0"
  have f: "follows (make_program options) evs m" and c: "async_consistent no_missing_reads_tolerance evs m"
    using r by (auto simp: tpc_run_def)
  note few = tpc_run_few [OF r]
  note n = fewD(1) [OF few]
  have i: "?i < length evs" "thread (evs ! ?i) = 1" using thread_event [of k0 evs 1] k0(1) k by auto
  show thesis
  proof (cases "is_receive (evs ! ?i)")
    case True
    with k0(2) obtain j sl where j: "m ?i = Some (from_send j)" "as_send (evs ! j) = Some sl" "v = send_value sl"
    proof (cases "m ?i")
      case (Some src)
      show thesis
      proof (cases src)
        case (from_send j)
        with Some True k0(2) that [of j] show thesis by (cases "as_send (evs ! j)") (auto simp: observed_def)
      qed (use Some True k0(2) in \<open>simp add: observed_def\<close>)
    qed (use True k0(2) in \<open>simp add: observed_def\<close>)
    from c have rd: "reads_ok no_missing_reads_tolerance evs m" by (simp add: async_consistent_def)
    from reads_okD(1) [OF rd] j(1) have jl: "j < length evs" by (auto simp: rf_valid_def)
    have dest: "destination sl = 1" using reads_okD(2) [OF rd j(1)] i j(2) by (simp add: read_ok_def send_of_def)
    have "label (evs ! j) = Send sl" using j(2) by (auto simp: as_send_def split: EventLabel.splits)
    from f jl this few show thesis
    proof (cases rule: sends)
      case (vote k' p pid' vote')
      have "message_id (VoteMsg pid' vote') < 2 ^ 56" using vote(3) n by (simp add: message_id_def)
      from decode_encode [OF this] v(2) j(3) vote(8) have "pid' = pid" "vote' = vote" by auto
      with vote that show thesis by blast
    next
      case (ack pid')
      have "message_id (Ack pid') < 2 ^ 56" using ack(3) n by (simp add: message_id_def)
      from decode_encode [OF this] v(2) j(3) ack(4) show thesis by auto
    qed (use dest in auto)
  next
    case False
    with k0(2) obtain nd where nd: "label (evs ! ?i) = NondeterministicChoice nd" "nd_value nd = v"
      by (auto simp: observed_def as_nondeterministic_choice_def split: option.splits EventLabel.splits)
    with i have "chooses evs 1 v" by (auto simp: chooses_def)
    from crash_chosen [OF r this] have "v = crash_choice False \<or> v = crash_choice True" by metis
    with v(2) show thesis by (auto simp: bridge_defs)
  qed
qed

text \<open>The vote a participant sends is the one it chose, and it chose only once.\<close>

lemma choice_votes:
  assumes r: "tpc_run options evs m" and pid: "1 \<le> pid" "pid \<le> opt_num_participants options"
    and k: "k < length (thread_ids evs (pid + 1))" and nd: "label (evs ! (thread_ids evs (pid + 1) ! k)) = NondeterministicChoice nd"
  obtains vote where "votes_at (trace_upto evs m (pid + 1) (Suc k)) k vote" "nd_value nd = vote_choice vote"
proof -
  let ?i = "thread_ids evs (pid + 1) ! k" and ?tr = "trace_upto evs m (pid + 1)"
  have ph: "part_phase k (?tr k)" using part_shape_at [OF r pid k] by (simp add: part_shape_def)
  from r k obtain l where l: "offered (make_program options) (pid + 1) (?tr k) k = Some l" "instance_of l (label (evs ! ?i))"
    unfolding tpc_run_def follows_def by metis
  note pl = offered_participant [OF tpc_run_few [OF r] l(1) pid]
  have ne: "\<forall>m. l \<noteq> Error m" using l(2) nd by (auto simp: instance_of_def)
  from pl ne show thesis
  proof (cases rule: part_label_cases)
    case choose
    then obtain vote where v: "nd_value nd = vote_choice vote" using l(2) nd by (auto simp: instance_of_def)
    from ph have len: "length (?tr k) = k"
    proof (cases rule: part_phase_cases)
      case (chosen p vote)
      with prepared_from [OF votes_atD(2) [OF chosen(1)], of k] choose show ?thesis by (auto dest: arg_cong [of _ _ length])
    qed (use choose in auto)
    have "?tr (Suc k) = ?tr k @ [Observed (vote_choice vote)]"
      unfolding trace_upto_Suc [OF k] using nd v by (simp add: observed_def is_receive_def as_nondeterministic_choice_def)
    with len choose(2) have "votes_at (?tr (Suc k)) k vote" by (simp add: votes_at_def nth_append)
    with v that show thesis by blast
  qed (use l(2) nd in \<open>auto simp: instance_of_def\<close>)
qed

lemma observed_at_most_one: "length (observed evs m i) \<le> 1"
  by (auto simp: observed_def split: option.splits ReadsFromSource.splits)

lemma vote_was_chosen:
  assumes r: "tpc_run options evs m" and pid: "1 \<le> pid" "pid \<le> opt_num_participants options"
    and k: "k \<le> length (thread_ids evs (pid + 1))" and v: "votes_at (trace_upto evs m (pid + 1) k) p vote"
  shows "chooses evs (pid + 1) (vote_choice vote)"
  using k v
proof (induction k)
  case (Suc k)
  let ?i = "thread_ids evs (pid + 1) ! k" and ?tr = "trace_upto evs m (pid + 1)"
  have k: "k < length (thread_ids evs (pid + 1))" using Suc.prems by simp
  note i = thread_event [OF k] and ts = trace_upto_Suc [OF k, of m]
  show ?case
  proof (cases "votes_at (?tr k) p vote")
    case True
    with Suc show ?thesis by simp
  next
    case False
    note v' = Suc.prems(2) [unfolded ts]
    from False v' have p: "\<not> p < length (?tr k)" unfolding votes_at_def by (auto simp: nth_append)
    have pl: "p = length (?tr k)" "prepared (?tr k) = Some []" "observed evs m ?i \<noteq> []"
      using p v' observed_at_most_one [of evs m ?i] unfolding votes_at_def by auto
    have none: "\<not> votes_at (?tr k) p' vote'" for p' vote'
      using prepared_unique [of p' "?tr k" "length (?tr k)"] pl(2) by (auto simp: votes_at_def)
    have ph: "part_phase k (?tr k)" using part_shape_at [OF r pid k] by (simp add: part_shape_def)
    then have len: "length (?tr k) = k" by (cases rule: part_phase_cases) (use none in auto)
    from r k obtain l where l: "offered (make_program options) (pid + 1) (?tr k) k = Some l" "instance_of l (label (evs ! ?i))"
      unfolding tpc_run_def follows_def by metis
    have ne: "\<forall>m. l \<noteq> Error m" using l(2) pl(3) by (auto simp: instance_of_def observed_def is_receive_def as_nondeterministic_choice_def)
    from offered_participant [OF tpc_run_few [OF r] l(1) pid] ne obtain nd where nd: "label (evs ! ?i) = NondeterministicChoice nd"
    proof (cases rule: part_label_cases)
      case choose
      with l(2) that show thesis by (auto simp: instance_of_def)
    qed (use none pl(2) len in auto)
    from choice_votes [OF r pid k nd] obtain vote' where vote': "votes_at (?tr (Suc k)) k vote'" "nd_value nd = vote_choice vote'" by blast
    with votes_at_unique(2) [OF Suc.prems(2) vote'(1)] i nd show ?thesis by (auto simp: chooses_def)
  qed
qed (simp add: votes_at_def)

lemma tpc_validity:
  assumes r: "tpc_run options evs m"
  shows "validity (opt_num_participants options) evs"
  unfolding validity_def
proof (intro impI allI)
  fix pid assume s: "sends_decision evs Commit" and pid: "1 \<le> pid" "pid \<le> opt_num_participants options"
  let ?T = "thread_ids evs (pid + 1)"
  from decision_sent [OF r s] obtain k p where k: "k < length (thread_ids evs 1)"
    and g: "goes_on (opt_num_participants options) (opt_inject_crash options) (trace_upto evs m 1 k) p Commit" by blast
  from g decided_commit [of "opt_num_participants options" "take p (trace_upto evs m 1 k)" "[]" pid] pid obtain v where
    "Observed v \<in> set (trace_upto evs m 1 k)" "decode_message v = Inr (VoteMsg pid Yes)" by (auto simp: goes_on_def dest: in_set_takeD)
  from vote_seen_sent [OF r k this] obtain k' p' where k': "k' < length ?T" "votes_at (trace_upto evs m (pid + 1) k') p' Yes" by metis
  have all: "votes_at (trace_of evs m (pid + 1)) q w" if "votes_at (trace_upto evs m (pid + 1) j) q w" "j \<le> length ?T" for j q w
    using trace_upto_of [OF that(2), of m] votes_at_append [OF that(1)] by auto
  have "\<not> chooses evs (pid + 1) (vote_choice No)"
  proof
    assume "chooses evs (pid + 1) (vote_choice No)"
    then obtain i nd where i: "i < length evs" "thread (evs ! i) = pid + 1" "label (evs ! i) = NondeterministicChoice nd" "nd_value nd = vote_choice No"
      unfolding chooses_def by blast
    from in_thread_ids [OF i(1)] i(2) obtain j where j: "j < length ?T" "?T ! j = i" by metis
    from choice_votes [OF r pid j(1), of nd] j(2) i(3) obtain vote where vote: "votes_at (trace_upto evs m (pid + 1) (Suc j)) j vote" "nd_value nd = vote_choice vote" by auto
    have "vote = No" using i(4) vote(2) by (metis decode_choices(1) sum.inject(2))
    with votes_at_unique(2) [OF all [OF k'(2)] all [OF vote(1)]] k'(1) j(1) show False by simp
  qed
  with vote_was_chosen [OF r pid _ k'(2)] k'(1)
  show "chooses evs (participant_to_thread pid) (vote_choice Yes) \<and> \<not> chooses evs (participant_to_thread pid) (vote_choice No)"
    by (simp add: fewD(2) [OF tpc_run_few [OF r] pid(2)])
qed

end
