(* ===== verification/Tpc_Sample.thy ===== *)
theory Tpc_Sample
  imports Tpc_Executions
begin

text \<open>A run of the two-phase commit program: one participant, no crash; it is prepared, votes yes and is told to commit.\<close>

definition one_participant :: Options where
  "one_participant = \<lparr>opt_num_participants = 1, opt_bug_on_p1_no = False, opt_inject_crash = False\<rparr>"

definition commit_events :: "SimValue event list" where
  "commit_events =
     [\<lparr>thread = 1, index = 0, label = Send \<lparr>destination = 2, send_value = encode_message Prepare\<rparr>\<rparr>,
      \<lparr>thread = 2, index = 0, label = Receive (make_receive_label match_any_value Blocking)\<rparr>,
      \<lparr>thread = 2, index = 1, label = NondeterministicChoice \<lparr>nd_value = vote_choice Yes, choices = [vote_choice Yes, vote_choice No]\<rparr>\<rparr>,
      \<lparr>thread = 2, index = 2, label = Send \<lparr>destination = 1, send_value = encode_message (VoteMsg 1 Yes)\<rparr>\<rparr>,
      \<lparr>thread = 1, index = 1, label = Receive (make_nonblocking_receive_label match_any_value)\<rparr>,
      \<lparr>thread = 1, index = 2, label = Send \<lparr>destination = 2, send_value = encode_message (DecisionMsg Commit)\<rparr>\<rparr>]"

abbreviation commit_reads :: "EventId \<rightharpoonup> ReadsFromSource" where
  "commit_reads \<equiv> [1 \<mapsto> from_send 0, 4 \<mapsto> from_send 3]"

lemma one_few [simp]: "few one_participant"
  by (simp add: few_def one_participant_def)

lemma first_participant [simp]: "participant_to_thread (Suc 0) = 2"
  by (simp add: participant_to_thread_def)

section \<open>What the threads offer\<close>

lemma coordinator_offers:
  assumes "few options" "\<not> coord_fails (opt_num_participants options) (opt_inject_crash options) tr k" "\<not> coord_done (opt_num_participants options) (opt_inject_crash options) tr k"
    "\<And>l. coord_label (opt_num_participants options) (opt_bug_on_p1_no options) (opt_inject_crash options) tr k l \<Longrightarrow> l = l0"
  shows "offered (make_program options) 1 tr k = Some l0"
  using coordinator_reply [OF assms(1), of tr k] assms by (auto simp: offered_def split: sum.splits option.splits)

lemma participant_offers:
  assumes "few options" "1 \<le> pid" "pid \<le> opt_num_participants options" "\<not> part_fails tr k" "\<not> part_done tr k" "\<And>l. part_label pid tr k l \<Longrightarrow> l = l0"
  shows "offered (make_program options) (pid + 1) tr k = Some l0"
  using participant_reply [OF assms(1-3), of tr k] assms(4-6) by (auto simp: offered_def split: sum.splits option.splits)

lemma sample_messages:
  "decode_message (encode_message (VoteMsg (Suc 0) Yes)) = Inr (VoteMsg (Suc 0) Yes)" "decode_message (encode_message Prepare) = Inr Prepare"
  "decision_message d = encode_message (DecisionMsg d)" "prepare_message = encode_message Prepare"
  using decode_encode [of "VoteMsg (Suc 0) Yes"] decode_encode [of Prepare] by (simp_all add: message_id_def) (simp_all add: encode_message_def)

lemma one_decided:
  "decided (Suc 0) [] = None" "decided (Suc 0) [Observed (encode_message (VoteMsg (Suc 0) Yes))] = Some (Commit, [])"
  by (simp_all add: decided_def sample_messages)

lemma coordinator_commits:
  "offered (make_program one_participant) 1 [] 0 = Some (Send \<lparr>destination = 2, send_value = encode_message Prepare\<rparr>)"
  "offered (make_program one_participant) 1 [] 1 = Some wait_label"
  "offered (make_program one_participant) 1 [Observed (encode_message (VoteMsg 1 Yes))] 2
     = Some (Send \<lparr>destination = 2, send_value = encode_message (DecisionMsg Commit)\<rparr>)"
  by (rule coordinator_offers;
      auto simp: few_def one_participant_def coord_fails_def coord_done_def coord_label_def goes_on_def one_decided participant_to_thread_def
        sample_messages unreadable_def take_Cons' split: if_splits)+

lemma participant_commits:
  "offered (make_program one_participant) 2 [] 0 = Some (Receive (make_receive_label match_any_value Blocking))"
  "offered (make_program one_participant) 2 [Observed (encode_message Prepare)] 1 = Some vote_label"
  "offered (make_program one_participant) 2 [Observed (encode_message Prepare), Observed (vote_choice Yes)] 2
     = Some (Send \<lparr>destination = 1, send_value = encode_message (VoteMsg 1 Yes)\<rparr>)"
proof -
  have t: "2 = Suc 0 + 1" by simp
  show "offered (make_program one_participant) 2 [] 0 = Some (Receive (make_receive_label match_any_value Blocking))"
    "offered (make_program one_participant) 2 [Observed (encode_message Prepare)] 1 = Some vote_label"
    "offered (make_program one_participant) 2 [Observed (encode_message Prepare), Observed (vote_choice Yes)] 2
     = Some (Send \<lparr>destination = 1, send_value = encode_message (VoteMsg 1 Yes)\<rparr>)"
    by (subst (1) t, rule participant_offers;
      auto simp: few_def one_participant_def part_fails_def part_done_def part_label_def votes_at_def participant_to_thread_def kCoordinator_def
        sample_messages unreadable_def take_Cons' nth_Cons' split: if_splits)+
qed

section \<open>The run is an execution\<close>

lemma commit_thread_ids:
  "thread_ids commit_events t = (if t = 1 then [0, 4, 5] else if t = 2 then [1, 2, 3] else [])"
  by (simp add: thread_ids_def commit_events_def upt_rec)

lemma commit_observed:
  "observed commit_events commit_reads 0 = []" "observed commit_events commit_reads 1 = [Observed (encode_message Prepare)]"
  "observed commit_events commit_reads 2 = [Observed (vote_choice Yes)]" "observed commit_events commit_reads 3 = []"
  "observed commit_events commit_reads 4 = [Observed (encode_message (VoteMsg 1 Yes))]"
  by (simp_all add: observed_def commit_events_def is_receive_def as_send_def as_nondeterministic_choice_def numeral_nat)

lemma commit_labels:
  "label (commit_events ! 0) = Send \<lparr>destination = 2, send_value = encode_message Prepare\<rparr>"
  "label (commit_events ! 1) = Receive (make_receive_label match_any_value Blocking)"
  "label (commit_events ! 2) = NondeterministicChoice \<lparr>nd_value = vote_choice Yes, choices = [vote_choice Yes, vote_choice No]\<rparr>"
  "label (commit_events ! 3) = Send \<lparr>destination = 1, send_value = encode_message (VoteMsg 1 Yes)\<rparr>"
  "label (commit_events ! 4) = wait_label" "label (commit_events ! 5) = Send \<lparr>destination = 2, send_value = encode_message (DecisionMsg Commit)\<rparr>"
  by (simp_all add: commit_events_def)

lemma commit_follows: "follows (make_program one_participant) commit_events commit_reads"
  unfolding follows_def
proof (intro allI impI)
  fix t k assume k: "k < length (thread_ids commit_events t)"
  have nd: "instance_of vote_label (NondeterministicChoice \<lparr>nd_value = vote_choice Yes, choices = [vote_choice Yes, vote_choice No]\<rparr>)"
    by (simp add: instance_of_def erase_duplicate_nd_choices_eq) (simp add: bridge_defs make_value_def kPayloadShift_def)
  have self: "instance_of (Send sl) (Send sl)" "instance_of (Receive rl) (Receive rl)" for sl rl by (simp_all add: instance_of_def)
  let ?T = "\<lambda>t k. trace_upto commit_events commit_reads t k"
  have tr: "?T 1 0 = []" "?T 1 1 = []" "?T 1 2 = [Observed (encode_message (VoteMsg 1 Yes))]"
    "?T 2 0 = []" "?T 2 1 = [Observed (encode_message Prepare)]" "?T 2 2 = [Observed (encode_message Prepare), Observed (vote_choice Yes)]"
    by (simp_all add: trace_upto_def commit_thread_ids commit_observed take_Cons' del: One_nat_def)
  from k consider "t = 1" "k = 0" | "t = 1" "k = 1" | "t = 1" "k = 2" | "t = 2" "k = 0" | "t = 2" "k = 1" | "t = 2" "k = 2"
    by (auto simp: commit_thread_ids less_Suc_eq numeral_nat split: if_splits)
  then have "tm_contains (threads (make_program one_participant)) t \<and> (\<exists>l. offered (make_program one_participant) t (?T t k) k = Some l
      \<and> instance_of l (label (commit_events ! (thread_ids commit_events t ! k))))"
    by cases (simp_all add: program_contains one_participant_def [THEN arg_cong [of _ _ opt_num_participants]] commit_thread_ids tr
        coordinator_commits participant_commits commit_labels nd self del: One_nat_def)
  moreover have "\<not> is_block e" if "e \<in> set commit_events" for e using that by (auto simp: commit_events_def is_block_def)
  then have "\<not> is_block (commit_events ! (thread_ids commit_events t ! k))" using nth_mem [OF k] by (simp add: set_thread_ids)
  ultimately show "tm_contains (threads (make_program one_participant)) t \<and> (\<exists>l. offered (make_program one_participant) t (?T t k) k = Some l
      \<and> instance_of l (label (commit_events ! (thread_ids commit_events t ! k))))
      \<and> (is_block (commit_events ! (thread_ids commit_events t ! k)) \<longrightarrow> Suc k = length (thread_ids commit_events t))" by simp
qed

lemma commit_consistent: "consistent FifoP2P no_missing_reads_tolerance commit_events commit_reads"
proof -
  have len: "length commit_events = 6" by (simp add: commit_events_def)
  have rd: "reads_ok no_missing_reads_tolerance commit_events commit_reads"
    unfolding reads_ok_def rf_valid_def len
    by (auto simp: read_ok_def accepted_def recv_of_def send_of_def as_receive_def as_send_def is_receive_def is_send_def
        commit_events_def make_receive_label_def make_nonblocking_receive_label_def match_any_value_def less_Suc_eq numeral_nat split: if_splits)
  have "causal commit_events commit_reads \<subseteq> {(i, j). i < j}"
    by (auto simp: causal_def po_of_def rf_of_def split: if_splits)
  then have ac: "acyclic (causal commit_events commit_reads)"
    using acyclic_subset [OF wf_acyclic [OF wf_less]] by (simp add: less_than_def less_eq)
  have "fifo_ok commit_events commit_reads"
    unfolding fifo_ok_def
    by (auto simp: same_channel_def commit_events_def less_Suc_eq numeral_nat send_of_def as_send_def is_send_def split: if_splits)
  with rd ac show ?thesis by (simp add: consistent_def async_consistent_def)
qed

lemma graph_of_events:
  assumes "\<forall>i<length evs. thread (evs ! i) \<le> kMaxThreadId \<and> index (evs ! i) = next_of (take i evs) (thread (evs ! i))" "length evs < 2 ^ 32"
  shows "\<exists>x. wf_xg x \<and> xg_events x = evs \<and> xg_rf x = Map.empty"
  using assms
proof (induction evs rule: rev_induct)
  case Nil
  then show ?case using wf_empty_xg by (intro exI [of _ empty_xg]) simp
next
  case (snoc e evs)
  have "\<forall>i<length evs. thread (evs ! i) \<le> kMaxThreadId \<and> index (evs ! i) = next_of (take i evs) (thread (evs ! i))"
  proof (intro allI impI)
    fix i assume "i < length evs"
    with snoc.prems(1) [rule_format, of i] show "thread (evs ! i) \<le> kMaxThreadId \<and> index (evs ! i) = next_of (take i evs) (thread (evs ! i))"
      by (simp add: nth_append)
  qed
  with snoc obtain x where x: "wf_xg x" "xg_events x = evs" "xg_rf x = Map.empty" by auto
  have e: "thread e \<le> kMaxThreadId" "index e = next_of evs (thread e)" using snoc.prems(1) [rule_format, of "length evs"] by simp_all
  have "length (thread_ids evs (thread e)) \<le> length evs" unfolding thread_ids_def by (metis length_filter_le diff_zero length_upt)
  with add_event_wf [OF x(1) e(1), of "label e"] snoc.prems(2) x e(2) show ?case by auto
qed

lemma commit_run:
  "\<exists>x. wf_xg x \<and> xg_events x = commit_events \<and> xg_rf x = commit_reads"
proof -
  have len: "length commit_events = 6" by (simp add: commit_events_def)
  have "\<exists>x. wf_xg x \<and> xg_events x = commit_events \<and> xg_rf x = Map.empty"
  proof (rule graph_of_events)
    show "\<forall>i<length commit_events. thread (commit_events ! i) \<le> kMaxThreadId
        \<and> index (commit_events ! i) = next_of (take i commit_events) (thread (commit_events ! i))"
    proof (intro allI impI)
      fix i assume "i < length commit_events"
      then consider "i = 0" | "i = 1" | "i = 2" | "i = 3" | "i = 4" | "i = 5" unfolding len by linarith
      then show "thread (commit_events ! i) \<le> kMaxThreadId
          \<and> index (commit_events ! i) = next_of (take i commit_events) (thread (commit_events ! i))"
        by cases (simp_all add: commit_events_def kMaxThreadId_def next_of_def thread_ids_def upt_rec)
    qed
  qed (simp add: len)
  then obtain x where x: "wf_xg x" "xg_events x = commit_events" "xg_rf x = Map.empty" by blast
  from set_reads_from_source_wf [OF x(1), of 1 "from_send 0"] obtain y where
    y: "wf_xg y" "xg_events y = commit_events" "xg_rf y = [1 \<mapsto> from_send 0]"
    by (auto simp: x commit_events_def source_ok_def is_receive_def is_send_def)
  from set_reads_from_source_wf [OF y(1), of 4 "from_send 3"] obtain z where
    "wf_xg z" "xg_events z = commit_events" "xg_rf z = commit_reads"
    by (auto simp: y commit_events_def source_ok_def is_receive_def is_send_def)
  then show ?thesis by blast
qed

definition tpc_config :: "Options \<Rightarrow> (SimValue, SimValue TerminalExecution list) DporConfig" where
  "tpc_config options = \<lparr>config_program = make_program options, max_depth = 1000, max_thread_events = 0, communication_model = FifoP2P,
     on_terminal_execution = Some (\<lambda>e seen. (Inr Continue, seen @ [e])), on_progress = None, progress_report_interval = 0,
     on_execution = None, on_fatal_error = None\<rparr>"

lemma commit_execution: "\<exists>x. execution_of (search (tpc_config one_participant)) x \<and> xg_events x = commit_events"
proof -
  obtain x where x: "wf_xg x" "xg_events x = commit_events" "xg_rf x = commit_reads" using commit_run by blast
  have "\<forall>e\<in>set (butlast commit_events). \<not> is_error e" by (simp add: commit_events_def is_error_def)
  moreover have "s_model (search (tpc_config one_participant)) = FifoP2P" "config_program (tpc_config one_participant) = make_program one_participant"
    by (simp_all add: search_def search_of_def tpc_config_def)
  ultimately have "execution_of (search (tpc_config one_participant)) x"
    using x commit_follows commit_consistent by (simp add: execution_of_def)
  with x(2) show ?thesis by blast
qed

end
