(* ===== verification/Tpc_Verified.thy ===== *)
theory Tpc_Verified
  imports Tpc_Correct Tpc_Sample
begin

text \<open>
  What a verification of the two-phase commit program reports: no deadlock, no error without the injected bug,
  complete runs, and the three protocol properties on everything it publishes.
\<close>

section \<open>Errors\<close>

lemma tpc_error_needs_bug:
  assumes r: "tpc_run options evs m" and i: "i < length evs" "is_error (evs ! i)"
  shows "opt_bug_on_p1_no options"
proof -
  obtain msg where e: "label (evs ! i) = Error msg" using i(2) by (auto simp: is_error_def split: EventLabel.splits)
  from r i(1) show ?thesis
  proof (cases rule: event_label)
    case (coordinator k l)
    let ?n = "opt_num_participants options" and ?ic = "opt_inject_crash options" and ?tr = "trace_upto evs m 1 k"
    have "l = Error msg" using coordinator(4) e by (auto simp: instance_of_def split: EventLabel.splits if_splits)
    moreover have False if p: "crash_point ?n ?ic" "p < length ?tr" "decided ?n (take p ?tr) = Some (d, [])" "?tr ! p = Observed v" "decode_crash_choice v = Inl ex" for p d v ex
    proof -
      have "coord_phase ?n ?ic k ?tr" using coord_shape_at [OF r coordinator(2)] by (simp add: coord_shape_def)
      then show False
      proof (cases rule: coord_phase_cases)
        case (crash d')
        with decided_unique(1) [OF p(3), of "length ?tr" d'] p(2) show False by simp
      next
        case (on p' d')
        with decided_unique(1) [OF p(3) on(5)] p show False by (auto simp: goes_on_def passed_def)
      next
        case (crashed p' d' v')
        with decided_unique(1) [OF p(3) crashed(4)] p show False by auto
      qed (use p(3) in blast)
    qed
    ultimately show ?thesis using coordinator(5) by (auto simp: coord_label_def)
  next
    case (participant pid k l)
    let ?tr = "trace_upto evs m (pid + 1) k"
    have "l = Error msg" using participant(6) e by (auto simp: instance_of_def split: EventLabel.splits if_splits)
    with participant(7) obtain p v ex where p: "p < length ?tr" "prepared (take p ?tr) = Some []" "?tr ! p = Observed v" "decode_vote_choice v = Inl ex"
      by (auto simp: part_label_def)
    have later: False if "votes_at ?tr p' vote" for p' vote
      using prepared_unique [OF p(2) votes_atD(2) [OF that]] votes_atD [OF that] p by auto
    have "part_phase k ?tr" using part_shape_at [OF r participant(2-4)] by (simp add: part_shape_def)
    then show ?thesis
    proof (cases rule: part_phase_cases)
      case waiting
      with unprepared_none(2) p(2) show ?thesis by simp
    next
      case choosing
      with prepared_unique [OF p(2), of "length ?tr"] p(1) show ?thesis by simp
    qed (use later in blast)+
  qed
qed

section \<open>Executions of a verification\<close>

lemma execution_run:
  assumes "execution_of (search config) x" "config_program config = make_program options" "few options"
  shows "tpc_run options (xg_events x) (xg_rf x)"
proof -
  have "async_consistent no_missing_reads_tolerance (xg_events x) (xg_rf x)"
    using assms(1) by (cases "s_model (search config)") (auto simp: execution_of_def consistent_def)
  with assms show ?thesis by (auto simp: execution_of_def tpc_run_def intro: butlast_errors_last)
qed

lemma not_last_runs:
  assumes "tpc_run options evs m" "Suc k < length (thread_ids evs t)"
  shows "\<not> is_error (evs ! (thread_ids evs t ! k))"
  using assms earlier_no_error [of evs k "Suc k" t] by (simp add: tpc_run_def)

lemma coordinator_label:
  assumes "tpc_run options evs m" "k < length (thread_ids evs 1)"
  obtains l where "coord_label (opt_num_participants options) (opt_bug_on_p1_no options) (opt_inject_crash options) (trace_upto evs m 1 k) k l"
    "instance_of l (label (evs ! (thread_ids evs 1 ! k)))"
  using assms offered_coordinator [OF tpc_run_few [OF assms(1)]] unfolding tpc_run_def follows_def by metis

lemma participant_label:
  assumes "tpc_run options evs m" "1 \<le> pid" "pid \<le> opt_num_participants options" "k < length (thread_ids evs (pid + 1))"
  obtains l where "part_label pid (trace_upto evs m (pid + 1) k) k l" "instance_of l (label (evs ! (thread_ids evs (pid + 1) ! k)))"
  using assms offered_participant [OF tpc_run_few [OF assms(1)]] unfolding tpc_run_def follows_def by metis

section \<open>No deadlock\<close>

lemma coordinator_not_blocked:
  assumes "tpc_run options (xg_events x) (xg_rf x)"
  shows "\<not> blocked_at x 1"
proof
  let ?T = "thread_ids (xg_events x) 1"
  assume "blocked_at x 1"
  then have T: "?T \<noteq> []" and b: "is_block (xg_events x ! last ?T)" by (auto simp: blocked_at_def last_event_def split: if_splits)
  then have k: "length ?T - 1 < length ?T" "?T ! (length ?T - 1) = last ?T" by (simp_all add: last_conv_nth)
  from coordinator_label [OF assms k(1)] obtain l where
    l: "coord_label (opt_num_participants options) (opt_bug_on_p1_no options) (opt_inject_crash options) (trace_upto (xg_events x) (xg_rf x) 1 (length ?T - 1)) (length ?T - 1) l"
      "instance_of l (label (xg_events x ! last ?T))" unfolding k(2) by blast
  have "label (xg_events x ! last ?T) = Block" using b by (simp add: is_block_def split: EventLabel.splits)
  with coord_never_blocks [OF l(1)] l(2) show False by simp
qed

lemma prepare_sent:
  assumes r: "tpc_run options evs m" and n: "opt_num_participants options < length (thread_ids evs 1)"
    and pid: "1 \<le> pid" "pid \<le> opt_num_participants options"
  obtains i where "i < length evs" "label (evs ! i) = Send \<lparr>destination = pid + 1, send_value = encode_message Prepare\<rparr>"
proof -
  let ?k = "pid - 1"
  have k: "?k < length (thread_ids evs 1)" "Suc ?k < length (thread_ids evs 1)" "?k < opt_num_participants options" using n pid by auto
  from coordinator_label [OF r k(1)] obtain l where
    l: "coord_label (opt_num_participants options) (opt_bug_on_p1_no options) (opt_inject_crash options) (trace_upto evs m 1 ?k) ?k l"
      "instance_of l (label (evs ! (thread_ids evs 1 ! ?k)))" .
  have ne: "\<forall>m. l \<noteq> Error m" using not_last_runs [OF r k(2)] l(2) by (auto simp: instance_of_def is_error_def)
  from l(1) ne show thesis
  proof (cases rule: coord_label_cases)
    case (prep p)
    with l(2) pid have "label (evs ! (thread_ids evs 1 ! ?k)) = Send \<lparr>destination = pid + 1, send_value = encode_message Prepare\<rparr>"
      by (simp add: instance_of_def fewD(2) [OF tpc_run_few [OF r] pid(2)] encode_message_def)
    with that thread_event(1) [OF k(1)] show thesis by blast
  qed (use k(3) in auto)
qed

text \<open>A participant that is blocked has not read its preparation.\<close>

lemma blocked_participant:
  assumes r: "tpc_run options evs m" and pid: "1 \<le> pid" "pid \<le> opt_num_participants options"
    and b: "last_event evs (pid + 1) = Some e" "is_block e"
    and i: "label (evs ! i) = Send \<lparr>destination = pid + 1, send_value = encode_message Prepare\<rparr>"
  shows "m j \<noteq> Some (from_send i)"
proof
  let ?T = "thread_ids evs (pid + 1)"
  let ?k = "length ?T - 1"
  assume j: "m j = Some (from_send i)"
  have T: "?T \<noteq> []" and bl: "label (evs ! last ?T) = Block"
    using b by (auto simp: last_event_def is_block_def split: if_splits EventLabel.splits)
  then have k: "?k < length ?T" "?T ! ?k = last ?T" by (simp_all add: last_conv_nth)
  from participant_label [OF r pid k(1)] bl obtain l where l: "part_label pid (trace_upto evs m (pid + 1) ?k) ?k l" "instance_of l Block"
    unfolding k(2) by metis
  have "part_phase ?k (trace_upto evs m (pid + 1) ?k)" using part_shape_at [OF r pid k(1)] by (simp add: part_shape_def)
  from part_waits [OF this l] have u: "unprepared (trace_upto evs m (pid + 1) ?k)" by blast
  from r have rd: "reads_ok no_missing_reads_tolerance evs m" by (simp add: tpc_run_def async_consistent_def)
  have jl: "j < length evs" "is_receive (evs ! j)" using reads_okD(1) [OF rd] j by (auto simp: rf_valid_def)
  have s: "as_send (evs ! i) = Some \<lparr>destination = pid + 1, send_value = encode_message Prepare\<rparr>" using i by (simp add: as_send_def)
  have t: "thread (evs ! j) = pid + 1" using reads_okD(2) [OF rd j] s by (simp add: read_ok_def send_of_def)
  from in_thread_ids [OF jl(1)] t obtain k' where k': "k' < length ?T" "?T ! k' = j" by metis
  have "k' \<noteq> ?k" using k(2) k'(2) bl jl(2) by (auto simp: is_receive_def)
  with k' have "k' < ?k" by simp
  then have "j \<in> set (take ?k ?T)" using k' k(1) by (auto simp: in_set_conv_nth intro!: exI [of _ k'])
  moreover have "observed evs m j = [Observed (encode_message Prepare)]" using jl(2) j s by (simp add: observed_def)
  ultimately have seen: "Observed (encode_message Prepare) \<in> set (trace_upto evs m (pid + 1) ?k)" unfolding trace_upto_def by force
  have "decode_message (encode_message Prepare) = Inr Prepare" by (rule decode_encode) (simp add: message_id_def)
  from prepared_seen [OF seen this unprepared_none(3) [OF u]] unprepared_none(1) [OF u] show False by blast
qed

lemma tpc_threads:
  assumes "few options" "config_program config = make_program options"
  shows "t \<in> set (s_threads (search config)) \<longleftrightarrow> 1 \<le> t \<and> t \<le> opt_num_participants options + 1"
  using set_assigned_ids [of "threads (config_program config)"] assms(2)
  by (simp add: search_def search_of_def tm_assigned_def program_contains [OF assms(1)])

lemma coordinator_done:
  assumes "few options" "config_program config = make_program options" "thread_done (search config) x 1"
  shows "coord_done (opt_num_participants options) (opt_inject_crash options) (trace_of (xg_events x) (xg_rf x) 1) (length (thread_ids (xg_events x) 1))"
    "opt_num_participants options < length (thread_ids (xg_events x) 1)"
proof -
  show d: "coord_done (opt_num_participants options) (opt_inject_crash options) (trace_of (xg_events x) (xg_rf x) 1) (length (thread_ids (xg_events x) 1))"
    using coordinator_reply [OF assms(1), of "trace_of (xg_events x) (xg_rf x) 1" "length (thread_ids (xg_events x) 1)"] assms
    by (simp add: thread_done_def)
  then show "opt_num_participants options < length (thread_ids (xg_events x) 1)" by (auto simp: coord_done_def)
qed

lemma tpc_no_deadlock:
  assumes r: "tpc_run options (xg_events x) (xg_rf x)" and P: "config_program config = make_program options"
  shows "\<not> terminal_ok (search config) Blocked x"
proof
  let ?S = "search config" and ?evs = "xg_events x" and ?m = "xg_rf x"
  note few = tpc_run_few [OF r]
  assume "terminal_ok ?S Blocked x"
  then obtain t where t: "t \<in> set (s_threads ?S)" "thread_stuck ?S x t"
    and all: "\<And>t. t \<in> set (s_threads ?S) \<Longrightarrow> thread_done ?S x t \<or> thread_stuck ?S x t"
    by (auto simp: terminal_ok_def)
  have "\<not> thread_stuck ?S x 1" using coordinator_not_blocked [OF r] by (simp add: thread_stuck_def)
  with all [of 1] have "thread_done ?S x 1" by (simp add: tpc_threads [OF few P])
  note sent = coordinator_done(2) [OF few P this]
  define pid where "pid = t - 1"
  have "t \<noteq> 1" using t(2) \<open>\<not> thread_stuck ?S x 1\<close> by blast
  with t(1) have pid: "t = pid + 1" "1 \<le> pid" "pid \<le> opt_num_participants options" by (auto simp: tpc_threads [OF few P] pid_def)
  from t(2) pid(1) obtain rl where b: "blocked_at x (pid + 1)" and a: "awaits (make_program options) x (pid + 1) rl" and nr: "\<not> readable x (pid + 1) rl"
    by (auto simp: thread_stuck_def P)
  from prepare_sent [OF r sent pid(2,3)] obtain i where
    i: "i < length ?evs" "label (?evs ! i) = Send \<lparr>destination = pid + 1, send_value = encode_message Prepare\<rparr>" .
  have "part_label pid (trace_of ?evs ?m (pid + 1)) (length (thread_ids ?evs (pid + 1)) - 1) (Receive rl)" and bl: "is_blocking rl"
    using offered_participant [OF few _ pid(2,3)] a by (auto simp: awaits_def)
  then have "rl = make_receive_label match_any_value Blocking"
    by (auto simp: part_label_def make_nonblocking_receive_label_def make_receive_label_def is_blocking_def)
  with i have "compatible ?evs (pid + 1) rl i"
    by (simp add: compatible_def is_send_def send_of_def as_send_def make_receive_label_def match_any_value_def)
  moreover from b obtain e where "last_event ?evs (pid + 1) = Some e" "is_block e" by (auto simp: blocked_at_def)
  from blocked_participant [OF r pid(2,3) this i(2)] i have "i \<in> unread x" by (auto simp: unread_def is_send_def)
  ultimately show False using nr by (auto simp: readable_def)
qed

section \<open>Completion\<close>

text \<open>Every participant has voted, and unless the coordinator crashed, each was sent the decision.\<close>

definition completed :: "nat \<Rightarrow> SimValue event list \<Rightarrow> bool" where
  "completed n evs \<longleftrightarrow>
     (\<forall>pid. 1 \<le> pid \<longrightarrow> pid \<le> n \<longrightarrow> (\<exists>vote. chooses evs (participant_to_thread pid) (vote_choice vote)))
   \<and> (chooses evs (participant_to_thread kCoordinator) (crash_choice True)
      \<or> (\<exists>d. \<forall>pid. 1 \<le> pid \<longrightarrow> pid \<le> n \<longrightarrow> (\<exists>i<length evs. label (evs ! i) = Send \<lparr>destination = participant_to_thread pid, send_value = decision_message d\<rparr>)))"

lemma decision_to_all:
  assumes r: "tpc_run options evs m" and g: "goes_on (opt_num_participants options) (opt_inject_crash options) (trace_of evs m 1) p d"
    and k: "2 * opt_num_participants options + p + of_bool (crash_point (opt_num_participants options) (opt_inject_crash options)) < length (thread_ids evs 1)"
    and pid: "1 \<le> pid" "pid \<le> opt_num_participants options"
  shows "\<exists>i<length evs. label (evs ! i) = Send \<lparr>destination = participant_to_thread pid, send_value = decision_message d\<rparr>"
proof -
  let ?n = "opt_num_participants options" and ?ic = "opt_inject_crash options"
  let ?k = "?n + p + of_bool (crash_point ?n ?ic) + (pid - 1)"
  let ?tr = "trace_upto evs m 1 ?k"
  have kl: "?k < length (thread_ids evs 1)" "Suc ?k < length (thread_ids evs 1)" using k pid by auto
  from trace_upto_of [of ?k evs 1 m] kl(1) obtain ext where ext: "trace_of evs m 1 = ?tr @ ext" by auto
  have pt: "p \<le> length ?tr \<Longrightarrow> decided ?n (take p ?tr) = Some (d, [])" using g ext by (simp add: goes_on_def)
  have ph: "coord_phase ?n ?ic ?k ?tr" using coord_shape_at [OF r kl(1)] by (simp add: coord_shape_def)
  have u: "p' = p \<and> d' = d" if "decided ?n (take p' ?tr) = Some (d', [])" "p' \<le> length ?tr" for p' d'
  proof -
    have "decided ?n (take p' (trace_of evs m 1)) = Some (d', [])" "p' \<le> length (trace_of evs m 1)" using that ext by simp_all
    with g decided_unique [of ?n p' "trace_of evs m 1" d' p d] show ?thesis by (auto simp: goes_on_def)
  qed
  from ph have on: "\<exists>p' d'. goes_on ?n ?ic ?tr p' d'"
  proof (cases rule: coord_phase_cases)
    case votes
    with pt show ?thesis by auto
  next
    case (crash d')
    with u [of "length ?tr" d'] pid show ?thesis by auto
  next
    case (crashed p' d' v)
    with u [of p' d'] have "p' = p" by simp
    with crashed g ext show ?thesis by (auto simp: goes_on_def passed_def nth_append)
  qed blast
  then obtain p' d' where "decided ?n (take p' ?tr) = Some (d', [])" "p' \<le> length ?tr" unfolding goes_on_def by blast
  with u [OF this] have onp: "p \<le> length ?tr" "decided ?n (take p ?tr) = Some (d, [])" by simp_all
  from coordinator_label [OF r kl(1)] obtain l where
    l: "coord_label ?n (opt_bug_on_p1_no options) ?ic ?tr ?k l" "instance_of l (label (evs ! (thread_ids evs 1 ! ?k)))" .
  have ne: "\<forall>m. l \<noteq> Error m" using not_last_runs [OF r kl(2)] l(2) by (auto simp: instance_of_def is_error_def)
  from l(1) ne show ?thesis
  proof (cases rule: coord_label_cases)
    case vote
    with decided_before [OF onp(2) vote(3)] show ?thesis by simp
  next
    case (crash d')
    with u [OF crash(4,3)] show ?thesis by simp
  next
    case (send p' d' pid')
    with u [OF send(7,6)] have "p' = p" "d' = d" by auto
    with send pid have "pid' = pid" by simp
    with \<open>d' = d\<close> send(5) l(2) thread_event(1) [OF kl(1)] show ?thesis by (auto simp: instance_of_def)
  next
    case (ack p' d')
    with u [OF ack(5,4)] pid show ?thesis by simp
  qed simp
qed

lemma crash_position:
  assumes r: "tpc_run options evs m" and d: "decided (opt_num_participants options) (take p (trace_of evs m 1)) = Some (d, [])"
    and p: "opt_num_participants options + p < length (thread_ids evs 1)" "p < length (trace_of evs m 1)"
    and c: "crash_point (opt_num_participants options) (opt_inject_crash options)"
    and v: "trace_of evs m 1 ! p = Observed v" "decode_crash_choice v = Inr True"
  shows "chooses evs 1 (crash_choice True)"
proof -
  let ?n = "opt_num_participants options" and ?ic = "opt_inject_crash options" and ?T = "thread_ids evs 1"
  have "Observed v \<in> set (trace_of evs m 1)" using p(2) v(1) by (metis nth_mem)
  then obtain k where k: "k < length ?T" "Observed v \<in> set (observed evs m (?T ! k))"
    using seen_value [of v evs m 1 "length ?T"] by (auto simp: trace_upto_all)
  from r have f: "follows (make_program options) evs m" and cons: "async_consistent no_missing_reads_tolerance evs m" and n: "few options"
    by (auto simp: tpc_run_def)
  note i = thread_event [OF k(1)]
  from coordinator_label [OF r k(1)] obtain l where
    l: "coord_label ?n (opt_bug_on_p1_no options) ?ic (trace_upto evs m 1 k) k l" "instance_of l (label (evs ! (?T ! k)))" .
  have sees: "sees (to_coord ?n) l (label (evs ! (?T ! k))) (observed evs m (?T ! k))"
    by (rule observed_sees [OF cons _ i(1) l(2)]) (use only_gets_tpc(1) [OF f n] i(2) in simp)
  have "\<not> to_coord ?n v"
  proof
    assume "to_coord ?n v"
    from to_coord_readable [OF this] v(2) show False
      by (auto simp: decode_message_def decode_crash_choice_def split: option.splits Tag.splits)
  qed
  with sees k(2) obtain nd where nd: "label (evs ! (?T ! k)) = NondeterministicChoice nd" "nd_value nd = v"
    by (auto simp: sees_def split: EventLabel.splits)
  with i have ch: "chooses evs 1 v" by (auto simp: chooses_def)
  from crash_chosen [OF r this] have "v = crash_choice False \<or> v = crash_choice True" by metis
  with v(2) ch show ?thesis by auto
qed

lemma tpc_completed:
  assumes r: "tpc_run options (xg_events x) (xg_rf x)" and P: "config_program config = make_program options"
    and full: "terminal_ok (search config) Full x"
  shows "completed (opt_num_participants options) (xg_events x)"
  unfolding completed_def
proof (intro conjI allI impI)
  let ?evs = "xg_events x" and ?m = "xg_rf x" and ?n = "opt_num_participants options" and ?ic = "opt_inject_crash options"
  note few = tpc_run_few [OF r]
  have fin: "thread_done (search config) x t" if "1 \<le> t" "t \<le> ?n + 1" for t
    using full that by (simp add: terminal_ok_def tpc_threads [OF few P])
  show "\<exists>vote. chooses ?evs (participant_to_thread pid) (vote_choice vote)" if pid: "1 \<le> pid" "pid \<le> ?n" for pid
  proof -
    have "part_done (trace_of ?evs ?m (pid + 1)) (length (thread_ids ?evs (pid + 1)))"
      using participant_reply [OF few pid, of "trace_of ?evs ?m (pid + 1)" "length (thread_ids ?evs (pid + 1))"] fin [of "pid + 1"] pid P
      by (simp add: thread_done_def)
    then obtain p vote where "votes_at (trace_upto ?evs ?m (pid + 1) (length (thread_ids ?evs (pid + 1)))) p vote"
      unfolding part_done_def trace_upto_all by blast
    from vote_was_chosen [OF r pid _ this] show ?thesis by (auto simp: fewD(2) [OF few pid(2)])
  qed
  from coordinator_done(1) [OF few P fin [of 1]] consider
    (sent) p d where "goes_on ?n ?ic (trace_of ?evs ?m 1) p d" "2 * ?n + p + of_bool (crash_point ?n ?ic) < length (thread_ids ?evs 1)"
  | (crashed) p d v where "crash_point ?n ?ic" "?n + p < length (thread_ids ?evs 1)" "p < length (trace_of ?evs ?m 1)"
      "decided ?n (take p (trace_of ?evs ?m 1)) = Some (d, [])" "trace_of ?evs ?m 1 ! p = Observed v" "decode_crash_choice v = Inr True"
    by (auto simp: coord_done_def)
  then show "chooses ?evs (participant_to_thread kCoordinator) (crash_choice True)
      \<or> (\<exists>d. \<forall>pid. 1 \<le> pid \<longrightarrow> pid \<le> ?n \<longrightarrow> (\<exists>i<length ?evs. label (?evs ! i) = Send \<lparr>destination = participant_to_thread pid, send_value = decision_message d\<rparr>))"
  proof cases
    case (sent p d)
    with decision_to_all [OF r] show ?thesis by blast
  next
    case (crashed p d v)
    from crash_position [OF r crashed(4,2,3,1,5,6)] show ?thesis by simp
  qed
qed

section \<open>The configuration\<close>

lemma fold_assign_wf: "wf_tm m \<Longrightarrow> wf_tm (fold (\<lambda>pid. tm_assign d (f pid) (g pid)) pids m)"
  by (induction pids arbitrary: m) (simp_all add: tm_assign_wf)

lemma tpc_compact:
  assumes "few options"
  shows "validate_compact_thread_ids (threads (make_program options)) = Inr ()"
proof -
  have "wf_tm (threads (make_program options))"
    unfolding make_program_def Program.select_convs by (intro fold_assign_wf tm_assign_wf(1) tm_assigned_empty(2))
  moreover have "tm_assigned (threads (make_program options)) = {1..opt_num_participants options + 1}"
    by (auto simp: tm_assigned_def program_contains [OF assms])
  ultimately show ?thesis using validate_compact_correct by blast
qed

lemma tpc_config_ok:
  assumes "config_program config = make_program options" "opt_num_participants options < kMaxThreadId" "max_depth config \<le> 2 ^ 32"
  shows "config_ok config"
proof -
  have "few options" using assms(2) by (simp add: kMaxThreadId_def few_def)
  with tpc_safe assms show ?thesis by (auto simp: config_ok_def program_contains)
qed

text \<open>What a published execution of the protocol is like.\<close>

definition protocol_outcome :: "Options \<Rightarrow> SimValue ExplorationGraph \<Rightarrow> TerminalExecutionKind \<Rightarrow> bool" where
  "protocol_outcome options x kind \<longleftrightarrow>
     agreement (xg_events x) \<and> validity (opt_num_participants options) (xg_events x) \<and> crash_safety (xg_events x)
   \<and> kind \<noteq> Blocked \<and> (kind = ErrorExecution \<longrightarrow> opt_bug_on_p1_no options)
   \<and> (kind = Full \<longrightarrow> completed (opt_num_participants options) (xg_events x))"

lemma published_protocol_outcome:
  assumes "config_program config = make_program options" "few options" "published_ok (search config) (x, kind, depth)"
  shows "protocol_outcome options x kind"
proof -
  from assms(3) have x: "execution_of (search config) x" "terminal_ok (search config) kind x" by (auto simp: published_ok_def)
  note r = execution_run [OF x(1) assms(1,2)]
  have "opt_bug_on_p1_no options" if "kind = ErrorExecution"
  proof -
    from x(2) that obtain t e where "last_event (xg_events x) t = Some e" "is_error e" by (auto simp: terminal_ok_def)
    then obtain i where "i < length (xg_events x)" "is_error (xg_events x ! i)"
      using last_thread_id [of "xg_events x" t] by (auto simp: last_event_def split: if_splits)
    with tpc_error_needs_bug [OF r] show ?thesis by blast
  qed
  moreover have "kind \<noteq> Blocked" using tpc_no_deadlock [OF r assms(1)] x(2) by blast
  moreover have "completed (opt_num_participants options) (xg_events x)" if "kind = Full"
    using tpc_completed [OF r assms(1)] x(2) that by blast
  ultimately show ?thesis using tpc_agreement [OF r] tpc_validity [OF r] tpc_crash_safety [OF r] by (simp add: protocol_outcome_def)
qed

section \<open>Properties\<close>

text \<open>C8. Two-phase commit, for any number of participants whose thread ids fit into 32 bits, with and without the injected crash and in both
  communication models: in every execution of the simulated program all decisions that are sent agree;
  if the decision is to commit, every participant chose to vote yes and none chose to vote no; after a crash no
  decision is sent; and without the injected bug there is no error event.\<close>

theorem two_phase_commit_safe:
  assumes "config_program config = make_program options" "opt_num_participants options + 1 < 2 ^ 32" "execution_of (search config) x"
  shows "agreement (xg_events x) \<and> validity (opt_num_participants options) (xg_events x) \<and> crash_safety (xg_events x)
    \<and> (opt_bug_on_p1_no options \<or> (\<forall>e\<in>set (xg_events x). \<not> is_error e))"
proof -
  note r = execution_run [OF assms(3,1), unfolded few_def, OF assms(2)]
  show ?thesis using tpc_agreement [OF r] tpc_validity [OF r] tpc_crash_safety [OF r] tpc_error_needs_bug [OF r]
    by (auto simp: in_set_conv_nth)
qed

theorem two_phase_commit_safe_witness:
  "\<exists>x. execution_of (search (tpc_config one_participant)) x \<and> sends_decision (xg_events x) Commit \<and> agreement (xg_events x)
    \<and> chooses (xg_events x) 2 (vote_choice Yes)"
proof -
  obtain x where x: "execution_of (search (tpc_config one_participant)) x" "xg_events x = commit_events" using commit_execution by blast
  have c: "config_program (tpc_config one_participant) = make_program one_participant" "opt_num_participants one_participant = 1"
    by (simp_all add: tpc_config_def one_participant_def)
  have d: "sends_decision (xg_events x) Commit"
    unfolding x(2) sends_decision_def
    by (intro exI [of _ 5] conjI exI [of _ "\<lparr>destination = 2, send_value = encode_message (DecisionMsg Commit)\<rparr>"])
      (simp_all add: commit_labels(6) decode_decision_encode, simp add: commit_events_def)
  have n: "opt_num_participants one_participant + 1 < 2 ^ 32" by (simp add: c)
  note ok = two_phase_commit_safe [OF c(1) n x(1)]
  from ok d have "chooses (xg_events x) (participant_to_thread 1) (vote_choice Yes)" unfolding validity_def c(2) by blast
  with ok d x(1) show ?thesis by auto
qed

text \<open>C6. The verification of the two-phase commit program, end to end. For any number of participants that
  the thread ids admit and observers that do not throw, it returns a result and throws nothing. Every execution it
  publishes satisfies agreement, validity and crash safety; none is blocked; an error execution needs the
  injected bug; and in a full one every participant has voted and was sent the decision unless the
  coordinator crashed. So whatever the observers keep on such executions holds in the end.\<close>

theorem verify_two_phase_commit:
  fixes config :: "(SimValue, 'u) DporConfig"
  assumes "config_program config = make_program options" "opt_num_participants options < kMaxThreadId" "max_depth config \<le> 2 ^ 32"
    and "validate_terminal_observer_config config = Inr ()" "\<And>e. \<not> observer_raises config e"
    and "observers_keep config clock (\<lambda>(x, kind, depth). protocol_outcome options x kind) U" "U u"
  shows "\<exists>res u'. verify config clock u = Some (Inr res, u') \<and> U u'"
proof -
  have n: "few options" using assms(2) by (simp add: kMaxThreadId_def few_def)
  have "observers_keep config clock (published_ok (search config)) U"
    using assms(6) published_protocol_outcome [OF assms(1) n] unfolding observers_keep_def by fast
  moreover have "sorted_thread_ids (config_program config) = Inr (map fst (for_each_assigned (threads (config_program config))))"
    using tpc_compact [OF n] by (simp add: sorted_thread_ids_def assms(1))
  ultimately obtain r u' where "verify config clock u = Some (r, u')" "U u'" "\<forall>e. r \<noteq> Inl e"
    using verify_sound_outcome [OF tpc_config_ok [OF assms(1-3)], of U u clock, OF assms(7)] assms(4,5) by auto
  then show ?thesis by (cases r) auto
qed

theorem verify_two_phase_commit_witness:
  "\<exists>res seen. verify (tpc_config \<lparr>opt_num_participants = 2, opt_bug_on_p1_no = False, opt_inject_crash = True\<rparr>) (\<lambda>u. (0, u)) [] = Some (Inr res, seen)
    \<and> (\<forall>e\<in>set seen. protocol_outcome \<lparr>opt_num_participants = 2, opt_bug_on_p1_no = False, opt_inject_crash = True\<rparr> (execution_graph e) (execution_kind e))"
proof (rule verify_two_phase_commit [where U = "\<lambda>seen. \<forall>e\<in>set seen. protocol_outcome
    \<lparr>opt_num_participants = 2, opt_bug_on_p1_no = False, opt_inject_crash = True\<rparr> (execution_graph e) (execution_kind e)"])
  show "observers_keep (tpc_config \<lparr>opt_num_participants = 2, opt_bug_on_p1_no = False, opt_inject_crash = True\<rparr>) (\<lambda>u. (0, u))
      (\<lambda>(x, kind, depth). protocol_outcome \<lparr>opt_num_participants = 2, opt_bug_on_p1_no = False, opt_inject_crash = True\<rparr> x kind)
      (\<lambda>seen. \<forall>e\<in>set seen. protocol_outcome \<lparr>opt_num_participants = 2, opt_bug_on_p1_no = False, opt_inject_crash = True\<rparr> (execution_graph e) (execution_kind e))"
    by (auto simp: observers_keep_def tpc_config_def)
  show "\<not> observer_raises (tpc_config \<lparr>opt_num_participants = 2, opt_bug_on_p1_no = False, opt_inject_crash = True\<rparr>) e" for e
    by (simp add: observer_raises_def tpc_config_def)
qed (simp_all add: tpc_config_def kMaxThreadId_def validate_terminal_observer_config_def)

end
