(* ===== verification/Tpc_Machine.thy ===== *)
theory Tpc_Machine
  imports Machine Tpc_Verified
begin

text \<open>
  The two-phase commit program on the machine, without the checker: every interleaving of coordinator and participants, with
  any number of participants whose thread ids fit into 32 bits, keeps the decisions that threads learn equal, and unless the bug is injected no thread
  fails and the protocol never stops before every thread has returned.
\<close>

section \<open>What runs leave\<close>

lemma tpc_leaves:
  assumes "few options" "reachable (make_program options) model \<sigma>"
  obtains evs m where "leaves (make_program options) model \<sigma> evs m" "tpc_run options evs m" "has_run evs m {..<length evs} \<sigma>"
proof -
  from reachable_leaves [OF assms(2)] obtain evs m where l: "leaves (make_program options) model \<sigma> evs m" by blast
  then have "tpc_run options evs m" "has_run evs m {..<length evs} \<sigma>"
    using assms(1) by (auto simp: leaves_def lawful_def consistent_def tpc_run_def)
  with l that show thesis by blast
qed

text \<open>A value in a trace was chosen by the thread or sent to it.\<close>

lemma seen_chosen_or_sent:
  assumes r: "tpc_run options evs m" and v: "Observed v \<in> set (trace_of evs m t)"
  shows "chooses evs t v \<or> (\<exists>i<length evs. \<exists>sl. label (evs ! i) = Send sl \<and> send_value sl = v)"
proof -
  from v obtain i where i: "i < length evs" "thread (evs ! i) = t" "Observed v \<in> set (observed evs m i)"
    by (auto simp: trace_of_def set_thread_ids)
  from r have rf: "rf_valid evs m" by (auto simp: tpc_run_def async_consistent_def reads_ok_def)
  show ?thesis
  proof (cases "is_receive (evs ! i)")
    case True
    with i(3) obtain src where "m i = Some src" by (cases "m i") (simp_all add: observed_def)
    with i(3) True obtain j where j: "m i = Some (from_send j)" by (cases src) (simp_all add: observed_def)
    with i(3) True obtain sl where "as_send (evs ! j) = Some sl" "v = send_value sl" by (cases "as_send (evs ! j)") (simp_all add: observed_def)
    moreover have "j < length evs" using rf j by (auto simp: rf_valid_def)
    ultimately show ?thesis by (auto simp: as_send_def split: EventLabel.splits)
  next
    case False
    with i show ?thesis
      by (auto simp: observed_def chooses_def as_nondeterministic_choice_def split: option.splits EventLabel.splits)
  qed
qed

lemma chosen_seen:
  assumes "chooses evs t v"
  shows "Observed v \<in> set (trace_of evs m t)"
proof -
  from assms obtain i nd where i: "i < length evs" "thread (evs ! i) = t" "label (evs ! i) = NondeterministicChoice nd" "nd_value nd = v"
    unfolding chooses_def by blast
  then have "observed evs m i = [Observed v]" by (simp add: observed_def is_receive_def as_nondeterministic_choice_def)
  with i(1,2) show ?thesis by (auto simp: trace_of_def set_thread_ids intro!: bexI [of _ i])
qed

lemma chosen_no_decision:
  assumes r: "tpc_run options evs m" and c: "chooses evs t v"
  shows "decode_decision_message v = None"
proof -
  from c obtain i nd where i: "i < length evs" "thread (evs ! i) = t" "label (evs ! i) = NondeterministicChoice nd" "nd_value nd = v"
    unfolding chooses_def by blast
  from r i(1) show ?thesis
  proof (cases rule: event_label)
    case (coordinator k l)
    with c i(2) have "chooses evs 1 v" by simp
    from crash_chosen [OF r this] have "v = crash_choice False \<or> v = crash_choice True" by metis
    then show ?thesis by (auto simp: bridge_defs)
  next
    case (participant pid k l)
    from choice_votes [OF r participant(2-4), of nd] participant(5) i(3,4) obtain vote where "v = vote_choice vote" by metis
    then show ?thesis by (cases vote) (simp_all add: bridge_defs)
  qed
qed

text \<open>A decision in the trace of a thread.\<close>

definition learned :: "SimValue machine \<Rightarrow> ThreadId \<Rightarrow> Decision \<Rightarrow> bool" where
  "learned \<sigma> t d \<longleftrightarrow> (\<exists>v. Observed v \<in> set (seen \<sigma> t) \<and> decode_decision_message v = Some d)"

lemma learned_sent:
  assumes "tpc_run options evs m" "has_run evs m {..<length evs} \<sigma>" "learned \<sigma> t d"
  shows "sends_decision evs d"
proof -
  from assms(2,3) obtain v where v: "Observed v \<in> set (trace_of evs m t)" "decode_decision_message v = Some d"
    by (auto simp: learned_def has_run_seen)
  from seen_chosen_or_sent [OF assms(1) v(1)] chosen_no_decision [OF assms(1)] v(2) show ?thesis by (auto simp: sends_decision_def)
qed

section \<open>No deadlock\<close>

lemma coordinator_moves:
  assumes few: "few options" and "finished (make_program options) \<sigma> 1 \<or> waiting (make_program options) \<sigma> 1"
  shows "finished (make_program options) \<sigma> 1"
proof (rule ccontr)
  assume "\<not> finished (make_program options) \<sigma> 1"
  with assms(2) obtain rl where rl: "offered (make_program options) 1 (seen \<sigma> 1) (pace \<sigma> 1) = Some (Receive rl)" "is_blocking rl"
    by (auto simp: waiting_def)
  with coord_never_blocks [OF offered_coordinator [OF few rl(1)]] show False by (simp add: instance_of_Block)
qed

text \<open>A participant that waits has its preparation under way, if the coordinator has sent it.\<close>

lemma prepared_not_waiting:
  assumes l: "leaves (make_program options) model \<sigma> evs m" and r: "tpc_run options evs m"
    and pid: "1 \<le> pid" "pid \<le> opt_num_participants options" and b: "broken \<sigma> = {}"
    and i: "i < length evs" "label (evs ! i) = Send \<lparr>destination = pid + 1, send_value = encode_message Prepare\<rparr>"
  shows "\<not> waiting (make_program options) \<sigma> (pid + 1)"
proof
  let ?e = "\<lparr>thread = pid + 1, index = 0, label = Block :: SimValue EventLabel\<rparr>" and ?P = "make_program options"
  assume "waiting ?P \<sigma> (pid + 1)"
  then obtain rl where rl: "offered ?P (pid + 1) (seen \<sigma> (pid + 1)) (pace \<sigma> (pid + 1)) = Some (Receive rl)" "is_blocking rl"
    and none: "\<And>s v. (s, pid + 1, v) \<in> set (mail \<sigma>) \<Longrightarrow> matches rl v \<noteq> Inr True" by (auto simp: waiting_def)
  from l have law: "lawful ?P model evs m" and run: "has_run evs m {..<length evs} \<sigma>" by (auto simp: leaves_def)
  have p: "proposes ?P \<sigma> (thread ?e) (Receive rl)" using rl(1) b pid by (simp add: proposes_def program_contains [OF tpc_run_few [OF r]])
  have inst: "instance_of (Receive rl) (label ?e)" using rl(2) by (simp add: instance_of_Block)
  have "\<not> is_receive ?e" by (simp add: is_receive_def)
  from consistent_append [OF _ this] law have "consistent model no_missing_reads_tolerance (evs @ [?e]) m" by (simp add: lawful_def)
  with leaves_follows [OF l p inst] r have r': "tpc_run options (evs @ [?e]) m" by (simp add: tpc_run_def consistent_def)
  have last: "last_event (evs @ [?e]) (pid + 1) = Some ?e" "is_block ?e"
    by (simp_all add: last_event_def thread_ids_append is_block_def)
  have "m j \<noteq> Some (from_send i)" for j
    using blocked_participant [OF r' pid last] i by (simp add: nth_append)
  with i have "i \<in> under_way evs m {..<length evs}" by (auto simp: under_way_def is_send_def)
  then have "letter_of evs i \<in> set (mail \<sigma>)" unfolding has_run_mail [OF run] by (rule imageI)
  moreover have "letter_of evs i = (thread (evs ! i), pid + 1, encode_message Prepare)"
    using i(2) by (simp add: letter_of_def send_of_def as_send_def)
  ultimately have "matches rl (encode_message Prepare) \<noteq> Inr True" using none by simp
  moreover have "rl = make_receive_label match_any_value Blocking"
    using offered_participant [OF tpc_run_few [OF r] rl(1) pid] rl(2)
    by (auto simp: part_label_def make_nonblocking_receive_label_def make_receive_label_def is_blocking_def)
  ultimately show False by (simp add: make_receive_label_def match_any_value_def)
qed

lemma tpc_progress:
  assumes l: "leaves (make_program options) model \<sigma> evs m" and r: "tpc_run options evs m" and b: "broken \<sigma> = {}"
    and stop: "\<And>\<sigma>'. \<not> machine_step (make_program options) model \<sigma> \<sigma>'" and t: "1 \<le> t" "t \<le> opt_num_participants options + 1"
  shows "finished (make_program options) \<sigma> t"
proof -
  let ?P = "make_program options"
  note n = tpc_run_few [OF r]
  note all = stopped_threads [OF tpc_safe [OF n] l b stop]
  have one: "finished ?P \<sigma> 1" by (rule coordinator_moves [OF n]) (rule all, simp add: program_contains [OF n])
  show ?thesis
  proof (cases "t = 1")
    case False
    define pid where "pid = t - 1"
    with False t have pid: "t = pid + 1" "1 \<le> pid" "pid \<le> opt_num_participants options" by auto
    from l have run: "has_run evs m {..<length evs} \<sigma>" and f: "follows ?P evs m" by (auto simp: leaves_def lawful_def)
    have "coord_done (opt_num_participants options) (opt_inject_crash options) (seen \<sigma> 1) (pace \<sigma> 1)"
      using coordinator_reply [OF n, of "seen \<sigma> 1" "pace \<sigma> 1"] one by (simp add: finished_def)
    moreover have "pace \<sigma> 1 \<le> length (thread_ids evs 1)" using has_run_pace [OF f run, of 1] by simp
    ultimately have "opt_num_participants options < length (thread_ids evs 1)" by (auto simp: coord_done_def)
    from prepare_sent [OF r this pid(2,3)] prepared_not_waiting [OF l r pid(2,3) b] all [of t] t pid(1) show ?thesis
      by (auto simp: program_contains [OF n])
  qed (use one in simp)
qed

section \<open>A run that commits\<close>

lemma participant_awaits:
  "offered (make_program one_participant) 2 [Observed (encode_message Prepare), Observed (vote_choice Yes)] 3 = Some wait_label"
proof -
  have t: "2 = Suc 0 + 1" by simp
  show ?thesis
    by (subst (1) t, rule participant_offers;
      auto simp: few_def one_participant_def part_fails_def part_done_def part_label_def votes_at_def undecided_def
        sample_messages unreadable_def take_Cons' nth_Cons' split: if_splits)
qed

lemma commit_learned: "\<exists>\<sigma>. reachable (make_program one_participant) FifoP2P \<sigma> \<and> learned \<sigma> 2 Commit"
proof -
  let ?P = "make_program one_participant" and ?d = "encode_message (DecisionMsg Commit)"
  have no: "\<not> is_error e \<and> \<not> is_block e" if "e \<in> set commit_events" for e using that by (auto simp: commit_events_def is_error_def is_block_def)
  then have "errors_last commit_events" by (auto intro: butlast_errors_last dest: in_set_butlastD)
  with commit_follows commit_consistent have "lawful ?P FifoP2P commit_events commit_reads" by (simp add: lawful_def)
  from lawful_runs [OF this] obtain \<sigma> where
    s: "reachable ?P FifoP2P \<sigma>" "has_run commit_events commit_reads {..<length commit_events} \<sigma>" by blast
  have "seen \<sigma> 2 = [Observed (encode_message Prepare), Observed (vote_choice Yes)]"
    using has_run_seen [OF s(2), of 2] by (simp add: trace_of_def commit_thread_ids commit_observed del: One_nat_def)
  moreover have "pace \<sigma> 2 = 3"
    using has_run_pace [OF commit_follows s(2), of 2] by (simp add: commit_thread_ids last_event_def commit_labels(4) is_block_def)
  moreover have "broken \<sigma> = {}" using s(2) no by (auto simp: has_run_def)
  ultimately have p: "proposes ?P \<sigma> 2 wait_label"
    by (simp add: proposes_def participant_awaits program_contains [OF one_few] one_participant_def [THEN arg_cong [of _ _ opt_num_participants]])
  have len: "length commit_events = 6" by (simp add: commit_events_def)
  have "i = 5" if i: "i \<in> under_way commit_events commit_reads {..<length commit_events}" for i
  proof -
    from i have "i < 6" "is_send (commit_events ! i)" and r: "\<forall>r<6. commit_reads r \<noteq> Some (from_send i)" by (auto simp: under_way_def len)
    moreover have "i \<noteq> 0" "i \<noteq> 3" using r [rule_format, of 1] r [rule_format, of 4] by auto
    ultimately consider "i = 1" | "i = 2" | "i = 4" | "i = 5" by linarith
    then show "i = 5" using \<open>is_send (commit_events ! i)\<close> by cases (simp_all add: is_send_def commit_labels del: One_nat_def)
  qed
  moreover have "5 \<in> under_way commit_events commit_reads {..<length commit_events}"
    by (simp add: under_way_def len is_send_def commit_labels(6))
  ultimately have "under_way commit_events commit_reads {..<length commit_events} = {5}" by blast
  moreover have "letter_of commit_events 5 = (1, 2, ?d)" by (simp add: letter_of_def send_of_def as_send_def commit_labels(6)) (simp add: commit_events_def)
  ultimately have mail: "set (mail \<sigma>) = {(1, 2, ?d)}" by (simp add: has_run_mail [OF s(2)])
  then obtain after where m: "mail \<sigma> = [] @ (1, 2, ?d) # after" by (cases "mail \<sigma>") auto
  have "machine_step ?P FifoP2P \<sigma> (advance 2 [Observed ?d] ([] @ after) \<sigma>)"
    by (rule takes [OF p m]) (simp_all add: make_nonblocking_receive_label_def make_receive_label_def match_any_value_def)
  from reachable_step [OF s(1) this] show ?thesis
    by (intro exI [of _ "advance 2 [Observed ?d] ([] @ after) \<sigma>"]) (auto simp: learned_def advance_def decode_decision_encode)
qed

section \<open>Properties\<close>

text \<open>C7. Two-phase commit under every schedule, for any number of participants whose thread ids fit into 32 bits, with and without the injected crash and in
  both communication models. In every reachable state all decisions that threads have received agree; if any thread has received a
  commit, every participant has chosen to vote yes. Without the injected bug no thread fails, and the protocol
  is free of deadlock: as long as some thread has not returned, some thread can move.\<close>

theorem two_phase_commit_runs:
  assumes "opt_num_participants options + 1 < 2 ^ 32" "reachable (make_program options) model \<sigma>"
  shows "(\<forall>t t' d d'. learned \<sigma> t d \<longrightarrow> learned \<sigma> t' d' \<longrightarrow> d = d')
    \<and> (\<forall>t pid. learned \<sigma> t Commit \<longrightarrow> 1 \<le> pid \<longrightarrow> pid \<le> opt_num_participants options \<longrightarrow>
         Observed (vote_choice Yes) \<in> set (seen \<sigma> (participant_to_thread pid)))
    \<and> (opt_bug_on_p1_no options \<or> broken \<sigma> = {}
         \<and> ((\<exists>\<sigma>'. machine_step (make_program options) model \<sigma> \<sigma>')
            \<or> (\<forall>t. 1 \<le> t \<longrightarrow> t \<le> opt_num_participants options + 1 \<longrightarrow> finished (make_program options) \<sigma> t)))"
proof -
  from tpc_leaves [unfolded few_def, OF assms] obtain evs m where
    l: "leaves (make_program options) model \<sigma> evs m" and r: "tpc_run options evs m" and run: "has_run evs m {..<length evs} \<sigma>" .
  have "Observed (vote_choice Yes) \<in> set (seen \<sigma> (participant_to_thread pid))"
    if "learned \<sigma> t Commit" "1 \<le> pid" "pid \<le> opt_num_participants options" for t pid
    using learned_sent [OF r run that(1)] tpc_validity [OF r] that(2,3) chosen_seen has_run_seen [OF run] by (simp add: validity_def)
  moreover have "d = d'" if "learned \<sigma> t d" "learned \<sigma> t' d'" for t t' d d'
    using learned_sent [OF r run that(1)] learned_sent [OF r run that(2)] tpc_agreement [OF r] by (simp add: agreement_def)
  moreover have "opt_bug_on_p1_no options \<or> broken \<sigma> = {}" using tpc_error_needs_bug [OF r] run by (auto simp: has_run_def)
  moreover have "(\<exists>\<sigma>'. machine_step (make_program options) model \<sigma> \<sigma>')
      \<or> (\<forall>t. 1 \<le> t \<longrightarrow> t \<le> opt_num_participants options + 1 \<longrightarrow> finished (make_program options) \<sigma> t)" if "broken \<sigma> = {}"
    using tpc_progress [OF l r that] by metis
  ultimately show ?thesis by metis
qed

theorem two_phase_commit_runs_witness:
  "\<exists>\<sigma>. reachable (make_program one_participant) FifoP2P \<sigma> \<and> learned \<sigma> 2 Commit \<and> \<not> learned \<sigma> 2 Abort
     \<and> Observed (vote_choice Yes) \<in> set (seen \<sigma> 2) \<and> broken \<sigma> = {}"
proof -
  obtain \<sigma> where s: "reachable (make_program one_participant) FifoP2P \<sigma>" "learned \<sigma> 2 Commit" using commit_learned by blast
  have n: "opt_num_participants one_participant = 1" "\<not> opt_bug_on_p1_no one_participant" by (simp_all add: one_participant_def)
  have "opt_num_participants one_participant + 1 < 2 ^ 32" using n by simp
  note ok = two_phase_commit_runs [OF this s(1)]
  then have "Observed (vote_choice Yes) \<in> set (seen \<sigma> (participant_to_thread 1))" using s(2) n by auto
  moreover have "\<not> learned \<sigma> 2 Abort" using ok s(2) by blast
  moreover have "broken \<sigma> = {}" using ok n by blast
  ultimately show ?thesis using s by auto
qed

end
