(* ===== verification/Udp_Network.thy ===== *)
theory Udp_Network
  imports Tpc_Protocol "HOL-Library.Signed_Division"
begin

text \<open>
  The transport of \<^verbatim>\<open>examples/two_phase_commit_timeout/udp_network.hpp\<close>: an environment that sends and receives
  datagrams, keeps timers and drives a protocol object. The operating system is a parameter, a record of
  the calls the code makes, each on an arbitrary world; the clock counts nanoseconds. The iterator that an active timer keeps
  into the schedule is the number of its node. Deadlines are unbounded integers: the source adds a timeout
  in milliseconds to a 64-bit count of nanoseconds, which is exact for timeouts below 292 years. The loops
  run on fuel, one unit per turn, because the network and the clock decide how long they last.
\<close>

section \<open>The operating system\<close>

datatype errno = EINTR | OtherErrno

datatype poll_event = POLLIN | POLLERR | POLLHUP | POLLNVAL

type_synonym sockaddr = "nat \<times> nat"

record 'w OS =
  os_socket :: "'w \<Rightarrow> int \<times> 'w"
  os_close :: "int \<Rightarrow> 'w \<Rightarrow> 'w"
  os_inet_pton :: "string \<Rightarrow> nat option"
  os_bind :: "int \<Rightarrow> sockaddr \<Rightarrow> 'w \<Rightarrow> int \<times> 'w"
  os_sendto :: "int \<Rightarrow> string \<Rightarrow> sockaddr \<Rightarrow> 'w \<Rightarrow> int \<times> 'w"
  os_poll :: "int \<Rightarrow> int \<Rightarrow> 'w \<Rightarrow> (int \<times> errno \<times> poll_event list) \<times> 'w"
  os_recvfrom :: "int \<Rightarrow> nat \<Rightarrow> 'w \<Rightarrow> (int \<times> errno \<times> string) \<times> 'w"
  os_now :: "'w \<Rightarrow> int \<times> 'w"
  os_coin :: "'w \<Rightarrow> bool \<times> 'w"
  os_this_thread :: nat

section \<open>The environment\<close>

type_synonym TimerSchedule = "(nat \<times> int \<times> TimerId) list"

record 'w UdpEnvironment =
  udp_my_id :: ParticipantId
  socket_fd :: int
  port_map :: "ParticipantId \<rightharpoonup> string \<times> nat"
  udp_vote :: "Vote option"
  timer_schedule :: TimerSchedule
  active_timers :: "TimerId \<rightharpoonup> nat \<times> TimerCallback"
  next_node :: nat
  ran_once :: bool
  run_active :: bool
  run_thread_id :: nat
  world :: 'w

text \<open>The constructor gives the socket back on every path that throws after it was opened.\<close>

definition make_udp :: "'w OS \<Rightarrow> ParticipantId \<Rightarrow> (ParticipantId \<rightharpoonup> string \<times> nat) \<Rightarrow> Vote option \<Rightarrow> 'w
    \<Rightarrow> (SimException + 'w UdpEnvironment) \<times> 'w" where
  "make_udp os my_id ports vote w =
     (case os_socket os w of (fd, w1) \<Rightarrow>
        if fd < 0 then (Inl (StdException ''socket() failed''), w1)
        else case ports my_id of
          None \<Rightarrow> (Inl (StdException ''my_id not found in port_map''), os_close os fd w1)
        | Some (host, port) \<Rightarrow>
            (case os_inet_pton os host of
               None \<Rightarrow> (Inl (StdException (''invalid address: '' @ host)), os_close os fd w1)
             | Some addr \<Rightarrow>
                 (case os_bind os fd (addr, port) w1 of (ret, w2) \<Rightarrow>
                    if ret < 0 then (Inl (StdException ''bind() failed''), os_close os fd w2)
                    else (Inr \<lparr>udp_my_id = my_id, socket_fd = fd, port_map = ports, udp_vote = vote, timer_schedule = [],
                            active_timers = Map.empty, next_node = 0, ran_once = False, run_active = False, run_thread_id = 0,
                            world = w2\<rparr>, w2))))"

definition destroy_udp :: "'w OS \<Rightarrow> 'w UdpEnvironment \<Rightarrow> 'w" where
  "destroy_udp os e = os_close os (socket_fd e) (world e)"

definition udp_send :: "'w OS \<Rightarrow> ParticipantId \<Rightarrow> Message \<Rightarrow> ('w UdpEnvironment, unit) sim" where
  "udp_send os dest msg e =
     (case port_map e dest of
        None \<Rightarrow> throw_sim (StdException ''unknown destination'') e
      | Some (host, port) \<Rightarrow>
          (case os_inet_pton os host of
             None \<Rightarrow> throw_sim (StdException (''invalid destination address: '' @ host)) e
           | Some addr \<Rightarrow>
               (case os_sendto os (socket_fd e) (serialize msg) (addr, port) (world e) of (ret, w) \<Rightarrow>
                  if ret < 0 then throw_sim (StdException ''sendto() failed'') (e\<lparr>world := w\<rparr>)
                  else return_sim () (e\<lparr>world := w\<rparr>))))"

definition udp_get_vote :: "'w OS \<Rightarrow> ('w UdpEnvironment, Vote) sim" where
  "udp_get_vote os e =
     (case udp_vote e of
        Some vote \<Rightarrow> return_sim vote e
      | None \<Rightarrow> (case os_coin os (world e) of (heads, w) \<Rightarrow> return_sim (if heads then Yes else No) (e\<lparr>world := w\<rparr>)))"

section \<open>Timers\<close>

definition require_run_thread :: "'w OS \<Rightarrow> string \<Rightarrow> ('w UdpEnvironment, unit) sim" where
  "require_run_thread os op e =
     (if \<not> run_active e \<or> os_this_thread os \<noteq> run_thread_id e
      then throw_sim (StdException (''UdpEnvironment::'' @ op @ '' must be called from run() thread'')) e
      else return_sim () e)"

definition read_clock :: "'w OS \<Rightarrow> ('w UdpEnvironment, int) sim" where
  "read_clock os e = (case os_now os (world e) of (now, w) \<Rightarrow> return_sim now (e\<lparr>world := w\<rparr>))"

text \<open>A multimap keeps its nodes by key and equal keys in the order of insertion.\<close>

primrec emplace :: "nat \<Rightarrow> int \<Rightarrow> TimerId \<Rightarrow> TimerSchedule \<Rightarrow> TimerSchedule" where
  "emplace n d i [] = [(n, d, i)]"
| "emplace n d i (x # xs) = (if fst (snd x) > d then (n, d, i) # x # xs else x # emplace n d i xs)"

definition erase_node :: "nat \<Rightarrow> TimerSchedule \<Rightarrow> TimerSchedule" where
  "erase_node n = filter (\<lambda>x. fst x \<noteq> n)"

definition erase_timer :: "TimerId \<Rightarrow> 'w UdpEnvironment \<Rightarrow> 'w UdpEnvironment" where
  "erase_timer i e =
     (case active_timers e i of
        None \<Rightarrow> e
      | Some (n, _) \<Rightarrow> e\<lparr>timer_schedule := erase_node n (timer_schedule e), active_timers := (active_timers e)(i := None)\<rparr>)"

definition add_timer :: "TimerId \<Rightarrow> int \<Rightarrow> TimerCallback \<Rightarrow> 'w UdpEnvironment \<Rightarrow> 'w UdpEnvironment" where
  "add_timer i d callback e =
     e\<lparr>timer_schedule := emplace (next_node e) d i (timer_schedule e),
       active_timers := (active_timers e)(i \<mapsto> (next_node e, callback)), next_node := next_node e + 1\<rparr>"

definition udp_set_timer :: "'w OS \<Rightarrow> TimerId \<Rightarrow> nat \<Rightarrow> TimerCallback \<Rightarrow> ('w UdpEnvironment, unit) sim" where
  "udp_set_timer os i timeout_ms callback =
     then_sim (require_run_thread os ''set_timer'')
    (bind_sim (read_clock os) (\<lambda>now e.
       return_sim () (add_timer i (now + int timeout_ms * 1000000) callback (erase_timer i e))))"

definition udp_cancel_timer :: "'w OS \<Rightarrow> TimerId \<Rightarrow> ('w UdpEnvironment, unit) sim" where
  "udp_cancel_timer os i = then_sim (require_run_thread os ''cancel_timer'') (\<lambda>e. return_sim () (erase_timer i e))"

definition udp_env :: "'w OS \<Rightarrow> 'w UdpEnvironment Environment" where
  "udp_env os = \<lparr>env_send = udp_send os, env_get_vote = udp_get_vote os, env_set_timer = udp_set_timer os,
     env_cancel_timer = udp_cancel_timer os\<rparr>"

definition reset_timer_state :: "'w UdpEnvironment \<Rightarrow> 'w UdpEnvironment" where
  "reset_timer_state e = e\<lparr>active_timers := Map.empty, timer_schedule := []\<rparr>"

definition int_max :: int where
  "int_max = 2147483647"

text \<open>Conversion between durations truncates towards zero.\<close>

definition to_milliseconds :: "int \<Rightarrow> int" where
  "to_milliseconds ns = ns sdiv 1000000"

definition compute_next_timeout_ms :: "'w OS \<Rightarrow> ('w UdpEnvironment, int) sim" where
  "compute_next_timeout_ms os e =
     (case timer_schedule e of
        [] \<Rightarrow> return_sim (-1) e
      | (_, deadline, _) # _ \<Rightarrow>
          bind_sim (read_clock os) (\<lambda>now. return_sim
            (let count = max (to_milliseconds (deadline - now)) 0 in if count > int_max then int_max else count)) e)"

primrec dispatch_due_timers :: "nat \<Rightarrow> 'w OS \<Rightarrow> ('p, 'w UdpEnvironment) Protocol \<Rightarrow> 'p \<times> 'w UdpEnvironment
    \<Rightarrow> ((SimException + bool) \<times> ('p \<times> 'w UdpEnvironment)) option" where
  "dispatch_due_timers 0 os proto s = None"
| "dispatch_due_timers (Suc fuel) os proto s =
     (case timer_schedule (snd s) of
        [] \<Rightarrow> Some (Inr True, s)
      | (n, deadline, i) # later \<Rightarrow>
          (case os_now os (world (snd s)) of (now, w) \<Rightarrow>
             let e = (snd s)\<lparr>world := w\<rparr> in
             if deadline > now then Some (Inr True, (fst s, e))
             else case active_timers e i of
               None \<Rightarrow> dispatch_due_timers fuel os proto (fst s, e\<lparr>timer_schedule := later\<rparr>)
             | Some (n', callback) \<Rightarrow>
                 if n' \<noteq> n then dispatch_due_timers fuel os proto (fst s, e\<lparr>timer_schedule := later\<rparr>)
                 else (case proto_callback proto callback
                         (fst s, e\<lparr>timer_schedule := later, active_timers := (active_timers e)(i := None)\<rparr>) of
                         (Inl ex, s') \<Rightarrow> Some (Inl ex, s')
                       | (Inr keep_waiting, s') \<Rightarrow>
                           if keep_waiting then dispatch_due_timers fuel os proto s' else Some (Inr False, s'))))"

section \<open>Messages\<close>

text \<open>
  \<open>refresh_remaining_timeout\<close> returns whether there is time left, and the remaining time.
\<close>

definition refresh_remaining_timeout :: "'w OS \<Rightarrow> int \<Rightarrow> int \<Rightarrow> int \<Rightarrow> ('w UdpEnvironment, bool \<times> int) sim" where
  "refresh_remaining_timeout os timeout_ms start remaining_ms =
     (if timeout_ms < 0 then return_sim (True, remaining_ms)
      else bind_sim (read_clock os) (\<lambda>now.
        let elapsed_ms = to_milliseconds (now - start) in
        if elapsed_ms \<ge> timeout_ms then return_sim (False, 0)
        else return_sim (True, if timeout_ms - elapsed_ms > int_max then int_max else timeout_ms - elapsed_ms)))"

text \<open>The first \<open>n\<close> bytes of the zeroed buffer that the datagram was written to.\<close>

definition kBufferSize :: nat where
  "kBufferSize = 1024"

definition buffer_text :: "int \<Rightarrow> string \<Rightarrow> string" where
  "buffer_text n bytes = take (nat n) (take kBufferSize bytes @ replicate (kBufferSize - length bytes) (CHR 0x00))"

text \<open>One turn of the loop in \<open>wait_for_message\<close>: a message, a timeout, or another turn if there is time left.\<close>

datatype PollOutcome = Arrived Message | TimedOut | PollAgain

definition recv_once :: "'w OS \<Rightarrow> ('w UdpEnvironment, PollOutcome) sim" where
  "recv_once os e =
     (case os_recvfrom os (socket_fd e) kBufferSize (world e) of ((n, err, bytes), w) \<Rightarrow>
        let e' = e\<lparr>world := w\<rparr> in
        if n < 0
        then (if err = EINTR then return_sim PollAgain e' else throw_sim (StdException ''recvfrom() failed'') e')
        else if n = 0 then return_sim PollAgain e'
        else case deserialize (buffer_text n bytes) of
          Inr msg \<Rightarrow> return_sim (Arrived msg) e'
        | Inl _ \<Rightarrow> return_sim PollAgain e')"

definition poll_once :: "'w OS \<Rightarrow> int \<Rightarrow> ('w UdpEnvironment, PollOutcome) sim" where
  "poll_once os remaining_ms e =
     (case os_poll os (socket_fd e) remaining_ms (world e) of ((ret, err, revents), w) \<Rightarrow>
        let e' = e\<lparr>world := w\<rparr> in
        if ret < 0
        then (if err = EINTR then return_sim PollAgain e' else throw_sim (StdException ''poll() failed'') e')
        else if ret = 0 then return_sim TimedOut e'
        else if POLLERR \<in> set revents \<or> POLLHUP \<in> set revents \<or> POLLNVAL \<in> set revents
        then throw_sim (StdException ''socket poll error'') e'
        else if POLLIN \<notin> set revents then return_sim PollAgain e'
        else recv_once os e')"

primrec wait_loop :: "nat \<Rightarrow> 'w OS \<Rightarrow> int \<Rightarrow> int \<Rightarrow> int \<Rightarrow> 'w UdpEnvironment
    \<Rightarrow> ((SimException + Message option) \<times> 'w UdpEnvironment) option" where
  "wait_loop 0 os timeout_ms start remaining_ms e = None"
| "wait_loop (Suc fuel) os timeout_ms start remaining_ms e =
     (case poll_once os remaining_ms e of
        (Inl ex, e') \<Rightarrow> Some (Inl ex, e')
      | (Inr (Arrived msg), e') \<Rightarrow> Some (Inr (Some msg), e')
      | (Inr TimedOut, e') \<Rightarrow> Some (Inr None, e')
      | (Inr PollAgain, e') \<Rightarrow>
          (case refresh_remaining_timeout os timeout_ms start remaining_ms e' of
             (Inl ex, e'') \<Rightarrow> Some (Inl ex, e'')
           | (Inr (time_left, remaining), e'') \<Rightarrow>
               if time_left then wait_loop fuel os timeout_ms start remaining e'' else Some (Inr None, e'')))"

definition wait_for_message :: "nat \<Rightarrow> 'w OS \<Rightarrow> int \<Rightarrow> 'w UdpEnvironment
    \<Rightarrow> ((SimException + Message option) \<times> 'w UdpEnvironment) option" where
  "wait_for_message fuel os timeout_ms e =
     (case os_now os (world e) of (start, w) \<Rightarrow> wait_loop fuel os timeout_ms start timeout_ms (e\<lparr>world := w\<rparr>))"

section \<open>Running a protocol object\<close>

definition receive_udp :: "nat \<Rightarrow> 'w OS \<Rightarrow> ('p, 'w UdpEnvironment) Protocol \<Rightarrow> 'p \<times> 'w UdpEnvironment
    \<Rightarrow> ((SimException + bool) \<times> ('p \<times> 'w UdpEnvironment)) option" where
  "receive_udp fuel os proto s =
     (case compute_next_timeout_ms os (snd s) of
        (Inl ex, e) \<Rightarrow> Some (Inl ex, (fst s, e))
      | (Inr timeout_ms, e) \<Rightarrow>
          (case wait_for_message fuel os timeout_ms e of
             None \<Rightarrow> None
           | Some (Inl ex, e') \<Rightarrow> Some (Inl ex, (fst s, e'))
           | Some (Inr None, e') \<Rightarrow> Some (Inr True, (fst s, e'))
           | Some (Inr (Some msg), e') \<Rightarrow> Some (proto_receive proto msg (fst s, e'))))"

primrec udp_loop :: "nat \<Rightarrow> 'w OS \<Rightarrow> ('p, 'w UdpEnvironment) Protocol \<Rightarrow> bool \<Rightarrow> 'p \<times> 'w UdpEnvironment
    \<Rightarrow> ((SimException + unit) \<times> ('p \<times> 'w UdpEnvironment)) option" where
  "udp_loop 0 os proto needs_message s = None"
| "udp_loop (Suc fuel) os proto needs_message s =
     (if \<not> needs_message then Some (Inr (), s)
      else case dispatch_due_timers fuel os proto s of
        None \<Rightarrow> None
      | Some (Inl ex, s') \<Rightarrow> Some (Inl ex, s')
      | Some (Inr False, s') \<Rightarrow> Some (Inr (), s')
      | Some (Inr True, s') \<Rightarrow>
          (case receive_udp fuel os proto s' of
             None \<Rightarrow> None
           | Some (Inl ex, s'') \<Rightarrow> Some (Inl ex, s'')
           | Some (Inr b, s'') \<Rightarrow> udp_loop fuel os proto b s''))"

text \<open>On every way out, by return or by exception, the timers are dropped and the run is over.\<close>

definition udp_run :: "nat \<Rightarrow> 'w OS \<Rightarrow> ('p, 'w UdpEnvironment) Protocol \<Rightarrow> 'p \<times> 'w UdpEnvironment
    \<Rightarrow> ((SimException + unit) \<times> ('p \<times> 'w UdpEnvironment)) option" where
  "udp_run fuel os proto s =
     (if ran_once (snd s) then Some (Inl (StdException ''UdpEnvironment::run() called more than once''), s)
      else
        map_option (\<lambda>(r, s'). (r, (fst s', (reset_timer_state (snd s'))\<lparr>run_active := False\<rparr>)))
          (case proto_start proto (fst s, (snd s)\<lparr>ran_once := True, run_active := True, run_thread_id := os_this_thread os\<rparr>) of
             (Inl ex, s') \<Rightarrow> Some (Inl ex, s')
           | (Inr needs_message, s') \<Rightarrow> udp_loop fuel os proto needs_message s'))"

end
