(* ===== verification/Udp_Timers.thy ===== *)
theory Udp_Timers
  imports Udp_Network Tpc_Environments
begin

text \<open>
  The timers of the UDP environment. Two containers hold them, a schedule ordered by deadline and a map
  from ids to nodes of the schedule; together they represent one map from ids to deadlines and callbacks.
  Every operation keeps the two in step, so the entry that \<open>dispatch_due_timers\<close> skips as stale never occurs, and the
  environment satisfies the contract of timers.
\<close>

section \<open>The representation invariant\<close>

definition timers_ok :: "'w UdpEnvironment \<Rightarrow> bool" where
  "timers_ok e \<longleftrightarrow>
     sorted (map (fst \<circ> snd) (timer_schedule e)) \<and> distinct (map fst (timer_schedule e))
     \<and> (\<forall>(n, d, i)\<in>set (timer_schedule e). n < next_node e \<and> (\<exists>callback. active_timers e i = Some (n, callback)))
     \<and> (\<forall>i n callback. active_timers e i = Some (n, callback) \<longrightarrow> (\<exists>d. (n, d, i) \<in> set (timer_schedule e)))"

lemma timers_okI:
  assumes "sorted (map (fst \<circ> snd) (timer_schedule e))" "distinct (map fst (timer_schedule e))"
    "\<And>n d i. (n, d, i) \<in> set (timer_schedule e) \<Longrightarrow> n < next_node e \<and> (\<exists>callback. active_timers e i = Some (n, callback))"
    "\<And>i n callback. active_timers e i = Some (n, callback) \<Longrightarrow> \<exists>d. (n, d, i) \<in> set (timer_schedule e)"
  shows "timers_ok e"
  using assms unfolding timers_ok_def by blast

lemma timers_okD:
  assumes "timers_ok e"
  shows "sorted (map (fst \<circ> snd) (timer_schedule e))" "distinct (map fst (timer_schedule e))"
    "(n, d, i) \<in> set (timer_schedule e) \<Longrightarrow> n < next_node e"
    "(n, d, i) \<in> set (timer_schedule e) \<Longrightarrow> \<exists>callback. active_timers e i = Some (n, callback)"
    "active_timers e i = Some (n, callback) \<Longrightarrow> \<exists>d. (n, d, i) \<in> set (timer_schedule e)"
  using assms unfolding timers_ok_def by blast+

lemma timers_ok_same:
  assumes "timers_ok e" "(n, d, i) \<in> set (timer_schedule e)" "(n, d', j) \<in> set (timer_schedule e)"
  shows "d' = d \<and> j = i"
  using eq_key_imp_eq_value [OF timers_okD(2) [OF assms(1)] assms(2,3)] by simp

text \<open>The timers that are pending, by id.\<close>

definition pending :: "'w UdpEnvironment \<Rightarrow> TimerId \<rightharpoonup> int \<times> TimerCallback" where
  "pending e i =
     (case active_timers e i of
        None \<Rightarrow> None
      | Some (n, callback) \<Rightarrow> map_option (\<lambda>(d, _). (d, callback)) (map_of (timer_schedule e) n))"

lemma pending_iff:
  assumes "timers_ok e"
  shows "pending e i = Some (d, callback) \<longleftrightarrow> (\<exists>n. active_timers e i = Some (n, callback) \<and> (n, d, i) \<in> set (timer_schedule e))"
proof
  assume p: "pending e i = Some (d, callback)"
  then obtain n j where n: "active_timers e i = Some (n, callback)" "map_of (timer_schedule e) n = Some (d, j)"
    by (auto simp: pending_def split: option.splits)
  have d: "distinct (map fst (timer_schedule e))" using assms by (simp add: timers_ok_def)
  obtain d' where "(n, d', i) \<in> set (timer_schedule e)" using timers_okD(5) [OF assms n(1)] by blast
  then have "(d, j) = (d', i)" using map_of_is_SomeI [OF d, of n "(d', i)"] n(2) by simp
  with n \<open>(n, d', i) \<in> _\<close> show "\<exists>n. active_timers e i = Some (n, callback) \<and> (n, d, i) \<in> set (timer_schedule e)" by auto
next
  assume "\<exists>n. active_timers e i = Some (n, callback) \<and> (n, d, i) \<in> set (timer_schedule e)"
  moreover have "distinct (map fst (timer_schedule e))" using assms by (simp add: timers_ok_def)
  ultimately show "pending e i = Some (d, callback)" by (auto simp: pending_def dest: map_of_is_SomeI)
qed

lemma pending_none:
  assumes "timers_ok e"
  shows "pending e i = None \<longleftrightarrow> active_timers e i = None"
proof (cases "active_timers e i")
  case (Some a)
  then obtain n callback where a: "active_timers e i = Some (n, callback)" by (cases a) auto
  with timers_okD(5) [OF assms a] show ?thesis using pending_iff [OF assms, of i _ callback] by force
qed (simp add: pending_def)

lemma timers_ok_world [simp]: "timers_ok (e\<lparr>world := w\<rparr>) = timers_ok e" "pending (e\<lparr>world := w\<rparr>) = pending e"
  by (auto simp: timers_ok_def pending_def fun_eq_iff split: option.splits)

lemma timers_ok_flags [simp]:
  "timers_ok (e\<lparr>ran_once := a, run_active := b, run_thread_id := t\<rparr>) = timers_ok e"
  "pending (e\<lparr>ran_once := a, run_active := b, run_thread_id := t\<rparr>) = pending e"
  by (auto simp: timers_ok_def pending_def fun_eq_iff split: option.splits)

section \<open>Setting and cancelling\<close>

lemma set_emplace [simp]: "set (emplace n d i xs) = insert (n, d, i) (set xs)"
  by (induction xs) auto

lemma distinct_emplace: "distinct (map fst (emplace n d i xs)) \<longleftrightarrow> n \<notin> fst ` set xs \<and> distinct (map fst xs)"
  by (induction xs) auto

lemma sorted_emplace: "sorted (map (fst \<circ> snd) xs) \<Longrightarrow> sorted (map (fst \<circ> snd) (emplace n d i xs))"
  by (induction xs) fastforce+

text \<open>Among equal deadlines the new node is the last one.\<close>

lemma emplace_order:
  "sorted (map (fst \<circ> snd) xs) \<Longrightarrow>
   emplace n d i xs = filter (\<lambda>x. fst (snd x) \<le> d) xs @ (n, d, i) # filter (\<lambda>x. d < fst (snd x)) xs"
proof (induction xs)
  case (Cons x xs)
  show ?case
  proof (cases "fst (snd x) > d")
    case True
    then have "\<forall>y\<in>set xs. d < fst (snd y)" using Cons.prems by fastforce
    then have "filter (\<lambda>x. fst (snd x) \<le> d) xs = []" "filter (\<lambda>x. d < fst (snd x)) xs = xs"
      by (auto simp: filter_empty_conv filter_id_conv)
    with True show ?thesis by simp
  qed (use Cons in auto)
qed simp

lemma erase_timer_ok:
  assumes "timers_ok e"
  shows "timers_ok (erase_timer i e)" "pending (erase_timer i e) = (pending e)(i := None)"
    "active_timers (erase_timer i e) i = None" "next_node (erase_timer i e) = next_node e" "world (erase_timer i e) = world e"
proof -
  have parts: "timers_ok (erase_timer i e) \<and> pending (erase_timer i e) = (pending e)(i := None)"
  proof (cases "active_timers e i")
    case None
    then have "erase_timer i e = e" "pending e i = None" by (simp_all add: erase_timer_def pending_def)
    with assms show ?thesis by (simp add: fun_upd_idem)
  next
    case (Some a)
    then obtain n callback where a: "active_timers e i = Some (n, callback)" by (cases a) auto
    let ?e = "erase_timer i e"
    have sched: "set (timer_schedule ?e) = {x \<in> set (timer_schedule e). fst x \<noteq> n}" and act: "active_timers ?e = (active_timers e)(i := None)"
      and filt: "timer_schedule ?e = filter (\<lambda>x. fst x \<noteq> n) (timer_schedule e)" and nn: "next_node ?e = next_node e"
      using a by (auto simp: erase_timer_def erase_node_def)
    have other: "m \<noteq> n" if "active_timers e j = Some (m, cb)" "j \<noteq> i" for j m cb
      using timers_okD(5) [OF assms a] timers_okD(5) [OF assms that(1)] timers_ok_same [OF assms] that(2) by blast
    have ok: "timers_ok ?e"
    proof (rule timers_okI)
      show "sorted (map (fst \<circ> snd) (timer_schedule ?e))" "distinct (map fst (timer_schedule ?e))"
        using timers_okD(1,2) [OF assms] by (simp_all add: filt sorted_map sorted_wrt_filter distinct_map_filter)
      fix m d j assume m: "(m, d, j) \<in> set (timer_schedule ?e)"
      then have "j \<noteq> i" using timers_okD(4) [OF assms, of m d j] a sched by auto
      then show "m < next_node ?e \<and> (\<exists>cb. active_timers ?e j = Some (m, cb))"
        using m timers_okD(3,4) [OF assms, of m d j] by (auto simp: sched act nn)
    next
      fix j m cb assume "active_timers ?e j = Some (m, cb)"
      then have j: "active_timers e j = Some (m, cb)" "j \<noteq> i" by (auto simp: act split: if_splits)
      then show "\<exists>d. (m, d, j) \<in> set (timer_schedule ?e)" using timers_okD(5) [OF assms j(1)] other [OF j] by (auto simp: sched)
    qed
    have "pending ?e j = (if j = i then None else pending e j)" for j
    proof (cases "pending e j")
      case None
      then show ?thesis using pending_none [OF assms, of j] pending_none [OF ok, of j] by (auto simp: act)
    next
      case (Some b)
      then obtain d cb where b: "pending e j = Some (d, cb)" by (cases b) auto
      then obtain m where m: "active_timers e j = Some (m, cb)" "(m, d, j) \<in> set (timer_schedule e)" using pending_iff [OF assms] by blast
      show ?thesis
      proof (cases "j = i")
        case True
        then show ?thesis using pending_none [OF ok, of j] by (simp add: act)
      next
        case False
        then have "pending ?e j = Some (d, cb)" using m other [OF m(1) False] pending_iff [OF ok, of j d cb] by (auto simp: act sched)
        then show ?thesis using b False by simp
      qed
    qed
    then show ?thesis using ok by (auto simp: fun_eq_iff)
  qed
  then show "timers_ok (erase_timer i e)" "pending (erase_timer i e) = (pending e)(i := None)" by auto
  show "active_timers (erase_timer i e) i = None" "next_node (erase_timer i e) = next_node e" "world (erase_timer i e) = world e"
    by (auto simp: erase_timer_def split: option.splits)
qed


lemma add_timer_ok:
  assumes "timers_ok e" "active_timers e i = None"
  shows "timers_ok (add_timer i d callback e)" "pending (add_timer i d callback e) = (pending e)(i \<mapsto> (d, callback))"
proof -
  let ?e = "add_timer i d callback e"
  have fresh: "m \<noteq> next_node e" if "(m, x) \<in> set (timer_schedule e)" for m x
    using timers_okD(3) [OF assms(1)] that by (cases x) fastforce
  have sched: "set (timer_schedule ?e) = insert (next_node e, d, i) (set (timer_schedule e))"
    and act: "active_timers ?e = (active_timers e)(i \<mapsto> (next_node e, callback))" and nn: "next_node ?e = next_node e + 1"
    and ts: "timer_schedule ?e = emplace (next_node e) d i (timer_schedule e)"
    by (simp_all add: add_timer_def)
  show ok: "timers_ok ?e"
  proof (rule timers_okI)
    show "sorted (map (fst \<circ> snd) (timer_schedule ?e))" unfolding ts by (rule sorted_emplace [OF timers_okD(1) [OF assms(1)]])
    have "next_node e \<notin> fst ` set (timer_schedule e)" using fresh by force
    then show "distinct (map fst (timer_schedule ?e))" using timers_okD(2) [OF assms(1)] by (simp add: ts distinct_emplace)
    fix m x j assume m: "(m, x, j) \<in> set (timer_schedule ?e)"
    then show "m < next_node ?e \<and> (\<exists>cb. active_timers ?e j = Some (m, cb))"
      using timers_okD(3,4) [OF assms(1), of m x j] assms(2) by (auto simp: sched act nn)
  next
    fix j m cb assume "active_timers ?e j = Some (m, cb)"
    then show "\<exists>x. (m, x, j) \<in> set (timer_schedule ?e)" using timers_okD(5) [OF assms(1), of j m cb] by (auto simp: sched act split: if_splits)
  qed
  have "pending ?e j = ((pending e)(i \<mapsto> (d, callback))) j" for j
  proof (cases "j = i")
    case True
    then show ?thesis using pending_iff [OF ok, of i d callback] by (simp add: act sched)
  next
    case False
    have "pending ?e j = Some b \<longleftrightarrow> pending e j = Some b" for b
      using False pending_iff [OF ok, of j "fst b" "snd b"] pending_iff [OF assms(1), of j "fst b" "snd b"] by (auto simp: act sched)
    then show ?thesis using False by (cases "pending e j"; cases "pending ?e j") auto
  qed
  then show "pending ?e = (pending e)(i \<mapsto> (d, callback))" by (rule ext)
qed

section \<open>The next timer\<close>

text \<open>The first entry of the schedule is a pending timer with the least deadline; firing removes it from both containers.\<close>

definition fire_first :: "'w UdpEnvironment \<Rightarrow> 'w UdpEnvironment" where
  "fire_first e =
     (case timer_schedule e of
        [] \<Rightarrow> e
      | (_, _, i) # later \<Rightarrow> e\<lparr>timer_schedule := later, active_timers := (active_timers e)(i := None)\<rparr>)"

lemma schedule_first:
  assumes "timers_ok e" "timer_schedule e = (n, d, i) # later"
  shows "\<exists>callback. active_timers e i = Some (n, callback) \<and> pending e i = Some (d, callback)"
    "pending e j = Some (d', cb') \<Longrightarrow> d \<le> d'" "fire_first e = erase_timer i e"
proof -
  obtain callback where a: "active_timers e i = Some (n, callback)" using timers_okD(4) [OF assms(1), of n d i] assms(2) by auto
  then show "\<exists>callback. active_timers e i = Some (n, callback) \<and> pending e i = Some (d, callback)"
    using pending_iff [OF assms(1), of i d callback] assms(2) by auto
  show "d \<le> d'" if p: "pending e j = Some (d', cb')"
  proof -
    obtain m where "(m, d', j) \<in> set (timer_schedule e)" using p pending_iff [OF assms(1), of j d' cb'] by blast
    then show ?thesis using timers_okD(1) [OF assms(1)] assms(2) by fastforce
  qed
  have "n \<notin> fst ` set later" using timers_okD(2) [OF assms(1)] assms(2) by simp
  then have "erase_node n (timer_schedule e) = later" using assms(2) by (auto simp: erase_node_def filter_id_conv)
  then show "fire_first e = erase_timer i e" using a assms(2) by (simp add: fire_first_def erase_timer_def)
qed

lemma fire_first_ok:
  assumes "timers_ok e" "timer_schedule e = (n, d, i) # later"
  shows "timers_ok (fire_first e)" "pending (fire_first e) = (pending e)(i := None)"
  using schedule_first(3) [OF assms] erase_timer_ok [OF assms(1)] by auto

lemma schedule_empty: "timers_ok e \<Longrightarrow> timer_schedule e = [] \<longleftrightarrow> pending e = Map.empty"
proof
  assume ok: "timers_ok e" and p: "pending e = Map.empty"
  show "timer_schedule e = []"
  proof (cases "timer_schedule e")
    case (Cons x later)
    then show ?thesis using schedule_first(1) [OF ok] p by (cases x) fastforce
  qed
qed (auto simp: pending_def split: option.splits)

section \<open>The contract\<close>

definition udp_armed :: "'w UdpEnvironment \<Rightarrow> TimerId \<rightharpoonup> TimerCallback" where
  "udp_armed e i = map_option snd (pending e i)"

lemma udp_armed_upd:
  "pending e' = (pending e)(i \<mapsto> (d, callback)) \<Longrightarrow> udp_armed e' = (udp_armed e)(i \<mapsto> callback)"
  "pending e' = (pending e)(i := None) \<Longrightarrow> udp_armed e' = (udp_armed e)(i := None)"
  "pending e' = pending e \<Longrightarrow> udp_armed e' = udp_armed e"
  by (auto simp: udp_armed_def fun_eq_iff)

lemma udp_armed_empty: "udp_armed e = Map.empty \<longleftrightarrow> pending e = Map.empty"
  by (auto simp: udp_armed_def fun_eq_iff)

lemma udp_set_timer_result:
  assumes "timers_ok e" "udp_set_timer os i ms callback e = (r, e')"
  shows "timers_ok e'"
    "if run_active e \<and> os_this_thread os = run_thread_id e
     then r = Inr () \<and> pending e' = (pending e)(i \<mapsto> (fst (os_now os (world e)) + int ms * 1000000, callback)) \<and> world e' = snd (os_now os (world e))
     else r = Inl (StdException ''UdpEnvironment::set_timer must be called from run() thread'') \<and> e' = e"
proof -
  obtain now w where w: "os_now os (world e) = (now, w)" by fastforce
  let ?e = "erase_timer i (e\<lparr>world := w\<rparr>)"
  have ok: "timers_ok (e\<lparr>world := w\<rparr>)" using assms(1) by simp
  note x = erase_timer_ok [OF ok, of i]
  note y = add_timer_ok [OF x(1) x(3), of "now + int ms * 1000000" callback]
  have wy: "world (add_timer i (now + int ms * 1000000) callback ?e) = w" using x(5) by (simp add: add_timer_def)
  have "udp_set_timer os i ms callback e = (if run_active e \<and> os_this_thread os = run_thread_id e
      then (Inr (), add_timer i (now + int ms * 1000000) callback ?e)
      else (Inl (StdException ''UdpEnvironment::set_timer must be called from run() thread''), e))"
    using w by (simp add: udp_set_timer_def require_run_thread_def read_clock_def flow_defs)
  with assms x y wy w show "timers_ok e'"
    "if run_active e \<and> os_this_thread os = run_thread_id e
     then r = Inr () \<and> pending e' = (pending e)(i \<mapsto> (fst (os_now os (world e)) + int ms * 1000000, callback)) \<and> world e' = snd (os_now os (world e))
     else r = Inl (StdException ''UdpEnvironment::set_timer must be called from run() thread'') \<and> e' = e"
    by (auto split: if_splits)
qed

lemma udp_cancel_timer_result:
  assumes "timers_ok e" "udp_cancel_timer os i e = (r, e')"
  shows "timers_ok e'"
    "if run_active e \<and> os_this_thread os = run_thread_id e
     then r = Inr () \<and> pending e' = (pending e)(i := None) \<and> world e' = world e
     else r = Inl (StdException ''UdpEnvironment::cancel_timer must be called from run() thread'') \<and> e' = e"
  using assms erase_timer_ok [OF assms(1), of i]
  by (auto simp: udp_cancel_timer_def require_run_thread_def flow_defs split: if_splits)

lemma udp_send_timers: "udp_send os dest msg e = (r, e') \<Longrightarrow> timers_ok e' = timers_ok e \<and> pending e' = pending e"
  by (auto simp: udp_send_def flow_defs split: option.splits prod.splits if_splits)

lemma udp_get_vote_timers: "udp_get_vote os e = (r, e') \<Longrightarrow> timers_ok e' = timers_ok e \<and> pending e' = pending e"
  by (auto simp: udp_get_vote_def flow_defs split: option.splits prod.splits)

interpretation udp: environment "udp_env os" udp_armed timers_ok for os
proof unfold_locales
  fix e i ms callback r e'
  assume "timers_ok e" "env_set_timer (udp_env os) i ms callback e = (r, e')"
  then have "timers_ok e" "udp_set_timer os i ms callback e = (r, e')" by (simp_all add: udp_env_def)
  from udp_set_timer_result [OF this] show "timers_ok e' \<and> udp_armed e' = (if r = Inr () then (udp_armed e)(i \<mapsto> callback) else udp_armed e)"
    using udp_armed_upd(1) [of e' e i _ callback] by (cases "run_active e \<and> os_this_thread os = run_thread_id e") simp_all
next
  fix e i r e'
  assume "timers_ok e" "env_cancel_timer (udp_env os) i e = (r, e')"
  then have "timers_ok e" "udp_cancel_timer os i e = (r, e')" by (simp_all add: udp_env_def)
  from udp_cancel_timer_result [OF this] show "timers_ok e' \<and> udp_armed e' = (if r = Inr () then (udp_armed e)(i := None) else udp_armed e)"
    using udp_armed_upd(2) [of e' e i] by (cases "run_active e \<and> os_this_thread os = run_thread_id e") simp_all
next
  fix e dest msg r e'
  assume "timers_ok e" "env_send (udp_env os) dest msg e = (r, e')"
  then show "timers_ok e' \<and> udp_armed e' = udp_armed e" using udp_send_timers [of os dest msg e r e'] udp_armed_upd(3) [of e' e] by (simp add: udp_env_def)
next
  fix e v e'
  assume "timers_ok e" "env_get_vote (udp_env os) e = (v, e')"
  then show "timers_ok e' \<and> udp_armed e' = udp_armed e" using udp_get_vote_timers [of os e v e'] udp_armed_upd(3) [of e' e] by (simp add: udp_env_def)
qed

section \<open>Dispatching\<close>

text \<open>Whether the next timer is due is decided by one reading of the clock; the stale entry of the source does not occur.\<close>

lemma dispatch_empty:
  assumes "timer_schedule e = []"
  shows "dispatch_due_timers (Suc fuel) os proto (p, e) = Some (Inr True, (p, e))"
  using assms by simp

lemma dispatch_first:
  assumes "timers_ok e" "timer_schedule e = (n, d, i) # later" "pending e i = Some (d, callback)" "os_now os (world e) = (now, w)"
  shows "dispatch_due_timers (Suc fuel) os proto (p, e) =
    (if now < d then Some (Inr True, (p, e\<lparr>world := w\<rparr>))
     else case proto_callback proto callback (p, erase_timer i (e\<lparr>world := w\<rparr>)) of
       (Inl ex, s') \<Rightarrow> Some (Inl ex, s')
     | (Inr keep_waiting, s') \<Rightarrow> if keep_waiting then dispatch_due_timers fuel os proto s' else Some (Inr False, s'))"
proof -
  have act: "active_timers e i = Some (n, callback)" using schedule_first(1) [OF assms(1,2)] assms(3) by auto
  have "timers_ok (e\<lparr>world := w\<rparr>)" "timer_schedule (e\<lparr>world := w\<rparr>) = (n, d, i) # later" using assms by simp_all
  from schedule_first(3) [OF this]
  have "erase_timer i (e\<lparr>world := w\<rparr>) = e\<lparr>world := w, timer_schedule := later, active_timers := (active_timers e)(i := None)\<rparr>"
    using assms(2) by (simp add: fire_first_def)
  then show ?thesis using act assms(2,4) by (simp add: Let_def)
qed

text \<open>C13. On timers that are in step the operations implement one map of pending timers. From the thread of the run,
  setting a timer replaces the entry of its id by the deadline and the callback, cancelling removes the entry; from elsewhere both
  throw and change nothing. With no pending timer a dispatch returns at once. Otherwise it takes a timer with the least
  deadline: not yet due, the dispatch ends; due, the timer is removed and its callback runs, and the
  dispatch goes on while callbacks ask for it.\<close>

theorem udp_timers_refine:
  assumes ok: "timers_ok e"
  shows "(case udp_set_timer os i ms callback e of (r, e') \<Rightarrow> timers_ok e' \<and>
      (if run_active e \<and> os_this_thread os = run_thread_id e
       then r = Inr () \<and> pending e' = (pending e)(i \<mapsto> (fst (os_now os (world e)) + int ms * 1000000, callback))
       else r = Inl (StdException ''UdpEnvironment::set_timer must be called from run() thread'') \<and> e' = e))
    \<and> (case udp_cancel_timer os i e of (r, e') \<Rightarrow> timers_ok e' \<and>
      (if run_active e \<and> os_this_thread os = run_thread_id e then r = Inr () \<and> pending e' = (pending e)(i := None)
       else r = Inl (StdException ''UdpEnvironment::cancel_timer must be called from run() thread'') \<and> e' = e))
    \<and> timers_ok (reset_timer_state e) \<and> pending (reset_timer_state e) = Map.empty
    \<and> (if pending e = Map.empty then dispatch_due_timers (Suc fuel) os proto (p, e) = Some (Inr True, (p, e))
      else \<exists>j d cb. pending e j = Some (d, cb) \<and> (\<forall>k d' cb'. pending e k = Some (d', cb') \<longrightarrow> d \<le> d')
        \<and> timers_ok (erase_timer j e) \<and> pending (erase_timer j e) = (pending e)(j := None)
        \<and> dispatch_due_timers (Suc fuel) os proto (p, e) =
          (case os_now os (world e) of (now, w) \<Rightarrow>
             if now < d then Some (Inr True, (p, e\<lparr>world := w\<rparr>))
             else case proto_callback proto cb (p, erase_timer j (e\<lparr>world := w\<rparr>)) of
               (Inl ex, s') \<Rightarrow> Some (Inl ex, s')
             | (Inr keep_waiting, s') \<Rightarrow> if keep_waiting then dispatch_due_timers fuel os proto s' else Some (Inr False, s')))"
proof (intro conjI, goal_cases)
  case 1
  show ?case using udp_set_timer_result [OF ok, of os i ms callback] by (auto split: prod.splits if_splits)
next
  case 2
  show ?case using udp_cancel_timer_result [OF ok, of os i] by (auto split: prod.splits if_splits)
next
  case 3
  show ?case by (simp add: timers_ok_def reset_timer_state_def)
next
  case 4
  show ?case by (simp add: pending_def reset_timer_state_def fun_eq_iff)
next
  case 5
  show ?case
  proof (cases "timer_schedule e")
    case Nil
    then show ?thesis using schedule_empty [OF ok] dispatch_empty [OF Nil] by simp
  next
    case (Cons x later)
    then obtain n d j where x: "timer_schedule e = (n, d, j) # later" by (cases x) auto
    obtain cb where cb: "pending e j = Some (d, cb)" using schedule_first(1) [OF ok x] by blast
    obtain now w where w: "os_now os (world e) = (now, w)" by fastforce
    have "(pending e = Map.empty) = False" using cb by auto
    then show ?thesis unfolding w prod.case by (simp only: if_False)
      (intro exI [of _ j] exI [of _ d] exI [of _ cb] conjI allI impI cb erase_timer_ok [OF ok] dispatch_first [OF ok x cb w],
        rule schedule_first(2) [OF ok x])
  qed
qed

text \<open>A network on which nothing arrives: a poll oversleeps its timeout by a millisecond and every reading of the clock takes a nanosecond.\<close>

definition quiet_os :: "int OS" where
  "quiet_os = \<lparr>os_socket = Pair 3, os_close = (\<lambda>_ w. w), os_inet_pton = (\<lambda>_. Some 0), os_bind = (\<lambda>_ _. Pair 0),
     os_sendto = (\<lambda>_ _ _. Pair 0), os_poll = (\<lambda>_ t w. ((0, OtherErrno, []), w + (max t 0 + 1) * 1000000)),
     os_recvfrom = (\<lambda>_ _. Pair (-1, OtherErrno, [])), os_now = (\<lambda>w. (w, w + 1)), os_coin = Pair True, os_this_thread = 7\<rparr>"

definition quiet_env :: "int UdpEnvironment" where
  "quiet_env = projr (fst (make_udp quiet_os 0 (\<lambda>i. if i \<le> 2 then Some (''127.0.0.1'', 9000 + i) else None) None 0))"

lemma quiet_env_simps:
  "timer_schedule quiet_env = []" "active_timers quiet_env = Map.empty" "world quiet_env = 0" "\<not> ran_once quiet_env" "\<not> run_active quiet_env"
  by (simp_all add: quiet_env_def make_udp_def quiet_os_def)

lemma quiet_env_ok: "timers_ok quiet_env" "pending quiet_env = Map.empty"
  by (auto simp: timers_ok_def pending_def quiet_env_simps fun_eq_iff)

theorem udp_timers_refine_witness:
  "let e = quiet_env\<lparr>ran_once := True, run_active := True, run_thread_id := 7\<rparr> in
     timers_ok e \<and> pending (snd (udp_set_timer quiet_os 1 5 OnVoteTimeout e)) = [1 \<mapsto> (5000000, OnVoteTimeout)]"
  using udp_timers_refine [of "quiet_env\<lparr>ran_once := True, run_active := True, run_thread_id := 7\<rparr>" quiet_os 1 5 OnVoteTimeout, THEN conjunct1]
  by (simp add: quiet_env_ok quiet_env_simps Let_def split: prod.splits) (simp add: quiet_os_def quiet_env_ok quiet_env_simps)

section \<open>The timeout of a poll\<close>

lemma to_milliseconds_eq: "to_milliseconds ns = (if 0 \<le> ns then ns div 1000000 else - (- ns div 1000000))"
  by (auto simp: to_milliseconds_def signed_divide_int_def sgn_if)

lemma capped_milliseconds:
  assumes "c = max (to_milliseconds ns) 0"
  shows "0 \<le> c" "c * 1000000 \<le> max 0 ns" "ns < (c + 1) * 1000000"
proof -
  have "to_milliseconds ns \<le> 0" if "ns < 0" using that pos_imp_zdiv_nonneg_iff [of 1000000 "- ns"] by (simp add: to_milliseconds_eq)
  moreover have "0 \<le> to_milliseconds ns" "to_milliseconds ns * 1000000 \<le> ns" "ns < (to_milliseconds ns + 1) * 1000000" if "0 \<le> ns"
  proof -
    have "ns = 1000000 * (ns div 1000000) + ns mod 1000000" "0 \<le> ns mod 1000000" "ns mod 1000000 < 1000000" by simp_all
    then show "to_milliseconds ns * 1000000 \<le> ns" "ns < (to_milliseconds ns + 1) * 1000000"
      using that unfolding to_milliseconds_eq by simp_all
    show "0 \<le> to_milliseconds ns" using that by (simp add: to_milliseconds_eq pos_imp_zdiv_nonneg_iff)
  qed
  ultimately show "0 \<le> c" "c * 1000000 \<le> max 0 ns" "ns < (c + 1) * 1000000"
    using assms by (cases "0 \<le> ns"; simp add: max_def)+
qed

text \<open>C37. With no timer pending the timeout given to the poll is -1, for no limit. Otherwise it is a non-negative 32-bit integer
  such that the poll ends no later than the earliest deadline, or at once when that has passed, and less than a
  millisecond before it unless the timeout is the largest integer.\<close>

theorem next_timeout_bounds:
  assumes "timers_ok e" "compute_next_timeout_ms os e = (r, e')"
  shows "\<exists>t. r = Inr t \<and> (if pending e = Map.empty then t = - 1 else
    \<exists>i d cb now. pending e i = Some (d, cb) \<and> (\<forall>j d' cb'. pending e j = Some (d', cb') \<longrightarrow> d \<le> d')
      \<and> now = fst (os_now os (world e)) \<and> 0 \<le> t \<and> t \<le> int_max \<and> now + t * 1000000 \<le> max now d
      \<and> (t < int_max \<longrightarrow> d < now + (t + 1) * 1000000))"
proof (cases "timer_schedule e")
  case Nil
  then show ?thesis using assms(2) schedule_empty [OF assms(1)] by (simp add: compute_next_timeout_ms_def return_sim_def)
next
  case (Cons x later)
  then obtain n d i where x: "timer_schedule e = (n, d, i) # later" by (cases x) auto
  obtain cb where cb: "pending e i = Some (d, cb)" using schedule_first(1) [OF assms(1) x] by blast
  obtain now w where w: "os_now os (world e) = (now, w)" by fastforce
  define c where "c = max (to_milliseconds (d - now)) 0"
  have r: "r = Inr (if c > int_max then int_max else c)"
    using assms(2) x w by (auto simp: compute_next_timeout_ms_def read_clock_def flow_defs Let_def c_def)
  have "(pending e = Map.empty) = False" using cb by auto
  moreover have "0 \<le> (if c > int_max then int_max else c)" "(if c > int_max then int_max else c) \<le> int_max"
    "now + (if c > int_max then int_max else c) * 1000000 \<le> max now d"
    "(if c > int_max then int_max else c) < int_max \<longrightarrow> d < now + ((if c > int_max then int_max else c) + 1) * 1000000"
    using capped_milliseconds [OF c_def] by (auto simp: int_max_def max_def split: if_splits)
  ultimately show ?thesis
    using r cb w schedule_first(2) [OF assms(1) x] by (intro exI [of _ "if c > int_max then int_max else c"] conjI r) (simp only: if_False, metis fst_conv)
qed

theorem next_timeout_bounds_witness:
  "\<exists>t e'. compute_next_timeout_ms quiet_os (add_timer 1 5000000 OnVoteTimeout quiet_env) = (Inr t, e') \<and> 0 \<le> t \<and> t \<le> 5"
proof -
  let ?e = "add_timer 1 5000000 OnVoteTimeout quiet_env"
  obtain r e' where c: "compute_next_timeout_ms quiet_os ?e = (r, e')" by fastforce
  have a: "timers_ok ?e" "pending ?e = [1 \<mapsto> (5000000, OnVoteTimeout)]" using add_timer_ok [OF quiet_env_ok(1), of 1] quiet_env_ok(2) quiet_env_simps by auto
  from next_timeout_bounds [OF a(1) c] a(2) c show ?thesis
    by (auto simp: quiet_os_def quiet_env_simps add_timer_def split: if_splits)
qed

end
