(* ===== verification/Udp_Run.thy ===== *)
theory Udp_Run
  imports Udp_Timers
begin

text \<open>
  Driving a protocol object over UDP. Every completed run is a sequence of turns: time passes, a timer
  that is due runs its callback, a datagram that parses is delivered. An object that always has a timer
  armed while it waits returns, however the network behaves, as long as the clock goes on.
\<close>

section \<open>Turns of the loop\<close>

text \<open>
  System calls that pass, fail, or hand over a datagram that parses.
\<close>

definition passed :: "'w UdpEnvironment \<Rightarrow> 'w UdpEnvironment \<Rightarrow> bool" where
  "passed e e' \<longleftrightarrow> e' = e\<lparr>world := world e'\<rparr>"

definition socket_error :: "SimException \<Rightarrow> bool" where
  "socket_error ex \<longleftrightarrow> (\<exists>what\<in>{''poll() failed'', ''socket poll error'', ''recvfrom() failed''}. ex = StdException what)"

definition parses :: "'w OS \<Rightarrow> int \<Rightarrow> Message \<Rightarrow> 'w \<Rightarrow> bool" where
  "parses os fd msg w' \<longleftrightarrow> (\<exists>n err bytes w. os_recvfrom os fd kBufferSize w = ((n, err, bytes), w') \<and> 0 < n
     \<and> deserialize (buffer_text n bytes) = Inr msg)"

text \<open>
  What may happen between two calls of the object, and the calls. A turn has the result of the call it makes;
  without a call it is \<open>Inr True\<close>, or the exception of the failing system call.
\<close>

inductive turn :: "'w OS \<Rightarrow> ('p, 'w UdpEnvironment) Protocol \<Rightarrow> 'p \<times> 'w UdpEnvironment \<Rightarrow> SimException + bool
    \<Rightarrow> 'p \<times> 'w UdpEnvironment \<Rightarrow> bool" for os proto where
  pass: "passed e e' \<Longrightarrow> turn os proto (p, e) (Inr True) (p, e')"
| fail: "passed e e' \<Longrightarrow> socket_error ex \<Longrightarrow> turn os proto (p, e) (Inl ex) (p, e')"
| fire: "pending e i = Some (d, callback) \<Longrightarrow> \<forall>j d' callback'. pending e j = Some (d', callback') \<longrightarrow> d \<le> d'
    \<Longrightarrow> os_now os (world e) = (now, w) \<Longrightarrow> d \<le> now
    \<Longrightarrow> proto_callback proto callback (p, erase_timer i (e\<lparr>world := w\<rparr>)) = (r, s') \<Longrightarrow> turn os proto (p, e) r s'"
| deliver: "passed e e' \<Longrightarrow> parses os (socket_fd e) msg (world e') \<Longrightarrow> proto_receive proto msg (p, e') = (r, s')
    \<Longrightarrow> turn os proto (p, e) r s'"

text \<open>A sequence of turns goes on while they return \<open>Inr True\<close>.\<close>

inductive turns :: "'w OS \<Rightarrow> ('p, 'w UdpEnvironment) Protocol \<Rightarrow> 'p \<times> 'w UdpEnvironment \<Rightarrow> SimException + bool
    \<Rightarrow> 'p \<times> 'w UdpEnvironment \<Rightarrow> bool" for os proto where
  stay: "turns os proto s (Inr True) s"
| one_more: "turns os proto s (Inr True) s1 \<Longrightarrow> turn os proto s1 r s2 \<Longrightarrow> turns os proto s r s2"

lemma turns_turn: "turn os proto s r s' \<Longrightarrow> turns os proto s r s'"
  by (rule turns.one_more [OF turns.stay])

lemma turns_trans: "turns os proto s1 r s2 \<Longrightarrow> turns os proto s (Inr True) s1 \<Longrightarrow> turns os proto s r s2"
  by (induction rule: turns.induct) (auto intro: turns.one_more)

text \<open>A property of object and environment that time, callbacks and deliveries keep holds at the end.\<close>

lemma turns_invariant:
  assumes "turns os proto s r s'" "I s"
    "\<And>s r s'. I s \<Longrightarrow> turn os proto s r s' \<Longrightarrow> I s'"
  shows "I s'"
  using assms by (induction rule: turns.induct) blast+

section \<open>Waiting for a message\<close>

text \<open>Reading from the socket changes nothing but the world.\<close>

lemma passed_world [simp]: "passed e (e\<lparr>world := w\<rparr>)" "passed e e"
  by (simp_all add: passed_def)

lemma passed_trans: "passed e e' \<Longrightarrow> passed e' e'' \<Longrightarrow> passed e e''"
  unfolding passed_def by (metis (no_types, lifting) UdpEnvironment.surjective UdpEnvironment.update_convs(11))

lemma passed_eq:
  assumes "passed e e'"
  shows "timer_schedule e' = timer_schedule e" "active_timers e' = active_timers e" "socket_fd e' = socket_fd e"
    "timers_ok e' = timers_ok e" "pending e' = pending e" "udp_armed e' = udp_armed e" "ran_once e' = ran_once e"
proof -
  obtain w where "e' = e\<lparr>world := w\<rparr>" using assms unfolding passed_def by blast
  then show "timer_schedule e' = timer_schedule e" "active_timers e' = active_timers e" "socket_fd e' = socket_fd e"
    "timers_ok e' = timers_ok e" "pending e' = pending e" "udp_armed e' = udp_armed e" "ran_once e' = ran_once e" by (simp_all add: udp_armed_def fun_eq_iff)
qed

definition poll_ok :: "'w OS \<Rightarrow> 'w UdpEnvironment \<Rightarrow> SimException + PollOutcome \<Rightarrow> 'w UdpEnvironment \<Rightarrow> bool" where
  "poll_ok os e r e' \<longleftrightarrow> passed e e'
     \<and> (case r of Inl ex \<Rightarrow> socket_error ex | Inr (Arrived msg) \<Rightarrow> parses os (socket_fd e) msg (world e') | _ \<Rightarrow> True)"

lemma recv_once_ok:
  assumes "recv_once os e = (r, e')"
  shows "poll_ok os e r e'"
proof -
  obtain n err bytes w where c: "os_recvfrom os (socket_fd e) kBufferSize (world e) = ((n, err, bytes), w)" by (metis surj_pair)
  show ?thesis
  proof (cases "0 < n")
    case True
    then show ?thesis using assms c
      by (cases "deserialize (buffer_text n bytes)") (auto simp: recv_once_def flow_defs poll_ok_def parses_def Let_def, blast)
  next
    case False
    then show ?thesis using assms c by (auto simp: recv_once_def flow_defs poll_ok_def socket_error_def Let_def split: if_splits)
  qed
qed

lemma poll_once_ok:
  assumes "poll_once os remaining e = (r, e')"
  shows "poll_ok os e r e'"
proof -
  obtain ret err revents w where p: "os_poll os (socket_fd e) remaining (world e) = ((ret, err, revents), w)" by (metis surj_pair)
  show ?thesis
  proof (cases "0 < ret \<and> POLLERR \<notin> set revents \<and> POLLHUP \<notin> set revents \<and> POLLNVAL \<notin> set revents \<and> POLLIN \<in> set revents")
    case True
    then have "recv_once os (e\<lparr>world := w\<rparr>) = (r, e')" using assms p by (auto simp: poll_once_def Let_def split: if_splits)
    then have "poll_ok os (e\<lparr>world := w\<rparr>) r e'" by (rule recv_once_ok)
    moreover have "passed e (e\<lparr>world := w\<rparr>)" by simp
    ultimately show ?thesis unfolding poll_ok_def using passed_trans [of e "e\<lparr>world := w\<rparr>" e'] by (auto split: sum.splits PollOutcome.splits)
  next
    case False
    then show ?thesis using assms p by (auto simp: poll_once_def Let_def flow_defs poll_ok_def socket_error_def split: if_splits)
  qed
qed

lemma refresh_ok:
  "\<exists>b e'. refresh_remaining_timeout os timeout start remaining e = (Inr b, e') \<and> passed e e'"
  by (cases "os_now os (world e)") (simp add: refresh_remaining_timeout_def read_clock_def flow_defs Let_def, blast)

definition wait_ok :: "'w OS \<Rightarrow> 'w UdpEnvironment \<Rightarrow> SimException + Message option \<Rightarrow> 'w UdpEnvironment \<Rightarrow> bool" where
  "wait_ok os e r e' \<longleftrightarrow> passed e e'
     \<and> (case r of Inl ex \<Rightarrow> socket_error ex | Inr (Some msg) \<Rightarrow> parses os (socket_fd e) msg (world e') | _ \<Rightarrow> True)"

lemma wait_loop_ok:
  assumes "wait_loop fuel os timeout start remaining e = Some (r, e')"
  shows "wait_ok os e r e'"
  using assms
proof (induction fuel arbitrary: remaining e)
  case (Suc fuel)
  obtain q e1 where p: "poll_once os remaining e = (q, e1)" by fastforce
  note q = poll_once_ok [OF p]
  obtain left_ms b e2 where f: "refresh_remaining_timeout os timeout start remaining e1 = (Inr (b, left_ms), e2)" "passed e1 e2"
    using refresh_ok by (metis surj_pair)
  have e2: "passed e e2" using passed_trans [of e e1 e2] q f(2) by (simp add: poll_ok_def)
  show ?case
  proof (cases "q = Inr PollAgain \<and> b")
    case True
    then have "wait_loop fuel os timeout start left_ms e2 = Some (r, e')" using Suc.prems p f by simp
    from Suc.IH [OF this] show ?thesis unfolding wait_ok_def
      using passed_trans [OF e2, of e'] passed_eq(3) [OF e2] by (auto split: sum.splits option.splits)
  next
    case False
    then show ?thesis using Suc.prems p f(1) e2 q
      by (auto simp: wait_ok_def poll_ok_def split: sum.splits PollOutcome.splits)
  qed
qed simp

section \<open>Runs are sequences of turns\<close>

text \<open>A protocol object over UDP: its methods keep the timers in step and do not reopen the run.\<close>

locale udp_object =
  fixes os :: "'w OS" and proto :: "('p, 'w UdpEnvironment) Protocol"
  assumes start_keeps: "Q = timers_ok \<or> Q = ran_once \<Longrightarrow> sim_keeps (\<lambda>s. Q (snd s)) (proto_start proto)"
    and receive_keeps: "Q = timers_ok \<or> Q = ran_once \<Longrightarrow> sim_keeps (\<lambda>s. Q (snd s)) (proto_receive proto msg)"
    and callback_keeps: "Q = timers_ok \<or> Q = ran_once \<Longrightarrow> sim_keeps (\<lambda>s. Q (snd s)) (proto_callback proto callback)"
begin

lemma turn_keeps:
  assumes "turn os proto s r s'" "Q = timers_ok \<or> Q = ran_once" "Q (snd s)"
  shows "Q (snd s')"
  using assms
proof (induction rule: turn.induct)
  case (fire e i d callback now w p r s')
  then have "Q (erase_timer i (e\<lparr>world := w\<rparr>))"
    using erase_timer_ok(1) [of "e\<lparr>world := w\<rparr>" i] by (auto simp: erase_timer_def split: option.splits)
  then show ?case using sim_keepsD [OF callback_keeps [OF fire(6)] _ fire(5)] by simp
next
  case (deliver e e' msg p r s')
  then have "Q e'" by (auto simp: passed_eq)
  then show ?case using sim_keepsD [OF receive_keeps [OF deliver(4)] _ deliver(3)] by simp
qed (auto simp: passed_eq)

lemma turns_keeps: "turns os proto s r s' \<Longrightarrow> Q = timers_ok \<or> Q = ran_once \<Longrightarrow> Q (snd s) \<Longrightarrow> Q (snd s')"
  by (rule turns_invariant [of os proto s r s' "\<lambda>s. Q (snd s)"]) (auto intro: turn_keeps)

lemmas turn_timers_ok = turn_keeps [where Q = timers_ok, simplified]
lemmas turns_timers_ok = turns_keeps [where Q = timers_ok, simplified]

lemma dispatch_turns:
  assumes "timers_ok (snd s)" "dispatch_due_timers fuel os proto s = Some (r, s')"
  shows "turns os proto s r s'"
  using assms
proof (induction fuel arbitrary: s)
  case (Suc fuel)
  obtain p e where s: "s = (p, e)" by (cases s)
  have ok: "timers_ok e" using Suc.prems(1) s by simp
  show ?case
  proof (cases "timer_schedule e")
    case Nil
    then show ?thesis using Suc.prems(2) dispatch_empty [OF Nil, of fuel os proto p] by (auto simp: s intro: turns.stay)
  next
    case (Cons x later)
    then obtain n d i where x: "timer_schedule e = (n, d, i) # later" by (cases x) auto
    obtain callback where cb: "pending e i = Some (d, callback)" using schedule_first(1) [OF ok x] by blast
    obtain now w where w: "os_now os (world e) = (now, w)" by fastforce
    note eq = dispatch_first [OF ok x cb w, of fuel proto p]
    show ?thesis
    proof (cases "now < d")
      case True
      then have "r = Inr True" "s' = (p, e\<lparr>world := w\<rparr>)" using Suc.prems(2) eq by (auto simp: s simp del: dispatch_due_timers.simps)
      then show ?thesis by (auto simp: s intro!: turns_turn turn.pass)
    next
      case False
      obtain q s1 where q: "proto_callback proto callback (p, erase_timer i (e\<lparr>world := w\<rparr>)) = (q, s1)" by (metis surj_pair)
      have t: "turn os proto (p, e) q s1" using turn.fire [OF cb _ w _ q] False schedule_first(2) [OF ok x] by auto
      show ?thesis
      proof (cases "q = Inr True")
        case True
        then have "dispatch_due_timers fuel os proto s1 = Some (r, s')" using Suc.prems(2) eq q False by (simp add: s del: dispatch_due_timers.simps)
        then have "turns os proto s1 r s'" using Suc.IH turn_timers_ok [OF t] ok by simp
        then show ?thesis by (rule turns_trans) (use t True s in \<open>auto intro: turns_turn\<close>)
      next
        case no: False
        then have "r = q" "s' = s1" using Suc.prems(2) eq q False by (auto simp: s simp del: dispatch_due_timers.simps split: sum.splits if_splits)
        then show ?thesis using t s by (auto intro: turns_turn)
      qed
    qed
  qed
qed simp

lemma receive_turns:
  assumes "receive_udp fuel os proto s = Some (r, s')"
  shows "turn os proto s r s'"
proof -
  obtain p e where s: "s = (p, e)" by (cases s)
  obtain t e1 where t: "compute_next_timeout_ms os e = (Inr t, e1)" "passed e e1"
    by (cases "os_now os (world e)"; cases "timer_schedule e") (auto simp: compute_next_timeout_ms_def read_clock_def flow_defs)
  obtain q e2 where q: "wait_for_message fuel os t e1 = Some (q, e2)"
    using assms t(1) by (auto simp: receive_udp_def s split: option.splits)
  obtain start w where w: "os_now os (world e1) = (start, w)" by fastforce
  have "wait_ok os (e1\<lparr>world := w\<rparr>) q e2" using q w by (intro wait_loop_ok) (simp add: wait_for_message_def)
  moreover have e1: "passed e (e1\<lparr>world := w\<rparr>)" by (rule passed_trans [OF t(2)]) simp
  ultimately have ok: "wait_ok os e q e2" unfolding wait_ok_def
    using passed_trans [OF e1, of e2] passed_eq(3) [OF t(2)] by (auto split: sum.splits option.splits)
  consider ex where "q = Inl ex" | "q = Inr None" | msg where "q = Inr (Some msg)"
    by (cases q; cases "projr q") auto
  then show ?thesis
  proof cases
    case 1
    then show ?thesis using assms t(1) q ok by (auto simp: receive_udp_def s wait_ok_def intro: turn.fail)
  next
    case 2
    then show ?thesis using assms t(1) q ok by (auto simp: receive_udp_def s wait_ok_def intro: turn.pass)
  next
    case 3
    then show ?thesis using assms t(1) q ok by (auto simp: receive_udp_def s wait_ok_def intro: turn.deliver)
  qed
qed

text \<open>The loop ends with the exception of its last turn, or with a turn that asks for no more messages.\<close>

lemma loop_turns:
  assumes "timers_ok (snd s)" "udp_loop fuel os proto True s = Some (r, s')"
  shows "turns os proto s (map_sum id (\<lambda>_. False) r) s'"
  using assms
proof (induction fuel arbitrary: s)
  case (Suc fuel)
  obtain q s1 where q: "dispatch_due_timers fuel os proto s = Some (q, s1)" using Suc.prems(2) by (auto split: option.splits)
  note t = dispatch_turns [OF Suc.prems(1) q]
  show ?case
  proof (cases "q = Inr True")
    case False
    then show ?thesis using Suc.prems(2) q t by (auto split: sum.splits bool.splits)
  next
    case True
    then obtain q2 s2 where q2: "receive_udp fuel os proto s1 = Some (q2, s2)" using Suc.prems(2) q by (auto split: option.splits)
    have t2: "turns os proto s q2 s2" using turns.one_more t receive_turns [OF q2] True by simp
    show ?thesis
    proof (cases "q2 = Inr True")
      case False
      then show ?thesis using Suc.prems(2) q q2 True t2 by (cases fuel) (auto split: sum.splits bool.splits)
    next
      case more: True
      then have "udp_loop fuel os proto True s2 = Some (r, s')" using Suc.prems(2) q q2 True by simp
      from turns_trans [OF Suc.IH [OF _ this]] t2 more turns_timers_ok [OF t2] Suc.prems(1) show ?thesis by simp
    qed
  qed
qed simp

text \<open>
  A run opens the environment, starts the object, takes turns while messages are needed, and on every way out drops the timers
  and closes the run.
\<close>

lemma run_turns:
  assumes "timers_ok e" "\<not> ran_once e" "udp_run fuel os proto (p, e) = Some (r, s')"
  shows "\<exists>q s1 s2. proto_start proto (p, e\<lparr>ran_once := True, run_active := True, run_thread_id := os_this_thread os\<rparr>) = (q, s1)
    \<and> (if q = Inr True then turns os proto s1 (map_sum id (\<lambda>_. False) r) s2 else s2 = s1 \<and> q = map_sum id (\<lambda>_. False) r)
    \<and> s' = (fst s2, (reset_timer_state (snd s2))\<lparr>run_active := False\<rparr>) \<and> ran_once (snd s')"
proof -
  let ?e = "e\<lparr>ran_once := True, run_active := True, run_thread_id := os_this_thread os\<rparr>"
  obtain q s1 where q: "proto_start proto (p, ?e) = (q, s1)" by (metis surj_pair)
  have s1: "timers_ok (snd s1)" "ran_once (snd s1)"
    using sim_keepsD [OF start_keeps _ q, of timers_ok] sim_keepsD [OF start_keeps _ q, of ran_once] assms(1) by auto
  obtain s2 where s2: "(case q of Inl ex \<Rightarrow> Some (Inl ex, s1) | Inr b \<Rightarrow> udp_loop fuel os proto b s1) = Some (r, s2)"
    "s' = (fst s2, (reset_timer_state (snd s2))\<lparr>run_active := False\<rparr>)"
    using assms(2,3) q by (auto simp: udp_run_def)
  have t: "if q = Inr True then turns os proto s1 (map_sum id (\<lambda>_. False) r) s2 else s2 = s1 \<and> q = map_sum id (\<lambda>_. False) r"
  proof (cases "q = Inr True")
    case True
    then show ?thesis using loop_turns [OF s1(1)] s2(1) by simp
  next
    case False
    then show ?thesis using s2(1) by (cases fuel) (auto split: sum.splits)
  qed
  moreover have "ran_once (snd s2)" using t s1(2) turns_keeps [where Q = ran_once] by (auto split: if_splits)
  ultimately show ?thesis using q s2(2)
    by (intro exI [of _ q] exI [of _ s1] exI [of _ s2] conjI) (simp_all add: reset_timer_state_def)
qed

end

lemma udp_env_keeps_ran: "env_keeps ran_once (udp_env os)"
  by (auto simp: env_keeps_def sim_keeps_def udp_env_def udp_send_def udp_get_vote_def udp_set_timer_def udp_cancel_timer_def
      require_run_thread_def read_clock_def erase_timer_def add_timer_def flow_defs split: option.splits prod.splits if_splits)

interpretation udp_coordinator: udp_object os "coordinator_protocol (udp_env os)" for os
  by unfold_locales (use coordinator_keeps [OF udp.env_keeps_ok] coordinator_keeps [OF udp_env_keeps_ran] in blast)+

interpretation udp_participant: udp_object os "participant_protocol (udp_env os)" for os
  by unfold_locales (use participant_keeps [OF udp.env_keeps_ok] participant_keeps [OF udp_env_keeps_ran] in blast)+

section \<open>Outcomes of a run\<close>

definition opened :: "'w OS \<Rightarrow> 'w UdpEnvironment \<Rightarrow> 'w UdpEnvironment" where
  "opened os e = e\<lparr>ran_once := True, run_active := True, run_thread_id := os_this_thread os\<rparr>"

text \<open>C12. A second run throws and changes nothing. Otherwise a run of the coordinator or of a participant that ends, by
  return or by exception, is the start of the object followed by turns: time passes, the pending timer with the least deadline
  runs its callback once it is due, or a received datagram that parses is delivered; malformed datagrams are
  never delivered, and the run ends with the first exception or with the first call that asks for no more messages. Then no
  timer is left and the environment cannot run again.\<close>

theorem udp_run_turns:
  fixes os :: "'w OS"
  assumes "timers_ok e"
  shows "(udp_run fuel os (coordinator_protocol (udp_env os)) (c, e) = Some (r, s') \<longrightarrow>
      (if ran_once e then r = Inl (StdException ''UdpEnvironment::run() called more than once'') \<and> s' = (c, e)
       else \<exists>q s1 s2. coordinator_start (udp_env os) (c, opened os e) = (q, s1)
         \<and> (if q = Inr True then turns os (coordinator_protocol (udp_env os)) s1 (map_sum id (\<lambda>_. False) r) s2
            else s2 = s1 \<and> q = map_sum id (\<lambda>_. False) r)
         \<and> fst s' = fst s2 \<and> pending (snd s') = Map.empty \<and> \<not> run_active (snd s') \<and> ran_once (snd s')))
    \<and> (udp_run fuel os (participant_protocol (udp_env os)) (p, e) = Some (r, t') \<longrightarrow>
      (if ran_once e then r = Inl (StdException ''UdpEnvironment::run() called more than once'') \<and> t' = (p, e)
       else \<exists>q s1 s2. participant_start (p, opened os e) = (q, s1)
         \<and> (if q = Inr True then turns os (participant_protocol (udp_env os)) s1 (map_sum id (\<lambda>_. False) r) s2
            else s2 = s1 \<and> q = map_sum id (\<lambda>_. False) r)
         \<and> fst t' = fst s2 \<and> pending (snd t') = Map.empty \<and> \<not> run_active (snd t') \<and> ran_once (snd t')))"
proof (intro conjI impI, goal_cases)
  case r: 1
  show ?case
  proof (cases "ran_once e")
    case False
    from udp_coordinator.run_turns [OF assms this r] False show ?thesis
      by (simp only: if_False opened_def) (fastforce simp: coordinator_protocol_def pending_def reset_timer_state_def)
  qed (use r in \<open>simp add: udp_run_def\<close>)
next
  case r: 2
  show ?case
  proof (cases "ran_once e")
    case False
    from udp_participant.run_turns [OF assms this r] False show ?thesis
      by (simp only: if_False opened_def) (fastforce simp: participant_protocol_def pending_def reset_timer_state_def)
  qed (use r in \<open>simp add: udp_run_def\<close>)
qed

lemma quiet_coordinator_run:
  "\<exists>s'. udp_run (Suc (Suc (Suc (Suc (Suc 0))))) quiet_os (coordinator_protocol (udp_env quiet_os)) (make_coordinator 1 False, quiet_env)
     = Some (Inr (), s')"
  unfolding udp_run_def quiet_env_def quiet_os_def
  by (simp add: make_udp_def coordinator_protocol_def coordinator_start_def make_coordinator_def flow_defs udp_env_def
     udp_send_def udp_set_timer_def require_run_thread_def read_clock_def erase_timer_def add_timer_def
     receive_udp_def compute_next_timeout_ms_def to_milliseconds_eq Let_def int_max_def wait_for_message_def poll_once_def
     on_vote_timeout_def on_ack_timeout_def broadcast_decision_def kVoteTimeoutTimerId_def kAckTimeoutTimerId_def)

theorem udp_run_turns_witness:
  "\<exists>q s1 s2. coordinator_start (udp_env quiet_os) (make_coordinator 1 False, opened quiet_os quiet_env) = (q, s1)
     \<and> (if q = Inr True then turns quiet_os (coordinator_protocol (udp_env quiet_os)) s1 (Inr False) s2 else s2 = s1 \<and> q = Inr False)"
proof -
  obtain s' where s: "udp_run (Suc (Suc (Suc (Suc (Suc 0))))) quiet_os (coordinator_protocol (udp_env quiet_os))
      (make_coordinator 1 False, quiet_env) = Some (Inr (), s')"
    using quiet_coordinator_run by blast
  from udp_run_turns [OF quiet_env_ok(1), THEN conjunct1, THEN mp, OF s] quiet_env_simps(4) show ?thesis
    unfolding map_sum.simps by (simp only: if_False) blast
qed

end
