(* ===== verification/Udp_Liveness.thy ===== *)
theory Udp_Liveness
  imports Udp_Run
begin

text \<open>
  A protocol object over UDP comes to an end. The only assumption about the operating system is that the
  clock goes on: no instant can be awaited for infinitely many readings. Nothing is assumed about the network,
  which may lose, repeat, reorder, corrupt or flood. The fuel of the loops is then enough once it exceeds
  some bound, and more of it changes nothing.
\<close>

section \<open>More fuel changes nothing\<close>

lemma wait_loop_mono: "wait_loop fuel os timeout start remaining e = Some x \<Longrightarrow> fuel \<le> fuel' \<Longrightarrow> wait_loop fuel' os timeout start remaining e = Some x"
proof (induction fuel arbitrary: fuel' remaining e)
  case (Suc fuel)
  obtain k where k: "fuel' = Suc k" "fuel \<le> k" using Suc.prems(2) by (cases fuel') auto
  show ?case using Suc.prems(1) Suc.IH [OF _ k(2)] unfolding k(1)
    by (simp split: prod.splits sum.splits PollOutcome.splits if_splits)
qed simp

lemma dispatch_mono: "dispatch_due_timers fuel os proto s = Some x \<Longrightarrow> fuel \<le> fuel' \<Longrightarrow> dispatch_due_timers fuel' os proto s = Some x"
proof (induction fuel arbitrary: fuel' s)
  case (Suc fuel)
  obtain k where k: "fuel' = Suc k" "fuel \<le> k" using Suc.prems(2) by (cases fuel') auto
  show ?case using Suc.prems(1) Suc.IH [OF _ k(2)] unfolding k(1)
    by (auto simp: Let_def split: list.splits prod.splits option.splits sum.splits if_splits)
qed simp

lemma receive_udp_mono:
  assumes "receive_udp fuel os proto s = Some x" "fuel \<le> fuel'"
  shows "receive_udp fuel' os proto s = Some x"
proof (cases "compute_next_timeout_ms os (snd s)")
  case (Pair q e)
  show ?thesis
  proof (cases q)
    case (Inr t)
    then obtain y where y: "wait_for_message fuel os t e = Some y" using assms(1) Pair by (auto simp: receive_udp_def split: option.splits)
    then have "wait_for_message fuel' os t e = Some y"
      using wait_loop_mono [OF _ assms(2)] by (cases "os_now os (world e)") (simp add: wait_for_message_def)
    then show ?thesis using assms(1) Pair Inr y by (simp add: receive_udp_def)
  qed (use assms(1) Pair in \<open>simp add: receive_udp_def\<close>)
qed

lemma udp_loop_mono: "udp_loop fuel os proto b s = Some x \<Longrightarrow> fuel \<le> fuel' \<Longrightarrow> udp_loop fuel' os proto b s = Some x"
proof (induction fuel arbitrary: fuel' b s)
  case (Suc fuel)
  obtain k where k: "fuel' = Suc k" "fuel \<le> k" using Suc.prems(2) by (cases fuel') auto
  show ?case
  proof (cases b)
    case True
    then obtain q s1 where q: "dispatch_due_timers fuel os proto s = Some (q, s1)" using Suc.prems(1) by (auto split: option.splits)
    note q' = dispatch_mono [OF q k(2)]
    show ?thesis
    proof (cases "q = Inr True")
      case more: True
      then obtain q2 s2 where q2: "receive_udp fuel os proto s1 = Some (q2, s2)" using Suc.prems(1) True q by (auto split: option.splits)
      show ?thesis using Suc.prems(1) Suc.IH [OF _ k(2)] q q' q2 receive_udp_mono [OF q2 k(2)] True more
        unfolding k(1) by (simp split: sum.splits)
    next
      case False
      then show ?thesis using Suc.prems(1) q q' True unfolding k(1) by (simp split: sum.splits bool.splits)
    qed
  qed (use Suc.prems(1) k in simp)
qed simp

section \<open>A clock that goes on\<close>

text \<open>
  \<open>budget d w\<close> bounds the number of readings before \<open>d\<close> that are left in the world \<open>w\<close>. No system call raises it and
  every reading before \<open>d\<close> lowers it.
\<close>

definition clock_advances :: "'w OS \<Rightarrow> (int \<Rightarrow> 'w \<Rightarrow> nat) \<Rightarrow> bool" where
  "clock_advances os budget \<longleftrightarrow>
     (\<forall>d w. budget d (snd (os_now os w)) \<le> budget d w \<and> (fst (os_now os w) < d \<longrightarrow> budget d (snd (os_now os w)) < budget d w))
     \<and> (\<forall>d w fd t. budget d (snd (os_poll os fd t w)) \<le> budget d w)
     \<and> (\<forall>d w fd cap. budget d (snd (os_recvfrom os fd cap w)) \<le> budget d w)
     \<and> (\<forall>d w fd data addr. budget d (snd (os_sendto os fd data addr w)) \<le> budget d w)
     \<and> (\<forall>d w. budget d (snd (os_coin os w)) \<le> budget d w)"

lemma clock_advancesD:
  assumes "clock_advances os budget"
  shows "os_now os w = (now, w') \<Longrightarrow> budget d w' \<le> budget d w" "os_now os w = (now, w') \<Longrightarrow> now < d \<Longrightarrow> budget d w' < budget d w"
    "os_poll os fd t w = (pr, w') \<Longrightarrow> budget d w' \<le> budget d w" "os_recvfrom os fd cap w = (rr, w') \<Longrightarrow> budget d w' \<le> budget d w"
    "os_sendto os fd data addr w = (ret, w') \<Longrightarrow> budget d w' \<le> budget d w" "os_coin os w = (heads, w') \<Longrightarrow> budget d w' \<le> budget d w"
  using assms unfolding clock_advances_def by (metis fst_conv snd_conv)+

lemma recv_once_budget: "clock_advances os budget \<Longrightarrow> recv_once os e = (r, e') \<Longrightarrow> budget d (world e') \<le> budget d (world e)"
  by (auto simp: recv_once_def flow_defs Let_def split: prod.splits if_splits sum.splits dest: clock_advancesD(4) [where d = d])

lemma poll_once_budget:
  assumes "clock_advances os budget" "poll_once os remaining e = (r, e')"
  shows "budget d (world e') \<le> budget d (world e)"
proof -
  obtain ret err revents w where p: "os_poll os (socket_fd e) remaining (world e) = ((ret, err, revents), w)" by (metis surj_pair)
  have w: "budget d w \<le> budget d (world e)" by (rule clock_advancesD(3) [OF assms(1) p])
  have "e' = e\<lparr>world := w\<rparr> \<or> recv_once os (e\<lparr>world := w\<rparr>) = (r, e')"
    using assms(2) p by (auto simp: poll_once_def flow_defs Let_def split: if_splits)
  then show ?thesis using w recv_once_budget [OF assms(1), of "e\<lparr>world := w\<rparr>" r e' d] by auto
qed

lemma to_milliseconds_ge: "0 \<le> t \<Longrightarrow> t * 1000000 \<le> ns \<Longrightarrow> t \<le> to_milliseconds ns"
  using zdiv_mono1 [of "t * 1000000" ns 1000000] by (simp add: to_milliseconds_eq)

text \<open>Waiting with a limit returns.\<close>

lemma wait_loop_returns:
  assumes "clock_advances os budget" "0 \<le> timeout"
  shows "\<exists>fuel r e'. wait_loop fuel os timeout start remaining e = Some (r, e')"
proof (induction "budget (start + timeout * 1000000) (world e)" arbitrary: e remaining rule: less_induct)
  case less
  let ?d = "start + timeout * 1000000"
  obtain q e1 where p: "poll_once os remaining e = (q, e1)" by fastforce
  show ?case
  proof (cases "q = Inr PollAgain")
    case False
    then have "\<exists>r e'. wait_loop (Suc 0) os timeout start remaining e = Some (r, e')"
      using p by (auto split: sum.splits PollOutcome.splits)
    then show ?thesis by blast
  next
    case True
    obtain now w where w: "os_now os (world e1) = (now, w)" by fastforce
    show ?thesis
    proof (cases "to_milliseconds (now - start) \<ge> timeout")
      case late: True
      then have "wait_loop (Suc 0) os timeout start remaining e = Some (Inr None, e1\<lparr>world := w\<rparr>)"
        using p True w assms(2) by (simp add: refresh_remaining_timeout_def read_clock_def flow_defs Let_def)
      then show ?thesis by blast
    next
      case False
      then have "now < ?d" using to_milliseconds_ge [OF assms(2), of "now - start"] by linarith
      then have "budget ?d w < budget ?d (world e)"
        using clock_advancesD(2) [OF assms(1) w] poll_once_budget [OF assms(1) p, of ?d] by force
      then obtain fuel r e' where
        "wait_loop fuel os timeout start (if timeout - to_milliseconds (now - start) > int_max then int_max
           else timeout - to_milliseconds (now - start)) (e1\<lparr>world := w\<rparr>) = Some (r, e')"
        using less [of "e1\<lparr>world := w\<rparr>"] by fastforce
      then have "wait_loop (Suc fuel) os timeout start remaining e = Some (r, e')"
        using p True w assms(2) False by (simp add: refresh_remaining_timeout_def read_clock_def flow_defs Let_def)
      then show ?thesis by blast
    qed
  qed
qed

lemma refresh_budget:
  assumes "clock_advances os budget" "refresh_remaining_timeout os timeout start remaining e = (r, e')"
  shows "budget d (world e') \<le> budget d (world e)"
  using assms(2) clock_advancesD(1) [OF assms(1), of "world e" _ _ d]
  by (cases "os_now os (world e)") (auto simp: refresh_remaining_timeout_def read_clock_def flow_defs Let_def split: if_splits)

lemma wait_loop_budget:
  assumes "clock_advances os budget" "wait_loop fuel os timeout start remaining e = Some (r, e')"
  shows "budget d (world e') \<le> budget d (world e)"
  using assms(2)
proof (induction fuel arbitrary: remaining e)
  case (Suc fuel)
  obtain q e1 where p: "poll_once os remaining e = (q, e1)" by fastforce
  obtain b left_ms e2 where f: "refresh_remaining_timeout os timeout start remaining e1 = (Inr (b, left_ms), e2)"
    using refresh_ok by (metis surj_pair)
  have le: "budget d (world e1) \<le> budget d (world e)" "budget d (world e2) \<le> budget d (world e)"
    using poll_once_budget [OF assms(1) p, of d] refresh_budget [OF assms(1) f, of d] by auto
  have "e' = e1 \<or> e' = e2 \<or> wait_loop fuel os timeout start left_ms e2 = Some (r, e')"
    using Suc.prems p f by (auto split: sum.splits PollOutcome.splits if_splits)
  then show ?case using le Suc.IH [of left_ms e2] by auto
qed simp

section \<open>Objects that wait on a timer\<close>

definition next_deadline :: "'w UdpEnvironment \<Rightarrow> int" where
  "next_deadline e = fst (snd (hd (timer_schedule e)))"

text \<open>
  An object that has a timer pending whenever it waits: a message either leaves the environment alone or lowers the
  rank of the object, and so does the callback of the timer.
\<close>

locale timed_object = udp_object os proto for os :: "'w OS" and proto :: "('p, 'w UdpEnvironment) Protocol" +
  fixes waits :: "'p \<times> 'w UdpEnvironment \<Rightarrow> bool" and rank_of :: "'p \<Rightarrow> nat"
  assumes waits_ok: "waits (p, e) \<Longrightarrow> timers_ok e \<and> pending e \<noteq> Map.empty"
    and waits_passed: "waits (p, e) \<Longrightarrow> passed e e' \<Longrightarrow> waits (p, e')"
    and waits_receive: "waits (p, e) \<Longrightarrow> proto_receive proto msg (p, e) = (Inr True, (p', e'))
      \<Longrightarrow> waits (p', e') \<and> (rank_of p' < rank_of p \<or> rank_of p' = rank_of p \<and> e' = e)"
    and waits_callback: "waits (p, e) \<Longrightarrow> pending e i = Some (d, callback)
      \<Longrightarrow> proto_callback proto callback (p, erase_timer i e) = (Inr True, (p', e')) \<Longrightarrow> waits (p', e') \<and> rank_of p' < rank_of p"
begin

lemma dispatch_returns:
  assumes clock: "clock_advances os budget" and "waits (p, e)"
  shows "\<exists>fuel r p' e'. dispatch_due_timers fuel os proto (p, e) = Some (r, (p', e')) \<and> (r = Inr True \<longrightarrow> waits (p', e')
    \<and> (rank_of p' < rank_of p \<or> p' = p \<and> passed e e' \<and> budget (next_deadline e) (world e') < budget (next_deadline e) (world e)))"
  using assms(2)
proof (induction "rank_of p" arbitrary: p e rule: less_induct)
  case less
  have ok: "timers_ok e" "pending e \<noteq> Map.empty" using waits_ok [OF less.prems] by auto
  obtain n d i later where x: "timer_schedule e = (n, d, i) # later" using schedule_empty [OF ok(1)] ok(2) by (cases "timer_schedule e") auto
  obtain callback where cb: "pending e i = Some (d, callback)" using schedule_first(1) [OF ok(1) x] by blast
  obtain now w where w: "os_now os (world e) = (now, w)" by fastforce
  note eq = dispatch_first [OF ok(1) x cb w, of _ proto p]
  have d: "next_deadline e = d" by (simp add: next_deadline_def x)
  have we: "waits (p, e\<lparr>world := w\<rparr>)" using waits_passed [OF less.prems] by simp
  show ?case
  proof (cases "now < d")
    case True
    then have "dispatch_due_timers (Suc 0) os proto (p, e) = Some (Inr True, (p, e\<lparr>world := w\<rparr>))" using eq [of 0] by simp
    then show ?thesis using we clock_advancesD(2) [OF clock w True] d by (metis UdpEnvironment.select_convs(11) UdpEnvironment.surjective UdpEnvironment.update_convs(11) passed_world(1))
  next
    case False
    obtain q p1 e1 where q: "proto_callback proto callback (p, erase_timer i (e\<lparr>world := w\<rparr>)) = (q, (p1, e1))" by (metis surj_pair)
    show ?thesis
    proof (cases "q = Inr True")
      case True
      then have lower: "waits (p1, e1)" "rank_of p1 < rank_of p" using waits_callback [OF we, of i d callback p1 e1] cb q by auto
      then obtain fuel r p' e' where r: "dispatch_due_timers fuel os proto (p1, e1) = Some (r, (p', e'))"
        "r = Inr True \<longrightarrow> waits (p', e') \<and> rank_of p' \<le> rank_of p1"
        using less.hyps [OF lower(2,1)] by fastforce
      then have "dispatch_due_timers (Suc fuel) os proto (p, e) = Some (r, (p', e'))" using eq [of fuel] q True False by simp
      then show ?thesis using r(2) lower(2)
        by (intro exI [of _ "Suc fuel"] exI [of _ r] exI [of _ p'] exI [of _ e'] conjI) auto
    next
      case no: False
      then have "\<exists>r p' e'. dispatch_due_timers (Suc 0) os proto (p, e) = Some (r, (p', e')) \<and> r \<noteq> Inr True"
        using eq [of 0] q False by (auto split: sum.splits)
      then show ?thesis by blast
    qed
  qed
qed

lemma receive_returns:
  assumes clock: "clock_advances os budget" and "waits (p, e)"
  shows "\<exists>fuel r p' e'. receive_udp fuel os proto (p, e) = Some (r, (p', e')) \<and> (r = Inr True \<longrightarrow> waits (p', e')
    \<and> (rank_of p' < rank_of p \<or> rank_of p' = rank_of p \<and> passed e e' \<and> (\<forall>d. budget d (world e') \<le> budget d (world e))))"
proof -
  have ok: "timers_ok e" "pending e \<noteq> Map.empty" using waits_ok [OF assms(2)] by auto
  obtain n d i later where x: "timer_schedule e = (n, d, i) # later" using schedule_empty [OF ok(1)] ok(2) by (cases "timer_schedule e") auto
  obtain now w where w: "os_now os (world e) = (now, w)" by fastforce
  obtain t where t: "compute_next_timeout_ms os e = (Inr t, e\<lparr>world := w\<rparr>)" "0 \<le> t"
    using x w by (simp add: compute_next_timeout_ms_def read_clock_def flow_defs Let_def int_max_def)
  obtain start w1 where w1: "os_now os w = (start, w1)" by fastforce
  obtain fuel q e2 where q: "wait_loop fuel os t start t (e\<lparr>world := w1\<rparr>) = Some (q, e2)"
    using wait_loop_returns [OF clock t(2)] by blast
  have wq: "wait_for_message fuel os t (e\<lparr>world := w\<rparr>) = Some (q, e2)" using q w1 by (simp add: wait_for_message_def)
  have pas: "passed e e2" using wait_loop_ok [OF q] passed_trans [of e "e\<lparr>world := w1\<rparr>" e2] by (simp add: wait_ok_def)
  have bud: "budget b (world e2) \<le> budget b (world e)" for b
    using wait_loop_budget [OF clock q, of b] clock_advancesD(1) [OF clock w, of b] clock_advancesD(1) [OF clock w1, of b] by simp
  note we = waits_passed [OF assms(2) pas]
  show ?thesis
  proof (cases "\<exists>msg. q = Inr (Some msg)")
    case True
    then obtain msg where msg: "q = Inr (Some msg)" by blast
    obtain r p' e' where r: "proto_receive proto msg (p, e2) = (r, (p', e'))" by (metis surj_pair)
    have "receive_udp fuel os proto (p, e) = Some (r, (p', e'))" using t(1) wq msg r by (simp add: receive_udp_def)
    moreover have "r = Inr True \<longrightarrow> waits (p', e') \<and> (rank_of p' < rank_of p \<or> rank_of p' = rank_of p \<and> e' = e2)"
      using waits_receive [OF we, of msg p' e'] r by blast
    ultimately show ?thesis using pas bud by (intro exI [of _ fuel] exI [of _ r] exI [of _ p'] exI [of _ e'] conjI) auto
  next
    case False
    then obtain r where r: "receive_udp fuel os proto (p, e) = Some (r, (p, e2))" using t(1) wq
      by (cases q; cases "projr q") (auto simp: receive_udp_def)
    then show ?thesis using pas bud we by (intro exI [of _ fuel] exI [of _ r] exI [of _ p] exI [of _ e2] conjI) auto
  qed
qed

text \<open>Each turn lowers the rank, or brings the clock closer to the deadline that the rank waits for.\<close>

lemma loop_returns:
  assumes clock: "clock_advances os budget" and "waits (p, e)"
  shows "\<exists>fuel r s'. udp_loop fuel os proto True (p, e) = Some (r, s')"
  using assms(2)
proof (induction "(rank_of p, budget (next_deadline e) (world e))" arbitrary: p e rule: wf_induct_rule [OF wf_lex_prod [OF wf_less_than wf_less_than]])
  case less: 1
  obtain f1 q p1 e1 where q: "dispatch_due_timers f1 os proto (p, e) = Some (q, (p1, e1))"
    "q = Inr True \<longrightarrow> waits (p1, e1) \<and> (rank_of p1 < rank_of p \<or> p1 = p \<and> passed e e1
       \<and> budget (next_deadline e) (world e1) < budget (next_deadline e) (world e))"
    using dispatch_returns [OF clock less.prems] by blast
  show ?case
  proof (cases "q = Inr True")
    case False
    then have "\<exists>r s'. udp_loop (Suc f1) os proto True (p, e) = Some (r, s')" using q(1) by (auto split: sum.splits bool.splits)
    then show ?thesis by blast
  next
    case True
    with q(2) have w1: "waits (p1, e1)" by simp
    obtain f2 q2 p2 e2 where q2: "receive_udp f2 os proto (p1, e1) = Some (q2, (p2, e2))"
      "q2 = Inr True \<longrightarrow> waits (p2, e2) \<and> (rank_of p2 < rank_of p1 \<or> rank_of p2 = rank_of p1 \<and> passed e1 e2
         \<and> (\<forall>d. budget d (world e2) \<le> budget d (world e1)))"
      using receive_returns [OF clock w1] by blast
    have "\<exists>f3 r s'. 0 < f3 \<and> (case q2 of Inl ex \<Rightarrow> Some (Inl ex, (p2, e2)) | Inr b \<Rightarrow> udp_loop f3 os proto b (p2, e2)) = Some (r, s')"
    proof (cases "q2 = Inr True")
      case more: True
      have same: "next_deadline e2 = next_deadline e" if "passed e1 e2" "passed e e1"
        using passed_eq(1) [OF that(1)] passed_eq(1) [OF that(2)] by (simp add: next_deadline_def)
      have "((rank_of p2, budget (next_deadline e2) (world e2)), (rank_of p, budget (next_deadline e) (world e))) \<in> less_than <*lex*> less_than"
        using q(2) q2(2) True more same by (auto intro: le_less_trans)
      from less.hyps [OF this] q2(2) more obtain f3 r s' where r: "udp_loop f3 os proto True (p2, e2) = Some (r, s')" by blast
      moreover from r have "0 < f3" by (cases f3) auto
      ultimately show ?thesis using more by auto
    next
      case False
      then have "(case q2 of Inl ex \<Rightarrow> Some (Inl ex, (p2, e2)) | Inr b \<Rightarrow> udp_loop (Suc 0) os proto b (p2, e2)) =
          Some (map_sum id (\<lambda>_. ()) q2, (p2, e2))" by (cases q2) auto
      then show ?thesis by blast
    qed
    then obtain f3 r s' where r: "(case q2 of Inl ex \<Rightarrow> Some (Inl ex, (p2, e2)) | Inr b \<Rightarrow> udp_loop f3 os proto b (p2, e2)) = Some (r, s')" by blast
    let ?f = "max f1 (max f2 f3)"
    have "dispatch_due_timers ?f os proto (p, e) = Some (q, (p1, e1))" "receive_udp ?f os proto (p1, e1) = Some (q2, (p2, e2))"
      using dispatch_mono [OF q(1)] receive_udp_mono [OF q2(1)] by auto
    moreover have "(case q2 of Inl ex \<Rightarrow> Some (Inl ex, (p2, e2)) | Inr b \<Rightarrow> udp_loop ?f os proto b (p2, e2)) = Some (r, s')"
      using r udp_loop_mono [of f3 os proto _ "(p2, e2)" "(r, s')" ?f] by (cases q2) auto
    ultimately have "udp_loop (Suc ?f) os proto True (p, e) = Some (r, s')" using True by simp
    then show ?thesis by blast
  qed
qed

end

definition coordinator_waits :: "Coordinator \<times> 'w UdpEnvironment \<Rightarrow> bool" where
  "coordinator_waits s \<longleftrightarrow> timers_ok (snd s) \<and> udp_armed (snd s) = coordinator_timers (fst s) \<and> phase (fst s) \<noteq> CoordinatorDone"

lemma coordinator_timers_some: "phase c \<noteq> CoordinatorDone \<Longrightarrow> \<exists>i callback. coordinator_timers c = [i \<mapsto> callback]"
  by (auto simp: coordinator_timers_def split: Phase.splits)

text \<open>The only timer that can fire is the one of the phase; it is gone when its callback runs.\<close>

lemma armed_expires:
  assumes "timers_ok e" "udp_armed e = [k \<mapsto> cb]" "pending e i = Some (d, callback)"
  shows "timers_ok (erase_timer i e)" "udp_armed (erase_timer i e) = Map.empty" "[k \<mapsto> cb] i = Some callback"
proof -
  show "timers_ok (erase_timer i e)" by (rule erase_timer_ok(1) [OF assms(1)])
  show a: "[k \<mapsto> cb] i = Some callback" using assms(2,3) by (metis option.simps(9) snd_conv udp_armed_def)
  have "udp_armed (erase_timer i e) = [k \<mapsto> cb](i := None)"
    using udp_armed_upd(2) [OF erase_timer_ok(2) [OF assms(1)], of i] assms(2) by simp
  also have "\<dots> = Map.empty" using a by (auto split: if_splits)
  finally show "udp_armed (erase_timer i e) = Map.empty" .
qed

lemma coordinator_expires:
  assumes "coordinator_waits (c, e)" "pending e i = Some (d, callback)"
  shows "timers_ok (erase_timer i e)" "udp_armed (erase_timer i e) = Map.empty" "coordinator_timers c i = Some callback"
proof -
  obtain k cb where k: "coordinator_timers c = [k \<mapsto> cb]" using assms(1) coordinator_timers_some [of c] by (auto simp: coordinator_waits_def)
  then show "timers_ok (erase_timer i e)" "udp_armed (erase_timer i e) = Map.empty" "coordinator_timers c i = Some callback"
    using armed_expires [of e k cb i d callback] assms by (auto simp: coordinator_waits_def)
qed

lemma coordinator_waits_passed: "coordinator_waits (c, e) \<Longrightarrow> passed e e' \<Longrightarrow> coordinator_waits (c, e')"
  using passed_eq [of e e'] by (simp add: coordinator_waits_def)

interpretation coordinator_timed: timed_object os "coordinator_protocol (udp_env os)" coordinator_waits phase_rank for os
proof unfold_locales
  fix c and e :: "'a UdpEnvironment"
  assume w: "coordinator_waits (c, e)"
  then obtain i callback where "udp_armed e = [i \<mapsto> callback]" using coordinator_timers_some [of c] by (auto simp: coordinator_waits_def)
  then have "udp_armed e \<noteq> Map.empty" by simp
  then show "timers_ok e \<and> pending e \<noteq> Map.empty" using w udp_armed_empty [of e] by (simp add: coordinator_waits_def)
  show "coordinator_waits (c, e')" if "passed e e'" for e' by (rule coordinator_waits_passed [OF w that])
  show "coordinator_waits (c', e') \<and> (phase_rank c' < phase_rank c \<or> phase_rank c' = phase_rank c \<and> e' = e)"
    if "proto_receive (coordinator_protocol (udp_env os)) msg (c, e) = (Inr True, (c', e'))" for msg c' e'
  proof -
    have r: "coordinator_receive (udp_env os) msg (c, e) = (Inr True, (c', e'))" using that by (simp add: coordinator_protocol_def)
    show ?thesis using udp.coordinator_keeps_waiting [OF _ _ r] receive_rank [OF r] w
      by (auto simp: coordinator_waits_def phase_rank_eq le_less)
  qed
  show "coordinator_waits (c', e') \<and> phase_rank c' < phase_rank c"
    if p: "pending e i = Some (d, callback)"
      and r: "proto_callback (coordinator_protocol (udp_env os)) callback (c, erase_timer i e) = (Inr True, (c', e'))" for i d callback c' e'
  proof -
    note a = coordinator_expires [OF w p]
    from udp.coordinator_timer_fires [OF a r] callback_rank [OF r]
    show ?thesis by (auto simp: coordinator_waits_def phase_rank_eq le_less)
  qed
qed

definition participant_waits :: "Participant \<times> 'w UdpEnvironment \<Rightarrow> bool" where
  "participant_waits s \<longleftrightarrow> timers_ok (snd s) \<and> udp_armed (snd s) = participant_timers (fst s) \<and> participant_state (fst s) = WaitDecision"

lemma participant_ignores:
  assumes "participant_receive env msg (p, e) = (Inr b, (p', e'))" "participant_state p = WaitDecision"
  shows "if b then p' = p \<and> e' = e else participant_state p' = ParticipantDone \<and> (\<exists>d. msg = DecisionMsg d \<and> outcome p' = Some d)"
  using assms by (cases msg) (auto simp: participant_receive_def flow_defs split: prod.splits sum.splits)

interpretation participant_timed: timed_object os "participant_protocol (udp_env os)" participant_waits "\<lambda>_. 0" for os
proof unfold_locales
  fix p and e :: "'a UdpEnvironment"
  assume w: "participant_waits (p, e)"
  then have ok: "timers_ok e" "udp_armed e = participant_timers p" "participant_timers p = [kDecisionTimeoutTimerId \<mapsto> OnDecisionTimeout]"
    by (auto simp: participant_waits_def participant_timers_def)
  then have "udp_armed e \<noteq> Map.empty" by simp
  then show "timers_ok e \<and> pending e \<noteq> Map.empty" using ok(1) udp_armed_empty [of e] by simp
  show "participant_waits (p, e')" if "passed e e'" for e' using w passed_eq [OF that] by (simp add: participant_waits_def)
  show "participant_waits (p', e') \<and> ((0 :: nat) < 0 \<or> 0 = (0 :: nat) \<and> e' = e)"
    if "proto_receive (participant_protocol (udp_env os)) msg (p, e) = (Inr True, (p', e'))" for msg p' e'
    using that w participant_ignores [of "udp_env os" msg p e True p' e'] by (simp add: participant_protocol_def participant_waits_def)
  show "participant_waits (p', e') \<and> (0 :: nat) < 0"
    if pe: "pending e i = Some (d, callback)"
      and r: "proto_callback (participant_protocol (udp_env os)) callback (p, erase_timer i e) = (Inr True, (p', e'))" for i d callback p' e'
  proof -
    note a = armed_expires [OF ok(1) ok(2) [unfolded ok(3)] pe]
    from udp.participant_timer_fires [OF a(1,2) _ r] a(3) ok(3) show ?thesis by simp
  qed
qed

section \<open>How the objects end\<close>

definition coordinator_moves :: "Coordinator \<times> 'w UdpEnvironment \<Rightarrow> SimException + bool \<Rightarrow> Coordinator \<times> 'w UdpEnvironment \<Rightarrow> bool" where
  "coordinator_moves s r s' \<longleftrightarrow> (coordinator_waits s \<and> wf_coordinator (fst s) \<longrightarrow> wf_coordinator (fst s')
     \<and> (\<forall>b. r = Inr b \<longrightarrow> (if b then coordinator_waits s' else phase (fst s') = CoordinatorDone)))"

lemma coordinator_turn: "turn os (coordinator_protocol (udp_env os)) s r s' \<Longrightarrow> coordinator_moves s r s'"
proof (induction rule: turn.induct)
  case (fire e i d callback now w p r s')
  have "passed e (e\<lparr>world := w\<rparr>)" "pending (e\<lparr>world := w\<rparr>) i = Some (d, callback)" using fire(1) by simp_all
  then show ?case unfolding coordinator_moves_def
    using coordinator_waits_passed [of p e "e\<lparr>world := w\<rparr>"] coordinator_expires [of p "e\<lparr>world := w\<rparr>" i d callback]
      udp.coordinator_timer_fires [of "erase_timer i (e\<lparr>world := w\<rparr>)" p i callback os r "fst s'" "snd s'"] fire(5)
      wf_coordinator_callback [of p "udp_env os" callback "erase_timer i (e\<lparr>world := w\<rparr>)" r "fst s'" "snd s'"]
    by (auto simp: coordinator_waits_def)
next
  case (deliver e e' msg p r s')
  then have r: "coordinator_receive (udp_env os) msg (p, e') = (r, (fst s', snd s'))" by (simp add: coordinator_protocol_def)
  show ?case unfolding coordinator_moves_def
    using coordinator_waits_passed [OF _ deliver(1), of p] udp.coordinator_keeps_waiting [OF _ _ r] wf_coordinator_receive [OF _ r]
    by (auto simp: coordinator_waits_def)
qed (auto simp: coordinator_moves_def intro: coordinator_waits_passed)

lemma coordinator_turns: "turns os (coordinator_protocol (udp_env os)) s r s' \<Longrightarrow> coordinator_moves s r s'"
  by (induction rule: turns.induct) (auto simp: coordinator_moves_def dest!: coordinator_turn)

definition participant_moves :: "Participant \<times> 'w UdpEnvironment \<Rightarrow> SimException + bool \<Rightarrow> Participant \<times> 'w UdpEnvironment \<Rightarrow> bool" where
  "participant_moves s r s' \<longleftrightarrow> (participant_waits s \<longrightarrow>
     (\<forall>b. r = Inr b \<longrightarrow> (if b then participant_waits s' else participant_state (fst s') = ParticipantDone \<and> outcome (fst s') \<noteq> None)))"

lemma participant_waits_passed: "participant_waits (p, e) \<Longrightarrow> passed e e' \<Longrightarrow> participant_waits (p, e')"
  using passed_eq [of e e'] by (simp add: participant_waits_def)

lemma participant_turn: "turn os (participant_protocol (udp_env os)) s r s' \<Longrightarrow> participant_moves s r s'"
proof (induction rule: turn.induct)
  case (fire e i d callback now w p r s')
  show ?case unfolding participant_moves_def
  proof (intro impI)
    assume "participant_waits (p, e)"
    then have ok: "timers_ok (e\<lparr>world := w\<rparr>)" "udp_armed (e\<lparr>world := w\<rparr>) = [kDecisionTimeoutTimerId \<mapsto> OnDecisionTimeout]"
      "participant_timers p = [kDecisionTimeoutTimerId \<mapsto> OnDecisionTimeout]"
      using passed_eq [of e "e\<lparr>world := w\<rparr>"] by (auto simp: participant_waits_def participant_timers_def)
    have "pending (e\<lparr>world := w\<rparr>) i = Some (d, callback)" using fire(1) by simp
    from armed_expires [OF ok(1,2) this] udp.participant_timer_fires [of "erase_timer i (e\<lparr>world := w\<rparr>)" p i callback os r "fst s'" "snd s'"] ok(3) fire(5)
    show "\<forall>b. r = Inr b \<longrightarrow> (if b then participant_waits s' else participant_state (fst s') = ParticipantDone \<and> outcome (fst s') \<noteq> None)" by auto
  qed
next
  case (deliver e e' msg p r s')
  then have "participant_receive (udp_env os) msg (p, e') = (r, (fst s', snd s'))" by (simp add: participant_protocol_def)
  then show ?case unfolding participant_moves_def
    using participant_waits_passed [OF _ deliver(1), of p] participant_ignores [of "udp_env os" msg p e' _ "fst s'" "snd s'"]
    by (fastforce simp: participant_waits_def split: if_splits)
qed (auto simp: participant_moves_def intro: participant_waits_passed)

lemma participant_turns: "turns os (participant_protocol (udp_env os)) s r s' \<Longrightarrow> participant_moves s r s'"
  by (induction rule: turns.induct) (auto simp: participant_moves_def dest!: participant_turn)

lemma coordinator_run_finishes:
  assumes clock: "clock_advances os budget" and e: "timers_ok e" "pending e = Map.empty" "\<not> ran_once e"
  shows "\<exists>fuel r c' e'. (\<forall>fuel'\<ge>fuel. udp_run fuel' os (coordinator_protocol (udp_env os)) (c, e) = Some (r, (c', e')))
    \<and> (r = Inr () \<longrightarrow> wf_coordinator c' \<and> phase c' = CoordinatorDone)"
proof -
  let ?P = "coordinator_protocol (udp_env os)" and ?e = "e\<lparr>ran_once := True, run_active := True, run_thread_id := os_this_thread os\<rparr>"
  obtain q c1 e1 where q: "coordinator_start (udp_env os) (c, ?e) = (q, (c1, e1))" by (metis surj_pair)
  have start: "timers_ok e1 \<and> (\<forall>b. q = Inr b \<longrightarrow> b \<and> phase c1 = CollectingVotes \<and> udp_armed e1 = coordinator_timers c1)"
    using udp.coordinator_starts_waiting [OF _ _ q] e(1,2) by (simp add: udp_armed_empty) blast
  show ?thesis
  proof (cases q)
    case (Inl ex)
    then have "udp_run fuel' os ?P (c, e) = Some (Inl ex, (c1, (reset_timer_state e1)\<lparr>run_active := False\<rparr>))" for fuel'
      using q e(3) by (simp add: udp_run_def coordinator_protocol_def)
    then show ?thesis by blast
  next
    case (Inr b)
    then have w: "coordinator_waits (c1, e1)" "b" "wf_coordinator c1"
      using start wf_coordinator_start [OF q] by (auto simp: coordinator_waits_def)
    obtain fuel r s' where l: "udp_loop fuel os ?P True (c1, e1) = Some (r, s')" using coordinator_timed.loop_returns [OF clock w(1)] by blast
    then have "udp_run fuel' os ?P (c, e) = Some (r, (fst s', (reset_timer_state (snd s'))\<lparr>run_active := False\<rparr>))" if "fuel \<le> fuel'" for fuel'
      using udp_loop_mono [OF l that] q e(3) Inr w(2) by (simp add: udp_run_def coordinator_protocol_def)
    moreover have "wf_coordinator (fst s') \<and> phase (fst s') = CoordinatorDone" if "r = Inr ()"
      using coordinator_turns [OF udp_coordinator.loop_turns [OF _ l]] start w that by (simp add: coordinator_moves_def) blast
    ultimately show ?thesis by blast
  qed
qed

text \<open>C11. When the clock goes on, the objects come to an end whatever the network does: with enough fuel the run of a
  coordinator returns, and so does the loop of a participant that has voted and armed its timer. A coordinator that returns
  without an exception has finished and decided, a participant has finished with an outcome; a commit of the
  coordinator rests on a vote of every participant.\<close>

theorem udp_objects_finish:
  assumes clock: "clock_advances os budget" and ok: "timers_ok e"
  shows "(pending e = Map.empty \<and> \<not> ran_once e \<longrightarrow>
      (\<exists>fuel r c' e'. (\<forall>fuel'\<ge>fuel. udp_run fuel' os (coordinator_protocol (udp_env os)) (c, e) = Some (r, (c', e')))
        \<and> (r = Inr () \<longrightarrow> phase c' = CoordinatorDone \<and> coord_decision c' \<noteq> None
             \<and> (coord_decision c' = Some Commit \<longrightarrow> (\<forall>i. 1 \<le> i \<and> i \<le> num_participants c' \<longrightarrow> vote_seen c' ! i)))))
    \<and> (udp_armed e = participant_timers p \<and> participant_state p = WaitDecision \<longrightarrow>
      (\<exists>fuel r p' e'. (\<forall>fuel'\<ge>fuel. udp_loop fuel' os (participant_protocol (udp_env os)) True (p, e) = Some (r, (p', e')))
        \<and> (r = Inr () \<longrightarrow> participant_state p' = ParticipantDone \<and> outcome p' \<noteq> None)))"
proof (intro conjI impI, goal_cases)
  case 1
  from coordinator_run_finishes [OF clock ok 1 [THEN conjunct1] 1 [THEN conjunct2], of c] obtain fuel r c' e' where
    run: "\<forall>fuel'\<ge>fuel. udp_run fuel' os (coordinator_protocol (udp_env os)) (c, e) = Some (r, (c', e'))"
    and fin: "r = Inr () \<longrightarrow> wf_coordinator c' \<and> phase c' = CoordinatorDone" by blast
  have "r = Inr () \<longrightarrow> phase c' = CoordinatorDone \<and> coord_decision c' \<noteq> None
      \<and> (coord_decision c' = Some Commit \<longrightarrow> (\<forall>i. 1 \<le> i \<and> i \<le> num_participants c' \<longrightarrow> vote_seen c' ! i))"
    using fin card_marks_full [of "num_participants c'" "vote_seen c'"] by (auto simp: wf_coordinator_def)
  with run show ?case by blast
next
  case 2
  then have w: "participant_waits (p, e)" using ok by (simp add: participant_waits_def)
  obtain fuel r s' where l: "udp_loop fuel os (participant_protocol (udp_env os)) True (p, e) = Some (r, s')"
    using participant_timed.loop_returns [OF clock w] by blast
  have "participant_state (fst s') = ParticipantDone \<and> outcome (fst s') \<noteq> None" if "r = Inr ()"
    using participant_turns [OF udp_participant.loop_turns [OF _ l]] ok w that by (simp add: participant_moves_def) blast
  then show ?case
    using udp_loop_mono [OF l] by (intro exI [of _ fuel] exI [of _ r] exI [of _ "fst s'"] exI [of _ "snd s'"]) auto
qed

theorem udp_objects_finish_witness:
  "\<exists>fuel r c' e'. (\<forall>fuel'\<ge>fuel. udp_run fuel' quiet_os (coordinator_protocol (udp_env quiet_os)) (make_coordinator 2 False, quiet_env) = Some (r, (c', e')))
     \<and> (r = Inr () \<longrightarrow> coord_decision c' \<noteq> None)"
proof -
  have "clock_advances quiet_os (\<lambda>d w. nat (d - w))" by (auto simp: clock_advances_def quiet_os_def)
  from udp_objects_finish [OF this quiet_env_ok(1), of "make_coordinator 2 False"] quiet_env_ok(2) quiet_env_simps(4) show ?thesis by blast
qed

end
