(* ===== verification/Spec2Isabelle.thy ===== *)
theory Spec2Isabelle
  imports Pool Format Tpc_Machine Udp_Liveness
begin

text \<open>
  A verification library for a header-only model checker of message-passing programs, \<^verbatim>\<open>src/include/dpor\<close>, and
  for the two-phase commit example that comes with it, \<^verbatim>\<open>src/examples/two_phase_commit_timeout\<close>.

  \<^bold>\<open>The program.\<close> A program under test is a vector of thread functions. A thread function is a pure function of the values its thread has
  observed and of the step; it offers the next event: a send, a receive, a nondeterministic choice or an
  error. The checker explores executions, which are graphs of events with a program order and a reads-from map. It adds the next event of
  the first thread that has one, branches over the sends a receive may read and over the values of a choice, and
  after each send revisits earlier receives that may read it instead. Graphs that are not consistent are cut. Complete,
  blocked, failed and cut-off executions go to an observer. A sequential executor keeps the search in one thread; a parallel one hands
  branches to a pool of workers. The example drives the same protocol objects in two environments, a simulated one that turns them into
  thread functions, and one over UDP.

  \<^bold>\<open>How the model is written.\<close> A C++ function is a definition of the same name. What may throw returns \<open>exn + 'a\<close>, the error first. Code
  that changes an object takes the object as a record and returns it; the explorer and the executors are actions that thread a state and
  keep it when they throw. Event indices are 32-bit words, simulation values 64-bit words; thread and event ids, which are only compared and used as vector
  indices, are natural numbers with the caps the code checks, and the conversion of participant ids to thread ids wraps at 32 bits. Code that is not part of the repository is a parameter: thread functions, matchers,
  observers, the clock, and the operating system under the UDP transport.

  \<^bold>\<open>Base.\<close> \<^verbatim>\<open>Prelude\<close> holds the vector operations and generic facts. \<^verbatim>\<open>Errors\<close> is \<^verbatim>\<open>errors.hpp\<close> and \<^verbatim>\<open>invoke_user_code\<close>. \<^verbatim>\<open>Events\<close> is
  \<^verbatim>\<open>model/event.hpp\<close>. \<^verbatim>\<open>Relations\<close> is \<^verbatim>\<open>model/relation.hpp\<close>: the concept is the locale \<open>Relation\<close>, the two stored relations interpret it, and
  composition, union and transitive closure are shown to be relations again.

  \<^bold>\<open>Graphs.\<close> \<^verbatim>\<open>Used_Index_Set\<close>, \<^verbatim>\<open>Reads_From\<close> and \<^verbatim>\<open>Execution_Graph\<close> are \<^verbatim>\<open>model/execution_graph.hpp\<close>; the first two refine a finite set and a
  finite map through locales. \<^verbatim>\<open>Exploration_Graph\<close> is the state and the mutators of \<^verbatim>\<open>model/exploration_graph.hpp\<close>; \<^verbatim>\<open>Exploration_Invariant\<close>
  says what its caches mean and that every mutator keeps them. \<^verbatim>\<open>Restriction\<close>, \<^verbatim>\<open>Graph_Queries\<close> and \<^verbatim>\<open>Rollback\<close> show that restriction projects, that
  queries on caches equal scans, that rolling back restores the graph, and that the unread sends are right in every graph that the operations build from the empty one.
  A receive is assigned a send of the graph or bottom, as the search does it; \<open>rollback_dangling_source_fails\<close> shows what happens otherwise. \<^verbatim>\<open>Csr_Kahn\<close> and \<^verbatim>\<open>Porf\<close> are the causal-order cache: adjacency, topological order
  and vector clocks, which decide reachability.

  \<^bold>\<open>Consistency.\<close> \<^verbatim>\<open>Cycle_Dfs\<close> and \<^verbatim>\<open>Consistency\<close> are \<^verbatim>\<open>model/consistency.hpp\<close>. \<^verbatim>\<open>Consistency_Spec\<close> and \<^verbatim>\<open>Fifo_Spec\<close> define consistency over
  events and reads-from alone, in both communication models, and show that the checkers decide it.

  \<^bold>\<open>Search.\<close> \<^verbatim>\<open>Program\<close> is \<^verbatim>\<open>algo/program.hpp\<close>; the rest is \<^verbatim>\<open>algo/dpor.hpp\<close>. \<^verbatim>\<open>Dpor_Core\<close> has the next event, compatible sends, previous sets and rewiring;
  \<^verbatim>\<open>Tiebreaker\<close> the least consistent source of a receive; \<^verbatim>\<open>Masked_View\<close>, \<^verbatim>\<open>Masked_Porf\<close>, \<^verbatim>\<open>Masked_Reset\<close> and \<^verbatim>\<open>Masked_Correct\<close> the same on a keep mask,
  equal to the computation on the restricted graph; \<^verbatim>\<open>Revisit\<close> and \<^verbatim>\<open>Revisit_Spec\<close> the revisit condition and the revisit children. \<^verbatim>\<open>Executor\<close> has the
  configuration, the observers and the sequential executor, \<^verbatim>\<open>Explorer\<close> the depth-first explorer with all its frames and \<open>verify\<close>. \<^verbatim>\<open>Action_Logic\<close>
  and \<^verbatim>\<open>Explorer_Moves\<close> give the explorer an abstract account over the locale \<open>executor\<close>; \<^verbatim>\<open>Explorer_Termination\<close> shows that it ends for every
  program and every observer, and \<^verbatim>\<open>Sequential\<close> interprets the locale and shows that the counters of a result tally the executions the observer was given. \<^verbatim>\<open>Conformance\<close>, \<^verbatim>\<open>Nodes\<close> and \<^verbatim>\<open>Soundness\<close> show that
  everything published is a consistent execution of the program, of the kind it is published as, and that no exception comes out of the search itself. \<^verbatim>\<open>Machine\<close> is
  an operational semantics of programs, threads that take steps and messages under way. Consistent executions are what its runs leave,
  in both directions, so every published execution is a run that ends as its kind says: no alarm is false.

  \<^bold>\<open>Parallel search.\<close> \<^verbatim>\<open>Parallel\<close> is the parallel executor as one worker runs it, between arbitrary actions of the others; \<^verbatim>\<open>Parallel_Worker\<close> interprets the
  locale \<open>executor\<close> for it. \<^verbatim>\<open>Pool\<close> is the worker loop with its mutex and condition variable as a step relation: bounds, progress until a stop is requested, the
  result of a parallel verification, and a run in which a stop request is lost.

  \<^bold>\<open>Output.\<close> \<^verbatim>\<open>Text\<close> reads and writes words and numbers, \<^verbatim>\<open>Format\<close> is \<^verbatim>\<open>model/format.hpp\<close>.

  \<^bold>\<open>Two-phase commit.\<close> \<^verbatim>\<open>Tpc_Protocol\<close> is \<^verbatim>\<open>protocol.hpp\<close>: messages, coordinator and participant over any environment. \<^verbatim>\<open>Tpc_Environments\<close> has what
  the objects keep in any environment and the contract of timers as the locale \<open>environment\<close>, which both environments interpret. \<^verbatim>\<open>Tpc_Bridge\<close> and \<^verbatim>\<open>Tpc_Sim\<close> are
  \<^verbatim>\<open>sim/bridge.hpp\<close>, \<^verbatim>\<open>sim/dpor_types.hpp\<close> and \<^verbatim>\<open>sim/crash_before_decision.hpp\<close>. \<^verbatim>\<open>Tpc_Replay\<close>, \<^verbatim>\<open>Tpc_Coordinator\<close> and \<^verbatim>\<open>Tpc_Participant\<close> show which event the thread functions offer at
  each step; \<^verbatim>\<open>Histories\<close>, \<^verbatim>\<open>Tpc_Coord_History\<close> and \<^verbatim>\<open>Tpc_Part_History\<close> follow a thread along an execution; \<^verbatim>\<open>Tpc_Executions\<close>, \<^verbatim>\<open>Tpc_Sample\<close>,
  \<^verbatim>\<open>Tpc_Correct\<close> and \<^verbatim>\<open>Tpc_Verified\<close> show agreement, validity and crash safety of every execution for any number of participants whose thread ids fit into 32 bits, and what a verification of the
  program reports. \<^verbatim>\<open>Tpc_Machine\<close> carries this over to every run of the program, with no checker in between, and adds that no run ends in a deadlock.
  \<^verbatim>\<open>Udp_Network\<close> is \<^verbatim>\<open>udp_network.hpp\<close>; \<^verbatim>\<open>Udp_Timers\<close> shows that its two containers implement one map of timers, \<^verbatim>\<open>Udp_Run\<close> that
  a run is a sequence of due timers and parsed datagrams, and \<^verbatim>\<open>Udp_Liveness\<close> that the objects come to an end whatever the network does.

  \<^bold>\<open>Bounds and fuel.\<close> The recursion of the search is bounded by the configured depth, and its termination is proved without fuel. Two loops run on fuel. The replay loop of the
  simulation gets two units more than the requested step; each turn counts one operation, and \<open>coordinator_conforms\<close> and \<open>participant_conforms\<close> show that this is enough for every
  trace. The loops over UDP last as long as the network and the clock decide; \<open>udp_objects_finish\<close> shows that some fuel is enough when the clock goes on, and that
  more changes nothing.

  \<^bold>\<open>Assumptions.\<close> The soundness theorems take thread functions that do not throw on the executions of their own program, and matchers that do not throw. The
  theorems on two-phase commit take fewer than \<open>2 ^ 32 - 1\<close> participants, so that no two threads get the same id. The
  parallel theorems take the other workers to keep what a worker itself is shown to keep. The UDP theorems take the deadlines to be exact, which
  holds for timeouts below 292 years.

  \<^bold>\<open>Not modelled.\<close> That the search misses no execution and repeats none: the theorems are about what is published, not about what is left out. Memory exhaustion,
  capacity hints such as \<^verbatim>\<open>reserve_events\<close>, hashing of values, move construction as opposed to copying, and the deleted overloads that reject temporaries. The diagnostic
  cross-check of the masked tiebreaker, which is proved never to fire. The order of individual memory accesses below the level of one access to a shared
  member: the relaxed atomics are read as atomics. Calls of the UDP environment from several threads at once. The benchmark driver
  \<^verbatim>\<open>benchmarks\<close> is command-line parsing and time measurement around \<open>verify\<close>, and the oracle in \<^verbatim>\<open>tests/support\<close> is test code.
\<close>

end
